(* ===== verification/Prelude.thy ===== *)
theory Prelude
  imports Main "HOL-Library.Word"
begin

unbundle bit_operations_syntax

text \<open>
  What every component of the library shares: bytes and little-endian integers, the
  byte-addressed store of the C program, the heap behind \<^verbatim>\<open>realloc\<close> and \<^verbatim>\<open>free\<close>, and the
  sequencing of calls that return a status.

  A C function that reports success as a \<^verbatim>\<open>bool\<close> becomes a function into
  \<open>(bool \<times> 's) option\<close>: the status, the state after the call, and \<open>None\<close> when the run has no
  defined result (an access outside mapped memory, a call through a null pointer, a
  \<^verbatim>\<open>free\<close> of something that is not a live block, or recursion deeper than the fuel).
  Theorems that say a run is \<open>Some\<close> therefore say that it returns and that it is memory-safe.
\<close>

named_theorems size_simps \<open>wrap-around of C's unsigned types on values in range\<close>
named_theorems mem_simps \<open>loads and stores of the byte memory\<close>
named_theorems eval_simps \<open>evaluation of the model on concrete values\<close>

subsection \<open>C's unsigned widths on natural numbers\<close>

definition size_t :: "nat \<Rightarrow> nat" where
  "size_t n = n mod 2 ^ 64"

definition u32 :: "nat \<Rightarrow> nat" where
  "u32 n = n mod 2 ^ 32"

subsection \<open>Bytes and little-endian numbers\<close>

type_synonym byte = "8 word"
type_synonym addr = nat

fun le_nat :: "byte list \<Rightarrow> nat" where
  "le_nat [] = 0"
| "le_nat (b # bs) = unat b + 256 * le_nat bs"

fun nat_le :: "nat \<Rightarrow> nat \<Rightarrow> byte list" where
  "nat_le 0 v = []"
| "nat_le (Suc n) v = word_of_nat (v mod 256) # nat_le n (v div 256)"

definition to_signed :: "nat \<Rightarrow> nat \<Rightarrow> int" where
  "to_signed n v = (if v < 2 ^ (8 * n - 1) then int v else int v - 2 ^ (8 * n))"

definition of_signed :: "nat \<Rightarrow> int \<Rightarrow> nat" where
  "of_signed n i = nat (i mod 2 ^ (8 * n))"

definition cast_signed :: "nat \<Rightarrow> int \<Rightarrow> int" where
  "cast_signed n i = to_signed n (of_signed n i)"

subsection \<open>The byte memory\<close>

type_synonym mem = "addr \<rightharpoonup> byte"

fun load :: "mem \<Rightarrow> addr \<Rightarrow> nat \<Rightarrow> byte list option" where
  "load m a 0 = Some []"
| "load m a (Suc n) =
     (case m a of None \<Rightarrow> None
      | Some b \<Rightarrow> (case load m (Suc a) n of None \<Rightarrow> None | Some bs \<Rightarrow> Some (b # bs)))"

fun store :: "mem \<Rightarrow> addr \<Rightarrow> byte list \<Rightarrow> mem option" where
  "store m a [] = Some m"
| "store m a (b # bs) =
     (case m a of None \<Rightarrow> None | Some _ \<Rightarrow> store (m(a \<mapsto> b)) (Suc a) bs)"

definition load_uint :: "mem \<Rightarrow> addr \<Rightarrow> nat \<Rightarrow> nat option" where
  "load_uint m a n = map_option le_nat (load m a n)"

definition load_sint :: "mem \<Rightarrow> addr \<Rightarrow> nat \<Rightarrow> int option" where
  "load_sint m a n = map_option (to_signed n) (load_uint m a n)"

definition mapped :: "mem \<Rightarrow> addr \<Rightarrow> nat \<Rightarrow> bool" where
  "mapped m a n \<longleftrightarrow> (\<forall>i < n. m (a + i) \<noteq> None)"

subsection \<open>The heap behind realloc and free\<close>

text \<open>
  \<open>blocks\<close> holds the live allocations with their sizes, \<open>limit\<close> the next fresh address,
  \<open>avail\<close> the bytes the allocator can still give out and \<open>junk\<close> the indeterminate contents of
  fresh memory. Reallocating always moves the block, the case that exposes stale pointers.
\<close>

record heap =
  bytes :: mem
  blocks :: "addr \<rightharpoonup> nat"
  limit :: addr
  avail :: nat
  junk :: "addr \<Rightarrow> byte"

definition unmap :: "mem \<Rightarrow> addr \<Rightarrow> nat \<Rightarrow> mem" where
  "unmap m a n = (\<lambda>x. if a \<le> x \<and> x < a + n then None else m x)"

definition fresh_block :: "heap \<Rightarrow> nat \<Rightarrow> byte list \<Rightarrow> heap" where
  "fresh_block h n old =
     h\<lparr>bytes := (\<lambda>x. if limit h \<le> x \<and> x < limit h + n
                      then Some (if x - limit h < length old then old ! (x - limit h) else junk h x)
                      else bytes h x),
       blocks := (blocks h)(limit h \<mapsto> n),
       limit := limit h + n + 1,
       avail := avail h - n\<rparr>"

definition free :: "heap \<Rightarrow> addr \<Rightarrow> heap option" where
  "free h p =
     (if p = 0 then Some h
      else case blocks h p of None \<Rightarrow> None
           | Some n \<Rightarrow> Some (h\<lparr>bytes := unmap (bytes h) p n, blocks := (blocks h)(p := None)\<rparr>))"

definition realloc :: "heap \<Rightarrow> addr \<Rightarrow> nat \<Rightarrow> (addr \<times> heap) option" where
  "realloc h p n =
     (if p = 0 then
        (if n > avail h then Some (0, h) else Some (limit h, fresh_block h n []))
      else case blocks h p of None \<Rightarrow> None
           | Some old \<Rightarrow>
               if n > avail h then Some (0, h)
               else (case load (bytes h) p (min old n) of None \<Rightarrow> None
                     | Some bs \<Rightarrow>
                         (case free h p of None \<Rightarrow> None
                          | Some h' \<Rightarrow> Some (limit h', fresh_block h' n bs))))"

definition hstore :: "heap \<Rightarrow> addr \<Rightarrow> byte list \<Rightarrow> heap option" where
  "hstore h a bs = map_option (\<lambda>m. h\<lparr>bytes := m\<rparr>) (store (bytes h) a bs)"

subsection \<open>Sequencing calls\<close>

text \<open>\<open>chk r k\<close> is \<^verbatim>\<open>if (!call) return false;\<close> followed by the rest \<open>k\<close>.\<close>

definition chk :: "(bool \<times> 's) option \<Rightarrow> ('s \<Rightarrow> (bool \<times> 's) option) \<Rightarrow> (bool \<times> 's) option" where
  "chk r k = (case r of None \<Rightarrow> None | Some (ok, s) \<Rightarrow> if ok then k s else Some (False, s))"

subsection \<open>Decimal numbers\<close>

text \<open>The digits \<^verbatim>\<open>printf\<close> writes for \<^verbatim>\<open>%u\<close>.\<close>

fun decimal :: "nat \<Rightarrow> string" where
  "decimal n = (if n < 10 then [char_of (48 + n)] else decimal (n div 10) @ [char_of (48 + n mod 10)])"

declare decimal.simps [simp del]

subsection \<open>Lemmas\<close>

lemma size_t_small [size_simps]: "n < 2 ^ 64 \<Longrightarrow> size_t n = n"
  by (simp add: size_t_def)

lemma u32_small [size_simps]: "n < 2 ^ 32 \<Longrightarrow> u32 n = n"
  by (simp add: u32_def)

lemma u32_bound: "u32 n < 2 ^ 32"
  by (simp add: u32_def)

lemma size_t_bound: "size_t n < 2 ^ 64"
  by (simp add: size_t_def)

lemma nat_le_numeral [eval_simps]:
  "nat_le (numeral k) v = word_of_nat (v mod 256) # nat_le (pred_numeral k) (v div 256)"
  unfolding numeral_eq_Suc [of k] by (rule nat_le.simps)

lemma load_numeral [eval_simps]:
  "load m a (numeral k) =
     (case m a of None \<Rightarrow> None
      | Some b \<Rightarrow>
          (case load m (Suc a) (pred_numeral k) of None \<Rightarrow> None | Some bs \<Rightarrow> Some (b # bs)))"
  unfolding numeral_eq_Suc [of k] by (rule load.simps)

lemma replicate_numeral [eval_simps]: "replicate (numeral k) x = x # replicate (pred_numeral k) x"
  unfolding numeral_eq_Suc [of k] by (rule replicate.simps)

declare of_signed_def [eval_simps] to_signed_def [eval_simps] cast_signed_def [eval_simps]
  load_uint_def [eval_simps] load_sint_def [eval_simps] hstore_def [eval_simps]

lemma length_nat_le [simp]: "length (nat_le n v) = n"
  by (induction n arbitrary: v) auto

lemma ucast_of_nat_down:
  "LENGTH('b::len) \<le> LENGTH('a::len) \<Longrightarrow>
   ucast (word_of_nat n :: 'a word) = (word_of_nat n :: 'b word)"
  by (rule bit_word_eqI) (simp add: bit_simps)

text \<open>Bytes are compared bit by bit.\<close>

lemma byte_index: "n < 8 \<Longrightarrow> n \<in> {0, 1, 2, 3, 4, 5, 6, 7}" for n :: nat
  by auto

lemma byte_eqI:
  assumes "\<forall>n \<in> {0, 1, 2, 3, 4, 5, 6, 7}. bit a n = bit b n"
  shows "(a :: byte) = b"
proof (rule bit_word_eqI)
  fix n
  assume "n < LENGTH(8)"
  then have "n \<in> {0, 1, 2, 3, 4, 5, 6, 7}" by (intro byte_index) simp
  with assms show "bit a n = bit b n" by blast
qed

lemma byte_disjoint_add:
  assumes "\<forall>n \<in> {0, 1, 2, 3, 4, 5, 6, 7}. \<not> (bit a n \<and> bit b n)"
  shows "(a :: byte) + b = a OR b"
proof (rule disjunctive_add)
  fix n
  show "\<not> bit a n \<or> \<not> bit b n"
  proof (cases "n < 8")
    case True
    from byte_index [OF this] assms show ?thesis by blast
  next
    case False
    then show ?thesis using bit_imp_le_length [of a n] by auto
  qed
qed

lemma bit_byte_high [simp]: "8 \<le> n \<Longrightarrow> \<not> bit (w :: byte) n"
  using bit_imp_le_length [of w n] by auto

lemma unat_take_bit_mod: "unat (take_bit n w) = unat w mod 2 ^ n"
  for w :: "'a::len word"
  by (simp add: unsigned_take_bit_eq flip: take_bit_eq_mod)

lemma unat_drop_bit_div: "unat (drop_bit n w) = unat w div 2 ^ n"
  for w :: "'a::len word"
  by (simp add: unat_drop_bit_eq flip: drop_bit_eq_div)

lemma and_low_mask: "w AND mask n = word_of_nat (unat w mod 2 ^ n)"
  for w :: "'a::len word"
proof -
  have "w AND mask n = word_of_nat (unat (take_bit n w))" by (simp add: take_bit_eq_mask)
  then show ?thesis unfolding unat_take_bit_mod .
qed

lemma unat_u64_less: "unat (w :: 64 word) < 2 ^ 64"
proof -
  have "unat w < 2 ^ LENGTH(64)" by (rule unsigned_less)
  then show ?thesis by simp
qed

lemma unat_u32_less: "unat (w :: 32 word) < 2 ^ 32"
proof -
  have "unat w < 2 ^ LENGTH(32)" by (rule unsigned_less)
  then show ?thesis by simp
qed

lemma unat_byte_less: "unat (b :: byte) < 256"
proof -
  have "unat b < 2 ^ LENGTH(8)" by (rule unsigned_less)
  then show ?thesis by simp
qed

lemma le_nat_nat_le: "le_nat (nat_le n v) = v mod 256 ^ n"
proof (induction n arbitrary: v)
  case 0
  then show ?case by simp
next
  case (Suc n)
  have "le_nat (nat_le (Suc n) v) = v mod 256 + 256 * (v div 256 mod 256 ^ n)"
    by (simp add: Suc unat_of_nat take_bit_eq_mod)
  also have "\<dots> = v mod (256 * 256 ^ n)"
    by (simp add: mod_mult2_eq)
  finally show ?case by simp
qed

lemma le_nat_bound: "le_nat bs < 256 ^ length bs"
proof (induction bs)
  case Nil
  then show ?case by simp
next
  case (Cons b bs)
  have "unat b < 256" by (rule unat_byte_less)
  with Cons show ?case by simp
qed

lemma nat_le_le_nat: "nat_le (length bs) (le_nat bs) = bs"
proof (induction bs)
  case Nil
  then show ?case by simp
next
  case (Cons b bs)
  have "unat b < 256" by (rule unat_byte_less)
  with Cons show ?case by simp
qed

lemma load_length: "load m a n = Some bs \<Longrightarrow> length bs = n"
  by (induction n arbitrary: a bs) (auto split: option.splits)

lemma load_nth: "load m a n = Some bs \<Longrightarrow> i < n \<Longrightarrow> m (a + i) = Some (bs ! i)"
proof (induction n arbitrary: a bs i)
  case (Suc n)
  then obtain b bs' where b: "m a = Some b" "load m (Suc a) n = Some bs'" "bs = b # bs'"
    by (auto split: option.splits)
  with Suc.prems Suc.IH [OF b(2), of "i - 1"] show ?case
    by (cases i) auto
qed simp

lemma all_less_Suc_shift: "(\<forall>i < Suc n. P i) \<longleftrightarrow> P 0 \<and> (\<forall>i < n. P (Suc i))"
  by (auto simp: less_Suc_eq_0_disj)

lemma mapped_0 [simp]: "mapped m a 0"
  by (simp add: mapped_def)

lemma mapped_Suc [simp]: "mapped m a (Suc n) \<longleftrightarrow> m a \<noteq> None \<and> mapped m (Suc a) n"
  unfolding mapped_def all_less_Suc_shift by simp

lemma load_total: "mapped m a n \<Longrightarrow> \<exists>bs. load m a n = Some bs"
  by (induction n arbitrary: a) fastforce+

lemma load_mapped: "load m a n = Some bs \<Longrightarrow> mapped m a n"
  unfolding mapped_def by (auto dest: load_nth)

lemma load_eqI:
  assumes "length bs = n" "\<forall>i < n. m (a + i) = Some (bs ! i)"
  shows "load m a n = Some bs"
  using assms
proof (induction n arbitrary: a bs)
  case (Suc n)
  then obtain b bs' where bs: "bs = b # bs'" by (cases bs) auto
  have "load m (Suc a) n = Some bs'"
    using Suc.prems bs by (intro Suc.IH) (auto simp: all_less_Suc_shift)
  moreover have "m a = Some b" using Suc.prems(2) bs by (auto simp: all_less_Suc_shift)
  ultimately show ?case using bs by simp
qed simp

lemma load_cong:
  assumes "\<forall>i < n. m (a + i) = m' (a + i)"
  shows "load m a n = load m' a n"
  using assms by (induction n arbitrary: a) (auto simp: all_less_Suc_shift split: option.splits)

text \<open>A store changes exactly the bytes it writes and keeps the mapped addresses.\<close>

lemma store_outside: "store m a bs = Some m' \<Longrightarrow> x < a \<or> a + length bs \<le> x \<Longrightarrow> m' x = m x"
proof (induction bs arbitrary: m a)
  case (Cons b bs)
  then show ?case by (fastforce split: option.splits)
qed simp

lemma store_inside: "store m a bs = Some m' \<Longrightarrow> i < length bs \<Longrightarrow> m' (a + i) = Some (bs ! i)"
proof (induction bs arbitrary: m a i)
  case (Cons b bs)
  then have st: "store (m(a \<mapsto> b)) (Suc a) bs = Some m'" by (auto split: option.splits)
  show ?case
  proof (cases i)
    case 0
    with store_outside [OF st, of a] show ?thesis by simp
  next
    case (Suc j)
    with Cons.IH [OF st, of j] Cons.prems show ?thesis by simp
  qed
qed simp

lemma store_eq:
  assumes "store m a bs = Some m'"
  shows "m' x = (if a \<le> x \<and> x < a + length bs then Some (bs ! (x - a)) else m x)"
proof (cases "a \<le> x \<and> x < a + length bs")
  case True
  then have "m' (a + (x - a)) = Some (bs ! (x - a))"
    using assms by (intro store_inside) auto
  with True show ?thesis by simp
next
  case False
  with store_outside [OF assms, of x] show ?thesis by auto
qed

lemma mapped_upd [simp]: "mapped m a n \<Longrightarrow> mapped (m(x \<mapsto> b)) a n"
  by (auto simp: mapped_def)

lemma store_total: "mapped m a (length bs) \<Longrightarrow> \<exists>m'. store m a bs = Some m'"
  by (induction bs arbitrary: m a) fastforce+

lemma store_mapped: "store m a bs = Some m' \<Longrightarrow> mapped m a (length bs)"
proof (induction bs arbitrary: m a)
  case (Cons b bs)
  then have "mapped (m(a \<mapsto> b)) (Suc a) (length bs)" and "m a \<noteq> None"
    by (auto split: option.splits)
  then show ?case by (auto simp: mapped_def all_less_Suc_shift split: if_splits)
qed simp

lemma store_dom: "store m a bs = Some m' \<Longrightarrow> dom m' = dom m"
proof (induction bs arbitrary: m a)
  case (Cons b bs)
  then show ?case by (fastforce split: option.splits)
qed simp

lemma store_mapped_iff: "store m a bs = Some m' \<Longrightarrow> mapped m' x n = mapped m x n"
  using store_dom unfolding mapped_def by (metis domIff)

lemma load_store_same [mem_simps]:
  "store m a bs = Some m' \<Longrightarrow> length bs = n \<Longrightarrow> load m' a n = Some bs"
  by (rule load_eqI) (auto simp: store_eq)

lemma load_store_other [mem_simps]:
  assumes "store m a bs = Some m'" "x + n \<le> a \<or> a + length bs \<le> x"
  shows "load m' x n = load m x n"
  using assms by (intro load_cong) (auto simp: store_eq)

lemma load_uint_total: "mapped m a n \<Longrightarrow> \<exists>v. load_uint m a n = Some v \<and> v < 256 ^ n"
  using load_total [of m a n] le_nat_bound
  by (fastforce simp: load_uint_def dest: load_length)

lemma load_uint_bound: "load_uint m a n = Some v \<Longrightarrow> v < 256 ^ n"
  using le_nat_bound by (auto simp: load_uint_def dest: load_length)

lemma load_uint_store [mem_simps]:
  "store m a (nat_le n v) = Some m' \<Longrightarrow> v < 256 ^ n \<Longrightarrow> load_uint m' a n = Some v"
  by (simp add: load_uint_def load_store_same le_nat_nat_le)

lemma hstore_bytes:
  "hstore h a bs = Some h' \<longleftrightarrow>
   (\<exists>m. store (bytes h) a bs = Some m \<and> h' = h\<lparr>bytes := m\<rparr>)"
  by (auto simp: hstore_def)

lemma chk_simps [simp]:
  "chk None k = None"
  "chk (Some (True, s)) k = k s"
  "chk (Some (False, s)) k = Some (False, s)"
  by (simp_all add: chk_def)

lemma chk_Some_conv:
  "chk r k = Some (ok, s') \<longleftrightarrow>
   (\<exists>s. r = Some (True, s) \<and> k s = Some (ok, s')) \<or> (r = Some (False, s') \<and> \<not> ok)"
  by (auto simp: chk_def split: option.splits prod.splits if_splits)

end
