(* ===== verification/Pb_Types.thy ===== *)
theory Pb_Types
  imports Prelude
begin

text \<open>
  \<^verbatim>\<open>nanopb/pb.h\<close>: the type codes, the field descriptor \<^verbatim>\<open>pb_field_t\<close>, the layout of the
  C structures the encoder and the decoder look into, and the macros the generated
  descriptors are written with. The build defines \<^verbatim>\<open>PB_FIELD_32BIT\<close>, \<^verbatim>\<open>PB_ENABLE_MALLOC\<close> and
  \<^verbatim>\<open>PB_NO_PACKED_STRUCTS\<close>; pointers have 8 bytes and integers are little-endian.

  A descriptor's \<^verbatim>\<open>ptr\<close> is null, a submessage's descriptor array or the bytes of a default
  value. Arrays keep their terminator \<^verbatim>\<open>PB_LAST_FIELD\<close>, and message types are trees: a message
  type that contains itself has no finite descriptor here.
\<close>

subsection \<open>Type codes\<close>

type_synonym pb_type = "8 word"

abbreviation (input) PB_LTYPE_VARINT :: pb_type where "PB_LTYPE_VARINT \<equiv> 0x00"
abbreviation (input) PB_LTYPE_UVARINT :: pb_type where "PB_LTYPE_UVARINT \<equiv> 0x01"
abbreviation (input) PB_LTYPE_SVARINT :: pb_type where "PB_LTYPE_SVARINT \<equiv> 0x02"
abbreviation (input) PB_LTYPE_FIXED32 :: pb_type where "PB_LTYPE_FIXED32 \<equiv> 0x03"
abbreviation (input) PB_LTYPE_FIXED64 :: pb_type where "PB_LTYPE_FIXED64 \<equiv> 0x04"
abbreviation (input) PB_LTYPE_LAST_PACKABLE :: pb_type where "PB_LTYPE_LAST_PACKABLE \<equiv> 0x04"
abbreviation (input) PB_LTYPE_BYTES :: pb_type where "PB_LTYPE_BYTES \<equiv> 0x05"
abbreviation (input) PB_LTYPE_STRING :: pb_type where "PB_LTYPE_STRING \<equiv> 0x06"
abbreviation (input) PB_LTYPE_SUBMESSAGE :: pb_type where "PB_LTYPE_SUBMESSAGE \<equiv> 0x07"
abbreviation (input) PB_LTYPE_EXTENSION :: pb_type where "PB_LTYPE_EXTENSION \<equiv> 0x08"
abbreviation (input) PB_LTYPE_FIXED_LENGTH_BYTES :: pb_type where "PB_LTYPE_FIXED_LENGTH_BYTES \<equiv> 0x09"
abbreviation (input) PB_LTYPE_MASK :: pb_type where "PB_LTYPE_MASK \<equiv> 0x0F"

abbreviation (input) PB_HTYPE_REQUIRED :: pb_type where "PB_HTYPE_REQUIRED \<equiv> 0x00"
abbreviation (input) PB_HTYPE_OPTIONAL :: pb_type where "PB_HTYPE_OPTIONAL \<equiv> 0x10"
abbreviation (input) PB_HTYPE_REPEATED :: pb_type where "PB_HTYPE_REPEATED \<equiv> 0x20"
abbreviation (input) PB_HTYPE_ONEOF :: pb_type where "PB_HTYPE_ONEOF \<equiv> 0x30"
abbreviation (input) PB_HTYPE_MASK :: pb_type where "PB_HTYPE_MASK \<equiv> 0x30"

abbreviation (input) PB_ATYPE_STATIC :: pb_type where "PB_ATYPE_STATIC \<equiv> 0x00"
abbreviation (input) PB_ATYPE_POINTER :: pb_type where "PB_ATYPE_POINTER \<equiv> 0x80"
abbreviation (input) PB_ATYPE_CALLBACK :: pb_type where "PB_ATYPE_CALLBACK \<equiv> 0x40"
abbreviation (input) PB_ATYPE_MASK :: pb_type where "PB_ATYPE_MASK \<equiv> 0xC0"

definition PB_ATYPE :: "pb_type \<Rightarrow> pb_type" where
  "PB_ATYPE x = x AND PB_ATYPE_MASK"

definition PB_HTYPE :: "pb_type \<Rightarrow> pb_type" where
  "PB_HTYPE x = x AND PB_HTYPE_MASK"

definition PB_LTYPE :: "pb_type \<Rightarrow> pb_type" where
  "PB_LTYPE x = x AND PB_LTYPE_MASK"

definition PB_SIZE_MAX :: nat where
  "PB_SIZE_MAX = 2 ^ 32 - 1"

definition PB_MAX_REQUIRED_FIELDS :: nat where
  "PB_MAX_REQUIRED_FIELDS = 64"

abbreviation (input) sizeof_ptr :: nat where "sizeof_ptr \<equiv> 8"

subsection \<open>Wire types\<close>

abbreviation (input) PB_WT_VARINT :: nat where "PB_WT_VARINT \<equiv> 0"
abbreviation (input) PB_WT_64BIT :: nat where "PB_WT_64BIT \<equiv> 1"
abbreviation (input) PB_WT_STRING :: nat where "PB_WT_STRING \<equiv> 2"
abbreviation (input) PB_WT_32BIT :: nat where "PB_WT_32BIT \<equiv> 5"

subsection \<open>Field descriptors\<close>

datatype pb_field =
    PbField (tag: nat) (ftype: pb_type) (data_offset: nat) (size_offset: int)
      (data_size: nat) (array_size: nat) (ptr: pb_ptr)
and pb_ptr =
    NullPtr
  | FieldsPtr "pb_field list"
  | DefaultPtr "byte list"

definition PB_LAST_FIELD :: pb_field where
  "PB_LAST_FIELD = PbField 0 0 0 0 0 0 NullPtr"

abbreviation ltype :: "pb_field \<Rightarrow> pb_type" where "ltype f \<equiv> PB_LTYPE (ftype f)"
abbreviation htype :: "pb_field \<Rightarrow> pb_type" where "htype f \<equiv> PB_HTYPE (ftype f)"
abbreviation atype :: "pb_field \<Rightarrow> pb_type" where "atype f \<equiv> PB_ATYPE (ftype f)"

subsection \<open>Bytes arrays, callbacks and extensions in memory\<close>

text \<open>
  \<^verbatim>\<open>pb_bytes_array_t\<close> is a 4-byte size followed by the bytes; \<^verbatim>\<open>pb_callback_t\<close> a function
  pointer followed by the argument; \<^verbatim>\<open>pb_extension_t\<close> the pointers \<^verbatim>\<open>type\<close>, \<^verbatim>\<open>dest\<close>, \<^verbatim>\<open>next\<close>
  followed by the flag \<^verbatim>\<open>found\<close>.
\<close>

definition bytes_array_bytes :: "addr \<Rightarrow> addr" where
  "bytes_array_bytes a = a + 4"

definition PB_BYTES_ARRAY_T_ALLOCSIZE :: "nat \<Rightarrow> nat" where
  "PB_BYTES_ARRAY_T_ALLOCSIZE n = size_t (n + 4)"

definition callback_arg :: "addr \<Rightarrow> addr" where
  "callback_arg a = a + 8"

definition extension_dest :: "addr \<Rightarrow> addr" where
  "extension_dest a = a + 8"

definition extension_next :: "addr \<Rightarrow> addr" where
  "extension_next a = a + 16"

definition extension_found :: "addr \<Rightarrow> addr" where
  "extension_found a = a + 24"

definition load_ptr :: "mem \<Rightarrow> addr \<Rightarrow> addr option" where
  "load_ptr m a = load_uint m a sizeof_ptr"

definition load_size :: "mem \<Rightarrow> addr \<Rightarrow> nat option" where
  "load_size m a = load_uint m a 4"

definition load_bool :: "mem \<Rightarrow> addr \<Rightarrow> bool option" where
  "load_bool m a = map_option (\<lambda>v. v \<noteq> 0) (load_uint m a 1)"

subsection \<open>The descriptor macros\<close>

text \<open>
  A member of a structure is given by its offset and its size (for an array or a pointer
  also the size of one item): \<open>msize\<close> is \<^verbatim>\<open>pb_membersize(st, m)\<close>, \<open>isize\<close> is
  \<^verbatim>\<open>pb_membersize(st, m[0])\<close>, \<open>delta\<close> is the \<^verbatim>\<open>pb_delta\<close> to the has-flag, the count or the
  \<^verbatim>\<open>which_\<close> member.
\<close>

definition pb_arraysize :: "nat \<Rightarrow> nat \<Rightarrow> nat" where
  "pb_arraysize msize isize = msize div isize"

definition pb_delta :: "nat \<Rightarrow> nat \<Rightarrow> int" where
  "pb_delta off1 off2 = int off1 - int off2"

definition PB_DATAOFFSET_FIRST :: "nat \<Rightarrow> nat" where
  "PB_DATAOFFSET_FIRST off1 = off1"

definition PB_DATAOFFSET_OTHER :: "nat \<Rightarrow> nat \<Rightarrow> nat \<Rightarrow> nat" where
  "PB_DATAOFFSET_OTHER off1 off2 msize2 = off1 - off2 - msize2"

definition PB_DATAOFFSET_UNION :: nat where
  "PB_DATAOFFSET_UNION = PB_SIZE_MAX"

definition PB_REQUIRED_STATIC :: "nat \<Rightarrow> nat \<Rightarrow> nat \<Rightarrow> pb_type \<Rightarrow> pb_ptr \<Rightarrow> pb_field" where
  "PB_REQUIRED_STATIC tg msize fd lt p =
     PbField tg (PB_ATYPE_STATIC OR PB_HTYPE_REQUIRED OR lt) fd 0 msize 0 p"

definition PB_OPTIONAL_STATIC :: "nat \<Rightarrow> nat \<Rightarrow> nat \<Rightarrow> int \<Rightarrow> pb_type \<Rightarrow> pb_ptr \<Rightarrow> pb_field" where
  "PB_OPTIONAL_STATIC tg msize fd delta lt p =
     PbField tg (PB_ATYPE_STATIC OR PB_HTYPE_OPTIONAL OR lt) fd delta msize 0 p"

definition PB_SINGULAR_STATIC :: "nat \<Rightarrow> nat \<Rightarrow> nat \<Rightarrow> pb_type \<Rightarrow> pb_ptr \<Rightarrow> pb_field" where
  "PB_SINGULAR_STATIC tg msize fd lt p =
     PbField tg (PB_ATYPE_STATIC OR PB_HTYPE_OPTIONAL OR lt) fd 0 msize 0 p"

definition PB_REPEATED_STATIC ::
  "nat \<Rightarrow> nat \<Rightarrow> nat \<Rightarrow> nat \<Rightarrow> int \<Rightarrow> pb_type \<Rightarrow> pb_ptr \<Rightarrow> pb_field" where
  "PB_REPEATED_STATIC tg msize isize fd delta lt p =
     PbField tg (PB_ATYPE_STATIC OR PB_HTYPE_REPEATED OR lt) fd delta isize
       (pb_arraysize msize isize) p"

definition PB_REQUIRED_POINTER :: "nat \<Rightarrow> nat \<Rightarrow> nat \<Rightarrow> pb_type \<Rightarrow> pb_ptr \<Rightarrow> pb_field" where
  "PB_REQUIRED_POINTER tg isize fd lt p =
     PbField tg (PB_ATYPE_POINTER OR PB_HTYPE_REQUIRED OR lt) fd 0 isize 0 p"

definition PB_OPTIONAL_POINTER :: "nat \<Rightarrow> nat \<Rightarrow> nat \<Rightarrow> pb_type \<Rightarrow> pb_ptr \<Rightarrow> pb_field" where
  "PB_OPTIONAL_POINTER tg isize fd lt p =
     PbField tg (PB_ATYPE_POINTER OR PB_HTYPE_OPTIONAL OR lt) fd 0 isize 0 p"

definition PB_SINGULAR_POINTER :: "nat \<Rightarrow> nat \<Rightarrow> nat \<Rightarrow> pb_type \<Rightarrow> pb_ptr \<Rightarrow> pb_field" where
  "PB_SINGULAR_POINTER tg isize fd lt p =
     PbField tg (PB_ATYPE_POINTER OR PB_HTYPE_OPTIONAL OR lt) fd 0 isize 0 p"

definition PB_REPEATED_POINTER ::
  "nat \<Rightarrow> nat \<Rightarrow> nat \<Rightarrow> int \<Rightarrow> pb_type \<Rightarrow> pb_ptr \<Rightarrow> pb_field" where
  "PB_REPEATED_POINTER tg isize fd delta lt p =
     PbField tg (PB_ATYPE_POINTER OR PB_HTYPE_REPEATED OR lt) fd delta isize 0 p"

definition PB_REQUIRED_CALLBACK :: "nat \<Rightarrow> nat \<Rightarrow> nat \<Rightarrow> pb_type \<Rightarrow> pb_ptr \<Rightarrow> pb_field" where
  "PB_REQUIRED_CALLBACK tg msize fd lt p =
     PbField tg (PB_ATYPE_CALLBACK OR PB_HTYPE_REQUIRED OR lt) fd 0 msize 0 p"

definition PB_OPTIONAL_CALLBACK :: "nat \<Rightarrow> nat \<Rightarrow> nat \<Rightarrow> pb_type \<Rightarrow> pb_ptr \<Rightarrow> pb_field" where
  "PB_OPTIONAL_CALLBACK tg msize fd lt p =
     PbField tg (PB_ATYPE_CALLBACK OR PB_HTYPE_OPTIONAL OR lt) fd 0 msize 0 p"

definition PB_SINGULAR_CALLBACK :: "nat \<Rightarrow> nat \<Rightarrow> nat \<Rightarrow> pb_type \<Rightarrow> pb_ptr \<Rightarrow> pb_field" where
  "PB_SINGULAR_CALLBACK tg msize fd lt p =
     PbField tg (PB_ATYPE_CALLBACK OR PB_HTYPE_OPTIONAL OR lt) fd 0 msize 0 p"

definition PB_REPEATED_CALLBACK :: "nat \<Rightarrow> nat \<Rightarrow> nat \<Rightarrow> pb_type \<Rightarrow> pb_ptr \<Rightarrow> pb_field" where
  "PB_REPEATED_CALLBACK tg msize fd lt p =
     PbField tg (PB_ATYPE_CALLBACK OR PB_HTYPE_REPEATED OR lt) fd 0 msize 0 p"

definition PB_OPTEXT_STATIC :: "nat \<Rightarrow> nat \<Rightarrow> pb_type \<Rightarrow> pb_ptr \<Rightarrow> pb_field" where
  "PB_OPTEXT_STATIC tg msize lt p =
     PbField tg (PB_ATYPE_STATIC OR PB_HTYPE_REQUIRED OR lt) 0 0 msize 0 p"

definition PB_OPTEXT_POINTER :: "nat \<Rightarrow> nat \<Rightarrow> nat \<Rightarrow> pb_type \<Rightarrow> pb_ptr \<Rightarrow> pb_field" where
  "PB_OPTEXT_POINTER tg isize fd lt p = PB_OPTIONAL_POINTER tg isize fd lt p"

definition PB_OPTEXT_CALLBACK :: "nat \<Rightarrow> nat \<Rightarrow> nat \<Rightarrow> pb_type \<Rightarrow> pb_ptr \<Rightarrow> pb_field" where
  "PB_OPTEXT_CALLBACK tg msize fd lt p = PB_OPTIONAL_CALLBACK tg msize fd lt p"

definition PB_REPEATED_FIXED_COUNT ::
  "nat \<Rightarrow> nat \<Rightarrow> nat \<Rightarrow> nat \<Rightarrow> pb_type \<Rightarrow> pb_ptr \<Rightarrow> pb_field" where
  "PB_REPEATED_FIXED_COUNT tg msize isize fd lt p =
     PbField tg (PB_ATYPE_STATIC OR PB_HTYPE_REPEATED OR lt) fd 0 isize
       (pb_arraysize msize isize) p"

definition PB_ONEOF_STATIC :: "nat \<Rightarrow> nat \<Rightarrow> nat \<Rightarrow> int \<Rightarrow> pb_type \<Rightarrow> pb_ptr \<Rightarrow> pb_field" where
  "PB_ONEOF_STATIC tg msize fd delta lt p =
     PbField tg (PB_ATYPE_STATIC OR PB_HTYPE_ONEOF OR lt) fd delta msize 0 p"

definition PB_ONEOF_POINTER :: "nat \<Rightarrow> nat \<Rightarrow> nat \<Rightarrow> int \<Rightarrow> pb_type \<Rightarrow> pb_ptr \<Rightarrow> pb_field" where
  "PB_ONEOF_POINTER tg isize fd delta lt p =
     PbField tg (PB_ATYPE_POINTER OR PB_HTYPE_ONEOF OR lt) fd delta isize 0 p"

definition PB_ANONYMOUS_ONEOF_STATIC ::
  "nat \<Rightarrow> nat \<Rightarrow> nat \<Rightarrow> int \<Rightarrow> pb_type \<Rightarrow> pb_ptr \<Rightarrow> pb_field" where
  "PB_ANONYMOUS_ONEOF_STATIC tg msize fd delta lt p =
     PbField tg (PB_ATYPE_STATIC OR PB_HTYPE_ONEOF OR lt) fd delta msize 0 p"

definition PB_ANONYMOUS_ONEOF_POINTER ::
  "nat \<Rightarrow> nat \<Rightarrow> nat \<Rightarrow> int \<Rightarrow> pb_type \<Rightarrow> pb_ptr \<Rightarrow> pb_field" where
  "PB_ANONYMOUS_ONEOF_POINTER tg isize fd delta lt p =
     PbField tg (PB_ATYPE_POINTER OR PB_HTYPE_ONEOF OR lt) fd delta isize 0 p"

subsection \<open>Protobuf scalar types\<close>

datatype pb_scalar = BOOL | BYTES | DOUBLE | ENUM | UENUM | FIXED32 | FIXED64 | FLOAT
  | INT32 | INT64 | MESSAGE | SFIXED32 | SFIXED64 | SINT32 | SINT64 | STRING | UINT32
  | UINT64 | EXTENSION | FIXED_LENGTH_BYTES

fun PB_LTYPE_MAP :: "pb_scalar \<Rightarrow> pb_type" where
  "PB_LTYPE_MAP BOOL = PB_LTYPE_VARINT"
| "PB_LTYPE_MAP BYTES = PB_LTYPE_BYTES"
| "PB_LTYPE_MAP DOUBLE = PB_LTYPE_FIXED64"
| "PB_LTYPE_MAP ENUM = PB_LTYPE_VARINT"
| "PB_LTYPE_MAP UENUM = PB_LTYPE_UVARINT"
| "PB_LTYPE_MAP FIXED32 = PB_LTYPE_FIXED32"
| "PB_LTYPE_MAP FIXED64 = PB_LTYPE_FIXED64"
| "PB_LTYPE_MAP FLOAT = PB_LTYPE_FIXED32"
| "PB_LTYPE_MAP INT32 = PB_LTYPE_VARINT"
| "PB_LTYPE_MAP INT64 = PB_LTYPE_VARINT"
| "PB_LTYPE_MAP MESSAGE = PB_LTYPE_SUBMESSAGE"
| "PB_LTYPE_MAP SFIXED32 = PB_LTYPE_FIXED32"
| "PB_LTYPE_MAP SFIXED64 = PB_LTYPE_FIXED64"
| "PB_LTYPE_MAP SINT32 = PB_LTYPE_SVARINT"
| "PB_LTYPE_MAP SINT64 = PB_LTYPE_SVARINT"
| "PB_LTYPE_MAP STRING = PB_LTYPE_STRING"
| "PB_LTYPE_MAP UINT32 = PB_LTYPE_UVARINT"
| "PB_LTYPE_MAP UINT64 = PB_LTYPE_UVARINT"
| "PB_LTYPE_MAP EXTENSION = PB_LTYPE_EXTENSION"
| "PB_LTYPE_MAP FIXED_LENGTH_BYTES = PB_LTYPE_FIXED_LENGTH_BYTES"

subsection \<open>Error messages\<close>

text \<open>\<^verbatim>\<open>PB_SET_ERROR\<close> keeps the first message.\<close>

definition PB_SET_ERROR :: "string option \<Rightarrow> string \<Rightarrow> string option" where
  "PB_SET_ERROR e msg = (case e of None \<Rightarrow> Some msg | Some m \<Rightarrow> Some m)"

definition PB_GET_ERROR :: "string option \<Rightarrow> string" where
  "PB_GET_ERROR e = (case e of None \<Rightarrow> ''(none)'' | Some m \<Rightarrow> m)"

subsection \<open>Lemmas\<close>

declare PB_ATYPE_def [eval_simps] PB_HTYPE_def [eval_simps] PB_LTYPE_def [eval_simps]
  PB_LAST_FIELD_def [eval_simps] load_ptr_def [eval_simps] load_size_def [eval_simps]
  load_bool_def [eval_simps] bytes_array_bytes_def [eval_simps]
  PB_BYTES_ARRAY_T_ALLOCSIZE_def [eval_simps] pb_arraysize_def [eval_simps] pb_delta_def [eval_simps]
  PB_DATAOFFSET_FIRST_def [eval_simps] PB_DATAOFFSET_OTHER_def [eval_simps]
  PB_OPTIONAL_STATIC_def [eval_simps] PB_OPTIONAL_POINTER_def [eval_simps]
  PB_REPEATED_POINTER_def [eval_simps]

text \<open>The three parts of a type code do not overlap, and together they are the code.\<close>

lemma type_parts:
  "PB_ATYPE x OR PB_HTYPE x OR PB_LTYPE x = x"
  "PB_ATYPE x AND PB_HTYPE x = 0"
  "PB_ATYPE x AND PB_LTYPE x = 0"
  "PB_HTYPE x AND PB_LTYPE x = 0"
proof -
  have all: "(255 :: 8 word) = -1" by simp
  have "PB_ATYPE x OR PB_HTYPE x OR PB_LTYPE x = x AND 255"
    unfolding PB_ATYPE_def PB_HTYPE_def PB_LTYPE_def by (simp flip: bit.conj_disj_distrib)
  then show "PB_ATYPE x OR PB_HTYPE x OR PB_LTYPE x = x" unfolding all by simp
qed (simp_all add: PB_ATYPE_def PB_HTYPE_def PB_LTYPE_def and.left_commute and.assoc)

lemma and_two_bits:
  fixes x :: "'a::len word"
  assumes "m = 2 ^ i OR 2 ^ j"
  shows "x AND m \<in> {0, 2 ^ i, 2 ^ j, 2 ^ i OR 2 ^ j}"
proof -
  have bit: "x AND 2 ^ n = (if bit x n then 2 ^ n else 0)" for n
    by (rule bit_word_eqI) (auto simp: bit_simps)
  have "x AND m = (x AND 2 ^ i) OR (x AND 2 ^ j)"
    by (simp add: assms bit.conj_disj_distrib)
  then show ?thesis by (simp add: bit)
qed

text \<open>The repetition rule has exactly the four values the code switches over.\<close>

lemma htype_cases:
  "PB_HTYPE x \<in> {PB_HTYPE_REQUIRED, PB_HTYPE_OPTIONAL, PB_HTYPE_REPEATED, PB_HTYPE_ONEOF}"
  using and_two_bits [of "0x30" 4 5 x] by (simp add: PB_HTYPE_def)

lemma atype_cases:
  "PB_ATYPE x \<in> {PB_ATYPE_STATIC, PB_ATYPE_CALLBACK, PB_ATYPE_POINTER, 0xC0}"
  using and_two_bits [of "0xC0" 6 7 x] by (simp add: PB_ATYPE_def)

end
