(* ===== verification/Pb_Common.thy ===== *)
theory Pb_Common
  imports Pb_Types
begin

text \<open>
  \<^verbatim>\<open>nanopb/pb_common.c\<close>: the iterator that walks a descriptor array together with the
  structure it describes. The pointer \<^verbatim>\<open>pos\<close> into the array is an index; \<^verbatim>\<open>pSize\<close> points into
  the structure or at the decoder's local \<^verbatim>\<open>fixed_count_size\<close>, whose value travels with the
  iterator as \<open>local_size\<close>.

  The lemmas compute the iterator in closed form (\<open>iter_at\<close>), show that one step moves to the
  next field and wraps at the terminator, that \<^verbatim>\<open>pb_field_iter_find\<close> finds a field with the
  tag exactly when there is one, and that a do-while loop over the iterator visits every field
  once and in order.
\<close>

subsection \<open>The iterator\<close>

datatype size_loc = AtAddr addr | AtLocal

record pb_field_iter =
  start :: "pb_field list"
  pos :: nat
  required_field_index :: nat
  dest_struct :: addr
  pData :: addr
  pSize :: size_loc
  local_size :: nat

definition cur :: "pb_field_iter \<Rightarrow> pb_field option" where
  "cur it = (if pos it < length (start it) then Some (start it ! pos it) else None)"

definition ptr_offset :: "addr \<Rightarrow> int \<Rightarrow> addr" where
  "ptr_offset a off = nat (int a + off)"

definition pb_field_iter_begin ::
  "pb_field_iter \<Rightarrow> pb_field list \<Rightarrow> addr \<Rightarrow> (bool \<times> pb_field_iter) option" where
  "pb_field_iter_begin it fs dest =
     (case fs of [] \<Rightarrow> None
      | f # _ \<Rightarrow>
          let pd = dest + data_offset f in
          Some (tag f \<noteq> 0,
                it\<lparr>start := fs, pos := 0, required_field_index := 0, dest_struct := dest,
                   pData := pd, pSize := AtAddr (ptr_offset pd (size_offset f))\<rparr>))"

definition prev_size :: "pb_field \<Rightarrow> nat" where
  "prev_size f =
     (if atype f = PB_ATYPE_STATIC \<and> htype f = PB_HTYPE_REPEATED
      then size_t (data_size f * array_size f)
      else if atype f = PB_ATYPE_POINTER then sizeof_ptr
      else data_size f)"

definition inside_union :: "pb_field \<Rightarrow> pb_field \<Rightarrow> bool" where
  "inside_union prev f \<longleftrightarrow>
     htype prev = PB_HTYPE_ONEOF \<and> htype f = PB_HTYPE_ONEOF \<and> data_offset f = PB_SIZE_MAX"

definition pb_field_iter_next :: "pb_field_iter \<Rightarrow> (bool \<times> pb_field_iter) option" where
  "pb_field_iter_next it =
     (case cur it of None \<Rightarrow> None
      | Some prev \<Rightarrow>
          if tag prev = 0 then Some (False, it)
          else let it1 = it\<lparr>pos := Suc (pos it)\<rparr> in
            (case cur it1 of None \<Rightarrow> None
             | Some f \<Rightarrow>
                 if tag f = 0 then
                   map_option (\<lambda>(_, it2). (False, it2))
                     (pb_field_iter_begin it1 (start it1) (dest_struct it1))
                 else if inside_union prev f then Some (True, it1)
                 else let it2 = (if htype prev = PB_HTYPE_REQUIRED
                                 then it1\<lparr>required_field_index := Suc (required_field_index it1)\<rparr>
                                 else it1);
                          pd = pData it2 + prev_size prev + data_offset f
                      in Some (True, it2\<lparr>pData := pd,
                                         pSize := AtAddr (ptr_offset pd (size_offset f))\<rparr>)))"

text \<open>
  The search loop stops when it is back at its first position, so the length of the array is
  enough fuel (\<open>pb_field_iter_find_correct\<close>).
\<close>

fun iter_find_loop :: "nat \<Rightarrow> nat \<Rightarrow> nat \<Rightarrow> pb_field_iter \<Rightarrow> (bool \<times> pb_field_iter) option" where
  "iter_find_loop 0 first t it = None"
| "iter_find_loop (Suc fuel) first t it =
     (case cur it of None \<Rightarrow> None
      | Some f \<Rightarrow>
          if tag f = t \<and> ltype f \<noteq> PB_LTYPE_EXTENSION then Some (True, it)
          else (case pb_field_iter_next it of None \<Rightarrow> None
                | Some (_, it') \<Rightarrow>
                    if pos it' \<noteq> first then iter_find_loop fuel first t it'
                    else Some (False, it')))"

definition pb_field_iter_find :: "pb_field_iter \<Rightarrow> nat \<Rightarrow> (bool \<times> pb_field_iter) option" where
  "pb_field_iter_find it t = iter_find_loop (length (start it)) (pos it) t it"

text \<open>\<^verbatim>\<open>do { if (!body) return false; } while (pb_field_iter_next(&iter)); return true;\<close>\<close>

fun iter_loop ::
  "nat \<Rightarrow> (pb_field_iter \<Rightarrow> 's \<Rightarrow> (bool \<times> 's) option) \<Rightarrow> pb_field_iter \<Rightarrow> 's \<Rightarrow> (bool \<times> 's) option" where
  "iter_loop 0 body it s = None"
| "iter_loop (Suc fuel) body it s =
     chk (body it s)
       (\<lambda>s'. case pb_field_iter_next it of None \<Rightarrow> None
             | Some (again, it') \<Rightarrow> if again then iter_loop fuel body it' s' else Some (True, s'))"

definition init_iter :: pb_field_iter where
  "init_iter = \<lparr>start = [], pos = 0, required_field_index = 0, dest_struct = 0, pData = 0,
               pSize = AtAddr 0, local_size = 0\<rparr>"

subsection \<open>Specification: the iterator in closed form\<close>

definition field_array :: "pb_field list \<Rightarrow> bool" where
  "field_array fs \<longleftrightarrow> fs \<noteq> [] \<and> tag (last fs) = 0 \<and> (\<forall>f \<in> set (butlast fs). tag f \<noteq> 0)"

abbreviation n_fields :: "pb_field list \<Rightarrow> nat" where
  "n_fields fs \<equiv> length fs - 1"

fun data_pos :: "pb_field list \<Rightarrow> addr \<Rightarrow> nat \<Rightarrow> addr" where
  "data_pos fs d 0 = d + data_offset (fs ! 0)"
| "data_pos fs d (Suc k) =
     (if inside_union (fs ! k) (fs ! Suc k) then data_pos fs d k
      else data_pos fs d k + prev_size (fs ! k) + data_offset (fs ! Suc k))"

fun size_pos :: "pb_field list \<Rightarrow> addr \<Rightarrow> nat \<Rightarrow> addr" where
  "size_pos fs d 0 = ptr_offset (data_pos fs d 0) (size_offset (fs ! 0))"
| "size_pos fs d (Suc k) =
     (if inside_union (fs ! k) (fs ! Suc k) then size_pos fs d k
      else ptr_offset (data_pos fs d (Suc k)) (size_offset (fs ! Suc k)))"

definition required_before :: "pb_field list \<Rightarrow> nat \<Rightarrow> nat" where
  "required_before fs k = length (filter (\<lambda>f. htype f = PB_HTYPE_REQUIRED) (take k fs))"

definition iter_at :: "pb_field list \<Rightarrow> addr \<Rightarrow> nat \<Rightarrow> nat \<Rightarrow> pb_field_iter" where
  "iter_at fs d l k =
     \<lparr>start = fs, pos = k, required_field_index = required_before fs k, dest_struct = d,
      pData = data_pos fs d k, pSize = AtAddr (size_pos fs d k), local_size = l\<rparr>"

fun seq_loop :: "(pb_field_iter \<Rightarrow> 's \<Rightarrow> (bool \<times> 's) option) \<Rightarrow> pb_field_iter list \<Rightarrow> 's \<Rightarrow>
  (bool \<times> 's) option" where
  "seq_loop body [] s = Some (True, s)"
| "seq_loop body (it # its) s = chk (body it s) (seq_loop body its)"

definition has_tag :: "pb_field list \<Rightarrow> nat \<Rightarrow> nat \<Rightarrow> bool" where
  "has_tag fs t k \<longleftrightarrow> tag (fs ! k) = t \<and> ltype (fs ! k) \<noteq> PB_LTYPE_EXTENSION"

subsection \<open>Lemmas\<close>

lemma field_array_not_Nil: "field_array fs \<Longrightarrow> fs \<noteq> []"
  by (simp add: field_array_def)

lemma field_array_tag:
  assumes "field_array fs" "k < length fs"
  shows "tag (fs ! k) = 0 \<longleftrightarrow> k = n_fields fs"
proof (cases "k < n_fields fs")
  case True
  then have "fs ! k \<in> set (butlast fs)" by (auto simp: in_set_conv_nth nth_butlast)
  with assms True show ?thesis by (auto simp: field_array_def)
next
  case False
  with assms have "k = n_fields fs" by linarith
  with assms show ?thesis by (auto simp: field_array_def last_conv_nth)
qed

lemma iter_begin_at:
  assumes "field_array fs"
  shows "pb_field_iter_begin it fs d = Some (n_fields fs \<noteq> 0, iter_at fs d (local_size it) 0)"
proof -
  obtain f gs where fs: "fs = f # gs" using assms by (cases fs) (auto simp: field_array_def)
  have "(tag f \<noteq> 0) = (n_fields fs \<noteq> 0)" using field_array_tag [OF assms, of 0] fs by auto
  then show ?thesis
    by (simp add: pb_field_iter_begin_def iter_at_def required_before_def fs Let_def)
qed

lemma inside_union_not_required: "inside_union f g \<Longrightarrow> htype f \<noteq> PB_HTYPE_REQUIRED"
  by (auto simp: inside_union_def)

lemma required_before_Suc:
  "k < length fs \<Longrightarrow> required_before fs (Suc k) =
     (if htype (fs ! k) = PB_HTYPE_REQUIRED then Suc (required_before fs k) else required_before fs k)"
  by (simp add: required_before_def take_Suc_conv_app_nth)

text \<open>One step of the iterator.\<close>

lemma iter_next_at:
  assumes "field_array fs" "k < n_fields fs"
  shows "pb_field_iter_next (iter_at fs d l k) =
           Some (Suc k < n_fields fs, iter_at fs d l (if Suc k < n_fields fs then Suc k else 0))"
proof (cases "Suc k < n_fields fs")
  case True
  have prev: "tag (fs ! k) \<noteq> 0" and nxt: "tag (fs ! Suc k) \<noteq> 0"
    using field_array_tag [OF assms(1), of k] field_array_tag [OF assms(1), of "Suc k"] assms True
    by auto
  have len: "k < length fs" "Suc k < length fs" using True by linarith+
  show ?thesis
    using True prev nxt len
    by (auto simp: pb_field_iter_next_def cur_def iter_at_def Let_def required_before_Suc
        dest: inside_union_not_required)
next
  case False
  have len: "k < length fs" "Suc k < length fs" and last: "Suc k = n_fields fs"
    using False assms by linarith+
  have prev: "tag (fs ! k) \<noteq> 0" and nxt: "tag (fs ! Suc k) = 0"
    using field_array_tag [OF assms(1), of k] field_array_tag [OF assms(1), of "Suc k"] assms len last
    by auto
  show ?thesis
    using False prev nxt len iter_begin_at [OF assms(1)]
    by (simp add: pb_field_iter_next_def cur_def iter_at_def Let_def)
qed

lemma cur_iter_at: "k < length fs \<Longrightarrow> cur (iter_at fs d l k) = Some (fs ! k)"
  by (simp add: cur_def iter_at_def)

lemma iter_at_simps [simp]:
  "start (iter_at fs d l k) = fs" "pos (iter_at fs d l k) = k"
  "pData (iter_at fs d l k) = data_pos fs d k" "dest_struct (iter_at fs d l k) = d"
  "pSize (iter_at fs d l k) = AtAddr (size_pos fs d k)" "local_size (iter_at fs d l k) = l"
  "required_field_index (iter_at fs d l k) = required_before fs k"
  by (simp_all add: iter_at_def)

lemma iter_find_upto:
  assumes fa: "field_array fs" and "k \<le> n" "n < n_fields fs"
    and miss: "\<forall>j. k \<le> j \<longrightarrow> j < n \<longrightarrow> \<not> has_tag fs t j"
    and first: "\<forall>j. k < j \<longrightarrow> j \<le> n \<longrightarrow> j \<noteq> first"
  shows "iter_find_loop (fuel + (n - k)) first t (iter_at fs d l k) =
         iter_find_loop fuel first t (iter_at fs d l n)"
  using assms(2-)
proof (induction "n - k" arbitrary: k)
  case 0
  then show ?case by simp
next
  case (Suc m)
  then have k: "k < n" "k < n_fields fs" "Suc k < n_fields fs" by linarith+
  from Suc k have "\<not> has_tag fs t k" "Suc k \<noteq> first" by auto
  moreover have "iter_find_loop (fuel + (n - Suc k)) first t (iter_at fs d l (Suc k)) =
    iter_find_loop fuel first t (iter_at fs d l n)"
    using Suc.prems Suc.hyps(2) k by (intro Suc.hyps(1)) auto
  moreover have "fuel + (n - k) = Suc (fuel + (n - Suc k))" using k by simp
  ultimately show ?case
    using k iter_next_at [OF fa k(2), of d l] by (auto simp: cur_iter_at has_tag_def)
qed

lemma iter_find_hit:
  assumes "field_array fs" "k < n_fields fs" "has_tag fs t k"
  shows "iter_find_loop (Suc fuel) first t (iter_at fs d l k) = Some (True, iter_at fs d l k)"
  using assms by (auto simp: cur_iter_at has_tag_def)

text \<open>From the last field the search continues at the first one.\<close>

lemma iter_find_wrap:
  assumes "field_array fs" "n_fields fs = Suc n" "\<not> has_tag fs t n"
  shows "iter_find_loop (Suc fuel) first t (iter_at fs d l n) =
           (if first = 0 then Some (False, iter_at fs d l 0)
            else iter_find_loop fuel first t (iter_at fs d l 0))"
  using assms iter_next_at [of fs n d l] by (auto simp: cur_iter_at has_tag_def)

lemma iter_find_between:
  assumes fa: "field_array fs" and k: "k \<le> j" "j < n_fields fs" and hit: "has_tag fs t j"
    and miss: "\<forall>i. k \<le> i \<longrightarrow> i < j \<longrightarrow> \<not> has_tag fs t i"
    and first: "first \<le> k \<or> j < first" and fuel: "j - k < fuel"
  shows "iter_find_loop fuel first t (iter_at fs d l k) = Some (True, iter_at fs d l j)"
proof -
  obtain m where m: "fuel = Suc m + (j - k)" using fuel
    by (metis Suc_diff_Suc add_Suc add.commute le_add_diff_inverse less_or_eq_imp_le)
  show ?thesis unfolding m
    using iter_find_upto [OF fa k miss, of first "Suc m" d l] first
      iter_find_hit [OF fa k(2) hit, of m first d l] by auto
qed

text \<open>A search that meets no field with the tag comes back to where it started.\<close>

lemma iter_find_miss_back:
  assumes fa: "field_array fs" and k: "k < n_fields fs" and first: "k < first" "first < n_fields fs"
    and miss: "\<forall>i. k \<le> i \<longrightarrow> i < first \<longrightarrow> \<not> has_tag fs t i" and fuel: "first - k \<le> fuel"
  shows "iter_find_loop fuel first t (iter_at fs d l k) = Some (False, iter_at fs d l first)"
proof -
  obtain p where p: "first = Suc p" using first by (cases first) auto
  obtain m where m: "fuel = Suc m + (p - k)" using fuel p first
    by (metis Suc_diff_le add.commute add_Suc_right le_add_diff_inverse less_Suc_eq_le)
  have kp: "k \<le> p" "p < n_fields fs" using p first by auto
  have "iter_find_loop (Suc m) first t (iter_at fs d l p) = Some (False, iter_at fs d l first)"
    using miss p kp first iter_next_at [OF fa kp(2), of d l]
    by (auto simp: cur_iter_at has_tag_def)
  then show ?thesis unfolding m
    using iter_find_upto [OF fa kp, of t first "Suc m" d l] miss p by auto
qed

lemma first_hit:
  fixes k :: nat
  assumes "\<exists>j. k \<le> j \<and> j < n \<and> P j"
  shows "\<exists>j. k \<le> j \<and> j < n \<and> P j \<and> (\<forall>i. k \<le> i \<longrightarrow> i < j \<longrightarrow> \<not> P i)"
  using assms exists_least_iff [of "\<lambda>j. k \<le> j \<and> j < n \<and> P j"] by (metis less_trans)

text \<open>The search finds a field with the tag exactly when the array has one.\<close>

lemma iter_find_at_hit:
  assumes fa: "field_array fs" and k: "k < n_fields fs"
    and ex: "\<exists>j < n_fields fs. has_tag fs t j"
  shows "\<exists>j < n_fields fs. has_tag fs t j \<and>
           pb_field_iter_find (iter_at fs d l k) t = Some (True, iter_at fs d l j)"
proof (cases "\<exists>j. k \<le> j \<and> j < n_fields fs \<and> has_tag fs t j")
  case True
  from first_hit [OF this] obtain j where j: "k \<le> j" "j < n_fields fs" "has_tag fs t j"
    "\<forall>i. k \<le> i \<longrightarrow> i < j \<longrightarrow> \<not> has_tag fs t i" by blast
  then show ?thesis
    using iter_find_between [OF fa, of k j t k "length fs" d l]
    by (auto simp: pb_field_iter_find_def)
next
  case False
  with ex k have "\<exists>j. 0 \<le> j \<and> j < k \<and> has_tag fs t j" by (metis not_le zero_le)
  from first_hit [OF this] obtain j where j: "j < k" "has_tag fs t j"
    "\<forall>i. i < j \<longrightarrow> \<not> has_tag fs t i" by blast
  obtain n where n: "n_fields fs = Suc n" using k by (cases "n_fields fs") auto
  have kn: "k \<le> n" "n < n_fields fs" using k n by auto
  have "iter_find_loop (Suc k) k t (iter_at fs d l 0) = Some (True, iter_at fs d l j)"
    using j k by (intro iter_find_between [OF fa]) auto
  then have "iter_find_loop (Suc (Suc k)) k t (iter_at fs d l n) = Some (True, iter_at fs d l j)"
    using iter_find_wrap [OF fa n, of t "Suc k" k d l] False kn j by auto
  moreover have "length fs = Suc (Suc k) + (n - k)" using n kn by linarith
  moreover have "iter_find_loop (Suc (Suc k) + (n - k)) k t (iter_at fs d l k) =
    iter_find_loop (Suc (Suc k)) k t (iter_at fs d l n)"
    using False kn by (intro iter_find_upto [OF fa]) auto
  ultimately have "pb_field_iter_find (iter_at fs d l k) t = Some (True, iter_at fs d l j)"
    by (simp add: pb_field_iter_find_def)
  with j k show ?thesis by (meson less_trans)
qed

lemma iter_find_at_miss:
  assumes fa: "field_array fs" and k: "k < n_fields fs"
    and none: "\<not> (\<exists>j < n_fields fs. has_tag fs t j)"
  shows "pb_field_iter_find (iter_at fs d l k) t = Some (False, iter_at fs d l k)"
proof -
  obtain n where n: "n_fields fs = Suc n" using k by (cases "n_fields fs") auto
  have kn: "k \<le> n" "n < n_fields fs" using k n by auto
  have again: "k \<noteq> 0 \<Longrightarrow>
    iter_find_loop (Suc k) k t (iter_at fs d l 0) = Some (False, iter_at fs d l k)"
    using k none by (intro iter_find_miss_back [OF fa]) auto
  have "length fs = Suc (Suc k) + (n - k)" using n kn by linarith
  moreover have "iter_find_loop (Suc (Suc k) + (n - k)) k t (iter_at fs d l k) =
    iter_find_loop (Suc (Suc k)) k t (iter_at fs d l n)"
    using none kn by (intro iter_find_upto [OF fa]) auto
  ultimately show ?thesis
    using iter_find_wrap [OF fa n, of t "Suc k" k d l] none kn again
    by (auto simp: pb_field_iter_find_def simp del: iter_find_loop.simps)
qed

text \<open>The do-while loop visits every field once, in the order of the array.\<close>

lemma iter_loop_from:
  assumes fa: "field_array fs" and "k < n_fields fs" "n_fields fs - k \<le> fuel"
  shows "iter_loop fuel body (iter_at fs d l k) s =
         seq_loop body (map (iter_at fs d l) [k ..< n_fields fs]) s"
  using assms(2-)
proof (induction fuel arbitrary: k s)
  case 0
  then show ?case by simp
next
  case (Suc fuel)
  have upt: "[k ..< n_fields fs] = k # [Suc k ..< n_fields fs]"
    using Suc.prems by (simp add: upt_conv_Cons)
  show ?case
  proof (cases "Suc k < n_fields fs")
    case True
    then have "iter_loop fuel body (iter_at fs d l (Suc k)) s' =
      seq_loop body (map (iter_at fs d l) [Suc k ..< n_fields fs]) s'" for s'
      using Suc.prems by (intro Suc.IH) auto
    then show ?thesis
      using True upt iter_next_at [OF fa Suc.prems(1), of d l] by simp
  next
    case False
    then have "[Suc k ..< n_fields fs] = []" by simp
    then show ?thesis
      using False upt iter_next_at [OF fa Suc.prems(1), of d l]
      by (auto simp: chk_def split: option.splits)
  qed
qed

lemma iter_loop_all:
  assumes "field_array fs" "n_fields fs \<noteq> 0"
  shows "iter_loop (length fs) body (iter_at fs d l 0) s =
         seq_loop body (map (iter_at fs d l) [0 ..< n_fields fs]) s"
  using assms by (intro iter_loop_from) auto

lemma seq_loop_append:
  "seq_loop body (xs @ ys) s = chk (seq_loop body xs s) (seq_loop body ys)"
  by (induction xs arbitrary: s) (auto simp: chk_def split: option.splits)

declare field_array_def [eval_simps] ptr_offset_def [eval_simps] inside_union_def [eval_simps]
  prev_size_def [eval_simps]

end
