(* ===== verification/Pb_Encode.thy ===== *)
theory Pb_Encode
  imports Pb_Common
begin

text \<open>
  \<^verbatim>\<open>nanopb/pb_encode.c\<close>: the output stream and the encoder, function by function. The message
  is read from the byte memory \<open>m\<close>; an output buffer is an object of its own, held in the
  stream's state with the write position. Functions the application supplies (output
  callbacks, field callbacks, extension encoders) are parameters: the values of
  \<open>OUserWrite\<close> and of the environment \<open>e\<close>.

  The C functions call each other in one cycle, \<^verbatim>\<open>pb_encode_submessage\<close> back to \<^verbatim>\<open>pb_encode\<close>;
  the functions on that cycle take the recursive call as the argument \<open>rec\<close>, and \<open>pb_encode\<close>
  ties the knot with a fuel that bounds the nesting of messages and the length of a chain of
  extensions.
\<close>

subsection \<open>The output stream\<close>

datatype 'u ostate = ONull | OBuf "byte list" nat | OUser 'u

datatype 'u ocallback =
    ONoCallback
  | OBufWrite
  | OUserWrite "'u \<Rightarrow> byte list \<Rightarrow> (bool \<times> 'u) option"

fun is_null_callback :: "'u ocallback \<Rightarrow> bool" where
  "is_null_callback ONoCallback = True"
| "is_null_callback OBufWrite = False"
| "is_null_callback (OUserWrite g) = False"

record 'u ostream =
  ocallback :: "'u ocallback"
  ostate :: "'u ostate"
  max_size :: nat
  bytes_written :: nat
  oerrmsg :: "string option"

definition PB_OSTREAM_SIZING :: "'u ostream" where
  "PB_OSTREAM_SIZING =
     \<lparr>ocallback = ONoCallback, ostate = ONull, max_size = 0, bytes_written = 0, oerrmsg = None\<rparr>"

definition oerror :: "'u ostream \<Rightarrow> string \<Rightarrow> (bool \<times> 'u ostream) option" where
  "oerror s msg = Some (False, s\<lparr>oerrmsg := PB_SET_ERROR (oerrmsg s) msg\<rparr>)"

definition buf_write :: "'u ostate \<Rightarrow> byte list \<Rightarrow> nat \<Rightarrow> (bool \<times> 'u ostate) option" where
  "buf_write st buf count =
     (case st of
        OBuf dest p \<Rightarrow>
          if count \<le> length buf \<and> p + count \<le> length dest
          then Some (True, OBuf (take p dest @ take count buf @ drop (p + count) dest) (p + count))
          else None
      | _ \<Rightarrow> None)"

definition pb_ostream_from_buffer :: "byte list \<Rightarrow> nat \<Rightarrow> 'u ostream" where
  "pb_ostream_from_buffer buf bufsize =
     \<lparr>ocallback = OBufWrite, ostate = OBuf buf 0, max_size = bufsize, bytes_written = 0,
      oerrmsg = None\<rparr>"

fun call_ocallback ::
  "'u ocallback \<Rightarrow> 'u ostate \<Rightarrow> byte list \<Rightarrow> nat \<Rightarrow> (bool \<times> 'u ostate) option" where
  "call_ocallback ONoCallback st buf count = None"
| "call_ocallback OBufWrite st buf count = buf_write st buf count"
| "call_ocallback (OUserWrite g) st buf count =
     (case st of OUser u \<Rightarrow>
        if count \<le> length buf then map_option (\<lambda>(ok, u'). (ok, OUser u')) (g u (take count buf))
        else None
      | _ \<Rightarrow> None)"

definition pb_write :: "'u ostream \<Rightarrow> byte list \<Rightarrow> nat \<Rightarrow> (bool \<times> 'u ostream) option" where
  "pb_write s buf count =
     (if is_null_callback (ocallback s)
      then Some (True, s\<lparr>bytes_written := size_t (bytes_written s + count)\<rparr>)
      else if size_t (bytes_written s + count) > max_size s then oerror s ''stream full''
      else (case call_ocallback (ocallback s) (ostate s) buf count of None \<Rightarrow> None
            | Some (ok, st) \<Rightarrow>
                if ok then Some (True, s\<lparr>ostate := st, bytes_written := size_t (bytes_written s + count)\<rparr>)
                else oerror (s\<lparr>ostate := st\<rparr>) ''io error''))"

subsection \<open>Scalars\<close>

text \<open>The loop fills \<^verbatim>\<open>buffer[10]\<close>; an eleventh byte would be an access out of bounds.\<close>

function varint_loop :: "byte list \<Rightarrow> 64 word \<Rightarrow> byte list option" where
  "varint_loop buf value =
     (if value = 0 then Some buf
      else if length buf \<ge> 10 then None
      else varint_loop (buf @ [ucast ((value AND 0x7F) OR 0x80)]) (drop_bit 7 value))"
  by pat_completeness auto
termination
  by (relation "measure (\<lambda>(buf, value). 10 - length buf)") auto

definition pb_encode_varint :: "'u ostream \<Rightarrow> 64 word \<Rightarrow> (bool \<times> 'u ostream) option" where
  "pb_encode_varint s value =
     (if value \<le> 0x7F then pb_write s [ucast value] 1
      else (case varint_loop [] value of None \<Rightarrow> None
            | Some buf \<Rightarrow>
                pb_write s (buf[length buf - 1 := buf ! (length buf - 1) AND 0x7F]) (length buf)))"

definition pb_encode_svarint :: "'u ostream \<Rightarrow> 64 word \<Rightarrow> (bool \<times> 'u ostream) option" where
  "pb_encode_svarint s value =
     (let zigzagged = (if sint value < 0 then NOT (push_bit 1 value) else push_bit 1 value)
      in pb_encode_varint s zigzagged)"

definition fixed32_bytes :: "32 word \<Rightarrow> byte list" where
  "fixed32_bytes val =
     [ucast (val AND 0xFF), ucast (drop_bit 8 val AND 0xFF), ucast (drop_bit 16 val AND 0xFF),
      ucast (drop_bit 24 val AND 0xFF)]"

definition pb_encode_fixed32 :: "mem \<Rightarrow> 'u ostream \<Rightarrow> addr \<Rightarrow> (bool \<times> 'u ostream) option" where
  "pb_encode_fixed32 m s value =
     (case load_uint m value 4 of None \<Rightarrow> None
      | Some v \<Rightarrow> pb_write s (fixed32_bytes (word_of_nat v)) 4)"

definition fixed64_bytes :: "64 word \<Rightarrow> byte list" where
  "fixed64_bytes val =
     [ucast (val AND 0xFF), ucast (drop_bit 8 val AND 0xFF), ucast (drop_bit 16 val AND 0xFF),
      ucast (drop_bit 24 val AND 0xFF), ucast (drop_bit 32 val AND 0xFF),
      ucast (drop_bit 40 val AND 0xFF), ucast (drop_bit 48 val AND 0xFF),
      ucast (drop_bit 56 val AND 0xFF)]"

definition pb_encode_fixed64 :: "mem \<Rightarrow> 'u ostream \<Rightarrow> addr \<Rightarrow> (bool \<times> 'u ostream) option" where
  "pb_encode_fixed64 m s value =
     (case load_uint m value 8 of None \<Rightarrow> None
      | Some v \<Rightarrow> pb_write s (fixed64_bytes (word_of_nat v)) 8)"

definition pb_encode_tag :: "'u ostream \<Rightarrow> nat \<Rightarrow> nat \<Rightarrow> (bool \<times> 'u ostream) option" where
  "pb_encode_tag s wiretype field_number =
     pb_encode_varint s (push_bit 3 (word_of_nat field_number) OR word_of_nat wiretype)"

definition pb_encode_tag_for_field :: "'u ostream \<Rightarrow> pb_field \<Rightarrow> (bool \<times> 'u ostream) option" where
  "pb_encode_tag_for_field s f =
     (if ltype f = PB_LTYPE_VARINT \<or> ltype f = PB_LTYPE_UVARINT \<or> ltype f = PB_LTYPE_SVARINT
      then pb_encode_tag s PB_WT_VARINT (tag f)
      else if ltype f = PB_LTYPE_FIXED32 then pb_encode_tag s PB_WT_32BIT (tag f)
      else if ltype f = PB_LTYPE_FIXED64 then pb_encode_tag s PB_WT_64BIT (tag f)
      else if ltype f = PB_LTYPE_BYTES \<or> ltype f = PB_LTYPE_STRING \<or>
              ltype f = PB_LTYPE_SUBMESSAGE \<or> ltype f = PB_LTYPE_FIXED_LENGTH_BYTES
      then pb_encode_tag s PB_WT_STRING (tag f)
      else oerror s ''invalid field type'')"

text \<open>The buffer argument carries the bytes the pointer gives access to; null is the empty list.\<close>

definition pb_encode_string :: "'u ostream \<Rightarrow> byte list \<Rightarrow> nat \<Rightarrow> (bool \<times> 'u ostream) option" where
  "pb_encode_string s buffer sz =
     chk (pb_encode_varint s (word_of_nat sz)) (\<lambda>s. pb_write s buffer sz)"

subsection \<open>Field encoders\<close>

definition load_int_field :: "mem \<Rightarrow> nat \<Rightarrow> addr \<Rightarrow> 64 word option" where
  "load_int_field m n src = map_option word_of_int (load_sint m src n)"

definition pb_enc_varint ::
  "mem \<Rightarrow> 'u ostream \<Rightarrow> pb_field \<Rightarrow> addr \<Rightarrow> (bool \<times> 'u ostream) option" where
  "pb_enc_varint m s f src =
     (if data_size f = 1 \<or> data_size f = 2 \<or> data_size f = 4 \<or> data_size f = 8
      then (case load_int_field m (data_size f) src of None \<Rightarrow> None
            | Some value \<Rightarrow> pb_encode_varint s value)
      else oerror s ''invalid data_size'')"

definition pb_enc_uvarint ::
  "mem \<Rightarrow> 'u ostream \<Rightarrow> pb_field \<Rightarrow> addr \<Rightarrow> (bool \<times> 'u ostream) option" where
  "pb_enc_uvarint m s f src =
     (if data_size f = 1 \<or> data_size f = 2 \<or> data_size f = 4 \<or> data_size f = 8
      then (case load_uint m src (data_size f) of None \<Rightarrow> None
            | Some value \<Rightarrow> pb_encode_varint s (word_of_nat value))
      else oerror s ''invalid data_size'')"

definition pb_enc_svarint ::
  "mem \<Rightarrow> 'u ostream \<Rightarrow> pb_field \<Rightarrow> addr \<Rightarrow> (bool \<times> 'u ostream) option" where
  "pb_enc_svarint m s f src =
     (if data_size f = 1 \<or> data_size f = 2 \<or> data_size f = 4 \<or> data_size f = 8
      then (case load_int_field m (data_size f) src of None \<Rightarrow> None
            | Some value \<Rightarrow> pb_encode_svarint s value)
      else oerror s ''invalid data_size'')"

definition pb_enc_fixed64 ::
  "mem \<Rightarrow> 'u ostream \<Rightarrow> pb_field \<Rightarrow> addr \<Rightarrow> (bool \<times> 'u ostream) option" where
  "pb_enc_fixed64 m s f src = pb_encode_fixed64 m s src"

definition pb_enc_fixed32 ::
  "mem \<Rightarrow> 'u ostream \<Rightarrow> pb_field \<Rightarrow> addr \<Rightarrow> (bool \<times> 'u ostream) option" where
  "pb_enc_fixed32 m s f src = pb_encode_fixed32 m s src"

definition pb_enc_bytes ::
  "mem \<Rightarrow> 'u ostream \<Rightarrow> pb_field \<Rightarrow> addr \<Rightarrow> (bool \<times> 'u ostream) option" where
  "pb_enc_bytes m s f src =
     (if src = 0 then pb_encode_string s [] 0
      else (case load_size m src of None \<Rightarrow> None
            | Some sz \<Rightarrow>
                if atype f = PB_ATYPE_STATIC \<and> PB_BYTES_ARRAY_T_ALLOCSIZE sz > data_size f
                then oerror s ''bytes size exceeded''
                else (case load m (bytes_array_bytes src) sz of None \<Rightarrow> None
                      | Some bs \<Rightarrow> pb_encode_string s bs sz)))"

text \<open>\<^verbatim>\<open>while (size < max_size && *p != '\0')\<close>\<close>

function strnlen_loop :: "mem \<Rightarrow> addr \<Rightarrow> nat \<Rightarrow> nat \<Rightarrow> nat option" where
  "strnlen_loop m p sz maxs =
     (if sz < maxs then
        (case m p of None \<Rightarrow> None
         | Some c \<Rightarrow> if c \<noteq> 0 then strnlen_loop m (Suc p) (Suc sz) maxs else Some sz)
      else Some sz)"
  by pat_completeness auto
termination
  by (relation "measure (\<lambda>(m, p, sz, maxs). maxs - sz)") auto

definition pb_enc_string ::
  "mem \<Rightarrow> 'u ostream \<Rightarrow> pb_field \<Rightarrow> addr \<Rightarrow> (bool \<times> 'u ostream) option" where
  "pb_enc_string m s f src =
     (let maxs = (if atype f = PB_ATYPE_POINTER then 2 ^ 64 - 1 else data_size f) in
      case (if src = 0 then Some 0 else strnlen_loop m src 0 maxs) of None \<Rightarrow> None
      | Some sz \<Rightarrow>
          (case load m src sz of None \<Rightarrow> None
           | Some bs \<Rightarrow> pb_encode_string s bs sz))"

definition pb_enc_fixed_length_bytes ::
  "mem \<Rightarrow> 'u ostream \<Rightarrow> pb_field \<Rightarrow> addr \<Rightarrow> (bool \<times> 'u ostream) option" where
  "pb_enc_fixed_length_bytes m s f src =
     (case load m src (data_size f) of None \<Rightarrow> None
      | Some bs \<Rightarrow> pb_encode_string s bs (data_size f))"

subsection \<open>Submessages\<close>

type_synonym 'u encode_rec =
  "'u ostream \<Rightarrow> pb_field list \<Rightarrow> addr \<Rightarrow> (bool \<times> 'u ostream) option"

definition pb_encode_submessage ::
  "'u encode_rec \<Rightarrow> 'u ostream \<Rightarrow> pb_field list \<Rightarrow> addr \<Rightarrow> (bool \<times> 'u ostream) option" where
  "pb_encode_submessage rec s fs src =
     (case rec PB_OSTREAM_SIZING fs src of None \<Rightarrow> None
      | Some (ok, sub) \<Rightarrow>
          if \<not> ok then Some (False, s\<lparr>oerrmsg := oerrmsg sub\<rparr>)
          else let sz = bytes_written sub in
            chk (pb_encode_varint s (word_of_nat sz)) (\<lambda>s.
              if is_null_callback (ocallback s) then pb_write s [] sz
              else if size_t (bytes_written s + sz) > max_size s then oerror s ''stream full''
              else (case rec \<lparr>ocallback = ocallback s, ostate = ostate s, max_size = sz,
                              bytes_written = 0, oerrmsg = None\<rparr> fs src of None \<Rightarrow> None
                    | Some (status, sub) \<Rightarrow>
                        let s = s\<lparr>bytes_written := size_t (bytes_written s + bytes_written sub),
                                  ostate := ostate sub, oerrmsg := oerrmsg sub\<rparr>
                        in if bytes_written sub \<noteq> sz then oerror s ''submsg size changed''
                           else Some (status, s))))"

definition pb_enc_submessage ::
  "'u encode_rec \<Rightarrow> 'u ostream \<Rightarrow> pb_field \<Rightarrow> addr \<Rightarrow> (bool \<times> 'u ostream) option" where
  "pb_enc_submessage rec s f src =
     (case ptr f of
        NullPtr \<Rightarrow> oerror s ''invalid field descriptor''
      | FieldsPtr fs \<Rightarrow> pb_encode_submessage rec s fs src
      | DefaultPtr bs \<Rightarrow> None)"

text \<open>The table of encoders; the entry for extensions is null, and there are ten entries.\<close>

definition PB_ENCODERS ::
  "'u encode_rec \<Rightarrow> mem \<Rightarrow> pb_type \<Rightarrow> 'u ostream \<Rightarrow> pb_field \<Rightarrow> addr \<Rightarrow> (bool \<times> 'u ostream) option" where
  "PB_ENCODERS rec m lt =
     (if lt = PB_LTYPE_VARINT then pb_enc_varint m
      else if lt = PB_LTYPE_UVARINT then pb_enc_uvarint m
      else if lt = PB_LTYPE_SVARINT then pb_enc_svarint m
      else if lt = PB_LTYPE_FIXED32 then pb_enc_fixed32 m
      else if lt = PB_LTYPE_FIXED64 then pb_enc_fixed64 m
      else if lt = PB_LTYPE_BYTES then pb_enc_bytes m
      else if lt = PB_LTYPE_STRING then pb_enc_string m
      else if lt = PB_LTYPE_SUBMESSAGE then pb_enc_submessage rec
      else if lt = PB_LTYPE_FIXED_LENGTH_BYTES then pb_enc_fixed_length_bytes m
      else (\<lambda>s f src. None))"

subsection \<open>Arrays\<close>

type_synonym 'u encoder = "'u ostream \<Rightarrow> pb_field \<Rightarrow> addr \<Rightarrow> (bool \<times> 'u ostream) option"

text \<open>\<^verbatim>\<open>for (i = 0; i < count; i++) { if (!func(stream, field, p)) return false; p += data_size; }\<close>\<close>

fun encode_items :: "nat \<Rightarrow> 'u encoder \<Rightarrow> 'u ostream \<Rightarrow> pb_field \<Rightarrow> addr \<Rightarrow> (bool \<times> 'u ostream) option" where
  "encode_items 0 func s f p = Some (True, s)"
| "encode_items (Suc n) func s f p =
     chk (func s f p) (\<lambda>s. encode_items n func s f (p + data_size f))"

fun encode_tagged_items ::
  "nat \<Rightarrow> 'u encoder \<Rightarrow> mem \<Rightarrow> 'u ostream \<Rightarrow> pb_field \<Rightarrow> addr \<Rightarrow> (bool \<times> 'u ostream) option" where
  "encode_tagged_items 0 func m s f p = Some (True, s)"
| "encode_tagged_items (Suc n) func m s f p =
     chk (pb_encode_tag_for_field s f) (\<lambda>s.
       chk (if atype f = PB_ATYPE_POINTER \<and>
               (ltype f = PB_LTYPE_STRING \<or> ltype f = PB_LTYPE_BYTES)
            then (case load_ptr m p of None \<Rightarrow> None | Some q \<Rightarrow> func s f q)
            else func s f p)
         (\<lambda>s. encode_tagged_items n func m s f (p + data_size f)))"

definition encode_array ::
  "mem \<Rightarrow> 'u ostream \<Rightarrow> pb_field \<Rightarrow> addr \<Rightarrow> nat \<Rightarrow> 'u encoder \<Rightarrow> (bool \<times> 'u ostream) option" where
  "encode_array m s f pd count func =
     (if count = 0 then Some (True, s)
      else if atype f \<noteq> PB_ATYPE_POINTER \<and> count > array_size f
      then oerror s ''array max size exceeded''
      else if ltype f \<le> PB_LTYPE_LAST_PACKABLE then
        chk (pb_encode_tag s PB_WT_STRING (tag f)) (\<lambda>s.
          case (if ltype f = PB_LTYPE_FIXED32 then Some (True, size_t (4 * count))
                else if ltype f = PB_LTYPE_FIXED64 then Some (True, size_t (8 * count))
                else map_option (\<lambda>(ok, t). (ok, bytes_written t))
                       (encode_items count func PB_OSTREAM_SIZING f pd)) of None \<Rightarrow> None
          | Some (ok, sz) \<Rightarrow>
              if \<not> ok then Some (False, s)
              else chk (pb_encode_varint s (word_of_nat sz)) (\<lambda>s.
                if is_null_callback (ocallback s) then pb_write s [] sz
                else encode_items count func s f pd))
      else encode_tagged_items count func m s f pd)"

subsection \<open>The proto3 default check\<close>

text \<open>\<^verbatim>\<open>for (i = 0; i < n; i++) if (p[i] != 0) return false; return true;\<close>\<close>

fun all_zero :: "mem \<Rightarrow> addr \<Rightarrow> nat \<Rightarrow> bool option" where
  "all_zero m p 0 = Some True"
| "all_zero m p (Suc n) =
     (case m p of None \<Rightarrow> None | Some c \<Rightarrow> if c \<noteq> 0 then Some False else all_zero m (Suc p) n)"

text \<open>
  The recursion follows the tree of descriptors, so the size of the descriptor is enough fuel.
\<close>

fun check_proto3 :: "nat \<Rightarrow> mem \<Rightarrow> pb_field \<Rightarrow> addr \<Rightarrow> bool option" where
  "check_proto3 0 m f pd = None"
| "check_proto3 (Suc n) m f pd =
     (let size_ptr = ptr_offset pd (size_offset f) in
      if htype f = PB_HTYPE_REQUIRED then Some False
      else if htype f = PB_HTYPE_REPEATED then map_option (\<lambda>c. c = 0) (load_size m size_ptr)
      else if htype f = PB_HTYPE_ONEOF then map_option (\<lambda>c. c = 0) (load_size m size_ptr)
      else if htype f = PB_HTYPE_OPTIONAL \<and> size_offset f \<noteq> 0 then map_option Not (load_bool m size_ptr)
      else if atype f = PB_ATYPE_STATIC \<and> ltype f = PB_LTYPE_BYTES then
        map_option (\<lambda>c. c = 0) (load_size m pd)
      else if atype f = PB_ATYPE_STATIC \<and> ltype f = PB_LTYPE_STRING then
        map_option (\<lambda>c. c = 0) (load_uint m pd 1)
      else if atype f = PB_ATYPE_STATIC \<and> ltype f = PB_LTYPE_FIXED_LENGTH_BYTES then
        Some (data_size f = 0)
      else if atype f = PB_ATYPE_STATIC \<and> ltype f = PB_LTYPE_SUBMESSAGE then
        (case ptr f of
           FieldsPtr fs \<Rightarrow>
             (case pb_field_iter_begin init_iter fs pd of None \<Rightarrow> None
              | Some (nonempty, it) \<Rightarrow>
                  if nonempty then
                    map_option fst
                      (iter_loop (length fs)
                        (\<lambda>it u. case cur it of None \<Rightarrow> None
                                 | Some g \<Rightarrow> map_option (\<lambda>b. (b, ())) (check_proto3 n m g (pData it)))
                        it ())
                  else Some True)
         | _ \<Rightarrow> None)
      else all_zero m pd (data_size f))"

definition pb_check_proto3_default_value :: "mem \<Rightarrow> pb_field \<Rightarrow> addr \<Rightarrow> bool option" where
  "pb_check_proto3_default_value m f pd = check_proto3 (size f) m f pd"

subsection \<open>Single fields\<close>

definition encode_basic_field ::
  "'u encode_rec \<Rightarrow> mem \<Rightarrow> 'u ostream \<Rightarrow> pb_field \<Rightarrow> addr \<Rightarrow> (bool \<times> 'u ostream) option" where
  "encode_basic_field rec m s f pd0 =
     (let func = PB_ENCODERS rec m (ltype f);
          size_ptr = ptr_offset pd0 (size_offset f)
      in case (if size_offset f \<noteq> 0 then Some False
               else if htype f = PB_HTYPE_OPTIONAL
               then map_option Not (pb_check_proto3_default_value m f pd0)
               else Some True) of None \<Rightarrow> None
      | Some has0 \<Rightarrow>
      (case (if atype f = PB_ATYPE_POINTER
             then map_option (\<lambda>p. (p, p \<noteq> 0)) (load_ptr m pd0)
             else Some (pd0, has0)) of None \<Rightarrow> None
       | Some (pd, implicit_has) \<Rightarrow>
           if htype f = PB_HTYPE_REQUIRED then
             (if pd = 0 then oerror s ''missing required field''
              else chk (pb_encode_tag_for_field s f) (\<lambda>s. func s f pd))
           else if htype f = PB_HTYPE_OPTIONAL then
             (case (if size_offset f \<noteq> 0 then load_bool m size_ptr else Some implicit_has) of
                None \<Rightarrow> None
              | Some has \<Rightarrow>
                  if has then chk (pb_encode_tag_for_field s f) (\<lambda>s. func s f pd)
                  else Some (True, s))
           else if htype f = PB_HTYPE_REPEATED then
             (case (if size_offset f \<noteq> 0 then load_size m size_ptr else Some (array_size f)) of
                None \<Rightarrow> None
              | Some count \<Rightarrow> encode_array m s f pd count func)
           else if htype f = PB_HTYPE_ONEOF then
             (case (if size_offset f \<noteq> 0 then load_size m size_ptr else None) of
                None \<Rightarrow> None
              | Some which \<Rightarrow>
                  if which = tag f then chk (pb_encode_tag_for_field s f) (\<lambda>s. func s f pd)
                  else Some (True, s))
           else oerror s ''invalid field type''))"

type_synonym 'u encode_callback =
  "mem \<Rightarrow> 'u ostream \<Rightarrow> pb_field \<Rightarrow> addr \<Rightarrow> (bool \<times> 'u ostream) option"

record 'u extension_type =
  ext_encode :: "(mem \<Rightarrow> 'u ostream \<Rightarrow> addr \<Rightarrow> (bool \<times> 'u ostream) option) option"
  ext_arg :: pb_field

record 'u enc_env =
  enc_callbacks :: "addr \<rightharpoonup> 'u encode_callback"
  enc_ext_types :: "addr \<rightharpoonup> 'u extension_type"

definition encode_callback_field ::
  "'u enc_env \<Rightarrow> mem \<Rightarrow> 'u ostream \<Rightarrow> pb_field \<Rightarrow> addr \<Rightarrow> (bool \<times> 'u ostream) option" where
  "encode_callback_field e m s f pd =
     (case load_ptr m pd of None \<Rightarrow> None
      | Some fn \<Rightarrow>
          if fn \<noteq> 0 then
            (case enc_callbacks e fn of None \<Rightarrow> None
             | Some g \<Rightarrow>
                 (case g m s f (callback_arg pd) of None \<Rightarrow> None
                  | Some (ok, s) \<Rightarrow> if ok then Some (True, s) else oerror s ''callback error''))
          else Some (True, s))"

definition encode_field ::
  "'u encode_rec \<Rightarrow> 'u enc_env \<Rightarrow> mem \<Rightarrow> 'u ostream \<Rightarrow> pb_field \<Rightarrow> addr \<Rightarrow> (bool \<times> 'u ostream) option" where
  "encode_field rec e m s f pd =
     (if atype f = PB_ATYPE_STATIC \<or> atype f = PB_ATYPE_POINTER then encode_basic_field rec m s f pd
      else if atype f = PB_ATYPE_CALLBACK then encode_callback_field e m s f pd
      else oerror s ''invalid field type'')"

definition default_extension_encoder ::
  "'u encode_rec \<Rightarrow> 'u enc_env \<Rightarrow> mem \<Rightarrow> 'u ostream \<Rightarrow> 'u extension_type \<Rightarrow> addr \<Rightarrow>
   (bool \<times> 'u ostream) option" where
  "default_extension_encoder rec e m s ty extension =
     (let f = ext_arg ty in
      if atype f = PB_ATYPE_POINTER then encode_field rec e m s f (extension_dest extension)
      else (case load_ptr m (extension_dest extension) of None \<Rightarrow> None
            | Some dest \<Rightarrow> encode_field rec e m s f dest))"

fun encode_extensions ::
  "nat \<Rightarrow> 'u encode_rec \<Rightarrow> 'u enc_env \<Rightarrow> mem \<Rightarrow> 'u ostream \<Rightarrow> addr \<Rightarrow> (bool \<times> 'u ostream) option" where
  "encode_extensions 0 rec e m s extension = (if extension = 0 then Some (True, s) else None)"
| "encode_extensions (Suc n) rec e m s extension =
     (if extension = 0 then Some (True, s)
      else (case load_ptr m extension of None \<Rightarrow> None
            | Some typ \<Rightarrow>
                (case enc_ext_types e typ of None \<Rightarrow> None
                 | Some ty \<Rightarrow>
                     chk (case ext_encode ty of
                            Some g \<Rightarrow> g m s extension
                          | None \<Rightarrow> default_extension_encoder rec e m s ty extension)
                       (\<lambda>s. case load_ptr m (extension_next extension) of None \<Rightarrow> None
                            | Some next_ext \<Rightarrow> encode_extensions n rec e m s next_ext))))"

definition encode_extension_field ::
  "nat \<Rightarrow> 'u encode_rec \<Rightarrow> 'u enc_env \<Rightarrow> mem \<Rightarrow> 'u ostream \<Rightarrow> addr \<Rightarrow> (bool \<times> 'u ostream) option" where
  "encode_extension_field n rec e m s pd =
     (case load_ptr m pd of None \<Rightarrow> None
      | Some extension \<Rightarrow> encode_extensions n rec e m s extension)"

subsection \<open>Messages\<close>

fun pb_encode ::
  "nat \<Rightarrow> 'u enc_env \<Rightarrow> mem \<Rightarrow> 'u ostream \<Rightarrow> pb_field list \<Rightarrow> addr \<Rightarrow> (bool \<times> 'u ostream) option" where
  "pb_encode 0 e m s fs src = None"
| "pb_encode (Suc n) e m s fs src =
     (case pb_field_iter_begin init_iter fs src of None \<Rightarrow> None
      | Some (nonempty, it) \<Rightarrow>
          if \<not> nonempty then Some (True, s)
          else iter_loop (length fs)
                 (\<lambda>it s. case cur it of None \<Rightarrow> None
                   | Some f \<Rightarrow>
                       if ltype f = PB_LTYPE_EXTENSION
                       then encode_extension_field n (pb_encode n e m) e m s (pData it)
                       else encode_field (pb_encode n e m) e m s f (pData it))
                 it s)"

definition pb_encode_delimited ::
  "nat \<Rightarrow> 'u enc_env \<Rightarrow> mem \<Rightarrow> 'u ostream \<Rightarrow> pb_field list \<Rightarrow> addr \<Rightarrow> (bool \<times> 'u ostream) option" where
  "pb_encode_delimited n e m s fs src = pb_encode_submessage (pb_encode n e m) s fs src"

definition pb_encode_nullterminated ::
  "nat \<Rightarrow> 'u enc_env \<Rightarrow> mem \<Rightarrow> 'u ostream \<Rightarrow> pb_field list \<Rightarrow> addr \<Rightarrow> (bool \<times> 'u ostream) option" where
  "pb_encode_nullterminated n e m s fs src =
     chk (pb_encode n e m s fs src) (\<lambda>s. pb_write s [0] 1)"

definition pb_get_encoded_size ::
  "nat \<Rightarrow> 'u enc_env \<Rightarrow> mem \<Rightarrow> pb_field list \<Rightarrow> addr \<Rightarrow> (bool \<times> nat option) option" where
  "pb_get_encoded_size n e m fs src =
     (case pb_encode n e m PB_OSTREAM_SIZING fs src of None \<Rightarrow> None
      | Some (ok, s) \<Rightarrow> if ok then Some (True, Some (bytes_written s)) else Some (False, None))"

declare varint_loop.simps [simp del] strnlen_loop.simps [simp del]

end
