(* ===== verification/Pb_Wire.thy ===== *)
theory Pb_Wire
  imports Prelude
begin

text \<open>
  The wire format as a specification: base-128 varints, zigzag, fixed-width integers and
  length-delimited strings as pure functions on numbers and byte lists, and the interface of a
  self-delimiting code with the consequences every user of such a code needs.
\<close>

subsection \<open>Self-delimiting codes\<close>

text \<open>
  A code whose encodings can be read back from the front of a byte stream. \<open>valid\<close> are the
  values it can encode.
\<close>

locale self_delimiting =
  fixes enc :: "'a \<Rightarrow> byte list"
    and dec :: "byte list \<Rightarrow> ('a \<times> byte list) option"
    and valid :: "'a \<Rightarrow> bool"
  assumes dec_enc: "valid a \<Longrightarrow> dec (enc a @ rest) = Some (a, rest)"
    and enc_not_Nil: "valid a \<Longrightarrow> enc a \<noteq> []"
begin

lemma enc_inject: "valid a \<Longrightarrow> valid b \<Longrightarrow> enc a = enc b \<Longrightarrow> a = b"
  using dec_enc [of a "[]"] dec_enc [of b "[]"] by simp

text \<open>No encoding is a proper prefix of another: a reader always knows where a value ends.\<close>

lemma prefix_free:
  assumes "valid a" "valid b" "enc a @ r = enc b @ r'"
  shows "a = b \<and> r = r'"
proof -
  have "Some (a, r) = dec (enc b @ r')"
    using dec_enc [OF assms(1), of r] unfolding assms(3) by (rule sym)
  also have "\<dots> = Some (b, r')" by (rule dec_enc [OF assms(2)])
  finally show ?thesis by simp
qed

fun dec_many :: "nat \<Rightarrow> byte list \<Rightarrow> ('a list \<times> byte list) option" where
  "dec_many 0 bs = Some ([], bs)"
| "dec_many (Suc n) bs =
     (case dec bs of None \<Rightarrow> None
      | Some (a, r) \<Rightarrow> map_option (\<lambda>(as, r). (a # as, r)) (dec_many n r))"

lemma dec_many_enc:
  "\<forall>a \<in> set as. valid a \<Longrightarrow> dec_many (length as) (concat (map enc as) @ rest) = Some (as, rest)"
  by (induction as) (auto simp: dec_enc)

lemma concat_enc_inject:
  assumes "\<forall>a \<in> set as. valid a" "\<forall>b \<in> set bs. valid b"
    and "concat (map enc as) = concat (map enc bs)"
  shows "as = bs"
  using assms
proof (induction as arbitrary: bs)
  case Nil
  then show ?case by (cases bs) (auto simp: enc_not_Nil)
next
  case (Cons a as)
  have "bs \<noteq> []" using Cons.prems(1,3) enc_not_Nil [of a] by (cases bs) simp_all
  then obtain b bs' where bs: "bs = b # bs'" by (cases bs) simp_all
  have "a = b \<and> concat (map enc as) = concat (map enc bs')"
    by (rule prefix_free) (use Cons.prems bs in simp_all)
  moreover have "concat (map enc as) = concat (map enc bs') \<Longrightarrow> as = bs'"
    by (rule Cons.IH) (use Cons.prems bs in simp_all)
  ultimately show ?case using bs by simp
qed

end

subsection \<open>Varints\<close>

fun varint_bytes :: "nat \<Rightarrow> byte list" where
  "varint_bytes v =
     (if v < 128 then [word_of_nat v] else word_of_nat (v mod 128 + 128) # varint_bytes (v div 128))"

fun varint_value :: "byte list \<Rightarrow> (nat \<times> byte list) option" where
  "varint_value [] = None"
| "varint_value (b # bs) =
     (if unat b < 128 then Some (unat b, bs)
      else (case varint_value bs of None \<Rightarrow> None
            | Some (v, r) \<Rightarrow> Some (unat b - 128 + 128 * v, r)))"

declare varint_bytes.simps [simp del]

definition zigzag :: "int \<Rightarrow> nat" where
  "zigzag i = (if i < 0 then nat (- 2 * i - 1) else nat (2 * i))"

definition unzigzag :: "nat \<Rightarrow> int" where
  "unzigzag n = (if odd n then - int (n div 2) - 1 else int (n div 2))"

definition delimited :: "byte list \<Rightarrow> byte list" where
  "delimited bs = varint_bytes (length bs) @ bs"

definition undelimited :: "byte list \<Rightarrow> (byte list \<times> byte list) option" where
  "undelimited bs =
     (case varint_value bs of None \<Rightarrow> None
      | Some (n, r) \<Rightarrow> if n \<le> length r then Some (take n r, drop n r) else None)"

definition unfixed :: "nat \<Rightarrow> byte list \<Rightarrow> (nat \<times> byte list) option" where
  "unfixed n bs = (if n \<le> length bs then Some (le_nat (take n bs), drop n bs) else None)"

subsection \<open>Lemmas\<close>

lemma varint_bytes_small: "v < 128 \<Longrightarrow> varint_bytes v = [word_of_nat v]"
  by (simp add: varint_bytes.simps)

lemma varint_bytes_big:
  "\<not> v < 128 \<Longrightarrow> varint_bytes v = word_of_nat (v mod 128 + 128) # varint_bytes (v div 128)"
  by (subst varint_bytes.simps) simp

lemma unat_byte_of_nat: "v < 256 \<Longrightarrow> unat (word_of_nat v :: byte) = v"
  by (simp add: unat_of_nat take_bit_eq_mod)

lemma varint_value_bytes: "varint_value (varint_bytes v @ r) = Some (v, r)"
proof (induction v rule: varint_bytes.induct)
  case (1 v)
  show ?case
  proof (cases "v < 128")
    case True
    then show ?thesis by (simp add: varint_bytes_small unat_byte_of_nat)
  next
    case False
    have "unat (word_of_nat (v mod 128 + 128) :: byte) = v mod 128 + 128"
      by (rule unat_byte_of_nat) (use mod_less_divisor [of 128 v] in linarith)
    with False 1 show ?thesis by (simp add: varint_bytes_big)
  qed
qed

lemma varint_bytes_not_Nil [simp]: "varint_bytes v \<noteq> []"
  by (subst varint_bytes.simps) simp

lemma varint_length: "v < 128 ^ n \<Longrightarrow> 0 < n \<Longrightarrow> length (varint_bytes v) \<le> n"
proof (induction n arbitrary: v)
  case (Suc n)
  show ?case
  proof (cases "v < 128")
    case False
    then have "0 < n" using Suc.prems by (cases n) auto
    moreover have "v div 128 < 128 ^ n" using Suc.prems by (simp add: less_mult_imp_div_less mult.commute)
    ultimately show ?thesis using Suc.IH False by (simp add: varint_bytes_big)
  qed (simp add: varint_bytes_small)
qed simp

subsection \<open>Varints in machine words\<close>

text \<open>Placing seven more bits above what was read is an addition.\<close>

lemma or_shifted_bits:
  fixes r :: "'a::len word"
  assumes "unat r < 2 ^ n"
  shows "r OR push_bit n x = r + push_bit n x"
proof -
  have "unat (take_bit n r) = unat r" using assms by (simp add: unat_take_bit_mod)
  then have "take_bit n r = r" by (rule unsigned_word_eqI)
  then have "bit r i \<Longrightarrow> \<not> n \<le> i" for i by (metis bit_take_bit_iff not_le)
  then have "r AND push_bit n x = 0" by (intro bit_word_eqI) (simp add: bit_simps, blast)
  then show ?thesis by (simp add: disjunctive_add_eq_or)
qed

lemma low_bits_of_byte:
  "LENGTH('a::len) \<ge> 8 \<Longrightarrow> (ucast ((b :: byte) AND 0x7F) :: 'a word) = word_of_nat (unat b mod 128)"
proof -
  have "b AND 0x7F = word_of_nat (unat b mod 128)"
    using and_low_mask [of b 7] by (simp add: mask_eq_exp_minus_1)
  moreover have "unat (word_of_nat (unat b mod 128) :: byte) = unat b mod 128"
    by (rule unat_byte_of_nat) (rule less_trans [OF mod_less_divisor], simp_all)
  ultimately show ?thesis by (metis of_nat_unat)
qed


lemma high_bit_of_byte: "(b :: byte) AND 0x80 = 0 \<longleftrightarrow> unat b < 128"
proof -
  have "unat b div 128 < 2" using unat_byte_less [of b] by (simp add: less_mult_imp_div_less)
  then have "odd (unat b div 128) \<longleftrightarrow> unat b div 128 \<noteq> 0" by (metis even_zero less_2_cases odd_one One_nat_def)
  moreover have "bit b 7 \<longleftrightarrow> bit (unat b) 7" by (simp add: bit_unsigned_iff)
  moreover have "b AND 0x80 = 0 \<longleftrightarrow> \<not> bit b 7" using and_exp_eq_0_iff_not_bit [of b 7] by simp
  ultimately show ?thesis by (simp add: bit_iff_odd div_eq_0_iff)
qed


lemma place_digit:
  fixes r :: "'a::len word"
  assumes "unat r < 2 ^ n" "LENGTH('a) \<ge> 8"
  shows "r OR push_bit n (ucast ((b :: byte) AND 0x7F)) = word_of_nat (unat r + unat b mod 128 * 2 ^ n)"
proof -
  have "r OR push_bit n (word_of_nat (unat b mod 128)) = r + push_bit n (word_of_nat (unat b mod 128))"
    by (rule or_shifted_bits [OF assms(1)])
  also have "\<dots> = word_of_nat (unat r + unat b mod 128 * 2 ^ n)"
    by (simp add: push_bit_eq_mult)
  finally show ?thesis unfolding low_bits_of_byte [OF assms(2)] .
qed

lemma varint_value_length: "varint_value bs = Some (v, r) \<Longrightarrow> length r < length bs"
  by (induction bs arbitrary: v r) (fastforce split: if_splits option.splits)+

lemma unat_of_nat_le: "unat (word_of_nat n :: 'a::len word) \<le> n"
  by (simp add: unat_of_nat take_bit_eq_mod)

lemma digit_bound: "r < 2 ^ n \<Longrightarrow> r + unat (b :: byte) mod 128 * 2 ^ n < 2 ^ (n + 7)"
proof -
  assume "r < 2 ^ n"
  moreover have "unat b mod 128 * 2 ^ n \<le> 127 * 2 ^ n"
    by (intro mult_right_mono) (simp_all add: less_Suc_eq_le [symmetric])
  ultimately have "r + unat b mod 128 * 2 ^ n < 2 ^ n + 127 * 2 ^ n" by (rule add_less_le_mono)
  then show ?thesis by (simp add: power_add)
qed

lemma varint_bytes_length_10: "v < 2 ^ 64 \<Longrightarrow> length (varint_bytes v) \<le> 10"
  by (rule varint_length) simp_all

interpretation varint: self_delimiting varint_bytes varint_value "\<lambda>_. True"
  by unfold_locales (simp_all add: varint_value_bytes)

interpretation string_code: self_delimiting delimited undelimited "\<lambda>_. True"
  by unfold_locales (simp_all add: delimited_def undelimited_def varint_value_bytes)

interpretation fixed32_code: self_delimiting "nat_le 4" "unfixed 4" "\<lambda>v. v < 2 ^ 32"
proof
  fix v :: nat and r :: "byte list"
  assume "v < 2 ^ 32"
  then show "unfixed 4 (nat_le 4 v @ r) = Some (v, r)"
    by (simp add: unfixed_def le_nat_nat_le)
next
  fix v :: nat
  show "nat_le 4 v \<noteq> []" by (metis length_nat_le list.size(3) zero_neq_numeral)
qed

interpretation fixed64_code: self_delimiting "nat_le 8" "unfixed 8" "\<lambda>v. v < 2 ^ 64"
proof
  fix v :: nat and r :: "byte list"
  assume "v < 2 ^ 64"
  then show "unfixed 8 (nat_le 8 v @ r) = Some (v, r)"
    by (simp add: unfixed_def le_nat_nat_le)
next
  fix v :: nat
  show "nat_le 8 v \<noteq> []" by (metis length_nat_le list.size(3) zero_neq_numeral)
qed

lemma unzigzag_zigzag: "unzigzag (zigzag i) = i"
proof (cases "i < 0")
  case True
  then have "zigzag i = 2 * nat (- i - 1) + 1" by (simp add: zigzag_def)
  with True show ?thesis by (simp add: unzigzag_def)
next
  case False
  then have "zigzag i = 2 * nat i" by (simp add: zigzag_def)
  with False show ?thesis by (simp add: unzigzag_def)
qed

declare varint_bytes_small [eval_simps] varint_bytes_big [eval_simps] delimited_def [eval_simps]

end
