(* ===== verification/Pb_Encode_Spec.thy ===== *)
theory Pb_Encode_Spec
  imports Pb_Encode Pb_Wire
begin

text \<open>
  The specification of the encoder and the proof that the code implements it. A specification
  is an \<open>enc_res\<close>: the bytes a call emits, the fact that it rejects the message, or no claim
  (undefined behaviour of the C code, application callbacks, output of \<open>2\<^sup>6\<^sup>3\<close> bytes or more).
  \<open>implements f r\<close> says what that means for a call \<open>f\<close> on a sizing stream and on a buffer
  stream: the same bytes are counted and written, a full buffer stops the call without a write
  outside it, and a rejected message is reported.
\<close>

named_theorems implements_intros \<open>calls that implement a specification\<close>

subsection \<open>Outcomes\<close>

datatype enc_res = Emit "byte list" | Reject | NoClaim

fun seq :: "enc_res \<Rightarrow> enc_res \<Rightarrow> enc_res" where
  "seq (Emit a) (Emit b) = Emit (a @ b)"
| "seq (Emit a) Reject = (if length a < 2 ^ 63 then Reject else NoClaim)"
| "seq (Emit a) NoClaim = NoClaim"
| "seq Reject r = Reject"
| "seq NoClaim r = NoClaim"

subsection \<open>Streams\<close>

definition good_out :: "'u ostream \<Rightarrow> bool" where
  "good_out s \<longleftrightarrow> oerrmsg s = None \<and>
     (case ocallback s of
        ONoCallback \<Rightarrow> bytes_written s < 2 ^ 64
      | OBufWrite \<Rightarrow>
          (case ostate s of
             OBuf dest p \<Rightarrow> bytes_written s \<le> max_size s \<and> max_size s < 2 ^ 63 \<and>
                            p + (max_size s - bytes_written s) \<le> length dest
           | _ \<Rightarrow> False)
      | OUserWrite g \<Rightarrow> False)"

definition room :: "'u ostream \<Rightarrow> nat \<Rightarrow> bool" where
  "room s n \<longleftrightarrow> is_null_callback (ocallback s) \<or> bytes_written s + n \<le> max_size s"

definition put :: "'u ostream \<Rightarrow> byte list \<Rightarrow> 'u ostream" where
  "put s bs = s\<lparr>bytes_written := size_t (bytes_written s + length bs),
                ostate := (case ocallback s of
                             OBufWrite \<Rightarrow>
                               (case ostate s of
                                  OBuf dest p \<Rightarrow> OBuf (take p dest @ bs @ drop (p + length bs) dest)
                                                       (p + length bs)
                                | st \<Rightarrow> st)
                           | _ \<Rightarrow> ostate s)\<rparr>"

text \<open>
  What holds of a buffer stream after a failed call: the write position has only moved
  forward, inside the buffer, and nothing before the old position or outside the bytes the
  stream may use has changed.
\<close>

definition kept :: "'u ostream \<Rightarrow> 'u ostream \<Rightarrow> bool" where
  "kept s s' \<longleftrightarrow> ocallback s' = ocallback s \<and> max_size s' = max_size s \<and>
     (case ocallback s of
        OBufWrite \<Rightarrow>
          (case ostate s of
             OBuf dest p \<Rightarrow>
               (\<exists>dest' p'. ostate s' = OBuf dest' p' \<and> length dest' = length dest \<and> p \<le> p' \<and>
                  bytes_written s' = bytes_written s + (p' - p) \<and> bytes_written s' \<le> max_size s \<and>
                  take p dest' = take p dest \<and> drop p' dest' = drop p' dest)
           | _ \<Rightarrow> True)
      | _ \<Rightarrow> True)"

definition implements :: "('u ostream \<Rightarrow> (bool \<times> 'u ostream) option) \<Rightarrow> enc_res \<Rightarrow> bool" where
  "implements f r \<longleftrightarrow>
     (case r of
        Emit bs \<Rightarrow> length bs < 2 ^ 63 \<longrightarrow>
          (\<forall>s. good_out s \<longrightarrow>
             (if room s (length bs) then f s = Some (True, put s bs)
              else (\<exists>s'. f s = Some (False, s') \<and> kept s s')))
      | Reject \<Rightarrow> (\<forall>s. good_out s \<longrightarrow> (\<exists>s'. f s = Some (False, s') \<and> kept s s'))
      | NoClaim \<Rightarrow> True)"

subsection \<open>The message specification\<close>

definition int_size :: "nat \<Rightarrow> bool" where
  "int_size n \<longleftrightarrow> n = 1 \<or> n = 2 \<or> n = 4 \<or> n = 8"

definition opt_emit :: "byte list option \<Rightarrow> enc_res" where
  "opt_emit x = (case x of None \<Rightarrow> NoClaim | Some bs \<Rightarrow> Emit bs)"

definition opt_spec :: "'a option \<Rightarrow> ('a \<Rightarrow> enc_res) \<Rightarrow> enc_res" where
  "opt_spec x k = (case x of None \<Rightarrow> NoClaim | Some v \<Rightarrow> k v)"

definition spec_tag :: "nat \<Rightarrow> nat \<Rightarrow> byte list" where
  "spec_tag wt t = varint_bytes (t mod 2 ^ 61 * 8 + wt)"

definition wire_type :: "pb_type \<Rightarrow> nat option" where
  "wire_type lt =
     (if lt \<le> PB_LTYPE_SVARINT then Some PB_WT_VARINT
      else if lt = PB_LTYPE_FIXED32 then Some PB_WT_32BIT
      else if lt = PB_LTYPE_FIXED64 then Some PB_WT_64BIT
      else if lt = PB_LTYPE_BYTES \<or> lt = PB_LTYPE_STRING \<or> lt = PB_LTYPE_SUBMESSAGE \<or>
              lt = PB_LTYPE_FIXED_LENGTH_BYTES then Some PB_WT_STRING
      else None)"

definition spec_field_tag :: "pb_field \<Rightarrow> enc_res" where
  "spec_field_tag f =
     (case wire_type (ltype f) of None \<Rightarrow> Reject | Some wt \<Rightarrow> Emit (spec_tag wt (tag f)))"

definition spec_submessage :: "enc_res \<Rightarrow> enc_res" where
  "spec_submessage r =
     (case r of Emit bs \<Rightarrow> if length bs < 2 ^ 63 then Emit (delimited bs) else NoClaim
      | Reject \<Rightarrow> Reject | NoClaim \<Rightarrow> NoClaim)"

definition spec_string :: "byte list \<Rightarrow> enc_res" where
  "spec_string bs = (if length bs < 2 ^ 63 then Emit (delimited bs) else NoClaim)"

text \<open>The encoding of one item, by type; \<open>R\<close> specifies the submessages.\<close>

definition spec_item :: "(pb_field list \<Rightarrow> addr \<Rightarrow> enc_res) \<Rightarrow> mem \<Rightarrow> pb_field \<Rightarrow> addr \<Rightarrow> enc_res" where
  "spec_item R m f src =
     (if ltype f = PB_LTYPE_VARINT then
        (if int_size (data_size f)
         then opt_spec (load_sint m src (data_size f)) (\<lambda>i. Emit (varint_bytes (nat (i mod 2 ^ 64))))
         else Reject)
      else if ltype f = PB_LTYPE_UVARINT then
        (if int_size (data_size f)
         then opt_spec (load_uint m src (data_size f)) (\<lambda>v. Emit (varint_bytes v))
         else Reject)
      else if ltype f = PB_LTYPE_SVARINT then
        (if int_size (data_size f)
         then opt_spec (load_sint m src (data_size f)) (\<lambda>i. Emit (varint_bytes (zigzag i)))
         else Reject)
      else if ltype f = PB_LTYPE_FIXED32 then opt_emit (load m src 4)
      else if ltype f = PB_LTYPE_FIXED64 then opt_emit (load m src 8)
      else if ltype f = PB_LTYPE_BYTES then
        (if src = 0 then Emit (delimited [])
         else opt_spec (load_size m src) (\<lambda>n.
           if atype f = PB_ATYPE_STATIC \<and> n + 4 > data_size f then Reject
           else opt_spec (load m (src + 4) n) spec_string))
      else if ltype f = PB_LTYPE_STRING then
        opt_spec (if src = 0 then Some 0
                  else strnlen_loop m src 0
                         (if atype f = PB_ATYPE_POINTER then 2 ^ 64 - 1 else data_size f))
          (\<lambda>n. opt_spec (load m src n) spec_string)
      else if ltype f = PB_LTYPE_SUBMESSAGE then
        (case ptr f of NullPtr \<Rightarrow> Reject | FieldsPtr fs \<Rightarrow> spec_submessage (R fs src)
         | DefaultPtr _ \<Rightarrow> NoClaim)
      else if ltype f = PB_LTYPE_FIXED_LENGTH_BYTES then opt_spec (load m src (data_size f)) spec_string
      else NoClaim)"

fun spec_items :: "nat \<Rightarrow> (addr \<Rightarrow> enc_res) \<Rightarrow> nat \<Rightarrow> addr \<Rightarrow> enc_res" where
  "spec_items 0 g step p = Emit []"
| "spec_items (Suc n) g step p = seq (g p) (spec_items n g step (p + step))"

definition spec_array ::
  "(pb_field list \<Rightarrow> addr \<Rightarrow> enc_res) \<Rightarrow> mem \<Rightarrow> pb_field \<Rightarrow> addr \<Rightarrow> nat \<Rightarrow> enc_res" where
  "spec_array R m f pd count =
     (if count = 0 then Emit []
      else if atype f \<noteq> PB_ATYPE_POINTER \<and> count > array_size f then Reject
      else if ltype f \<le> PB_LTYPE_LAST_PACKABLE then
        seq (Emit (spec_tag PB_WT_STRING (tag f)))
          (spec_submessage (spec_items count (spec_item R m f) (data_size f) pd))
      else
        spec_items count
          (\<lambda>p. seq (spec_field_tag f)
                 (if atype f = PB_ATYPE_POINTER \<and>
                     (ltype f = PB_LTYPE_STRING \<or> ltype f = PB_LTYPE_BYTES)
                  then opt_spec (load_ptr m p) (spec_item R m f) else spec_item R m f p))
          (data_size f) pd)"

definition spec_basic_field ::
  "(pb_field list \<Rightarrow> addr \<Rightarrow> enc_res) \<Rightarrow> mem \<Rightarrow> pb_field \<Rightarrow> addr \<Rightarrow> enc_res" where
  "spec_basic_field R m f pd =
     (let item = (\<lambda>p. seq (spec_field_tag f) (spec_item R m f p));
          size_ptr = ptr_offset pd (size_offset f)
      in opt_spec (if size_offset f \<noteq> 0 then Some False
                   else if htype f = PB_HTYPE_OPTIONAL
                   then map_option Not (pb_check_proto3_default_value m f pd) else Some True) (\<lambda>has0.
         opt_spec (if atype f = PB_ATYPE_POINTER then map_option (\<lambda>p. (p, p \<noteq> 0)) (load_ptr m pd)
                   else Some (pd, has0)) (\<lambda>(p, implicit_has).
           if htype f = PB_HTYPE_REQUIRED then (if p = 0 then Reject else item p)
           else if htype f = PB_HTYPE_OPTIONAL then
             opt_spec (if size_offset f \<noteq> 0 then load_bool m size_ptr else Some implicit_has)
               (\<lambda>has. if has then item p else Emit [])
           else if htype f = PB_HTYPE_REPEATED then
             opt_spec (if size_offset f \<noteq> 0 then load_size m size_ptr else Some (array_size f))
               (spec_array R m f p)
           else if htype f = PB_HTYPE_ONEOF then
             opt_spec (if size_offset f \<noteq> 0 then load_size m size_ptr else None)
               (\<lambda>which. if which = tag f then item p else Emit [])
           else Reject)))"

definition spec_field ::
  "(pb_field list \<Rightarrow> addr \<Rightarrow> enc_res) \<Rightarrow> mem \<Rightarrow> pb_field \<Rightarrow> addr \<Rightarrow> enc_res" where
  "spec_field R m f pd =
     (if ltype f = PB_LTYPE_EXTENSION then
        opt_spec (load_ptr m pd) (\<lambda>x. if x = 0 then Emit [] else NoClaim)
      else if atype f = PB_ATYPE_STATIC \<or> atype f = PB_ATYPE_POINTER then spec_basic_field R m f pd
      else if atype f = PB_ATYPE_CALLBACK then
        opt_spec (load_ptr m pd) (\<lambda>fn. if fn = 0 then Emit [] else NoClaim)
      else Reject)"

fun seq_list :: "enc_res list \<Rightarrow> enc_res" where
  "seq_list [] = Emit []"
| "seq_list (r # rs) = seq r (seq_list rs)"

text \<open>A message is the concatenation of its fields, in the order of the descriptors.\<close>

fun spec_message :: "nat \<Rightarrow> mem \<Rightarrow> pb_field list \<Rightarrow> addr \<Rightarrow> enc_res" where
  "spec_message 0 m fs src = NoClaim"
| "spec_message (Suc n) m fs src =
     (if \<not> field_array fs then NoClaim
      else seq_list (map (\<lambda>k. spec_field (spec_message n m) m (fs ! k) (data_pos fs src k))
                         [0 ..< n_fields fs]))"

subsection \<open>Varints\<close>

fun cont_bytes :: "nat \<Rightarrow> byte list" where
  "cont_bytes v = (if v = 0 then [] else word_of_nat (v mod 128 + 128) # cont_bytes (v div 128))"

declare cont_bytes.simps [simp del]

lemma cont_bytes_0 [simp]: "cont_bytes 0 = []"
  by (simp add: cont_bytes.simps)

lemma cont_bytes_pos:
  "v \<noteq> 0 \<Longrightarrow> cont_bytes v = word_of_nat (v mod 128 + 128) # cont_bytes (v div 128)"
  by (subst cont_bytes.simps) simp

lemma varint_step_byte:
  "ucast (((w :: 64 word) AND 0x7F) OR 0x80) = (word_of_nat (unat w mod 128 + 128) :: byte)"
proof -
  have "(w AND 0x7F) OR 0x80 = (w AND 0x7F) + 0x80"
    by (rule disjunctive_add_eq_or [symmetric]) (simp add: and.assoc)
  moreover have "w AND 0x7F = word_of_nat (unat w mod 128)"
    using and_low_mask [of w 7] by (simp add: mask_eq_exp_minus_1)
  ultimately have eq: "(w AND 0x7F) OR 0x80 = word_of_nat (unat w mod 128 + 128)"
    by (metis of_nat_add of_nat_numeral)
  show ?thesis unfolding eq by (rule ucast_of_nat_down) simp
qed

lemma varint_loop_eq:
  "unat w * 128 ^ length buf < 2 ^ 64 \<Longrightarrow> varint_loop buf w = Some (buf @ cont_bytes (unat w))"
proof (induction buf w rule: varint_loop.induct)
  case (1 buf w)
  show ?case
  proof (cases "w = 0")
    case True
    then show ?thesis by (simp add: varint_loop.simps)
  next
    case False
    then have pos: "unat w \<noteq> 0" by (simp add: unat_eq_0)
    have short: "\<not> length buf \<ge> 10"
    proof
      assume "length buf \<ge> 10"
      then have "(128 :: nat) ^ 10 \<le> 128 ^ length buf" by (intro power_increasing) auto
      moreover have "128 ^ length buf \<le> unat w * 128 ^ length buf" using pos by simp
      ultimately have "(128 :: nat) ^ 10 \<le> unat w * 128 ^ length buf" by (rule order_trans)
      from this "1.prems" have "(128 :: nat) ^ 10 < 2 ^ 64" by (rule le_less_trans)
      then show False by simp
    qed
    let ?b = "ucast ((w AND 0x7F) OR 0x80) :: byte"
    have div: "unat (drop_bit 7 w) = unat w div 128" using unat_drop_bit_div [of 7 w] by simp
    have "unat w div 128 * 128 ^ Suc (length buf) \<le> unat w * 128 ^ length buf"
      using mult_le_mono1 [OF div_times_less_eq_dividend [of "unat w" 128], of "128 ^ length buf"]
      by (simp add: mult.assoc)
    from this "1.prems" have "unat (drop_bit 7 w) * 128 ^ length (buf @ [?b]) < 2 ^ 64"
      unfolding div by (simp only: length_append_singleton)
    then have "varint_loop (buf @ [?b]) (drop_bit 7 w) = Some ((buf @ [?b]) @ cont_bytes (unat w div 128))"
      using "1.IH" [OF False short] unfolding div by blast
    then show ?thesis
      using False short pos
      by (subst varint_loop.simps) (simp add: varint_step_byte cont_bytes_pos)
  qed
qed

lemma fix_last_Cons:
  "xs \<noteq> [] \<Longrightarrow> (x # xs)[length (x # xs) - 1 := g ((x # xs) ! (length (x # xs) - 1))] =
     x # xs[length xs - 1 := g (xs ! (length xs - 1))]"
  by (cases "length xs") simp_all

lemma cont_bytes_fix:
  assumes "v \<noteq> 0"
  shows "(cont_bytes v)[length (cont_bytes v) - 1 := cont_bytes v ! (length (cont_bytes v) - 1) AND 0x7F]
         = varint_bytes v"
  using assms
proof (induction v rule: cont_bytes.induct)
  case (1 v)
  show ?case
  proof (cases "v < 128")
    case True
    then have one: "cont_bytes v = [word_of_nat (v + 128)]"
      using "1.prems" by (simp add: cont_bytes_pos)
    have u: "unat (word_of_nat (v + 128) :: byte) = v + 128"
      by (rule unat_byte_of_nat) (use True in simp)
    have "(word_of_nat (v + 128) :: byte) AND 0x7F = word_of_nat ((v + 128) mod 128)"
      using and_low_mask [of "word_of_nat (v + 128) :: byte" 7]
      unfolding u by (simp add: mask_eq_exp_minus_1)
    then show ?thesis using True by (simp add: one varint_bytes_small)
  next
    case False
    then have "v div 128 \<noteq> 0" by simp
    moreover from this have "cont_bytes (v div 128) \<noteq> []" by (simp add: cont_bytes_pos)
    ultimately show ?thesis
      using "1.IH" [OF "1.prems"]
      unfolding cont_bytes_pos [OF "1.prems"] varint_bytes_big [OF False]
      by (subst fix_last_Cons [where g = "\<lambda>b. b AND 0x7F"]) simp_all
  qed
qed

lemma length_cont_bytes: "v \<noteq> 0 \<Longrightarrow> length (cont_bytes v) = length (varint_bytes v)"
  using cont_bytes_fix [of v] by (metis length_list_update)

text \<open>The loop writes the base-128 digits of the value, and never an eleventh byte.\<close>

lemma pb_encode_varint_eq:
  "pb_encode_varint s w = pb_write s (varint_bytes (unat w)) (length (varint_bytes (unat w)))"
proof (cases "w \<le> 0x7F")
  case True
  then have "unat w < 128" by (simp add: word_le_nat_alt)
  moreover have "ucast w = (word_of_nat (unat w) :: byte)"
    using ucast_of_nat_down [of "unat w", where 'a = 64 and 'b = 8] by simp
  ultimately show ?thesis using True by (simp add: pb_encode_varint_def varint_bytes_small)
next
  case False
  then have pos: "unat w \<noteq> 0" by (auto simp: unat_eq_0)
  have "unat w * 128 ^ length ([] :: byte list) < 2 ^ 64"
    using unat_u64_less [of w] by simp
  then have "varint_loop [] w = Some (cont_bytes (unat w))" using varint_loop_eq by fastforce
  then show ?thesis
    using False cont_bytes_fix [OF pos] length_cont_bytes [OF pos]
    by (simp only: pb_encode_varint_def if_False option.case)
qed

subsection \<open>Streams after a write\<close>

lemma good_out_cases:
  assumes "good_out s"
  obtains (null) "ocallback s = ONoCallback" "oerrmsg s = None" "bytes_written s < 2 ^ 64"
  | (buf) dest p where "ocallback s = OBufWrite" "ostate s = OBuf dest p" "oerrmsg s = None"
      "bytes_written s \<le> max_size s" "max_size s < 2 ^ 63"
      "p + (max_size s - bytes_written s) \<le> length dest"
  using assms
  by (cases "ocallback s"; cases "ostate s") (auto simp: good_out_def)

lemma size_t_add: "size_t (size_t a + b) = size_t (a + b)" "size_t (b + size_t a) = size_t (b + a)"
  by (simp_all add: size_t_def mod_simps)

lemma put_put:
  assumes "good_out s" "room s (length a)"
  shows "put (put s a) b = put s (a @ b)"
  using assms(1)
proof (cases rule: good_out_cases)
  case null
  then show ?thesis by (simp add: put_def size_t_add add.assoc)
next
  case (buf dest p)
  then have "p + length a \<le> length dest" using assms(2) by (simp add: room_def)
  with buf show ?thesis by (simp add: put_def size_t_add ac_simps)
qed

lemma good_out_put:
  assumes "good_out s" "room s (length a)"
  shows "good_out (put s a)"
  using assms(1)
proof (cases rule: good_out_cases)
  case null
  then show ?thesis using size_t_bound by (simp add: put_def good_out_def)
next
  case (buf dest p)
  with assms(2) show ?thesis by (simp add: put_def good_out_def room_def size_simps)
qed

lemma room_put:
  assumes "good_out s" "room s (length a)"
  shows "room (put s a) n \<longleftrightarrow> room s (length a + n)"
  using assms(1)
proof (cases rule: good_out_cases)
  case null
  then show ?thesis by (simp add: put_def room_def)
next
  case (buf dest p)
  with assms(2) show ?thesis by (simp add: put_def room_def size_simps add.assoc)
qed

lemma kept_refl:
  assumes "good_out s"
  shows "kept s s"
  using assms by (cases rule: good_out_cases) (auto simp: kept_def)

lemma kept_errmsg: "kept s (s'\<lparr>oerrmsg := x\<rparr>) = kept s s'"
  by (auto simp: kept_def split: ocallback.splits ostate.splits)

lemma kept_put:
  assumes "good_out s" "room s (length a)"
  shows "kept s (put s a)"
  using assms(1)
proof (cases rule: good_out_cases)
  case null
  then show ?thesis by (simp add: put_def kept_def)
next
  case (buf dest p)
  with assms(2) show ?thesis by (simp add: put_def kept_def room_def size_simps)
qed

lemma kept_trans:
  assumes "kept s s1" "kept s1 s2"
  shows "kept s s2"
proof (cases "ocallback s")
  case OBufWrite
  show ?thesis
  proof (cases "ostate s")
    case (OBuf dest p)
    from assms(1) OBufWrite OBuf obtain dest1 p1 where 1: "ostate s1 = OBuf dest1 p1"
      "length dest1 = length dest" "p \<le> p1" "bytes_written s1 = bytes_written s + (p1 - p)"
      "take p dest1 = take p dest" "drop p1 dest1 = drop p1 dest"
      "ocallback s1 = OBufWrite" "max_size s1 = max_size s"
      by (auto simp: kept_def)
    from assms(2) 1 obtain dest2 p2 where 2: "ostate s2 = OBuf dest2 p2"
      "length dest2 = length dest1" "p1 \<le> p2" "bytes_written s2 = bytes_written s1 + (p2 - p1)"
      "bytes_written s2 \<le> max_size s1" "take p1 dest2 = take p1 dest1" "drop p2 dest2 = drop p2 dest1"
      "ocallback s2 = OBufWrite" "max_size s2 = max_size s1"
      by (auto simp: kept_def)
    have "take p dest2 = take p dest"
      using 1 2 by (metis min.absorb1 take_take)
    moreover have "drop p2 dest2 = drop p2 dest"
      using 1 2 by (metis drop_drop le_add_diff_inverse2)
    ultimately show ?thesis using 1 2 OBufWrite OBuf by (simp add: kept_def)
  qed (use assms OBufWrite in \<open>auto simp: kept_def\<close>)
qed (use assms in \<open>auto simp: kept_def\<close>)

subsection \<open>Rules for \<open>implements\<close>\<close>

lemma implements_NoClaim [implements_intros, simp]: "implements f NoClaim"
  by (simp add: implements_def)

lemma implements_EmitI:
  assumes "\<And>s. length bs < 2 ^ 63 \<Longrightarrow> good_out s \<Longrightarrow> room s (length bs) \<Longrightarrow> f s = Some (True, put s bs)"
    and "\<And>s. length bs < 2 ^ 63 \<Longrightarrow> good_out s \<Longrightarrow> \<not> room s (length bs) \<Longrightarrow>
           \<exists>s'. f s = Some (False, s') \<and> kept s s'"
  shows "implements f (Emit bs)"
  using assms by (auto simp: implements_def)

lemma implements_Emit_room:
  "implements f (Emit bs) \<Longrightarrow> length bs < 2 ^ 63 \<Longrightarrow> good_out s \<Longrightarrow> room s (length bs) \<Longrightarrow>
   f s = Some (True, put s bs)"
  by (simp add: implements_def)

lemma implements_Emit_full:
  "implements f (Emit bs) \<Longrightarrow> length bs < 2 ^ 63 \<Longrightarrow> good_out s \<Longrightarrow> \<not> room s (length bs) \<Longrightarrow>
   \<exists>s'. f s = Some (False, s') \<and> kept s s'"
  by (simp add: implements_def)

lemma implements_Reject:
  "implements f Reject \<Longrightarrow> good_out s \<Longrightarrow> \<exists>s'. f s = Some (False, s') \<and> kept s s'"
  by (simp add: implements_def)

lemma implements_error [implements_intros]: "implements (\<lambda>s. oerror s msg) Reject"
  by (auto simp: implements_def oerror_def kept_errmsg kept_refl)

lemma implements_write [implements_intros]:
  assumes "length bs = count"
  shows "implements (\<lambda>s. pb_write s bs count) (Emit bs)"
proof (rule implements_EmitI)
  fix s :: "'a ostream"
  assume len: "length bs < 2 ^ 63" and s: "good_out s" and room: "room s (length bs)"
  from s show "pb_write s bs count = Some (True, put s bs)"
    by (cases rule: good_out_cases)
      (use len room assms in \<open>auto simp: pb_write_def put_def room_def buf_write_def size_simps\<close>)
next
  fix s :: "'a ostream"
  assume len: "length bs < 2 ^ 63" and s: "good_out s" and full: "\<not> room s (length bs)"
  from s show "\<exists>s'. pb_write s bs count = Some (False, s') \<and> kept s s'"
    by (cases rule: good_out_cases)
      (use len full assms s in
        \<open>auto simp: pb_write_def room_def oerror_def kept_errmsg kept_refl size_simps\<close>)
qed

lemma implements_chk [implements_intros]:
  assumes f: "implements f r1" and g: "implements g r2"
  shows "implements (\<lambda>s. chk (f s) g) (seq r1 r2)"
proof (cases r1)
  case r1: (Emit a)
  show ?thesis
  proof (cases r2)
    case r2: (Emit b)
    have f': "implements f (Emit a)" and g': "implements g (Emit b)" using f g r1 r2 by auto
    have "implements (\<lambda>s. chk (f s) g) (Emit (a @ b))"
    proof (rule implements_EmitI)
      fix s :: "'a ostream"
      assume len: "length (a @ b) < 2 ^ 63" and s: "good_out s" and room: "room s (length (a @ b))"
      have ra: "room s (length a)" using room by (auto simp: room_def)
      have "room (put s a) (length b)" using room room_put [OF s ra] by simp
      then show "chk (f s) g = Some (True, put s (a @ b))"
        using len s ra implements_Emit_room [OF f' _ s ra]
          implements_Emit_room [OF g' _ good_out_put [OF s ra]] put_put [OF s ra]
        by simp
    next
      fix s :: "'a ostream"
      assume len: "length (a @ b) < 2 ^ 63" and s: "good_out s" and full: "\<not> room s (length (a @ b))"
      show "\<exists>s'. chk (f s) g = Some (False, s') \<and> kept s s'"
      proof (cases "room s (length a)")
        case True
        then have "\<not> room (put s a) (length b)" using full room_put [OF s True] by simp
        with len True s implements_Emit_full [OF g' _ good_out_put [OF s True]]
          implements_Emit_room [OF f' _ s True] show ?thesis
          by (auto intro: kept_trans kept_put)
      next
        case False
        with len implements_Emit_full [OF f' _ s] show ?thesis by auto
      qed
    qed
    then show ?thesis by (simp add: r1 r2)
  next
    case Reject
    have f': "implements f (Emit a)" and g': "implements g Reject" using f g r1 Reject by auto
    have "length a < 2 ^ 63 \<Longrightarrow> implements (\<lambda>s. chk (f s) g) Reject"
      unfolding implements_def [of _ Reject] enc_res.case
    proof (intro allI impI)
      fix s :: "'a ostream"
      assume len: "length a < 2 ^ 63" and s: "good_out s"
      show "\<exists>s'. chk (f s) g = Some (False, s') \<and> kept s s'"
      proof (cases "room s (length a)")
        case True
        with len s implements_Reject [OF g' good_out_put [OF s True]]
          implements_Emit_room [OF f' _ s True] show ?thesis
          by (auto intro: kept_trans kept_put)
      next
        case False
        with len implements_Emit_full [OF f' _ s] show ?thesis by auto
      qed
    qed
    then show ?thesis by (simp add: r1 Reject)
  qed (simp add: r1)
next
  case Reject
  with implements_Reject [of f] f show ?thesis by (fastforce simp: implements_def)
qed simp

lemma implements_return [implements_intros]:
  "implements (\<lambda>s. Some (True, s)) (Emit [])"
proof (rule implements_EmitI)
  fix s :: "'a ostream"
  assume "good_out s"
  then show "Some (True, s) = Some (True, put s [])"
    by (cases rule: good_out_cases) (simp_all add: put_def size_simps)
qed (auto simp: room_def good_out_def split: ocallback.splits ostate.splits)

lemma implements_opt [implements_intros]:
  assumes "\<And>v. x = Some v \<Longrightarrow> implements (\<lambda>s. f v s) (k v)"
  shows "implements (\<lambda>s. case x of None \<Rightarrow> None | Some v \<Rightarrow> f v s) (opt_spec x k)"
  using assms by (cases x) (simp_all add: opt_spec_def)

lemma implements_if [implements_intros]:
  assumes "b \<Longrightarrow> implements f r1" "\<not> b \<Longrightarrow> implements g r2"
  shows "implements (\<lambda>s. if b then f s else g s) (if b then r1 else r2)"
  using assms by simp

subsection \<open>Scalars implement their specification\<close>

lemma implements_varint [implements_intros]:
  "unat w = v \<Longrightarrow> implements (\<lambda>s. pb_encode_varint s w) (Emit (varint_bytes v))"
  unfolding pb_encode_varint_eq by (auto intro: implements_write)

lemma unat_of_nat_u64: "v < 2 ^ 64 \<Longrightarrow> unat (word_of_nat v :: 64 word) = v"
  by (simp add: unat_of_nat take_bit_eq_mod)

lemma unat_of_int_u64: "unat (word_of_int i :: 64 word) = nat (i mod 2 ^ 64)"
  by (simp add: unat_eq_nat_uint uint_word_of_int_eq take_bit_eq_mod)

lemma tag_word:
  assumes "t < 2 ^ 61" "wt < 8"
  shows "unat (push_bit 3 (word_of_nat t) OR word_of_nat wt :: 64 word) = t * 8 + wt"
proof -
  have "push_bit 3 (word_of_nat t :: 64 word) AND word_of_nat wt = 0"
  proof (rule bit_word_eqI)
    fix n
    have "\<not> bit wt n" if "3 \<le> n"
    proof -
      have "(2 :: nat) ^ 3 \<le> 2 ^ n" using that by (intro power_increasing) auto
      then have "wt < 2 ^ n" using assms(2) by simp
      then show ?thesis by (metis bit_take_bit_iff less_irrefl take_bit_nat_eq_self_iff)
    qed
    then show "bit (push_bit 3 (word_of_nat t :: 64 word) AND word_of_nat wt) n = bit (0 :: 64 word) n"
      by (auto simp: bit_simps)
  qed
  then have "push_bit 3 (word_of_nat t) OR word_of_nat wt = (push_bit 3 (word_of_nat t) + word_of_nat wt :: 64 word)"
    by (rule disjunctive_add_eq_or [symmetric])
  also have "\<dots> = word_of_nat (t * 8 + wt)" by (simp add: push_bit_eq_mult)
  finally have "push_bit 3 (word_of_nat t) OR word_of_nat wt = (word_of_nat (t * 8 + wt) :: 64 word)" .
  moreover have "t * 8 + wt < 2 ^ 64" using assms by simp
  ultimately show ?thesis by (simp only: unat_of_nat_u64)
qed

lemma push_tag_mod: "push_bit 3 (word_of_nat t :: 64 word) = push_bit 3 (word_of_nat (t mod 2 ^ 61))"
proof -
  have "(t * 8) mod (2 ^ 61 * 8) = t mod 2 ^ 61 * 8" by (rule mult_mod_left [symmetric])
  then have "(t * 8) mod 2 ^ 64 = t mod 2 ^ 61 * 8" by simp
  then have "unat (word_of_nat (t * 8) :: 64 word) = unat (word_of_nat (t mod 2 ^ 61 * 8) :: 64 word)"
    by (simp only: unat_of_nat take_bit_eq_mod) simp
  then have "(word_of_nat (t * 8) :: 64 word) = word_of_nat (t mod 2 ^ 61 * 8)"
    by (rule unsigned_word_eqI)
  then show ?thesis by (simp add: push_bit_eq_mult)
qed

lemma implements_tag [implements_intros]:
  "wt < 8 \<Longrightarrow> implements (\<lambda>s. pb_encode_tag s wt t) (Emit (spec_tag wt t))"
  unfolding pb_encode_tag_def spec_tag_def push_tag_mod [of t]
  by (rule implements_varint) (simp only: tag_word mod_less_divisor zero_less_power zero_less_numeral)

lemma zigzag_word:
  assumes "- (2 ^ 63) \<le> i" "i < 2 ^ 63"
  shows "unat (if i < 0 then NOT (push_bit 1 (word_of_int i :: 64 word)) else push_bit 1 (word_of_int i)) =
    zigzag i"
proof (cases "i < 0")
  case True
  have "NOT (push_bit 1 (word_of_int i :: 64 word)) = word_of_int (- 2 * i - 1)"
    by (simp add: not_eq_complement push_bit_eq_mult)
  also have "unat \<dots> = nat (- 2 * i - 1)" unfolding unat_of_int_u64 using True assms by simp
  finally show ?thesis using True by (simp add: zigzag_def)
next
  case False
  have "push_bit 1 (word_of_int i :: 64 word) = word_of_int (2 * i)" by (simp add: push_bit_eq_mult)
  also have "unat \<dots> = nat (2 * i)" unfolding unat_of_int_u64 using False assms by simp
  finally show ?thesis using False by (simp add: zigzag_def)
qed

lemma implements_svarint [implements_intros]:
  assumes "- (2 ^ 63) \<le> i" "i < 2 ^ 63"
  shows "implements (\<lambda>s. pb_encode_svarint s (word_of_int i)) (Emit (varint_bytes (zigzag i)))"
proof -
  have "sint (word_of_int i :: 64 word) = i"
    using assms by (simp add: sint_sbintrunc' signed_take_bit_int_eq_self)
  then show ?thesis
    unfolding pb_encode_svarint_def using zigzag_word [OF assms] by (simp add: implements_varint Let_def)
qed

lemma sint_range_u64: "- (2 ^ 63) \<le> sint (w :: 64 word)" "sint (w :: 64 word) < 2 ^ 63"
  using sint_ge [of w] sint_lt [of w] by simp_all

lemma svarint_is_zigzag: "pb_encode_svarint s w = pb_encode_varint s (word_of_nat (zigzag (sint w)))"
proof -
  let ?w = "if sint w < 0 then NOT (push_bit 1 w) else push_bit 1 w"
  have eq: "word_of_int (sint w) = w" by simp
  have "unat ?w = zigzag (sint w)" using zigzag_word [OF sint_range_u64, of w] unfolding eq .
  moreover have "x = word_of_nat (unat x)" for x :: "64 word" by simp
  from this [of ?w] have "?w = word_of_nat (unat ?w)" .
  ultimately have "?w = word_of_nat (zigzag (sint w))" by (simp only:)
  then show ?thesis by (simp add: pb_encode_svarint_def)
qed

lemma fixed_byte:
  "ucast (drop_bit k (word_of_nat v :: 'a::len word) AND 0xFF) = (word_of_nat (v div 2 ^ k) :: byte)"
  if "k + 8 \<le> LENGTH('a)"
proof -
  have m: "(0xFF :: 'a word) = mask 8" by (simp add: mask_eq_exp_minus_1)
  show ?thesis unfolding m using that
    by (intro bit_word_eqI) (auto simp: bit_simps simp flip: drop_bit_eq_div)
qed

lemma byte_of_nat_mod: "(word_of_nat (v mod 256) :: byte) = word_of_nat v"
proof -
  have "unat (word_of_nat (v mod 256) :: byte) = unat (word_of_nat v :: byte)"
    by (simp add: unat_of_nat take_bit_eq_mod)
  then show ?thesis by (rule unsigned_word_eqI)
qed

lemma nat_le_map: "nat_le n v = map (\<lambda>i. word_of_nat (v div 256 ^ i)) [0 ..< n]"
proof (induction n arbitrary: v)
  case (Suc n)
  have "[0 ..< Suc n] = 0 # map Suc [0 ..< n]" by (simp add: upt_conv_Cons map_Suc_upt del: upt_Suc)
  then show ?case
    by (simp add: Suc byte_of_nat_mod div_mult2_eq [symmetric] del: upt_Suc)
qed simp

lemma fixed32_bytes_eq: "fixed32_bytes (word_of_nat v) = nat_le 4 v"
  using fixed_byte [of 0 v, where 'a = 32] fixed_byte [of 8 v, where 'a = 32]
    fixed_byte [of 16 v, where 'a = 32] fixed_byte [of 24 v, where 'a = 32]
  by (simp add: fixed32_bytes_def nat_le_map upt_rec)

lemma fixed64_bytes_eq: "fixed64_bytes (word_of_nat v) = nat_le 8 v"
  using fixed_byte [of 0 v, where 'a = 64] fixed_byte [of 8 v, where 'a = 64]
    fixed_byte [of 16 v, where 'a = 64] fixed_byte [of 24 v, where 'a = 64]
    fixed_byte [of 32 v, where 'a = 64] fixed_byte [of 40 v, where 'a = 64]
    fixed_byte [of 48 v, where 'a = 64] fixed_byte [of 56 v, where 'a = 64]
  by (simp add: fixed64_bytes_def nat_le_map upt_rec)

lemma implements_fixed32:
  "implements (\<lambda>s. pb_encode_fixed32 m s src) (opt_emit (load m src 4))"
proof (cases "load m src 4")
  case (Some bs)
  then have "fixed32_bytes (word_of_nat (le_nat bs)) = bs" and "length bs = 4"
    using nat_le_le_nat [of bs] by (simp_all add: fixed32_bytes_eq load_length)
  with Some show ?thesis
    by (simp add: pb_encode_fixed32_def load_uint_def opt_emit_def implements_write)
qed (simp add: opt_emit_def)

lemma implements_fixed64:
  "implements (\<lambda>s. pb_encode_fixed64 m s src) (opt_emit (load m src 8))"
proof (cases "load m src 8")
  case (Some bs)
  then have "fixed64_bytes (word_of_nat (le_nat bs)) = bs" and "length bs = 8"
    using nat_le_le_nat [of bs] by (simp_all add: fixed64_bytes_eq load_length)
  with Some show ?thesis
    by (simp add: pb_encode_fixed64_def load_uint_def opt_emit_def implements_write)
qed (simp add: opt_emit_def)

lemma implements_string [implements_intros]:
  assumes "length bs = n"
  shows "implements (\<lambda>s. pb_encode_string s bs n) (spec_string bs)"
proof (cases "length bs < 2 ^ 63")
  case True
  then have "unat (word_of_nat n :: 64 word) = n" using assms by (intro unat_of_nat_u64) simp
  then have "implements (\<lambda>s. pb_encode_string s bs n) (seq (Emit (varint_bytes n)) (Emit bs))"
    unfolding pb_encode_string_def using assms
    by (intro implements_chk implements_varint implements_write)
  with True assms show ?thesis by (simp add: spec_string_def delimited_def)
qed (simp add: spec_string_def)

lemma implements_field_tag [implements_intros]:
  "implements (\<lambda>s. pb_encode_tag_for_field s f) (spec_field_tag f)"
proof -
  have le: "(lt :: 8 word) \<le> 2 \<longleftrightarrow> lt = 0 \<or> lt = 1 \<or> lt = 2" for lt
    by (auto simp: word_le_nat_alt word_unat_eq_iff)
  show ?thesis
    unfolding pb_encode_tag_for_field_def spec_field_tag_def wire_type_def le
    by (auto intro!: implements_tag implements_error)
qed

lemma load_sint_range:
  assumes "load_sint m a n = Some i" "int_size n"
  shows "- (2 ^ 63) \<le> i" "i < 2 ^ 63"
proof -
  from assms(1) obtain v where v: "load_uint m a n = Some v" "i = to_signed n v"
    by (auto simp: load_sint_def)
  from load_uint_bound [OF v(1)] assms(2) v(2) show "- (2 ^ 63) \<le> i" "i < 2 ^ 63"
    by (auto simp: int_size_def to_signed_def split: if_splits)
qed

lemma load_uint_u64: "load_uint m a n = Some v \<Longrightarrow> int_size n \<Longrightarrow> v < 2 ^ 64"
  using load_uint_bound [of m a n v] by (auto simp: int_size_def)

subsection \<open>Items, arrays and submessages\<close>

lemma good_out_sizing: "good_out PB_OSTREAM_SIZING"
  by (simp add: good_out_def PB_OSTREAM_SIZING_def)

lemma room_sizing: "room PB_OSTREAM_SIZING n"
  by (simp add: room_def PB_OSTREAM_SIZING_def)

lemma sizing_counts:
  assumes "implements f (Emit bs)" "length bs < 2 ^ 63"
  shows "\<exists>t. f PB_OSTREAM_SIZING = Some (True, t) \<and> bytes_written t = length bs"
  using implements_Emit_room [OF assms good_out_sizing room_sizing] assms(2)
  by (simp add: put_def PB_OSTREAM_SIZING_def size_simps)

lemma put_null: "ocallback s = ONoCallback \<Longrightarrow>
  put s bs = s\<lparr>bytes_written := size_t (bytes_written s + length bs)\<rparr>"
  by (cases s) (simp add: put_def)

text \<open>
  The second half of a length-delimited item: with no callback only the size is added,
  otherwise the body is run.
\<close>

lemma implements_body:
  assumes f: "implements f (Emit bs)" and n: "length bs = n"
  shows "implements (\<lambda>s. if is_null_callback (ocallback s) then pb_write s [] n else f s) (Emit bs)"
proof (rule implements_EmitI)
  fix s :: "'a ostream"
  assume len: "length bs < 2 ^ 63" and s: "good_out s" and room: "room s (length bs)"
  show "(if is_null_callback (ocallback s) then pb_write s [] n else f s) = Some (True, put s bs)"
  proof (cases "is_null_callback (ocallback s)")
    case True
    then have "ocallback s = ONoCallback" by (cases "ocallback s") auto
    then show ?thesis using n by (simp add: pb_write_def put_null)
  next
    case False
    then show ?thesis using implements_Emit_room [OF f len s room] by simp
  qed
next
  fix s :: "'a ostream"
  assume len: "length bs < 2 ^ 63" and s: "good_out s" and full: "\<not> room s (length bs)"
  then have "\<not> is_null_callback (ocallback s)" by (auto simp: room_def)
  with implements_Emit_full [OF f len s full]
  show "\<exists>s'. (if is_null_callback (ocallback s) then pb_write s [] n else f s) = Some (False, s') \<and>
          kept s s'" by simp
qed

text \<open>A body run on a substream of exactly its size writes what it would write on the stream.\<close>

definition run_substream ::
  "('u ostream \<Rightarrow> (bool \<times> 'u ostream) option) \<Rightarrow> nat \<Rightarrow> 'u ostream \<Rightarrow> (bool \<times> 'u ostream) option" where
  "run_substream f n s =
     (if size_t (bytes_written s + n) > max_size s then oerror s ''stream full''
      else (case f \<lparr>ocallback = ocallback s, ostate = ostate s, max_size = n,
                     bytes_written = 0, oerrmsg = None\<rparr> of None \<Rightarrow> None
            | Some (status, sub) \<Rightarrow>
                let s = s\<lparr>bytes_written := size_t (bytes_written s + bytes_written sub),
                          ostate := ostate sub, oerrmsg := oerrmsg sub\<rparr>
                in if bytes_written sub \<noteq> n then oerror s ''submsg size changed''
                   else Some (status, s)))"

lemma run_substream_buffer:
  assumes f: "implements f (Emit bs)" and len: "length bs < 2 ^ 63" and s: "good_out s"
    and cb: "\<not> is_null_callback (ocallback s)"
  shows "if room s (length bs) then run_substream f (length bs) s = Some (True, put s bs)
         else (\<exists>s'. run_substream f (length bs) s = Some (False, s') \<and> kept s s')"
  using s
proof (cases rule: good_out_cases)
  case null
  with cb show ?thesis by simp
next
  case (buf dest p)
  let ?sub = "\<lparr>ocallback = ocallback s, ostate = ostate s, max_size = length bs,
                bytes_written = 0, oerrmsg = None\<rparr>"
  show ?thesis
  proof (cases "room s (length bs)")
    case True
    then have fits: "bytes_written s + length bs \<le> max_size s" using cb by (simp add: room_def)
    then have "good_out ?sub" "room ?sub (length bs)"
      using buf len by (auto simp: good_out_def room_def)
    from implements_Emit_room [OF f len this] have "f ?sub = Some (True, put ?sub bs)" .
    then have "run_substream f (length bs) s = Some (True, put s bs)"
      using fits buf len by (simp add: run_substream_def put_def size_simps)
    with True show ?thesis by simp
  next
    case False
    then have "size_t (bytes_written s + length bs) > max_size s"
      using buf len by (simp add: room_def size_simps)
    then have "run_substream f (length bs) s = oerror s ''stream full''"
      by (simp add: run_substream_def)
    with False s show ?thesis by (auto simp: oerror_def kept_errmsg kept_refl)
  qed
qed

lemma implements_run_substream:
  assumes f: "implements f (Emit bs)" and n: "length bs = n"
  shows "implements (\<lambda>s. if is_null_callback (ocallback s) then pb_write s [] n
                        else run_substream f n s) (Emit bs)"
proof (rule implements_EmitI)
  fix s :: "'a ostream"
  assume len: "length bs < 2 ^ 63" and s: "good_out s" and room: "room s (length bs)"
  show "(if is_null_callback (ocallback s) then pb_write s [] n else run_substream f n s) =
          Some (True, put s bs)"
    using run_substream_buffer [OF f len s] room n put_null [of s bs]
    by (cases "ocallback s") (auto simp: pb_write_def)
next
  fix s :: "'a ostream"
  assume len: "length bs < 2 ^ 63" and s: "good_out s" and full: "\<not> room s (length bs)"
  then have cb: "\<not> is_null_callback (ocallback s)" by (auto simp: room_def)
  with run_substream_buffer [OF f len s cb] full n
  show "\<exists>s'. (if is_null_callback (ocallback s) then pb_write s [] n else run_substream f n s) =
          Some (False, s') \<and> kept s s'" by simp
qed

lemma unat_length_u64: "length bs < 2 ^ 63 \<Longrightarrow> unat (word_of_nat (length bs) :: 64 word) = length bs"
  by (rule unat_of_nat_u64) simp

lemma implements_submessage:
  assumes "implements (\<lambda>s. rec s fs src) r"
  shows "implements (\<lambda>s. pb_encode_submessage rec s fs src) (spec_submessage r)"
proof (cases r)
  case (Emit bs)
  show ?thesis
  proof (cases "length bs < 2 ^ 63")
    case True
    have f: "implements (\<lambda>s. rec s fs src) (Emit bs)" using assms Emit by simp
    from sizing_counts [OF f True] obtain t where t: "rec PB_OSTREAM_SIZING fs src = Some (True, t)"
      "bytes_written t = length bs" by blast
    have eq: "pb_encode_submessage rec s fs src =
      chk (pb_encode_varint s (word_of_nat (length bs)))
        (\<lambda>s. if is_null_callback (ocallback s) then pb_write s [] (length bs)
              else run_substream (\<lambda>s. rec s fs src) (length bs) s)" for s
      by (simp only: pb_encode_submessage_def run_substream_def t(1) option.case prod.case Let_def
          t(2) not_True_eq_False if_False)
    have "implements (\<lambda>s. pb_encode_submessage rec s fs src) (seq (Emit (varint_bytes (length bs))) (Emit bs))"
      unfolding eq
      by (intro implements_chk implements_varint unat_length_u64 True
          implements_run_substream [OF f]) simp
    with True Emit show ?thesis by (simp add: spec_submessage_def delimited_def)
  qed (simp add: Emit spec_submessage_def)
next
  case Reject
  with assms have "implements (\<lambda>s. rec s fs src) Reject" by simp
  from implements_Reject [OF this good_out_sizing] obtain t
    where "rec PB_OSTREAM_SIZING fs src = Some (False, t)" by blast
  with Reject show ?thesis
    by (auto simp: spec_submessage_def pb_encode_submessage_def implements_def kept_errmsg kept_refl)
qed (simp add: spec_submessage_def)

lemma implements_enc_submessage:
  assumes "\<And>fs src. implements (\<lambda>s. rec s fs src) (R fs src)"
  shows "implements (\<lambda>s. pb_enc_submessage rec s f src)
           (case ptr f of NullPtr \<Rightarrow> Reject | FieldsPtr fs \<Rightarrow> spec_submessage (R fs src)
            | DefaultPtr _ \<Rightarrow> NoClaim)"
  by (cases "ptr f")
    (simp_all add: pb_enc_submessage_def implements_error implements_submessage assms)

lemma allocsize_size: "load_size m a = Some n \<Longrightarrow> PB_BYTES_ARRAY_T_ALLOCSIZE n = n + 4"
  unfolding load_size_def PB_BYTES_ARRAY_T_ALLOCSIZE_def
  by (drule load_uint_bound) (simp add: size_simps)

lemma implements_enc_varint:
  "implements (\<lambda>s. pb_enc_varint m s f src)
     (if int_size (data_size f)
      then opt_spec (load_sint m src (data_size f)) (\<lambda>i. Emit (varint_bytes (nat (i mod 2 ^ 64))))
      else Reject)"
  unfolding pb_enc_varint_def load_int_field_def int_size_def
  by (cases "load_sint m src (data_size f)")
    (auto simp: opt_spec_def unat_of_int_u64 intro!: implements_error implements_varint)

lemma implements_enc_uvarint:
  "implements (\<lambda>s. pb_enc_uvarint m s f src)
     (if int_size (data_size f)
      then opt_spec (load_uint m src (data_size f)) (\<lambda>v. Emit (varint_bytes v)) else Reject)"
proof (cases "load_uint m src (data_size f)")
  case (Some v)
  then show ?thesis
    using load_uint_u64 [OF Some]
    by (auto simp: opt_spec_def int_size_def pb_enc_uvarint_def
        intro!: implements_error implements_varint unat_of_nat_u64)
qed (auto simp: opt_spec_def int_size_def pb_enc_uvarint_def intro!: implements_error)

lemma implements_enc_svarint:
  "implements (\<lambda>s. pb_enc_svarint m s f src)
     (if int_size (data_size f)
      then opt_spec (load_sint m src (data_size f)) (\<lambda>i. Emit (varint_bytes (zigzag i))) else Reject)"
proof (cases "load_sint m src (data_size f)")
  case (Some v)
  then show ?thesis
    using load_sint_range [OF Some]
    by (auto simp: opt_spec_def int_size_def pb_enc_svarint_def load_int_field_def
        intro!: implements_error implements_svarint)
qed (auto simp: opt_spec_def int_size_def pb_enc_svarint_def load_int_field_def intro!: implements_error)

lemma implements_enc_bytes:
  "implements (\<lambda>s. pb_enc_bytes m s f src)
     (if src = 0 then Emit (delimited [])
      else opt_spec (load_size m src) (\<lambda>n.
        if atype f = PB_ATYPE_STATIC \<and> n + 4 > data_size f then Reject
        else opt_spec (load m (src + 4) n) spec_string))"
proof (cases "src = 0")
  case True
  then show ?thesis
    using implements_string [of "[]" 0] by (simp add: pb_enc_bytes_def spec_string_def)
next
  case False
  then show ?thesis
    unfolding pb_enc_bytes_def bytes_array_bytes_def if_not_P [OF False]
    by (intro implements_opt) (auto simp: allocsize_size load_length
        intro!: implements_error implements_opt implements_string)
qed

lemma implements_enc_string:
  "implements (\<lambda>s. pb_enc_string m s f src)
     (opt_spec (if src = 0 then Some 0
                else strnlen_loop m src 0
                       (if atype f = PB_ATYPE_POINTER then 2 ^ 64 - 1 else data_size f))
        (\<lambda>n. opt_spec (load m src n) spec_string))"
  unfolding pb_enc_string_def Let_def
  by (intro implements_opt implements_string) (rule load_length)

lemma PB_ENCODERS_app:
  "PB_ENCODERS rec m lt s f src =
     (if lt = PB_LTYPE_VARINT then pb_enc_varint m s f src
      else if lt = PB_LTYPE_UVARINT then pb_enc_uvarint m s f src
      else if lt = PB_LTYPE_SVARINT then pb_enc_svarint m s f src
      else if lt = PB_LTYPE_FIXED32 then pb_encode_fixed32 m s src
      else if lt = PB_LTYPE_FIXED64 then pb_encode_fixed64 m s src
      else if lt = PB_LTYPE_BYTES then pb_enc_bytes m s f src
      else if lt = PB_LTYPE_STRING then pb_enc_string m s f src
      else if lt = PB_LTYPE_SUBMESSAGE then pb_enc_submessage rec s f src
      else if lt = PB_LTYPE_FIXED_LENGTH_BYTES then pb_enc_fixed_length_bytes m s f src
      else None)"
  by (simp add: PB_ENCODERS_def pb_enc_fixed32_def pb_enc_fixed64_def)

lemma implements_item:
  assumes "\<And>fs src. implements (\<lambda>s. rec s fs src) (R fs src)"
  shows "implements (\<lambda>s. PB_ENCODERS rec m (ltype f) s f src) (spec_item R m f src)"
proof -
  have fb: "implements (\<lambda>s. pb_enc_fixed_length_bytes m s f src)
    (opt_spec (load m src (data_size f)) spec_string)"
    unfolding pb_enc_fixed_length_bytes_def
    by (intro implements_opt implements_string) (rule load_length)
  show ?thesis
    unfolding PB_ENCODERS_app spec_item_def
    by (rule implements_if implements_enc_varint implements_enc_uvarint implements_enc_svarint
        implements_fixed32 implements_fixed64 implements_enc_bytes implements_enc_string
        implements_enc_submessage assms fb implements_NoClaim)+
qed

lemma implements_items:
  assumes "\<And>p. implements (\<lambda>s. func s f p) (g p)"
  shows "implements (\<lambda>s. encode_items n func s f p) (spec_items n g (data_size f) p)"
proof (induction n arbitrary: p)
  case 0
  then show ?case by (simp add: implements_return)
next
  case (Suc n)
  then show ?case by (simp add: implements_chk assms)
qed

lemma implements_tagged_items:
  assumes "\<And>p. implements (\<lambda>s. func s f p) (g p)"
  shows "implements (\<lambda>s. encode_tagged_items n func m s f p)
    (spec_items n
      (\<lambda>p. seq (spec_field_tag f)
             (if atype f = PB_ATYPE_POINTER \<and> (ltype f = PB_LTYPE_STRING \<or> ltype f = PB_LTYPE_BYTES)
              then opt_spec (load_ptr m p) g else g p))
      (data_size f) p)"
proof (induction n arbitrary: p)
  case 0
  then show ?case by (simp add: implements_return)
next
  case (Suc n)
  have assoc: "chk a (\<lambda>s. chk (b s) c) = chk (chk a b) c" for a :: "(bool \<times> 'a ostream) option" and b c
    by (auto simp: chk_def split: option.splits)
  show ?case
    unfolding encode_tagged_items.simps spec_items.simps assoc
    by (intro implements_chk Suc implements_field_tag implements_if implements_opt assms)
qed

lemma spec_items_fixed:
  assumes "\<And>p. g p = opt_emit (load m p k)"
  shows "spec_items n g step p = NoClaim \<or>
         (\<exists>bs. spec_items n g step p = Emit bs \<and> length bs = k * n)"
proof (induction n arbitrary: p)
  case (Suc n)
  show ?case
    using Suc [of "p + step"]
    by (cases "load m p k") (auto simp: assms opt_emit_def dest: load_length)
qed simp

text \<open>The size a packed array announces is the size of its items.\<close>

definition packed_size ::
  "pb_field \<Rightarrow> nat \<Rightarrow> (bool \<times> 'u ostream) option \<Rightarrow> (bool \<times> nat) option" where
  "packed_size f count r =
     (if ltype f = PB_LTYPE_FIXED32 then Some (True, size_t (4 * count))
      else if ltype f = PB_LTYPE_FIXED64 then Some (True, size_t (8 * count))
      else map_option (\<lambda>(ok, t). (ok, bytes_written t)) r)"

lemma packed_size_Emit:
  assumes items: "implements (\<lambda>s. encode_items count func s f pd)
      (spec_items count (spec_item R m f) (data_size f) pd)"
    and emit: "spec_items count (spec_item R m f) (data_size f) pd = Emit bs"
    and len: "length bs < 2 ^ 63"
  shows "packed_size f count (encode_items count func PB_OSTREAM_SIZING f pd) = Some (True, length bs)"
proof -
  from sizing_counts [OF items [unfolded emit] len] obtain t where
    "encode_items count func PB_OSTREAM_SIZING f pd = Some (True, t)" "bytes_written t = length bs"
    by blast
  moreover have "ltype f = PB_LTYPE_FIXED32 \<Longrightarrow> length bs = 4 * count"
    using spec_items_fixed [of "spec_item R m f" m 4 count "data_size f" pd] emit
    by (auto simp: spec_item_def)
  moreover have "ltype f = PB_LTYPE_FIXED64 \<Longrightarrow> length bs = 8 * count"
    using spec_items_fixed [of "spec_item R m f" m 8 count "data_size f" pd] emit
    by (auto simp: spec_item_def)
  ultimately show ?thesis using len by (auto simp: packed_size_def size_simps)
qed

lemma packed_size_Reject:
  assumes items: "implements (\<lambda>s. encode_items count func s f pd)
      (spec_items count (spec_item R m f) (data_size f) pd)"
    and rej: "spec_items count (spec_item R m f) (data_size f) pd = Reject"
  shows "\<exists>n. packed_size f count (encode_items count func PB_OSTREAM_SIZING f pd) = Some (False, n)"
proof -
  from implements_Reject [OF items [unfolded rej] good_out_sizing] obtain t where
    "encode_items count func PB_OSTREAM_SIZING f pd = Some (False, t)" by blast
  moreover have "ltype f \<noteq> PB_LTYPE_FIXED32"
    using spec_items_fixed [of "spec_item R m f" m 4 count "data_size f" pd] rej
    by (auto simp: spec_item_def)
  moreover have "ltype f \<noteq> PB_LTYPE_FIXED64"
    using spec_items_fixed [of "spec_item R m f" m 8 count "data_size f" pd] rej
    by (auto simp: spec_item_def)
  ultimately show ?thesis by (simp add: packed_size_def)
qed

lemma implements_packed:
  assumes items: "implements (\<lambda>s. encode_items count func s f pd)
      (spec_items count (spec_item R m f) (data_size f) pd)"
  shows "implements
     (\<lambda>s. case packed_size f count (encode_items count func PB_OSTREAM_SIZING f pd) of None \<Rightarrow> None
          | Some (ok, sz) \<Rightarrow>
              if \<not> ok then Some (False, s)
              else chk (pb_encode_varint s (word_of_nat sz)) (\<lambda>s.
                if is_null_callback (ocallback s) then pb_write s [] sz
                else encode_items count func s f pd))
     (spec_submessage (spec_items count (spec_item R m f) (data_size f) pd))"
proof (cases "spec_items count (spec_item R m f) (data_size f) pd")
  case (Emit bs)
  show ?thesis
  proof (cases "length bs < 2 ^ 63")
    case True
    have "implements (\<lambda>s. chk (pb_encode_varint s (word_of_nat (length bs)))
        (\<lambda>s. if is_null_callback (ocallback s) then pb_write s [] (length bs)
              else encode_items count func s f pd))
      (seq (Emit (varint_bytes (length bs))) (Emit bs))"
      by (intro implements_chk implements_varint unat_length_u64 True
          implements_body [OF items [unfolded Emit]]) simp
    with True show ?thesis
      using packed_size_Emit [OF items Emit True] Emit by (simp add: spec_submessage_def delimited_def)
  qed (simp add: Emit spec_submessage_def)
next
  case Reject
  from packed_size_Reject [OF items Reject] show ?thesis
    by (auto simp: Reject spec_submessage_def implements_def kept_refl)
qed (simp add: spec_submessage_def)

lemma implements_array:
  assumes "\<And>p. implements (\<lambda>s. func s f p) (spec_item R m f p)"
  shows "implements (\<lambda>s. encode_array m s f pd count func) (spec_array R m f pd count)"
  unfolding encode_array_def spec_array_def packed_size_def [symmetric]
  by (intro implements_if implements_return implements_error implements_chk implements_tag
      implements_packed implements_items implements_tagged_items assms) simp

lemma implements_opt_pair:
  assumes "\<And>u v. x = Some (u, v) \<Longrightarrow> implements (\<lambda>s. f u v s) (k u v)"
  shows "implements (\<lambda>s. case x of None \<Rightarrow> None | Some (u, v) \<Rightarrow> f u v s)
           (opt_spec x (\<lambda>(u, v). k u v))"
  using assms by (cases x) (auto simp: opt_spec_def)

lemma implements_basic_field:
  assumes "\<And>fs src. implements (\<lambda>s. rec s fs src) (R fs src)"
  shows "implements (\<lambda>s. encode_basic_field rec m s f pd) (spec_basic_field R m f pd)"
  unfolding encode_basic_field_def spec_basic_field_def Let_def
  by (intro implements_opt implements_opt_pair implements_if implements_chk implements_error
      implements_field_tag implements_item implements_return implements_array assms)

lemma implements_field:
  assumes "\<And>fs src. implements (\<lambda>s. rec s fs src) (R fs src)"
  shows "implements (\<lambda>s. if ltype f = PB_LTYPE_EXTENSION then encode_extension_field n rec e m s pd
                        else encode_field rec e m s f pd) (spec_field R m f pd)"
proof -
  have ext: "implements (\<lambda>s. encode_extension_field n rec e m s pd)
    (opt_spec (load_ptr m pd) (\<lambda>x. if x = 0 then Emit [] else NoClaim))"
    unfolding encode_extension_field_def
    by (rule implements_opt) (cases n; simp add: implements_return)
  have cb: "implements (\<lambda>s. encode_callback_field e m s f pd)
    (opt_spec (load_ptr m pd) (\<lambda>fn. if fn = 0 then Emit [] else NoClaim))"
    unfolding encode_callback_field_def
    by (rule implements_opt) (simp add: implements_return)
  show ?thesis
    unfolding encode_field_def spec_field_def
    by (intro implements_if ext cb implements_basic_field implements_error assms)
qed

lemma implements_seq_loop:
  assumes "\<And>it. it \<in> set its \<Longrightarrow> implements (body it) (g it)"
  shows "implements (seq_loop body its) (seq_list (map g its))"
  using assms
proof (induction its)
  case Nil
  then show ?case by (simp add: implements_return)
next
  case (Cons it its)
  have "implements (\<lambda>s. chk (body it s) (seq_loop body its)) (seq (g it) (seq_list (map g its)))"
    using Cons by (intro implements_chk) auto
  then show ?case by (simp add: seq_loop.simps [abs_def])
qed

subsection \<open>Messages\<close>

text \<open>The encoder implements the message specification, for every nesting depth.\<close>

lemma implements_message:
  "implements (\<lambda>s. pb_encode n e m s fs src) (spec_message n m fs src)"
proof (induction n arbitrary: fs src)
  case 0
  then show ?case by simp
next
  case (Suc n)
  show ?case
  proof (cases "field_array fs")
    case fa: True
    let ?body = "\<lambda>it s. case cur it of None \<Rightarrow> None
                   | Some f \<Rightarrow>
                       if ltype f = PB_LTYPE_EXTENSION
                       then encode_extension_field n (pb_encode n e m) e m s (pData it)
                       else encode_field (pb_encode n e m) e m s f (pData it)"
    let ?its = "map (iter_at fs src (local_size init_iter)) [0 ..< n_fields fs]"
    have eq: "pb_encode (Suc n) e m s fs src = seq_loop ?body ?its s" for s
      using fa by (simp add: iter_begin_at iter_loop_all)
    have "implements (seq_loop ?body ?its)
      (seq_list (map (\<lambda>it. spec_field (spec_message n m) m (the (cur it)) (pData it)) ?its))"
    proof (rule implements_seq_loop)
      fix it assume "it \<in> set ?its"
      then obtain k where "k \<in> set [0 ..< n_fields fs]"
        and k: "it = iter_at fs src (local_size init_iter) k" by (simp only: set_map image_iff) blast
      then have "k < length fs" by auto
      then show "implements (?body it) (spec_field (spec_message n m) m (the (cur it)) (pData it))"
        unfolding k iter_at_simps
        using implements_field [of "pb_encode n e m" "spec_message n m" "fs ! k" n e m, OF Suc]
        by (simp add: cur_iter_at)
    qed
    moreover have "map (\<lambda>it. spec_field (spec_message n m) m (the (cur it)) (pData it)) ?its =
      map (\<lambda>k. spec_field (spec_message n m) m (fs ! k) (data_pos fs src k)) [0 ..< n_fields fs]"
      by (auto simp: cur_iter_at)
    moreover have "spec_message (Suc n) m fs src = seq_list
      (map (\<lambda>k. spec_field (spec_message n m) m (fs ! k) (data_pos fs src k)) [0 ..< n_fields fs])"
      using fa by simp
    ultimately have "implements (seq_loop ?body ?its) (spec_message (Suc n) m fs src)"
      by (simp only:)
    then show ?thesis unfolding eq .
  qed simp
qed

declare spec_field_def [eval_simps] spec_basic_field_def [eval_simps] opt_spec_def [eval_simps]
  spec_field_tag_def [eval_simps] spec_item_def [eval_simps] wire_type_def [eval_simps]
  spec_tag_def [eval_simps] int_size_def [eval_simps]

end
