(* ===== verification/C_Struct.thy ===== *)
theory C_Struct
  imports Pb_Types
begin

text \<open>
  Structures as the C compiler lays them out on a 64-bit Darwin target, and the macro
  \<^verbatim>\<open>PB_FIELD\<close> of \<^verbatim>\<open>nanopb/pb.h\<close> that computes a field descriptor from a member of such a
  structure. Members are placed in order at the next multiple of their alignment.
\<close>

subsection \<open>Layout\<close>

datatype ctype = CBool | CInt32 | CInt64 | CEnum | CSize | CPtr nat | CStruct nat nat | CArray nat ctype

fun csize :: "ctype \<Rightarrow> nat" where
  "csize CBool = 1"
| "csize CInt32 = 4"
| "csize CInt64 = 8"
| "csize CEnum = 4"
| "csize CSize = 4"
| "csize (CPtr target) = 8"
| "csize (CStruct sz al) = sz"
| "csize (CArray n t) = n * csize t"

fun calign :: "ctype \<Rightarrow> nat" where
  "calign CBool = 1"
| "calign CInt32 = 4"
| "calign CInt64 = 8"
| "calign CEnum = 4"
| "calign CSize = 4"
| "calign (CPtr target) = 8"
| "calign (CStruct sz al) = al"
| "calign (CArray n t) = calign t"

text \<open>\<^verbatim>\<open>sizeof (((st*)0)->m[0])\<close>: what a pointer points at, or an element of an array.\<close>

fun element_size :: "ctype \<Rightarrow> nat" where
  "element_size (CPtr target) = target"
| "element_size (CArray n t) = csize t"
| "element_size t = csize t"

type_synonym cstruct = "(string \<times> ctype) list"

definition align_up :: "nat \<Rightarrow> nat \<Rightarrow> nat" where
  "align_up al n = (n + al - 1) div al * al"

fun member_offsets :: "nat \<Rightarrow> cstruct \<Rightarrow> (string \<times> nat) list" where
  "member_offsets pos [] = []"
| "member_offsets pos ((m, t) # ms) =
     (let off = align_up (calign t) pos in (m, off) # member_offsets (off + csize t) ms)"

fun struct_align :: "cstruct \<Rightarrow> nat" where
  "struct_align [] = 1"
| "struct_align ((m, t) # ms) = max (calign t) (struct_align ms)"

fun struct_end :: "nat \<Rightarrow> cstruct \<Rightarrow> nat" where
  "struct_end pos [] = pos"
| "struct_end pos ((m, t) # ms) = struct_end (align_up (calign t) pos + csize t) ms"

definition struct_size :: "cstruct \<Rightarrow> nat" where
  "struct_size st = align_up (struct_align st) (struct_end 0 st)"

definition as_member :: "cstruct \<Rightarrow> ctype" where
  "as_member st = CStruct (struct_size st) (struct_align st)"

definition offsetof :: "cstruct \<Rightarrow> string \<Rightarrow> nat" where
  "offsetof st m = (case map_of (member_offsets 0 st) m of None \<Rightarrow> 0 | Some off \<Rightarrow> off)"

definition pb_membersize :: "cstruct \<Rightarrow> string \<Rightarrow> nat" where
  "pb_membersize st m = (case map_of st m of None \<Rightarrow> 0 | Some t \<Rightarrow> csize t)"

definition pb_elementsize :: "cstruct \<Rightarrow> string \<Rightarrow> nat" where
  "pb_elementsize st m = (case map_of st m of None \<Rightarrow> 0 | Some t \<Rightarrow> element_size t)"

subsection \<open>The macro\<close>

datatype pb_rules = REQUIRED | OPTIONAL | REPEATED | SINGULAR

datatype pb_allocation = STATIC | POINTER | CALLBACK

datatype pb_placement = FIRST | OTHER

fun PB_DATAOFFSET :: "pb_placement \<Rightarrow> cstruct \<Rightarrow> string \<Rightarrow> string \<Rightarrow> nat" where
  "PB_DATAOFFSET FIRST st m1 m2 = PB_DATAOFFSET_FIRST (offsetof st m1)"
| "PB_DATAOFFSET OTHER st m1 m2 = PB_DATAOFFSET_OTHER (offsetof st m1) (offsetof st m2) (pb_membersize st m2)"

fun pb_field_rule ::
  "pb_rules \<Rightarrow> pb_allocation \<Rightarrow> nat \<Rightarrow> cstruct \<Rightarrow> string \<Rightarrow> nat \<Rightarrow> pb_type \<Rightarrow> pb_ptr \<Rightarrow> pb_field" where
  "pb_field_rule REQUIRED STATIC tg st m fd lt p = PB_REQUIRED_STATIC tg (pb_membersize st m) fd lt p"
| "pb_field_rule OPTIONAL STATIC tg st m fd lt p =
     PB_OPTIONAL_STATIC tg (pb_membersize st m) fd (pb_delta (offsetof st (''has_'' @ m)) (offsetof st m)) lt p"
| "pb_field_rule SINGULAR STATIC tg st m fd lt p = PB_SINGULAR_STATIC tg (pb_membersize st m) fd lt p"
| "pb_field_rule REPEATED STATIC tg st m fd lt p =
     PB_REPEATED_STATIC tg (pb_membersize st m) (pb_elementsize st m) fd
       (pb_delta (offsetof st (m @ ''_count'')) (offsetof st m)) lt p"
| "pb_field_rule REQUIRED POINTER tg st m fd lt p = PB_REQUIRED_POINTER tg (pb_elementsize st m) fd lt p"
| "pb_field_rule OPTIONAL POINTER tg st m fd lt p = PB_OPTIONAL_POINTER tg (pb_elementsize st m) fd lt p"
| "pb_field_rule SINGULAR POINTER tg st m fd lt p = PB_SINGULAR_POINTER tg (pb_elementsize st m) fd lt p"
| "pb_field_rule REPEATED POINTER tg st m fd lt p =
     PB_REPEATED_POINTER tg (pb_elementsize st m) fd
       (pb_delta (offsetof st (m @ ''_count'')) (offsetof st m)) lt p"
| "pb_field_rule REQUIRED CALLBACK tg st m fd lt p = PB_REQUIRED_CALLBACK tg (pb_membersize st m) fd lt p"
| "pb_field_rule OPTIONAL CALLBACK tg st m fd lt p = PB_OPTIONAL_CALLBACK tg (pb_membersize st m) fd lt p"
| "pb_field_rule SINGULAR CALLBACK tg st m fd lt p = PB_SINGULAR_CALLBACK tg (pb_membersize st m) fd lt p"
| "pb_field_rule REPEATED CALLBACK tg st m fd lt p = PB_REPEATED_CALLBACK tg (pb_membersize st m) fd lt p"

definition PB_FIELD ::
  "nat \<Rightarrow> pb_scalar \<Rightarrow> pb_rules \<Rightarrow> pb_allocation \<Rightarrow> pb_placement \<Rightarrow> cstruct \<Rightarrow> string \<Rightarrow> string \<Rightarrow>
   pb_ptr \<Rightarrow> pb_field" where
  "PB_FIELD tg ty rules alloc placement st m prev p =
     pb_field_rule rules alloc tg st m (PB_DATAOFFSET placement st m prev) (PB_LTYPE_MAP ty) p"

definition sizeof_bytes_array :: nat where
  "sizeof_bytes_array = struct_size [(''size'', CSize), (''bytes'', CArray 1 CBool)]"

declare struct_size_def [eval_simps] align_up_def [eval_simps] offsetof_def [eval_simps]
  pb_membersize_def [eval_simps] pb_elementsize_def [eval_simps] as_member_def [eval_simps]
  sizeof_bytes_array_def [eval_simps] PB_FIELD_def [eval_simps]

end
