(* ===== verification/Cct_Descriptors.thy ===== *)
theory Cct_Descriptors
  imports C_Struct
begin

text \<open>
  The messages of the log transport, \<^verbatim>\<open>cct.nanopb.h\<close> and \<^verbatim>\<open>cct.nanopb.c\<close>: structures with their
  members in order, default values, and the arrays of field descriptors.
\<close>

definition gdt_cct_NetworkConnectionInfo :: cstruct where
  "gdt_cct_NetworkConnectionInfo =
     [(''has_network_type'', CBool),
      (''network_type'', CEnum),
      (''has_mobile_subtype'', CBool),
      (''mobile_subtype'', CEnum)]"

definition gdt_cct_NetworkConnectionInfo_network_type_default :: "byte list" where
  "gdt_cct_NetworkConnectionInfo_network_type_default = nat_le 4 (of_signed 4 (-1))"

definition gdt_cct_NetworkConnectionInfo_mobile_subtype_default :: "byte list" where
  "gdt_cct_NetworkConnectionInfo_mobile_subtype_default = nat_le 4 (of_signed 4 (0))"

definition gdt_cct_NetworkConnectionInfo_fields :: "pb_field list" where
  "gdt_cct_NetworkConnectionInfo_fields =
     [PB_FIELD 1 ENUM OPTIONAL STATIC FIRST gdt_cct_NetworkConnectionInfo ''network_type'' ''network_type'' (DefaultPtr gdt_cct_NetworkConnectionInfo_network_type_default),
      PB_FIELD 2 UENUM OPTIONAL STATIC OTHER gdt_cct_NetworkConnectionInfo ''mobile_subtype'' ''network_type'' (DefaultPtr gdt_cct_NetworkConnectionInfo_mobile_subtype_default),
      PB_LAST_FIELD]"

definition gdt_cct_LogEvent :: cstruct where
  "gdt_cct_LogEvent =
     [(''has_event_time_ms'', CBool),
      (''event_time_ms'', CInt64),
      (''source_extension'', CPtr sizeof_bytes_array),
      (''has_event_code'', CBool),
      (''event_code'', CInt32),
      (''has_timezone_offset_seconds'', CBool),
      (''timezone_offset_seconds'', CInt64),
      (''has_event_uptime_ms'', CBool),
      (''event_uptime_ms'', CInt64),
      (''has_network_connection_info'', CBool),
      (''network_connection_info'', as_member gdt_cct_NetworkConnectionInfo)]"

definition gdt_cct_LogEvent_fields :: "pb_field list" where
  "gdt_cct_LogEvent_fields =
     [PB_FIELD 1 INT64 OPTIONAL STATIC FIRST gdt_cct_LogEvent ''event_time_ms'' ''event_time_ms'' NullPtr,
      PB_FIELD 6 BYTES OPTIONAL POINTER OTHER gdt_cct_LogEvent ''source_extension'' ''event_time_ms'' NullPtr,
      PB_FIELD 11 INT32 OPTIONAL STATIC OTHER gdt_cct_LogEvent ''event_code'' ''source_extension'' NullPtr,
      PB_FIELD 15 SINT64 OPTIONAL STATIC OTHER gdt_cct_LogEvent ''timezone_offset_seconds'' ''event_code'' NullPtr,
      PB_FIELD 17 INT64 OPTIONAL STATIC OTHER gdt_cct_LogEvent ''event_uptime_ms'' ''timezone_offset_seconds'' NullPtr,
      PB_FIELD 23 MESSAGE OPTIONAL STATIC OTHER gdt_cct_LogEvent ''network_connection_info'' ''event_uptime_ms'' (FieldsPtr gdt_cct_NetworkConnectionInfo_fields),
      PB_LAST_FIELD]"

definition gdt_cct_IosClientInfo :: cstruct where
  "gdt_cct_IosClientInfo =
     [(''os_major_version'', CPtr sizeof_bytes_array),
      (''os_full_version'', CPtr sizeof_bytes_array),
      (''application_build'', CPtr sizeof_bytes_array),
      (''country'', CPtr sizeof_bytes_array),
      (''model'', CPtr sizeof_bytes_array),
      (''language_code'', CPtr sizeof_bytes_array),
      (''application_bundle_id'', CPtr sizeof_bytes_array)]"

definition gdt_cct_IosClientInfo_fields :: "pb_field list" where
  "gdt_cct_IosClientInfo_fields =
     [PB_FIELD 3 BYTES OPTIONAL POINTER FIRST gdt_cct_IosClientInfo ''os_major_version'' ''os_major_version'' NullPtr,
      PB_FIELD 4 BYTES OPTIONAL POINTER OTHER gdt_cct_IosClientInfo ''os_full_version'' ''os_major_version'' NullPtr,
      PB_FIELD 5 BYTES OPTIONAL POINTER OTHER gdt_cct_IosClientInfo ''application_build'' ''os_full_version'' NullPtr,
      PB_FIELD 6 BYTES OPTIONAL POINTER OTHER gdt_cct_IosClientInfo ''country'' ''application_build'' NullPtr,
      PB_FIELD 7 BYTES OPTIONAL POINTER OTHER gdt_cct_IosClientInfo ''model'' ''country'' NullPtr,
      PB_FIELD 8 BYTES OPTIONAL POINTER OTHER gdt_cct_IosClientInfo ''language_code'' ''model'' NullPtr,
      PB_FIELD 11 BYTES OPTIONAL POINTER OTHER gdt_cct_IosClientInfo ''application_bundle_id'' ''language_code'' NullPtr,
      PB_LAST_FIELD]"

definition gdt_cct_ClientInfo :: cstruct where
  "gdt_cct_ClientInfo =
     [(''has_client_type'', CBool),
      (''client_type'', CEnum),
      (''has_ios_client_info'', CBool),
      (''ios_client_info'', as_member gdt_cct_IosClientInfo)]"

definition gdt_cct_ClientInfo_fields :: "pb_field list" where
  "gdt_cct_ClientInfo_fields =
     [PB_FIELD 1 UENUM OPTIONAL STATIC FIRST gdt_cct_ClientInfo ''client_type'' ''client_type'' NullPtr,
      PB_FIELD 4 MESSAGE OPTIONAL STATIC OTHER gdt_cct_ClientInfo ''ios_client_info'' ''client_type'' (FieldsPtr gdt_cct_IosClientInfo_fields),
      PB_LAST_FIELD]"

definition gdt_cct_LogRequest :: cstruct where
  "gdt_cct_LogRequest =
     [(''has_client_info'', CBool),
      (''client_info'', as_member gdt_cct_ClientInfo),
      (''has_log_source'', CBool),
      (''log_source'', CInt32),
      (''log_event_count'', CSize),
      (''log_event'', CPtr (struct_size gdt_cct_LogEvent)),
      (''has_request_time_ms'', CBool),
      (''request_time_ms'', CInt64),
      (''has_request_uptime_ms'', CBool),
      (''request_uptime_ms'', CInt64),
      (''has_qos_tier'', CBool),
      (''qos_tier'', CEnum)]"

definition gdt_cct_LogRequest_qos_tier_default :: "byte list" where
  "gdt_cct_LogRequest_qos_tier_default = nat_le 4 (of_signed 4 (0))"

definition gdt_cct_LogRequest_fields :: "pb_field list" where
  "gdt_cct_LogRequest_fields =
     [PB_FIELD 1 MESSAGE OPTIONAL STATIC FIRST gdt_cct_LogRequest ''client_info'' ''client_info'' (FieldsPtr gdt_cct_ClientInfo_fields),
      PB_FIELD 2 INT32 OPTIONAL STATIC OTHER gdt_cct_LogRequest ''log_source'' ''client_info'' NullPtr,
      PB_FIELD 3 MESSAGE REPEATED POINTER OTHER gdt_cct_LogRequest ''log_event'' ''log_source'' (FieldsPtr gdt_cct_LogEvent_fields),
      PB_FIELD 4 INT64 OPTIONAL STATIC OTHER gdt_cct_LogRequest ''request_time_ms'' ''log_event'' NullPtr,
      PB_FIELD 8 INT64 OPTIONAL STATIC OTHER gdt_cct_LogRequest ''request_uptime_ms'' ''request_time_ms'' NullPtr,
      PB_FIELD 9 UENUM OPTIONAL STATIC OTHER gdt_cct_LogRequest ''qos_tier'' ''request_uptime_ms'' (DefaultPtr gdt_cct_LogRequest_qos_tier_default),
      PB_LAST_FIELD]"

definition gdt_cct_BatchedLogRequest :: cstruct where
  "gdt_cct_BatchedLogRequest =
     [(''log_request_count'', CSize),
      (''log_request'', CPtr (struct_size gdt_cct_LogRequest))]"

definition gdt_cct_BatchedLogRequest_fields :: "pb_field list" where
  "gdt_cct_BatchedLogRequest_fields =
     [PB_FIELD 1 MESSAGE REPEATED POINTER FIRST gdt_cct_BatchedLogRequest ''log_request'' ''log_request'' (FieldsPtr gdt_cct_LogRequest_fields),
      PB_LAST_FIELD]"

definition gdt_cct_QosTierConfiguration :: cstruct where
  "gdt_cct_QosTierConfiguration =
     [(''has_qos_tier'', CBool),
      (''qos_tier'', CEnum),
      (''has_log_source'', CBool),
      (''log_source'', CInt32)]"

definition gdt_cct_QosTierConfiguration_log_source_default :: "byte list" where
  "gdt_cct_QosTierConfiguration_log_source_default = nat_le 4 (of_signed 4 (0))"

definition gdt_cct_QosTierConfiguration_fields :: "pb_field list" where
  "gdt_cct_QosTierConfiguration_fields =
     [PB_FIELD 2 UENUM OPTIONAL STATIC FIRST gdt_cct_QosTierConfiguration ''qos_tier'' ''qos_tier'' NullPtr,
      PB_FIELD 3 INT32 OPTIONAL STATIC OTHER gdt_cct_QosTierConfiguration ''log_source'' ''qos_tier'' (DefaultPtr gdt_cct_QosTierConfiguration_log_source_default),
      PB_LAST_FIELD]"

definition gdt_cct_QosTiersOverride :: cstruct where
  "gdt_cct_QosTiersOverride =
     [(''qos_tier_configuration_count'', CSize),
      (''qos_tier_configuration'', CPtr (struct_size gdt_cct_QosTierConfiguration)),
      (''has_qos_tier_fingerprint'', CBool),
      (''qos_tier_fingerprint'', CInt64)]"

definition gdt_cct_QosTiersOverride_fields :: "pb_field list" where
  "gdt_cct_QosTiersOverride_fields =
     [PB_FIELD 1 MESSAGE REPEATED POINTER FIRST gdt_cct_QosTiersOverride ''qos_tier_configuration'' ''qos_tier_configuration'' (FieldsPtr gdt_cct_QosTierConfiguration_fields),
      PB_FIELD 2 INT64 OPTIONAL STATIC OTHER gdt_cct_QosTiersOverride ''qos_tier_fingerprint'' ''qos_tier_configuration'' NullPtr,
      PB_LAST_FIELD]"

definition gdt_cct_LogResponse :: cstruct where
  "gdt_cct_LogResponse =
     [(''has_next_request_wait_millis'', CBool),
      (''next_request_wait_millis'', CInt64),
      (''has_qos_tier'', CBool),
      (''qos_tier'', as_member gdt_cct_QosTiersOverride)]"

definition gdt_cct_LogResponse_fields :: "pb_field list" where
  "gdt_cct_LogResponse_fields =
     [PB_FIELD 1 INT64 OPTIONAL STATIC FIRST gdt_cct_LogResponse ''next_request_wait_millis'' ''next_request_wait_millis'' NullPtr,
      PB_FIELD 3 MESSAGE OPTIONAL STATIC OTHER gdt_cct_LogResponse ''qos_tier'' ''next_request_wait_millis'' (FieldsPtr gdt_cct_QosTiersOverride_fields),
      PB_LAST_FIELD]"

end
