(* ===== verification/Pb_Encode_Properties.thy ===== *)
theory Pb_Encode_Properties
  imports Pb_Encode_Spec Cct_Descriptors
begin

text \<open>
  The encoder's contract towards its callers: what lands in the caller's buffer, what happens
  when the buffer is too small or the message is malformed, and that the size that is computed
  in advance is the size that is written.
\<close>

subsection \<open>Streams over a caller's buffer\<close>

lemma good_out_from_buffer [simp]:
  "n \<le> length buf \<Longrightarrow> n < 2 ^ 63 \<Longrightarrow> good_out (pb_ostream_from_buffer buf n)"
  by (simp add: good_out_def pb_ostream_from_buffer_def)

lemma room_from_buffer [simp]: "room (pb_ostream_from_buffer buf n) k \<longleftrightarrow> k \<le> n"
  by (simp add: room_def pb_ostream_from_buffer_def)

lemma put_from_buffer:
  "length bs < 2 ^ 63 \<Longrightarrow> put (pb_ostream_from_buffer buf n) bs =
     \<lparr>ocallback = OBufWrite, ostate = OBuf (bs @ drop (length bs) buf) (length bs), max_size = n,
      bytes_written = length bs, oerrmsg = None\<rparr>"
  by (simp add: put_def pb_ostream_from_buffer_def size_t_small)

text \<open>Nothing at or behind the announced size of the buffer is touched, even on failure.\<close>

definition failed_inside :: "byte list \<Rightarrow> nat \<Rightarrow> (bool \<times> 'u ostream) option \<Rightarrow> bool" where
  "failed_inside buf n r \<longleftrightarrow>
     (\<exists>s buf' p. r = Some (False, s) \<and> ostate s = OBuf buf' p \<and> p \<le> n \<and> bytes_written s = p \<and>
        length buf' = length buf \<and> drop p buf' = drop p buf)"

lemma kept_failed_inside:
  assumes "kept (pb_ostream_from_buffer buf n) s" "r = Some (False, s)"
  shows "failed_inside buf n r"
  using assms by (auto simp: kept_def pb_ostream_from_buffer_def failed_inside_def)

lemma buffer_outcome:
  assumes "implements f r" "n \<le> length buf" "n < 2 ^ 63"
  shows "r = Emit bs \<Longrightarrow> length bs \<le> n \<Longrightarrow> f (pb_ostream_from_buffer buf n) =
           Some (True, \<lparr>ocallback = OBufWrite, ostate = OBuf (bs @ drop (length bs) buf) (length bs),
                        max_size = n, bytes_written = length bs, oerrmsg = None\<rparr>)"
    and "r = Emit bs \<Longrightarrow> n < length bs \<Longrightarrow> length bs < 2 ^ 63 \<Longrightarrow>
           failed_inside buf n (f (pb_ostream_from_buffer buf n))"
    and "r = Reject \<Longrightarrow> failed_inside buf n (f (pb_ostream_from_buffer buf n))"
proof -
  note good = good_out_from_buffer [OF assms(2,3)]
  show "f (pb_ostream_from_buffer buf n) =
           Some (True, \<lparr>ocallback = OBufWrite, ostate = OBuf (bs @ drop (length bs) buf) (length bs),
                        max_size = n, bytes_written = length bs, oerrmsg = None\<rparr>)"
    if "r = Emit bs" "length bs \<le> n"
    using implements_Emit_room [of f bs "pb_ostream_from_buffer buf n"] assms good that
      put_from_buffer [of bs buf n] by simp
  show "failed_inside buf n (f (pb_ostream_from_buffer buf n))"
    if "r = Emit bs" "n < length bs" "length bs < 2 ^ 63"
    using implements_Emit_full [of f bs "pb_ostream_from_buffer buf n"] assms good that
    by (auto intro: kept_failed_inside)
  show "failed_inside buf n (f (pb_ostream_from_buffer buf n))" if "r = Reject"
    using implements_Reject [of f "pb_ostream_from_buffer buf n"] assms good that
    by (auto intro: kept_failed_inside)
qed


subsection \<open>A message of the log transport\<close>

lemma network_info_fields [eval_simps]:
  "gdt_cct_NetworkConnectionInfo_fields =
     [PbField 1 0x10 4 (- 4) 4 0 (DefaultPtr [255, 255, 255, 255]),
      PbField 2 0x11 4 (- 4) 4 0 (DefaultPtr [0, 0, 0, 0]), PbField 0 0 0 0 0 0 NullPtr]"
  by (simp add: eval_simps gdt_cct_NetworkConnectionInfo_fields_def gdt_cct_NetworkConnectionInfo_def
      gdt_cct_NetworkConnectionInfo_network_type_default_def
      gdt_cct_NetworkConnectionInfo_mobile_subtype_default_def)

text \<open>A structure at address 100: no network, mobile subtype LTE.\<close>

definition sample_info :: mem where
  "sample_info = map_of (zip [100 ..< 116] [1, 0, 0, 0, 255, 255, 255, 255, 1, 0, 0, 0, 13, 0, 0, 0])"

definition sample_bytes :: "byte list" where
  "sample_bytes = [8, 255, 255, 255, 255, 255, 255, 255, 255, 255, 1, 16, 13]"

definition no_callbacks :: "unit enc_env" where
  "no_callbacks = \<lparr>enc_callbacks = Map.empty, enc_ext_types = Map.empty\<rparr>"

lemma sample_length: "length sample_bytes = 13"
  by (simp add: sample_bytes_def)

lemma sample_spec:
  "spec_message 1 sample_info gdt_cct_NetworkConnectionInfo_fields 100 = Emit sample_bytes"
  unfolding sample_info_def sample_bytes_def One_nat_def by (simp add: eval_simps)


subsection \<open>Properties\<close>

text \<open>
  C1. Encoding a message into a buffer with enough room succeeds, and the buffer then holds
  exactly the bytes the wire format defines for the message, followed by what it held before.
\<close>

theorem pb_encode_writes_message:
  assumes "spec_message n m fs src = Emit bs" "length bs \<le> bufsize"
    and "bufsize \<le> length buf" "bufsize < 2 ^ 63"
  shows "pb_encode n e m (pb_ostream_from_buffer buf bufsize) fs src =
    Some (True, \<lparr>ocallback = OBufWrite, ostate = OBuf (bs @ drop (length bs) buf) (length bs),
                 max_size = bufsize, bytes_written = length bs, oerrmsg = None\<rparr>)"
  by (rule buffer_outcome(1) [OF implements_message assms(3,4,1,2)])

theorem pb_encode_writes_message_witness:
  "pb_encode 1 no_callbacks sample_info (pb_ostream_from_buffer (replicate 16 7) 16)
     gdt_cct_NetworkConnectionInfo_fields 100 =
   Some (True, \<lparr>ocallback = OBufWrite, ostate = OBuf (sample_bytes @ [7, 7, 7]) 13,
                max_size = 16, bytes_written = 13, oerrmsg = None\<rparr>)"
  using pb_encode_writes_message [OF sample_spec, of 16 "replicate 16 7" no_callbacks]
  unfolding sample_length by (simp add: replicate_numeral del: pb_encode.simps)

text \<open>
  C3. When the buffer is too small for the message, encoding returns false, and it has written
  nothing behind the announced size of the buffer.
\<close>

theorem pb_encode_full_buffer:
  assumes "spec_message n m fs src = Emit bs" "bufsize < length bs" "length bs < 2 ^ 63"
    and "bufsize \<le> length buf"
  shows "failed_inside buf bufsize (pb_encode n e m (pb_ostream_from_buffer buf bufsize) fs src)"
  using buffer_outcome(2) [OF implements_message assms(4) _ assms(1,2,3)] assms(2,3) by simp

theorem pb_encode_full_buffer_witness:
  "failed_inside (replicate 16 7) 12
     (pb_encode 1 no_callbacks sample_info (pb_ostream_from_buffer (replicate 16 7) 12)
        gdt_cct_NetworkConnectionInfo_fields 100)"
  by (rule pb_encode_full_buffer [OF sample_spec]) (simp_all add: sample_length)

text \<open>
  C4. A message the format cannot represent (a static array or byte field longer than its
  declared maximum, a missing required field, an invalid type or size in a descriptor) is
  rejected, again without a write outside the buffer.
\<close>

theorem pb_encode_rejects:
  assumes "spec_message n m fs src = Reject" "bufsize \<le> length buf" "bufsize < 2 ^ 63"
  shows "failed_inside buf bufsize (pb_encode n e m (pb_ostream_from_buffer buf bufsize) fs src)"
  by (rule buffer_outcome(3) [OF implements_message assms(2,3,1)])

text \<open>A bytes field of at most 4 bytes whose size member says 9.\<close>

definition oversized_fields :: "pb_field list" where
  "oversized_fields = [PB_REQUIRED_STATIC 1 8 0 PB_LTYPE_BYTES NullPtr, PB_LAST_FIELD]"

definition oversized_info :: mem where
  "oversized_info = map_of (zip [100 ..< 108] [9, 0, 0, 0, 1, 2, 3, 4])"

theorem pb_encode_rejects_witness:
  "failed_inside (replicate 16 7) 16
     (pb_encode 1 no_callbacks oversized_info (pb_ostream_from_buffer (replicate 16 7) 16)
        oversized_fields 100)"
proof (rule pb_encode_rejects)
  show "spec_message 1 oversized_info oversized_fields 100 = Reject"
    unfolding oversized_info_def oversized_fields_def One_nat_def
    by (simp add: eval_simps PB_REQUIRED_STATIC_def)
qed simp_all

text \<open>
  C5. The size computed in advance, by encoding into a stream without a buffer, is the number of
  bytes the message takes.
\<close>

theorem pb_get_encoded_size_correct:
  assumes "spec_message n m fs src = Emit bs" "length bs < 2 ^ 63"
  shows "pb_get_encoded_size n e m fs src = Some (True, Some (length bs))"
proof -
  have "implements (\<lambda>s. pb_encode n e m s fs src) (Emit bs)"
    using implements_message [of n e m fs src] assms(1) by simp
  from implements_Emit_room [OF this assms(2) good_out_sizing room_sizing] assms(2) show ?thesis
    by (simp add: pb_get_encoded_size_def put_def PB_OSTREAM_SIZING_def size_t_small)
qed

theorem pb_get_encoded_size_correct_witness:
  "pb_get_encoded_size 1 no_callbacks sample_info gdt_cct_NetworkConnectionInfo_fields 100 =
     Some (True, Some 13)"
  using pb_get_encoded_size_correct [OF sample_spec, of no_callbacks] by (simp add: sample_length)

text \<open>
  C6. A delimited message is the length of the message as a varint followed by the message; the
  check that the submessage kept its size between the sizing pass and the writing pass never
  fails.
\<close>

theorem pb_encode_delimited_writes:
  assumes "spec_message n m fs src = Emit bs" "length (delimited bs) \<le> bufsize"
    and "bufsize \<le> length buf" "bufsize < 2 ^ 63"
  shows "pb_encode_delimited n e m (pb_ostream_from_buffer buf bufsize) fs src =
    Some (True, \<lparr>ocallback = OBufWrite,
                 ostate = OBuf (delimited bs @ drop (length (delimited bs)) buf) (length (delimited bs)),
                 max_size = bufsize, bytes_written = length (delimited bs), oerrmsg = None\<rparr>)"
proof -
  have "spec_submessage (Emit bs) = Emit (delimited bs)"
    using assms(2,4) by (auto simp: spec_submessage_def delimited_def)
  moreover have "implements (\<lambda>s. pb_encode_delimited n e m s fs src) (spec_submessage (spec_message n m fs src))"
    unfolding pb_encode_delimited_def by (rule implements_submessage) (rule implements_message)
  ultimately show ?thesis
    using assms(1) by (intro buffer_outcome(1) [OF _ assms(3,4) _ assms(2)]) simp_all
qed

theorem pb_encode_delimited_writes_witness:
  "pb_encode_delimited 1 no_callbacks sample_info (pb_ostream_from_buffer (replicate 16 7) 16)
     gdt_cct_NetworkConnectionInfo_fields 100 =
   Some (True, \<lparr>ocallback = OBufWrite, ostate = OBuf (13 # sample_bytes @ [7, 7]) 14,
                max_size = 16, bytes_written = 14, oerrmsg = None\<rparr>)"
  using pb_encode_delimited_writes [OF sample_spec, of 16 "replicate 16 7" no_callbacks]
  by (simp add: sample_length delimited_def varint_bytes_small replicate_numeral)

text \<open>
  Writing a varint is writing the base-128 digits of the number, least significant first:
  between one and ten bytes, and never past the ten bytes of the local buffer.
\<close>

lemma pb_encode_varint_digits:
  "pb_encode_varint s w = pb_write s (varint_bytes (unat w)) (length (varint_bytes (unat w))) \<and>
   1 \<le> length (varint_bytes (unat w)) \<and> length (varint_bytes (unat w)) \<le> 10"
proof -
  have "unat w < 128 ^ 10" using unat_u64_less [of w] by simp
  then have "length (varint_bytes (unat w)) \<le> 10" by (rule varint_length) simp
  moreover have "1 \<le> length (varint_bytes (unat w))" by (simp add: Suc_le_eq)
  ultimately show ?thesis using pb_encode_varint_eq by blast
qed

end
