(* ===== verification/Pb_Istream.thy ===== *)
theory Pb_Istream
  imports Pb_Types
begin

text \<open>
  \<^verbatim>\<open>nanopb/pb_decode.c\<close>, first part: the input stream, the varint readers, tags, skipping and
  substreams. The state of a buffer stream is the part of the input that \<^verbatim>\<open>stream->state\<close>
  points at; reading past its end is undefined. \<^verbatim>\<open>uint_fast8_t\<close> has 8 bits, as on Darwin.
\<close>

subsection \<open>The input stream\<close>

datatype 'u istate = IBuf "byte list" | IUser 'u

datatype 'u icallback =
    IBufRead
  | IUserRead "'u \<Rightarrow> nat \<Rightarrow> (bool \<times> byte list \<times> 'u) option"

fun is_buf_read :: "'u icallback \<Rightarrow> bool" where
  "is_buf_read IBufRead = True"
| "is_buf_read (IUserRead g) = False"

record 'u istream =
  icallback :: "'u icallback"
  istate :: "'u istate"
  bytes_left :: nat
  ierrmsg :: "string option"

definition set_ierror :: "'u istream \<Rightarrow> string \<Rightarrow> 'u istream" where
  "set_ierror s msg = s\<lparr>ierrmsg := PB_SET_ERROR (ierrmsg s) msg\<rparr>"

definition buf_read :: "'u istate \<Rightarrow> nat \<Rightarrow> (bool \<times> byte list \<times> 'u istate) option" where
  "buf_read st count =
     (case st of
        IBuf source \<Rightarrow>
          if count \<le> length source then Some (True, take count source, IBuf (drop count source))
          else None
      | _ \<Rightarrow> None)"

fun call_icallback ::
  "'u icallback \<Rightarrow> 'u istate \<Rightarrow> nat \<Rightarrow> (bool \<times> byte list \<times> 'u istate) option" where
  "call_icallback IBufRead st count = buf_read st count"
| "call_icallback (IUserRead g) st count =
     (case st of
        IUser u \<Rightarrow>
          (case g u count of None \<Rightarrow> None
           | Some (ok, bs, u') \<Rightarrow>
               if length bs \<le> count \<and> (ok \<longrightarrow> length bs = count) then Some (ok, bs, IUser u')
               else None)
      | _ \<Rightarrow> None)"

text \<open>Reading into a buffer: the bytes that were put into it, and the stream.\<close>

definition read_bytes :: "'u istream \<Rightarrow> nat \<Rightarrow> (bool \<times> byte list \<times> 'u istream) option" where
  "read_bytes s count =
     (if bytes_left s < count then Some (False, [], set_ierror s ''end-of-stream'')
      else (case call_icallback (icallback s) (istate s) count of None \<Rightarrow> None
            | Some (ok, bs, st) \<Rightarrow>
                if ok then Some (True, bs, s\<lparr>istate := st, bytes_left := bytes_left s - count\<rparr>)
                else Some (False, bs, set_ierror (s\<lparr>istate := st\<rparr>) ''io error'')))"

text \<open>Skipping on a callback stream reads pieces of 16 bytes into a temporary buffer.\<close>

function skip_pieces :: "'u istream \<Rightarrow> nat \<Rightarrow> (bool \<times> 'u istream) option" where
  "skip_pieces s count =
     (if count > 16 then
        (case read_bytes s 16 of None \<Rightarrow> None
         | Some (ok, bs, s') \<Rightarrow> if ok then skip_pieces s' (count - 16) else Some (False, s'))
      else map_option (\<lambda>(ok, bs, s'). (ok, s')) (read_bytes s count))"
  by pat_completeness auto
termination
  by (relation "measure snd") auto

definition pb_read :: "'u istream \<Rightarrow> bool \<Rightarrow> nat \<Rightarrow> (bool \<times> byte list \<times> 'u istream) option" where
  "pb_read s buf_is_null count =
     (if buf_is_null \<and> \<not> is_buf_read (icallback s)
      then map_option (\<lambda>(ok, s'). (ok, [], s')) (skip_pieces s count)
      else read_bytes s count)"

definition pb_skip :: "'u istream \<Rightarrow> nat \<Rightarrow> (bool \<times> 'u istream) option" where
  "pb_skip s count = map_option (\<lambda>(ok, bs, s'). (ok, s')) (pb_read s True count)"

definition pb_readbyte :: "'u istream \<Rightarrow> (bool \<times> byte \<times> 'u istream) option" where
  "pb_readbyte s =
     (if bytes_left s = 0 then Some (False, 0, set_ierror s ''end-of-stream'')
      else (case call_icallback (icallback s) (istate s) 1 of None \<Rightarrow> None
            | Some (ok, bs, st) \<Rightarrow>
                if ok then Some (True, hd bs, s\<lparr>istate := st, bytes_left := bytes_left s - 1\<rparr>)
                else Some (False, 0, set_ierror (s\<lparr>istate := st\<rparr>) ''io error'')))"

definition pb_istream_from_buffer :: "byte list \<Rightarrow> nat \<Rightarrow> 'u istream" where
  "pb_istream_from_buffer buf bufsize =
     \<lparr>icallback = IBufRead, istate = IBuf buf, bytes_left = bufsize, ierrmsg = None\<rparr>"

lemma pb_readbyte_decreases:
  "pb_readbyte s = Some (True, b, s') \<Longrightarrow> bytes_left s' < bytes_left s"
  by (auto simp: pb_readbyte_def split: if_splits option.splits prod.splits)

subsection \<open>Varints\<close>

definition fast8 :: "nat \<Rightarrow> nat" where
  "fast8 n = n mod 2 ^ 8"

function varint32_loop ::
  "'u istream \<Rightarrow> 32 word \<Rightarrow> nat \<Rightarrow> (bool \<times> (32 word \<times> nat \<times> byte) \<times> 'u istream) option" where
  "varint32_loop s result bitpos =
     (case pb_readbyte s of None \<Rightarrow> None
      | Some (ok, b, s') \<Rightarrow>
          if \<not> ok then Some (False, (result, bitpos, b), s')
          else if bitpos \<ge> 32 \<and> b AND 0x7F \<noteq> 0 \<and>
                  (drop_bit 31 result = 0 \<or> b \<noteq> (if bitpos < 63 then 0xFF else 0x01))
          then Some (False, (result, bitpos, b), set_ierror s' ''varint overflow'')
          else let result' = (if bitpos \<ge> 32 then result
                              else result OR push_bit bitpos (ucast (b AND 0x7F)));
                   bitpos' = fast8 (bitpos + 7)
               in if b AND 0x80 \<noteq> 0 then varint32_loop s' result' bitpos'
                  else Some (True, (result', bitpos', b), s'))"
  by pat_completeness auto
termination
  by (relation "measure (\<lambda>(s, result, bitpos). bytes_left s)") (auto dest: pb_readbyte_decreases)

text \<open>The result: status, value, whether \<^verbatim>\<open>*eof\<close> was set, and the stream.\<close>

definition pb_decode_varint32_eof ::
  "'u istream \<Rightarrow> (bool \<times> 32 word \<times> bool \<times> 'u istream) option" where
  "pb_decode_varint32_eof s =
     (case pb_readbyte s of None \<Rightarrow> None
      | Some (ok, b, s') \<Rightarrow>
          if \<not> ok then Some (False, 0, bytes_left s' = 0, s')
          else if b AND 0x80 = 0 then Some (True, ucast b, False, s')
          else (case varint32_loop s' (ucast (b AND 0x7F)) 7 of None \<Rightarrow> None
                | Some (ok, (result, bitpos, b), s') \<Rightarrow>
                    if \<not> ok then Some (False, 0, False, s')
                    else if bitpos = 35 \<and> b AND 0x70 \<noteq> 0
                    then Some (False, 0, False, set_ierror s' ''varint overflow'')
                    else Some (True, result, False, s')))"

definition pb_decode_varint32 :: "'u istream \<Rightarrow> (bool \<times> 32 word \<times> 'u istream) option" where
  "pb_decode_varint32 s =
     map_option (\<lambda>(ok, v, eof, s'). (ok, v, s')) (pb_decode_varint32_eof s)"

function varint_read_loop ::
  "'u istream \<Rightarrow> 64 word \<Rightarrow> nat \<Rightarrow> (bool \<times> 64 word \<times> 'u istream) option" where
  "varint_read_loop s result bitpos =
     (if bitpos \<ge> 64 then Some (False, 0, set_ierror s ''varint overflow'')
      else (case pb_readbyte s of None \<Rightarrow> None
            | Some (ok, b, s') \<Rightarrow>
                if \<not> ok then Some (False, 0, s')
                else let result' = result OR push_bit bitpos (ucast (b AND 0x7F)) in
                     if b AND 0x80 \<noteq> 0 then varint_read_loop s' result' (fast8 (bitpos + 7))
                     else Some (True, result', s')))"
  by pat_completeness auto
termination
  by (relation "measure (\<lambda>(s, result, bitpos). bytes_left s)") (auto dest: pb_readbyte_decreases)

definition pb_decode_varint :: "'u istream \<Rightarrow> (bool \<times> 64 word \<times> 'u istream) option" where
  "pb_decode_varint s = varint_read_loop s 0 0"

definition pb_decode_svarint :: "'u istream \<Rightarrow> (bool \<times> 64 word \<times> 'u istream) option" where
  "pb_decode_svarint s =
     (case pb_decode_varint s of None \<Rightarrow> None
      | Some (ok, value, s') \<Rightarrow>
          if \<not> ok then Some (False, 0, s')
          else Some (True, (if value AND 1 \<noteq> 0 then NOT (drop_bit 1 value) else drop_bit 1 value), s'))"

definition pb_decode_fixed32 :: "'u istream \<Rightarrow> (bool \<times> 32 word \<times> 'u istream) option" where
  "pb_decode_fixed32 s =
     (case pb_read s False 4 of None \<Rightarrow> None
      | Some (ok, bs, s') \<Rightarrow>
          if \<not> ok then Some (False, 0, s')
          else Some (True, ucast (bs ! 0) OR push_bit 8 (ucast (bs ! 1)) OR
                           push_bit 16 (ucast (bs ! 2)) OR push_bit 24 (ucast (bs ! 3)), s'))"

definition pb_decode_fixed64 :: "'u istream \<Rightarrow> (bool \<times> 64 word \<times> 'u istream) option" where
  "pb_decode_fixed64 s =
     (case pb_read s False 8 of None \<Rightarrow> None
      | Some (ok, bs, s') \<Rightarrow>
          if \<not> ok then Some (False, 0, s')
          else Some (True, ucast (bs ! 0) OR push_bit 8 (ucast (bs ! 1)) OR
                           push_bit 16 (ucast (bs ! 2)) OR push_bit 24 (ucast (bs ! 3)) OR
                           push_bit 32 (ucast (bs ! 4)) OR push_bit 40 (ucast (bs ! 5)) OR
                           push_bit 48 (ucast (bs ! 6)) OR push_bit 56 (ucast (bs ! 7)), s'))"

subsection \<open>Tags and skipping\<close>

lemma pb_read_1_decreases:
  "pb_read s False (Suc 0) = Some (True, bs, s') \<Longrightarrow> bytes_left s' < bytes_left s"
  by (auto simp: pb_read_def read_bytes_def split: if_splits option.splits prod.splits)

function pb_skip_varint :: "'u istream \<Rightarrow> (bool \<times> 'u istream) option" where
  "pb_skip_varint s =
     (case pb_read s False 1 of None \<Rightarrow> None
      | Some (ok, bs, s') \<Rightarrow>
          if \<not> ok then Some (False, s')
          else if hd bs AND 0x80 \<noteq> 0 then pb_skip_varint s' else Some (True, s'))"
  by pat_completeness auto
termination
  by (relation "measure bytes_left") (auto dest: pb_read_1_decreases)

definition pb_skip_string :: "'u istream \<Rightarrow> (bool \<times> 'u istream) option" where
  "pb_skip_string s =
     (case pb_decode_varint32 s of None \<Rightarrow> None
      | Some (ok, n, s') \<Rightarrow> if \<not> ok then Some (False, s') else pb_skip s' (unat n))"

record tag_result =
  tr_ok :: bool
  tr_wire_type :: nat
  tr_tag :: nat
  tr_eof :: bool

definition pb_decode_tag :: "'u istream \<Rightarrow> (tag_result \<times> 'u istream) option" where
  "pb_decode_tag s =
     (case pb_decode_varint32_eof s of None \<Rightarrow> None
      | Some (ok, temp, eof, s') \<Rightarrow>
          if \<not> ok then Some (\<lparr>tr_ok = False, tr_wire_type = 0, tr_tag = 0, tr_eof = eof\<rparr>, s')
          else if temp = 0 then Some (\<lparr>tr_ok = False, tr_wire_type = 0, tr_tag = 0, tr_eof = True\<rparr>, s')
          else Some (\<lparr>tr_ok = True, tr_wire_type = unat (temp AND 7),
                      tr_tag = unat (drop_bit 3 temp), tr_eof = False\<rparr>, s'))"

definition pb_skip_field :: "'u istream \<Rightarrow> nat \<Rightarrow> (bool \<times> 'u istream) option" where
  "pb_skip_field s wt =
     (if wt = PB_WT_VARINT then pb_skip_varint s
      else if wt = PB_WT_64BIT then pb_skip s 8
      else if wt = PB_WT_STRING then pb_skip_string s
      else if wt = PB_WT_32BIT then pb_skip s 4
      else Some (False, set_ierror s ''invalid wire_type''))"

text \<open>The bytes of one scalar, at most \<open>max_size\<close> of them, for a field callback.\<close>

function read_raw_varint ::
  "'u istream \<Rightarrow> byte list \<Rightarrow> nat \<Rightarrow> (bool \<times> byte list \<times> 'u istream) option" where
  "read_raw_varint s acc maxs =
     (if Suc (length acc) > maxs then Some (False, acc, s)
      else (case pb_read s False 1 of None \<Rightarrow> None
            | Some (ok, bs, s') \<Rightarrow>
                if \<not> ok then Some (False, acc, s')
                else if hd bs AND 0x80 \<noteq> 0 then read_raw_varint s' (acc @ [hd bs]) maxs
                else Some (True, acc @ [hd bs], s')))"
  by pat_completeness auto
termination
  by (relation "measure (\<lambda>(s, acc, maxs). bytes_left s)") (auto dest: pb_read_1_decreases)

definition read_raw_value ::
  "'u istream \<Rightarrow> nat \<Rightarrow> nat \<Rightarrow> (bool \<times> byte list \<times> 'u istream) option" where
  "read_raw_value s wt maxs =
     (if wt = PB_WT_VARINT then read_raw_varint s [] maxs
      else if wt = PB_WT_64BIT then pb_read s False 8
      else if wt = PB_WT_32BIT then pb_read s False 4
      else Some (False, [], set_ierror s ''invalid wire_type''))"

subsection \<open>Substreams\<close>

text \<open>On success: the stream with the string taken off its length, and the substream.\<close>

definition pb_make_string_substream ::
  "'u istream \<Rightarrow> (bool \<times> 'u istream \<times> 'u istream) option" where
  "pb_make_string_substream s =
     (case pb_decode_varint32 s of None \<Rightarrow> None
      | Some (ok, n, s') \<Rightarrow>
          if \<not> ok then Some (False, s', s')
          else if bytes_left s' < unat n
          then Some (False, set_ierror s' ''parent stream too short'', s')
          else Some (True, s'\<lparr>bytes_left := bytes_left s' - unat n\<rparr>, s'\<lparr>bytes_left := unat n\<rparr>))"

definition pb_close_string_substream ::
  "'u istream \<Rightarrow> 'u istream \<Rightarrow> (bool \<times> 'u istream) option" where
  "pb_close_string_substream s sub =
     (case (if bytes_left sub \<noteq> 0 then pb_skip sub (bytes_left sub) else Some (True, sub)) of
        None \<Rightarrow> None
      | Some (ok, sub') \<Rightarrow>
          if \<not> ok then Some (False, s)
          else Some (True, s\<lparr>istate := istate sub', ierrmsg := ierrmsg sub'\<rparr>))"

declare skip_pieces.simps [simp del] varint32_loop.simps [simp del] varint_read_loop.simps [simp del]
  pb_skip_varint.simps [simp del] read_raw_varint.simps [simp del]

end
