(* ===== verification/Pb_Decode.thy ===== *)
theory Pb_Decode
  imports Pb_Istream Pb_Common
begin

text \<open>
  \<^verbatim>\<open>nanopb/pb_decode.c\<close>, second part: field decoders, static, pointer and callback fields,
  extensions, defaults, messages and their release. The message lies in the heap's byte memory;
  every function takes and returns the stream and the heap, and the functions that C gives a
  pointer to the iterator return the iterator too. Field callbacks and extension decoders of
  the application are parameters, held in the environment \<open>e\<close>.

  The recursive call of \<^verbatim>\<open>pb_decode_noinit\<close> on submessages is the argument \<open>rec\<close>; the fuel of
  \<open>pb_decode_noinit\<close>, \<open>pb_release\<close> and \<open>pb_field_set_to_default\<close> bounds the nesting of messages
  and the length of a chain of extensions.
\<close>

subsection \<open>Environment and results\<close>

type_synonym 'u dec_result = "(bool \<times> 'u istream \<times> heap) option"

type_synonym 'u decode_callback = "'u istream \<Rightarrow> heap \<Rightarrow> pb_field \<Rightarrow> addr \<Rightarrow> 'u dec_result"

record 'u ext_decoder =
  ext_decode :: "('u istream \<Rightarrow> heap \<Rightarrow> addr \<Rightarrow> nat \<Rightarrow> nat \<Rightarrow> 'u dec_result) option"
  ext_field :: pb_field

record 'u dec_env =
  dec_callbacks :: "addr \<rightharpoonup> 'u decode_callback"
  dec_ext_types :: "addr \<rightharpoonup> 'u ext_decoder"

type_synonym 'u decode_rec = "'u istream \<Rightarrow> heap \<Rightarrow> pb_field list \<Rightarrow> addr \<Rightarrow> 'u dec_result"

definition ierror :: "'u istream \<Rightarrow> heap \<Rightarrow> string \<Rightarrow> 'u dec_result" where
  "ierror s h msg = Some (False, set_ierror s msg, h)"

subsection \<open>Allocation\<close>

definition allocate_field :: "'u istream \<Rightarrow> heap \<Rightarrow> addr \<Rightarrow> nat \<Rightarrow> nat \<Rightarrow> 'u dec_result" where
  "allocate_field s h pd dsize asize =
     (case load_ptr (bytes h) pd of None \<Rightarrow> None
      | Some p \<Rightarrow>
          if dsize = 0 \<or> asize = 0 then ierror s h ''invalid size''
          else if (dsize \<ge> 2 ^ 32 \<or> asize \<ge> 2 ^ 32) \<and> (2 ^ 64 - 1) div asize < dsize
          then ierror s h ''size too large''
          else (case realloc h p (size_t (asize * dsize)) of None \<Rightarrow> None
                | Some (q, h') \<Rightarrow>
                    if q = 0 then ierror s h' ''realloc failed''
                    else map_option (\<lambda>h''. (True, s, h'')) (hstore h' pd (nat_le 8 q))))"

subsection \<open>Field decoders\<close>

text \<open>\<^verbatim>\<open>clamped = *(T*)dest = (T)value; if (clamped != value) error\<close> for a signed type of \<open>n\<close> bytes\<close>

definition store_signed :: "'u istream \<Rightarrow> heap \<Rightarrow> nat \<Rightarrow> addr \<Rightarrow> int \<Rightarrow> 'u dec_result" where
  "store_signed s h n dest v =
     (if n = 8 \<or> n = 4 \<or> n = 2 \<or> n = 1 then
        (case hstore h dest (nat_le n (of_signed n v)) of None \<Rightarrow> None
         | Some h' \<Rightarrow> if cast_signed n v \<noteq> v then ierror s h' ''integer too large''
                     else Some (True, s, h'))
      else ierror s h ''invalid data_size'')"

definition store_unsigned :: "'u istream \<Rightarrow> heap \<Rightarrow> nat \<Rightarrow> addr \<Rightarrow> nat \<Rightarrow> 'u dec_result" where
  "store_unsigned s h n dest v =
     (if n = 8 \<or> n = 4 \<or> n = 2 \<or> n = 1 then
        (case hstore h dest (nat_le n (v mod 256 ^ n)) of None \<Rightarrow> None
         | Some h' \<Rightarrow> if v mod 256 ^ n \<noteq> v then ierror s h' ''integer too large''
                     else Some (True, s, h'))
      else ierror s h ''invalid data_size'')"

definition pb_dec_varint :: "'u istream \<Rightarrow> heap \<Rightarrow> pb_field \<Rightarrow> addr \<Rightarrow> 'u dec_result" where
  "pb_dec_varint s h f dest =
     (case pb_decode_varint s of None \<Rightarrow> None
      | Some (ok, value, s) \<Rightarrow>
          if \<not> ok then Some (False, s, h)
          else let svalue = (if data_size f = 8 then sint value else sint (ucast value :: 32 word))
               in store_signed s h (data_size f) dest svalue)"

definition pb_dec_uvarint :: "'u istream \<Rightarrow> heap \<Rightarrow> pb_field \<Rightarrow> addr \<Rightarrow> 'u dec_result" where
  "pb_dec_uvarint s h f dest =
     (case pb_decode_varint s of None \<Rightarrow> None
      | Some (ok, value, s) \<Rightarrow>
          if \<not> ok then Some (False, s, h) else store_unsigned s h (data_size f) dest (unat value))"

definition pb_dec_svarint :: "'u istream \<Rightarrow> heap \<Rightarrow> pb_field \<Rightarrow> addr \<Rightarrow> 'u dec_result" where
  "pb_dec_svarint s h f dest =
     (case pb_decode_svarint s of None \<Rightarrow> None
      | Some (ok, value, s) \<Rightarrow>
          if \<not> ok then Some (False, s, h) else store_signed s h (data_size f) dest (sint value))"

definition pb_dec_fixed32 :: "'u istream \<Rightarrow> heap \<Rightarrow> pb_field \<Rightarrow> addr \<Rightarrow> 'u dec_result" where
  "pb_dec_fixed32 s h f dest =
     (case pb_decode_fixed32 s of None \<Rightarrow> None
      | Some (ok, v, s) \<Rightarrow>
          if \<not> ok then Some (False, s, h)
          else map_option (\<lambda>h'. (True, s, h')) (hstore h dest (nat_le 4 (unat v))))"

definition pb_dec_fixed64 :: "'u istream \<Rightarrow> heap \<Rightarrow> pb_field \<Rightarrow> addr \<Rightarrow> 'u dec_result" where
  "pb_dec_fixed64 s h f dest =
     (case pb_decode_fixed64 s of None \<Rightarrow> None
      | Some (ok, v, s) \<Rightarrow>
          if \<not> ok then Some (False, s, h)
          else map_option (\<lambda>h'. (True, s, h')) (hstore h dest (nat_le 8 (unat v))))"

text \<open>\<^verbatim>\<open>return pb_read(stream, dest, size)\<close>: what was read is stored, also when the read fails.\<close>

definition read_into :: "'u istream \<Rightarrow> heap \<Rightarrow> addr \<Rightarrow> nat \<Rightarrow> 'u dec_result" where
  "read_into s h dest n =
     (case pb_read s False n of None \<Rightarrow> None
      | Some (ok, bs, s) \<Rightarrow> map_option (\<lambda>h'. (ok, s, h')) (hstore h dest bs))"

definition pb_dec_bytes :: "'u istream \<Rightarrow> heap \<Rightarrow> pb_field \<Rightarrow> addr \<Rightarrow> 'u dec_result" where
  "pb_dec_bytes s h f dest =
     (case pb_decode_varint32 s of None \<Rightarrow> None
      | Some (ok, n32, s) \<Rightarrow>
          if \<not> ok then Some (False, s, h)
          else let n = unat n32; alloc_size = PB_BYTES_ARRAY_T_ALLOCSIZE n in
          if n > PB_SIZE_MAX then ierror s h ''bytes overflow''
          else if n > alloc_size then ierror s h ''size too large''
          else if atype f = PB_ATYPE_POINTER then
            (case allocate_field s h dest alloc_size 1 of None \<Rightarrow> None
             | Some (ok, s, h) \<Rightarrow>
                 if \<not> ok then Some (False, s, h)
                 else (case load_ptr (bytes h) dest of None \<Rightarrow> None
                       | Some bdest \<Rightarrow>
                           (case hstore h bdest (nat_le 4 n) of None \<Rightarrow> None
                            | Some h \<Rightarrow> read_into s h (bytes_array_bytes bdest) n)))
          else if alloc_size > data_size f then ierror s h ''bytes overflow''
          else (case hstore h dest (nat_le 4 n) of None \<Rightarrow> None
                | Some h \<Rightarrow> read_into s h (bytes_array_bytes dest) n))"

definition read_string_into :: "'u istream \<Rightarrow> heap \<Rightarrow> addr \<Rightarrow> nat \<Rightarrow> 'u dec_result" where
  "read_string_into s h dest n =
     (case read_into s h dest n of None \<Rightarrow> None
      | Some (status, s, h) \<Rightarrow> map_option (\<lambda>h'. (status, s, h')) (hstore h (dest + n) [0]))"

definition pb_dec_string :: "'u istream \<Rightarrow> heap \<Rightarrow> pb_field \<Rightarrow> addr \<Rightarrow> 'u dec_result" where
  "pb_dec_string s h f dest =
     (case pb_decode_varint32 s of None \<Rightarrow> None
      | Some (ok, n32, s) \<Rightarrow>
          if \<not> ok then Some (False, s, h)
          else let n = unat n32; alloc_size = u32 (n + 1) in
          if alloc_size < n then ierror s h ''size too large''
          else if atype f = PB_ATYPE_POINTER then
            (case allocate_field s h dest alloc_size 1 of None \<Rightarrow> None
             | Some (ok, s, h) \<Rightarrow>
                 if \<not> ok then Some (False, s, h)
                 else (case load_ptr (bytes h) dest of None \<Rightarrow> None
                       | Some q \<Rightarrow> read_string_into s h q n))
          else if alloc_size > data_size f then ierror s h ''string overflow''
          else read_string_into s h dest n)"

definition pb_dec_fixed_length_bytes :: "'u istream \<Rightarrow> heap \<Rightarrow> pb_field \<Rightarrow> addr \<Rightarrow> 'u dec_result" where
  "pb_dec_fixed_length_bytes s h f dest =
     (case pb_decode_varint32 s of None \<Rightarrow> None
      | Some (ok, n32, s) \<Rightarrow>
          if \<not> ok then Some (False, s, h)
          else let n = unat n32 in
          if n > PB_SIZE_MAX then ierror s h ''bytes overflow''
          else if n = 0 then
            map_option (\<lambda>h'. (True, s, h')) (hstore h dest (replicate (data_size f) 0))
          else if n \<noteq> data_size f then ierror s h ''incorrect fixed length bytes size''
          else read_into s h dest (data_size f))"

subsection \<open>Extensions in memory\<close>

definition iter_from_extension :: "'u dec_env \<Rightarrow> heap \<Rightarrow> addr \<Rightarrow> pb_field_iter option" where
  "iter_from_extension e h extension =
     (case load_ptr (bytes h) extension of None \<Rightarrow> None
      | Some typ \<Rightarrow>
      (case dec_ext_types e typ of None \<Rightarrow> None
       | Some ty \<Rightarrow>
       (case load_ptr (bytes h) (extension_dest extension) of None \<Rightarrow> None
        | Some dest \<Rightarrow>
            (case pb_field_iter_begin init_iter [ext_field ty] dest of None \<Rightarrow> None
             | Some (_, it) \<Rightarrow>
                 Some (it\<lparr>pData := (if atype (ext_field ty) = PB_ATYPE_POINTER
                                     then extension_dest extension else dest),
                          pSize := AtAddr (extension_found extension)\<rparr>)))))"

subsection \<open>Defaults\<close>

definition message_defaults ::
  "(pb_field_iter \<Rightarrow> heap \<Rightarrow> heap option) \<Rightarrow> pb_field list \<Rightarrow> addr \<Rightarrow> heap \<Rightarrow> heap option" where
  "message_defaults set_field fs dest h =
     (case pb_field_iter_begin init_iter fs dest of None \<Rightarrow> None
      | Some (nonempty, it) \<Rightarrow>
          if \<not> nonempty then Some h
          else map_option snd
                 (iter_loop (length fs) (\<lambda>it h. map_option (\<lambda>h'. (True, h')) (set_field it h)) it h))"

fun extension_defaults ::
  "nat \<Rightarrow> (pb_field_iter \<Rightarrow> heap \<Rightarrow> heap option) \<Rightarrow> 'u dec_env \<Rightarrow> addr \<Rightarrow> heap \<Rightarrow> heap option" where
  "extension_defaults 0 set_field e ext h = (if ext = 0 then Some h else None)"
| "extension_defaults (Suc n) set_field e ext h =
     (if ext = 0 then Some h
      else (case hstore h (extension_found ext) [0] of None \<Rightarrow> None
            | Some h \<Rightarrow>
            (case iter_from_extension e h ext of None \<Rightarrow> None
             | Some ext_iter \<Rightarrow>
             (case set_field ext_iter h of None \<Rightarrow> None
              | Some h \<Rightarrow>
              (case load_ptr (bytes h) (extension_next ext) of None \<Rightarrow> None
               | Some next_ext \<Rightarrow> extension_defaults n set_field e next_ext h)))))"

text \<open>The has-flag, counter or \<^verbatim>\<open>which_\<close> member of a static field, then the data itself.\<close>

definition own_flag :: "pb_field_iter \<Rightarrow> pb_field \<Rightarrow> bool" where
  "own_flag it f \<longleftrightarrow> htype f = PB_HTYPE_OPTIONAL \<and> pSize it \<noteq> AtAddr (pData it)"

definition counted :: "pb_field \<Rightarrow> bool" where
  "counted f \<longleftrightarrow> htype f = PB_HTYPE_REPEATED \<or> htype f = PB_HTYPE_ONEOF"

definition clear_slot :: "pb_field_iter \<Rightarrow> pb_field \<Rightarrow> heap \<Rightarrow> heap option" where
  "clear_slot it f h =
     (case pSize it of
        AtAddr a \<Rightarrow> if own_flag it f then hstore h a [0]
                    else if counted f then hstore h a (nat_le 4 0) else Some h
      | AtLocal \<Rightarrow> None)"

definition init_field_data ::
  "(pb_field list \<Rightarrow> addr \<Rightarrow> heap \<Rightarrow> heap option) \<Rightarrow> pb_field_iter \<Rightarrow> pb_field \<Rightarrow> heap \<Rightarrow> heap option" where
  "init_field_data defaults it f h =
     (if ltype f = PB_LTYPE_SUBMESSAGE then
        (case ptr f of FieldsPtr fs \<Rightarrow> defaults fs (pData it) h | _ \<Rightarrow> None)
      else (case ptr f of
              NullPtr \<Rightarrow> hstore h (pData it) (replicate (data_size f) 0)
            | DefaultPtr bs \<Rightarrow>
                if data_size f \<le> length bs then hstore h (pData it) (take (data_size f) bs) else None
            | FieldsPtr fs \<Rightarrow> None))"

fun pb_field_set_to_default :: "nat \<Rightarrow> 'u dec_env \<Rightarrow> pb_field_iter \<Rightarrow> heap \<Rightarrow> heap option" where
  "pb_field_set_to_default 0 e it h = None"
| "pb_field_set_to_default (Suc n) e it h =
     (case cur it of None \<Rightarrow> None
      | Some f \<Rightarrow>
          if ltype f = PB_LTYPE_EXTENSION then
            (case load_ptr (bytes h) (pData it) of None \<Rightarrow> None
             | Some ext \<Rightarrow> extension_defaults n (pb_field_set_to_default n e) e ext h)
          else if atype f = PB_ATYPE_STATIC then
            (case clear_slot it f h of None \<Rightarrow> None
             | Some h \<Rightarrow>
                 if \<not> own_flag it f \<and> counted f then Some h
                 else init_field_data (message_defaults (pb_field_set_to_default n e)) it f h)
          else if atype f = PB_ATYPE_POINTER then
            (case hstore h (pData it) (nat_le 8 0) of None \<Rightarrow> None
             | Some h \<Rightarrow>
                 if counted f
                 then (case pSize it of AtAddr a \<Rightarrow> hstore h a (nat_le 4 0) | AtLocal \<Rightarrow> None)
                 else Some h)
          else Some h)"

definition pb_message_set_to_defaults ::
  "nat \<Rightarrow> 'u dec_env \<Rightarrow> pb_field list \<Rightarrow> addr \<Rightarrow> heap \<Rightarrow> heap option" where
  "pb_message_set_to_defaults n e fs dest h =
     message_defaults (pb_field_set_to_default n e) fs dest h"

text \<open>Zero the memory, so that callbacks are null, then set the default values.\<close>

definition clear_submessage ::
  "nat \<Rightarrow> 'u dec_env \<Rightarrow> pb_field \<Rightarrow> addr \<Rightarrow> heap \<Rightarrow> heap option" where
  "clear_submessage n e f item h =
     (case hstore h item (replicate (data_size f) 0) of None \<Rightarrow> None
      | Some h \<Rightarrow>
          (case ptr f of FieldsPtr fs \<Rightarrow> pb_message_set_to_defaults n e fs item h | _ \<Rightarrow> None))"

subsection \<open>Release\<close>

text \<open>\<^verbatim>\<open>while (count--) { pb_release(ptr, pItem); pItem += data_size; }\<close>\<close>

fun release_items ::
  "nat \<Rightarrow> (pb_field list \<Rightarrow> addr \<Rightarrow> heap \<Rightarrow> heap option) \<Rightarrow> pb_field list \<Rightarrow> nat \<Rightarrow> addr \<Rightarrow> heap \<Rightarrow>
   heap option" where
  "release_items 0 rel fs step p h = Some h"
| "release_items (Suc n) rel fs step p h =
     (case rel fs p h of None \<Rightarrow> None | Some h \<Rightarrow> release_items n rel fs step (p + step) h)"

text \<open>\<^verbatim>\<open>while (count--) { pb_free(*pItem); *pItem++ = NULL; }\<close>\<close>

fun release_pointers :: "nat \<Rightarrow> addr \<Rightarrow> heap \<Rightarrow> heap option" where
  "release_pointers 0 p h = Some h"
| "release_pointers (Suc n) p h =
     (case load_ptr (bytes h) p of None \<Rightarrow> None
      | Some q \<Rightarrow>
      (case free h q of None \<Rightarrow> None
       | Some h \<Rightarrow>
       (case hstore h p (nat_le 8 0) of None \<Rightarrow> None
        | Some h \<Rightarrow> release_pointers n (p + sizeof_ptr) h)))"

fun release_extensions ::
  "nat \<Rightarrow> (pb_field_iter \<Rightarrow> heap \<Rightarrow> heap option) \<Rightarrow> 'u dec_env \<Rightarrow> addr \<Rightarrow> heap \<Rightarrow> heap option" where
  "release_extensions 0 rel e ext h = (if ext = 0 then Some h else None)"
| "release_extensions (Suc n) rel e ext h =
     (if ext = 0 then Some h
      else (case iter_from_extension e h ext of None \<Rightarrow> None
            | Some ext_iter \<Rightarrow>
            (case rel ext_iter h of None \<Rightarrow> None
             | Some h \<Rightarrow>
             (case load_ptr (bytes h) (extension_next ext) of None \<Rightarrow> None
              | Some next_ext \<Rightarrow> release_extensions n rel e next_ext h))))"

definition message_release ::
  "(pb_field_iter \<Rightarrow> heap \<Rightarrow> heap option) \<Rightarrow> pb_field list \<Rightarrow> addr \<Rightarrow> heap \<Rightarrow> heap option" where
  "message_release rel fs dest h =
     (if dest = 0 then Some h
      else (case pb_field_iter_begin init_iter fs dest of None \<Rightarrow> None
            | Some (nonempty, it) \<Rightarrow>
                if \<not> nonempty then Some h
                else map_option snd
                       (iter_loop (length fs) (\<lambda>it h. map_option (\<lambda>h'. (True, h')) (rel it h)) it h)))"

definition load_count :: "heap \<Rightarrow> pb_field_iter \<Rightarrow> nat option" where
  "load_count h it =
     (case pSize it of AtAddr a \<Rightarrow> load_size (bytes h) a | AtLocal \<Rightarrow> Some (local_size it))"

definition store_count :: "heap \<Rightarrow> pb_field_iter \<Rightarrow> nat \<Rightarrow> (heap \<times> pb_field_iter) option" where
  "store_count h it v =
     (case pSize it of
        AtAddr a \<Rightarrow> map_option (\<lambda>h'. (h', it)) (hstore h a (nat_le 4 v))
      | AtLocal \<Rightarrow> Some (h, it\<lparr>local_size := u32 v\<rparr>))"

text \<open>Submessages of a field are released first, then what the field itself allocated.\<close>

definition release_submessages ::
  "(pb_field list \<Rightarrow> addr \<Rightarrow> heap \<Rightarrow> heap option) \<Rightarrow> pb_field_iter \<Rightarrow> pb_field \<Rightarrow> heap \<Rightarrow> heap option" where
  "release_submessages rel it f h =
     (case (if atype f = PB_ATYPE_POINTER then load_ptr (bytes h) (pData it) else Some (pData it)) of
        None \<Rightarrow> None
      | Some item \<Rightarrow>
      (case (if htype f \<noteq> PB_HTYPE_REPEATED then Some 1
             else if atype f = PB_ATYPE_STATIC \<and> pSize it = AtAddr (pData it) then Some (array_size f)
             else load_count h it) of None \<Rightarrow> None
       | Some count \<Rightarrow>
           let count = (if htype f = PB_HTYPE_REPEATED \<and> atype f = PB_ATYPE_STATIC \<and>
                           count > array_size f
                        then array_size f else count)
           in if item = 0 then Some h
              else (case ptr f of FieldsPtr fs \<Rightarrow> release_items count rel fs (data_size f) item h
                    | _ \<Rightarrow> None)))"

definition release_pointer :: "pb_field_iter \<Rightarrow> pb_field \<Rightarrow> heap \<Rightarrow> heap option" where
  "release_pointer it f h =
     (case (if htype f = PB_HTYPE_REPEATED \<and> (ltype f = PB_LTYPE_STRING \<or> ltype f = PB_LTYPE_BYTES)
            then (case load_ptr (bytes h) (pData it) of None \<Rightarrow> None
                  | Some p \<Rightarrow>
                      (case load_count h it of None \<Rightarrow> None
                       | Some count \<Rightarrow> release_pointers count p h))
            else Some h) of None \<Rightarrow> None
      | Some h \<Rightarrow>
      (case (if htype f = PB_HTYPE_REPEATED then map_option fst (store_count h it 0) else Some h) of
         None \<Rightarrow> None
       | Some h \<Rightarrow>
       (case load_ptr (bytes h) (pData it) of None \<Rightarrow> None
        | Some p \<Rightarrow>
        (case free h p of None \<Rightarrow> None
         | Some h \<Rightarrow> hstore h (pData it) (nat_le 8 0)))))"

fun pb_release_single_field :: "nat \<Rightarrow> 'u dec_env \<Rightarrow> pb_field_iter \<Rightarrow> heap \<Rightarrow> heap option" where
  "pb_release_single_field 0 e it h = None"
| "pb_release_single_field (Suc n) e it h =
     (case cur it of None \<Rightarrow> None
      | Some f \<Rightarrow>
      (case (if htype f = PB_HTYPE_ONEOF then map_option (\<lambda>w. w \<noteq> tag f) (load_count h it)
             else Some False) of None \<Rightarrow> None
       | Some other \<Rightarrow>
           if other then Some h
           else
           (case (if ltype f = PB_LTYPE_EXTENSION then
                    (case load_ptr (bytes h) (pData it) of None \<Rightarrow> None
                     | Some ext \<Rightarrow> release_extensions n (pb_release_single_field n e) e ext h)
                  else if ltype f = PB_LTYPE_SUBMESSAGE then
                    release_submessages (message_release (pb_release_single_field n e)) it f h
                  else Some h) of None \<Rightarrow> None
            | Some h \<Rightarrow> if atype f = PB_ATYPE_POINTER then release_pointer it f h else Some h)))"

definition pb_release :: "nat \<Rightarrow> 'u dec_env \<Rightarrow> pb_field list \<Rightarrow> addr \<Rightarrow> heap \<Rightarrow> heap option" where
  "pb_release n e fs dest h = message_release (pb_release_single_field n e) fs dest h"

definition pb_release_union_field ::
  "nat \<Rightarrow> 'u dec_env \<Rightarrow> 'u istream \<Rightarrow> heap \<Rightarrow> pb_field_iter \<Rightarrow>
   (bool \<times> 'u istream \<times> heap \<times> pb_field_iter) option" where
  "pb_release_union_field n e s h it =
     (case cur it of None \<Rightarrow> None
      | Some f \<Rightarrow>
      (case load_count h it of None \<Rightarrow> None
       | Some old_tag \<Rightarrow>
           let new_tag = tag f in
           if old_tag = 0 \<or> old_tag = new_tag then Some (True, s, h, it)
           else (case pb_field_iter_find it old_tag of None \<Rightarrow> None
                 | Some (found, it) \<Rightarrow>
                     if \<not> found then Some (False, set_ierror s ''invalid union tag'', h, it)
                     else (case pb_release_single_field n e it h of None \<Rightarrow> None
                           | Some h \<Rightarrow>
                           (case pb_field_iter_find it new_tag of None \<Rightarrow> None
                            | Some (found, it) \<Rightarrow>
                                if \<not> found then Some (False, set_ierror s ''iterator error'', h, it)
                                else Some (True, s, h, it))))))"

subsection \<open>Submessages\<close>

text \<open>\<^verbatim>\<open>pb_decode\<close>: defaults, then the fields, and a release when that fails.\<close>

definition decode_init ::
  "nat \<Rightarrow> 'u dec_env \<Rightarrow> 'u decode_rec \<Rightarrow> 'u istream \<Rightarrow> heap \<Rightarrow> pb_field list \<Rightarrow> addr \<Rightarrow> 'u dec_result" where
  "decode_init n e rec s h fs dest =
     (case pb_message_set_to_defaults n e fs dest h of None \<Rightarrow> None
      | Some h \<Rightarrow>
      (case rec s h fs dest of None \<Rightarrow> None
       | Some (status, s, h) \<Rightarrow>
           if status then Some (True, s, h)
           else map_option (\<lambda>h'. (False, s, h')) (pb_release n e fs dest h)))"

definition pb_dec_submessage ::
  "nat \<Rightarrow> 'u dec_env \<Rightarrow> 'u decode_rec \<Rightarrow> 'u istream \<Rightarrow> heap \<Rightarrow> pb_field \<Rightarrow> addr \<Rightarrow> 'u dec_result" where
  "pb_dec_submessage n e rec s h f dest =
     (case pb_make_string_substream s of None \<Rightarrow> None
      | Some (ok, s, sub) \<Rightarrow>
          if \<not> ok then Some (False, s, h)
          else (case ptr f of
                  NullPtr \<Rightarrow> ierror s h ''invalid field descriptor''
                | DefaultPtr bs \<Rightarrow> None
                | FieldsPtr fs \<Rightarrow>
                    (case (if htype f = PB_HTYPE_REPEATED then decode_init n e rec sub h fs dest
                           else rec sub h fs dest) of None \<Rightarrow> None
                     | Some (status, sub, h) \<Rightarrow>
                         (case pb_close_string_substream s sub of None \<Rightarrow> None
                          | Some (ok, s) \<Rightarrow>
                              if \<not> ok then Some (False, s, h) else Some (status, s, h)))))"

text \<open>The table of decoders; the entry for extensions is null, and there are ten entries.\<close>

definition PB_DECODERS ::
  "nat \<Rightarrow> 'u dec_env \<Rightarrow> 'u decode_rec \<Rightarrow> pb_type \<Rightarrow> 'u istream \<Rightarrow> heap \<Rightarrow> pb_field \<Rightarrow> addr \<Rightarrow> 'u dec_result" where
  "PB_DECODERS n e rec lt =
     (if lt = PB_LTYPE_VARINT then pb_dec_varint
      else if lt = PB_LTYPE_UVARINT then pb_dec_uvarint
      else if lt = PB_LTYPE_SVARINT then pb_dec_svarint
      else if lt = PB_LTYPE_FIXED32 then pb_dec_fixed32
      else if lt = PB_LTYPE_FIXED64 then pb_dec_fixed64
      else if lt = PB_LTYPE_BYTES then pb_dec_bytes
      else if lt = PB_LTYPE_STRING then pb_dec_string
      else if lt = PB_LTYPE_SUBMESSAGE then pb_dec_submessage n e rec
      else if lt = PB_LTYPE_FIXED_LENGTH_BYTES then pb_dec_fixed_length_bytes
      else (\<lambda>s h f dest. None))"

type_synonym 'u decoder = "'u istream \<Rightarrow> heap \<Rightarrow> pb_field \<Rightarrow> addr \<Rightarrow> 'u dec_result"

type_synonym 'u field_result = "(bool \<times> 'u istream \<times> heap \<times> pb_field_iter) option"

definition with_iter :: "pb_field_iter \<Rightarrow> 'u dec_result \<Rightarrow> 'u field_result" where
  "with_iter it r = map_option (\<lambda>(ok, s, h). (ok, s, h, it)) r"

definition item_addr :: "addr \<Rightarrow> pb_field \<Rightarrow> nat \<Rightarrow> addr" where
  "item_addr base f k = base + u32 (data_size f * k)"

subsection \<open>Static fields\<close>

text \<open>
  The loop over a packed array. Every item that is decoded takes at least one byte of the
  substream, which bounds the rounds.
\<close>

fun packed_static ::
  "nat \<Rightarrow> 'u decoder \<Rightarrow> 'u istream \<Rightarrow> heap \<Rightarrow> pb_field \<Rightarrow> pb_field_iter \<Rightarrow> 'u field_result" where
  "packed_static 0 func sub h f it = None"
| "packed_static (Suc n) func sub h f it =
     (case load_count h it of None \<Rightarrow> None
      | Some cnt \<Rightarrow>
          if bytes_left sub > 0 \<and> cnt < array_size f then
            (case func sub h f (item_addr (pData it) f cnt) of None \<Rightarrow> None
             | Some (ok, sub, h) \<Rightarrow>
                 if \<not> ok then Some (False, sub, h, it)
                 else (case load_count h it of None \<Rightarrow> None
                       | Some cnt \<Rightarrow>
                       (case store_count h it (u32 (cnt + 1)) of None \<Rightarrow> None
                        | Some (h, it) \<Rightarrow> packed_static n func sub h f it)))
          else Some (True, sub, h, it))"

definition decode_static_field ::
  "nat \<Rightarrow> 'u dec_env \<Rightarrow> 'u decode_rec \<Rightarrow> 'u istream \<Rightarrow> heap \<Rightarrow> nat \<Rightarrow> pb_field_iter \<Rightarrow> 'u field_result" where
  "decode_static_field n e rec s h wt it =
     (case cur it of None \<Rightarrow> None
      | Some f \<Rightarrow>
          let func = PB_DECODERS n e rec (ltype f) in
          if htype f = PB_HTYPE_REQUIRED then with_iter it (func s h f (pData it))
          else if htype f = PB_HTYPE_OPTIONAL then
            (case (case pSize it of
                     AtAddr a \<Rightarrow> if a \<noteq> pData it then hstore h a [1] else Some h
                   | AtLocal \<Rightarrow> None) of None \<Rightarrow> None
             | Some h \<Rightarrow> with_iter it (func s h f (pData it)))
          else if htype f = PB_HTYPE_REPEATED then
            (if wt = PB_WT_STRING \<and> ltype f \<le> PB_LTYPE_LAST_PACKABLE then
               (case pb_make_string_substream s of None \<Rightarrow> None
                | Some (ok, s, sub) \<Rightarrow>
                    if \<not> ok then Some (False, s, h, it)
                    else (case packed_static (Suc (bytes_left sub)) func sub h f it of None \<Rightarrow> None
                          | Some (status, sub, h, it) \<Rightarrow>
                              if bytes_left sub \<noteq> 0
                              then Some (False, set_ierror s ''array overflow'', h, it)
                              else (case pb_close_string_substream s sub of None \<Rightarrow> None
                                    | Some (ok, s) \<Rightarrow>
                                        if \<not> ok then Some (False, s, h, it)
                                        else Some (status, s, h, it))))
             else (case load_count h it of None \<Rightarrow> None
                   | Some cnt \<Rightarrow>
                   (case store_count h it (u32 (cnt + 1)) of None \<Rightarrow> None
                    | Some (h, it) \<Rightarrow>
                        if cnt \<ge> array_size f
                        then Some (False, set_ierror s ''array overflow'', h, it)
                        else with_iter it (func s h f (item_addr (pData it) f cnt)))))
          else if htype f = PB_HTYPE_ONEOF then
            (case store_count h it (tag f) of None \<Rightarrow> None
             | Some (h, it) \<Rightarrow>
                 (case (if ltype f = PB_LTYPE_SUBMESSAGE then clear_submessage n e f (pData it) h
                        else Some h) of None \<Rightarrow> None
                  | Some h \<Rightarrow> with_iter it (func s h f (pData it))))
          else Some (False, set_ierror s ''invalid field type'', h, it))"

subsection \<open>Pointer fields\<close>

definition initialize_pointer_field ::
  "nat \<Rightarrow> 'u dec_env \<Rightarrow> pb_field \<Rightarrow> addr \<Rightarrow> heap \<Rightarrow> heap option" where
  "initialize_pointer_field n e f item h =
     (if ltype f = PB_LTYPE_STRING \<or> ltype f = PB_LTYPE_BYTES then hstore h item (nat_le 8 0)
      else if ltype f = PB_LTYPE_SUBMESSAGE then clear_submessage n e f item h
      else Some h)"

text \<open>Decode one entry of an allocated array at index \<open>cnt\<close>.\<close>

definition decode_entry ::
  "nat \<Rightarrow> 'u dec_env \<Rightarrow> 'u decoder \<Rightarrow> 'u istream \<Rightarrow> heap \<Rightarrow> pb_field \<Rightarrow> pb_field_iter \<Rightarrow> nat \<Rightarrow> 'u dec_result" where
  "decode_entry n e func s h f it cnt =
     (case load_ptr (bytes h) (pData it) of None \<Rightarrow> None
      | Some base \<Rightarrow>
      (case initialize_pointer_field n e f (item_addr base f cnt) h of None \<Rightarrow> None
       | Some h \<Rightarrow> func s h f (item_addr base f cnt)))"

fun packed_pointer ::
  "nat \<Rightarrow> nat \<Rightarrow> 'u dec_env \<Rightarrow> 'u decoder \<Rightarrow> 'u istream \<Rightarrow> 'u istream \<Rightarrow> heap \<Rightarrow> pb_field \<Rightarrow> pb_field_iter \<Rightarrow>
   nat \<Rightarrow> (bool \<times> 'u istream \<times> 'u istream \<times> heap \<times> pb_field_iter) option" where
  "packed_pointer 0 n e func s sub h f it allocated =
     (if bytes_left sub = 0 then Some (True, s, sub, h, it) else None)"
| "packed_pointer (Suc k) n e func s sub h f it allocated =
     (if bytes_left sub = 0 then Some (True, s, sub, h, it)
      else
      (case load_count h it of None \<Rightarrow> None
       | Some cnt \<Rightarrow>
       let more = cnt + 1 > allocated;
           allocated' = (if more then size_t (allocated + (bytes_left sub - 1) div data_size f + 1)
                         else allocated)
       in if more \<and> data_size f = 0 then None
       else
       (case (if more then allocate_field sub h (pData it) (data_size f) allocated'
              else Some (True, sub, h)) of None \<Rightarrow> None
        | Some (ok, sub, h) \<Rightarrow>
            if \<not> ok then Some (False, s, sub, h, it)
            else
            (case decode_entry n e func sub h f it cnt of None \<Rightarrow> None
             | Some (ok, sub, h) \<Rightarrow>
                 if \<not> ok then Some (False, s, sub, h, it)
                 else
                 (case load_count h it of None \<Rightarrow> None
                  | Some cnt \<Rightarrow>
                      if cnt = PB_SIZE_MAX
                      then Some (False, s\<lparr>ierrmsg := Some ''too many array entries''\<rparr>, sub, h, it)
                      else (case store_count h it (u32 (cnt + 1)) of None \<Rightarrow> None
                            | Some (h, it) \<Rightarrow>
                                packed_pointer k n e func s sub h f it allocated'))))))"

definition decode_pointer_field ::
  "nat \<Rightarrow> 'u dec_env \<Rightarrow> 'u decode_rec \<Rightarrow> 'u istream \<Rightarrow> heap \<Rightarrow> nat \<Rightarrow> pb_field_iter \<Rightarrow> 'u field_result" where
  "decode_pointer_field n e rec s h wt it =
     (case cur it of None \<Rightarrow> None
      | Some f \<Rightarrow>
          let func = PB_DECODERS n e rec (ltype f) in
          if htype f = PB_HTYPE_REQUIRED \<or> htype f = PB_HTYPE_OPTIONAL \<or> htype f = PB_HTYPE_ONEOF then
            (case (if ltype f = PB_LTYPE_SUBMESSAGE then
                     (case load_ptr (bytes h) (pData it) of None \<Rightarrow> None
                      | Some p \<Rightarrow> if p \<noteq> 0 then pb_release_single_field n e it h else Some h)
                   else Some h) of None \<Rightarrow> None
             | Some h \<Rightarrow>
             (case (if htype f = PB_HTYPE_ONEOF then store_count h it (tag f) else Some (h, it)) of
                None \<Rightarrow> None
              | Some (h, it) \<Rightarrow>
                  if ltype f = PB_LTYPE_STRING \<or> ltype f = PB_LTYPE_BYTES
                  then with_iter it (func s h f (pData it))
                  else (case allocate_field s h (pData it) (data_size f) 1 of None \<Rightarrow> None
                        | Some (ok, s, h) \<Rightarrow>
                            if \<not> ok then Some (False, s, h, it)
                            else with_iter it (decode_entry n e func s h f it 0))))
          else if htype f = PB_HTYPE_REPEATED then
            (if wt = PB_WT_STRING \<and> ltype f \<le> PB_LTYPE_LAST_PACKABLE then
               (case load_count h it of None \<Rightarrow> None
                | Some cnt \<Rightarrow>
                (case pb_make_string_substream s of None \<Rightarrow> None
                 | Some (ok, s, sub) \<Rightarrow>
                     if \<not> ok then Some (False, s, h, it)
                     else (case packed_pointer (bytes_left sub) n e func s sub h f it cnt of None \<Rightarrow> None
                           | Some (status, s, sub, h, it) \<Rightarrow>
                               (case pb_close_string_substream s sub of None \<Rightarrow> None
                                | Some (ok, s) \<Rightarrow>
                                    if \<not> ok then Some (False, s, h, it)
                                    else Some (status, s, h, it)))))
             else (case load_count h it of None \<Rightarrow> None
                   | Some cnt \<Rightarrow>
                       if cnt = PB_SIZE_MAX
                       then Some (False, set_ierror s ''too many array entries'', h, it)
                       else (case store_count h it (u32 (cnt + 1)) of None \<Rightarrow> None
                             | Some (h, it) \<Rightarrow>
                             (case allocate_field s h (pData it) (data_size f) (u32 (cnt + 1)) of
                                None \<Rightarrow> None
                              | Some (ok, s, h) \<Rightarrow>
                                  if \<not> ok then Some (False, s, h, it)
                                  else with_iter it (decode_entry n e func s h f it cnt)))))
          else Some (False, set_ierror s ''invalid field type'', h, it))"

subsection \<open>Callback fields\<close>

text \<open>\<^verbatim>\<open>do { if (!decode(&substream, ...)) error } while (substream.bytes_left)\<close>\<close>

fun callback_loop ::
  "nat \<Rightarrow> 'u decode_callback \<Rightarrow> 'u istream \<Rightarrow> heap \<Rightarrow> pb_field \<Rightarrow> addr \<Rightarrow> 'u dec_result" where
  "callback_loop 0 g sub h f arg = None"
| "callback_loop (Suc n) g sub h f arg =
     (case g sub h f arg of None \<Rightarrow> None
      | Some (ok, sub, h) \<Rightarrow>
          if \<not> ok then Some (False, sub, h)
          else if bytes_left sub \<noteq> 0 then callback_loop n g sub h f arg
          else Some (True, sub, h))"

definition decode_callback_field ::
  "nat \<Rightarrow> 'u dec_env \<Rightarrow> 'u istream \<Rightarrow> heap \<Rightarrow> nat \<Rightarrow> pb_field_iter \<Rightarrow> 'u field_result" where
  "decode_callback_field n e s h wt it =
     (case cur it of None \<Rightarrow> None
      | Some f \<Rightarrow>
      (case (if pData it = 0 then Some 0 else load_ptr (bytes h) (pData it)) of None \<Rightarrow> None
       | Some fn \<Rightarrow>
           if fn = 0 then map_option (\<lambda>(ok, s). (ok, s, h, it)) (pb_skip_field s wt)
           else
           (case dec_callbacks e fn of None \<Rightarrow> None
            | Some g \<Rightarrow>
                if wt = PB_WT_STRING then
                  (case pb_make_string_substream s of None \<Rightarrow> None
                   | Some (ok, s, sub) \<Rightarrow>
                       if \<not> ok then Some (False, s, h, it)
                       else (case callback_loop (n + Suc (bytes_left sub)) g sub h f
                                    (callback_arg (pData it)) of None \<Rightarrow> None
                             | Some (ok, sub, h) \<Rightarrow>
                                 if \<not> ok then Some (False, set_ierror s ''callback failed'', h, it)
                                 else (case pb_close_string_substream s sub of None \<Rightarrow> None
                                       | Some (ok, s) \<Rightarrow> Some (ok, s, h, it))))
                else
                  (case read_raw_value s wt 10 of None \<Rightarrow> None
                   | Some (ok, buffer, s) \<Rightarrow>
                       if \<not> ok then Some (False, s, h, it)
                       else (case g (pb_istream_from_buffer buffer (length buffer)) h f
                                    (callback_arg (pData it)) of None \<Rightarrow> None
                             | Some (ok, sub, h) \<Rightarrow> Some (ok, s, h, it))))))"

definition decode_field ::
  "nat \<Rightarrow> 'u dec_env \<Rightarrow> 'u decode_rec \<Rightarrow> 'u istream \<Rightarrow> heap \<Rightarrow> nat \<Rightarrow> pb_field_iter \<Rightarrow> 'u field_result" where
  "decode_field n e rec s h wt it =
     (case cur it of None \<Rightarrow> None
      | Some f \<Rightarrow>
      (case (if htype f = PB_HTYPE_ONEOF then pb_release_union_field n e s h it
             else Some (True, s, h, it)) of None \<Rightarrow> None
       | Some (ok, s, h, it) \<Rightarrow>
           if \<not> ok then Some (False, s, h, it)
           else
           (case cur it of None \<Rightarrow> None
            | Some f \<Rightarrow>
                if atype f = PB_ATYPE_STATIC then decode_static_field n e rec s h wt it
                else if atype f = PB_ATYPE_POINTER then decode_pointer_field n e rec s h wt it
                else if atype f = PB_ATYPE_CALLBACK then decode_callback_field n e s h wt it
                else Some (False, set_ierror s ''invalid field type'', h, it))))"

subsection \<open>Extensions\<close>

definition default_extension_decoder ::
  "nat \<Rightarrow> 'u dec_env \<Rightarrow> 'u decode_rec \<Rightarrow> 'u istream \<Rightarrow> heap \<Rightarrow> 'u ext_decoder \<Rightarrow> addr \<Rightarrow> nat \<Rightarrow> nat \<Rightarrow> 'u dec_result" where
  "default_extension_decoder n e rec s h ty extension t wt =
     (if tag (ext_field ty) \<noteq> t then Some (True, s, h)
      else (case iter_from_extension e h extension of None \<Rightarrow> None
            | Some it \<Rightarrow>
            (case hstore h (extension_found extension) [1] of None \<Rightarrow> None
             | Some h \<Rightarrow> map_option (\<lambda>(ok, s, h, it). (ok, s, h)) (decode_field n e rec s h wt it))))"

fun decode_extensions ::
  "nat \<Rightarrow> nat \<Rightarrow> 'u dec_env \<Rightarrow> 'u decode_rec \<Rightarrow> nat \<Rightarrow> 'u istream \<Rightarrow> heap \<Rightarrow> addr \<Rightarrow> nat \<Rightarrow> nat \<Rightarrow> 'u dec_result" where
  "decode_extensions 0 n e rec pos0 s h extension t wt =
     (if extension = 0 \<or> pos0 \<noteq> bytes_left s then Some (True, s, h) else None)"
| "decode_extensions (Suc k) n e rec pos0 s h extension t wt =
     (if extension = 0 \<or> pos0 \<noteq> bytes_left s then Some (True, s, h)
      else
      (case load_ptr (bytes h) extension of None \<Rightarrow> None
       | Some typ \<Rightarrow>
       (case dec_ext_types e typ of None \<Rightarrow> None
        | Some ty \<Rightarrow>
        (case (case ext_decode ty of
                 Some g \<Rightarrow> g s h extension t wt
               | None \<Rightarrow> default_extension_decoder n e rec s h ty extension t wt) of None \<Rightarrow> None
         | Some (status, s, h) \<Rightarrow>
             if \<not> status then Some (False, s, h)
             else (case load_ptr (bytes h) (extension_next extension) of None \<Rightarrow> None
                   | Some next_ext \<Rightarrow> decode_extensions k n e rec pos0 s h next_ext t wt)))))"

definition decode_extension ::
  "nat \<Rightarrow> 'u dec_env \<Rightarrow> 'u decode_rec \<Rightarrow> 'u istream \<Rightarrow> heap \<Rightarrow> nat \<Rightarrow> nat \<Rightarrow> pb_field_iter \<Rightarrow> 'u dec_result" where
  "decode_extension n e rec s h t wt it =
     (case load_ptr (bytes h) (pData it) of None \<Rightarrow> None
      | Some extension \<Rightarrow> decode_extensions n n e rec (bytes_left s) s h extension t wt)"

fun find_extension_loop :: "nat \<Rightarrow> nat \<Rightarrow> pb_field_iter \<Rightarrow> (bool \<times> pb_field_iter) option" where
  "find_extension_loop 0 first it = None"
| "find_extension_loop (Suc fuel) first it =
     (case cur it of None \<Rightarrow> None
      | Some f \<Rightarrow>
          if ltype f = PB_LTYPE_EXTENSION then Some (True, it)
          else (case pb_field_iter_next it of None \<Rightarrow> None
                | Some (_, it') \<Rightarrow>
                    if pos it' \<noteq> first then find_extension_loop fuel first it'
                    else Some (False, it')))"

definition find_extension_field :: "pb_field_iter \<Rightarrow> (bool \<times> pb_field_iter) option" where
  "find_extension_field it = find_extension_loop (length (start it)) (pos it) it"

subsection \<open>Messages\<close>

text \<open>The locals of \<^verbatim>\<open>pb_decode_noinit\<close> that live across rounds of its loop.\<close>

record 'u dec_loop =
  lstream :: "'u istream"
  lheap :: heap
  liter :: pb_field_iter
  fields_seen :: "32 word list"
  extension_range_start :: nat
  fixed_count_field :: "nat option"

datatype 'u loop_step = Continue "'u dec_loop" | Break "'u dec_loop" | Return "'u dec_loop"

text \<open>The unknown-field branch: an extension handles the field or its data is skipped.\<close>

definition unknown_field ::
  "nat \<Rightarrow> 'u dec_env \<Rightarrow> 'u decode_rec \<Rightarrow> 'u dec_loop \<Rightarrow> nat \<Rightarrow> nat \<Rightarrow> 'u loop_step option" where
  "unknown_field n e rec l t wt =
     (let skip = (\<lambda>l. case pb_skip_field (lstream l) wt of None \<Rightarrow> None
                       | Some (ok, s) \<Rightarrow>
                           if ok then Some (Continue (l\<lparr>lstream := s\<rparr>))
                           else Some (Return (l\<lparr>lstream := s\<rparr>)))
      in if t \<ge> extension_range_start l then
           (case find_extension_field (liter l) of None \<Rightarrow> None
            | Some (found, it) \<Rightarrow>
                (case (if found then map_option tag (cur it) else Some (2 ^ 32 - 1)) of None \<Rightarrow> None
                 | Some first_ext \<Rightarrow>
                     let l = l\<lparr>liter := it, extension_range_start := first_ext\<rparr> in
                     if t \<ge> first_ext then
                       (case decode_extension n e rec (lstream l) (lheap l) t wt it of None \<Rightarrow> None
                        | Some (ok, s, h) \<Rightarrow>
                            let l' = l\<lparr>lstream := s, lheap := h\<rparr> in
                            if \<not> ok then Some (Return l')
                            else if bytes_left (lstream l) \<noteq> bytes_left s then Some (Continue l')
                            else skip l')
                     else skip l))
         else skip l)"

text \<open>
  The known-field branch: a fixed-count array gets its counter from the local variable, a
  required field is marked as seen, and the field is decoded.
\<close>

definition mark_seen :: "32 word list \<Rightarrow> nat \<Rightarrow> 32 word list" where
  "mark_seen seen i = seen[drop_bit 5 i := seen ! drop_bit 5 i OR push_bit (i AND 31) 1]"

definition mark_required :: "'u dec_loop \<Rightarrow> pb_field \<Rightarrow> 'u dec_loop" where
  "mark_required l f =
     (if htype f = PB_HTYPE_REQUIRED \<and> required_field_index (liter l) < PB_MAX_REQUIRED_FIELDS
      then l\<lparr>fields_seen := mark_seen (fields_seen l) (required_field_index (liter l))\<rparr> else l)"

definition fixed_count :: "pb_field_iter \<Rightarrow> pb_field \<Rightarrow> bool" where
  "fixed_count it f \<longleftrightarrow> htype f = PB_HTYPE_REPEATED \<and> pSize it = AtAddr (pData it)"

definition count_unfinished :: "'u dec_loop \<Rightarrow> bool" where
  "count_unfinished l =
     (case fixed_count_field l of None \<Rightarrow> False
      | Some p \<Rightarrow> local_size (liter l) \<noteq> array_size (start (liter l) ! p))"

definition use_local_count :: "'u dec_loop \<Rightarrow> pb_field \<Rightarrow> 'u dec_loop" where
  "use_local_count l f =
     (if fixed_count (liter l) f
      then let it = liter l;
               it = (if fixed_count_field l \<noteq> Some (pos it) then it\<lparr>local_size := 0\<rparr> else it)
           in l\<lparr>fixed_count_field := Some (pos it), liter := it\<lparr>pSize := AtLocal\<rparr>\<rparr>
      else l)"

definition known_field ::
  "nat \<Rightarrow> 'u dec_env \<Rightarrow> 'u decode_rec \<Rightarrow> 'u dec_loop \<Rightarrow> nat \<Rightarrow> 'u loop_step option" where
  "known_field n e rec l wt =
     (case cur (liter l) of None \<Rightarrow> None
      | Some f \<Rightarrow>
          if fixed_count (liter l) f \<and> fixed_count_field l \<noteq> Some (pos (liter l)) \<and> count_unfinished l
          then Some (Return (l\<lparr>lstream := set_ierror (lstream l) ''wrong size for fixed count field''\<rparr>))
          else
          let l = mark_required (use_local_count l f) f in
          (case decode_field n e rec (lstream l) (lheap l) wt (liter l) of None \<Rightarrow> None
           | Some (ok, s, h, it) \<Rightarrow>
               let l' = l\<lparr>lstream := s, lheap := h, liter := it\<rparr> in
               if ok then Some (Continue l') else Some (Return l')))"

definition decode_step ::
  "nat \<Rightarrow> 'u dec_env \<Rightarrow> 'u decode_rec \<Rightarrow> 'u dec_loop \<Rightarrow> 'u loop_step option" where
  "decode_step n e rec l =
     (case pb_decode_tag (lstream l) of None \<Rightarrow> None
      | Some (tr, s) \<Rightarrow>
          let l = l\<lparr>lstream := s\<rparr> in
          if \<not> tr_ok tr then (if tr_eof tr then Some (Break l) else Some (Return l))
          else (case pb_field_iter_find (liter l) (tr_tag tr) of None \<Rightarrow> None
                | Some (found, it) \<Rightarrow>
                    let l = l\<lparr>liter := it\<rparr> in
                    if \<not> found then unknown_field n e rec l (tr_tag tr) (tr_wire_type tr)
                    else known_field n e rec l (tr_wire_type tr)))"

text \<open>\<^verbatim>\<open>while (stream->bytes_left)\<close>: every round takes the tag off the stream.\<close>

fun decode_loop ::
  "nat \<Rightarrow> nat \<Rightarrow> 'u dec_env \<Rightarrow> 'u decode_rec \<Rightarrow> 'u dec_loop \<Rightarrow> (bool \<times> 'u dec_loop) option" where
  "decode_loop 0 n e rec l = (if bytes_left (lstream l) = 0 then Some (True, l) else None)"
| "decode_loop (Suc k) n e rec l =
     (if bytes_left (lstream l) = 0 then Some (True, l)
      else (case decode_step n e rec l of None \<Rightarrow> None
            | Some (Continue l') \<Rightarrow> decode_loop k n e rec l'
            | Some (Break l') \<Rightarrow> Some (True, l')
            | Some (Return l') \<Rightarrow> Some (False, l')))"

text \<open>Seek to the end of the field array: the number of required fields.\<close>

fun count_required :: "nat \<Rightarrow> pb_field_iter \<Rightarrow> (nat \<times> pb_field_iter) option" where
  "count_required 0 it = None"
| "count_required (Suc k) it =
     (case cur it of None \<Rightarrow> None
      | Some f \<Rightarrow>
      (case pb_field_iter_next it of None \<Rightarrow> None
       | Some (again, it') \<Rightarrow>
           if again then count_required k it'
           else (case cur it' of None \<Rightarrow> None
                 | Some g \<Rightarrow>
                     let n = required_field_index it in
                     Some (if htype f = PB_HTYPE_REQUIRED \<and> tag g \<noteq> 0 then Suc n else n, it'))))"

definition allbits :: "32 word" where
  "allbits = NOT 0"

definition all_required_seen :: "32 word list \<Rightarrow> nat \<Rightarrow> bool" where
  "all_required_seen seen req =
     (let n = min req PB_MAX_REQUIRED_FIELDS in
      (\<forall>i < drop_bit 5 n. seen ! i = allbits) \<and>
      (n AND 31 \<noteq> 0 \<longrightarrow> seen ! drop_bit 5 n = drop_bit (32 - (n AND 31)) allbits))"

definition finish_message :: "'u dec_loop \<Rightarrow> 'u dec_result" where
  "finish_message l =
     (let s = lstream l; h = lheap l; it = liter l in
      if count_unfinished l
      then ierror s h ''wrong size for fixed count field''
      else (case count_required (length (start it)) it of None \<Rightarrow> None
            | Some (req, it') \<Rightarrow>
                if all_required_seen (fields_seen l) req then Some (True, s, h)
                else ierror s h ''missing required field''))"

definition decode_message ::
  "nat \<Rightarrow> 'u dec_env \<Rightarrow> 'u decode_rec \<Rightarrow> 'u istream \<Rightarrow> heap \<Rightarrow> pb_field list \<Rightarrow> addr \<Rightarrow> 'u dec_result" where
  "decode_message n e rec s h fs dest =
     (case pb_field_iter_begin init_iter fs dest of None \<Rightarrow> None
      | Some (_, it) \<Rightarrow>
      (case decode_loop (bytes_left s) n e rec
              \<lparr>lstream = s, lheap = h, liter = it, fields_seen = [0, 0],
               extension_range_start = 0, fixed_count_field = None\<rparr> of None \<Rightarrow> None
       | Some (ok, l) \<Rightarrow>
           if ok then finish_message l else Some (False, lstream l, lheap l)))"

fun pb_decode_noinit :: "nat \<Rightarrow> 'u dec_env \<Rightarrow> 'u decode_rec" where
  "pb_decode_noinit 0 e s h fs dest = None"
| "pb_decode_noinit (Suc n) e s h fs dest =
     decode_message n e (pb_decode_noinit n e) s h fs dest"

definition pb_decode :: "nat \<Rightarrow> 'u dec_env \<Rightarrow> 'u decode_rec" where
  "pb_decode n e s h fs dest = decode_init n e (pb_decode_noinit n e) s h fs dest"

definition decode_substream :: "'u decode_rec \<Rightarrow> 'u decode_rec" where
  "decode_substream dec s h fs dest =
     (case pb_make_string_substream s of None \<Rightarrow> None
      | Some (ok, s, sub) \<Rightarrow>
          if \<not> ok then Some (False, s, h)
          else (case dec sub h fs dest of None \<Rightarrow> None
                | Some (status, sub, h) \<Rightarrow>
                    (case pb_close_string_substream s sub of None \<Rightarrow> None
                     | Some (ok, s) \<Rightarrow> if \<not> ok then Some (False, s, h) else Some (status, s, h))))"

definition pb_decode_delimited_noinit :: "nat \<Rightarrow> 'u dec_env \<Rightarrow> 'u decode_rec" where
  "pb_decode_delimited_noinit n e = decode_substream (pb_decode_noinit n e)"

definition pb_decode_delimited :: "nat \<Rightarrow> 'u dec_env \<Rightarrow> 'u decode_rec" where
  "pb_decode_delimited n e = decode_substream (pb_decode n e)"

definition pb_decode_nullterminated :: "nat \<Rightarrow> 'u dec_env \<Rightarrow> 'u decode_rec" where
  "pb_decode_nullterminated n e s h fs dest = pb_decode n e s h fs dest"

end
