(* ===== verification/Pb_Istream_Spec.thy ===== *)
theory Pb_Istream_Spec
  imports Pb_Istream Pb_Wire
begin

text \<open>
  What the reading functions of \<^verbatim>\<open>pb_decode.c\<close> do on a stream over a buffer. \<open>input s\<close> is what
  is left to read and \<open>advance s k\<close> the stream after \<open>k\<close> more bytes; \<open>reads s s'\<close> says that a
  call consumed some of what was left and changed nothing else but the error message. The
  readers are total on such streams, never go past the end of the input, and return the number
  the wire format defines.
\<close>

subsection \<open>Buffer streams\<close>

definition good_in :: "'u istream \<Rightarrow> bool" where
  "good_in s \<longleftrightarrow> icallback s = IBufRead \<and>
     (case istate s of IBuf src \<Rightarrow> bytes_left s \<le> length src | IUser _ \<Rightarrow> False)"

definition input :: "'u istream \<Rightarrow> byte list" where
  "input s = (case istate s of IBuf src \<Rightarrow> take (bytes_left s) src | IUser _ \<Rightarrow> [])"

definition advance :: "'u istream \<Rightarrow> nat \<Rightarrow> 'u istream" where
  "advance s k = s\<lparr>istate := (case istate s of IBuf src \<Rightarrow> IBuf (drop k src) | st \<Rightarrow> st),
                   bytes_left := bytes_left s - k\<rparr>"

definition reads :: "'u istream \<Rightarrow> 'u istream \<Rightarrow> bool" where
  "reads s s' \<longleftrightarrow> (\<exists>k msg. k \<le> bytes_left s \<and> s' = (advance s k)\<lparr>ierrmsg := msg\<rparr>)"

named_theorems reads_intros \<open>calls that only consume input\<close>

lemma length_input [simp]: "good_in s \<Longrightarrow> length (input s) = bytes_left s"
  by (auto simp: good_in_def input_def split: istate.splits)

lemma good_in_from_buffer [simp]: "n \<le> length bs \<Longrightarrow> good_in (pb_istream_from_buffer bs n)"
  by (simp add: good_in_def pb_istream_from_buffer_def)

lemma bytes_left_from_buffer [simp]: "bytes_left (pb_istream_from_buffer bs n) = n"
  by (simp add: pb_istream_from_buffer_def)

lemma input_from_buffer [simp]: "input (pb_istream_from_buffer bs n) = take n bs"
  by (simp add: input_def pb_istream_from_buffer_def)

lemma advance_sel [simp]:
  "bytes_left (advance s k) = bytes_left s - k" "ierrmsg (advance s k) = ierrmsg s"
  by (simp_all add: advance_def)

lemma good_in_advance [simp]: "good_in s \<Longrightarrow> good_in (advance s k)"
  by (auto simp: good_in_def advance_def split: istate.splits)

lemma good_in_errmsg [simp]: "good_in (s\<lparr>ierrmsg := x\<rparr>) = good_in s"
  by (simp add: good_in_def split: istate.splits)

lemma input_errmsg [simp]: "input (s\<lparr>ierrmsg := x\<rparr>) = input s"
  by (simp add: input_def split: istate.splits)

lemma good_in_bytes_left [simp]: "good_in s \<Longrightarrow> n \<le> bytes_left s \<Longrightarrow> good_in (s\<lparr>bytes_left := n\<rparr>)"
  by (auto simp: good_in_def split: istate.splits)

lemma input_bytes_left: "n \<le> bytes_left s \<Longrightarrow> input (s\<lparr>bytes_left := n\<rparr>) = take n (input s)"
  by (auto simp: input_def split: istate.splits)

lemma input_advance [simp]: "input (advance s k) = drop k (input s)"
  by (auto simp: input_def advance_def drop_take split: istate.splits)

lemma advance_0 [simp]: "advance s 0 = s"
  by (cases s) (simp add: advance_def split: istate.splits)

lemma advance_advance [simp]: "advance (advance s j) k = advance s (j + k)"
  by (cases s) (simp add: advance_def add.commute split: istate.splits)

lemma advance_errmsg [simp]: "advance (s\<lparr>ierrmsg := x\<rparr>) k = (advance s k)\<lparr>ierrmsg := x\<rparr>"
  by (simp add: advance_def)

lemma set_ierror_conv: "set_ierror s msg = s\<lparr>ierrmsg := PB_SET_ERROR (ierrmsg s) msg\<rparr>"
  by (rule set_ierror_def)

lemma input_Nil: "good_in s \<Longrightarrow> input s = [] \<longleftrightarrow> bytes_left s = 0"
  using length_input [of s] by (cases "input s") simp_all

lemma readsI: "k \<le> bytes_left s \<Longrightarrow> reads s ((advance s k)\<lparr>ierrmsg := msg\<rparr>)"
  unfolding reads_def by blast

lemma reads_refl [reads_intros, simp]: "reads s s"
  using readsI [of 0 s "ierrmsg s"] by simp

lemma reads_trans [trans]:
  assumes "reads s t" "reads t u"
  shows "reads s u"
proof -
  obtain j x where j: "j \<le> bytes_left s" and t: "t = (advance s j)\<lparr>ierrmsg := x\<rparr>"
    using assms(1) by (auto simp: reads_def)
  obtain k y where k: "k \<le> bytes_left t" and u: "u = (advance t k)\<lparr>ierrmsg := y\<rparr>"
    using assms(2) by (auto simp: reads_def)
  have "u = (advance s (j + k))\<lparr>ierrmsg := y\<rparr>" using t u by simp
  moreover have "j + k \<le> bytes_left s" using j k t by simp
  ultimately show ?thesis unfolding reads_def by blast
qed

lemma reads_advance [reads_intros, simp]: "k \<le> bytes_left s \<Longrightarrow> reads s (advance s k)"
  using readsI [of k s "ierrmsg (advance s k)"] by (simp del: advance_sel)

lemma reads_errmsg: "reads s t \<Longrightarrow> reads s (t\<lparr>ierrmsg := x\<rparr>)"
  by (auto simp: reads_def [of s t] intro!: readsI)

lemma reads_error [reads_intros]: "reads s t \<Longrightarrow> reads s (set_ierror t msg)"
  unfolding set_ierror_conv by (rule reads_errmsg)

lemma reads_good: "reads s t \<Longrightarrow> good_in s \<Longrightarrow> good_in t"
  by (auto simp: reads_def)

lemma reads_bytes_left: "reads s t \<Longrightarrow> bytes_left t \<le> bytes_left s"
  by (auto simp: reads_def)

lemma reads_input: "reads s t \<Longrightarrow> \<exists>k \<le> bytes_left s. input t = drop k (input s)"
  by (auto simp: reads_def)

subsection \<open>Reading bytes\<close>

lemma read_bytes_buffer:
  assumes "good_in s"
  shows "read_bytes s n =
     (if n \<le> bytes_left s then Some (True, take n (input s), advance s n)
      else Some (False, [], set_ierror s ''end-of-stream''))"
proof -
  obtain src where "istate s = IBuf src" "bytes_left s \<le> length src" "icallback s = IBufRead"
    using assms by (auto simp: good_in_def split: istate.splits)
  then show ?thesis
    by (simp add: read_bytes_def buf_read_def input_def advance_def min_absorb1)
qed

lemma pb_read_buffer:
  "good_in s \<Longrightarrow> pb_read s null n =
     (if n \<le> bytes_left s then Some (True, take n (input s), advance s n)
      else Some (False, [], set_ierror s ''end-of-stream''))"
  by (auto simp: pb_read_def read_bytes_buffer good_in_def)

lemma pb_skip_buffer:
  "good_in s \<Longrightarrow> pb_skip s n =
     (if n \<le> bytes_left s then Some (True, advance s n)
      else Some (False, set_ierror s ''end-of-stream''))"
  by (simp add: pb_skip_def pb_read_buffer)

lemma pb_readbyte_buffer:
  assumes "good_in s"
  shows "pb_readbyte s =
     (case input s of [] \<Rightarrow> Some (False, 0, set_ierror s ''end-of-stream'')
      | b # bs \<Rightarrow> Some (True, b, advance s 1))"
proof -
  obtain src where src: "istate s = IBuf src" "bytes_left s \<le> length src" "icallback s = IBufRead"
    using assms by (auto simp: good_in_def split: istate.splits)
  show ?thesis
  proof (cases "bytes_left s = 0")
    case True
    then show ?thesis by (simp add: pb_readbyte_def input_def src)
  next
    case False
    then obtain b bs where "src = b # bs" using src by (cases src) auto
    with False show ?thesis
      by (auto simp: pb_readbyte_def input_def buf_read_def advance_def src
          split: list.splits nat.splits) (cases "bytes_left s", simp_all)
  qed
qed

subsection \<open>Varints of 64 bits\<close>

text \<open>
  The reader of 64-bit varints on any input: at most ten bytes are looked at, the number is
  the one the format defines, reduced to 64 bits, and both ways to fail are reported.
\<close>

definition varint_outcome :: "nat \<Rightarrow> nat \<Rightarrow> nat \<Rightarrow> 'u istream \<Rightarrow> (bool \<times> 64 word \<times> 'u istream) option" where
  "varint_outcome m base sh s =
     (case varint_value (take m (input s)) of
        Some (v, r) \<Rightarrow> Some (True, word_of_nat (base + v * 2 ^ sh), advance s (min m (bytes_left s) - length r))
      | None \<Rightarrow> if m \<le> bytes_left s then Some (False, 0, set_ierror (advance s m) ''varint overflow'')
                else Some (False, 0, set_ierror (advance s (bytes_left s)) ''end-of-stream''))"

lemma varint_outcome_step:
  assumes "input s = b # bs" "good_in s"
  shows "varint_outcome (Suc m) base n s =
    (if unat b < 128 then Some (True, word_of_nat (base + unat b mod 128 * 2 ^ n), advance s 1)
     else varint_outcome m (unat (word_of_nat (base + unat b mod 128 * 2 ^ n) :: 64 word)) (n + 7)
            (advance s 1))"
proof -
  have left: "bytes_left s = Suc (length bs)" using assms length_input [of s] by simp
  show ?thesis
  proof (cases "varint_value (take m bs)")
    case None
    with left assms show ?thesis by (auto simp: varint_outcome_def)
  next
    case (Some x)
    obtain v r where x: "x = (v, r)" by (cases x)
    have "length r \<le> min m (length bs)" using varint_value_length [OF Some [unfolded x]] by simp
    moreover have "unat b \<ge> 128 \<Longrightarrow> unat b - 128 = unat b mod 128"
      using unat_byte_less [of b] by (simp add: mod_if)
    moreover have "(unat b mod 128 + 128 * v) * 2 ^ n = unat b mod 128 * 2 ^ n + v * 2 ^ (n + 7)"
      by (simp add: power_add algebra_simps)
    ultimately show ?thesis
      using left assms Some unfolding x
      by (auto simp: varint_outcome_def Suc_diff_le simp del: of_nat_mult)
  qed
qed

lemma varint_read_loop_eq:
  assumes "good_in s" "unat result < 2 ^ (7 * (10 - m))" "m \<le> 10"
  shows "varint_read_loop s result (7 * (10 - m)) = varint_outcome m (unat result) (7 * (10 - m)) s"
  using assms
proof (induction m arbitrary: s result)
  case 0
  then show ?case by (subst varint_read_loop.simps) (simp add: varint_outcome_def)
next
  case (Suc m)
  let ?n = "7 * (10 - Suc m)"
  have n: "?n < 64" "fast8 (?n + 7) = 7 * (10 - m)" using Suc.prems(3) by (auto simp: fast8_def)
  show ?case
  proof (cases "input s")
    case Nil
    then have "bytes_left s = 0" using Suc.prems(1) input_Nil by blast
    with Nil n Suc.prems(1) show ?thesis
      by (subst varint_read_loop.simps) (simp add: varint_outcome_def pb_readbyte_buffer)
  next
    case (Cons b bs)
    let ?r = "unat result + unat b mod 128 * 2 ^ ?n"
    let ?w = "word_of_nat ?r :: 64 word"
    have left: "bytes_left s = Suc (length bs)" using Cons length_input [OF Suc.prems(1)] by simp
    have acc: "result OR push_bit ?n (ucast (b AND 0x7F)) = ?w"
      using Suc.prems(2) by (intro place_digit) auto
    have n7: "7 * (10 - m) = ?n + 7" using Suc.prems(3) by simp
    have rec: "varint_read_loop (advance s 1) ?w (7 * (10 - m)) =
      varint_outcome m (unat ?w) (7 * (10 - m)) (advance s 1)"
    proof (rule Suc.IH)
      show "unat ?w < 2 ^ (7 * (10 - m))"
        unfolding n7 by (rule le_less_trans [OF unat_of_nat_le digit_bound [OF Suc.prems(2)]])
    qed (use Suc.prems in auto)
    have "varint_read_loop s result ?n =
      (if unat b < 128 then Some (True, ?w, advance s 1)
       else varint_read_loop (advance s 1) ?w (7 * (10 - m)))"
      using Cons n Suc.prems(1) acc
      by (subst varint_read_loop.simps) (simp add: pb_readbyte_buffer high_bit_of_byte)
    then show ?thesis
      unfolding rec using varint_outcome_step [OF Cons Suc.prems(1), of m "unat result" ?n] left
      unfolding n7 by simp
  qed
qed


lemma pb_decode_varint_buffer: "good_in s \<Longrightarrow> pb_decode_varint s = varint_outcome 10 0 0 s"
  using varint_read_loop_eq [of s 0 10] by (simp add: pb_decode_varint_def)

lemma pb_decode_varint_bytes:
  assumes "good_in s" "input s = varint_bytes v @ rest" "v < 2 ^ 64"
  shows "pb_decode_varint s = Some (True, word_of_nat v, advance s (length (varint_bytes v)))"
proof -
  let ?n = "length (varint_bytes v)"
  have n: "?n \<le> 10" by (rule varint_bytes_length_10 [OF assms(3)])
  have left: "bytes_left s = ?n + length rest" using assms(1,2) length_input [of s] by simp
  have "take 10 (input s) = varint_bytes v @ take (10 - ?n) rest" using n assms(2) by simp
  then have "varint_value (take 10 (input s)) = Some (v, take (10 - ?n) rest)"
    by (simp only: varint_value_bytes)
  moreover have "min 10 (bytes_left s) - length (take (10 - ?n) rest) = ?n" using n left by simp
  ultimately show ?thesis
    using assms(1) by (simp add: pb_decode_varint_buffer varint_outcome_def)
qed

lemma pb_decode_varint_reads:
  assumes "good_in s"
  shows "\<exists>ok v s'. pb_decode_varint s = Some (ok, v, s') \<and> reads s s' \<and>
           (ok \<longrightarrow> bytes_left s' < bytes_left s)"
proof (cases "varint_value (take 10 (input s))")
  case None
  then show ?thesis
    using assms by (auto simp: pb_decode_varint_buffer varint_outcome_def intro!: reads_intros)
next
  case (Some x)
  obtain v r where x: "x = (v, r)" by (cases x)
  have "length r < min 10 (bytes_left s)" using varint_value_length [OF Some [unfolded x]] assms by simp
  moreover let ?k = "min 10 (bytes_left s) - length r"
  have "pb_decode_varint s = Some (True, word_of_nat v, advance s ?k)"
    using assms Some x by (simp add: pb_decode_varint_buffer varint_outcome_def)
  moreover have "?k \<le> bytes_left s" by simp
  then have "reads s (advance s ?k)" by (rule reads_advance)
  moreover have "bytes_left (advance s ?k) < bytes_left s"
    using \<open>length r < min 10 (bytes_left s)\<close> unfolding advance_sel by linarith
  ultimately show ?thesis by blast
qed

lemma pb_decode_svarint_reads:
  assumes "good_in s"
  shows "\<exists>ok v s'. pb_decode_svarint s = Some (ok, v, s') \<and> reads s s'"
  using pb_decode_varint_reads [OF assms] by (auto simp: pb_decode_svarint_def)

subsection \<open>Varints of 32 bits\<close>

definition varint32_bad :: "32 word \<Rightarrow> nat \<Rightarrow> byte \<Rightarrow> bool" where
  "varint32_bad result bitpos b \<longleftrightarrow> bitpos \<ge> 32 \<and> b AND 0x7F \<noteq> 0 \<and>
     (drop_bit 31 result = 0 \<or> b \<noteq> (if bitpos < 63 then 0xFF else 0x01))"

definition varint32_acc :: "32 word \<Rightarrow> nat \<Rightarrow> byte \<Rightarrow> 32 word" where
  "varint32_acc result bitpos b =
     (if bitpos \<ge> 32 then result else result OR push_bit bitpos (ucast (b AND 0x7F)))"

lemma varint32_loop_buffer:
  assumes "good_in s"
  shows "varint32_loop s result bitpos =
    (case input s of
       [] \<Rightarrow> Some (False, (result, bitpos, 0), set_ierror s ''end-of-stream'')
     | b # bs \<Rightarrow>
         if varint32_bad result bitpos b
         then Some (False, (result, bitpos, b), set_ierror (advance s 1) ''varint overflow'')
         else if unat b < 128
         then Some (True, (varint32_acc result bitpos b, fast8 (bitpos + 7), b), advance s 1)
         else varint32_loop (advance s 1) (varint32_acc result bitpos b) (fast8 (bitpos + 7)))"
  unfolding varint32_loop.simps [of s] pb_readbyte_buffer [OF assms] varint32_bad_def varint32_acc_def
  by (cases "input s") (auto simp: Let_def simp flip: high_bit_of_byte)

lemma varint32_loop_reads:
  "good_in s \<Longrightarrow> \<exists>ok v s'. varint32_loop s result bitpos = Some (ok, v, s') \<and> reads s s'"
proof (induction "bytes_left s" arbitrary: s result bitpos rule: less_induct)
  case less
  show ?case
  proof (cases "input s")
    case Nil
    then show ?thesis
      unfolding varint32_loop_buffer [OF less.prems] by (auto intro!: reads_intros)
  next
    case (Cons b bs)
    then have one: "1 \<le> bytes_left s" using length_input [OF less.prems] by simp
    let ?s = "advance s 1"
    obtain ok v s' where "varint32_loop ?s (varint32_acc result bitpos b) (fast8 (bitpos + 7)) =
      Some (ok, v, s')" "reads ?s s'"
      using less.hyps [of ?s] less.prems one by fastforce
    moreover have "reads s ?s" using one by simp
    ultimately show ?thesis
      using one unfolding varint32_loop_buffer [OF less.prems] Cons
      by (cases v) (auto intro: reads_intros reads_trans)
  qed
qed

lemma pb_decode_varint32_eof_buffer:
  assumes "good_in s"
  shows "pb_decode_varint32_eof s =
    (case input s of
       [] \<Rightarrow> Some (False, 0, True, set_ierror s ''end-of-stream'')
     | b # bs \<Rightarrow>
         if unat b < 128 then Some (True, ucast b, False, advance s 1)
         else (case varint32_loop (advance s 1) (ucast (b AND 0x7F)) 7 of None \<Rightarrow> None
               | Some (ok, (result, bitpos, b), s') \<Rightarrow>
                   if \<not> ok then Some (False, 0, False, s')
                   else if bitpos = 35 \<and> b AND 0x70 \<noteq> 0
                   then Some (False, 0, False, set_ierror s' ''varint overflow'')
                   else Some (True, result, False, s')))"
  unfolding pb_decode_varint32_eof_def pb_readbyte_buffer [OF assms]
  using input_Nil [OF assms]
  by (cases "input s") (simp_all add: set_ierror_conv flip: high_bit_of_byte)

lemma pb_decode_varint32_eof_reads:
  assumes "good_in s"
  shows "\<exists>ok v eof s'. pb_decode_varint32_eof s = Some (ok, v, eof, s') \<and> reads s s' \<and>
           (ok \<longrightarrow> bytes_left s' < bytes_left s)"
proof (cases "input s")
  case Nil
  then show ?thesis
    unfolding pb_decode_varint32_eof_buffer [OF assms] by (auto intro!: reads_intros)
next
  case (Cons b bs)
  then have one: "1 \<le> bytes_left s" using length_input [OF assms] by simp
  let ?s = "advance s 1"
  obtain ok result bitpos b' s' where loop:
    "varint32_loop ?s (ucast (b AND 0x7F)) 7 = Some (ok, (result, bitpos, b'), s')" "reads ?s s'"
    using varint32_loop_reads [of ?s] assms by fastforce
  have "bytes_left s' < bytes_left s" using reads_bytes_left [OF loop(2)] one by simp
  moreover have "reads s s'" by (rule reads_trans [OF reads_advance [OF one] loop(2)])
  ultimately show ?thesis
    using loop(1) one unfolding pb_decode_varint32_eof_buffer [OF assms] Cons
    by (auto simp: set_ierror_conv intro: reads_errmsg)
qed


lemma pb_decode_varint32_reads:
  assumes "good_in s"
  shows "\<exists>ok v s'. pb_decode_varint32 s = Some (ok, v, s') \<and> reads s s' \<and>
           (ok \<longrightarrow> bytes_left s' < bytes_left s)"
  using pb_decode_varint32_eof_reads [OF assms] by (auto simp: pb_decode_varint32_def)

text \<open>Every 32-bit number is read back from its encoding.\<close>

lemma small_byte_and_112: "v < 16 \<Longrightarrow> (word_of_nat v :: byte) AND 0x70 = 0"
proof -
  assume "v < 16"
  then have "unat (take_bit 4 (word_of_nat v :: byte)) = unat (word_of_nat v :: byte)"
    by (simp add: unat_take_bit_mod unat_byte_of_nat)
  then have eq: "take_bit 4 (word_of_nat v :: byte) = word_of_nat v" by (rule unsigned_word_eqI)
  have "take_bit 4 (word_of_nat v :: byte) AND 0x70 = 0"
    by (simp add: take_bit_eq_mask mask_eq_exp_minus_1 and.assoc)
  then show ?thesis unfolding eq .
qed

lemma varint_bytes_head:
  assumes "varint_bytes v = b # bs"
  shows "unat b mod 128 = v mod 128 \<and> (unat b < 128 \<longleftrightarrow> v < 128) \<and>
         bs = (if v < 128 then [] else varint_bytes (v div 128))"
proof (cases "v < 128")
  case True
  with assms show ?thesis by (auto simp: varint_bytes_small unat_byte_of_nat)
next
  case False
  have "unat (word_of_nat (v mod 128 + 128) :: byte) = v mod 128 + 128"
    by (rule unat_byte_of_nat) (use mod_less_divisor [of 128 v] in linarith)
  with False assms show ?thesis by (auto simp: varint_bytes_big)
qed

lemma varint32_loop_bytes:
  assumes "good_in s" "input s = varint_bytes v @ rest" "1 \<le> v" "unat result < 2 ^ (7 * j)"
    and "unat result + v * 2 ^ (7 * j) < 2 ^ 32" "1 \<le> j"
  shows "\<exists>bitpos b. varint32_loop s result (7 * j) =
    Some (True, (word_of_nat (unat result + v * 2 ^ (7 * j)), bitpos, b), advance s (length (varint_bytes v)))
    \<and> \<not> (bitpos = 35 \<and> b AND 0x70 \<noteq> 0)"
  using assms
proof (induction v arbitrary: s result j rule: varint_bytes.induct)
  case (1 v)
  have "2 ^ (7 * j) \<le> v * 2 ^ (7 * j)" using "1.prems"(3) by simp
  then have "(2 :: nat) ^ (7 * j) < 2 ^ 32" using "1.prems"(5) by linarith
  then have j: "7 * j < 32" by (simp only: power_strict_increasing_iff)
  obtain b bs where bytes: "varint_bytes v = b # bs" by (metis neq_Nil_conv varint_bytes_not_Nil)
  have unb: "unat b mod 128 = v mod 128" "unat b < 128 \<longleftrightarrow> v < 128" and bs: "bs = (if v < 128 then [] else varint_bytes (v div 128))"
    using varint_bytes_head [OF bytes] by blast+
  have acc: "varint32_acc result (7 * j) b = word_of_nat (unat result + v mod 128 * 2 ^ (7 * j))" (is "_ = ?w")
    unfolding varint32_acc_def using j place_digit [OF "1.prems"(4), of b] unb by simp
  have step: "varint32_loop s result (7 * j) =
    (if v < 128 then Some (True, (?w, 7 * j + 7, b), advance s 1)
     else varint32_loop (advance s 1) ?w (7 * Suc j))"
    unfolding varint32_loop_buffer [OF "1.prems"(1)] using "1.prems"(2) bytes j unb acc
    by (simp add: varint32_bad_def fast8_def add.commute)
  show ?case
  proof (cases "v < 128")
    case True
    have "b AND 0x70 = 0" if "7 * j + 7 = 35"
    proof -
      have "j = 4" using that by simp
      then have "v < 16" using "1.prems"(5) by simp
      then show ?thesis using True bytes by (auto simp: varint_bytes_small small_byte_and_112)
    qed
    then show ?thesis using True bytes bs step by auto
  next
    case False
    let ?r = "unat result + v mod 128 * 2 ^ (7 * j)"
    have split: "unat result + v * 2 ^ (7 * j) = ?r + v div 128 * 2 ^ (7 * Suc j)"
    proof -
      have "v * 2 ^ (7 * j) = (v mod 128 + v div 128 * 128) * 2 ^ (7 * j)" by simp
      then show ?thesis by (simp only: distrib_right mult.assoc) (simp add: power_add)
    qed
    have r: "unat (?w) = ?r" using "1.prems"(5) unfolding split
      by (simp add: unat_of_nat take_bit_eq_mod del: of_nat_add of_nat_mult)
    have "\<exists>bitpos c. varint32_loop (advance s 1) ?w (7 * Suc j) =
      Some (True, (word_of_nat (unat ?w + v div 128 * 2 ^ (7 * Suc j)), bitpos, c),
        advance (advance s 1) (length (varint_bytes (v div 128))))
      \<and> \<not> (bitpos = 35 \<and> c AND 0x70 \<noteq> 0)"
    proof (rule "1.IH" [OF False])
      show "unat ?w < 2 ^ (7 * Suc j)"
        using digit_bound [OF "1.prems"(4), of b] unfolding r unb by (simp add: add.commute)
    qed (use False "1.prems" bytes bs split r in auto)
    then show ?thesis
      using False step bs bytes unfolding r split by simp
  qed
qed


lemma pb_decode_varint32_eof_bytes:
  assumes "good_in s" "input s = varint_bytes v @ rest" "v < 2 ^ 32"
  shows "pb_decode_varint32_eof s =
    Some (True, word_of_nat v, False, advance s (length (varint_bytes v)))"
proof -
  obtain b bs where bytes: "varint_bytes v = b # bs" by (metis neq_Nil_conv varint_bytes_not_Nil)
  note head = varint_bytes_head [OF bytes]
  have inp: "input s = b # bs @ rest" using assms(2) bytes by simp
  have cb: "(ucast (b AND 0x7F) :: 32 word) = word_of_nat (v mod 128)"
    using low_bits_of_byte [of b, where 'a = 32] head by simp
  show ?thesis
  proof (cases "v < 128")
    case True
    have "(ucast b :: 32 word) = word_of_nat (unat b)" by simp
    moreover have "unat b = v" using True head by auto
    ultimately have "(ucast b :: 32 word) = word_of_nat v" by simp
    with True head bytes show ?thesis
      unfolding pb_decode_varint32_eof_buffer [OF assms(1)] inp by simp
  next
    case False
    have small: "unat (word_of_nat (v mod 128) :: 32 word) = v mod 128"
      by (simp add: unat_of_nat take_bit_eq_mod mod_less less_trans [OF mod_less_divisor])
    have "\<exists>bitpos c. varint32_loop (advance s 1) (word_of_nat (v mod 128)) (7 * 1) =
      Some (True, (word_of_nat (unat (word_of_nat (v mod 128) :: 32 word) + v div 128 * 2 ^ (7 * 1)), bitpos, c),
        advance (advance s 1) (length (varint_bytes (v div 128)))) \<and> \<not> (bitpos = 35 \<and> c AND 0x70 \<noteq> 0)"
      by (rule varint32_loop_bytes [where rest = rest])
        (use assms False head inp small in \<open>auto simp: less_trans [OF mod_less_divisor]\<close>)
    then show ?thesis
      unfolding pb_decode_varint32_eof_buffer [OF assms(1)] inp
      using False head bytes cb small by (auto simp: mult.commute)
  qed
qed

lemma pb_decode_varint32_bytes:
  "good_in s \<Longrightarrow> input s = varint_bytes v @ rest \<Longrightarrow> v < 2 ^ 32 \<Longrightarrow>
   pb_decode_varint32 s = Some (True, word_of_nat v, advance s (length (varint_bytes v)))"
  by (simp add: pb_decode_varint32_def pb_decode_varint32_eof_bytes)


subsection \<open>Signed and fixed-width numbers\<close>

lemma svarint_word:
  assumes "- (2 ^ 63) \<le> i" "i < 2 ^ 63"
  shows "(let w = word_of_nat (zigzag i) :: 64 word
          in if w AND 1 \<noteq> 0 then NOT (drop_bit 1 w) else drop_bit 1 w) = word_of_int i"
proof -
  let ?w = "word_of_nat (zigzag i) :: 64 word"
  have "zigzag i < 2 ^ 64" using assms by (auto simp: zigzag_def)
  then have u: "unat ?w = zigzag i" by (simp add: unat_of_nat take_bit_eq_mod)
  have low: "(?w AND 1 \<noteq> 0) = odd (zigzag i)"
    by (simp add: and_one_eq odd_iff_mod_2_eq_one [symmetric] even_of_nat)
  have "drop_bit 1 ?w = word_of_nat (unat (drop_bit 1 ?w))" by simp
  then have half: "drop_bit 1 ?w = word_of_nat (zigzag i div 2)"
    unfolding unat_drop_bit_div u power_one_right .
  show ?thesis
  proof (cases "i < 0")
    case True
    then have z: "zigzag i = 2 * nat (- i - 1) + 1" by (simp add: zigzag_def)
    have "NOT (word_of_nat (nat (- i - 1)) :: 64 word) = word_of_int i"
      using True by (simp add: not_eq_complement)
    then show ?thesis unfolding Let_def low half unfolding z by simp
  next
    case False
    then have z: "zigzag i = 2 * nat i" by (simp add: zigzag_def)
    show ?thesis unfolding Let_def low half unfolding z using False by simp
  qed
qed

lemma pb_decode_svarint_bytes:
  assumes "good_in s" "input s = varint_bytes (zigzag i) @ rest" "- (2 ^ 63) \<le> i" "i < 2 ^ 63"
  shows "pb_decode_svarint s =
    Some (True, word_of_int i, advance s (length (varint_bytes (zigzag i))))"
proof -
  have "zigzag i < 2 ^ 64" using assms by (auto simp: zigzag_def)
  from pb_decode_varint_bytes [OF assms(1,2) this] show ?thesis
    unfolding pb_decode_svarint_def
    using svarint_word [OF assms(3,4)] by (simp add: Let_def)
qed

lemma byte_or: "8 < LENGTH('a::len) \<Longrightarrow>
  (ucast (b :: byte) :: 'a word) OR push_bit 8 (word_of_nat n) = word_of_nat (unat b + 256 * n)"
proof -
  assume len: "8 < LENGTH('a)"
  have u: "unat (ucast b :: 'a word) = unat b"
  proof -
    have "unat b < 2 ^ 8" using unat_byte_less [of b] by simp
    also have "(2 :: nat) ^ 8 \<le> 2 ^ LENGTH('a)" using len by (intro power_increasing) auto
    finally show ?thesis by (simp add: unsigned_ucast_eq take_bit_eq_mod)
  qed
  have "(ucast b :: 'a word) OR push_bit 8 (word_of_nat n) = ucast b + push_bit 8 (word_of_nat n)"
    by (rule or_shifted_bits) (use u unat_byte_less [of b] in simp)
  then show ?thesis by (simp add: push_bit_eq_mult mult.commute)
qed

lemma fixed32_value:
  "ucast (b0 :: byte) OR push_bit 8 (ucast (b1 :: byte)) OR push_bit 16 (ucast (b2 :: byte)) OR
   push_bit 24 (ucast (b3 :: byte)) = (word_of_nat (le_nat [b0, b1, b2, b3]) :: 32 word)"
proof -
  have step: "ucast (b :: byte) OR push_bit 8 (word_of_nat n) = (word_of_nat (unat b + 256 * n) :: 32 word)"
    for b n by (rule byte_or) simp
  have "ucast b0 OR push_bit 8 (ucast b1) OR push_bit 16 (ucast b2) OR push_bit 24 (ucast b3) =
    (ucast b0 OR push_bit 8 (ucast b1 OR push_bit 8 (ucast b2 OR push_bit 8
      (word_of_nat (unat b3)))) :: 32 word)"
    by (simp add: push_bit_or)
  also have "\<dots> = word_of_nat (le_nat [b0, b1, b2, b3])"
    unfolding step le_nat.simps mult_0_right add_0_right ..
  finally show ?thesis .
qed

lemma fixed64_value:
  "ucast (b0 :: byte) OR push_bit 8 (ucast (b1 :: byte)) OR push_bit 16 (ucast (b2 :: byte)) OR
   push_bit 24 (ucast (b3 :: byte)) OR push_bit 32 (ucast (b4 :: byte)) OR
   push_bit 40 (ucast (b5 :: byte)) OR push_bit 48 (ucast (b6 :: byte)) OR
   push_bit 56 (ucast (b7 :: byte)) =
   (word_of_nat (le_nat [b0, b1, b2, b3, b4, b5, b6, b7]) :: 64 word)"
proof -
  have step: "ucast (b :: byte) OR push_bit 8 (word_of_nat n) = (word_of_nat (unat b + 256 * n) :: 64 word)"
    for b n by (rule byte_or) simp
  have "ucast b0 OR push_bit 8 (ucast b1) OR push_bit 16 (ucast b2) OR push_bit 24 (ucast b3) OR
    push_bit 32 (ucast b4) OR push_bit 40 (ucast b5) OR push_bit 48 (ucast b6) OR push_bit 56 (ucast b7) =
    (ucast b0 OR push_bit 8 (ucast b1 OR push_bit 8 (ucast b2 OR push_bit 8 (ucast b3 OR push_bit 8
      (ucast b4 OR push_bit 8 (ucast b5 OR push_bit 8 (ucast b6 OR push_bit 8
        (word_of_nat (unat b7)))))))) :: 64 word)"
    by (simp add: push_bit_or)
  also have "\<dots> = word_of_nat (le_nat [b0, b1, b2, b3, b4, b5, b6, b7])"
    unfolding step le_nat.simps mult_0_right add_0_right ..
  finally show ?thesis .
qed

lemma list_nth_8: "length bs = 8 \<Longrightarrow> bs = [bs ! 0, bs ! 1, bs ! 2, bs ! 3, bs ! 4, bs ! 5, bs ! 6, bs ! 7]"
  by (rule nth_equalityI) (auto simp: less_Suc_eq numeral_eq_Suc)

lemma list_nth_4: "length bs = 4 \<Longrightarrow> bs = [bs ! 0, bs ! 1, bs ! 2, bs ! 3]"
  by (rule nth_equalityI) (auto simp: less_Suc_eq numeral_eq_Suc)

lemma pb_decode_fixed32_buffer:
  assumes "good_in s"
  shows "pb_decode_fixed32 s =
    (if 4 \<le> bytes_left s then Some (True, word_of_nat (le_nat (take 4 (input s))), advance s 4)
     else Some (False, 0, set_ierror s ''end-of-stream''))"
proof (cases "4 \<le> bytes_left s")
  case True
  then have "length (take 4 (input s)) = 4" using assms by simp
  from list_nth_4 [OF this] True show ?thesis
    unfolding pb_decode_fixed32_def pb_read_buffer [OF assms] by (simp add: fixed32_value)
qed (simp add: pb_decode_fixed32_def pb_read_buffer [OF assms])

lemma pb_decode_fixed64_buffer:
  assumes "good_in s"
  shows "pb_decode_fixed64 s =
    (if 8 \<le> bytes_left s then Some (True, word_of_nat (le_nat (take 8 (input s))), advance s 8)
     else Some (False, 0, set_ierror s ''end-of-stream''))"
proof (cases "8 \<le> bytes_left s")
  case True
  then have "length (take 8 (input s)) = 8" using assms by simp
  from list_nth_8 [OF this] True show ?thesis
    unfolding pb_decode_fixed64_def pb_read_buffer [OF assms] by (simp add: fixed64_value)
qed (simp add: pb_decode_fixed64_def pb_read_buffer [OF assms])


subsection \<open>Tags\<close>

lemma pb_decode_tag_reads:
  assumes "good_in s"
  shows "\<exists>tr s'. pb_decode_tag s = Some (tr, s') \<and> reads s s' \<and>
           (tr_ok tr \<longrightarrow> bytes_left s' < bytes_left s)"
  using pb_decode_varint32_eof_reads [OF assms] by (auto simp: pb_decode_tag_def)

lemma unat_and_7: "unat (w AND 7 :: 'a::len word) = unat w mod 8" if "3 \<le> LENGTH('a)"
proof -
  have "w AND 7 = take_bit 3 w" by (simp add: take_bit_eq_mask mask_eq_exp_minus_1)
  then show ?thesis by (simp add: unat_take_bit_mod)
qed

lemma pb_decode_tag_bytes:
  assumes "good_in s" "input s = varint_bytes (t * 8 + wt) @ rest"
    and "wt < 8" "0 < t * 8 + wt" "t * 8 + wt < 2 ^ 32"
  shows "pb_decode_tag s =
    Some (\<lparr>tr_ok = True, tr_wire_type = wt, tr_tag = t, tr_eof = False\<rparr>,
          advance s (length (varint_bytes (t * 8 + wt))))"
proof -
  let ?w = "word_of_nat (t * 8 + wt) :: 32 word"
  have u: "unat ?w = t * 8 + wt"
    using assms(5) by (simp add: unat_of_nat take_bit_eq_mod del: of_nat_add of_nat_mult)
  then have "?w \<noteq> 0" using assms(4) unat_eq_0 by (metis not_less_zero)
  moreover have "unat (?w AND 7) = wt" "unat (drop_bit 3 ?w) = t"
    using assms(3) unat_and_7 [of ?w] unat_drop_bit_div [of 3 ?w] u by simp_all
  ultimately show ?thesis
    unfolding pb_decode_tag_def pb_decode_varint32_eof_bytes [OF assms(1,2,5)] by simp
qed

subsection \<open>Skipping\<close>

lemma pb_skip_varint_buffer:
  assumes "good_in s"
  shows "pb_skip_varint s =
    (case input s of [] \<Rightarrow> Some (False, set_ierror s ''end-of-stream'')
     | b # bs \<Rightarrow> if unat b < 128 then Some (True, advance s 1) else pb_skip_varint (advance s 1))"
  unfolding pb_skip_varint.simps [of s] pb_read_buffer [OF assms]
  using length_input [OF assms]
  by (cases "input s") (auto simp: Suc_le_eq simp flip: high_bit_of_byte)

lemma pb_skip_varint_reads: "good_in s \<Longrightarrow> \<exists>ok s'. pb_skip_varint s = Some (ok, s') \<and> reads s s'"
proof (induction "bytes_left s" arbitrary: s rule: less_induct)
  case less
  show ?case
  proof (cases "input s")
    case Nil
    then show ?thesis unfolding pb_skip_varint_buffer [OF less.prems] by (auto intro!: reads_intros)
  next
    case (Cons b bs)
    then have one: "1 \<le> bytes_left s" using length_input [OF less.prems] by simp
    obtain ok s' where "pb_skip_varint (advance s 1) = Some (ok, s')" "reads (advance s 1) s'"
      using less.hyps [of "advance s 1"] less.prems one by auto
    moreover from this have "reads s s'" using reads_trans [OF reads_advance [OF one]] by blast
    ultimately show ?thesis
      using one unfolding pb_skip_varint_buffer [OF less.prems] Cons by auto
  qed
qed

lemma pb_skip_varint_bytes:
  "good_in s \<Longrightarrow> input s = varint_bytes v @ rest \<Longrightarrow>
   pb_skip_varint s = Some (True, advance s (length (varint_bytes v)))"
proof (induction v arbitrary: s rule: varint_bytes.induct)
  case (1 v)
  obtain b bs where bytes: "varint_bytes v = b # bs" by (metis neq_Nil_conv varint_bytes_not_Nil)
  note head = varint_bytes_head [OF bytes]
  show ?case
    unfolding pb_skip_varint_buffer [OF "1.prems"(1)]
    using "1.prems" "1.IH" [of "advance s 1"] bytes head by auto
qed

lemma pb_skip_reads: "good_in s \<Longrightarrow> \<exists>ok s'. pb_skip s n = Some (ok, s') \<and> reads s s'"
  by (auto simp: pb_skip_buffer intro!: reads_intros)

lemma pb_skip_string_reads:
  assumes "good_in s"
  shows "\<exists>ok s'. pb_skip_string s = Some (ok, s') \<and> reads s s'"
proof -
  obtain ok n t where t: "pb_decode_varint32 s = Some (ok, n, t)" "reads s t"
    using pb_decode_varint32_reads [OF assms] by blast
  obtain ok' u where "pb_skip t (unat n) = Some (ok', u)" "reads t u"
    using pb_skip_reads [OF reads_good [OF t(2) assms]] by blast
  then show ?thesis using t reads_trans [OF t(2)] by (auto simp: pb_skip_string_def)
qed

lemma pb_skip_field_reads:
  assumes "good_in s"
  shows "\<exists>ok s'. pb_skip_field s wt = Some (ok, s') \<and> reads s s'"
  unfolding pb_skip_field_def
  using assms by (auto intro!: pb_skip_varint_reads pb_skip_reads pb_skip_string_reads reads_intros)

text \<open>The payload of a field of wire type \<open>wt\<close>, as the format has it.\<close>

definition wire_payload :: "nat \<Rightarrow> byte list \<Rightarrow> bool" where
  "wire_payload wt bs \<longleftrightarrow>
     wt = PB_WT_VARINT \<and> (\<exists>v. bs = varint_bytes v) \<or>
     wt = PB_WT_64BIT \<and> length bs = 8 \<or>
     wt = PB_WT_STRING \<and> (\<exists>p. bs = delimited p \<and> length p < 2 ^ 32) \<or>
     wt = PB_WT_32BIT \<and> length bs = 4"

lemma pb_skip_string_bytes:
  assumes "good_in s" "input s = delimited p @ rest" "length p < 2 ^ 32"
  shows "pb_skip_string s = Some (True, advance s (length (delimited p)))"
proof -
  have inp: "input s = varint_bytes (length p) @ p @ rest" using assms(2) by (simp add: delimited_def)
  let ?t = "advance s (length (varint_bytes (length p)))"
  have "unat (word_of_nat (length p) :: 32 word) = length p"
    using assms(3) by (simp add: unat_of_nat take_bit_eq_mod)
  moreover have "length p \<le> bytes_left ?t"
    using length_input [of ?t] assms(1) inp by simp
  ultimately show ?thesis
    using assms(1) pb_decode_varint32_bytes [OF assms(1) inp assms(3)] pb_skip_buffer [of ?t]
    by (simp add: pb_skip_string_def delimited_def)
qed

lemma pb_skip_field_payload:
  assumes "good_in s" "input s = bs @ rest" "wire_payload wt bs"
  shows "pb_skip_field s wt = Some (True, advance s (length bs))"
proof -
  have "length bs \<le> bytes_left s" using assms(1,2) length_input [of s] by simp
  with assms show ?thesis
    by (auto simp: wire_payload_def pb_skip_field_def pb_skip_buffer
        intro: pb_skip_varint_bytes pb_skip_string_bytes)
qed


subsection \<open>Substreams\<close>

text \<open>
  The length prefix takes \<open>k\<close> bytes and announces \<open>n\<close>: the substream sees exactly the next
  \<open>n\<close> bytes, and the parent keeps its place until the substream is closed.
\<close>

definition opened :: "'u istream \<Rightarrow> 'u istream \<Rightarrow> 'u istream \<Rightarrow> nat \<Rightarrow> nat \<Rightarrow> bool" where
  "opened s s1 sub k n \<longleftrightarrow> 0 < k \<and> k + n \<le> bytes_left s \<and>
     (\<exists>msg. s1 = (advance s k)\<lparr>bytes_left := bytes_left s - k - n, ierrmsg := msg\<rparr> \<and>
            sub = (advance s k)\<lparr>bytes_left := n, ierrmsg := msg\<rparr>)"

lemma pb_make_string_substream_reads:
  assumes "good_in s"
  shows "\<exists>ok s1 sub. pb_make_string_substream s = Some (ok, s1, sub) \<and>
    (if ok then \<exists>k n. opened s s1 sub k n else reads s s1)"
proof -
  obtain ok n t where t: "pb_decode_varint32 s = Some (ok, n, t)" "reads s t"
    "ok \<longrightarrow> bytes_left t < bytes_left s"
    using pb_decode_varint32_reads [OF assms] by blast
  obtain k msg where k: "k \<le> bytes_left s" "t = (advance s k)\<lparr>ierrmsg := msg\<rparr>"
    using t(2) by (auto simp: reads_def)
  show ?thesis
  proof (cases "ok \<and> unat n \<le> bytes_left t")
    case True
    then have "0 < k" "k + unat n \<le> bytes_left s" using t(3) k by auto
    moreover have "t\<lparr>bytes_left := bytes_left t - unat n\<rparr> =
        (advance s k)\<lparr>bytes_left := bytes_left s - k - unat n, ierrmsg := msg\<rparr>"
      "t\<lparr>bytes_left := unat n\<rparr> = (advance s k)\<lparr>bytes_left := unat n, ierrmsg := msg\<rparr>"
      using k(2) by simp_all
    ultimately have "opened s (t\<lparr>bytes_left := bytes_left t - unat n\<rparr>) (t\<lparr>bytes_left := unat n\<rparr>) k (unat n)"
      unfolding opened_def by blast
    moreover have "pb_make_string_substream s =
      Some (True, t\<lparr>bytes_left := bytes_left t - unat n\<rparr>, t\<lparr>bytes_left := unat n\<rparr>)"
      using True t(1) by (simp add: pb_make_string_substream_def)
    ultimately show ?thesis by auto
  next
    case False
    then have "\<exists>s1. pb_make_string_substream s = Some (False, s1, t) \<and> reads s s1"
      using t(1,2) by (cases ok) (auto simp: pb_make_string_substream_def intro: reads_error)
    then show ?thesis by auto
  qed
qed

lemma opened_good:
  assumes "opened s s1 sub k n" "good_in s"
  shows "good_in sub" "bytes_left sub = n" "input sub = take n (drop k (input s))"
    "bytes_left s1 = bytes_left s - k - n" "bytes_left s1 < bytes_left s"
proof -
  obtain msg where sub: "sub = (advance s k)\<lparr>bytes_left := n, ierrmsg := msg\<rparr>"
    and s1: "s1 = (advance s k)\<lparr>bytes_left := bytes_left s - k - n, ierrmsg := msg\<rparr>"
    and kn: "0 < k" "k + n \<le> bytes_left s"
    using assms(1) by (auto simp: opened_def)
  show "good_in sub" "bytes_left sub = n" "bytes_left s1 = bytes_left s - k - n"
    "bytes_left s1 < bytes_left s" "input sub = take n (drop k (input s))"
    using assms(2) sub s1 kn by (simp_all add: input_bytes_left)
qed

lemma opened_close:
  assumes "opened s s1 sub k n" "good_in s" "reads sub sub'"
  shows "\<exists>msg. pb_close_string_substream s1 sub' = Some (True, (advance s (k + n))\<lparr>ierrmsg := msg\<rparr>)"
proof -
  obtain msg where sub: "sub = (advance s k)\<lparr>bytes_left := n, ierrmsg := msg\<rparr>"
    and s1: "s1 = (advance s k)\<lparr>bytes_left := bytes_left s - k - n, ierrmsg := msg\<rparr>"
    and kn: "0 < k" "k + n \<le> bytes_left s"
    using assms(1) by (auto simp: opened_def)
  obtain j msg' where j: "j \<le> n" "sub' = (advance sub j)\<lparr>ierrmsg := msg'\<rparr>"
    using assms(3) by (auto simp: reads_def sub)
  have left: "bytes_left sub' = n - j" using j sub by simp
  have good: "good_in sub'" using reads_good [OF assms(3)] opened_good(1) [OF assms(1,2)] by blast
  have "pb_close_string_substream s1 sub' =
    Some (True, s1\<lparr>istate := istate (advance sub' (n - j)), ierrmsg := msg'\<rparr>)"
    using j left pb_skip_buffer [OF good, of "bytes_left sub'"]
    by (auto simp: pb_close_string_substream_def)
  moreover have "s1\<lparr>istate := istate (advance sub' (n - j)), ierrmsg := msg'\<rparr> =
    (advance s (k + n))\<lparr>ierrmsg := msg'\<rparr>"
    using j kn by (cases s) (simp add: s1 sub advance_def add.commute split: istate.splits)
  ultimately show ?thesis by auto
qed

lemma opened_close_reads:
  assumes "opened s s1 sub k n" "good_in s" "reads sub sub'"
  shows "\<exists>s2. pb_close_string_substream s1 sub' = Some (True, s2) \<and> reads s s2 \<and>
           bytes_left s2 < bytes_left s"
proof -
  obtain msg where "pb_close_string_substream s1 sub' = Some (True, (advance s (k + n))\<lparr>ierrmsg := msg\<rparr>)"
    using opened_close [OF assms] by blast
  moreover have "k + n \<le> bytes_left s" "0 < k" using assms(1) by (auto simp: opened_def)
  ultimately show ?thesis by (auto intro!: readsI)
qed

lemma pb_make_string_substream_bytes:
  assumes "good_in s" "input s = delimited p @ rest" "length p < 2 ^ 32"
  shows "\<exists>s1 sub. pb_make_string_substream s = Some (True, s1, sub) \<and>
    opened s s1 sub (length (varint_bytes (length p))) (length p) \<and> input sub = p"
proof -
  have inp: "input s = varint_bytes (length p) @ p @ rest" using assms(2) by (simp add: delimited_def)
  let ?k = "length (varint_bytes (length p))" and ?n = "length p"
  let ?t = "advance s ?k"
  have u: "unat (word_of_nat (length p) :: 32 word) = length p"
    using assms(3) by (simp add: unat_of_nat take_bit_eq_mod)
  have left: "bytes_left s = ?k + ?n + length rest" using length_input [OF assms(1)] inp by simp
  let ?s1 = "?t\<lparr>bytes_left := bytes_left ?t - ?n\<rparr>" and ?sub = "?t\<lparr>bytes_left := ?n\<rparr>"
  have "pb_make_string_substream s = Some (True, ?s1, ?sub)"
    using pb_decode_varint32_bytes [OF assms(1) inp assms(3)] u left
    by (simp add: pb_make_string_substream_def)
  moreover have "opened s ?s1 ?sub ?k ?n"
    unfolding opened_def using left by (auto intro!: exI [of _ "ierrmsg s"])
  moreover have "input ?sub = p" using inp left by (simp add: input_bytes_left)
  ultimately show ?thesis by blast
qed

text \<open>
  A call that fails may leave a stream that is shorter than its place in the buffer allows
  (an opened substream that was never closed), but never one that reaches past the end.
\<close>

definition inside :: "'u istream \<Rightarrow> 'u istream \<Rightarrow> bool" where
  "inside s s' \<longleftrightarrow> (\<exists>k m msg. k + m \<le> bytes_left s \<and>
     s' = (advance s k)\<lparr>bytes_left := m, ierrmsg := msg\<rparr>)"

lemma insideI: "k + m \<le> bytes_left s \<Longrightarrow> inside s ((advance s k)\<lparr>bytes_left := m, ierrmsg := msg\<rparr>)"
  unfolding inside_def by blast

lemma reads_inside: "reads s s' \<Longrightarrow> inside s s'"
proof -
  assume "reads s s'"
  then obtain k msg where k: "k \<le> bytes_left s" "s' = (advance s k)\<lparr>ierrmsg := msg\<rparr>"
    by (auto simp: reads_def)
  then have "s' = (advance s k)\<lparr>bytes_left := bytes_left s - k, ierrmsg := msg\<rparr>"
    by (cases s) (simp add: advance_def)
  with k(1) show ?thesis unfolding inside_def by (metis le_add_diff_inverse order_refl)
qed

lemma inside_refl [simp]: "inside s s"
  by (rule reads_inside [OF reads_refl])

lemma inside_trans [trans]:
  assumes "inside s t" "inside t u"
  shows "inside s u"
proof -
  obtain j m x where j: "j + m \<le> bytes_left s" and t: "t = (advance s j)\<lparr>bytes_left := m, ierrmsg := x\<rparr>"
    using assms(1) by (auto simp: inside_def)
  obtain k l y where k: "k + l \<le> bytes_left t" and u: "u = (advance t k)\<lparr>bytes_left := l, ierrmsg := y\<rparr>"
    using assms(2) by (auto simp: inside_def)
  have "u = (advance s (j + k))\<lparr>bytes_left := l, ierrmsg := y\<rparr>"
    unfolding u t by (cases s) (simp add: advance_def add.commute split: istate.splits)
  moreover have "j + k + l \<le> bytes_left s" using j k t by simp
  ultimately show ?thesis unfolding inside_def by blast
qed

lemma inside_error: "inside s t \<Longrightarrow> inside s (set_ierror t msg)"
  by (auto simp: inside_def [of s t] set_ierror_conv intro!: insideI)

lemma inside_good: "inside s t \<Longrightarrow> good_in s \<Longrightarrow> good_in t"
  by (auto simp: inside_def)

lemma inside_bytes_left: "inside s t \<Longrightarrow> bytes_left t \<le> bytes_left s"
  by (auto simp: inside_def)

lemma opened_inside: "opened s s1 sub k n \<Longrightarrow> inside s s1"
  by (auto simp: opened_def intro!: insideI)

lemma opened_close_inside:
  assumes "opened s s1 sub k n" "good_in s" "inside sub sub'"
  shows "\<exists>s2. pb_close_string_substream s1 sub' = Some (True, s2) \<and> inside s s2"
proof -
  obtain msg where sub: "sub = (advance s k)\<lparr>bytes_left := n, ierrmsg := msg\<rparr>"
    and s1: "s1 = (advance s k)\<lparr>bytes_left := bytes_left s - k - n, ierrmsg := msg\<rparr>"
    and kn: "0 < k" "k + n \<le> bytes_left s"
    using assms(1) by (auto simp: opened_def)
  obtain j m msg' where j: "j + m \<le> n" "sub' = (advance sub j)\<lparr>bytes_left := m, ierrmsg := msg'\<rparr>"
    using assms(3) by (auto simp: inside_def sub)
  have good: "good_in sub'" using inside_good [OF assms(3)] opened_good(1) [OF assms(1,2)] by blast
  let ?s2 = "s1\<lparr>istate := istate (advance sub' m), ierrmsg := msg'\<rparr>"
  have "pb_close_string_substream s1 sub' = Some (True, ?s2)"
    using j pb_skip_buffer [OF good, of "bytes_left sub'"]
    by (auto simp: pb_close_string_substream_def)
  moreover have "?s2 = (advance s (k + j + m))\<lparr>bytes_left := bytes_left s - k - n, ierrmsg := msg'\<rparr>"
    by (cases s) (simp add: s1 j(2) sub advance_def ac_simps split: istate.splits)
  moreover have "(k + j + m) + (bytes_left s - k - n) \<le> bytes_left s" using j(1) kn by simp
  ultimately show ?thesis unfolding inside_def by blast
qed

end
