(* ===== verification/Pb_Decode_Safety.thy ===== *)
theory Pb_Decode_Safety
  imports Pb_Decode Pb_Istream_Spec
begin

text \<open>
  Memory safety and termination of the decoder on statically allocated messages. \<open>static_layout
  n fs sz\<close> is what the descriptors of such a message type have to satisfy: every field, its
  has-flag, counter or \<^verbatim>\<open>which_\<close> member lies inside a structure of \<open>sz\<close> bytes, and submessages
  (nested at most \<open>n\<close> deep) lie inside their field. Then the decoder, on any input whatever,
  returns, reads nothing past the end of the input and writes nothing outside the structure.
\<close>

subsection \<open>Confined heap changes\<close>

definition confined :: "addr \<Rightarrow> nat \<Rightarrow> heap \<Rightarrow> heap \<Rightarrow> bool" where
  "confined a n h h' \<longleftrightarrow> h' = h\<lparr>bytes := bytes h'\<rparr> \<and> dom (bytes h') = dom (bytes h) \<and>
     (\<forall>x. x < a \<or> a + n \<le> x \<longrightarrow> bytes h' x = bytes h x)"

lemma confined_refl [simp]: "confined a n h h"
  by (simp add: confined_def)

lemma confined_trans [trans]:
  assumes "confined a n h h'" "confined a n h' h''"
  shows "confined a n h h''"
proof -
  have "h'' = h'\<lparr>bytes := bytes h''\<rparr>" using assms(2) by (simp add: confined_def)
  also have "h' = h\<lparr>bytes := bytes h'\<rparr>" using assms(1) by (simp add: confined_def)
  finally have "h'' = h\<lparr>bytes := bytes h''\<rparr>" by simp
  then show ?thesis using assms by (simp add: confined_def)
qed

lemma confined_mono: "confined a n h h' \<Longrightarrow> b \<le> a \<Longrightarrow> a + n \<le> b + m \<Longrightarrow> confined b m h h'"
  by (auto simp: confined_def)

lemma confined_mapped: "confined a n h h' \<Longrightarrow> mapped (bytes h') x k = mapped (bytes h) x k"
  unfolding confined_def mapped_def by (metis domIff)

lemma mapped_sub: "mapped m a n \<Longrightarrow> a \<le> b \<Longrightarrow> b + k \<le> a + n \<Longrightarrow> mapped m b k"
proof -
  assume m: "mapped m a n" and b: "a \<le> b" "b + k \<le> a + n"
  have "m (b + i) \<noteq> None" if "i < k" for i
  proof -
    have "(b - a) + i < n" and "a + ((b - a) + i) = b + i" using b that by auto
    with m show ?thesis unfolding mapped_def by metis
  qed
  then show ?thesis unfolding mapped_def by blast
qed

definition safe_heap :: "addr \<Rightarrow> nat \<Rightarrow> heap \<Rightarrow> heap option \<Rightarrow> bool" where
  "safe_heap a n h r \<longleftrightarrow> (\<exists>h'. r = Some h' \<and> confined a n h h')"

lemma hstore_safe:
  assumes "mapped (bytes h) a n" "a \<le> x" "x + length bs \<le> a + n"
  shows "safe_heap a n h (hstore h x bs)"
proof -
  have "mapped (bytes h) x (length bs)" by (rule mapped_sub [OF assms])
  then obtain m where m: "store (bytes h) x bs = Some m" using store_total by blast
  have "dom m = dom (bytes h)" by (rule store_dom [OF m])
  moreover have "m y = bytes h y" if "y < a \<or> a + n \<le> y" for y
    using store_outside [OF m, of y] assms that by auto
  ultimately show ?thesis using m unfolding safe_heap_def confined_def hstore_def by auto
qed

lemma safe_heap_None [simp]: "\<not> safe_heap a n h None"
  by (simp add: safe_heap_def)

lemma safe_heap_Some [simp]: "safe_heap a n h (Some h') = confined a n h h'"
  by (simp add: safe_heap_def)

lemma safe_heap_bind:
  assumes "safe_heap a n h r" "\<And>h'. confined a n h h' \<Longrightarrow> safe_heap a n h' (g h')"
  shows "safe_heap a n h (case r of None \<Rightarrow> None | Some h' \<Rightarrow> g h')"
proof -
  obtain h' where h': "r = Some h'" "confined a n h h'" using assms(1) by (auto simp: safe_heap_def)
  obtain h'' where "g h' = Some h''" "confined a n h' h''"
    using assms(2) [OF h'(2)] by (auto simp: safe_heap_def)
  with h' confined_trans [OF h'(2)] show ?thesis by (simp add: safe_heap_def)
qed

lemma safe_heap_mono: "safe_heap a n h r \<Longrightarrow> b \<le> a \<Longrightarrow> a + n \<le> b + m \<Longrightarrow> safe_heap b m h r"
  by (auto simp: safe_heap_def intro: confined_mono)

subsection \<open>Safe calls\<close>

text \<open>A call returns; the input it leaves is what it was given, less what it consumed.\<close>

definition safe :: "addr \<Rightarrow> nat \<Rightarrow> 'u istream \<Rightarrow> heap \<Rightarrow> 'u dec_result \<Rightarrow> bool" where
  "safe a n s h r \<longleftrightarrow> (\<exists>ok s' h'. r = Some (ok, s', h') \<and> confined a n h h' \<and>
     (if ok then reads s s' else inside s s'))"

lemma safe_mono: "safe a n s h r \<Longrightarrow> b \<le> a \<Longrightarrow> a + n \<le> b + m \<Longrightarrow> safe b m s h r"
  unfolding safe_def by (metis confined_mono)

lemma safe_inside: "safe a n s h (Some (ok, s', h')) \<Longrightarrow> inside s s'"
  by (auto simp: safe_def reads_inside split: if_splits)

lemma safe_Some: "safe a n s h (Some (ok, s', h')) \<longleftrightarrow>
  confined a n h h' \<and> (if ok then reads s s' else inside s s')"
  by (simp add: safe_def)

lemma safe_error: "reads s s' \<Longrightarrow> confined a n h h' \<Longrightarrow> safe a n s h (ierror s' h' msg)"
  by (simp add: ierror_def safe_Some inside_error reads_inside)

lemma safe_step:
  assumes "safe a n s' h' r" "reads s s'" "confined a n h h'"
  shows "safe a n s h r"
proof -
  obtain ok t k where r: "r = Some (ok, t, k)" and c: "confined a n h' k"
    and t: "if ok then reads s' t else inside s' t"
    using assms(1) by (auto simp: safe_def)
  have "if ok then reads s t else inside s t"
    using t assms(2) reads_trans inside_trans reads_inside by (cases ok) (simp, blast)+
  then show ?thesis using r confined_trans [OF assms(3) c] by (simp add: safe_Some)
qed

lemma safe_map_heap:
  assumes "safe_heap a n h r" "reads s s'"
  shows "safe a n s h (map_option (\<lambda>h'. (True, s', h')) r)"
  using assms by (auto simp: safe_heap_def safe_Some)


lemma safe_bind_heap:
  assumes "safe_heap a n h r" "\<And>h'. confined a n h h' \<Longrightarrow> safe a n s h' (g h')"
  shows "safe a n s h (case r of None \<Rightarrow> None | Some h' \<Rightarrow> g h')"
proof -
  obtain h' where h': "r = Some h'" "confined a n h h'" using assms(1) by (auto simp: safe_heap_def)
  then show ?thesis using safe_step [OF assms(2) [OF h'(2)] reads_refl h'(2)] by simp
qed

subsection \<open>Field decoders\<close>

lemma store_signed_safe:
  assumes "mapped (bytes h) dest n" "reads s s'"
  shows "safe dest n s h (store_signed s' h n dest v)"
proof -
  have "safe_heap dest n h (hstore h dest (nat_le n (of_signed n v)))"
    by (rule hstore_safe) (use assms in auto)
  then obtain h' where h': "hstore h dest (nat_le n (of_signed n v)) = Some h'" "confined dest n h h'"
    by (auto simp: safe_heap_def)
  show ?thesis
    unfolding store_signed_def h' option.case using safe_error [OF assms(2)] h'(2) assms(2)
    by (simp only: safe_Some if_True split: if_split) simp
qed

lemma store_unsigned_safe:
  assumes "mapped (bytes h) dest n" "reads s s'"
  shows "safe dest n s h (store_unsigned s' h n dest v)"
proof -
  have "safe_heap dest n h (hstore h dest (nat_le n (v mod 256 ^ n)))"
    by (rule hstore_safe) (use assms in auto)
  then obtain h' where h': "hstore h dest (nat_le n (v mod 256 ^ n)) = Some h'" "confined dest n h h'"
    by (auto simp: safe_heap_def)
  show ?thesis
    unfolding store_unsigned_def h' option.case using safe_error [OF assms(2)] h'(2) assms(2)
    by (simp only: safe_Some if_True split: if_split) simp
qed

lemma pb_dec_varint_safe:
  assumes "good_in s" "mapped (bytes h) dest (data_size f)"
  shows "safe dest (data_size f) s h (pb_dec_varint s h f dest)"
  using pb_decode_varint_reads [OF assms(1)] store_signed_safe [OF assms(2)]
  by (auto simp: pb_dec_varint_def Let_def safe_Some reads_inside)

lemma pb_dec_uvarint_safe:
  assumes "good_in s" "mapped (bytes h) dest (data_size f)"
  shows "safe dest (data_size f) s h (pb_dec_uvarint s h f dest)"
  using pb_decode_varint_reads [OF assms(1)] store_unsigned_safe [OF assms(2)]
  by (auto simp: pb_dec_uvarint_def safe_Some reads_inside)

lemma pb_dec_svarint_safe:
  assumes "good_in s" "mapped (bytes h) dest (data_size f)"
  shows "safe dest (data_size f) s h (pb_dec_svarint s h f dest)"
  using pb_decode_svarint_reads [OF assms(1)] store_signed_safe [OF assms(2)]
  by (auto simp: pb_dec_svarint_def safe_Some reads_inside)

lemma pb_dec_fixed32_safe:
  assumes "good_in s" "mapped (bytes h) dest (data_size f)" "4 \<le> data_size f"
  shows "safe dest (data_size f) s h (pb_dec_fixed32 s h f dest)"
  using assms
  by (auto simp: pb_dec_fixed32_def pb_decode_fixed32_buffer safe_Some
      intro!: safe_map_heap hstore_safe reads_intros reads_inside inside_error)

lemma pb_dec_fixed64_safe:
  assumes "good_in s" "mapped (bytes h) dest (data_size f)" "8 \<le> data_size f"
  shows "safe dest (data_size f) s h (pb_dec_fixed64 s h f dest)"
  using assms
  by (auto simp: pb_dec_fixed64_def pb_decode_fixed64_buffer safe_Some
      intro!: safe_map_heap hstore_safe reads_intros reads_inside inside_error)

lemma read_into_safe:
  assumes "good_in s" "mapped (bytes h) a n" "a \<le> x" "x + k \<le> a + n"
  shows "safe a n s h (read_into s h x k)"
proof (cases "k \<le> bytes_left s")
  case True
  have "safe_heap a n h (hstore h x (take k (input s)))"
    by (rule hstore_safe) (use assms True in auto)
  with True assms(1) show ?thesis
    by (simp add: read_into_def pb_read_buffer safe_map_heap)
next
  case False
  with assms(1) show ?thesis
    by (simp add: read_into_def pb_read_buffer hstore_def safe_Some inside_error reads_inside)
qed

lemma read_string_into_safe:
  assumes "good_in s" "mapped (bytes h) a n" "a \<le> x" "x + k + 1 \<le> a + n"
  shows "safe a n s h (read_string_into s h x k)"
proof -
  have "safe a n s h (read_into s h x k)" using assms by (intro read_into_safe) auto
  then obtain ok s' h' where r: "read_into s h x k = Some (ok, s', h')" "confined a n h h'"
    "if ok then reads s s' else inside s s'" by (auto simp: safe_def)
  have "mapped (bytes h') a n" using assms(2) confined_mapped [OF r(2)] by simp
  then have "safe_heap a n h' (hstore h' (x + k) [0])"
    using assms by (intro hstore_safe) auto
  then obtain h'' where "hstore h' (x + k) [0] = Some h''" "confined a n h' h''"
    by (auto simp: safe_heap_def)
  with r confined_trans [OF r(2)] show ?thesis
    by (simp add: read_string_into_def safe_Some)
qed


lemma pb_dec_bytes_safe:
  assumes "good_in s" "mapped (bytes h) dest (data_size f)" "atype f = PB_ATYPE_STATIC"
  shows "safe dest (data_size f) s h (pb_dec_bytes s h f dest)"
proof -
  obtain ok n t where t: "pb_decode_varint32 s = Some (ok, n, t)" "reads s t"
    using pb_decode_varint32_reads [OF assms(1)] by blast
  have good: "good_in t" by (rule reads_good [OF t(2) assms(1)])
  have n: "unat n < 2 ^ 32" by (rule unat_u32_less)
  then have alloc: "PB_BYTES_ARRAY_T_ALLOCSIZE (unat n) = unat n + 4"
    by (simp add: PB_BYTES_ARRAY_T_ALLOCSIZE_def size_t_small)
  show ?thesis
  proof (cases "ok \<and> unat n + 4 \<le> data_size f")
    case True
    have "safe dest (data_size f) t h
      (case hstore h dest (nat_le 4 (unat n)) of None \<Rightarrow> None
       | Some h \<Rightarrow> read_into t h (bytes_array_bytes dest) (unat n))"
      using True good assms(2) confined_mapped
      by (intro safe_bind_heap hstore_safe read_into_safe) (auto simp: bytes_array_bytes_def)
    from safe_step [OF this t(2) confined_refl] True n show ?thesis
      using t(1) alloc assms(3) by (simp add: pb_dec_bytes_def Let_def PB_SIZE_MAX_def)
  next
    case False
    with t n alloc assms(3) show ?thesis
      by (auto simp: pb_dec_bytes_def Let_def safe_Some reads_inside safe_error PB_SIZE_MAX_def)
  qed
qed

lemma pb_dec_string_safe:
  assumes "good_in s" "mapped (bytes h) dest (data_size f)" "atype f = PB_ATYPE_STATIC"
  shows "safe dest (data_size f) s h (pb_dec_string s h f dest)"
proof -
  obtain ok n t where t: "pb_decode_varint32 s = Some (ok, n, t)" "reads s t"
    using pb_decode_varint32_reads [OF assms(1)] by blast
  have good: "good_in t" by (rule reads_good [OF t(2) assms(1)])
  let ?a = "u32 (unat n + 1)"
  have a: "\<not> ?a < unat n \<Longrightarrow> ?a = unat n + 1"
    using unat_u32_less [of n] by (cases "unat n + 1 = 2 ^ 32") (auto simp: u32_def)
  show ?thesis
  proof (cases "ok \<and> \<not> ?a < unat n \<and> ?a \<le> data_size f")
    case True
    have "safe dest (data_size f) t h (read_string_into t h dest (unat n))"
      using True a good assms(2) by (intro read_string_into_safe) auto
    from safe_step [OF this t(2) confined_refl] True show ?thesis
      using t(1) assms(3) by (simp add: pb_dec_string_def Let_def)
  next
    case False
    with t assms(3) show ?thesis
      by (auto simp: pb_dec_string_def Let_def safe_Some reads_inside safe_error)
  qed
qed

lemma pb_dec_fixed_length_bytes_safe:
  assumes "good_in s" "mapped (bytes h) dest (data_size f)"
  shows "safe dest (data_size f) s h (pb_dec_fixed_length_bytes s h f dest)"
proof -
  obtain ok n t where t: "pb_decode_varint32 s = Some (ok, n, t)" "reads s t"
    using pb_decode_varint32_reads [OF assms(1)] by blast
  have good: "good_in t" by (rule reads_good [OF t(2) assms(1)])
  have zero: "safe_heap dest (data_size f) h (hstore h dest (replicate (data_size f) 0))"
    by (rule hstore_safe) (use assms in auto)
  have "safe dest (data_size f) t h (read_into t h dest (data_size f))"
    by (rule read_into_safe [OF good assms(2)]) auto
  from safe_step [OF this t(2) confined_refl] zero t show ?thesis
    by (auto simp: pb_dec_fixed_length_bytes_def Let_def safe_Some reads_inside safe_error
        intro!: safe_map_heap)
qed

subsection \<open>Layouts\<close>

definition scalar_item :: "pb_field \<Rightarrow> bool" where
  "scalar_item f \<longleftrightarrow> ltype f \<le> PB_LTYPE_STRING \<and>
     (ltype f = PB_LTYPE_FIXED32 \<longrightarrow> 4 \<le> data_size f) \<and> (ltype f = PB_LTYPE_FIXED64 \<longrightarrow> 8 \<le> data_size f)
   \<or> ltype f = PB_LTYPE_FIXED_LENGTH_BYTES"

lemma ltype_le_6:
  "(x :: 8 word) \<le> 6 \<longleftrightarrow> x = 0 \<or> x = 1 \<or> x = 2 \<or> x = 3 \<or> x = 4 \<or> x = 5 \<or> x = 6"
  unfolding word_le_nat_alt word_unat_eq_iff by simp linarith

lemma scalar_item_safe:
  assumes "good_in s" "mapped (bytes h) dest (data_size f)" "atype f = PB_ATYPE_STATIC" "scalar_item f"
  shows "safe dest (data_size f) s h (PB_DECODERS n e rec (ltype f) s h f dest)"
  using assms(4) unfolding scalar_item_def PB_DECODERS_def ltype_le_6
  using pb_dec_varint_safe [OF assms(1,2)] pb_dec_uvarint_safe [OF assms(1,2)]
    pb_dec_svarint_safe [OF assms(1,2)] pb_dec_fixed32_safe [OF assms(1,2)]
    pb_dec_fixed64_safe [OF assms(1,2)] pb_dec_bytes_safe [OF assms(1,2,3)]
    pb_dec_string_safe [OF assms(1,2,3)] pb_dec_fixed_length_bytes_safe [OF assms(1,2)]
  by auto

text \<open>The bytes a field takes in the structure, and the slot of its flag, counter or tag.\<close>

definition field_span :: "pb_field \<Rightarrow> nat" where
  "field_span f = (if htype f = PB_HTYPE_REPEATED then data_size f * array_size f else data_size f)"

definition slot_span :: "pb_field \<Rightarrow> nat" where
  "slot_span f = (if htype f = PB_HTYPE_REQUIRED then 0 else if htype f = PB_HTYPE_OPTIONAL then 1 else 4)"

definition static_field :: "(pb_field list \<Rightarrow> nat \<Rightarrow> bool) \<Rightarrow> pb_field list \<Rightarrow> nat \<Rightarrow> nat \<Rightarrow> bool" where
  "static_field L fs sz k =
     (let f = fs ! k in
      atype f = PB_ATYPE_STATIC \<and>
      data_pos fs 0 k + field_span f \<le> sz \<and>
      data_size f * array_size f < 2 ^ 32 \<and>
      0 \<le> int (data_pos fs 0 k) + size_offset f \<and>
      size_pos fs 0 k + slot_span f \<le> sz \<and>
      (case ptr f of
         NullPtr \<Rightarrow> scalar_item f
       | DefaultPtr bs \<Rightarrow> scalar_item f \<and> data_size f \<le> length bs
       | FieldsPtr gs \<Rightarrow> ltype f = PB_LTYPE_SUBMESSAGE \<and> L gs (data_size f)))"

definition static_message :: "(pb_field list \<Rightarrow> nat \<Rightarrow> bool) \<Rightarrow> pb_field list \<Rightarrow> nat \<Rightarrow> bool" where
  "static_message L fs sz \<longleftrightarrow>
     field_array fs \<and> n_fields fs \<noteq> 0 \<and> (\<forall>k < n_fields fs. static_field L fs sz k)"

fun static_layout :: "nat \<Rightarrow> pb_field list \<Rightarrow> nat \<Rightarrow> bool" where
  "static_layout 0 fs sz = False"
| "static_layout (Suc n) fs sz = static_message (static_layout n) fs sz"

lemma static_message_mono:
  "(\<And>gs sz. L gs sz \<Longrightarrow> M gs sz) \<Longrightarrow> static_message L fs sz \<Longrightarrow> static_message M fs sz"
  by (auto simp: static_message_def static_field_def Let_def split: pb_ptr.splits)

lemma static_layout_Suc: "static_layout n fs sz \<Longrightarrow> static_layout (Suc n) fs sz"
proof (induction n arbitrary: fs sz)
  case (Suc n)
  then show ?case using static_message_mono [of "static_layout n" "static_layout (Suc n)"] by simp
qed simp

lemma data_pos_shift: "data_pos fs d k = d + data_pos fs 0 k"
  by (induction k) auto

lemma ptr_offset_shift: "0 \<le> int a + off \<Longrightarrow> ptr_offset (d + a) off = d + ptr_offset a off"
  unfolding ptr_offset_def by (simp add: add.assoc nat_add_distrib)

lemma size_pos_shift:
  "\<forall>j \<le> k. 0 \<le> int (data_pos fs 0 j) + size_offset (fs ! j) \<Longrightarrow> size_pos fs d k = d + size_pos fs 0 k"
proof (induction k)
  case 0
  then show ?case using ptr_offset_shift [of "data_offset (fs ! 0)"] by simp
next
  case (Suc k)
  then have "0 \<le> int (data_pos fs 0 (Suc k)) + size_offset (fs ! Suc k)" by blast
  with Suc show ?case
    using ptr_offset_shift [of "data_pos fs 0 (Suc k)" "size_offset (fs ! Suc k)" d]
      data_pos_shift [of fs d "Suc k"] by (auto simp del: data_pos.simps(2))
qed

text \<open>
  An iterator that stands on the field \<open>f\<close> of a structure at \<open>d\<close>: the field and its slot lie in
  the structure, and only the counter of an array may be the local variable of the caller.
\<close>

definition at_field ::
  "(pb_field list \<Rightarrow> nat \<Rightarrow> bool) \<Rightarrow> addr \<Rightarrow> nat \<Rightarrow> pb_field_iter \<Rightarrow> pb_field \<Rightarrow> bool" where
  "at_field L d sz it f \<longleftrightarrow> cur it = Some f \<and> atype f = PB_ATYPE_STATIC \<and>
     d \<le> pData it \<and> pData it + field_span f \<le> d + sz \<and> data_size f * array_size f < 2 ^ 32 \<and>
     (case pSize it of AtAddr a \<Rightarrow> d \<le> a \<and> a + slot_span f \<le> d + sz
      | AtLocal \<Rightarrow> htype f = PB_HTYPE_REPEATED) \<and>
     (case ptr f of
        NullPtr \<Rightarrow> scalar_item f
      | DefaultPtr bs \<Rightarrow> scalar_item f \<and> data_size f \<le> length bs
      | FieldsPtr gs \<Rightarrow> ltype f = PB_LTYPE_SUBMESSAGE \<and> L gs (data_size f))"

lemma iter_at_field:
  assumes "static_message L fs sz" "k < n_fields fs"
  shows "at_field L d sz (iter_at fs d l k) (fs ! k)"
proof -
  have f: "static_field L fs sz j" if "j < n_fields fs" for j
    using assms that by (simp add: static_message_def)
  then have "\<forall>j \<le> k. 0 \<le> int (data_pos fs 0 j) + size_offset (fs ! j)"
    using assms(2) by (auto simp: static_field_def Let_def)
  from size_pos_shift [OF this, of d] f [OF assms(2)] assms(2) data_pos_shift [of fs d k]
  show ?thesis
    by (simp add: at_field_def static_field_def Let_def cur_iter_at)
qed

lemma cur_update [simp]: "cur (it\<lparr>local_size := x\<rparr>) = cur it" "cur (it\<lparr>pSize := z\<rparr>) = cur it"
  by (simp_all add: cur_def)

lemma at_field_local:
  "at_field L d sz it f \<Longrightarrow> at_field L d sz (it\<lparr>local_size := x\<rparr>) f"
  "at_field L d sz it f \<Longrightarrow> htype f = PB_HTYPE_REPEATED \<Longrightarrow> at_field L d sz (it\<lparr>pSize := AtLocal\<rparr>) f"
  by (simp_all add: at_field_def)

lemma load_uint_mapped:
  "mapped (bytes h) d sz \<Longrightarrow> d \<le> a \<Longrightarrow> a + k \<le> d + sz \<Longrightarrow>
   \<exists>v. load_uint (bytes h) a k = Some v \<and> v < 256 ^ k"
  by (rule load_uint_total) (rule mapped_sub)

lemma load_count_total:
  assumes "at_field L d sz it f" "mapped (bytes h) d sz" "slot_span f = 4"
  shows "\<exists>c. load_count h it = Some c"
proof (cases "pSize it")
  case (AtAddr a)
  then have "d \<le> a" "a + 4 \<le> d + sz" using assms by (auto simp: at_field_def)
  from load_uint_mapped [OF assms(2) this] AtAddr show ?thesis
    by (auto simp: load_count_def load_size_def)
qed (simp add: load_count_def)

lemma store_count_safe:
  assumes "at_field L d sz it f" "mapped (bytes h) d sz" "slot_span f = 4"
  shows "\<exists>h' l. store_count h it v = Some (h', it\<lparr>local_size := l\<rparr>) \<and> confined d sz h h'"
proof (cases "pSize it")
  case (AtAddr a)
  then have "d \<le> a" "a + 4 \<le> d + sz" using assms by (auto simp: at_field_def)
  then have "safe_heap d sz h (hstore h a (nat_le 4 v))" using assms(2) by (intro hstore_safe) auto
  then obtain h' where h': "hstore h a (nat_le 4 v) = Some h'" "confined d sz h h'"
    by (auto simp: safe_heap_def)
  then have "store_count h it v = Some (h', it\<lparr>local_size := local_size it\<rparr>)"
    using AtAddr by (simp add: store_count_def)
  with h'(2) show ?thesis by blast
qed (auto simp: store_count_def)

subsection \<open>Defaults\<close>

lemma seq_loop_safe:
  assumes "\<And>it h'. it \<in> set its \<Longrightarrow> mapped (bytes h') d sz \<Longrightarrow> safe_heap d sz h' (g it h')"
    and "mapped (bytes h) d sz"
  shows "safe_heap d sz h
    (map_option snd (seq_loop (\<lambda>it h. map_option (\<lambda>h'. (True, h')) (g it h)) its h))"
  using assms
proof (induction its arbitrary: h)
  case (Cons it its)
  obtain h' where h': "g it h = Some h'" "confined d sz h h'"
    using Cons.prems(1) [of it h] Cons.prems(2) by (auto simp: safe_heap_def)
  have "safe_heap d sz h' (map_option snd
    (seq_loop (\<lambda>it h. map_option (\<lambda>h'. (True, h')) (g it h)) its h'))"
    using Cons.prems confined_mapped [OF h'(2)] by (intro Cons.IH) auto
  with h' show ?case using confined_trans [OF h'(2)] by (auto simp: safe_heap_def)
qed simp

lemma slot_store_safe:
  assumes "at_field L d sz it f" "mapped (bytes h) d sz" "pSize it = AtAddr a" "length bs \<le> slot_span f"
  shows "safe_heap d sz h (hstore h a bs)"
  using assms by (intro hstore_safe) (auto simp: at_field_def)


lemma at_fieldD:
  assumes "at_field L d sz it f"
  shows "cur it = Some f" "atype f = PB_ATYPE_STATIC" "d \<le> pData it"
    "pData it + field_span f \<le> d + sz" "data_size f * array_size f < 2 ^ 32"
    "ltype f \<noteq> PB_LTYPE_EXTENSION"
    "ltype f = PB_LTYPE_SUBMESSAGE \<Longrightarrow> \<exists>gs. ptr f = FieldsPtr gs \<and> L gs (data_size f)"
    "ltype f \<noteq> PB_LTYPE_SUBMESSAGE \<Longrightarrow> scalar_item f"
  using assms by (auto simp: at_field_def scalar_item_def split: pb_ptr.splits)

lemma message_defaults_safe:
  assumes "field_array fs" "n_fields fs \<noteq> 0" "mapped (bytes h) d sz"
    and "\<And>k h'. k < n_fields fs \<Longrightarrow> mapped (bytes h') d sz \<Longrightarrow>
      safe_heap d sz h' (g (iter_at fs d (local_size init_iter) k) h')"
  shows "safe_heap d sz h (message_defaults g fs d h)"
proof -
  have "safe_heap d sz h (map_option snd (seq_loop (\<lambda>it h. map_option (\<lambda>h'. (True, h')) (g it h))
    (map (iter_at fs d (local_size init_iter)) [0 ..< n_fields fs]) h))"
    by (rule seq_loop_safe) (use assms in auto)
  then show ?thesis
    using assms(1,2) by (simp add: message_defaults_def iter_begin_at iter_loop_all)
qed

lemma clear_slot_safe:
  assumes "at_field L d sz it f" "mapped (bytes h) d sz" "pSize it = AtAddr a"
  shows "safe_heap d sz h (clear_slot it f h)"
  using slot_store_safe [OF assms, of "[0]"] slot_store_safe [OF assms, of "nat_le 4 0"] assms(3)
  by (auto simp: clear_slot_def slot_span_def own_flag_def counted_def)

lemma init_field_data_safe:
  assumes at: "at_field L d sz it f" and m: "mapped (bytes h) d sz" and single: "\<not> counted f"
    and sub: "\<And>gs d' h'. L gs (data_size f) \<Longrightarrow> mapped (bytes h') d' (data_size f) \<Longrightarrow>
      safe_heap d' (data_size f) h' (defaults gs d' h')"
  shows "safe_heap d sz h (init_field_data defaults it f h)"
proof -
  note f = at_fieldD [OF at]
  have span: "pData it + data_size f \<le> d + sz"
    using f(4) single by (simp add: field_span_def counted_def)
  have whole: "safe_heap d sz h (hstore h (pData it) bs)" if "length bs = data_size f" for bs
    using m f(3) span that by (intro hstore_safe) auto
  have "safe_heap d sz h (defaults gs (pData it) h)" if "L gs (data_size f)" for gs
    by (rule safe_heap_mono [OF sub [OF that mapped_sub [OF m f(3) span]]]) (use f(3) span in auto)
  with whole at show ?thesis
    by (auto simp: init_field_data_def at_field_def scalar_item_def split: pb_ptr.splits)
qed

lemma set_to_default_safe:
  assumes at: "at_field L d sz it f" and m: "mapped (bytes h) d sz" and a: "pSize it = AtAddr a"
    and sub: "\<And>gs d' h'. L gs (data_size f) \<Longrightarrow> mapped (bytes h') d' (data_size f) \<Longrightarrow>
      safe_heap d' (data_size f) h' (message_defaults (pb_field_set_to_default n e) gs d' h')"
  shows "safe_heap d sz h (pb_field_set_to_default (Suc n) e it h)"
proof -
  have "pb_field_set_to_default (Suc n) e it h =
    (case clear_slot it f h of None \<Rightarrow> None
     | Some h \<Rightarrow> if \<not> own_flag it f \<and> counted f then Some h
                 else init_field_data (message_defaults (pb_field_set_to_default n e)) it f h)"
    using at_fieldD [OF at] by simp
  moreover have "\<not> counted f" if "own_flag it f" using that by (auto simp: own_flag_def counted_def)
  ultimately show ?thesis
    using init_field_data_safe [OF at _ _ sub] m confined_mapped
    by (auto intro!: safe_heap_bind clear_slot_safe [OF at m a])
qed

lemma pb_message_set_to_defaults_safe:
  "static_layout n fs sz \<Longrightarrow> mapped (bytes h) d sz \<Longrightarrow>
   safe_heap d sz h (pb_message_set_to_defaults n e fs d h)"
  unfolding pb_message_set_to_defaults_def
proof (induction n arbitrary: fs sz h d)
  case (Suc n)
  show ?case
  proof (rule message_defaults_safe)
    fix k and h' :: heap assume "k < n_fields fs" "mapped (bytes h') d sz"
    then show "safe_heap d sz h'
      (pb_field_set_to_default (Suc n) e (iter_at fs d (local_size init_iter) k) h')"
      using Suc by (intro set_to_default_safe [OF iter_at_field [where L = "static_layout n"]]) auto
  qed (use Suc.prems in \<open>auto simp: static_message_def\<close>)
qed simp

subsection \<open>Release\<close>

text \<open>Releasing a message without pointers changes nothing.\<close>

lemma release_items_same:
  "(\<And>i. i < n \<Longrightarrow> rel gs (p + i * step) h = Some h) \<Longrightarrow> release_items n rel gs step p h = Some h"
proof (induction n arbitrary: p)
  case (Suc n)
  have "rel gs (p + step + i * step) h = Some h" if "i < n" for i
    using Suc.prems [of "Suc i"] that by (simp add: add.assoc)
  moreover have "rel gs p h = Some h" using Suc.prems [of 0] by simp
  ultimately show ?case using Suc.IH by simp
qed simp

lemma seq_loop_same:
  "(\<And>it. it \<in> set its \<Longrightarrow> g it h = Some h) \<Longrightarrow>
   map_option snd (seq_loop (\<lambda>it h. map_option (\<lambda>h'. (True, h')) (g it h)) its h) = Some h"
  by (induction its) auto

lemma message_release_same:
  assumes "field_array fs" "n_fields fs \<noteq> 0"
    and "\<And>k. k < n_fields fs \<Longrightarrow> g (iter_at fs d (local_size init_iter) k) h = Some h"
  shows "message_release g fs d h = Some h"
proof -
  have "map_option snd (seq_loop (\<lambda>it h. map_option (\<lambda>h'. (True, h')) (g it h))
    (map (iter_at fs d (local_size init_iter)) [0 ..< n_fields fs]) h) = Some h"
    by (rule seq_loop_same) (use assms(3) in auto)
  with assms(1,2) show ?thesis
    by (simp add: message_release_def iter_begin_at iter_loop_all)
qed

lemma release_submessages_same:
  assumes at: "at_field L d sz it f" and m: "mapped (bytes h) d sz"
    and sub: "\<And>gs d'. L gs (data_size f) \<Longrightarrow> mapped (bytes h) d' (data_size f) \<Longrightarrow> rel gs d' h = Some h"
    and "ltype f = PB_LTYPE_SUBMESSAGE"
  shows "release_submessages rel it f h = Some h"
proof -
  note f = at_fieldD [OF at]
  obtain gs where gs: "ptr f = FieldsPtr gs" "L gs (data_size f)" using f(7) assms(4) by blast
  have item: "rel gs (pData it + i * data_size f) h = Some h"
    if "i * data_size f + data_size f \<le> field_span f" for i
    using f(3,4) that by (intro sub [OF gs(2)] mapped_sub [OF m]) auto
  have items: "release_items c rel gs (data_size f) (pData it) h = Some h"
    if "c \<le> (if htype f = PB_HTYPE_REPEATED then array_size f else 1)" for c
  proof (rule release_items_same, rule item)
    fix i assume "i < c"
    then have "Suc i \<le> (if htype f = PB_HTYPE_REPEATED then array_size f else 1)" using that by linarith
    then show "i * data_size f + data_size f \<le> field_span f"
      using mult_le_mono2 [of "Suc i" "array_size f" "data_size f"]
      by (auto simp: field_span_def mult.commute split: if_splits)
  qed
  have "\<exists>c. load_count h it = Some c" if "htype f = PB_HTYPE_REPEATED"
    by (rule load_count_total [OF at m]) (simp add: slot_span_def that)
  then show ?thesis
    using items f(2) gs(1) by (auto simp: release_submessages_def Let_def simp del: release_items.simps)
qed

lemma pb_release_single_field_same:
  assumes at: "at_field L d sz it f" and m: "mapped (bytes h) d sz"
    and sub: "\<And>gs d'. L gs (data_size f) \<Longrightarrow> mapped (bytes h) d' (data_size f) \<Longrightarrow>
      message_release (pb_release_single_field n e) gs d' h = Some h"
  shows "pb_release_single_field (Suc n) e it h = Some h"
proof -
  have "\<exists>c. load_count h it = Some c" if "htype f = PB_HTYPE_ONEOF"
    by (rule load_count_total [OF at m]) (simp add: slot_span_def that)
  moreover have "ltype f = PB_LTYPE_SUBMESSAGE \<Longrightarrow>
    release_submessages (message_release (pb_release_single_field n e)) it f h = Some h"
    by (rule release_submessages_same [OF at m]) (use sub in auto)
  ultimately show ?thesis
    using at_fieldD [OF at] by (auto split: if_splits)
qed

lemma message_release_static:
  "static_layout n fs sz \<Longrightarrow> mapped (bytes h) d sz \<Longrightarrow>
   message_release (pb_release_single_field n e) fs d h = Some h"
proof (induction n arbitrary: fs sz d)
  case (Suc n)
  show ?case
  proof (rule message_release_same)
    fix k assume "k < n_fields fs"
    then show "pb_release_single_field (Suc n) e (iter_at fs d (local_size init_iter) k) h = Some h"
      using Suc by (intro pb_release_single_field_same [OF iter_at_field [where L = "static_layout n"]]) auto
  qed (use Suc.prems in \<open>auto simp: static_message_def\<close>)
qed simp

lemma release_field_static:
  "at_field (static_layout n) d sz it f \<Longrightarrow> mapped (bytes h) d sz \<Longrightarrow>
   pb_release_single_field (Suc n) e it h = Some h"
  by (erule pb_release_single_field_same) (auto intro: message_release_static)


subsection \<open>The iterator of the decoder\<close>

text \<open>
  Between two rounds the iterator stands on some field; its size pointer may still be the local
  counter of a fixed-count array.
\<close>

definition iter_ok :: "pb_field list \<Rightarrow> addr \<Rightarrow> pb_field_iter \<Rightarrow> bool" where
  "iter_ok fs d it \<longleftrightarrow> (\<exists>k < n_fields fs. \<exists>l. it = iter_at fs d l k \<or>
     it = (iter_at fs d l k)\<lparr>pSize := AtLocal\<rparr> \<and> htype (fs ! k) = PB_HTYPE_REPEATED)"

lemma iter_ok_at [intro]: "k < n_fields fs \<Longrightarrow> iter_ok fs d (iter_at fs d l k)"
  by (auto simp: iter_ok_def)

lemma iter_ok_local: "iter_ok fs d it \<Longrightarrow> iter_ok fs d (it\<lparr>local_size := x\<rparr>)"
  unfolding iter_ok_def by (fastforce simp: iter_at_def)

lemma iter_ok_field:
  assumes "static_message L fs sz" "iter_ok fs d it"
  shows "\<exists>f. at_field L d sz it f"
proof -
  obtain k l where k: "k < n_fields fs" "it = iter_at fs d l k \<or>
     it = (iter_at fs d l k)\<lparr>pSize := AtLocal\<rparr> \<and> htype (fs ! k) = PB_HTYPE_REPEATED"
    using assms(2) by (auto simp: iter_ok_def)
  from iter_at_field [OF assms(1) k(1)] k(2) show ?thesis by (auto intro: at_field_local)
qed

lemma iter_next_AtLocal:
  assumes "htype (fs ! k) = PB_HTYPE_REPEATED" "k < n_fields fs" "field_array fs"
  shows "pb_field_iter_next ((iter_at fs d l k)\<lparr>pSize := AtLocal\<rparr>) = pb_field_iter_next (iter_at fs d l k)"
proof -
  have "\<not> inside_union (fs ! k) g" for g using assms(1) by (simp add: inside_union_def)
  moreover have "tag (fs ! k) \<noteq> 0" using field_array_tag [OF assms(3), of k] assms(2) by auto
  ultimately show ?thesis
    using assms(2) by (auto simp: pb_field_iter_next_def iter_at_def cur_def pb_field_iter_begin_def Let_def
        split: list.splits)
qed

lemma iter_find_AtLocal:
  assumes "htype (fs ! k) = PB_HTYPE_REPEATED" "k < n_fields fs" "field_array fs" "\<not> has_tag fs t k"
  shows "pb_field_iter_find ((iter_at fs d l k)\<lparr>pSize := AtLocal\<rparr>) t = pb_field_iter_find (iter_at fs d l k) t"
proof -
  have "length fs = Suc (n_fields fs)" "k < length fs" using assms(2) by auto
  then show ?thesis
    using assms iter_next_AtLocal [OF assms(1-3), of d l] cur_iter_at [of k fs d l]
    by (cases "length fs") (auto simp: pb_field_iter_find_def has_tag_def)
qed

lemma iter_find_ok:
  assumes "field_array fs" "iter_ok fs d it"
  shows "\<exists>found it'. pb_field_iter_find it t = Some (found, it') \<and> iter_ok fs d it'"
proof -
  obtain k l where k: "k < n_fields fs" and it: "it = iter_at fs d l k \<or>
     it = (iter_at fs d l k)\<lparr>pSize := AtLocal\<rparr> \<and> htype (fs ! k) = PB_HTYPE_REPEATED"
    using assms(2) by (auto simp: iter_ok_def)
  have plain: "\<exists>found it'. pb_field_iter_find (iter_at fs d l k) t = Some (found, it') \<and> iter_ok fs d it'"
    using iter_find_at_hit [OF assms(1) k, of t d l] iter_find_at_miss [OF assms(1) k, of t d l] k by blast
  show ?thesis
  proof (cases "has_tag fs t k")
    case True
    have "length fs = Suc (n_fields fs)" "k < length fs" using k by auto
    with True it have "pb_field_iter_find it t = Some (True, it)"
      by (cases "length fs") (auto simp: pb_field_iter_find_def has_tag_def cur_iter_at)
    with assms(2) show ?thesis by blast
  next
    case False
    with plain it iter_find_AtLocal [OF _ k assms(1) False] show ?thesis by metis
  qed
qed


lemma find_extension_from:
  assumes fa: "field_array fs" and none: "\<And>j. j < n_fields fs \<Longrightarrow> ltype (fs ! j) \<noteq> PB_LTYPE_EXTENSION"
    and "k < n_fields fs" "first < n_fields fs" "k < first \<longrightarrow> first - k \<le> fuel"
    "first \<le> k \<longrightarrow> n_fields fs - k + first \<le> fuel"
  shows "find_extension_loop fuel first (iter_at fs d l k) = Some (False, iter_at fs d l first)"
  using assms(3-)
proof (induction fuel arbitrary: k)
  case 0
  then show ?case by auto
next
  case (Suc fuel)
  let ?k = "if Suc k < n_fields fs then Suc k else 0"
  have step: "find_extension_loop (Suc fuel) first (iter_at fs d l k) =
    (if ?k \<noteq> first then find_extension_loop fuel first (iter_at fs d l ?k) else Some (False, iter_at fs d l ?k))"
    using none [OF Suc.prems(1)] iter_next_at [OF fa Suc.prems(1), of d l] Suc.prems(1) cur_iter_at [of k fs d l]
    by auto
  show ?case
  proof (cases "?k = first")
    case True
    then show ?thesis using step by auto
  next
    case False
    have "find_extension_loop fuel first (iter_at fs d l ?k) = Some (False, iter_at fs d l first)"
      using False Suc.prems by (intro Suc.IH) (auto split: if_splits)
    with False step show ?thesis by simp
  qed
qed

lemma find_extension_none:
  assumes fa: "field_array fs" and none: "\<And>j. j < n_fields fs \<Longrightarrow> ltype (fs ! j) \<noteq> PB_LTYPE_EXTENSION"
    and ok: "iter_ok fs d it"
  shows "\<exists>it'. find_extension_field it = Some (False, it') \<and> iter_ok fs d it'"
proof -
  obtain k l where k: "k < n_fields fs" and it: "it = iter_at fs d l k \<or>
     it = (iter_at fs d l k)\<lparr>pSize := AtLocal\<rparr> \<and> htype (fs ! k) = PB_HTYPE_REPEATED"
    using ok by (auto simp: iter_ok_def)
  obtain m where m: "length fs = Suc m" using k by (cases "length fs") auto
  have "find_extension_field it = find_extension_loop (length fs) k (iter_at fs d l k)"
    using it iter_next_AtLocal [OF _ k fa, of d l] none [OF k] k m
    by (auto simp: find_extension_field_def cur_iter_at)
  then show ?thesis using find_extension_from [OF fa none k k, of "length fs" d l] k m by auto
qed


subsection \<open>Fields\<close>

definition safe_field ::
  "pb_field list \<Rightarrow> addr \<Rightarrow> nat \<Rightarrow> 'u istream \<Rightarrow> heap \<Rightarrow> 'u field_result \<Rightarrow> bool" where
  "safe_field fs d sz s h r \<longleftrightarrow> (\<exists>ok s' h' it. r = Some (ok, s', h', it) \<and> confined d sz h h' \<and>
     (if ok then reads s s' else inside s s') \<and> iter_ok fs d it)"

lemma safe_field_Some: "safe_field fs d sz s h (Some (ok, s', h', it)) \<longleftrightarrow>
  confined d sz h h' \<and> (if ok then reads s s' else inside s s') \<and> iter_ok fs d it"
  by (simp add: safe_field_def)

lemma safe_field_step:
  assumes "safe_field fs d sz s' h' r" "reads s s'" "confined d sz h h'"
  shows "safe_field fs d sz s h r"
proof -
  obtain ok t k it where r: "r = Some (ok, t, k, it)" and c: "confined d sz h' k" and i: "iter_ok fs d it"
    and t: "if ok then reads s' t else inside s' t"
    using assms(1) by (auto simp: safe_field_def)
  have "if ok then reads s t else inside s t"
    using t assms(2) reads_trans inside_trans reads_inside by (cases ok) (simp, blast)+
  then show ?thesis using r i confined_trans [OF assms(3) c] by (simp add: safe_field_Some)
qed

lemma with_iter_safe: "safe d sz s h r \<Longrightarrow> iter_ok fs d it \<Longrightarrow> safe_field fs d sz s h (with_iter it r)"
  by (auto simp: safe_def safe_field_def with_iter_def)

text \<open>
  What a level of the decoder relies on: the decoder of submessages is safe on the layouts \<open>L\<close>,
  setting a message to its defaults stays inside it, and releasing a static message or field
  changes nothing.
\<close>

locale static_decoder =
  fixes L :: "pb_field list \<Rightarrow> nat \<Rightarrow> bool" and n :: nat and e :: "'u dec_env" and rec :: "'u decode_rec"
  assumes rec_safe: "L gs sz \<Longrightarrow> good_in s \<Longrightarrow> mapped (bytes h) d sz \<Longrightarrow> safe d sz s h (rec s h gs d)"
    and defaults_safe: "L gs sz \<Longrightarrow> mapped (bytes h) d sz \<Longrightarrow>
      safe_heap d sz h (pb_message_set_to_defaults n e gs d h)"
    and release_message: "L gs sz \<Longrightarrow> mapped (bytes h) d sz \<Longrightarrow> pb_release n e gs d h = Some h"
    and release_field: "at_field L d sz it f \<Longrightarrow> mapped (bytes h) d sz \<Longrightarrow>
      pb_release_single_field n e it h = Some h"
begin

lemma decode_init_safe:
  assumes "L gs sz" "good_in s" "mapped (bytes h) d sz"
  shows "safe d sz s h (decode_init n e rec s h gs d)"
  unfolding decode_init_def
proof (rule safe_bind_heap [OF defaults_safe [OF assms(1,3)]])
  fix h' assume c: "confined d sz h h'"
  then have m: "mapped (bytes h') d sz" using assms(3) confined_mapped by simp
  obtain ok s' h'' where r: "rec s h' gs d = Some (ok, s', h'')" "confined d sz h' h''"
    "if ok then reads s s' else inside s s'"
    using rec_safe [OF assms(1,2) m] by (auto simp: safe_def)
  have "pb_release n e gs d h'' = Some h''"
    using release_message [OF assms(1)] m confined_mapped [OF r(2)] by simp
  with r show "safe d sz s h' (case rec s h' gs d of None \<Rightarrow> None
    | Some (status, s, h) \<Rightarrow> if status then Some (True, s, h)
        else map_option (\<lambda>h'. (False, s, h')) (pb_release n e gs d h))"
    by (auto simp: safe_Some)
qed

lemma pb_dec_submessage_safe:
  assumes "good_in s" "mapped (bytes h) dest (data_size f)" "ptr f = FieldsPtr gs" "L gs (data_size f)"
  shows "safe dest (data_size f) s h (pb_dec_submessage n e rec s h f dest)"
proof -
  obtain ok s1 sub where mk: "pb_make_string_substream s = Some (ok, s1, sub)"
    "if ok then \<exists>k n. opened s s1 sub k n else reads s s1"
    using pb_make_string_substream_reads [OF assms(1)] by blast
  show ?thesis
  proof (cases ok)
    case False
    with mk show ?thesis by (simp add: pb_dec_submessage_def safe_Some reads_inside)
  next
    case True
    then obtain k m where op: "opened s s1 sub k m" using mk by auto
    let ?r = "if htype f = PB_HTYPE_REPEATED then decode_init n e rec sub h gs dest else rec sub h gs dest"
    have "safe dest (data_size f) sub h ?r"
      using decode_init_safe rec_safe opened_good(1) [OF op assms(1)] assms(2,4) by simp
    then obtain status sub' h' where r: "?r = Some (status, sub', h')" "confined dest (data_size f) h h'"
      "if status then reads sub sub' else inside sub sub'" by (auto simp: safe_def)
    show ?thesis
    proof (cases status)
      case True
      with opened_close_reads [OF op assms(1)] r mk \<open>ok\<close> assms(3) show ?thesis
        by (fastforce simp: pb_dec_submessage_def safe_Some)
    next
      case False
      with opened_close_inside [OF op assms(1)] r mk \<open>ok\<close> assms(3) show ?thesis
        by (fastforce simp: pb_dec_submessage_def safe_Some)
    qed
  qed
qed

lemma item_safe:
  assumes "at_field L d sz it f" "good_in s" "mapped (bytes h) dest (data_size f)"
  shows "safe dest (data_size f) s h (PB_DECODERS n e rec (ltype f) s h f dest)"
proof (cases "ltype f = PB_LTYPE_SUBMESSAGE")
  case True
  then obtain gs where "ptr f = FieldsPtr gs" "L gs (data_size f)"
    using at_fieldD(7) [OF assms(1)] by blast
  from pb_dec_submessage_safe [OF assms(2,3) this] True show ?thesis by (simp add: PB_DECODERS_def)
next
  case False
  then show ?thesis
    using scalar_item_safe [OF assms(2,3)] at_fieldD(2,8) [OF assms(1)] by blast
qed


lemma element_safe:
  assumes at: "at_field L d sz it f" and s: "good_in s" and m: "mapped (bytes h) d sz"
    and rep: "htype f = PB_HTYPE_REPEATED" "i < array_size f"
  shows "safe d sz s h (PB_DECODERS n e rec (ltype f) s h f (item_addr (pData it) f i))"
proof -
  note f = at_fieldD [OF at]
  have "data_size f * i + data_size f \<le> data_size f * array_size f"
    using mult_le_mono2 [of "Suc i" "array_size f" "data_size f"] rep(2) by simp
  moreover from this have "data_size f * i < 2 ^ 32" using f(5) by linarith
  then have "item_addr (pData it) f i = pData it + data_size f * i"
    by (simp add: item_addr_def u32_small)
  ultimately have inner: "d \<le> item_addr (pData it) f i" "item_addr (pData it) f i + data_size f \<le> d + sz"
    using f(3,4) rep(1) by (simp_all add: field_span_def)
  show ?thesis
    by (rule safe_mono [OF item_safe [OF at s mapped_sub [OF m inner]] inner])
qed

lemma single_safe:
  assumes at: "at_field L d sz it f" and s: "good_in s" and m: "mapped (bytes h) d sz"
    and "htype f \<noteq> PB_HTYPE_REPEATED"
  shows "safe d sz s h (PB_DECODERS n e rec (ltype f) s h f (pData it))"
proof -
  have inner: "d \<le> pData it" "pData it + data_size f \<le> d + sz"
    using at_fieldD(3,4) [OF at] assms(4) by (simp_all add: field_span_def)
  show ?thesis
    by (rule safe_mono [OF item_safe [OF at s mapped_sub [OF m inner]] inner])
qed

end

lemma store_signed_stream: "store_signed s h n dest v = Some (True, s', h') \<Longrightarrow> s' = s"
  by (auto simp: store_signed_def ierror_def split: if_splits option.splits)

lemma store_unsigned_stream: "store_unsigned s h n dest v = Some (True, s', h') \<Longrightarrow> s' = s"
  by (auto simp: store_unsigned_def ierror_def split: if_splits option.splits)

lemma packable_decreases:
  assumes "good_in s" "ltype f \<le> PB_LTYPE_LAST_PACKABLE"
    and "PB_DECODERS n e rec (ltype f) s h f dest = Some (True, s', h')"
  shows "bytes_left s' < bytes_left s"
proof -
  obtain ok v t where t: "pb_decode_varint s = Some (ok, v, t)" "ok \<longrightarrow> bytes_left t < bytes_left s"
    using pb_decode_varint_reads [OF assms(1)] by blast
  have "ltype f = 0 \<or> ltype f = 1 \<or> ltype f = 2 \<or> ltype f = 3 \<or> ltype f = 4"
    using assms(2) unfolding word_le_nat_alt word_unat_eq_iff by simp linarith
  then consider "pb_dec_varint s h f dest = Some (True, s', h')" | "pb_dec_uvarint s h f dest = Some (True, s', h')"
    | "pb_dec_svarint s h f dest = Some (True, s', h')" | "pb_dec_fixed32 s h f dest = Some (True, s', h')"
    | "pb_dec_fixed64 s h f dest = Some (True, s', h')"
    using assms(3) by (auto simp: PB_DECODERS_def)
  then show ?thesis
  proof cases
    case 1
    with t show ?thesis
      by (auto simp: pb_dec_varint_def Let_def dest!: store_signed_stream split: if_splits)
  next
    case 2
    with t show ?thesis by (auto simp: pb_dec_uvarint_def dest!: store_unsigned_stream split: if_splits)
  next
    case 3
    with t show ?thesis
      by (auto simp: pb_dec_svarint_def pb_decode_svarint_def dest!: store_signed_stream split: if_splits)
  qed (use assms(1) in \<open>auto simp: pb_dec_fixed32_def pb_dec_fixed64_def pb_decode_fixed32_buffer
      pb_decode_fixed64_buffer split: if_splits\<close>)
qed

context static_decoder begin

lemma packed_static_safe:
  assumes "at_field L d sz it f" "iter_ok fs d it" "good_in sub" "mapped (bytes h) d sz"
    and "htype f = PB_HTYPE_REPEATED" "ltype f \<le> PB_LTYPE_LAST_PACKABLE" "bytes_left sub < fuel"
  shows "safe_field fs d sz sub h
    (packed_static fuel (PB_DECODERS n e rec (ltype f)) sub h f it)"
  using assms
proof (induction fuel arbitrary: sub h it)
  case (Suc fuel)
  note at = Suc.prems(1) and m = Suc.prems(4) and rep = Suc.prems(5)
  have slot: "slot_span f = 4" using rep by (simp add: slot_span_def)
  obtain c where c: "load_count h it = Some c" using load_count_total [OF at m slot] by blast
  show ?case
  proof (cases "bytes_left sub > 0 \<and> c < array_size f")
    case False
    then have "packed_static (Suc fuel) (PB_DECODERS n e rec (ltype f)) sub h f it = Some (True, sub, h, it)"
      using c by auto
    then show ?thesis using Suc.prems(2) by (simp add: safe_field_Some)
  next
    case True
    obtain ok t h1 where t: "PB_DECODERS n e rec (ltype f) sub h f (item_addr (pData it) f c) = Some (ok, t, h1)"
      "confined d sz h h1" "if ok then reads sub t else inside sub t"
      using element_safe [OF at Suc.prems(3) m rep, of c] True unfolding safe_def by blast
    show ?thesis
    proof (cases ok)
      case False
      with t c True Suc.prems(2) show ?thesis by (simp add: safe_field_Some)
    next
      case ok: True
      have m1: "mapped (bytes h1) d sz" using m confined_mapped [OF t(2)] by simp
      obtain c1 where c1: "load_count h1 it = Some c1" using load_count_total [OF at m1 slot] by blast
      obtain h2 l where h2: "store_count h1 it (u32 (c1 + 1)) = Some (h2, it\<lparr>local_size := l\<rparr>)" "confined d sz h1 h2"
        using store_count_safe [OF at m1 slot] by blast
      have "bytes_left t < bytes_left sub"
        using packable_decreases [OF Suc.prems(3,6), of n e rec h "item_addr (pData it) f c" t h1] t(1) ok
        by simp
      then have "safe_field fs d sz t h2
        (packed_static fuel (PB_DECODERS n e rec (ltype f)) t h2 f (it\<lparr>local_size := l\<rparr>))"
        using Suc.prems t(3) ok m1 confined_mapped [OF h2(2)] reads_good
        by (intro Suc.IH at_field_local(1) iter_ok_local) auto
      then have "safe_field fs d sz sub h
        (packed_static fuel (PB_DECODERS n e rec (ltype f)) t h2 f (it\<lparr>local_size := l\<rparr>))"
        using t ok by (intro safe_field_step [OF _ _ confined_trans [OF t(2) h2(2)]]) auto
      with t(1) c c1 h2(1) ok True show ?thesis by simp
    qed
  qed
qed simp


lemma packed_field_safe:
  assumes at: "at_field L d sz it f" and it: "iter_ok fs d it" and s: "good_in s"
    and m: "mapped (bytes h) d sz"
    and rep: "htype f = PB_HTYPE_REPEATED" "ltype f \<le> PB_LTYPE_LAST_PACKABLE"
  shows "safe_field fs d sz s h (decode_static_field n e rec s h PB_WT_STRING it)"
proof -
  obtain ok s1 sub where mk: "pb_make_string_substream s = Some (ok, s1, sub)"
    "if ok then \<exists>k n. opened s s1 sub k n else reads s s1"
    using pb_make_string_substream_reads [OF s] by blast
  show ?thesis
  proof (cases ok)
    case False
    with mk at_fieldD(1) [OF at] rep it show ?thesis
      by (simp add: decode_static_field_def Let_def safe_field_Some reads_inside)
  next
    case True
    then obtain k j where op: "opened s s1 sub k j" using mk by auto
    have "safe_field fs d sz sub h
      (packed_static (Suc (bytes_left sub)) (PB_DECODERS n e rec (ltype f)) sub h f it)"
      using opened_good(1) [OF op s] by (intro packed_static_safe [OF at it _ m rep]) auto
    then obtain status sub' h' it' where r:
      "packed_static (Suc (bytes_left sub)) (PB_DECODERS n e rec (ltype f)) sub h f it = Some (status, sub', h', it')"
      "confined d sz h h'" "if status then reads sub sub' else inside sub sub'" "iter_ok fs d it'"
      by (auto simp: safe_field_def)
    have "inside sub sub'" using r(3) reads_inside by (cases status) auto
    from opened_close_inside [OF op s this] obtain s2 where
      s2: "pb_close_string_substream s1 sub' = Some (True, s2)" "inside s s2" by blast
    moreover have "status \<Longrightarrow> reads s s2" using opened_close_reads [OF op s, of sub'] r(3) s2(1) by auto
    moreover have "inside s (set_ierror s1 ''array overflow'')" by (rule inside_error [OF opened_inside [OF op]])
    ultimately show ?thesis
      using mk(1) True r at_fieldD(1) [OF at] rep
      by (simp add: decode_static_field_def Let_def safe_field_Some del: packed_static.simps)
  qed
qed

lemma array_field_safe:
  assumes at: "at_field L d sz it f" and it: "iter_ok fs d it" and s: "good_in s"
    and m: "mapped (bytes h) d sz"
    and rep: "htype f = PB_HTYPE_REPEATED" "\<not> (wt = PB_WT_STRING \<and> ltype f \<le> PB_LTYPE_LAST_PACKABLE)"
  shows "safe_field fs d sz s h (decode_static_field n e rec s h wt it)"
proof -
  have slot: "slot_span f = 4" using rep by (simp add: slot_span_def)
  obtain c where c: "load_count h it = Some c" using load_count_total [OF at m slot] by blast
  obtain h1 l where h1: "store_count h it (u32 (c + 1)) = Some (h1, it\<lparr>local_size := l\<rparr>)" "confined d sz h h1"
    using store_count_safe [OF at m slot] by blast
  let ?it = "it\<lparr>local_size := l\<rparr>"
  have m1: "mapped (bytes h1) d sz" using m confined_mapped [OF h1(2)] by simp
  have "safe_field fs d sz s h1
    (with_iter ?it (PB_DECODERS n e rec (ltype f) s h1 f (item_addr (pData it) f c)))" if "c < array_size f"
    using element_safe [OF at_field_local(1) [OF at, of l] s m1 rep(1) that] iter_ok_local [OF it]
    by (intro with_iter_safe) auto
  from safe_field_step [OF this reads_refl h1(2)] show ?thesis
    using c h1 rep at_fieldD(1) [OF at] iter_ok_local [OF it, of l]
    by (auto simp: decode_static_field_def Let_def safe_field_Some inside_error)
qed

lemma optional_field_safe:
  assumes at: "at_field L d sz it f" and it: "iter_ok fs d it" and s: "good_in s"
    and m: "mapped (bytes h) d sz" and opt: "htype f = PB_HTYPE_OPTIONAL"
  shows "safe_field fs d sz s h (decode_static_field n e rec s h wt it)"
proof -
  obtain a where a: "pSize it = AtAddr a"
    using at opt by (cases "pSize it") (auto simp: at_field_def)
  have "safe_heap d sz h (if a \<noteq> pData it then hstore h a [1] else Some h)"
    using slot_store_safe [OF at m a, of "[1]"] opt by (auto simp: slot_span_def)
  then obtain h1 where h1: "(if a \<noteq> pData it then hstore h a [1] else Some h) = Some h1" "confined d sz h h1"
    by (auto simp: safe_heap_def)
  have "mapped (bytes h1) d sz" using m confined_mapped [OF h1(2)] by simp
  then have "safe_field fs d sz s h1 (with_iter it (PB_DECODERS n e rec (ltype f) s h1 f (pData it)))"
    using single_safe [OF at s] opt it by (intro with_iter_safe) auto
  from safe_field_step [OF this reads_refl h1(2)] show ?thesis
    using h1(1) a opt at_fieldD(1) [OF at] by (simp add: decode_static_field_def Let_def)
qed


lemma clear_submessage_safe:
  assumes at: "at_field L d sz it f" and m: "mapped (bytes h) d sz"
    and "ltype f = PB_LTYPE_SUBMESSAGE" and one: "htype f = PB_HTYPE_ONEOF"
  shows "safe_heap d sz h (clear_submessage n e f (pData it) h)"
proof -
  have inner: "d \<le> pData it" "pData it + data_size f \<le> d + sz"
    using at_fieldD(3,4) [OF at] one by (simp_all add: field_span_def)
  obtain gs where gs: "ptr f = FieldsPtr gs" "L gs (data_size f)"
    using at_fieldD(7) [OF at] assms(3) by blast
  have "safe_heap d sz h' (pb_message_set_to_defaults n e gs (pData it) h')" if "confined d sz h h'" for h'
    using mapped_sub [OF m inner] confined_mapped [OF that] inner
    by (intro safe_heap_mono [OF defaults_safe [OF gs(2)]]) auto
  then show ?thesis
    using gs(1) m inner by (auto simp: clear_submessage_def intro!: safe_heap_bind hstore_safe)
qed

lemma oneof_field_safe:
  assumes at: "at_field L d sz it f" and it: "iter_ok fs d it" and s: "good_in s"
    and m: "mapped (bytes h) d sz" and one: "htype f = PB_HTYPE_ONEOF"
  shows "safe_field fs d sz s h (decode_static_field n e rec s h wt it)"
proof -
  have slot: "slot_span f = 4" using one by (simp add: slot_span_def)
  obtain h1 l where h1: "store_count h it (tag f) = Some (h1, it\<lparr>local_size := l\<rparr>)" "confined d sz h h1"
    using store_count_safe [OF at m slot] by blast
  let ?it = "it\<lparr>local_size := l\<rparr>"
  let ?init = "if ltype f = PB_LTYPE_SUBMESSAGE then clear_submessage n e f (pData it) h1 else Some h1"
  have m1: "mapped (bytes h1) d sz" using m confined_mapped [OF h1(2)] by simp
  have "safe_heap d sz h1 ?init" using clear_submessage_safe [OF at m1 _ one] by simp
  then obtain h2 where h2: "?init = Some h2" "confined d sz h1 h2" by (auto simp: safe_heap_def)
  have "mapped (bytes h2) d sz" using m1 confined_mapped [OF h2(2)] by simp
  then have "safe_field fs d sz s h2 (with_iter ?it (PB_DECODERS n e rec (ltype f) s h2 f (pData it)))"
    using single_safe [OF at s] one iter_ok_local [OF it] by (intro with_iter_safe) auto
  from safe_field_step [OF this reads_refl confined_trans [OF h1(2) h2(2)]] show ?thesis
    using h1(1) h2(1) one at_fieldD(1) [OF at]
    by (simp add: decode_static_field_def Let_def split: if_splits)
qed

lemma decode_static_field_safe:
  assumes at: "at_field L d sz it f" and it: "iter_ok fs d it" and s: "good_in s"
    and m: "mapped (bytes h) d sz"
  shows "safe_field fs d sz s h (decode_static_field n e rec s h wt it)"
proof -
  consider "htype f = PB_HTYPE_REQUIRED" | "htype f = PB_HTYPE_OPTIONAL" | "htype f = PB_HTYPE_ONEOF"
    | "htype f = PB_HTYPE_REPEATED" "wt = PB_WT_STRING \<and> ltype f \<le> PB_LTYPE_LAST_PACKABLE"
    | "htype f = PB_HTYPE_REPEATED" "\<not> (wt = PB_WT_STRING \<and> ltype f \<le> PB_LTYPE_LAST_PACKABLE)"
    using htype_cases [of "ftype f"] by auto
  then show ?thesis
  proof cases
    case 1
    have "safe_field fs d sz s h (with_iter it (PB_DECODERS n e rec (ltype f) s h f (pData it)))"
      using 1 by (intro with_iter_safe single_safe [OF at s m] it) auto
    with 1 at_fieldD(1) [OF at] show ?thesis by (simp add: decode_static_field_def Let_def)
  qed (use packed_field_safe [OF at it s m] array_field_safe [OF at it s m]
      optional_field_safe [OF at it s m] oneof_field_safe [OF at it s m] in auto)
qed

lemma release_union_safe:
  assumes fa: "static_message L fs sz" and it: "iter_ok fs d it" and m: "mapped (bytes h) d sz"
    and at: "at_field L d sz it f" "htype f = PB_HTYPE_ONEOF"
  shows "\<exists>ok s' it'. pb_release_union_field n e s h it = Some (ok, s', h, it') \<and>
    (if ok then s' = s else inside s s') \<and> iter_ok fs d it'"
proof -
  have fa': "field_array fs" using fa by (simp add: static_message_def)
  obtain old where old: "load_count h it = Some old"
    using load_count_total [OF at(1) m] at(2) by (auto simp: slot_span_def)
  obtain b1 it1 where f1: "pb_field_iter_find it old = Some (b1, it1)" "iter_ok fs d it1"
    using iter_find_ok [OF fa' it] by blast
  obtain g where "at_field L d sz it1 g" using iter_ok_field [OF fa f1(2)] by blast
  from release_field [OF this m] have rel: "pb_release_single_field n e it1 h = Some h" .
  obtain b2 it2 where f2: "pb_field_iter_find it1 (tag f) = Some (b2, it2)" "iter_ok fs d it2"
    using iter_find_ok [OF fa' f1(2)] by blast
  show ?thesis
    using old f1 f2 rel it at_fieldD(1) [OF at(1)]
    by (auto simp: pb_release_union_field_def Let_def inside_error)
qed

lemma decode_field_safe:
  assumes fa: "static_message L fs sz" and it: "iter_ok fs d it" and s: "good_in s"
    and m: "mapped (bytes h) d sz"
  shows "safe_field fs d sz s h (decode_field n e rec s h wt it)"
proof -
  obtain f where f: "at_field L d sz it f" using iter_ok_field [OF fa it] by blast
  let ?r = "if htype f = PB_HTYPE_ONEOF then pb_release_union_field n e s h it else Some (True, s, h, it)"
  have "\<exists>ok s' it'. ?r = Some (ok, s', h, it') \<and> (if ok then s' = s else inside s s') \<and> iter_ok fs d it'"
    using release_union_safe [OF fa it m f] it by auto
  then obtain ok s' it' where r: "?r = Some (ok, s', h, it')" "if ok then s' = s else inside s s'"
    "iter_ok fs d it'" by blast
  obtain g where g: "at_field L d sz it' g" using iter_ok_field [OF fa r(3)] by blast
  show ?thesis
    using r decode_static_field_safe [OF g r(3) s m] at_fieldD(1) [OF f] at_fieldD(1,2) [OF g]
    by (auto simp: decode_field_def safe_field_Some split: if_splits)
qed


end

subsection \<open>The decoding loop\<close>

lemma iter_ok_AtLocal:
  assumes "iter_ok fs d it" "cur it = Some f" "htype f = PB_HTYPE_REPEATED"
  shows "iter_ok fs d (it\<lparr>pSize := AtLocal\<rparr>)"
proof -
  obtain k l where k: "k < n_fields fs" "it = iter_at fs d l k \<or>
     it = (iter_at fs d l k)\<lparr>pSize := AtLocal\<rparr> \<and> htype (fs ! k) = PB_HTYPE_REPEATED"
    using assms(1) by (auto simp: iter_ok_def)
  moreover from this assms(2) have "fs ! k = f" by (auto simp: cur_def split: if_splits)
  ultimately have "it\<lparr>pSize := AtLocal\<rparr> = (iter_at fs d l k)\<lparr>pSize := AtLocal\<rparr>"
    "htype (fs ! k) = PB_HTYPE_REPEATED" using assms(3) by auto
  with k(1) show ?thesis unfolding iter_ok_def by blast
qed

definition safe_round ::
  "pb_field list \<Rightarrow> addr \<Rightarrow> nat \<Rightarrow> 'u istream \<Rightarrow> heap \<Rightarrow> 'u loop_step option \<Rightarrow> bool" where
  "safe_round fs d sz s h r \<longleftrightarrow>
     (case r of
        None \<Rightarrow> False
      | Some (Continue l) \<Rightarrow> reads s (lstream l) \<and> confined d sz h (lheap l) \<and> iter_ok fs d (liter l)
      | Some (Break l) \<Rightarrow> reads s (lstream l) \<and> confined d sz h (lheap l) \<and> iter_ok fs d (liter l)
      | Some (Return l) \<Rightarrow> inside s (lstream l) \<and> confined d sz h (lheap l))"

lemma safe_round_step:
  assumes "safe_round fs d sz s' h r" "reads s s'"
  shows "safe_round fs d sz s h r"
  using assms reads_trans [OF assms(2)] inside_trans [OF reads_inside [OF assms(2)]]
  by (auto simp: safe_round_def split: option.splits loop_step.splits)

lemma pb_decode_tag_bound: "pb_decode_tag s = Some (tr, s') \<Longrightarrow> tr_tag tr < 2 ^ 29"
proof -
  assume "pb_decode_tag s = Some (tr, s')"
  then obtain w :: "32 word" where "tr_tag tr = 0 \<or> tr_tag tr = unat (drop_bit 3 w)"
    by (fastforce simp: pb_decode_tag_def split: option.splits if_splits)
  moreover have "unat (drop_bit 3 w) < 2 ^ 29"
    using unat_u32_less [of w] by (simp add: unat_drop_bit_div less_mult_imp_div_less)
  ultimately show ?thesis by auto
qed

lemma unknown_field_safe:
  assumes fa: "field_array fs" and none: "\<And>j. j < n_fields fs \<Longrightarrow> ltype (fs ! j) \<noteq> PB_LTYPE_EXTENSION"
    and it: "iter_ok fs d (liter l)" and s: "good_in (lstream l)" and t: "t < 2 ^ 29"
  shows "safe_round fs d sz (lstream l) (lheap l) (unknown_field n e rec l t wt)"
proof -
  obtain ok s' where sk: "pb_skip_field (lstream l) wt = Some (ok, s')" "reads (lstream l) s'"
    using pb_skip_field_reads [OF s] by blast
  obtain it' where fe: "find_extension_field (liter l) = Some (False, it')" "iter_ok fs d it'"
    using find_extension_none [OF fa none it] by blast
  show ?thesis
    using sk fe it t reads_inside [OF sk(2)]
    by (auto simp: unknown_field_def Let_def safe_round_def)
qed

context static_decoder begin

lemma known_field_safe:
  assumes fa: "static_message L fs sz" and it: "iter_ok fs d (liter l)" and s: "good_in (lstream l)"
    and m: "mapped (bytes (lheap l)) d sz"
  shows "safe_round fs d sz (lstream l) (lheap l) (known_field n e rec l wt)"
proof -
  obtain f where f: "cur (liter l) = Some f" using iter_ok_field [OF fa it] at_fieldD(1) by blast
  let ?l = "mark_required (use_local_count l f) f"
  have same: "lstream ?l = lstream l" "lheap ?l = lheap l"
    by (simp_all add: mark_required_def use_local_count_def Let_def)
  have it1: "iter_ok fs d (liter ?l)"
    using it f by (auto simp: mark_required_def use_local_count_def fixed_count_def Let_def
        intro!: iter_ok_AtLocal iter_ok_local)
  have "safe_field fs d sz (lstream l) (lheap l) (decode_field n e rec (lstream l) (lheap l) wt (liter ?l))"
    by (rule decode_field_safe [OF fa it1 s m])
  then show ?thesis
    using f same by (auto simp: known_field_def Let_def safe_field_def safe_round_def inside_error)
qed

lemma decode_step_safe:
  assumes fa: "static_message L fs sz" and it: "iter_ok fs d (liter l)" and s: "good_in (lstream l)"
    and m: "mapped (bytes (lheap l)) d sz"
  shows "safe_round fs d sz (lstream l) (lheap l) (decode_step n e rec l)"
    and "decode_step n e rec l = Some (Continue l') \<Longrightarrow> bytes_left (lstream l') < bytes_left (lstream l)"
proof -
  obtain tr s' where tr: "pb_decode_tag (lstream l) = Some (tr, s')" "reads (lstream l) s'"
    "tr_ok tr \<longrightarrow> bytes_left s' < bytes_left (lstream l)"
    using pb_decode_tag_reads [OF s] by blast
  have fa': "field_array fs" using fa by (simp add: static_message_def)
  have none: "ltype (fs ! j) \<noteq> PB_LTYPE_EXTENSION" if "j < n_fields fs" for j
    using at_fieldD(6) [OF iter_at_field [OF fa that]] .
  obtain found it' where fi: "pb_field_iter_find (liter l) (tr_tag tr) = Some (found, it')" "iter_ok fs d it'"
    using iter_find_ok [OF fa' it] by blast
  let ?l = "l\<lparr>lstream := s', liter := it'\<rparr>"
  have s': "good_in s'" by (rule reads_good [OF tr(2) s])
  have unk: "safe_round fs d sz s' (lheap l) (unknown_field n e rec ?l (tr_tag tr) (tr_wire_type tr))"
    using unknown_field_safe [OF fa' none, where l = ?l and d = d and sz = sz] fi(2) s' pb_decode_tag_bound [OF tr(1)]
    by simp
  have kn: "safe_round fs d sz s' (lheap l) (known_field n e rec ?l (tr_wire_type tr))"
    using known_field_safe [OF fa, where l = ?l] fi(2) s' m by simp
  have eq: "decode_step n e rec l =
    (if \<not> tr_ok tr then (if tr_eof tr then Some (Break (l\<lparr>lstream := s'\<rparr>)) else Some (Return (l\<lparr>lstream := s'\<rparr>)))
     else if \<not> found then unknown_field n e rec ?l (tr_tag tr) (tr_wire_type tr)
     else known_field n e rec ?l (tr_wire_type tr))"
    using tr(1) fi(1) by (simp add: decode_step_def Let_def)
  show "safe_round fs d sz (lstream l) (lheap l) (decode_step n e rec l)"
    unfolding eq using safe_round_step [OF unk tr(2)] safe_round_step [OF kn tr(2)] it tr(2)
    by (auto simp: safe_round_def reads_inside)
  show "bytes_left (lstream l') < bytes_left (lstream l)" if "decode_step n e rec l = Some (Continue l')"
    using that unk kn tr(3) reads_bytes_left unfolding eq
    by (auto simp: safe_round_def split: if_splits) fastforce+
qed

lemma decode_loop_safe:
  assumes "static_message L fs sz" "iter_ok fs d (liter l)" "good_in (lstream l)"
    and "mapped (bytes (lheap l)) d sz" "bytes_left (lstream l) \<le> k"
  shows "\<exists>ok l'. decode_loop k n e rec l = Some (ok, l') \<and> confined d sz (lheap l) (lheap l') \<and>
    (if ok then reads (lstream l) (lstream l') \<and> iter_ok fs d (liter l') else inside (lstream l) (lstream l'))"
  using assms
proof (induction k arbitrary: l)
  case (Suc k)
  note step = decode_step_safe [OF Suc.prems(1-4)]
  show ?case
  proof (cases "bytes_left (lstream l) = 0")
    case False
    show ?thesis
    proof (cases "decode_step n e rec l")
      case (Some r)
      show ?thesis
      proof (cases r)
        case (Continue l')
        then have l': "reads (lstream l) (lstream l')" "confined d sz (lheap l) (lheap l')" "iter_ok fs d (liter l')"
          "bytes_left (lstream l') < bytes_left (lstream l)"
          using step Some by (auto simp: safe_round_def)
        obtain ok l'' where IH: "decode_loop k n e rec l' = Some (ok, l'')" "confined d sz (lheap l') (lheap l'')"
          "if ok then reads (lstream l') (lstream l'') \<and> iter_ok fs d (liter l'') else inside (lstream l') (lstream l'')"
          using Suc.IH [OF Suc.prems(1) l'(3) reads_good [OF l'(1) Suc.prems(3)]] Suc.prems(4,5) l'(4)
            confined_mapped [OF l'(2)] by fastforce
        have "if ok then reads (lstream l) (lstream l'') \<and> iter_ok fs d (liter l'') else inside (lstream l) (lstream l'')"
          using IH(3) reads_trans [OF l'(1)] inside_trans [OF reads_inside [OF l'(1)]] by (cases ok) auto
        with IH(1) confined_trans [OF l'(2) IH(2)] False Some Continue show ?thesis by simp
      qed (use step(1) Some False in \<open>auto simp: safe_round_def\<close>)
    qed (use step(1) in \<open>simp add: safe_round_def\<close>)
  qed (use Suc.prems in auto)
qed auto

end

text \<open>Seeking to the end of the field array counts the required fields.\<close>

lemma count_required_at:
  assumes fa: "field_array fs" and "k < n_fields fs" "n_fields fs - k \<le> fuel"
  shows "\<exists>it'. count_required fuel (iter_at fs d l k) = Some (required_before fs (n_fields fs), it')"
  using assms(2-)
proof (induction fuel arbitrary: k)
  case (Suc fuel)
  have "n_fields fs < length fs" using Suc.prems(1) by auto
  then have cur: "cur (iter_at fs d l k) = Some (fs ! k)" using Suc.prems(1) by (simp add: cur_iter_at)
  show ?case
  proof (cases "Suc k < n_fields fs")
    case True
    then have "\<exists>it'. count_required fuel (iter_at fs d l (Suc k)) = Some (required_before fs (n_fields fs), it')"
      using Suc.prems by (intro Suc.IH) auto
    with True cur iter_next_at [OF fa Suc.prems(1), of d l] show ?thesis by simp
  next
    case False
    then have last: "n_fields fs = Suc k" using Suc.prems(1) by simp
    have "tag (fs ! 0) \<noteq> 0" using field_array_tag [OF fa, of 0] last by (cases fs) auto
    moreover have "cur (iter_at fs d l 0) = Some (fs ! 0)" using last by (cases fs) (simp_all add: cur_iter_at)
    moreover have "required_before fs (n_fields fs) =
      (if htype (fs ! k) = PB_HTYPE_REQUIRED then Suc (required_before fs k) else required_before fs k)"
      unfolding last by (rule required_before_Suc) (use Suc.prems in auto)
    ultimately show ?thesis
      using False cur iter_next_at [OF fa Suc.prems(1), of d l] by (auto simp: Let_def)
  qed
qed auto

lemma count_required_ok:
  assumes "field_array fs" "iter_ok fs d it"
  shows "\<exists>it'. count_required (length fs) it = Some (required_before fs (n_fields fs), it')"
proof -
  obtain k l where k: "k < n_fields fs" and it: "it = iter_at fs d l k \<or>
     it = (iter_at fs d l k)\<lparr>pSize := AtLocal\<rparr> \<and> htype (fs ! k) = PB_HTYPE_REPEATED"
    using assms(2) by (auto simp: iter_ok_def)
  obtain m where m: "length fs = Suc m" using k by (cases "length fs") auto
  have "count_required (length fs) it = count_required (length fs) (iter_at fs d l k)"
    using it iter_next_AtLocal [OF _ k assms(1), of d l] iter_next_at [OF assms(1) k, of d l] k m
    by (auto simp: cur_iter_at Let_def)
  with count_required_at [OF assms(1) k, of "length fs" d l] show ?thesis by simp
qed

lemma iter_ok_start: "iter_ok fs d it \<Longrightarrow> start it = fs"
  by (auto simp: iter_ok_def)

context static_decoder begin

lemma decode_message_safe:
  assumes fa: "static_message L fs sz" and s: "good_in s" and m: "mapped (bytes h) d sz"
  shows "safe d sz s h (decode_message n e rec s h fs d)"
proof -
  have fa': "field_array fs" "n_fields fs \<noteq> 0" using fa by (simp_all add: static_message_def)
  let ?l = "\<lparr>lstream = s, lheap = h, liter = iter_at fs d (local_size init_iter) 0, fields_seen = [0, 0],
    extension_range_start = 0, fixed_count_field = None\<rparr>"
  have "iter_ok fs d (liter ?l)" using iter_ok_at [of 0 fs d] fa'(2) by simp
  from decode_loop_safe [OF fa this, of "bytes_left s", unfolded dec_loop.simps] s m
  obtain ok l where l: "decode_loop (bytes_left s) n e rec ?l = Some (ok, l)" "confined d sz h (lheap l)"
    "if ok then reads s (lstream l) \<and> iter_ok fs d (liter l) else inside s (lstream l)"
    by blast
  have "safe d sz s h (finish_message l)" if ok
  proof -
    have it: "iter_ok fs d (liter l)" using l(3) that by simp
    obtain it' where "count_required (length (start (liter l))) (liter l) =
      Some (required_before fs (n_fields fs), it')"
      using count_required_ok [OF fa'(1) it] unfolding iter_ok_start [OF it] by blast
    then show ?thesis
      using l(2,3) that by (auto simp: finish_message_def Let_def safe_Some safe_error)
  qed
  with l show ?thesis
    by (auto simp: decode_message_def iter_begin_at [OF fa'(1)] safe_Some)
qed

end

text \<open>The levels of the decoder, one for each depth of nesting.\<close>

lemma static_decoder_levels:
  fixes e :: "'u dec_env"
  shows "static_decoder (static_layout n) (Suc n) e (pb_decode_noinit (Suc n) e)"
proof (induction n)
  case 0
  show ?case
    by unfold_locales (simp, simp, simp, rule release_field_static)
next
  case (Suc n)
  show ?case
  proof unfold_locales
    fix gs sz d and s :: "'u istream" and h :: heap
    assume "static_layout (Suc n) gs sz" "good_in s" "mapped (bytes h) d sz"
    then show "safe d sz s h (pb_decode_noinit (Suc (Suc n)) e s h gs d)"
      unfolding pb_decode_noinit.simps(2) [of "Suc n"] static_layout.simps
      by (rule static_decoder.decode_message_safe [OF Suc])
  next
    fix gs sz d and h :: heap
    assume "static_layout (Suc n) gs sz" "mapped (bytes h) d sz"
    then show "safe_heap d sz h (pb_message_set_to_defaults (Suc (Suc n)) e gs d h)"
      by (rule pb_message_set_to_defaults_safe [OF static_layout_Suc])
  next
    fix gs sz d and h :: heap
    assume "static_layout (Suc n) gs sz" "mapped (bytes h) d sz"
    then show "pb_release (Suc (Suc n)) e gs d h = Some h"
      unfolding pb_release_def by (rule message_release_static [OF static_layout_Suc])
  qed (rule release_field_static)
qed

interpretation level: static_decoder "static_layout n" "Suc n" e "pb_decode_noinit (Suc n) e" for n e
  by (rule static_decoder_levels)


subsection \<open>Whole messages\<close>

lemma pb_decode_noinit_safe:
  assumes "static_layout n fs sz" "good_in s" "mapped (bytes h) d sz"
  shows "safe d sz s h (pb_decode_noinit (Suc n) e s h fs d)"
  using level.rec_safe [OF assms] .

lemma pb_decode_safe_layout:
  assumes "static_layout n fs sz" "good_in s" "mapped (bytes h) d sz"
  shows "safe d sz s h (pb_decode (Suc n) e s h fs d)"
  unfolding pb_decode_def by (rule level.decode_init_safe [OF assms])

end
