(* ===== verification/Pb_Decode_Properties.thy ===== *)
theory Pb_Decode_Properties
  imports Pb_Decode_Safety Pb_Encode_Properties
begin

text \<open>
  The decoder's contract: it survives every input, and it reads back what the encoder writes.
\<close>

subsection \<open>What an output buffer holds after a write\<close>

lemma pb_write_buffer:
  assumes "pb_write (pb_ostream_from_buffer buf n) bs (length bs) = Some (True, s)"
    and "length bs < 2 ^ 64"
  shows "ostate s = OBuf (bs @ drop (length bs) buf) (length bs)"
  using assms
  by (auto simp: pb_write_def pb_ostream_from_buffer_def buf_write_def oerror_def split: if_splits)

lemma varint_written:
  assumes "pb_encode_varint (pb_ostream_from_buffer buf n) w = Some (True, s)" "ostate s = OBuf out p"
  shows "take p out = varint_bytes (unat w)" "p \<le> length out"
proof -
  have len: "length (varint_bytes (unat w)) < 2 ^ 64"
    by (rule le_less_trans [OF varint_bytes_length_10 [OF unat_u64_less]]) simp
  have "ostate s = OBuf (varint_bytes (unat w) @ drop (length (varint_bytes (unat w))) buf)
    (length (varint_bytes (unat w)))"
    by (rule pb_write_buffer [OF assms(1) [unfolded pb_encode_varint_eq] len])
  with assms(2) show "take p out = varint_bytes (unat w)" "p \<le> length out" by auto
qed

subsection \<open>Properties\<close>

text \<open>
  C2. Decoding a message type whose members all lie in the structure, from any bytes whatever:
  the decoder returns, it reads nothing past the end of the input, and it changes no memory
  outside the structure and no allocation.
\<close>

theorem pb_decode_memory_safe:
  assumes "static_layout n fs sz" "mapped (bytes h) d sz"
  shows "\<exists>ok s h' k. pb_decode (Suc n) e (pb_istream_from_buffer inp (length inp)) h fs d = Some (ok, s, h') \<and>
    istate s = IBuf (drop k inp) \<and> k + bytes_left s \<le> length inp \<and>
    blocks h' = blocks h \<and> dom (bytes h') = dom (bytes h) \<and>
    (\<forall>x. x < d \<or> d + sz \<le> x \<longrightarrow> bytes h' x = bytes h x)"
proof -
  let ?s = "pb_istream_from_buffer inp (length inp) :: 'a istream"
  obtain ok s h' where r: "pb_decode (Suc n) e ?s h fs d = Some (ok, s, h')"
    and c: "confined d sz h h'" and i: "if ok then reads ?s s else inside ?s s"
    using pb_decode_safe_layout [OF assms(1) _ assms(2), of ?s e] by (auto simp: safe_def)
  have "inside ?s s" using i reads_inside by (cases ok) auto
  then obtain k where "istate s = IBuf (drop k inp)" "k + bytes_left s \<le> length inp"
    by (auto simp: inside_def advance_def pb_istream_from_buffer_def)
  moreover have "blocks h' = blocks h"
    using c unfolding confined_def by (metis heap.ext_inject heap.surjective heap.update_convs(1))
  ultimately show ?thesis using r c unfolding confined_def by blast
qed

definition sample_heap :: heap where
  "sample_heap = \<lparr>bytes = sample_info, blocks = Map.empty, limit = 1000, avail = 1000, junk = (\<lambda>_. 0)\<rparr>"

definition no_decoders :: "unit dec_env" where
  "no_decoders = \<lparr>dec_callbacks = Map.empty, dec_ext_types = Map.empty\<rparr>"

lemma network_info_layout: "static_layout 1 gdt_cct_NetworkConnectionInfo_fields 16"
  unfolding One_nat_def network_info_fields
  by (simp add: eval_simps static_message_def static_field_def Let_def all_less_Suc_shift
      scalar_item_def field_span_def slot_span_def)

lemma sample_mapped: "mapped (bytes sample_heap) 100 16"
  by (rule load_mapped [of _ _ _ "[1, 0, 0, 0, 255, 255, 255, 255, 1, 0, 0, 0, 13, 0, 0, 0]"])
    (simp add: sample_heap_def sample_info_def eval_simps)

definition cut_varint :: "byte list" where
  "cut_varint = [8, 255, 255]"

theorem pb_decode_memory_safe_witness:
  "\<exists>ok s h' k. pb_decode 2 no_decoders (pb_istream_from_buffer cut_varint (length cut_varint)) sample_heap
      gdt_cct_NetworkConnectionInfo_fields 100 = Some (ok, s, h') \<and>
    istate s = IBuf (drop k cut_varint) \<and> k + bytes_left s \<le> length cut_varint \<and>
    blocks h' = blocks sample_heap \<and> dom (bytes h') = dom (bytes sample_heap) \<and>
    (\<forall>x. x < 100 \<or> 100 + 16 \<le> x \<longrightarrow> bytes h' x = bytes sample_heap x)"
  using pb_decode_memory_safe [OF network_info_layout sample_mapped, of no_decoders cut_varint]
  unfolding Suc_1 .


text \<open>
  C7. The 64-bit varint reader on any input: it looks at no more than ten bytes, returns the
  number they encode reduced to 64 bits and consumes exactly the bytes of the number; without a
  last byte among the first ten it reports an overflow, without ten bytes the end of the stream.
\<close>

theorem pb_decode_varint_exact:
  assumes "good_in s"
  shows "pb_decode_varint s =
    (case varint_value (take 10 (input s)) of
       Some (v, r) \<Rightarrow> Some (True, word_of_nat v, advance s (min 10 (bytes_left s) - length r))
     | None \<Rightarrow> if 10 \<le> bytes_left s then Some (False, 0, set_ierror (advance s 10) ''varint overflow'')
               else Some (False, 0, set_ierror (advance s (bytes_left s)) ''end-of-stream''))"
  unfolding pb_decode_varint_buffer [OF assms] varint_outcome_def
  by (simp only: add_0 power_0 mult_1_right)

theorem pb_decode_varint_exact_witness:
  "pb_decode_varint (pb_istream_from_buffer [0xAC, 0x02, 0x7F] 3 :: unit istream) =
     Some (True, 300, advance (pb_istream_from_buffer [0xAC, 0x02, 0x7F] 3) 2)"
  by (subst pb_decode_varint_exact) simp_all

text \<open>
  What \<^verbatim>\<open>pb_encode_varint\<close> wrote, \<^verbatim>\<open>pb_decode_varint\<close> reads back, and nothing is left over.
\<close>

lemma varint_roundtrip:
  assumes "pb_encode_varint (pb_ostream_from_buffer buf n) w = Some (True, s)" "ostate s = OBuf out p"
  shows "\<exists>s'. pb_decode_varint (pb_istream_from_buffer out p) = Some (True, w, s') \<and> bytes_left s' = 0"
proof -
  let ?s = "pb_istream_from_buffer out p :: 'b istream"
  note out = varint_written [OF assms]
  have inp: "input ?s = varint_bytes (unat w) @ []" using out(1) by simp
  have good: "good_in ?s" using out(2) by simp
  have "bytes_left ?s = length (varint_bytes (unat w))" using length_input [OF good] unfolding inp by simp
  with pb_decode_varint_bytes [OF good inp unat_u64_less] show ?thesis by simp
qed

lemma varint_roundtrip_witness:
  "\<exists>s'. pb_decode_varint (pb_istream_from_buffer [0xAC, 0x02, 9] 2 :: unit istream) = Some (True, 300, s') \<and>
     bytes_left s' = 0"
proof (rule varint_roundtrip)
  show "pb_encode_varint (pb_ostream_from_buffer [9, 9, 9] 3 :: unit ostream) 300 = Some (True,
    \<lparr>ocallback = OBufWrite, ostate = OBuf [0xAC, 0x02, 9] 2, max_size = 3, bytes_written = 2, oerrmsg = None\<rparr>)"
    by (simp add: pb_encode_varint_eq eval_simps pb_write_def pb_ostream_from_buffer_def buf_write_def size_t_def)
qed simp

text \<open>
  Signed numbers in zigzag form are read back by \<^verbatim>\<open>pb_decode_svarint\<close>, over the whole range
  of 64 bits.
\<close>

lemma svarint_roundtrip:
  assumes "pb_encode_svarint (pb_ostream_from_buffer buf n) w = Some (True, s)" "ostate s = OBuf out p"
  shows "\<exists>s'. pb_decode_svarint (pb_istream_from_buffer out p) = Some (True, w, s') \<and> bytes_left s' = 0"
proof -
  let ?s = "pb_istream_from_buffer out p :: 'b istream" and ?z = "zigzag (sint w)"
  note range = sint_range_u64 [of w]
  have z: "?z < 2 ^ 64" using range by (auto simp: zigzag_def)
  have "pb_encode_varint (pb_ostream_from_buffer buf n) (word_of_nat ?z) = Some (True, s)"
    using assms(1) unfolding svarint_is_zigzag .
  note out = varint_written [OF this assms(2), unfolded unat_of_nat_u64 [OF z]]
  have inp: "input ?s = varint_bytes ?z @ []" using out(1) by simp
  have good: "good_in ?s" using out(2) by simp
  have "bytes_left ?s = length (varint_bytes ?z)" using length_input [OF good] unfolding inp by simp
  with pb_decode_svarint_bytes [OF good inp range] show ?thesis by simp
qed


lemma svarint_roundtrip_witness:
  "\<exists>s'. pb_decode_svarint (pb_istream_from_buffer [0x03, 9] 1 :: unit istream) = Some (True, - 2, s') \<and>
     bytes_left s' = 0"
proof (rule svarint_roundtrip)
  show "pb_encode_svarint (pb_ostream_from_buffer [9, 9] 2 :: unit ostream) (- 2) = Some (True,
    \<lparr>ocallback = OBufWrite, ostate = OBuf [0x03, 9] 1, max_size = 2, bytes_written = 1, oerrmsg = None\<rparr>)"
    by (simp add: svarint_is_zigzag zigzag_def pb_encode_varint_eq eval_simps pb_write_def
        pb_ostream_from_buffer_def buf_write_def size_t_def)
qed simp

text \<open>
  The tag of a field is read back with its number and wire type, for every field number of
  29 bits.
\<close>

lemma tag_roundtrip:
  assumes "pb_encode_tag (pb_ostream_from_buffer buf n) wt t = Some (True, s)" "ostate s = OBuf out p"
    and "wt < 8" "t < 2 ^ 29" "0 < t * 8 + wt"
  shows "\<exists>s'. pb_decode_tag (pb_istream_from_buffer out p) =
    Some (\<lparr>tr_ok = True, tr_wire_type = wt, tr_tag = t, tr_eof = False\<rparr>, s') \<and> bytes_left s' = 0"
proof -
  let ?s = "pb_istream_from_buffer out p :: 'b istream" and ?v = "t * 8 + wt"
  have u: "unat (push_bit 3 (word_of_nat t) OR word_of_nat wt :: 64 word) = ?v"
    by (rule tag_word) (use assms(3,4) in simp_all)
  note out = varint_written [OF assms(1) [unfolded pb_encode_tag_def] assms(2), unfolded u]
  have inp: "input ?s = varint_bytes ?v @ []" using out(1) by simp
  have good: "good_in ?s" using out(2) by simp
  have "bytes_left ?s = length (varint_bytes ?v)" using length_input [OF good] unfolding inp by simp
  with pb_decode_tag_bytes [OF good inp assms(3,5)] assms(3,4) show ?thesis by simp
qed

lemma tag_roundtrip_witness:
  "\<exists>s'. pb_decode_tag (pb_istream_from_buffer [0x7A, 9] 1 :: unit istream) =
    Some (\<lparr>tr_ok = True, tr_wire_type = 2, tr_tag = 15, tr_eof = False\<rparr>, s') \<and> bytes_left s' = 0"
proof (rule tag_roundtrip)
  show "pb_encode_tag (pb_ostream_from_buffer [9, 9] 2 :: unit ostream) 2 15 = Some (True,
    \<lparr>ocallback = OBufWrite, ostate = OBuf [0x7A, 9] 1, max_size = 2, bytes_written = 1, oerrmsg = None\<rparr>)"
    by (simp add: pb_encode_tag_def pb_encode_varint_eq eval_simps pb_write_def
        pb_ostream_from_buffer_def buf_write_def size_t_def)
qed simp_all

text \<open>
  C8. A field the message type does not know is skipped exactly: behind the payload of any of
  the four wire types the stream stands at the next field.
\<close>

theorem pb_skip_field_exact:
  assumes "good_in s" "input s = payload @ rest" "wire_payload wt payload"
  shows "\<exists>s'. pb_skip_field s wt = Some (True, s') \<and> input s' = rest \<and> ierrmsg s' = ierrmsg s"
  using pb_skip_field_payload [OF assms] assms(2) by simp

theorem pb_skip_field_exact_witness:
  "\<exists>s'. pb_skip_field (pb_istream_from_buffer [3, 1, 2, 3, 0x10] 5 :: unit istream) PB_WT_STRING = Some (True, s') \<and>
     input s' = [0x10] \<and> ierrmsg s' = None"
proof -
  have "wire_payload PB_WT_STRING (delimited [1, 2, 3])" by (auto simp: wire_payload_def)
  then show ?thesis
    using pb_skip_field_exact [of "pb_istream_from_buffer [3, 1, 2, 3, 0x10] 5 :: unit istream"
        "delimited [1, 2, 3]" "[0x10]" PB_WT_STRING]
    by (simp add: delimited_def varint_bytes_small) (simp add: pb_istream_from_buffer_def)
qed

text \<open>
  C9. A length-delimited value is read through a substream that shows exactly its bytes;
  however much of it the reader consumes, after closing the parent stream stands behind it.
\<close>

theorem substream_exact:
  assumes "good_in s" "input s = delimited p @ rest" "length p < 2 ^ 32"
  shows "\<exists>s1 sub. pb_make_string_substream s = Some (True, s1, sub) \<and> input sub = p \<and>
    (\<forall>sub'. reads sub sub' \<longrightarrow>
       (\<exists>s2. pb_close_string_substream s1 sub' = Some (True, s2) \<and> input s2 = rest))"
proof -
  let ?k = "length (varint_bytes (length p))"
  obtain s1 sub where mk: "pb_make_string_substream s = Some (True, s1, sub)" "input sub = p"
    and op: "opened s s1 sub ?k (length p)"
    using pb_make_string_substream_bytes [OF assms] by blast
  have "\<exists>s2. pb_close_string_substream s1 sub' = Some (True, s2) \<and> input s2 = rest" if r: "reads sub sub'" for sub'
  proof -
    obtain msg where "pb_close_string_substream s1 sub' =
      Some (True, (advance s (?k + length p))\<lparr>ierrmsg := msg\<rparr>)"
      using opened_close [OF op assms(1) r] by blast
    moreover have "drop (?k + length p) (input s) = rest" using assms(2) by (simp add: delimited_def)
    ultimately show ?thesis by simp
  qed
  with mk show ?thesis by blast
qed

theorem substream_exact_witness:
  "\<exists>s1 sub. pb_make_string_substream (pb_istream_from_buffer [2, 7, 8, 0x10] 4 :: unit istream) =
      Some (True, s1, sub) \<and> input sub = [7, 8] \<and>
    (\<exists>s2. pb_close_string_substream s1 sub = Some (True, s2) \<and> input s2 = [0x10])"
proof -
  have "\<exists>s1 sub. pb_make_string_substream (pb_istream_from_buffer [2, 7, 8, 0x10] 4 :: unit istream) =
      Some (True, s1, sub) \<and> input sub = [7, 8] \<and>
    (\<forall>sub'. reads sub sub' \<longrightarrow>
       (\<exists>s2. pb_close_string_substream s1 sub' = Some (True, s2) \<and> input s2 = [0x10]))"
    by (rule substream_exact) (simp_all add: delimited_def varint_bytes_small)
  then show ?thesis using reads_refl by blast
qed

end
