(* ===== verification/Firebasecore_Descriptors.thy ===== *)
theory Firebasecore_Descriptors
  imports C_Struct
begin

text \<open>
  The diagnostics message of Firebase Core, \<^verbatim>\<open>firebasecore.nanopb.h\<close> and
  \<^verbatim>\<open>firebasecore.nanopb.c\<close>: the structure and its array of field descriptors.
\<close>

definition logs_proto_mobilesdk_ios_ICoreConfiguration :: cstruct where
  "logs_proto_mobilesdk_ios_ICoreConfiguration =
     [(''has_configuration_type'', CBool),
      (''configuration_type'', CEnum),
      (''sdk_service_installed_count'', CSize),
      (''sdk_service_installed'', CPtr 4),
      (''device_model'', CPtr sizeof_bytes_array),
      (''app_id'', CPtr sizeof_bytes_array),
      (''bundle_id'', CPtr sizeof_bytes_array),
      (''has_pod_name'', CBool),
      (''pod_name'', CEnum),
      (''icore_version'', CPtr sizeof_bytes_array),
      (''sdk_version'', CPtr sizeof_bytes_array),
      (''has_sdk_name'', CBool),
      (''sdk_name'', CEnum),
      (''has_app_count'', CBool),
      (''app_count'', CInt32),
      (''os_version'', CPtr sizeof_bytes_array),
      (''min_supported_ios_version'', CPtr sizeof_bytes_array),
      (''has_use_default_app'', CBool),
      (''use_default_app'', CBool),
      (''has_deployed_in_app_store'', CBool),
      (''deployed_in_app_store'', CBool),
      (''has_dynamic_framework_count'', CBool),
      (''dynamic_framework_count'', CInt32),
      (''apple_framework_version'', CPtr sizeof_bytes_array),
      (''has_using_zip_file'', CBool),
      (''using_zip_file'', CBool),
      (''has_deployment_type'', CBool),
      (''deployment_type'', CEnum),
      (''platform_info'', CPtr sizeof_bytes_array),
      (''has_swizzling_enabled'', CBool),
      (''swizzling_enabled'', CBool),
      (''has_using_gdt'', CBool),
      (''using_gdt'', CBool)]"

definition logs_proto_mobilesdk_ios_ICoreConfiguration_fields :: "pb_field list" where
  "logs_proto_mobilesdk_ios_ICoreConfiguration_fields =
     [PB_FIELD 1 UENUM OPTIONAL STATIC FIRST logs_proto_mobilesdk_ios_ICoreConfiguration ''configuration_type'' ''configuration_type'' NullPtr,
      PB_FIELD 7 UENUM REPEATED POINTER OTHER logs_proto_mobilesdk_ios_ICoreConfiguration ''sdk_service_installed'' ''configuration_type'' NullPtr,
      PB_FIELD 9 BYTES OPTIONAL POINTER OTHER logs_proto_mobilesdk_ios_ICoreConfiguration ''device_model'' ''sdk_service_installed'' NullPtr,
      PB_FIELD 10 BYTES OPTIONAL POINTER OTHER logs_proto_mobilesdk_ios_ICoreConfiguration ''app_id'' ''device_model'' NullPtr,
      PB_FIELD 12 BYTES OPTIONAL POINTER OTHER logs_proto_mobilesdk_ios_ICoreConfiguration ''bundle_id'' ''app_id'' NullPtr,
      PB_FIELD 16 UENUM OPTIONAL STATIC OTHER logs_proto_mobilesdk_ios_ICoreConfiguration ''pod_name'' ''bundle_id'' NullPtr,
      PB_FIELD 18 BYTES OPTIONAL POINTER OTHER logs_proto_mobilesdk_ios_ICoreConfiguration ''icore_version'' ''pod_name'' NullPtr,
      PB_FIELD 19 BYTES OPTIONAL POINTER OTHER logs_proto_mobilesdk_ios_ICoreConfiguration ''sdk_version'' ''icore_version'' NullPtr,
      PB_FIELD 20 UENUM OPTIONAL STATIC OTHER logs_proto_mobilesdk_ios_ICoreConfiguration ''sdk_name'' ''sdk_version'' NullPtr,
      PB_FIELD 21 INT32 OPTIONAL STATIC OTHER logs_proto_mobilesdk_ios_ICoreConfiguration ''app_count'' ''sdk_name'' NullPtr,
      PB_FIELD 22 BYTES OPTIONAL POINTER OTHER logs_proto_mobilesdk_ios_ICoreConfiguration ''os_version'' ''app_count'' NullPtr,
      PB_FIELD 24 BYTES OPTIONAL POINTER OTHER logs_proto_mobilesdk_ios_ICoreConfiguration ''min_supported_ios_version'' ''os_version'' NullPtr,
      PB_FIELD 25 BOOL OPTIONAL STATIC OTHER logs_proto_mobilesdk_ios_ICoreConfiguration ''use_default_app'' ''min_supported_ios_version'' NullPtr,
      PB_FIELD 26 BOOL OPTIONAL STATIC OTHER logs_proto_mobilesdk_ios_ICoreConfiguration ''deployed_in_app_store'' ''use_default_app'' NullPtr,
      PB_FIELD 27 INT32 OPTIONAL STATIC OTHER logs_proto_mobilesdk_ios_ICoreConfiguration ''dynamic_framework_count'' ''deployed_in_app_store'' NullPtr,
      PB_FIELD 28 BYTES OPTIONAL POINTER OTHER logs_proto_mobilesdk_ios_ICoreConfiguration ''apple_framework_version'' ''dynamic_framework_count'' NullPtr,
      PB_FIELD 29 BOOL OPTIONAL STATIC OTHER logs_proto_mobilesdk_ios_ICoreConfiguration ''using_zip_file'' ''apple_framework_version'' NullPtr,
      PB_FIELD 30 UENUM OPTIONAL STATIC OTHER logs_proto_mobilesdk_ios_ICoreConfiguration ''deployment_type'' ''using_zip_file'' NullPtr,
      PB_FIELD 31 BYTES OPTIONAL POINTER OTHER logs_proto_mobilesdk_ios_ICoreConfiguration ''platform_info'' ''deployment_type'' NullPtr,
      PB_FIELD 33 BOOL OPTIONAL STATIC OTHER logs_proto_mobilesdk_ios_ICoreConfiguration ''swizzling_enabled'' ''platform_info'' NullPtr,
      PB_FIELD 36 BOOL OPTIONAL STATIC OTHER logs_proto_mobilesdk_ios_ICoreConfiguration ''using_gdt'' ''swizzling_enabled'' NullPtr,
      PB_LAST_FIELD]"

end
