(* ===== verification/Base64.thy ===== *)
theory Base64
  imports Prelude
begin

text \<open>
  The Base64 conversion of the web socket client, \<^verbatim>\<open>fbase64.c\<close>: the encoder \<^verbatim>\<open>f_b64_ntop\<close> and the
  decoder \<^verbatim>\<open>f_b64_pton\<close>. Text is a list of characters; a C string ends with its first NUL, and
  reading behind the last character of the list is an access out of bounds, the result \<open>None\<close>.
  A target buffer is the list of its elements, a write outside it again \<open>None\<close>. Otherwise a
  function returns the C return value and the target buffer after the call.
\<close>

subsection \<open>The alphabet\<close>

definition Base64_alphabet :: string where
  "Base64_alphabet = ''ABCDEFGHIJKLMNOPQRSTUVWXYZabcdefghijklmnopqrstuvwxyz0123456789+/''"

definition Pad64 :: char where
  "Pad64 = CHR ''=''"

abbreviation NUL :: char where
  "NUL \<equiv> CHR 0x00"

text \<open>\<^verbatim>\<open>isspace\<close> in the C locale.\<close>

definition isspace :: "char \<Rightarrow> bool" where
  "isspace c \<longleftrightarrow> c = CHR '' '' \<or> c = CHR 0x09 \<or> c = CHR 0x0A \<or> c = CHR 0x0B \<or> c = CHR 0x0C \<or> c = CHR 0x0D"

text \<open>\<^verbatim>\<open>strchr\<close> as the distance of the hit from the start; the terminator can be found too.\<close>

fun strchr :: "string \<Rightarrow> char \<Rightarrow> nat option" where
  "strchr [] c = (if c = NUL then Some 0 else None)"
| "strchr (x # xs) c = (if x = c then Some 0 else map_option Suc (strchr xs c))"

subsection \<open>Writing to the target\<close>

definition put_chars :: "string \<Rightarrow> nat \<Rightarrow> string \<Rightarrow> string option" where
  "put_chars target i cs =
     (if i + length cs \<le> length target
      then Some (take i target @ cs @ drop (i + length cs) target) else None)"

definition put_byte :: "byte list \<Rightarrow> nat \<Rightarrow> byte \<Rightarrow> byte list option" where
  "put_byte target i b = (if i < length target then Some (target[i := b]) else None)"

definition or_byte :: "byte list \<Rightarrow> nat \<Rightarrow> byte \<Rightarrow> byte list option" where
  "or_byte target i b = (if i < length target then Some (target[i := target ! i OR b]) else None)"

subsection \<open>Encoding\<close>

text \<open>The four 6-bit values \<^verbatim>\<open>output[0..3]\<close> of three input bytes; they index the alphabet.\<close>

definition output0 :: "byte \<Rightarrow> byte" where
  "output0 a = drop_bit 2 a"

definition output1 :: "byte \<Rightarrow> byte \<Rightarrow> byte" where
  "output1 a b = push_bit 4 (a AND 0x03) + drop_bit 4 b"

definition output2 :: "byte \<Rightarrow> byte \<Rightarrow> byte" where
  "output2 b c = push_bit 2 (b AND 0x0F) + drop_bit 6 c"

definition output3 :: "byte \<Rightarrow> byte" where
  "output3 c = c AND 0x3F"

definition digit :: "byte \<Rightarrow> char" where
  "digit v = Base64_alphabet ! unat v"

text \<open>The end of \<^verbatim>\<open>f_b64_ntop\<close>: the terminator and the returned length.\<close>

definition ntop_finish :: "string \<Rightarrow> nat \<Rightarrow> nat \<Rightarrow> (int \<times> string) option" where
  "ntop_finish target datalength targsize =
     (if datalength \<ge> targsize then Some (- 1, target)
      else map_option (\<lambda>t. (to_signed 4 (u32 datalength), t)) (put_chars target datalength [NUL]))"

text \<open>One or two bytes left: a padded quantum.\<close>

definition ntop_padding :: "byte list \<Rightarrow> nat \<Rightarrow> string \<Rightarrow> nat \<Rightarrow> nat \<Rightarrow> (int \<times> string) option" where
  "ntop_padding src srclength target datalength targsize =
     (if srclength = 0 then ntop_finish target datalength targsize
      else if length src < srclength then None
      else let input0 = src ! 0; input1 = (if 1 < srclength then src ! 1 else 0) in
        if size_t (datalength + 4) > targsize then Some (- 1, target)
        else (case put_chars target datalength
                [digit (output0 input0), digit (output1 input0 input1),
                 if srclength = 1 then Pad64 else digit (output2 input1 0), Pad64] of None \<Rightarrow> None
              | Some target \<Rightarrow> ntop_finish target (size_t (datalength + 4)) targsize))"

function ntop_loop :: "byte list \<Rightarrow> nat \<Rightarrow> string \<Rightarrow> nat \<Rightarrow> nat \<Rightarrow> (int \<times> string) option" where
  "ntop_loop src srclength target datalength targsize =
     (if 2 < srclength then
        (case src of
           a # b # c # src \<Rightarrow>
             if size_t (datalength + 4) > targsize then Some (- 1, target)
             else (case put_chars target datalength
                     [digit (output0 a), digit (output1 a b), digit (output2 b c), digit (output3 c)] of
                     None \<Rightarrow> None
                   | Some target \<Rightarrow>
                       ntop_loop src (srclength - 3) target (size_t (datalength + 4)) targsize)
         | _ \<Rightarrow> None)
      else ntop_padding src srclength target datalength targsize)"
  by pat_completeness auto
termination by (relation "measure (\<lambda>(src, n, t, d, s). n)") auto

declare ntop_loop.simps [simp del]

definition f_b64_ntop :: "byte list \<Rightarrow> nat \<Rightarrow> string \<Rightarrow> nat \<Rightarrow> (int \<times> string) option" where
  "f_b64_ntop src srclength target targsize = ntop_loop src srclength target 0 targsize"

subsection \<open>Decoding\<close>

text \<open>
  The body of the \<^verbatim>\<open>switch (state)\<close> for the alphabet position \<open>pos\<close>: \<open>Inl\<close> is the return of -1 for
  a full target, \<open>Inr\<close> the target, \<^verbatim>\<open>tarindex\<close> and \<^verbatim>\<open>state\<close> after it. A null target only counts.
\<close>

type_synonym pton_state = "byte list option \<times> nat \<times> nat"

definition pton_digit :: "nat \<Rightarrow> nat \<Rightarrow> pton_state \<Rightarrow> (byte list option + pton_state) option" where
  "pton_digit targsize pos = (\<lambda>(target, tarindex, state).
     let p = word_of_nat pos :: byte in
     (case target of
        None \<Rightarrow> Some (Inr (None, if state = 0 then tarindex else u32 (tarindex + 1), (state + 1) mod 4))
      | Some t \<Rightarrow>
          if state = 0 then
            (if tarindex \<ge> targsize then Some (Inl target)
             else map_option (\<lambda>t. Inr (Some t, tarindex, 1)) (put_byte t tarindex (push_bit 2 p)))
          else if state = 1 then
            (if u32 (tarindex + 1) \<ge> targsize then Some (Inl target)
             else (case or_byte t tarindex (drop_bit 4 p) of None \<Rightarrow> None
                   | Some t \<Rightarrow> map_option (\<lambda>t. Inr (Some t, u32 (tarindex + 1), 2))
                                 (put_byte t (u32 (tarindex + 1)) (push_bit 4 (p AND 0x0F)))))
          else if state = 2 then
            (if u32 (tarindex + 1) \<ge> targsize then Some (Inl target)
             else (case or_byte t tarindex (drop_bit 2 p) of None \<Rightarrow> None
                   | Some t \<Rightarrow> map_option (\<lambda>t. Inr (Some t, u32 (tarindex + 1), 3))
                                 (put_byte t (u32 (tarindex + 1)) (push_bit 6 (p AND 0x03)))))
          else
            (if tarindex \<ge> targsize then Some (Inl target)
             else map_option (\<lambda>t. Inr (Some t, u32 (tarindex + 1), 0)) (or_byte t tarindex p))))"

definition pton_return :: "pton_state \<Rightarrow> int \<times> byte list option" where
  "pton_return = (\<lambda>(target, tarindex, state). (to_signed 4 tarindex, target))"

text \<open>\<^verbatim>\<open>for (; ch != '\0'; ch = *src++) if (!isspace(ch)) break;\<close>: the string from \<open>ch\<close> on.\<close>

fun skip_spaces :: "string \<Rightarrow> string option" where
  "skip_spaces [] = None"
| "skip_spaces (c # src) = (if c \<noteq> NUL \<and> isspace c then skip_spaces src else Some (c # src))"

text \<open>The case of a single trailing pad: only white space may follow, and no bits slop over.\<close>

definition pton_tail :: "string \<Rightarrow> pton_state \<Rightarrow> (int \<times> byte list option) option" where
  "pton_tail src = (\<lambda>(target, tarindex, state).
     (case skip_spaces src of
        Some (c # _) \<Rightarrow>
          if c \<noteq> NUL then Some (- 1, target)
          else (case target of
                  None \<Rightarrow> Some (pton_return (target, tarindex, state))
                | Some t \<Rightarrow>
                    if tarindex < length t
                    then Some (if t ! tarindex \<noteq> 0 then (- 1, target)
                               else pton_return (target, tarindex, state))
                    else None)
      | _ \<Rightarrow> None))"

text \<open>Behind the first pad character.\<close>

definition pton_pad :: "string \<Rightarrow> pton_state \<Rightarrow> (int \<times> byte list option) option" where
  "pton_pad src = (\<lambda>(target, tarindex, state).
     if src = [] then None
     else if state = 0 \<or> state = 1 then Some (- 1, target)
     else if state = 2 then
       (case skip_spaces src of
          Some (c # src) \<Rightarrow>
            if c \<noteq> Pad64 then Some (- 1, target)
            else if src = [] then None else pton_tail src (target, tarindex, state)
        | _ \<Rightarrow> None)
     else pton_tail src (target, tarindex, state))"

fun pton_loop :: "nat \<Rightarrow> string \<Rightarrow> pton_state \<Rightarrow> (int \<times> byte list option) option" where
  "pton_loop targsize [] st = None"
| "pton_loop targsize (ch # src) st =
     (if ch = NUL then
        Some (if snd (snd st) \<noteq> 0 then (- 1, fst st) else pton_return st)
      else if isspace ch then pton_loop targsize src st
      else if ch = Pad64 then pton_pad src st
      else (case strchr Base64_alphabet ch of
              None \<Rightarrow> Some (- 1, fst st)
            | Some pos \<Rightarrow>
                (case pton_digit targsize pos st of
                   None \<Rightarrow> None
                 | Some (Inl target) \<Rightarrow> Some (- 1, target)
                 | Some (Inr st) \<Rightarrow> pton_loop targsize src st)))"

definition f_b64_pton :: "string \<Rightarrow> byte list option \<Rightarrow> nat \<Rightarrow> (int \<times> byte list option) option" where
  "f_b64_pton src target targsize = pton_loop targsize src (target, 0, 0)"

end
