(* ===== verification/Base64_Spec.thy ===== *)
theory Base64_Spec
  imports Base64
begin

text \<open>
  Base64 as RFC 1521 describes it, and that \<^verbatim>\<open>f_b64_ntop\<close> and \<^verbatim>\<open>f_b64_pton\<close> convert to and from it.
\<close>

subsection \<open>The encoding as numbers\<close>

text \<open>Three bytes form a 24-bit number, whose four digits in base 64 are looked up.\<close>

definition group24 :: "byte \<Rightarrow> byte \<Rightarrow> byte \<Rightarrow> nat" where
  "group24 a b c = unat a * 65536 + unat b * 256 + unat c"

definition group_chars :: "nat \<Rightarrow> string" where
  "group_chars n = map (\<lambda>i. Base64_alphabet ! (n div 64 ^ i mod 64)) [3, 2, 1, 0]"

fun b64_encode :: "byte list \<Rightarrow> string" where
  "b64_encode [] = []"
| "b64_encode [a] = take 2 (group_chars (group24 a 0 0)) @ [Pad64, Pad64]"
| "b64_encode [a, b] = take 3 (group_chars (group24 a b 0)) @ [Pad64]"
| "b64_encode (a # b # c # r) = group_chars (group24 a b c) @ b64_encode r"

lemma length_b64_encode: "length (b64_encode bs) = 4 * ((length bs + 2) div 3)"
proof (induction bs rule: b64_encode.induct)
  case (4 a b c r)
  have "(length (a # b # c # r) + 2) div 3 = (length r + 2) div 3 + 1" by simp
  with 4 show ?case by (simp add: group_chars_def)
qed (simp_all add: group_chars_def)

subsection \<open>The digits the code computes\<close>

lemma unat_output0: "unat (output0 a) = unat a div 4"
  unfolding output0_def unat_drop_bit_div by simp

lemma unat_shift_add:
  fixes x y :: byte
  assumes "unat x * 2 ^ n + unat y < 256"
  shows "unat (push_bit n x + y) = unat x * 2 ^ n + unat y"
proof -
  have e: "push_bit n x + y = word_of_nat (unat x * 2 ^ n + unat y)"
    by (simp add: push_bit_eq_mult)
  have "unat (push_bit n x + y) = (unat x * 2 ^ n + unat y) mod 256"
    unfolding e unat_of_nat by (simp add: take_bit_eq_mod)
  then show ?thesis using assms by simp
qed

lemma unat_and_low: "unat (a AND mask n :: byte) = unat a mod 2 ^ n"
  by (metis take_bit_eq_mask unat_take_bit_mod)

lemma low_masks: "(0x03 :: byte) = mask 2" "(0x0F :: byte) = mask 4" "(0x3F :: byte) = mask 6"
  by (simp_all add: mask_eq_exp_minus_1)

lemma unat_output1: "unat (output1 a b) = unat a mod 4 * 16 + unat b div 16"
proof -
  have "unat b < 256" by (rule unat_byte_less)
  then show ?thesis
    unfolding output1_def low_masks
    by (subst unat_shift_add) (simp_all add: unat_and_low unat_drop_bit_div)
qed

lemma unat_output2: "unat (output2 b c) = unat b mod 16 * 4 + unat c div 64"
proof -
  have "unat c < 256" by (rule unat_byte_less)
  then show ?thesis
    unfolding output2_def low_masks
    by (subst unat_shift_add) (simp_all add: unat_and_low unat_drop_bit_div)
qed

lemma unat_output3: "unat (output3 c) = unat c mod 64"
  unfolding output3_def low_masks unat_and_low by simp

lemmas unat_outputs = unat_output0 unat_output1 unat_output2 unat_output3

lemma base64_digits:
  fixes d0 d1 d2 d3 :: nat
  assumes "d0 < 64" "d1 < 64" "d2 < 64" "d3 < 64"
  defines "n \<equiv> ((d0 * 64 + d1) * 64 + d2) * 64 + d3"
  shows "n div 262144 mod 64 = d0" "n div 4096 mod 64 = d1" "n div 64 mod 64 = d2" "n mod 64 = d3"
proof -
  have 1: "n div 64 = (d0 * 64 + d1) * 64 + d2" using assms by simp
  have 2: "n div 4096 = d0 * 64 + d1" using 1 assms div_mult2_eq [of n 64 64] by simp
  have 3: "n div 262144 = d0" using 2 assms div_mult2_eq [of n 4096 64] by simp
  show "n div 262144 mod 64 = d0" "n div 4096 mod 64 = d1" "n div 64 mod 64 = d2" "n mod 64 = d3"
    unfolding 1 2 3 using assms by (simp_all only: n_def mod_mult_self3 mod_less)
qed

lemma group_digits:
  fixes a b c :: nat
  assumes "a < 256" "b < 256" "c < 256"
  defines "n \<equiv> a * 65536 + b * 256 + c"
  shows "n div 262144 mod 64 = a div 4" "n div 4096 mod 64 = a mod 4 * 16 + b div 16"
    "n div 64 mod 64 = b mod 16 * 4 + c div 64" "n mod 64 = c mod 64"
proof -
  have "(4 * a1 + a0) * 65536 + (16 * b1 + b0) * 256 + (64 * c1 + c0) =
      ((a1 * 64 + (a0 * 16 + b1)) * 64 + (b0 * 4 + c1)) * 64 + c0" for a1 a0 b1 b0 c1 c0 :: nat
    by simp
  from this [of "a div 4" "a mod 4" "b div 16" "b mod 16" "c div 64" "c mod 64"]
  have "n = ((a div 4 * 64 + (a mod 4 * 16 + b div 16)) * 64 + (b mod 16 * 4 + c div 64)) * 64 + c mod 64"
    unfolding n_def mult_div_mod_eq .
  note e = this
  have "a div 4 < 64" "a mod 4 * 16 + b div 16 < 64" "b mod 16 * 4 + c div 64 < 64" "c mod 64 < 64"
    using assms by auto
  then show "n div 262144 mod 64 = a div 4" "n div 4096 mod 64 = a mod 4 * 16 + b div 16"
    "n div 64 mod 64 = b mod 16 * 4 + c div 64" "n mod 64 = c mod 64"
    unfolding e by (rule base64_digits)+
qed

lemma group_chars_digits:
  "group_chars n = [Base64_alphabet ! (n div 262144 mod 64), Base64_alphabet ! (n div 4096 mod 64),
     Base64_alphabet ! (n div 64 mod 64), Base64_alphabet ! (n mod 64)]"
  by (simp add: group_chars_def)

lemma group_chars_output:
  "group_chars (group24 a b c) =
     [digit (output0 a), digit (output1 a b), digit (output2 b c), digit (output3 c)]"
  unfolding group_chars_digits group24_def digit_def unat_outputs
    group_digits [OF unat_byte_less unat_byte_less unat_byte_less] ..

subsection \<open>The encoder writes the encoding\<close>

text \<open>
  \<open>encoded targsize target d enc r\<close>: the result \<open>r\<close> of encoding behind the first \<open>d\<close> characters
  of the target. The text and its terminator fit, or the call returns -1 and has left everything
  behind the announced size alone.
\<close>

definition encoded :: "nat \<Rightarrow> string \<Rightarrow> nat \<Rightarrow> string \<Rightarrow> (int \<times> string) option \<Rightarrow> bool" where
  "encoded targsize target d enc r \<longleftrightarrow>
     (if d + length enc < targsize
      then r = Some (int (d + length enc), take d target @ enc @ NUL # drop (d + length enc + 1) target)
      else \<exists>t. r = Some (- 1, t) \<and> length t = length target \<and> drop targsize t = drop targsize target)"

lemma to_signed_int: "n < 2 ^ 31 \<Longrightarrow> to_signed 4 (u32 n) = int n"
  by (simp add: to_signed_def u32_def)

lemma put_chars_fits:
  "i + length cs \<le> length target \<Longrightarrow>
   put_chars target i cs = Some (take i target @ cs @ drop (i + length cs) target)"
  by (simp add: put_chars_def)

lemma encoded_finish:
  assumes "d < 2 ^ 31" "targsize \<le> length target"
  shows "encoded targsize target d [] (ntop_finish target d targsize)"
  using assms by (auto simp: encoded_def ntop_finish_def put_chars_def to_signed_int)

text \<open>Writing a group and going on behind it encodes the group followed by the rest.\<close>

lemma encoded_group:
  assumes "length cs = 4" "targsize \<le> length target" "d + 4 < 2 ^ 64"
    and rest: "\<And>t. length t = length target \<Longrightarrow> d + 4 \<le> targsize \<Longrightarrow>
                 encoded targsize t (d + 4) enc (k t (d + 4))"
  shows "encoded targsize target d (cs @ enc)
    (if size_t (d + 4) > targsize then Some (- 1, target)
     else (case put_chars target d cs of None \<Rightarrow> None | Some t \<Rightarrow> k t (size_t (d + 4))))"
proof (cases "targsize < d + 4")
  case True
  with assms(1,3) show ?thesis by (simp add: encoded_def size_t_small)
next
  case False
  let ?t = "take d target @ cs @ drop (d + 4) target"
  have len: "length ?t = length target" using False assms(1,2) by simp
  have tk: "take (d + 4) ?t = take d target @ cs" using False assms(1,2) by (simp add: min_absorb2)
  have dr: "drop (d + 4 + j) ?t = drop (d + 4 + j) target" for j
    using False assms(1,2) by (simp add: min_absorb2 ac_simps)
  have "drop targsize ?t = drop targsize target" using dr [of "targsize - (d + 4)"] False by simp
  with rest [OF len] False len tk dr [of "length enc + 1"] assms show ?thesis
    by (auto simp: encoded_def size_t_small put_chars_fits add.assoc simp del: append_assoc drop_append take_append)
qed

lemma ntop_loop_encoded:
  assumes "targsize \<le> length target" "d + 4 * length data + 8 < 2 ^ 31"
  shows "encoded targsize target d (b64_encode data)
    (ntop_loop (data @ extra) (length data) target d targsize)"
  using assms
proof (induction data arbitrary: target d rule: b64_encode.induct)
  case 1
  then show ?case by (simp add: ntop_loop.simps ntop_padding_def encoded_finish)
next
  case (2 a)
  then show ?case
    using encoded_group [of "b64_encode [a]" targsize target d "[]" "\<lambda>t d. ntop_finish t d targsize"]
    by (simp add: ntop_loop.simps ntop_padding_def Let_def encoded_finish group_chars_output output2_def
        cong: if_cong)
next
  case (3 a b)
  then show ?case
    using encoded_group [of "b64_encode [a, b]" targsize target d "[]" "\<lambda>t d. ntop_finish t d targsize"]
    by (simp add: ntop_loop.simps ntop_padding_def Let_def encoded_finish group_chars_output cong: if_cong)
next
  case (4 a b c r)
  have step: "ntop_loop ((a # b # c # r) @ extra) (length (a # b # c # r)) target d targsize =
    (if size_t (d + 4) > targsize then Some (- 1, target)
     else (case put_chars target d (group_chars (group24 a b c)) of None \<Rightarrow> None
           | Some t \<Rightarrow> ntop_loop (r @ extra) (length r) t (size_t (d + 4)) targsize))"
    by (subst ntop_loop.simps) (simp add: group_chars_output cong: option.case_cong)
  show ?case unfolding step b64_encode.simps
    by (rule encoded_group [where k = "\<lambda>t d. ntop_loop (r @ extra) (length r) t d targsize"])
      (use 4 in \<open>auto simp: group_chars_def\<close>)
qed

subsection \<open>Characters of the alphabet\<close>

abbreviation alpha :: "nat \<Rightarrow> char" where
  "alpha p \<equiv> Base64_alphabet ! p"

lemma length_alphabet [simp]: "length Base64_alphabet = 64"
  by (simp add: Base64_alphabet_def)

lemma distinct_alphabet: "distinct Base64_alphabet"
  by (simp add: Base64_alphabet_def)

lemma alphabet_visible: "c \<in> set Base64_alphabet \<Longrightarrow> c \<noteq> NUL \<and> c \<noteq> Pad64 \<and> \<not> isspace c"
  by (auto simp: Base64_alphabet_def Pad64_def isspace_def)

lemma strchr_nth: "distinct xs \<Longrightarrow> i < length xs \<Longrightarrow> strchr xs (xs ! i) = Some i"
proof (induction xs arbitrary: i)
  case (Cons x xs)
  then show ?case by (cases i) auto
qed simp

lemma strchr_Some: "strchr xs c = Some i \<Longrightarrow> c \<noteq> NUL \<Longrightarrow> i < length xs \<and> xs ! i = c"
  by (induction xs arbitrary: i) (auto split: if_splits)

lemma strchr_alpha [simp]: "p < 64 \<Longrightarrow> strchr Base64_alphabet (alpha p) = Some p"
  by (simp add: strchr_nth distinct_alphabet)

lemma alpha_visible [simp]:
  assumes "p < 64"
  shows "alpha p \<noteq> NUL" "alpha p \<noteq> Pad64" "\<not> isspace (alpha p)"
  using alphabet_visible [of "alpha p"] assms by simp_all

lemma alpha_inj [simp]: "p < 64 \<Longrightarrow> q < 64 \<Longrightarrow> alpha p = alpha q \<longleftrightarrow> p = q"
  using nth_eq_iff_index_eq [OF distinct_alphabet, of p q] by simp

lemma isspace_special [simp]: "\<not> isspace NUL" "\<not> isspace Pad64" "Pad64 \<noteq> NUL" "NUL \<noteq> Pad64"
  by (simp_all add: isspace_def Pad64_def)

lemma strchr_Pad64 [simp]: "strchr Base64_alphabet Pad64 = None"
  by (simp add: Base64_alphabet_def Pad64_def)

lemma digit_char:
  obtains (digit) p where "p < 64" "c = alpha p" | (other) "strchr Base64_alphabet c = None" | (nul) "c = NUL"
proof (cases "strchr Base64_alphabet c")
  case (Some p)
  then show ?thesis using strchr_Some [OF Some] digit [of p] nul by fastforce
qed (rule other)

subsection \<open>White space does not matter to the decoder\<close>

text \<open>The characters of a C string that are not white space.\<close>

definition visible :: "string \<Rightarrow> string" where
  "visible s = filter (\<lambda>c. \<not> isspace c) (takeWhile (\<lambda>c. c \<noteq> NUL) s)"

lemma visible_simps [simp]:
  "visible [] = []" "visible (NUL # s) = []" "isspace c \<Longrightarrow> visible (c # s) = visible s"
  "c \<noteq> NUL \<Longrightarrow> \<not> isspace c \<Longrightarrow> visible (c # s) = c # visible s"
  by (auto simp: visible_def)

lemma skip_spaces_visible:
  assumes "NUL \<in> set s"
  shows "\<exists>c r. skip_spaces s = Some (c # r) \<and> \<not> isspace c \<and>
    (if c = NUL then visible s = [] else visible s = c # visible r \<and> NUL \<in> set r)"
  using assms
proof (induction s)
  case (Cons a s)
  show ?case
  proof (cases "a \<noteq> NUL \<and> isspace a")
    case True
    then have "NUL \<in> set s" using Cons.prems by auto
    moreover have "skip_spaces (a # s) = skip_spaces s" "visible (a # s) = visible s" using True by simp_all
    ultimately show ?thesis using Cons.IH by (simp only:)
  next
    case False
    then show ?thesis using Cons.prems by auto
  qed
qed simp

lemma pton_tail_visible:
  assumes "NUL \<in> set s"
  shows "pton_tail s st = pton_tail (visible s @ [NUL]) st"
proof -
  obtain c r where "skip_spaces s = Some (c # r)" "\<not> isspace c"
    "if c = NUL then visible s = [] else visible s = c # visible r \<and> NUL \<in> set r"
    using skip_spaces_visible [OF assms] by blast
  then show ?thesis by (auto simp: pton_tail_def split: if_splits)
qed

lemma pton_pad_visible:
  assumes "NUL \<in> set s"
  shows "pton_pad s st = pton_pad (visible s @ [NUL]) st"
proof -
  obtain c r where "skip_spaces s = Some (c # r)" "\<not> isspace c"
    "if c = NUL then visible s = [] else visible s = c # visible r \<and> NUL \<in> set r"
    using skip_spaces_visible [OF assms] by blast
  moreover have "s \<noteq> []" using assms by auto
  ultimately show ?thesis
    using pton_tail_visible [OF assms, of st] pton_tail_visible [of r st]
    by (cases st) (auto simp: pton_pad_def split: if_splits)
qed

lemma pton_loop_visible:
  "NUL \<in> set s \<Longrightarrow> pton_loop n s st = pton_loop n (visible s @ [NUL]) st"
proof (induction s arbitrary: st)
  case (Cons c s)
  consider "c = NUL" | "isspace c" | "c = Pad64" | "c \<noteq> NUL" "\<not> isspace c" "c \<noteq> Pad64" by blast
  then show ?case
  proof cases
    case 2
    then have "NUL \<in> set s" using Cons.prems by auto
    with 2 Cons.IH show ?thesis by (cases "c = NUL") auto
  next
    case 3
    then have "NUL \<in> set s" using Cons.prems isspace_special(3) by auto
    from pton_pad_visible [OF this, of st] 3 show ?thesis by simp
  next
    case 4
    then have "NUL \<in> set s" using Cons.prems by auto
    note IH = Cons.IH [OF this]
    have "visible (c # s) = c # visible s" using 4 by simp
    then show ?thesis using 4 unfolding \<open>visible (c # s) = c # visible s\<close> append_Cons pton_loop.simps IH by simp
  qed simp
qed simp

subsection \<open>Packing and unpacking a group\<close>

definition byte0 :: "byte \<Rightarrow> byte \<Rightarrow> byte" where
  "byte0 p q = push_bit 2 p OR drop_bit 4 q"

definition byte1 :: "byte \<Rightarrow> byte \<Rightarrow> byte" where
  "byte1 q r = push_bit 4 (q AND 0x0F) OR drop_bit 2 r"

definition byte2 :: "byte \<Rightarrow> byte \<Rightarrow> byte" where
  "byte2 r s = push_bit 6 (r AND 0x03) OR s"

lemma output1_or: "output1 a b = push_bit 4 (a AND mask 2) OR drop_bit 4 b"
  unfolding output1_def low_masks by (rule byte_disjoint_add) (simp add: bit_simps)

lemma output2_or: "output2 b c = push_bit 2 (b AND mask 4) OR drop_bit 6 c"
  unfolding output2_def low_masks by (rule byte_disjoint_add) (simp add: bit_simps)

lemmas group_bits = output0_def output1_or output2_or output3_def byte0_def byte1_def byte2_def low_masks

lemma pack_outputs:
  "byte0 (output0 a) (output1 a b) = a" "byte1 (output1 a b) (output2 b c) = b"
  "byte2 (output2 b c) (output3 c) = c"
  unfolding group_bits by (rule byte_eqI, simp add: bit_simps flip: numeral_2_eq_2 numeral_3_eq_3)+

lemma small_bits:
  assumes "unat (p :: byte) < 64"
  shows "\<not> bit p 6" "\<not> bit p 7"
proof -
  have "unat (take_bit 6 p) = unat p" using assms by (simp add: unat_take_bit_mod)
  then have "take_bit 6 p = p" by (simp only: word_unat_eq_iff)
  then show "\<not> bit p 6" "\<not> bit p 7" using bit_take_bit_iff [of 6 p 6] bit_take_bit_iff [of 6 p 7] by simp_all
qed

lemma output_unpack:
  assumes "unat p < 64" "unat q < 64" "unat r < 64" "unat s < 64"
  shows "output0 (byte0 p q) = p" "output1 (byte0 p q) (byte1 q r) = q"
    "output2 (byte1 q r) (byte2 r s) = r" "output3 (byte2 r s) = s"
proof -
  note b = assms [THEN small_bits(1)] assms [THEN small_bits(2)]
  show "output0 (byte0 p q) = p" "output1 (byte0 p q) (byte1 q r) = q"
    "output2 (byte1 q r) (byte2 r s) = r" "output3 (byte2 r s) = s"
    unfolding group_bits
    by (rule byte_eqI, simp add: b bit_simps flip: numeral_2_eq_2 numeral_3_eq_3)+
qed

text \<open>The bits that slop over the last byte of a padded group are zero exactly if it is canonical.\<close>

lemma output_less [simp]:
  "unat (output0 a) < 64" "unat (output1 a b) < 64" "unat (output2 b c) < 64" "unat (output3 c) < 64"
  using unat_byte_less [of a] unat_byte_less [of b] unat_byte_less [of c]
  by (auto simp: unat_outputs)

lemma byte_0 [simp]: "byte1 q 0 = push_bit 4 (q AND 0x0F)" "byte2 r 0 = push_bit 6 (r AND 0x03)"
  "output2 0 0 = 0" "output3 0 = 0"
  by (simp_all add: byte1_def byte2_def output2_def output3_def)

lemma slop1:
  assumes "unat p < 64" "unat q < 64"
  shows "output0 a = p \<and> output1 a 0 = q \<longleftrightarrow> a = byte0 p q \<and> byte1 q 0 = 0"
  using pack_outputs(1) [of a 0] pack_outputs(2) [of a 0 0] output_unpack(1,2) [of p q 0 0] assms
  by auto

lemma slop2:
  assumes "unat p < 64" "unat q < 64" "unat r < 64"
  shows "output0 a = p \<and> output1 a b = q \<and> output2 b 0 = r \<longleftrightarrow>
    a = byte0 p q \<and> b = byte1 q r \<and> byte2 r 0 = 0"
  using pack_outputs(1) [of a b] pack_outputs(2) [of a b 0] pack_outputs(3) [of b 0]
    output_unpack(1,2,3) [of p q r 0] assms
  by auto

lemma pack_iff:
  assumes "unat p < 64" "unat q < 64" "unat r < 64" "unat s < 64"
  shows "output0 a = p \<and> output1 a b = q \<and> output2 b c = r \<and> output3 c = s \<longleftrightarrow>
    a = byte0 p q \<and> b = byte1 q r \<and> c = byte2 r s"
  using pack_outputs(1) [of a b] pack_outputs(2) [of a b c] pack_outputs(3) [of b c] output_unpack [OF assms] by auto

subsection \<open>Where the characters of an encoding can be\<close>

definition no_digit :: "string \<Rightarrow> bool" where
  "no_digit tail \<longleftrightarrow> tail = [] \<or> strchr Base64_alphabet (hd tail) = None"

lemma no_digit_simps [simp]: "no_digit []" "no_digit (c # s) \<longleftrightarrow> strchr Base64_alphabet c = None"
  by (simp_all add: no_digit_def)

lemma digit_eq [simp]: "unat p < 64 \<Longrightarrow> unat q < 64 \<Longrightarrow> digit p = digit q \<longleftrightarrow> p = q"
  by (simp add: digit_def word_unat_eq_iff)

lemma digit_visible [simp]:
  assumes "unat p < 64"
  shows "digit p \<noteq> NUL" "digit p \<noteq> Pad64" "Pad64 \<noteq> digit p" "\<not> isspace (digit p)"
    "strchr Base64_alphabet (digit p) = Some (unat p)"
  using alpha_visible [OF assms] alpha_visible(2) [OF assms, symmetric] assms by (simp_all add: digit_def)

lemma digits_split:
  assumes "NUL \<notin> set v"
  shows "\<exists>ps tail. v = map digit ps @ tail \<and> (\<forall>p \<in> set ps. unat p < 64) \<and> no_digit tail"
  using assms
proof (induction v)
  case (Cons c v)
  then obtain ps tail where v: "v = map digit ps @ tail" "\<forall>p \<in> set ps. unat p < 64" "no_digit tail" by auto
  show ?case
  proof (cases c rule: digit_char)
    case (digit p)
    let ?p = "word_of_nat p :: byte"
    have "unat ?p = p" using digit by (simp add: unat_of_nat take_bit_eq_mod)
    with digit v have "c # v = map Base64.digit (?p # ps) @ tail" "\<forall>p \<in> set (?p # ps). unat p < 64"
      by (auto simp: digit_def)
    with v(3) show ?thesis by blast
  next
    case other
    then have "c # v = map Base64.digit [] @ (c # v) \<and> (\<forall>p \<in> set ([] :: byte list). unat p < 64) \<and> no_digit (c # v)"
      by simp
    then show ?thesis by blast
  next
    case nul
    with Cons.prems show ?thesis by simp
  qed
qed (auto intro!: exI [of _ "[]"])

lemma encode_digits_0: "no_digit tail \<Longrightarrow> b64_encode bs = tail \<longleftrightarrow> bs = [] \<and> tail = []"
  by (cases bs rule: b64_encode.cases) (auto simp: group_chars_output)

lemma encode_digits_1:
  "unat p < 64 \<Longrightarrow> no_digit tail \<Longrightarrow> b64_encode bs \<noteq> digit p # tail"
  by (cases bs rule: b64_encode.cases) (auto simp: group_chars_output)

lemma encode_digits_2:
  assumes "unat p < 64" "unat q < 64" "no_digit tail"
  shows "b64_encode bs = digit p # digit q # tail \<longleftrightarrow>
    bs = [byte0 p q] \<and> tail = [Pad64, Pad64] \<and> byte1 q 0 = 0"
  using assms slop1 [of p q]
  by (cases bs rule: b64_encode.cases) (auto simp: group_chars_output simp del: byte_0(1,2))

lemma encode_digits_3:
  assumes "unat p < 64" "unat q < 64" "unat r < 64" "no_digit tail"
  shows "b64_encode bs = digit p # digit q # digit r # tail \<longleftrightarrow>
    bs = [byte0 p q, byte1 q r] \<and> tail = [Pad64] \<and> byte2 r 0 = 0"
  using assms slop2 [of p q r]
  by (cases bs rule: b64_encode.cases) (auto simp: group_chars_output simp del: byte_0(1,2))

lemma encode_digits_4:
  assumes "unat p < 64" "unat q < 64" "unat r < 64" "unat s < 64"
  shows "b64_encode bs = digit p # digit q # digit r # digit s # tail \<longleftrightarrow>
    (\<exists>bs'. bs = byte0 p q # byte1 q r # byte2 r s # bs' \<and> b64_encode bs' = tail)"
  using assms pack_iff [of p q r s]
  by (cases bs rule: b64_encode.cases) (auto simp: group_chars_output simp del: byte_0(1,2))

subsection \<open>The decoder stays inside the target\<close>

definition pton_inv :: "nat \<Rightarrow> byte list \<Rightarrow> nat \<Rightarrow> nat \<Rightarrow> bool" where
  "pton_inv targsize t tarindex state \<longleftrightarrow>
     targsize \<le> length t \<and> targsize < 2 ^ 31 \<and> state < 4 \<and> tarindex \<le> targsize \<and>
     (state \<noteq> 0 \<longrightarrow> tarindex < targsize)"

definition same_behind :: "nat \<Rightarrow> byte list \<Rightarrow> byte list \<Rightarrow> bool" where
  "same_behind n t t' \<longleftrightarrow> length t' = length t \<and> drop n t' = drop n t"

lemma same_behind_refl [simp]: "same_behind n t t"
  by (simp add: same_behind_def)

lemma same_behind_trans: "same_behind n t t' \<Longrightarrow> same_behind n t' t'' \<Longrightarrow> same_behind n t t''"
  by (simp add: same_behind_def)

lemma same_behind_update [simp]: "i < n \<Longrightarrow> same_behind n t t' \<Longrightarrow> same_behind n t (t'[i := b])"
  by (simp add: same_behind_def)

lemma pton_digit_inv:
  assumes "pton_inv targsize t i st"
  obtains (full) "pton_digit targsize pos (Some t, i, st) = Some (Inl (Some t))"
  | (step) t' i' st' where "pton_digit targsize pos (Some t, i, st) = Some (Inr (Some t', i', st'))"
      "pton_inv targsize t' i' st'" "same_behind targsize t t'"
proof -
  have u: "u32 (i + 1) = i + 1" if "i < targsize" using assms that by (simp add: pton_inv_def u32_def)
  have "st = 0 \<or> st = 1 \<or> st = 2 \<or> st = 3" using assms by (auto simp: pton_inv_def)
  then show ?thesis
    using assms full step u
    by (elim disjE; cases "targsize \<le> i"; cases "targsize \<le> i + 1")
      (auto simp: pton_digit_def Let_def put_byte_def or_byte_def pton_inv_def)
qed

text \<open>What a call returns: -1 or a count within the target, and nothing behind the target changed.\<close>

definition pton_safe :: "nat \<Rightarrow> byte list \<Rightarrow> (int \<times> byte list option) option \<Rightarrow> bool" where
  "pton_safe targsize t r \<longleftrightarrow>
     (\<exists>v t'. r = Some (v, Some t') \<and> - 1 \<le> v \<and> v \<le> int targsize \<and> same_behind targsize t t')"

lemma pton_return_safe:
  "pton_inv targsize t i st \<Longrightarrow> pton_return (Some t, i, st) = (int i, Some t) \<and> i \<le> targsize"
  using to_signed_int [of i] by (simp add: pton_return_def pton_inv_def u32_def)

lemma pton_tail_safe:
  assumes "NUL \<in> set s" "pton_inv targsize t i st" "st \<noteq> 0"
  shows "pton_safe targsize t (pton_tail s (Some t, i, st))"
proof -
  have "i < length t" using assms by (simp add: pton_inv_def)
  moreover obtain c r where "skip_spaces s = Some (c # r)" using skip_spaces_visible [OF assms(1)] by blast
  ultimately show ?thesis
    using pton_return_safe [OF assms(2)] by (auto simp: pton_tail_def pton_safe_def)
qed

lemma pton_pad_safe:
  assumes "NUL \<in> set s" "pton_inv targsize t i st"
  shows "pton_safe targsize t (pton_pad s (Some t, i, st))"
proof -
  obtain c r where sk: "skip_spaces s = Some (c # r)" "c \<noteq> NUL \<Longrightarrow> NUL \<in> set r"
    using skip_spaces_visible [OF assms(1)] by (auto split: if_splits)
  have ne: "s \<noteq> []" using assms(1) by auto
  show ?thesis
  proof (cases "st = 2 \<and> c = Pad64")
    case True
    then have r: "NUL \<in> set r" using sk(2) by simp
    then have "r \<noteq> []" by auto
    with True sk ne pton_tail_safe [OF r assms(2)] show ?thesis by (simp add: pton_pad_def)
  next
    case False
    with sk ne pton_tail_safe [OF assms] show ?thesis
      by (auto simp: pton_pad_def) (auto simp: pton_safe_def)
  qed
qed

lemma pton_loop_safe:
  assumes "NUL \<in> set s" "pton_inv targsize t i st"
  shows "pton_safe targsize t (pton_loop targsize s (Some t, i, st))"
  using assms
proof (induction s arbitrary: t i st)
  case (Cons c s)
  note ret = pton_return_safe [OF Cons.prems(2)]
  consider "c = NUL" | "c \<noteq> NUL" "isspace c" | "c = Pad64"
    | "c \<noteq> NUL" "\<not> isspace c" "c \<noteq> Pad64" "strchr Base64_alphabet c = None"
    | pos where "c \<noteq> NUL" "\<not> isspace c" "c \<noteq> Pad64" "strchr Base64_alphabet c = Some pos"
    by blast
  then show ?case
  proof cases
    case 1
    with ret show ?thesis by (auto simp: pton_safe_def)
  next
    case 2
    with Cons show ?thesis by simp
  next
    case 3
    then have "NUL \<in> set s" using Cons.prems(1) by simp
    with 3 pton_pad_safe [OF _ Cons.prems(2)] show ?thesis by simp
  next
    case 4
    then show ?thesis by (simp add: pton_safe_def)
  next
    case (5 pos)
    then have s: "NUL \<in> set s" using Cons.prems(1) by simp
    consider (full) "pton_digit targsize pos (Some t, i, st) = Some (Inl (Some t))"
      | (step) t' i' st' where "pton_digit targsize pos (Some t, i, st) = Some (Inr (Some t', i', st'))"
        "pton_inv targsize t' i' st'" "same_behind targsize t t'"
      using pton_digit_inv [OF Cons.prems(2), of pos] by blast
    then show ?thesis
    proof cases
      case full
      with 5 show ?thesis by (simp add: pton_safe_def)
    next
      case (step t' i' st')
      from Cons.IH [OF s step(2)] have "pton_safe targsize t (pton_loop targsize s (Some t', i', st'))"
        using same_behind_trans [OF step(3)] by (auto simp: pton_safe_def)
      with 5 step(1) show ?thesis by simp
    qed
  qed
qed simp

subsection \<open>The decoder accepts exactly the encodings\<close>

text \<open>
  The room decoding needs: a byte for every byte of data, and one more for the bits that slop
  over when the last group is padded.
\<close>

definition room_for :: "byte list \<Rightarrow> nat" where
  "room_for bs = length bs + (if length bs mod 3 = 0 then 0 else 1)"

lemma room_for_group: "room_for (a # b # c # bs) = 3 + room_for bs"
  by (simp add: room_for_def mod_Suc)

definition decodes :: "nat \<Rightarrow> byte list \<Rightarrow> string \<Rightarrow> (int \<times> byte list option) option \<Rightarrow> bool" where
  "decodes targsize pre v r \<longleftrightarrow>
     (if \<exists>bs. b64_encode bs = v \<and> length pre + room_for bs \<le> targsize
      then \<exists>bs t. b64_encode bs = v \<and> r = Some (int (length pre + length bs), Some t) \<and>
             take (length pre + length bs) t = pre @ bs
      else \<exists>t. r = Some (- 1, t))"

lemma pton_digit_states:
  assumes "targsize \<le> length t" "i < 2 ^ 31"
  shows "pton_digit targsize (unat p) (Some t, i, 0) =
      Some (if i < targsize then Inr (Some (t[i := push_bit 2 p]), i, 1) else Inl (Some t))"
    "pton_digit targsize (unat p) (Some t, i, 1) =
      Some (if i + 1 < targsize
            then Inr (Some (t[i := t ! i OR drop_bit 4 p, i + 1 := push_bit 4 (p AND 0x0F)]), i + 1, 2)
            else Inl (Some t))"
    "pton_digit targsize (unat p) (Some t, i, 2) =
      Some (if i + 1 < targsize
            then Inr (Some (t[i := t ! i OR drop_bit 2 p, i + 1 := push_bit 6 (p AND 0x03)]), i + 1, 3)
            else Inl (Some t))"
    "pton_digit targsize (unat p) (Some t, i, 3) =
      Some (if i < targsize then Inr (Some (t[i := t ! i OR p]), i + 1, 0) else Inl (Some t))"
  using assms by (simp_all add: pton_digit_def Let_def put_byte_def or_byte_def u32_def)

lemmas pton_states = pton_digit_states [simplified]

lemma take_snoc: "i < length t \<Longrightarrow> take (Suc i) t = take i t @ [t ! i]"
  by (rule take_Suc_conv_app_nth)

text \<open>Two, three and four digits from the state between groups.\<close>

lemma run_2:
  assumes "targsize \<le> length t" "targsize < 2 ^ 31" "unat p < 64" "unat q < 64" "Suc i < targsize"
  shows "\<exists>t'. pton_loop targsize (digit p # digit q # src) (Some t, i, 0) =
      pton_loop targsize src (Some t', Suc i, 2) \<and> length t' = length t \<and>
    take (Suc i) t' = take i t @ [byte0 p q] \<and> t' ! (Suc i) = byte1 q 0"
  using assms
  by (intro exI [of _ "t[i := push_bit 2 p OR drop_bit 4 q, Suc i := push_bit 4 (q AND 0x0F)]"])
    (simp add: pton_states take_snoc byte0_def)

lemma run_3:
  assumes "targsize \<le> length t" "targsize < 2 ^ 31" "unat p < 64" "unat q < 64" "unat r < 64" "Suc (Suc i) < targsize"
  shows "\<exists>t'. pton_loop targsize (digit p # digit q # digit r # src) (Some t, i, 0) =
      pton_loop targsize src (Some t', Suc (Suc i), 3) \<and> length t' = length t \<and>
    take (Suc (Suc i)) t' = take i t @ [byte0 p q, byte1 q r] \<and> t' ! (Suc (Suc i)) = byte2 r 0"
proof -
  obtain t1 where t1: "pton_loop targsize (digit p # digit q # digit r # src) (Some t, i, 0) =
      pton_loop targsize (digit r # src) (Some t1, Suc i, 2)" "length t1 = length t"
    "take (Suc i) t1 = take i t @ [byte0 p q]" "t1 ! (Suc i) = byte1 q 0"
    using run_2 [of targsize t p q i "digit r # src"] assms by auto
  let ?t2 = "t1[Suc i := t1 ! (Suc i) OR drop_bit 2 r, Suc (Suc i) := push_bit 6 (r AND 0x03)]"
  have "pton_loop targsize (digit r # src) (Some t1, Suc i, 2) = pton_loop targsize src (Some ?t2, Suc (Suc i), 3)"
    using assms t1(2) by (simp add: pton_states)
  moreover have "take (Suc (Suc i)) ?t2 = take i t @ [byte0 p q, byte1 q r]"
    using take_snoc [of "Suc i" ?t2] t1 assms by (simp add: byte1_def)
  ultimately show ?thesis using t1 assms by (intro exI [of _ ?t2]) simp
qed

lemma run_4:
  assumes "targsize \<le> length t" "targsize < 2 ^ 31" "unat p < 64" "unat q < 64" "unat r < 64" "unat s < 64"
    and "Suc (Suc i) < targsize"
  shows "\<exists>t'. pton_loop targsize (digit p # digit q # digit r # digit s # src) (Some t, i, 0) =
      pton_loop targsize src (Some t', Suc (Suc (Suc i)), 0) \<and> length t' = length t \<and>
    take (Suc (Suc (Suc i))) t' = take i t @ [byte0 p q, byte1 q r, byte2 r s]"
proof -
  obtain t1 where t1: "pton_loop targsize (digit p # digit q # digit r # digit s # src) (Some t, i, 0) =
      pton_loop targsize (digit s # src) (Some t1, Suc (Suc i), 3)" "length t1 = length t"
    "take (Suc (Suc i)) t1 = take i t @ [byte0 p q, byte1 q r]" "t1 ! (Suc (Suc i)) = byte2 r 0"
    using run_3 [of targsize t p q r i "digit s # src"] assms by auto
  let ?t2 = "t1[Suc (Suc i) := t1 ! (Suc (Suc i)) OR s]"
  have "pton_loop targsize (digit s # src) (Some t1, Suc (Suc i), 3) = pton_loop targsize src (Some ?t2, Suc (Suc (Suc i)), 0)"
    using assms t1(2) by (simp add: pton_states)
  moreover have "take (Suc (Suc (Suc i))) ?t2 = take i t @ [byte0 p q, byte1 q r, byte2 r s]"
    using take_snoc [of "Suc (Suc i)" ?t2] t1 assms by (simp add: byte2_def)
  ultimately show ?thesis using t1 by (intro exI [of _ ?t2]) simp
qed

lemma run_full:
  assumes "targsize \<le> length t" "targsize < 2 ^ 31" "i \<le> targsize" "unat p < 64" "unat q < 64" "unat r < 64"
  shows "targsize \<le> Suc i \<Longrightarrow> \<exists>t'. pton_loop targsize (digit p # digit q # src) (Some t, i, 0) = Some (- 1, t')"
    and "targsize \<le> Suc (Suc i) \<Longrightarrow>
      \<exists>t'. pton_loop targsize (digit p # digit q # digit r # src) (Some t, i, 0) = Some (- 1, t')"
  using assms by (simp_all add: pton_states)

text \<open>The ends of a text.\<close>

lemma decodes_0:
  assumes "no_digit tail" "NUL \<notin> set tail" "\<forall>c \<in> set tail. \<not> isspace c" "i \<le> targsize" "targsize < 2 ^ 31" "i \<le> length t"
  shows "decodes targsize (take i t) tail (pton_loop targsize (tail @ [NUL]) (Some t, i, 0))"
proof (cases tail)
  case Nil
  then have "b64_encode [] = tail \<and> length (take i t) + room_for [] \<le> targsize"
    using assms by (simp add: room_for_def)
  with Nil assms show ?thesis
    by (auto simp: decodes_def pton_return_def encode_digits_0 to_signed_def room_for_def)
next
  case (Cons c tail')
  with assms show ?thesis by (auto simp: decodes_def encode_digits_0 pton_pad_def)
qed

lemma pton_tail_end:
  assumes "NUL \<notin> set v" "\<forall>c \<in> set v. \<not> isspace c" "i < length t" "i < 2 ^ 31"
  shows "pton_tail (v @ [NUL]) (Some t, i, st) =
    Some (if v = [] \<and> t ! i = 0 then int i else - 1, Some t)"
  using assms by (cases v) (auto simp: pton_tail_def pton_return_def to_signed_def)

lemma pton_pad_end:
  assumes "NUL \<notin> set v" "\<forall>c \<in> set v. \<not> isspace c" "i < length t" "i < 2 ^ 31"
  shows "pton_pad (v @ [NUL]) (Some t, i, 2) = Some (if v = [Pad64] \<and> t ! i = 0 then int i else - 1, Some t)"
    and "pton_pad (v @ [NUL]) (Some t, i, 3) = Some (if v = [] \<and> t ! i = 0 then int i else - 1, Some t)"
proof -
  show "pton_pad (v @ [NUL]) (Some t, i, 3) = Some (if v = [] \<and> t ! i = 0 then int i else - 1, Some t)"
    using pton_tail_end [OF assms, of 3] by (simp add: pton_pad_def)
  show "pton_pad (v @ [NUL]) (Some t, i, 2) = Some (if v = [Pad64] \<and> t ! i = 0 then int i else - 1, Some t)"
  proof (cases v)
    case (Cons c v')
    with assms pton_tail_end [of v' i t 2] show ?thesis by (auto simp: pton_pad_def)
  qed (simp add: pton_pad_def)
qed

lemma pton_loop_end:
  assumes "no_digit v" "NUL \<notin> set v" "\<forall>c \<in> set v. \<not> isspace c" "i < length t" "i < 2 ^ 31"
  shows "pton_loop n (v @ [NUL]) (Some t, i, 1) = Some (- 1, Some t)"
    and "pton_loop n (v @ [NUL]) (Some t, i, 2) =
      Some (if v = [Pad64, Pad64] \<and> t ! i = 0 then int i else - 1, Some t)"
    and "pton_loop n (v @ [NUL]) (Some t, i, 3) = Some (if v = [Pad64] \<and> t ! i = 0 then int i else - 1, Some t)"
proof -
  show "pton_loop n (v @ [NUL]) (Some t, i, 1) = Some (- 1, Some t)"
    using assms by (cases v) (auto simp: pton_pad_def)
  show "pton_loop n (v @ [NUL]) (Some t, i, 2) =
      Some (if v = [Pad64, Pad64] \<and> t ! i = 0 then int i else - 1, Some t)"
    using assms pton_pad_end(1) [of "tl v" i t] by (cases v) auto
  show "pton_loop n (v @ [NUL]) (Some t, i, 3) = Some (if v = [Pad64] \<and> t ! i = 0 then int i else - 1, Some t)"
    using assms pton_pad_end(2) [of "tl v" i t] by (cases v) auto
qed

lemma decodes_reject:
  "(\<And>bs. b64_encode bs = v \<Longrightarrow> targsize < length pre + room_for bs) \<Longrightarrow> r = Some (- 1, t) \<Longrightarrow>
   decodes targsize pre v r"
  by (force simp: decodes_def)

lemma decodes_accept:
  "b64_encode bs = v \<Longrightarrow> length pre + room_for bs \<le> targsize \<Longrightarrow>
   r = Some (int (length pre + length bs), Some t) \<Longrightarrow> take (length pre + length bs) t = pre @ bs \<Longrightarrow>
   decodes targsize pre v r"
  unfolding decodes_def by auto

lemma decodes_1:
  assumes "unat p < 64" "no_digit tail" "NUL \<notin> set tail" "\<forall>c \<in> set tail. \<not> isspace c"
    and "targsize \<le> length t" "targsize < 2 ^ 31" "i \<le> targsize"
  shows "decodes targsize (take i t) (digit p # tail) (pton_loop targsize (digit p # tail @ [NUL]) (Some t, i, 0))"
proof -
  have "\<exists>t'. pton_loop targsize (digit p # tail @ [NUL]) (Some t, i, 0) = Some (- 1, t')"
    using assms pton_loop_end(1) [OF assms(2-4), of i "t[i := push_bit 2 p]" targsize]
    by (auto simp: pton_states)
  then show ?thesis using encode_digits_1 [OF assms(1,2)] by (auto intro: decodes_reject)
qed

lemma decodes_2:
  assumes "unat p < 64" "unat q < 64" "no_digit tail" "NUL \<notin> set tail" "\<forall>c \<in> set tail. \<not> isspace c"
    and "targsize \<le> length t" "targsize < 2 ^ 31" "i \<le> targsize"
  shows "decodes targsize (take i t) (digit p # digit q # tail)
    (pton_loop targsize (digit p # digit q # tail @ [NUL]) (Some t, i, 0))"
proof (cases "targsize \<le> Suc i")
  case True
  then obtain t' where "pton_loop targsize (digit p # digit q # tail @ [NUL]) (Some t, i, 0) = Some (- 1, t')"
    using run_full(1) [of targsize t i p q p "tail @ [NUL]"] assms by auto
  then show ?thesis
    using True assms by (intro decodes_reject) (auto simp: encode_digits_2 room_for_def)
next
  case False
  then obtain t' where t': "pton_loop targsize (digit p # digit q # tail @ [NUL]) (Some t, i, 0) =
      pton_loop targsize (tail @ [NUL]) (Some t', Suc i, 2)" "length t' = length t"
    "take (Suc i) t' = take i t @ [byte0 p q]" "t' ! Suc i = byte1 q 0"
    using run_2 [of targsize t p q i "tail @ [NUL]"] assms by auto
  note e = pton_loop_end(2) [OF assms(3-5), of "Suc i" t' targsize]
  show ?thesis
  proof (cases "tail = [Pad64, Pad64] \<and> byte1 q 0 = 0")
    case True
    then have "b64_encode [byte0 p q] = digit p # digit q # tail" using encode_digits_2 [OF assms(1-3)] by blast
    then show ?thesis
      using True False t' e assms by (intro decodes_accept [where bs = "[byte0 p q]" and t = t']) (auto simp: room_for_def)
  next
    case no: False
    then show ?thesis
      using False t' e assms encode_digits_2 [OF assms(1-3)]
      by (intro decodes_reject [where t = "Some t'"]) auto
  qed
qed

lemma decodes_3:
  assumes "unat p < 64" "unat q < 64" "unat r < 64" "no_digit tail" "NUL \<notin> set tail" "\<forall>c \<in> set tail. \<not> isspace c"
    and "targsize \<le> length t" "targsize < 2 ^ 31" "i \<le> targsize"
  shows "decodes targsize (take i t) (digit p # digit q # digit r # tail)
    (pton_loop targsize (digit p # digit q # digit r # tail @ [NUL]) (Some t, i, 0))"
proof (cases "targsize \<le> Suc (Suc i)")
  case True
  then obtain t' where
    "pton_loop targsize (digit p # digit q # digit r # tail @ [NUL]) (Some t, i, 0) = Some (- 1, t')"
    using run_full(2) [of targsize t i p q r "tail @ [NUL]"] assms by auto
  then show ?thesis
    using True assms by (intro decodes_reject) (auto simp: encode_digits_3 room_for_def)
next
  case False
  then obtain t' where t': "pton_loop targsize (digit p # digit q # digit r # tail @ [NUL]) (Some t, i, 0) =
      pton_loop targsize (tail @ [NUL]) (Some t', Suc (Suc i), 3)" "length t' = length t"
    "take (Suc (Suc i)) t' = take i t @ [byte0 p q, byte1 q r]" "t' ! Suc (Suc i) = byte2 r 0"
    using run_3 [of targsize t p q r i "tail @ [NUL]"] assms by auto
  note e = pton_loop_end(3) [OF assms(4-6), of "Suc (Suc i)" t' targsize]
  show ?thesis
  proof (cases "tail = [Pad64] \<and> byte2 r 0 = 0")
    case True
    then have "b64_encode [byte0 p q, byte1 q r] = digit p # digit q # digit r # tail"
      using encode_digits_3 [OF assms(1-4)] by blast
    then show ?thesis
      using True False t' e assms
      by (intro decodes_accept [where bs = "[byte0 p q, byte1 q r]" and t = t']) (auto simp: room_for_def)
  next
    case no: False
    then show ?thesis
      using False t' e assms encode_digits_3 [OF assms(1-4)]
      by (intro decodes_reject [where t = "Some t'"]) auto
  qed
qed

lemma b64_encode_inj: "b64_encode xs = b64_encode ys \<Longrightarrow> xs = ys"
proof (induction xs arbitrary: ys rule: b64_encode.induct)
  case 1
  then show ?case by (cases ys rule: b64_encode.cases) (auto simp: group_chars_output)
next
  case (2 a)
  then show ?case
    using encode_digits_2 [of "output0 a" "output1 a 0" "[Pad64, Pad64]" ys] pack_outputs(1) [of a 0]
    by (simp add: group_chars_output)
next
  case (3 a b)
  then show ?case
    using encode_digits_3 [of "output0 a" "output1 a b" "output2 b 0" "[Pad64]" ys]
      pack_outputs(1) [of a b] pack_outputs(2) [of a b 0]
    by (simp add: group_chars_output)
next
  case (4 a b c r)
  then show ?case
    using encode_digits_4 [of "output0 a" "output1 a b" "output2 b c" "output3 c" ys "b64_encode r"]
      pack_outputs(1) [of a b] pack_outputs(2) [of a b c] pack_outputs(3) [of b c]
    by (auto simp: group_chars_output)
qed

lemma decodes_group:
  assumes p: "unat p < 64" "unat q < 64" "unat r < 64" "unat s < 64"
    and t: "targsize \<le> length t" "targsize < 2 ^ 31" "i \<le> targsize"
    and rest: "\<And>t'. length t' = length t \<Longrightarrow> i + 3 \<le> targsize \<Longrightarrow>
      decodes targsize (take (i + 3) t') v (pton_loop targsize src (Some t', i + 3, 0))"
  shows "decodes targsize (take i t) (digit p # digit q # digit r # digit s # v)
    (pton_loop targsize (digit p # digit q # digit r # digit s # src) (Some t, i, 0))"
proof (cases "targsize \<le> Suc (Suc i)")
  case True
  then obtain t' where
    "pton_loop targsize (digit p # digit q # digit r # digit s # src) (Some t, i, 0) = Some (- 1, t')"
    using run_full(2) [of targsize t i p q r "digit s # src"] assms by auto
  then show ?thesis
    using True t by (intro decodes_reject) (auto simp: encode_digits_4 [OF p] room_for_group)
next
  case False
  let ?g = "[byte0 p q, byte1 q r, byte2 r s]"
  obtain t' where t': "pton_loop targsize (digit p # digit q # digit r # digit s # src) (Some t, i, 0) =
      pton_loop targsize src (Some t', i + 3, 0)" "length t' = length t" "take (i + 3) t' = take i t @ ?g"
    using run_4 [of targsize t p q r s i src] False assms by (auto simp: numeral_3_eq_3)
  have il: "i \<le> length t" using t by simp
  then have len: "length (take i t) = i" by simp
  have d: "decodes targsize (take i t @ ?g) v (pton_loop targsize src (Some t', i + 3, 0))"
    using rest [OF t'(2)] t'(3) False by simp
  have gl: "length (take i t @ ?g) = i + 3" using len by simp
  show ?thesis
  proof (cases "\<exists>bs. b64_encode bs = v \<and> i + 3 + room_for bs \<le> targsize")
    case True
    obtain bs u where "b64_encode bs = v"
      "pton_loop targsize src (Some t', i + 3, 0) = Some (int (i + 3 + length bs), Some u)"
      "take (i + 3 + length bs) u = take i t @ ?g @ bs"
      using d unfolding decodes_def gl if_P [OF True] by auto
    moreover from this True have "i + 3 + room_for bs \<le> targsize" by (metis b64_encode_inj)
    ultimately show ?thesis unfolding t'(1)
      by (intro decodes_accept [where bs = "?g @ bs" and t = u])
        (simp_all add: group_chars_output output_unpack [OF p] room_for_group min_absorb2 il numeral_3_eq_3)
  next
    case no: False
    obtain u where "pton_loop targsize src (Some t', i + 3, 0) = Some (- 1, u)"
      using d unfolding decodes_def gl if_not_P [OF no] by blast
    moreover have "targsize < length (take i t) + room_for bs"
      if "b64_encode bs = digit p # digit q # digit r # digit s # v" for bs
    proof -
      from that obtain bs' where "bs = ?g @ bs'" "b64_encode bs' = v" by (auto simp: encode_digits_4 [OF p])
      with no len show ?thesis by (auto simp: room_for_group not_le)
    qed
    ultimately show ?thesis unfolding t'(1) by (intro decodes_reject)
  qed
qed

lemma byte_list_cases4:
  obtains "ps = []" | p where "ps = [p]" | p q where "ps = [p, q]" | p q r where "ps = [p, q, r]"
  | p q r s ps' where "ps = p # q # r # s # ps'"
  by (metis list.exhaust)

lemma pton_loop_decodes:
  assumes "\<forall>p \<in> set ps. unat p < 64" "no_digit tail" "NUL \<notin> set tail" "\<forall>c \<in> set tail. \<not> isspace c"
    and "targsize \<le> length t" "targsize < 2 ^ 31" "i \<le> targsize"
  shows "decodes targsize (take i t) (map digit ps @ tail)
    (pton_loop targsize ((map digit ps @ tail) @ [NUL]) (Some t, i, 0))"
  using assms
proof (induction ps arbitrary: t i rule: length_induct)
  case (1 ps)
  show ?case
  proof (cases ps rule: byte_list_cases4)
    case 1
    with "1.prems" decodes_0 [of tail i targsize t] show ?thesis by simp
  next
    case (2 p)
    with "1.prems" decodes_1 [of p tail targsize t i] show ?thesis by simp
  next
    case (3 p q)
    with "1.prems" decodes_2 [of p q tail targsize t i] show ?thesis by simp
  next
    case (4 p q r)
    with "1.prems" decodes_3 [of p q r tail targsize t i] show ?thesis by simp
  next
    case (5 p q r s ps')
    have "decodes targsize (take (i + 3) t') (map digit ps' @ tail)
        (pton_loop targsize ((map digit ps' @ tail) @ [NUL]) (Some t', i + 3, 0))"
      if "length t' = length t" "i + 3 \<le> targsize" for t'
      using "1.prems" 5 that by (intro "1.IH" [rule_format]) auto
    with "1.prems" 5 decodes_group [of p q r s targsize t i "map digit ps' @ tail" "(map digit ps' @ tail) @ [NUL]"]
    show ?thesis by simp
  qed
qed

lemma f_b64_pton_decodes:
  assumes "NUL \<in> set s" "targsize \<le> length t" "targsize < 2 ^ 31"
  shows "decodes targsize [] (visible s) (f_b64_pton s (Some t) targsize)"
proof -
  have v: "NUL \<notin> set (visible s)" "\<forall>c \<in> set (visible s). \<not> isspace c"
    by (auto simp: visible_def dest: set_takeWhileD)
  obtain ps tail where "visible s = map digit ps @ tail" "\<forall>p \<in> set ps. unat p < 64" "no_digit tail"
    using digits_split [OF v(1)] by blast
  with v assms pton_loop_decodes [of ps tail targsize t 0] show ?thesis
    unfolding f_b64_pton_def pton_loop_visible [OF assms(1)] by simp
qed

lemma f_b64_ntop_encoded:
  assumes "length data < 2 ^ 28" "targsize \<le> length target"
  shows "encoded targsize target 0 (b64_encode data)
    (f_b64_ntop (data @ extra) (length data) target targsize)"
  unfolding f_b64_ntop_def using assms by (intro ntop_loop_encoded) simp_all

lemma visible_encoded: "visible (b64_encode data @ NUL # r) = b64_encode data"
  by (induction data rule: b64_encode.induct) (simp_all add: group_chars_output)

subsection \<open>Properties\<close>

text \<open>
  C10. \<^verbatim>\<open>f_b64_ntop\<close> writes the Base64 text of its input and a terminator and returns the length of
  the text, if text and terminator fit; otherwise it returns -1. Nothing behind the announced
  size of the target is touched.
\<close>

theorem f_b64_ntop_exact:
  assumes "length data < 2 ^ 28" "targsize \<le> length target"
  shows "if length (b64_encode data) < targsize
    then f_b64_ntop (data @ extra) (length data) target targsize =
      Some (int (length (b64_encode data)),
            b64_encode data @ NUL # drop (length (b64_encode data) + 1) target)
    else \<exists>t. f_b64_ntop (data @ extra) (length data) target targsize = Some (- 1, t) \<and>
      length t = length target \<and> drop targsize t = drop targsize target"
  using f_b64_ntop_encoded [OF assms, of extra] by (simp add: encoded_def)

theorem f_b64_ntop_exact_witness:
  "f_b64_ntop [0x66, 0x6F] 2 ''........'' 8 = Some (4, ''Zm8='' @ NUL # ''...'')"
proof -
  have "b64_encode [0x66, 0x6F] = ''Zm8=''"
    by (simp add: group_chars_def group24_def Base64_alphabet_def Pad64_def)
  then show ?thesis using f_b64_ntop_exact [of "[0x66, 0x6F]" 8 "''........''" "[]"]
    by (simp flip: numeral_2_eq_2)
qed

text \<open>
  C11. \<^verbatim>\<open>f_b64_pton\<close> accepts a string exactly if what is left of it without white space is the
  Base64 text of some data that fits into the target, and it then stores that data; every other
  string, one with bits set behind the last byte included, is refused with -1. On any string it
  changes nothing behind the announced size of the target.
\<close>

theorem f_b64_pton_exact:
  assumes "NUL \<in> set s" "targsize \<le> length t" "targsize < 2 ^ 31"
  shows "\<exists>v t'. f_b64_pton s (Some t) targsize = Some (v, Some t') \<and>
    length t' = length t \<and> drop targsize t' = drop targsize t \<and>
    (if \<exists>bs. b64_encode bs = visible s \<and> room_for bs \<le> targsize
     then 0 \<le> v \<and> b64_encode (take (nat v) t') = visible s
     else v = - 1)"
proof -
  have "pton_safe targsize t (f_b64_pton s (Some t) targsize)"
    unfolding f_b64_pton_def using assms by (intro pton_loop_safe) (simp_all add: pton_inv_def)
  then obtain v t' where r: "f_b64_pton s (Some t) targsize = Some (v, Some t')"
    "length t' = length t" "drop targsize t' = drop targsize t"
    by (auto simp: pton_safe_def same_behind_def)
  from f_b64_pton_decodes [OF assms] have
    "if \<exists>bs. b64_encode bs = visible s \<and> room_for bs \<le> targsize
     then 0 \<le> v \<and> b64_encode (take (nat v) t') = visible s else v = - 1"
    unfolding decodes_def r(1) by (auto split: if_splits)
  with r show ?thesis by blast
qed

theorem f_b64_pton_exact_witness:
  "\<exists>v t'. f_b64_pton (''Zm 8='' @ [NUL]) (Some [9, 9, 9]) 3 = Some (v, Some t') \<and>
    0 \<le> v \<and> b64_encode (take (nat v) t') = ''Zm8=''"
proof -
  have v: "visible (''Zm 8='' @ [NUL]) = ''Zm8=''" by (simp add: visible_def isspace_def)
  have "b64_encode [0x66, 0x6F] = ''Zm8=''"
    by (simp add: group_chars_def group24_def Base64_alphabet_def Pad64_def)
  then have "\<exists>bs. b64_encode bs = ''Zm8='' \<and> room_for bs \<le> 3"
    by (intro exI [of _ "[0x66, 0x6F]"]) (simp add: room_for_def)
  with f_b64_pton_exact [of "''Zm 8='' @ [NUL]" 3 "[9, 9, 9]", unfolded v] show ?thesis by auto
qed

text \<open>
  C12. What \<^verbatim>\<open>f_b64_ntop\<close> wrote, \<^verbatim>\<open>f_b64_pton\<close> turns back into the data, if the target has room for
  the data and one more byte.
\<close>

theorem base64_roundtrip:
  assumes "f_b64_ntop data (length data) target targsize = Some (n, out)" "0 \<le> n"
    and "length data < 2 ^ 28" "targsize \<le> length target"
    and "length data < cap" "cap \<le> length t" "cap < 2 ^ 31"
  shows "\<exists>t'. f_b64_pton out (Some t) cap = Some (int (length data), Some t') \<and> take (length data) t' = data"
proof -
  have "out = b64_encode data @ NUL # drop (length (b64_encode data) + 1) target"
    using f_b64_ntop_encoded [OF assms(3,4), of "[]"] assms(1,2) by (auto simp: encoded_def split: if_splits)
  then have v: "visible out = b64_encode data" "NUL \<in> set out" by (simp_all add: visible_encoded)
  have "\<exists>bs. b64_encode bs = b64_encode data \<and> room_for bs \<le> cap"
    using assms(5) by (intro exI [of _ data]) (simp add: room_for_def)
  with f_b64_pton_decodes [OF v(2) assms(6,7)] show ?thesis
    unfolding decodes_def v(1) by (auto dest: b64_encode_inj)
qed

theorem base64_roundtrip_witness:
  "\<exists>t'. f_b64_pton (''Zm8='' @ [NUL]) (Some [9, 9, 9]) 3 = Some (2, Some t') \<and> take 2 t' = [0x66, 0x6F]"
proof -
  have e: "b64_encode [0x66, 0x6F] = ''Zm8=''"
    by (simp add: group_chars_def group24_def Base64_alphabet_def Pad64_def)
  have "f_b64_ntop [0x66, 0x6F] (length [0x66, 0x6F :: byte]) ''.....'' 5 = Some (4, ''Zm8='' @ [NUL])"
    using f_b64_ntop_encoded [of "[0x66, 0x6F]" 5 "''.....''" "[]"] unfolding e by (simp add: encoded_def)
  from base64_roundtrip [OF this, of 3 "[9, 9, 9]"] show ?thesis by (simp flip: numeral_2_eq_2)
qed

end
