(* ===== verification/Ldb_Slice.thy ===== *)
theory Ldb_Slice
  imports Prelude "HOL-Library.List_Lexorder"
begin

text \<open>
  Byte strings and their order in leveldb: \<^verbatim>\<open>Slice\<close> (\<^verbatim>\<open>slice.h\<close>) and the bytewise comparator
  (\<^verbatim>\<open>comparator.cc\<close>), with the interface \<^verbatim>\<open>Comparator\<close> as a locale.

  A slice is the list of its bytes. The C library's \<^verbatim>\<open>memcmp\<close> promises only the sign of its
  result; the model returns -1, 0 or 1.
\<close>

subsection \<open>Slices\<close>

type_synonym slice = "byte list"

fun memcmp :: "byte list \<Rightarrow> byte list \<Rightarrow> int" where
  "memcmp (x # a) (y # b) = (if x = y then memcmp a b else if x < y then - 1 else 1)"
| "memcmp _ _ = 0"

definition slice_compare :: "slice \<Rightarrow> slice \<Rightarrow> int" where
  "slice_compare a b =
     (let min_len = (if length a < length b then length a else length b);
          r = memcmp (take min_len a) (take min_len b)
      in if r = 0 then (if length a < length b then - 1 else if length a > length b then 1 else r) else r)"

definition starts_with :: "slice \<Rightarrow> slice \<Rightarrow> bool" where
  "starts_with s x \<longleftrightarrow> length s \<ge> length x \<and> memcmp (take (length x) s) x = 0"

definition slice_eq :: "slice \<Rightarrow> slice \<Rightarrow> bool" where
  "slice_eq x y \<longleftrightarrow> length x = length y \<and> memcmp x y = 0"

text \<open>\<^verbatim>\<open>assert(n <= size())\<close> guards the advance; a violation has no result.\<close>

definition remove_prefix :: "nat \<Rightarrow> slice \<Rightarrow> slice option" where
  "remove_prefix n s = (if n \<le> length s then Some (drop n s) else None)"

subsection \<open>The bytewise comparator\<close>

text \<open>The loop that finds the first position where the two strings differ.\<close>

fun diff_index :: "slice \<Rightarrow> slice \<Rightarrow> nat" where
  "diff_index (x # a) (y # b) = (if x = y then Suc (diff_index a b) else 0)"
| "diff_index _ _ = 0"

definition Bytewise_FindShortestSeparator :: "slice \<Rightarrow> slice \<Rightarrow> slice" where
  "Bytewise_FindShortestSeparator start lim =
     (let min_length = min (length start) (length lim); d = diff_index start lim in
      if d \<ge> min_length then start
      else let diff_byte = start ! d in
        if diff_byte < 0xFF \<and> unat diff_byte + 1 < unat (lim ! d)
        then take (d + 1) (start[d := diff_byte + 1])
        else start)"

fun Bytewise_FindShortSuccessor :: "slice \<Rightarrow> slice" where
  "Bytewise_FindShortSuccessor [] = []"
| "Bytewise_FindShortSuccessor (b # key) =
     (if b \<noteq> 0xFF then [b + 1] else b # Bytewise_FindShortSuccessor key)"

subsection \<open>The comparator interface\<close>

text \<open>
  What the tables and lists of leveldb rely on: a total order on the valid keys, a separator
  that lies between its arguments and a successor that is not smaller than its argument.
\<close>

locale key_order =
  fixes Compare :: "slice \<Rightarrow> slice \<Rightarrow> int"
    and valid :: "slice \<Rightarrow> bool"
  assumes compare_eq: "valid a \<Longrightarrow> valid b \<Longrightarrow> Compare a b = 0 \<longleftrightarrow> a = b"
    and compare_flip: "valid a \<Longrightarrow> valid b \<Longrightarrow> Compare a b < 0 \<longleftrightarrow> Compare b a > 0"
    and compare_trans: "valid a \<Longrightarrow> valid b \<Longrightarrow> valid c \<Longrightarrow> Compare a b < 0 \<Longrightarrow> Compare b c < 0 \<Longrightarrow> Compare a c < 0"
begin

lemma compare_cases:
  assumes "valid a" "valid b"
  obtains (less) "Compare a b < 0" "a \<noteq> b" | (equal) "a = b" "Compare a b = 0"
    | (greater) "Compare b a < 0" "a \<noteq> b"
  using compare_eq [OF assms] compare_flip [OF assms(2,1)] by fastforce

lemma compare_irrefl: "valid a \<Longrightarrow> \<not> Compare a a < 0"
  using compare_eq [of a a] by simp

lemma compare_not_less: "valid a \<Longrightarrow> valid b \<Longrightarrow> \<not> Compare a b < 0 \<longleftrightarrow> a = b \<or> Compare b a < 0"
  using compare_eq [of a b] compare_flip [of b a] compare_irrefl [of a] by fastforce

lemma compare_less_trans_le:
  "valid a \<Longrightarrow> valid b \<Longrightarrow> valid c \<Longrightarrow> Compare a b < 0 \<Longrightarrow> \<not> Compare c b < 0 \<Longrightarrow> Compare a c < 0"
  using compare_not_less [of c b] compare_trans [of a b c] by blast

end

locale comparator = key_order +
  fixes FindShortestSeparator :: "slice \<Rightarrow> slice \<Rightarrow> slice"
    and FindShortSuccessor :: "slice \<Rightarrow> slice"
  assumes separator: "valid start \<Longrightarrow> valid lim \<Longrightarrow> Compare start lim < 0 \<Longrightarrow>
      valid (FindShortestSeparator start lim) \<and>
      \<not> Compare (FindShortestSeparator start lim) start < 0 \<and>
      Compare (FindShortestSeparator start lim) lim < 0"
    and separator_same: "valid a \<Longrightarrow> \<not> Compare a (FindShortestSeparator a a) < 0"
    and successor: "valid key \<Longrightarrow>
      valid (FindShortSuccessor key) \<and> \<not> Compare (FindShortSuccessor key) key < 0"

subsection \<open>Lemmas\<close>

lemma memcmp_range: "memcmp a b \<in> {- 1, 0, 1}"
  by (induction a b rule: memcmp.induct) auto

lemma slice_compare_Cons:
  "slice_compare (x # a) (y # b) = (if x = y then slice_compare a b else if x < y then - 1 else 1)"
  by (auto simp: slice_compare_def Let_def)

lemma slice_compare_Nil:
  "slice_compare [] [] = 0" "slice_compare [] (y # b) = - 1" "slice_compare (x # a) [] = 1"
  by (simp_all add: slice_compare_def)

lemmas slice_compare_simps = slice_compare_Cons slice_compare_Nil

text \<open>Slices are compared in the lexicographic order of their bytes.\<close>

lemma slice_compare_eq: "slice_compare a b = (if a = b then 0 else if a < b then - 1 else 1)"
proof (induction a arbitrary: b)
  case Nil
  show ?case by (cases b) (simp_all add: slice_compare_simps)
next
  case (Cons x a)
  then show ?case by (cases b) (auto simp: slice_compare_simps)
qed

lemma starts_with_prefix: "starts_with s x \<longleftrightarrow> take (length x) s = x"
proof (induction s arbitrary: x)
  case Nil
  then show ?case by (cases x) (auto simp: starts_with_def)
next
  case (Cons a s)
  then show ?case by (cases x) (auto simp: starts_with_def)
qed

lemma slice_eq_iff: "slice_eq x y \<longleftrightarrow> x = y"
  by (induction x y rule: memcmp.induct) (auto simp: slice_eq_def)

lemma diff_index_le: "diff_index a b \<le> min (length a) (length b)"
  by (induction a b rule: diff_index.induct) auto

lemma Bytewise_FindShortestSeparator_Cons:
  "Bytewise_FindShortestSeparator (x # a) (y # b) =
     (if x = y then x # Bytewise_FindShortestSeparator a b
      else if x < 0xFF \<and> unat x + 1 < unat y then [x + 1] else x # a)"
  by (auto simp: Bytewise_FindShortestSeparator_def Let_def)

lemma Bytewise_FindShortestSeparator_Nil:
  "Bytewise_FindShortestSeparator [] b = []" "Bytewise_FindShortestSeparator a [] = a"
  by (simp_all add: Bytewise_FindShortestSeparator_def)

lemma unat_succ:
  assumes "b \<noteq> 0xFF"
  shows "unat (b + 1 :: byte) = unat b + 1"
proof -
  have "unat b \<noteq> unat (0xFF :: byte)" using assms word_unat_eq_iff [of b "0xFF"] by blast
  then have "unat b + 1 < 256" using unat_byte_less [of b] by simp
  moreover have e: "b + 1 = word_of_nat (unat b + 1)" by simp
  have "unat (b + 1) = (unat b + 1) mod 256" unfolding e unat_of_nat by (simp add: take_bit_eq_mod)
  ultimately show ?thesis by simp
qed

lemma Bytewise_separator:
  assumes "start < lim"
  shows "start \<le> Bytewise_FindShortestSeparator start lim \<and> Bytewise_FindShortestSeparator start lim < lim"
  using assms
proof (induction start arbitrary: lim)
  case Nil
  then show ?case by (simp add: Bytewise_FindShortestSeparator_Nil)
next
  case (Cons x a)
  then obtain y b where lim: "lim = y # b" by (cases lim) auto
  show ?case
  proof (cases "x = y")
    case True
    with Cons lim show ?thesis by (simp add: Bytewise_FindShortestSeparator_Cons)
  next
    case False
    with Cons.prems lim have "x < y" by simp
    moreover have "x < x + 1 \<and> x + 1 < y" if "x < 0xFF" "unat x + 1 < unat y"
    proof -
      have "x \<noteq> 0xFF" using that(1) by auto
      from unat_succ [OF this] that show ?thesis by (simp add: word_less_nat_alt)
    qed
    ultimately show ?thesis using False lim by (auto simp: Bytewise_FindShortestSeparator_Cons)
  qed
qed

lemma Bytewise_separator_same: "Bytewise_FindShortestSeparator a a = a"
  by (induction a) (simp_all add: Bytewise_FindShortestSeparator_Nil Bytewise_FindShortestSeparator_Cons)

lemma Bytewise_successor: "key \<le> Bytewise_FindShortSuccessor key"
proof (induction key)
  case (Cons b key)
  have "b < b + 1" if "b \<noteq> 0xFF" using unat_succ [OF that] by (simp add: word_less_nat_alt)
  with Cons show ?case by simp
qed simp

interpretation bytewise: comparator slice_compare "\<lambda>_. True"
  Bytewise_FindShortestSeparator Bytewise_FindShortSuccessor
proof
  show "slice_compare a b = 0 \<longleftrightarrow> a = b" for a b by (simp add: slice_compare_eq)
  show "slice_compare a b < 0 \<longleftrightarrow> slice_compare b a > 0" for a b by (auto simp: slice_compare_eq)
  show "slice_compare a c < 0" if "slice_compare a b < 0" "slice_compare b c < 0" for a b c
    using that by (auto simp: slice_compare_eq split: if_splits)
  show "True \<and> \<not> slice_compare (Bytewise_FindShortestSeparator start lim) start < 0 \<and>
    slice_compare (Bytewise_FindShortestSeparator start lim) lim < 0"
    if "slice_compare start lim < 0" for start lim
    using that Bytewise_separator [of start lim] by (auto simp: slice_compare_eq split: if_splits)
  show "\<not> slice_compare a (Bytewise_FindShortestSeparator a a) < 0" for a
    by (simp add: Bytewise_separator_same slice_compare_eq)
  show "True \<and> \<not> slice_compare (Bytewise_FindShortSuccessor key) key < 0" for key
    using Bytewise_successor [of key] by (auto simp: slice_compare_eq)
qed

end
