(* ===== verification/Ldb_Coding.thy ===== *)
theory Ldb_Coding
  imports Ldb_Slice Pb_Wire
begin

text \<open>
  leveldb's encoding of numbers and strings, \<^verbatim>\<open>coding.cc\<close> and \<^verbatim>\<open>coding.h\<close>, on a little-endian
  machine. A \<^verbatim>\<open>Put\<close> routine appends to a string, so the model of its effect is the list of bytes it
  appends; an \<^verbatim>\<open>Encode\<close> routine is the list of bytes it writes. A \<^verbatim>\<open>Get\<close> routine consumes a prefix
  of its input: the value and the rest, or \<open>None\<close> for the null pointer or \<^verbatim>\<open>false\<close>.
\<close>

subsection \<open>Fixed-width numbers\<close>

definition EncodeFixed32 :: "32 word \<Rightarrow> byte list" where
  "EncodeFixed32 v = nat_le 4 (unat v)"

definition EncodeFixed64 :: "64 word \<Rightarrow> byte list" where
  "EncodeFixed64 v = nat_le 8 (unat v)"

definition PutFixed32 :: "byte list \<Rightarrow> 32 word \<Rightarrow> byte list" where
  "PutFixed32 dst v = dst @ EncodeFixed32 v"

definition PutFixed64 :: "byte list \<Rightarrow> 64 word \<Rightarrow> byte list" where
  "PutFixed64 dst v = dst @ EncodeFixed64 v"

text \<open>Reading a fixed-width number has no bounds check: too few bytes are an access out of bounds.\<close>

definition DecodeFixed32 :: "byte list \<Rightarrow> 32 word option" where
  "DecodeFixed32 p = (if 4 \<le> length p then Some (word_of_nat (le_nat (take 4 p))) else None)"

definition DecodeFixed64 :: "byte list \<Rightarrow> 64 word option" where
  "DecodeFixed64 p = (if 8 \<le> length p then Some (word_of_nat (le_nat (take 8 p))) else None)"

subsection \<open>Varints\<close>

definition EncodeVarint32 :: "32 word \<Rightarrow> byte list" where
  "EncodeVarint32 v =
     (if v < push_bit 7 1 then [ucast v]
      else if v < push_bit 14 1 then [ucast (v OR 128), ucast (drop_bit 7 v)]
      else if v < push_bit 21 1 then
        [ucast (v OR 128), ucast (drop_bit 7 v OR 128), ucast (drop_bit 14 v)]
      else if v < push_bit 28 1 then
        [ucast (v OR 128), ucast (drop_bit 7 v OR 128), ucast (drop_bit 14 v OR 128), ucast (drop_bit 21 v)]
      else
        [ucast (v OR 128), ucast (drop_bit 7 v OR 128), ucast (drop_bit 14 v OR 128),
         ucast (drop_bit 21 v OR 128), ucast (drop_bit 28 v)])"

definition PutVarint32 :: "byte list \<Rightarrow> 32 word \<Rightarrow> byte list" where
  "PutVarint32 dst v = dst @ EncodeVarint32 v"

lemma unat_drop_bit_7_less: "\<not> v < 128 \<Longrightarrow> unat (drop_bit 7 v) < unat v" for v :: "64 word"
  using unat_drop_bit_div [of 7 v] by (simp add: word_less_nat_alt)

function EncodeVarint64 :: "64 word \<Rightarrow> byte list" where
  "EncodeVarint64 v = (if v \<ge> 128 then ucast (v OR 128) # EncodeVarint64 (drop_bit 7 v) else [ucast v])"
  by pat_completeness auto
termination by (relation "measure unat") (auto simp: not_less intro: unat_drop_bit_7_less)

definition PutVarint64 :: "byte list \<Rightarrow> 64 word \<Rightarrow> byte list" where
  "PutVarint64 dst v = dst @ EncodeVarint64 v"

definition PutLengthPrefixedSlice :: "byte list \<Rightarrow> slice \<Rightarrow> byte list" where
  "PutLengthPrefixedSlice dst s = PutVarint32 dst (word_of_nat (length s)) @ s"

function VarintLength :: "64 word \<Rightarrow> nat" where
  "VarintLength v = (if v \<ge> 128 then Suc (VarintLength (drop_bit 7 v)) else 1)"
  by pat_completeness auto
termination by (relation "measure unat") (auto simp: not_less intro: unat_drop_bit_7_less)

declare EncodeVarint64.simps [simp del] VarintLength.simps [simp del]

text \<open>
  The loop of both readers: \<^verbatim>\<open>for (shift = 0; shift <= maxs && p < limit; shift += 7)\<close>, with \<open>maxs\<close>
  28 for 32 bits and 63 for 64 bits.
\<close>

fun get_varint_loop :: "nat \<Rightarrow> nat \<Rightarrow> 'a::len word \<Rightarrow> byte list \<Rightarrow> ('a word \<times> byte list) option" where
  "get_varint_loop maxs shift result [] = None"
| "get_varint_loop maxs shift result (b # p) =
     (if shift \<le> maxs then
        (if b AND 128 \<noteq> 0 then get_varint_loop maxs (shift + 7) (result OR push_bit shift (ucast b AND 127)) p
         else Some (result OR push_bit shift (ucast b), p))
      else None)"

definition GetVarint32PtrFallback :: "byte list \<Rightarrow> (32 word \<times> byte list) option" where
  "GetVarint32PtrFallback p = get_varint_loop 28 0 0 p"

definition GetVarint32Ptr :: "byte list \<Rightarrow> (32 word \<times> byte list) option" where
  "GetVarint32Ptr p =
     (case p of
        b # q \<Rightarrow> if (ucast b AND 128 :: 32 word) = 0 then Some (ucast b, q) else GetVarint32PtrFallback p
      | [] \<Rightarrow> GetVarint32PtrFallback p)"

definition GetVarint32 :: "slice \<Rightarrow> (32 word \<times> slice) option" where
  "GetVarint32 input = GetVarint32Ptr input"

definition GetVarint64Ptr :: "byte list \<Rightarrow> (64 word \<times> byte list) option" where
  "GetVarint64Ptr p = get_varint_loop 63 0 0 p"

definition GetVarint64 :: "slice \<Rightarrow> (64 word \<times> slice) option" where
  "GetVarint64 input = GetVarint64Ptr input"

text \<open>The two routines named \<^verbatim>\<open>GetLengthPrefixedSlice\<close>, on pointers and on slices.\<close>

definition GetLengthPrefixedSlicePtr :: "byte list \<Rightarrow> (slice \<times> byte list) option" where
  "GetLengthPrefixedSlicePtr p =
     (case GetVarint32Ptr p of None \<Rightarrow> None
      | Some (len, q) \<Rightarrow> if unat len > length q then None else Some (take (unat len) q, drop (unat len) q))"

definition GetLengthPrefixedSlice :: "slice \<Rightarrow> (slice \<times> slice) option" where
  "GetLengthPrefixedSlice input =
     (case GetVarint32 input of None \<Rightarrow> None
      | Some (len, input) \<Rightarrow>
          if length input \<ge> unat len
          then map_option (\<lambda>rest. (take (unat len) input, rest)) (remove_prefix (unat len) input)
          else None)"

subsection \<open>The encoders write the numbers of the wire format\<close>

lemma or_128: "b OR 128 = word_of_nat (unat b mod 128 + 128)" for b :: byte
proof -
  have "b OR 128 = (b AND mask 7) OR push_bit 7 1"
    by (rule byte_eqI) (simp add: bit_simps)
  also have "\<dots> = (b AND mask 7) + push_bit 7 1"
    by (rule or_shifted_bits) (simp add: and_low_mask unat_of_nat take_bit_eq_mod)
  also have "\<dots> = word_of_nat (unat b mod 128 + 128)" unfolding and_low_mask by simp
  finally show ?thesis .
qed

lemma ucast_or_128:
  fixes v :: "'a::len word"
  assumes "8 \<le> LENGTH('a)"
  shows "(ucast (v OR 128) :: byte) = word_of_nat (unat v mod 128 + 128)"
proof -
  have "(ucast (v OR 128) :: byte) = ucast v OR 128"
    using assms by (intro bit_word_eqI) (auto simp: bit_simps)
  moreover have "unat (ucast v :: byte) mod 128 = unat v mod 128"
    by (simp add: unsigned_ucast_eq take_bit_eq_mod mod_mod_cancel)
  ultimately show ?thesis unfolding or_128 by simp
qed

lemma ucast_small:
  fixes v :: "'a::len word"
  shows "(ucast v :: byte) = word_of_nat (unat v)"
  by simp

lemma EncodeVarint64_eq: "EncodeVarint64 v = varint_bytes (unat v)"
proof (induction v rule: EncodeVarint64.induct)
  case (1 v)
  show ?case
  proof (cases "v \<ge> 128")
    case True
    then have "\<not> unat v < 128" by (simp add: word_le_nat_alt)
    moreover have "unat (drop_bit 7 v) = unat v div 128" using unat_drop_bit_div [of 7 v] by simp
    ultimately show ?thesis
      using True 1 by (subst EncodeVarint64.simps) (simp add: varint_bytes_big ucast_or_128)
  next
    case False
    then show ?thesis
      by (subst EncodeVarint64.simps) (simp add: varint_bytes_small word_le_nat_alt not_le)
  qed
qed

lemma VarintLength_eq: "VarintLength v = length (varint_bytes (unat v))"
proof (induction v rule: VarintLength.induct)
  case (1 v)
  show ?case
  proof (cases "v \<ge> 128")
    case True
    then have "\<not> unat v < 128" by (simp add: word_le_nat_alt)
    moreover have "unat (drop_bit 7 v) = unat v div 128" using unat_drop_bit_div [of 7 v] by simp
    ultimately show ?thesis using True 1 by (subst VarintLength.simps) (simp add: varint_bytes_big)
  next
    case False
    then show ?thesis by (subst VarintLength.simps) (simp add: varint_bytes_small word_le_nat_alt not_le)
  qed
qed

lemma ucast_drop_bit: "(ucast (drop_bit n v) :: byte) = word_of_nat (unat v div 2 ^ n)" for v :: "'a::len word"
  by (metis ucast_small unat_drop_bit_div)

lemma EncodeVarint32_eq: "EncodeVarint32 v = varint_bytes (unat v)"
proof -
  have d: "unat v div 128 div 128 = unat v div 16384" "unat v div 16384 div 128 = unat v div 2097152"
    "unat v div 2097152 div 128 = unat v div 268435456"
    by (simp_all flip: div_mult2_eq)
  have top: "unat v div 268435456 < 128" using unat_u32_less [of v] by (simp add: less_mult_imp_div_less)
  have bit: "(ucast (drop_bit n v OR 128) :: byte) = word_of_nat (unat v div 2 ^ n mod 128 + 128)" for n
    by (simp add: ucast_or_128 unat_drop_bit_div)
  have bounds: "unat v div 128 < 128 \<longleftrightarrow> unat v < 16384" "unat v div 16384 < 128 \<longleftrightarrow> unat v < 2097152"
    "unat v div 2097152 < 128 \<longleftrightarrow> unat v < 268435456"
    by (simp_all add: div_less_iff_less_mult)
  note unfolds = varint_bytes.simps [of "unat v"] varint_bytes.simps [of "unat v div 128"]
    varint_bytes.simps [of "unat v div 16384"] varint_bytes.simps [of "unat v div 2097152"]
    varint_bytes.simps [of "unat v div 268435456"]
  show ?thesis
    unfolding EncodeVarint32_def unfolds d bounds if_P [OF top]
    by (simp add: word_less_nat_alt bit ucast_drop_bit ucast_or_128)
qed

subsection \<open>The readers read them back\<close>

lemma get_varint_loop_eq:
  fixes r :: "'a::len word"
  assumes "8 \<le> LENGTH('a)" "unat r < 2 ^ sh" "sh + 7 * m \<le> maxs + 7" "maxs < sh + 7 * m"
  shows "get_varint_loop maxs sh r p =
    (case varint_value (take m p) of None \<Rightarrow> None
     | Some (v, q) \<Rightarrow> Some (word_of_nat (unat r + v * 2 ^ sh), drop (min m (length p) - length q) p))"
  using assms
proof (induction p arbitrary: r sh m)
  case (Cons b p)
  show ?case
  proof (cases m)
    case (Suc k)
    let ?x = "unat r + unat b mod 128 * 2 ^ sh"
    have acc: "r OR push_bit sh (ucast b AND 127) = word_of_nat ?x"
    proof -
      have "(ucast b AND 127 :: 'a word) = ucast (b AND 0x7F)"
        using Cons.prems(1) by (intro bit_word_eqI) (auto simp: bit_simps dest: bit_imp_le_length)
      then show ?thesis using place_digit [OF Cons.prems(2,1), of b] by simp
    qed
    show ?thesis
    proof (cases "unat b < 128")
      case True
      then have "b AND 0x7F = b" using and_low_mask [of b 7] by (simp add: mask_eq_exp_minus_1)
      then have "r OR push_bit sh (ucast b) = word_of_nat ?x" using place_digit [OF Cons.prems(2,1), of b] by simp
      with True Suc Cons.prems show ?thesis by (simp add: high_bit_of_byte min.commute)
    next
      case False
      have lt: "unat (word_of_nat ?x :: 'a word) < 2 ^ (sh + 7)"
        by (rule le_less_trans [OF unat_of_nat_le digit_bound [OF Cons.prems(2)]])
      have IH: "get_varint_loop maxs (sh + 7) (word_of_nat ?x :: 'a word) p =
        (case varint_value (take k p) of None \<Rightarrow> None
         | Some (v, q) \<Rightarrow> Some (word_of_nat (unat (word_of_nat ?x :: 'a word) + v * 2 ^ (sh + 7)),
             drop (min k (length p) - length q) p))"
        using Cons.prems Suc by (intro Cons.IH lt) auto
      have "unat b - 128 = unat b mod 128" using False unat_byte_less [of b] by (simp add: mod_if)
      moreover have "(unat b mod 128 + 128 * v) * 2 ^ sh = unat b mod 128 * 2 ^ sh + v * 2 ^ (sh + 7)" for v
        by (simp add: power_add algebra_simps)
      ultimately show ?thesis
        using False Suc Cons.prems IH varint_value_length [of "take k p"] acc
        by (auto simp: high_bit_of_byte Suc_diff_le split: option.splits simp del: of_nat_mult)
    qed
  qed (use Cons.prems in simp)
qed simp

lemma GetVarint32Ptr_eq:
  "GetVarint32Ptr p =
     (case varint_value (take 5 p) of None \<Rightarrow> None
      | Some (v, q) \<Rightarrow> Some (word_of_nat v, drop (min 5 (length p) - length q) p))"
proof -
  have loop: "GetVarint32PtrFallback p =
     (case varint_value (take 5 p) of None \<Rightarrow> None
      | Some (v, q) \<Rightarrow> Some (word_of_nat v, drop (min 5 (length p) - length q) p))"
    unfolding GetVarint32PtrFallback_def by (subst get_varint_loop_eq [where m = 5]) (simp_all cong: option.case_cong prod.case_cong)
  show ?thesis
  proof (cases p)
    case (Cons b q)
    have "(ucast b AND 128 :: 32 word) = 0 \<longleftrightarrow> b AND 0x80 = 0"
      using and_exp_eq_0_iff_not_bit [of "ucast b :: 32 word" 7] and_exp_eq_0_iff_not_bit [of b 7]
      by (simp add: bit_simps)
    with Cons loop show ?thesis by (auto simp: GetVarint32Ptr_def high_bit_of_byte min.commute)
  qed (simp add: GetVarint32Ptr_def GetVarint32PtrFallback_def)
qed

lemma GetVarint64Ptr_eq:
  "GetVarint64Ptr p =
     (case varint_value (take 10 p) of None \<Rightarrow> None
      | Some (v, q) \<Rightarrow> Some (word_of_nat v, drop (min 10 (length p) - length q) p))"
  unfolding GetVarint64Ptr_def by (subst get_varint_loop_eq [where m = 10]) (simp_all cong: option.case_cong prod.case_cong)

text \<open>A varint within the bound is read completely, whatever follows it.\<close>

lemma varint_value_take:
  assumes "length (varint_bytes v) \<le> m"
  shows "(case varint_value (take m (varint_bytes v @ rest)) of None \<Rightarrow> None
     | Some (w, q) \<Rightarrow> Some (f w, drop (min m (length (varint_bytes v @ rest)) - length q) (varint_bytes v @ rest)))
     = Some (f v, rest)"
proof -
  have "take m (varint_bytes v @ rest) = varint_bytes v @ take (m - length (varint_bytes v)) rest"
    using assms by simp
  then have "varint_value (take m (varint_bytes v @ rest)) = Some (v, take (m - length (varint_bytes v)) rest)"
    by (simp only: varint_value_bytes)
  moreover have "min m (length (varint_bytes v @ rest)) - length (take (m - length (varint_bytes v)) rest)
      = length (varint_bytes v)" using assms by simp
  ultimately show ?thesis by simp
qed

lemma varint_length_5: "length (varint_bytes (unat (v :: 32 word))) \<le> 5"
proof -
  have "unat v < 128 ^ 5" using unat_u32_less [of v] by simp
  then show ?thesis by (rule varint_length) simp
qed

lemma varint_length_10: "length (varint_bytes (unat (v :: 64 word))) \<le> 10"
  by (rule varint_bytes_length_10 [OF unat_u64_less])

lemma GetVarint32_Encode: "GetVarint32 (EncodeVarint32 v @ rest) = Some (v, rest)"
  unfolding GetVarint32_def GetVarint32Ptr_eq EncodeVarint32_eq
  using varint_value_take [OF varint_length_5 [of v], where rest = rest and f = "word_of_nat :: nat \<Rightarrow> 32 word"]
  by (simp del: take_append)

lemma GetVarint64_Encode: "GetVarint64 (EncodeVarint64 v @ rest) = Some (v, rest)"
  unfolding GetVarint64_def GetVarint64Ptr_eq EncodeVarint64_eq
  using varint_value_take [OF varint_length_10 [of v], where rest = rest and f = "word_of_nat :: nat \<Rightarrow> 64 word"]
  by (simp del: take_append)

lemma GetLengthPrefixedSlice_Put:
  assumes "length s < 2 ^ 32"
  shows "GetLengthPrefixedSlice (PutLengthPrefixedSlice [] s @ rest) = Some (s, rest)"
proof -
  have u: "unat (word_of_nat (length s) :: 32 word) = length s"
    using assms by (simp add: unat_of_nat take_bit_eq_mod)
  show ?thesis
    unfolding GetLengthPrefixedSlice_def PutLengthPrefixedSlice_def PutVarint32_def
    by (simp add: GetVarint32_Encode u remove_prefix_def)
qed

lemma DecodeFixed32_Encode [simp]: "DecodeFixed32 (EncodeFixed32 v @ rest) = Some v"
  using unat_u32_less [of v] by (simp add: DecodeFixed32_def EncodeFixed32_def le_nat_nat_le)

lemma DecodeFixed64_Encode [simp]: "DecodeFixed64 (EncodeFixed64 v @ rest) = Some v"
  using unat_u64_less [of v] by (simp add: DecodeFixed64_def EncodeFixed64_def le_nat_nat_le)

lemma length_EncodeFixed [simp]: "length (EncodeFixed32 v) = 4" "length (EncodeFixed64 w) = 8"
  by (simp_all add: EncodeFixed32_def EncodeFixed64_def)

lemma EncodeVarint_not_Nil [simp]: "EncodeVarint32 v \<noteq> []" "EncodeVarint64 w \<noteq> []"
  by (simp_all add: EncodeVarint32_eq EncodeVarint64_eq)

interpretation ldb_varint32: self_delimiting EncodeVarint32 GetVarint32 "\<lambda>_. True"
  by unfold_locales (simp_all add: GetVarint32_Encode)

interpretation ldb_varint64: self_delimiting EncodeVarint64 GetVarint64 "\<lambda>_. True"
  by unfold_locales (simp_all add: GetVarint64_Encode)

interpretation ldb_string: self_delimiting "PutLengthPrefixedSlice []" GetLengthPrefixedSlice "\<lambda>s. length s < 2 ^ 32"
  by unfold_locales (simp_all add: GetLengthPrefixedSlice_Put, simp add: PutLengthPrefixedSlice_def PutVarint32_def)

end
