(* ===== verification/Ldb_Format.thy ===== *)
theory Ldb_Format
  imports Ldb_Coding
begin

text \<open>
  The keys of leveldb's tables, \<^verbatim>\<open>dbformat.h\<close> and \<^verbatim>\<open>dbformat.cc\<close>: a user key with the sequence number
  and the type of the entry behind it, their order, and the key a lookup is made with.

  \<^verbatim>\<open>ExtractUserKey\<close> and the comparator of internal keys assert that a key has at least eight bytes;
  the definitions below are meant for such keys, which is the validity predicate of the
  comparator interface.
\<close>

subsection \<open>Internal keys\<close>

datatype ValueType = kTypeDeletion | kTypeValue

definition type_code :: "ValueType \<Rightarrow> nat" where
  "type_code t = (case t of kTypeDeletion \<Rightarrow> 0 | kTypeValue \<Rightarrow> 1)"

definition kValueTypeForSeek :: ValueType where
  "kValueTypeForSeek = kTypeValue"

definition kMaxSequenceNumber :: "64 word" where
  "kMaxSequenceNumber = push_bit 56 1 - 1"

datatype ParsedInternalKey =
  ParsedInternalKey (user_key: slice) (sequence: "64 word") (key_type: ValueType)

definition InternalKeyEncodingLength :: "ParsedInternalKey \<Rightarrow> nat" where
  "InternalKeyEncodingLength key = length (user_key key) + 8"

definition PackSequenceAndType :: "64 word \<Rightarrow> ValueType \<Rightarrow> 64 word" where
  "PackSequenceAndType seq t = push_bit 8 seq OR word_of_nat (type_code t)"

definition AppendInternalKey :: "byte list \<Rightarrow> ParsedInternalKey \<Rightarrow> byte list" where
  "AppendInternalKey result key =
     PutFixed64 (result @ user_key key) (PackSequenceAndType (sequence key) (key_type key))"

definition ExtractUserKey :: "slice \<Rightarrow> slice" where
  "ExtractUserKey k = take (length k - 8) k"

text \<open>\<^verbatim>\<open>DecodeFixed64(k.data() + k.size() - 8)\<close>\<close>

definition ExtractTag :: "slice \<Rightarrow> 64 word" where
  "ExtractTag k = word_of_nat (le_nat (drop (length k - 8) k))"

definition ParseInternalKey :: "slice \<Rightarrow> ParsedInternalKey option" where
  "ParseInternalKey k =
     (if length k < 8 then None
      else let num = ExtractTag k; c = num AND 0xFF in
        if c = 0 then Some (ParsedInternalKey (ExtractUserKey k) (drop_bit 8 num) kTypeDeletion)
        else if c = 1 then Some (ParsedInternalKey (ExtractUserKey k) (drop_bit 8 num) kTypeValue)
        else None)"

subsection \<open>The comparator of internal keys\<close>

definition InternalKey_Compare :: "(slice \<Rightarrow> slice \<Rightarrow> int) \<Rightarrow> slice \<Rightarrow> slice \<Rightarrow> int" where
  "InternalKey_Compare ucmp akey bkey =
     (let r = ucmp (ExtractUserKey akey) (ExtractUserKey bkey) in
      if r = 0 then
        (if ExtractTag akey > ExtractTag bkey then - 1 else if ExtractTag akey < ExtractTag bkey then 1 else r)
      else r)"

text \<open>The earliest number that can follow a user key in an internal key.\<close>

definition seek_tag :: "byte list" where
  "seek_tag = EncodeFixed64 (PackSequenceAndType kMaxSequenceNumber kValueTypeForSeek)"

definition InternalKey_FindShortestSeparator ::
  "(slice \<Rightarrow> slice \<Rightarrow> int) \<Rightarrow> (slice \<Rightarrow> slice \<Rightarrow> slice) \<Rightarrow> slice \<Rightarrow> slice \<Rightarrow> slice" where
  "InternalKey_FindShortestSeparator ucmp usep start lim =
     (let user_start = ExtractUserKey start; user_limit = ExtractUserKey lim; tmp = usep user_start user_limit in
      if length tmp < length user_start \<and> ucmp user_start tmp < 0 then tmp @ seek_tag else start)"

definition InternalKey_FindShortSuccessor ::
  "(slice \<Rightarrow> slice \<Rightarrow> int) \<Rightarrow> (slice \<Rightarrow> slice) \<Rightarrow> slice \<Rightarrow> slice" where
  "InternalKey_FindShortSuccessor ucmp usucc key =
     (let ukey = ExtractUserKey key; tmp = usucc ukey in
      if length tmp < length ukey \<and> ucmp ukey tmp < 0 then tmp @ seek_tag else key)"

subsection \<open>Lookup keys\<close>

text \<open>
  The bytes a \<^verbatim>\<open>LookupKey\<close> builds, with the size of the array it puts them into: \<^verbatim>\<open>space_\<close> of 200 bytes
  or an allocation. The memtable key is all of it, the internal key what follows the length.
\<close>

record LookupKey =
  lk_array_size :: nat
  lk_length :: "byte list"
  lk_internal :: slice

definition make_LookupKey :: "slice \<Rightarrow> 64 word \<Rightarrow> LookupKey" where
  "make_LookupKey ukey s =
     (let usize = length ukey; needed = usize + 13 in
      \<lparr>lk_array_size = (if needed \<le> 200 then 200 else needed),
       lk_length = EncodeVarint32 (word_of_nat (usize + 8)),
       lk_internal = ukey @ EncodeFixed64 (PackSequenceAndType s kValueTypeForSeek)\<rparr>)"

definition memtable_key :: "LookupKey \<Rightarrow> slice" where
  "memtable_key k = lk_length k @ lk_internal k"

definition internal_key :: "LookupKey \<Rightarrow> slice" where
  "internal_key k = lk_internal k"

definition lookup_user_key :: "LookupKey \<Rightarrow> slice" where
  "lookup_user_key k = take (length (lk_internal k) - 8) (lk_internal k)"

subsection \<open>Internal keys are user keys with a tag\<close>

definition valid_key :: "slice \<Rightarrow> bool" where
  "valid_key k \<longleftrightarrow> 8 \<le> length k"

lemma length_tag: "valid_key k \<Longrightarrow> length (drop (length k - 8) k) = 8"
  by (simp add: valid_key_def)

lemma key_split: "ExtractUserKey k @ drop (length k - 8) k = k"
  by (simp add: ExtractUserKey_def)

lemma tag_bytes:
  assumes "valid_key k"
  shows "EncodeFixed64 (ExtractTag k) = drop (length k - 8) k"
proof -
  let ?t = "drop (length k - 8) k"
  have "le_nat ?t < 256 ^ length ?t" by (rule le_nat_bound)
  then have "le_nat ?t < 2 ^ 64" unfolding length_tag [OF assms] by simp
  then have "unat (ExtractTag k) = le_nat ?t" unfolding ExtractTag_def unat_of_nat by (simp add: take_bit_eq_mod)
  then show ?thesis using nat_le_le_nat [of ?t] length_tag [OF assms] by (simp add: EncodeFixed64_def)
qed

lemma key_eq: "valid_key k \<Longrightarrow> k = ExtractUserKey k @ EncodeFixed64 (ExtractTag k)"
  using tag_bytes [of k] key_split [of k] by simp

lemma Extract_append [simp]:
  "ExtractUserKey (u @ EncodeFixed64 t) = u" "ExtractTag (u @ EncodeFixed64 t) = t" "valid_key (u @ EncodeFixed64 t)"
  using unat_u64_less [of t]
  by (simp_all add: ExtractUserKey_def ExtractTag_def valid_key_def)
    (simp add: EncodeFixed64_def le_nat_nat_le)

lemma key_eqI:
  "valid_key a \<Longrightarrow> valid_key b \<Longrightarrow> ExtractUserKey a = ExtractUserKey b \<Longrightarrow> ExtractTag a = ExtractTag b \<Longrightarrow> a = b"
  using key_eq by metis

lemma Extract_seek [simp]: "ExtractUserKey (u @ seek_tag) = u" "valid_key (u @ seek_tag)"
  by (simp_all add: seek_tag_def)

subsection \<open>The comparator of internal keys is a comparator\<close>

context comparator
begin

lemma internal_compare_iff:
  assumes "valid (ExtractUserKey a)" "valid (ExtractUserKey b)"
  shows "InternalKey_Compare Compare a b < 0 \<longleftrightarrow>
      Compare (ExtractUserKey a) (ExtractUserKey b) < 0 \<or>
      ExtractUserKey a = ExtractUserKey b \<and> ExtractTag b < ExtractTag a"
    "InternalKey_Compare Compare a b = 0 \<longleftrightarrow>
      ExtractUserKey a = ExtractUserKey b \<and> ExtractTag a = ExtractTag b"
    "InternalKey_Compare Compare a b > 0 \<longleftrightarrow>
      Compare (ExtractUserKey b) (ExtractUserKey a) < 0 \<or>
      ExtractUserKey a = ExtractUserKey b \<and> ExtractTag a < ExtractTag b"
  unfolding InternalKey_Compare_def Let_def compare_eq [OF assms, symmetric] compare_flip [OF assms(2,1)]
  by auto

lemma internal_separator:
  assumes "valid_key a" "valid (ExtractUserKey a)" "valid_key b" "valid (ExtractUserKey b)"
    and "InternalKey_Compare Compare a b < 0"
  defines "s \<equiv> InternalKey_FindShortestSeparator Compare FindShortestSeparator a b"
  shows "(valid_key s \<and> valid (ExtractUserKey s)) \<and> \<not> InternalKey_Compare Compare s a < 0 \<and>
    InternalKey_Compare Compare s b < 0"
proof -
  let ?u = ExtractUserKey
  let ?tmp = "FindShortestSeparator (?u a) (?u b)"
  show ?thesis
  proof (cases "length ?tmp < length (?u a) \<and> Compare (?u a) ?tmp < 0")
    case True
    then have s: "s = ?tmp @ seek_tag" by (simp add: s_def InternalKey_FindShortestSeparator_def Let_def)
    have "?u a \<noteq> ?u b" using True separator_same [OF assms(2)] by auto
    then have lt: "Compare (?u a) (?u b) < 0" using assms(5) internal_compare_iff(1) [OF assms(2,4)] by blast
    note sep = separator [OF assms(2,4) lt]
    have "valid (?u s)" "valid_key s" using sep s by simp_all
    moreover from this have "\<not> InternalKey_Compare Compare s a < 0"
      using internal_compare_iff(1) [OF _ assms(2), of s] sep s True compare_irrefl [OF assms(2)] by auto
    moreover have "InternalKey_Compare Compare s b < 0"
      using internal_compare_iff(1) [OF _ assms(4), of s] sep s by simp
    ultimately show ?thesis by blast
  next
    case False
    then have "s = a" by (auto simp: s_def InternalKey_FindShortestSeparator_def Let_def)
    then show ?thesis
      using assms internal_compare_iff(1) [OF assms(2,2)] compare_irrefl [OF assms(2)] by simp
  qed
qed

lemma internal_successor:
  assumes "valid_key a" "valid (ExtractUserKey a)"
  defines "s \<equiv> InternalKey_FindShortSuccessor Compare FindShortSuccessor a"
  shows "(valid_key s \<and> valid (ExtractUserKey s)) \<and> \<not> InternalKey_Compare Compare s a < 0"
proof -
  let ?u = ExtractUserKey
  let ?tmp = "FindShortSuccessor (?u a)"
  note succ = successor [OF assms(2)]
  show ?thesis
  proof (cases "length ?tmp < length (?u a) \<and> Compare (?u a) ?tmp < 0")
    case True
    then have s: "s = ?tmp @ seek_tag" by (simp add: s_def InternalKey_FindShortSuccessor_def Let_def)
    then have "valid (?u s)" "valid_key s" using succ by simp_all
    moreover from this have "\<not> InternalKey_Compare Compare s a < 0"
      using internal_compare_iff(1) [OF _ assms(2), of s] succ s True compare_irrefl [OF assms(2)] by auto
    ultimately show ?thesis by blast
  next
    case False
    then have "s = a" by (auto simp: s_def InternalKey_FindShortSuccessor_def Let_def)
    then show ?thesis
      using assms internal_compare_iff(1) [OF assms(2,2)] compare_irrefl [OF assms(2)] by simp
  qed
qed

lemma internal_comparator:
  "comparator (InternalKey_Compare Compare) (\<lambda>k. valid_key k \<and> valid (ExtractUserKey k))
     (InternalKey_FindShortestSeparator Compare FindShortestSeparator)
     (InternalKey_FindShortSuccessor Compare FindShortSuccessor)"
proof (unfold_locales, goal_cases)
  case (1 a b)
  then show ?case using internal_compare_iff(2) [of a b] key_eqI [of a b] by blast
next
  case (2 a b)
  then show ?case using internal_compare_iff(1) [of a b] internal_compare_iff(3) [of b a] by auto
next
  case (3 a b c)
  then show ?case
    using internal_compare_iff(1) [of a b] internal_compare_iff(1) [of b c] internal_compare_iff(1) [of a c]
      compare_trans [of "ExtractUserKey a" "ExtractUserKey b" "ExtractUserKey c"]
    by (auto intro: less_trans)
next
  case (4 a b)
  then show ?case using internal_separator [of a b] by blast
next
  case (5 a)
  then have "InternalKey_FindShortestSeparator Compare FindShortestSeparator a a = a"
    using separator_same [of "ExtractUserKey a"] by (simp add: InternalKey_FindShortestSeparator_def Let_def)
  with 5 show ?case using internal_compare_iff(1) [of a a] compare_irrefl [of "ExtractUserKey a"] by simp
next
  case (6 a)
  then show ?case using internal_successor [of a] by blast
qed

end

interpretation internal: comparator "InternalKey_Compare slice_compare" "\<lambda>k. valid_key k \<and> True"
  "InternalKey_FindShortestSeparator slice_compare Bytewise_FindShortestSeparator"
  "InternalKey_FindShortSuccessor slice_compare Bytewise_FindShortSuccessor"
  by (rule bytewise.internal_comparator)

subsection \<open>The order of parsed keys\<close>

text \<open>Increasing user keys; for one user key the newest entry first.\<close>

instantiation ParsedInternalKey :: linorder
begin

definition less_ParsedInternalKey :: "ParsedInternalKey \<Rightarrow> ParsedInternalKey \<Rightarrow> bool" where
  "a < b \<longleftrightarrow> user_key a < user_key b \<or> user_key a = user_key b \<and>
     (sequence b < sequence a \<or> sequence a = sequence b \<and> type_code (key_type b) < type_code (key_type a))"

definition less_eq_ParsedInternalKey :: "ParsedInternalKey \<Rightarrow> ParsedInternalKey \<Rightarrow> bool" where
  "a \<le> b \<longleftrightarrow> a = b \<or> a < b" for a b :: ParsedInternalKey

instance
proof
  fix a b c :: ParsedInternalKey
  have inj: "type_code s = type_code t \<Longrightarrow> s = t" for s t by (cases s; cases t) (simp_all add: type_code_def)
  show "a < b \<longleftrightarrow> a \<le> b \<and> \<not> b \<le> a"
    by (auto simp: less_eq_ParsedInternalKey_def less_ParsedInternalKey_def)
  show "a \<le> a" by (simp add: less_eq_ParsedInternalKey_def)
  have "a < c" if "a < b" "b < c"
    using that by (cases a; cases b; cases c) (auto simp: less_ParsedInternalKey_def)
  then show "a \<le> c" if "a \<le> b" "b \<le> c"
    using that unfolding less_eq_ParsedInternalKey_def by blast
  show "a = b" if "a \<le> b" "b \<le> a"
    using that by (cases a; cases b) (auto simp: less_eq_ParsedInternalKey_def less_ParsedInternalKey_def)
  show "a \<le> b \<or> b \<le> a"
    using inj [of "key_type a" "key_type b"] ParsedInternalKey.expand [of a b]
      linorder_less_linear [of "user_key a" "user_key b"] linorder_less_linear [of "sequence a" "sequence b"]
      linorder_less_linear [of "type_code (key_type a)" "type_code (key_type b)"]
    unfolding less_eq_ParsedInternalKey_def less_ParsedInternalKey_def by metis
qed

end

lemma unat_pack:
  assumes "seq \<le> kMaxSequenceNumber"
  shows "unat (PackSequenceAndType seq t) = unat seq * 256 + type_code t"
proof -
  have "unat kMaxSequenceNumber = 2 ^ 56 - 1" by (simp add: kMaxSequenceNumber_def)
  then have seq: "unat seq < 2 ^ 56" using assms by (simp add: word_le_nat_alt)
  have t: "type_code t < 2" by (simp add: type_code_def split: ValueType.split)
  have "PackSequenceAndType seq t = word_of_nat (type_code t) OR push_bit 8 seq"
    by (simp add: PackSequenceAndType_def or.commute)
  also have "\<dots> = word_of_nat (type_code t) + push_bit 8 seq"
    by (rule or_shifted_bits) (use t in \<open>simp add: unat_of_nat take_bit_eq_mod\<close>)
  also have "\<dots> = word_of_nat (type_code t + unat seq * 256)" by (simp add: push_bit_eq_mult)
  finally have e: "PackSequenceAndType seq t = word_of_nat (type_code t + unat seq * 256)" .
  show ?thesis unfolding e unat_of_nat using seq t by (simp add: take_bit_eq_mod)
qed

lemma type_code_less: "type_code t < 2"
  by (simp add: type_code_def split: ValueType.split)

lemma ParseInternalKey_Append:
  assumes "sequence k \<le> kMaxSequenceNumber"
  shows "ParseInternalKey (AppendInternalKey [] k) = Some k"
proof -
  let ?p = "PackSequenceAndType (sequence k) (key_type k)"
  note p = unat_pack [OF assms, of "key_type k"]
  have t: "type_code (key_type k) < 2" by (simp add: type_code_def split: ValueType.split)
  have "unat (?p AND 0xFF) = type_code (key_type k)"
  proof -
    have "?p AND 0xFF = ?p AND mask 8" by (simp add: mask_eq_exp_minus_1)
    also have "\<dots> = word_of_nat (unat ?p mod 256)" by (simp add: and_low_mask)
    finally show ?thesis using t unfolding p by (simp add: unat_of_nat take_bit_eq_mod)
  qed
  moreover have "?p AND 0xFF = word_of_nat (unat (?p AND 0xFF))" by simp
  ultimately have c: "?p AND 0xFF = word_of_nat (type_code (key_type k))" by (simp only:)
  have "unat (drop_bit 8 ?p) = unat (sequence k)" using t unfolding unat_drop_bit_div p by simp
  then have "drop_bit 8 ?p = sequence k" by (rule unsigned_word_eqI)
  with c show ?thesis
    by (cases k; cases "key_type k")
      (simp_all add: ParseInternalKey_def AppendInternalKey_def PutFixed64_def type_code_def Let_def)
qed

subsection \<open>Properties\<close>

text \<open>
  C13. Internal keys on disk sort like the entries they stand for: by user key, and for one user
  key the newest sequence number first; and parsing gives back the entry.
\<close>

theorem internal_key_order:
  assumes "sequence a \<le> kMaxSequenceNumber" "sequence b \<le> kMaxSequenceNumber"
  shows "InternalKey_Compare slice_compare (AppendInternalKey [] a) (AppendInternalKey [] b) =
      (if a = b then 0 else if a < b then - 1 else 1) \<and>
    ParseInternalKey (AppendInternalKey [] a) = Some a"
proof -
  let ?pa = "PackSequenceAndType (sequence a) (key_type a)" and ?pb = "PackSequenceAndType (sequence b) (key_type b)"
  have less: "?pa < ?pb \<longleftrightarrow> sequence a < sequence b \<or>
      sequence a = sequence b \<and> type_code (key_type a) < type_code (key_type b)"
    and greater: "?pb < ?pa \<longleftrightarrow> sequence b < sequence a \<or>
      sequence a = sequence b \<and> type_code (key_type b) < type_code (key_type a)"
    using type_code_less [of "key_type a"] type_code_less [of "key_type b"]
    by (auto simp: word_less_nat_alt word_unat_eq_iff unat_pack assms)
  have cmp: "InternalKey_Compare slice_compare (AppendInternalKey [] a) (AppendInternalKey [] b) =
    (if user_key a = user_key b then if ?pb < ?pa then - 1 else if ?pa < ?pb then 1 else 0
     else if user_key a < user_key b then - 1 else 1)"
    by (simp add: InternalKey_Compare_def AppendInternalKey_def PutFixed64_def slice_compare_eq)
  have "a = b \<longleftrightarrow> user_key a = user_key b \<and> \<not> ?pa < ?pb \<and> \<not> ?pb < ?pa"
    using linorder_less_linear [of a b] unfolding less greater less_ParsedInternalKey_def
    by (metis less_irrefl)
  then show ?thesis
    unfolding cmp using ParseInternalKey_Append [OF assms(1)] greater
    by (auto simp: less_ParsedInternalKey_def)
qed

theorem internal_key_order_witness:
  "InternalKey_Compare slice_compare (AppendInternalKey [] (ParsedInternalKey [1] 9 kTypeValue))
     (AppendInternalKey [] (ParsedInternalKey [1] 7 kTypeDeletion)) = - 1"
  using internal_key_order [of "ParsedInternalKey [1] 9 kTypeValue" "ParsedInternalKey [1] 7 kTypeDeletion"]
  by (simp add: less_ParsedInternalKey_def kMaxSequenceNumber_def)



end
