(* ===== verification/Ldb_Env.thy ===== *)
theory Ldb_Env
  imports Ldb_Slice
begin

text \<open>
  Files: the status values every operation of leveldb returns (\<^verbatim>\<open>status.h\<close>, \<^verbatim>\<open>status.cc\<close>), the interfaces
  \<^verbatim>\<open>WritableFile\<close> and \<^verbatim>\<open>SequentialFile\<close> (\<^verbatim>\<open>env.h\<close>) as locales, and their POSIX implementations
  (\<^verbatim>\<open>env_posix.cc\<close>), which buffer writes and retry interrupted system calls.

  The operating system is a parameter: the outcomes of the next system calls are a list in the
  state of the file. An empty list means that the calls from here on succeed completely, so a
  run sees finitely many disturbances of any kind and in any order.
\<close>

subsection \<open>Status\<close>

datatype status_code = kNotFound | kCorruption | kNotSupported | kInvalidArgument | kIOError

datatype Status = OK | Err status_code string

definition make_Status :: "status_code \<Rightarrow> string \<Rightarrow> string \<Rightarrow> Status" where
  "make_Status code msg msg2 = Err code (msg @ (if length msg2 \<noteq> 0 then '': '' @ msg2 else []))"

definition Corruption :: "string \<Rightarrow> string \<Rightarrow> Status" where
  "Corruption msg msg2 = make_Status kCorruption msg msg2"

definition NotFound :: "string \<Rightarrow> string \<Rightarrow> Status" where
  "NotFound msg msg2 = make_Status kNotFound msg msg2"

definition IOError :: "string \<Rightarrow> string \<Rightarrow> Status" where
  "IOError msg msg2 = make_Status kIOError msg msg2"

definition InvalidArgument :: "string \<Rightarrow> string \<Rightarrow> Status" where
  "InvalidArgument msg msg2 = make_Status kInvalidArgument msg msg2"

definition NotSupported :: "string \<Rightarrow> string \<Rightarrow> Status" where
  "NotSupported msg msg2 = make_Status kNotSupported msg msg2"

definition ok :: "Status \<Rightarrow> bool" where
  "ok s \<longleftrightarrow> s = OK"

fun Status_ToString :: "Status \<Rightarrow> string" where
  "Status_ToString OK = ''OK''"
| "Status_ToString (Err code msg) =
     (case code of
        kNotFound \<Rightarrow> ''NotFound: ''
      | kCorruption \<Rightarrow> ''Corruption: ''
      | kNotSupported \<Rightarrow> ''Not implemented: ''
      | kInvalidArgument \<Rightarrow> ''Invalid argument: ''
      | kIOError \<Rightarrow> ''IO error: '') @ msg"

subsection \<open>The interfaces\<close>

text \<open>
  A file that is written front to back: \<open>contents\<close> is all that was appended, buffered or not.
  \<open>durable\<close> is what the operating system has got of it. Operations on a file that is \<open>healthy\<close> succeed
  and leave it so.
\<close>

locale writable_file =
  fixes append :: "'f \<Rightarrow> byte list \<Rightarrow> Status \<times> 'f"
    and flush :: "'f \<Rightarrow> Status \<times> 'f"
    and contents :: "'f \<Rightarrow> byte list"
    and durable :: "'f \<Rightarrow> byte list"
    and healthy :: "'f \<Rightarrow> bool"
  assumes append_healthy: "healthy f \<Longrightarrow>
      \<exists>f'. append f bs = (OK, f') \<and> healthy f' \<and> contents f' = contents f @ bs"
    and flush_healthy: "healthy f \<Longrightarrow>
      \<exists>f'. flush f = (OK, f') \<and> healthy f' \<and> contents f' = contents f \<and> durable f' = contents f"

text \<open>A file that is read front to back: only the end of the file makes a read short.\<close>

locale sequential_file =
  fixes read :: "'f \<Rightarrow> nat \<Rightarrow> Status \<times> byte list \<times> 'f"
    and remaining :: "'f \<Rightarrow> byte list"
    and healthy :: "'f \<Rightarrow> bool"
  assumes read_healthy: "healthy f \<Longrightarrow>
      \<exists>f'. read f n = (OK, take n (remaining f), f') \<and> healthy f' \<and> remaining f' = drop n (remaining f)"

subsection \<open>System calls\<close>

datatype errno = ENOENT | EINTR | EINVAL | EIO

text \<open>\<open>strerror\<close> is the text the C library has for an error number.\<close>

definition PosixError :: "(errno \<Rightarrow> string) \<Rightarrow> string \<Rightarrow> errno \<Rightarrow> Status" where
  "PosixError strerror ctxt e =
     (if e = ENOENT then NotFound ctxt (strerror e) else IOError ctxt (strerror e))"

text \<open>A call to \<^verbatim>\<open>write\<close> takes at most so many bytes, or fails.\<close>

datatype write_call = Writes nat | Write_fails errno

datatype read_call = Reads | Read_fails errno

subsection \<open>PosixWritableFile\<close>

definition kWritableFileBufferSize :: nat where
  "kWritableFileBufferSize = 65536"

record posix_writable =
  wf_name :: string
  wf_strerror :: "errno \<Rightarrow> string"
  wf_buf :: "byte list"
  wf_disk :: "byte list"
  wf_calls :: "write_call list"

text \<open>\<^verbatim>\<open>buf_[0, pos_ - 1]\<close> is the list \<open>wf_buf\<close>.\<close>

function WriteUnbuffered :: "posix_writable \<Rightarrow> byte list \<Rightarrow> Status \<times> posix_writable" where
  "WriteUnbuffered f data =
     (if data = [] then (OK, f)
      else (case wf_calls f of
              [] \<Rightarrow> (OK, f\<lparr>wf_disk := wf_disk f @ data\<rparr>)
            | Writes n # calls \<Rightarrow>
                WriteUnbuffered (f\<lparr>wf_disk := wf_disk f @ take n data, wf_calls := calls\<rparr>) (drop n data)
            | Write_fails e # calls \<Rightarrow>
                if e = EINTR then WriteUnbuffered (f\<lparr>wf_calls := calls\<rparr>) data
                else (PosixError (wf_strerror f) (wf_name f) e, f\<lparr>wf_calls := calls\<rparr>)))"
  by pat_completeness auto
termination by (relation "measure (\<lambda>(f, data). length (wf_calls f))") auto

declare WriteUnbuffered.simps [simp del]

definition FlushBuffer :: "posix_writable \<Rightarrow> Status \<times> posix_writable" where
  "FlushBuffer f = (case WriteUnbuffered f (wf_buf f) of (status, f) \<Rightarrow> (status, f\<lparr>wf_buf := []\<rparr>))"

definition Posix_Append :: "posix_writable \<Rightarrow> byte list \<Rightarrow> Status \<times> posix_writable" where
  "Posix_Append f data =
     (let copy_size = min (length data) (kWritableFileBufferSize - length (wf_buf f));
          f = f\<lparr>wf_buf := wf_buf f @ take copy_size data\<rparr>;
          write_data = drop copy_size data
      in if length write_data = 0 then (OK, f)
         else (case FlushBuffer f of (status, f) \<Rightarrow>
                 if \<not> ok status then (status, f)
                 else if length write_data < kWritableFileBufferSize then (OK, f\<lparr>wf_buf := write_data\<rparr>)
                 else WriteUnbuffered f write_data))"

definition Posix_Flush :: "posix_writable \<Rightarrow> Status \<times> posix_writable" where
  "Posix_Flush f = FlushBuffer f"

subsection \<open>PosixSequentialFile\<close>

record posix_sequential =
  sf_name :: string
  sf_strerror :: "errno \<Rightarrow> string"
  sf_rest :: "byte list"
  sf_calls :: "read_call list"

text \<open>The result of a failed read is left as it was; the callers have cleared it.\<close>

function Posix_Read :: "posix_sequential \<Rightarrow> nat \<Rightarrow> Status \<times> byte list \<times> posix_sequential" where
  "Posix_Read f n =
     (case sf_calls f of
        [] \<Rightarrow> (OK, take n (sf_rest f), f\<lparr>sf_rest := drop n (sf_rest f)\<rparr>)
      | Reads # calls \<Rightarrow> (OK, take n (sf_rest f), f\<lparr>sf_rest := drop n (sf_rest f), sf_calls := calls\<rparr>)
      | Read_fails e # calls \<Rightarrow>
          if e = EINTR then Posix_Read (f\<lparr>sf_calls := calls\<rparr>) n
          else (PosixError (sf_strerror f) (sf_name f) e, [], f\<lparr>sf_calls := calls\<rparr>))"
  by pat_completeness auto
termination by (relation "measure (\<lambda>(f, n). length (sf_calls f))") auto

declare Posix_Read.simps [simp del]

definition Posix_Skip :: "posix_sequential \<Rightarrow> nat \<Rightarrow> Status \<times> posix_sequential" where
  "Posix_Skip f n =
     (case sf_calls f of
        Read_fails e # calls \<Rightarrow> (PosixError (sf_strerror f) (sf_name f) e, f\<lparr>sf_calls := calls\<rparr>)
      | Reads # calls \<Rightarrow> (OK, f\<lparr>sf_rest := drop n (sf_rest f), sf_calls := calls\<rparr>)
      | [] \<Rightarrow> (OK, f\<lparr>sf_rest := drop n (sf_rest f)\<rparr>))"

subsection \<open>The POSIX files implement the interfaces\<close>

definition wf_contents :: "posix_writable \<Rightarrow> byte list" where
  "wf_contents f = wf_disk f @ wf_buf f"

definition wf_healthy :: "posix_writable \<Rightarrow> bool" where
  "wf_healthy f \<longleftrightarrow> length (wf_buf f) \<le> kWritableFileBufferSize \<and>
     (\<forall>e. Write_fails e \<in> set (wf_calls f) \<longrightarrow> e = EINTR)"

lemma WriteUnbuffered_healthy:
  "\<forall>e. Write_fails e \<in> set (wf_calls f) \<longrightarrow> e = EINTR \<Longrightarrow>
   \<exists>calls. WriteUnbuffered f data = (OK, f\<lparr>wf_disk := wf_disk f @ data, wf_calls := calls\<rparr>) \<and>
     set calls \<subseteq> set (wf_calls f)"
proof (induction f data rule: WriteUnbuffered.induct)
  case (1 f data)
  show ?case
  proof (cases "data = []")
    case True
    then show ?thesis by (subst WriteUnbuffered.simps) (auto intro!: exI [of _ "wf_calls f"])
  next
    case False
    consider "wf_calls f = []" | n calls where "wf_calls f = Writes n # calls"
      | e calls where "wf_calls f = Write_fails e # calls" by (metis list.exhaust write_call.exhaust)
    then show ?thesis
    proof cases
      case 1
      with False show ?thesis
        by (subst WriteUnbuffered.simps) (auto intro!: exI [of _ "[]"])
    next
      case (2 n calls)
      from "1.IH"(1) [OF False 2 refl] "1.prems" 2 obtain cs where
        "WriteUnbuffered (f\<lparr>wf_disk := wf_disk f @ take n data, wf_calls := calls\<rparr>) (drop n data) =
          (OK, f\<lparr>wf_disk := wf_disk f @ data, wf_calls := cs\<rparr>)" "set cs \<subseteq> set calls"
        by fastforce
      with False 2 show ?thesis by (subst WriteUnbuffered.simps) auto
    next
      case (3 e calls)
      then have e: "e = EINTR" using "1.prems" by simp
      from "1.IH"(2) [OF False 3 refl e] "1.prems" 3 obtain cs where
        "WriteUnbuffered (f\<lparr>wf_calls := calls\<rparr>) data =
          (OK, f\<lparr>wf_disk := wf_disk f @ data, wf_calls := cs\<rparr>)" "set cs \<subseteq> set calls"
        by fastforce
      with False 3 e show ?thesis by (subst WriteUnbuffered.simps) auto
    qed
  qed
qed

lemma FlushBuffer_healthy:
  assumes "wf_healthy f"
  shows "\<exists>f'. FlushBuffer f = (OK, f') \<and> wf_healthy f' \<and> wf_disk f' = wf_contents f \<and> wf_buf f' = []"
proof -
  obtain cs where "WriteUnbuffered f (wf_buf f) = (OK, f\<lparr>wf_disk := wf_disk f @ wf_buf f, wf_calls := cs\<rparr>)"
    "set cs \<subseteq> set (wf_calls f)"
    using WriteUnbuffered_healthy [of f "wf_buf f"] assms by (auto simp: wf_healthy_def)
  with assms show ?thesis by (auto simp: FlushBuffer_def wf_healthy_def wf_contents_def)
qed

lemma Posix_Append_healthy:
  assumes "wf_healthy f"
  shows "\<exists>f'. Posix_Append f bs = (OK, f') \<and> wf_healthy f' \<and> wf_contents f' = wf_contents f @ bs"
proof -
  let ?n = "min (length bs) (kWritableFileBufferSize - length (wf_buf f))"
  let ?f = "f\<lparr>wf_buf := wf_buf f @ take ?n bs\<rparr>" and ?rest = "drop ?n bs"
  have f: "wf_healthy ?f" "wf_contents ?f @ ?rest = wf_contents f @ bs"
    using assms by (auto simp: wf_healthy_def wf_contents_def)
  show ?thesis
  proof (cases "?rest = []")
    case True
    then have "Posix_Append f bs = (OK, ?f)" by (simp add: Posix_Append_def Let_def)
    with f True show ?thesis by simp
  next
    case False
    obtain g where g: "FlushBuffer ?f = (OK, g)" "wf_healthy g" "wf_disk g = wf_contents ?f" "wf_buf g = []"
      using FlushBuffer_healthy [OF f(1)] by blast
    obtain cs where "WriteUnbuffered g ?rest = (OK, g\<lparr>wf_disk := wf_disk g @ ?rest, wf_calls := cs\<rparr>)"
      "set cs \<subseteq> set (wf_calls g)"
      using WriteUnbuffered_healthy [of g ?rest] g(2) by (auto simp: wf_healthy_def)
    then have "\<exists>f'. Posix_Append f bs = (OK, f') \<and> wf_healthy f' \<and> wf_contents f' = wf_contents ?f @ ?rest"
      using False g by (auto simp: Posix_Append_def Let_def ok_def wf_healthy_def wf_contents_def)
    then show ?thesis unfolding f(2) .
  qed
qed

interpretation posix_out: writable_file Posix_Append Posix_Flush wf_contents wf_disk wf_healthy
proof
  show "wf_healthy f \<Longrightarrow> \<exists>f'. Posix_Append f bs = (OK, f') \<and> wf_healthy f' \<and> wf_contents f' = wf_contents f @ bs"
    for f bs by (rule Posix_Append_healthy)
  show "wf_healthy f \<Longrightarrow> \<exists>f'. Posix_Flush f = (OK, f') \<and> wf_healthy f' \<and> wf_contents f' = wf_contents f \<and>
    wf_disk f' = wf_contents f" for f
    using FlushBuffer_healthy [of f] by (auto simp: Posix_Flush_def wf_contents_def)
qed

definition sf_healthy :: "posix_sequential \<Rightarrow> bool" where
  "sf_healthy f \<longleftrightarrow> (\<forall>e. Read_fails e \<in> set (sf_calls f) \<longrightarrow> e = EINTR)"

lemma Posix_Read_healthy:
  "sf_healthy f \<Longrightarrow> \<exists>f'. Posix_Read f n = (OK, take n (sf_rest f), f') \<and> sf_healthy f' \<and>
     sf_rest f' = drop n (sf_rest f)"
proof (induction f n rule: Posix_Read.induct)
  case (1 f n)
  consider "sf_calls f = []" | calls where "sf_calls f = Reads # calls"
    | e calls where "sf_calls f = Read_fails e # calls" by (metis list.exhaust read_call.exhaust)
  then show ?case
  proof cases
    case 1
    then show ?thesis by (subst Posix_Read.simps) (simp add: sf_healthy_def)
  next
    case (2 calls)
    with "1.prems" show ?thesis by (subst Posix_Read.simps) (simp add: sf_healthy_def)
  next
    case (3 e calls)
    then have e: "e = EINTR" using "1.prems" by (simp add: sf_healthy_def)
    have "sf_healthy (f\<lparr>sf_calls := calls\<rparr>)" using "1.prems" 3 by (simp add: sf_healthy_def)
    from "1.IH" [OF 3 refl e this] 3 e show ?thesis by (subst Posix_Read.simps) simp
  qed
qed

interpretation posix_in: sequential_file Posix_Read sf_rest sf_healthy
  by unfold_locales (rule Posix_Read_healthy)

end
