(* ===== verification/Ldb_Random.thy ===== *)
theory Ldb_Random
  imports Prelude
begin

text \<open>
  The pseudo-random numbers of leveldb (\<^verbatim>\<open>random.h\<close>): a Lehmer generator modulo \<open>2 ^ 31 - 1\<close> whose
  remainder is computed without a division.
\<close>

subsection \<open>The generator\<close>

type_synonym Random = "32 word"

definition make_Random :: "32 word \<Rightarrow> Random" where
  "make_Random s = (let seed = s AND 0x7fffffff in if seed = 0 \<or> seed = 2147483647 then 1 else seed)"

definition Random_Next :: "Random \<Rightarrow> 32 word \<times> Random" where
  "Random_Next seed =
     (let M = 2147483647 :: 32 word; A = 16807 :: 64 word;
          product = ucast seed * A :: 64 word;
          seed = ucast (drop_bit 31 product + (product AND ucast M)) :: 32 word;
          seed = (if seed > M then seed - M else seed)
      in (seed, seed))"

text \<open>\<^verbatim>\<open>Next() % n\<close> converts the \<^verbatim>\<open>int\<close> \<open>n\<close>, which is positive here, to an unsigned number.\<close>

definition Uniform :: "nat \<Rightarrow> Random \<Rightarrow> 32 word \<times> Random" where
  "Uniform n seed = (case Random_Next seed of (r, seed) \<Rightarrow> (r mod word_of_nat n, seed))"

definition OneIn :: "nat \<Rightarrow> Random \<Rightarrow> bool \<times> Random" where
  "OneIn n seed = (case Random_Next seed of (r, seed) \<Rightarrow> (r mod word_of_nat n = 0, seed))"

definition Skewed :: "nat \<Rightarrow> Random \<Rightarrow> 32 word \<times> Random" where
  "Skewed max_log seed =
     (case Uniform (max_log + 1) seed of (r, seed) \<Rightarrow> Uniform (push_bit (unat r) 1) seed)"

definition good_seed :: "Random \<Rightarrow> bool" where
  "good_seed seed \<longleftrightarrow> 0 < unat seed \<and> unat seed < 2147483647"

subsection \<open>The remainder\<close>

lemma fold_mersenne:
  assumes "q < M" "r \<le> M" "(q * (M + 1) + r) mod M \<noteq> 0"
  shows "(if q + r > M then q + r - M else q + r) = (q * (M + 1) + r) mod (M :: nat)"
proof -
  have p: "(q * (M + 1) + r) mod M = (q + r) mod M"
    using mod_mult_self1 [of "q + r" q M] by (simp add: algebra_simps)
  show ?thesis
  proof (cases "q + r > M")
    case True
    then have "(q + r) mod M = q + r - M" using assms(1,2) by (simp add: mod_if)
    with True p show ?thesis by simp
  next
    case False
    moreover have "q + r \<noteq> M" using assms(3) p by auto
    ultimately show ?thesis using p by simp
  qed
qed

lemma lehmer_nonzero:
  assumes "0 < s" "s < 2147483647"
  shows "(s * 16807) mod 2147483647 \<noteq> (0 :: nat)"
proof
  assume "(s * 16807) mod 2147483647 = 0"
  then have "2147483647 dvd s * 16807" by (simp add: mod_eq_0_iff_dvd)
  moreover have "coprime (2147483647 :: nat) 16807" by (simp add: coprime_iff_gcd_eq_1 gcd_non_0_nat)
  ultimately have "2147483647 dvd s" by (simp add: coprime_dvd_mult_left_iff)
  with assms show False by (auto dest: dvd_imp_le)
qed

text \<open>
  The generator computes the remainder of the product by the prime \<open>2 ^ 31 - 1\<close>, in spite of
  the additions in 32 bits, and never leaves the range of good seeds.
\<close>

lemma Random_Next_exact:
  assumes "good_seed seed"
  shows "\<exists>r. Random_Next seed = (r, r) \<and> unat r = (unat seed * 16807) mod 2147483647 \<and> good_seed r"
proof -
  let ?s = "unat seed" let ?p = "?s * 16807" let ?q = "?p div 2 ^ 31" and ?r = "?p mod 2 ^ 31"
  have s: "0 < ?s" "?s < 2147483647" using assms by (auto simp: good_seed_def)
  have q: "?q < 2147483647" using s by (simp add: div_less_iff_less_mult)
  have r: "?r \<le> 2147483647" by (simp add: less_Suc_eq_le [symmetric])
  have p: "?p = ?q * (2147483647 + 1) + ?r" by simp
  have prod: "unat (ucast seed * 16807 :: 64 word) = ?p"
    using s by (simp add: unat_word_ariths unsigned_ucast_eq take_bit_eq_mod)
  let ?P = "ucast seed * 16807 :: 64 word"
  let ?w = "drop_bit 31 ?P + (?P AND ucast (2147483647 :: 32 word)) :: 64 word"
  have mask: "(ucast (2147483647 :: 32 word) :: 64 word) = mask 31" by (simp add: mask_eq_exp_minus_1)
  have low: "unat (?P AND ucast (2147483647 :: 32 word)) = ?r"
    unfolding mask and_low_mask prod by (simp add: unat_of_nat take_bit_eq_mod)
  have high: "unat (drop_bit 31 ?P) = ?q" unfolding unat_drop_bit_div prod ..
  have "unat ?w = ?q + ?r"
    using q r unfolding unat_plus_if' low high by simp
  then have w: "unat (ucast ?w :: 32 word) = ?q + ?r" using q r by (simp add: unsigned_ucast_eq take_bit_eq_mod)
  let ?f = "\<lambda>x. if x > (2147483647 :: 32 word) then x - 2147483647 else x"
  have next_eq: "Random_Next seed = (?f (ucast ?w), ?f (ucast ?w))" by (simp add: Random_Next_def Let_def)
  have "unat (?f (ucast ?w)) = (if ?q + ?r > 2147483647 then ?q + ?r - 2147483647 else ?q + ?r)"
    using w by (simp add: word_less_nat_alt unat_sub_if')
  also have "\<dots> = ?p mod 2147483647" using fold_mersenne [OF q r] lehmer_nonzero [OF s] p by simp
  finally show ?thesis using next_eq lehmer_nonzero [OF s] by (simp add: good_seed_def)
qed

lemma Random_Next_exact_witness: "good_seed 1 \<and> fst (Random_Next 1) = 16807"
  using Random_Next_exact [of 1] by (auto simp: good_seed_def word_unat_eq_iff)

lemma good_make_Random: "good_seed (make_Random s)"
proof -
  have m: "(0x7fffffff :: 32 word) = mask 31" by (simp add: mask_eq_exp_minus_1)
  have "unat (s AND 0x7fffffff) < 2 ^ 31"
    unfolding m and_low_mask by (simp add: unat_of_nat take_bit_eq_mod mod_less_divisor)
  then show ?thesis by (auto simp: make_Random_def Let_def good_seed_def word_unat_eq_iff)
qed

end
