(* ===== verification/Ldb_Skiplist.thy ===== *)
theory Ldb_Skiplist
  imports Ldb_Random "HOL-Library.Monad_Syntax"
begin

text \<open>
  The skip list behind the memtable (\<^verbatim>\<open>skiplist.h\<close>). Nodes are numbered in the order of their
  allocation, the head is node 0, and a node has its key and its array of links. A run is \<open>None\<close>
  when it reads behind the links of a node, reads an entry of \<^verbatim>\<open>prev\<close> that was never set, violates an
  assertion, or does not end. Calls are sequential: the barriers of the links have no effect here.
\<close>

subsection \<open>Nodes\<close>

record 'k skip_node =
  sn_key :: 'k
  sn_next :: "nat option list"

record 'k skiplist =
  sl_nodes :: "'k skip_node list"
  sl_max_height :: nat
  sl_rnd :: Random

definition kMaxHeight :: nat where
  "kMaxHeight = 12"

abbreviation (input) head :: nat where
  "head \<equiv> 0"

definition node_key :: "'k skiplist \<Rightarrow> nat \<Rightarrow> 'k option" where
  "node_key s x = (if x < length (sl_nodes s) then Some (sn_key (sl_nodes s ! x)) else None)"

definition height :: "'k skiplist \<Rightarrow> nat \<Rightarrow> nat" where
  "height s x = (if x < length (sl_nodes s) then length (sn_next (sl_nodes s ! x)) else 0)"

definition node_Next :: "'k skiplist \<Rightarrow> nat \<Rightarrow> nat \<Rightarrow> nat option option" where
  "node_Next s x n = (if n < height s x then Some (sn_next (sl_nodes s ! x) ! n) else None)"

definition SetNext :: "'k skiplist \<Rightarrow> nat \<Rightarrow> nat \<Rightarrow> nat option \<Rightarrow> 'k skiplist option" where
  "SetNext s x n y =
     (if n < height s x
      then Some (s\<lparr>sl_nodes := (sl_nodes s)[x := (sl_nodes s ! x)\<lparr>sn_next := (sn_next (sl_nodes s ! x))[n := y]\<rparr>]\<rparr>)
      else None)"

text \<open>The links of a new node are not initialised; the callers set every one of them.\<close>

definition NewNode :: "'k \<Rightarrow> nat \<Rightarrow> 'k skiplist \<Rightarrow> nat \<times> 'k skiplist" where
  "NewNode key h s =
     (length (sl_nodes s), s\<lparr>sl_nodes := sl_nodes s @ [\<lparr>sn_key = key, sn_next = replicate h None\<rparr>]\<rparr>)"

definition make_SkipList :: "'k \<Rightarrow> 'k skiplist" where
  "make_SkipList any =
     \<lparr>sl_nodes = [\<lparr>sn_key = any, sn_next = replicate kMaxHeight None\<rparr>], sl_max_height = 1,
      sl_rnd = make_Random 0xdeadbeef\<rparr>"

subsection \<open>Search\<close>

text \<open>
  The three searches are one loop: at each level it goes on while \<open>after\<close> holds of the next node,
  notes the last node in \<^verbatim>\<open>prev\<close>, and goes down. It returns the next node, the node before it and \<^verbatim>\<open>prev\<close>,
  whose entries are \<open>None\<close> until they are set.
\<close>

partial_function (option) search_loop ::
  "'k skiplist \<Rightarrow> (nat option \<Rightarrow> bool option) \<Rightarrow> nat \<Rightarrow> nat \<Rightarrow> nat option list \<Rightarrow>
   (nat option \<times> nat \<times> nat option list) option" where
  "search_loop s after x level prev = do {
     nx \<leftarrow> node_Next s x level;
     b \<leftarrow> after nx;
     if b then do {y \<leftarrow> nx; search_loop s after y level prev}
     else if level = 0 then Some (nx, x, prev[level := Some x])
     else search_loop s after x (level - 1) (prev[level := Some x])
   }"

definition KeyIsAfterNode :: "('k \<Rightarrow> 'k \<Rightarrow> int) \<Rightarrow> 'k skiplist \<Rightarrow> 'k \<Rightarrow> nat option \<Rightarrow> bool option" where
  "KeyIsAfterNode cmp s key n =
     (case n of None \<Rightarrow> Some False | Some n \<Rightarrow> map_option (\<lambda>k. cmp k key < 0) (node_key s n))"

definition FindGreaterOrEqual ::
  "('k \<Rightarrow> 'k \<Rightarrow> int) \<Rightarrow> 'k skiplist \<Rightarrow> 'k \<Rightarrow> (nat option \<times> nat option list) option" where
  "FindGreaterOrEqual cmp s key =
     map_option (\<lambda>(nx, x, prev). (nx, prev))
       (search_loop s (KeyIsAfterNode cmp s key) head (sl_max_height s - 1) (replicate kMaxHeight None))"

definition FindLessThan :: "('k \<Rightarrow> 'k \<Rightarrow> int) \<Rightarrow> 'k skiplist \<Rightarrow> 'k \<Rightarrow> nat option" where
  "FindLessThan cmp s key =
     map_option (\<lambda>(nx, x, prev). x)
       (search_loop s (\<lambda>n. case n of None \<Rightarrow> Some False
           | Some n \<Rightarrow> map_option (\<lambda>k. \<not> cmp k key \<ge> 0) (node_key s n)) head (sl_max_height s - 1) [])"

definition FindLast :: "'k skiplist \<Rightarrow> nat option" where
  "FindLast s =
     map_option (\<lambda>(nx, x, prev). x) (search_loop s (\<lambda>n. Some (n \<noteq> None)) head (sl_max_height s - 1) [])"

subsection \<open>Insertion\<close>

fun random_height_loop :: "nat \<Rightarrow> nat \<Rightarrow> Random \<Rightarrow> nat \<times> Random" where
  "random_height_loop 0 h rnd = (h, rnd)"
| "random_height_loop (Suc n) h rnd =
     (case Random_Next rnd of (r, rnd) \<Rightarrow> if r mod 4 = 0 then random_height_loop n (h + 1) rnd else (h, rnd))"

definition RandomHeight :: "Random \<Rightarrow> nat \<times> Random" where
  "RandomHeight rnd = random_height_loop (kMaxHeight - 1) 1 rnd"

fun link_levels :: "nat list \<Rightarrow> nat \<Rightarrow> nat option list \<Rightarrow> 'k skiplist \<Rightarrow> 'k skiplist option" where
  "link_levels [] x prev s = Some s"
| "link_levels (i # is) x prev s = do {
     p \<leftarrow> (if i < length prev then prev ! i else None);
     n \<leftarrow> node_Next s p i;
     s \<leftarrow> SetNext s x i n;
     s \<leftarrow> SetNext s p i (Some x);
     link_levels is x prev s
   }"

definition Insert :: "('k \<Rightarrow> 'k \<Rightarrow> int) \<Rightarrow> 'k \<Rightarrow> 'k skiplist \<Rightarrow> 'k skiplist option" where
  "Insert cmp key s = do {
     (x, prev) \<leftarrow> FindGreaterOrEqual cmp s key;
     if (case x of None \<Rightarrow> True | Some x \<Rightarrow> \<exists>k \<in> set_option (node_key s x). cmp key k \<noteq> 0)
     then let (h, rnd) = RandomHeight (sl_rnd s);
              prev = (if h > sl_max_height s
                      then map (\<lambda>i. if sl_max_height s \<le> i \<and> i < h then Some head else prev ! i) [0..<length prev]
                      else prev);
              s = s\<lparr>sl_rnd := rnd, sl_max_height := max h (sl_max_height s)\<rparr>;
              (x, s) = NewNode key h s
          in link_levels [0..<h] x prev s
     else None
   }"

definition Contains :: "('k \<Rightarrow> 'k \<Rightarrow> int) \<Rightarrow> 'k skiplist \<Rightarrow> 'k \<Rightarrow> bool option" where
  "Contains cmp s key = do {
     (x, prev) \<leftarrow> FindGreaterOrEqual cmp s key;
     case x of None \<Rightarrow> Some False | Some x \<Rightarrow> map_option (\<lambda>k. cmp key k = 0) (node_key s x)
   }"

subsection \<open>Iterators\<close>

text \<open>The state of an iterator is its node, \<open>None\<close> when it is not valid.\<close>

definition Iter_key :: "'k skiplist \<Rightarrow> nat option \<Rightarrow> 'k option" where
  "Iter_key s it = do {x \<leftarrow> it; node_key s x}"

definition Iter_Next :: "'k skiplist \<Rightarrow> nat option \<Rightarrow> nat option option" where
  "Iter_Next s it = do {x \<leftarrow> it; node_Next s x 0}"

definition not_head :: "nat \<Rightarrow> nat option" where
  "not_head x = (if x = head then None else Some x)"

definition Iter_Prev :: "('k \<Rightarrow> 'k \<Rightarrow> int) \<Rightarrow> 'k skiplist \<Rightarrow> nat option \<Rightarrow> nat option option" where
  "Iter_Prev cmp s it = do {
     k \<leftarrow> Iter_key s it;
     x \<leftarrow> FindLessThan cmp s k;
     Some (not_head x)
   }"

definition Iter_Seek :: "('k \<Rightarrow> 'k \<Rightarrow> int) \<Rightarrow> 'k skiplist \<Rightarrow> 'k \<Rightarrow> nat option option" where
  "Iter_Seek cmp s target = map_option fst (FindGreaterOrEqual cmp s target)"

definition Iter_SeekToFirst :: "'k skiplist \<Rightarrow> nat option option" where
  "Iter_SeekToFirst s = node_Next s head 0"

definition Iter_SeekToLast :: "'k skiplist \<Rightarrow> nat option option" where
  "Iter_SeekToLast s = map_option not_head (FindLast s)"

end
