(* ===== verification/Ldb_Skiplist_Spec.thy ===== *)
theory Ldb_Skiplist_Spec
  imports Ldb_Skiplist Ldb_Slice
begin

text \<open>
  The skip list implements an ordered list of keys: the invariant of the links, that insertion
  keeps it, and what the searches and iterators return. The order is an interface, so that the
  memtable can instantiate it with its own comparator.
\<close>

subsection \<open>Chains of links\<close>

fun chain :: "(nat \<Rightarrow> nat option option) \<Rightarrow> nat \<Rightarrow> nat list \<Rightarrow> bool" where
  "chain nxt x [] \<longleftrightarrow> nxt x = Some None"
| "chain nxt x (y # ys) \<longleftrightarrow> nxt x = Some (Some y) \<and> chain nxt y ys"

definition first :: "'a list \<Rightarrow> 'a option" where
  "first xs = (case xs of [] \<Rightarrow> None | x # _ \<Rightarrow> Some x)"

lemma first_simps [simp]: "first [] = None" "first (x # xs) = Some x"
  by (simp_all add: first_def)

lemma chain_first: "chain nxt x ys \<Longrightarrow> nxt x = Some (first ys)"
  by (cases ys) auto

lemma chain_from:
  "chain nxt a (us @ ws) \<Longrightarrow> x \<in> set (a # us) \<Longrightarrow>
   \<exists>vs. chain nxt x (vs @ ws) \<and> set vs \<subseteq> set us \<and> last (x # vs) = last (a # us)"
proof (induction us arbitrary: a)
  case (Cons u us)
  show ?case
  proof (cases "x = a")
    case True
    with Cons.prems show ?thesis by (intro exI [of _ "u # us"]) simp
  next
    case False
    with Cons.IH [of u] Cons.prems obtain vs where
      "chain nxt x (vs @ ws)" "set vs \<subseteq> set us" "last (x # vs) = last (u # us)" by auto
    then show ?thesis by (intro exI [of _ vs]) auto
  qed
qed auto

lemma chain_behind: "chain nxt a (us @ x # ws) \<Longrightarrow> chain nxt x ws"
  by (induction us arbitrary: a) auto

lemma chain_cong: "chain nxt x ys \<Longrightarrow> \<forall>y \<in> set (x # ys). nxt' y = nxt y \<Longrightarrow> chain nxt' x ys"
  by (induction ys arbitrary: x) auto

lemma chain_insert:
  assumes "chain nxt x (us @ vs)" "distinct (x # us @ vs)" "n \<notin> set (x # us @ vs)"
    "\<And>y. nxt' y = (if y = n then nxt (last (x # us)) else if y = last (x # us) then Some (Some n) else nxt y)"
  shows "chain nxt' x (us @ n # vs)"
  using assms(1-3) assms(4)
proof (induction us arbitrary: x)
  case Nil
  from Nil have "nxt' x = Some (Some n)" "nxt' n = Some (first vs)" by (auto dest: chain_first)
  moreover have "chain nxt' n vs"
  proof (cases vs)
    case (Cons v vs')
    with Nil.prems have "chain nxt v vs'" "\<forall>y \<in> set (v # vs'). nxt' y = nxt y" by auto
    then have "chain nxt' v vs'" by (rule chain_cong)
    with Cons \<open>nxt' n = Some (first vs)\<close> show ?thesis by simp
  qed (use \<open>nxt' n = Some (first vs)\<close> in simp)
  ultimately show ?case by simp
next
  case (Cons u us)
  have "last (x # u # us) \<in> set (u # us)" by (metis last_ConsR last_in_set list.distinct(1))
  with Cons.prems(1-3) have "nxt' x = Some (Some u)" unfolding Cons.prems(4) by auto
  moreover have "chain nxt' u (us @ n # vs)"
    by (rule Cons.IH) (use Cons.prems(1-3) in \<open>simp_all add: Cons.prems(4)\<close>)
  ultimately show ?case by simp
qed

subsection \<open>The shape of a skip list\<close>

definition tower :: "'k skiplist \<Rightarrow> nat \<Rightarrow> nat list \<Rightarrow> nat list" where
  "tower s l zs = filter (\<lambda>n. l < height s n) zs"

text \<open>\<open>zs\<close> are the nodes in the order of the lowest level; each level links those that are high enough.\<close>

definition skip_shape :: "'k skiplist \<Rightarrow> nat list \<Rightarrow> bool" where
  "skip_shape s zs \<longleftrightarrow> sl_nodes s \<noteq> [] \<and> set zs = {1..<length (sl_nodes s)} \<and> distinct zs \<and>
     height s head = kMaxHeight \<and> 1 \<le> sl_max_height s \<and> sl_max_height s \<le> kMaxHeight \<and>
     (\<forall>n \<in> set zs. 1 \<le> height s n \<and> height s n \<le> sl_max_height s) \<and>
     (\<forall>l < kMaxHeight. chain (\<lambda>x. node_Next s x l) head (tower s l zs))"

lemma tower_simps [simp]: "tower s l [] = []" "tower s l (xs @ ys) = tower s l xs @ tower s l ys"
  by (simp_all add: tower_def)

lemma tower_0: "skip_shape s zs \<Longrightarrow> set ys \<subseteq> set zs \<Longrightarrow> tower s 0 ys = ys"
  by (auto simp: tower_def skip_shape_def filter_id_conv Suc_le_eq subset_iff)

lemma shape_level_0:
  assumes "skip_shape s zs"
  shows "chain (\<lambda>x. node_Next s x 0) head zs" "head \<notin> set zs"
proof -
  have "chain (\<lambda>x. node_Next s x 0) head (tower s 0 zs)" using assms unfolding skip_shape_def kMaxHeight_def by simp
  then show "chain (\<lambda>x. node_Next s x 0) head zs" using tower_0 [OF assms] by simp
  show "head \<notin> set zs" using assms unfolding skip_shape_def by simp
qed

lemma not_head_last: "head \<notin> set zs \<Longrightarrow> not_head (last (head # zs)) = (if zs = [] then None else Some (last zs))"
  by (auto simp: not_head_def) (metis last_in_set)

lemma shape_make: "skip_shape (make_SkipList any) []"
  by (simp add: skip_shape_def make_SkipList_def height_def node_Next_def tower_def kMaxHeight_def)

subsection \<open>Search\<close>

lemma search_level:
  assumes "chain (\<lambda>x. node_Next s x l) x (vs @ ws)" "\<forall>v \<in> set vs. after (Some v) = Some True"
    "after (first ws) = Some False"
  shows "search_loop s after x l prev =
    (if l = 0 then Some (first ws, last (x # vs), prev[l := Some (last (x # vs))])
     else search_loop s after (last (x # vs)) (l - 1) (prev[l := Some (last (x # vs))]))"
  using assms
proof (induction vs arbitrary: x)
  case Nil
  then show ?case using chain_first [of "\<lambda>x. node_Next s x l" x ws] by (subst search_loop.simps) simp
next
  case (Cons v vs)
  then have "search_loop s after x l prev = search_loop s after v l prev" by (subst search_loop.simps) simp
  with Cons show ?case by simp
qed

lemma search_all:
  assumes "skip_shape s (as @ bs)" "\<forall>a \<in> set as. after (Some a) = Some True"
    "\<forall>b \<in> set bs. after (Some b) = Some False" "after None = Some False"
    "l < kMaxHeight" "x \<in> set (head # tower s l as)"
  shows "\<exists>prev'. search_loop s after x l prev = Some (first bs, last (head # as), prev') \<and>
    length prev' = length prev \<and>
    (\<forall>i < length prev. prev' ! i = (if i \<le> l then Some (last (head # tower s i as)) else prev ! i))"
  using assms(5,6)
proof (induction l arbitrary: x prev)
  case (0 x)
  have t: "tower s 0 as = as" "tower s 0 bs = bs" using tower_0 [OF assms(1)] by auto
  have "chain (\<lambda>x. node_Next s x 0) head (as @ bs)"
    using assms(1) t by (auto simp: skip_shape_def tower_def dest: spec [of _ 0])
  from chain_from [OF this "0.prems"(2) [unfolded t]] obtain vs where
    vs: "chain (\<lambda>x. node_Next s x 0) x (vs @ bs)" "set vs \<subseteq> set as" "last (x # vs) = last (head # as)" by blast
  have "after (first bs) = Some False" using assms(3,4) by (cases bs) auto
  moreover have "\<forall>v \<in> set vs. after (Some v) = Some True" using assms(2) vs(2) by auto
  ultimately have "search_loop s after x 0 prev = Some (first bs, last (head # as), prev[0 := Some (last (head # as))])"
    using search_level [where after = after and l = 0, OF vs(1)] vs(3) by simp
  then show ?case using t(1) by (intro exI [of _ "prev[0 := Some (last (head # as))]"]) (simp add: nth_list_update)
next
  case (Suc l)
  have "chain (\<lambda>x. node_Next s x (Suc l)) head (tower s (Suc l) as @ tower s (Suc l) bs)"
    using assms(1) Suc.prems(1) by (simp add: skip_shape_def tower_def)
  from chain_from [OF this Suc.prems(2)] obtain vs where
    vs: "chain (\<lambda>x. node_Next s x (Suc l)) x (vs @ tower s (Suc l) bs)" "set vs \<subseteq> set (tower s (Suc l) as)"
      "last (x # vs) = last (head # tower s (Suc l) as)" by blast
  let ?y = "last (head # tower s (Suc l) as)"
  have after: "\<forall>v \<in> set vs. after (Some v) = Some True" using vs(2) assms(2) by (auto simp: tower_def)
  have "set (tower s (Suc l) bs) \<subseteq> set bs" by (auto simp: tower_def)
  then have "after (first (tower s (Suc l) bs)) = Some False"
    using assms(3,4) by (cases "tower s (Suc l) bs") auto
  note level = search_level [where after = after and l = "Suc l", OF vs(1) after this, of prev, unfolded vs(3)]
  have "?y \<in> set (head # tower s (Suc l) as)" by (rule last_in_set) simp
  then have "?y \<in> set (head # tower s l as)" by (auto simp: tower_def)
  with Suc.IH [of ?y "prev[Suc l := Some ?y]"] Suc.prems(1) obtain prev' where p:
    "search_loop s after ?y l (prev[Suc l := Some ?y]) = Some (first bs, last (head # as), prev')"
    "length prev' = length prev"
    "\<And>i. i < length prev \<Longrightarrow> prev' ! i = (if i \<le> l then Some (last (head # tower s i as)) else prev[Suc l := Some ?y] ! i)"
    by auto
  have "prev' ! i = (if i \<le> Suc l then Some (last (head # tower s i as)) else prev ! i)" if "i < length prev" for i
    using p(3) [OF that] that by (auto simp: nth_list_update le_Suc_eq)
  with level p(1,2) show ?case by auto
qed

lemma search_from_head:
  assumes "skip_shape s (as @ bs)" "\<forall>a \<in> set as. after (Some a) = Some True"
    "\<forall>b \<in> set bs. after (Some b) = Some False" "after None = Some False"
  shows "\<exists>prev'. search_loop s after head (sl_max_height s - 1) prev = Some (first bs, last (head # as), prev') \<and>
    length prev' = length prev \<and>
    (\<forall>i < length prev. prev' ! i = (if i < sl_max_height s then Some (last (head # tower s i as)) else prev ! i))"
proof -
  have "sl_max_height s - 1 < kMaxHeight" "\<And>i. i \<le> sl_max_height s - 1 \<longleftrightarrow> i < sl_max_height s"
    using assms(1) by (auto simp: skip_shape_def)
  with search_all [OF assms, of "sl_max_height s - 1" head prev] show ?thesis by auto
qed

lemma FindLast_exact: "skip_shape s zs \<Longrightarrow> FindLast s = Some (last (head # zs))"
  using search_from_head [of s zs "[]" "\<lambda>n. Some (n \<noteq> None)" "[]"] by (auto simp: FindLast_def)

subsection \<open>Insertion\<close>

lemma SetNext_effect:
  assumes "n < height s x"
  shows "\<exists>s'. SetNext s x n y = Some s' \<and> length (sl_nodes s') = length (sl_nodes s) \<and>
    sl_max_height s' = sl_max_height s \<and> sl_rnd s' = sl_rnd s \<and> height s' = height s \<and> node_key s' = node_key s \<and>
    (\<forall>a b. node_Next s' a b = (if a = x \<and> b = n then Some y else node_Next s a b))"
  using assms by (auto simp: SetNext_def height_def node_key_def node_Next_def nth_list_update fun_eq_iff split: if_splits)

lemma link_levels_effect:
  assumes "distinct is" "\<forall>i \<in> set is. i < length prev \<and> prev ! i = Some (p i) \<and> i < height s (p i) \<and> i < height s x \<and> p i \<noteq> x"
  shows "\<exists>s'. link_levels is x prev s = Some s' \<and> length (sl_nodes s') = length (sl_nodes s) \<and>
    sl_max_height s' = sl_max_height s \<and> sl_rnd s' = sl_rnd s \<and> height s' = height s \<and> node_key s' = node_key s \<and>
    (\<forall>a b. node_Next s' a b = (if b \<in> set is \<and> a = x then node_Next s (p b) b
       else if b \<in> set is \<and> a = p b then Some (Some x) else node_Next s a b))"
  using assms
proof (induction "is" arbitrary: s)
  case (Cons i "is")
  have i: "i < length prev" "prev ! i = Some (p i)" "i < height s (p i)" "i < height s x" "p i \<noteq> x"
    using Cons.prems(2) by auto
  obtain n where n: "node_Next s (p i) i = Some n" using i(3) by (simp add: node_Next_def)
  obtain s1 where s1: "SetNext s x i n = Some s1" "length (sl_nodes s1) = length (sl_nodes s)"
    "sl_max_height s1 = sl_max_height s" "sl_rnd s1 = sl_rnd s" "height s1 = height s" "node_key s1 = node_key s"
    "\<And>a b. node_Next s1 a b = (if a = x \<and> b = i then Some n else node_Next s a b)"
    using SetNext_effect [OF i(4), of n] by blast
  have "i < height s1 (p i)" using i(3) s1(5) by simp
  from SetNext_effect [OF this, of "Some x"] obtain s2 where s2: "SetNext s1 (p i) i (Some x) = Some s2"
    "length (sl_nodes s2) = length (sl_nodes s1)" "sl_max_height s2 = sl_max_height s1" "sl_rnd s2 = sl_rnd s1"
    "height s2 = height s1" "node_key s2 = node_key s1"
    "\<And>a b. node_Next s2 a b = (if a = p i \<and> b = i then Some (Some x) else node_Next s1 a b)" by blast
  have "\<forall>j \<in> set is. j < length prev \<and> prev ! j = Some (p j) \<and> j < height s2 (p j) \<and> j < height s2 x \<and> p j \<noteq> x"
    using Cons.prems(2) s1(5) s2(5) by simp
  with Cons.IH [of s2] Cons.prems(1) obtain s3 where s3: "link_levels is x prev s2 = Some s3"
    "length (sl_nodes s3) = length (sl_nodes s2)" "sl_max_height s3 = sl_max_height s2" "sl_rnd s3 = sl_rnd s2"
    "height s3 = height s2" "node_key s3 = node_key s2"
    "\<And>a b. node_Next s3 a b = (if b \<in> set is \<and> a = x then node_Next s2 (p b) b
       else if b \<in> set is \<and> a = p b then Some (Some x) else node_Next s2 a b)" by auto
  have "link_levels (i # is) x prev s = Some s3" using i n s1(1) s2(1) s3(1) by simp
  moreover have "node_Next s3 a b = (if b \<in> set (i # is) \<and> a = x then node_Next s (p b) b
       else if b \<in> set (i # is) \<and> a = p b then Some (Some x) else node_Next s a b)" for a b
    using Cons.prems n i(5) by (auto simp: s3(7) s2(7) s1(7))
  ultimately show ?case using s1 s2 s3 by simp
qed simp

lemma random_height_loop_bounds: "random_height_loop n h rnd = (h', rnd') \<Longrightarrow> h \<le> h' \<and> h' \<le> h + n"
  by (induction n h rnd rule: random_height_loop.induct) (fastforce split: prod.splits if_splits)+

lemma RandomHeight_bounds: "RandomHeight rnd = (h, rnd') \<Longrightarrow> 1 \<le> h \<and> h \<le> kMaxHeight"
  using random_height_loop_bounds [of "kMaxHeight - 1" 1 rnd h rnd'] by (simp add: RandomHeight_def kMaxHeight_def)

lemma NewNode_effect:
  assumes "NewNode key h s = (x, s')"
  shows "x = length (sl_nodes s)" "length (sl_nodes s') = Suc x" "sl_max_height s' = sl_max_height s"
    "height s' y = (if y = x then h else height s y)" "node_key s' y = (if y = x then Some key else node_key s y)"
    "y \<noteq> x \<Longrightarrow> node_Next s' y l = node_Next s y l"
  using assms by (auto simp: NewNode_def height_def node_key_def node_Next_def nth_append)

lemma linked_shape:
  assumes s: "skip_shape s (as @ bs)" and h: "1 \<le> h" "h \<le> kMaxHeight"
    and node: "NewNode key h (s\<lparr>sl_rnd := rnd, sl_max_height := max h (sl_max_height s)\<rparr>) = (x, s2)"
    and prev: "length prev = kMaxHeight" "\<And>i. i < h \<Longrightarrow> prev ! i = Some (last (head # tower s i as))"
  shows "\<exists>s'. link_levels [0..<h] x prev s2 = Some s' \<and> skip_shape s' (as @ x # bs) \<and>
    (\<forall>n. node_key s' n = (if n = x then Some key else node_key s n))"
proof -
  let ?p = "\<lambda>i. last (head # tower s i as)"
  have x: "x = length (sl_nodes s)" "length (sl_nodes s2) = Suc x" "sl_max_height s2 = max h (sl_max_height s)"
    and s2: "\<And>y. height s2 y = (if y = x then h else height s y)"
      "\<And>y. node_key s2 y = (if y = x then Some key else node_key s y)"
      "\<And>y l. y \<noteq> x \<Longrightarrow> node_Next s2 y l = node_Next s y l"
    using NewNode_effect [OF node] by (auto simp: height_def node_key_def node_Next_def)
  have set_zs: "set (as @ bs) = {1..<x}" and x0: "0 < x" using s x(1) by (auto simp: skip_shape_def)
  have "0 \<notin> set (as @ bs)" unfolding set_zs by simp
  then have n0: "0 \<notin> set as" "0 \<notin> set bs" by auto
  have p: "?p i \<in> set (head # tower s i as)" for i by (rule last_in_set) simp
  have px: "?p i < x" for i using p [of i] set_zs x0 by (auto simp: tower_def)
  have ph: "i < height s (?p i)" if "i < kMaxHeight" for i
    using p [of i] that s by (auto simp: skip_shape_def tower_def simp del: last.simps)
  have "\<forall>i \<in> set [0..<h]. i < length prev \<and> prev ! i = Some (?p i) \<and> i < height s2 (?p i) \<and> i < height s2 x \<and> ?p i \<noteq> x"
    using h(2) prev ph px by (auto simp: s2(1) less_imp_neq simp del: last.simps)
  from link_levels_effect [OF distinct_upt this] obtain s' where s': "link_levels [0..<h] x prev s2 = Some s'"
    "length (sl_nodes s') = Suc x" "sl_max_height s' = max h (sl_max_height s)" "height s' = height s2"
    "node_key s' = node_key s2"
    "\<And>a b. node_Next s' a b = (if b < h \<and> a = x then node_Next s2 (?p b) b
       else if b < h \<and> a = ?p b then Some (Some x) else node_Next s2 a b)" using x by auto
  have tw: "tower s' l as = tower s l as" "tower s' l bs = tower s l bs" for l
    using set_zs by (auto simp: tower_def s'(4) s2(1) intro!: filter_cong)
  have "chain (\<lambda>y. node_Next s' y l) head (tower s' l (as @ x # bs))" if l: "l < kMaxHeight" for l
  proof -
    have ch: "chain (\<lambda>y. node_Next s y l) head (tower s l as @ tower s l bs)"
      using s l by (simp add: skip_shape_def tower_def)
    have mem: "set (head # tower s l as @ tower s l bs) \<subseteq> {0..<x}" using set_zs x0 by (auto simp: tower_def)
    show ?thesis
    proof (cases "l < h")
      case True
      have "distinct (head # tower s l as @ tower s l bs)" "x \<notin> set (head # tower s l as @ tower s l bs)"
        using s mem n0 by (auto simp: skip_shape_def tower_def)
      moreover have "node_Next s' y l = (if y = x then node_Next s (?p l) l else if y = ?p l then Some (Some x) else node_Next s y l)"
        for y using True px [of l] s2(3) by (auto simp: s'(6) simp del: last.simps)
      ultimately have "chain (\<lambda>y. node_Next s' y l) head (tower s l as @ x # tower s l bs)"
        by (rule chain_insert [OF ch])
      moreover have "tower s' l (x # bs) = x # tower s' l bs" using True by (simp add: tower_def s'(4) s2(1))
      ultimately show ?thesis by (simp add: tw)
    next
      case False
      have "\<forall>y \<in> set (head # tower s l as @ tower s l bs). node_Next s' y l = node_Next s y l"
        using mem False by (auto simp: s'(6) s2(3))
      with ch have "chain (\<lambda>y. node_Next s' y l) head (tower s l as @ tower s l bs)" by (rule chain_cong)
      moreover have "tower s' l (x # bs) = tower s' l bs" using False by (simp add: tower_def s'(4) s2(1))
      ultimately show ?thesis by (simp add: tw)
    qed
  qed
  moreover have "height s' 0 = kMaxHeight" "\<forall>n \<in> set (as @ x # bs). 1 \<le> height s' n \<and> height s' n \<le> max h (sl_max_height s)"
    using s h x0 by (auto simp: s'(4) s2(1) skip_shape_def le_max_iff_disj)
  moreover have "sl_nodes s' \<noteq> []" using s'(2) by auto
  moreover have "set (as @ x # bs) = {1..<Suc x}" using set_zs x0 by auto
  moreover have "distinct (as @ x # bs)" using s set_zs by (auto simp: skip_shape_def)
  moreover have "1 \<le> max h (sl_max_height s)" "max h (sl_max_height s) \<le> kMaxHeight"
    using s h by (auto simp: skip_shape_def)
  ultimately have "skip_shape s' (as @ x # bs)" unfolding skip_shape_def s'(2,3) by blast
  with s'(1,5) s2(2) show ?thesis by auto
qed

subsection \<open>Ordered lists of keys\<close>

text \<open>What the skip list asks of its comparator: a total order on the valid keys, up to keys that compare equal.\<close>

locale entry_order =
  fixes cmp :: "'k \<Rightarrow> 'k \<Rightarrow> int"
    and valid :: "'k \<Rightarrow> bool"
  assumes cmp_flip: "valid a \<Longrightarrow> valid b \<Longrightarrow> cmp a b < 0 \<longleftrightarrow> cmp b a > 0"
    and cmp_trans: "valid a \<Longrightarrow> valid b \<Longrightarrow> valid c \<Longrightarrow> cmp a b \<le> 0 \<Longrightarrow> cmp b c \<le> 0 \<Longrightarrow> cmp a c \<le> 0"
begin

lemma less_trans: "valid a \<Longrightarrow> valid b \<Longrightarrow> valid c \<Longrightarrow> cmp a b < 0 \<Longrightarrow> cmp b c \<le> 0 \<Longrightarrow> cmp a c < 0"
  using cmp_trans [of b c a] cmp_flip [of a b] cmp_flip [of a c] cmp_flip [of c a] by fastforce

lemma le_less_trans: "valid a \<Longrightarrow> valid b \<Longrightarrow> valid c \<Longrightarrow> cmp a b \<le> 0 \<Longrightarrow> cmp b c < 0 \<Longrightarrow> cmp a c < 0"
  using cmp_trans [of c a b] cmp_flip [of b c] cmp_flip [of a c] cmp_flip [of c a] by fastforce

definition sorted_keys :: "'k list \<Rightarrow> bool" where
  "sorted_keys ks \<longleftrightarrow> (\<forall>k \<in> set ks. valid k) \<and> sorted_wrt (\<lambda>a b. cmp a b < 0) ks"

definition below :: "'k \<Rightarrow> 'k list \<Rightarrow> 'k list" where
  "below k ks = takeWhile (\<lambda>a. cmp a k < 0) ks"

definition from_key :: "'k \<Rightarrow> 'k list \<Rightarrow> 'k list" where
  "from_key k ks = dropWhile (\<lambda>a. cmp a k < 0) ks"

lemma below_from [simp]: "below k ks @ from_key k ks = ks"
  by (simp add: below_def from_key_def)

lemma below_less: "a \<in> set (below k ks) \<Longrightarrow> cmp a k < 0"
  by (auto simp: below_def dest: set_takeWhileD)

lemma from_not_less: "sorted_keys ks \<Longrightarrow> valid k \<Longrightarrow> a \<in> set (from_key k ks) \<Longrightarrow> \<not> cmp a k < 0"
proof (induction ks)
  case (Cons b ks)
  show ?case
  proof (cases "cmp b k < 0")
    case False
    with Cons.prems have "a = b \<or> cmp b a < 0" "valid a" "valid b" by (auto simp: from_key_def sorted_keys_def)
    with False Cons.prems(2) less_trans [of b a k] show ?thesis by auto
  qed (use Cons in \<open>auto simp: from_key_def sorted_keys_def\<close>)
qed (simp add: from_key_def)

lemma sorted_insert:
  assumes "sorted_keys ks" "valid k" "\<forall>a \<in> set ks. cmp k a \<noteq> 0"
  shows "sorted_keys (below k ks @ k # from_key k ks)"
proof -
  have "sorted_keys (below k ks @ from_key k ks)" using assms(1) by simp
  moreover have "\<forall>a \<in> set (from_key k ks). cmp k a < 0"
  proof
    fix a assume a: "a \<in> set (from_key k ks)"
    then have "a \<in> set ks" by (auto simp: from_key_def dest: set_dropWhileD)
    with assms have "valid a" "cmp k a \<noteq> 0" by (auto simp: sorted_keys_def)
    with from_not_less [OF assms(1,2) a] cmp_flip [OF this(1) assms(2)] show "cmp k a < 0" by linarith
  qed
  moreover have "\<forall>a \<in> set (below k ks). cmp a k < 0" using below_less by blast
  ultimately show ?thesis using assms(2) by (auto simp: sorted_keys_def sorted_wrt_append simp del: below_from)
qed

text \<open>The abstraction: a skip list stands for the keys of its nodes in the order of the lowest level.\<close>

definition holds :: "'k skiplist \<Rightarrow> nat list \<Rightarrow> 'k list \<Rightarrow> bool" where
  "holds s zs ks \<longleftrightarrow> skip_shape s zs \<and> map (node_key s) zs = map Some ks \<and> sorted_keys ks"

lemma holds_make: "holds (make_SkipList any) [] []"
  by (simp add: holds_def shape_make sorted_keys_def)

lemma holds_split:
  assumes "holds s zs ks"
  obtains as bs where "zs = as @ bs" "map (node_key s) as = map Some (below k ks)" "map (node_key s) bs = map Some (from_key k ks)"
proof -
  let ?n = "length (below k ks)"
  have "map (node_key s) zs = map Some (below k ks) @ map Some (from_key k ks)"
    using assms unfolding holds_def by (metis below_from map_append)
  then have "map (node_key s) (take ?n zs) = map Some (below k ks)" "map (node_key s) (drop ?n zs) = map Some (from_key k ks)"
    by (metis (no_types, lifting) append_eq_conv_conj length_map take_map)
      (metis (no_types, lifting) \<open>map (node_key s) zs = map Some (below k ks) @ map Some (from_key k ks)\<close> append_eq_conv_conj drop_map length_map)
  with that [of "take ?n zs" "drop ?n zs"] show ?thesis by simp
qed

lemma keys_in:
  assumes "map (node_key s) as = map Some ks" "a \<in> set as"
  obtains k where "node_key s a = Some k" "k \<in> set ks"
  using assms by (metis (no_types, lifting) imageE image_eqI list.set_map)

lemma after_split:
  assumes "sorted_keys ks" "valid k" "map (node_key s) as = map Some (below k ks)" "map (node_key s) bs = map Some (from_key k ks)"
  shows "\<forall>a \<in> set as. KeyIsAfterNode cmp s k (Some a) = Some True" "\<forall>b \<in> set bs. KeyIsAfterNode cmp s k (Some b) = Some False"
  using below_less from_not_less [OF assms(1,2)]
  by (auto simp: KeyIsAfterNode_def elim!: keys_in [OF assms(3)] keys_in [OF assms(4)])

lemma KeyIsAfterNode_None [simp]: "KeyIsAfterNode cmp s k None = Some False"
  by (simp add: KeyIsAfterNode_def)

lemma FindGreaterOrEqual_exact:
  assumes "holds s (as @ bs) ks" "valid k" "map (node_key s) as = map Some (below k ks)"
    "map (node_key s) bs = map Some (from_key k ks)"
  shows "\<exists>prev. FindGreaterOrEqual cmp s k = Some (first bs, prev) \<and> length prev = kMaxHeight \<and>
    (\<forall>i < sl_max_height s. prev ! i = Some (last (head # tower s i as)))"
proof -
  have h: "skip_shape s (as @ bs)" "sorted_keys ks" using assms(1) by (auto simp: holds_def)
  then have "sl_max_height s \<le> kMaxHeight" by (simp add: skip_shape_def)
  with search_from_head [OF h(1) after_split [OF h(2) assms(2-4)], of "replicate kMaxHeight None"]
  show ?thesis by (fastforce simp: FindGreaterOrEqual_def simp del: last.simps)
qed

lemma FindLessThan_exact:
  assumes "holds s (as @ bs) ks" "valid k" "map (node_key s) as = map Some (below k ks)"
    "map (node_key s) bs = map Some (from_key k ks)"
  shows "FindLessThan cmp s k = Some (last (head # as))"
proof -
  have h: "skip_shape s (as @ bs)" "sorted_keys ks" using assms(1) by (auto simp: holds_def)
  have "(\<lambda>n. case n of None \<Rightarrow> Some False | Some n \<Rightarrow> map_option (\<lambda>a. \<not> cmp a k \<ge> 0) (node_key s n)) = KeyIsAfterNode cmp s k"
    by (auto simp: KeyIsAfterNode_def not_le split: option.splits)
  with search_from_head [OF h(1) after_split [OF h(2) assms(2-4)], of "[]"]
  show ?thesis by (auto simp: FindLessThan_def)
qed

lemma first_key: "map (node_key s) bs = map Some ks \<Longrightarrow> Option.bind (first bs) (node_key s) = first ks"
  by (cases bs; cases ks) auto

lemma Insert_holds:
  assumes h: "holds s zs ks" and k: "valid k" "\<forall>a \<in> set ks. cmp k a \<noteq> 0"
  shows "\<exists>s' zs'. Insert cmp k s = Some s' \<and> holds s' zs' (below k ks @ k # from_key k ks)"
proof -
  obtain as bs where zs: "zs = as @ bs" and as: "map (node_key s) as = map Some (below k ks)"
    and bs: "map (node_key s) bs = map Some (from_key k ks)" by (rule holds_split [OF h])
  have shape: "skip_shape s (as @ bs)" and ks: "sorted_keys ks" using h zs by (auto simp: holds_def)
  obtain prev where prev: "FindGreaterOrEqual cmp s k = Some (first bs, prev)" "length prev = kMaxHeight"
    "\<And>i. i < sl_max_height s \<Longrightarrow> prev ! i = Some (last (head # tower s i as))"
    using FindGreaterOrEqual_exact [OF h [unfolded zs] k(1) as bs] by blast
  obtain ht rnd where rh: "RandomHeight (sl_rnd s) = (ht, rnd)" by fastforce
  note ht = RandomHeight_bounds [OF this]
  let ?s = "s\<lparr>sl_rnd := rnd, sl_max_height := max ht (sl_max_height s)\<rparr>"
  let ?prev = "if ht > sl_max_height s
    then map (\<lambda>i. if sl_max_height s \<le> i \<and> i < ht then Some head else prev ! i) [0..<length prev] else prev"
  obtain x s2 where node: "NewNode k ht ?s = (x, s2)" by fastforce
  have high: "tower s i as = []" if "sl_max_height s \<le> i" for i
  proof -
    have "\<forall>n \<in> set as. height s n \<le> sl_max_height s" using shape unfolding skip_shape_def set_append by blast
    with that show ?thesis by (auto simp: tower_def filter_empty_conv)
  qed
  have "?prev ! i = Some (last (head # tower s i as))" if "i < ht" for i
    using that ht prev(2,3) high [of i] by (auto simp: not_le)
  moreover have "length ?prev = kMaxHeight" using prev(2) by simp
  ultimately obtain s' where s': "link_levels [0..<ht] x ?prev s2 = Some s'" "skip_shape s' (as @ x # bs)"
    "\<And>n. node_key s' n = (if n = x then Some k else node_key s n)"
    using linked_shape [OF shape _ _ node, of ?prev] ht by blast
  have "x \<notin> set (as @ bs)" using s'(2) by (auto simp: skip_shape_def)
  then have "map (node_key s') as = map (node_key s) as" "map (node_key s') bs = map (node_key s) bs"
    by (auto simp: s'(3))
  then have "map (node_key s') (as @ x # bs) = map Some (below k ks @ k # from_key k ks)" using as bs by (simp add: s'(3))
  with s'(2) sorted_insert [OF ks k] have "holds s' (as @ x # bs) (below k ks @ k # from_key k ks)" by (simp add: holds_def)
  moreover have "case first bs of None \<Rightarrow> True | Some x \<Rightarrow> \<exists>a \<in> set_option (node_key s x). cmp k a \<noteq> 0"
  proof (cases bs)
    case (Cons b bs')
    with bs obtain a where "node_key s b = Some a" "a \<in> set (from_key k ks)" by (metis keys_in list.set_intros(1))
    with k(2) Cons show ?thesis by (auto simp: from_key_def dest: set_dropWhileD)
  qed simp
  ultimately have "Insert cmp k s = Some s'" using prev(1) rh node s'(1) by (simp add: Insert_def)
  with \<open>holds s' _ _\<close> show ?thesis by blast
qed

lemma Contains_exact:
  assumes h: "holds s zs ks" and k: "valid k"
  shows "Contains cmp s k = Some (\<exists>a \<in> set ks. cmp k a = 0)"
proof -
  obtain as bs where zs: "zs = as @ bs" and as: "map (node_key s) as = map Some (below k ks)"
    and bs: "map (node_key s) bs = map Some (from_key k ks)" by (rule holds_split [OF h])
  have ks: "sorted_keys ks" using h by (simp add: holds_def)
  obtain prev where prev: "FindGreaterOrEqual cmp s k = Some (first bs, prev)"
    using FindGreaterOrEqual_exact [OF h [unfolded zs] k as bs] by blast
  have lower: "cmp k a \<noteq> 0" if "a \<in> set (below k ks)" for a
  proof -
    have "valid a" using that ks by (metis Un_iff below_from set_append sorted_keys_def)
    with below_less [OF that] cmp_flip [OF this k] show ?thesis by simp
  qed
  show ?thesis
  proof (cases bs)
    case Nil
    then have "set ks = set (below k ks)" using bs below_from [of k ks] by (simp del: below_from)
    with Nil prev lower show ?thesis by (simp add: Contains_def)
  next
    case (Cons b bs')
    then obtain a ks' where a: "from_key k ks = a # ks'" "node_key s b = Some a" using bs by (cases "from_key k ks") auto
    have mem: "set ks = set (below k ks) \<union> insert a (set ks')" using below_from [of k ks] unfolding a(1) by (metis list.simps(15) set_append)
    have upper: "cmp k c \<noteq> 0" if "c \<in> set ks'" for c
    proof -
      have v: "valid a" "valid c" using mem that ks by (auto simp: sorted_keys_def)
      have "sorted_keys (below k ks @ a # ks')" using ks below_from [of k ks] a(1) by simp
      with that have "cmp a c < 0" by (auto simp: sorted_keys_def sorted_wrt_append)
      moreover have "cmp k a \<le> 0" using from_not_less [OF ks k, of a] a(1) cmp_flip [OF v(1) k] by fastforce
      ultimately show ?thesis using le_less_trans [OF k v] by simp
    qed
    have "(\<exists>c \<in> set ks. cmp k c = 0) \<longleftrightarrow> cmp k a = 0" using mem lower upper by auto
    with Cons prev a(2) show ?thesis by (simp add: Contains_def)
  qed
qed

lemma Iter_Seek_exact:
  assumes h: "holds s zs ks" and k: "valid k"
  shows "\<exists>it. Iter_Seek cmp s k = Some it \<and> Iter_key s it = first (from_key k ks) \<and> (it = None \<longleftrightarrow> from_key k ks = [])"
proof -
  obtain as bs where zs: "zs = as @ bs" and as: "map (node_key s) as = map Some (below k ks)"
    and bs: "map (node_key s) bs = map Some (from_key k ks)" by (rule holds_split [OF h])
  have "first bs = None \<longleftrightarrow> from_key k ks = []" using bs by (cases bs) auto
  with FindGreaterOrEqual_exact [OF h [unfolded zs] k as bs] first_key [OF bs] show ?thesis
    by (auto simp: Iter_Seek_def Iter_key_def)
qed

lemma Iter_Prev_exact:
  assumes h: "holds s (as @ n # bs) ks"
  shows "Iter_Prev cmp s (Some n) = Some (if as = [] then None else Some (last as))"
proof -
  have keys: "map (node_key s) (as @ n # bs) = map Some ks" and ks: "sorted_keys ks"
    and shape: "skip_shape s (as @ n # bs)" using h by (auto simp: holds_def)
  then obtain us k ws where k: "ks = us @ k # ws" "map (node_key s) as = map Some us" "node_key s n = Some k"
    "map (node_key s) bs = map Some ws" by (auto simp: map_eq_append_conv Cons_eq_map_conv append_eq_map_conv)
  have v: "valid k" using ks k(1) by (simp add: sorted_keys_def)
  have "\<forall>a \<in> set us. cmp a k < 0" using ks k(1) by (auto simp: sorted_keys_def sorted_wrt_append)
  moreover have "\<not> cmp k k < 0" using cmp_flip [OF v v] by auto
  ultimately have "below k ks = us" "from_key k ks = k # ws" by (auto simp: below_def from_key_def k(1) takeWhile_append dropWhile_append)
  then have "FindLessThan cmp s k = Some (last (head # as))" using FindLessThan_exact [OF h v] k by simp
  moreover have "head \<notin> set as" using shape_level_0(2) [OF shape] by simp
  ultimately show ?thesis using k(3) by (simp add: Iter_Prev_def Iter_key_def not_head_last del: last.simps)
qed

end

lemma Iter_Next_exact: "skip_shape s (as @ n # bs) \<Longrightarrow> Iter_Next s (Some n) = Some (first bs)"
  using chain_first [OF chain_behind [OF shape_level_0(1)]] by (simp add: Iter_Next_def)

lemma Iter_SeekToFirst_exact: "skip_shape s zs \<Longrightarrow> Iter_SeekToFirst s = Some (first zs)"
  using chain_first [OF shape_level_0(1)] by (simp add: Iter_SeekToFirst_def)

lemma Iter_SeekToLast_exact: "skip_shape s zs \<Longrightarrow> Iter_SeekToLast s = Some (if zs = [] then None else Some (last zs))"
  using FindLast_exact [of s zs] shape_level_0(2) [of s zs] by (simp add: Iter_SeekToLast_def not_head_last del: last.simps)

text \<open>Every comparator of keys gives such an order.\<close>

sublocale key_order \<subseteq> entries: entry_order Compare valid
proof
  show "valid a \<Longrightarrow> valid b \<Longrightarrow> Compare a b < 0 \<longleftrightarrow> Compare b a > 0" for a b by (rule compare_flip)
  show "Compare a c \<le> 0" if "valid a" "valid b" "valid c" "Compare a b \<le> 0" "Compare b c \<le> 0" for a b c
    using that compare_trans [of a b c] compare_eq [of a b] compare_eq [of b c] by (auto simp: order_le_less)
qed

subsection \<open>Properties\<close>

fun insert_all :: "('k \<Rightarrow> 'k \<Rightarrow> int) \<Rightarrow> 'k list \<Rightarrow> 'k skiplist \<Rightarrow> 'k skiplist option" where
  "insert_all cmp [] s = Some s"
| "insert_all cmp (k # ks) s = Option.bind (Insert cmp k s) (insert_all cmp ks)"

text \<open>The keys an iterator meets from a position on; at most \<open>n\<close> steps.\<close>

fun walk :: "nat \<Rightarrow> 'k skiplist \<Rightarrow> nat option \<Rightarrow> 'k list option" where
  "walk n s None = Some []"
| "walk 0 s (Some x) = None"
| "walk (Suc n) s (Some x) = do {
     k \<leftarrow> Iter_key s (Some x);
     it \<leftarrow> Iter_Next s (Some x);
     ks \<leftarrow> walk n s it;
     Some (k # ks)
   }"

lemma walk_exact:
  "skip_shape s (as @ bs) \<Longrightarrow> map (node_key s) bs = map Some ks \<Longrightarrow> length bs \<le> n \<Longrightarrow> walk n s (first bs) = Some ks"
proof (induction bs arbitrary: as ks n)
  case (Cons b bs)
  obtain k ks' m where k: "ks = k # ks'" "n = Suc m" using Cons.prems(2,3) by (cases ks; cases n) auto
  from Cons.IH [of "as @ [b]" ks' m] Cons.prems k Iter_Next_exact [of s as b bs] show ?case
    by (simp add: Iter_key_def)
qed simp

context entry_order
begin

lemma insert_all_holds:
  assumes "holds s zs ks" "\<forall>k \<in> set ns. valid k" "sorted_wrt (\<lambda>a b. cmp b a \<noteq> 0) ns" "\<forall>k \<in> set ns. \<forall>a \<in> set ks. cmp k a \<noteq> 0"
  shows "\<exists>s' zs' ks'. insert_all cmp ns s = Some s' \<and> holds s' zs' ks' \<and> set ks' = set ks \<union> set ns"
  using assms
proof (induction ns arbitrary: s zs ks)
  case (Cons n ns)
  let ?ks = "below n ks @ n # from_key n ks"
  have set: "set ?ks = insert n (set ks)" using arg_cong [OF below_from [of n ks], of set] by (simp del: below_from)
  obtain s1 zs1 where s1: "Insert cmp n s = Some s1" "holds s1 zs1 ?ks"
    using Insert_holds [OF Cons.prems(1), of n] Cons.prems(2,4) by (meson list.set_intros(1))
  have "\<forall>k \<in> set ns. \<forall>a \<in> set ?ks. cmp k a \<noteq> 0" using Cons.prems(3,4) unfolding set by auto
  from Cons.IH [OF s1(2) _ _ this] Cons.prems(2,3) s1(1) show ?case unfolding set by auto
qed auto

end

lemma sorted_keys_bytewise: "bytewise.entries.sorted_keys ks \<Longrightarrow> ks = sorted_list_of_set (set ks)"
proof -
  assume "bytewise.entries.sorted_keys ks"
  then have "sorted_wrt (<) ks" unfolding bytewise.entries.sorted_keys_def
    by (auto simp: slice_compare_eq elim!: sorted_wrt_mono_rel [rotated] split: if_splits)
  then show ?thesis by (metis sorted_list_of_set.idem_if_sorted_distinct strict_sorted_iff)
qed

lemma inserted_holds:
  assumes "distinct ks"
  shows "\<exists>s zs. insert_all slice_compare ks (make_SkipList any) = Some s \<and>
    bytewise.entries.holds s zs (sorted_list_of_set (set ks))"
proof -
  have "sorted_wrt (\<lambda>a b. slice_compare b a \<noteq> 0) ks"
    using assms by (induction ks) (auto simp: slice_compare_eq)
  with bytewise.entries.insert_all_holds [OF bytewise.entries.holds_make, of ks any] obtain s zs ks' where
    "insert_all slice_compare ks (make_SkipList any) = Some s" "bytewise.entries.holds s zs ks'" "set ks' = set ks"
    by auto
  moreover from this have "ks' = sorted_list_of_set (set ks)"
    using sorted_keys_bytewise [of ks'] by (auto simp: bytewise.entries.holds_def)
  ultimately show ?thesis by auto
qed

lemma key_of_last:
  "map (node_key s) as = map Some ks \<Longrightarrow> Iter_key s (if as = [] then None else Some (last as)) = first (rev ks)"
  by (cases as rule: rev_cases; cases ks rule: rev_cases) (auto simp: Iter_key_def)

lemma bytewise_split:
  assumes "bytewise.entries.sorted_keys ks"
  shows "bytewise.entries.below k ks = filter (\<lambda>a. a < k) ks" "bytewise.entries.from_key k ks = filter (\<lambda>a. k \<le> a) ks"
proof -
  let ?a = "bytewise.entries.below k ks" and ?b = "bytewise.entries.from_key k ks"
  have a: "\<forall>x \<in> set ?a. x < k" using bytewise.entries.below_less by (fastforce simp: slice_compare_eq split: if_splits)
  have b: "\<forall>x \<in> set ?b. k \<le> x"
    using bytewise.entries.from_not_less [OF assms] by (fastforce simp: slice_compare_eq split: if_splits)
  have "filter (\<lambda>a. a < k) (?a @ ?b) = ?a" "filter (\<lambda>a. k \<le> a) (?a @ ?b) = ?b"
    using a b by (auto simp: filter_empty_conv filter_id_conv simp del: bytewise.entries.below_from)
  then show "?a = filter (\<lambda>a. a < k) ks" "?b = filter (\<lambda>a. k \<le> a) ks" by simp_all
qed

text \<open>
  C24. Insertion of any keys that differ ends, breaks no assertion and keeps to the links of the
  nodes. Afterwards the links have the shape of a skip list, an iterator from the first node
  meets the keys in ascending order, and \<^verbatim>\<open>Contains\<close> is membership.
\<close>

theorem skiplist_is_sorted_set:
  assumes "distinct ks"
  shows "\<exists>s zs. insert_all slice_compare ks (make_SkipList any) = Some s \<and> skip_shape s zs \<and>
    Option.bind (Iter_SeekToFirst s) (walk (length ks) s) = Some (sorted_list_of_set (set ks)) \<and>
    (\<forall>k. Contains slice_compare s k = Some (k \<in> set ks))"
proof -
  let ?L = "sorted_list_of_set (set ks)"
  obtain s zs where s: "insert_all slice_compare ks (make_SkipList any) = Some s" "bytewise.entries.holds s zs ?L"
    using inserted_holds [OF assms] by blast
  then have h: "skip_shape s zs" "map (node_key s) zs = map Some ?L" by (auto simp: bytewise.entries.holds_def)
  have "length zs = length ks" using assms h(2) by (metis length_map length_remdups_card_conv length_sorted_list_of_set remdups_id_iff_distinct)
  then have "Option.bind (Iter_SeekToFirst s) (walk (length ks) s) = Some ?L"
    using walk_exact [of s "[]" zs ?L "length ks"] h(1,2) by (simp add: Iter_SeekToFirst_exact)
  moreover have "Contains slice_compare s k = Some (k \<in> set ks)" for k
    using bytewise.entries.Contains_exact [OF s(2), of k] by (simp add: slice_compare_eq)
  ultimately show ?thesis using s(1) h by blast
qed

theorem skiplist_is_sorted_set_witness:
  "\<exists>s. insert_all slice_compare [[7], [], [1, 2]] (make_SkipList []) = Some s \<and>
    Option.bind (Iter_SeekToFirst s) (walk 3 s) = Some [[], [1, 2], [7]] \<and> Contains slice_compare s [1] = Some False"
  using skiplist_is_sorted_set [of "[[7], [], [1, 2]]" "[]"] by (auto simp: numeral_3_eq_3)

text \<open>
  C25. \<^verbatim>\<open>Seek\<close> stops at the least key that is not below its target, \<^verbatim>\<open>Prev\<close> from there at the
  greatest key below it, and \<^verbatim>\<open>SeekToLast\<close> at the greatest key; a position without a key is not valid.
\<close>

theorem skiplist_iterators:
  assumes "distinct ks" "insert_all slice_compare ks (make_SkipList any) = Some s"
  shows "(\<exists>it. Iter_Seek slice_compare s k = Some it \<and>
      Iter_key s it = first (filter (\<lambda>a. k \<le> a) (sorted_list_of_set (set ks))) \<and>
      (it \<noteq> None \<longrightarrow> (\<exists>before. Iter_Prev slice_compare s it = Some before \<and>
        Iter_key s before = first (rev (filter (\<lambda>a. a < k) (sorted_list_of_set (set ks))))))) \<and>
    (\<exists>it. Iter_SeekToLast s = Some it \<and> Iter_key s it = first (rev (sorted_list_of_set (set ks))))"
proof -
  let ?L = "sorted_list_of_set (set ks)"
  obtain zs where h: "bytewise.entries.holds s zs ?L" using inserted_holds [OF assms(1), of any] assms(2) by auto
  then have shape: "skip_shape s zs" and L: "bytewise.entries.sorted_keys ?L" "map (node_key s) zs = map Some ?L"
    by (auto simp: bytewise.entries.holds_def)
  obtain as bs where zs: "zs = as @ bs" and as: "map (node_key s) as = map Some (filter (\<lambda>a. a < k) ?L)"
    and bs: "map (node_key s) bs = map Some (filter (\<lambda>a. k \<le> a) ?L)"
    using bytewise.entries.holds_split [OF h, of k thesis] by (simp add: bytewise_split [OF L(1)])
  obtain prev where "FindGreaterOrEqual slice_compare s k = Some (first bs, prev)"
    using bytewise.entries.FindGreaterOrEqual_exact [OF h [unfolded zs], of k] as bs by (auto simp: bytewise_split [OF L(1)])
  then have seek: "Iter_Seek slice_compare s k = Some (first bs)" by (simp add: Iter_Seek_def)
  have key: "Iter_key s (first bs) = first (filter (\<lambda>a. k \<le> a) ?L)"
    using bytewise.entries.first_key [OF bs] by (simp add: Iter_key_def)
  have prev: "\<exists>before. Iter_Prev slice_compare s (first bs) = Some before \<and> Iter_key s before = first (rev (filter (\<lambda>a. a < k) ?L))"
    if bs': "first bs \<noteq> None"
  proof -
    obtain b bs' where b: "bs = b # bs'" using bs' by (cases bs) auto
    from bytewise.entries.Iter_Prev_exact [OF h [unfolded zs b]] key_of_last [OF as] show ?thesis by (simp add: b)
  qed
  show ?thesis
    using seek key prev Iter_SeekToLast_exact [OF shape] key_of_last [OF L(2)] by auto
qed

theorem skiplist_iterators_witness:
  "\<exists>s it. insert_all slice_compare [[7], [], [1, 2]] (make_SkipList []) = Some s \<and>
    Iter_Seek slice_compare s [1] = Some it \<and> Iter_key s it = Some [1, 2]"
proof -
  obtain s zs where "insert_all slice_compare [[7], [], [1, 2]] (make_SkipList []) = Some s"
    using inserted_holds [of "[[7], [], [1, 2]]" "[]"] by auto
  with skiplist_iterators [of "[[7], [], [1, 2]]" "[]" s "[1]"] show ?thesis by auto
qed

end
