(* ===== verification/Ldb_Memtable.thy ===== *)
theory Ldb_Memtable
  imports Ldb_Format Ldb_Env Ldb_Skiplist_Spec
begin

text \<open>
  The memtable (\<^verbatim>\<open>memtable.cc\<close>): recent entries in a skip list, encoded as length-prefixed internal
  keys followed by length-prefixed values. A pointer to an entry is the bytes from there on. The
  user comparator is a parameter; reference counts and the arena, which only own memory, are left out.
\<close>

subsection \<open>Entries\<close>

text \<open>\<^verbatim>\<open>GetVarint32Ptr(p, p + 5, &len)\<close>: the length and the pointer behind it.\<close>

definition entry_length :: "byte list \<Rightarrow> (32 word \<times> byte list) option" where
  "entry_length p = do {
     (len, q) \<leftarrow> GetVarint32Ptr (take 5 p);
     Some (len, drop (length (take 5 p) - length q) p)
   }"

text \<open>The routine assumes that its argument is not corrupted; \<open>None\<close> if it is.\<close>

definition entry_GetLengthPrefixedSlice :: "byte list \<Rightarrow> (slice \<times> byte list) option" where
  "entry_GetLengthPrefixedSlice data = do {
     (len, p) \<leftarrow> entry_length data;
     if unat len \<le> length p then Some (take (unat len) p, drop (unat len) p) else None
   }"

text \<open>The comparator of entries; its result on bytes that are not an entry is of no interest.\<close>

definition KeyComparator :: "(slice \<Rightarrow> slice \<Rightarrow> int) \<Rightarrow> byte list \<Rightarrow> byte list \<Rightarrow> int" where
  "KeyComparator ucmp aptr bptr =
     (case (entry_GetLengthPrefixedSlice aptr, entry_GetLengthPrefixedSlice bptr) of
        (Some (a, _), Some (b, _)) \<Rightarrow> InternalKey_Compare ucmp a b
      | _ \<Rightarrow> 0)"

definition EncodeKey :: "slice \<Rightarrow> byte list" where
  "EncodeKey target = PutVarint32 [] (word_of_nat (length target)) @ target"

subsection \<open>Operations\<close>

type_synonym MemTable = "byte list skiplist"

definition make_MemTable :: MemTable where
  "make_MemTable = make_SkipList []"

text \<open>The assertion on the length of the entry is the guard.\<close>

definition MemTable_Add ::
  "(slice \<Rightarrow> slice \<Rightarrow> int) \<Rightarrow> 64 word \<Rightarrow> ValueType \<Rightarrow> slice \<Rightarrow> slice \<Rightarrow> MemTable \<Rightarrow> MemTable option" where
  "MemTable_Add ucmp s t key val table =
     (let key_size = length key; val_size = length val; internal_key_size = key_size + 8;
          encoded_len = VarintLength (word_of_nat internal_key_size) + internal_key_size +
            VarintLength (word_of_nat val_size) + val_size;
          buf = EncodeVarint32 (word_of_nat internal_key_size) @ key @
            EncodeFixed64 (push_bit 8 s OR word_of_nat (type_code t)) @ EncodeVarint32 (word_of_nat val_size) @ val
      in if length buf = encoded_len then Insert (KeyComparator ucmp) buf table else None)"

datatype get_result = Get_false | Get_value slice | Get_status Status

definition MemTable_Get :: "(slice \<Rightarrow> slice \<Rightarrow> int) \<Rightarrow> LookupKey \<Rightarrow> MemTable \<Rightarrow> get_result option" where
  "MemTable_Get ucmp key table = do {
     it \<leftarrow> Iter_Seek (KeyComparator ucmp) table (memtable_key key);
     case it of None \<Rightarrow> Some Get_false
     | Some _ \<Rightarrow> do {
         entry \<leftarrow> Iter_key table it;
         (key_length, key_ptr) \<leftarrow> entry_length entry;
         if 8 \<le> unat key_length \<and> unat key_length \<le> length key_ptr then
           if ucmp (take (unat key_length - 8) key_ptr) (lookup_user_key key) = 0 then do {
             tag \<leftarrow> DecodeFixed64 (drop (unat key_length - 8) key_ptr);
             if tag AND 0xff = word_of_nat (type_code kTypeValue) then do {
               (v, _) \<leftarrow> entry_GetLengthPrefixedSlice (drop (unat key_length) key_ptr);
               Some (Get_value v)
             }
             else if tag AND 0xff = word_of_nat (type_code kTypeDeletion) then Some (Get_status (NotFound [] []))
             else Some Get_false
           }
           else Some Get_false
         else None
       }
   }"

subsection \<open>Iterators\<close>

definition MemTableIterator_Seek :: "(slice \<Rightarrow> slice \<Rightarrow> int) \<Rightarrow> MemTable \<Rightarrow> slice \<Rightarrow> nat option option" where
  "MemTableIterator_Seek ucmp table k = Iter_Seek (KeyComparator ucmp) table (EncodeKey k)"

definition MemTableIterator_key :: "MemTable \<Rightarrow> nat option \<Rightarrow> slice option" where
  "MemTableIterator_key table it = do {
     entry \<leftarrow> Iter_key table it;
     (k, _) \<leftarrow> entry_GetLengthPrefixedSlice entry;
     Some k
   }"

definition MemTableIterator_value :: "MemTable \<Rightarrow> nat option \<Rightarrow> slice option" where
  "MemTableIterator_value table it = do {
     entry \<leftarrow> Iter_key table it;
     (k, rest) \<leftarrow> entry_GetLengthPrefixedSlice entry;
     (v, _) \<leftarrow> entry_GetLengthPrefixedSlice rest;
     Some v
   }"

subsection \<open>Entries are read back\<close>

record mem_entry =
  me_seq :: "64 word"
  me_type :: ValueType
  me_key :: slice
  me_value :: slice

definition entry_bytes :: "mem_entry \<Rightarrow> byte list" where
  "entry_bytes e =
     PutLengthPrefixedSlice [] (AppendInternalKey [] (ParsedInternalKey (me_key e) (me_seq e) (me_type e))) @
     PutLengthPrefixedSlice [] (me_value e)"

definition entry_fits :: "mem_entry \<Rightarrow> bool" where
  "entry_fits e \<longleftrightarrow> length (me_key e) + 8 < 2 ^ 32 \<and> length (me_value e) < 2 ^ 32 \<and> me_seq e \<le> kMaxSequenceNumber"

lemma entry_GetLengthPrefixedSlice_eq: "entry_GetLengthPrefixedSlice data = GetLengthPrefixedSlice data"
  by (auto simp: entry_GetLengthPrefixedSlice_def entry_length_def GetLengthPrefixedSlice_def GetVarint32_def GetVarint32Ptr_eq
      remove_prefix_def Let_def min_def split: option.splits prod.splits)

lemma unat_length_32: "n < 2 ^ 32 \<Longrightarrow> unat (word_of_nat n :: 32 word) = n"
  by (simp add: unat_of_nat take_bit_eq_mod)

lemma unat_length_64: "n < 2 ^ 32 \<Longrightarrow> unat (word_of_nat n :: 64 word) = n"
  by (simp add: unat_of_nat take_bit_eq_mod)

lemma entry_length_Encode: "entry_length (EncodeVarint32 n @ rest) = Some (n, rest)"
proof -
  have le: "length (EncodeVarint32 n) \<le> 5" using varint_length_5 [of n] by (simp add: EncodeVarint32_eq)
  then have "take 5 (EncodeVarint32 n @ rest) = EncodeVarint32 n @ take (5 - length (EncodeVarint32 n)) rest" by simp
  then have "GetVarint32Ptr (take 5 (EncodeVarint32 n @ rest)) = Some (n, take (5 - length (EncodeVarint32 n)) rest)"
    using GetVarint32_Encode [of n "take (5 - length (EncodeVarint32 n)) rest"] by (simp only: GetVarint32_def)
  with le show ?thesis by (simp add: entry_length_def min_def)
qed

definition internal_of :: "mem_entry \<Rightarrow> slice" where
  "internal_of e = me_key e @ EncodeFixed64 (PackSequenceAndType (me_seq e) (me_type e))"

lemma entry_bytes_eq:
  "entry_bytes e = EncodeVarint32 (word_of_nat (length (me_key e) + 8)) @ internal_of e @
     EncodeVarint32 (word_of_nat (length (me_value e))) @ me_value e"
  by (simp add: entry_bytes_def internal_of_def PutLengthPrefixedSlice_def PutVarint32_def AppendInternalKey_def PutFixed64_def)

lemma internal_of_simps [simp]:
  "length (internal_of e) = length (me_key e) + 8" "ExtractUserKey (internal_of e) = me_key e"
  "ExtractTag (internal_of e) = PackSequenceAndType (me_seq e) (me_type e)" "valid_key (internal_of e)"
  by (simp_all add: internal_of_def)

lemma entry_read:
  assumes "entry_fits e"
  shows "GetLengthPrefixedSlice (entry_bytes e) = Some (internal_of e, PutLengthPrefixedSlice [] (me_value e))"
    "GetLengthPrefixedSlice (PutLengthPrefixedSlice [] (me_value e)) = Some (me_value e, [])"
  using GetLengthPrefixedSlice_Put [of "internal_of e" "PutLengthPrefixedSlice [] (me_value e)"]
    GetLengthPrefixedSlice_Put [of "me_value e" "[]"] assms
  by (simp_all add: entry_fits_def entry_bytes_def internal_of_def AppendInternalKey_def PutFixed64_def)

lemma MemTable_Add_eq:
  assumes "entry_fits e"
  shows "MemTable_Add ucmp (me_seq e) (me_type e) (me_key e) (me_value e) table =
    Insert (KeyComparator ucmp) (entry_bytes e) table"
  using assms
  by (simp add: MemTable_Add_def entry_bytes_eq internal_of_def PackSequenceAndType_def Let_def entry_fits_def
      VarintLength_eq EncodeVarint32_eq unat_length_32 unat_length_64 del: of_nat_add)

subsection \<open>The order of entries\<close>

definition valid_entry :: "byte list \<Rightarrow> bool" where
  "valid_entry a \<longleftrightarrow> (case GetLengthPrefixedSlice a of None \<Rightarrow> False | Some (k, _) \<Rightarrow> valid_key k)"

lemma valid_entryE:
  assumes "valid_entry a"
  obtains k r where "GetLengthPrefixedSlice a = Some (k, r)" "valid_key k"
  using assms by (auto simp: valid_entry_def split: option.splits prod.splits)

lemma KeyComparator_eq:
  "GetLengthPrefixedSlice a = Some (k, r) \<Longrightarrow> GetLengthPrefixedSlice b = Some (l, q) \<Longrightarrow>
   KeyComparator ucmp a b = InternalKey_Compare ucmp k l"
  by (simp add: KeyComparator_def entry_GetLengthPrefixedSlice_eq)

lemma internal_trans:
  assumes "valid_key a" "valid_key b" "valid_key c" "InternalKey_Compare slice_compare a b \<le> 0"
    "InternalKey_Compare slice_compare b c \<le> 0"
  shows "InternalKey_Compare slice_compare a c \<le> 0"
  using assms internal.compare_trans [of a b c] internal.compare_eq [of a b] internal.compare_eq [of b c]
  by (auto simp: order_le_less)

interpretation memtable: entry_order "KeyComparator slice_compare" valid_entry
proof
  show "KeyComparator slice_compare a b < 0 \<longleftrightarrow> KeyComparator slice_compare b a > 0" if "valid_entry a" "valid_entry b" for a b
    using that by (auto elim!: valid_entryE simp: KeyComparator_eq internal.compare_flip)
  show "KeyComparator slice_compare a c \<le> 0" if "valid_entry a" "valid_entry b" "valid_entry c"
    "KeyComparator slice_compare a b \<le> 0" "KeyComparator slice_compare b c \<le> 0" for a b c
    using that by (auto elim!: valid_entryE simp: KeyComparator_eq intro: internal_trans)
qed

subsection \<open>Lookup\<close>

text \<open>The entries for a key that a reader at a sequence number sees, and the newest of them.\<close>

definition visible :: "slice \<Rightarrow> 64 word \<Rightarrow> mem_entry \<Rightarrow> bool" where
  "visible k s e \<longleftrightarrow> me_key e = k \<and> me_seq e \<le> s"

fun newest :: "slice \<Rightarrow> 64 word \<Rightarrow> mem_entry list \<Rightarrow> mem_entry option" where
  "newest k s [] = None"
| "newest k s (e # es) =
     (case newest k s es of None \<Rightarrow> if visible k s e then Some e else None
      | Some e' \<Rightarrow> if visible k s e \<and> me_seq e' < me_seq e then Some e else Some e')"

definition answer :: "mem_entry option \<Rightarrow> get_result" where
  "answer r = (case r of None \<Rightarrow> Get_false
     | Some e \<Rightarrow> (case me_type e of kTypeValue \<Rightarrow> Get_value (me_value e) | kTypeDeletion \<Rightarrow> Get_status (NotFound [] [])))"

lemma newest_None: "newest k s es = None \<longleftrightarrow> (\<forall>e \<in> set es. \<not> visible k s e)"
  by (induction es) (auto split: option.splits)

lemma newest_SomeD:
  "newest k s es = Some e \<Longrightarrow> e \<in> set es \<and> visible k s e \<and> (\<forall>e' \<in> set es. visible k s e' \<longrightarrow> me_seq e' \<le> me_seq e)"
  by (induction es arbitrary: e) (fastforce simp: newest_None split: option.splits if_splits)+

lemma newest_Some_iff:
  assumes "e \<in> set es" "visible k s e" "\<forall>e' \<in> set es. visible k s e' \<longrightarrow> me_seq e' \<le> me_seq e"
    "inj_on (\<lambda>e. (me_key e, me_seq e)) (set es)"
  shows "newest k s es = Some e"
proof -
  obtain e' where "newest k s es = Some e'" using assms(1,2) newest_None [of k s es] by (cases "newest k s es") auto
  moreover from newest_SomeD [OF this] assms have "me_seq e' = me_seq e" "me_key e' = me_key e" "e' \<in> set es"
    by (auto simp: visible_def intro: order_antisym)
  with assms(1,4) have "e' = e" by (auto simp: inj_on_def)
  ultimately show ?thesis by simp
qed

lemma pack_le: "s \<le> kMaxSequenceNumber \<Longrightarrow> s' \<le> kMaxSequenceNumber \<Longrightarrow>
  PackSequenceAndType s' t \<le> PackSequenceAndType s kValueTypeForSeek \<longleftrightarrow> s' \<le> s"
  using unat_pack [of s kValueTypeForSeek] unat_pack [of s' t] type_code_less [of t]
  by (auto simp: word_le_nat_alt type_code_def kValueTypeForSeek_def)

lemma compare_lookup:
  assumes "entry_fits e" "length k + 8 < 2 ^ 32" "s \<le> kMaxSequenceNumber"
  shows "\<not> KeyComparator slice_compare (entry_bytes e) (memtable_key (make_LookupKey k s)) < 0 \<longleftrightarrow>
    k < me_key e \<or> visible k s e"
proof -
  let ?l = "make_LookupKey k s"
  have lk: "GetLengthPrefixedSlice (memtable_key ?l) = Some (internal_key ?l, [])"
    using GetLengthPrefixedSlice_Put [of "internal_key ?l" "[]"] assms(2)
    by (simp add: memtable_key_def internal_key_def make_LookupKey_def Let_def PutLengthPrefixedSlice_def PutVarint32_def)
  have "ExtractUserKey (internal_key ?l) = k" "ExtractTag (internal_key ?l) = PackSequenceAndType s kValueTypeForSeek"
    by (simp_all add: internal_key_def make_LookupKey_def Let_def)
  then show ?thesis
    using KeyComparator_eq [OF entry_read(1) [OF assms(1)] lk, of slice_compare] pack_le [OF assms(3), of "me_seq e" "me_type e"] assms(1)
    by (auto simp: bytewise.internal_compare_iff(1) slice_compare_eq visible_def entry_fits_def)
qed

lemma tag_type:
  assumes "seq \<le> kMaxSequenceNumber"
  shows "PackSequenceAndType seq t AND 0xff = word_of_nat (type_code t)"
proof -
  have "PackSequenceAndType seq t AND 0xff = PackSequenceAndType seq t AND mask 8" by (simp add: mask_eq_exp_minus_1)
  also have "\<dots> = word_of_nat (unat (PackSequenceAndType seq t) mod 2 ^ 8)" by (rule and_low_mask)
  also have "unat (PackSequenceAndType seq t) mod 2 ^ 8 = type_code t"
    unfolding unat_pack [OF assms] using type_code_less [of t] by simp
  finally show ?thesis .
qed

lemma Get_at_entry:
  assumes "Iter_Seek (KeyComparator slice_compare) table (memtable_key l) = Some (Some x)"
    "Iter_key table (Some x) = Some (entry_bytes e)" "entry_fits e"
  shows "MemTable_Get slice_compare l table =
    Some (if me_key e = lookup_user_key l then answer (Some e) else Get_false)"
proof -
  let ?n = "word_of_nat (length (me_key e) + 8) :: 32 word"
  let ?v = "PutLengthPrefixedSlice [] (me_value e)"
  have e: "entry_bytes e = EncodeVarint32 ?n @ internal_of e @ ?v"
    by (simp add: entry_bytes_eq PutLengthPrefixedSlice_def PutVarint32_def)
  have n: "unat ?n = length (internal_of e)" using assms(3) by (simp add: entry_fits_def unat_length_32 del: of_nat_add)
  have user: "take (length (internal_of e) - 8) (internal_of e @ ?v) = me_key e"
    "DecodeFixed64 (drop (length (internal_of e) - 8) (internal_of e @ ?v)) = Some (PackSequenceAndType (me_seq e) (me_type e))"
    by (simp_all add: internal_of_def)
  have ptr: "entry_length (entry_bytes e) = Some (?n, internal_of e @ ?v)"
    unfolding e by (rule entry_length_Encode)
  have t: "PackSequenceAndType (me_seq e) (me_type e) AND 0xff = word_of_nat (type_code (me_type e))"
    using assms(3) by (simp add: tag_type entry_fits_def)
  have len: "8 \<le> length (internal_of e)" "length (internal_of e) \<le> length (internal_of e @ ?v)" by auto
  have "MemTable_Get slice_compare l table =
    (if slice_compare (me_key e) (lookup_user_key l) = 0 then Some (answer (Some e)) else Some Get_false)"
    unfolding MemTable_Get_def assms(1) bind.bind_lunit option.case assms(2) ptr prod.case n user
    by (simp add: t entry_GetLengthPrefixedSlice_eq entry_read(2) [OF assms(3)] answer_def)
      (auto simp: type_code_def split: ValueType.split)
  then show ?thesis by (simp add: slice_compare_eq)
qed

text \<open>The memtable holds a set of entries, no two of them with the same key and sequence number.\<close>

abbreviation entry_id :: "mem_entry \<Rightarrow> slice \<times> 64 word" where
  "entry_id e \<equiv> (me_key e, me_seq e)"

definition mem_holds :: "MemTable \<Rightarrow> mem_entry list \<Rightarrow> bool" where
  "mem_holds table es \<longleftrightarrow> (\<forall>e \<in> set es. entry_fits e) \<and> inj_on entry_id (set es) \<and>
     (\<exists>zs ks. memtable.holds table zs ks \<and> set ks = entry_bytes ` set es)"

lemma mem_holds_make: "mem_holds make_MemTable []"
  using memtable.holds_make [of "[]"] unfolding mem_holds_def make_MemTable_def by fastforce

lemma valid_entry_bytes: "entry_fits e \<Longrightarrow> valid_entry (entry_bytes e)"
  by (simp add: valid_entry_def entry_read)

lemma compare_entries:
  assumes "entry_fits e" "entry_fits e'"
  shows "KeyComparator slice_compare (entry_bytes e) (entry_bytes e') < 0 \<longleftrightarrow> me_key e < me_key e' \<or>
      me_key e = me_key e' \<and> PackSequenceAndType (me_seq e') (me_type e') < PackSequenceAndType (me_seq e) (me_type e)"
    "KeyComparator slice_compare (entry_bytes e) (entry_bytes e') = 0 \<Longrightarrow> entry_id e = entry_id e'"
proof -
  note cmp = KeyComparator_eq [OF entry_read(1) [OF assms(1)] entry_read(1) [OF assms(2)], of slice_compare]
  show "KeyComparator slice_compare (entry_bytes e) (entry_bytes e') < 0 \<longleftrightarrow> me_key e < me_key e' \<or>
      me_key e = me_key e' \<and> PackSequenceAndType (me_seq e') (me_type e') < PackSequenceAndType (me_seq e) (me_type e)"
    unfolding cmp by (auto simp: bytewise.internal_compare_iff(1) slice_compare_eq)
  assume "KeyComparator slice_compare (entry_bytes e) (entry_bytes e') = 0"
  then have "me_key e = me_key e'" "PackSequenceAndType (me_seq e) (me_type e) = PackSequenceAndType (me_seq e') (me_type e')"
    unfolding cmp by (auto simp: bytewise.internal_compare_iff(2))
  moreover from this(2) have "unat (me_seq e) * 256 + type_code (me_type e) = unat (me_seq e') * 256 + type_code (me_type e')"
    using assms unat_pack [of "me_seq e" "me_type e"] unat_pack [of "me_seq e'" "me_type e'"] by (simp add: entry_fits_def)
  then have "(unat (me_seq e) * 256 + type_code (me_type e)) div 256 = (unat (me_seq e') * 256 + type_code (me_type e')) div 256"
    by (simp only: )
  then have "unat (me_seq e) = unat (me_seq e')" using type_code_less [of "me_type e"] type_code_less [of "me_type e'"] by simp
  ultimately show "entry_id e = entry_id e'" by (simp add: word_unat_eq_iff)
qed

lemma MemTable_Add_holds:
  assumes "mem_holds table es" "entry_fits e" "entry_id e \<notin> entry_id ` set es"
  shows "\<exists>table'. MemTable_Add slice_compare (me_seq e) (me_type e) (me_key e) (me_value e) table = Some table' \<and>
    mem_holds table' (es @ [e])"
proof -
  obtain zs ks where h: "memtable.holds table zs ks" "set ks = entry_bytes ` set es" and fits: "\<forall>e \<in> set es. entry_fits e"
    and inj: "inj_on entry_id (set es)" using assms(1) by (auto simp: mem_holds_def)
  let ?k = "entry_bytes e" and ?ks = "memtable.below (entry_bytes e) ks @ entry_bytes e # memtable.from_key (entry_bytes e) ks"
  have "\<forall>a \<in> set ks. KeyComparator slice_compare ?k a \<noteq> 0"
    using compare_entries(2) [OF assms(2)] assms(3) fits h(2) by (metis (no_types, lifting) imageE imageI)
  from memtable.Insert_holds [OF h(1) valid_entry_bytes [OF assms(2)] this] obtain table' zs' where
    t: "Insert (KeyComparator slice_compare) ?k table = Some table'" "memtable.holds table' zs' ?ks" by blast
  have "set ?ks = insert ?k (set ks)" using arg_cong [OF memtable.below_from [of ?k ks], of set] by (simp del: memtable.below_from)
  then have "set ?ks = entry_bytes ` set (es @ [e])" using h(2) by simp
  moreover have "inj_on entry_id (set (es @ [e]))" using inj assms(3) by auto
  moreover have "\<forall>e \<in> set (es @ [e]). entry_fits e" using fits assms(2) by auto
  ultimately have "mem_holds table' (es @ [e])" using t(2) unfolding mem_holds_def by blast
  with t(1) show ?thesis by (simp add: MemTable_Add_eq [OF assms(2)])
qed

lemma MemTable_Get_holds:
  assumes h: "mem_holds table es" and k: "length k + 8 < 2 ^ 32" "s \<le> kMaxSequenceNumber"
  shows "MemTable_Get slice_compare (make_LookupKey k s) table = Some (answer (newest k s es))"
proof -
  let ?l = "make_LookupKey k s" let ?m = "memtable_key ?l" let ?cmp = "KeyComparator slice_compare"
  obtain zs ks where ks: "memtable.holds table zs ks" "set ks = entry_bytes ` set es" and fits: "\<And>e. e \<in> set es \<Longrightarrow> entry_fits e"
    and inj: "inj_on entry_id (set es)" using h by (auto simp: mem_holds_def)
  have sorted: "memtable.sorted_keys ks" using ks(1) by (simp add: memtable.holds_def)
  have user: "lookup_user_key ?l = k" by (simp add: lookup_user_key_def make_LookupKey_def Let_def)
  have valid: "valid_entry ?m"
    using GetLengthPrefixedSlice_Put [of "internal_key ?l" "[]"] k(1)
    by (simp add: valid_entry_def memtable_key_def internal_key_def make_LookupKey_def Let_def PutLengthPrefixedSlice_def PutVarint32_def)
  obtain it where it: "Iter_Seek ?cmp table ?m = Some it" "Iter_key table it = first (memtable.from_key ?m ks)"
    "it = None \<longleftrightarrow> memtable.from_key ?m ks = []" using memtable.Iter_Seek_exact [OF ks(1) valid] by blast
  have seen: "entry_bytes e \<in> set (memtable.from_key ?m ks)" if "e \<in> set es" "visible k s e" for e
  proof -
    have "entry_bytes e \<in> set (memtable.below ?m ks @ memtable.from_key ?m ks)" using that(1) ks(2) by simp
    moreover have "\<not> ?cmp (entry_bytes e) ?m < 0" using compare_lookup [OF fits [OF that(1)] k] that(2) by simp
    ultimately show ?thesis using memtable.below_less by (auto simp del: memtable.below_from)
  qed
  show ?thesis
  proof (cases "memtable.from_key ?m ks")
    case Nil
    then have "newest k s es = None" using seen newest_None [of k s es] by auto
    with Nil it show ?thesis by (simp add: MemTable_Get_def answer_def)
  next
    case (Cons b bs)
    then obtain x where x: "it = Some x" using it(3) by auto
    have "b \<in> set ks" using Cons by (metis list.set_intros(1) memtable.below_from set_append UnCI)
    then obtain e where e: "b = entry_bytes e" "e \<in> set es" using ks(2) by auto
    have first: "e' = e \<or> ?cmp (entry_bytes e) (entry_bytes e') < 0" if "e' \<in> set es" "visible k s e'" for e'
    proof -
      have "memtable.sorted_keys (memtable.below ?m ks @ b # bs)" using sorted Cons memtable.below_from [of ?m ks] by simp
      then have "entry_bytes e' = entry_bytes e \<or> ?cmp (entry_bytes e) (entry_bytes e') < 0"
        using seen [OF that] Cons e(1) by (auto simp: memtable.sorted_keys_def sorted_wrt_append)
      moreover have "?cmp b b = 0" using memtable.cmp_flip [of b b] valid_entry_bytes [OF fits [OF e(2)]] e(1) by fastforce
      ultimately show ?thesis
        using compare_entries(2) [OF fits [OF e(2)] fits [OF that(1)]] inj_onD [OF inj _ that(1) e(2)] e(1) by metis
    qed
    have ge: "k < me_key e \<or> visible k s e"
      using memtable.from_not_less [OF sorted valid, of b] Cons e compare_lookup [OF fits k] by simp
    have "newest k s es = (if me_key e = k then Some e else None)"
    proof (cases "me_key e = k")
      case True
      have "me_seq e' \<le> me_seq e" if e': "e' \<in> set es" "visible k s e'" for e'
        using first [OF e'] compare_entries(1) [OF fits [OF e(2)] fits [OF e'(1)]] True e'(2)
          fits [OF e(2)] fits [OF e'(1)] type_code_less [of "me_type e"]
        by (auto simp: visible_def entry_fits_def unat_pack word_less_nat_alt word_le_nat_alt [of "me_seq e'"])
      then show ?thesis using newest_Some_iff [OF e(2) _ _ inj] ge True by auto
    next
      case False
      have "\<not> visible k s e'" if "e' \<in> set es" for e'
        using first [OF that] False ge compare_entries(1) [OF fits [OF e(2)] fits [OF that]] by (auto simp: visible_def)
      then show ?thesis using False newest_None by simp
    qed
    moreover have "Iter_key table (Some x) = Some (entry_bytes e)" using it(2) x Cons e(1) by simp
    ultimately show ?thesis using Get_at_entry [OF it(1) [unfolded x] _ fits [OF e(2)]] user by (simp add: answer_def)
  qed
qed

fun add_all :: "mem_entry list \<Rightarrow> MemTable \<Rightarrow> MemTable option" where
  "add_all [] table = Some table"
| "add_all (e # es) table =
     Option.bind (MemTable_Add slice_compare (me_seq e) (me_type e) (me_key e) (me_value e) table) (add_all es)"

lemma add_all_holds:
  assumes "mem_holds table es" "\<forall>e \<in> set ns. entry_fits e" "distinct (map entry_id ns)"
    "\<forall>e \<in> set ns. entry_id e \<notin> entry_id ` set es"
  shows "\<exists>table'. add_all ns table = Some table' \<and> mem_holds table' (es @ ns)"
  using assms
proof (induction ns arbitrary: es table)
  case (Cons n ns)
  obtain t1 where t1: "MemTable_Add slice_compare (me_seq n) (me_type n) (me_key n) (me_value n) table = Some t1"
    "mem_holds t1 (es @ [n])" using MemTable_Add_holds [OF Cons.prems(1), of n] Cons.prems(2,4) by (meson list.set_intros(1))
  have "\<forall>e \<in> set ns. entry_id e \<notin> entry_id ` set (es @ [n])"
  proof
    fix e assume e: "e \<in> set ns"
    have "entry_id n \<notin> entry_id ` set ns" using Cons.prems(3) unfolding list.map distinct.simps set_map by blast
    moreover have "entry_id e \<in> entry_id ` set ns" using e by (rule imageI)
    ultimately have "entry_id e \<noteq> entry_id n" by (intro notI) (simp only: )
    moreover have "entry_id e \<notin> entry_id ` set es" by (rule bspec [OF Cons.prems(4)]) (use e in simp)
    ultimately show "entry_id e \<notin> entry_id ` set (es @ [n])" 
      unfolding set_append list.set image_Un image_insert image_empty by blast
  qed
  from Cons.IH [OF t1(2) _ _ this] Cons.prems(2,3) obtain t2 where "add_all ns t1 = Some t2" "mem_holds t2 ((es @ [n]) @ ns)"
    by auto
  with t1(1) show ?case by simp
qed simp

text \<open>
  C26. After any entries with different keys or sequence numbers were added to an empty memtable, a
  lookup of a key at a sequence number returns the value of the newest entry for that key that is
  not newer than the number, the status for a deleted key if that entry is a deletion, and false if
  there is none.
\<close>

theorem memtable_lookup:
  assumes "\<forall>e \<in> set es. entry_fits e" "distinct (map entry_id es)" "length k + 8 < 2 ^ 32" "s \<le> kMaxSequenceNumber"
  shows "\<exists>table. add_all es make_MemTable = Some table \<and>
    MemTable_Get slice_compare (make_LookupKey k s) table = Some (answer (newest k s es))"
proof -
  obtain table where "add_all es make_MemTable = Some table" "mem_holds table es"
    using add_all_holds [OF mem_holds_make assms(1,2)] by auto
  with MemTable_Get_holds [OF this(2) assms(3,4)] show ?thesis by simp
qed

theorem memtable_lookup_witness:
  "\<exists>table. add_all [\<lparr>me_seq = 1, me_type = kTypeValue, me_key = [1], me_value = [7]\<rparr>,
      \<lparr>me_seq = 2, me_type = kTypeDeletion, me_key = [1], me_value = []\<rparr>] make_MemTable = Some table \<and>
    MemTable_Get slice_compare (make_LookupKey [1] 1) table = Some (Get_value [7])"
proof -
  let ?es = "[\<lparr>me_seq = 1, me_type = kTypeValue, me_key = [1], me_value = [7]\<rparr>,
      \<lparr>me_seq = 2, me_type = kTypeDeletion, me_key = [1], me_value = []\<rparr>]"
  have n: "newest [1] 1 ?es = Some (hd ?es)" by (simp add: visible_def word_le_nat_alt)
  have f: "\<forall>e \<in> set ?es. entry_fits e" by (simp add: entry_fits_def kMaxSequenceNumber_def)
  have "distinct (map entry_id ?es)" "(1 :: 64 word) \<le> kMaxSequenceNumber" by (simp_all add: kMaxSequenceNumber_def)
  from memtable_lookup [OF f this(1) _ this(2), of "[1]", unfolded n] show ?thesis by (simp add: answer_def)
qed

end
