(* ===== verification/Ldb_Write_Batch.thy ===== *)
theory Ldb_Write_Batch
  imports Ldb_Memtable
begin

text \<open>
  Write batches (\<^verbatim>\<open>write_batch.cc\<close>): a header with a sequence number and a count, then the updates.
  The count is the 32-bit field of the header; a handler is the pair of its two operations on its
  state, and a run is \<open>None\<close> when one of these is.
\<close>

subsection \<open>Operations\<close>

type_synonym WriteBatch = "byte list"

definition kHeader :: nat where
  "kHeader = 12"

definition WriteBatch_Clear :: WriteBatch where
  "WriteBatch_Clear = replicate kHeader 0"

definition WriteBatch_ApproximateSize :: "WriteBatch \<Rightarrow> nat" where
  "WriteBatch_ApproximateSize rep = length rep"

definition Count :: "WriteBatch \<Rightarrow> 32 word option" where
  "Count rep = DecodeFixed32 (drop 8 rep)"

text \<open>A store into \<^verbatim>\<open>rep_\<close> at an offset; behind its end it is out of bounds.\<close>

definition put_bytes :: "nat \<Rightarrow> byte list \<Rightarrow> byte list \<Rightarrow> byte list option" where
  "put_bytes off bs rep =
     (if off + length bs \<le> length rep then Some (take off rep @ bs @ drop (off + length bs) rep) else None)"

definition SetCount :: "32 word \<Rightarrow> WriteBatch \<Rightarrow> WriteBatch option" where
  "SetCount n rep = put_bytes 8 (EncodeFixed32 n) rep"

definition Sequence :: "WriteBatch \<Rightarrow> 64 word option" where
  "Sequence rep = DecodeFixed64 rep"

definition SetSequence :: "64 word \<Rightarrow> WriteBatch \<Rightarrow> WriteBatch option" where
  "SetSequence seq rep = put_bytes 0 (EncodeFixed64 seq) rep"

definition WriteBatch_Put :: "slice \<Rightarrow> slice \<Rightarrow> WriteBatch \<Rightarrow> WriteBatch option" where
  "WriteBatch_Put key val rep = do {
     n \<leftarrow> Count rep;
     rep \<leftarrow> SetCount (n + 1) rep;
     Some (PutLengthPrefixedSlice (PutLengthPrefixedSlice (rep @ [word_of_nat (type_code kTypeValue)]) key) val)
   }"

definition WriteBatch_Delete :: "slice \<Rightarrow> WriteBatch \<Rightarrow> WriteBatch option" where
  "WriteBatch_Delete key rep = do {
     n \<leftarrow> Count rep;
     rep \<leftarrow> SetCount (n + 1) rep;
     Some (PutLengthPrefixedSlice (rep @ [word_of_nat (type_code kTypeDeletion)]) key)
   }"

definition WriteBatch_Append :: "WriteBatch \<Rightarrow> WriteBatch \<Rightarrow> WriteBatch option" where
  "WriteBatch_Append dst src = do {
     n \<leftarrow> Count dst;
     m \<leftarrow> Count src;
     dst \<leftarrow> SetCount (n + m) dst;
     if kHeader \<le> length src then Some (dst @ drop kHeader src) else None
   }"

definition SetContents :: "slice \<Rightarrow> WriteBatch option" where
  "SetContents contents = (if kHeader \<le> length contents then Some contents else None)"

text \<open>
  The loop of \<^verbatim>\<open>Iterate\<close>: the status of the loop, the number of updates found and the state of the
  handler. Every round takes at least a byte off the input.
\<close>

lemma GetLengthPrefixedSlice_shorter:
  "GetLengthPrefixedSlice input = Some (k, rest) \<Longrightarrow> length rest \<le> length input"
  by (auto simp: GetLengthPrefixedSlice_def GetVarint32_def GetVarint32Ptr_eq remove_prefix_def split: option.splits if_splits)

function iterate_loop ::
  "(slice \<Rightarrow> slice \<Rightarrow> 'h \<Rightarrow> 'h option) \<Rightarrow> (slice \<Rightarrow> 'h \<Rightarrow> 'h option) \<Rightarrow> slice \<Rightarrow> 32 word \<Rightarrow> 'h \<Rightarrow>
   (Status \<times> 32 word \<times> 'h) option" where
  "iterate_loop hput hdel input found h =
     (case input of [] \<Rightarrow> Some (OK, found, h)
      | tag # input \<Rightarrow>
          let found = found + 1 in
          if tag = word_of_nat (type_code kTypeValue) then
            (case GetLengthPrefixedSlice input of None \<Rightarrow> Some (Corruption ''bad WriteBatch Put'' [], found, h)
             | Some (key, input) \<Rightarrow>
                 (case GetLengthPrefixedSlice input of None \<Rightarrow> Some (Corruption ''bad WriteBatch Put'' [], found, h)
                  | Some (val, input) \<Rightarrow>
                      Option.bind (hput key val h) (iterate_loop hput hdel input found)))
          else if tag = word_of_nat (type_code kTypeDeletion) then
            (case GetLengthPrefixedSlice input of None \<Rightarrow> Some (Corruption ''bad WriteBatch Delete'' [], found, h)
             | Some (key, input) \<Rightarrow> Option.bind (hdel key h) (iterate_loop hput hdel input found))
          else Some (Corruption ''unknown WriteBatch tag'' [], found, h))"
  by pat_completeness auto
termination
  by (relation "measure (\<lambda>(hput, hdel, input, found, h). length input)")
    (auto dest!: GetLengthPrefixedSlice_shorter)

declare iterate_loop.simps [simp del]

definition Iterate ::
  "(slice \<Rightarrow> slice \<Rightarrow> 'h \<Rightarrow> 'h option) \<Rightarrow> (slice \<Rightarrow> 'h \<Rightarrow> 'h option) \<Rightarrow> WriteBatch \<Rightarrow> 'h \<Rightarrow> (Status \<times> 'h) option" where
  "Iterate hput hdel rep h =
     (if length rep < kHeader then Some (Corruption ''malformed WriteBatch (too small)'' [], h)
      else do {
        (s, found, h) \<leftarrow> iterate_loop hput hdel (drop kHeader rep) 0 h;
        if \<not> ok s then Some (s, h)
        else do {
          n \<leftarrow> Count rep;
          Some (if found \<noteq> n then Corruption ''WriteBatch has wrong count'' [] else OK, h)
        }
      })"

subsection \<open>Insertion into a memtable\<close>

definition MemTableInserter_Put ::
  "(slice \<Rightarrow> slice \<Rightarrow> int) \<Rightarrow> slice \<Rightarrow> slice \<Rightarrow> 64 word \<times> MemTable \<Rightarrow> (64 word \<times> MemTable) option" where
  "MemTableInserter_Put ucmp key val h =
     (case h of (seq, mem) \<Rightarrow> map_option (Pair (seq + 1)) (MemTable_Add ucmp seq kTypeValue key val mem))"

definition MemTableInserter_Delete ::
  "(slice \<Rightarrow> slice \<Rightarrow> int) \<Rightarrow> slice \<Rightarrow> 64 word \<times> MemTable \<Rightarrow> (64 word \<times> MemTable) option" where
  "MemTableInserter_Delete ucmp key h =
     (case h of (seq, mem) \<Rightarrow> map_option (Pair (seq + 1)) (MemTable_Add ucmp seq kTypeDeletion key [] mem))"

definition InsertInto :: "(slice \<Rightarrow> slice \<Rightarrow> int) \<Rightarrow> WriteBatch \<Rightarrow> MemTable \<Rightarrow> (Status \<times> MemTable) option" where
  "InsertInto ucmp b mem = do {
     seq \<leftarrow> Sequence b;
     (s, _, mem) \<leftarrow> Iterate (MemTableInserter_Put ucmp) (MemTableInserter_Delete ucmp) b (seq, mem);
     Some (s, mem)
   }"

subsection \<open>Batches as lists of updates\<close>

datatype batch_update = Put slice slice | Delete slice

definition update_bytes :: "batch_update \<Rightarrow> byte list" where
  "update_bytes u =
     (case u of
        Put k v \<Rightarrow> 1 # PutLengthPrefixedSlice [] k @ PutLengthPrefixedSlice [] v
      | Delete k \<Rightarrow> 0 # PutLengthPrefixedSlice [] k)"

definition update_fits :: "batch_update \<Rightarrow> bool" where
  "update_fits u \<longleftrightarrow> (case u of Put k v \<Rightarrow> length k + 8 < 2 ^ 32 \<and> length v < 2 ^ 32 | Delete k \<Rightarrow> length k + 8 < 2 ^ 32)"

definition batch_bytes :: "64 word \<Rightarrow> batch_update list \<Rightarrow> WriteBatch" where
  "batch_bytes seq us = EncodeFixed64 seq @ EncodeFixed32 (word_of_nat (length us)) @ concat (map update_bytes us)"

definition apply_update :: "batch_update \<Rightarrow> WriteBatch \<Rightarrow> WriteBatch option" where
  "apply_update u rep = (case u of Put k v \<Rightarrow> WriteBatch_Put k v rep | Delete k \<Rightarrow> WriteBatch_Delete k rep)"

fun build :: "batch_update list \<Rightarrow> WriteBatch \<Rightarrow> WriteBatch option" where
  "build [] rep = Some rep"
| "build (u # us) rep = Option.bind (apply_update u rep) (build us)"

fun deliver :: "(slice \<Rightarrow> slice \<Rightarrow> 'h \<Rightarrow> 'h option) \<Rightarrow> (slice \<Rightarrow> 'h \<Rightarrow> 'h option) \<Rightarrow> batch_update list \<Rightarrow> 'h \<Rightarrow> 'h option" where
  "deliver hput hdel [] h = Some h"
| "deliver hput hdel (u # us) h =
     Option.bind (case u of Put k v \<Rightarrow> hput k v h | Delete k \<Rightarrow> hdel k h) (deliver hput hdel us)"

lemma update_bytes_simps [simp]:
  "update_bytes (Put k v) = 1 # PutLengthPrefixedSlice [] k @ PutLengthPrefixedSlice [] v"
  "update_bytes (Delete k) = 0 # PutLengthPrefixedSlice [] k"
  by (simp_all add: update_bytes_def)

lemma Clear_eq: "WriteBatch_Clear = batch_bytes 0 []"
  by (simp add: WriteBatch_Clear_def batch_bytes_def kHeader_def EncodeFixed64_def EncodeFixed32_def eval_simps)

lemma Count_batch [simp]: "Count (batch_bytes seq us) = Some (word_of_nat (length us))"
  by (simp add: Count_def batch_bytes_def)

lemma Sequence_batch [simp]: "Sequence (batch_bytes seq us) = Some seq"
  by (simp add: Sequence_def batch_bytes_def)

lemma SetCount_batch:
  "SetCount n (batch_bytes seq us @ bs) = Some (EncodeFixed64 seq @ EncodeFixed32 n @ concat (map update_bytes us) @ bs)"
  by (simp add: SetCount_def put_bytes_def batch_bytes_def)

lemma SetSequence_batch [simp]: "SetSequence seq' (batch_bytes seq us) = Some (batch_bytes seq' us)"
  by (simp add: SetSequence_def put_bytes_def batch_bytes_def)

lemma PutLengthPrefixedSlice_append: "PutLengthPrefixedSlice dst s = dst @ PutLengthPrefixedSlice [] s"
  by (simp add: PutLengthPrefixedSlice_def PutVarint32_def)

lemma apply_update_batch: "apply_update u (batch_bytes seq us) = Some (batch_bytes seq (us @ [u]))"
  using SetCount_batch [of _ seq us "[]"]
  by (cases u)
    (simp_all add: apply_update_def WriteBatch_Put_def WriteBatch_Delete_def batch_bytes_def type_code_def
      Count_batch [unfolded batch_bytes_def] PutLengthPrefixedSlice_append [of "_ @ _"] PutLengthPrefixedSlice_append [of "_ # _"] add.commute)

lemma build_batch: "build vs (batch_bytes seq us) = Some (batch_bytes seq (us @ vs))"
  by (induction vs arbitrary: us) (simp_all add: apply_update_batch)

lemma Append_batch: "WriteBatch_Append (batch_bytes seq us) (batch_bytes seq' vs) = Some (batch_bytes seq (us @ vs))"
  using SetCount_batch [of _ seq us "[]"]
  by (simp add: WriteBatch_Append_def) (simp add: batch_bytes_def kHeader_def)

lemma iterate_loop_updates:
  "\<forall>u \<in> set us. update_fits u \<Longrightarrow>
   iterate_loop hput hdel (concat (map update_bytes us)) found h =
     map_option (\<lambda>h. (OK, found + word_of_nat (length us), h)) (deliver hput hdel us h)"
proof (induction us arbitrary: found h)
  case Nil
  then show ?case by (subst iterate_loop.simps) simp
next
  case (Cons u us)
  show ?case
  proof (cases u)
    case (Put k v)
    with Cons.prems have "length k < 2 ^ 32" "length v < 2 ^ 32" by (auto simp: update_fits_def)
    with Put Cons show ?thesis
      by (subst iterate_loop.simps)
        (cases "hput k v h"; simp add: type_code_def GetLengthPrefixedSlice_Put Let_def algebra_simps)
  next
    case (Delete k)
    with Cons.prems have "length k < 2 ^ 32" by (auto simp: update_fits_def)
    with Delete Cons show ?thesis
      by (subst iterate_loop.simps)
        (cases "hdel k h"; simp add: type_code_def GetLengthPrefixedSlice_Put Let_def algebra_simps)
  qed
qed

lemma Iterate_batch:
  assumes "\<forall>u \<in> set us. update_fits u"
  shows "Iterate hput hdel (batch_bytes seq us) h = map_option (Pair OK) (deliver hput hdel us h)"
proof -
  have "drop kHeader (batch_bytes seq us) = concat (map update_bytes us)" "\<not> length (batch_bytes seq us) < kHeader"
    by (simp_all add: batch_bytes_def kHeader_def)
  then show ?thesis
    by (cases "deliver hput hdel us h") (simp_all add: Iterate_def iterate_loop_updates [OF assms] ok_def)
qed

subsection \<open>Batches in a memtable\<close>

fun numbered :: "64 word \<Rightarrow> batch_update list \<Rightarrow> mem_entry list" where
  "numbered seq [] = []"
| "numbered seq (u # us) =
     (case u of
        Put k v \<Rightarrow> \<lparr>me_seq = seq, me_type = kTypeValue, me_key = k, me_value = v\<rparr>
      | Delete k \<Rightarrow> \<lparr>me_seq = seq, me_type = kTypeDeletion, me_key = k, me_value = []\<rparr>) # numbered (seq + 1) us"

lemma deliver_memtable:
  "map_option snd (deliver (MemTableInserter_Put slice_compare) (MemTableInserter_Delete slice_compare) us (seq, mem)) =
     add_all (numbered seq us) mem"
proof (induction us arbitrary: seq mem)
  case (Cons u us)
  then show ?case
    by (cases u; simp add: MemTableInserter_Put_def MemTableInserter_Delete_def; (subst bind_map_option)?)
      (auto simp: comp_def split: bind_splits)
qed simp

lemma InsertInto_batch:
  assumes "\<forall>u \<in> set us. update_fits u"
  shows "InsertInto slice_compare (batch_bytes seq us) mem = map_option (Pair OK) (add_all (numbered seq us) mem)"
  unfolding deliver_memtable [symmetric]
  by (cases "deliver (MemTableInserter_Put slice_compare) (MemTableInserter_Delete slice_compare) us (seq, mem)")
    (auto simp: InsertInto_def Iterate_batch [OF assms])

lemma numbered_sequence:
  assumes "unat seq + length us \<le> Suc (unat kMaxSequenceNumber)"
  shows "map (\<lambda>e. unat (me_seq e)) (numbered seq us) = [unat seq..<unat seq + length us]"
  using assms
proof (induction us arbitrary: seq)
  case (Cons u us)
  have m: "unat kMaxSequenceNumber = 2 ^ 56 - 1" by (simp add: kMaxSequenceNumber_def)
  have "unat (seq + 1) = unat seq + 1" using Cons.prems m by (subst unat_plus_simple [THEN iffD1]) (auto simp: word_le_nat_alt unat_word_ariths)
  with Cons show ?case by (cases u) (auto simp: upt_rec)
qed simp

lemma numbered_fits:
  assumes "unat seq + length us \<le> Suc (unat kMaxSequenceNumber)" "\<forall>u \<in> set us. update_fits u"
  shows "\<forall>e \<in> set (numbered seq us). entry_fits e" "distinct (map entry_id (numbered seq us))"
proof -
  have "me_seq e \<le> kMaxSequenceNumber" if "e \<in> set (numbered seq us)" for e
  proof -
    have "unat (me_seq e) \<in> set (map (\<lambda>e. unat (me_seq e)) (numbered seq us))" using that by simp
    then show ?thesis using assms(1) unfolding numbered_sequence [OF assms(1)] by (simp add: word_le_nat_alt)
  qed
  moreover have "length (me_key e) + 8 < 2 ^ 32 \<and> length (me_value e) < 2 ^ 32" if "e \<in> set (numbered seq us)" for e
    using that assms(2) by (induction us arbitrary: seq) (auto simp: update_fits_def split: batch_update.splits)
  ultimately show "\<forall>e \<in> set (numbered seq us). entry_fits e" by (simp add: entry_fits_def)
  have "distinct (map (\<lambda>e. unat (me_seq e)) (numbered seq us))" by (simp add: numbered_sequence [OF assms(1)])
  then show "distinct (map entry_id (numbered seq us))" by (auto simp: distinct_map inj_on_def)
qed

lemma insert_batch_holds:
  assumes "mem_holds mem es" "unat seq + length us \<le> Suc (unat kMaxSequenceNumber)" "\<forall>u \<in> set us. update_fits u"
    "\<forall>e \<in> set es. me_seq e < seq"
  shows "\<exists>mem'. InsertInto slice_compare (batch_bytes seq us) mem = Some (OK, mem') \<and> mem_holds mem' (es @ numbered seq us)"
proof -
  have "seq \<le> me_seq e" if "e \<in> set (numbered seq us)" for e
  proof -
    have "unat (me_seq e) \<in> set (map (\<lambda>e. unat (me_seq e)) (numbered seq us))" using that by simp
    then show ?thesis unfolding numbered_sequence [OF assms(2)] by (simp add: word_le_nat_alt)
  qed
  then have "\<forall>e \<in> set (numbered seq us). entry_id e \<notin> entry_id ` set es" using assms(4) by fastforce
  from add_all_holds [OF assms(1) numbered_fits [OF assms(2,3)] this] show ?thesis
    by (auto simp: InsertInto_batch [OF assms(3)])
qed

subsection \<open>Properties\<close>

text \<open>
  C27. A batch is the list of its updates: the updates put into a cleared batch, and those of a
  batch appended to it, are delivered to any handler in order, and the status is good; the header has
  their number and the sequence number that was set.
\<close>

theorem write_batch_roundtrip:
  assumes "\<forall>u \<in> set us \<union> set vs. update_fits u"
  shows "\<exists>a b ab. build us WriteBatch_Clear = Some a \<and> build vs WriteBatch_Clear = Some b \<and>
    Option.bind (WriteBatch_Append a b) (SetSequence seq) = Some ab \<and>
    Iterate hput hdel ab h = map_option (Pair OK) (deliver hput hdel (us @ vs) h) \<and>
    Count ab = Some (word_of_nat (length us + length vs)) \<and> Sequence ab = Some seq"
proof -
  have "\<forall>u \<in> set (us @ vs). update_fits u" using assms by auto
  then show ?thesis
    by (intro exI [of _ "batch_bytes 0 us"] exI [of _ "batch_bytes 0 vs"] exI [of _ "batch_bytes seq (us @ vs)"])
      (simp add: Clear_eq build_batch Append_batch Iterate_batch)
qed

theorem write_batch_roundtrip_witness:
  "\<exists>ab. Iterate (\<lambda>k v h. Some (h @ [(k, Some v)])) (\<lambda>k h. Some (h @ [(k, None)])) ab [] =
    Some (OK, [([1], Some [2, 3]), ([1], None)])"
  using write_batch_roundtrip [of "[Put [1] [2, 3]]" "[Delete [1]]" 5 "\<lambda>k v h. Some (h @ [(k, Some v)])"
      "\<lambda>k h. Some (h @ [(k, None)])" "[]"]
  by (auto simp: update_fits_def)

lemma iterate_loop_count:
  "\<exists>s n us'. iterate_loop (\<lambda>k v h. Some (h @ [Put k v])) (\<lambda>k h. Some (h @ [Delete k])) input found us = Some (s, n, us') \<and>
    (s = OK \<longrightarrow> n + word_of_nat (length us) = found + word_of_nat (length us'))"
proof (induction "length input" arbitrary: input found us rule: less_induct)
  case less
  show ?case
  proof (cases input)
    case Nil
    then show ?thesis by (subst iterate_loop.simps) simp
  next
    case (Cons tag rest)
    have IH: "\<exists>s n us''. iterate_loop (\<lambda>k v h. Some (h @ [Put k v])) (\<lambda>k h. Some (h @ [Delete k])) q (found + 1) (us @ [u]) =
        Some (s, n, us'') \<and> (s = OK \<longrightarrow> n + word_of_nat (length us) = found + word_of_nat (length us''))"
      if "length q \<le> length rest" for q u
      using less [of q "found + 1" "us @ [u]"] that Cons by (auto simp: algebra_simps)
    have err: "Corruption m [] \<noteq> OK" for m by (simp add: Corruption_def make_Status_def)
    show ?thesis
      unfolding Cons
      by (subst iterate_loop.simps)
        (auto simp: Let_def err split: option.split dest!: GetLengthPrefixedSlice_shorter intro!: IH)
  qed
qed

text \<open>
  C28. Whatever bytes a batch consists of, iterating over it ends and returns a status, and the
  status is good only if as many updates were delivered as the header says.
\<close>

theorem Iterate_any_bytes:
  "\<exists>s us. Iterate (\<lambda>k v h. Some (h @ [Put k v])) (\<lambda>k h. Some (h @ [Delete k])) rep [] = Some (s, us) \<and>
    (s = OK \<longrightarrow> kHeader \<le> length rep \<and> Count rep = Some (word_of_nat (length us)))"
proof (cases "length rep < kHeader")
  case True
  then show ?thesis by (simp add: Iterate_def Corruption_def make_Status_def)
next
  case False
  then have "Count rep \<noteq> None" by (simp add: Count_def DecodeFixed32_def kHeader_def)
  then obtain n where n: "Count rep = Some n" by auto
  obtain s m us where "iterate_loop (\<lambda>k v h. Some (h @ [Put k v])) (\<lambda>k h. Some (h @ [Delete k])) (drop kHeader rep) 0 [] = Some (s, m, us)"
    "s = OK \<longrightarrow> m = word_of_nat (length us)"
    using iterate_loop_count [of "drop kHeader rep" 0 "[]"] by auto
  with n False show ?thesis by (auto simp: Iterate_def ok_def Corruption_def make_Status_def)
qed

theorem Iterate_any_bytes_witness:
  "\<exists>s us. Iterate (\<lambda>k v h. Some (h @ [Put k v])) (\<lambda>k h. Some (h @ [Delete k])) [1, 2, 3] [] = Some (s, us) \<and> s \<noteq> OK"
  using Iterate_any_bytes [of "[1, 2, 3]"] by (auto simp: kHeader_def)

text \<open>
  C29. A batch with a sequence number that is inserted into an empty memtable is seen by lookups at
  any later or earlier number: its updates count as entries numbered from the sequence number on.
\<close>

theorem write_batch_applied:
  assumes "\<forall>u \<in> set us. update_fits u" "unat seq + length us \<le> Suc (unat kMaxSequenceNumber)"
    "length k + 8 < 2 ^ 32" "s \<le> kMaxSequenceNumber"
  shows "\<exists>b mem. Option.bind (build us WriteBatch_Clear) (SetSequence seq) = Some b \<and>
    InsertInto slice_compare b make_MemTable = Some (OK, mem) \<and>
    MemTable_Get slice_compare (make_LookupKey k s) mem = Some (answer (newest k s (numbered seq us)))"
proof -
  obtain mem where mem: "InsertInto slice_compare (batch_bytes seq us) make_MemTable = Some (OK, mem)"
    "mem_holds mem (numbered seq us)"
    using insert_batch_holds [OF mem_holds_make assms(2,1)] by auto
  then show ?thesis
    using MemTable_Get_holds [OF mem(2) assms(3,4)]
    by (intro exI [of _ "batch_bytes seq us"] exI [of _ mem]) (simp add: Clear_eq build_batch)
qed

theorem write_batch_applied_witness:
  "\<exists>b mem. Option.bind (build [Put [1] [2], Put [1] [3], Delete [4]] WriteBatch_Clear) (SetSequence 9) = Some b \<and>
    InsertInto slice_compare b make_MemTable = Some (OK, mem) \<and>
    MemTable_Get slice_compare (make_LookupKey [1] 100) mem = Some (Get_value [3])"
proof -
  let ?us = "[Put [1] [2], Put [1] [3], Delete [4]]"
  have "newest [1] 100 (numbered 9 ?us) = Some \<lparr>me_seq = 10, me_type = kTypeValue, me_key = [1], me_value = [3]\<rparr>"
    by (simp add: visible_def word_le_nat_alt)
  then have "answer (newest [1] 100 (numbered 9 ?us)) = Get_value [3]" by (simp add: answer_def)
  moreover have "\<forall>u \<in> set ?us. update_fits u" "unat (9 :: 64 word) + length ?us \<le> Suc (unat kMaxSequenceNumber)"
    "(100 :: 64 word) \<le> kMaxSequenceNumber"
    by (simp_all add: update_fits_def kMaxSequenceNumber_def)
  ultimately show ?thesis using write_batch_applied [of ?us 9 "[1]" 100] by simp
qed

end
