(* ===== verification/Ldb_Crc_Spec.thy ===== *)
theory Ldb_Crc_Spec
  imports Ldb_Crc
begin

text \<open>
  The tables and the strided loops of \<^verbatim>\<open>crc32c.cc\<close> compute the cyclic redundancy check bit by bit.
  Everything rests on one fact: shifting the register by a bit is linear over exclusive or.
\<close>

subsection \<open>The register, bit by bit\<close>

text \<open>One bit of the reflected Castagnoli polynomial.\<close>

definition crc_bit :: "32 word \<Rightarrow> 32 word" where
  "crc_bit x = drop_bit 1 x XOR (if bit x 0 then 0x82f63b78 else 0)"

definition crc_byte :: "32 word \<Rightarrow> byte \<Rightarrow> 32 word" where
  "crc_byte l b = (crc_bit ^^ 8) (l XOR ucast b)"

definition crc32c_spec :: "32 word \<Rightarrow> byte list \<Rightarrow> 32 word" where
  "crc32c_spec crc data = NOT (foldl crc_byte (NOT crc) data)"

lemma crc_bit_xor: "crc_bit (x XOR y) = crc_bit x XOR crc_bit y"
  by (auto simp: crc_bit_def bit_xor_iff drop_bit_xor ac_simps)

lemma crc_bit_0: "crc_bit 0 = 0"
  by (simp add: crc_bit_def)

lemma crc_bits_xor: "(crc_bit ^^ n) (x XOR y) = (crc_bit ^^ n) x XOR (crc_bit ^^ n) y"
  by (induction n) (simp_all add: crc_bit_xor)

lemma crc_bits_0 [simp]: "(crc_bit ^^ n) 0 = 0"
  by (induction n) (simp_all add: crc_bit_0)

lemma crc_bits_add: "(crc_bit ^^ m) ((crc_bit ^^ n) x) = (crc_bit ^^ (m + n)) x"
  by (simp add: funpow_add)

text \<open>Zero bits at the bottom are shifted out.\<close>

lemma crc_bits_shift: "(\<And>i. i < n \<Longrightarrow> \<not> bit x i) \<Longrightarrow> (crc_bit ^^ n) x = drop_bit n x"
proof (induction n arbitrary: x)
  case (Suc n)
  have "crc_bit x = drop_bit 1 x" using Suc.prems [of 0] by (simp add: crc_bit_def)
  moreover have "(crc_bit ^^ n) (drop_bit 1 x) = drop_bit n (drop_bit 1 x)"
    using Suc.prems by (intro Suc.IH) (simp add: bit_simps)
  ultimately show ?case by (simp only: funpow_Suc_right o_apply) (simp add: drop_bit_drop_bit)
qed simp

lemma crc_bits_push:
  assumes "\<And>i. bit x i \<Longrightarrow> n + i < 32"
  shows "(crc_bit ^^ n) (push_bit n x) = x"
proof -
  have "(crc_bit ^^ n) (push_bit n x) = drop_bit n (push_bit n x)"
    by (rule crc_bits_shift) (simp add: bit_simps)
  also have "\<dots> = x"
    using assms by (intro bit_word_eqI) (auto simp: bit_simps dest: bit_imp_le_length)
  finally show ?thesis .
qed

subsection \<open>Tables of a linear function\<close>

definition table_of :: "32 word list \<Rightarrow> 32 word list" where
  "table_of bs = foldl (\<lambda>t b. t @ map (\<lambda>x. b XOR x) t) [0] bs"

lemma length_table_of: "length (table_of bs) = 2 ^ length bs"
  by (induction bs rule: rev_induct) (simp_all add: table_of_def)

lemma word_of_nat_top:
  assumes "j < 2 ^ n" "n < 32"
  shows "(word_of_nat (2 ^ n + j) :: 32 word) = push_bit n 1 XOR word_of_nat j"
proof -
  have "unat (word_of_nat j :: 32 word) \<le> j" by (rule unat_of_nat_le)
  then have "unat (word_of_nat j :: 32 word) < 2 ^ n" using assms(1) by simp
  then have "take_bit n (word_of_nat j :: 32 word) = word_of_nat j"
    by (metis mod_less unat_take_bit_mod unsigned_word_eqI)
  then have "\<not> bit (word_of_nat j :: 32 word) n" by (metis bit_take_bit_iff less_irrefl)
  then have "push_bit n 1 AND (word_of_nat j :: 32 word) = 0"
    by (intro bit_word_eqI) (auto simp: bit_simps)
  then have "push_bit n 1 XOR (word_of_nat j :: 32 word) = push_bit n 1 + word_of_nat j"
    by (simp add: disjunctive_add_eq_xor)
  then show ?thesis by (simp add: push_bit_eq_mult)
qed

lemma table_of_nth:
  fixes f :: "32 word \<Rightarrow> 32 word"
  assumes lin: "\<And>x y. f (x XOR y) = f x XOR f y" "f 0 = 0"
    and "i < 2 ^ n" "n \<le> 32"
  shows "table_of (map (\<lambda>k. f (push_bit k 1)) [0 ..< n]) ! i = f (word_of_nat i)"
  using assms(3,4)
proof (induction n arbitrary: i)
  case 0
  then show ?case by (simp add: table_of_def lin(2))
next
  case (Suc n)
  let ?t = "table_of (map (\<lambda>k. f (push_bit k 1)) [0 ..< n])"
  have t: "table_of (map (\<lambda>k. f (push_bit k 1)) [0 ..< Suc n]) = ?t @ map (\<lambda>x. f (push_bit n 1) XOR x) ?t"
    by (simp add: table_of_def)
  have len: "length ?t = 2 ^ n" by (simp add: length_table_of)
  show ?case
  proof (cases "i < 2 ^ n")
    case True
    with Suc len show ?thesis unfolding t by (simp add: nth_append)
  next
    case False
    then obtain j where i: "i = 2 ^ n + j" by (metis le_Suc_ex not_less)
    with Suc.prems have j: "j < 2 ^ n" by simp
    have w: "(word_of_nat (2 ^ n + j) :: 32 word) = push_bit n 1 XOR word_of_nat j"
      using Suc.prems(2) by (intro word_of_nat_top [OF j]) simp
    have "table_of (map (\<lambda>k. f (push_bit k 1)) [0 ..< Suc n]) ! i = f (push_bit n 1) XOR ?t ! j"
      unfolding t i using len j by (simp add: nth_append)
    also have "?t ! j = f (word_of_nat j)" by (rule Suc.IH [OF j]) (use Suc.prems in simp)
    finally show ?thesis unfolding i w lin(1) .
  qed
qed

text \<open>The register after the first bit of a byte has been shifted \<open>n\<close> times.\<close>

fun crc_steps :: "nat \<Rightarrow> 32 word \<Rightarrow> 32 word list" where
  "crc_steps 0 x = []"
| "crc_steps (Suc n) x = crc_bit x # crc_steps n (crc_bit x)"

lemma crc_steps_numeral:
  "crc_steps (numeral k) x = crc_bit x # crc_steps (pred_numeral k) (crc_bit x)"
  unfolding numeral_eq_Suc [of k] by (rule crc_steps.simps)

lemma crc_steps_nth: "k < n \<Longrightarrow> crc_steps n x ! k = (crc_bit ^^ Suc k) x"
proof (induction n arbitrary: k x)
  case (Suc n)
  then show ?case by (cases k) (simp_all add: funpow_swap1)
qed simp

lemma crc_steps_values:
  "crc_steps 128 1 = [
   0x82f63b78, 0x417b1dbc, 0x20bd8ede, 0x105ec76f, 0x8ad958cf, 0xc79a971f, 0xe13b70f7, 0xf26b8303,
   0xfbc3faf9, 0xff17c604, 0x7f8be302, 0x3fc5f181, 0x9d14c3b8, 0x4e8a61dc, 0x274530ee, 0x13a29877,
   0x8b277743, 0xc76580d9, 0xe144fb14, 0x70a27d8a, 0x38513ec5, 0x9edea41a, 0x4f6f520d, 0xa541927e,
   0x52a0c93f, 0xaba65fe7, 0xd725148b, 0xe964b13d, 0xf64463e6, 0x7b2231f3, 0xbf672381, 0xdd45aab8,
   0x6ea2d55c, 0x37516aae, 0x1ba8b557, 0x8f2261d3, 0xc5670b91, 0xe045beb0, 0x7022df58, 0x38116fac,
   0x1c08b7d6, 0x0e045beb, 0x85f4168d, 0xc00c303e, 0x6006181f, 0xb2f53777, 0xdb8ca0c3, 0xef306b19,
   0xf56e0ef4, 0x7ab7077a, 0x3d5b83bd, 0x9c5bfaa6, 0x4e2dfd53, 0xa5e0c5d1, 0xd0065990, 0x68032cc8,
   0x34019664, 0x1a00cb32, 0x0d006599, 0x847609b4, 0x423b04da, 0x211d826d, 0x9278fa4e, 0x493c7d27,
   0xa66805eb, 0xd1c2398d, 0xea1727be, 0x750b93df, 0xb873f297, 0xdecfc233, 0xed91da61, 0xf43ed648,
   0x7a1f6b24, 0x3d0fb592, 0x1e87dac9, 0x8db5d61c, 0x46daeb0e, 0x236d7587, 0x934081bb, 0xcb567ba5,
   0xe75d06aa, 0x73ae8355, 0xbb217ad2, 0x5d90bd69, 0xac3e65cc, 0x561f32e6, 0x2b0f9973, 0x9771f7c1,
   0xc94ec098, 0x64a7604c, 0x3253b026, 0x1929d813, 0x8e62d771, 0xc5c750c0, 0x62e3a860, 0x3171d430,
   0x18b8ea18, 0x0c5c750c, 0x062e3a86, 0x03171d43, 0x837db5d9, 0xc348e194, 0x61a470ca, 0x30d23865,
   0x9a9f274a, 0x4d4f93a5, 0xa451f2aa, 0x5228f955, 0xabe247d2, 0x55f123e9, 0xa80eaa8c, 0x54075546,
   0x2a03aaa3, 0x97f7ee29, 0xc90dcc6c, 0x6486e636, 0x3243731b, 0x9bd782f5, 0xcf1dfa02, 0x678efd01,
   0xb13145f8, 0x5898a2fc, 0x2c4c517e, 0x162628bf, 0x89e52f27, 0xc604aceb, 0xe1f46d0d, 0xf20c0dfe]"
  by (simp add: crc_steps_numeral crc_bit_def)

lemma kByteExtensionTable_basis: "kByteExtensionTable = table_of [0xf26b8303, 0xe13b70f7, 0xc79a971f, 0x8ad958cf, 0x105ec76f, 0x20bd8ede, 0x417b1dbc, 0x82f63b78]"
  by (simp add: kByteExtensionTable_def table_of_def)

lemma kStrideExtensionTable0_basis: "kStrideExtensionTable0 = table_of [0x30d23865, 0x61a470ca, 0xc348e194, 0x837db5d9, 0x03171d43, 0x062e3a86, 0x0c5c750c, 0x18b8ea18]"
  by (simp add: kStrideExtensionTable0_def table_of_def)

lemma kStrideExtensionTable1_basis: "kStrideExtensionTable1 = table_of [0x54075546, 0xa80eaa8c, 0x55f123e9, 0xabe247d2, 0x5228f955, 0xa451f2aa, 0x4d4f93a5, 0x9a9f274a]"
  by (simp add: kStrideExtensionTable1_def table_of_def)

lemma kStrideExtensionTable2_basis: "kStrideExtensionTable2 = table_of [0x678efd01, 0xcf1dfa02, 0x9bd782f5, 0x3243731b, 0x6486e636, 0xc90dcc6c, 0x97f7ee29, 0x2a03aaa3]"
  by (simp add: kStrideExtensionTable2_def table_of_def)

lemma kStrideExtensionTable3_basis: "kStrideExtensionTable3 = table_of [0xf20c0dfe, 0xe1f46d0d, 0xc604aceb, 0x89e52f27, 0x162628bf, 0x2c4c517e, 0x5898a2fc, 0xb13145f8]"
  by (simp add: kStrideExtensionTable3_def table_of_def)

lemma crc_basis:
  assumes "k < 8" "7 < n" "n \<le> 128"
  shows "(crc_bit ^^ n) (push_bit k 1) = crc_steps 128 1 ! (n - k - 1)"
proof -
  have "(crc_bit ^^ k) (push_bit k (1 :: 32 word)) = 1"
    using assms(1) by (intro crc_bits_push) (auto simp: bit_simps)
  moreover have "n = (n - k) + k" using assms by simp
  then have "(crc_bit ^^ n) (push_bit k 1) = (crc_bit ^^ (n - k)) ((crc_bit ^^ k) (push_bit k 1))"
    by (metis crc_bits_add)
  moreover have "n - k = Suc (n - k - 1)" using assms by simp
  ultimately show ?thesis using assms crc_steps_nth [of "n - k - 1" 128 1] by simp
qed

lemma crc_table:
  assumes "7 < n" "n \<le> 128" "i < 256"
  shows "table_of (map (\<lambda>k. crc_steps 128 1 ! (n - k - 1)) [0 ..< 8]) ! i = (crc_bit ^^ n) (word_of_nat i)"
proof -
  have "map (\<lambda>k. crc_steps 128 1 ! (n - k - 1)) [0 ..< 8] = map (\<lambda>k. (crc_bit ^^ n) (push_bit k 1)) [0 ..< 8]"
  proof (intro map_cong refl)
    fix k
    assume "k \<in> set [0 ..< 8 :: nat]"
    then show "crc_steps 128 1 ! (n - k - 1) = (crc_bit ^^ n) (push_bit k 1)"
      using crc_basis [of k n] assms by simp
  qed
  note eq = this
  show ?thesis unfolding eq by (rule table_of_nth) (use assms(3) in \<open>simp_all add: crc_bits_xor\<close>)
qed

lemma upt_8: "[0 ..< 8] = [0, 1, 2, 3, 4, 5, 6, 7 :: nat]"
  by (simp add: upt_rec)

lemma kByteExtensionTable_nth: "i < 256 \<Longrightarrow> kByteExtensionTable ! i = (crc_bit ^^ 8) (word_of_nat i)"
  using crc_table [of 8 i] unfolding upt_8 crc_steps_values kByteExtensionTable_basis by simp

lemma kStrideExtensionTable0_nth: "i < 256 \<Longrightarrow> kStrideExtensionTable0 ! i = (crc_bit ^^ 104) (word_of_nat i)"
  using crc_table [of 104 i] unfolding upt_8 crc_steps_values kStrideExtensionTable0_basis by simp

lemma kStrideExtensionTable1_nth: "i < 256 \<Longrightarrow> kStrideExtensionTable1 ! i = (crc_bit ^^ 112) (word_of_nat i)"
  using crc_table [of 112 i] unfolding upt_8 crc_steps_values kStrideExtensionTable1_basis by simp

lemma kStrideExtensionTable2_nth: "i < 256 \<Longrightarrow> kStrideExtensionTable2 ! i = (crc_bit ^^ 120) (word_of_nat i)"
  using crc_table [of 120 i] unfolding upt_8 crc_steps_values kStrideExtensionTable2_basis by simp

lemma kStrideExtensionTable3_nth: "i < 256 \<Longrightarrow> kStrideExtensionTable3 ! i = (crc_bit ^^ 128) (word_of_nat i)"
  using crc_table [of 128 i] unfolding upt_8 crc_steps_values kStrideExtensionTable3_basis by simp

subsection \<open>The steps of the code\<close>

lemma and_255: "w AND 0xFF = take_bit 8 w" for w :: "32 word"
  by (simp add: take_bit_eq_mask mask_eq_exp_minus_1)

lemma unat_take_8: "unat (take_bit 8 w :: 32 word) < 256"
  by (simp add: unat_take_bit_mod)

lemma byte_bits: "bit (take_bit 8 w :: 32 word) i \<Longrightarrow> i < 8"
  by (simp add: bit_simps)

lemma high_bits: "bit (drop_bit n w :: 32 word) i \<Longrightarrow> n + i < 32"
  by (auto simp: bit_simps dest: bit_imp_le_length)

text \<open>Shifting the register by a byte with the table.\<close>

lemma crc_byte_table:
  "(crc_bit ^^ 8) w = kByteExtensionTable ! unat (w AND 0xFF) XOR drop_bit 8 w"
proof -
  have "w = take_bit 8 w XOR push_bit 8 (drop_bit 8 w)"
    by (rule bit_word_eqI) (auto simp: bit_simps)
  then have "(crc_bit ^^ 8) w = (crc_bit ^^ 8) (take_bit 8 w) XOR (crc_bit ^^ 8) (push_bit 8 (drop_bit 8 w))"
    by (metis crc_bits_xor)
  also have "(crc_bit ^^ 8) (push_bit 8 (drop_bit 8 w)) = drop_bit 8 w"
    by (rule crc_bits_push) (rule high_bits)
  finally show ?thesis unfolding and_255 using kByteExtensionTable_nth [OF unat_take_8 [of w]] by simp
qed

lemma table_step_eq: "table_step w = (crc_bit ^^ 8) w"
  by (simp add: table_step_def crc_byte_table xor.commute)

lemma STEP1_eq: "STEP1 l b = crc_byte l b"
proof -
  have "take_bit 8 (l XOR ucast b) = take_bit 8 l XOR ucast b"
    by (rule bit_word_eqI) (auto simp: bit_simps dest: bit_imp_le_length)
  moreover have "drop_bit 8 (l XOR ucast b) = drop_bit 8 l"
    by (rule bit_word_eqI) (auto simp: bit_simps dest: bit_imp_le_length)
  ultimately show ?thesis unfolding crc_byte_def crc_byte_table STEP1_def and_255 by simp
qed

lemma four_bytes:
  "w = take_bit 8 w XOR push_bit 8 (take_bit 8 (drop_bit 8 w)) XOR
     push_bit 16 (take_bit 8 (drop_bit 16 w)) XOR push_bit 24 (drop_bit 24 w)" for w :: "32 word"
  by (rule bit_word_eqI) (auto simp: bit_simps)

lemma crc_bits_push_byte:
  assumes "k \<le> 24" "k \<le> n" "\<And>i. bit b i \<Longrightarrow> i < 8"
  shows "(crc_bit ^^ n) (push_bit k b) = (crc_bit ^^ (n - k)) b"
proof -
  have "(crc_bit ^^ k) (push_bit k b) = b"
    using assms by (intro crc_bits_push) fastforce
  moreover have "n = (n - k) + k" using assms(2) by simp
  ultimately show ?thesis by (metis crc_bits_add)
qed

lemma STEP4_eq: "STEP4 crc p = ReadUint32LE p XOR (crc_bit ^^ 128) crc"
proof -
  let ?b1 = "take_bit 8 (drop_bit 8 crc)" and ?b2 = "take_bit 8 (drop_bit 16 crc)" and ?b3 = "drop_bit 24 crc"
  have b3: "bit ?b3 i \<Longrightarrow> i < 8" for i using high_bits [of 24 crc i] by simp
  have "unat ?b3 < 256" using unat_u32_less [of crc] by (simp add: unat_drop_bit_div less_mult_imp_div_less)
  note t0 = kStrideExtensionTable0_nth [OF this]
  have "(crc_bit ^^ 128) crc = (crc_bit ^^ 128) (take_bit 8 crc) XOR (crc_bit ^^ 128) (push_bit 8 ?b1) XOR
      (crc_bit ^^ 128) (push_bit 16 ?b2) XOR (crc_bit ^^ 128) (push_bit 24 ?b3)"
    by (subst four_bytes) (simp only: crc_bits_xor)
  also have "\<dots> = (crc_bit ^^ 128) (take_bit 8 crc) XOR (crc_bit ^^ 120) ?b1 XOR
      (crc_bit ^^ 112) ?b2 XOR (crc_bit ^^ 104) ?b3"
    using crc_bits_push_byte [of 8 128 ?b1] crc_bits_push_byte [of 16 128 ?b2] crc_bits_push_byte [of 24 128 ?b3]
      byte_bits b3 by simp
  finally show ?thesis
    unfolding STEP4_def and_255 using kStrideExtensionTable3_nth [OF unat_take_8 [of crc]]
      kStrideExtensionTable2_nth [OF unat_take_8 [of "drop_bit 8 crc"]]
      kStrideExtensionTable1_nth [OF unat_take_8 [of "drop_bit 16 crc"]] t0
    by (simp add: xor.assoc)
qed

lemma STEP4W_eq: "STEP4W w l = (crc_bit ^^ 32) (w XOR l)"
  by (simp add: STEP4W_def table_step_eq crc_bits_add)

subsection \<open>Words of data\<close>

lemma le_nat_Cons_word:
  "(word_of_nat (le_nat (b # bs)) :: 32 word) = ucast b XOR push_bit 8 (word_of_nat (le_nat bs))"
proof -
  have "ucast b AND push_bit 8 (word_of_nat (le_nat bs) :: 32 word) = 0"
    by (rule bit_word_eqI) (auto simp: bit_simps dest: bit_imp_le_length)
  then have "ucast b XOR push_bit 8 (word_of_nat (le_nat bs) :: 32 word) = ucast b + push_bit 8 (word_of_nat (le_nat bs))"
    by (simp add: disjunctive_add_eq_xor)
  also have "\<dots> = word_of_nat (unat b) + word_of_nat (256 * le_nat bs)"
    by (simp add: push_bit_eq_mult ac_simps)
  finally show ?thesis by simp
qed

text \<open>Up to four bytes go through the register as one word.\<close>

lemma bytes_word:
  "length bs \<le> 4 \<Longrightarrow>
   foldl crc_byte l bs = (crc_bit ^^ (8 * length bs)) (l XOR word_of_nat (le_nat bs))"
proof (induction bs arbitrary: l)
  case (Cons b bs)
  let ?w = "word_of_nat (le_nat bs) :: 32 word"
  have "le_nat bs < 256 ^ length bs" by (rule le_nat_bound)
  also have "(256 :: nat) ^ length bs \<le> 256 ^ 3" using Cons.prems by (intro power_increasing) auto
  finally have "unat ?w < 2 ^ 24" using unat_of_nat_le [of "le_nat bs", where 'a = 32] by simp
  then have "take_bit 24 ?w = ?w" by (metis mod_less unat_take_bit_mod unsigned_word_eqI)
  then have "i < 24" if "bit ?w i" for i using that by (metis bit_take_bit_iff)
  then have "8 + i < 32" if "bit ?w i" for i using that by fastforce
  then have shift: "(crc_bit ^^ 8) (push_bit 8 ?w) = ?w" by (rule crc_bits_push)
  have "foldl crc_byte l (b # bs) = (crc_bit ^^ (8 * length bs)) (crc_byte l b XOR ?w)"
    using Cons by simp
  also have "crc_byte l b XOR ?w = (crc_bit ^^ 8) ((l XOR ucast b) XOR push_bit 8 ?w)"
    unfolding crc_byte_def crc_bits_xor [of 8 "l XOR ucast b"] shift ..
  also have "(l XOR ucast b) XOR push_bit 8 ?w = l XOR word_of_nat (le_nat (b # bs))"
    unfolding le_nat_Cons_word by (simp only: xor.assoc)
  finally show ?case by (simp add: crc_bits_add add.commute)
qed simp

lemma four_bytes_word:
  "4 \<le> length p \<Longrightarrow> foldl crc_byte l (take 4 p) = (crc_bit ^^ 32) (l XOR ReadUint32LE p)"
  using bytes_word [of "take 4 p" l] by (simp add: ReadUint32LE_def min_absorb2)

lemma foldl_take_drop: "foldl f l p = foldl f (foldl f l (take n p)) (drop n p)"
  by (metis append_take_drop_id foldl_append)

subsection \<open>The four strides\<close>

definition meaning :: "strides \<Rightarrow> 32 word" where
  "meaning = (\<lambda>(c0, c1, c2, c3).
     (crc_bit ^^ 128) c0 XOR (crc_bit ^^ 96) c1 XOR (crc_bit ^^ 64) c2 XOR (crc_bit ^^ 32) c3)"

lemma combine_meaning: "combine c = meaning c"
  by (cases c) (simp add: combine_def meaning_def STEP4W_eq crc_bits_xor crc_bits_add ac_simps)

text \<open>A word enters the four strides as it enters the register they stand for.\<close>

lemma meaning_word:
  assumes "4 \<le> length p"
  shows "meaning (c1, c2, c3, STEP4 c0 p) = foldl crc_byte (meaning (c0, c1, c2, c3)) (take 4 p)"
  unfolding four_bytes_word [OF assms] STEP4_eq meaning_def
  by (simp add: crc_bits_xor crc_bits_add ac_simps)

lemma meaning_init:
  assumes "16 \<le> length p"
  shows "meaning (ReadUint32LE p XOR l, ReadUint32LE (drop 4 p), ReadUint32LE (drop 8 p), ReadUint32LE (drop 12 p))
    = foldl crc_byte l (take 16 p)"
proof -
  have "take 16 p = take 4 p @ take 4 (drop 4 p) @ take 4 (drop 8 p) @ take 4 (drop 12 p)"
    by (simp add: take_add [of 4 12, simplified] take_add [of 4 8, simplified] take_add [of 4 4, simplified])
  then show ?thesis
    using assms by (simp add: four_bytes_word meaning_def crc_bits_xor crc_bits_add ac_simps)
qed

lemma meaning_STEP16:
  assumes "16 \<le> length p"
  shows "meaning (STEP16 c p) = foldl crc_byte (meaning c) (take 16 p)"
proof -
  obtain c0 c1 c2 c3 where c: "c = (c0, c1, c2, c3)" by (cases c)
  have "take 16 p = take 4 p @ take 4 (drop 4 p) @ take 4 (drop 8 p) @ take 4 (drop 12 p)"
    by (simp add: take_add [of 4 12, simplified] take_add [of 4 8, simplified] take_add [of 4 4, simplified])
  then show ?thesis
    using assms unfolding c
    by (simp add: STEP16_def flip: meaning_word)
qed

lemma swath_loop_meaning:
  "swath_loop c p = (c', p') \<Longrightarrow> foldl crc_byte (meaning c') p' = foldl crc_byte (meaning c) p"
proof (induction c p rule: swath_loop.induct)
  case (1 c p)
  show ?case
  proof (cases "16 \<le> length p")
    case True
    with "1.prems" have "swath_loop (STEP16 c p) (drop 16 p) = (c', p')" by (simp add: swath_loop.simps [of c])
    from "1.IH" [OF True this] show ?thesis
      unfolding meaning_STEP16 [OF True] foldl_take_drop [of _ _ p 16] .
  qed (use "1.prems" in \<open>simp add: swath_loop.simps\<close>)
qed

lemma word_loop_meaning:
  "word_loop c p = (c', p') \<Longrightarrow> foldl crc_byte (meaning c') p' = foldl crc_byte (meaning c) p"
proof (induction c p rule: word_loop.induct)
  case (1 c p)
  obtain c0 c1 c2 c3 where c: "c = (c0, c1, c2, c3)" by (cases c)
  show ?case
  proof (cases "4 \<le> length p")
    case True
    with "1.prems" c have "word_loop (c1, c2, c3, STEP4 c0 p) (drop 4 p) = (c', p')"
      by (simp add: word_loop.simps [of "(c0, c1, c2, c3)"])
    with "1.IH" [OF True] c show ?thesis
      unfolding c by (simp add: meaning_word [OF True] flip: foldl_take_drop [of _ _ p 4])
  qed (use "1.prems" in \<open>simp add: word_loop.simps\<close>)
qed

lemma extend_strides_eq:
  "extend_strides l p = (l', p') \<Longrightarrow> foldl crc_byte l' p' = foldl crc_byte l p"
  using swath_loop_meaning word_loop_meaning
  by (fastforce simp: extend_strides_def Let_def combine_meaning meaning_init foldl_take_drop [of _ l p 16]
      split: if_splits prod.splits)

lemma xor_kCRC32Xor: "w XOR kCRC32Xor = NOT w"
proof -
  have ones: "kCRC32Xor = - 1" by (simp add: kCRC32Xor_def)
  show ?thesis unfolding ones by simp
qed

lemma Extend_eq: "Extend a crc data = crc32c_spec crc data"
proof -
  have step: "STEP1 = crc_byte" by (intro ext) (rule STEP1_eq)
  let ?k = "RoundUp4 a - a"
  define lp where "lp = (if ?k \<le> length data then (foldl crc_byte (NOT crc) (take ?k data), drop ?k data) else (NOT crc, data))"
  obtain l p where lp: "lp = (l, p)" by (cases lp)
  obtain l' p' where strides: "extend_strides l p = (l', p')" by (cases "extend_strides l p")
  have "\<not> CanAccelerateCRC32C" by (simp add: CanAccelerateCRC32C_def AcceleratedCRC32C_def)
  then have "Extend a crc data = NOT (foldl crc_byte l' p')"
    unfolding Extend_def step xor_kCRC32Xor Let_def lp_def [symmetric] lp by (simp add: strides)
  also have "foldl crc_byte l' p' = foldl crc_byte l p" by (rule extend_strides_eq [OF strides])
  also have "\<dots> = foldl crc_byte (NOT crc) data"
    using lp foldl_take_drop [of crc_byte "NOT crc" data ?k] by (auto simp: lp_def split: if_splits)
  finally show ?thesis unfolding crc32c_spec_def .
qed

lemma crc32c_spec_append: "crc32c_spec (crc32c_spec crc xs) ys = crc32c_spec crc (xs @ ys)"
  by (simp add: crc32c_spec_def)

text \<open>Masking is undone by unmasking.\<close>

lemma Unmask_Mask [simp]: "Unmask (Mask crc) = crc"
proof -
  have "Unmask (Mask crc) =
    drop_bit 17 (drop_bit 15 crc OR push_bit 17 crc) OR push_bit 15 (drop_bit 15 crc OR push_bit 17 crc)"
    by (simp add: Unmask_def Mask_def Let_def)
  also have "\<dots> = crc"
  proof (rule bit_word_eqI)
    fix n
    assume "n < LENGTH(32)"
    then show "bit (drop_bit 17 (drop_bit 15 crc OR push_bit 17 crc) OR
        push_bit 15 (drop_bit 15 crc OR push_bit 17 crc)) n = bit crc n"
      by (cases "n < 15") (auto simp: bit_simps dest: bit_imp_le_length)
  qed
  finally show ?thesis .
qed

subsection \<open>Properties\<close>

text \<open>
  C15. The table-driven checksum, with its four interleaved strides and whatever the alignment of
  the data, is the bit-by-bit cyclic redundancy check of the Castagnoli polynomial. It can be
  computed in pieces, as the writer of the log does, and the mask for storing it can be undone.
\<close>

theorem Extend_is_crc32c:
  "Extend a crc data = crc32c_spec crc data \<and>
   Extend a' (Extend a crc data) more_data = Extend a'' crc (data @ more_data) \<and>
   Unmask (Mask crc) = crc"
  by (simp add: Extend_eq crc32c_spec_append)

end
