(* ===== verification/Ldb_Log.thy ===== *)
theory Ldb_Log
  imports Ldb_Env Ldb_Crc_Spec
begin

text \<open>
  The write-ahead log: \<^verbatim>\<open>log_format.h\<close>, \<^verbatim>\<open>log_writer.cc\<close> and \<^verbatim>\<open>log_reader.cc\<close>. Records are cut into
  fragments that do not cross the boundaries of 32 KB blocks; every fragment has a header with a
  checksum, a length and a type. The files underneath are the interfaces of Ldb\_Env: their
  operations are arguments of the definitions here.
\<close>

subsection \<open>Format\<close>

datatype RecordType = kZeroType | kFullType | kFirstType | kMiddleType | kLastType

definition record_code :: "RecordType \<Rightarrow> nat" where
  "record_code t =
     (case t of kZeroType \<Rightarrow> 0 | kFullType \<Rightarrow> 1 | kFirstType \<Rightarrow> 2 | kMiddleType \<Rightarrow> 3 | kLastType \<Rightarrow> 4)"

definition kMaxRecordType :: nat where
  "kMaxRecordType = record_code kLastType"

definition kBlockSize :: nat where
  "kBlockSize = 32768"

definition kHeaderSize :: nat where
  "kHeaderSize = 4 + 2 + 1"

subsection \<open>Writer\<close>

record 'f log_writer =
  lw_dest :: 'f
  lw_block_offset :: nat

definition make_Writer :: "'f \<Rightarrow> nat \<Rightarrow> 'f log_writer" where
  "make_Writer dest dest_length = \<lparr>lw_dest = dest, lw_block_offset = dest_length mod kBlockSize\<rparr>"

text \<open>The checksums of the one-byte strings that hold a record type, computed in advance.\<close>

definition type_crc :: "RecordType \<Rightarrow> 32 word" where
  "type_crc t = crc_Value 0 [word_of_nat (record_code t)]"

text \<open>
  The two assertions of the source are the guard; the data is at the address \<open>a\<close>. The status and
  the file after the two appends and the flush.
\<close>

definition EmitPhysicalRecord ::
  "('f \<Rightarrow> byte list \<Rightarrow> Status \<times> 'f) \<Rightarrow> ('f \<Rightarrow> Status \<times> 'f) \<Rightarrow> addr \<Rightarrow> 'f \<Rightarrow> nat \<Rightarrow> RecordType \<Rightarrow> byte list \<Rightarrow>
   (Status \<times> 'f \<times> nat) option" where
  "EmitPhysicalRecord app fl a f block_offset t ptr =
     (if length ptr \<le> 0xFFFF \<and> block_offset + kHeaderSize + length ptr \<le> kBlockSize then
        let crc = Mask (Extend a (type_crc t) ptr);
            buf = EncodeFixed32 crc @
              [word_of_nat (length ptr mod 256), word_of_nat (length ptr div 256), word_of_nat (record_code t)];
            (s, f) = app f buf;
            (s, f) = (if ok s then
                        (case app f ptr of (s, f) \<Rightarrow> if ok s then fl f else (s, f))
                      else (s, f))
        in Some (s, f, block_offset + (kHeaderSize + length ptr))
      else None)"

text \<open>
  The loop of \<^verbatim>\<open>AddRecord\<close>. The status of the append that fills the trailer of a block is not looked
  at. A block with room for just a header gets an empty first fragment.
\<close>

definition new_block :: "('f \<Rightarrow> byte list \<Rightarrow> Status \<times> 'f) \<Rightarrow> 'f \<Rightarrow> nat \<Rightarrow> 'f \<times> nat" where
  "new_block app f block_offset =
     (let leftover = kBlockSize - block_offset in
      if leftover < kHeaderSize then
        (if leftover > 0 then snd (app f (replicate leftover 0)) else f, 0)
      else (f, block_offset))"

definition fragment_type :: "bool \<Rightarrow> bool \<Rightarrow> RecordType" where
  "fragment_type first final =
     (if first \<and> final then kFullType else if first then kFirstType else if final then kLastType else kMiddleType)"

function add_fragments ::
  "('f \<Rightarrow> byte list \<Rightarrow> Status \<times> 'f) \<Rightarrow> ('f \<Rightarrow> Status \<times> 'f) \<Rightarrow> addr \<Rightarrow> 'f \<Rightarrow> nat \<Rightarrow> bool \<Rightarrow> byte list \<Rightarrow>
   (Status \<times> 'f \<times> nat) option" where
  "add_fragments app fl a f block_offset first ptr =
     (if block_offset > kBlockSize then None
      else case new_block app f block_offset of (f, off) \<Rightarrow>
        let fragment_length = min (length ptr) (kBlockSize - off - kHeaderSize);
            t = fragment_type first (length ptr = fragment_length)
        in (case EmitPhysicalRecord app fl a f off t (take fragment_length ptr) of None \<Rightarrow> None
            | Some (s, f, off') \<Rightarrow>
                if ok s \<and> length ptr > fragment_length
                then add_fragments app fl (a + fragment_length) f off' False (drop fragment_length ptr)
                else Some (s, f, off')))"
  by pat_completeness auto

definition next_offset :: "nat \<Rightarrow> nat" where
  "next_offset off = (if kBlockSize - off < kHeaderSize then 0 else off)"

lemma new_block_offset: "new_block app f off = (f', off') \<Longrightarrow> off' = next_offset off"
  by (auto simp: new_block_def next_offset_def Let_def split: if_splits)

lemma Emit_offset:
  "EmitPhysicalRecord app fl a f off t ptr = Some (s, f', off') \<Longrightarrow>
   off' = off + kHeaderSize + length ptr \<and> off' \<le> kBlockSize"
  by (auto simp: EmitPhysicalRecord_def Let_def split: if_splits prod.splits)

termination add_fragments
proof (relation "measure (\<lambda>(app, fl, a, f, off, first, ptr).
    2 * length ptr + (if kBlockSize - next_offset off = kHeaderSize then 1 else 0))", goal_cases)
  case 1
  then show ?case by simp
next
  case (2 app fl a f off first ptr f1 off1 k t r s rest f2 off2)
  have off1: "off1 = next_offset off" by (rule new_block_offset [of app f off f1]) (use 2 in simp)
  have off2: "off2 = off1 + kHeaderSize + length (take k ptr)" "off2 \<le> kBlockSize"
    using Emit_offset [of app fl a f1 off1 t "take k ptr" s f2 off2] 2 by auto
  have k: "k = min (length ptr) (kBlockSize - off1 - kHeaderSize)" "k < length ptr" using 2 by auto
  show ?case
  proof (cases "k = 0")
    case True
    then have "kBlockSize - off1 - kHeaderSize = 0" using k by (cases "kBlockSize - off1 - kHeaderSize") auto
    then have off1': "off1 + kHeaderSize = kBlockSize" using off2 True by simp
    then have "next_offset off2 = 0" using off2 True by (simp add: next_offset_def kHeaderSize_def)
    with True off1 off1' show ?thesis by (simp add: kBlockSize_def kHeaderSize_def)
  next
    case False
    with k(2) have "2 * length (drop k ptr) + 1 < 2 * length ptr" by simp
    then show ?thesis by simp
  qed
qed

definition AddRecord ::
  "('f \<Rightarrow> byte list \<Rightarrow> Status \<times> 'f) \<Rightarrow> ('f \<Rightarrow> Status \<times> 'f) \<Rightarrow> addr \<Rightarrow> 'f log_writer \<Rightarrow> slice \<Rightarrow>
   (Status \<times> 'f log_writer) option" where
  "AddRecord app fl a w data =
     map_option (\<lambda>(s, f, off). (s, \<lparr>lw_dest = f, lw_block_offset = off\<rparr>))
       (add_fragments app fl a (lw_dest w) (lw_block_offset w) True data)"

declare add_fragments.simps [simp del]

subsection \<open>Reader\<close>

text \<open>
  The reader's state. \<open>lr_drops\<close> are the reports made to the reporter so far, \<open>None\<close> without a
  reporter. Offsets are 64-bit words, as in the source.
\<close>

record 'f log_reader =
  lr_file :: 'f
  lr_checksum :: bool
  lr_drops :: "(nat \<times> Status) list option"
  lr_buffer :: "byte list"
  lr_eof :: bool
  lr_last_record_offset :: "64 word"
  lr_end_of_buffer_offset :: "64 word"
  lr_initial_offset :: "64 word"
  lr_resyncing :: bool

definition make_Reader :: "'f \<Rightarrow> bool \<Rightarrow> bool \<Rightarrow> 64 word \<Rightarrow> 'f log_reader" where
  "make_Reader file reporter checksum initial =
     \<lparr>lr_file = file, lr_checksum = checksum, lr_drops = (if reporter then Some [] else None),
      lr_buffer = [], lr_eof = False, lr_last_record_offset = 0, lr_end_of_buffer_offset = 0,
      lr_initial_offset = initial, lr_resyncing = (initial > 0)\<rparr>"

definition kEof :: nat where
  "kEof = kMaxRecordType + 1"

definition kBadRecord :: nat where
  "kBadRecord = kMaxRecordType + 2"

definition ReportDrop :: "nat \<Rightarrow> Status \<Rightarrow> 'f log_reader \<Rightarrow> 'f log_reader" where
  "ReportDrop n reason r =
     (case lr_drops r of None \<Rightarrow> r
      | Some ds \<Rightarrow>
          if lr_end_of_buffer_offset r - word_of_nat (length (lr_buffer r)) - word_of_nat n \<ge> lr_initial_offset r
          then r\<lparr>lr_drops := Some (ds @ [(n, reason)])\<rparr> else r)"

definition ReportCorruption :: "nat \<Rightarrow> string \<Rightarrow> 'f log_reader \<Rightarrow> 'f log_reader" where
  "ReportCorruption n reason r = ReportDrop n (Corruption reason []) r"

definition SkipToInitialBlock ::
  "('f \<Rightarrow> nat \<Rightarrow> Status \<times> 'f) \<Rightarrow> 'f log_reader \<Rightarrow> bool \<times> 'f log_reader" where
  "SkipToInitialBlock skip r =
     (let initial = unat (lr_initial_offset r);
          offset_in_block = initial mod kBlockSize;
          block_start = word_of_nat (initial - offset_in_block) +
            (if offset_in_block > kBlockSize - 6 then word_of_nat kBlockSize else 0) :: 64 word;
          r = r\<lparr>lr_end_of_buffer_offset := block_start\<rparr>
      in if block_start > 0 then
           (case skip (lr_file r) (unat block_start) of (s, f) \<Rightarrow>
              let r = r\<lparr>lr_file := f\<rparr> in
              if \<not> ok s then (False, ReportDrop (unat block_start) s r) else (True, r))
         else (True, r))"

text \<open>\<^verbatim>\<open>const unsigned int type = header[6];\<close> converts a signed character.\<close>

definition char_to_unsigned :: "byte \<Rightarrow> nat" where
  "char_to_unsigned b = (if unat b < 128 then unat b else 2 ^ 32 - 256 + unat b)"

text \<open>The part of \<^verbatim>\<open>ReadPhysicalRecord\<close> behind the refill of the buffer, which now holds a header.\<close>

definition parse_record :: "addr \<Rightarrow> 'f log_reader \<Rightarrow> nat \<times> slice \<times> 'f log_reader" where
  "parse_record a r =
     (let header = lr_buffer r;
          len = unat (header ! 4) + 256 * unat (header ! 5);
          t = char_to_unsigned (header ! 6)
      in if kHeaderSize + len > length header then
           (let r = r\<lparr>lr_buffer := []\<rparr> in
            if \<not> lr_eof r then (kBadRecord, [], ReportCorruption (length header) ''bad record length'' r)
            else (kEof, [], r))
         else if t = record_code kZeroType \<and> len = 0 then (kBadRecord, [], r\<lparr>lr_buffer := []\<rparr>)
         else if lr_checksum r \<and>
           crc_Value (a + 6) (take (1 + len) (drop 6 header)) \<noteq> Unmask (word_of_nat (le_nat (take 4 header)))
         then (kBadRecord, [], ReportCorruption (length header) ''checksum mismatch'' (r\<lparr>lr_buffer := []\<rparr>))
         else let r = r\<lparr>lr_buffer := drop (kHeaderSize + len) header\<rparr> in
           if lr_end_of_buffer_offset r - word_of_nat (length (lr_buffer r)) - word_of_nat kHeaderSize
                - word_of_nat len < lr_initial_offset r
           then (kBadRecord, [], r)
           else (t, take len (drop kHeaderSize header), r))"

text \<open>
  The loop of \<^verbatim>\<open>ReadPhysicalRecord\<close>: it goes round again after a refill, at most twice, since a refill
  that brings less than a header also sets \<^verbatim>\<open>eof_\<close>. Results other than a type carry no fragment. The
  addresses of the buffers only matter to the checksum, whose value does not depend on them.
\<close>

function ReadPhysicalRecord ::
  "('f \<Rightarrow> nat \<Rightarrow> Status \<times> byte list \<times> 'f) \<Rightarrow> addr \<Rightarrow> 'f log_reader \<Rightarrow> nat \<times> slice \<times> 'f log_reader" where
  "ReadPhysicalRecord read a r =
     (if length (lr_buffer r) < kHeaderSize then
        (if \<not> lr_eof r then
           (case read (lr_file r) kBlockSize of (s, buf, f) \<Rightarrow>
              let r = r\<lparr>lr_buffer := buf, lr_file := f,
                        lr_end_of_buffer_offset := lr_end_of_buffer_offset r + word_of_nat (length buf)\<rparr>
              in if \<not> ok s then (kEof, [], (ReportDrop kBlockSize s (r\<lparr>lr_buffer := []\<rparr>))\<lparr>lr_eof := True\<rparr>)
                 else ReadPhysicalRecord read a (if length buf < kBlockSize then r\<lparr>lr_eof := True\<rparr> else r))
         else (kEof, [], r\<lparr>lr_buffer := []\<rparr>))
      else parse_record a r)"
  by pat_completeness auto
termination
  by (relation "measure (\<lambda>(read, a, r). if length (lr_buffer r) < kHeaderSize then if lr_eof r then 1 else 2 else 0)")
    (auto simp: kBlockSize_def kHeaderSize_def)

declare ReadPhysicalRecord.simps [simp del]

text \<open>
  The loop of \<^verbatim>\<open>ReadRecord\<close> over physical records, with fuel: \<open>None\<close> is a run that needs more rounds.
\<close>

record read_state =
  rs_in_fragmented_record :: bool
  rs_scratch :: "byte list"
  rs_prospective :: "64 word"

definition after_resync :: "nat \<Rightarrow> 'f log_reader \<Rightarrow> bool \<times> 'f log_reader" where
  "after_resync t r =
     (if lr_resyncing r then
        if t = record_code kMiddleType then (True, r)
        else if t = record_code kLastType then (True, r\<lparr>lr_resyncing := False\<rparr>)
        else (False, r\<lparr>lr_resyncing := False\<rparr>)
      else (False, r))"

text \<open>A fragment starts a new logical record while another is open.\<close>

definition report_partial :: "string \<Rightarrow> read_state \<Rightarrow> 'f log_reader \<Rightarrow> 'f log_reader" where
  "report_partial msg st r =
     (if rs_in_fragmented_record st \<and> rs_scratch st \<noteq> []
      then ReportCorruption (length (rs_scratch st)) msg r else r)"

datatype 'f record_outcome =
    Returned bool slice "'f log_reader"
  | Goes_on read_state "'f log_reader"

definition record_step :: "nat \<Rightarrow> slice \<Rightarrow> 64 word \<Rightarrow> read_state \<Rightarrow> 'f log_reader \<Rightarrow> 'f record_outcome" where
  "record_step t fragment offset st r =
     (if t = record_code kFullType then
        Returned True fragment
          ((report_partial ''partial record without end(1)'' st r)\<lparr>lr_last_record_offset := offset\<rparr>)
      else if t = record_code kFirstType then
        Goes_on \<lparr>rs_in_fragmented_record = True, rs_scratch = fragment, rs_prospective = offset\<rparr>
          (report_partial ''partial record without end(2)'' st r)
      else if t = record_code kMiddleType then
        (if \<not> rs_in_fragmented_record st
         then Goes_on st (ReportCorruption (length fragment) ''missing start of fragmented record(1)'' r)
         else Goes_on (st\<lparr>rs_scratch := rs_scratch st @ fragment\<rparr>) r)
      else if t = record_code kLastType then
        (if \<not> rs_in_fragmented_record st
         then Goes_on st (ReportCorruption (length fragment) ''missing start of fragmented record(2)'' r)
         else Returned True (rs_scratch st @ fragment) (r\<lparr>lr_last_record_offset := rs_prospective st\<rparr>))
      else if t = kEof then Returned False [] r
      else if t = kBadRecord then
        (if rs_in_fragmented_record st
         then Goes_on (st\<lparr>rs_in_fragmented_record := False, rs_scratch := []\<rparr>)
                (ReportCorruption (length (rs_scratch st)) ''error in middle of record'' r)
         else Goes_on st r)
      else Goes_on (st\<lparr>rs_in_fragmented_record := False, rs_scratch := []\<rparr>)
             (ReportCorruption
               (length fragment + (if rs_in_fragmented_record st then length (rs_scratch st) else 0))
               (''unknown record type '' @ decimal t) r))"

fun read_loop ::
  "nat \<Rightarrow> ('f \<Rightarrow> nat \<Rightarrow> Status \<times> byte list \<times> 'f) \<Rightarrow> addr \<Rightarrow> read_state \<Rightarrow> 'f log_reader \<Rightarrow>
   (bool \<times> slice \<times> 'f log_reader) option" where
  "read_loop 0 read a st r = None"
| "read_loop (Suc n) read a st r =
     (case ReadPhysicalRecord read a r of (t, fragment, r) \<Rightarrow>
        let offset = lr_end_of_buffer_offset r - word_of_nat (length (lr_buffer r)) - word_of_nat kHeaderSize
              - word_of_nat (length fragment)
        in (case after_resync t r of (again, r) \<Rightarrow>
              if again then read_loop n read a st r
              else (case record_step t fragment offset st r of
                      Returned res result r \<Rightarrow> Some (res, result, r)
                    | Goes_on st r \<Rightarrow> read_loop n read a st r)))"

definition ReadRecord ::
  "nat \<Rightarrow> ('f \<Rightarrow> nat \<Rightarrow> Status \<times> byte list \<times> 'f) \<Rightarrow> ('f \<Rightarrow> nat \<Rightarrow> Status \<times> 'f) \<Rightarrow> addr \<Rightarrow> 'f log_reader \<Rightarrow>
   (bool \<times> slice \<times> 'f log_reader) option" where
  "ReadRecord n read skip a r =
     (let (ready, r) =
        (if lr_last_record_offset r < lr_initial_offset r then SkipToInitialBlock skip r else (True, r))
      in if \<not> ready then Some (False, [], r)
         else read_loop n read a \<lparr>rs_in_fragmented_record = False, rs_scratch = [], rs_prospective = 0\<rparr> r)"

end
