(* ===== verification/Ldb_Log_Spec.thy ===== *)
theory Ldb_Log_Spec
  imports Ldb_Log
begin

text \<open>
  The log as a byte string, and that the writer produces it and the reader takes it apart again.
\<close>

subsection \<open>The bytes of a record\<close>

definition phys :: "RecordType \<Rightarrow> byte list \<Rightarrow> byte list" where
  "phys t d =
     EncodeFixed32 (Mask (crc32c_spec 0 (word_of_nat (record_code t) # d))) @
     [word_of_nat (length d mod 256), word_of_nat (length d div 256), word_of_nat (record_code t)] @ d"

lemma length_phys [simp]: "length (phys t d) = kHeaderSize + length d"
  by (simp add: phys_def kHeaderSize_def)

text \<open>The bytes the writer appends for a record at an offset in a block, and the offset behind them.\<close>

definition pad :: "nat \<Rightarrow> byte list" where
  "pad off = (if kBlockSize - off < kHeaderSize then replicate (kBlockSize - off) 0 else [])"

definition frag :: "nat \<Rightarrow> byte list \<Rightarrow> nat" where
  "frag off ptr = min (length ptr) (kBlockSize - next_offset off - kHeaderSize)"

lemma next_offset_le: "off \<le> kBlockSize \<Longrightarrow> next_offset off + kHeaderSize \<le> kBlockSize"
  by (auto simp: next_offset_def kBlockSize_def kHeaderSize_def)

lemma next_offset_progress:
  assumes "frag off ptr < length ptr" "frag off ptr = 0"
  shows "kBlockSize - next_offset off \<le> kHeaderSize"
  using assms by (auto simp: frag_def)

function log_record :: "bool \<Rightarrow> nat \<Rightarrow> byte list \<Rightarrow> byte list \<times> nat" where
  "log_record first off ptr =
     (let k = frag off ptr; off' = next_offset off + kHeaderSize + k;
          bs = pad off @ phys (fragment_type first (length ptr = k)) (take k ptr)
      in if length ptr > k then (case log_record False off' (drop k ptr) of (bs', off'') \<Rightarrow> (bs @ bs', off''))
         else (bs, off'))"
  by pat_completeness auto
termination
proof (relation "measure (\<lambda>(first, off, ptr).
    2 * length ptr + (if kBlockSize - next_offset off \<le> kHeaderSize then 1 else 0))", goal_cases)
  case (2 first off ptr k off' bs)
  have k: "k < length ptr" "k = frag off ptr" "off' = next_offset off + kHeaderSize + k" using 2 by auto
  show ?case
  proof (cases "k = 0")
    case True
    then have le: "kBlockSize - next_offset off \<le> kHeaderSize" using k next_offset_progress by simp
    with True k have "next_offset off' = 0" by (simp add: next_offset_def kBlockSize_def kHeaderSize_def)
    with le True show ?thesis by (simp add: kBlockSize_def kHeaderSize_def)
  next
    case False
    with k(1) have "2 * length (drop k ptr) + 1 < 2 * length ptr" by simp
    then show ?thesis by simp
  qed
qed simp

declare log_record.simps [simp del]

fun log_bytes :: "nat \<Rightarrow> byte list list \<Rightarrow> byte list" where
  "log_bytes off [] = []"
| "log_bytes off (d # ds) = (case log_record True off d of (bs, off') \<Rightarrow> bs @ log_bytes off' ds)"

text \<open>
  The callers' loops: records are added until one fails, and read until there is none.
\<close>

fun write_records ::
  "('f \<Rightarrow> byte list \<Rightarrow> Status \<times> 'f) \<Rightarrow> ('f \<Rightarrow> Status \<times> 'f) \<Rightarrow> addr \<Rightarrow> 'f log_writer \<Rightarrow> slice list \<Rightarrow>
   (Status \<times> 'f log_writer) option" where
  "write_records app fl a w [] = Some (OK, w)"
| "write_records app fl a w (d # ds) =
     (case AddRecord app fl a w d of None \<Rightarrow> None
      | Some (s, w) \<Rightarrow> if ok s then write_records app fl a w ds else Some (s, w))"

fun read_records ::
  "nat \<Rightarrow> nat \<Rightarrow> ('f \<Rightarrow> nat \<Rightarrow> Status \<times> byte list \<times> 'f) \<Rightarrow> ('f \<Rightarrow> nat \<Rightarrow> Status \<times> 'f) \<Rightarrow> addr \<Rightarrow> 'f log_reader \<Rightarrow>
   (slice list \<times> 'f log_reader) option" where
  "read_records 0 fuel read skip a r = None"
| "read_records (Suc n) fuel read skip a r =
     (case ReadRecord fuel read skip a r of None \<Rightarrow> None
      | Some (True, d, r) \<Rightarrow> map_option (\<lambda>(ds, r). (d # ds, r)) (read_records n fuel read skip a r)
      | Some (False, _, r) \<Rightarrow> Some ([], r))"

subsection \<open>The writer\<close>

lemma Extend_type_crc: "Extend a (type_crc t) d = crc32c_spec 0 (word_of_nat (record_code t) # d)"
  by (simp add: type_crc_def crc_Value_def Extend_eq crc32c_spec_append)

context writable_file
begin

lemma Emit_healthy:
  assumes "healthy f" "off + kHeaderSize + length d \<le> kBlockSize"
  shows "\<exists>f'. EmitPhysicalRecord append flush a f off t d = Some (OK, f', off + kHeaderSize + length d) \<and>
    healthy f' \<and> contents f' = contents f @ phys t d \<and> durable f' = contents f'"
proof -
  let ?h = "EncodeFixed32 (Mask (Extend a (type_crc t) d)) @
    [word_of_nat (length d mod 256), word_of_nat (length d div 256), word_of_nat (record_code t)]"
  obtain f1 where 1: "append f ?h = (OK, f1)" "healthy f1" "contents f1 = contents f @ ?h"
    using append_healthy [OF assms(1), of ?h] by blast
  obtain f2 where 2: "append f1 d = (OK, f2)" "healthy f2" "contents f2 = contents f1 @ d"
    using append_healthy [OF 1(2), of d] by blast
  obtain f3 where 3: "flush f2 = (OK, f3)" "healthy f3" "contents f3 = contents f2" "durable f3 = contents f2"
    using flush_healthy [OF 2(2)] by blast
  have "length d \<le> 0xFFFF" using assms(2) by (simp add: kBlockSize_def)
  with 1 2 3 assms(2) show ?thesis
    by (auto simp: EmitPhysicalRecord_def Let_def ok_def phys_def Extend_type_crc)
qed

lemma new_block_healthy:
  assumes "healthy f"
  shows "\<exists>f'. new_block append f off = (f', next_offset off) \<and> healthy f' \<and> contents f' = contents f @ pad off"
  using append_healthy [OF assms, of "replicate (kBlockSize - off) 0"] assms
  by (auto simp: new_block_def next_offset_def pad_def Let_def)

lemma add_fragments_healthy:
  assumes "healthy f" "off \<le> kBlockSize" "log_record first off ptr = (bs, off')"
  shows "\<exists>f'. add_fragments append flush a f off first ptr = Some (OK, f', off') \<and>
    healthy f' \<and> contents f' = contents f @ bs \<and> durable f' = contents f' \<and> off' \<le> kBlockSize"
  using assms
proof (induction first off ptr arbitrary: a f bs rule: log_record.induct)
  case (1 first off ptr)
  let ?k = "frag off ptr" and ?o = "next_offset off"
  let ?t = "fragment_type first (length ptr = ?k)" and ?off = "next_offset off + kHeaderSize + frag off ptr"
  let ?bs = "pad off @ phys ?t (take ?k ptr)"
  obtain f1 where f1: "new_block append f off = (f1, ?o)" "healthy f1" "contents f1 = contents f @ pad off"
    using new_block_healthy [OF "1.prems"(1)] by blast
  have k: "?o + kHeaderSize + length (take ?k ptr) \<le> kBlockSize"
    using next_offset_le [OF "1.prems"(2)] by (simp add: frag_def)
  obtain f2 where f2: "EmitPhysicalRecord append flush a f1 ?o ?t (take ?k ptr) = Some (OK, f2, ?off)"
    "healthy f2" "contents f2 = contents f1 @ phys ?t (take ?k ptr)" "durable f2 = contents f2"
    using Emit_healthy [OF f1(2) k, of a ?t] by (auto simp: frag_def)
  have step: "add_fragments append flush a f off first ptr =
    (if length ptr > ?k then add_fragments append flush (a + ?k) f2 ?off False (drop ?k ptr) else Some (OK, f2, ?off))"
    using "1.prems"(2) f1 f2 by (subst add_fragments.simps) (simp add: Let_def frag_def ok_def)
  have off: "?off \<le> kBlockSize" using k by (simp add: frag_def)
  show ?case
  proof (cases "length ptr > ?k")
    case True
    obtain bs' where rec: "log_record False ?off (drop ?k ptr) = (bs', off')" "bs = ?bs @ bs'"
      using "1.prems"(3) True by (subst (asm) log_record.simps) (auto simp: Let_def split: prod.splits)
    from "1.IH" [OF refl refl refl True f2(2) off rec(1)] obtain f3 where
      "add_fragments append flush (a + ?k) f2 ?off False (drop ?k ptr) = Some (OK, f3, off')" "healthy f3"
      "contents f3 = contents f2 @ bs'" "durable f3 = contents f3" "off' \<le> kBlockSize" by blast
    with True step rec(2) f1 f2 show ?thesis by simp
  next
    case False
    with "1.prems"(3) have "bs = ?bs" "off' = ?off" by (subst (asm) log_record.simps, simp add: Let_def)+
    with False step f1 f2 off show ?thesis by simp
  qed
qed

lemma write_records_healthy:
  assumes "healthy (lw_dest w)" "lw_block_offset w \<le> kBlockSize" "durable (lw_dest w) = contents (lw_dest w)"
  shows "\<exists>w'. write_records append flush a w ds = Some (OK, w') \<and> healthy (lw_dest w') \<and>
    contents (lw_dest w') = contents (lw_dest w) @ log_bytes (lw_block_offset w) ds \<and>
    durable (lw_dest w') = contents (lw_dest w')"
  using assms
proof (induction ds arbitrary: w)
  case (Cons d ds)
  obtain bs off where rec: "log_record True (lw_block_offset w) d = (bs, off)" by fastforce
  from add_fragments_healthy [OF Cons.prems(1,2) rec, of a] obtain f where f:
    "add_fragments append flush a (lw_dest w) (lw_block_offset w) True d = Some (OK, f, off)"
    "healthy f" "contents f = contents (lw_dest w) @ bs" "durable f = contents f" "off \<le> kBlockSize" by blast
  with Cons.IH [of "\<lparr>lw_dest = f, lw_block_offset = off\<rparr>"] rec show ?case
    by (auto simp: AddRecord_def ok_def)
qed simp

end

subsection \<open>The reader\<close>

text \<open>
  A header is read back as it was written, also when the record behind it is cut short.
\<close>

lemma header_of_phys:
  assumes "length d < 65536" "kHeaderSize \<le> m"
  shows "unat (take m (phys t d @ Z) ! 4) + 256 * unat (take m (phys t d @ Z) ! 5) = length d"
    "take m (phys t d @ Z) ! 6 = word_of_nat (record_code t)"
    "Unmask (word_of_nat (le_nat (take 4 (take m (phys t d @ Z))))) = crc32c_spec 0 (word_of_nat (record_code t) # d)"
proof -
  have 4: "take 4 (take m (phys t d @ Z)) = EncodeFixed32 (Mask (crc32c_spec 0 (word_of_nat (record_code t) # d)))"
    using assms(2) by (simp add: phys_def kHeaderSize_def min_def)
  show "Unmask (word_of_nat (le_nat (take 4 (take m (phys t d @ Z))))) = crc32c_spec 0 (word_of_nat (record_code t) # d)"
    using unat_u32_less unfolding 4 by (simp add: EncodeFixed32_def le_nat_nat_le)
  show "unat (take m (phys t d @ Z) ! 4) + 256 * unat (take m (phys t d @ Z) ! 5) = length d"
    "take m (phys t d @ Z) ! 6 = word_of_nat (record_code t)"
    using assms by (simp_all add: phys_def kHeaderSize_def nth_append unat_of_nat take_bit_eq_mod)
qed

lemma record_code_bounds [simp]: "record_code t < 5" "char_to_unsigned (word_of_nat (record_code t)) = record_code t"
  by (cases t; simp add: record_code_def char_to_unsigned_def)+

text \<open>How much of a full block the buffer holds when the writer was at an offset of its block.\<close>

definition aligned :: "nat \<Rightarrow> nat \<Rightarrow> bool" where
  "aligned off n \<longleftrightarrow> off \<le> kBlockSize \<and> (n = kBlockSize - off \<or> n = 0 \<and> off = 0)"

lemma aligned_full:
  assumes "aligned off n" "\<not> n < kHeaderSize"
  shows "pad off = []" "next_offset off = off" "n = kBlockSize - off"
  using assms by (auto simp: aligned_def pad_def next_offset_def kHeaderSize_def)

lemma aligned_short:
  assumes "aligned off n" "n < kHeaderSize"
  shows "length (pad off) = n" "next_offset off = 0"
  using assms by (auto simp: aligned_def pad_def next_offset_def kHeaderSize_def kBlockSize_def)

text \<open>What a fragment of the writer does to the state of the reader's loop.\<close>

definition opened :: "bool \<Rightarrow> byte list \<Rightarrow> 64 word \<Rightarrow> read_state \<Rightarrow> read_state" where
  "opened first d offset st =
     (if first then \<lparr>rs_in_fragmented_record = True, rs_scratch = d, rs_prospective = offset\<rparr>
      else st\<lparr>rs_scratch := rs_scratch st @ d\<rparr>)"

lemma record_step_fragment:
  assumes "rs_in_fragmented_record st \<longleftrightarrow> \<not> first" "first \<Longrightarrow> rs_scratch st = []"
  shows "record_step (record_code (fragment_type first False)) d offset st r = Goes_on (opened first d offset st) r"
    "record_step (record_code (fragment_type first True)) d offset st r = Returned True (rs_scratch st @ d)
      (r\<lparr>lr_last_record_offset := (if first then offset else rs_prospective st)\<rparr>)"
    "rs_in_fragmented_record (opened first d offset st)" "rs_scratch (opened first d offset st) = rs_scratch st @ d"
  using assms by (auto simp: fragment_type_def record_step_def record_code_def report_partial_def opened_def)

lemma log_record_cases:
  assumes "log_record first off ptr = (bs, off')"
  obtains bs' where "length ptr > frag off ptr"
      "bs = pad off @ phys (fragment_type first False) (take (frag off ptr) ptr) @ bs'"
      "log_record False (next_offset off + kHeaderSize + frag off ptr) (drop (frag off ptr) ptr) = (bs', off')"
    | "length ptr = frag off ptr" "bs = pad off @ phys (fragment_type first True) ptr"
      "off' = next_offset off + kHeaderSize + length ptr"
proof (cases "length ptr > frag off ptr")
  case True
  with assms that(1) show ?thesis
    by (subst (asm) log_record.simps) (auto simp: Let_def split: prod.splits if_splits)
next
  case False
  then have eq: "length ptr = frag off ptr" by (simp add: frag_def)
  with assms that(2) show ?thesis by (subst (asm) log_record.simps) (simp add: Let_def)
qed

lemma frag_fits:
  assumes "aligned off n"
  shows "next_offset off + kHeaderSize + length (take (frag off ptr) ptr) \<le> kBlockSize"
    "length (take (frag off ptr) ptr) = frag off ptr"
  using next_offset_le [of off] assms by (auto simp: frag_def aligned_def)

context sequential_file
begin

text \<open>
  The reader stands before the bytes \<open>X\<close>, of which its buffer has at most the \<open>n\<close> that belong to the
  current block; only a short block has set the flag for the end of the file.
\<close>

definition reader_at :: "nat \<Rightarrow> byte list \<Rightarrow> 'f log_reader \<Rightarrow> bool" where
  "reader_at n X r \<longleftrightarrow> healthy (lr_file r) \<and> lr_buffer r = take n X \<and> remaining (lr_file r) = drop n X \<and>
     lr_eof r = (length X < n) \<and> lr_initial_offset r = 0 \<and> \<not> lr_resyncing r"

lemma refill:
  assumes "reader_at n X r" "n < kHeaderSize" "n \<le> length X"
  shows "\<exists>r'. ReadPhysicalRecord read a r = ReadPhysicalRecord read a r' \<and> reader_at kBlockSize (drop n X) r' \<and>
    lr_drops r' = lr_drops r"
proof -
  obtain f where f: "read (lr_file r) kBlockSize = (OK, take kBlockSize (drop n X), f)" "healthy f"
    "remaining f = drop kBlockSize (drop n X)"
    using read_healthy [of "lr_file r" kBlockSize] assms(1) by (auto simp: reader_at_def)
  have short: "length (lr_buffer r) < kHeaderSize" "\<not> lr_eof r" using assms by (auto simp: reader_at_def)
  let ?r = "r\<lparr>lr_buffer := take kBlockSize (drop n X), lr_file := f,
    lr_end_of_buffer_offset := lr_end_of_buffer_offset r + word_of_nat (length (take kBlockSize (drop n X))),
    lr_eof := length (drop n X) < kBlockSize\<rparr>"
  have "ReadPhysicalRecord read a r = ReadPhysicalRecord read a ?r"
    using short f(1) by (subst ReadPhysicalRecord.simps) (auto simp: Let_def ok_def intro!: arg_cong [of _ _ "ReadPhysicalRecord read a"])
  with assms f show ?thesis by (auto simp: reader_at_def)
qed

lemma read_phys:
  assumes r: "reader_at n (phys t d @ Z) r" and n: "kHeaderSize + length d \<le> n" and d: "length d < 65536"
    and t: "t \<noteq> kZeroType"
  shows "\<exists>r'. ReadPhysicalRecord read a r = (record_code t, d, r') \<and>
    reader_at (n - (kHeaderSize + length d)) Z r' \<and> lr_drops r' = lr_drops r"
proof -
  have buf: "lr_buffer r = take n (phys t d @ Z)" and r': "lr_initial_offset r = 0" using r by (auto simp: reader_at_def)
  have h: "kHeaderSize \<le> n" using n by simp
  have len: "length (lr_buffer r) \<ge> kHeaderSize + length d" using n by (simp add: buf)
  have crc: "take (Suc (length d)) (drop 6 (lr_buffer r)) = word_of_nat (record_code t) # d"
    using n by (simp add: buf phys_def kHeaderSize_def drop_take min_absorb1 min_absorb2 take_Cons')
  have data: "take (length d) (drop kHeaderSize (lr_buffer r)) = d"
    using n by (simp add: buf phys_def kHeaderSize_def drop_take min_absorb1 min_absorb2 take_Cons')
  have t0: "record_code t \<noteq> record_code kZeroType" using t by (cases t) (simp_all add: record_code_def)
  let ?r = "r\<lparr>lr_buffer := drop (kHeaderSize + length d) (lr_buffer r)\<rparr>"
  have "parse_record a r = (record_code t, d, ?r)"
    using len data t0 header_of_phys [OF d h, of t Z, folded buf] r' crc
    by (simp add: parse_record_def Let_def crc_Value_def Extend_eq)
  then have "ReadPhysicalRecord read a r = (record_code t, d, ?r)"
    using len by (subst ReadPhysicalRecord.simps) simp
  moreover have "reader_at (n - (kHeaderSize + length d)) Z ?r"
    using r n by (auto simp: reader_at_def drop_take)
  ultimately show ?thesis by auto
qed

lemma read_cut_phys:
  assumes r: "reader_at n (take m (phys t d)) r" and n: "kHeaderSize + length d \<le> n" and d: "length d < 65536"
    and m: "m < kHeaderSize + length d"
  shows "\<exists>r'. ReadPhysicalRecord read a r = (kEof, [], r') \<and> lr_drops r' = lr_drops r \<and> \<not> lr_resyncing r'"
proof -
  have buf: "lr_buffer r = take m (phys t d)" and r': "lr_eof r" "\<not> lr_resyncing r"
    using r n m by (auto simp: reader_at_def)
  show ?thesis
  proof (cases "m < kHeaderSize")
    case True
    with buf r' show ?thesis by (subst ReadPhysicalRecord.simps) simp
  next
    case False
    with buf r' m header_of_phys [OF d, of m t "[]"] show ?thesis
      by (subst ReadPhysicalRecord.simps) (simp add: parse_record_def Let_def)
  qed
qed

lemma read_fragment:
  assumes r: "reader_at n (pad off @ phys t d @ Z) r" and off: "aligned off n"
    and d: "next_offset off + kHeaderSize + length d \<le> kBlockSize" and t: "t \<noteq> kZeroType"
  shows "\<exists>r' n'. ReadPhysicalRecord read a r = (record_code t, d, r') \<and> reader_at n' Z r' \<and>
    aligned (next_offset off + kHeaderSize + length d) n' \<and> lr_drops r' = lr_drops r"
proof -
  have len: "length d < 65536" using d by (simp add: kBlockSize_def)
  show ?thesis
  proof (cases "n < kHeaderSize")
    case True
    note short = aligned_short [OF off True]
    obtain r1 where r1: "ReadPhysicalRecord read a r = ReadPhysicalRecord read a r1"
      "reader_at kBlockSize (phys t d @ Z) r1" "lr_drops r1 = lr_drops r"
      using refill [OF r True, of a] short(1) by auto
    from read_phys [OF r1(2) _ len t] d short(2) r1 show ?thesis by (fastforce simp: aligned_def)
  next
    case False
    note full = aligned_full [OF off False]
    have "reader_at n (phys t d @ Z) r" "kHeaderSize + length d \<le> n" using r full d by auto
    from read_phys [OF this len t, of a] full d show ?thesis by (fastforce simp: aligned_def)
  qed
qed

lemma read_cut_fragment:
  assumes r: "reader_at n (take m (pad off @ phys t d)) r" and off: "aligned off n"
    and d: "next_offset off + kHeaderSize + length d \<le> kBlockSize"
    and m: "m < length (pad off) + kHeaderSize + length d"
  shows "\<exists>r'. ReadPhysicalRecord read a r = (kEof, [], r') \<and> lr_drops r' = lr_drops r \<and> \<not> lr_resyncing r'"
proof -
  have len: "length d < 65536" using d by (simp add: kBlockSize_def)
  consider "\<not> n < kHeaderSize" | "n < kHeaderSize" "m < n" | "n < kHeaderSize" "n \<le> m" by linarith
  then show ?thesis
  proof cases
    case 1
    note full = aligned_full [OF off 1]
    have "reader_at n (take m (phys t d)) r" "kHeaderSize + length d \<le> n" "m < kHeaderSize + length d"
      using r full d m by auto
    from read_cut_phys [OF this(1,2) len this(3)] show ?thesis .
  next
    case 2
    note short = aligned_short [OF off 2(1)]
    have "lr_eof r" "length (lr_buffer r) < kHeaderSize" "\<not> lr_resyncing r"
      using r 2 short(1) by (auto simp: reader_at_def)
    then show ?thesis by (subst ReadPhysicalRecord.simps) simp
  next
    case 3
    note short = aligned_short [OF off 3(1)]
    obtain r1 where r1: "ReadPhysicalRecord read a r = ReadPhysicalRecord read a r1"
      "reader_at kBlockSize (take (m - n) (phys t d)) r1" "lr_drops r1 = lr_drops r"
      using refill [OF r 3(1), of a] short(1) 3(2) m by auto
    from read_cut_phys [OF r1(2) _ len, of a] d m short r1 3 show ?thesis by fastforce
  qed
qed

lemma read_loop_step:
  assumes "ReadPhysicalRecord read a r = (t, d, r')" "\<not> lr_resyncing r'"
  shows "\<exists>offset. read_loop (Suc fuel) read a st r = (case record_step t d offset st r' of
      Returned res result r \<Rightarrow> Some (res, result, r) | Goes_on st r \<Rightarrow> read_loop fuel read a st r)"
  using assms by (auto simp: after_resync_def Let_def)

lemma read_record:
  assumes "log_record first off ptr = (bs, off')" "reader_at n (bs @ Z) r" "aligned off n"
    "rs_in_fragmented_record st \<longleftrightarrow> \<not> first" "first \<Longrightarrow> rs_scratch st = []" "length bs \<le> fuel"
  shows "\<exists>r' n'. read_loop fuel read a st r = Some (True, rs_scratch st @ ptr, r') \<and> reader_at n' Z r' \<and>
    aligned off' n' \<and> lr_drops r' = lr_drops r"
  using assms
proof (induction first off ptr arbitrary: bs n r st fuel rule: log_record.induct)
  case (1 first off ptr)
  let ?k = "frag off ptr" and ?off = "next_offset off + kHeaderSize + frag off ptr"
  note st = record_step_fragment [OF "1.prems"(4,5)] and k = frag_fits [OF "1.prems"(3), of ptr]
  have t: "fragment_type first final \<noteq> kZeroType" for final by (simp add: fragment_type_def)
  from "1.prems"(1) show ?case
  proof (cases rule: log_record_cases)
    case bs: (1 bs')
    have "reader_at n (pad off @ phys (fragment_type first False) (take ?k ptr) @ bs' @ Z) r" using "1.prems"(2) bs by simp
    from read_fragment [OF this "1.prems"(3) k(1) t, of a] obtain r1 n1 where r1:
      "ReadPhysicalRecord read a r = (record_code (fragment_type first False), take ?k ptr, r1)"
      "reader_at n1 (bs' @ Z) r1" "aligned ?off n1" "lr_drops r1 = lr_drops r" unfolding k(2) by blast
    obtain fuel' where fuel: "fuel = Suc fuel'" "length bs' \<le> fuel'"
      using "1.prems"(6) bs by (cases fuel) (auto simp: kHeaderSize_def)
    obtain offset where "read_loop fuel read a st r = read_loop fuel' read a (opened first (take ?k ptr) offset st) r1"
      using read_loop_step [OF r1(1), of fuel' st] r1(2) fuel(1) by (auto simp: st(1) reader_at_def)
    with "1.IH" [OF refl refl refl bs(1,3) r1(2,3), of "opened first (take ?k ptr) offset st" fuel'] fuel(2) r1(4)
    show ?thesis by (simp add: st(3,4))
  next
    case bs: 2
    then have ptr: "take ?k ptr = ptr" by simp
    have "reader_at n (pad off @ phys (fragment_type first True) ptr @ Z) r" using "1.prems"(2) bs by simp
    from read_fragment [OF this "1.prems"(3) k(1) [unfolded ptr] t, of a] obtain r1 n1 where r1:
      "ReadPhysicalRecord read a r = (record_code (fragment_type first True), ptr, r1)"
      "reader_at n1 Z r1" "aligned off' n1" "lr_drops r1 = lr_drops r" unfolding bs(3) by blast
    obtain fuel' where fuel: "fuel = Suc fuel'"
      using "1.prems"(6) bs by (cases fuel) (auto simp: kHeaderSize_def)
    obtain o' where "read_loop fuel read a st r = Some (True, rs_scratch st @ ptr, r1\<lparr>lr_last_record_offset := o'\<rparr>)"
      using read_loop_step [OF r1(1), of fuel' st] r1(2) fuel(1) by (auto simp: st(2) reader_at_def)
    moreover have "reader_at n1 Z (r1\<lparr>lr_last_record_offset := o'\<rparr>)" using r1(2) by (simp add: reader_at_def)
    ultimately show ?thesis using r1(3,4) by (intro exI [of _ "r1\<lparr>lr_last_record_offset := o'\<rparr>"] exI [of _ n1]) simp
  qed
qed

lemma read_eof:
  assumes "ReadPhysicalRecord read a r = (kEof, [], r')" "lr_drops r' = lr_drops r" "\<not> lr_resyncing r'" "0 < fuel"
  shows "\<exists>r'. read_loop fuel read a st r = Some (False, [], r') \<and> lr_drops r' = lr_drops r"
proof (cases fuel)
  case (Suc n)
  with read_loop_step [OF assms(1,3), of n st] assms(2) show ?thesis
    by (auto simp: record_step_def kEof_def kMaxRecordType_def record_code_def)
qed (use assms(4) in simp)

text \<open>A log that ends inside a record, as a writer that died leaves it, gives the end of the file.\<close>

lemma read_cut_record:
  assumes "log_record first off ptr = (bs, off')" "reader_at n (take m bs) r" "aligned off n"
    "rs_in_fragmented_record st \<longleftrightarrow> \<not> first" "first \<Longrightarrow> rs_scratch st = []" "m < length bs" "m < fuel"
  shows "\<exists>r'. read_loop fuel read a st r = Some (False, [], r') \<and> lr_drops r' = lr_drops r"
  using assms
proof (induction first off ptr arbitrary: bs m n r st fuel rule: log_record.induct)
  case (1 first off ptr)
  let ?k = "frag off ptr" and ?off = "next_offset off + kHeaderSize + frag off ptr"
  let ?l = "length (pad off) + kHeaderSize + frag off ptr"
  note st = record_step_fragment [OF "1.prems"(4,5)] and k = frag_fits [OF "1.prems"(3), of ptr]
  have t: "fragment_type first False \<noteq> kZeroType" by (simp add: fragment_type_def)
  have cut: ?case if "bs = pad off @ phys t' (take ?k ptr) @ bs'" "m < ?l" for t' bs'
  proof -
    have "reader_at n (take m (pad off @ phys t' (take ?k ptr))) r" using "1.prems"(2) that k(2) by simp
    from read_cut_fragment [OF this "1.prems"(3) k(1), of a] that(2) k(2) obtain r' where
      "ReadPhysicalRecord read a r = (kEof, [], r')" "lr_drops r' = lr_drops r" "\<not> lr_resyncing r'" by auto
    from read_eof [OF this, of fuel st] "1.prems"(7) show ?thesis by auto
  qed
  from "1.prems"(1) show ?case
  proof (cases rule: log_record_cases)
    case bs: (1 bs')
    show ?thesis
    proof (cases "m < ?l")
      case False
      then have "reader_at n (pad off @ phys (fragment_type first False) (take ?k ptr) @ take (m - ?l) bs') r"
        using "1.prems"(2) bs(2) k(2) by (simp add: add.assoc)
      from read_fragment [OF this "1.prems"(3) k(1) t, of a] obtain r1 n1 where r1:
        "ReadPhysicalRecord read a r = (record_code (fragment_type first False), take ?k ptr, r1)"
        "reader_at n1 (take (m - ?l) bs') r1" "aligned ?off n1" "lr_drops r1 = lr_drops r" unfolding k(2) by blast
      have m: "m - ?l < length bs'" using "1.prems"(6) bs(2) False k(2) by auto
      obtain fuel' where fuel: "fuel = Suc fuel'" "m - ?l < fuel'"
        using "1.prems"(7) False by (cases fuel) (auto simp: kHeaderSize_def)
      obtain offset where "read_loop fuel read a st r = read_loop fuel' read a (opened first (take ?k ptr) offset st) r1"
        using read_loop_step [OF r1(1), of fuel' st] r1(2) fuel(1) by (auto simp: st(1) reader_at_def)
      with "1.IH" [OF refl refl refl bs(1,3) r1(2,3), of "opened first (take ?k ptr) offset st" fuel'] fuel(2) r1(4) m
      show ?thesis by (simp add: st(3))
    qed (use cut bs(2) in blast)
  next
    case bs: 2
    then have "m < ?l" using "1.prems"(6) by simp
    with cut [of _ "[]"] bs show ?thesis by simp
  qed
qed

lemma read_end:
  assumes "reader_at n [] r" "0 < fuel"
  shows "\<exists>r'. read_loop fuel read a st r = Some (False, [], r') \<and> lr_drops r' = lr_drops r"
proof -
  have eof: "\<exists>r'. ReadPhysicalRecord read a r = (kEof, [], r') \<and> lr_drops r' = lr_drops r \<and> \<not> lr_resyncing r'"
    if "reader_at n [] r" "0 < n" for n r
    using that by (subst ReadPhysicalRecord.simps) (simp add: reader_at_def kHeaderSize_def)
  show ?thesis
  proof (cases "n = 0")
    case True
    obtain r1 where r1: "ReadPhysicalRecord read a r = ReadPhysicalRecord read a r1" "reader_at kBlockSize [] r1"
      "lr_drops r1 = lr_drops r"
      using refill [OF assms(1), of a] True by (auto simp: kHeaderSize_def)
    from eof [OF r1(2)] r1 read_eof [OF _ _ _ assms(2)] show ?thesis by (fastforce simp: kBlockSize_def)
  next
    case False
    with eof [OF assms(1)] read_eof [OF _ _ _ assms(2)] show ?thesis by blast
  qed
qed

lemma ReadRecord_at:
  assumes "reader_at n X r"
  shows "ReadRecord fuel read skip a r =
    read_loop fuel read a \<lparr>rs_in_fragmented_record = False, rs_scratch = [], rs_prospective = 0\<rparr> r"
  using assms by (simp add: ReadRecord_def reader_at_def)

text \<open>
  A reader before part of a log returns the next record if it is whole there, and the end of the
  log otherwise; it reports nothing.
\<close>

lemma next_record:
  assumes "reader_at n (take m (log_bytes off ds)) r" "aligned off n" "length (log_bytes off ds) < fuel"
  obtains (finished) r' where "ReadRecord fuel read skip a r = Some (False, [], r')" "lr_drops r' = lr_drops r"
      "ds = [] \<or> m < length (fst (log_record True off (hd ds)))"
    | (whole) d ds' bs off' r' n' where "ds = d # ds'" "log_record True off d = (bs, off')" "length bs \<le> m"
      "ReadRecord fuel read skip a r = Some (True, d, r')" "reader_at n' (take (m - length bs) (log_bytes off' ds')) r'"
      "aligned off' n'" "lr_drops r' = lr_drops r" "length (log_bytes off' ds') < fuel"
proof (cases ds)
  case Nil
  then have r: "reader_at n [] r" using assms(1) by simp
  from read_end [OF r] assms(3) obtain r' where
    "ReadRecord fuel read skip a r = Some (False, [], r')" "lr_drops r' = lr_drops r"
    unfolding ReadRecord_at [OF r] by (metis gr_zeroI not_less0)
  with Nil finished show ?thesis by simp
next
  case (Cons d ds')
  obtain bs off' where rec: "log_record True off d = (bs, off')" by fastforce
  let ?st = "\<lparr>rs_in_fragmented_record = False, rs_scratch = [], rs_prospective = 0\<rparr>"
  show ?thesis
  proof (cases "m < length bs")
    case True
    with assms(1) rec Cons have "reader_at n (take m bs) r" by simp
    from read_cut_record [OF rec this assms(2), of ?st fuel a] True assms(3) rec Cons obtain r' where
      "read_loop fuel read a ?st r = Some (False, [], r')" "lr_drops r' = lr_drops r" by auto
    with True rec Cons finished show ?thesis by (simp add: ReadRecord_at [OF assms(1)])
  next
    case False
    with assms(1) rec Cons have "reader_at n (bs @ take (m - length bs) (log_bytes off' ds')) r" by simp
    from read_record [OF rec this assms(2), of ?st fuel a] assms(3) rec Cons obtain r' n' where
      "read_loop fuel read a ?st r = Some (True, d, r')" "reader_at n' (take (m - length bs) (log_bytes off' ds')) r'"
      "aligned off' n'" "lr_drops r' = lr_drops r" by auto
    with whole [OF Cons rec] False assms(3) rec Cons show ?thesis by (simp add: ReadRecord_at [OF assms(1)])
  qed
qed

text \<open>The records that are whole in a part of a log are read, and nothing is reported as corrupt.\<close>

lemma read_records_prefix:
  assumes "reader_at n (take m (log_bytes off ds)) r" "aligned off n" "length ds < rounds"
    "length (log_bytes off ds) < fuel"
  shows "\<exists>k r'. read_records rounds fuel read skip a r = Some (take k ds, r') \<and> lr_drops r' = lr_drops r \<and>
    length (log_bytes off (take k ds)) \<le> m \<and> (k < length ds \<longrightarrow> m < length (log_bytes off (take (Suc k) ds)))"
  using assms
proof (induction ds arbitrary: n m off r rounds)
  case Nil
  then obtain i where i: "rounds = Suc i" by (cases rounds) auto
  from Nil.prems(1,2,4) show ?case by (cases rule: next_record [where skip = skip and a = a]) (auto simp: i)
next
  case (Cons d ds)
  obtain i where i: "rounds = Suc i" "length ds < i" using Cons.prems(3) by (cases rounds) auto
  from Cons.prems(1,2,4) show ?case
  proof (cases rule: next_record [where skip = skip and a = a])
    case (finished r')
    with i show ?thesis by (intro exI [of _ 0] exI [of _ r']) (auto split: prod.splits)
  next
    case (whole d' ds' bs off' r1 n1)
    from Cons.IH [OF _ whole(6) i(2), of "m - length bs" r1] whole obtain k r' where
      "read_records i fuel read skip a r1 = Some (take k ds, r')" "lr_drops r' = lr_drops r1"
      "length (log_bytes off' (take k ds)) \<le> m - length bs"
      "k < length ds \<longrightarrow> m - length bs < length (log_bytes off' (take (Suc k) ds))" by auto
    with whole i show ?thesis by (intro exI [of _ "Suc k"] exI [of _ r']) auto
  qed
qed

end

subsection \<open>The log on POSIX files\<close>

lemma make_Reader_at:
  "sf_healthy g \<Longrightarrow> posix_in.reader_at 0 (sf_rest g) (make_Reader g reporter checksum 0)"
  by (simp add: posix_in.reader_at_def make_Reader_def)

text \<open>
  C16. Records that are added to a new log on a file whose writes may be short or interrupted, but do
  not fail, are handed to the operating system in full. A reader of the file, or of any part of
  it that a crash has left, with reads that may be interrupted, returns the records that are whole in that part,
  in order, then the end of the log, and reports no corruption.
\<close>

theorem log_recovery:
  assumes "wf_healthy f" "wf_contents f = []"
  shows "\<exists>w'. write_records Posix_Append Posix_Flush a (make_Writer f 0) ds = Some (OK, w') \<and>
    wf_disk (lw_dest w') = log_bytes 0 ds \<and>
    (\<forall>g m fuel. sf_healthy g \<longrightarrow> sf_rest g = take m (wf_disk (lw_dest w')) \<longrightarrow> length (log_bytes 0 ds) < fuel \<longrightarrow>
      (\<exists>k r'. read_records (Suc (length ds)) fuel Posix_Read Posix_Skip b (make_Reader g True True 0) =
          Some (take k ds, r') \<and> lr_drops r' = Some [] \<and> length (log_bytes 0 (take k ds)) \<le> m \<and>
        (k < length ds \<longrightarrow> m < length (log_bytes 0 (take (Suc k) ds)))))"
proof -
  obtain w' where w': "write_records Posix_Append Posix_Flush a (make_Writer f 0) ds = Some (OK, w')"
    "wf_disk (lw_dest w') = log_bytes 0 ds"
    using posix_out.write_records_healthy [of "make_Writer f 0" a ds] assms
    by (auto simp: make_Writer_def wf_contents_def)
  have "\<exists>k r'. read_records (Suc (length ds)) fuel Posix_Read Posix_Skip b (make_Reader g True True 0) =
          Some (take k ds, r') \<and> lr_drops r' = Some [] \<and> length (log_bytes 0 (take k ds)) \<le> m \<and>
        (k < length ds \<longrightarrow> m < length (log_bytes 0 (take (Suc k) ds)))"
    if g: "sf_healthy g" "sf_rest g = take m (wf_disk (lw_dest w'))" "length (log_bytes 0 ds) < fuel" for g m fuel
  proof -
    have "aligned 0 0" "lr_drops (make_Reader g True True 0) = Some []" by (simp_all add: aligned_def make_Reader_def)
    with posix_in.read_records_prefix [OF make_Reader_at [OF g(1), unfolded g(2) w'(2)] _ lessI g(3)]
    show ?thesis by metis
  qed
  with w' show ?thesis by blast
qed

theorem log_recovery_witness:
  "\<exists>w'. write_records Posix_Append Posix_Flush 0
      (make_Writer \<lparr>wf_name = ''log'', wf_strerror = \<lambda>_. [], wf_buf = [], wf_disk = [],
        wf_calls = [Writes 3, Write_fails EINTR]\<rparr> 0) [[1, 2, 3], []] = Some (OK, w') \<and>
    (\<exists>k r'. read_records 3 (Suc (length (log_bytes 0 [[1, 2, 3], []]))) Posix_Read Posix_Skip 0
        (make_Reader \<lparr>sf_name = ''log'', sf_strerror = \<lambda>_. [], sf_rest = take 12 (wf_disk (lw_dest w')),
          sf_calls = [Read_fails EINTR]\<rparr> True True 0) = Some (take k [[1, 2, 3], []], r') \<and> lr_drops r' = Some [])"
proof -
  let ?f = "\<lparr>wf_name = ''log'', wf_strerror = \<lambda>_. [], wf_buf = [], wf_disk = [],
    wf_calls = [Writes 3, Write_fails EINTR]\<rparr>"
  have f: "wf_healthy ?f" "wf_contents ?f = []" by (simp_all add: wf_healthy_def wf_contents_def)
  have g: "sf_healthy \<lparr>sf_name = ''log'', sf_strerror = \<lambda>_. [], sf_rest = X, sf_calls = [Read_fails EINTR]\<rparr>" for X
    by (simp add: sf_healthy_def)
  from log_recovery [OF f, of 0 "[[1, 2, 3], []]" 0] obtain w' where
    w': "write_records Posix_Append Posix_Flush 0 (make_Writer ?f 0) [[1, 2, 3], []] = Some (OK, w')"
    "\<And>g m fuel. sf_healthy g \<Longrightarrow> sf_rest g = take m (wf_disk (lw_dest w')) \<Longrightarrow>
      length (log_bytes 0 [[1, 2, 3], []]) < fuel \<Longrightarrow>
      \<exists>k r'. read_records (Suc (length [[1, 2, 3], [] :: byte list])) fuel Posix_Read Posix_Skip 0 (make_Reader g True True 0) =
        Some (take k [[1, 2, 3], []], r') \<and> lr_drops r' = Some []" by blast
  have n: "Suc (length [[1, 2, 3], [] :: byte list]) = 3" by simp
  from w'(1) w'(2) [OF g _ lessI, unfolded n, of _ 12] show ?thesis by auto
qed

end
