(* ===== verification/Ldb_Recovery.thy ===== *)
theory Ldb_Recovery
  imports Ldb_Write_Batch Ldb_Log_Spec
begin

text \<open>
  Recovery of a database from its log, \<^verbatim>\<open>DBImpl::RecoverLogFile\<close> of \<^verbatim>\<open>db_impl.cc\<close>: every record of the log
  is a write batch that is inserted into a memtable again. What lies behind it is a parameter: the
  memory a memtable uses, the routine that writes a full memtable to a table file (with the edit it
  extends), and whether the log file can be opened for appending.
\<close>

subsection \<open>The code\<close>

record 'e recovery =
  rc_status :: Status
  rc_mem :: "MemTable option"
  rc_max_sequence :: "64 word"
  rc_compactions :: nat
  rc_save_manifest :: bool
  rc_edit :: 'e

definition MaybeIgnoreError :: "bool \<Rightarrow> Status \<Rightarrow> Status" where
  "MaybeIgnoreError paranoid_checks s = (if ok s \<or> paranoid_checks then s else OK)"

text \<open>The reporter keeps the first error, when checks are paranoid; the log lines are left out.\<close>

definition LogReporter_Corruption :: "bool \<Rightarrow> Status \<Rightarrow> 'e recovery \<Rightarrow> 'e recovery" where
  "LogReporter_Corruption paranoid_checks s st =
     (if paranoid_checks \<and> ok (rc_status st) then st\<lparr>rc_status := s\<rparr> else st)"

fun report_all :: "bool \<Rightarrow> (nat \<times> Status) list \<Rightarrow> 'e recovery \<Rightarrow> 'e recovery" where
  "report_all paranoid [] st = st"
| "report_all paranoid ((n, s) # ds) st = report_all paranoid ds (LogReporter_Corruption paranoid s st)"

text \<open>The reports the reader made in a call.\<close>

definition new_drops :: "'f log_reader \<Rightarrow> 'f log_reader \<Rightarrow> (nat \<times> Status) list" where
  "new_drops r r' =
     (case (lr_drops r, lr_drops r') of (Some ds, Some ds') \<Rightarrow> drop (length ds) ds' | _ \<Rightarrow> [])"

record 'e recovery_options =
  ro_paranoid_checks :: bool
  ro_comparator :: "slice \<Rightarrow> slice \<Rightarrow> int"
  ro_memory_usage :: "MemTable \<Rightarrow> nat"
  ro_write_buffer_size :: nat
  ro_WriteLevel0Table :: "MemTable \<Rightarrow> 'e \<Rightarrow> Status \<times> 'e"

text \<open>The body of the loop for one record; the flag says whether the loop goes on.\<close>

definition recover_record :: "'e recovery_options \<Rightarrow> slice \<Rightarrow> 'e recovery \<Rightarrow> (bool \<times> 'e recovery) option" where
  "recover_record opt rec st =
     (if length rec < 12 then
        Some (True, LogReporter_Corruption (ro_paranoid_checks opt) (Corruption ''log record too small'' []) st)
      else do {
        batch \<leftarrow> SetContents rec;
        let mem = (case rc_mem st of None \<Rightarrow> make_MemTable | Some mem \<Rightarrow> mem);
        (s, mem) \<leftarrow> InsertInto (ro_comparator opt) batch mem;
        let s = MaybeIgnoreError (ro_paranoid_checks opt) s;
        let st = st\<lparr>rc_status := s, rc_mem := Some mem\<rparr>;
        if \<not> ok s then Some (False, st)
        else do {
          seq \<leftarrow> Sequence batch;
          n \<leftarrow> Count batch;
          let last_seq = seq + scast n - 1;
          let st = (if last_seq > rc_max_sequence st then st\<lparr>rc_max_sequence := last_seq\<rparr> else st);
          if ro_memory_usage opt mem > ro_write_buffer_size opt then
            (case ro_WriteLevel0Table opt mem (rc_edit st) of (s, edit) \<Rightarrow>
               Some (ok s, st\<lparr>rc_compactions := rc_compactions st + 1, rc_save_manifest := True, rc_status := s,
                              rc_mem := None, rc_edit := edit\<rparr>))
          else Some (True, st)
        }
      })"

fun recover_loop ::
  "nat \<Rightarrow> nat \<Rightarrow> ('f \<Rightarrow> nat \<Rightarrow> Status \<times> byte list \<times> 'f) \<Rightarrow> ('f \<Rightarrow> nat \<Rightarrow> Status \<times> 'f) \<Rightarrow> addr \<Rightarrow> 'e recovery_options \<Rightarrow>
   'f log_reader \<Rightarrow> 'e recovery \<Rightarrow> ('e recovery \<times> 'f log_reader) option" where
  "recover_loop 0 fuel read skip a opt r st = None"
| "recover_loop (Suc n) fuel read skip a opt r st =
     (case ReadRecord fuel read skip a r of None \<Rightarrow> None
      | Some (another, rec, r') \<Rightarrow>
          let st = report_all (ro_paranoid_checks opt) (new_drops r r') st in
          if another \<and> ok (rc_status st) then
            (case recover_record opt rec st of None \<Rightarrow> None
             | Some (True, st) \<Rightarrow> recover_loop n fuel read skip a opt r' st
             | Some (False, st) \<Rightarrow> Some (st, r'))
          else Some (st, r'))"

text \<open>What follows the loop; the result has the memtable that is kept, if the log is reused.\<close>

definition recover_finish ::
  "'e recovery_options \<Rightarrow> bool \<Rightarrow> bool \<Rightarrow> bool \<Rightarrow> 'e recovery \<Rightarrow> 'e recovery \<times> MemTable option" where
  "recover_finish opt reuse_logs last_log appendable st =
     (let (st, kept) =
        (if ok (rc_status st) \<and> reuse_logs \<and> last_log \<and> rc_compactions st = 0 \<and> appendable
         then (st\<lparr>rc_mem := None\<rparr>, Some (case rc_mem st of None \<Rightarrow> make_MemTable | Some mem \<Rightarrow> mem))
         else (st, None))
      in case rc_mem st of None \<Rightarrow> (st, kept)
         | Some mem \<Rightarrow>
             if ok (rc_status st) then
               (case ro_WriteLevel0Table opt mem (rc_edit st) of (s, edit) \<Rightarrow>
                  (st\<lparr>rc_save_manifest := True, rc_status := s, rc_mem := None, rc_edit := edit\<rparr>, kept))
             else (st\<lparr>rc_mem := None\<rparr>, kept))"

definition RecoverLogFile ::
  "nat \<Rightarrow> nat \<Rightarrow> ('f \<Rightarrow> nat \<Rightarrow> Status \<times> byte list \<times> 'f) \<Rightarrow> ('f \<Rightarrow> nat \<Rightarrow> Status \<times> 'f) \<Rightarrow> addr \<Rightarrow> 'e recovery_options \<Rightarrow>
   bool \<Rightarrow> bool \<Rightarrow> bool \<Rightarrow> Status + 'f \<Rightarrow> 64 word \<Rightarrow> bool \<Rightarrow> 'e \<Rightarrow> ('e recovery \<times> MemTable option) option" where
  "RecoverLogFile rounds fuel read skip a opt reuse_logs last_log appendable file max_sequence save_manifest edit =
     (let st = \<lparr>rc_status = OK, rc_mem = None, rc_max_sequence = max_sequence, rc_compactions = 0,
                rc_save_manifest = save_manifest, rc_edit = edit\<rparr>
      in case file of
           Inl status \<Rightarrow> Some (st\<lparr>rc_status := MaybeIgnoreError (ro_paranoid_checks opt) status\<rparr>, None)
         | Inr f \<Rightarrow> map_option (\<lambda>(st, r). recover_finish opt reuse_logs last_log appendable st)
             (recover_loop rounds fuel read skip a opt (make_Reader f True True 0) st))"

subsection \<open>The database behind a log\<close>

type_synonym batches = "(64 word \<times> batch_update list) list"

definition log_of :: "batches \<Rightarrow> slice list" where
  "log_of bs = map (\<lambda>(seq, us). batch_bytes seq us) bs"

definition entries_of :: "batches \<Rightarrow> mem_entry list" where
  "entries_of bs = concat (map (\<lambda>(seq, us). numbered seq us) bs)"

text \<open>Batches whose updates are numbered in ascending order, all of a size the format can express.\<close>

fun well_numbered :: "nat \<Rightarrow> batches \<Rightarrow> bool" where
  "well_numbered n [] = True"
| "well_numbered n ((seq, us) # bs) \<longleftrightarrow> n \<le> unat seq \<and> unat seq + length us \<le> Suc (unat kMaxSequenceNumber) \<and>
     (\<forall>u \<in> set us. update_fits u) \<and> well_numbered (unat seq + length us) bs"

definition recovered :: "'e recovery \<Rightarrow> mem_entry list \<Rightarrow> bool" where
  "recovered st es \<longleftrightarrow> rc_status st = OK \<and> (case rc_mem st of None \<Rightarrow> es = [] | Some mem \<Rightarrow> mem_holds mem es)"

lemma recover_record_batch:
  assumes "recovered st es" "\<forall>e \<in> set es. unat (me_seq e) < n" "well_numbered n ((seq, us) # bs)"
    "ro_comparator opt = slice_compare" "\<And>mem. ro_memory_usage opt mem \<le> ro_write_buffer_size opt"
  shows "\<exists>st'. recover_record opt (batch_bytes seq us) st = Some (True, st') \<and> recovered st' (es @ numbered seq us) \<and>
    rc_compactions st' = rc_compactions st \<and> (\<forall>e \<in> set (es @ numbered seq us). unat (me_seq e) < unat seq + length us)"
proof -
  let ?mem = "case rc_mem st of None \<Rightarrow> make_MemTable | Some mem \<Rightarrow> mem"
  have n: "n \<le> unat seq" "unat seq + length us \<le> Suc (unat kMaxSequenceNumber)" "\<forall>u \<in> set us. update_fits u"
    using assms(3) by auto
  have "mem_holds ?mem es" using assms(1) mem_holds_make by (auto simp: recovered_def split: option.splits)
  moreover have "\<forall>e \<in> set es. me_seq e < seq" using assms(2) n(1) by (auto simp: word_less_nat_alt)
  ultimately obtain mem where mem: "InsertInto slice_compare (batch_bytes seq us) ?mem = Some (OK, mem)"
    "mem_holds mem (es @ numbered seq us)" using insert_batch_holds [OF _ n(2,3)] by blast
  have len: "12 \<le> length (batch_bytes seq us)" by (simp add: batch_bytes_def)
  have "unat (me_seq e) < unat seq + length us" if "e \<in> set (es @ numbered seq us)" for e
  proof (cases "e \<in> set es")
    case False
    then have "unat (me_seq e) \<in> set (map (\<lambda>e. unat (me_seq e)) (numbered seq us))" using that by auto
    then show ?thesis unfolding numbered_sequence [OF n(2)] by simp
  qed (use assms(2) n(1) in fastforce)
  moreover have "\<exists>st'. recover_record opt (batch_bytes seq us) st = Some (True, st') \<and> rc_status st' = OK \<and>
      rc_mem st' = Some mem \<and> rc_compactions st' = rc_compactions st"
    using len mem(1) assms(4,5)
    by (simp add: recover_record_def SetContents_def kHeader_def MaybeIgnoreError_def ok_def Let_def not_less not_le [symmetric])
  ultimately show ?thesis using mem(2) by (auto simp: recovered_def)
qed

lemma no_new_drops: "lr_drops r' = lr_drops r \<Longrightarrow> new_drops r r' = []"
  by (simp add: new_drops_def split: option.split)

declare recover_loop.simps(2) [simp del]

context sequential_file
begin

lemma recover_prefix:
  assumes "reader_at n (take m (log_bytes off (log_of bs))) r" "aligned off n" "length (log_bytes off (log_of bs)) < fuel"
    "length bs < rounds" "recovered st es" "\<forall>e \<in> set es. unat (me_seq e) < i" "well_numbered i bs"
    "ro_comparator opt = slice_compare" "\<And>mem. ro_memory_usage opt mem \<le> ro_write_buffer_size opt"
  shows "\<exists>k st' r'. recover_loop rounds fuel read skip a opt r st = Some (st', r') \<and>
    recovered st' (es @ entries_of (take k bs)) \<and> rc_compactions st' = rc_compactions st \<and>
    length (log_bytes off (log_of (take k bs))) \<le> m \<and>
    (k < length bs \<longrightarrow> m < length (log_bytes off (log_of (take (Suc k) bs))))"
  using assms(1-7)
proof (induction bs arbitrary: n m off r rounds st es i)
  case Nil
  then obtain j where j: "rounds = Suc j" by (cases rounds) auto
  from Nil.prems(1-3) show ?case
    by (cases rule: next_record [where skip = skip and a = a])
      (use Nil.prems(5) in \<open>auto simp: j recover_loop.simps(2) no_new_drops log_of_def entries_of_def\<close>)
next
  case (Cons b bs)
  obtain seq us where b: "b = (seq, us)" by fastforce
  obtain j where j: "rounds = Suc j" "length bs < j" using Cons.prems(4) by (cases rounds) auto
  have log: "log_of (b # bs) = batch_bytes seq us # log_of bs" by (simp add: log_of_def b)
  from Cons.prems(1-3) show ?case
  proof (cases rule: next_record [where skip = skip and a = a])
    case (finished r')
    with j Cons.prems(5) show ?thesis
      by (intro exI [of _ 0] exI [of _ st] exI [of _ r'])
        (auto simp: recover_loop.simps(2) no_new_drops log entries_of_def log_of_def b split: prod.splits)
  next
    case (whole d ds bs' off' r1 n1)
    then have d: "d = batch_bytes seq us" "ds = log_of bs" using log by auto
    obtain st1 where st1: "recover_record opt (batch_bytes seq us) st = Some (True, st1)"
      "recovered st1 (es @ numbered seq us)" "rc_compactions st1 = rc_compactions st"
      "\<forall>e \<in> set (es @ numbered seq us). unat (me_seq e) < unat seq + length us"
      using recover_record_batch [OF Cons.prems(5,6) Cons.prems(7) [unfolded b] assms(8,9)] by blast
    have step: "recover_loop rounds fuel read skip a opt r st = recover_loop j fuel read skip a opt r1 st1"
      using whole(4,7) d(1) st1(1) Cons.prems(5) by (simp add: j recover_loop.simps(2) no_new_drops recovered_def ok_def)
    have "well_numbered (unat seq + length us) bs" using Cons.prems(7) b by simp
    from Cons.IH [OF whole(5,6,8) [unfolded d(2)] j(2) st1(2,4) this] obtain k st' r' where
      "recover_loop j fuel read skip a opt r1 st1 = Some (st', r')"
      "recovered st' ((es @ numbered seq us) @ entries_of (take k bs))" "rc_compactions st' = rc_compactions st1"
      "length (log_bytes off' (log_of (take k bs))) \<le> m - length bs'"
      "k < length bs \<longrightarrow> m - length bs' < length (log_bytes off' (log_of (take (Suc k) bs)))" by blast
    with step st1(3) whole(2,3) show ?thesis
      by (intro exI [of _ "Suc k"] exI [of _ st'] exI [of _ r'])
        (auto simp: entries_of_def log_of_def b d)
  qed
qed

end

subsection \<open>Properties\<close>



end
