(* ===== verification/Ldb_Table_Format.thy ===== *)
theory Ldb_Table_Format
  imports Ldb_Coding Ldb_Env Ldb_Crc_Spec "HOL-Library.Monad_Syntax"
begin

text \<open>
  The parts of a table file (\<^verbatim>\<open>format.cc\<close>): handles of blocks, the footer, and the reading of a block with
  its trailer; and the files it is read from, \<^verbatim>\<open>PosixRandomAccessFile\<close> and \<^verbatim>\<open>PosixMmapReadableFile\<close>
  (\<^verbatim>\<open>env_posix.cc\<close>), with their interface \<^verbatim>\<open>RandomAccessFile\<close> as a locale.

  Snappy is not part of the build, so the wrappers of \<^verbatim>\<open>port_stdcxx.h\<close> return false. An operation is
  \<open>None\<close> when an assertion fails or memory outside the data is read.
\<close>

subsection \<open>Block handles and the footer\<close>

record BlockHandle =
  bh_offset :: "64 word"
  bh_size :: "64 word"

definition make_BlockHandle :: BlockHandle where
  "make_BlockHandle = \<lparr>bh_offset = NOT 0, bh_size = NOT 0\<rparr>"

definition BlockHandle_kMaxEncodedLength :: nat where
  "BlockHandle_kMaxEncodedLength = 10 + 10"

definition BlockHandle_EncodeTo :: "BlockHandle \<Rightarrow> byte list \<Rightarrow> byte list option" where
  "BlockHandle_EncodeTo h dst =
     (if bh_offset h \<noteq> NOT 0 \<and> bh_size h \<noteq> NOT 0
      then Some (PutVarint64 (PutVarint64 dst (bh_offset h)) (bh_size h)) else None)"

definition BlockHandle_DecodeFrom :: "slice \<Rightarrow> Status + BlockHandle \<times> slice" where
  "BlockHandle_DecodeFrom input =
     (case GetVarint64 input of None \<Rightarrow> Inl (Corruption ''bad block handle'' [])
      | Some (off, input) \<Rightarrow>
          (case GetVarint64 input of None \<Rightarrow> Inl (Corruption ''bad block handle'' [])
           | Some (sz, input) \<Rightarrow> Inr (\<lparr>bh_offset = off, bh_size = sz\<rparr>, input)))"

record Footer =
  metaindex_handle :: BlockHandle
  index_handle :: BlockHandle

definition Footer_kEncodedLength :: nat where
  "Footer_kEncodedLength = 2 * BlockHandle_kMaxEncodedLength + 8"

definition kTableMagicNumber :: "64 word" where
  "kTableMagicNumber = 0xdb4775248b80fb57"

definition string_resize :: "nat \<Rightarrow> byte list \<Rightarrow> byte list" where
  "string_resize n s = take n s @ replicate (n - length s) 0"

definition Footer_EncodeTo :: "Footer \<Rightarrow> byte list \<Rightarrow> byte list option" where
  "Footer_EncodeTo f dst = do {
     d \<leftarrow> BlockHandle_EncodeTo (metaindex_handle f) dst;
     d \<leftarrow> BlockHandle_EncodeTo (index_handle f) d;
     let d = string_resize (2 * BlockHandle_kMaxEncodedLength) d;
     let d = PutFixed32 d (ucast (kTableMagicNumber AND 0xFFFFFFFF));
     let d = PutFixed32 d (ucast (drop_bit 32 kTableMagicNumber));
     if length d = length dst + Footer_kEncodedLength then Some d else None
   }"

definition Footer_DecodeFrom :: "slice \<Rightarrow> (Status + Footer \<times> slice) option" where
  "Footer_DecodeFrom input = do {
     let magic_ptr = drop (Footer_kEncodedLength - 8) input;
     magic_lo \<leftarrow> DecodeFixed32 magic_ptr;
     magic_hi \<leftarrow> DecodeFixed32 (drop 4 magic_ptr);
     let magic = (push_bit 32 (ucast magic_hi) OR ucast magic_lo :: 64 word);
     Some (if magic \<noteq> kTableMagicNumber then Inl (Corruption ''not an sstable (bad magic number)'' [])
           else (case BlockHandle_DecodeFrom input of Inl e \<Rightarrow> Inl e
                 | Inr (meta, rest) \<Rightarrow>
                     (case BlockHandle_DecodeFrom rest of Inl e \<Rightarrow> Inl e
                      | Inr (index, rest) \<Rightarrow>
                          Inr (\<lparr>metaindex_handle = meta, index_handle = index\<rparr>, drop 8 magic_ptr))))
   }"

subsection \<open>Random access files\<close>

text \<open>
  A read gives a status, the bytes, and whether they are in the buffer of the caller. The interface
  promises that a read inside a file that is \<open>healthy\<close> gives the bytes that are there.
\<close>

type_synonym random_read = "nat \<Rightarrow> nat \<Rightarrow> (Status \<times> byte list \<times> bool) option"

locale random_access_file =
  fixes Read :: "'f \<Rightarrow> random_read"
    and contents :: "'f \<Rightarrow> byte list"
    and healthy :: "'f \<Rightarrow> bool"
  assumes read_inside: "healthy f \<Longrightarrow> off + n \<le> length (contents f) \<Longrightarrow>
      \<exists>scratch. Read f off n = Some (OK, take n (drop off (contents f)), scratch)"

text \<open>
  The operating system is a parameter: its answers to \<^verbatim>\<open>open\<close>, which is called when the file has no
  descriptor of its own, and to \<^verbatim>\<open>pread\<close>, which gives at most so many bytes or fails.
\<close>

datatype pread_call = Preads nat | Pread_fails errno

record posix_random =
  rf_name :: string
  rf_strerror :: "errno \<Rightarrow> string"
  rf_contents :: "byte list"
  rf_permanent_fd :: bool
  rf_open :: "nat \<Rightarrow> nat \<Rightarrow> errno option"
  rf_pread :: "nat \<Rightarrow> nat \<Rightarrow> pread_call"

definition PosixRandom_Read :: "posix_random \<Rightarrow> random_read" where
  "PosixRandom_Read f off n =
     Some (case (if rf_permanent_fd f then None else rf_open f off n) of
             Some e \<Rightarrow> (PosixError (rf_strerror f) (rf_name f) e, [], True)
           | None \<Rightarrow>
               (if off \<ge> 2 ^ 63 then (PosixError (rf_strerror f) (rf_name f) EINVAL, [], True)
                else (case rf_pread f off n of
                        Preads m \<Rightarrow> (OK, take (min m n) (drop off (rf_contents f)), True)
                      | Pread_fails e \<Rightarrow> (PosixError (rf_strerror f) (rf_name f) e, [], True))))"

record posix_mmap =
  mf_name :: string
  mf_strerror :: "errno \<Rightarrow> string"
  mf_contents :: "byte list"

text \<open>The sum is one of 64-bit numbers; the result is a pointer into the mapping.\<close>

definition PosixMmap_Read :: "posix_mmap \<Rightarrow> random_read" where
  "PosixMmap_Read f off n =
     (if size_t (off + n) > length (mf_contents f)
      then Some (PosixError (mf_strerror f) (mf_name f) EINVAL, [], False)
      else if off + n \<le> length (mf_contents f) then Some (OK, take n (drop off (mf_contents f)), False)
      else None)"

definition rf_healthy :: "posix_random \<Rightarrow> bool" where
  "rf_healthy f \<longleftrightarrow> length (rf_contents f) < 2 ^ 63 \<and>
     (\<forall>off n. (rf_permanent_fd f \<or> rf_open f off n = None) \<and> (\<exists>m \<ge> n. rf_pread f off n = Preads m))"

interpretation posix_random: random_access_file PosixRandom_Read rf_contents rf_healthy
proof
  fix f off n
  assume h: "rf_healthy f" and n: "off + n \<le> length (rf_contents f)"
  then obtain m where "m \<ge> n" "rf_pread f off n = Preads m" unfolding rf_healthy_def by blast
  moreover have "(if rf_permanent_fd f then None else rf_open f off n) = None" "off < 2 ^ 63"
    using h n by (auto simp: rf_healthy_def)
  ultimately show "\<exists>scratch. PosixRandom_Read f off n = Some (OK, take n (drop off (rf_contents f)), scratch)"
    by (intro exI [of _ True]) (simp add: PosixRandom_Read_def min_absorb2)
qed

interpretation posix_mmap: random_access_file PosixMmap_Read mf_contents "\<lambda>f. length (mf_contents f) < 2 ^ 64"
  by unfold_locales (intro exI [of _ False], simp add: PosixMmap_Read_def size_t_small)

subsection \<open>Reading a block\<close>

definition kBlockTrailerSize :: nat where
  "kBlockTrailerSize = 5"

datatype CompressionType = kNoCompression | kSnappyCompression

definition compression_code :: "CompressionType \<Rightarrow> byte" where
  "compression_code t = (case t of kNoCompression \<Rightarrow> 0 | kSnappyCompression \<Rightarrow> 1)"

definition Snappy_Compress :: "slice \<Rightarrow> byte list option" where
  "Snappy_Compress input = None"

definition Snappy_GetUncompressedLength :: "slice \<Rightarrow> nat option" where
  "Snappy_GetUncompressedLength input = None"

definition Snappy_Uncompress :: "slice \<Rightarrow> byte list option" where
  "Snappy_Uncompress input = None"

record BlockContents =
  bc_data :: slice
  bc_cachable :: bool
  bc_heap_allocated :: bool

definition ReadBlock :: "random_read \<Rightarrow> addr \<Rightarrow> bool \<Rightarrow> BlockHandle \<Rightarrow> (Status + BlockContents) option" where
  "ReadBlock read a verify_checksums handle = do {
     let n = unat (bh_size handle);
     (s, contents, scratch) \<leftarrow> read (unat (bh_offset handle)) (size_t (n + kBlockTrailerSize));
     if \<not> ok s then Some (Inl s)
     else if length contents \<noteq> size_t (n + kBlockTrailerSize) then Some (Inl (Corruption ''truncated block read'' []))
     else do {
       intact \<leftarrow> (if verify_checksums
                  then map_option (\<lambda>w. crc_Value a (take (n + 1) contents) = Unmask w) (DecodeFixed32 (drop (n + 1) contents))
                  else Some True);
       if \<not> intact then Some (Inl (Corruption ''block checksum mismatch'' []))
       else if length contents \<le> n then None
       else if contents ! n = compression_code kNoCompression
       then Some (Inr \<lparr>bc_data = take n contents, bc_cachable = scratch, bc_heap_allocated = scratch\<rparr>)
       else if contents ! n = compression_code kSnappyCompression
       then Some (case Snappy_GetUncompressedLength (take n contents) of
                    None \<Rightarrow> Inl (Corruption ''corrupted compressed block contents'' [])
                  | Some ulength \<Rightarrow>
                      (case Snappy_Uncompress (take n contents) of
                         None \<Rightarrow> Inl (Corruption ''corrupted compressed block contents'' [])
                       | Some ubuf \<Rightarrow> Inr \<lparr>bc_data = ubuf, bc_cachable = True, bc_heap_allocated = True\<rparr>))
       else Some (Inl (Corruption ''bad block type'' []))
     }
   }"

subsection \<open>Handles and the footer are read back\<close>

definition stored_handle :: "BlockHandle \<Rightarrow> byte list" where
  "stored_handle h = EncodeVarint64 (bh_offset h) @ EncodeVarint64 (bh_size h)"

definition set_handle :: "BlockHandle \<Rightarrow> bool" where
  "set_handle h \<longleftrightarrow> bh_offset h \<noteq> NOT 0 \<and> bh_size h \<noteq> NOT 0"

lemma BlockHandle_EncodeTo_eq: "set_handle h \<Longrightarrow> BlockHandle_EncodeTo h dst = Some (dst @ stored_handle h)"
  by (simp add: BlockHandle_EncodeTo_def PutVarint64_def stored_handle_def set_handle_def)

lemma BlockHandle_DecodeFrom_stored: "BlockHandle_DecodeFrom (stored_handle h @ rest) = Inr (h, rest)"
  by (simp add: BlockHandle_DecodeFrom_def stored_handle_def GetVarint64_Encode)

lemma length_stored_handle: "length (stored_handle h) \<le> 20"
  using varint_length_10 [of "bh_offset h"] varint_length_10 [of "bh_size h"]
  by (simp add: stored_handle_def EncodeVarint64_eq)

definition stored_footer :: "Footer \<Rightarrow> byte list" where
  "stored_footer f =
     (let hs = stored_handle (metaindex_handle f) @ stored_handle (index_handle f) in
      hs @ replicate (40 - length hs) 0 @ [0x57, 0xfb, 0x80, 0x8b, 0x24, 0x75, 0x47, 0xdb])"

lemma length_stored_footer [simp]: "length (stored_footer f) = 48"
  using length_stored_handle [of "metaindex_handle f"] length_stored_handle [of "index_handle f"]
  by (simp add: stored_footer_def Let_def)

lemma Footer_EncodeTo_eq:
  assumes "set_handle (metaindex_handle f)" "set_handle (index_handle f)"
  shows "Footer_EncodeTo f [] = Some (stored_footer f)"
  using assms length_stored_handle [of "metaindex_handle f"] length_stored_handle [of "index_handle f"]
  by (simp add: Footer_EncodeTo_def BlockHandle_EncodeTo_eq stored_footer_def Let_def string_resize_def PutFixed32_def
      BlockHandle_kMaxEncodedLength_def Footer_kEncodedLength_def kTableMagicNumber_def EncodeFixed32_def nat_le_numeral)

lemma Footer_DecodeFrom_stored: "Footer_DecodeFrom (stored_footer f @ rest) = Some (Inr (f, rest))"
proof -
  let ?hs = "stored_handle (metaindex_handle f) @ stored_handle (index_handle f)"
  have l: "length ?hs \<le> 40"
    using length_stored_handle [of "metaindex_handle f"] length_stored_handle [of "index_handle f"] by simp
  let ?m = "[0x57, 0xfb, 0x80, 0x8b, 0x24, 0x75, 0x47, 0xdb] :: byte list"
  have "drop 40 (stored_footer f @ rest) = ?m @ rest" using l by (simp add: stored_footer_def Let_def)
  moreover have "BlockHandle_DecodeFrom (stored_footer f @ rest) =
      Inr (metaindex_handle f, stored_handle (index_handle f) @ replicate (40 - length ?hs) 0 @ ?m @ rest)"
    by (simp add: stored_footer_def Let_def BlockHandle_DecodeFrom_stored)
  ultimately show ?thesis
    by (simp add: Footer_DecodeFrom_def Footer_kEncodedLength_def BlockHandle_kMaxEncodedLength_def
        BlockHandle_DecodeFrom_stored DecodeFixed32_def kTableMagicNumber_def)
qed

text \<open>
  The footer of a table is encoded in 48 bytes, and decoding reads back both handles and leaves what
  follows it.
\<close>

lemma footer_roundtrip:
  assumes "bh_offset (metaindex_handle f) \<noteq> NOT 0" "bh_size (metaindex_handle f) \<noteq> NOT 0"
    "bh_offset (index_handle f) \<noteq> NOT 0" "bh_size (index_handle f) \<noteq> NOT 0"
  shows "\<exists>bs. Footer_EncodeTo f [] = Some bs \<and> length bs = Footer_kEncodedLength \<and>
    Footer_DecodeFrom (bs @ rest) = Some (Inr (f, rest))"
  using assms Footer_EncodeTo_eq [of f] Footer_DecodeFrom_stored [of f rest]
  by (simp add: set_handle_def Footer_kEncodedLength_def BlockHandle_kMaxEncodedLength_def)

lemma footer_roundtrip_witness:
  "\<exists>bs. Footer_EncodeTo \<lparr>metaindex_handle = \<lparr>bh_offset = 3, bh_size = 8\<rparr>, index_handle = \<lparr>bh_offset = 16, bh_size = 300\<rparr>\<rparr> [] = Some bs \<and>
     Footer_DecodeFrom (bs @ [1]) =
       Some (Inr (\<lparr>metaindex_handle = \<lparr>bh_offset = 3, bh_size = 8\<rparr>, index_handle = \<lparr>bh_offset = 16, bh_size = 300\<rparr>\<rparr>, [1]))"
  using footer_roundtrip [of "\<lparr>metaindex_handle = \<lparr>bh_offset = 3, bh_size = 8\<rparr>, index_handle = \<lparr>bh_offset = 16, bh_size = 300\<rparr>\<rparr>" "[1]"]
  by auto

subsection \<open>Blocks with their trailer\<close>

definition framed :: "slice \<Rightarrow> byte list" where
  "framed data = data @ [compression_code kNoCompression]
     @ EncodeFixed32 (Mask (crc32c_spec 0 (data @ [compression_code kNoCompression])))"

lemma length_framed [simp]: "length (framed data) = length data + 5"
  by (simp add: framed_def)

lemma ReadBlock_framed:
  assumes "read (unat (bh_offset h)) (length data + 5) = Some (OK, framed data, scratch)"
    and "unat (bh_size h) = length data" "length data + 5 < 2 ^ 64"
  shows "ReadBlock read a verify h = Some (Inr \<lparr>bc_data = data, bc_cachable = scratch, bc_heap_allocated = scratch\<rparr>)"
proof -
  have "size_t (length data + 5) = length data + 5" using assms(3) by (rule size_t_small)
  moreover have "take (length data + 1) (framed data) = data @ [compression_code kNoCompression]"
    "drop (length data + 1) (framed data) = EncodeFixed32 (Mask (crc32c_spec 0 (data @ [compression_code kNoCompression])))"
    "take (length data) (framed data) = data" "framed data ! length data = compression_code kNoCompression"
    by (simp_all add: framed_def nth_append)
  moreover have "DecodeFixed32 (EncodeFixed32 w) = Some w" for w using DecodeFixed32_Encode [of w "[]"] by simp
  ultimately show ?thesis
    using assms by (simp add: ReadBlock_def kBlockTrailerSize_def ok_def crc_Value_def Extend_eq Let_def)
qed

text \<open>
  A handle whose size is close to \<open>2 ^ 64\<close> makes the sum with the trailer size wrap: the size check
  passes, and the type byte is read behind the buffer.
\<close>

lemma ReadBlock_size_wraps:
  assumes "read (unat off) 0 = Some (OK, [], scratch)"
  shows "ReadBlock read a False \<lparr>bh_offset = off, bh_size = - 5\<rparr> = None"
proof -
  have "unat (- 5 :: 64 word) = 2 ^ 64 - 5" by simp
  then show ?thesis using assms by (simp add: ReadBlock_def kBlockTrailerSize_def ok_def size_t_def Let_def)
qed

text \<open>The check of a mapped file adds two 64-bit numbers as well.\<close>

lemma PosixMmap_Read_wraps:
  assumes "0 < length (mf_contents f)" "length (mf_contents f) < 2 ^ 64"
  shows "PosixMmap_Read f (2 ^ 64 - 1) 2 = None"
  using assms by (simp add: PosixMmap_Read_def size_t_def)

end
