(* ===== verification/Ldb_Bloom.thy ===== *)
theory Ldb_Bloom
  imports Ldb_Coding
begin

text \<open>
  Hashing (\<^verbatim>\<open>hash.cc\<close>), the interface \<^verbatim>\<open>FilterPolicy\<close> (\<^verbatim>\<open>filter_policy.h\<close>) as a locale, and the Bloom filter
  that implements it (\<^verbatim>\<open>bloom.cc\<close>).
\<close>

subsection \<open>Hash\<close>

text \<open>The switch over the last bytes falls through from the case of three bytes to that of one.\<close>

definition hash_tail :: "32 word \<Rightarrow> byte list \<Rightarrow> 32 word" where
  "hash_tail h data =
     (let m = 0xc6a4a793; n = length data;
          h = (if n \<ge> 3 then h + push_bit 16 (ucast (data ! 2)) else h);
          h = (if n \<ge> 2 then h + push_bit 8 (ucast (data ! 1)) else h)
      in if n \<ge> 1 then (let h = (h + ucast (data ! 0)) * m in h XOR drop_bit 24 h) else h)"

fun hash_loop :: "32 word \<Rightarrow> byte list \<Rightarrow> 32 word" where
  "hash_loop h (b0 # b1 # b2 # b3 # data) =
     (let m = 0xc6a4a793; w = word_of_nat (le_nat [b0, b1, b2, b3]); h = (h + w) * m
      in hash_loop (h XOR drop_bit 16 h) data)"
| "hash_loop h data = hash_tail h data"

definition Hash :: "byte list \<Rightarrow> 32 word \<Rightarrow> 32 word" where
  "Hash data seed = hash_loop (seed XOR (word_of_nat (length data) * 0xc6a4a793)) data"

subsection \<open>The interface of filters\<close>

text \<open>\<open>CreateFilter keys dst\<close> appends a filter for some keys to \<open>dst\<close>; it matches each of these keys.\<close>

locale filter_policy =
  fixes CreateFilter :: "slice list \<Rightarrow> byte list \<Rightarrow> byte list"
    and KeyMayMatch :: "slice \<Rightarrow> slice \<Rightarrow> bool"
  assumes create_appends: "CreateFilter keys dst = dst @ CreateFilter keys []"
    and no_false_negative: "key \<in> set keys \<Longrightarrow> KeyMayMatch key (CreateFilter keys [])"

subsection \<open>The Bloom filter\<close>

definition BloomHash :: "slice \<Rightarrow> 32 word" where
  "BloomHash key = Hash key 0xbc9f1d34"

text \<open>
  The number of probes. The source multiplies by the floating-point number 0.69 and rounds down;
  up to the bound of 30 probes this is exact.
\<close>

definition bloom_k :: "nat \<Rightarrow> nat" where
  "bloom_k bits_per_key =
     (let k = bits_per_key * 69 div 100; k = (if k < 1 then 1 else k) in if k > 30 then 30 else k)"

definition rotate_right_17 :: "32 word \<Rightarrow> 32 word" where
  "rotate_right_17 h = drop_bit 17 h OR push_bit 15 h"

fun set_probes :: "nat \<Rightarrow> 32 word \<Rightarrow> 32 word \<Rightarrow> nat \<Rightarrow> byte list \<Rightarrow> byte list" where
  "set_probes 0 h delta bits array = array"
| "set_probes (Suc k) h delta bits array =
     (let bitpos = unat h mod bits
      in set_probes k (h + delta) delta bits
           (array[bitpos div 8 := array ! (bitpos div 8) OR push_bit (bitpos mod 8) 1]))"

fun set_keys :: "nat \<Rightarrow> slice list \<Rightarrow> nat \<Rightarrow> byte list \<Rightarrow> byte list" where
  "set_keys k [] bits array = array"
| "set_keys k (key # keys) bits array =
     (let h = BloomHash key in set_keys k keys bits (set_probes k h (rotate_right_17 h) bits array))"

definition Bloom_CreateFilter :: "nat \<Rightarrow> slice list \<Rightarrow> byte list \<Rightarrow> byte list" where
  "Bloom_CreateFilter bits_per_key keys dst =
     (let bits = length keys * bits_per_key; bits = (if bits < 64 then 64 else bits);
          nbytes = (bits + 7) div 8; bits = nbytes * 8; k = bloom_k bits_per_key
      in dst @ set_keys k keys bits (replicate nbytes 0) @ [word_of_nat k])"

fun test_probes :: "nat \<Rightarrow> 32 word \<Rightarrow> 32 word \<Rightarrow> nat \<Rightarrow> byte list \<Rightarrow> bool" where
  "test_probes 0 h delta bits array = True"
| "test_probes (Suc k) h delta bits array =
     (let bitpos = unat h mod bits
      in if array ! (bitpos div 8) AND push_bit (bitpos mod 8) 1 = 0 then False
         else test_probes k (h + delta) delta bits array)"

text \<open>\<^verbatim>\<open>const size_t k = array[len - 1];\<close> converts a signed character.\<close>

definition char_to_size_t :: "byte \<Rightarrow> nat" where
  "char_to_size_t b = (if unat b < 128 then unat b else 2 ^ 64 - 256 + unat b)"

definition Bloom_KeyMayMatch :: "slice \<Rightarrow> slice \<Rightarrow> bool" where
  "Bloom_KeyMayMatch key bloom_filter =
     (let len = length bloom_filter in
      if len < 2 then False
      else let bits = (len - 1) * 8; k = char_to_size_t (bloom_filter ! (len - 1)) in
        if k > 30 then True
        else let h = BloomHash key in test_probes k h (rotate_right_17 h) bits bloom_filter)"

subsection \<open>No false negatives\<close>

text \<open>Bit \<open>p\<close> of an array of bytes.\<close>

definition array_bit :: "byte list \<Rightarrow> nat \<Rightarrow> bool" where
  "array_bit array p = bit (array ! (p div 8)) (p mod 8)"

lemma bit_test: "array ! (p div 8) AND 2 ^ (p mod 8) = 0 \<longleftrightarrow> \<not> array_bit array p"
  using and_exp_eq_0_iff_not_bit [of "array ! (p div 8)" "p mod 8"] by (simp add: array_bit_def)

lemma array_bit_set:
  assumes "p div 8 < length array"
  shows "array_bit (array[p div 8 := array ! (p div 8) OR 2 ^ (p mod 8)]) q \<longleftrightarrow> array_bit array q \<or> q = p"
proof (cases "q div 8 = p div 8")
  case True
  have "q mod 8 = p mod 8 \<longleftrightarrow> q = p" using True by (metis mod_div_mult_eq)
  moreover have "bit (2 ^ (p mod 8) :: byte) (q mod 8) \<longleftrightarrow> q mod 8 = p mod 8"
    by (auto simp: bit_exp_iff)
  ultimately show ?thesis using True assms by (auto simp: array_bit_def bit_or_iff)
next
  case False
  then show ?thesis by (auto simp: array_bit_def)
qed

lemma set_probes_length [simp]: "length (set_probes k h d bits array) = length array"
  by (induction k h d bits array rule: set_probes.induct) (auto simp: Let_def)

lemma set_keys_length [simp]: "length (set_keys k keys bits array) = length array"
  by (induction k keys bits array rule: set_keys.induct) (auto simp: Let_def)

fun probes :: "nat \<Rightarrow> 32 word \<Rightarrow> 32 word \<Rightarrow> nat \<Rightarrow> nat set" where
  "probes 0 h d bits = {}"
| "probes (Suc k) h d bits = insert (unat h mod bits) (probes k (h + d) d bits)"

lemma set_probes_bits:
  assumes "0 < bits" "bits = 8 * length array"
  shows "array_bit (set_probes k h d bits array) q \<longleftrightarrow> array_bit array q \<or> q \<in> probes k h d bits"
  using assms
proof (induction k h d bits array rule: set_probes.induct)
  case (2 k h d bits array)
  have "unat h mod bits < bits" using "2.prems" by simp
  then have "unat h mod bits div 8 < length array"
    unfolding div_less_iff_less_mult [OF zero_less_numeral] using "2.prems"(2) by (simp add: mult.commute)
  with 2 show ?case by (auto simp: Let_def array_bit_set)
qed simp

lemma set_keys_bits:
  assumes "0 < bits" "bits = 8 * length array"
  shows "array_bit (set_keys k keys bits array) q \<longleftrightarrow>
    array_bit array q \<or> (\<exists>key \<in> set keys. q \<in> probes k (BloomHash key) (rotate_right_17 (BloomHash key)) bits)"
  using assms by (induction k keys bits array rule: set_keys.induct) (auto simp: Let_def set_probes_bits)

lemma test_probes_bits: "test_probes k h d bits array \<longleftrightarrow> (\<forall>q \<in> probes k h d bits. array_bit array q)"
  by (induction k h d bits array rule: test_probes.induct) (auto simp: Let_def bit_test)

lemma probes_bound: "0 < bits \<Longrightarrow> q \<in> probes k h d bits \<Longrightarrow> q < bits"
  by (induction k h d bits rule: probes.induct) auto

lemma array_bit_append: "q < 8 * length a \<Longrightarrow> array_bit (a @ b) q = array_bit a q"
  by (simp add: array_bit_def nth_append less_mult_imp_div_less mult.commute)

lemma bloom_k_bounds: "1 \<le> bloom_k n" "bloom_k n \<le> 30"
  by (auto simp: bloom_k_def Let_def)

lemma Bloom_match_iff:
  fixes bpk keys
  defines "n \<equiv> ((if length keys * bpk < 64 then 64 else length keys * bpk) + 7) div 8"
  defines "a \<equiv> set_keys (bloom_k bpk) keys (n * 8) (replicate n 0)"
  shows "Bloom_CreateFilter bpk keys [] = a @ [word_of_nat (bloom_k bpk)]" "length a = n" "0 < n"
    "Bloom_KeyMayMatch key (Bloom_CreateFilter bpk keys []) \<longleftrightarrow>
      (\<forall>q \<in> probes (bloom_k bpk) (BloomHash key) (rotate_right_17 (BloomHash key)) (n * 8). array_bit a q)"
proof -
  show f: "Bloom_CreateFilter bpk keys [] = a @ [word_of_nat (bloom_k bpk)]"
    by (simp add: Bloom_CreateFilter_def a_def n_def Let_def)
  show len: "length a = n" by (simp add: a_def)
  have "64 \<le> (if length keys * bpk < 64 then 64 else length keys * bpk)" by (simp split: if_split)
  then have "8 \<le> (if length keys * bpk < 64 then 64 else length keys * bpk) + 7" by linarith
  then show n: "0 < n" unfolding n_def div_greater_zero_iff by simp
  have k: "char_to_size_t ((a @ [word_of_nat (bloom_k bpk)]) ! n) = bloom_k bpk"
    using bloom_k_bounds [of bpk] nth_append_length [of a] by (simp add: len char_to_size_t_def unat_of_nat)
  show "Bloom_KeyMayMatch key (Bloom_CreateFilter bpk keys []) \<longleftrightarrow>
      (\<forall>q \<in> probes (bloom_k bpk) (BloomHash key) (rotate_right_17 (BloomHash key)) (n * 8). array_bit a q)"
    using n bloom_k_bounds(2) [of bpk] probes_bound [of "n * 8"] array_bit_append [of _ a]
    by (auto simp: f len k Bloom_KeyMayMatch_def test_probes_bits Let_def mult.commute [of 8])
qed

interpretation bloom: filter_policy "Bloom_CreateFilter bits_per_key" Bloom_KeyMayMatch for bits_per_key
proof
  show "Bloom_CreateFilter bits_per_key keys dst = dst @ Bloom_CreateFilter bits_per_key keys []" for keys dst
    by (simp add: Bloom_CreateFilter_def Let_def)
  show "Bloom_KeyMayMatch key (Bloom_CreateFilter bits_per_key keys [])" if "key \<in> set keys" for key keys
    using that Bloom_match_iff(3) [of keys bits_per_key] by (auto simp: Bloom_match_iff(4) set_keys_bits)
qed

text \<open>
  C30. A filter matches every key it was made for, for any number of bits per key; and a filter for
  no keys matches none, so a filter can also say no.
\<close>

theorem bloom_filter_correct:
  "(\<forall>key \<in> set keys. Bloom_KeyMayMatch key (Bloom_CreateFilter bits_per_key keys [])) \<and>
   \<not> Bloom_KeyMayMatch key' (Bloom_CreateFilter bits_per_key [] [])"
proof -
  obtain k where k: "bloom_k bits_per_key = Suc k" using bloom_k_bounds(1) [of bits_per_key] by (cases "bloom_k bits_per_key") auto
  have "x mod 64 div 8 < 8" for x :: nat by (simp add: div_less_iff_less_mult)
  then have "\<not> array_bit (replicate 8 0) (x mod 64)" for x by (simp add: array_bit_def)
  then have "\<not> Bloom_KeyMayMatch key' (Bloom_CreateFilter bits_per_key [] [])"
    unfolding Bloom_match_iff(4) by (simp add: k)
  then show ?thesis using bloom.no_false_negative by blast
qed

theorem bloom_filter_correct_witness:
  "Bloom_KeyMayMatch [1, 2] (Bloom_CreateFilter 10 [[5], [1, 2]] [])"
  using bloom_filter_correct [of "[[5], [1, 2]]" 10] by simp

end
