(* ===== verification/Ldb_Filter_Block.thy ===== *)
theory Ldb_Filter_Block
  imports Ldb_Bloom "HOL-Library.Monad_Syntax"
begin

text \<open>
  Filter blocks of tables (\<^verbatim>\<open>filter_block.cc\<close>): one filter for the keys of every 2 KB of data. The filter
  policy is a parameter, the two operations of the interface of Ldb\_Bloom.
\<close>

subsection \<open>The builder\<close>

definition kFilterBaseLg :: nat where
  "kFilterBaseLg = 11"

definition kFilterBase :: nat where
  "kFilterBase = 2 ^ kFilterBaseLg"

record FilterBlockBuilder =
  fb_keys :: "byte list"
  fb_start :: "nat list"
  fb_result :: "byte list"
  fb_filter_offsets :: "32 word list"

definition make_FilterBlockBuilder :: FilterBlockBuilder where
  "make_FilterBlockBuilder = \<lparr>fb_keys = [], fb_start = [], fb_result = [], fb_filter_offsets = []\<rparr>"

text \<open>The loop that cuts the flattened keys apart, with the end of the keys pushed to the starts.\<close>

definition tmp_keys :: "byte list \<Rightarrow> nat list \<Rightarrow> slice list" where
  "tmp_keys keys start =
     map (\<lambda>i. take (start ! (i + 1) - start ! i) (drop (start ! i) keys)) [0..<length start - 1]"

definition GenerateFilter :: "(slice list \<Rightarrow> byte list \<Rightarrow> byte list) \<Rightarrow> FilterBlockBuilder \<Rightarrow> FilterBlockBuilder" where
  "GenerateFilter create b =
     (if length (fb_start b) = 0
      then b\<lparr>fb_filter_offsets := fb_filter_offsets b @ [word_of_nat (length (fb_result b))]\<rparr>
      else let keys = tmp_keys (fb_keys b) (fb_start b @ [length (fb_keys b)]) in
        \<lparr>fb_keys = [], fb_start = [], fb_result = create keys (fb_result b),
         fb_filter_offsets = fb_filter_offsets b @ [word_of_nat (length (fb_result b))]\<rparr>)"

function start_block_loop :: "(slice list \<Rightarrow> byte list \<Rightarrow> byte list) \<Rightarrow> nat \<Rightarrow> FilterBlockBuilder \<Rightarrow> FilterBlockBuilder" where
  "start_block_loop create filter_index b =
     (if filter_index > length (fb_filter_offsets b) then start_block_loop create filter_index (GenerateFilter create b)
      else b)"
  by pat_completeness auto
termination
  by (relation "measure (\<lambda>(create, i, b). i - length (fb_filter_offsets b))") (auto simp: GenerateFilter_def Let_def)

declare start_block_loop.simps [simp del]

text \<open>The assertion is the guard.\<close>

definition StartBlock ::
  "(slice list \<Rightarrow> byte list \<Rightarrow> byte list) \<Rightarrow> nat \<Rightarrow> FilterBlockBuilder \<Rightarrow> FilterBlockBuilder option" where
  "StartBlock create block_offset b =
     (let filter_index = block_offset div kFilterBase in
      if filter_index \<ge> length (fb_filter_offsets b) then Some (start_block_loop create filter_index b) else None)"

definition AddKey :: "slice \<Rightarrow> FilterBlockBuilder \<Rightarrow> FilterBlockBuilder" where
  "AddKey key b = b\<lparr>fb_start := fb_start b @ [length (fb_keys b)], fb_keys := fb_keys b @ key\<rparr>"

definition FilterBlock_Finish :: "(slice list \<Rightarrow> byte list \<Rightarrow> byte list) \<Rightarrow> FilterBlockBuilder \<Rightarrow> byte list" where
  "FilterBlock_Finish create b =
     (let b = (if fb_start b \<noteq> [] then GenerateFilter create b else b);
          array_offset = word_of_nat (length (fb_result b)) :: 32 word;
          result = fold (\<lambda>off r. PutFixed32 r off) (fb_filter_offsets b) (fb_result b)
      in PutFixed32 result array_offset @ [word_of_nat kFilterBaseLg])"

subsection \<open>The reader\<close>

text \<open>\<open>fr_offset\<close> is \<^verbatim>\<open>offset_ - data_\<close>. The block is kept as it is when it is malformed, with no filters.\<close>

record FilterBlockReader =
  fr_data :: slice
  fr_offset :: nat
  fr_num :: nat
  fr_base_lg :: nat

definition make_FilterBlockReader :: "slice \<Rightarrow> FilterBlockReader" where
  "make_FilterBlockReader contents =
     (let n = length contents in
      if n < 5 then \<lparr>fr_data = [], fr_offset = 0, fr_num = 0, fr_base_lg = 0\<rparr>
      else let base_lg = char_to_size_t (contents ! (n - 1));
               last_word = le_nat (take 4 (drop (n - 5) contents))
        in if last_word > n - 5 then \<lparr>fr_data = [], fr_offset = 0, fr_num = 0, fr_base_lg = base_lg\<rparr>
           else \<lparr>fr_data = contents, fr_offset = last_word, fr_num = (n - 5 - last_word) div 4, fr_base_lg = base_lg\<rparr>)"

text \<open>A shift by 64 or more places has no defined result in the source.\<close>

definition FilterBlock_KeyMayMatch ::
  "(slice \<Rightarrow> slice \<Rightarrow> bool) \<Rightarrow> FilterBlockReader \<Rightarrow> nat \<Rightarrow> slice \<Rightarrow> bool option" where
  "FilterBlock_KeyMayMatch matches r block_offset key =
     (if fr_base_lg r \<ge> 64 then None
      else let index = block_offset div 2 ^ fr_base_lg r in
        if index < fr_num r then do {
          start \<leftarrow> DecodeFixed32 (drop (fr_offset r + index * 4) (fr_data r));
          lim \<leftarrow> DecodeFixed32 (drop (fr_offset r + index * 4 + 4) (fr_data r));
          if start \<le> lim \<and> unat lim \<le> fr_offset r
          then Some (matches key (take (unat lim - unat start) (drop (unat start) (fr_data r))))
          else if start = lim then Some False
          else Some True
        }
        else Some True)"

subsection \<open>What the builder has built\<close>

definition starts :: "'a list list \<Rightarrow> nat list" where
  "starts ps = map (\<lambda>i. length (concat (take i ps))) [0..<length ps]"

lemma length_starts [simp]: "length (starts ps) = length ps"
  by (simp add: starts_def)

lemma starts_end: "starts ps @ [length (concat ps)] = map (\<lambda>i. length (concat (take i ps))) [0..<Suc (length ps)]"
  by (simp add: starts_def)

lemma piece:
  assumes "i < length ps"
  shows "take (length (concat (take (Suc i) ps)) - length (concat (take i ps))) (drop (length (concat (take i ps))) (concat ps)) = ps ! i"
proof -
  have "concat ps = concat (take i ps) @ ps ! i @ concat (drop (Suc i) ps)"
    using arg_cong [OF id_take_nth_drop [OF assms], of concat] by simp
  moreover have "concat (take (Suc i) ps) = concat (take i ps) @ ps ! i" using assms by (simp add: take_Suc_conv_app_nth)
  ultimately show ?thesis by simp
qed

lemma tmp_keys_flat: "tmp_keys (concat ps) (starts ps @ [length (concat ps)]) = ps"
  unfolding starts_end tmp_keys_def by (auto intro!: nth_equalityI simp: piece simp del: upt_Suc)

definition in_group :: "slice list list \<Rightarrow> slice list \<Rightarrow> nat \<Rightarrow> slice \<Rightarrow> bool" where
  "in_group gs ps j key \<longleftrightarrow> j < length gs \<and> key \<in> set (gs ! j) \<or> j = length gs \<and> key \<in> set ps"

text \<open>The calls the interface asks for: the keys of each block behind the start of that block.\<close>

fun add_blocks ::
  "(slice list \<Rightarrow> byte list \<Rightarrow> byte list) \<Rightarrow> (nat \<times> slice list) list \<Rightarrow> FilterBlockBuilder \<Rightarrow> FilterBlockBuilder option" where
  "add_blocks create [] b = Some b"
| "add_blocks create ((off, keys) # bs) b = do {
     b \<leftarrow> StartBlock create off b;
     add_blocks create bs (fold AddKey keys b)
   }"

lemma length_encoded [simp]: "length (concat (map (\<lambda>x. EncodeFixed32 (f x)) xs)) = 4 * length xs"
  by (induction xs) auto

lemma DecodeFixed32_at:
  "i < length ws \<Longrightarrow> DecodeFixed32 (drop (i * 4) (concat (map EncodeFixed32 ws) @ rest)) = Some (ws ! i)"
proof (induction ws arbitrary: i)
  case (Cons w ws)
  then show ?case by (cases i) simp_all
qed simp

context filter_policy
begin

text \<open>The filter of a group of keys; \<open>gs\<close> are the groups that have their filters, \<open>ps\<close> the keys that wait.\<close>

definition filter_of :: "slice list \<Rightarrow> byte list" where
  "filter_of ks = (if ks = [] then [] else CreateFilter ks [])"

definition built :: "FilterBlockBuilder \<Rightarrow> slice list list \<Rightarrow> slice list \<Rightarrow> bool" where
  "built b gs ps \<longleftrightarrow> fb_keys b = concat ps \<and> fb_start b = starts ps \<and> fb_result b = concat (map filter_of gs) \<and>
     fb_filter_offsets b = map word_of_nat (starts (map filter_of gs))"

lemma starts_snoc: "starts (xs @ [x]) = starts xs @ [length (concat xs)]"
  by (auto simp: starts_def intro!: nth_equalityI)

lemma built_Generate:
  assumes "built b gs ps"
  shows "built (GenerateFilter CreateFilter b) (gs @ [ps]) []"
proof (cases "ps = []")
  case True
  with assms show ?thesis by (simp add: built_def GenerateFilter_def starts_snoc filter_of_def starts_def)
next
  case False
  then have "fb_start b \<noteq> []" using assms by (simp add: built_def starts_def)
  moreover have "tmp_keys (fb_keys b) (fb_start b @ [length (fb_keys b)]) = ps"
    using assms tmp_keys_flat [of ps] by (simp add: built_def)
  ultimately show ?thesis
    using assms False create_appends [of ps "fb_result b"]
    by (simp add: built_def GenerateFilter_def starts_snoc filter_of_def Let_def) (simp add: starts_def)
qed

lemma built_loop:
  assumes "built b gs ps" "length gs \<le> i"
  shows "\<exists>gs' ps'. built (start_block_loop CreateFilter i b) gs' ps' \<and> length gs' = i \<and>
    (\<forall>j key. in_group gs ps j key \<longrightarrow> in_group gs' ps' j key)"
  using assms
proof (induction "i - length gs" arbitrary: b gs ps)
  case 0
  then show ?case by (subst start_block_loop.simps) (auto simp: built_def starts_def)
next
  case (Suc n)
  have "built (GenerateFilter CreateFilter b) (gs @ [ps]) []" by (rule built_Generate [OF Suc.prems(1)])
  moreover have "n = i - length (gs @ [ps])" "length (gs @ [ps]) \<le> i" using Suc.hyps(2) by auto
  ultimately obtain gs' ps' where
    "built (start_block_loop CreateFilter i (GenerateFilter CreateFilter b)) gs' ps'" "length gs' = i"
    "\<forall>j key. in_group (gs @ [ps]) [] j key \<longrightarrow> in_group gs' ps' j key"
    using Suc.hyps(1) by blast
  moreover have "in_group (gs @ [ps]) [] j key" if "in_group gs ps j key" for j key
    using that by (auto simp: in_group_def nth_append less_Suc_eq)
  moreover have "length (fb_filter_offsets b) = length gs" using Suc.prems(1) by (simp add: built_def starts_def)
  moreover from this have "start_block_loop CreateFilter i b = start_block_loop CreateFilter i (GenerateFilter CreateFilter b)"
    using Suc.hyps(2) by (subst start_block_loop.simps) simp
  ultimately show ?case by metis
qed

lemma built_AddKey: "built b gs ps \<Longrightarrow> built (AddKey key b) gs (ps @ [key])"
  by (simp add: built_def AddKey_def starts_snoc)

lemma built_AddKeys: "built b gs ps \<Longrightarrow> built (fold AddKey keys b) gs (ps @ keys)"
proof (induction keys arbitrary: b ps)
  case (Cons key keys)
  from Cons.IH [OF built_AddKey [OF Cons.prems]] show ?case by simp
qed simp

lemma built_blocks:
  assumes "built b gs ps" "sorted (map fst bs)" "\<forall>(off, keys) \<in> set bs. length gs * kFilterBase \<le> off"
  shows "\<exists>b' gs' ps'. add_blocks CreateFilter bs b = Some b' \<and> built b' gs' ps' \<and>
    (\<forall>j key. in_group gs ps j key \<longrightarrow> in_group gs' ps' j key) \<and>
    (\<forall>(off, keys) \<in> set bs. \<forall>key \<in> set keys. in_group gs' ps' (off div kFilterBase) key)"
  using assms
proof (induction bs arbitrary: b gs ps)
  case (Cons a bs)
  obtain off keys where a: "a = (off, keys)" by fastforce
  have base: "0 < kFilterBase" by (simp add: kFilterBase_def)
  have "length gs \<le> off div kFilterBase" using Cons.prems(3) a base by (simp add: less_eq_div_iff_mult_less_eq)
  from built_loop [OF Cons.prems(1) this] obtain gs1 ps1 where 1:
    "built (start_block_loop CreateFilter (off div kFilterBase) b) gs1 ps1" "length gs1 = off div kFilterBase"
    "\<forall>j key. in_group gs ps j key \<longrightarrow> in_group gs1 ps1 j key" by blast
  let ?b = "fold AddKey keys (start_block_loop CreateFilter (off div kFilterBase) b)"
  have b2: "built ?b gs1 (ps1 @ keys)" by (rule built_AddKeys [OF 1(1)])
  have more: "in_group gs1 (ps1 @ keys) j key" if "in_group gs1 ps1 j key \<or> j = length gs1 \<and> key \<in> set keys" for j key
    using that by (auto simp: in_group_def)
  have "\<forall>(off', keys) \<in> set bs. length gs1 * kFilterBase \<le> off'"
  proof (clarify)
    fix off' keys' assume "(off', keys') \<in> set bs"
    then have "off \<le> off'" using Cons.prems(2) a by force
    then show "length gs1 * kFilterBase \<le> off'" unfolding 1(2) using div_times_less_eq_dividend [of off kFilterBase] by linarith
  qed
  with Cons.IH [OF b2] Cons.prems(2) a obtain b' gs' ps' where 2: "add_blocks CreateFilter bs ?b = Some b'" "built b' gs' ps'"
    "\<forall>j key. in_group gs1 (ps1 @ keys) j key \<longrightarrow> in_group gs' ps' j key"
    "\<forall>(off, keys) \<in> set bs. \<forall>key \<in> set keys. in_group gs' ps' (off div kFilterBase) key" by auto
  have "StartBlock CreateFilter off b = Some (start_block_loop CreateFilter (off div kFilterBase) b)"
    using Cons.prems(1) \<open>length gs \<le> _\<close> by (simp add: StartBlock_def built_def starts_def)
  with 1(2,3) 2 more a show ?case by (intro exI [of _ b'] exI [of _ gs'] exI [of _ ps']) auto
qed auto

subsection \<open>Reading it back\<close>

definition block_of :: "slice list list \<Rightarrow> byte list" where
  "block_of gs = concat (map filter_of gs) @ concat (map (\<lambda>off. EncodeFixed32 (word_of_nat off)) (starts (map filter_of gs))) @
     EncodeFixed32 (word_of_nat (length (concat (map filter_of gs)))) @ [11]"

lemma fold_PutFixed32: "fold (\<lambda>off r. r @ EncodeFixed32 off) offs r = r @ concat (map EncodeFixed32 offs)"
  by (induction offs arbitrary: r) auto

lemma Finish_built:
  assumes "built b gs ps"
  shows "FilterBlock_Finish CreateFilter b = block_of (if ps = [] then gs else gs @ [ps])"
proof -
  let ?b = "if fb_start b \<noteq> [] then GenerateFilter CreateFilter b else b" and ?gs = "if ps = [] then gs else gs @ [ps]"
  have "fb_start b = [] \<longleftrightarrow> ps = []" using assms by (simp add: built_def starts_def)
  then have "fb_result ?b = concat (map filter_of ?gs)" "fb_filter_offsets ?b = map word_of_nat (starts (map filter_of ?gs))"
    using assms built_Generate [OF assms] by (auto simp: built_def)
  then show ?thesis
    by (simp add: FilterBlock_Finish_def block_of_def fold_PutFixed32 PutFixed32_def kFilterBaseLg_def comp_def Let_def)
qed

lemma match_built:
  assumes "length (concat (map filter_of gs)) < 2 ^ 32" "j < length gs" "key \<in> set (gs ! j)" "off div kFilterBase = j"
  shows "FilterBlock_KeyMayMatch KeyMayMatch (make_FilterBlockReader (block_of gs)) off key = Some True"
proof -
  let ?fs = "map filter_of gs" let ?D = "concat ?fs"
  let ?p = "\<lambda>i. length (concat (take i ?fs))" let ?ws = "map (\<lambda>i. word_of_nat (?p i) :: 32 word) [0..<Suc (length gs)]"
  have c: "block_of gs = ?D @ concat (map EncodeFixed32 ?ws) @ [11]"
    unfolding block_of_def starts_def by (simp add: comp_def)
  have n: "length (block_of gs) = length ?D + 4 * length gs + 5" unfolding block_of_def by simp
  have p: "?p i \<le> length ?D" "unat (word_of_nat (?p i) :: 32 word) = ?p i" for i
  proof -
    have "concat ?fs = concat (take i ?fs) @ concat (drop i ?fs)" by (metis append_take_drop_id concat_append)
    then show le: "?p i \<le> length ?D" by (metis le_add1 length_append)
    then show "unat (word_of_nat (?p i) :: 32 word) = ?p i" using assms(1) by (simp add: unat_of_nat take_bit_eq_mod)
  qed
  have d: "DecodeFixed32 (drop (length ?D + i * 4) (block_of gs)) = Some (word_of_nat (?p i))" if "i \<le> length gs" for i
    using that DecodeFixed32_at [of i ?ws "[11]"] unfolding c by (simp del: upt_Suc)
  have "take 4 (drop (length (block_of gs) - 5) (block_of gs)) = EncodeFixed32 (word_of_nat (?p (length gs)))"
    unfolding n unfolding block_of_def by simp
  then have lw: "le_nat (take 4 (drop (length (block_of gs) - 5) (block_of gs))) = length ?D"
    using p(2) [of "length gs"] assms(1) by (simp add: EncodeFixed32_def le_nat_nat_le)
  have "block_of gs ! (length (block_of gs) - 1) = 11" unfolding block_of_def by (simp add: nth_append)
  then have r: "make_FilterBlockReader (block_of gs) = \<lparr>fr_data = block_of gs, fr_offset = length ?D, fr_num = length gs, fr_base_lg = 11\<rparr>"
    using n lw by (simp add: make_FilterBlockReader_def Let_def char_to_size_t_def)
  have "take (?p (Suc j) - ?p j) (drop (?p j) (block_of gs)) = ?fs ! j"
    using piece [of j ?fs] assms(2) p(1) [of j] p(1) [of "Suc j"] unfolding c by simp
  moreover have "gs ! j \<noteq> []" using assms(3) by auto
  ultimately have m: "KeyMayMatch key (take (?p (Suc j) - ?p j) (drop (?p j) (block_of gs)))"
    using no_false_negative [OF assms(3)] assms(2) by (simp add: filter_of_def)
  have le: "?p j \<le> ?p (Suc j)" using assms(2) by (simp add: take_Suc_conv_app_nth)
  have off: "off div 2048 = j" using assms(4) by (simp add: kFilterBase_def kFilterBaseLg_def)
  show ?thesis
    using d [of j] d [of "Suc j"] assms(2) m p [of j] p [of "Suc j"] le
    by (simp add: FilterBlock_KeyMayMatch_def r off word_le_nat_alt Let_def algebra_simps del: of_nat_add)
qed

lemma built_make: "built make_FilterBlockBuilder [] []"
  by (simp add: built_def make_FilterBlockBuilder_def starts_def)

lemma add_blocks_total: "sorted (map fst bs) \<Longrightarrow> \<exists>b. add_blocks CreateFilter bs make_FilterBlockBuilder = Some b"
  using built_blocks [OF built_make] by fastforce

lemma add_blocks_match:
  assumes "sorted (map fst bs)" "add_blocks CreateFilter bs make_FilterBlockBuilder = Some b"
    "(off, keys) \<in> set bs" "key \<in> set keys" "length (FilterBlock_Finish CreateFilter b) < 2 ^ 32"
  shows "FilterBlock_KeyMayMatch KeyMayMatch (make_FilterBlockReader (FilterBlock_Finish CreateFilter b)) off key = Some True"
proof -
  from built_blocks [OF built_make assms(1)] obtain gs ps where
    b: "built b gs ps" "in_group gs ps (off div kFilterBase) key" using assms(2-4) by fastforce
  let ?gs = "if ps = [] then gs else gs @ [ps]"
  have g: "off div kFilterBase < length ?gs" "key \<in> set (?gs ! (off div kFilterBase))"
    using b(2) by (auto simp: in_group_def nth_append)
  have f: "FilterBlock_Finish CreateFilter b = block_of ?gs" by (rule Finish_built [OF b(1)])
  have "length (concat (map filter_of ?gs)) < 2 ^ 32" using assms(5) unfolding f by (simp add: block_of_def)
  from match_built [OF this g refl] f show ?thesis by simp
qed

end

text \<open>
  C31. A filter block answers yes for every key of every block of data it was built from. The blocks
  are given in the order of their offsets, any number of them in one range of 2 KB, and ranges may
  have none; the result must be of a size that its 32-bit offsets can express.
\<close>

theorem filter_block_correct:
  assumes "sorted (map fst bs)" "(off, keys) \<in> set bs" "key \<in> set keys"
  shows "\<exists>b. add_blocks (Bloom_CreateFilter bits_per_key) bs make_FilterBlockBuilder = Some b \<and>
    (length (FilterBlock_Finish (Bloom_CreateFilter bits_per_key) b) < 2 ^ 32 \<longrightarrow>
     FilterBlock_KeyMayMatch Bloom_KeyMayMatch
       (make_FilterBlockReader (FilterBlock_Finish (Bloom_CreateFilter bits_per_key) b)) off key = Some True)"
  using bloom.add_blocks_total [OF assms(1)] bloom.add_blocks_match [OF assms(1) _ assms(2,3)] by blast

theorem filter_block_correct_witness:
  "\<exists>b. add_blocks (Bloom_CreateFilter 10) [(0, [[2], [3]])] make_FilterBlockBuilder = Some b \<and>
    FilterBlock_KeyMayMatch Bloom_KeyMayMatch (make_FilterBlockReader (FilterBlock_Finish (Bloom_CreateFilter 10) b)) 0 [3] = Some True"
proof -
  obtain b where b: "add_blocks (Bloom_CreateFilter 10) [(0, [[2], [3]])] make_FilterBlockBuilder = Some b"
    "length (FilterBlock_Finish (Bloom_CreateFilter 10) b) < 2 ^ 32 \<longrightarrow>
      FilterBlock_KeyMayMatch Bloom_KeyMayMatch (make_FilterBlockReader (FilterBlock_Finish (Bloom_CreateFilter 10) b)) 0 [3] = Some True"
    using filter_block_correct [of "[(0, [[2], [3]])]" 0 "[[2], [3]]" "[3]" 10] by auto
  from b(1) have "b = \<lparr>fb_keys = [2, 3], fb_start = [0, 1], fb_result = [], fb_filter_offsets = []\<rparr>"
    by (simp add: StartBlock_def start_block_loop.simps make_FilterBlockBuilder_def AddKey_def)
  then have "length (FilterBlock_Finish (Bloom_CreateFilter 10) b) < 2 ^ 32"
    by (simp add: FilterBlock_Finish_def GenerateFilter_def tmp_keys_def Bloom_CreateFilter_def PutFixed32_def Let_def)
  with b show ?thesis by blast
qed

end
