(* ===== verification/Ldb_Block.thy ===== *)
theory Ldb_Block
  imports Ldb_Coding Ldb_Env "HOL-Library.Monad_Syntax"
begin

text \<open>
  Blocks of tables: the builder with its prefix compression (\<^verbatim>\<open>block_builder.cc\<close>) and the iterator that
  reads them (\<^verbatim>\<open>block.cc\<close>). Offsets in a block are natural numbers; they are 32-bit numbers in the
  source, and where a sum of two of them may wrap this is written out. A run is \<open>None\<close> when it
  violates an assertion or reads behind the end of the block.
\<close>

subsection \<open>The builder\<close>

record BlockBuilder =
  bb_buffer :: "byte list"
  bb_restarts :: "32 word list"
  bb_counter :: nat
  bb_finished :: bool
  bb_last_key :: slice

definition make_BlockBuilder :: BlockBuilder where
  "make_BlockBuilder = \<lparr>bb_buffer = [], bb_restarts = [0], bb_counter = 0, bb_finished = False, bb_last_key = []\<rparr>"

definition BlockBuilder_Reset :: "BlockBuilder \<Rightarrow> BlockBuilder" where
  "BlockBuilder_Reset b = \<lparr>bb_buffer = [], bb_restarts = [0], bb_counter = 0, bb_finished = False, bb_last_key = []\<rparr>"

definition CurrentSizeEstimate :: "BlockBuilder \<Rightarrow> nat" where
  "CurrentSizeEstimate b = length (bb_buffer b) + length (bb_restarts b) * 4 + 4"

fun shared_prefix :: "slice \<Rightarrow> slice \<Rightarrow> nat" where
  "shared_prefix (a # as) (b # bs) = (if a = b then Suc (shared_prefix as bs) else 0)"
| "shared_prefix _ _ = 0"

definition BlockBuilder_Add ::
  "(slice \<Rightarrow> slice \<Rightarrow> int) \<Rightarrow> nat \<Rightarrow> slice \<Rightarrow> slice \<Rightarrow> BlockBuilder \<Rightarrow> BlockBuilder option" where
  "BlockBuilder_Add cmp interval key val b =
     (if \<not> bb_finished b \<and> bb_counter b \<le> interval \<and> (bb_buffer b = [] \<or> cmp key (bb_last_key b) > 0) then
        let (shared, restarts, counter) =
              (if bb_counter b < interval then (shared_prefix (bb_last_key b) key, bb_restarts b, bb_counter b)
               else (0, bb_restarts b @ [word_of_nat (length (bb_buffer b))], 0));
            non_shared = length key - shared;
            buffer = PutVarint32 (PutVarint32 (PutVarint32 (bb_buffer b) (word_of_nat shared)) (word_of_nat non_shared))
              (word_of_nat (length val));
            last_key = take shared (bb_last_key b) @ drop shared key
        in if last_key = key
           then Some \<lparr>bb_buffer = buffer @ drop shared key @ val, bb_restarts = restarts, bb_counter = counter + 1,
                      bb_finished = False, bb_last_key = last_key\<rparr>
           else None
      else None)"

definition BlockBuilder_Finish :: "BlockBuilder \<Rightarrow> slice \<times> BlockBuilder" where
  "BlockBuilder_Finish b =
     (let buffer = fold (\<lambda>r buf. PutFixed32 buf r) (bb_restarts b) (bb_buffer b);
          buffer = PutFixed32 buffer (word_of_nat (length (bb_restarts b)))
      in (buffer, b\<lparr>bb_buffer := buffer, bb_finished := True\<rparr>))"

subsection \<open>Entries\<close>

text \<open>
  The entry at the front of \<open>rest\<close>, the bytes up to the restart array: the three lengths and the bytes
  behind them. The last check adds two 32-bit numbers.
\<close>

definition DecodeEntry :: "byte list \<Rightarrow> (nat \<times> nat \<times> nat \<times> byte list) option" where
  "DecodeEntry rest =
     (if length rest < 3 then None
      else do {
        (shared, non_shared, value_length, p) \<leftarrow>
          (if (rest ! 0 OR rest ! 1 OR rest ! 2) < 128
           then Some (ucast (rest ! 0) :: 32 word, ucast (rest ! 1) :: 32 word, ucast (rest ! 2) :: 32 word, drop 3 rest)
           else do {
             (shared, p) \<leftarrow> GetVarint32Ptr rest;
             (non_shared, p) \<leftarrow> GetVarint32Ptr p;
             (value_length, p) \<leftarrow> GetVarint32Ptr p;
             Some (shared, non_shared, value_length, p)
           });
        if (word_of_nat (length p) :: 32 word) < non_shared + value_length then None
        else Some (unat shared, unat non_shared, unat value_length, p)
      })"

subsection \<open>The iterator\<close>

text \<open>\<open>bi_value_offset\<close> is \<^verbatim>\<open>value_.data() - data_\<close>. The comparator is a parameter of the operations.\<close>

record BlockIter =
  bi_data :: slice
  bi_restarts :: nat
  bi_num_restarts :: nat
  bi_current :: nat
  bi_restart_index :: nat
  bi_key :: slice
  bi_value_offset :: nat
  bi_value :: slice
  bi_status :: Status

datatype new_iterator = Error_iterator Status | Empty_iterator | Block_iterator BlockIter

text \<open>The constructor of \<^verbatim>\<open>Block\<close> and \<^verbatim>\<open>NewIterator\<close>: a block that is too small for its restarts has size 0.\<close>

definition NumRestarts :: "slice \<Rightarrow> nat" where
  "NumRestarts data = le_nat (take 4 (drop (length data - 4) data))"

definition block_size :: "slice \<Rightarrow> nat" where
  "block_size data =
     (if length data < 4 then 0
      else if NumRestarts data > (length data - 4) div 4 then 0
      else length data)"

definition NewIterator :: "slice \<Rightarrow> new_iterator" where
  "NewIterator data =
     (if block_size data < 4 then Error_iterator (Corruption ''bad block contents'' [])
      else if NumRestarts data = 0 then Empty_iterator
      else let restarts = length data - (1 + NumRestarts data) * 4 in
        Block_iterator \<lparr>bi_data = data, bi_restarts = restarts, bi_num_restarts = NumRestarts data,
          bi_current = restarts, bi_restart_index = NumRestarts data, bi_key = [], bi_value_offset = 0,
          bi_value = [], bi_status = OK\<rparr>)"

definition Block_Valid :: "BlockIter \<Rightarrow> bool" where
  "Block_Valid it \<longleftrightarrow> bi_current it < bi_restarts it"

definition NextEntryOffset :: "BlockIter \<Rightarrow> nat" where
  "NextEntryOffset it = bi_value_offset it + length (bi_value it)"

definition GetRestartPoint :: "BlockIter \<Rightarrow> nat \<Rightarrow> nat option" where
  "GetRestartPoint it index =
     (if index < bi_num_restarts it
      then map_option unat (DecodeFixed32 (drop (bi_restarts it + index * 4) (bi_data it))) else None)"

definition SeekToRestartPoint :: "nat \<Rightarrow> BlockIter \<Rightarrow> BlockIter option" where
  "SeekToRestartPoint index it = do {
     off \<leftarrow> GetRestartPoint it index;
     Some (it\<lparr>bi_key := [], bi_restart_index := index, bi_value_offset := off, bi_value := []\<rparr>)
   }"

definition CorruptionError :: "BlockIter \<Rightarrow> BlockIter" where
  "CorruptionError it = it\<lparr>bi_current := bi_restarts it, bi_restart_index := bi_num_restarts it,
     bi_status := Corruption ''bad entry in block'' [], bi_key := [], bi_value := []\<rparr>"

text \<open>The bytes of the block from an offset up to the restart array.\<close>

definition region :: "BlockIter \<Rightarrow> nat \<Rightarrow> byte list" where
  "region it off = take (bi_restarts it - off) (drop off (bi_data it))"

function restart_loop :: "BlockIter \<Rightarrow> BlockIter option" where
  "restart_loop it =
     (if bi_restart_index it + 1 < bi_num_restarts it then do {
        off \<leftarrow> GetRestartPoint it (bi_restart_index it + 1);
        if off < bi_current it then restart_loop (it\<lparr>bi_restart_index := bi_restart_index it + 1\<rparr>) else Some it
      }
      else Some it)"
  by pat_completeness auto
termination by (relation "measure (\<lambda>it. bi_num_restarts it - bi_restart_index it)") auto

declare restart_loop.simps [simp del]

definition ParseNextKey :: "BlockIter \<Rightarrow> (bool \<times> BlockIter) option" where
  "ParseNextKey it =
     (let current = NextEntryOffset it; it = it\<lparr>bi_current := current\<rparr> in
      if current \<ge> bi_restarts it
      then Some (False, it\<lparr>bi_current := bi_restarts it, bi_restart_index := bi_num_restarts it\<rparr>)
      else (case DecodeEntry (region it current) of
              None \<Rightarrow> Some (False, CorruptionError it)
            | Some (shared, non_shared, value_length, p) \<Rightarrow>
                if length (bi_key it) < shared then Some (False, CorruptionError it)
                else let q = bi_restarts it - length p in
                  if q + non_shared + value_length > length (bi_data it) then None
                  else map_option (Pair True) (restart_loop
                    (it\<lparr>bi_key := take shared (bi_key it) @ take non_shared (drop q (bi_data it)),
                        bi_value_offset := q + non_shared,
                        bi_value := take value_length (drop (q + non_shared) (bi_data it))\<rparr>))))"

lemma GetVarint32Ptr_shorter:
  assumes "GetVarint32Ptr p = Some (v, q)"
  shows "length q < length p"
proof -
  obtain w q' where w: "varint_value (take 5 p) = Some (w, q')" and q: "q = drop (min 5 (length p) - length q') p"
    using assms by (auto simp: GetVarint32Ptr_eq split: option.splits)
  have "length q' < length (take 5 p)" using varint_value_length [of "take 5 p"] w by simp
  then show ?thesis using q by (cases p) auto
qed

lemma DecodeEntry_shorter: "DecodeEntry rest = Some (s, n, v, p) \<Longrightarrow> length p + 3 \<le> length rest"
  by (auto simp: DecodeEntry_def bind_eq_Some_conv split: if_splits dest!: GetVarint32Ptr_shorter)

lemma restart_loop_frame:
  "restart_loop it = Some it' \<Longrightarrow> \<exists>r. it' = it\<lparr>bi_restart_index := r\<rparr>"
proof (induction it rule: restart_loop.induct)
  case (1 it)
  have same: "\<exists>r. it = it\<lparr>bi_restart_index := r\<rparr>" by (rule exI [of _ "bi_restart_index it"]) simp
  consider "it' = it" | off where "bi_restart_index it + 1 < bi_num_restarts it"
      "GetRestartPoint it (bi_restart_index it + 1) = Some off" "off < bi_current it"
      "restart_loop (it\<lparr>bi_restart_index := bi_restart_index it + 1\<rparr>) = Some it'"
    using "1.prems" by (subst (asm) restart_loop.simps) (auto simp: bind_eq_Some_conv split: if_splits)
  then show ?case
  proof cases
    case 2
    from "1.IH" [OF this] show ?thesis by simp
  qed (use same in simp)
qed

lemma ParseNextKey_True:
  assumes "ParseNextKey it = Some (True, it')"
  obtains s n v p r where "NextEntryOffset it < bi_restarts it"
    "DecodeEntry (region it (NextEntryOffset it)) = Some (s, n, v, p)"
    "bi_restarts it - length p + n + v \<le> length (bi_data it)"
    "it' = it\<lparr>bi_current := NextEntryOffset it,
       bi_key := take s (bi_key it) @ take n (drop (bi_restarts it - length p) (bi_data it)),
       bi_value_offset := bi_restarts it - length p + n,
       bi_value := take v (drop (bi_restarts it - length p + n) (bi_data it)), bi_restart_index := r\<rparr>"
  using assms
  by (auto simp: ParseNextKey_def Let_def region_def not_less split: if_splits option.splits dest!: restart_loop_frame)

lemma ParseNextKey_advances:
  assumes "ParseNextKey it = Some (True, it')"
  shows "bi_restarts it' = bi_restarts it" "bi_current it' = NextEntryOffset it" "NextEntryOffset it < bi_restarts it"
    "NextEntryOffset it < NextEntryOffset it'" "bi_data it' = bi_data it" "bi_num_restarts it' = bi_num_restarts it"
proof -
  from assms obtain s n v p r where *: "NextEntryOffset it < bi_restarts it"
    "DecodeEntry (region it (NextEntryOffset it)) = Some (s, n, v, p)"
    "bi_restarts it - length p + n + v \<le> length (bi_data it)"
    "it' = it\<lparr>bi_current := NextEntryOffset it,
       bi_key := take s (bi_key it) @ take n (drop (bi_restarts it - length p) (bi_data it)),
       bi_value_offset := bi_restarts it - length p + n,
       bi_value := take v (drop (bi_restarts it - length p + n) (bi_data it)), bi_restart_index := r\<rparr>"
    by (rule ParseNextKey_True)
  show "bi_restarts it' = bi_restarts it" "bi_current it' = NextEntryOffset it" "NextEntryOffset it < bi_restarts it"
    "bi_data it' = bi_data it" "bi_num_restarts it' = bi_num_restarts it"
    using * by simp_all
  have "length p + 3 \<le> bi_restarts it - NextEntryOffset it"
    using DecodeEntry_shorter [OF *(2)] by (simp add: region_def)
  with * show "NextEntryOffset it < NextEntryOffset it'"
    by (simp add: NextEntryOffset_def)
qed

lemma ParseNextKey_measure:
  assumes "ParseNextKey it = Some (True, it')"
  shows "bi_restarts it' - NextEntryOffset it' < bi_restarts it - NextEntryOffset it"
  using ParseNextKey_advances(1,3,4) [OF assms] by simp

function linear_search :: "(slice \<Rightarrow> slice \<Rightarrow> int) \<Rightarrow> slice \<Rightarrow> BlockIter \<Rightarrow> BlockIter option" where
  "linear_search cmp target it = do {
     (found, it') \<leftarrow> ParseNextKey it;
     if \<not> found then Some it'
     else if cmp (bi_key it') target \<ge> 0 then Some it'
     else linear_search cmp target it'
   }"
  by pat_completeness auto
termination
  by (relation "measure (\<lambda>(cmp, target, it). bi_restarts it - NextEntryOffset it)")
    (auto dest: ParseNextKey_measure)

function parse_until :: "nat \<Rightarrow> BlockIter \<Rightarrow> BlockIter option" where
  "parse_until lim it = do {
     (found, it') \<leftarrow> ParseNextKey it;
     if found \<and> NextEntryOffset it' < lim then parse_until lim it' else Some it'
   }"
  by pat_completeness auto
termination
  by (relation "measure (\<lambda>(lim, it). bi_restarts it - NextEntryOffset it)")
    (auto dest: ParseNextKey_measure)

declare linear_search.simps [simp del] parse_until.simps [simp del]

definition Block_Next :: "BlockIter \<Rightarrow> BlockIter option" where
  "Block_Next it = (if Block_Valid it then map_option snd (ParseNextKey it) else None)"

definition Block_SeekToFirst :: "BlockIter \<Rightarrow> BlockIter option" where
  "Block_SeekToFirst it = do {
     it \<leftarrow> SeekToRestartPoint 0 it;
     map_option snd (ParseNextKey it)
   }"

definition Block_SeekToLast :: "BlockIter \<Rightarrow> BlockIter option" where
  "Block_SeekToLast it = do {
     it \<leftarrow> SeekToRestartPoint (bi_num_restarts it - 1) it;
     parse_until (bi_restarts it) it
   }"

text \<open>\<open>Inl\<close> is the iterator after the end, when there is no entry before the current one.\<close>

function restart_before :: "nat \<Rightarrow> BlockIter \<Rightarrow> (BlockIter + BlockIter) option" where
  "restart_before original it = do {
     off \<leftarrow> GetRestartPoint it (bi_restart_index it);
     if off \<ge> original then
       if bi_restart_index it = 0
       then Some (Inl (it\<lparr>bi_current := bi_restarts it, bi_restart_index := bi_num_restarts it\<rparr>))
       else restart_before original (it\<lparr>bi_restart_index := bi_restart_index it - 1\<rparr>)
     else Some (Inr it)
   }"
  by pat_completeness auto
termination by (relation "measure (\<lambda>(original, it). bi_restart_index it)") auto

declare restart_before.simps [simp del]

definition Block_Prev :: "BlockIter \<Rightarrow> BlockIter option" where
  "Block_Prev it =
     (if Block_Valid it then do {
        let original = bi_current it;
        r \<leftarrow> restart_before original it;
        case r of Inl it \<Rightarrow> Some it
        | Inr it \<Rightarrow> do {
            it \<leftarrow> SeekToRestartPoint (bi_restart_index it) it;
            parse_until original it
          }
      }
      else None)"

text \<open>The binary search: \<open>Inl\<close> when an entry is corrupt, else the restart point to start from.\<close>

function binary_search :: "(slice \<Rightarrow> slice \<Rightarrow> int) \<Rightarrow> slice \<Rightarrow> BlockIter \<Rightarrow> nat \<Rightarrow> nat \<Rightarrow> (BlockIter + nat) option" where
  "binary_search cmp target it left right =
     (if left < right then do {
        let mid = (left + right + 1) div 2;
        region_offset \<leftarrow> GetRestartPoint it mid;
        case DecodeEntry (region it region_offset) of None \<Rightarrow> Some (Inl (CorruptionError it))
        | Some (shared, non_shared, value_length, p) \<Rightarrow>
            if shared \<noteq> 0 then Some (Inl (CorruptionError it))
            else let q = bi_restarts it - length p in
              if q + non_shared > length (bi_data it) then None
              else if cmp (take non_shared (drop q (bi_data it))) target < 0
              then binary_search cmp target it mid right
              else binary_search cmp target it left (mid - 1)
      }
      else Some (Inr left))"
  by pat_completeness auto
termination by (relation "measure (\<lambda>(cmp, target, it, left, right). right - left)") auto

declare binary_search.simps [simp del]

definition Block_Seek :: "(slice \<Rightarrow> slice \<Rightarrow> int) \<Rightarrow> slice \<Rightarrow> BlockIter \<Rightarrow> BlockIter option" where
  "Block_Seek cmp target it = do {
     r \<leftarrow> binary_search cmp target it 0 (bi_num_restarts it - 1);
     case r of Inl it \<Rightarrow> Some it
     | Inr left \<Rightarrow> do {
         it \<leftarrow> SeekToRestartPoint left it;
         linear_search cmp target it
       }
   }"

end
