(* ===== verification/Ldb_Block_Spec.thy ===== *)
theory Ldb_Block_Spec
  imports Ldb_Block Ldb_Format
begin

text \<open>
  What a block of a table is: the sorted list of its entries. The builder writes the entries with
  prefix compression and a restart point every \<open>R\<close> entries, and the iterator over the finished
  block is a position in the list.
\<close>

subsection \<open>The layout of a block\<close>

definition entry_shared :: "nat \<Rightarrow> (slice \<times> slice) list \<Rightarrow> nat \<Rightarrow> nat" where
  "entry_shared R es i = (if i mod R = 0 then 0 else shared_prefix (fst (es ! (i - 1))) (fst (es ! i)))"

definition entry_head :: "nat \<Rightarrow> nat \<Rightarrow> nat \<Rightarrow> byte list" where
  "entry_head s n v = EncodeVarint32 (word_of_nat s) @ EncodeVarint32 (word_of_nat n) @ EncodeVarint32 (word_of_nat v)"

definition entry_bytes :: "nat \<Rightarrow> (slice \<times> slice) list \<Rightarrow> nat \<Rightarrow> byte list" where
  "entry_bytes R es i =
     entry_head (entry_shared R es i) (length (fst (es ! i)) - entry_shared R es i) (length (snd (es ! i)))
     @ drop (entry_shared R es i) (fst (es ! i)) @ snd (es ! i)"

definition entries_upto :: "nat \<Rightarrow> (slice \<times> slice) list \<Rightarrow> nat \<Rightarrow> byte list" where
  "entries_upto R es i = concat (map (entry_bytes R es) [0..<i])"

abbreviation entry_offset :: "nat \<Rightarrow> (slice \<times> slice) list \<Rightarrow> nat \<Rightarrow> nat" where
  "entry_offset R es i \<equiv> length (entries_upto R es i)"

definition restart_count :: "nat \<Rightarrow> nat \<Rightarrow> nat" where
  "restart_count R n = (if n = 0 then 1 else (n - 1) div R + 1)"

definition restart_words :: "nat \<Rightarrow> (slice \<times> slice) list \<Rightarrow> 32 word list" where
  "restart_words R es = map (\<lambda>j. word_of_nat (entry_offset R es (j * R))) [0..<restart_count R (length es)]"

definition block_bytes :: "nat \<Rightarrow> (slice \<times> slice) list \<Rightarrow> byte list" where
  "block_bytes R es = entries_upto R es (length es) @ concat (map EncodeFixed32 (restart_words R es))
     @ EncodeFixed32 (word_of_nat (restart_count R (length es)))"

lemma entries_upto_Suc: "entries_upto R es (Suc i) = entries_upto R es i @ entry_bytes R es i"
  by (simp add: entries_upto_def)

lemma entries_upto_0 [simp]: "entries_upto R es 0 = []"
  by (simp add: entries_upto_def)

lemma entry_bytes_not_Nil [simp]: "entry_bytes R es i \<noteq> []"
  by (simp add: entry_bytes_def entry_head_def)

lemma entries_upto_split:
  assumes "i \<le> j"
  shows "entries_upto R es j = entries_upto R es i @ concat (map (entry_bytes R es) [i..<j])"
  unfolding entries_upto_def using upt_add_eq_append [of 0 i "j - i"] assms by simp

lemma entry_offset_less: "entry_offset R es i < entry_offset R es j \<longleftrightarrow> i < j"
proof -
  have mono: "entry_offset R es i \<le> entry_offset R es j" if "i \<le> j" for i j
    using entries_upto_split [OF that, of R es] by simp
  have strict: "entry_offset R es i < entry_offset R es (Suc i)" for i by (simp add: entries_upto_Suc)
  show ?thesis using mono [of "Suc i" j] mono [of j i] strict [of i] by (cases "i < j") auto
qed

lemma entry_offset_eq: "entry_offset R es i = entry_offset R es j \<longleftrightarrow> i = j"
  using entry_offset_less [of R es i j] entry_offset_less [of R es j i] by (metis less_irrefl linorder_neqE_nat)

lemma length_block_bytes:
  "length (block_bytes R es) = entry_offset R es (length es) + 4 * restart_count R (length es) + 4"
proof -
  have "length (concat (map EncodeFixed32 ws)) = 4 * length ws" for ws by (induction ws) simp_all
  from this [of "restart_words R es"] show ?thesis
    by (simp add: block_bytes_def del: map_map) (simp add: restart_words_def)
qed

subsection \<open>The builder produces it\<close>

lemma shared_prefix_le: "shared_prefix a b \<le> length a" "shared_prefix a b \<le> length b"
  by (induction a b rule: shared_prefix.induct) auto

lemma take_shared_prefix: "take (shared_prefix a b) a = take (shared_prefix a b) b"
  by (induction a b rule: shared_prefix.induct) auto

fun add_entries ::
  "(slice \<Rightarrow> slice \<Rightarrow> int) \<Rightarrow> nat \<Rightarrow> (slice \<times> slice) list \<Rightarrow> BlockBuilder \<Rightarrow> BlockBuilder option" where
  "add_entries cmp R [] b = Some b"
| "add_entries cmp R ((k, v) # es) b = Option.bind (BlockBuilder_Add cmp R k v b) (add_entries cmp R es)"

definition bb_built :: "nat \<Rightarrow> (slice \<times> slice) list \<Rightarrow> BlockBuilder \<Rightarrow> bool" where
  "bb_built R es b \<longleftrightarrow> b = \<lparr>bb_buffer = entries_upto R es (length es), bb_restarts = restart_words R es,
     bb_counter = (if es = [] then 0 else (length es - 1) mod R + 1), bb_finished = False,
     bb_last_key = (if es = [] then [] else fst (last es))\<rparr>"

lemma bb_built_empty: "bb_built R [] make_BlockBuilder" "bb_built R [] (BlockBuilder_Reset b)"
  by (simp_all add: bb_built_def make_BlockBuilder_def BlockBuilder_Reset_def restart_words_def restart_count_def)

lemma entries_upto_snoc: "i \<le> length es \<Longrightarrow> entries_upto R (es @ [e]) i = entries_upto R es i"
  by (auto simp: entries_upto_def entry_bytes_def entry_shared_def nth_append intro!: arg_cong [where f = concat])

lemma restart_mult_less:
  assumes "j < restart_count R n" "n \<noteq> 0"
  shows "j * R < n"
proof -
  have "j \<le> (n - 1) div R" using assms by (simp add: restart_count_def)
  then have "j * R \<le> (n - 1) div R * R" by (rule mult_le_mono1)
  also have "\<dots> \<le> n - 1" by simp
  finally show ?thesis using assms(2) by simp
qed

lemma restart_count_mult: "j < restart_count R n \<Longrightarrow> j * R \<le> n"
  using restart_mult_less [of j R n] by (cases "n = 0") (auto simp: restart_count_def)

lemma restart_count_pos [simp]: "0 < restart_count R n"
  by (simp add: restart_count_def)

lemma div_mod_pred:
  assumes "0 < n" "0 < (R :: nat)"
  shows "(n - 1) mod R + 1 < R \<longleftrightarrow> n mod R \<noteq> 0" "(n - 1) div R + 1 = (if n mod R = 0 then n div R else n div R + 1)"
    "n mod R \<noteq> 0 \<Longrightarrow> n mod R = (n - 1) mod R + 1"
proof -
  obtain m where n: "n = Suc m" using assms(1) gr0_conv_Suc by blast
  have "m mod R < R" using assms(2) by simp
  then show "(n - 1) mod R + 1 < R \<longleftrightarrow> n mod R \<noteq> 0" "(n - 1) div R + 1 = (if n mod R = 0 then n div R else n div R + 1)"
    "n mod R \<noteq> 0 \<Longrightarrow> n mod R = (n - 1) mod R + 1"
    unfolding n using mod_Suc [of m R] div_Suc [of m R] by (auto split: if_splits)
qed

lemma restart_words_snoc:
  assumes "0 < R" "length es \<noteq> 0"
  shows "restart_words R (es @ [e]) =
    (if length es mod R = 0 then restart_words R es @ [word_of_nat (entry_offset R es (length es))] else restart_words R es)"
proof -
  let ?n = "length es"
  have c: "restart_count R (length (es @ [e])) = (if ?n mod R = 0 then Suc (restart_count R ?n) else restart_count R ?n)"
    using div_mod_pred(2) [of ?n R] assms by (simp add: restart_count_def)
  have m: "map (\<lambda>j. word_of_nat (entry_offset R (es @ [e]) (j * R))) [0..<restart_count R ?n] =
      (restart_words R es :: 32 word list)"
    unfolding restart_words_def using restart_count_mult [of _ R ?n]
    by (intro map_cong refl) (simp add: entries_upto_snoc)
  have "restart_count R ?n * R = ?n" if "?n mod R = 0"
    using that div_mod_pred(2) [of ?n R] assms by (auto simp: restart_count_def)
  then show ?thesis unfolding restart_words_def [of R "es @ [e]"] c
    using m by (auto simp: entries_upto_snoc)
qed

lemma bb_built_Add:
  assumes "bb_built R es b" "0 < R" "es = [] \<or> cmp k (fst (last es)) > 0"
  shows "\<exists>b'. BlockBuilder_Add cmp R k v b = Some b' \<and> bb_built R (es @ [(k, v)]) b'"
proof (cases "es = []")
  case True
  then show ?thesis using assms
    by (simp add: bb_built_def BlockBuilder_Add_def PutVarint32_def entries_upto_def entry_bytes_def entry_head_def
        entry_shared_def restart_words_def restart_count_def)
next
  case False
  let ?n = "length es" and ?s = "shared_prefix (fst (last es)) k" and ?es = "es @ [(k, v)]"
  have pos: "0 < ?n" using False by simp
  note arith = div_mod_pred [OF pos assms(2)]
  have last: "es ! (?n - 1) = last es" using False by (simp add: last_conv_nth)
  have buf: "entries_upto R es ?n \<noteq> []" using entry_offset_less [of R es 0 ?n] pos by auto
  have sh: "entry_shared R ?es ?n = (if ?n mod R = 0 then 0 else ?s)"
    using pos last by (simp add: entry_shared_def nth_append)
  have eb: "entry_bytes R ?es ?n = entry_head (entry_shared R ?es ?n) (length k - entry_shared R ?es ?n) (length v)
      @ drop (entry_shared R ?es ?n) k @ v" by (simp add: entry_bytes_def)
  have up: "entries_upto R ?es (Suc ?n) = entries_upto R es ?n @ entry_bytes R ?es ?n"
    by (simp add: entries_upto_Suc entries_upto_snoc)
  have rw: "restart_words R ?es = (if ?n mod R = 0 then restart_words R es @ [word_of_nat (entry_offset R es ?n)]
      else restart_words R es)" using restart_words_snoc assms(2) pos by simp
  have key: "take ?s (fst (last es)) @ drop ?s k = k" by (simp add: take_shared_prefix)
  have mod: "(length es - Suc 0) mod R < R" using assms(2) by simp
  show ?thesis using assms(1,3) False buf key mod arith(1,3)
    by (auto simp: bb_built_def BlockBuilder_Add_def Let_def up [simplified] rw eb sh entry_head_def PutVarint32_def)
qed

lemma bb_built_entries:
  assumes "bb_built R es b" "0 < R" "sorted_wrt (\<lambda>a b. cmp (fst b) (fst a) > 0) (es @ fs)"
  shows "\<exists>b'. add_entries cmp R fs b = Some b' \<and> bb_built R (es @ fs) b'"
  using assms
proof (induction fs arbitrary: es b)
  case (Cons f fs)
  obtain k v where f: "f = (k, v)" by (cases f)
  have "es = [] \<or> cmp k (fst (last es)) > 0" using Cons.prems(3) f by (cases es rule: rev_cases) (auto simp: sorted_wrt_append)
  from bb_built_Add [where cmp = cmp and k = k and v = v, OF Cons.prems(1,2) this] obtain b' where
    "BlockBuilder_Add cmp R k v b = Some b'" "bb_built R (es @ [(k, v)]) b'" by blast
  with Cons.IH [of "es @ [(k, v)]" b'] Cons.prems f show ?case by simp
qed simp

lemma Finish_bb_built: "bb_built R es b \<Longrightarrow> fst (BlockBuilder_Finish b) = block_bytes R es"
proof -
  have "fold (\<lambda>r buf. PutFixed32 buf r) ws buf = buf @ concat (map EncodeFixed32 ws)" for ws buf
    by (induction ws arbitrary: buf) (simp_all add: PutFixed32_def)
  then show "bb_built R es b \<Longrightarrow> ?thesis"
    by (simp add: bb_built_def BlockBuilder_Finish_def block_bytes_def PutFixed32_def Let_def)
      (simp add: restart_words_def)
qed

lemma CurrentSizeEstimate_bb_built: "bb_built R es b \<Longrightarrow> CurrentSizeEstimate b = length (block_bytes R es)"
  by (simp add: bb_built_def CurrentSizeEstimate_def length_block_bytes restart_words_def)

subsection \<open>Entries are read back\<close>

text \<open>The fast path for three short lengths gives what the general path gives.\<close>

lemma GetVarint32Ptr_one_byte: "\<not> bit b 7 \<Longrightarrow> GetVarint32Ptr (b # p) = Some (ucast b, p)"
  using and_exp_eq_0_iff_not_bit [of "ucast b :: 32 word" 7] by (simp add: GetVarint32Ptr_def bit_simps)

lemma byte_less_128: "b < 128 \<longleftrightarrow> \<not> bit b 7" for b :: byte
  using high_bit_of_byte [of b] and_exp_eq_0_iff_not_bit [of b 7] by (simp add: word_less_nat_alt)

lemma DecodeEntry_slow:
  "DecodeEntry rest =
     (if length rest < 3 then None
      else do {
        (shared, p) \<leftarrow> GetVarint32Ptr rest;
        (non_shared, p) \<leftarrow> GetVarint32Ptr p;
        (value_length, p) \<leftarrow> GetVarint32Ptr p;
        if (word_of_nat (length p) :: 32 word) < non_shared + value_length then None
        else Some (unat shared, unat non_shared, unat value_length, p)
      })"
proof (cases "length rest < 3")
  case False
  then obtain a b c p where rest: "rest = a # b # c # p"
    by (metis length_Cons less_Suc_eq_0_disj list.exhaust_sel list.size(3) numeral_3_eq_3 zero_less_Suc Suc_less_eq)
  show ?thesis
  proof (cases "bit a 7 \<or> bit b 7 \<or> bit c 7")
    case True
    then have "\<not> (a OR b OR c) < 128" by (simp add: byte_less_128 bit_simps)
    then show ?thesis by (simp add: DecodeEntry_def rest split: Option.bind_split)
  next
    case False
    then have "(a OR b OR c) < 128" by (simp add: byte_less_128 bit_simps)
    with False show ?thesis by (simp add: DecodeEntry_def rest GetVarint32Ptr_one_byte)
  qed
qed (simp add: DecodeEntry_def)

lemma unat_small: "n < 2 ^ 32 \<Longrightarrow> unat (word_of_nat n :: 32 word) = n"
  by (simp add: unat_of_nat take_bit_eq_mod)

lemma DecodeEntry_head:
  assumes "s < 2 ^ 32" "n + v \<le> length p" "length p < 2 ^ 32"
  shows "DecodeEntry (entry_head s n v @ p) = Some (s, n, v, p)"
proof -
  have "0 < length (EncodeVarint32 w)" for w by simp
  then have "3 \<le> length (entry_head s n v)"
    unfolding entry_head_def length_append by (metis One_nat_def Suc_leI add_le_mono numeral_3_eq_3 plus_1_eq_Suc add_Suc_shift add_0)
  moreover have "(word_of_nat n + word_of_nat v :: 32 word) = word_of_nat (n + v)" by simp
  moreover have "\<not> (word_of_nat (length p) :: 32 word) < word_of_nat (n + v)"
    using assms by (simp add: word_less_nat_alt unat_small del: of_nat_add)
  moreover note GetVarint32_Encode [unfolded GetVarint32_def]
  ultimately show ?thesis
    unfolding DecodeEntry_slow entry_head_def using assms by (simp add: unat_small del: of_nat_add)
qed

subsection \<open>The iterator is a position\<close>

definition on_block :: "nat \<Rightarrow> (slice \<times> slice) list \<Rightarrow> BlockIter \<Rightarrow> bool" where
  "on_block R es it \<longleftrightarrow> bi_data it = block_bytes R es \<and> bi_restarts it = entry_offset R es (length es) \<and>
     bi_num_restarts it = restart_count R (length es) \<and> bi_status it = OK"

text \<open>The state in which the parser reads entry \<open>i\<close> next, and the states at an entry and behind the last one.\<close>

definition before_entry :: "nat \<Rightarrow> (slice \<times> slice) list \<Rightarrow> nat \<Rightarrow> BlockIter \<Rightarrow> bool" where
  "before_entry R es i it \<longleftrightarrow> on_block R es it \<and> i \<le> length es \<and> NextEntryOffset it = entry_offset R es i \<and>
     bi_restart_index it < restart_count R (length es) \<and> (i mod R \<noteq> 0 \<longrightarrow> bi_key it = fst (es ! (i - 1)))"

definition at_position :: "nat \<Rightarrow> (slice \<times> slice) list \<Rightarrow> nat \<Rightarrow> BlockIter \<Rightarrow> bool" where
  "at_position R es i it \<longleftrightarrow> on_block R es it \<and>
     (if i < length es
      then bi_current it = entry_offset R es i \<and> NextEntryOffset it = entry_offset R es (Suc i) \<and>
        (bi_key it, bi_value it) = es ! i \<and> bi_restart_index it < restart_count R (length es)
      else bi_current it = bi_restarts it)"

lemma at_position_Valid: "at_position R es i it \<Longrightarrow> Block_Valid it \<longleftrightarrow> i < length es"
  by (auto simp: at_position_def Block_Valid_def on_block_def entry_offset_less split: if_splits)

lemma at_position_before: "at_position R es i it \<Longrightarrow> i < length es \<Longrightarrow> before_entry R es (Suc i) it"
  by (auto simp: at_position_def before_entry_def dest: arg_cong [where f = fst])

lemma GetRestartPoint_block:
  assumes "on_block R es it" "j < restart_count R (length es)" "length (block_bytes R es) < 2 ^ 32"
  shows "GetRestartPoint it j = Some (entry_offset R es (j * R))"
proof -
  let ?ws = "restart_words R es"
  have j: "j < length ?ws" using assms(2) by (simp add: restart_words_def)
  have drop4: "drop (4 * j) (concat (map EncodeFixed32 ws)) = concat (map EncodeFixed32 (drop j ws))" for j ws
    by (induction ws arbitrary: j) (auto split: nat.splits simp: drop_Cons drop_eq_Nil2)
  have "drop (4 * j) (concat (map EncodeFixed32 ?ws)) = EncodeFixed32 (?ws ! j) @ concat (map EncodeFixed32 (drop (Suc j) ?ws))"
    unfolding drop4 using Cons_nth_drop_Suc [OF j] by (metis concat.simps(2) list.simps(9))
  moreover have "4 * j \<le> length (concat (map EncodeFixed32 ?ws))"
  proof -
    have "length (concat (map EncodeFixed32 ws)) = 4 * length ws" for ws by (induction ws) simp_all
    with j show ?thesis by simp
  qed
  ultimately have "drop (entry_offset R es (length es) + j * 4) (block_bytes R es) = EncodeFixed32 (?ws ! j)
      @ concat (map EncodeFixed32 (drop (Suc j) ?ws)) @ EncodeFixed32 (word_of_nat (restart_count R (length es)))"
    by (simp add: block_bytes_def mult.commute)
  moreover have "entry_offset R es (j * R) \<le> entry_offset R es (length es)"
    using restart_count_mult [OF assms(2)] entry_offset_less [of R es "length es" "j * R"] by simp
  ultimately show ?thesis
    using assms j by (simp add: GetRestartPoint_def on_block_def restart_words_def length_block_bytes unat_small)
qed

lemma SeekToRestartPoint_block:
  assumes "on_block R es it" "j < restart_count R (length es)" "length (block_bytes R es) < 2 ^ 32"
  shows "\<exists>it'. SeekToRestartPoint j it = Some it' \<and> before_entry R es (j * R) it' \<and> bi_restarts it' = bi_restarts it"
  using assms GetRestartPoint_block [OF assms] restart_count_mult [OF assms(2)]
  by (auto simp: SeekToRestartPoint_def before_entry_def on_block_def NextEntryOffset_def)

lemma restart_loop_block:
  assumes "on_block R es it" "bi_restart_index it < restart_count R (length es)" "length (block_bytes R es) < 2 ^ 32"
  shows "\<exists>r < restart_count R (length es). restart_loop it = Some (it\<lparr>bi_restart_index := r\<rparr>)"
  using assms
proof (induction it rule: restart_loop.induct)
  case (1 it)
  show ?case
  proof (cases "bi_restart_index it + 1 < bi_num_restarts it \<and> entry_offset R es ((bi_restart_index it + 1) * R) < bi_current it")
    case True
    then have j: "bi_restart_index it + 1 < restart_count R (length es)" using "1.prems"(1) by (simp add: on_block_def)
    note g = GetRestartPoint_block [OF "1.prems"(1) j "1.prems"(3)]
    have "on_block R es (it\<lparr>bi_restart_index := bi_restart_index it + 1\<rparr>)" using "1.prems"(1) by (simp add: on_block_def)
    from "1.IH" [OF _ g _ this] True j "1.prems"(3) g show ?thesis by (subst restart_loop.simps) auto
  next
    case False
    have "restart_loop it = Some it"
    proof (cases "bi_restart_index it + 1 < bi_num_restarts it")
      case True
      then have "GetRestartPoint it (bi_restart_index it + 1) = Some (entry_offset R es ((bi_restart_index it + 1) * R))"
        using "1.prems" by (intro GetRestartPoint_block) (auto simp: on_block_def)
      with False show ?thesis by (subst restart_loop.simps) simp
    qed (subst restart_loop.simps, simp)
    with "1.prems"(2) show ?thesis by (intro exI [of _ "bi_restart_index it"]) simp
  qed
qed

lemma entry_shared_le: "entry_shared R es i \<le> length (fst (es ! i))"
  by (simp add: entry_shared_def shared_prefix_le)

lemma key_length_le_offset: "length (fst (es ! i)) \<le> entry_offset R es (Suc i)"
proof (induction i)
  case (Suc i)
  have "entry_shared R es (Suc i) \<le> entry_offset R es (Suc i)"
    using Suc shared_prefix_le(1) [of "fst (es ! i)" "fst (es ! Suc i)"] by (simp add: entry_shared_def)
  then show ?case by (simp add: entries_upto_Suc [of _ _ "Suc i"] entry_bytes_def)
qed (simp add: entries_upto_Suc entry_bytes_def entry_shared_def)

text \<open>Where the parts of entry \<open>i\<close> lie in the block.\<close>

lemma entry_in_block:
  assumes "i < length es" "length (block_bytes R es) < 2 ^ 32"
  obtains s n v p q where
    "s = entry_shared R es i" "n = length (fst (es ! i)) - s" "v = length (snd (es ! i))"
    "DecodeEntry (drop (entry_offset R es i) (entries_upto R es (length es))) = Some (s, n, v, p)"
    "q = entry_offset R es (length es) - length p" "q + n + v = entry_offset R es (Suc i)"
    "take n (drop q (block_bytes R es)) = drop s (fst (es ! i))"
    "take v (drop (q + n) (block_bytes R es)) = snd (es ! i)"
    "q + n + v \<le> length (block_bytes R es)"
proof -
  let ?s = "entry_shared R es i" and ?k = "fst (es ! i)" and ?v = "snd (es ! i)"
  let ?T = "concat (map (entry_bytes R es) [Suc i..<length es])"
  let ?h = "entry_head ?s (length ?k - ?s) (length ?v)" and ?p = "drop ?s ?k @ ?v @ ?T"
  have E: "entries_upto R es (length es) = entries_upto R es i @ ?h @ ?p"
    using entries_upto_split [of "Suc i" "length es" R es] assms(1)
    by (simp add: entries_upto_Suc entry_bytes_def)
  define X where "X = drop (entry_offset R es (length es)) (block_bytes R es)"
  have B: "block_bytes R es = entries_upto R es i @ ?h @ ?p @ X"
    unfolding X_def using E by (simp add: block_bytes_def)
  have "drop (entry_offset R es i) (entries_upto R es (length es)) = ?h @ ?p" unfolding E by simp
  moreover have "?s < 2 ^ 32"
    using entry_shared_le [of R es i] key_length_le_offset [of es i R] assms
      entry_offset_less [of R es "length es" "Suc i"] by (simp add: length_block_bytes)
  then have "DecodeEntry (?h @ ?p) = Some (?s, length ?k - ?s, length ?v, ?p)"
    using assms(2) unfolding B by (intro DecodeEntry_head) auto
  moreover have q: "entry_offset R es (length es) - length ?p = length (entries_upto R es i @ ?h)"
    unfolding E by simp
  moreover have "drop (length (entries_upto R es i @ ?h)) (block_bytes R es) = ?p @ X"
    unfolding B by (simp only: append_assoc [symmetric] append_eq_conv_conj [symmetric]) simp
  moreover have "drop (length (entries_upto R es i @ ?h) + (length ?k - ?s)) (block_bytes R es) = ?v @ ?T @ X"
    unfolding B by (simp add: drop_append)
  moreover have "length (entries_upto R es i @ ?h) + (length ?k - ?s) + length ?v = entry_offset R es (Suc i)"
    by (simp add: entries_upto_Suc entry_bytes_def)
  moreover have "entry_offset R es (Suc i) \<le> length (block_bytes R es)"
    using assms(1) entry_offset_less [of R es "length es" "Suc i"] by (simp add: length_block_bytes)
  ultimately show ?thesis by (intro that) (simp_all only: refl, simp_all)
qed

lemma ParseNextKey_block:
  assumes "before_entry R es i it" "i < length es" "length (block_bytes R es) < 2 ^ 32"
  shows "\<exists>it'. ParseNextKey it = Some (True, it') \<and> at_position R es i it'"
proof -
  from entry_in_block [OF assms(2,3)] obtain s n v p q where *:
    "s = entry_shared R es i" "n = length (fst (es ! i)) - s" "v = length (snd (es ! i))"
    "DecodeEntry (drop (entry_offset R es i) (entries_upto R es (length es))) = Some (s, n, v, p)"
    "q = entry_offset R es (length es) - length p" "q + n + v = entry_offset R es (Suc i)"
    "take n (drop q (block_bytes R es)) = drop s (fst (es ! i))"
    "take v (drop (q + n) (block_bytes R es)) = snd (es ! i)"
    "q + n + v \<le> length (block_bytes R es)" .
  have on: "on_block R es it" and nxt: "NextEntryOffset it = entry_offset R es i"
    using assms(1) by (simp_all add: before_entry_def)
  have key: "s \<le> length (bi_key it)" "take s (bi_key it) @ drop s (fst (es ! i)) = fst (es ! i)"
    using assms(1) *(1) by (auto simp: before_entry_def entry_shared_def shared_prefix_le take_shared_prefix)
  let ?it = "it\<lparr>bi_current := entry_offset R es i, bi_key := fst (es ! i), bi_value_offset := q + n, bi_value := snd (es ! i)\<rparr>"
  have "on_block R es ?it" "bi_restart_index ?it < restart_count R (length es)"
    using assms(1) by (simp_all add: before_entry_def on_block_def)
  from restart_loop_block [OF this assms(3)] obtain r where
    r: "r < restart_count R (length es)" "restart_loop ?it = Some (?it\<lparr>bi_restart_index := r\<rparr>)" by blast
  have reg: "region (it\<lparr>bi_current := entry_offset R es i\<rparr>) (entry_offset R es i) =
      drop (entry_offset R es i) (entries_upto R es (length es))"
    using on by (simp add: region_def on_block_def block_bytes_def drop_take)
  have "ParseNextKey it = Some (True, ?it\<lparr>bi_restart_index := r\<rparr>)"
    using on nxt reg key r *(4,5,7,8,9) assms(2)
    by (simp add: ParseNextKey_def Let_def on_block_def entry_offset_less not_le)
  moreover have "at_position R es i (?it\<lparr>bi_restart_index := r\<rparr>)"
    using on r(1) *(3,6) assms(2) by (simp add: at_position_def on_block_def NextEntryOffset_def)
  ultimately show ?thesis by blast
qed

lemma ParseNextKey_end:
  assumes "before_entry R es (length es) it"
  shows "\<exists>it'. ParseNextKey it = Some (False, it') \<and> at_position R es (length es) it'"
  using assms by (simp add: before_entry_def ParseNextKey_def at_position_def on_block_def Let_def)

lemma parse_until_block:
  assumes "before_entry R es i it" "i < j" "j \<le> length es" "length (block_bytes R es) < 2 ^ 32"
  shows "\<exists>it'. parse_until (entry_offset R es j) it = Some it' \<and> at_position R es (j - 1) it'"
  using assms
proof (induction "j - i" arbitrary: i it rule: less_induct)
  case less
  from ParseNextKey_block [OF less.prems(1) _ less.prems(4)] less.prems(2,3) obtain it' where
    it': "ParseNextKey it = Some (True, it')" "at_position R es i it'" by auto
  then have nxt: "NextEntryOffset it' < entry_offset R es j \<longleftrightarrow> Suc i < j"
    using less.prems(2,3) by (simp add: at_position_def entry_offset_less)
  show ?case
  proof (cases "Suc i < j")
    case True
    have "before_entry R es (Suc i) it'" using it'(2) less.prems by (intro at_position_before) auto
    from less.hyps [OF _ this True less.prems(3,4)] True it'(1) nxt show ?thesis by (subst parse_until.simps) auto
  next
    case False
    then have "j - 1 = i" using less.prems(2) by simp
    with it' nxt False show ?thesis by (subst parse_until.simps) simp
  qed
qed

lemma Block_SeekToFirst_block:
  assumes "on_block R es it" "length (block_bytes R es) < 2 ^ 32"
  shows "\<exists>it'. Block_SeekToFirst it = Some it' \<and> at_position R es 0 it'"
proof -
  from SeekToRestartPoint_block [OF assms(1) _ assms(2), of 0] obtain it1 where
    it1: "SeekToRestartPoint 0 it = Some it1" "before_entry R es 0 it1" by auto
  then show ?thesis
    using ParseNextKey_block [OF it1(2) _ assms(2)] ParseNextKey_end [of R es it1]
    by (cases "es = []") (auto simp: Block_SeekToFirst_def)
qed

lemma Block_Next_block:
  assumes "at_position R es i it" "i < length es" "length (block_bytes R es) < 2 ^ 32"
  shows "\<exists>it'. Block_Next it = Some it' \<and> at_position R es (Suc i) it'"
proof -
  note b = at_position_before [OF assms(1,2)] and v = at_position_Valid [OF assms(1)]
  show ?thesis
  proof (cases "Suc i < length es")
    case True
    from ParseNextKey_block [OF b True assms(3)] v assms(2) show ?thesis by (auto simp: Block_Next_def)
  next
    case False
    then have "Suc i = length es" using assms(2) by simp
    with ParseNextKey_end [of R es it] b v assms(2) show ?thesis by (auto simp: Block_Next_def)
  qed
qed

lemma Block_SeekToLast_block:
  assumes "on_block R es it" "length (block_bytes R es) < 2 ^ 32"
  shows "\<exists>it'. Block_SeekToLast it = Some it' \<and> at_position R es (length es - 1) it'"
proof -
  have c: "bi_num_restarts it - 1 < restart_count R (length es)" using assms(1) by (simp add: on_block_def restart_count_def)
  from SeekToRestartPoint_block [OF assms(1) c assms(2)] obtain it1 where
    it1: "SeekToRestartPoint (bi_num_restarts it - 1) it = Some it1"
    "before_entry R es ((bi_num_restarts it - 1) * R) it1" "bi_restarts it1 = bi_restarts it" by blast
  have lim: "bi_restarts it1 = entry_offset R es (length es)" using it1(2) by (simp add: before_entry_def on_block_def)
  show ?thesis
  proof (cases "es = []")
    case True
    then have "before_entry R es (length es) it1" using it1(2) assms(1) by (simp add: on_block_def restart_count_def)
    from ParseNextKey_end [OF this] True it1(1) show ?thesis
      by (auto simp: Block_SeekToLast_def parse_until.simps [of _ it1])
  next
    case False
    from parse_until_block [OF it1(2) restart_mult_less [OF c] order_refl assms(2)] False it1(1) lim
    show ?thesis by (auto simp: Block_SeekToLast_def)
  qed
qed

lemma restart_before_block:
  assumes "on_block R es it" "bi_restart_index it < restart_count R (length es)" "length (block_bytes R es) < 2 ^ 32"
  shows "\<exists>it'. restart_before (entry_offset R es i) it =
      Some (if i = 0 then Inl (it'\<lparr>bi_current := bi_restarts it', bi_restart_index := bi_num_restarts it'\<rparr>) else Inr it') \<and>
    on_block R es it' \<and> bi_restart_index it' < restart_count R (length es) \<and> (i \<noteq> 0 \<longrightarrow> bi_restart_index it' * R < i)"
  using assms
proof (induction "bi_restart_index it" arbitrary: it)
  case 0
  note g = GetRestartPoint_block [OF "0.prems", folded "0.hyps"]
  show ?case
    by (rule exI [of _ it], subst restart_before.simps) (use g "0.prems" "0.hyps" entry_offset_less [of R es 0 i] in \<open>simp add: entry_offset_less not_le\<close>)
next
  case (Suc j)
  note g = GetRestartPoint_block [OF Suc.prems]
  show ?case
  proof (cases "bi_restart_index it * R < i")
    case True
    then have "\<not> entry_offset R es i \<le> entry_offset R es (bi_restart_index it * R)" by (simp add: not_le entry_offset_less)
    with True show ?thesis
      by (intro exI [of _ it], subst restart_before.simps) (use g Suc.prems in simp)
  next
    case False
    have "\<not> entry_offset R es (bi_restart_index it * R) < entry_offset R es i" using False by (simp add: entry_offset_less)
    then have step: "restart_before (entry_offset R es i) it =
        restart_before (entry_offset R es i) (it\<lparr>bi_restart_index := j\<rparr>)"
      using g Suc.hyps(2) [symmetric] by (subst restart_before.simps) simp
    show ?thesis unfolding step
      by (rule Suc.hyps(1)) (use Suc.prems Suc.hyps(2) in \<open>simp_all add: on_block_def\<close>)
  qed
qed

lemma Block_Prev_block:
  assumes "at_position R es i it" "i < length es" "length (block_bytes R es) < 2 ^ 32"
  shows "\<exists>it'. Block_Prev it = Some it' \<and> at_position R es (if i = 0 then length es else i - 1) it'"
proof -
  have at: "on_block R es it" "bi_current it = entry_offset R es i" "bi_restart_index it < restart_count R (length es)"
    using assms(1,2) by (simp_all add: at_position_def)
  from restart_before_block [OF at(1,3) assms(3), of i] obtain it1 where
    it1: "restart_before (entry_offset R es i) it =
      Some (if i = 0 then Inl (it1\<lparr>bi_current := bi_restarts it1, bi_restart_index := bi_num_restarts it1\<rparr>) else Inr it1)"
    "on_block R es it1" "bi_restart_index it1 < restart_count R (length es)" "i \<noteq> 0 \<longrightarrow> bi_restart_index it1 * R < i" by blast
  have v: "Block_Valid it" using at_position_Valid [OF assms(1)] assms(2) by simp
  show ?thesis
  proof (cases "i = 0")
    case True
    with it1 v at(2) show ?thesis by (simp add: Block_Prev_def at_position_def on_block_def)
  next
    case False
    from SeekToRestartPoint_block [OF it1(2,3) assms(3)] obtain it2 where
      it2: "SeekToRestartPoint (bi_restart_index it1) it1 = Some it2" "before_entry R es (bi_restart_index it1 * R) it2" by blast
    from parse_until_block [OF it2(2) it1(4) [rule_format, OF False] _ assms(3)] assms(2)
    obtain it3 where "parse_until (entry_offset R es i) it2 = Some it3" "at_position R es (i - 1) it3" by auto
    with False it1(1) it2(1) v at(2) show ?thesis by (simp add: Block_Prev_def)
  qed
qed

subsection \<open>Searching\<close>

lemma restart_entry_in_block:
  assumes "on_block R es it" "j < restart_count R (length es)" "0 < j" "length (block_bytes R es) < 2 ^ 32"
  shows "\<exists>n v p. DecodeEntry (region it (entry_offset R es (j * R))) = Some (0, n, v, p) \<and>
    bi_restarts it - length p + n \<le> length (bi_data it) \<and>
    take n (drop (bi_restarts it - length p) (bi_data it)) = fst (es ! (j * R))"
proof -
  have "length es \<noteq> 0" using assms(2,3) by (auto simp: restart_count_def)
  then have i: "j * R < length es" using restart_mult_less [OF assms(2)] by simp
  from entry_in_block [OF i assms(4)] obtain s n v p q where *:
    "s = entry_shared R es (j * R)" "n = length (fst (es ! (j * R))) - s" "v = length (snd (es ! (j * R)))"
    "DecodeEntry (drop (entry_offset R es (j * R)) (entries_upto R es (length es))) = Some (s, n, v, p)"
    "q = entry_offset R es (length es) - length p" "q + n + v = entry_offset R es (Suc (j * R))"
    "take n (drop q (block_bytes R es)) = drop s (fst (es ! (j * R)))"
    "take v (drop (q + n) (block_bytes R es)) = snd (es ! (j * R))"
    "q + n + v \<le> length (block_bytes R es)" .
  have "s = 0" using *(1) by (simp add: entry_shared_def)
  moreover have "region it (entry_offset R es (j * R)) = drop (entry_offset R es (j * R)) (entries_upto R es (length es))"
    using assms(1) by (simp add: region_def on_block_def block_bytes_def drop_take)
  ultimately show ?thesis using * assms(1) by (auto simp: on_block_def)
qed

lemma binary_search_block:
  assumes "on_block R es it" "left \<le> right" "right < restart_count R (length es)" "length (block_bytes R es) < 2 ^ 32"
    "left = 0 \<or> cmp (fst (es ! (left * R))) target < 0"
  shows "\<exists>l < restart_count R (length es). binary_search cmp target it left right = Some (Inr l) \<and>
    (l = 0 \<or> cmp (fst (es ! (l * R))) target < 0)"
  using assms
proof (induction "right - left" arbitrary: left right rule: less_induct)
  case less
  show ?case
  proof (cases "left < right")
    case True
    let ?m = "(left + right + 1) div 2"
    have m: "left < ?m" "?m \<le> right" using True by auto
    then have j: "?m < restart_count R (length es)" "0 < ?m" using less.prems(3) by auto
    note g = GetRestartPoint_block [OF less.prems(1) j(1) less.prems(4)]
    from restart_entry_in_block [OF less.prems(1) j less.prems(4)] obtain n v p where
      d: "DecodeEntry (region it (entry_offset R es (?m * R))) = Some (0, n, v, p)"
      "bi_restarts it - length p + n \<le> length (bi_data it)"
      "take n (drop (bi_restarts it - length p) (bi_data it)) = fst (es ! (?m * R))" by blast
    have unf: "binary_search cmp target it left right =
        (if cmp (fst (es ! (?m * R))) target < 0 then binary_search cmp target it ?m right
         else binary_search cmp target it left (?m - 1))"
      using True g d by (subst binary_search.simps) (simp add: Let_def)
    show ?thesis
    proof (cases "cmp (fst (es ! (?m * R))) target < 0")
      case c: True
      have "right - ?m < right - left" using m True by linarith
      from less.hyps [OF this less.prems(1) m(2) less.prems(3,4)] c unf show ?thesis by simp
    next
      case c: False
      have "?m - 1 - left < right - left" "left \<le> ?m - 1" "?m - 1 < restart_count R (length es)" using m j by linarith+
      from less.hyps [OF this(1) less.prems(1) this(2,3) less.prems(4,5)] c unf show ?thesis by simp
    qed
  next
    case False
    with less.prems show ?thesis by (subst binary_search.simps) auto
  qed
qed

definition lower_bound :: "(slice \<Rightarrow> slice \<Rightarrow> int) \<Rightarrow> slice \<Rightarrow> (slice \<times> slice) list \<Rightarrow> nat" where
  "lower_bound cmp target es = length (takeWhile (\<lambda>e. cmp (fst e) target < 0) es)"

lemma lower_boundI:
  assumes "i \<le> length es" "\<forall>j < i. cmp (fst (es ! j)) target < 0" "i < length es \<longrightarrow> \<not> cmp (fst (es ! i)) target < 0"
  shows "lower_bound cmp target es = i"
proof -
  have "takeWhile (\<lambda>e. cmp (fst e) target < 0) es = take i es"
    using assms by (intro takeWhile_eq_take_P_nth) auto
  with assms(1) show ?thesis by (simp add: lower_bound_def)
qed

lemma linear_search_block:
  assumes "before_entry R es i it" "\<forall>j < i. cmp (fst (es ! j)) target < 0" "length (block_bytes R es) < 2 ^ 32"
  shows "\<exists>it'. linear_search cmp target it = Some it' \<and> at_position R es (lower_bound cmp target es) it'"
  using assms
proof (induction "length es - i" arbitrary: i it rule: less_induct)
  case less
  have le: "i \<le> length es" using less.prems(1) by (simp add: before_entry_def)
  show ?case
  proof (cases "i < length es")
    case True
    from ParseNextKey_block [OF less.prems(1) True less.prems(3)] obtain it' where
      it': "ParseNextKey it = Some (True, it')" "at_position R es i it'" by blast
    have key: "bi_key it' = fst (es ! i)" using it'(2) True by (auto simp: at_position_def dest: arg_cong [where f = fst])
    show ?thesis
    proof (cases "cmp (fst (es ! i)) target < 0")
      case c: True
      have "\<forall>j < Suc i. cmp (fst (es ! j)) target < 0" using less.prems(2) c by (simp add: less_Suc_eq)
      from less.hyps [OF _ at_position_before [OF it'(2) True] this less.prems(3)] True c it'(1) key
      show ?thesis by (subst linear_search.simps) auto
    next
      case c: False
      then have "lower_bound cmp target es = i" using le less.prems(2) by (intro lower_boundI) auto
      with it' key c show ?thesis by (subst linear_search.simps) simp
    qed
  next
    case False
    then have i: "i = length es" using le by simp
    then have "lower_bound cmp target es = length es" using less.prems(2) by (intro lower_boundI) auto
    moreover from ParseNextKey_end [of R es it] less.prems(1) i obtain it' where
      "ParseNextKey it = Some (False, it')" "at_position R es (length es) it'" by auto
    ultimately show ?thesis by (subst linear_search.simps) simp
  qed
qed

lemma Block_Seek_block:
  assumes "key_order Compare valid" "sorted_wrt (\<lambda>a b. Compare (fst a) (fst b) < 0) es" "\<forall>e \<in> set es. valid (fst e)"
    and "valid target" "on_block R es it" "length (block_bytes R es) < 2 ^ 32"
  shows "\<exists>it'. Block_Seek Compare target it = Some it' \<and> at_position R es (lower_bound Compare target es) it'"
proof -
  have c: "bi_num_restarts it - 1 < restart_count R (length es)" using assms(5) by (simp add: on_block_def restart_count_def)
  from binary_search_block [where left = 0, OF assms(5) _ c assms(6)] obtain l where
    l: "l < restart_count R (length es)" "binary_search Compare target it 0 (bi_num_restarts it - 1) = Some (Inr l)"
    "l = 0 \<or> Compare (fst (es ! (l * R))) target < 0" by auto
  from SeekToRestartPoint_block [OF assms(5) l(1) assms(6)] obtain it1 where
    it1: "SeekToRestartPoint l it = Some it1" "before_entry R es (l * R) it1" by blast
  have "Compare (fst (es ! j)) target < 0" if j: "j < l * R" for j
  proof -
    have "l \<noteq> 0" using j by (cases l) simp_all
    then have "length es \<noteq> 0" using l(1) by (auto simp: restart_count_def)
    then have lt: "l * R < length es" using restart_mult_less [OF l(1)] by simp
    have "Compare (fst (es ! j)) (fst (es ! (l * R))) < 0" using sorted_wrt_nth_less [OF assms(2) j lt] .
    moreover have "Compare (fst (es ! (l * R))) target < 0" using l(3) \<open>l \<noteq> 0\<close> by simp
    ultimately show ?thesis
      using key_order.compare_trans [OF assms(1)] assms(3,4) j lt by (meson less_trans nth_mem)
  qed
  with linear_search_block [OF it1(2) _ assms(6), where cmp = Compare and target = target] it1(1) l(2)
  show ?thesis by (auto simp: Block_Seek_def)
qed

lemma NewIterator_block:
  assumes "length (block_bytes R es) < 2 ^ 32"
  shows "\<exists>it. NewIterator (block_bytes R es) = Block_iterator it \<and> at_position R es (length es) it"
proof -
  let ?c = "restart_count R (length es)"
  have l: "length (block_bytes R es) - 4 = length (entries_upto R es (length es) @ concat (map EncodeFixed32 (restart_words R es)))"
    by (simp add: block_bytes_def)
  have "?c < 2 ^ 32" using assms by (simp add: length_block_bytes)
  moreover have "drop (length (block_bytes R es) - 4) (block_bytes R es) = EncodeFixed32 (word_of_nat ?c)"
    unfolding l by (simp add: block_bytes_def)
  ultimately have n: "NumRestarts (block_bytes R es) = ?c"
    by (simp add: NumRestarts_def EncodeFixed32_def le_nat_nat_le unat_small)
  have "block_size (block_bytes R es) = length (block_bytes R es)"
    unfolding block_size_def n by (simp add: length_block_bytes)
  then show ?thesis unfolding NewIterator_def n Let_def
    by (simp add: length_block_bytes at_position_def on_block_def)
qed

subsection \<open>Properties\<close>

text \<open>
  C32. A builder accepts any list of entries with increasing keys, for every order of keys and every
  restart interval; the size it predicts is the size of the block it produces, and an iterator opened
  on that block is on these entries, positioned behind the last one.
\<close>

theorem block_built:
  assumes "key_order Compare valid" "0 < R" "\<forall>e \<in> set es. valid (fst e)"
    "sorted_wrt (\<lambda>a b. Compare (fst a) (fst b) < 0) es"
  shows "\<exists>b. add_entries Compare R es make_BlockBuilder = Some b \<and>
    length (fst (BlockBuilder_Finish b)) = CurrentSizeEstimate b \<and>
    fst (BlockBuilder_Finish b) = block_bytes R es \<and>
    (CurrentSizeEstimate b < 2 ^ 32 \<longrightarrow>
     (\<exists>it. NewIterator (fst (BlockBuilder_Finish b)) = Block_iterator it \<and> at_position R es (length es) it))"
proof -
  have "sorted_wrt (\<lambda>a b. Compare (fst b) (fst a) > 0) es"
    by (rule sorted_wrt_mono_rel [OF _ assms(4)]) (use assms(3) key_order.compare_flip [OF assms(1)] in auto)
  with bb_built_entries [OF bb_built_empty(1) assms(2), where fs = es] obtain b where
    b: "add_entries Compare R es make_BlockBuilder = Some b" "bb_built R es b" by auto
  then show ?thesis
    using Finish_bb_built [OF b(2)] CurrentSizeEstimate_bb_built [OF b(2)] NewIterator_block [of R es] by simp
qed

theorem block_built_witness:
  "\<exists>b. add_entries slice_compare 2 [([1, 2], [7]), ([1, 3], []), ([4], [9])] make_BlockBuilder = Some b \<and>
     CurrentSizeEstimate b = 27"
proof -
  have "\<exists>b. add_entries slice_compare 2 [([1, 2], [7]), ([1, 3], []), ([4], [9])] make_BlockBuilder = Some b"
    using block_built [OF bytewise.key_order_axioms, of 2 "[([1, 2], [7]), ([1, 3], []), ([4], [9])]"]
    by (auto simp: slice_compare_def)
  then show ?thesis
    by (auto simp: BlockBuilder_Add_def make_BlockBuilder_def slice_compare_def PutVarint32_def EncodeVarint32_def
        CurrentSizeEstimate_def)
qed

text \<open>
  C33. The iterator over a block refines a position in its list of entries: it is valid when the
  position is that of an entry and then shows its key and value; \<^verbatim>\<open>SeekToFirst\<close>, \<^verbatim>\<open>SeekToLast\<close>,
  \<^verbatim>\<open>Next\<close> and \<^verbatim>\<open>Prev\<close> move the position as they should, and \<^verbatim>\<open>Seek\<close> moves it to the first entry whose
  key is not smaller than the target, or behind the last entry. Every operation returns.
\<close>

theorem block_iterator_refines:
  assumes "key_order Compare valid" "\<forall>e \<in> set es. valid (fst e)"
    "sorted_wrt (\<lambda>a b. Compare (fst a) (fst b) < 0) es"
    "at_position R es i it" "length (block_bytes R es) < 2 ^ 32"
  shows "(Block_Valid it \<longleftrightarrow> i < length es) \<and>
    (i < length es \<longrightarrow> (bi_key it, bi_value it) = es ! i) \<and> bi_status it = OK \<and>
    (\<exists>it'. Block_SeekToFirst it = Some it' \<and> at_position R es 0 it') \<and>
    (\<exists>it'. Block_SeekToLast it = Some it' \<and> at_position R es (length es - 1) it') \<and>
    (i < length es \<longrightarrow> (\<exists>it'. Block_Next it = Some it' \<and> at_position R es (Suc i) it')) \<and>
    (i < length es \<longrightarrow> (\<exists>it'. Block_Prev it = Some it' \<and>
       at_position R es (if i = 0 then length es else i - 1) it')) \<and>
    (valid target \<longrightarrow> (\<exists>it'. Block_Seek Compare target it = Some it' \<and>
       at_position R es (lower_bound Compare target es) it'))"
proof -
  have on: "on_block R es it" using assms(4) by (simp add: at_position_def)
  show ?thesis
    using at_position_Valid [OF assms(4)] assms(4) Block_SeekToFirst_block [OF on assms(5)]
      Block_SeekToLast_block [OF on assms(5)] Block_Next_block [OF assms(4) _ assms(5)]
      Block_Prev_block [OF assms(4) _ assms(5)] Block_Seek_block [OF assms(1,3,2) _ on assms(5)]
    by (simp add: at_position_def on_block_def)
qed

theorem block_iterator_refines_witness:
  "\<exists>it it'. NewIterator (block_bytes 2 [([1, 2], [7]), ([1, 3], []), ([4], [9])]) = Block_iterator it \<and>
     Block_Seek slice_compare [2] it = Some it' \<and> bi_key it' = [4] \<and> bi_value it' = [9]"
proof -
  let ?es = "[([1, 2], [7]), ([1, 3], []), ([4], [9])] :: (slice \<times> slice) list"
  have len: "length (block_bytes 2 ?es) < 2 ^ 32"
    by (simp add: length_block_bytes entries_upto_def entry_bytes_def entry_head_def entry_shared_def EncodeVarint32_def
        restart_count_def)
  from NewIterator_block [OF this] obtain it where
    it: "NewIterator (block_bytes 2 ?es) = Block_iterator it" "at_position 2 ?es (length ?es) it" by blast
  have sorted: "sorted_wrt (\<lambda>a b. slice_compare (fst a) (fst b) < 0) ?es" by (simp add: slice_compare_def)
  have lb: "lower_bound slice_compare [2] ?es = 2" by (simp add: lower_bound_def slice_compare_def)
  from block_iterator_refines [OF bytewise.key_order_axioms _ sorted it(2) len, of "[2]"] lb
  obtain it' where it': "Block_Seek slice_compare [2] it = Some it'" "at_position 2 ?es 2 it'" by auto
  then have "(bi_key it', bi_value it') = ([4], [9])" by (simp add: at_position_def)
  with it it' show ?thesis by auto
qed

text \<open>
  The check of an entry's lengths adds two 32-bit numbers, and the sum can wrap: this block, whose
  only entry claims a key of \<open>2 ^ 32 - 1\<close> bytes and a value of two bytes, passes it, and the iterator
  then reads the key behind the end of the block.
\<close>

lemma DecodeEntry_wraps:
  "DecodeEntry [0, 0xFF, 0xFF, 0xFF, 0xFF, 0x0F, 2, 65, 66] = Some (0, 4294967295, 2, [65, 66])"
  by (simp add: DecodeEntry_def GetVarint32Ptr_def GetVarint32PtrFallback_def)

lemma corrupt_block_read_behind_end:
  "\<exists>it. NewIterator ([0, 0xFF, 0xFF, 0xFF, 0xFF, 0x0F, 2, 65, 66] @ EncodeFixed32 0 @ EncodeFixed32 1) = Block_iterator it \<and>
     Block_SeekToFirst it = None"
  by (simp add: NewIterator_def NumRestarts_def block_size_def EncodeFixed32_def nat_le_numeral Block_SeekToFirst_def
      SeekToRestartPoint_def GetRestartPoint_def DecodeFixed32_def ParseNextKey_def NextEntryOffset_def region_def
      DecodeEntry_wraps Let_def)

end
