(* ===== verification/Ldb_Table.thy ===== *)
theory Ldb_Table
  imports Ldb_Table_Format Ldb_Filter_Block Ldb_Block_Spec
begin

text \<open>
  Tables: the builder (\<^verbatim>\<open>table_builder.cc\<close>) and the reader (\<^verbatim>\<open>table.cc\<close>) without a block cache, and the
  filter policy for internal keys (\<^verbatim>\<open>dbformat.cc\<close>). The file written to is any implementation of
  \<^verbatim>\<open>WritableFile\<close>, given by its operations; the file read from is the read operation of a
  \<^verbatim>\<open>RandomAccessFile\<close>. \<open>a\<close> is the address that the checksum routine is called with. A run is \<open>None\<close> when
  it violates an assertion or reads memory it does not own.
\<close>

subsection \<open>Options\<close>

text \<open>Comparators are objects, told apart by their addresses.\<close>

record Comparator =
  cmp_address :: addr
  cmp_Compare :: "slice \<Rightarrow> slice \<Rightarrow> int"
  cmp_FindShortestSeparator :: "slice \<Rightarrow> slice \<Rightarrow> slice"
  cmp_FindShortSuccessor :: "slice \<Rightarrow> slice"

record FilterPolicy =
  fp_Name :: slice
  fp_CreateFilter :: "slice list \<Rightarrow> byte list \<Rightarrow> byte list"
  fp_KeyMayMatch :: "slice \<Rightarrow> slice \<Rightarrow> bool"

record Options =
  opt_comparator :: Comparator
  opt_paranoid_checks :: bool
  opt_block_size :: nat
  opt_block_restart_interval :: nat
  opt_compression :: CompressionType
  opt_filter_policy :: "FilterPolicy option"

definition InternalFilterPolicy_CreateFilter ::
  "(slice list \<Rightarrow> byte list \<Rightarrow> byte list) \<Rightarrow> slice list \<Rightarrow> byte list \<Rightarrow> byte list" where
  "InternalFilterPolicy_CreateFilter create keys dst = create (map ExtractUserKey keys) dst"

definition InternalFilterPolicy_KeyMayMatch :: "(slice \<Rightarrow> slice \<Rightarrow> bool) \<Rightarrow> slice \<Rightarrow> slice \<Rightarrow> bool" where
  "InternalFilterPolicy_KeyMayMatch matches key f = matches (ExtractUserKey key) f"

subsection \<open>The builder\<close>

record 'f TableBuilder =
  tb_options :: Options
  tb_index_block_options :: Options
  tb_file :: 'f
  tb_offset :: "64 word"
  tb_status :: Status
  tb_data_block :: BlockBuilder
  tb_index_block :: BlockBuilder
  tb_last_key :: slice
  tb_num_entries :: nat
  tb_closed :: bool
  tb_filter_block :: "(FilterPolicy \<times> FilterBlockBuilder) option"
  tb_pending_index_entry :: bool
  tb_pending_handle :: BlockHandle

text \<open>The call of \<^verbatim>\<open>StartBlock\<close> on the filter builder, if there is one.\<close>

definition filter_start :: "nat \<Rightarrow> 'f TableBuilder \<Rightarrow> 'f TableBuilder option" where
  "filter_start off r =
     (case tb_filter_block r of None \<Rightarrow> Some r
      | Some (p, fb) \<Rightarrow> map_option (\<lambda>fb. r\<lparr>tb_filter_block := Some (p, fb)\<rparr>) (StartBlock (fp_CreateFilter p) off fb))"

definition make_TableBuilder :: "Options \<Rightarrow> 'f \<Rightarrow> 'f TableBuilder option" where
  "make_TableBuilder opt f =
     filter_start 0
       \<lparr>tb_options = opt, tb_index_block_options = opt\<lparr>opt_block_restart_interval := 1\<rparr>, tb_file = f, tb_offset = 0,
        tb_status = OK, tb_data_block = make_BlockBuilder, tb_index_block = make_BlockBuilder, tb_last_key = [],
        tb_num_entries = 0, tb_closed = False,
        tb_filter_block = map_option (\<lambda>p. (p, make_FilterBlockBuilder)) (opt_filter_policy opt),
        tb_pending_index_entry = False, tb_pending_handle = make_BlockHandle\<rparr>"

definition ChangeOptions :: "Options \<Rightarrow> 'f TableBuilder \<Rightarrow> Status \<times> 'f TableBuilder" where
  "ChangeOptions opt r =
     (if cmp_address (opt_comparator opt) \<noteq> cmp_address (opt_comparator (tb_options r))
      then (InvalidArgument ''changing comparator while building table'' [], r)
      else (OK, r\<lparr>tb_options := opt, tb_index_block_options := opt\<lparr>opt_block_restart_interval := 1\<rparr>\<rparr>))"

definition block_Add :: "Options \<Rightarrow> slice \<Rightarrow> slice \<Rightarrow> BlockBuilder \<Rightarrow> BlockBuilder option" where
  "block_Add opt key val b = BlockBuilder_Add (cmp_Compare (opt_comparator opt)) (opt_block_restart_interval opt) key val b"

definition WriteRawBlock ::
  "('f \<Rightarrow> byte list \<Rightarrow> Status \<times> 'f) \<Rightarrow> addr \<Rightarrow> slice \<Rightarrow> CompressionType \<Rightarrow> 'f TableBuilder \<Rightarrow> BlockHandle \<times> 'f TableBuilder" where
  "WriteRawBlock app a contents type r =
     (let handle = \<lparr>bh_offset = tb_offset r, bh_size = word_of_nat (length contents)\<rparr>;
          (s, f) = app (tb_file r) contents;
          r = r\<lparr>tb_status := s, tb_file := f\<rparr>
      in if ok s then
           let crc = Extend a (crc_Value a contents) [compression_code type];
               trailer = [compression_code type] @ EncodeFixed32 (Mask crc);
               (s, f) = app f trailer;
               r = r\<lparr>tb_status := s, tb_file := f\<rparr>
           in (handle, if ok s then r\<lparr>tb_offset := tb_offset r + word_of_nat (length contents + kBlockTrailerSize)\<rparr> else r)
         else (handle, r))"

definition WriteBlock ::
  "('f \<Rightarrow> byte list \<Rightarrow> Status \<times> 'f) \<Rightarrow> addr \<Rightarrow> BlockBuilder \<Rightarrow> 'f TableBuilder \<Rightarrow>
   (BlockHandle \<times> BlockBuilder \<times> 'f TableBuilder) option" where
  "WriteBlock app a block r =
     (if ok (tb_status r) then
        let (raw, block) = BlockBuilder_Finish block;
            (contents, type) =
              (case opt_compression (tb_options r) of
                 kNoCompression \<Rightarrow> (raw, kNoCompression)
               | kSnappyCompression \<Rightarrow>
                   (case Snappy_Compress raw of
                      Some compressed \<Rightarrow>
                        if length compressed < length raw - length raw div 8 then (compressed, kSnappyCompression)
                        else (raw, kNoCompression)
                    | None \<Rightarrow> (raw, kNoCompression)));
            (handle, r) = WriteRawBlock app a contents type r
        in Some (handle, BlockBuilder_Reset block, r)
      else None)"

definition TableBuilder_Flush ::
  "('f \<Rightarrow> byte list \<Rightarrow> Status \<times> 'f) \<Rightarrow> ('f \<Rightarrow> Status \<times> 'f) \<Rightarrow> addr \<Rightarrow> 'f TableBuilder \<Rightarrow> 'f TableBuilder option" where
  "TableBuilder_Flush app fl a r =
     (if tb_closed r then None
      else if \<not> ok (tb_status r) then Some r
      else if bb_buffer (tb_data_block r) = [] then Some r
      else if tb_pending_index_entry r then None
      else do {
        (handle, block, r) \<leftarrow> WriteBlock app a (tb_data_block r) r;
        let r = r\<lparr>tb_data_block := block, tb_pending_handle := handle\<rparr>;
        let r = (if ok (tb_status r)
                 then let (s, f) = fl (tb_file r) in r\<lparr>tb_pending_index_entry := True, tb_status := s, tb_file := f\<rparr>
                 else r);
        filter_start (unat (tb_offset r)) r
      })"

definition add_index_entry :: "slice \<Rightarrow> 'f TableBuilder \<Rightarrow> 'f TableBuilder option" where
  "add_index_entry last_key r = do {
     handle_encoding \<leftarrow> BlockHandle_EncodeTo (tb_pending_handle r) [];
     index \<leftarrow> block_Add (tb_index_block_options r) last_key handle_encoding (tb_index_block r);
     Some (r\<lparr>tb_last_key := last_key, tb_index_block := index, tb_pending_index_entry := False\<rparr>)
   }"

definition TableBuilder_Add ::
  "('f \<Rightarrow> byte list \<Rightarrow> Status \<times> 'f) \<Rightarrow> ('f \<Rightarrow> Status \<times> 'f) \<Rightarrow> addr \<Rightarrow> slice \<Rightarrow> slice \<Rightarrow> 'f TableBuilder \<Rightarrow>
   'f TableBuilder option" where
  "TableBuilder_Add app fl a key val r =
     (let cmp = opt_comparator (tb_options r) in
      if tb_closed r then None
      else if \<not> ok (tb_status r) then Some r
      else if tb_num_entries r > 0 \<and> \<not> cmp_Compare cmp key (tb_last_key r) > 0 then None
      else do {
        r \<leftarrow> (if tb_pending_index_entry r then
                (if bb_buffer (tb_data_block r) = []
                 then add_index_entry (cmp_FindShortestSeparator cmp (tb_last_key r) key) r else None)
              else Some r);
        let r = r\<lparr>tb_filter_block := map_option (apsnd (AddKey key)) (tb_filter_block r), tb_last_key := key,
                  tb_num_entries := tb_num_entries r + 1\<rparr>;
        data_block \<leftarrow> block_Add (tb_options r) key val (tb_data_block r);
        let r = r\<lparr>tb_data_block := data_block\<rparr>;
        if CurrentSizeEstimate data_block \<ge> opt_block_size (tb_options r) then TableBuilder_Flush app fl a r else Some r
      })"

definition filter_key :: "FilterPolicy \<Rightarrow> slice" where
  "filter_key p = map of_char ''filter.'' @ fp_Name p"

definition finish_filter ::
  "('f \<Rightarrow> byte list \<Rightarrow> Status \<times> 'f) \<Rightarrow> addr \<Rightarrow> 'f TableBuilder \<Rightarrow> BlockHandle \<times> 'f TableBuilder" where
  "finish_filter app a r =
     (case tb_filter_block r of
        Some (p, fb) \<Rightarrow> if ok (tb_status r)
          then WriteRawBlock app a (FilterBlock_Finish (fp_CreateFilter p) fb) kNoCompression r
          else (make_BlockHandle, r)
      | None \<Rightarrow> (make_BlockHandle, r))"

definition finish_metaindex ::
  "('f \<Rightarrow> byte list \<Rightarrow> Status \<times> 'f) \<Rightarrow> addr \<Rightarrow> BlockHandle \<Rightarrow> 'f TableBuilder \<Rightarrow>
   (BlockHandle \<times> 'f TableBuilder) option" where
  "finish_metaindex app a filter_handle r =
     (if ok (tb_status r) then do {
        meta \<leftarrow> (case tb_filter_block r of
                   None \<Rightarrow> Some make_BlockBuilder
                 | Some _ \<Rightarrow> do {
                     p \<leftarrow> opt_filter_policy (tb_options r);
                     handle_encoding \<leftarrow> BlockHandle_EncodeTo filter_handle [];
                     block_Add (tb_options r) (filter_key p) handle_encoding make_BlockBuilder
                   });
        (handle, meta, r) \<leftarrow> WriteBlock app a meta r;
        Some (handle, r)
      }
      else Some (make_BlockHandle, r))"

definition finish_index ::
  "('f \<Rightarrow> byte list \<Rightarrow> Status \<times> 'f) \<Rightarrow> addr \<Rightarrow> 'f TableBuilder \<Rightarrow> (BlockHandle \<times> 'f TableBuilder) option" where
  "finish_index app a r =
     (if ok (tb_status r) then do {
        r \<leftarrow> (if tb_pending_index_entry r
              then add_index_entry (cmp_FindShortSuccessor (opt_comparator (tb_options r)) (tb_last_key r)) r
              else Some r);
        (handle, index, r) \<leftarrow> WriteBlock app a (tb_index_block r) r;
        Some (handle, r\<lparr>tb_index_block := index\<rparr>)
      }
      else Some (make_BlockHandle, r))"

definition finish_footer ::
  "('f \<Rightarrow> byte list \<Rightarrow> Status \<times> 'f) \<Rightarrow> BlockHandle \<Rightarrow> BlockHandle \<Rightarrow> 'f TableBuilder \<Rightarrow> 'f TableBuilder option" where
  "finish_footer app meta index r =
     (if ok (tb_status r) then do {
        enc \<leftarrow> Footer_EncodeTo \<lparr>metaindex_handle = meta, index_handle = index\<rparr> [];
        let (s, f) = app (tb_file r) enc;
        Some (r\<lparr>tb_status := s, tb_file := f,
               tb_offset := (if ok s then tb_offset r + word_of_nat (length enc) else tb_offset r)\<rparr>)
      }
      else Some r)"

definition TableBuilder_Finish ::
  "('f \<Rightarrow> byte list \<Rightarrow> Status \<times> 'f) \<Rightarrow> ('f \<Rightarrow> Status \<times> 'f) \<Rightarrow> addr \<Rightarrow> 'f TableBuilder \<Rightarrow>
   (Status \<times> 'f TableBuilder) option" where
  "TableBuilder_Finish app fl a r = do {
     r \<leftarrow> TableBuilder_Flush app fl a r;
     let r = r\<lparr>tb_closed := True\<rparr>;
     let (filter_handle, r) = finish_filter app a r;
     (meta_handle, r) \<leftarrow> finish_metaindex app a filter_handle r;
     (index_handle, r) \<leftarrow> finish_index app a r;
     r \<leftarrow> finish_footer app meta_handle index_handle r;
     Some (tb_status r, r)
   }"

definition TableBuilder_Abandon :: "'f TableBuilder \<Rightarrow> 'f TableBuilder option" where
  "TableBuilder_Abandon r = (if tb_closed r then None else Some (r\<lparr>tb_closed := True\<rparr>))"

definition FileSize :: "'f TableBuilder \<Rightarrow> 64 word" where
  "FileSize r = tb_offset r"

subsection \<open>Iterators\<close>

text \<open>An error or an empty iterator is never valid; the operations that move it do nothing.\<close>

fun iterator_Valid :: "new_iterator \<Rightarrow> bool" where
  "iterator_Valid (Block_iterator it) = Block_Valid it"
| "iterator_Valid _ = False"

fun iterator_status :: "new_iterator \<Rightarrow> Status" where
  "iterator_status (Error_iterator s) = s"
| "iterator_status Empty_iterator = OK"
| "iterator_status (Block_iterator it) = bi_status it"

fun iterator_key :: "new_iterator \<Rightarrow> slice option" where
  "iterator_key (Block_iterator it) = (if Block_Valid it then Some (bi_key it) else None)"
| "iterator_key _ = None"

fun iterator_value :: "new_iterator \<Rightarrow> slice option" where
  "iterator_value (Block_iterator it) = (if Block_Valid it then Some (bi_value it) else None)"
| "iterator_value _ = None"

fun iterator_Seek :: "(slice \<Rightarrow> slice \<Rightarrow> int) \<Rightarrow> slice \<Rightarrow> new_iterator \<Rightarrow> new_iterator option" where
  "iterator_Seek cmp target (Block_iterator it) = map_option Block_iterator (Block_Seek cmp target it)"
| "iterator_Seek cmp target it = Some it"

subsection \<open>The reader\<close>

text \<open>The options of the table; the file is a parameter of the operations. \<open>t_index_block\<close> is the data of the block.\<close>

record Table =
  t_options :: Options
  t_filter :: "(FilterPolicy \<times> FilterBlockReader) option"
  t_metaindex_handle :: BlockHandle
  t_index_block :: slice

definition ReadFilter :: "random_read \<Rightarrow> addr \<Rightarrow> slice \<Rightarrow> Table \<Rightarrow> Table option" where
  "ReadFilter read a v t =
     (case BlockHandle_DecodeFrom v of Inl _ \<Rightarrow> Some t
      | Inr (handle, _) \<Rightarrow> do {
          block \<leftarrow> ReadBlock read a (opt_paranoid_checks (t_options t)) handle;
          case block of Inl _ \<Rightarrow> Some t
          | Inr c \<Rightarrow> do {
              p \<leftarrow> opt_filter_policy (t_options t);
              Some (t\<lparr>t_filter := Some (p, make_FilterBlockReader (bc_data c))\<rparr>)
            }
        })"

definition ReadMeta :: "random_read \<Rightarrow> addr \<Rightarrow> Footer \<Rightarrow> Table \<Rightarrow> Table option" where
  "ReadMeta read a footer t =
     (case opt_filter_policy (t_options t) of None \<Rightarrow> Some t
      | Some p \<Rightarrow> do {
          contents \<leftarrow> ReadBlock read a (opt_paranoid_checks (t_options t)) (metaindex_handle footer);
          case contents of Inl _ \<Rightarrow> Some t
          | Inr c \<Rightarrow> do {
              iter \<leftarrow> iterator_Seek slice_compare (filter_key p) (NewIterator (bc_data c));
              if iterator_Valid iter then do {
                key \<leftarrow> iterator_key iter;
                v \<leftarrow> iterator_value iter;
                if slice_eq key (filter_key p) then ReadFilter read a v t else Some t
              }
              else Some t
            }
        })"

definition Table_Open :: "random_read \<Rightarrow> addr \<Rightarrow> Options \<Rightarrow> nat \<Rightarrow> (Status + Table) option" where
  "Table_Open read a opt sz =
     (if sz < Footer_kEncodedLength then Some (Inl (Corruption ''file is too short to be an sstable'' []))
      else do {
        (s, footer_input, _) \<leftarrow> read (sz - Footer_kEncodedLength) Footer_kEncodedLength;
        if \<not> ok s then Some (Inl s)
        else do {
          footer \<leftarrow> Footer_DecodeFrom footer_input;
          case footer of Inl s \<Rightarrow> Some (Inl s)
          | Inr (footer, _) \<Rightarrow> do {
              index \<leftarrow> ReadBlock read a (opt_paranoid_checks opt) (index_handle footer);
              case index of Inl s \<Rightarrow> Some (Inl s)
              | Inr c \<Rightarrow> map_option Inr (ReadMeta read a footer
                  \<lparr>t_options = opt, t_filter = None, t_metaindex_handle = metaindex_handle footer, t_index_block = bc_data c\<rparr>)
            }
        }
      })"

text \<open>The branch without a block cache.\<close>

definition BlockReader :: "random_read \<Rightarrow> addr \<Rightarrow> bool \<Rightarrow> slice \<Rightarrow> new_iterator option" where
  "BlockReader read a verify index_value =
     (case BlockHandle_DecodeFrom index_value of Inl s \<Rightarrow> Some (Error_iterator s)
      | Inr (handle, _) \<Rightarrow> do {
          contents \<leftarrow> ReadBlock read a verify handle;
          Some (case contents of Inl s \<Rightarrow> Error_iterator s | Inr c \<Rightarrow> NewIterator (bc_data c))
        })"

text \<open>The filter rules the key out.\<close>

definition ruled_out :: "Table \<Rightarrow> slice \<Rightarrow> slice \<Rightarrow> bool option" where
  "ruled_out t handle_value k =
     (case t_filter t of None \<Rightarrow> Some False
      | Some (p, fr) \<Rightarrow>
          (case BlockHandle_DecodeFrom handle_value of Inl _ \<Rightarrow> Some False
           | Inr (handle, _) \<Rightarrow>
               map_option Not (FilterBlock_KeyMayMatch (fp_KeyMayMatch p) fr (unat (bh_offset handle)) k)))"

text \<open>The status, and the key and value that the handler of the caller gets, if it is called.\<close>

definition InternalGet ::
  "random_read \<Rightarrow> addr \<Rightarrow> bool \<Rightarrow> slice \<Rightarrow> Table \<Rightarrow> (Status \<times> (slice \<times> slice) option) option" where
  "InternalGet read a verify k t = do {
     let cmp = cmp_Compare (opt_comparator (t_options t));
     iiter \<leftarrow> iterator_Seek cmp k (NewIterator (t_index_block t));
     (s, found) \<leftarrow>
       (if iterator_Valid iiter then do {
          handle_value \<leftarrow> iterator_value iiter;
          out \<leftarrow> ruled_out t handle_value k;
          if out then Some (OK, None)
          else do {
            block_iter \<leftarrow> BlockReader read a verify handle_value;
            block_iter \<leftarrow> iterator_Seek cmp k block_iter;
            found \<leftarrow> (if iterator_Valid block_iter then do {
                key \<leftarrow> iterator_key block_iter;
                v \<leftarrow> iterator_value block_iter;
                Some (Some (key, v))
              } else Some None);
            Some (iterator_status block_iter, found)
          }
        }
        else Some (OK, None));
     Some (if ok s then iterator_status iiter else s, found)
   }"

definition ApproximateOffsetOf :: "slice \<Rightarrow> Table \<Rightarrow> 64 word option" where
  "ApproximateOffsetOf key t = do {
     iter \<leftarrow> iterator_Seek (cmp_Compare (opt_comparator (t_options t))) key (NewIterator (t_index_block t));
     if iterator_Valid iter then do {
       input \<leftarrow> iterator_value iter;
       Some (case BlockHandle_DecodeFrom input of
               Inr (handle, _) \<Rightarrow> bh_offset handle
             | Inl _ \<Rightarrow> bh_offset (t_metaindex_handle t))
     }
     else Some (bh_offset (t_metaindex_handle t))
   }"

end
