(* ===== verification/Ldb_Table_Spec.thy ===== *)
theory Ldb_Table_Spec
  imports Ldb_Table
begin

text \<open>
  A table file is a function of the options and the sorted list of entries: this is what the builder
  writes, and what the reader answers lookups from.
\<close>

subsection \<open>The layout of a table\<close>

text \<open>The entries are cut into blocks when the size estimate reaches the block size.\<close>

fun cut_blocks :: "Options \<Rightarrow> (slice \<times> slice) list \<Rightarrow> (slice \<times> slice) list \<Rightarrow> (slice \<times> slice) list list" where
  "cut_blocks opt cur [] = (if cur = [] then [] else [cur])"
| "cut_blocks opt cur (e # es) =
     (if length (block_bytes (opt_block_restart_interval opt) (cur @ [e])) \<ge> opt_block_size opt
      then (cur @ [e]) # cut_blocks opt [] es else cut_blocks opt (cur @ [e]) es)"

definition data_block :: "Options \<Rightarrow> (slice \<times> slice) list \<Rightarrow> byte list" where
  "data_block opt b = block_bytes (opt_block_restart_interval opt) b"

definition data_part :: "Options \<Rightarrow> (slice \<times> slice) list list \<Rightarrow> byte list" where
  "data_part opt bs = concat (map (\<lambda>b. framed (data_block opt b)) bs)"

definition handle_at :: "nat \<Rightarrow> slice \<Rightarrow> BlockHandle" where
  "handle_at off data = \<lparr>bh_offset = word_of_nat off, bh_size = word_of_nat (length data)\<rparr>"

definition data_handle :: "Options \<Rightarrow> (slice \<times> slice) list list \<Rightarrow> nat \<Rightarrow> BlockHandle" where
  "data_handle opt bs j = handle_at (length (data_part opt (take j bs))) (data_block opt (bs ! j))"

abbreviation last_key :: "(slice \<times> slice) list \<Rightarrow> slice" where
  "last_key b \<equiv> fst (last b)"

abbreviation first_key :: "(slice \<times> slice) list \<Rightarrow> slice" where
  "first_key b \<equiv> fst (hd b)"

definition separator_key :: "Options \<Rightarrow> (slice \<times> slice) list list \<Rightarrow> nat \<Rightarrow> slice" where
  "separator_key opt bs j = cmp_FindShortestSeparator (opt_comparator opt) (last_key (bs ! j)) (first_key (bs ! Suc j))"

definition index_key :: "Options \<Rightarrow> (slice \<times> slice) list list \<Rightarrow> nat \<Rightarrow> slice" where
  "index_key opt bs j =
     (if Suc j < length bs then separator_key opt bs j
      else cmp_FindShortSuccessor (opt_comparator opt) (last_key (bs ! j)))"

definition index_entries :: "Options \<Rightarrow> (slice \<times> slice) list list \<Rightarrow> (slice \<times> slice) list" where
  "index_entries opt bs = map (\<lambda>j. (index_key opt bs j, stored_handle (data_handle opt bs j))) [0..<length bs]"

text \<open>The keys of the blocks with the offsets of the blocks, and those of a block that is not yet written.\<close>

definition keys_at :: "Options \<Rightarrow> (slice \<times> slice) list list \<Rightarrow> (slice \<times> slice) list \<Rightarrow> (nat \<times> slice list) list" where
  "keys_at opt bs cur = map (\<lambda>j. (length (data_part opt (take j bs)), map fst (bs ! j))) [0..<length bs]
     @ [(length (data_part opt bs), map fst cur)]"

definition filter_bytes :: "Options \<Rightarrow> FilterPolicy \<Rightarrow> (slice \<times> slice) list list \<Rightarrow> byte list" where
  "filter_bytes opt p bs =
     (case add_blocks (fp_CreateFilter p) (keys_at opt bs []) make_FilterBlockBuilder of
        None \<Rightarrow> [] | Some fb \<Rightarrow> FilterBlock_Finish (fp_CreateFilter p) fb)"

definition filter_part :: "Options \<Rightarrow> (slice \<times> slice) list list \<Rightarrow> byte list" where
  "filter_part opt bs = (case opt_filter_policy opt of None \<Rightarrow> [] | Some p \<Rightarrow> framed (filter_bytes opt p bs))"

definition meta_entries :: "Options \<Rightarrow> (slice \<times> slice) list list \<Rightarrow> (slice \<times> slice) list" where
  "meta_entries opt bs =
     (case opt_filter_policy opt of None \<Rightarrow> []
      | Some p \<Rightarrow> [(filter_key p, stored_handle (handle_at (length (data_part opt bs)) (filter_bytes opt p bs)))])"

definition meta_block :: "Options \<Rightarrow> (slice \<times> slice) list list \<Rightarrow> byte list" where
  "meta_block opt bs = block_bytes (opt_block_restart_interval opt) (meta_entries opt bs)"

definition index_block :: "Options \<Rightarrow> (slice \<times> slice) list list \<Rightarrow> byte list" where
  "index_block opt bs = block_bytes 1 (index_entries opt bs)"

definition meta_handle :: "Options \<Rightarrow> (slice \<times> slice) list list \<Rightarrow> BlockHandle" where
  "meta_handle opt bs = handle_at (length (data_part opt bs @ filter_part opt bs)) (meta_block opt bs)"

definition index_handle_of :: "Options \<Rightarrow> (slice \<times> slice) list list \<Rightarrow> BlockHandle" where
  "index_handle_of opt bs =
     handle_at (length (data_part opt bs @ filter_part opt bs @ framed (meta_block opt bs))) (index_block opt bs)"

definition blocks_file :: "Options \<Rightarrow> (slice \<times> slice) list list \<Rightarrow> byte list" where
  "blocks_file opt bs = data_part opt bs @ filter_part opt bs @ framed (meta_block opt bs) @ framed (index_block opt bs)
     @ stored_footer \<lparr>metaindex_handle = meta_handle opt bs, index_handle = index_handle_of opt bs\<rparr>"

definition table_file :: "Options \<Rightarrow> (slice \<times> slice) list \<Rightarrow> byte list" where
  "table_file opt es = blocks_file opt (cut_blocks opt [] es)"

lemma concat_cut_blocks: "concat (cut_blocks opt cur es) = cur @ es"
  by (induction opt cur es rule: cut_blocks.induct) auto

lemma cut_blocks_not_Nil: "[] \<notin> set (cut_blocks opt cur es)"
  by (induction opt cur es rule: cut_blocks.induct) auto

lemma data_part_append: "data_part opt (bs @ cs) = data_part opt bs @ data_part opt cs"
  by (simp add: data_part_def)

lemma data_part_snoc: "data_part opt (bs @ [b]) = data_part opt bs @ framed (data_block opt b)"
  by (simp add: data_part_def)

lemma small_not_all_ones: "n < 2 ^ 32 \<Longrightarrow> (word_of_nat n :: 64 word) \<noteq> NOT 0"
proof
  assume n: "n < 2 ^ 32" and "(word_of_nat n :: 64 word) = NOT 0"
  then have "unat (word_of_nat n :: 64 word) = unat (- 1 :: 64 word)" by simp
  then have "n = 2 ^ 64 - 1" using n by (simp add: unat_of_nat take_bit_eq_mod unsigned_minus_1_eq_mask mask_eq_exp_minus_1)
  with n show False by simp
qed

lemma set_handle_at: "off < 2 ^ 32 \<Longrightarrow> length data < 2 ^ 32 \<Longrightarrow> set_handle (handle_at off data)"
  by (simp add: set_handle_def handle_at_def small_not_all_ones del: bit.compl_zero)

lemma unat_handle_at:
  "off < 2 ^ 32 \<Longrightarrow> length data < 2 ^ 32 \<Longrightarrow> unat (bh_offset (handle_at off data)) = off \<and>
   unat (bh_size (handle_at off data)) = length data"
  by (simp add: handle_at_def unat_of_nat take_bit_eq_mod)

lemma add_blocks_append: "add_blocks create (xs @ ys) b = Option.bind (add_blocks create xs b) (add_blocks create ys)"
  by (induction create xs b rule: add_blocks.induct) (auto simp: bind_assoc intro!: bind_option_cong)

lemma add_blocks_key:
  "add_blocks create (keys_at opt bs (cur @ [e])) b = map_option (AddKey (fst e)) (add_blocks create (keys_at opt bs cur) b)"
  by (simp add: keys_at_def add_blocks_append map_option_bind map_option_is_None cong: bind_option_cong)

lemma keys_at_snoc: "keys_at opt (bs @ [cur]) [] = keys_at opt bs cur @ [(length (data_part opt (bs @ [cur])), [])]"
  by (simp add: keys_at_def nth_append cong: map_cong)

lemma sorted_keys_at: "sorted (map fst (keys_at opt bs cur))"
proof -
  have "length (data_part opt (take i bs)) \<le> length (data_part opt (take j bs))" if "i \<le> j" for i j
  proof -
    have "take j bs = take i bs @ take (j - i) (drop i bs)" using that by (metis le_add_diff_inverse take_add)
    then show ?thesis by (simp add: data_part_append)
  qed
  moreover have "map fst (keys_at opt bs cur) = map (\<lambda>j. length (data_part opt (take j bs))) [0..<Suc (length bs)]"
    by (simp add: keys_at_def)
  ultimately show ?thesis by (simp add: sorted_iff_nth_mono del: upt_Suc)
qed

subsection \<open>The contract of the options\<close>

text \<open>
  The comparator is one, the filter policy has no false negatives, and keys that are \<open>same\<close> are not told
  apart by the filter and have no separator between them.
\<close>

locale table_options =
  comparator "cmp_Compare (opt_comparator opt)" valid "cmp_FindShortestSeparator (opt_comparator opt)"
    "cmp_FindShortSuccessor (opt_comparator opt)"
  for opt :: Options and valid :: "slice \<Rightarrow> bool" +
  fixes same :: "slice \<Rightarrow> slice \<Rightarrow> bool"
  assumes interval: "0 < opt_block_restart_interval opt"
    and policy: "opt_filter_policy opt = Some p \<Longrightarrow> filter_policy (fp_CreateFilter p) (fp_KeyMayMatch p)"
    and policy_same: "opt_filter_policy opt = Some p \<Longrightarrow> same e k \<Longrightarrow> fp_KeyMayMatch p e = fp_KeyMayMatch p k"
    and separator_below: "valid a \<Longrightarrow> valid b \<Longrightarrow> valid e \<Longrightarrow> valid k \<Longrightarrow> same e k \<Longrightarrow>
      cmp_Compare (opt_comparator opt) a b < 0 \<Longrightarrow> cmp_Compare (opt_comparator opt) a k < 0 \<Longrightarrow>
      \<not> cmp_Compare (opt_comparator opt) e b < 0 \<Longrightarrow>
      cmp_Compare (opt_comparator opt) (cmp_FindShortestSeparator (opt_comparator opt) a b) k < 0"

abbreviation less_entry :: "Options \<Rightarrow> slice \<times> slice \<Rightarrow> slice \<times> slice \<Rightarrow> bool" where
  "less_entry opt x y \<equiv> cmp_Compare (opt_comparator opt) (fst x) (fst y) < 0"

definition table_entries :: "Options \<Rightarrow> (slice \<Rightarrow> bool) \<Rightarrow> (slice \<times> slice) list \<Rightarrow> bool" where
  "table_entries opt valid es \<longleftrightarrow> (\<forall>e \<in> set es. valid (fst e)) \<and> sorted_wrt (less_entry opt) es"

context table_options
begin

lemma cmp_flip: "valid a \<Longrightarrow> valid b \<Longrightarrow> cmp_Compare (opt_comparator opt) a b < 0 \<Longrightarrow> cmp_Compare (opt_comparator opt) b a > 0"
  using compare_flip by blast

lemma filter_builds: "opt_filter_policy opt = Some p \<Longrightarrow>
    \<exists>fb. add_blocks (fp_CreateFilter p) (keys_at opt bs cur) make_FilterBlockBuilder = Some fb"
  using filter_policy.add_blocks_total [OF policy sorted_keys_at] .

text \<open>The first keys, the last keys and the separators of the blocks are in order.\<close>

lemma block_keys:
  assumes "table_entries opt valid (concat bs)" "[] \<notin> set bs" "i < j" "j < length bs"
  shows "less_entry opt (last (bs ! i)) (hd (bs ! j))"
proof -
  have ne: "bs ! i \<noteq> []" "bs ! j \<noteq> []" using assms(2-4) by (metis less_trans nth_mem)+
  have "bs = take j bs @ bs ! j # drop (Suc j) bs" using assms(4) by (rule id_take_nth_drop)
  then have "concat bs = concat (take j bs) @ bs ! j @ concat (drop (Suc j) bs)" by (metis concat.simps(2) concat_append)
  then have "\<forall>x \<in> set (concat (take j bs)). \<forall>y \<in> set (bs ! j). less_entry opt x y"
    using assms(1) by (simp add: table_entries_def sorted_wrt_append)
  moreover have "last (bs ! i) \<in> set (concat (take j bs))"
  proof -
    have "bs ! i = take j bs ! i" using assms(3) by simp
    then have "bs ! i \<in> set (take j bs)" using assms(3,4) by (metis length_take min.absorb4 nth_mem)
    with ne(1) show ?thesis by (auto intro!: bexI [of _ "bs ! i"])
  qed
  ultimately show ?thesis using hd_in_set [OF ne(2)] by blast
qed

lemma valid_block_keys:
  assumes "table_entries opt valid (concat bs)" "[] \<notin> set bs" "j < length bs"
  shows "valid (first_key (bs ! j))" "valid (last_key (bs ! j))" "\<not> less_entry opt (last (bs ! j)) (hd (bs ! j))"
proof -
  have ne: "bs ! j \<noteq> []" using assms(2,3) by (metis nth_mem)
  have sub: "set (bs ! j) \<subseteq> set (concat bs)" using assms(3) by (auto intro: bexI [OF _ nth_mem])
  show v: "valid (first_key (bs ! j))" "valid (last_key (bs ! j))"
    using assms(1) sub hd_in_set [OF ne] last_in_set [OF ne] unfolding table_entries_def by blast+
  have "bs = take j bs @ bs ! j # drop (Suc j) bs" using assms(3) by (rule id_take_nth_drop)
  then have "concat bs = concat (take j bs) @ bs ! j @ concat (drop (Suc j) bs)" by (metis concat.simps(2) concat_append)
  then have "sorted_wrt (less_entry opt) (bs ! j)" using assms(1) by (simp add: table_entries_def sorted_wrt_append)
  then show "\<not> less_entry opt (last (bs ! j)) (hd (bs ! j))"
    using ne v compare_flip [OF v] compare_irrefl [OF v(1)] by (cases "bs ! j") (auto split: if_splits)
qed

lemma separator_between:
  assumes "table_entries opt valid (concat bs)" "[] \<notin> set bs" "Suc j < length bs"
  shows "valid (separator_key opt bs j) \<and>
    \<not> cmp_Compare (opt_comparator opt) (separator_key opt bs j) (last_key (bs ! j)) < 0 \<and>
    cmp_Compare (opt_comparator opt) (separator_key opt bs j) (first_key (bs ! Suc j)) < 0"
  unfolding separator_key_def
  using separator [OF valid_block_keys(2) [OF assms(1,2)] valid_block_keys(1) [OF assms]] block_keys [OF assms(1,2) _ assms(3)]
    assms(3) by simp

text \<open>The separators are below what follows them.\<close>

lemma separator_below_block:
  assumes "table_entries opt valid (concat bs)" "[] \<notin> set bs" "i < j" "j < length bs"
    "valid k" "\<not> cmp_Compare (opt_comparator opt) k (first_key (bs ! j)) < 0"
  shows "cmp_Compare (opt_comparator opt) (separator_key opt bs i) k < 0"
proof -
  have i: "Suc i < length bs" using assms(3,4) by simp
  note s = separator_between [OF assms(1,2) i]
  have "cmp_Compare (opt_comparator opt) (separator_key opt bs i) (first_key (bs ! j)) < 0"
  proof (cases "Suc i = j")
    case False
    then have "less_entry opt (last (bs ! Suc i)) (hd (bs ! j))" using block_keys [OF assms(1,2) _ assms(4), of "Suc i"] assms(3) by simp
    moreover note v = valid_block_keys [OF assms(1,2) i] valid_block_keys [OF assms(1,2,4)]
    ultimately have "less_entry opt (hd (bs ! Suc i)) (hd (bs ! j))"
      using compare_not_less [OF v(2,1)] compare_trans [OF v(1,2,4)] by auto
    with s v show ?thesis using compare_trans by blast
  qed (use s in simp)
  with compare_less_trans_le [OF _ valid_block_keys(1) [OF assms(1,2,4)] assms(5) _ assms(6)] s show ?thesis by blast
qed

end

subsection \<open>The builder writes it\<close>

fun add_table_entries ::
  "('f \<Rightarrow> byte list \<Rightarrow> Status \<times> 'f) \<Rightarrow> ('f \<Rightarrow> Status \<times> 'f) \<Rightarrow> addr \<Rightarrow> (slice \<times> slice) list \<Rightarrow> 'f TableBuilder \<Rightarrow>
   'f TableBuilder option" where
  "add_table_entries app fl a [] r = Some r"
| "add_table_entries app fl a ((k, v) # es) r = Option.bind (TableBuilder_Add app fl a k v r) (add_table_entries app fl a es)"

locale table_writer = table_options opt valid same + writable_file append flush contents durable healthy
  for opt valid same and append :: "'f \<Rightarrow> byte list \<Rightarrow> Status \<times> 'f" and flush contents durable healthy
begin

text \<open>
  The state of the builder after the blocks \<open>bs\<close> are written, with \<open>cur\<close> in the current block: the index
  entry of the last block is pending as long as there is no key behind it.
\<close>

definition index_built :: "(slice \<times> slice) list list \<Rightarrow> (slice \<times> slice) list \<Rightarrow> (slice \<times> slice) list" where
  "index_built bs cur =
     map (\<lambda>j. (separator_key opt (bs @ [cur]) j, stored_handle (data_handle opt bs j)))
       [0..<if cur = [] then length bs - 1 else length bs]"

definition filter_state :: "(slice \<times> slice) list list \<Rightarrow> (slice \<times> slice) list \<Rightarrow> (FilterPolicy \<times> FilterBlockBuilder) option" where
  "filter_state bs cur = map_option (\<lambda>p. (p, the (add_blocks (fp_CreateFilter p) (keys_at opt bs cur) make_FilterBlockBuilder)))
     (opt_filter_policy opt)"

definition writing :: "'f TableBuilder \<Rightarrow> (slice \<times> slice) list list \<Rightarrow> (slice \<times> slice) list \<Rightarrow> bool" where
  "writing r bs cur \<longleftrightarrow>
     tb_options r = opt \<and> tb_index_block_options r = opt\<lparr>opt_block_restart_interval := 1\<rparr> \<and>
     healthy (tb_file r) \<and> contents (tb_file r) = data_part opt bs \<and>
     tb_offset r = word_of_nat (length (data_part opt bs)) \<and> tb_status r = OK \<and>
     bb_built (opt_block_restart_interval opt) cur (tb_data_block r) \<and>
     bb_built 1 (index_built bs cur) (tb_index_block r) \<and>
     (concat bs @ cur \<noteq> [] \<longrightarrow> tb_last_key r = last_key (concat bs @ cur)) \<and>
     (tb_num_entries r > 0 \<longleftrightarrow> concat bs @ cur \<noteq> []) \<and> \<not> tb_closed r \<and>
     tb_filter_block r = filter_state bs cur \<and>
     (tb_pending_index_entry r \<longleftrightarrow> cur = [] \<and> bs \<noteq> []) \<and>
     (cur = [] \<and> bs \<noteq> [] \<longrightarrow> tb_pending_handle r = data_handle opt bs (length bs - 1))"

lemma WriteRawBlock_healthy:
  assumes "healthy (tb_file r)"
  shows "\<exists>f. WriteRawBlock append a data kNoCompression r =
      (\<lparr>bh_offset = tb_offset r, bh_size = word_of_nat (length data)\<rparr>,
       r\<lparr>tb_status := OK, tb_file := f, tb_offset := tb_offset r + word_of_nat (length (framed data))\<rparr>) \<and>
    healthy f \<and> contents f = contents (tb_file r) @ framed data"
proof -
  from append_healthy [OF assms, of data] obtain f1 where
    f1: "append (tb_file r) data = (OK, f1)" "healthy f1" "contents f1 = contents (tb_file r) @ data" by blast
  let ?t = "[compression_code kNoCompression] @ EncodeFixed32 (Mask (crc32c_spec 0 (data @ [compression_code kNoCompression])))"
  from append_healthy [OF f1(2), of ?t] obtain f2 where
    f2: "append f1 ?t = (OK, f2)" "healthy f2" "contents f2 = contents f1 @ ?t" by blast
  have "Extend a (crc_Value a data) [compression_code kNoCompression] = crc32c_spec 0 (data @ [compression_code kNoCompression])"
    by (simp add: crc_Value_def Extend_eq crc32c_spec_append)
  with f1 f2 show ?thesis
    by (intro exI [of _ f2]) (simp add: WriteRawBlock_def Let_def ok_def kBlockTrailerSize_def framed_def)
qed

lemma WriteBlock_healthy:
  assumes "healthy (tb_file r)" "tb_status r = OK" "bb_built R es b"
  shows "\<exists>f. WriteBlock append a b r =
      Some (\<lparr>bh_offset = tb_offset r, bh_size = word_of_nat (length (block_bytes R es))\<rparr>, make_BlockBuilder,
       r\<lparr>tb_status := OK, tb_file := f, tb_offset := tb_offset r + word_of_nat (length (framed (block_bytes R es)))\<rparr>) \<and>
    healthy f \<and> contents f = contents (tb_file r) @ framed (block_bytes R es)"
proof -
  have reset: "BlockBuilder_Reset x = make_BlockBuilder" for x by (simp add: BlockBuilder_Reset_def make_BlockBuilder_def)
  from WriteRawBlock_healthy [OF assms(1), of a "block_bytes R es"] obtain f where
    "WriteRawBlock append a (block_bytes R es) kNoCompression r =
      (\<lparr>bh_offset = tb_offset r, bh_size = word_of_nat (length (block_bytes R es))\<rparr>,
       r\<lparr>tb_status := OK, tb_file := f, tb_offset := tb_offset r + word_of_nat (length (framed (block_bytes R es)))\<rparr>)"
    "healthy f" "contents f = contents (tb_file r) @ framed (block_bytes R es)" by blast
  then show ?thesis
    using assms(2) Finish_bb_built [OF assms(3)]
    by (intro exI [of _ f], cases "BlockBuilder_Finish b"; cases "opt_compression (tb_options r)")
      (simp_all add: WriteBlock_def ok_def Snappy_Compress_def reset)
qed

lemma StartBlock_state:
  assumes "opt_filter_policy opt = Some p" "filter_state bs cur = Some (p, fb)"
  shows "\<exists>fb'. StartBlock (fp_CreateFilter p) (length (data_part opt (bs @ [cur]))) fb = Some fb' \<and>
    filter_state (bs @ [cur]) [] = Some (p, fb')"
proof -
  from filter_builds [OF assms(1), of bs cur] assms have
    fb: "add_blocks (fp_CreateFilter p) (keys_at opt bs cur) make_FilterBlockBuilder = Some fb"
    by (auto simp: filter_state_def)
  from filter_builds [OF assms(1), of "bs @ [cur]" "[]"] fb obtain fb' where
    "StartBlock (fp_CreateFilter p) (length (data_part opt (bs @ [cur]))) fb = Some fb'"
    by (auto simp: keys_at_snoc add_blocks_append split: Option.bind_splits)
  with fb assms(1) show ?thesis by (simp add: filter_state_def keys_at_snoc add_blocks_append)
qed

lemma filter_start_state:
  assumes "tb_filter_block r = filter_state bs cur"
  shows "filter_start (length (data_part opt (bs @ [cur]))) r = Some (r\<lparr>tb_filter_block := filter_state (bs @ [cur]) []\<rparr>)"
proof (cases "opt_filter_policy opt")
  case None
  then have "filter_state bs cur = None" "filter_state (bs @ [cur]) [] = None" by (simp_all add: filter_state_def)
  with assms show ?thesis by (simp add: filter_start_def)
next
  case (Some p)
  then obtain fb where fb: "filter_state bs cur = Some (p, fb)" by (simp add: filter_state_def)
  from StartBlock_state [OF Some fb] assms fb show ?thesis by (auto simp: filter_start_def)
qed

lemma index_built_snoc: "index_built (bs @ [cur]) [] = index_built bs cur" if "cur \<noteq> []"
  using that by (auto simp: index_built_def separator_key_def data_handle_def nth_append)

lemma Flush_writing:
  assumes "writing r bs cur" "cur \<noteq> []" "length (data_part opt (bs @ [cur])) < 2 ^ 32"
  shows "\<exists>r'. TableBuilder_Flush append flush a r = Some r' \<and> writing r' (bs @ [cur]) []"
proof -
  let ?R = "opt_block_restart_interval opt" and ?D = "data_part opt"
  note w = assms(1) [unfolded writing_def]
  from WriteBlock_healthy [of r ?R cur "tb_data_block r" a] w obtain f where
    f: "WriteBlock append a (tb_data_block r) r =
      Some (\<lparr>bh_offset = tb_offset r, bh_size = word_of_nat (length (block_bytes ?R cur))\<rparr>, make_BlockBuilder,
       r\<lparr>tb_status := OK, tb_file := f, tb_offset := tb_offset r + word_of_nat (length (framed (block_bytes ?R cur)))\<rparr>)"
    "healthy f" "contents f = ?D bs @ framed (block_bytes ?R cur)" by auto
  from flush_healthy [OF f(2)] obtain f' where f': "flush f = (OK, f')" "healthy f'" "contents f' = contents f" by blast
  have D: "?D (bs @ [cur]) = ?D bs @ framed (block_bytes ?R cur)" by (simp add: data_part_snoc data_block_def)
  have off: "tb_offset r + word_of_nat (length (framed (block_bytes ?R cur))) = word_of_nat (length (?D (bs @ [cur])))"
    using w D by simp
  have un: "unat (word_of_nat (length (?D (bs @ [cur]))) :: 64 word) = length (?D (bs @ [cur]))"
    using assms(3) by (simp add: unat_of_nat take_bit_eq_mod)
  have buf: "bb_buffer (tb_data_block r) \<noteq> []"
    using w assms(2) entry_offset_less [of ?R cur 0 "length cur"] by (auto simp: bb_built_def)
  let ?r = "r\<lparr>tb_offset := word_of_nat (length (?D (bs @ [cur]))), tb_data_block := make_BlockBuilder,
      tb_pending_handle := \<lparr>bh_offset = tb_offset r, bh_size = word_of_nat (length (block_bytes ?R cur))\<rparr>,
      tb_pending_index_entry := True, tb_status := OK, tb_file := f'\<rparr>"
  have fs: "filter_start (length (?D (bs @ [cur]))) ?r = Some (?r\<lparr>tb_filter_block := filter_state (bs @ [cur]) []\<rparr>)"
    using w by (intro filter_start_state) simp
  have "TableBuilder_Flush append flush a r = Some (?r\<lparr>tb_filter_block := filter_state (bs @ [cur]) []\<rparr>)"
    using w assms(2) buf f(1) f'(1) off un fs by (simp add: TableBuilder_Flush_def ok_def Let_def)
  moreover have "writing (?r\<lparr>tb_filter_block := filter_state (bs @ [cur]) []\<rparr>) (bs @ [cur]) []"
    using w assms(2) f f' D index_built_snoc [OF assms(2)] bb_built_empty(1)
    by (simp add: writing_def data_handle_def handle_at_def data_block_def nth_append)
  ultimately show ?thesis by blast
qed

lemma index_built_key: "cur \<noteq> [] \<Longrightarrow> index_built bs (cur @ [e]) = index_built bs cur"
  by (auto simp: index_built_def separator_key_def nth_append)

lemma index_built_first:
  assumes "bs \<noteq> []"
  shows "index_built bs [e] = index_built bs [] @
    [(cmp_FindShortestSeparator (opt_comparator opt) (last_key (last bs)) (fst e), stored_handle (data_handle opt bs (length bs - 1)))]"
proof -
  obtain n where n: "length bs = Suc n" using assms by (cases bs) auto
  have "index_built bs [e] = map (\<lambda>j. (separator_key opt (bs @ [[e]]) j, stored_handle (data_handle opt bs j))) [0..<n]
      @ [(separator_key opt (bs @ [[e]]) n, stored_handle (data_handle opt bs n))]" by (simp add: index_built_def n)
  moreover have "map (\<lambda>j. (separator_key opt (bs @ [[e]]) j, stored_handle (data_handle opt bs j))) [0..<n] = index_built bs []"
    by (auto simp: index_built_def n separator_key_def nth_append)
  moreover have "bs ! n = last bs" using assms n by (simp add: last_conv_nth)
  ultimately show ?thesis by (simp add: n separator_key_def nth_append)
qed

lemma index_order:
  assumes "table_entries opt valid (concat (bs @ [[e]]))" "[] \<notin> set bs" "index_built bs [] \<noteq> []"
  shows "cmp_Compare (opt_comparator opt)
    (cmp_FindShortestSeparator (opt_comparator opt) (last_key (last bs)) (fst e)) (last_key (index_built bs [])) > 0"
proof -
  have "length bs \<ge> 2" using assms(3) by (auto simp: index_built_def)
  then obtain m where m: "length bs = Suc (Suc m)" by (metis add_2_eq_Suc le_Suc_ex)
  let ?bs = "bs @ [[e]]"
  have ne: "[] \<notin> set ?bs" using assms(2) by simp
  have bs0: "bs \<noteq> []" using m by auto
  then have bs: "last bs = ?bs ! Suc m" using m last_conv_nth [OF bs0] by (simp add: nth_append)
  have l: "last_key (index_built bs []) = separator_key opt ?bs m"
    using m by (simp add: index_built_def separator_key_def nth_append)
  have s: "cmp_FindShortestSeparator (opt_comparator opt) (last_key (last bs)) (fst e) = separator_key opt ?bs (Suc m)"
    using m bs by (simp add: separator_key_def nth_append)
  have i: "Suc m < length ?bs" "Suc (Suc m) < length ?bs" using m by simp_all
  note a = separator_between [OF assms(1) ne i(1)] and b = separator_between [OF assms(1) ne i(2)]
  note v = valid_block_keys [OF assms(1) ne i(1)]
  have "cmp_Compare (opt_comparator opt) (separator_key opt ?bs m) (last_key (?bs ! Suc m)) < 0"
    using compare_less_trans_le [of _ "first_key (?bs ! Suc m)"] a v by blast
  then have "cmp_Compare (opt_comparator opt) (separator_key opt ?bs m) (separator_key opt ?bs (Suc m)) < 0"
    using compare_less_trans_le [of _ "last_key (?bs ! Suc m)"] a b v by blast
  then show ?thesis unfolding l s using cmp_flip a b by blast
qed

lemma add_index_entry_writing:
  assumes "writing r bs []" "bs \<noteq> []" "[] \<notin> set bs" "table_entries opt valid (concat bs @ [e])"
    "length (data_part opt bs) < 2 ^ 32"
  shows "\<exists>index. add_index_entry (cmp_FindShortestSeparator (opt_comparator opt) (tb_last_key r) (fst e)) r =
      Some (r\<lparr>tb_last_key := cmp_FindShortestSeparator (opt_comparator opt) (tb_last_key r) (fst e),
        tb_index_block := index, tb_pending_index_entry := False\<rparr>) \<and> bb_built 1 (index_built bs [e]) index"
proof -
  let ?k = "cmp_FindShortestSeparator (opt_comparator opt) (last_key (last bs)) (fst e)"
  note w = assms(1) [unfolded writing_def]
  have "last (concat bs) = last (last bs)" "concat bs \<noteq> []"
    using assms(2,3) by (induction bs rule: rev_induct) auto
  then have lk: "tb_last_key r = last_key (last bs)" using w by simp
  have b: "bs = take (length bs - 1) bs @ [bs ! (length bs - 1)]" using assms(2) by (metis append_butlast_last_id butlast_conv_take last_conv_nth)
  have D: "length (data_part opt (take (length bs - 1) bs)) < 2 ^ 32" "length (data_block opt (bs ! (length bs - 1))) < 2 ^ 32"
    using assms(5) arg_cong [OF b, of "\<lambda>x. length (data_part opt x)"] by (simp_all add: data_part_snoc)
  then have enc: "BlockHandle_EncodeTo (tb_pending_handle r) [] = Some (stored_handle (data_handle opt bs (length bs - 1)))"
    using w assms(2) by (simp add: BlockHandle_EncodeTo_eq data_handle_def set_handle_at)
  have ord: "index_built bs [] = [] \<or> cmp_Compare (opt_comparator opt) ?k (fst (last (index_built bs []))) > 0"
    using index_order [of bs e] assms(3,4) by auto
  from bb_built_Add [where R = 1 and es = "index_built bs []" and b = "tb_index_block r" and k = ?k
      and v = "stored_handle (data_handle opt bs (length bs - 1))" and cmp = "cmp_Compare (opt_comparator opt)", OF _ _ ord] w
  obtain index where "BlockBuilder_Add (cmp_Compare (opt_comparator opt)) 1 ?k (stored_handle (data_handle opt bs (length bs - 1)))
      (tb_index_block r) = Some index" "bb_built 1 (index_built bs [e]) index"
    using index_built_first [OF assms(2), of e] by auto
  with enc w show ?thesis by (intro exI [of _ index]) (simp add: add_index_entry_def block_Add_def lk)
qed

lemma filter_state_key:
  assumes "filter_state bs cur = F"
  shows "map_option (apsnd (AddKey (fst e))) F = filter_state bs (cur @ [e])"
proof (cases "opt_filter_policy opt")
  case (Some p)
  from filter_builds [OF Some, of bs cur] obtain fb where
    "add_blocks (fp_CreateFilter p) (keys_at opt bs cur) make_FilterBlockBuilder = Some fb" by blast
  with assms Some show ?thesis by (auto simp: filter_state_def add_blocks_key)
qed (use assms in \<open>auto simp: filter_state_def\<close>)

text \<open>A key is added: first the pending index entry, then the entry itself, before a flush of a full block.\<close>

lemma new_key_order:
  assumes "table_entries opt valid (es @ [e])" "es \<noteq> []"
  shows "cmp_Compare (opt_comparator opt) (fst e) (last_key es) > 0"
proof -
  have "last es \<in> set es" using assms(2) by (rule last_in_set)
  then have "cmp_Compare (opt_comparator opt) (last_key es) (fst e) < 0" "valid (last_key es)" "valid (fst e)"
    using assms(1) by (auto simp: table_entries_def sorted_wrt_append)
  then show ?thesis using cmp_flip by blast
qed

definition index_step :: "slice \<Rightarrow> 'f TableBuilder \<Rightarrow> 'f TableBuilder option" where
  "index_step key r = (if tb_pending_index_entry r then
      (if bb_buffer (tb_data_block r) = []
       then add_index_entry (cmp_FindShortestSeparator (opt_comparator (tb_options r)) (tb_last_key r) key) r else None)
     else Some r)"

lemma index_step_writing:
  assumes "writing r bs cur" "[] \<notin> set bs" "table_entries opt valid (concat bs @ cur @ [e])"
    "length (data_part opt bs) < 2 ^ 32"
  shows "\<exists>index lk. index_step (fst e) r = Some (r\<lparr>tb_last_key := lk, tb_index_block := index, tb_pending_index_entry := False\<rparr>) \<and>
      bb_built 1 (index_built bs (cur @ [e])) index"
proof -
  note w = assms(1) [unfolded writing_def]
  show ?thesis
  proof (cases "cur = [] \<and> bs \<noteq> []")
    case True
    moreover have "bb_buffer (tb_data_block r) = []" using w True by (simp add: bb_built_def)
    moreover have "writing r bs []" "table_entries opt valid (concat bs @ [e])" using assms(1,3) True by auto
    ultimately show ?thesis
      using add_index_entry_writing [of r bs e] assms(2,4) w by (auto simp: index_step_def)
  next
    case False
    then have "index_built bs (cur @ [e]) = index_built bs cur"
      using index_built_key [of cur bs e] by (cases "cur = []") (auto simp: index_built_def)
    moreover have "index_step (fst e) r = Some r" using w False by (simp add: index_step_def)
    ultimately show ?thesis
      using w False by (intro exI [of _ "tb_index_block r"] exI [of _ "tb_last_key r"]) simp
  qed
qed

lemma Add_before_flush:
  assumes "writing r bs cur" "[] \<notin> set bs" "table_entries opt valid (concat bs @ cur @ [e])"
    "length (data_part opt bs) < 2 ^ 32"
  shows "\<exists>r1. writing r1 bs (cur @ [e]) \<and> TableBuilder_Add append flush a (fst e) (snd e) r =
    (if CurrentSizeEstimate (tb_data_block r1) \<ge> opt_block_size opt then TableBuilder_Flush append flush a r1 else Some r1)"
proof -
  let ?cmp = "cmp_Compare (opt_comparator opt)"
  note w = assms(1) [unfolded writing_def]
  have order: "?cmp (fst e) (last_key (concat bs @ cur)) > 0" if "concat bs @ cur \<noteq> []"
    using new_key_order [OF _ that] assms(3) by simp
  have "cur = [] \<or> ?cmp (fst e) (fst (last cur)) > 0" using order by (cases "cur = []") auto
  from bb_built_Add [where es = cur and k = "fst e" and v = "snd e" and b = "tb_data_block r" and cmp = ?cmp, OF _ interval this] w
  obtain db where
    db: "BlockBuilder_Add ?cmp (opt_block_restart_interval opt) (fst e) (snd e) (tb_data_block r) = Some db"
    "bb_built (opt_block_restart_interval opt) (cur @ [e]) db" by auto
  from index_step_writing [OF assms] obtain index lk where
    index: "index_step (fst e) r = Some (r\<lparr>tb_last_key := lk, tb_index_block := index, tb_pending_index_entry := False\<rparr>)"
    "bb_built 1 (index_built bs (cur @ [e])) index" by blast
  let ?r = "r\<lparr>tb_index_block := index, tb_pending_index_entry := False, tb_filter_block := filter_state bs (cur @ [e]),
      tb_last_key := fst e, tb_num_entries := tb_num_entries r + 1, tb_data_block := db\<rparr>"
  have "writing ?r bs (cur @ [e])" using w db(2) index(2) by (simp add: writing_def)
  moreover have "TableBuilder_Add append flush a (fst e) (snd e) r =
    (if CurrentSizeEstimate (tb_data_block ?r) \<ge> opt_block_size opt then TableBuilder_Flush append flush a ?r else Some ?r)"
  proof -
    have wn: "tb_num_entries r > 0 \<longleftrightarrow> concat bs @ cur \<noteq> []" "tb_options r = opt"
      "concat bs @ cur \<noteq> [] \<longrightarrow> tb_last_key r = last_key (concat bs @ cur)" using w by blast+
    have c: "\<not> (tb_num_entries r > 0 \<and> \<not> cmp_Compare (opt_comparator (tb_options r)) (fst e) (tb_last_key r) > 0)"
      unfolding wn(1,2) using order wn(3) by metis
    have o: "\<not> tb_closed r" "\<not> \<not> ok (tb_status r)" "filter_state bs cur = tb_filter_block r" using w by (simp_all add: ok_def)
    show ?thesis
      unfolding TableBuilder_Add_def Let_def index_step_def [symmetric] if_not_P [OF o(1)] if_not_P [OF o(2)] if_not_P [OF c] index(1)
      using wn(2) db(1) filter_state_key [OF o(3), of e] by (simp add: block_Add_def)
  qed
  ultimately show ?thesis by blast
qed

lemma make_writing:
  assumes "healthy f" "contents f = []"
  shows "\<exists>r. make_TableBuilder opt f = Some r \<and> writing r [] []"
proof (cases "opt_filter_policy opt")
  case None
  with assms show ?thesis
    by (simp add: make_TableBuilder_def filter_start_def writing_def filter_state_def bb_built_empty data_part_def index_built_def)
next
  case (Some p)
  from filter_builds [OF Some, of "[]" "[]"] obtain fb where
    "StartBlock (fp_CreateFilter p) 0 make_FilterBlockBuilder = Some fb"
    by (auto simp: keys_at_def data_part_def split: Option.bind_splits)
  with assms Some show ?thesis
    by (simp add: make_TableBuilder_def filter_start_def writing_def filter_state_def bb_built_empty data_part_def index_built_def
        keys_at_def)
qed

lemma data_part_prefix: "length (data_part opt bs) \<le> length (data_part opt (bs @ cs))"
  by (simp add: data_part_append)

lemma adds_writing:
  assumes "writing r bs cur" "[] \<notin> set bs" "table_entries opt valid (concat bs @ cur @ es)"
    "length (data_part opt (bs @ cut_blocks opt cur es)) < 2 ^ 32"
  shows "\<exists>r' bs' cur'. add_table_entries append flush a es r = Some r' \<and> writing r' bs' cur' \<and> [] \<notin> set bs' \<and>
    bs' @ (if cur' = [] then [] else [cur']) = bs @ cut_blocks opt cur es"
  using assms
proof (induction es arbitrary: r bs cur)
  case (Cons e es)
  let ?size = "length (block_bytes (opt_block_restart_interval opt) (cur @ [e]))"
  have t: "table_entries opt valid (concat bs @ cur @ [e])"
    using Cons.prems(3) by (auto simp: table_entries_def sorted_wrt_append)
  from Add_before_flush [OF Cons.prems(1,2) t le_less_trans [OF data_part_prefix Cons.prems(4)]] obtain r1 where
    r1: "writing r1 bs (cur @ [e])" "TableBuilder_Add append flush a (fst e) (snd e) r =
      (if CurrentSizeEstimate (tb_data_block r1) \<ge> opt_block_size opt then TableBuilder_Flush append flush a r1 else Some r1)"
    by blast
  have size: "CurrentSizeEstimate (tb_data_block r1) = ?size"
    using r1(1) CurrentSizeEstimate_bb_built by (auto simp: writing_def)
  obtain k v where e: "e = (k, v)" by (cases e)
  show ?case
  proof (cases "?size \<ge> opt_block_size opt")
    case True
    have b: "length (data_part opt ((bs @ [cur @ [e]]) @ cut_blocks opt [] es)) < 2 ^ 32" using Cons.prems(4) True by simp
    from Flush_writing [OF r1(1) _ le_less_trans [OF data_part_prefix b]] obtain r2 where
      r2: "TableBuilder_Flush append flush a r1 = Some r2" "writing r2 (bs @ [cur @ [e]]) []" by blast
    from Cons.IH [OF r2(2) _ _ b] Cons.prems(2,3) r1(2) r2(1) size True e show ?thesis by simp
  next
    case False
    with Cons.IH [OF r1(1) Cons.prems(2)] Cons.prems(3,4) r1(2) size e show ?thesis by simp
  qed
qed auto

lemma Flush_last:
  assumes "writing r bs cur" "length (data_part opt (bs @ [cur])) < 2 ^ 32"
  shows "\<exists>r'. TableBuilder_Flush append flush a r = Some r' \<and> writing r' (bs @ (if cur = [] then [] else [cur])) []"
proof (cases "cur = []")
  case True
  then have "bb_buffer (tb_data_block r) = []" "\<not> tb_closed r" "tb_status r = OK"
    using assms(1) by (simp_all add: writing_def bb_built_def)
  with True assms(1) show ?thesis by (simp add: TableBuilder_Flush_def ok_def)
next
  case False
  with Flush_writing [OF assms(1) _ assms(2)] show ?thesis by simp
qed

text \<open>The parts of \<^verbatim>\<open>Finish\<close>; each leaves the file with the next part of the layout.\<close>

definition finishing :: "'f TableBuilder \<Rightarrow> (slice \<times> slice) list list \<Rightarrow> byte list \<Rightarrow> bool" where
  "finishing r bs written \<longleftrightarrow>
     tb_options r = opt \<and> tb_index_block_options r = opt\<lparr>opt_block_restart_interval := 1\<rparr> \<and>
     healthy (tb_file r) \<and> contents (tb_file r) = written \<and> tb_offset r = word_of_nat (length written) \<and> tb_status r = OK \<and>
     bb_built 1 (index_built bs []) (tb_index_block r) \<and> (bs \<noteq> [] \<longrightarrow> tb_last_key r = last_key (last bs)) \<and>
     tb_filter_block r = filter_state bs [] \<and> (tb_pending_index_entry r \<longleftrightarrow> bs \<noteq> []) \<and>
     (bs \<noteq> [] \<longrightarrow> tb_pending_handle r = data_handle opt bs (length bs - 1))"

lemma finishing_start:
  assumes "writing r bs []" "[] \<notin> set bs"
  shows "finishing (r\<lparr>tb_closed := True\<rparr>) bs (data_part opt bs)"
proof -
  have "last (concat bs) = last (last bs)" "concat bs \<noteq> []" if "bs \<noteq> []"
    using that assms(2) by (induction bs rule: rev_induct) auto
  with assms(1) show ?thesis by (auto simp: writing_def finishing_def)
qed

lemma finish_filter_writes:
  assumes "finishing r bs (data_part opt bs)"
  shows "\<exists>h r'. finish_filter append a r = (h, r') \<and> finishing r' bs (data_part opt bs @ filter_part opt bs) \<and>
    (\<forall>p. opt_filter_policy opt = Some p \<longrightarrow> h = handle_at (length (data_part opt bs)) (filter_bytes opt p bs))"
proof (cases "opt_filter_policy opt")
  case None
  then show ?thesis using assms by (simp add: finish_filter_def finishing_def filter_state_def filter_part_def)
next
  case (Some p)
  note w = assms [unfolded finishing_def]
  from filter_builds [OF Some, of bs "[]"] obtain fb where
    "add_blocks (fp_CreateFilter p) (keys_at opt bs []) make_FilterBlockBuilder = Some fb" by blast
  then have fb: "filter_state bs [] = Some (p, fb)" "filter_bytes opt p bs = FilterBlock_Finish (fp_CreateFilter p) fb"
    using w Some by (simp_all add: filter_state_def filter_bytes_def)
  from WriteRawBlock_healthy [of r a "filter_bytes opt p bs"] w obtain f where
    "WriteRawBlock append a (filter_bytes opt p bs) kNoCompression r =
      (\<lparr>bh_offset = tb_offset r, bh_size = word_of_nat (length (filter_bytes opt p bs))\<rparr>,
       r\<lparr>tb_status := OK, tb_file := f, tb_offset := tb_offset r + word_of_nat (length (framed (filter_bytes opt p bs)))\<rparr>)"
    "healthy f" "contents f = contents (tb_file r) @ framed (filter_bytes opt p bs)" by blast
  with w fb Some show ?thesis
    by (simp add: finish_filter_def ok_def finishing_def filter_part_def handle_at_def)
qed

lemma WriteBlock_finishing:
  assumes "finishing r bs written" "bb_built R es b"
  shows "\<exists>r'. WriteBlock append a b r = Some (handle_at (length written) (block_bytes R es), make_BlockBuilder, r') \<and>
    finishing r' bs (written @ framed (block_bytes R es))"
  using WriteBlock_healthy [of r R es b a] assms by (auto simp: finishing_def handle_at_def)

lemma finish_metaindex_writes:
  assumes "finishing r bs (data_part opt bs @ filter_part opt bs)"
    "\<forall>p. opt_filter_policy opt = Some p \<longrightarrow> h = handle_at (length (data_part opt bs)) (filter_bytes opt p bs)"
    "length (data_part opt bs @ filter_part opt bs) < 2 ^ 32"
  shows "\<exists>r'. finish_metaindex append a h r = Some (meta_handle opt bs, r') \<and>
    finishing r' bs (data_part opt bs @ filter_part opt bs @ framed (meta_block opt bs))"
proof -
  let ?R = "opt_block_restart_interval opt"
  note w = assms(1) [unfolded finishing_def]
  define meta where "meta = (case tb_filter_block r of None \<Rightarrow> Some make_BlockBuilder
      | Some _ \<Rightarrow> Option.bind (opt_filter_policy (tb_options r)) (\<lambda>p. Option.bind (BlockHandle_EncodeTo h [])
          (\<lambda>enc. block_Add (tb_options r) (filter_key p) enc make_BlockBuilder)))"
  have "\<exists>b. meta = Some b \<and> bb_built ?R (meta_entries opt bs) b"
  proof (cases "opt_filter_policy opt")
    case None
    with w show ?thesis by (simp add: meta_def filter_state_def meta_entries_def bb_built_empty)
  next
    case (Some p)
    have "length (filter_bytes opt p bs) < 2 ^ 32" "length (data_part opt bs) < 2 ^ 32"
      using assms(3) Some by (simp_all add: filter_part_def)
    then have "BlockHandle_EncodeTo h [] = Some (stored_handle h)"
      using assms(2) Some by (simp add: BlockHandle_EncodeTo_eq set_handle_at)
    moreover obtain b where "BlockBuilder_Add (cmp_Compare (opt_comparator opt)) ?R (filter_key p) (stored_handle h) make_BlockBuilder = Some b"
      "bb_built ?R [(filter_key p, stored_handle h)] b"
      using bb_built_Add [OF bb_built_empty(1) interval, where cmp = "cmp_Compare (opt_comparator opt)" and k = "filter_key p" and v = "stored_handle h"] by auto
    ultimately show ?thesis
      using w Some assms(2) by (simp add: meta_def filter_state_def meta_entries_def block_Add_def)
  qed
  then obtain b where b: "meta = Some b" "bb_built ?R (meta_entries opt bs) b" by blast
  from WriteBlock_finishing [OF assms(1) b(2), of a] obtain r' where
    "WriteBlock append a b r = Some (meta_handle opt bs, make_BlockBuilder, r')"
    "finishing r' bs (data_part opt bs @ filter_part opt bs @ framed (meta_block opt bs))"
    by (auto simp: meta_handle_def meta_block_def)
  with b(1) w show ?thesis unfolding finish_metaindex_def meta_def [symmetric] by (simp add: ok_def)
qed

lemma index_entries_built:
  assumes "bs \<noteq> []"
  shows "index_entries opt bs = index_built bs [] @
    [(cmp_FindShortSuccessor (opt_comparator opt) (last_key (last bs)), stored_handle (data_handle opt bs (length bs - 1)))]"
proof -
  obtain n where n: "length bs = Suc n" using assms by (cases bs) auto
  have "bs ! n = last bs" using last_conv_nth [OF assms] n by simp
  moreover have "map (\<lambda>j. (index_key opt bs j, stored_handle (data_handle opt bs j))) [0..<n] = index_built bs []"
    by (auto simp: index_built_def index_key_def separator_key_def n nth_append)
  ultimately show ?thesis by (simp add: index_entries_def n index_key_def)
qed

lemma finish_index_writes:
  assumes "finishing r bs written" "[] \<notin> set bs" "table_entries opt valid (concat bs)"
    "length (data_part opt bs) < 2 ^ 32"
  shows "\<exists>r'. finish_index append a r = Some (handle_at (length written) (index_block opt bs), r') \<and>
    healthy (tb_file r') \<and> contents (tb_file r') = written @ framed (index_block opt bs) \<and> tb_status r' = OK"
proof -
  note w = assms(1) [unfolded finishing_def]
  define step where "step = (if tb_pending_index_entry r
      then add_index_entry (cmp_FindShortSuccessor (opt_comparator (tb_options r)) (tb_last_key r)) r else Some r)"
  have "\<exists>r1. step = Some r1 \<and> bb_built 1 (index_entries opt bs) (tb_index_block r1) \<and>
      tb_status r1 = OK \<and> healthy (tb_file r1) \<and> contents (tb_file r1) = written \<and> tb_offset r1 = word_of_nat (length written)"
  proof (cases "bs = []")
    case True
    with w show ?thesis by (simp add: step_def index_built_def index_entries_def)
  next
    case False
    let ?k = "cmp_FindShortSuccessor (opt_comparator opt) (last_key (last bs))"
    obtain n where n: "length bs = Suc n" using False by (cases bs) auto
    have l: "last bs = bs ! n" using last_conv_nth [OF False] n by simp
    have nn: "n < length bs" using n by simp
    note v = valid_block_keys [OF assms(3,2) nn]
    have k: "valid ?k" "\<not> cmp_Compare (opt_comparator opt) ?k (last_key (bs ! n)) < 0"
      using successor [OF v(2)] by (simp_all add: l)
    have kf: "\<not> cmp_Compare (opt_comparator opt) ?k (first_key (bs ! n)) < 0"
      using compare_less_trans_le [of ?k "first_key (bs ! n)" "last_key (bs ! n)"] v k by blast
    have ord: "index_built bs [] = [] \<or> cmp_Compare (opt_comparator opt) ?k (fst (last (index_built bs []))) > 0"
    proof (cases n)
      case (Suc m)
      have "fst (last (index_built bs [])) = separator_key opt bs m"
        using n Suc by (simp add: index_built_def separator_key_def nth_append)
      moreover have "valid (separator_key opt bs m)" using separator_between [OF assms(3,2), of m] n Suc by simp
      ultimately show ?thesis
        using separator_below_block [OF assms(3,2) _ nn k(1) kf, of m] cmp_flip [OF _ k(1)] Suc by simp
    qed (simp add: index_built_def n)
    have b: "bs = take n bs @ [bs ! n]" using take_Suc_conv_app_nth [OF nn] n by simp
    have "length (data_part opt (take n bs)) < 2 ^ 32" "length (data_block opt (bs ! n)) < 2 ^ 32"
      using assms(4) arg_cong [OF b, of "\<lambda>x. length (data_part opt x)"] by (simp_all add: data_part_snoc)
    then have enc: "BlockHandle_EncodeTo (tb_pending_handle r) [] = Some (stored_handle (data_handle opt bs (length bs - 1)))"
      using w False n by (simp add: BlockHandle_EncodeTo_eq data_handle_def set_handle_at)
    from bb_built_Add [where R = 1 and es = "index_built bs []" and b = "tb_index_block r" and k = ?k
        and v = "stored_handle (data_handle opt bs (length bs - 1))" and cmp = "cmp_Compare (opt_comparator opt)", OF _ _ ord] w
    obtain index where "BlockBuilder_Add (cmp_Compare (opt_comparator opt)) 1 ?k (stored_handle (data_handle opt bs (length bs - 1)))
        (tb_index_block r) = Some index" "bb_built 1 (index_entries opt bs) index"
      using index_entries_built [OF False] by auto
    with enc w False show ?thesis by (simp add: step_def add_index_entry_def block_Add_def)
  qed
  then obtain r1 where r1: "step = Some r1" "bb_built 1 (index_entries opt bs) (tb_index_block r1)" "tb_status r1 = OK"
    "healthy (tb_file r1)" "contents (tb_file r1) = written" "tb_offset r1 = word_of_nat (length written)" by blast
  from WriteBlock_healthy [OF r1(4,3,2), of a] r1 w show ?thesis
    unfolding finish_index_def step_def [symmetric] by (auto simp: ok_def handle_at_def index_block_def)
qed

lemma Finish_table:
  assumes "writing r bs cur" "cs = bs @ (if cur = [] then [] else [cur])" "[] \<notin> set cs" "table_entries opt valid (concat cs)"
    "length (blocks_file opt cs) < 2 ^ 32"
  shows "\<exists>r'. TableBuilder_Finish append flush a r = Some (OK, r') \<and> healthy (tb_file r') \<and>
    contents (tb_file r') = blocks_file opt cs"
proof -
  have D: "length (data_part opt cs) < 2 ^ 32" "length (data_part opt cs @ filter_part opt cs) < 2 ^ 32"
    "length (data_part opt cs @ filter_part opt cs @ framed (meta_block opt cs)) < 2 ^ 32"
    "length (meta_block opt cs) < 2 ^ 32" "length (index_block opt cs) < 2 ^ 32"
    using assms(5) by (auto simp: blocks_file_def)
  have "writing r bs cur \<Longrightarrow> \<exists>r1. TableBuilder_Flush append flush a r = Some r1 \<and> writing r1 cs []"
    using Flush_last [of r bs cur a] D(1) assms(2) Flush_writing [of r bs cur a]
    by (cases "cur = []") (auto simp: TableBuilder_Flush_def writing_def bb_built_def ok_def)
  with assms(1) obtain r1 where r1: "TableBuilder_Flush append flush a r = Some r1" "writing r1 cs []" by blast
  from finish_filter_writes [OF finishing_start [OF r1(2) assms(3)], of a] obtain h r2 where
    r2: "finish_filter append a (r1\<lparr>tb_closed := True\<rparr>) = (h, r2)" "finishing r2 cs (data_part opt cs @ filter_part opt cs)"
    "\<forall>p. opt_filter_policy opt = Some p \<longrightarrow> h = handle_at (length (data_part opt cs)) (filter_bytes opt p cs)" by blast
  from finish_metaindex_writes [OF r2(2,3) D(2), of a] obtain r3 where
    r3: "finish_metaindex append a h r2 = Some (meta_handle opt cs, r3)"
    "finishing r3 cs (data_part opt cs @ filter_part opt cs @ framed (meta_block opt cs))" by blast
  from finish_index_writes [OF r3(2) assms(3,4) D(1), of a] obtain r4 where
    r4: "finish_index append a r3 = Some (index_handle_of opt cs, r4)" "healthy (tb_file r4)" "tb_status r4 = OK"
    "contents (tb_file r4) = data_part opt cs @ filter_part opt cs @ framed (meta_block opt cs) @ framed (index_block opt cs)"
    by (auto simp: index_handle_of_def)
  let ?F = "stored_footer \<lparr>metaindex_handle = meta_handle opt cs, index_handle = index_handle_of opt cs\<rparr>"
  have "set_handle (meta_handle opt cs)" "set_handle (index_handle_of opt cs)"
    unfolding meta_handle_def index_handle_of_def using D by (simp_all add: set_handle_at)
  then have enc: "Footer_EncodeTo \<lparr>metaindex_handle = meta_handle opt cs, index_handle = index_handle_of opt cs\<rparr> [] = Some ?F"
    by (simp add: Footer_EncodeTo_eq)
  from append_healthy [OF r4(2), of ?F] obtain f where
    f: "append (tb_file r4) ?F = (OK, f)" "healthy f" "contents f = contents (tb_file r4) @ ?F" by blast
  then show ?thesis
    using r1(1) r2(1) r3(1) r4 enc by (simp add: TableBuilder_Finish_def finish_footer_def ok_def blocks_file_def)
qed

end

definition build_table ::
  "('f \<Rightarrow> byte list \<Rightarrow> Status \<times> 'f) \<Rightarrow> ('f \<Rightarrow> Status \<times> 'f) \<Rightarrow> addr \<Rightarrow> Options \<Rightarrow> (slice \<times> slice) list \<Rightarrow> 'f \<Rightarrow>
   (Status \<times> 'f TableBuilder) option" where
  "build_table app fl a opt es f = do {
     r \<leftarrow> make_TableBuilder opt f;
     r \<leftarrow> add_table_entries app fl a es r;
     TableBuilder_Finish app fl a r
   }"

context table_writer
begin

lemma build_table_writes:
  assumes "healthy f" "contents f = []" "table_entries opt valid es" "length (table_file opt es) < 2 ^ 32"
  shows "\<exists>r. build_table append flush a opt es f = Some (OK, r) \<and> healthy (tb_file r) \<and> contents (tb_file r) = table_file opt es"
proof -
  let ?cs = "cut_blocks opt [] es"
  have D: "length (data_part opt ([] @ ?cs)) < 2 ^ 32" using assms(4) by (simp add: table_file_def blocks_file_def)
  from make_writing [OF assms(1,2)] obtain r0 where r0: "make_TableBuilder opt f = Some r0" "writing r0 [] []" by blast
  from adds_writing [OF r0(2) _ _ D, of a] assms(3) obtain r1 bs cur where
    r1: "add_table_entries append flush a es r0 = Some r1" "writing r1 bs cur" "?cs = bs @ (if cur = [] then [] else [cur])"
    by auto
  from Finish_table [OF r1(2,3) cut_blocks_not_Nil, of a] assms(3,4) r0(1) r1(1)
  show ?thesis by (auto simp: build_table_def table_file_def concat_cut_blocks)
qed

end

subsection \<open>The reader answers from it\<close>

definition reads_file :: "random_read \<Rightarrow> byte list \<Rightarrow> bool" where
  "reads_file read F \<longleftrightarrow>
     (\<forall>off n. off + n \<le> length F \<longrightarrow> (\<exists>scratch. read off n = Some (OK, take n (drop off F), scratch)))"

lemma ReadBlock_file:
  assumes "reads_file read F" "F = pre @ framed data @ post" "length F < 2 ^ 32" "off = length pre"
  shows "\<exists>c. ReadBlock read a verify (handle_at off data) = Some (Inr c) \<and> bc_data c = data"
proof -
  have l: "off < 2 ^ 32" "length data < 2 ^ 32" using assms(2-4) by simp_all
  have "off + (length data + 5) \<le> length F" using assms(2,4) by simp
  with assms(1) obtain scratch where "read off (length data + 5) = Some (OK, take (length data + 5) (drop off F), scratch)"
    unfolding reads_file_def by blast
  moreover have "take (length data + 5) (drop off F) = framed data" using assms(2,4) by simp
  ultimately have "ReadBlock read a verify (handle_at off data) =
      Some (Inr \<lparr>bc_data = data, bc_cachable = scratch, bc_heap_allocated = scratch\<rparr>)"
    using unat_handle_at [OF l] l by (intro ReadBlock_framed) auto
  then show ?thesis by simp
qed

definition opened :: "Options \<Rightarrow> (slice \<times> slice) list list \<Rightarrow> Table" where
  "opened opt bs = \<lparr>t_options = opt,
     t_filter = map_option (\<lambda>p. (p, make_FilterBlockReader (filter_bytes opt p bs))) (opt_filter_policy opt),
     t_metaindex_handle = meta_handle opt bs, t_index_block = index_block opt bs\<rparr>"

lemma ReadMeta_file:
  assumes "reads_file read (blocks_file opt bs)" "length (blocks_file opt bs) < 2 ^ 32" "metaindex_handle ft = meta_handle opt bs"
    "t_options t = opt" "t_filter t = None"
  shows "ReadMeta read a ft t =
    Some (t\<lparr>t_filter := map_option (\<lambda>p. (p, make_FilterBlockReader (filter_bytes opt p bs))) (opt_filter_policy opt)\<rparr>)"
proof (cases "opt_filter_policy opt")
  case None
  with assms(4,5) show ?thesis by (simp add: ReadMeta_def)
next
  case (Some p)
  let ?F = "blocks_file opt bs" and ?R = "opt_block_restart_interval opt"
  let ?h = "handle_at (length (data_part opt bs)) (filter_bytes opt p bs)"
  have me: "meta_entries opt bs = [(filter_key p, stored_handle ?h)]" using Some by (simp add: meta_entries_def)
  have len: "length (block_bytes ?R (meta_entries opt bs)) < 2 ^ 32" using assms(2) by (simp add: blocks_file_def meta_block_def)
  have "?F = (data_part opt bs @ filter_part opt bs) @ framed (meta_block opt bs) @ framed (index_block opt bs)
     @ stored_footer \<lparr>metaindex_handle = meta_handle opt bs, index_handle = index_handle_of opt bs\<rparr>" by (simp add: blocks_file_def)
  from ReadBlock_file [OF assms(1) this assms(2) refl, of a "opt_paranoid_checks opt"] obtain c where
    c: "ReadBlock read a (opt_paranoid_checks opt) (metaindex_handle ft) = Some (Inr c)" "bc_data c = meta_block opt bs"
    unfolding assms(3) meta_handle_def by blast
  have "?F = data_part opt bs @ framed (filter_bytes opt p bs) @ framed (meta_block opt bs) @ framed (index_block opt bs)
     @ stored_footer \<lparr>metaindex_handle = meta_handle opt bs, index_handle = index_handle_of opt bs\<rparr>"
    using Some by (simp add: blocks_file_def filter_part_def)
  from ReadBlock_file [OF assms(1) this assms(2) refl, of a "opt_paranoid_checks opt"] obtain d where
    d: "ReadBlock read a (opt_paranoid_checks opt) ?h = Some (Inr d)" "bc_data d = filter_bytes opt p bs" by blast
  from NewIterator_block [OF len] obtain it where
    it: "NewIterator (meta_block opt bs) = Block_iterator it" "on_block ?R (meta_entries opt bs) it"
    by (auto simp: meta_block_def at_position_def)
  have "lower_bound slice_compare (filter_key p) (meta_entries opt bs) = 0"
    using bytewise.compare_irrefl by (simp add: lower_bound_def me)
  with Block_Seek_block [OF bytewise.key_order_axioms, where es = "meta_entries opt bs" and target = "filter_key p" and R = ?R and it = it] it(2) len me
  obtain it' where it': "Block_Seek slice_compare (filter_key p) it = Some it'" "at_position ?R (meta_entries opt bs) 0 it'" by auto
  then have "Block_Valid it'" "bi_key it' = filter_key p" "bi_value it' = stored_handle ?h"
    using at_position_Valid [OF it'(2)] me by (auto simp: at_position_def)
  with c d it(1) it'(1) Some assms(4) BlockHandle_DecodeFrom_stored [of ?h "[]"] show ?thesis
    by (simp add: ReadMeta_def ReadFilter_def slice_eq_iff)
qed

lemma Table_Open_file:
  assumes "reads_file read (blocks_file opt bs)" "length (blocks_file opt bs) < 2 ^ 32"
  shows "Table_Open read a opt (length (blocks_file opt bs)) = Some (Inr (opened opt bs))"
proof -
  let ?F = "blocks_file opt bs" and ?f = "\<lparr>metaindex_handle = meta_handle opt bs, index_handle = index_handle_of opt bs\<rparr>"
  have l: "length ?F \<ge> 48" "drop (length ?F - 48) ?F = stored_footer ?f" by (simp_all add: blocks_file_def)
  then have "length ?F - 48 + 48 \<le> length ?F" by simp
  with assms(1) obtain sc where "read (length ?F - 48) 48 = Some (OK, take 48 (drop (length ?F - 48) ?F), sc)"
    unfolding reads_file_def by blast
  then have rd: "read (length ?F - 48) 48 = Some (OK, stored_footer ?f, sc)" unfolding l(2) by simp
  have "?F = (data_part opt bs @ filter_part opt bs @ framed (meta_block opt bs)) @ framed (index_block opt bs) @ stored_footer ?f"
    by (simp add: blocks_file_def)
  from ReadBlock_file [OF assms(1) this assms(2) refl, of a "opt_paranoid_checks opt"] obtain c where
    c: "ReadBlock read a (opt_paranoid_checks opt) (index_handle_of opt bs) = Some (Inr c)" "bc_data c = index_block opt bs"
    unfolding index_handle_of_def by blast
  note m = ReadMeta_file [OF assms, of ?f "\<lparr>t_options = opt, t_filter = None, t_metaindex_handle = meta_handle opt bs, t_index_block = index_block opt bs\<rparr>" a]
  show ?thesis
    using l(1) rd c m Footer_DecodeFrom_stored [of ?f "[]"]
    by (simp add: Table_Open_def Footer_kEncodedLength_def BlockHandle_kMaxEncodedLength_def ok_def opened_def)
qed

lemma KeyMayMatch_total:
  "FilterBlock_KeyMayMatch m r off e = Some x \<Longrightarrow> \<exists>y. FilterBlock_KeyMayMatch m r off k = Some y"
  by (auto simp: FilterBlock_KeyMayMatch_def Let_def split: if_splits Option.bind_splits)

lemma KeyMayMatch_cong:
  assumes "m e = m k"
  shows "FilterBlock_KeyMayMatch m r off e = FilterBlock_KeyMayMatch m r off k"
  unfolding FilterBlock_KeyMayMatch_def assms ..

lemma lower_bound_less: "lower_bound cmp k es < length es \<Longrightarrow> \<not> cmp (fst (es ! lower_bound cmp k es)) k < 0"
  unfolding lower_bound_def using nth_length_takeWhile [of "\<lambda>e. cmp (fst e) k < 0" es] by blast

lemma lower_bound_before: "j < lower_bound cmp k es \<Longrightarrow> cmp (fst (es ! j)) k < 0"
  unfolding lower_bound_def by (metis (mono_tags, lifting) nth_mem set_takeWhileD takeWhile_nth)

lemma lower_bound_le: "lower_bound cmp k es \<le> length es"
  by (simp add: lower_bound_def length_takeWhile_le)

lemma lower_bound_append:
  "\<forall>e \<in> set xs. cmp (fst e) k < 0 \<Longrightarrow> lower_bound cmp k (xs @ ys) = length xs + lower_bound cmp k ys"
  by (simp add: lower_bound_def)

context table_options
begin

abbreviation cmp :: "slice \<Rightarrow> slice \<Rightarrow> int" where
  "cmp \<equiv> cmp_Compare (opt_comparator opt)"

lemma index_key_bounds:
  assumes "table_entries opt valid (concat bs)" "[] \<notin> set bs" "j < length bs"
  shows "valid (index_key opt bs j)" "\<not> cmp (index_key opt bs j) (last_key (bs ! j)) < 0"
    "\<not> cmp (index_key opt bs j) (first_key (bs ! j)) < 0"
proof -
  note v = valid_block_keys [OF assms]
  show i: "valid (index_key opt bs j)" "\<not> cmp (index_key opt bs j) (last_key (bs ! j)) < 0"
    using separator_between [OF assms(1,2), of j] successor [OF v(2)] by (auto simp: index_key_def)
  show "\<not> cmp (index_key opt bs j) (first_key (bs ! j)) < 0"
    using compare_less_trans_le [OF i(1) v(1,2)] i(2) v(3) by blast
qed

lemma index_sorted:
  assumes "table_entries opt valid (concat bs)" "[] \<notin> set bs"
  shows "sorted_wrt (\<lambda>a b. cmp (fst a) (fst b) < 0) (index_entries opt bs)" "\<forall>e \<in> set (index_entries opt bs). valid (fst e)"
proof -
  have "cmp (index_key opt bs i) (index_key opt bs j) < 0" if "i < j" "j < length bs" for i j
    using separator_below_block [OF assms that index_key_bounds(1,3) [OF assms that(2)]] that by (simp add: index_key_def)
  then show "sorted_wrt (\<lambda>a b. cmp (fst a) (fst b) < 0) (index_entries opt bs)"
    by (auto simp: index_entries_def sorted_wrt_iff_nth_less)
  show "\<forall>e \<in> set (index_entries opt bs). valid (fst e)" using index_key_bounds(1) [OF assms] by (auto simp: index_entries_def)
qed

lemma block_sorted:
  assumes "table_entries opt valid (concat bs)" "j < length bs"
  shows "table_entries opt valid (bs ! j)"
proof -
  have "bs = take j bs @ bs ! j # drop (Suc j) bs" using assms(2) by (rule id_take_nth_drop)
  then have "concat bs = concat (take j bs) @ bs ! j @ concat (drop (Suc j) bs)" by (metis concat.simps(2) concat_append)
  then show ?thesis using assms(1) by (auto simp: table_entries_def sorted_wrt_append)
qed

text \<open>All entries of the blocks whose index keys are smaller than \<open>k\<close> are.\<close>

lemma entry_le_last:
  assumes "table_entries opt valid b" "e \<in> set b"
  shows "\<not> cmp (last_key b) (fst e) < 0"
proof -
  obtain xs y where b: "b = xs @ [y]" using assms(2) by (cases b rule: rev_cases) auto
  have v: "valid (fst e)" "valid (fst y)" using assms b by (auto simp: table_entries_def)
  have "e = y \<or> cmp (fst e) (fst y) < 0" using assms b by (auto simp: table_entries_def sorted_wrt_append)
  then show ?thesis using b compare_not_less [OF v(2,1)] by auto
qed

lemma blocks_below:
  assumes "table_entries opt valid (concat bs)" "[] \<notin> set bs" "valid k" "i \<le> length bs"
    "\<forall>j < i. cmp (index_key opt bs j) k < 0" "e \<in> set (concat (take i bs))"
  shows "cmp (fst e) k < 0"
proof -
  obtain b where "b \<in> set (take i bs)" "e \<in> set b" using assms(6) by auto
  then obtain j where j: "j < i" "e \<in> set (bs ! j)" by (auto simp: in_set_conv_nth [of b])
  then have jl: "j < length bs" using assms(4) by simp
  note v = valid_block_keys [OF assms(1,2) jl] and b = block_sorted [OF assms(1) jl]
  note ik = index_key_bounds [OF assms(1,2) jl]
  have e: "valid (fst e)" using b j(2) by (auto simp: table_entries_def)
  have "cmp (last_key (bs ! j)) k < 0"
    using compare_not_less [OF ik(1) v(2)] compare_trans [OF v(2) ik(1) assms(3)] ik(2) assms(5) j(1) by metis
  then show ?thesis
    using compare_not_less [OF v(2) e] compare_trans [OF e v(2) assms(3)] entry_le_last [OF b j(2)] by metis
qed

text \<open>The filter does not rule out a key that is \<open>same\<close> as one of the block, and it always has an answer.\<close>

lemma filter_answers:
  assumes "opt_filter_policy opt = Some p" "j < length bs" "[] \<notin> set bs" "length (filter_bytes opt p bs) < 2 ^ 32"
  shows "\<exists>x. FilterBlock_KeyMayMatch (fp_KeyMayMatch p) (make_FilterBlockReader (filter_bytes opt p bs))
      (length (data_part opt (take j bs))) k = Some x \<and> (\<forall>e \<in> set (bs ! j). same (fst e) k \<longrightarrow> x)"
proof -
  let ?m = "FilterBlock_KeyMayMatch (fp_KeyMayMatch p) (make_FilterBlockReader (filter_bytes opt p bs)) (length (data_part opt (take j bs)))"
  from filter_builds [OF assms(1), of bs "[]"] obtain fb where
    fb: "add_blocks (fp_CreateFilter p) (keys_at opt bs []) make_FilterBlockBuilder = Some fb" by blast
  have fin: "filter_bytes opt p bs = FilterBlock_Finish (fp_CreateFilter p) fb" by (simp add: filter_bytes_def fb)
  have at: "(length (data_part opt (take j bs)), map fst (bs ! j)) \<in> set (keys_at opt bs [])"
    using assms(2) by (auto simp: keys_at_def)
  have match: "?m (fst e) = Some True" if "e \<in> set (bs ! j)" for e
    using filter_policy.add_blocks_match [OF policy [OF assms(1)] sorted_keys_at fb at, of "fst e"] that assms(4)
    by (simp add: fin)
  obtain e0 where "e0 \<in> set (bs ! j)" using assms(2,3) by (metis list.set_intros(1) neq_Nil_conv nth_mem)
  from KeyMayMatch_total [OF match [OF this], of k] obtain x where x: "?m k = Some x" by blast
  have "x" if "e \<in> set (bs ! j)" "same (fst e) k" for e
    using match [OF that(1)] x KeyMayMatch_cong [of "fp_KeyMayMatch p" "fst e" k] policy_same [OF assms(1) that(2)] by simp
  with x show ?thesis by blast
qed

text \<open>Seeking in the index and in a data block of an opened table.\<close>

lemma seek_block:
  assumes "table_entries opt valid es" "valid k" "length (block_bytes R es) < 2 ^ 32"
  shows "\<exists>it. iterator_Seek cmp k (NewIterator (block_bytes R es)) = Some (Block_iterator it) \<and>
    at_position R es (lower_bound cmp k es) it"
proof -
  from NewIterator_block [OF assms(3)] obtain it where
    it: "NewIterator (block_bytes R es) = Block_iterator it" "on_block R es it" by (auto simp: at_position_def)
  from Block_Seek_block [OF key_order_axioms _ _ assms(2) it(2) assms(3)] assms(1) it(1) show ?thesis
    by (auto simp: table_entries_def)
qed

lemma at_position_shows:
  assumes "at_position R es i it"
  shows "iterator_Valid (Block_iterator it) \<longleftrightarrow> i < length es" "iterator_status (Block_iterator it) = OK"
    "i < length es \<Longrightarrow> iterator_key (Block_iterator it) = Some (fst (es ! i)) \<and> iterator_value (Block_iterator it) = Some (snd (es ! i))"
  using at_position_Valid [OF assms] assms by (auto simp: at_position_def on_block_def dest: sym)

definition found_in :: "(slice \<times> slice) list \<Rightarrow> slice \<Rightarrow> (slice \<times> slice) option" where
  "found_in es k = (if lower_bound cmp k es < length es then Some (es ! lower_bound cmp k es) else None)"

lemma data_block_in_file:
  assumes "i < length bs" "length (blocks_file opt bs) < 2 ^ 32"
  obtains post where "blocks_file opt bs = data_part opt (take i bs) @ framed (data_block opt (bs ! i)) @ post"
    "length (data_part opt (take i bs)) < 2 ^ 32" "length (data_block opt (bs ! i)) < 2 ^ 32"
proof -
  have "bs = take i bs @ bs ! i # drop (Suc i) bs" using assms(1) by (rule id_take_nth_drop)
  then have "data_part opt bs = data_part opt (take i bs) @ framed (data_block opt (bs ! i)) @ data_part opt (drop (Suc i) bs)"
    by (metis append_Cons append_Nil data_part_append data_part_snoc append_assoc)
  then have F: "blocks_file opt bs = data_part opt (take i bs) @ framed (data_block opt (bs ! i)) @ data_part opt (drop (Suc i) bs)
      @ drop (length (data_part opt bs)) (blocks_file opt bs)"
    by (simp add: blocks_file_def)
  moreover from arg_cong [OF F, of length] assms(2) have
    "length (data_part opt (take i bs)) < 2 ^ 32" "length (data_block opt (bs ! i)) < 2 ^ 32" by simp_all
  ultimately show ?thesis by (rule that)
qed

lemma ruled_out_opened:
  assumes "length (blocks_file opt bs) < 2 ^ 32" "[] \<notin> set bs" "i < length bs"
  shows "\<exists>out. ruled_out (opened opt bs) (stored_handle (data_handle opt bs i)) k = Some out \<and>
    (out \<longrightarrow> (\<forall>e \<in> set (bs ! i). \<not> same (fst e) k))"
proof (cases "opt_filter_policy opt")
  case None
  then show ?thesis by (intro exI [of _ False]) (simp add: ruled_out_def opened_def)
next
  case (Some p)
  have "length (data_part opt (take i bs)) < 2 ^ 32" "length (data_block opt (bs ! i)) < 2 ^ 32"
    using data_block_in_file [OF assms(3,1)] by blast+
  from unat_handle_at [OF this] have off: "unat (bh_offset (data_handle opt bs i)) = length (data_part opt (take i bs))"
    by (simp add: data_handle_def)
  have "length (filter_bytes opt p bs) < 2 ^ 32" using assms(1) Some by (simp add: blocks_file_def filter_part_def)
  from filter_answers [OF Some assms(3,2) this, of k] obtain x where
    "FilterBlock_KeyMayMatch (fp_KeyMayMatch p) (make_FilterBlockReader (filter_bytes opt p bs))
      (length (data_part opt (take i bs))) k = Some x" "\<forall>e \<in> set (bs ! i). same (fst e) k \<longrightarrow> x" by blast
  with Some off BlockHandle_DecodeFrom_stored [of "data_handle opt bs i" "[]"] show ?thesis
    by (auto simp: ruled_out_def opened_def)
qed

lemma InternalGet_blocks:
  assumes "reads_file read (blocks_file opt bs)" "length (blocks_file opt bs) < 2 ^ 32" "table_entries opt valid (concat bs)"
    "[] \<notin> set bs" "valid k"
  defines "i \<equiv> lower_bound cmp k (index_entries opt bs)"
  shows "\<exists>x. InternalGet read a verify k (opened opt bs) = Some (OK, x) \<and>
    (i = length bs \<longrightarrow> x = None) \<and>
    (i < length bs \<longrightarrow> (x = None \<and> (\<forall>e \<in> set (bs ! i). \<not> same (fst e) k)) \<or> x = found_in (bs ! i) k)"
proof -
  let ?R = "opt_block_restart_interval opt"
  have len: "length (block_bytes 1 (index_entries opt bs)) < 2 ^ 32" using assms(2) by (simp add: blocks_file_def index_block_def)
  have "table_entries opt valid (index_entries opt bs)" using index_sorted [OF assms(3,4)] by (simp add: table_entries_def)
  from seek_block [OF this assms(5) len] obtain it where
    it: "iterator_Seek cmp k (NewIterator (index_block opt bs)) = Some (Block_iterator it)"
    "at_position 1 (index_entries opt bs) i it" by (auto simp: index_block_def i_def)
  note iv = at_position_shows [OF it(2)]
  have n: "length (index_entries opt bs) = length bs" by (simp add: index_entries_def)
  show ?thesis
  proof (cases "i < length bs")
    case False
    with iv n it(1) show ?thesis by (simp add: InternalGet_def opened_def ok_def Let_def)
  next
    case True
    let ?h = "data_handle opt bs i"
    have val: "iterator_value (Block_iterator it) = Some (stored_handle ?h)" using iv(3) True n by (simp add: index_entries_def)
    from data_block_in_file [OF True assms(2)] obtain post where
      F: "blocks_file opt bs = data_part opt (take i bs) @ framed (data_block opt (bs ! i)) @ post"
      "length (data_block opt (bs ! i)) < 2 ^ 32" .
    from ReadBlock_file [OF assms(1) F(1) assms(2) refl, of a verify] BlockHandle_DecodeFrom_stored [of ?h "[]"]
    have br: "BlockReader read a verify (stored_handle ?h) = Some (NewIterator (data_block opt (bs ! i)))"
      by (auto simp: BlockReader_def data_handle_def)
    from seek_block [OF block_sorted [OF assms(3) True] assms(5) F(2) [unfolded data_block_def]] obtain db where
      db: "iterator_Seek cmp k (NewIterator (data_block opt (bs ! i))) = Some (Block_iterator db)"
      "at_position ?R (bs ! i) (lower_bound cmp k (bs ! i)) db" by (auto simp: data_block_def)
    from ruled_out_opened [OF assms(2,4) True, of k] obtain out where
      out: "ruled_out (opened opt bs) (stored_handle ?h) k = Some out" "out \<longrightarrow> (\<forall>e \<in> set (bs ! i). \<not> same (fst e) k)" by blast
    note dv = at_position_shows [OF db(2)]
    show ?thesis
      using True n iv val out it(1) br db(1) dv
      by (cases out; cases "lower_bound cmp k (bs ! i) < length (bs ! i)")
        (simp_all add: InternalGet_def opened_def ok_def Let_def found_in_def)
  qed
qed

lemma entry_ge_first:
  assumes "table_entries opt valid b" "e \<in> set b"
  shows "\<not> cmp (fst e) (first_key b) < 0"
proof -
  obtain x xs where b: "b = x # xs" using assms(2) by (cases b) auto
  have v: "valid (fst e)" "valid (fst x)" using assms b by (auto simp: table_entries_def)
  have "e = x \<or> cmp (fst x) (fst e) < 0" using assms b by (auto simp: table_entries_def)
  then show ?thesis using b compare_not_less [OF v] by auto
qed

text \<open>An entry behind the block that the index points to is not \<open>same\<close> as the key.\<close>

lemma behind_index_block:
  assumes "table_entries opt valid (concat bs)" "[] \<notin> set bs" "valid k" "i < length bs"
    "\<not> cmp (index_key opt bs i) k < 0" "\<forall>e \<in> set (bs ! i). cmp (fst e) k < 0" "e \<in> set (concat (drop (Suc i) bs))"
  shows "\<not> same (fst e) k"
proof
  assume "same (fst e) k"
  have i: "Suc i < length bs" using assms(7) by (cases "Suc i < length bs") auto
  have ne: "bs ! i \<noteq> []" "bs ! Suc i \<noteq> []" using assms(2,4) i by (metis nth_mem)+
  have "bs = take (Suc i) bs @ drop (Suc i) bs" by simp
  then have "concat bs = concat (take (Suc i) bs) @ concat (drop (Suc i) bs)" by (metis concat_append)
  then have t: "table_entries opt valid (concat (drop (Suc i) bs))"
    using assms(1) by (auto simp: table_entries_def sorted_wrt_append)
  have "hd (concat (drop (Suc i) bs)) = hd (bs ! Suc i)" using Cons_nth_drop_Suc [OF i] ne(2) by (metis concat.simps(2) hd_append2)
  then have "\<not> cmp (fst e) (first_key (bs ! Suc i)) < 0" using entry_ge_first [OF t assms(7)] by simp
  moreover have "valid (fst e)" using t assms(7) unfolding table_entries_def by blast
  moreover have "less_entry opt (last (bs ! i)) (hd (bs ! Suc i))" by (rule block_keys [OF assms(1,2) lessI i])
  moreover have "cmp (last_key (bs ! i)) k < 0" using assms(6) ne(1) by simp
  ultimately have "cmp (separator_key opt bs i) k < 0"
    unfolding separator_key_def
    using separator_below [OF valid_block_keys(2) [OF assms(1,2,4)] valid_block_keys(1) [OF assms(1,2) i] _ assms(3) \<open>same _ _\<close>] by blast
  with assms(5) i show False by (simp add: index_key_def)
qed

lemma found_in_block:
  assumes "\<forall>e \<in> set xs. cmp (fst e) k < 0" "lower_bound cmp k b < length b"
  shows "found_in (xs @ b @ ys) k = Some (b ! lower_bound cmp k b)"
proof -
  have "lower_bound cmp k (b @ ys) = lower_bound cmp k b"
    using assms(2) lower_bound_less [OF assms(2)] lower_bound_before [of _ cmp k b]
    by (intro lower_boundI) (auto simp: nth_append)
  with lower_bound_append [of xs cmp k "b @ ys", OF assms(1)] assms(2) show ?thesis by (simp add: found_in_def nth_append)
qed

lemma found_in_behind:
  assumes "\<forall>e \<in> set xs. cmp (fst e) k < 0" "found_in (xs @ ys) k = Some e"
  shows "e \<in> set ys"
  using assms(2) lower_bound_append [of xs cmp k ys, OF assms(1)] by (auto simp: found_in_def split: if_splits)

lemma block_below:
  assumes "\<not> lower_bound cmp k b < length b"
  shows "\<forall>e \<in> set b. cmp (fst e) k < 0"
  using assms lower_bound_le [of cmp k b] by (metis (mono_tags, lifting) in_set_conv_nth le_neq_implies_less lower_bound_before)

lemma InternalGet_table:
  assumes "reads_file read (table_file opt es)" "length (table_file opt es) < 2 ^ 32" "table_entries opt valid es" "valid k"
  shows "\<exists>t x. Table_Open read a opt (length (table_file opt es)) = Some (Inr t) \<and> InternalGet read a' verify k t = Some (OK, x) \<and>
    (x = None \<or> x = found_in es k) \<and> (\<forall>e. found_in es k = Some e \<and> same (fst e) k \<longrightarrow> x = Some e)"
proof -
  define bs where "bs = cut_blocks opt [] es"
  have es: "concat bs = es" "[] \<notin> set bs" by (simp_all add: bs_def concat_cut_blocks cut_blocks_not_Nil)
  have T: "table_file opt es = blocks_file opt bs" by (simp add: table_file_def bs_def)
  have t: "table_entries opt valid (concat bs)" using assms(3) es by simp
  let ?i = "lower_bound cmp k (index_entries opt bs)"
  have n: "length (index_entries opt bs) = length bs" by (simp add: index_entries_def)
  have le: "?i \<le> length bs" using lower_bound_le [of cmp k "index_entries opt bs"] n by simp
  have "cmp (index_key opt bs j) k < 0" if "j < ?i" for j
    using lower_bound_before [OF that] that le by (simp add: index_entries_def)
  then have below: "\<forall>e \<in> set (concat (take ?i bs)). cmp (fst e) k < 0" using blocks_below [OF t es(2) assms(4) le] by blast
  from InternalGet_blocks [OF assms(1,2) [unfolded T] t es(2) assms(4), of a' verify] obtain x where
    x: "InternalGet read a' verify k (opened opt bs) = Some (OK, x)" "?i = length bs \<longrightarrow> x = None"
    "?i < length bs \<longrightarrow> (x = None \<and> (\<forall>e \<in> set (bs ! ?i). \<not> same (fst e) k)) \<or> x = found_in (bs ! ?i) k" by blast
  have "(x = None \<or> x = found_in es k) \<and> (\<forall>e. found_in es k = Some e \<and> same (fst e) k \<longrightarrow> x = Some e)"
  proof (cases "?i < length bs")
    case False
    then have "\<forall>e \<in> set es. cmp (fst e) k < 0" using below le es(1) by simp
    then have "found_in es k = None" using lower_bound_append [of es cmp k "[]"] by (simp add: found_in_def lower_bound_def)
    with False le x(2) show ?thesis by simp
  next
    case True
    let ?b = "bs ! ?i" and ?r = "concat (drop (Suc ?i) bs)"
    have split: "es = concat (take ?i bs) @ ?b @ ?r"
      using arg_cong [OF id_take_nth_drop [OF True], of concat] es(1) by simp
    show ?thesis
    proof (cases "lower_bound cmp k ?b < length ?b")
      case c: True
      then have "found_in es k = found_in ?b k" "\<forall>e. found_in es k = Some e \<longrightarrow> e \<in> set ?b"
        using found_in_block [OF below c, of ?r] split by (simp_all add: found_in_def [of ?b] nth_mem)
      with x(3) True show ?thesis by metis
    next
      case c: False
      have "e \<in> set ?r" if "found_in es k = Some e" for e
        using found_in_behind [of "concat (take ?i bs) @ ?b" k ?r e] below block_below [OF c] that split by auto
      moreover have "\<not> cmp (index_key opt bs ?i) k < 0"
        using lower_bound_less [of cmp k "index_entries opt bs"] True n by (simp add: index_entries_def)
      ultimately have "\<not> same (fst e) k" if "found_in es k = Some e" for e
        using behind_index_block [OF t es(2) assms(4) True _ block_below [OF c]] that by blast
      moreover have "x = None" using x(3) True c by (auto simp: found_in_def)
      ultimately show ?thesis by blast
    qed
  qed
  with x(1) Table_Open_file [OF assms(1,2) [unfolded T]] show ?thesis unfolding T by blast
qed

end

subsection \<open>Tables of the database\<close>

text \<open>The options the database opens its tables with: internal keys, and a Bloom filter on their user keys.\<close>

definition internal_options :: "nat \<Rightarrow> nat \<Rightarrow> CompressionType \<Rightarrow> bool \<Rightarrow> nat option \<Rightarrow> Options" where
  "internal_options interval_minus_1 block_sz compression paranoid bits =
     \<lparr>opt_comparator = \<lparr>cmp_address = 0, cmp_Compare = InternalKey_Compare slice_compare,
        cmp_FindShortestSeparator = InternalKey_FindShortestSeparator slice_compare Bytewise_FindShortestSeparator,
        cmp_FindShortSuccessor = InternalKey_FindShortSuccessor slice_compare Bytewise_FindShortSuccessor\<rparr>,
      opt_paranoid_checks = paranoid, opt_block_size = block_sz, opt_block_restart_interval = Suc interval_minus_1,
      opt_compression = compression,
      opt_filter_policy = map_option (\<lambda>b. \<lparr>fp_Name = map of_char ''leveldb.BuiltinBloomFilter2'',
        fp_CreateFilter = InternalFilterPolicy_CreateFilter (Bloom_CreateFilter b),
        fp_KeyMayMatch = InternalFilterPolicy_KeyMayMatch Bloom_KeyMayMatch\<rparr>) bits\<rparr>"

definition same_user_key :: "slice \<Rightarrow> slice \<Rightarrow> bool" where
  "same_user_key a b \<longleftrightarrow> ExtractUserKey a = ExtractUserKey b"

context comparator
begin

lemma internal_separator_below:
  assumes "valid_key a" "valid (ExtractUserKey a)" "valid (ExtractUserKey b)" "valid (ExtractUserKey e)" "valid (ExtractUserKey k)"
    "same_user_key e k" "InternalKey_Compare Compare a b < 0" "InternalKey_Compare Compare a k < 0"
    "\<not> InternalKey_Compare Compare e b < 0"
  shows "InternalKey_Compare Compare (InternalKey_FindShortestSeparator Compare FindShortestSeparator a b) k < 0"
proof -
  let ?u = ExtractUserKey
  let ?tmp = "FindShortestSeparator (?u a) (?u b)"
  show ?thesis
  proof (cases "length ?tmp < length (?u a) \<and> Compare (?u a) ?tmp < 0")
    case True
    then have s: "InternalKey_FindShortestSeparator Compare FindShortestSeparator a b = ?tmp @ seek_tag"
      by (simp add: InternalKey_FindShortestSeparator_def Let_def)
    have "?u a \<noteq> ?u b" using True separator_same [OF assms(2)] by auto
    then have lt: "Compare (?u a) (?u b) < 0" using assms(7) internal_compare_iff(1) [OF assms(2,3)] by blast
    note sep = separator [OF assms(2,3) lt]
    have "\<not> Compare (?u e) (?u b) < 0" using assms(9) internal_compare_iff(1) [OF assms(4,3)] by blast
    then have "Compare ?tmp (?u k) < 0"
      using compare_less_trans_le [of ?tmp "?u b" "?u e"] sep assms(3,4,6) by (simp add: same_user_key_def)
    then show ?thesis using internal_compare_iff(1) [of "?tmp @ seek_tag" k] sep assms(5) s by simp
  next
    case False
    then have "InternalKey_FindShortestSeparator Compare FindShortestSeparator a b = a"
      by (auto simp: InternalKey_FindShortestSeparator_def Let_def)
    with assms(8) show ?thesis by simp
  qed
qed

end

interpretation internal_filter: filter_policy "InternalFilterPolicy_CreateFilter (Bloom_CreateFilter bits)"
  "InternalFilterPolicy_KeyMayMatch Bloom_KeyMayMatch" for bits
proof
  show "InternalFilterPolicy_CreateFilter (Bloom_CreateFilter bits) keys dst =
      dst @ InternalFilterPolicy_CreateFilter (Bloom_CreateFilter bits) keys []" for keys dst
    unfolding InternalFilterPolicy_CreateFilter_def by (rule bloom.create_appends)
  show "InternalFilterPolicy_KeyMayMatch Bloom_KeyMayMatch key (InternalFilterPolicy_CreateFilter (Bloom_CreateFilter bits) keys [])"
    if "key \<in> set keys" for key keys
    unfolding InternalFilterPolicy_KeyMayMatch_def InternalFilterPolicy_CreateFilter_def
    using that by (intro bloom.no_false_negative) simp
qed

interpretation internal_table: table_options "internal_options r sz c paranoid bits" valid_key same_user_key for r sz c paranoid bits
proof (intro table_options.intro table_options_axioms.intro, goal_cases)
  case 1
  show ?case using bytewise.internal_comparator by (simp add: internal_options_def)
next
  case (3 p)
  then show ?case using internal_filter.filter_policy_axioms by (auto simp: internal_options_def)
next
  case (4 p e k)
  then show ?case by (auto simp: internal_options_def same_user_key_def InternalFilterPolicy_KeyMayMatch_def fun_eq_iff)
next
  case (5 a b e k)
  then show ?case using bytewise.internal_separator_below [where a = a and b = b and e = e and k = k] by (simp add: internal_options_def)
qed (simp add: internal_options_def)

interpretation internal_writer: table_writer "internal_options r sz c paranoid bits" valid_key same_user_key
  Posix_Append Posix_Flush wf_contents wf_disk wf_healthy for r sz c paranoid bits
  by (rule table_writer.intro) (unfold_locales)

definition first_at_least :: "(slice \<Rightarrow> slice \<Rightarrow> int) \<Rightarrow> slice \<Rightarrow> (slice \<times> slice) list \<Rightarrow> (slice \<times> slice) option" where
  "first_at_least cmp k es = (if lower_bound cmp k es < length es then Some (es ! lower_bound cmp k es) else None)"



end
