(* ===== verification/Ldb_Cache.thy ===== *)
theory Ldb_Cache
  imports Ldb_Bloom "HOL-Library.Multiset" "HOL-Library.Monad_Syntax"
begin

text \<open>
  The block cache (\<^verbatim>\<open>cache.cc\<close>): a hash table of reference-counted handles with a list of those that no
  client uses, oldest first, and its sharded version.

  A handle is an index into the list of all allocations; a freed one is \<open>None\<close> there. A bucket is the list
  of the handles on its chain, from the slot of the bucket on; each of the two circular lists is the
  list of its handles, from the successor of its head on. The mutexes have no effect, as each
  operation is one step. The number of buckets and of entries are natural numbers: with fewer than \<open>2\<^sup>31\<close>
  entries neither wraps around in the code. A run is \<open>None\<close> when it violates an assertion, uses a freed handle or does not
  end. The calls of deleters are recorded, with the key and the value they get.
\<close>

subsection \<open>Handles\<close>

record 'v LRUHandle =
  h_value :: 'v
  h_charge :: "64 word"
  h_key :: slice
  h_in_cache :: bool
  h_refs :: "32 word"
  h_hash :: "32 word"

type_synonym 'v handles = "'v LRUHandle option list"

definition deref :: "'v handles \<Rightarrow> nat \<Rightarrow> 'v LRUHandle option" where
  "deref hs e = (if e < length hs then hs ! e else None)"

subsection \<open>The hash table\<close>

text \<open>\<^verbatim>\<open>length_\<close> is the number of buckets.\<close>

record HandleTable =
  ht_elems :: nat
  ht_list :: "nat list list"

definition bucket_of :: "nat \<Rightarrow> 32 word \<Rightarrow> nat" where
  "bucket_of n hash = unat (hash AND (word_of_nat n - 1))"

text \<open>The position on the chain where the entry is; the length of the chain if there is none.\<close>

fun find_chain :: "'v handles \<Rightarrow> slice \<Rightarrow> 32 word \<Rightarrow> nat list \<Rightarrow> nat option" where
  "find_chain hs key hash [] = Some 0"
| "find_chain hs key hash (e # es) = do {
     h \<leftarrow> deref hs e;
     if h_hash h \<noteq> hash \<or> \<not> slice_eq key (h_key h) then map_option Suc (find_chain hs key hash es) else Some 0
   }"

definition FindPointer :: "'v handles \<Rightarrow> slice \<Rightarrow> 32 word \<Rightarrow> HandleTable \<Rightarrow> (nat \<times> nat) option" where
  "FindPointer hs key hash t =
     (let b = bucket_of (length (ht_list t)) hash in
      if b < length (ht_list t) then map_option (Pair b) (find_chain hs key hash (ht_list t ! b)) else None)"

definition entry_at :: "HandleTable \<Rightarrow> nat \<Rightarrow> nat \<Rightarrow> nat option" where
  "entry_at t b i = (if i < length (ht_list t ! b) then Some (ht_list t ! b ! i) else None)"

definition HandleTable_Lookup :: "'v handles \<Rightarrow> slice \<Rightarrow> 32 word \<Rightarrow> HandleTable \<Rightarrow> nat option option" where
  "HandleTable_Lookup hs key hash t = do {
     (b, i) \<leftarrow> FindPointer hs key hash t;
     Some (entry_at t b i)
   }"

text \<open>The loop starts with the length 4.\<close>

function grow_length :: "nat \<Rightarrow> nat \<Rightarrow> nat" where
  "grow_length elems n = (if n < elems \<and> 0 < n then grow_length elems (n * 2) else n)"
  by pat_completeness auto
termination by (relation "measure (\<lambda>(elems, n). elems - n)") auto

declare grow_length.simps [simp del]

text \<open>Every entry, in the order of the buckets and their chains, is put in front of its new chain.\<close>

fun relink :: "'v handles \<Rightarrow> nat list \<Rightarrow> nat list list \<Rightarrow> nat list list option" where
  "relink hs [] new_list = Some new_list"
| "relink hs (e # es) new_list = do {
     h \<leftarrow> deref hs e;
     let b = bucket_of (length new_list) (h_hash h);
     if b < length new_list then relink hs es (new_list[b := e # new_list ! b]) else None
   }"

definition Resize :: "'v handles \<Rightarrow> HandleTable \<Rightarrow> HandleTable option" where
  "Resize hs t = do {
     let new_length = grow_length (ht_elems t) 4;
     new_list \<leftarrow> relink hs (concat (ht_list t)) (replicate new_length []);
     if ht_elems t = length (concat (ht_list t)) then Some (t\<lparr>ht_list := new_list\<rparr>) else None
   }"

definition make_HandleTable :: "'v handles \<Rightarrow> HandleTable option" where
  "make_HandleTable hs = Resize hs \<lparr>ht_elems = 0, ht_list = []\<rparr>"

definition HandleTable_Insert :: "'v handles \<Rightarrow> nat \<Rightarrow> HandleTable \<Rightarrow> (nat option \<times> HandleTable) option" where
  "HandleTable_Insert hs e t = do {
     h \<leftarrow> deref hs e;
     (b, i) \<leftarrow> FindPointer hs (h_key h) (h_hash h) t;
     case entry_at t b i of
       Some old \<Rightarrow> Some (Some old, t\<lparr>ht_list := (ht_list t)[b := (ht_list t ! b)[i := e]]\<rparr>)
     | None \<Rightarrow> do {
         let t = t\<lparr>ht_list := (ht_list t)[b := ht_list t ! b @ [e]], ht_elems := ht_elems t + 1\<rparr>;
         t \<leftarrow> (if ht_elems t > length (ht_list t) then Resize hs t else Some t);
         Some (None, t)
       }
   }"

definition HandleTable_Remove :: "'v handles \<Rightarrow> slice \<Rightarrow> 32 word \<Rightarrow> HandleTable \<Rightarrow> (nat option \<times> HandleTable) option" where
  "HandleTable_Remove hs key hash t = do {
     (b, i) \<leftarrow> FindPointer hs key hash t;
     Some (entry_at t b i,
       if entry_at t b i = None then t
       else t\<lparr>ht_list := (ht_list t)[b := take i (ht_list t ! b) @ drop (Suc i) (ht_list t ! b)], ht_elems := ht_elems t - 1\<rparr>)
   }"

subsection \<open>One shard\<close>

record 'v LRUCache =
  lc_capacity :: "64 word"
  lc_usage :: "64 word"
  lc_handles :: "'v handles"
  lc_lru :: "nat list"
  lc_in_use :: "nat list"
  lc_table :: HandleTable
  lc_deleted :: "(slice \<times> 'v) list"

definition make_LRUCache :: "64 word \<Rightarrow> 'v LRUCache option" where
  "make_LRUCache capacity = do {
     t \<leftarrow> make_HandleTable ([] :: 'v handles);
     Some \<lparr>lc_capacity = capacity, lc_usage = 0, lc_handles = [], lc_lru = [], lc_in_use = [], lc_table = t, lc_deleted = []\<rparr>
   }"

definition put_handle :: "nat \<Rightarrow> 'v LRUHandle \<Rightarrow> 'v LRUCache \<Rightarrow> 'v LRUCache" where
  "put_handle e h c = c\<lparr>lc_handles := (lc_handles c)[e := Some h]\<rparr>"

definition LRU_Remove :: "nat \<Rightarrow> 'v LRUCache \<Rightarrow> 'v LRUCache option" where
  "LRU_Remove e c =
     (if e \<in> set (lc_lru c) then Some (c\<lparr>lc_lru := remove1 e (lc_lru c)\<rparr>)
      else if e \<in> set (lc_in_use c) then Some (c\<lparr>lc_in_use := remove1 e (lc_in_use c)\<rparr>)
      else None)"

definition LRU_Append_lru :: "nat \<Rightarrow> 'v LRUCache \<Rightarrow> 'v LRUCache" where
  "LRU_Append_lru e c = c\<lparr>lc_lru := lc_lru c @ [e]\<rparr>"

definition LRU_Append_in_use :: "nat \<Rightarrow> 'v LRUCache \<Rightarrow> 'v LRUCache" where
  "LRU_Append_in_use e c = c\<lparr>lc_in_use := lc_in_use c @ [e]\<rparr>"

definition Ref :: "nat \<Rightarrow> 'v LRUCache \<Rightarrow> 'v LRUCache option" where
  "Ref e c = do {
     h \<leftarrow> deref (lc_handles c) e;
     c \<leftarrow> (if h_refs h = 1 \<and> h_in_cache h then map_option (LRU_Append_in_use e) (LRU_Remove e c) else Some c);
     Some (put_handle e (h\<lparr>h_refs := h_refs h + 1\<rparr>) c)
   }"

definition Unref :: "nat \<Rightarrow> 'v LRUCache \<Rightarrow> 'v LRUCache option" where
  "Unref e c = do {
     h \<leftarrow> deref (lc_handles c) e;
     if h_refs h > 0 then do {
       let h = h\<lparr>h_refs := h_refs h - 1\<rparr>;
       let c = put_handle e h c;
       if h_refs h = 0 then
         (if h_in_cache h then None
          else Some (c\<lparr>lc_deleted := lc_deleted c @ [(h_key h, h_value h)], lc_handles := (lc_handles c)[e := None]\<rparr>))
       else if h_in_cache h \<and> h_refs h = 1 then map_option (LRU_Append_lru e) (LRU_Remove e c)
       else Some c
     }
     else None
   }"

definition FinishErase :: "nat option \<Rightarrow> 'v LRUCache \<Rightarrow> (bool \<times> 'v LRUCache) option" where
  "FinishErase entry c =
     (case entry of None \<Rightarrow> Some (False, c)
      | Some e \<Rightarrow> do {
          h \<leftarrow> deref (lc_handles c) e;
          if h_in_cache h then do {
            c \<leftarrow> LRU_Remove e c;
            let c = put_handle e (h\<lparr>h_in_cache := False\<rparr>) c;
            let c = c\<lparr>lc_usage := lc_usage c - h_charge h\<rparr>;
            c \<leftarrow> Unref e c;
            Some (True, c)
          }
          else None
        })"

definition LRU_Lookup :: "slice \<Rightarrow> 32 word \<Rightarrow> 'v LRUCache \<Rightarrow> (nat option \<times> 'v LRUCache) option" where
  "LRU_Lookup key hash c = do {
     e \<leftarrow> HandleTable_Lookup (lc_handles c) key hash (lc_table c);
     case e of None \<Rightarrow> Some (None, c) | Some e \<Rightarrow> map_option (Pair (Some e)) (Ref e c)
   }"

definition LRU_Release :: "nat \<Rightarrow> 'v LRUCache \<Rightarrow> 'v LRUCache option" where
  "LRU_Release e c = Unref e c"

text \<open>The body of the loops that erase the oldest handle of the list \<^verbatim>\<open>lru_\<close>.\<close>

definition erase_oldest :: "'v LRUCache \<Rightarrow> 'v LRUCache option" where
  "erase_oldest c = do {
     let old = hd (lc_lru c);
     h \<leftarrow> deref (lc_handles c) old;
     if h_refs h = 1 then do {
       (removed, t) \<leftarrow> HandleTable_Remove (lc_handles c) (h_key h) (h_hash h) (lc_table c);
       (erased, c) \<leftarrow> FinishErase removed (c\<lparr>lc_table := t\<rparr>);
       if erased then Some c else None
     }
     else None
   }"

partial_function (option) evict_loop :: "'v LRUCache \<Rightarrow> 'v LRUCache option" where
  "evict_loop c =
     (if lc_usage c > lc_capacity c \<and> lc_lru c \<noteq> [] then Option.bind (erase_oldest c) evict_loop else Some c)"

partial_function (option) LRU_Prune :: "'v LRUCache \<Rightarrow> 'v LRUCache option" where
  "LRU_Prune c = (if lc_lru c \<noteq> [] then Option.bind (erase_oldest c) LRU_Prune else Some c)"

definition LRU_Insert ::
  "slice \<Rightarrow> 32 word \<Rightarrow> 'v \<Rightarrow> 64 word \<Rightarrow> 'v LRUCache \<Rightarrow> (nat \<times> 'v LRUCache) option" where
  "LRU_Insert key hash val charge c = do {
     let e = length (lc_handles c);
     let h = \<lparr>h_value = val, h_charge = charge, h_key = key, h_in_cache = False, h_refs = 1, h_hash = hash\<rparr>;
     c \<leftarrow> (if lc_capacity c > 0 then do {
             let h = h\<lparr>h_refs := h_refs h + 1, h_in_cache := True\<rparr>;
             let c = LRU_Append_in_use e (c\<lparr>lc_handles := lc_handles c @ [Some h]\<rparr>);
             let c = c\<lparr>lc_usage := lc_usage c + charge\<rparr>;
             (old, t) \<leftarrow> HandleTable_Insert (lc_handles c) e (lc_table c);
             map_option snd (FinishErase old (c\<lparr>lc_table := t\<rparr>))
           }
           else Some (c\<lparr>lc_handles := lc_handles c @ [Some h]\<rparr>));
     c \<leftarrow> evict_loop c;
     Some (e, c)
   }"

definition LRU_Erase :: "slice \<Rightarrow> 32 word \<Rightarrow> 'v LRUCache \<Rightarrow> 'v LRUCache option" where
  "LRU_Erase key hash c = do {
     (removed, t) \<leftarrow> HandleTable_Remove (lc_handles c) key hash (lc_table c);
     map_option snd (FinishErase removed (c\<lparr>lc_table := t\<rparr>))
   }"

definition LRU_TotalCharge :: "'v LRUCache \<Rightarrow> 64 word" where
  "LRU_TotalCharge c = lc_usage c"

text \<open>The destructor: the loop over the list that is left.\<close>

fun destroy_loop :: "nat list \<Rightarrow> 'v LRUCache \<Rightarrow> 'v LRUCache option" where
  "destroy_loop [] c = Some c"
| "destroy_loop (e # es) c = do {
     h \<leftarrow> deref (lc_handles c) e;
     if h_in_cache h \<and> h_refs h = 1
     then Option.bind (Unref e (put_handle e (h\<lparr>h_in_cache := False\<rparr>) c)) (destroy_loop es)
     else None
   }"

definition destroy_LRUCache :: "'v LRUCache \<Rightarrow> 'v LRUCache option" where
  "destroy_LRUCache c = (if lc_in_use c = [] then destroy_loop (lc_lru c) c else None)"

subsection \<open>The sharded cache\<close>

definition kNumShardBits :: nat where
  "kNumShardBits = 4"

definition kNumShards :: nat where
  "kNumShards = 2 ^ kNumShardBits"

record 'v ShardedLRUCache =
  sc_shards :: "'v LRUCache list"
  sc_last_id :: "64 word"

definition HashSlice :: "slice \<Rightarrow> 32 word" where
  "HashSlice s = Hash s 0"

definition Shard :: "32 word \<Rightarrow> nat" where
  "Shard hash = unat (drop_bit (32 - kNumShardBits) hash)"

definition per_shard :: "64 word \<Rightarrow> 64 word" where
  "per_shard capacity = (capacity + (word_of_nat kNumShards - 1)) div word_of_nat kNumShards"

definition make_ShardedLRUCache :: "64 word \<Rightarrow> 'v ShardedLRUCache option" where
  "make_ShardedLRUCache capacity =
     map_option (\<lambda>c. \<lparr>sc_shards = replicate kNumShards c, sc_last_id = 0\<rparr>) (make_LRUCache (per_shard capacity))"

text \<open>A handle of the sharded cache is a handle of one of its shards, found by its hash.\<close>

definition on_shard :: "nat \<Rightarrow> ('v LRUCache \<Rightarrow> ('a \<times> 'v LRUCache) option) \<Rightarrow> 'v ShardedLRUCache \<Rightarrow> ('a \<times> 'v ShardedLRUCache) option" where
  "on_shard s f c = do {
     (r, shard) \<leftarrow> f (sc_shards c ! s);
     Some (r, c\<lparr>sc_shards := (sc_shards c)[s := shard]\<rparr>)
   }"

definition Sharded_Insert :: "slice \<Rightarrow> 'v \<Rightarrow> 64 word \<Rightarrow> 'v ShardedLRUCache \<Rightarrow> ((nat \<times> nat) \<times> 'v ShardedLRUCache) option" where
  "Sharded_Insert key val charge c =
     (let hash = HashSlice key; s = Shard hash in
      map_option (map_prod (Pair s) id) (on_shard s (LRU_Insert key hash val charge) c))"

definition Sharded_Lookup :: "slice \<Rightarrow> 'v ShardedLRUCache \<Rightarrow> ((nat \<times> nat) option \<times> 'v ShardedLRUCache) option" where
  "Sharded_Lookup key c =
     (let hash = HashSlice key; s = Shard hash in
      map_option (map_prod (map_option (Pair s)) id) (on_shard s (LRU_Lookup key hash) c))"

definition Sharded_Release :: "nat \<times> nat \<Rightarrow> 'v ShardedLRUCache \<Rightarrow> 'v ShardedLRUCache option" where
  "Sharded_Release handle c =
     map_option snd (on_shard (fst handle) (\<lambda>shard. map_option (Pair ()) (LRU_Release (snd handle) shard)) c)"

definition Sharded_Erase :: "slice \<Rightarrow> 'v ShardedLRUCache \<Rightarrow> 'v ShardedLRUCache option" where
  "Sharded_Erase key c =
     (let hash = HashSlice key in
      map_option snd (on_shard (Shard hash) (\<lambda>shard. map_option (Pair ()) (LRU_Erase key hash shard)) c))"

definition Sharded_Value :: "nat \<times> nat \<Rightarrow> 'v ShardedLRUCache \<Rightarrow> 'v option" where
  "Sharded_Value handle c = map_option h_value (deref (lc_handles (sc_shards c ! fst handle)) (snd handle))"

definition Sharded_NewId :: "'v ShardedLRUCache \<Rightarrow> 64 word \<times> 'v ShardedLRUCache" where
  "Sharded_NewId c = (sc_last_id c + 1, c\<lparr>sc_last_id := sc_last_id c + 1\<rparr>)"

definition Sharded_Prune :: "'v ShardedLRUCache \<Rightarrow> 'v ShardedLRUCache option" where
  "Sharded_Prune c = map_option (\<lambda>shards. c\<lparr>sc_shards := shards\<rparr>) (those (map LRU_Prune (sc_shards c)))"

definition Sharded_TotalCharge :: "'v ShardedLRUCache \<Rightarrow> 64 word" where
  "Sharded_TotalCharge c = fold (\<lambda>shard total. total + LRU_TotalCharge shard) (sc_shards c) 0"

end
