(* ===== verification/Ldb_Cache_Spec.thy ===== *)
theory Ldb_Cache_Spec
  imports Ldb_Cache
begin

text \<open>
  The cache as its clients see it: a map from keys to values with handles that stay valid until they
  are released. The state is described by the multiset of the references that clients hold.
\<close>

subsection \<open>The hash table is a finite map\<close>

definition ident :: "'v handles \<Rightarrow> nat \<Rightarrow> (slice \<times> 32 word) option" where
  "ident hs e = map_option (\<lambda>h. (h_key h, h_hash h)) (deref hs e)"

definition placed :: "'v handles \<Rightarrow> nat list list \<Rightarrow> bool" where
  "placed hs bs \<longleftrightarrow> (\<forall>b < length bs. \<forall>e \<in> set (bs ! b). \<exists>h. deref hs e = Some h \<and> bucket_of (length bs) (h_hash h) = b)"

definition table_ok :: "'v handles \<Rightarrow> HandleTable \<Rightarrow> nat set \<Rightarrow> bool" where
  "table_ok hs t S \<longleftrightarrow> 0 < length (ht_list t) \<and> length (ht_list t) \<le> 2 ^ 32 \<and> placed hs (ht_list t) \<and>
     distinct (concat (ht_list t)) \<and> set (concat (ht_list t)) = S \<and> ht_elems t = length (concat (ht_list t)) \<and>
     inj_on (ident hs) S"

lemma bucket_of_less:
  assumes "0 < n" "n \<le> 2 ^ 32"
  shows "bucket_of n hash < n"
proof (cases "n = 2 ^ 32")
  case True
  then show ?thesis using unat_u32_less [of "hash AND (word_of_nat n - 1)"] by (simp add: bucket_of_def)
next
  case False
  then have n: "unat (word_of_nat n :: 32 word) = n" using assms(2) by (simp add: unat_of_nat take_bit_eq_mod)
  have "hash AND (word_of_nat n - 1) \<le> word_of_nat n - 1" by (rule word_and_le1)
  then have "bucket_of n hash \<le> unat (word_of_nat n - 1 :: 32 word)" unfolding bucket_of_def by (simp add: word_le_nat_alt)
  also have "\<dots> = n - 1"
    using n assms(1) unat_minus_one [of "word_of_nat n :: 32 word"] by (metis less_irrefl unat_0)
  finally show ?thesis using assms(1) by simp
qed

lemma find_chain_ident:
  "\<forall>e \<in> set es. deref hs e \<noteq> None \<Longrightarrow>
   \<exists>i \<le> length es. find_chain hs key hash es = Some i \<and> (\<forall>j < i. ident hs (es ! j) \<noteq> Some (key, hash)) \<and>
     (i < length es \<longrightarrow> ident hs (es ! i) = Some (key, hash))"
proof (induction es)
  case (Cons e es)
  then obtain h where h: "deref hs e = Some h" by auto
  from Cons obtain i where i: "i \<le> length es" "find_chain hs key hash es = Some i"
    "\<forall>j < i. ident hs (es ! j) \<noteq> Some (key, hash)" "i < length es \<longrightarrow> ident hs (es ! i) = Some (key, hash)" by auto
  have id: "ident hs e = Some (key, hash) \<longleftrightarrow> h_hash h = hash \<and> slice_eq key (h_key h)"
    using h by (auto simp: ident_def slice_eq_iff)
  show ?case
  proof (cases "ident hs e = Some (key, hash)")
    case True
    with id h show ?thesis by (intro exI [of _ 0]) simp
  next
    case False
    with id h i show ?thesis by (intro exI [of _ "Suc i"]) (auto simp: less_Suc_eq_0_disj)
  qed
qed simp

text \<open>What a search for a key gives: the entry with that key, or the end of its chain.\<close>

definition hit :: "'v handles \<Rightarrow> nat set \<Rightarrow> slice \<Rightarrow> 32 word \<Rightarrow> nat option \<Rightarrow> bool" where
  "hit hs S key hash r \<longleftrightarrow>
     (case r of Some e \<Rightarrow> e \<in> S \<and> ident hs e = Some (key, hash) | None \<Rightarrow> \<forall>e \<in> S. ident hs e \<noteq> Some (key, hash))"

lemma FindPointer_ok:
  assumes "table_ok hs t S"
  obtains b i where "FindPointer hs key hash t = Some (b, i)" "b < length (ht_list t)" "i \<le> length (ht_list t ! b)"
    "b = bucket_of (length (ht_list t)) hash"
    "hit hs S key hash (entry_at t b i)"
proof -
  let ?b = "bucket_of (length (ht_list t)) hash"
  have b: "?b < length (ht_list t)" using assms by (simp add: table_ok_def bucket_of_less)
  have "\<forall>e \<in> set (ht_list t ! ?b). deref hs e \<noteq> None" using assms b by (auto simp: table_ok_def placed_def)
  from find_chain_ident [OF this, of key hash] obtain i where
    i: "i \<le> length (ht_list t ! ?b)" "find_chain hs key hash (ht_list t ! ?b) = Some i"
    "\<forall>j < i. ident hs (ht_list t ! ?b ! j) \<noteq> Some (key, hash)"
    "i < length (ht_list t ! ?b) \<longrightarrow> ident hs (ht_list t ! ?b ! i) = Some (key, hash)" by blast
  have "set (concat xs) = (\<Union>b < length xs. set (xs ! b))" for xs :: "nat list list"
    by (auto simp: in_set_conv_nth [of _ xs] intro: bexI [OF _ nth_mem])
  then have S: "S = (\<Union>b < length (ht_list t). set (ht_list t ! b))" using assms by (simp add: table_ok_def)
  have "ident hs e \<noteq> Some (key, hash)" if e: "e \<in> S" "i = length (ht_list t ! ?b)" for e
  proof
    assume id: "ident hs e = Some (key, hash)"
    from e(1) S obtain b' where b': "b' < length (ht_list t)" "e \<in> set (ht_list t ! b')" by auto
    then have "b' = ?b" using assms id by (fastforce simp: table_ok_def placed_def ident_def)
    with b'(2) e(2) i(3) id show False by (auto simp: in_set_conv_nth)
  qed
  moreover have "ht_list t ! ?b ! i \<in> S" if "i < length (ht_list t ! ?b)" using that b S nth_mem [OF that] by blast
  ultimately have "hit hs S key hash (entry_at t ?b i)"
    using i(1,4) by (auto simp: hit_def entry_at_def split: option.splits if_splits)
  with that [OF _ b i(1) refl] i(2) b show ?thesis by (simp add: FindPointer_def Let_def)
qed

lemma Lookup_ok:
  assumes "table_ok hs t S"
  obtains r where "HandleTable_Lookup hs key hash t = Some r"
    "hit hs S key hash r"
proof -
  obtain b i where f: "FindPointer hs key hash t = Some (b, i)"
    "hit hs S key hash (entry_at t b i)"
    by (rule FindPointer_ok [OF assms, of key hash])
  then show ?thesis by (intro that [of "entry_at t b i"]) (simp_all add: HandleTable_Lookup_def)
qed

text \<open>Replacing one chain.\<close>

lemma concat_update:
  assumes "b < length xs"
  shows "concat (xs[b := ys]) = concat (take b xs) @ ys @ concat (drop (Suc b) xs)"
    "concat xs = concat (take b xs) @ xs ! b @ concat (drop (Suc b) xs)"
proof -
  show "concat (xs[b := ys]) = concat (take b xs) @ ys @ concat (drop (Suc b) xs)"
    using assms by (simp add: upd_conv_take_nth_drop)
  show "concat xs = concat (take b xs) @ xs ! b @ concat (drop (Suc b) xs)"
    using arg_cong [OF id_take_nth_drop [OF assms], of concat] by simp
qed

lemma concat_replace:
  assumes "b < length xs" "xs ! b = P @ m @ Q"
  obtains A C where "concat xs = A @ m @ C" "\<And>m'. concat (xs[b := P @ m' @ Q]) = A @ m' @ C"
  using concat_update [OF assms(1)] assms(2) by (intro that [of "concat (take b xs) @ P" "Q @ concat (drop (Suc b) xs)"]) simp_all

lemma placed_update:
  assumes "placed hs bs" "b < length bs" "\<forall>e \<in> set ys. \<exists>h. deref hs e = Some h \<and> bucket_of (length bs) (h_hash h) = b"
  shows "placed hs (bs[b := ys])"
  using assms by (auto simp: placed_def nth_list_update)

lemma placed_chain:
  "placed hs bs \<Longrightarrow> b < length bs \<Longrightarrow> e \<in> set (bs ! b) \<Longrightarrow> \<exists>h. deref hs e = Some h \<and> bucket_of (length bs) (h_hash h) = b"
  by (simp add: placed_def)

lemma Remove_ok:
  assumes "table_ok hs t S"
  obtains r t' where "HandleTable_Remove hs key hash t = Some (r, t')" "table_ok hs t' (S - set_option r)"
    "hit hs S key hash r"
proof -
  obtain b i where f: "FindPointer hs key hash t = Some (b, i)" "b < length (ht_list t)" "i \<le> length (ht_list t ! b)"
    "hit hs S key hash (entry_at t b i)"
    by (rule FindPointer_ok [OF assms, of key hash])
  show ?thesis
  proof (cases "entry_at t b i")
    case None
    with f assms show ?thesis by (intro that [of None t]) (simp_all add: HandleTable_Remove_def)
  next
    case (Some e)
    then have i: "i < length (ht_list t ! b)" "e = ht_list t ! b ! i" by (auto simp: entry_at_def split: if_splits)
    let ?ys = "take i (ht_list t ! b) @ drop (Suc i) (ht_list t ! b)"
    let ?t = "t\<lparr>ht_list := (ht_list t)[b := ?ys], ht_elems := ht_elems t - 1\<rparr>"
    have "ht_list t ! b = take i (ht_list t ! b) @ [e] @ drop (Suc i) (ht_list t ! b)" using i by (simp add: id_take_nth_drop [symmetric])
    from concat_replace [OF f(2) this] obtain A C where
      "concat (ht_list t) = A @ [e] @ C" "\<And>m'. concat ((ht_list t)[b := take i (ht_list t ! b) @ m' @ drop (Suc i) (ht_list t ! b)]) = A @ m' @ C"
      by blast
    from this(1) this(2) [of "[]"] have c: "concat (ht_list t) = A @ e # C" "concat ((ht_list t)[b := ?ys]) = A @ C" by simp_all
    have d: "distinct (concat (ht_list t))" "set (concat (ht_list t)) = S" using assms by (simp_all add: table_ok_def)
    have "distinct (concat ((ht_list t)[b := ?ys]))" "set (concat ((ht_list t)[b := ?ys])) = S - {e}"
      "length (concat (ht_list t)) = Suc (length (concat ((ht_list t)[b := ?ys])))"
      using d unfolding c by auto
    moreover have "placed hs ((ht_list t)[b := ?ys])"
      using assms f(2) placed_chain [of hs "ht_list t" b] by (intro placed_update) (auto simp: table_ok_def dest: in_set_takeD in_set_dropD)
    ultimately have "table_ok hs ?t (S - {e})" using assms by (auto simp: table_ok_def intro: inj_on_diff)
    with f(1,4) Some show ?thesis by (intro that [of "Some e" ?t]) (simp_all add: HandleTable_Remove_def)
  qed
qed

lemma relink_ok:
  assumes "\<forall>e \<in> set es. deref hs e \<noteq> None" "0 < length nl" "length nl \<le> 2 ^ 32" "placed hs nl"
  shows "\<exists>nl'. relink hs es nl = Some nl' \<and> length nl' = length nl \<and> placed hs nl' \<and>
    mset (concat nl') = mset es + mset (concat nl)"
  using assms
proof (induction es arbitrary: nl)
  case (Cons e es)
  then obtain h where h: "deref hs e = Some h" by auto
  let ?b = "bucket_of (length nl) (h_hash h)"
  have b: "?b < length nl" using Cons.prems by (simp add: bucket_of_less)
  have "placed hs (nl[?b := e # nl ! ?b])"
    using Cons.prems(4) b h placed_chain [of hs nl ?b] by (intro placed_update) auto
  moreover have "mset (concat (nl[?b := e # nl ! ?b])) = add_mset e (mset (concat nl))"
    using concat_update(1) [OF b, of "e # nl ! ?b"] arg_cong [OF concat_update(2) [OF b], of mset] by simp
  ultimately show ?case using Cons.IH [of "nl[?b := e # nl ! ?b]"] Cons.prems h b by (auto simp: Let_def)
qed simp

lemma grow_length_bound: "4 \<le> n \<Longrightarrow> elems \<le> 2 ^ 31 \<Longrightarrow> n \<le> 2 ^ 32 \<Longrightarrow> 4 \<le> grow_length elems n \<and> grow_length elems n \<le> 2 ^ 32"
proof (induction elems n rule: grow_length.induct)
  case (1 elems n)
  then show ?case by (subst (1 2) grow_length.simps) auto
qed

lemma Resize_ok:
  assumes "placed hs (ht_list t)" "distinct (concat (ht_list t))" "ht_elems t = length (concat (ht_list t))"
    "inj_on (ident hs) (set (concat (ht_list t)))" "ht_elems t \<le> 2 ^ 31"
  shows "\<exists>t'. Resize hs t = Some t' \<and> table_ok hs t' (set (concat (ht_list t)))"
proof -
  let ?n = "grow_length (ht_elems t) 4"
  have n: "0 < ?n" "?n \<le> 2 ^ 32" using grow_length_bound [of 4 "ht_elems t"] assms(5) by auto
  have "\<forall>e \<in> set (concat (ht_list t)). deref hs e \<noteq> None"
    using assms(1) unfolding placed_def set_concat by (metis UN_E in_set_conv_nth option.distinct(1))
  moreover have "placed hs (replicate ?n [])" by (simp add: placed_def)
  ultimately obtain nl where nl: "relink hs (concat (ht_list t)) (replicate ?n []) = Some nl" "length nl = ?n" "placed hs nl"
    "mset (concat nl) = mset (concat (ht_list t))"
    using relink_ok [of "concat (ht_list t)" hs "replicate ?n []"] n by (auto simp: concat_replicate_trivial)
  then have "distinct (concat nl)" "set (concat nl) = set (concat (ht_list t))" "length (concat nl) = length (concat (ht_list t))"
    using assms(2) mset_eq_imp_distinct_iff mset_eq_setD mset_eq_length by blast+
  with nl n assms(3,4) have "table_ok hs (t\<lparr>ht_list := nl\<rparr>) (set (concat (ht_list t)))" by (simp add: table_ok_def)
  with nl(1) assms(3) show ?thesis by (simp add: Resize_def)
qed

lemma make_HandleTable_ok: "\<exists>t. make_HandleTable hs = Some t \<and> table_ok hs t {}"
  using Resize_ok [of hs "\<lparr>ht_elems = 0, ht_list = []\<rparr>"] by (simp add: make_HandleTable_def placed_def)

lemma Insert_ok:
  assumes "table_ok hs t S" "deref hs e = Some h" "e \<notin> S" "card S < 2 ^ 31"
  obtains r t' where "HandleTable_Insert hs e t = Some (r, t')" "table_ok hs t' (insert e (S - set_option r))"
    "hit hs S (h_key h) (h_hash h) r"
proof -
  obtain b i where f: "FindPointer hs (h_key h) (h_hash h) t = Some (b, i)" "b < length (ht_list t)" "i \<le> length (ht_list t ! b)"
    "b = bucket_of (length (ht_list t)) (h_hash h)" "hit hs S (h_key h) (h_hash h) (entry_at t b i)"
    by (rule FindPointer_ok [OF assms(1), of "h_key h" "h_hash h"])
  note ok = assms(1) [unfolded table_ok_def]
  have id: "ident hs e = Some (h_key h, h_hash h)" using assms(2) by (simp add: ident_def)
  show ?thesis
  proof (cases "entry_at t b i")
    case (Some old)
    then have i: "i < length (ht_list t ! b)" "old = ht_list t ! b ! i" by (auto simp: entry_at_def split: if_splits)
    have old: "old \<in> S" "ident hs old = Some (h_key h, h_hash h)" using f(5) Some by (simp_all add: hit_def)
    let ?ys = "(ht_list t ! b)[i := e]" let ?t = "t\<lparr>ht_list := (ht_list t)[b := ?ys]\<rparr>"
    have "ht_list t ! b = take i (ht_list t ! b) @ [old] @ drop (Suc i) (ht_list t ! b)" using i by (simp add: id_take_nth_drop [symmetric])
    from concat_replace [OF f(2) this] obtain A C where
      "concat (ht_list t) = A @ [old] @ C" "\<And>m'. concat ((ht_list t)[b := take i (ht_list t ! b) @ m' @ drop (Suc i) (ht_list t ! b)]) = A @ m' @ C"
      by blast
    from this(1) this(2) [of "[e]"] have c: "concat (ht_list t) = A @ old # C" "concat ((ht_list t)[b := ?ys]) = A @ e # C"
      using upd_conv_take_nth_drop [OF i(1), of e] by simp_all
    have "distinct (concat ((ht_list t)[b := ?ys]))" "set (concat ((ht_list t)[b := ?ys])) = insert e (S - {old})"
      "length (concat ((ht_list t)[b := ?ys])) = length (concat (ht_list t))"
      using ok assms(3) unfolding c by auto
    moreover have "placed hs ((ht_list t)[b := ?ys])"
      using ok f(2,4) assms(2) placed_chain [of hs "ht_list t" b] by (intro placed_update) (auto dest: set_update_subset_insert [THEN subsetD])
    moreover have "inj_on (ident hs) (insert e (S - {old}))"
      using ok old id by (auto simp: inj_on_def)
    ultimately have "table_ok hs ?t (insert e (S - set_option (Some old)))" using ok by (simp add: table_ok_def)
    with f(1,5) Some assms(2) show ?thesis by (intro that [of "Some old" ?t]) (simp_all add: HandleTable_Insert_def)
  next
    case None
    let ?ys = "ht_list t ! b @ [e]" let ?t = "t\<lparr>ht_list := (ht_list t)[b := ?ys], ht_elems := ht_elems t + 1\<rparr>"
    from concat_replace [OF f(2), of "ht_list t ! b" "[]" "[]"] obtain A C where
      "concat (ht_list t) = A @ [] @ C" "\<And>m'. concat ((ht_list t)[b := ht_list t ! b @ m' @ []]) = A @ m' @ C" by auto
    from this(1) this(2) [of "[e]"] have c: "concat (ht_list t) = A @ C" "concat ((ht_list t)[b := ?ys]) = A @ e # C" by simp_all
    have d: "distinct (concat ((ht_list t)[b := ?ys]))" "set (concat ((ht_list t)[b := ?ys])) = insert e S"
      "length (concat ((ht_list t)[b := ?ys])) = Suc (length (concat (ht_list t)))"
      using ok assms(3) unfolding c by auto
    moreover have p: "placed hs ((ht_list t)[b := ?ys])"
      using ok f(2,4) assms(2) placed_chain [of hs "ht_list t" b] by (intro placed_update) auto
    moreover have inj: "inj_on (ident hs) (insert e S)"
      using ok f(5) None id assms(3) by (auto simp: inj_on_def hit_def dest: bspec)
    ultimately have "table_ok hs ?t (insert e S)" using ok by (simp add: table_ok_def)
    moreover have "\<exists>t'. Resize hs ?t = Some t' \<and> table_ok hs t' (insert e S)"
    proof -
      have "ht_elems ?t \<le> 2 ^ 31" using ok assms(4) distinct_card [of "concat (ht_list t)"] by simp
      with Resize_ok [of hs ?t] p d inj ok show ?thesis by simp
    qed
    ultimately obtain t' where "(if ht_elems ?t > length (ht_list ?t) then Resize hs ?t else Some ?t) = Some t'" "table_ok hs t' (insert e S)"
      by (metis (no_types, lifting))
    with f(1,5) None assms(2) show ?thesis by (intro that [of None t']) (auto simp: HandleTable_Insert_def Let_def)
  qed
qed

lemma table_ok_cong:
  assumes t: "table_ok hs t S" and c: "\<forall>e \<in> S. ident hs' e = ident hs e"
  shows "table_ok hs' t S"
proof -
  have "\<exists>h. deref hs' e = Some h \<and> bucket_of (length (ht_list t)) (h_hash h) = b"
    if be: "b < length (ht_list t)" "e \<in> set (ht_list t ! b)" for b e
  proof -
    have "ht_list t ! b \<in> set (ht_list t)" "set (concat (ht_list t)) = S" using t be(1) by (simp_all add: table_ok_def)
    then have "e \<in> S" using be(2) unfolding set_concat by (metis UN_I)
    obtain h where h: "deref hs e = Some h" "bucket_of (length (ht_list t)) (h_hash h) = b"
      using placed_chain [OF _ be, of hs] t unfolding table_ok_def by blast
    then have "ident hs' e = Some (h_key h, h_hash h)" using c \<open>e \<in> S\<close> by (simp add: ident_def)
    then obtain h' where "deref hs' e = Some h'" "h_hash h' = h_hash h" by (auto simp: ident_def)
    with h(2) show ?thesis by simp
  qed
  then have "placed hs' (ht_list t)" by (simp add: placed_def)
  moreover have "inj_on (ident hs') S \<longleftrightarrow> inj_on (ident hs) S" using c by (intro inj_on_cong) blast
  ultimately show ?thesis using t by (simp add: table_ok_def)
qed

subsection \<open>The invariant of a shard\<close>

definition cached :: "'v handles \<Rightarrow> nat set" where
  "cached hs = {e. \<exists>h. deref hs e = Some h \<and> h_in_cache h}"

definition refs_ok :: "'v handles \<Rightarrow> nat multiset \<Rightarrow> bool" where
  "refs_ok hs held \<longleftrightarrow>
     (\<forall>e. case deref hs e of None \<Rightarrow> e \<notin># held
      | Some h \<Rightarrow> unat (h_refs h) = count held e + (if h_in_cache h then 1 else 0) \<and> h_refs h \<noteq> 0)"

definition charge_of :: "'v handles \<Rightarrow> nat \<Rightarrow> 64 word" where
  "charge_of hs e = (case deref hs e of Some h \<Rightarrow> h_charge h | None \<Rightarrow> 0)"

text \<open>All that was ever inserted, by handle; the deleter has been called once for each handle that is freed.\<close>

definition log_ok :: "'v LRUCache \<Rightarrow> (slice \<times> 'v) list \<Rightarrow> bool" where
  "log_ok c ins \<longleftrightarrow> length (lc_handles c) = length ins \<and>
     (\<forall>e h. deref (lc_handles c) e = Some h \<longrightarrow> (h_key h, h_value h) = ins ! e) \<and>
     (\<exists>ds. distinct ds \<and> set ds = {e. e < length ins \<and> deref (lc_handles c) e = None} \<and> lc_deleted c = map ((!) ins) ds)"

text \<open>\<open>X\<close> are the handles in the cache that are not in the table, between two steps of an operation.\<close>

definition cache_inv :: "'v LRUCache \<Rightarrow> nat multiset \<Rightarrow> (slice \<times> 'v) list \<Rightarrow> nat set \<Rightarrow> bool" where
  "cache_inv c held ins X \<longleftrightarrow> refs_ok (lc_handles c) held \<and>
     distinct (lc_lru c) \<and> set (lc_lru c) = {e \<in> cached (lc_handles c). e \<notin># held} \<and>
     distinct (lc_in_use c) \<and> set (lc_in_use c) = {e \<in> cached (lc_handles c). e \<in># held} \<and>
     X \<subseteq> cached (lc_handles c) \<and> table_ok (lc_handles c) (lc_table c) (cached (lc_handles c) - X) \<and>
     lc_usage c = sum (charge_of (lc_handles c)) (cached (lc_handles c)) \<and> log_ok c ins"

lemma cache_invD:
  assumes "cache_inv c held ins X"
  shows "refs_ok (lc_handles c) held" "distinct (lc_lru c)" "set (lc_lru c) = {e \<in> cached (lc_handles c). e \<notin># held}"
    "distinct (lc_in_use c)" "set (lc_in_use c) = {e \<in> cached (lc_handles c). e \<in># held}" "X \<subseteq> cached (lc_handles c)"
    "table_ok (lc_handles c) (lc_table c) (cached (lc_handles c) - X)"
    "lc_usage c = sum (charge_of (lc_handles c)) (cached (lc_handles c))" "log_ok c ins"
  using assms by (simp_all add: cache_inv_def)

lemma finite_cached [simp]: "finite (cached hs)"
proof -
  have "cached hs \<subseteq> {..<length hs}" by (auto simp: cached_def deref_def split: if_splits)
  then show ?thesis by (rule finite_subset) simp
qed

lemma deref_update: "deref (hs[e := h]) x = (if x = e \<and> e < length hs then h else deref hs x)"
  by (auto simp: deref_def)

lemma deref_length: "deref hs e = Some h \<Longrightarrow> e < length hs"
  by (auto simp: deref_def split: if_splits)

lemma deref_append: "deref (hs @ [h]) x = (if x = length hs then h else deref hs x)"
  by (auto simp: deref_def nth_append)

lemma cached_update:
  "e < length hs \<Longrightarrow> cached (hs[e := ho]) = (case ho of Some h \<Rightarrow> if h_in_cache h then insert e (cached hs) else cached hs - {e} | None \<Rightarrow> cached hs - {e})"
  by (auto simp: cached_def deref_update split: option.splits if_splits)

lemma ident_update: "ident (hs[e := ho]) x = (if x = e \<and> e < length hs then map_option (\<lambda>h. (h_key h, h_hash h)) ho else ident hs x)"
  by (auto simp: ident_def deref_update)

lemma refs_okD:
  "refs_ok hs held \<Longrightarrow> deref hs e = Some h \<Longrightarrow> unat (h_refs h) = count held e + (if h_in_cache h then 1 else 0) \<and> h_refs h \<noteq> 0"
  "refs_ok hs held \<Longrightarrow> e \<in># held \<Longrightarrow> \<exists>h. deref hs e = Some h"
  by (auto simp: refs_ok_def split: option.splits dest: spec [of _ e])

lemma LRU_Remove_inv:
  assumes "cache_inv c held ins X" "e \<in> cached (lc_handles c)"
  shows "LRU_Remove e c = Some (if e \<in># held then c\<lparr>lc_in_use := remove1 e (lc_in_use c)\<rparr> else c\<lparr>lc_lru := remove1 e (lc_lru c)\<rparr>)"
  using assms by (auto simp: LRU_Remove_def cache_inv_def)

lemma log_ok_update:
  assumes "log_ok c ins" "deref (lc_handles c) e = Some h" "h_key h' = h_key h" "h_value h' = h_value h"
    "lc_handles c' = (lc_handles c)[e := Some h']" "lc_deleted c' = lc_deleted c"
  shows "log_ok c' ins"
  using assms deref_length [OF assms(2)] unfolding log_ok_def
  by (auto simp: deref_update split: if_splits)

lemma log_ok_free:
  assumes "log_ok c ins" "deref (lc_handles c) e = Some h"
    "lc_handles c' = (lc_handles c)[e := None]" "lc_deleted c' = lc_deleted c @ [(h_key h, h_value h)]"
  shows "log_ok c' ins"
proof -
  note e = deref_length [OF assms(2)]
  obtain ds where ds: "distinct ds" "set ds = {e. e < length ins \<and> deref (lc_handles c) e = None}" "lc_deleted c = map ((!) ins) ds"
    using assms(1) by (auto simp: log_ok_def)
  have "distinct (ds @ [e])" "set (ds @ [e]) = {x. x < length ins \<and> deref (lc_handles c') x = None}"
    "lc_deleted c' = map ((!) ins) (ds @ [e])"
    using ds assms e by (auto simp: log_ok_def deref_update)
  moreover have "length (lc_handles c') = length ins" "\<forall>e h. deref (lc_handles c') e = Some h \<longrightarrow> (h_key h, h_value h) = ins ! e"
    using assms by (auto simp: log_ok_def deref_update split: if_splits)
  ultimately show ?thesis unfolding log_ok_def by blast
qed

lemma charge_update:
  assumes "deref hs e = Some h" "h_charge h' = h_charge h"
  shows "charge_of (hs[e := Some h']) = charge_of hs"
  using assms deref_length [OF assms(1)] by (auto simp: charge_of_def deref_update fun_eq_iff)

lemma cached_same:
  assumes "deref hs e = Some h" "h_in_cache h' = h_in_cache h"
  shows "cached (hs[e := Some h']) = cached hs"
  using assms deref_length [OF assms(1)] by (auto simp: cached_update) (auto simp: cached_def)

lemma ident_same:
  assumes "deref hs e = Some h" "h_key h' = h_key h" "h_hash h' = h_hash h"
  shows "ident (hs[e := Some h']) = ident hs"
  using assms deref_length [OF assms(1)] by (auto simp: ident_update fun_eq_iff) (auto simp: ident_def)

lemmas same_handle = charge_update cached_same ident_same

text \<open>A handle changes its references only.\<close>

lemma refs_update:
  assumes "refs_ok hs held" "deref hs e = Some h" "\<forall>x. x \<noteq> e \<longrightarrow> count held' x = count held x"
    "unat (h_refs h') = count held' e + (if h_in_cache h' then 1 else 0)" "h_refs h' \<noteq> 0"
  shows "refs_ok (hs[e := Some h']) held'"
  unfolding refs_ok_def
proof
  fix x
  show "case deref (hs[e := Some h']) x of None \<Rightarrow> x \<notin># held'
      | Some h \<Rightarrow> unat (h_refs h) = count held' x + (if h_in_cache h then 1 else 0) \<and> h_refs h \<noteq> 0"
  proof (cases "x = e")
    case False
    then have "count held' x = count held x" using assms(3) by blast
    moreover have "case deref hs x of None \<Rightarrow> x \<notin># held
      | Some h \<Rightarrow> unat (h_refs h) = count held x + (if h_in_cache h then 1 else 0) \<and> h_refs h \<noteq> 0"
      using assms(1) by (simp add: refs_ok_def)
    ultimately show ?thesis using False by (auto simp: deref_update not_in_iff split: option.splits)
  qed (use assms(4,5) deref_length [OF assms(2)] in \<open>simp add: deref_update\<close>)
qed

lemma unat_plus_one: "unat (w :: 32 word) + 1 < 2 ^ 32 \<Longrightarrow> unat (w + 1) = unat w + 1"
  by (simp add: unat_word_ariths)

lemma unat_minus_one_word: "w \<noteq> 0 \<Longrightarrow> unat (w - 1 :: 32 word) = unat w - 1"
  by (rule unat_minus_one)

lemma Ref_inv:
  assumes "cache_inv c held ins {}" "e \<in> cached (lc_handles c)" "size held + 2 < 2 ^ 32"
  shows "\<exists>c'. Ref e c = Some c' \<and> cache_inv c' (add_mset e held) ins {} \<and>
    ident (lc_handles c') = ident (lc_handles c) \<and> cached (lc_handles c') = cached (lc_handles c) \<and>
    lc_capacity c' = lc_capacity c \<and> lc_usage c' = lc_usage c"
proof -
  note inv = assms(1) [unfolded cache_inv_def]
  obtain h where h: "deref (lc_handles c) e = Some h" "h_in_cache h" using assms(2) by (auto simp: cached_def)
  have r: "unat (h_refs h) = count held e + 1" using refs_okD(1) [of _ held e h] inv h by auto
  have le: "count held e \<le> size held" by (rule count_le_size)
  have r1: "h_refs h = 1 \<longleftrightarrow> e \<notin># held"
    using r by (simp add: word_unat_eq_iff not_in_iff)
  let ?h = "h\<lparr>h_refs := h_refs h + 1\<rparr>" and ?hs = "(lc_handles c)[e := Some (h\<lparr>h_refs := h_refs h + 1\<rparr>)]"
  have r': "unat (h_refs h + 1) = count held e + 2" using r le assms(3) unat_plus_one [of "h_refs h"] by simp
  then have "h_refs h + 1 \<noteq> 0" by (metis add_is_0 unat_0 zero_neq_numeral)
  then have "refs_ok ?hs (add_mset e held)"
    using h r' by (intro refs_update [OF cache_invD(1) [OF assms(1)] h(1)]) simp_all
  moreover have same: "cached ?hs = cached (lc_handles c)" "charge_of ?hs = charge_of (lc_handles c)" "ident ?hs = ident (lc_handles c)"
    using h by (auto intro!: same_handle)
  moreover have "table_ok ?hs (lc_table c) (cached (lc_handles c))"
    using table_ok_cong [OF cache_invD(7) [OF assms(1)], of ?hs] same(3) by simp
  ultimately have main: "cache_inv c' (add_mset e held) ins {}"
    if "lc_handles c' = ?hs" "lc_table c' = lc_table c" "lc_usage c' = lc_usage c" "lc_deleted c' = lc_deleted c"
      "distinct (lc_lru c')" "set (lc_lru c') = set (lc_lru c) - {e}" "distinct (lc_in_use c')" "set (lc_in_use c') = insert e (set (lc_in_use c))" for c'
    using that inv h assms(2) log_ok_update [of c ins e h ?h c'] by (auto simp: cache_inv_def)
  show ?thesis
  proof (cases "e \<in># held")
    case True
    with r1 h have "Ref e c = Some (put_handle e ?h c)" by (simp add: Ref_def)
    moreover have "cache_inv (put_handle e ?h c) (add_mset e held) ins {}"
      by (rule main) (use inv assms(2) True in \<open>auto simp: put_handle_def\<close>)
    ultimately show ?thesis using same by (simp add: put_handle_def)
  next
    case False
    let ?c = "put_handle e ?h (LRU_Append_in_use e (c\<lparr>lc_lru := remove1 e (lc_lru c)\<rparr>))"
    have "Ref e c = Some ?c" using r1 h False LRU_Remove_inv [OF assms(1,2)] by (simp add: Ref_def)
    moreover have "cache_inv ?c (add_mset e held) ins {}"
      by (rule main) (use inv assms(2) False in \<open>auto simp: put_handle_def LRU_Append_in_use_def\<close>)
    ultimately show ?thesis using same by (simp add: put_handle_def LRU_Append_in_use_def)
  qed
qed

text \<open>A handle that is neither held nor in the cache is freed.\<close>

lemma refs_free:
  assumes "refs_ok hs held" "e < length hs" "e \<notin># held'" "\<forall>x. x \<noteq> e \<longrightarrow> count held' x = count held x"
  shows "refs_ok (hs[e := None]) held'"
  unfolding refs_ok_def
proof
  fix x
  have "case deref hs x of None \<Rightarrow> x \<notin># held
    | Some h \<Rightarrow> unat (h_refs h) = count held x + (if h_in_cache h then 1 else 0) \<and> h_refs h \<noteq> 0"
    using assms(1) by (simp add: refs_ok_def)
  then show "case deref (hs[e := None]) x of None \<Rightarrow> x \<notin># held'
    | Some h \<Rightarrow> unat (h_refs h) = count held' x + (if h_in_cache h then 1 else 0) \<and> h_refs h \<noteq> 0"
    using assms(2-4) by (cases "x = e") (auto simp: deref_update not_in_iff split: option.splits)
qed

lemma free_frame:
  assumes "deref hs e = Some h" "\<not> h_in_cache h"
  shows "cached (hs[e := None]) = cached hs" "sum (charge_of (hs[e := None])) (cached hs) = sum (charge_of hs) (cached hs)"
    "\<forall>x \<in> cached hs. ident (hs[e := None]) x = ident hs x"
proof -
  have e: "e \<notin> cached hs" using assms by (auto simp: cached_def)
  then show "cached (hs[e := None]) = cached hs" using deref_length [OF assms(1)] by (simp add: cached_update)
  show "sum (charge_of (hs[e := None])) (cached hs) = sum (charge_of hs) (cached hs)"
    using e by (intro sum.cong) (auto simp: charge_of_def deref_update)
  show "\<forall>x \<in> cached hs. ident (hs[e := None]) x = ident hs x" using e by (auto simp: ident_update)
qed

lemma Unref_inv:
  assumes "cache_inv c held ins {}" "e \<in># held"
  shows "\<exists>c'. Unref e c = Some c' \<and> cache_inv c' (held - {#e#}) ins {} \<and>
    cached (lc_handles c') = cached (lc_handles c) \<and> (\<forall>x \<in> cached (lc_handles c). ident (lc_handles c') x = ident (lc_handles c) x) \<and>
    lc_capacity c' = lc_capacity c \<and> lc_usage c' = lc_usage c"
proof -
  note inv = assms(1) [unfolded cache_inv_def]
  obtain h where h: "deref (lc_handles c) e = Some h" using refs_okD(2) [OF cache_invD(1) [OF assms(1)] assms(2)] by blast
  have r: "unat (h_refs h) = count held e + (if h_in_cache h then 1 else 0)" "h_refs h \<noteq> 0"
    using refs_okD(1) [OF cache_invD(1) [OF assms(1)] h] by auto
  have pos: "count held e \<ge> 1" using assms(2) by (simp add: Suc_le_eq)
  let ?h = "h\<lparr>h_refs := h_refs h - 1\<rparr>" and ?hs = "(lc_handles c)[e := Some (h\<lparr>h_refs := h_refs h - 1\<rparr>)]" and ?held = "held - {#e#}"
  have r': "unat (h_refs h - 1) = count ?held e + (if h_in_cache h then 1 else 0)"
    using r pos unat_minus_one_word [OF r(2)] by auto
  have other: "\<forall>x. x \<noteq> e \<longrightarrow> count ?held x = count held x" by auto
  have mem: "x \<in># ?held \<longleftrightarrow> x \<in># held" if "x \<noteq> e" for x using that other by (metis count_greater_zero_iff)
  have unf: "Unref e c = (if h_refs h - 1 = 0 then (if h_in_cache h then None
      else Some (put_handle e ?h c\<lparr>lc_deleted := lc_deleted c @ [(h_key h, h_value h)], lc_handles := ?hs[e := None]\<rparr>))
    else if h_in_cache h \<and> h_refs h - 1 = 1 then map_option (LRU_Append_lru e) (LRU_Remove e (put_handle e ?h c)) else Some (put_handle e ?h c))"
    using h r(2) by (simp add: Unref_def Let_def put_handle_def word_greater_zero_iff)
  show ?thesis
  proof (cases "h_refs h - 1 = 0")
    case True
    then have z: "count ?held e = 0" "\<not> h_in_cache h" using r' by (auto split: if_splits)
    let ?c = "put_handle e ?h c\<lparr>lc_deleted := lc_deleted c @ [(h_key h, h_value h)], lc_handles := ?hs[e := None]\<rparr>"
    have hs: "lc_handles ?c = (lc_handles c)[e := None]" by simp
    note ff = free_frame [OF h z(2)]
    have ec: "e \<notin> cached (lc_handles c)" using h z(2) by (auto simp: cached_def)
    have eqs: "x \<in># ?held \<longleftrightarrow> x \<in># held" if "x \<in> cached (lc_handles c)" for x using mem [of x] ec that by metis
    have "refs_ok (lc_handles ?c) ?held"
      unfolding hs using z(1) deref_length [OF h] other by (intro refs_free [OF cache_invD(1) [OF assms(1)]]) (simp_all add: not_in_iff)
    moreover have "table_ok (lc_handles ?c) (lc_table c) (cached (lc_handles c))"
      unfolding hs using table_ok_cong [OF cache_invD(7) [OF assms(1)], of "(lc_handles c)[e := None]"] ff(3) by simp
    moreover have "log_ok ?c ins" by (rule log_ok_free [OF cache_invD(9) [OF assms(1)] h]) (simp_all add: put_handle_def)
    ultimately have "cache_inv ?c ?held ins {}"
      using inv ff eqs by (simp add: cache_inv_def put_handle_def cong: conj_cong)
    with unf True z(2) ff show ?thesis by (simp add: put_handle_def)
  next
    case False
    have refs: "refs_ok ?hs ?held" using r' False other by (intro refs_update [OF cache_invD(1) [OF assms(1)] h]) simp_all
    have same: "cached ?hs = cached (lc_handles c)" "charge_of ?hs = charge_of (lc_handles c)" "ident ?hs = ident (lc_handles c)"
      using h by (auto intro!: same_handle)
    have tab: "table_ok ?hs (lc_table c) (cached (lc_handles c))"
      using table_ok_cong [OF cache_invD(7) [OF assms(1)], of ?hs] same(3) by simp
    have log: "log_ok c' ins" if "lc_handles c' = ?hs" "lc_deleted c' = lc_deleted c" for c'
      using that by (intro log_ok_update [OF cache_invD(9) [OF assms(1)] h, of ?h]) simp_all
    show ?thesis
    proof (cases "h_in_cache h \<and> h_refs h - 1 = 1")
      case True
      then have z: "e \<notin># ?held" using r' by (simp add: not_in_iff)
      have ec: "e \<in> cached (lc_handles c)" using h True by (auto simp: cached_def)
      have "e \<notin> set (lc_lru c)" "e \<in> set (lc_in_use c)" using inv ec assms(2) by auto
      then have rm: "LRU_Remove e (put_handle e ?h c) = Some ((put_handle e ?h c)\<lparr>lc_in_use := remove1 e (lc_in_use c)\<rparr>)"
        by (simp add: LRU_Remove_def put_handle_def)
      let ?c = "LRU_Append_lru e ((put_handle e ?h c)\<lparr>lc_in_use := remove1 e (lc_in_use c)\<rparr>)"
      have "x \<in> insert e (set (lc_lru c)) \<longleftrightarrow> x \<in> cached (lc_handles c) \<and> x \<notin># ?held"
        "x \<in> set (lc_in_use c) - {e} \<longleftrightarrow> x \<in> cached (lc_handles c) \<and> x \<in># ?held" for x
        unfolding cache_invD(3,5) [OF assms(1)] using mem [of x] z ec by (cases "x = e"; simp)+
      then have "insert e (set (lc_lru c)) = {x \<in> cached (lc_handles c). x \<notin># ?held}"
        "set (lc_in_use c) - {e} = {x \<in> cached (lc_handles c). x \<in># ?held}" by blast+
      then have "cache_inv ?c ?held ins {}"
        using refs same tab log [of ?c] \<open>e \<notin> set (lc_lru c)\<close> cache_invD(2,4,8) [OF assms(1)]
        by (simp add: cache_inv_def put_handle_def LRU_Append_lru_def)
      with unf False True rm same show ?thesis by (simp add: put_handle_def LRU_Append_lru_def)
    next
      case notlast: False
      have "e \<in># ?held" if "h_in_cache h"
      proof -
        have "unat (h_refs h - 1) \<noteq> unat (1 :: 32 word)" using that notlast by (simp only: word_unat_eq_iff simp_thms not_False_eq_True)
        with r' that have "count ?held e \<noteq> 0" by simp
        then show ?thesis by (metis not_in_iff)
      qed
      then have "x \<in># ?held \<longleftrightarrow> x \<in># held" if "x \<in> cached (lc_handles c)" for x
        using mem [of x] that h assms(2) by (cases "x = e") (auto simp: cached_def)
      then have "cache_inv (put_handle e ?h c) ?held ins {}"
        using inv refs same tab log [of "put_handle e ?h c"] by (simp add: cache_inv_def put_handle_def cong: conj_cong)
      moreover have "Unref e c = Some (put_handle e ?h c)" unfolding unf if_not_P [OF False] if_not_P [OF notlast] ..
      ultimately show ?thesis using same by (simp add: put_handle_def)
    qed
  qed
qed

lemma FinishErase_inv:
  assumes "cache_inv c held ins {e}"
  shows "\<exists>c'. FinishErase (Some e) c = Some (True, c') \<and> cache_inv c' held ins {} \<and>
    cached (lc_handles c') = cached (lc_handles c) - {e} \<and>
    (\<forall>x \<in> cached (lc_handles c'). ident (lc_handles c') x = ident (lc_handles c) x) \<and>
    lc_capacity c' = lc_capacity c \<and> lc_lru c' = remove1 e (lc_lru c)"
proof -
  note D = cache_invD [OF assms]
  have ec: "e \<in> cached (lc_handles c)" using D(6) by simp
  then obtain h where h: "deref (lc_handles c) e = Some h" "h_in_cache h" by (auto simp: cached_def)
  note el = deref_length [OF h(1)]
  have r: "unat (h_refs h) = count held e + 1" "h_refs h \<noteq> 0" using refs_okD(1) [OF D(1) h(1)] h(2) by auto
  have r': "unat (h_refs h - 1) = count held e" using r unat_minus_one_word [OF r(2)] by simp
  let ?rm = "if e \<in># held then c\<lparr>lc_in_use := remove1 e (lc_in_use c)\<rparr> else c\<lparr>lc_lru := remove1 e (lc_lru c)\<rparr>"
  let ?h = "h\<lparr>h_in_cache := False, h_refs := h_refs h - 1\<rparr>"
  define ho where "ho = (if h_refs h - 1 = 0 then None else Some ?h)"
  define c' where "c' = ?rm\<lparr>lc_usage := lc_usage c - h_charge h, lc_handles := (lc_handles c)[e := ho],
      lc_deleted := lc_deleted c @ (if h_refs h - 1 = 0 then [(h_key h, h_value h)] else [])\<rparr>"
  have fe: "FinishErase (Some e) c = Some (True, c')"
    using h LRU_Remove_inv [OF assms ec] el r(2)
    by (simp add: FinishErase_def Unref_def Let_def put_handle_def deref_update c'_def ho_def word_greater_zero_iff)
  have cached: "cached (lc_handles c') = cached (lc_handles c) - {e}"
    using el by (simp add: c'_def ho_def cached_update)
  have refs: "refs_ok (lc_handles c') held"
  proof (cases "h_refs h - 1 = 0")
    case True
    then have "count held e = 0" using r' by simp
    then show ?thesis using True el by (simp add: c'_def ho_def refs_free [OF D(1)] not_in_iff)
  next
    case False
    then show ?thesis using r' refs_update [OF D(1) h(1), of held ?h] by (simp add: c'_def ho_def)
  qed
  have ident: "\<forall>x \<in> cached (lc_handles c'). ident (lc_handles c') x = ident (lc_handles c) x"
    unfolding cached by (simp add: c'_def ident_update)
  have tab: "table_ok (lc_handles c') (lc_table c') (cached (lc_handles c'))"
    using table_ok_cong [OF D(7), of "lc_handles c'"] ident unfolding cached by (simp add: c'_def)
  have "sum (charge_of (lc_handles c')) (cached (lc_handles c) - {e}) = sum (charge_of (lc_handles c)) (cached (lc_handles c) - {e})"
    by (intro sum.cong) (auto simp: c'_def charge_of_def deref_update)
  moreover have "sum (charge_of (lc_handles c)) (cached (lc_handles c)) = h_charge h + sum (charge_of (lc_handles c)) (cached (lc_handles c) - {e})"
    using sum.remove [OF finite_cached ec, of "charge_of (lc_handles c)"] h by (simp add: charge_of_def)
  ultimately have usage: "lc_usage c' = sum (charge_of (lc_handles c')) (cached (lc_handles c'))"
    unfolding cached using D(8) by (simp add: c'_def)
  have log: "log_ok c' ins"
  proof (cases "h_refs h - 1 = 0")
    case True
    then show ?thesis by (intro log_ok_free [OF D(9) h(1)]) (simp_all add: c'_def ho_def)
  next
    case False
    then show ?thesis by (intro log_ok_update [OF D(9) h(1), of ?h]) (simp_all add: c'_def ho_def)
  qed
  have lru: "lc_lru c' = remove1 e (lc_lru c)" "lc_in_use c' = remove1 e (lc_in_use c)"
    using D(3,5) by (auto simp: c'_def remove1_idem)
  then have "set (lc_lru c') = {x \<in> cached (lc_handles c'). x \<notin># held}" "set (lc_in_use c') = {x \<in> cached (lc_handles c'). x \<in># held}"
    unfolding cached using D(2-5) by auto
  then have "cache_inv c' held ins {}" using refs lru D(2,4) tab usage log by (simp add: cache_inv_def)
  with fe cached ident lru show ?thesis by (simp add: c'_def)
qed

text \<open>Removing an entry from the table and finishing its erasure; nothing happens without an entry.\<close>

lemma erase_inv:
  assumes "cache_inv c held ins {}"
  shows "\<exists>r t c'. HandleTable_Remove (lc_handles c) key hash (lc_table c) = Some (r, t) \<and>
    FinishErase r (c\<lparr>lc_table := t\<rparr>) = Some (r \<noteq> None, c') \<and> cache_inv c' held ins {} \<and>
    hit (lc_handles c) (cached (lc_handles c)) key hash r \<and> cached (lc_handles c') = cached (lc_handles c) - set_option r \<and>
    (\<forall>x \<in> cached (lc_handles c'). ident (lc_handles c') x = ident (lc_handles c) x) \<and>
    lc_capacity c' = lc_capacity c \<and> lc_lru c' = (case r of None \<Rightarrow> lc_lru c | Some e \<Rightarrow> remove1 e (lc_lru c))"
proof -
  note D = cache_invD [OF assms]
  from D(7) have T: "table_ok (lc_handles c) (lc_table c) (cached (lc_handles c))" by simp
  obtain r t where r: "HandleTable_Remove (lc_handles c) key hash (lc_table c) = Some (r, t)"
    "table_ok (lc_handles c) t (cached (lc_handles c) - set_option r)" "hit (lc_handles c) (cached (lc_handles c)) key hash r"
    by (rule Remove_ok [OF T])
  show ?thesis
  proof (cases r)
    case None
    then have "cache_inv (c\<lparr>lc_table := t\<rparr>) held ins {}" using assms r(2) by (simp add: cache_inv_def log_ok_def)
    with r None show ?thesis by (simp add: FinishErase_def)
  next
    case (Some e)
    then have "cache_inv (c\<lparr>lc_table := t\<rparr>) held ins {e}" using assms r(2,3) by (simp add: cache_inv_def log_ok_def hit_def)
    from FinishErase_inv [OF this] r Some show ?thesis by simp
  qed
qed

subsection \<open>The operations keep it\<close>

definition shrunk :: "'v LRUCache \<Rightarrow> 'v LRUCache \<Rightarrow> bool" where
  "shrunk c c' \<longleftrightarrow> cached (lc_handles c') \<subseteq> cached (lc_handles c) \<and>
     (\<forall>x \<in> cached (lc_handles c'). ident (lc_handles c') x = ident (lc_handles c) x) \<and> lc_capacity c' = lc_capacity c"

lemma shrunk_refl: "shrunk c c"
  by (simp add: shrunk_def)

lemma shrunk_trans: "shrunk a b \<Longrightarrow> shrunk b c \<Longrightarrow> shrunk a c"
  by (auto simp: shrunk_def)

lemma erase_oldest_inv:
  assumes "cache_inv c held ins {}" "lc_lru c \<noteq> []"
  shows "\<exists>c'. erase_oldest c = Some c' \<and> cache_inv c' held ins {} \<and> shrunk c c' \<and> lc_lru c' = tl (lc_lru c) \<and>
    cached (lc_handles c') = cached (lc_handles c) - {hd (lc_lru c)}"
proof -
  note D = cache_invD [OF assms(1)]
  let ?e = "hd (lc_lru c)"
  have e: "?e \<in> cached (lc_handles c)" "?e \<notin># held" using D(3) hd_in_set [OF assms(2)] by auto
  then obtain h where h: "deref (lc_handles c) ?e = Some h" "h_in_cache h" by (auto simp: cached_def)
  have "unat (h_refs h) = unat (1 :: 32 word)" using refs_okD(1) [OF D(1) h(1)] h(2) e(2) by (simp add: not_in_iff)
  then have r1: "h_refs h = 1" by (simp only: word_unat_eq_iff)
  have id: "ident (lc_handles c) ?e = Some (h_key h, h_hash h)" using h by (simp add: ident_def)
  from erase_inv [OF assms(1), of "h_key h" "h_hash h"] obtain r t c' where
    c': "HandleTable_Remove (lc_handles c) (h_key h) (h_hash h) (lc_table c) = Some (r, t)"
    "FinishErase r (c\<lparr>lc_table := t\<rparr>) = Some (r \<noteq> None, c')" "cache_inv c' held ins {}"
    "hit (lc_handles c) (cached (lc_handles c)) (h_key h) (h_hash h) r" "cached (lc_handles c') = cached (lc_handles c) - set_option r"
    "\<forall>x \<in> cached (lc_handles c'). ident (lc_handles c') x = ident (lc_handles c) x"
    "lc_capacity c' = lc_capacity c" "lc_lru c' = (case r of None \<Rightarrow> lc_lru c | Some e \<Rightarrow> remove1 e (lc_lru c))" by blast
  obtain x where x: "r = Some x" using c'(4) e(1) id by (auto simp: hit_def split: option.splits)
  then have "x \<in> cached (lc_handles c)" "ident (lc_handles c) x = ident (lc_handles c) ?e" using c'(4) id by (simp_all add: hit_def)
  moreover have "inj_on (ident (lc_handles c)) (cached (lc_handles c))" using D(7) by (simp add: table_ok_def)
  ultimately have "x = ?e" using e(1) by (meson inj_onD)
  moreover have "remove1 ?e (lc_lru c) = tl (lc_lru c)" using assms(2) by (cases "lc_lru c") simp_all
  ultimately show ?thesis using c' x h r1 by (auto simp: erase_oldest_def shrunk_def)
qed

lemma evict_loop_inv:
  assumes "cache_inv c held ins {}"
  shows "\<exists>c'. evict_loop c = Some c' \<and> cache_inv c' held ins {} \<and> shrunk c c' \<and>
    {x \<in> cached (lc_handles c). x \<in># held} \<subseteq> cached (lc_handles c') \<and> (lc_usage c' \<le> lc_capacity c' \<or> lc_lru c' = [])"
  using assms
proof (induction "length (lc_lru c)" arbitrary: c rule: less_induct)
  case less
  show ?case
  proof (cases "lc_usage c > lc_capacity c \<and> lc_lru c \<noteq> []")
    case False
    then have "evict_loop c = Some c" by (subst evict_loop.simps) auto
    with False less.prems show ?thesis by (auto simp: shrunk_refl not_less)
  next
    case True
    from erase_oldest_inv [OF less.prems] True obtain c1 where
      c1: "erase_oldest c = Some c1" "cache_inv c1 held ins {}" "shrunk c c1" "lc_lru c1 = tl (lc_lru c)"
      "cached (lc_handles c1) = cached (lc_handles c) - {hd (lc_lru c)}" by blast
    have hd: "hd (lc_lru c) \<notin># held" using cache_invD(3) [OF less.prems] hd_in_set [of "lc_lru c"] True by auto
    have "length (lc_lru c1) < length (lc_lru c)" using c1(4) True by simp
    from less.hyps [OF this c1(2)] obtain c' where
      c': "evict_loop c1 = Some c'" "cache_inv c' held ins {}" "shrunk c1 c'"
      "{x \<in> cached (lc_handles c1). x \<in># held} \<subseteq> cached (lc_handles c')" "lc_usage c' \<le> lc_capacity c' \<or> lc_lru c' = []" by blast
    moreover have "evict_loop c = Some c'" using True c1(1) c'(1) by (subst evict_loop.simps) simp
    moreover have "{x \<in> cached (lc_handles c). x \<in># held} \<subseteq> cached (lc_handles c')" using c'(4) hd unfolding c1(5) by auto
    ultimately show ?thesis using shrunk_trans [OF c1(3)] by blast
  qed
qed

lemma Prune_inv:
  assumes "cache_inv c held ins {}"
  shows "\<exists>c'. LRU_Prune c = Some c' \<and> cache_inv c' held ins {} \<and> shrunk c c' \<and> lc_lru c' = []"
  using assms
proof (induction "length (lc_lru c)" arbitrary: c rule: less_induct)
  case less
  show ?case
  proof (cases "lc_lru c = []")
    case True
    then have "LRU_Prune c = Some c" by (subst LRU_Prune.simps) simp
    with True less.prems show ?thesis using shrunk_refl by blast
  next
    case False
    from erase_oldest_inv [OF less.prems False] obtain c1 where
      c1: "erase_oldest c = Some c1" "cache_inv c1 held ins {}" "shrunk c c1" "lc_lru c1 = tl (lc_lru c)" by blast
    have "length (lc_lru c1) < length (lc_lru c)" using c1(4) False by simp
    from less.hyps [OF this c1(2)] obtain c' where
      "LRU_Prune c1 = Some c'" "cache_inv c' held ins {}" "shrunk c1 c'" "lc_lru c' = []" by blast
    moreover from this(1) have "LRU_Prune c = Some c'" using False c1(1) by (subst LRU_Prune.simps) simp
    ultimately show ?thesis using shrunk_trans [OF c1(3)] by blast
  qed
qed

text \<open>A new handle, in the cache or not.\<close>

lemma refs_append:
  assumes "refs_ok hs held" "unat (h_refs h) = (if h_in_cache h then 2 else 1)" "h_refs h \<noteq> 0"
  shows "refs_ok (hs @ [Some h]) (add_mset (length hs) held)"
proof -
  have "length hs \<notin># held" using refs_okD(2) [OF assms(1)] deref_length by fastforce
  then have z: "count held (length hs) = 0" by (simp add: not_in_iff)
  show ?thesis
    unfolding refs_ok_def
  proof
    fix x
    have "case deref hs x of None \<Rightarrow> x \<notin># held
      | Some h \<Rightarrow> unat (h_refs h) = count held x + (if h_in_cache h then 1 else 0) \<and> h_refs h \<noteq> 0"
      using assms(1) by (simp add: refs_ok_def)
    then show "case deref (hs @ [Some h]) x of None \<Rightarrow> x \<notin># add_mset (length hs) held
      | Some h \<Rightarrow> unat (h_refs h) = count (add_mset (length hs) held) x + (if h_in_cache h then 1 else 0) \<and> h_refs h \<noteq> 0"
      using assms(2,3) z by (cases "x = length hs") (auto simp: deref_append split: option.splits)
  qed
qed

lemma log_append:
  assumes "log_ok c ins" "h_key h = k" "h_value h = v" "lc_handles c' = lc_handles c @ [Some h]" "lc_deleted c' = lc_deleted c"
  shows "log_ok c' (ins @ [(k, v)])"
proof -
  obtain ds where ds: "distinct ds" "set ds = {e. e < length ins \<and> deref (lc_handles c) e = None}" "lc_deleted c = map ((!) ins) ds"
    using assms(1) by (auto simp: log_ok_def)
  have l: "length (lc_handles c) = length ins" using assms(1) by (simp add: log_ok_def)
  have "set ds = {e. e < length (ins @ [(k, v)]) \<and> deref (lc_handles c') e = None}" "lc_deleted c' = map ((!) (ins @ [(k, v)])) ds"
    using ds assms(4,5) l by (auto simp: deref_append nth_append less_Suc_eq)
  then have "\<exists>ds. distinct ds \<and> set ds = {e. e < length (ins @ [(k, v)]) \<and> deref (lc_handles c') e = None} \<and>
    lc_deleted c' = map ((!) (ins @ [(k, v)])) ds" using ds(1) by blast
  moreover have "(h_key x, h_value x) = (ins @ [(k, v)]) ! e" if "deref (lc_handles c') e = Some x" for e x
    using that assms l deref_length [of "lc_handles c" e x] by (auto simp: deref_append log_ok_def nth_append split: if_splits)
  moreover have "length (lc_handles c') = length (ins @ [(k, v)])" using assms(4) l by simp
  ultimately show ?thesis unfolding log_ok_def by blast
qed

lemma fresh_notin: "length hs \<notin> cached hs"
  by (auto simp: cached_def dest: deref_length)

lemma fresh_frame:
  shows "cached (hs @ [Some h]) = (if h_in_cache h then insert (length hs) (cached hs) else cached hs)"
    "x \<in> cached hs \<Longrightarrow> ident (hs @ [Some h]) x = ident hs x" "x \<in> cached hs \<Longrightarrow> charge_of (hs @ [Some h]) x = charge_of hs x"
  by (auto simp: cached_def deref_append ident_def charge_of_def dest: deref_length)

lemma alloc_inv:
  assumes "cache_inv c held ins {}" "h_key h = k" "h_value h = v" "unat (h_refs h) = (if h_in_cache h then 2 else 1)" "h_refs h \<noteq> 0"
    "lc_handles c' = lc_handles c @ [Some h]" "lc_table c' = lc_table c" "lc_deleted c' = lc_deleted c" "lc_lru c' = lc_lru c"
    "lc_in_use c' = lc_in_use c @ (if h_in_cache h then [length (lc_handles c)] else [])"
    "lc_usage c' = lc_usage c + (if h_in_cache h then h_charge h else 0)"
  shows "cache_inv c' (add_mset (length (lc_handles c)) held) (ins @ [(k, v)]) (if h_in_cache h then {length (lc_handles c)} else {})"
proof -
  note D = cache_invD [OF assms(1)]
  let ?e = "length (lc_handles c)" and ?hs = "lc_handles c @ [Some h]" and ?S = "cached (lc_handles c)"
  note F = fresh_frame [where hs = "lc_handles c" and h = h]
  have tab: "table_ok ?hs (lc_table c) ?S"
    using table_ok_cong [of "lc_handles c" "lc_table c" ?S ?hs] D(7) F(2) by simp
  have usage: "lc_usage c' = sum (charge_of ?hs) (cached ?hs)"
  proof -
    have "sum (charge_of ?hs) ?S = lc_usage c" unfolding D(8) using F(3) by (intro sum.cong) simp_all
    moreover have "charge_of ?hs ?e = h_charge h" by (simp add: charge_of_def deref_append)
    ultimately show ?thesis
      unfolding F(1) assms(11) using sum.insert [OF finite_cached fresh_notin [of "lc_handles c"], of "charge_of ?hs"] by simp
  qed
  have z: "?e \<notin> set (lc_lru c)" "?e \<notin> set (lc_in_use c)" using D(3,5) fresh_notin [of "lc_handles c"] by simp_all
  have "set (lc_lru c) = {x \<in> cached ?hs. x \<notin># add_mset ?e held}"
    using D(3) F(1) fresh_notin [of "lc_handles c"] by auto
  moreover have "set (lc_in_use c') = {x \<in> cached ?hs. x \<in># add_mset ?e held}"
    using D(5) F(1) fresh_notin [of "lc_handles c"] assms(10) by auto
  moreover have "distinct (lc_in_use c')" using D(4) z(2) assms(10) by simp
  moreover have "cached ?hs - (if h_in_cache h then {?e} else {}) = ?S" "(if h_in_cache h then {?e} else {}) \<subseteq> cached ?hs"
    using F(1) fresh_notin [of "lc_handles c"] by auto
  ultimately show ?thesis
    using tab usage D(2) refs_append [OF D(1) assms(4,5)] log_append [OF D(9) assms(2,3,6,8)]
    by (simp add: cache_inv_def assms(6,7,9))
qed

text \<open>Entering a handle that is already on its list, and erasing the one it replaces.\<close>

lemma enter_inv:
  assumes "cache_inv c held ins {e}" "ident (lc_handles c) e = Some (key, hash)" "length (lc_handles c) \<le> 2 ^ 31"
  shows "\<exists>r t b c'. HandleTable_Insert (lc_handles c) e (lc_table c) = Some (r, t) \<and>
    FinishErase r (c\<lparr>lc_table := t\<rparr>) = Some (b, c') \<and> cache_inv c' held ins {} \<and>
    hit (lc_handles c) (cached (lc_handles c) - {e}) key hash r \<and> shrunk c c' \<and>
    cached (lc_handles c') = cached (lc_handles c) - set_option r"
proof -
  note D = cache_invD [OF assms(1)]
  let ?hs = "lc_handles c"
  have e: "e \<in> cached ?hs" using D(6) by simp
  then obtain h where h: "deref ?hs e = Some h" by (auto simp: cached_def)
  have kh: "h_key h = key" "h_hash h = hash" using assms(2) h by (simp_all add: ident_def)
  have "cached ?hs \<subseteq> {..<length ?hs}" by (auto simp: cached_def dest: deref_length)
  from card_mono [OF _ this] have "card (cached ?hs) \<le> 2 ^ 31" using assms(3) by simp
  moreover have "0 < card (cached ?hs)" using e by (simp add: card_gt_0_iff) blast
  ultimately have c: "card (cached ?hs - {e}) < 2 ^ 31" using e by simp
  obtain r t where r: "HandleTable_Insert ?hs e (lc_table c) = Some (r, t)"
    "table_ok ?hs t (insert e (cached ?hs - {e} - set_option r))" "hit ?hs (cached ?hs - {e}) (h_key h) (h_hash h) r"
    by (rule Insert_ok [OF D(7) h _ c]) simp
  show ?thesis
  proof (cases r)
    case None
    then have "cache_inv (c\<lparr>lc_table := t\<rparr>) held ins {}"
      using assms(1) r(2) insert_Diff [OF e] by (simp add: cache_inv_def log_ok_def)
    with r None kh show ?thesis by (auto simp: FinishErase_def shrunk_def)
  next
    case (Some old)
    then have old: "old \<in> cached ?hs" "old \<noteq> e" using r(3) by (simp_all add: hit_def)
    then have "insert e (cached ?hs - {e} - {old}) = cached ?hs - {old}" using e by blast
    with Some old have "cache_inv (c\<lparr>lc_table := t\<rparr>) held ins {old}"
      using assms(1) r(2) by (simp add: cache_inv_def log_ok_def)
    from FinishErase_inv [OF this] r Some kh show ?thesis by (auto simp: shrunk_def)
  qed
qed

text \<open>An insertion: the new handle is held by the client; what was evicted was not.\<close>

lemma LRU_Insert_inv:
  assumes "cache_inv c held ins {}" "length (lc_handles c) < 2 ^ 31"
  shows "\<exists>c'. LRU_Insert key hash val charge c = Some (length (lc_handles c), c') \<and>
    cache_inv c' (add_mset (length (lc_handles c)) held) (ins @ [(key, val)]) {} \<and>
    (lc_usage c' \<le> lc_capacity c' \<or> lc_lru c' = []) \<and> lc_capacity c' = lc_capacity c \<and>
    (\<forall>x \<in> cached (lc_handles c'). if x = length (lc_handles c) then lc_capacity c > 0 \<and> ident (lc_handles c') x = Some (key, hash)
       else x \<in> cached (lc_handles c) \<and> ident (lc_handles c') x = ident (lc_handles c) x) \<and>
    (lc_capacity c > 0 \<longrightarrow> length (lc_handles c) \<in> cached (lc_handles c'))"
proof -
  let ?e = "length (lc_handles c)" and ?held = "add_mset (length (lc_handles c)) held"
  show ?thesis
  proof (cases "lc_capacity c > 0")
    case False
    let ?h = "\<lparr>h_value = val, h_charge = charge, h_key = key, h_in_cache = False, h_refs = 1, h_hash = hash\<rparr>"
    let ?c = "c\<lparr>lc_handles := lc_handles c @ [Some ?h]\<rparr>"
    have "cache_inv ?c ?held (ins @ [(key, val)]) {}"
      using alloc_inv [OF assms(1), of ?h key val ?c] by simp
    from evict_loop_inv [OF this] obtain c' where c': "evict_loop ?c = Some c'" "cache_inv c' ?held (ins @ [(key, val)]) {}"
      "shrunk ?c c'" "lc_usage c' \<le> lc_capacity c' \<or> lc_lru c' = []" by blast
    have "\<forall>x \<in> cached (lc_handles c'). x \<noteq> ?e \<and> x \<in> cached (lc_handles c) \<and> ident (lc_handles c') x = ident (lc_handles c) x"
      using c'(3) fresh_notin [of "lc_handles c"] fresh_frame [where hs = "lc_handles c" and h = ?h] by (auto simp: shrunk_def)
    with c' False show ?thesis by (auto simp: LRU_Insert_def Let_def shrunk_def)
  next
    case True
    let ?h = "\<lparr>h_value = val, h_charge = charge, h_key = key, h_in_cache = True, h_refs = 2, h_hash = hash\<rparr>"
    let ?c = "c\<lparr>lc_handles := lc_handles c @ [Some ?h], lc_in_use := lc_in_use c @ [?e], lc_usage := lc_usage c + charge\<rparr>"
    note F = fresh_frame [where hs = "lc_handles c" and h = ?h]
    have new: "ident (lc_handles ?c) ?e = Some (key, hash)" by (simp add: ident_def deref_append)
    have "cache_inv ?c ?held (ins @ [(key, val)]) {?e}"
      using alloc_inv [OF assms(1), of ?h key val ?c] by simp
    from enter_inv [OF this new] assms(2) obtain r t b c1 where c1: "HandleTable_Insert (lc_handles ?c) ?e (lc_table ?c) = Some (r, t)"
      "FinishErase r (?c\<lparr>lc_table := t\<rparr>) = Some (b, c1)" "cache_inv c1 ?held (ins @ [(key, val)]) {}"
      "hit (lc_handles ?c) (cached (lc_handles ?c) - {?e}) key hash r" "shrunk ?c c1"
      "cached (lc_handles c1) = cached (lc_handles ?c) - set_option r" by auto
    have "?e \<notin> set_option r" using c1(4) by (cases r) (simp_all add: hit_def)
    then have e1: "?e \<in> cached (lc_handles c1)" using c1(6) F(1) by simp
    from evict_loop_inv [OF c1(3)] obtain c' where c': "evict_loop c1 = Some c'" "cache_inv c' ?held (ins @ [(key, val)]) {}"
      "shrunk c1 c'" "{x \<in> cached (lc_handles c1). x \<in># ?held} \<subseteq> cached (lc_handles c')"
      "lc_usage c' \<le> lc_capacity c' \<or> lc_lru c' = []" by blast
    have run: "LRU_Insert key hash val charge c = Some (?e, c')"
      using True c1(1,2) c'(1) by (simp add: LRU_Insert_def LRU_Append_in_use_def Let_def)
    have e': "?e \<in> cached (lc_handles c')" using c'(4) e1 by auto
    note sh = shrunk_trans [OF c1(5) c'(3), unfolded shrunk_def]
    then have cap: "lc_capacity c' = lc_capacity c" by simp
    have "if x = ?e then lc_capacity c > 0 \<and> ident (lc_handles c') x = Some (key, hash) else x \<in> cached (lc_handles c) \<and> ident (lc_handles c') x = ident (lc_handles c) x"
      if x: "x \<in> cached (lc_handles c')" for x
      using x sh new F(1) F(2) [of x] True by auto
    then have "\<forall>x \<in> cached (lc_handles c'). if x = ?e then lc_capacity c > 0 \<and> ident (lc_handles c') x = Some (key, hash)
       else x \<in> cached (lc_handles c) \<and> ident (lc_handles c') x = ident (lc_handles c) x" by blast
    with run c'(2,5) cap e' show ?thesis by blast
  qed
qed

subsection \<open>The cache as a map\<close>

definition contents :: "'v LRUCache \<Rightarrow> slice \<times> 32 word \<Rightarrow> 'v option" where
  "contents c kh = do {
     e \<leftarrow> List.find (\<lambda>e. \<exists>h \<in> set_option (deref (lc_handles c) e). h_in_cache h \<and> (h_key h, h_hash h) = kh) [0..<length (lc_handles c)];
     map_option h_value (deref (lc_handles c) e)
   }"

lemma contents_iff:
  assumes "cache_inv c held ins {}"
  shows "contents c kh = Some v \<longleftrightarrow> (\<exists>e \<in> cached (lc_handles c). ident (lc_handles c) e = Some kh \<and> snd (ins ! e) = v)"
proof -
  let ?P = "\<lambda>e. \<exists>h \<in> set_option (deref (lc_handles c) e). h_in_cache h \<and> (h_key h, h_hash h) = kh"
  have P: "?P e \<longleftrightarrow> e \<in> cached (lc_handles c) \<and> ident (lc_handles c) e = Some kh" for e
    by (auto simp: cached_def ident_def)
  have inj: "inj_on (ident (lc_handles c)) (cached (lc_handles c))" using cache_invD(7) [OF assms] by (simp add: table_ok_def)
  have val: "map_option h_value (deref (lc_handles c) e) = Some (snd (ins ! e))" if e: "e \<in> cached (lc_handles c)" for e
  proof -
    obtain h where h: "deref (lc_handles c) e = Some h" using e by (auto simp: cached_def)
    have "(h_key h, h_value h) = ins ! e" using cache_invD(9) [OF assms] h unfolding log_ok_def by blast
    then show ?thesis using h by (cases "ins ! e") simp
  qed
  show ?thesis
  proof (cases "List.find ?P [0..<length (lc_handles c)]")
    case None
    then have "\<not> ?P e" if "e < length (lc_handles c)" for e using that unfolding find_None_iff by simp
    moreover have "e < length (lc_handles c)" if "e \<in> cached (lc_handles c)" for e using that by (auto simp: cached_def dest: deref_length)
    ultimately show ?thesis using None P by (auto simp: contents_def)
  next
    case (Some x)
    then have "?P x" by (auto simp: find_Some_iff)
    then have x: "x \<in> cached (lc_handles c)" "ident (lc_handles c) x = Some kh" using P by simp_all
    then have "e = x" if "e \<in> cached (lc_handles c)" "ident (lc_handles c) e = Some kh" for e
      using inj that by (metis inj_onD)
    moreover have "contents c kh = Some (snd (ins ! x))" unfolding contents_def Some using val [OF x(1)] by simp
    ultimately show ?thesis using x by (metis option.inject)
  qed
qed

lemma option_eqI: "(\<And>v. x = Some v \<longleftrightarrow> y = Some v) \<Longrightarrow> x = y"
  by (metis not_None_eq)

text \<open>What an operation does to the map follows from what it does to the handles in the cache.\<close>

lemma contents_keep:
  assumes "cache_inv c held ins {}" "cache_inv c' held' ins {}" "cached (lc_handles c') = cached (lc_handles c)"
    "\<forall>x \<in> cached (lc_handles c). ident (lc_handles c') x = ident (lc_handles c) x"
  shows "contents c' = contents c"
proof
  fix kh
  have "contents c' kh = Some v \<longleftrightarrow> contents c kh = Some v" for v
    unfolding contents_iff [OF assms(1)] contents_iff [OF assms(2)] assms(3) using assms(4) by auto
  then show "contents c' kh = contents c kh" by (rule option_eqI)
qed

lemma contents_shrunk:
  assumes "cache_inv c held ins {}" "cache_inv c' held' ins {}" "shrunk c c'"
  shows "contents c' \<subseteq>\<^sub>m contents c"
proof -
  have "contents c kh = Some v" if kh: "contents c' kh = Some v" for kh v
    using kh assms(3) unfolding contents_iff [OF assms(1)] contents_iff [OF assms(2)] shrunk_def by fastforce
  then show ?thesis by (auto simp: map_le_def dom_def)
qed

lemma contents_erase:
  assumes "cache_inv c held ins {}" "cache_inv c' held' ins {}" "hit (lc_handles c) (cached (lc_handles c)) key hash r"
    "cached (lc_handles c') = cached (lc_handles c) - set_option r"
    "\<forall>x \<in> cached (lc_handles c'). ident (lc_handles c') x = ident (lc_handles c) x"
  shows "contents c' = (contents c)((key, hash) := None)"
proof
  fix kh
  have inj: "inj_on (ident (lc_handles c)) (cached (lc_handles c))" using cache_invD(7) [OF assms(1)] by (simp add: table_ok_def)
  have "e \<notin> set_option r \<longleftrightarrow> ident (lc_handles c) e \<noteq> Some (key, hash)" if e: "e \<in> cached (lc_handles c)" for e
    using assms(3) e inj by (cases r) (auto simp: hit_def inj_on_def)
  then have step: "contents c' kh = Some v \<longleftrightarrow> contents c kh = Some v \<and> kh \<noteq> (key, hash)" for v
    unfolding contents_iff [OF assms(1)] contents_iff [OF assms(2)] using assms(4,5) by fastforce
  show "contents c' kh = ((contents c)((key, hash) := None)) kh" by (rule option_eqI) (auto simp: step)
qed

lemma LRU_Lookup_inv:
  assumes "cache_inv c held ins {}" "size held + 2 < 2 ^ 32"
  shows "\<exists>r c'. LRU_Lookup key hash c = Some (r, c') \<and> cache_inv c' (case r of None \<Rightarrow> held | Some e \<Rightarrow> add_mset e held) ins {} \<and>
    contents c' = contents c \<and> lc_capacity c' = lc_capacity c \<and>
    contents c (key, hash) = map_option (\<lambda>e. snd (ins ! e)) r \<and> (\<forall>e. r = Some e \<longrightarrow> e < length ins \<and> fst (ins ! e) = key)"
proof -
  note D = cache_invD [OF assms(1)]
  from D(7) have T: "table_ok (lc_handles c) (lc_table c) (cached (lc_handles c))" by simp
  obtain r where r: "HandleTable_Lookup (lc_handles c) key hash (lc_table c) = Some r" "hit (lc_handles c) (cached (lc_handles c)) key hash r"
    by (rule Lookup_ok [OF T])
  show ?thesis
  proof (cases r)
    case None
    then have "contents c (key, hash) \<noteq> Some v" for v using r(2) unfolding contents_iff [OF assms(1)] by (auto simp: hit_def)
    then have "contents c (key, hash) = None" by (metis not_None_eq)
    with r None assms(1) show ?thesis by (simp add: LRU_Lookup_def)
  next
    case (Some e)
    then have e: "e \<in> cached (lc_handles c)" "ident (lc_handles c) e = Some (key, hash)" using r(2) by (simp_all add: hit_def)
    from Ref_inv [OF assms(1) e(1) assms(2)] obtain c' where c': "Ref e c = Some c'" "cache_inv c' (add_mset e held) ins {}"
      "ident (lc_handles c') = ident (lc_handles c)" "cached (lc_handles c') = cached (lc_handles c)" "lc_capacity c' = lc_capacity c" by blast
    have "contents c' = contents c" by (rule contents_keep [OF assms(1) c'(2,4)]) (simp add: c'(3))
    moreover have "contents c (key, hash) = Some (snd (ins ! e))" using e contents_iff [OF assms(1)] by blast
    moreover obtain h where h: "deref (lc_handles c) e = Some h" "h_key h = key" using e(2) by (auto simp: ident_def)
    moreover have "(h_key h, h_value h) = ins ! e" "e < length ins" using D(9) h deref_length [OF h(1)] by (auto simp: log_ok_def)
    ultimately show ?thesis using r Some c' by (auto simp: LRU_Lookup_def prod_eq_iff)
  qed
qed

lemma LRU_Insert_contents:
  assumes "cache_inv c held ins {}" "length ins < 2 ^ 31"
  shows "\<exists>c'. LRU_Insert key hash val charge c = Some (length ins, c') \<and>
    cache_inv c' (add_mset (length ins) held) (ins @ [(key, val)]) {} \<and>
    (lc_usage c' \<le> lc_capacity c' \<or> lc_lru c' = []) \<and> lc_capacity c' = lc_capacity c \<and>
    (if lc_capacity c > 0 then contents c' (key, hash) = Some val \<and> contents c' \<subseteq>\<^sub>m (contents c)((key, hash) \<mapsto> val)
     else contents c' \<subseteq>\<^sub>m contents c)"
proof -
  let ?n = "length ins"
  have l: "length (lc_handles c) = ?n" using cache_invD(9) [OF assms(1)] by (simp add: log_ok_def)
  obtain c' where c': "LRU_Insert key hash val charge c = Some (?n, c')" "cache_inv c' (add_mset ?n held) (ins @ [(key, val)]) {}"
    "lc_usage c' \<le> lc_capacity c' \<or> lc_lru c' = []" "lc_capacity c' = lc_capacity c"
    "\<forall>x \<in> cached (lc_handles c'). if x = ?n then lc_capacity c > 0 \<and> ident (lc_handles c') x = Some (key, hash)
       else x \<in> cached (lc_handles c) \<and> ident (lc_handles c') x = ident (lc_handles c) x"
    "lc_capacity c > 0 \<longrightarrow> ?n \<in> cached (lc_handles c')"
    using LRU_Insert_inv [OF assms(1), of key hash val charge] assms(2) unfolding l by blast
  have inj: "inj_on (ident (lc_handles c')) (cached (lc_handles c'))" using cache_invD(7) [OF c'(2)] by (simp add: table_ok_def)
  have old: "contents c kh = Some v" if x: "x \<in> cached (lc_handles c')" "x \<noteq> ?n" "ident (lc_handles c') x = Some kh" "snd ((ins @ [(key, val)]) ! x) = v"
    for x kh v
  proof -
    have cx: "x \<in> cached (lc_handles c)" "ident (lc_handles c) x = Some kh" using x(1-3) bspec [OF c'(5) x(1)] by simp_all
    then have "x < ?n" using l by (auto simp: cached_def dest: deref_length)
    then have "snd (ins ! x) = v" using x(4) by (simp add: nth_append)
    with cx show ?thesis unfolding contents_iff [OF assms(1)] by blast
  qed
  have "contents c' kh = Some v \<Longrightarrow> (if kh = (key, hash) \<and> lc_capacity c > 0 then Some val else contents c kh) = Some v" for kh v
  proof -
    assume "contents c' kh = Some v"
    then obtain x where x: "x \<in> cached (lc_handles c')" "ident (lc_handles c') x = Some kh" "snd ((ins @ [(key, val)]) ! x) = v"
      unfolding contents_iff [OF c'(2)] by blast
    show ?thesis
    proof (cases "x = ?n")
      case True
      then show ?thesis using bspec [OF c'(5) x(1)] x(2,3) by simp
    next
      case False
      have "x = ?n" if k: "kh = (key, hash)" "lc_capacity c > 0"
      proof -
        have n: "?n \<in> cached (lc_handles c')" using c'(6) k(2) by blast
        then have "ident (lc_handles c') ?n = Some (key, hash)" using bspec [OF c'(5) n] by simp
        with x(1,2) k(1) n inj show ?thesis by (metis inj_onD)
      qed
      then show ?thesis using False old [OF x(1) False x(2,3)] by auto
    qed
  qed
  then have "contents c' kh = (if kh = (key, hash) \<and> lc_capacity c > 0 then Some val else contents c kh)" if "kh \<in> dom (contents c')" for kh
    using that by (metis domD)
  then have le: "if lc_capacity c > 0 then contents c' \<subseteq>\<^sub>m (contents c)((key, hash) \<mapsto> val) else contents c' \<subseteq>\<^sub>m contents c"
    by (auto simp: map_le_def)
  have "contents c' (key, hash) = Some val" if cap: "lc_capacity c > 0"
  proof -
    have n: "?n \<in> cached (lc_handles c')" using c'(6) cap by blast
    then show ?thesis unfolding contents_iff [OF c'(2)] using bspec [OF c'(5) n] by (intro bexI [OF _ n]) simp
  qed
  with le c' show ?thesis by (auto split: if_splits)
qed

subsection \<open>Destruction\<close>

lemma destroy_loop_ok:
  assumes "distinct es" "\<forall>e \<in> set es. \<exists>h. deref (lc_handles c) e = Some h \<and> h_in_cache h \<and> h_refs h = 1" "log_ok c ins"
  shows "\<exists>c'. destroy_loop es c = Some c' \<and> log_ok c' ins \<and>
    (\<forall>x. deref (lc_handles c') x = (if x \<in> set es then None else deref (lc_handles c) x))"
  using assms
proof (induction es arbitrary: c)
  case (Cons e es)
  then obtain h where h: "deref (lc_handles c) e = Some h" "h_in_cache h" "h_refs h = 1" by auto
  note el = deref_length [OF h(1)]
  let ?c = "c\<lparr>lc_handles := (lc_handles c)[e := None], lc_deleted := lc_deleted c @ [(h_key h, h_value h)]\<rparr>"
  have run: "Unref e (put_handle e (h\<lparr>h_in_cache := False\<rparr>) c) = Some ?c"
    using h el by (simp add: Unref_def put_handle_def deref_update Let_def)
  have "log_ok ?c ins" by (rule log_ok_free [OF Cons.prems(3) h(1)]) simp_all
  moreover have d: "deref (lc_handles ?c) x = (if x = e then None else deref (lc_handles c) x)" for x using el by (simp add: deref_update)
  moreover have "\<forall>x \<in> set es. \<exists>h. deref (lc_handles ?c) x = Some h \<and> h_in_cache h \<and> h_refs h = 1"
    using Cons.prems(1,2) d by auto
  ultimately obtain c' where "destroy_loop es ?c = Some c'" "log_ok c' ins"
    "\<forall>x. deref (lc_handles c') x = (if x \<in> set es then None else deref (lc_handles ?c) x)"
    using Cons.IH [of ?c] Cons.prems(1) by auto
  then show ?case using h run d by simp
qed simp

lemma destroy_inv:
  assumes "cache_inv c {#} ins {}"
  shows "\<exists>c'. destroy_LRUCache c = Some c' \<and> mset (lc_deleted c') = mset ins"
proof -
  note D = cache_invD [OF assms]
  have refs: "h_in_cache h \<and> h_refs h = 1" if h: "deref (lc_handles c) e = Some h" for e h
  proof -
    have "h_in_cache h" "unat (h_refs h) = unat (1 :: 32 word)"
      using refs_okD(1) [OF D(1) h] word_unat_eq_iff [of "h_refs h" 0] by (auto split: if_splits)
    then show ?thesis by (simp only: word_unat_eq_iff)
  qed
  then have lru: "set (lc_lru c) = {e. deref (lc_handles c) e \<noteq> None}" "lc_in_use c = []" using D(3,5) by (auto simp: cached_def)
  have "\<forall>e \<in> set (lc_lru c). \<exists>h. deref (lc_handles c) e = Some h \<and> h_in_cache h \<and> h_refs h = 1" using refs lru(1) by fastforce
  from destroy_loop_ok [OF D(2) this D(9)] obtain c' where c': "destroy_loop (lc_lru c) c = Some c'" "log_ok c' ins"
    "\<forall>x. deref (lc_handles c') x = (if x \<in> set (lc_lru c) then None else deref (lc_handles c) x)" by blast
  then have all: "\<forall>x. deref (lc_handles c') x = None" using lru(1) by simp
  from c'(2) obtain ds where ds: "distinct ds" "set ds = {e. e < length ins \<and> deref (lc_handles c') e = None}" "lc_deleted c' = map ((!) ins) ds"
    unfolding log_ok_def by blast
  then have "set ds = set [0..<length ins]" using all by auto
  then have "mset ds = mset [0..<length ins]" using set_eq_iff_mset_eq_distinct [OF ds(1) distinct_upt] by blast
  then have "mset (lc_deleted c') = image_mset ((!) ins) (mset [0..<length ins])" using ds(3) by simp
  also have "\<dots> = mset ins" by (metis map_nth mset_map)
  finally show ?thesis using c'(1) lru(2) by (simp add: destroy_LRUCache_def)
qed

fun release_all :: "nat list \<Rightarrow> 'v LRUCache \<Rightarrow> 'v LRUCache option" where
  "release_all [] c = Some c"
| "release_all (e # es) c = Option.bind (LRU_Release e c) (release_all es)"

lemma release_all_inv:
  "cache_inv c (mset es + held) ins {} \<Longrightarrow> \<exists>c'. release_all es c = Some c' \<and> cache_inv c' held ins {}"
proof (induction es arbitrary: c)
  case (Cons e es)
  from Unref_inv [OF Cons.prems, of e] obtain c1 where "Unref e c = Some c1" "cache_inv c1 (mset es + held) ins {}" by auto
  with Cons.IH show ?case by (simp add: LRU_Release_def)
qed simp

subsection \<open>Clients\<close>

text \<open>
  The states a client can bring a shard to, with the references it holds and all that it inserted: it
  releases only what it holds, never holds \<open>2\<^sup>32 - 2\<close> references and inserts fewer than \<open>2\<^sup>31\<close> times, so that
  neither the reference counts nor the number of buckets wrap around.
\<close>

inductive client :: "64 word \<Rightarrow> 'v LRUCache \<Rightarrow> nat multiset \<Rightarrow> (slice \<times> 'v) list \<Rightarrow> bool" for cap where
  start: "make_LRUCache cap = Some c \<Longrightarrow> client cap c {#} []"
| insertion: "client cap c held ins \<Longrightarrow> length ins < 2 ^ 31 \<Longrightarrow> LRU_Insert key hash val charge c = Some (e, c') \<Longrightarrow>
    client cap c' (add_mset e held) (ins @ [(key, val)])"
| found: "client cap c held ins \<Longrightarrow> size held + 2 < 2 ^ 32 \<Longrightarrow> LRU_Lookup key hash c = Some (Some e, c') \<Longrightarrow>
    client cap c' (add_mset e held) ins"
| not_found: "client cap c held ins \<Longrightarrow> LRU_Lookup key hash c = Some (None, c') \<Longrightarrow> client cap c' held ins"
| release: "client cap c held ins \<Longrightarrow> e \<in># held \<Longrightarrow> LRU_Release e c = Some c' \<Longrightarrow> client cap c' (held - {#e#}) ins"
| erasure: "client cap c held ins \<Longrightarrow> LRU_Erase key hash c = Some c' \<Longrightarrow> client cap c' held ins"
| prune: "client cap c held ins \<Longrightarrow> LRU_Prune c = Some c' \<Longrightarrow> client cap c' held ins"

lemma make_LRUCache_inv: "\<exists>c :: 'v LRUCache. make_LRUCache cap = Some c \<and> cache_inv c {#} [] {} \<and> lc_capacity c = cap"
proof -
  obtain t where t: "make_HandleTable ([] :: 'v handles) = Some t" "table_ok ([] :: 'v handles) t {}" using make_HandleTable_ok by blast
  have "cached ([] :: 'v handles) = {}" by (simp add: cached_def deref_def)
  with t show ?thesis by (simp add: make_LRUCache_def cache_inv_def refs_ok_def log_ok_def deref_def)
qed

lemma LRU_Erase_inv:
  assumes "cache_inv c held ins {}"
  shows "\<exists>c'. LRU_Erase key hash c = Some c' \<and> cache_inv c' held ins {} \<and> contents c' = (contents c)((key, hash) := None) \<and>
    lc_capacity c' = lc_capacity c"
proof -
  from erase_inv [OF assms, of key hash] obtain r t c' where c': "HandleTable_Remove (lc_handles c) key hash (lc_table c) = Some (r, t)"
    "FinishErase r (c\<lparr>lc_table := t\<rparr>) = Some (r \<noteq> None, c')" "cache_inv c' held ins {}"
    "hit (lc_handles c) (cached (lc_handles c)) key hash r" "cached (lc_handles c') = cached (lc_handles c) - set_option r"
    "\<forall>x \<in> cached (lc_handles c'). ident (lc_handles c') x = ident (lc_handles c) x" "lc_capacity c' = lc_capacity c" by blast
  from contents_erase [OF assms c'(3-6)] c' show ?thesis by (simp add: LRU_Erase_def)
qed

lemma LRU_Release_inv:
  assumes "cache_inv c held ins {}" "e \<in># held"
  shows "\<exists>c'. LRU_Release e c = Some c' \<and> cache_inv c' (held - {#e#}) ins {} \<and> contents c' = contents c \<and> lc_capacity c' = lc_capacity c"
proof -
  from Unref_inv [OF assms] obtain c' where c': "Unref e c = Some c'" "cache_inv c' (held - {#e#}) ins {}"
    "cached (lc_handles c') = cached (lc_handles c)" "\<forall>x \<in> cached (lc_handles c). ident (lc_handles c') x = ident (lc_handles c) x"
    "lc_capacity c' = lc_capacity c" by blast
  from contents_keep [OF assms(1) c'(2-4)] c' show ?thesis by (simp add: LRU_Release_def)
qed

lemma LRU_Lookup_miss: "LRU_Lookup key hash c = Some (None, c') \<Longrightarrow> c' = c"
  by (auto simp: LRU_Lookup_def split: option.splits bind_splits)

lemma client_inv: "client cap c held ins \<Longrightarrow> cache_inv c held ins {} \<and> lc_capacity c = cap"
proof (induction rule: client.induct)
  case (start c)
  then show ?case using make_LRUCache_inv [of cap, where 'v = 'a] by auto
next
  case (insertion c held ins key hash val charge e c')
  then show ?case using LRU_Insert_contents [of c held ins key hash val charge] by auto
next
  case (found c held ins key hash e c')
  then show ?case using LRU_Lookup_inv [of c held ins key hash] by auto
next
  case (not_found c held ins key hash c')
  then show ?case using LRU_Lookup_miss by blast
next
  case (release c held ins e c')
  then show ?case using LRU_Release_inv [of c held ins e] by auto
next
  case (erasure c held ins key hash c')
  then show ?case using LRU_Erase_inv [of c held ins key hash] by auto
next
  case (prune c held ins c')
  then show ?case using Prune_inv [of c held ins] by (auto simp: shrunk_def)
qed

text \<open>One entry, inserted and released.\<close>

definition ex_shard :: "nat LRUCache" where
  "ex_shard = \<lparr>lc_capacity = 1, lc_usage = 1,
     lc_handles = [Some \<lparr>h_value = 5, h_charge = 1, h_key = [107], h_in_cache = True, h_refs = 1, h_hash = 9\<rparr>],
     lc_lru = [0], lc_in_use = [], lc_table = \<lparr>ht_elems = 1, ht_list = [[], [0], [], []]\<rparr>, lc_deleted = []\<rparr>"

lemma ex_shard_client: "client 1 ex_shard {#} [([107], 5)]"
proof -
  let ?c0 = "\<lparr>lc_capacity = 1, lc_usage = 0, lc_handles = [], lc_lru = [], lc_in_use = [],
    lc_table = \<lparr>ht_elems = 0, ht_list = [[], [], [], []]\<rparr>, lc_deleted = []\<rparr> :: nat LRUCache"
  let ?c1 = "\<lparr>lc_capacity = 1, lc_usage = 1,
     lc_handles = [Some \<lparr>h_value = 5, h_charge = 1, h_key = [107], h_in_cache = True, h_refs = 2, h_hash = 9\<rparr>],
     lc_lru = [], lc_in_use = [0], lc_table = \<lparr>ht_elems = 1, ht_list = [[], [0], [], []]\<rparr>, lc_deleted = []\<rparr> :: nat LRUCache"
  have "make_LRUCache 1 = Some ?c0"
    by (simp add: make_LRUCache_def make_HandleTable_def Resize_def grow_length.simps eval_nat_numeral Let_def)
  then have c0: "client 1 ?c0 {#} []" by (rule client.start)
  have ev: "evict_loop ?c1 = Some ?c1" by (subst evict_loop.simps) simp
  have "LRU_Insert [107] 9 5 1 ?c0 = Some (0, ?c1)"
    using ev by (simp add: LRU_Insert_def HandleTable_Insert_def FindPointer_def bucket_of_def deref_def entry_at_def Let_def
      LRU_Append_in_use_def FinishErase_def)
  from client.insertion [OF c0 _ this] have c1: "client 1 ?c1 {#0#} [([107], 5)]" by simp
  have "LRU_Release 0 ?c1 = Some ex_shard"
    by (simp add: LRU_Release_def Unref_def deref_def put_handle_def LRU_Remove_def LRU_Append_lru_def ex_shard_def Let_def)
  from client.release [OF c1 _ this] show ?thesis by simp
qed

subsection \<open>The properties\<close>

text \<open>
  C35. The invariant of a shard holds in every state a client can reach. The reference count of a
  live handle is the number of references that clients hold, and one more if it is in the cache. The list
  \<^verbatim>\<open>lru_\<close> has the cached handles no client uses, \<^verbatim>\<open>in_use_\<close> the others, each once. The hash table
  holds the cached handles on their chains, one for each key. The usage is the sum of the charges of the
  cached handles, and the deleter has been called once for every handle that is freed, for no other.
\<close>

theorem cache_invariant:
  assumes "client cap c held ins"
  shows "cache_inv c held ins {} \<and> lc_capacity c = cap"
  using client_inv [OF assms] .

theorem cache_invariant_witness: "cache_inv ex_shard {#} [([107], 5)] {} \<and> lc_capacity ex_shard = 1"
  by (rule cache_invariant [OF ex_shard_client])



text \<open>
  C37. Every value that was inserted is deleted in the end, once: from every state a client can reach,
  when it releases the references it holds, in any order, and destroys the cache, then all of this returns, and the calls
  of the deleter are those for the inserted keys and values, each as often as it was inserted.
\<close>

theorem cache_deletes_all:
  assumes "client cap c held ins" "mset es = held"
  shows "\<exists>c' c''. release_all es c = Some c' \<and> destroy_LRUCache c' = Some c'' \<and> mset (lc_deleted c'') = mset ins"
proof -
  from client_inv [OF assms(1)] assms(2) obtain c' where "release_all es c = Some c'" "cache_inv c' {#} ins {}"
    using release_all_inv [of c es "{#}" ins] by auto
  with destroy_inv show ?thesis by blast
qed

theorem cache_deletes_all_witness:
  "\<exists>c' c''. release_all [] ex_shard = Some c' \<and> destroy_LRUCache c' = Some c'' \<and> mset (lc_deleted c'') = {#([107], 5)#}"
  using cache_deletes_all [OF ex_shard_client, of "[]"] by simp

subsection \<open>The sharded cache\<close>

lemma Shard_less: "Shard hash < kNumShards"
proof -
  have "unat (drop_bit 28 hash) = unat hash div 2 ^ 28" unfolding unat_drop_bit_eq by (simp add: drop_bit_eq_div)
  then show ?thesis using unat_u32_less [of hash] by (simp add: Shard_def kNumShards_def kNumShardBits_def less_mult_imp_div_less)
qed

text \<open>Each shard in a state that a client can reach.\<close>

definition sharded_ok :: "64 word \<Rightarrow> 'v ShardedLRUCache \<Rightarrow> (nat \<Rightarrow> nat multiset) \<Rightarrow> (nat \<Rightarrow> (slice \<times> 'v) list) \<Rightarrow> bool" where
  "sharded_ok cap c held ins \<longleftrightarrow> length (sc_shards c) = kNumShards \<and>
     (\<forall>s < kNumShards. client cap (sc_shards c ! s) (held s) (ins s))"

lemma sharded_value:
  assumes "cache_inv c held ins {}" "e \<in># held"
  shows "map_option h_value (deref (lc_handles c) e) = Some (snd (ins ! e))"
proof -
  from refs_okD(2) [OF cache_invD(1) [OF assms(1)] assms(2)] obtain h where h: "deref (lc_handles c) e = Some h" by blast
  then have "(h_key h, h_value h) = ins ! e" using cache_invD(9) [OF assms(1)] unfolding log_ok_def by blast
  with h show ?thesis by (cases "ins ! e") simp
qed

text \<open>
  An insertion into the sharded cache is found by the next lookup of its key: from every
  state that clients can reach, with some capacity in a shard, both return, and both handles give the value that was inserted.
\<close>

lemma sharded_roundtrip:
  assumes "sharded_ok cap c held ins" "cap > 0" "\<forall>s. size (held s) + 3 < 2 ^ 32" "\<forall>s. length (ins s) < 2 ^ 31"
  shows "\<exists>h1 c1 h2 c2. Sharded_Insert key val charge c = Some (h1, c1) \<and> Sharded_Value h1 c1 = Some val \<and>
    Sharded_Lookup key c1 = Some (Some h2, c2) \<and> Sharded_Value h2 c2 = Some val"
proof -
  let ?hash = "HashSlice key" let ?s = "Shard ?hash" let ?c = "sc_shards c ! ?s" let ?n = "length (ins ?s)"
  have s: "?s < length (sc_shards c)" and cl: "client cap ?c (held ?s) (ins ?s)" using assms(1) Shard_less by (auto simp: sharded_ok_def)
  from client_inv [OF cl] have inv: "cache_inv ?c (held ?s) (ins ?s) {}" "lc_capacity ?c = cap" by auto
  from LRU_Insert_contents [OF inv(1), of key ?hash val charge] assms(2,4) obtain c1 where
    c1: "LRU_Insert key ?hash val charge ?c = Some (?n, c1)" "cache_inv c1 (add_mset ?n (held ?s)) (ins ?s @ [(key, val)]) {}"
    "contents c1 (key, ?hash) = Some val" unfolding inv(2) by auto
  have "size (add_mset ?n (held ?s)) + 2 < 2 ^ 32" using assms(3) by (simp add: add.commute)
  from LRU_Lookup_inv [OF c1(2) this, of key ?hash] obtain r c2 where
    c2: "LRU_Lookup key ?hash c1 = Some (r, c2)"
    "cache_inv c2 (case r of None \<Rightarrow> add_mset ?n (held ?s) | Some e \<Rightarrow> add_mset e (add_mset ?n (held ?s))) (ins ?s @ [(key, val)]) {}"
    "contents c1 (key, ?hash) = map_option (\<lambda>e. snd ((ins ?s @ [(key, val)]) ! e)) r" by blast
  then obtain e where e: "r = Some e" "snd ((ins ?s @ [(key, val)]) ! e) = val" using c1(3) by (cases r) simp_all
  let ?c1 = "c\<lparr>sc_shards := (sc_shards c)[?s := c1]\<rparr>" let ?c2 = "?c1\<lparr>sc_shards := (sc_shards ?c1)[?s := c2]\<rparr>"
  have "Sharded_Insert key val charge c = Some ((?s, ?n), ?c1)" "Sharded_Value (?s, ?n) ?c1 = Some val"
    using s c1(1) sharded_value [OF c1(2), of ?n] by (simp_all add: Sharded_Insert_def Sharded_Value_def on_shard_def Let_def)
  moreover have "Sharded_Lookup key ?c1 = Some (Some (?s, e), ?c2)" "Sharded_Value (?s, e) ?c2 = Some val"
    using s c2(1) e sharded_value [of c2 _ "ins ?s @ [(key, val)]" e] c2(2)
    by (simp_all add: Sharded_Lookup_def Sharded_Value_def on_shard_def Let_def)
  ultimately show ?thesis by blast
qed

lemma sharded_roundtrip_witness:
  "\<exists>h1 c1 h2 c2. Sharded_Insert [107] 3 1 \<lparr>sc_shards = replicate 16 ex_shard, sc_last_id = 0\<rparr> = Some (h1, c1) \<and>
     Sharded_Value h1 c1 = Some 3 \<and> Sharded_Lookup [107] c1 = Some (Some h2, c2) \<and> Sharded_Value h2 c2 = Some 3"
proof -
  have "sharded_ok 1 \<lparr>sc_shards = replicate 16 ex_shard, sc_last_id = 0\<rparr> (\<lambda>_. {#}) (\<lambda>_. [([107], 5)])"
    using ex_shard_client by (simp add: sharded_ok_def kNumShards_def kNumShardBits_def)
  from sharded_roundtrip [OF this] show ?thesis by simp
qed

end
