(* ===== verification/Ldb_Filename.thy ===== *)
theory Ldb_Filename
  imports Ldb_Env
begin

text \<open>
  Numbers as text (\<^verbatim>\<open>logging.cc\<close>) and the names of the files of a database (\<^verbatim>\<open>filename.cc\<close>). Strings are
  byte lists. \<^verbatim>\<open>snprintf\<close> with \<^verbatim>\<open>%llu\<close> writes the decimal_bytes digits of a number, which fit into the buffers of
  the code: at most twenty for 64 bits.
\<close>

subsection \<open>Numbers\<close>

definition bytes_of :: "string \<Rightarrow> byte list" where
  "bytes_of s = map of_char s"

fun decimal_bytes :: "nat \<Rightarrow> byte list" where
  "decimal_bytes n = (if n < 10 then [word_of_nat (48 + n)] else decimal_bytes (n div 10) @ [word_of_nat (48 + n mod 10)])"

declare decimal_bytes.simps [simp del]

definition AppendNumberTo :: "byte list \<Rightarrow> 64 word \<Rightarrow> byte list" where
  "AppendNumberTo str num = str @ decimal_bytes (unat num)"

definition NumberToString :: "64 word \<Rightarrow> byte list" where
  "NumberToString num = AppendNumberTo [] num"

definition hex_digit :: "nat \<Rightarrow> byte" where
  "hex_digit d = word_of_nat (if d < 10 then 48 + d else 87 + d)"

text \<open>A \<^verbatim>\<open>char\<close> is signed: the bytes from 128 on are less than the blank.\<close>

fun AppendEscapedStringTo :: "byte list \<Rightarrow> slice \<Rightarrow> byte list" where
  "AppendEscapedStringTo str [] = str"
| "AppendEscapedStringTo str (c # cs) =
     AppendEscapedStringTo
       (str @ (if sint c \<ge> 32 \<and> sint c \<le> 126 then [c]
               else bytes_of [CHR 0x5C, CHR ''x''] @ [hex_digit (unat c div 16), hex_digit (unat c mod 16)])) cs"

definition EscapeString :: "slice \<Rightarrow> byte list" where
  "EscapeString v = AppendEscapedStringTo [] v"

definition kMaxUint64 :: "64 word" where
  "kMaxUint64 = - 1"

definition kLastDigitOfMaxUint64 :: byte where
  "kLastDigitOfMaxUint64 = 48 + ucast (kMaxUint64 mod 10)"

text \<open>The value and what is left at the first byte that is no decimal_digit; \<open>None\<close> if the value would not fit.\<close>

fun consume_loop :: "64 word \<Rightarrow> slice \<Rightarrow> (64 word \<times> slice) option" where
  "consume_loop val [] = Some (val, [])"
| "consume_loop val (ch # cs) =
     (if ch < 48 \<or> ch > 57 then Some (val, ch # cs)
      else if val > kMaxUint64 div 10 \<or> (val = kMaxUint64 div 10 \<and> ch > kLastDigitOfMaxUint64) then None
      else consume_loop (val * 10 + ucast (ch - 48)) cs)"

text \<open>\<open>None\<close> for the result \<^verbatim>\<open>false\<close>.\<close>

definition ConsumeDecimalNumber :: "slice \<Rightarrow> (64 word \<times> slice) option" where
  "ConsumeDecimalNumber input =
     (case consume_loop 0 input of None \<Rightarrow> None
      | Some (val, rest) \<Rightarrow> if length input - length rest \<noteq> 0 then Some (val, rest) else None)"

subsection \<open>File names\<close>

datatype FileType = kLogFile | kDBLockFile | kTableFile | kDescriptorFile | kCurrentFile | kTempFile | kInfoLogFile

text \<open>\<^verbatim>\<open>%06llu\<close>\<close>

definition decimal6 :: "nat \<Rightarrow> byte list" where
  "decimal6 n = replicate (6 - length (decimal_bytes n)) 48 @ decimal_bytes n"

definition MakeFileName :: "slice \<Rightarrow> 64 word \<Rightarrow> string \<Rightarrow> slice" where
  "MakeFileName dbname number suffix = dbname @ bytes_of ''/'' @ decimal6 (unat number) @ bytes_of (''.'' @ suffix)"

text \<open>The assertion \<^verbatim>\<open>number > 0\<close> of the functions below is a case without a result.\<close>

definition LogFileName :: "slice \<Rightarrow> 64 word \<Rightarrow> slice option" where
  "LogFileName dbname number = (if number > 0 then Some (MakeFileName dbname number ''log'') else None)"

definition TableFileName :: "slice \<Rightarrow> 64 word \<Rightarrow> slice option" where
  "TableFileName dbname number = (if number > 0 then Some (MakeFileName dbname number ''ldb'') else None)"

definition SSTTableFileName :: "slice \<Rightarrow> 64 word \<Rightarrow> slice option" where
  "SSTTableFileName dbname number = (if number > 0 then Some (MakeFileName dbname number ''sst'') else None)"

definition DescriptorFileName :: "slice \<Rightarrow> 64 word \<Rightarrow> slice option" where
  "DescriptorFileName dbname number =
     (if number > 0 then Some (dbname @ bytes_of ''/MANIFEST-'' @ decimal6 (unat number)) else None)"

definition CurrentFileName :: "slice \<Rightarrow> slice" where
  "CurrentFileName dbname = dbname @ bytes_of ''/CURRENT''"

definition LockFileName :: "slice \<Rightarrow> slice" where
  "LockFileName dbname = dbname @ bytes_of ''/LOCK''"

definition TempFileName :: "slice \<Rightarrow> 64 word \<Rightarrow> slice option" where
  "TempFileName dbname number = (if number > 0 then Some (MakeFileName dbname number ''dbtmp'') else None)"

definition InfoLogFileName :: "slice \<Rightarrow> slice" where
  "InfoLogFileName dbname = dbname @ bytes_of ''/LOG''"

definition OldInfoLogFileName :: "slice \<Rightarrow> slice" where
  "OldInfoLogFileName dbname = dbname @ bytes_of ''/LOG.old''"

definition ParseFileName :: "slice \<Rightarrow> (64 word \<times> FileType) option" where
  "ParseFileName filename =
     (if slice_eq filename (bytes_of ''CURRENT'') then Some (0, kCurrentFile)
      else if slice_eq filename (bytes_of ''LOCK'') then Some (0, kDBLockFile)
      else if slice_eq filename (bytes_of ''LOG'') \<or> slice_eq filename (bytes_of ''LOG.old'') then Some (0, kInfoLogFile)
      else if starts_with filename (bytes_of ''MANIFEST-'') then
        (case ConsumeDecimalNumber (drop (length (bytes_of ''MANIFEST-'')) filename) of None \<Rightarrow> None
         | Some (num, rest) \<Rightarrow> if rest \<noteq> [] then None else Some (num, kDescriptorFile))
      else
        (case ConsumeDecimalNumber filename of None \<Rightarrow> None
         | Some (num, suffix) \<Rightarrow>
             if slice_eq suffix (bytes_of ''.log'') then Some (num, kLogFile)
             else if slice_eq suffix (bytes_of ''.sst'') \<or> slice_eq suffix (bytes_of ''.ldb'') then Some (num, kTableFile)
             else if slice_eq suffix (bytes_of ''.dbtmp'') then Some (num, kTempFile)
             else None))"

subsection \<open>Reading numbers\<close>

definition decimal_digit :: "byte \<Rightarrow> bool" where
  "decimal_digit ch \<longleftrightarrow> 48 \<le> ch \<and> ch \<le> 57"

definition number_of :: "byte list \<Rightarrow> nat" where
  "number_of ds = foldl (\<lambda>n ch. n * 10 + (unat ch - 48)) 0 ds"

lemma number_append [simp]: "number_of [] = 0" "number_of (ds @ [ch]) = number_of ds * 10 + (unat ch - 48)"
  by (simp_all add: number_of_def)

lemma foldl_digits: "foldl (\<lambda>n ch. n * 10 + (unat ch - 48)) a ds \<ge> a" for ds :: "byte list"
proof (induction ds arbitrary: a)
  case (Cons d ds)
  show ?case using Cons [of "a * 10 + (unat d - 48)"] by simp
qed simp

lemma max_digits:
  "unat (kMaxUint64 div 10) = 1844674407370955161" "unat kLastDigitOfMaxUint64 = 53"
proof -
  have m: "unat kMaxUint64 = 18446744073709551615" by (simp add: kMaxUint64_def unsigned_minus_1_eq_mask mask_eq_exp_minus_1)
  then show "unat (kMaxUint64 div 10) = 1844674407370955161" by (simp add: unat_div)
  have "unat (kMaxUint64 mod 10) = 5" using m by (simp add: unat_mod)
  then have "kMaxUint64 mod 10 = 5" by (simp add: word_unat_eq_iff)
  then show "unat kLastDigitOfMaxUint64 = 53" by (simp add: kLastDigitOfMaxUint64_def)
qed

lemma digit_value:
  assumes "decimal_digit ch"
  shows "unat (ucast (ch - 48) :: 64 word) = unat ch - 48" "unat ch - 48 < 10"
proof -
  have "unat (ch - 48) = unat ch - 48" using assms by (simp add: decimal_digit_def unat_sub)
  then show "unat (ucast (ch - 48) :: 64 word) = unat ch - 48" "unat ch - 48 < 10"
    using assms by (auto simp: decimal_digit_def word_le_nat_alt unsigned_ucast_eq take_bit_eq_mod)
qed

text \<open>The check for overflow is exact.\<close>

lemma digit_fits:
  assumes "decimal_digit ch"
  shows "(val > kMaxUint64 div 10 \<or> (val = kMaxUint64 div 10 \<and> ch > kLastDigitOfMaxUint64)) \<longleftrightarrow>
    unat val * 10 + (unat ch - 48) \<ge> 2 ^ 64"
  using digit_value(2) [OF assms] assms
  by (auto simp: word_less_nat_alt word_unat_eq_iff max_digits decimal_digit_def word_le_nat_alt)

lemma digit_step:
  fixes val :: "64 word"
  assumes "decimal_digit ch" "unat val * 10 + (unat ch - 48) < 2 ^ 64"
  shows "unat (val * 10 + ucast (ch - 48)) = unat val * 10 + (unat ch - 48)"
  using assms(2) digit_value(1) [OF assms(1)] by (simp add: unat_word_ariths)

lemma consume_loop_eq:
  "consume_loop val input =
     (let n = foldl (\<lambda>n ch. n * 10 + (unat ch - 48)) (unat val) (takeWhile decimal_digit input) in
      if n < 2 ^ 64 then Some (word_of_nat n, dropWhile decimal_digit input) else None)"
proof (induction input arbitrary: val)
  case Nil
  show ?case using unat_u64_less [of val] by simp
next
  case (Cons ch cs)
  have nd: "(ch < 48 \<or> ch > 57) \<longleftrightarrow> \<not> decimal_digit ch" by (auto simp: decimal_digit_def not_le)
  show ?case
  proof (cases "decimal_digit ch")
    case False
    then show ?thesis using nd unat_u64_less [of val] by simp
  next
    case True
    show ?thesis
    proof (cases "unat val * 10 + (unat ch - 48) < 2 ^ 64")
      case fits: True
      have "consume_loop val (ch # cs) = consume_loop (val * 10 + ucast (ch - 48)) cs"
        using True nd digit_fits [OF True, of val] fits by auto
      then show ?thesis using True unfolding Cons.IH digit_step [OF True fits] by (simp add: Let_def)
    next
      case False
      then have "\<not> foldl (\<lambda>n ch. n * 10 + (unat ch - 48)) (unat val * 10 + (unat ch - 48)) (takeWhile decimal_digit cs) < 2 ^ 64"
        using foldl_digits [of "unat val * 10 + (unat ch - 48)" "takeWhile decimal_digit cs"] by linarith
      moreover have "val > kMaxUint64 div 10 \<or> (val = kMaxUint64 div 10 \<and> ch > kLastDigitOfMaxUint64)"
        using digit_fits [OF True, of val] False by (simp add: not_less)
      ultimately show ?thesis using True nd by (simp add: Let_def)
    qed
  qed
qed

text \<open>What is read of any text: its leading digits, if there are any and their number fits.\<close>

lemma ConsumeDecimalNumber_eq:
  "ConsumeDecimalNumber input =
     (let ds = takeWhile decimal_digit input in
      if ds \<noteq> [] \<and> number_of ds < 2 ^ 64 then Some (word_of_nat (number_of ds), dropWhile decimal_digit input) else None)"
proof -
  have "length input = length (takeWhile decimal_digit input) + length (dropWhile decimal_digit input)"
    by (metis length_append takeWhile_dropWhile_id)
  then show ?thesis by (auto simp: ConsumeDecimalNumber_def consume_loop_eq Let_def number_of_def)
qed

subsection \<open>Writing numbers\<close>

lemma unat_digit: "k < 10 \<Longrightarrow> unat (word_of_nat (48 + k) :: byte) = 48 + k"
  by (simp add: unat_of_nat take_bit_eq_mod del: of_nat_add)

lemma decimal_digits: "\<forall>ch \<in> set (decimal_bytes n). decimal_digit ch"
proof (induction n rule: decimal_bytes.induct)
  case (1 n)
  have d: "decimal_digit (word_of_nat (48 + k))" if "k < 10" for k
    using unat_digit [OF that] that by (simp add: decimal_digit_def word_le_nat_alt)
  show ?case
  proof (cases "n < 10")
    case True
    then show ?thesis using d [OF True] by (subst decimal_bytes.simps) simp
  next
    case False
    have "decimal_digit (word_of_nat (48 + n mod 10))" by (rule d) simp
    then show ?thesis using False 1 by (subst decimal_bytes.simps) auto
  qed
qed

lemma decimal_number: "number_of (decimal_bytes n) = n"
proof (induction n rule: decimal_bytes.induct)
  case (1 n)
  show ?case
  proof (cases "n < 10")
    case True
    then show ?thesis using unat_digit [OF True] by (subst decimal_bytes.simps) (simp add: number_of_def)
  next
    case False
    have "unat (word_of_nat (48 + n mod 10) :: byte) = 48 + n mod 10" by (rule unat_digit) simp
    then show ?thesis using False 1 by (subst decimal_bytes.simps) simp
  qed
qed

lemma decimal_Nil [simp]: "decimal_bytes n \<noteq> []"
  by (subst decimal_bytes.simps) simp

lemma decimal6_props: "decimal6 n \<noteq> []" "\<forall>ch \<in> set (decimal6 n). decimal_digit ch" "number_of (decimal6 n) = n"
proof -
  have z: "number_of (replicate k 48 @ ds) = number_of ds" for k and ds :: "byte list"
    by (induction k) (simp_all add: number_of_def)
  show "decimal6 n \<noteq> []" "number_of (decimal6 n) = n" by (simp_all add: decimal6_def z decimal_number)
  show "\<forall>ch \<in> set (decimal6 n). decimal_digit ch" using decimal_digits [of n] by (auto simp: decimal6_def decimal_digit_def)
qed

lemma Consume_digits:
  assumes "ds \<noteq> []" "\<forall>ch \<in> set ds. decimal_digit ch" "number_of ds < 2 ^ 64" "rest = [] \<or> \<not> decimal_digit (hd rest)"
  shows "ConsumeDecimalNumber (ds @ rest) = Some (word_of_nat (number_of ds), rest)"
proof -
  have "takeWhile decimal_digit rest = []" "dropWhile decimal_digit rest = rest" using assms(4) by (cases rest; simp)+
  then show ?thesis using assms(1-3) by (simp add: ConsumeDecimalNumber_eq Let_def takeWhile_append2 dropWhile_append2)
qed

lemma Consume_decimal6:
  assumes "rest = [] \<or> \<not> decimal_digit (hd rest)"
  shows "ConsumeDecimalNumber (decimal6 (unat n) @ rest) = Some (n, rest)"
  using Consume_digits [OF decimal6_props(1,2) _ assms] decimal6_props(3) unat_u64_less [of n] by simp

lemma inj_of_char_byte: "inj (of_char :: char \<Rightarrow> byte)"
proof
  fix c d :: char
  have u: "unat (of_char x :: byte) = of_char x" for x
  proof -
    have "(of_char x :: byte) = word_of_nat (of_char x)" by (rule of_nat_of_char [symmetric])
    moreover have "unat (word_of_nat (of_char x) :: byte) = of_char x"
      using nat_of_char_less_256 [of x] by (simp only: unat_of_nat take_bit_eq_mod) simp
    ultimately show ?thesis by simp
  qed
  assume "of_char c = (of_char d :: byte)"
  then have "unat (of_char c :: byte) = unat (of_char d :: byte)" by simp
  then have "(of_char c :: nat) = of_char d" unfolding u .
  then show "c = d" by simp
qed

lemma digit_name:
  assumes "decimal_digit d"
  shows "\<not> slice_eq (d # f) (bytes_of ''CURRENT'')" "\<not> slice_eq (d # f) (bytes_of ''LOCK'')" "\<not> slice_eq (d # f) (bytes_of ''LOG'')"
    "\<not> slice_eq (d # f) (bytes_of ''LOG.old'')" "\<not> starts_with (d # f) (bytes_of ''MANIFEST-'')"
proof -
  have "d \<noteq> 67" "d \<noteq> 76" "d \<noteq> 77" using assms by (auto simp: decimal_digit_def)
  then show "\<not> slice_eq (d # f) (bytes_of ''CURRENT'')" "\<not> slice_eq (d # f) (bytes_of ''LOCK'')" "\<not> slice_eq (d # f) (bytes_of ''LOG'')"
    "\<not> slice_eq (d # f) (bytes_of ''LOG.old'')" "\<not> starts_with (d # f) (bytes_of ''MANIFEST-'')"
    by (simp_all add: bytes_of_def slice_eq_iff starts_with_def)
qed

lemma Parse_numbered:
  "ParseFileName (decimal6 (unat n) @ bytes_of (''.'' @ suffix)) =
     (if suffix = ''log'' then Some (n, kLogFile)
      else if suffix = ''sst'' \<or> suffix = ''ldb'' then Some (n, kTableFile)
      else if suffix = ''dbtmp'' then Some (n, kTempFile) else None)"
proof -
  obtain d ds where d: "decimal6 (unat n) = d # ds" "decimal_digit d" using decimal6_props(1,2) [of "unat n"] by (cases "decimal6 (unat n)") auto
  have "\<not> decimal_digit (hd (bytes_of (''.'' @ suffix)))" by (simp add: bytes_of_def decimal_digit_def)
  from Consume_decimal6 [OF disjI2, OF this, of n]
  have c: "ConsumeDecimalNumber (d # ds @ bytes_of (''.'' @ suffix)) = Some (n, bytes_of (''.'' @ suffix))" by (simp add: d(1))
  have eq: "slice_eq (bytes_of s) (bytes_of t) \<longleftrightarrow> s = t" for s t
  proof -
    have "inj (of_char :: char \<Rightarrow> byte)" by (rule inj_of_char_byte)
    then show ?thesis by (simp add: slice_eq_iff bytes_of_def inj_map_eq_map)
  qed
  show ?thesis
    unfolding ParseFileName_def d(1) append_Cons using digit_name [OF d(2)] c by (simp add: eq)
qed

text \<open>
  C40. The names of files are read back. For every number that is not zero, a name made for a log, a table, an old table,
  a descriptor or a temporary file is the name of the database, a slash, and a name that parses to that number and type; the four names
  without a number parse to their types.
\<close>

theorem ParseFileName_roundtrip:
  assumes "n > 0"
  shows "(\<exists>f. LogFileName db n = Some (db @ bytes_of ''/'' @ f) \<and> ParseFileName f = Some (n, kLogFile)) \<and>
    (\<exists>f. TableFileName db n = Some (db @ bytes_of ''/'' @ f) \<and> ParseFileName f = Some (n, kTableFile)) \<and>
    (\<exists>f. SSTTableFileName db n = Some (db @ bytes_of ''/'' @ f) \<and> ParseFileName f = Some (n, kTableFile)) \<and>
    (\<exists>f. DescriptorFileName db n = Some (db @ bytes_of ''/'' @ f) \<and> ParseFileName f = Some (n, kDescriptorFile)) \<and>
    (\<exists>f. TempFileName db n = Some (db @ bytes_of ''/'' @ f) \<and> ParseFileName f = Some (n, kTempFile)) \<and>
    (\<exists>f. CurrentFileName db = db @ bytes_of ''/'' @ f \<and> ParseFileName f = Some (0, kCurrentFile)) \<and>
    (\<exists>f. LockFileName db = db @ bytes_of ''/'' @ f \<and> ParseFileName f = Some (0, kDBLockFile)) \<and>
    (\<exists>f. InfoLogFileName db = db @ bytes_of ''/'' @ f \<and> ParseFileName f = Some (0, kInfoLogFile)) \<and>
    (\<exists>f. OldInfoLogFileName db = db @ bytes_of ''/'' @ f \<and> ParseFileName f = Some (0, kInfoLogFile))"
proof -
  have numbered: "\<exists>f. MakeFileName db n suffix = db @ bytes_of ''/'' @ f \<and> ParseFileName f = Some (n, t)"
    if "ParseFileName (decimal6 (unat n) @ bytes_of (''.'' @ suffix)) = Some (n, t)" for suffix t
    using that by (intro exI [of _ "decimal6 (unat n) @ bytes_of (''.'' @ suffix)"]) (simp add: MakeFileName_def)
  have "ParseFileName (bytes_of ''MANIFEST-'' @ decimal6 (unat n)) = Some (n, kDescriptorFile)"
    using Consume_decimal6 [of "[]" n] by (simp add: ParseFileName_def slice_eq_iff bytes_of_def starts_with_def)
  then have "\<exists>f. DescriptorFileName db n = Some (db @ bytes_of ''/'' @ f) \<and> ParseFileName f = Some (n, kDescriptorFile)"
    using assms by (intro exI [of _ "bytes_of ''MANIFEST-'' @ decimal6 (unat n)"]) (simp add: DescriptorFileName_def bytes_of_def)
  moreover have "\<exists>f. CurrentFileName db = db @ bytes_of ''/'' @ f \<and> ParseFileName f = Some (0, kCurrentFile)"
    by (intro exI [of _ "bytes_of ''CURRENT''"]) (simp add: CurrentFileName_def ParseFileName_def slice_eq_iff bytes_of_def)
  moreover have "\<exists>f. LockFileName db = db @ bytes_of ''/'' @ f \<and> ParseFileName f = Some (0, kDBLockFile)"
    by (intro exI [of _ "bytes_of ''LOCK''"]) (simp add: LockFileName_def ParseFileName_def slice_eq_iff bytes_of_def)
  moreover have "\<exists>f. InfoLogFileName db = db @ bytes_of ''/'' @ f \<and> ParseFileName f = Some (0, kInfoLogFile)"
    by (intro exI [of _ "bytes_of ''LOG''"]) (simp add: InfoLogFileName_def ParseFileName_def slice_eq_iff bytes_of_def)
  moreover have "\<exists>f. OldInfoLogFileName db = db @ bytes_of ''/'' @ f \<and> ParseFileName f = Some (0, kInfoLogFile)"
    by (intro exI [of _ "bytes_of ''LOG.old''"]) (simp add: OldInfoLogFileName_def ParseFileName_def slice_eq_iff bytes_of_def)
  ultimately show ?thesis
    using assms numbered [of "''log''" kLogFile, unfolded Parse_numbered] numbered [of "''ldb''" kTableFile, unfolded Parse_numbered]
      numbered [of "''sst''" kTableFile, unfolded Parse_numbered] numbered [of "''dbtmp''" kTempFile, unfolded Parse_numbered]
    by (simp add: LogFileName_def TableFileName_def SSTTableFileName_def TempFileName_def)
qed

theorem ParseFileName_roundtrip_witness:
  "\<exists>f. TableFileName (bytes_of ''db'') 7 = Some (bytes_of ''db/'' @ f) \<and> ParseFileName f = Some (7, kTableFile)"
  using ParseFileName_roundtrip [of 7 "bytes_of ''db''"] by (simp add: bytes_of_def)

end
