(* ===== verification/Ldb_Posix_Env.thy ===== *)
theory Ldb_Posix_Env
  imports Ldb_Filename "HOL-Library.Monad_Syntax"
begin

text \<open>
  Files by name: the operations of \<^verbatim>\<open>PosixEnv\<close> (\<^verbatim>\<open>env_posix.cc\<close>), the helpers of \<^verbatim>\<open>env.cc\<close>, and
  \<^verbatim>\<open>SetCurrentFile\<close> (\<^verbatim>\<open>filename.cc\<close>), which switches a database to a new descriptor.

  The state has the contents of the files by name and the outcomes that the operating system has in store:
  one for each call of \<^verbatim>\<open>open\<close>, \<^verbatim>\<open>close\<close>, \<^verbatim>\<open>fcntl\<close>, \<^verbatim>\<open>fsync\<close>, \<^verbatim>\<open>unlink\<close>, \<^verbatim>\<open>rename\<close> and \<^verbatim>\<open>stat\<close>, one for each
  \<^verbatim>\<open>write\<close> and \<^verbatim>\<open>read\<close>; where the list ends, calls succeed. A call that fails has no effect.
\<close>

subsection \<open>Files and system calls\<close>

record filesystem =
  fs_files :: "slice \<Rightarrow> byte list option"
  fs_strerror :: "errno \<Rightarrow> string"
  fs_calls :: "errno option list"
  fs_writes :: "write_call list"
  fs_reads :: "read_call list"

definition system_call :: "filesystem \<Rightarrow> errno option \<times> filesystem" where
  "system_call fs = (case fs_calls fs of [] \<Rightarrow> (None, fs) | c # cs \<Rightarrow> (c, fs\<lparr>fs_calls := cs\<rparr>))"

definition chars_of :: "slice \<Rightarrow> string" where
  "chars_of name = map (\<lambda>b. char_of (unat b)) name"

definition posix_error :: "filesystem \<Rightarrow> slice \<Rightarrow> errno \<Rightarrow> Status" where
  "posix_error fs name e = PosixError (fs_strerror fs) (chars_of name) e"

subsection \<open>Parts of a name\<close>

definition rfind_slash :: "slice \<Rightarrow> nat option" where
  "rfind_slash name =
     (let t = length (takeWhile (\<lambda>b. b \<noteq> 47) (rev name)) in if t = length name then None else Some (length name - t - 1))"

definition Dirname :: "slice \<Rightarrow> slice" where
  "Dirname filename = (case rfind_slash filename of None \<Rightarrow> bytes_of ''.'' | Some separator_pos \<Rightarrow> take separator_pos filename)"

definition Basename :: "slice \<Rightarrow> slice" where
  "Basename filename = (case rfind_slash filename of None \<Rightarrow> filename | Some separator_pos \<Rightarrow> drop (separator_pos + 1) filename)"

definition IsManifest :: "slice \<Rightarrow> bool" where
  "IsManifest filename \<longleftrightarrow> starts_with (Basename filename) (bytes_of ''MANIFEST'')"

subsection \<open>Opening files\<close>

definition open_file :: "filesystem \<Rightarrow> slice \<Rightarrow> byte list \<Rightarrow> posix_writable" where
  "open_file fs name disk =
     \<lparr>wf_name = chars_of name, wf_strerror = fs_strerror fs, wf_buf = [], wf_disk = disk, wf_calls = fs_writes fs\<rparr>"

definition NewWritableFile :: "slice \<Rightarrow> filesystem \<Rightarrow> Status \<times> posix_writable option \<times> filesystem" where
  "NewWritableFile filename fs =
     (case system_call fs of (Some e, fs) \<Rightarrow> (posix_error fs filename e, None, fs)
      | (None, fs) \<Rightarrow> (OK, Some (open_file fs filename []), fs\<lparr>fs_files := (fs_files fs)(filename \<mapsto> [])\<rparr>))"

definition NewAppendableFile :: "slice \<Rightarrow> filesystem \<Rightarrow> Status \<times> posix_writable option \<times> filesystem" where
  "NewAppendableFile filename fs =
     (case system_call fs of (Some e, fs) \<Rightarrow> (posix_error fs filename e, None, fs)
      | (None, fs) \<Rightarrow>
          let disk = (case fs_files fs filename of None \<Rightarrow> [] | Some bs \<Rightarrow> bs) in
          (OK, Some (open_file fs filename disk), fs\<lparr>fs_files := (fs_files fs)(filename \<mapsto> disk)\<rparr>))"

definition NewSequentialFile :: "slice \<Rightarrow> filesystem \<Rightarrow> Status \<times> posix_sequential option \<times> filesystem" where
  "NewSequentialFile filename fs =
     (case system_call fs of (Some e, fs) \<Rightarrow> (posix_error fs filename e, None, fs)
      | (None, fs) \<Rightarrow>
          (case fs_files fs filename of None \<Rightarrow> (posix_error fs filename ENOENT, None, fs)
           | Some bs \<Rightarrow> (OK, Some \<lparr>sf_name = chars_of filename, sf_strerror = fs_strerror fs, sf_rest = bs, sf_calls = fs_reads fs\<rparr>, fs)))"

definition FileExists :: "slice \<Rightarrow> filesystem \<Rightarrow> bool \<times> filesystem" where
  "FileExists filename fs = (case system_call fs of (c, fs) \<Rightarrow> (c = None \<and> fs_files fs filename \<noteq> None, fs))"

definition GetFileSize :: "slice \<Rightarrow> filesystem \<Rightarrow> Status \<times> nat \<times> filesystem" where
  "GetFileSize filename fs =
     (case system_call fs of (Some e, fs) \<Rightarrow> (posix_error fs filename e, 0, fs)
      | (None, fs) \<Rightarrow>
          (case fs_files fs filename of None \<Rightarrow> (posix_error fs filename ENOENT, 0, fs) | Some bs \<Rightarrow> (OK, length bs, fs)))"

definition DeleteFile :: "slice \<Rightarrow> filesystem \<Rightarrow> Status \<times> filesystem" where
  "DeleteFile filename fs =
     (case system_call fs of (Some e, fs) \<Rightarrow> (posix_error fs filename e, fs)
      | (None, fs) \<Rightarrow>
          if fs_files fs filename = None then (posix_error fs filename ENOENT, fs)
          else (OK, fs\<lparr>fs_files := (fs_files fs)(filename := None)\<rparr>))"

definition RenameFile :: "slice \<Rightarrow> slice \<Rightarrow> filesystem \<Rightarrow> Status \<times> filesystem" where
  "RenameFile src dst fs =
     (case system_call fs of (Some e, fs) \<Rightarrow> (posix_error fs src e, fs)
      | (None, fs) \<Rightarrow>
          (case fs_files fs src of None \<Rightarrow> (posix_error fs src ENOENT, fs)
           | Some bs \<Rightarrow> (OK, fs\<lparr>fs_files := (fs_files fs)(src := None, dst \<mapsto> bs)\<rparr>)))"

subsection \<open>Open files\<close>

text \<open>An operation on an open file changes the contents that the name has.\<close>

definition file_op ::
  "(posix_writable \<Rightarrow> Status \<times> posix_writable) \<Rightarrow> slice \<Rightarrow> posix_writable \<Rightarrow> filesystem \<Rightarrow> Status \<times> posix_writable \<times> filesystem" where
  "file_op op name f fs =
     (case op (f\<lparr>wf_calls := fs_writes fs\<rparr>) of (s, f) \<Rightarrow>
        (s, f, fs\<lparr>fs_files := (fs_files fs)(name \<mapsto> wf_disk f), fs_writes := wf_calls f\<rparr>))"

definition SyncFd :: "slice \<Rightarrow> filesystem \<Rightarrow> Status \<times> filesystem" where
  "SyncFd fd_path fs =
     (case system_call fs of (None, fs) \<Rightarrow> (OK, fs)
      | (Some _, fs) \<Rightarrow> (case system_call fs of (None, fs) \<Rightarrow> (OK, fs) | (Some e, fs) \<Rightarrow> (posix_error fs fd_path e, fs)))"

definition SyncDirIfManifest :: "slice \<Rightarrow> filesystem \<Rightarrow> Status \<times> filesystem" where
  "SyncDirIfManifest name fs =
     (if \<not> IsManifest name then (OK, fs)
      else (case system_call fs of (Some e, fs) \<Rightarrow> (posix_error fs (Dirname name) e, fs)
            | (None, fs) \<Rightarrow> (case SyncFd (Dirname name) fs of (s, fs) \<Rightarrow> (s, snd (system_call fs)))))"

definition Env_Sync :: "slice \<Rightarrow> posix_writable \<Rightarrow> filesystem \<Rightarrow> Status \<times> posix_writable \<times> filesystem" where
  "Env_Sync name f fs =
     (case SyncDirIfManifest name fs of (s, fs) \<Rightarrow>
        if \<not> ok s then (s, f, fs)
        else (case file_op FlushBuffer name f fs of (s, f, fs) \<Rightarrow>
                if \<not> ok s then (s, f, fs) else (case SyncFd name fs of (s, fs) \<Rightarrow> (s, f, fs))))"

definition Env_Close :: "slice \<Rightarrow> posix_writable \<Rightarrow> filesystem \<Rightarrow> Status \<times> posix_writable \<times> filesystem" where
  "Env_Close name f fs =
     (case file_op FlushBuffer name f fs of (s, f, fs) \<Rightarrow>
        (case system_call fs of (c, fs) \<Rightarrow>
           ((case c of Some e \<Rightarrow> if ok s then posix_error fs name e else s | None \<Rightarrow> s), f, fs)))"

subsection \<open>Whole files\<close>

text \<open>Without an error the file is closed; its destructor closes it otherwise.\<close>

definition DoWriteStringToFile :: "slice \<Rightarrow> slice \<Rightarrow> bool \<Rightarrow> filesystem \<Rightarrow> Status \<times> filesystem" where
  "DoWriteStringToFile data fname should_sync fs =
     (case NewWritableFile fname fs of (s, None, fs) \<Rightarrow> (s, fs)
      | (_, Some file, fs) \<Rightarrow>
          (case file_op (\<lambda>f. Posix_Append f data) fname file fs of (s, file, fs) \<Rightarrow>
           case (if ok s \<and> should_sync then Env_Sync fname file fs else (s, file, fs)) of (s, file, fs) \<Rightarrow>
           case (if ok s then (case Env_Close fname file fs of (s, _, fs) \<Rightarrow> (s, fs))
                 else (s, snd (snd (Env_Close fname file fs)))) of (s, fs) \<Rightarrow>
           (s, if \<not> ok s then snd (DeleteFile fname fs) else fs)))"

definition WriteStringToFile :: "slice \<Rightarrow> slice \<Rightarrow> filesystem \<Rightarrow> Status \<times> filesystem" where
  "WriteStringToFile data fname fs = DoWriteStringToFile data fname False fs"

definition WriteStringToFileSync :: "slice \<Rightarrow> slice \<Rightarrow> filesystem \<Rightarrow> Status \<times> filesystem" where
  "WriteStringToFileSync data fname fs = DoWriteStringToFile data fname True fs"

lemma Posix_Read_data:
  "Posix_Read f n = (OK, bs, f') \<Longrightarrow> bs = take n (sf_rest f) \<and> sf_rest f' = drop n (sf_rest f)"
proof (induction f n rule: Posix_Read.induct)
  case (1 f n)
  then show ?case
    by (subst (asm) (2) Posix_Read.simps) (auto simp: PosixError_def NotFound_def IOError_def make_Status_def split: list.splits read_call.splits if_splits)
qed

function read_file_loop :: "posix_sequential \<Rightarrow> byte list \<Rightarrow> Status \<times> byte list \<times> posix_sequential" where
  "read_file_loop file data =
     (case Posix_Read file 8192 of (s, fragment, file) \<Rightarrow>
        if s \<noteq> OK then (s, data, file)
        else if fragment = [] then (s, data @ fragment, file)
        else read_file_loop file (data @ fragment))"
  by pat_completeness auto
termination
  by (relation "measure (\<lambda>(file, data). length (sf_rest file))") (auto dest!: Posix_Read_data [OF sym])

declare read_file_loop.simps [simp del]

definition ReadFileToString :: "slice \<Rightarrow> filesystem \<Rightarrow> Status \<times> byte list \<times> filesystem" where
  "ReadFileToString fname fs =
     (case NewSequentialFile fname fs of (s, None, fs) \<Rightarrow> (s, [], fs)
      | (_, Some file, fs) \<Rightarrow>
          (case read_file_loop file [] of (s, data, file) \<Rightarrow>
             (s, data, snd (system_call (fs\<lparr>fs_reads := sf_calls file\<rparr>)))))"

definition SetCurrentFile :: "slice \<Rightarrow> 64 word \<Rightarrow> filesystem \<Rightarrow> (Status \<times> filesystem) option" where
  "SetCurrentFile dbname descriptor_number fs = do {
     manifest \<leftarrow> DescriptorFileName dbname descriptor_number;
     contents \<leftarrow> (if starts_with manifest (dbname @ bytes_of ''/'') then remove_prefix (length dbname + 1) manifest else None);
     tmp \<leftarrow> TempFileName dbname descriptor_number;
     let (s, fs) = WriteStringToFileSync (contents @ [10]) tmp fs;
     let (s, fs) = (if ok s then RenameFile tmp (CurrentFileName dbname) fs else (s, fs));
     Some (s, if \<not> ok s then snd (DeleteFile tmp fs) else fs)
   }"

subsection \<open>What the operations do\<close>

lemma posix_error_not_ok [simp]: "PosixError str ctxt e \<noteq> OK" "posix_error fs name e \<noteq> OK" "\<not> ok (posix_error fs name e)" "ok OK"
  by (simp_all add: posix_error_def PosixError_def NotFound_def IOError_def make_Status_def ok_def)

lemma WriteUnbuffered_OK: "WriteUnbuffered f d = (OK, f') \<Longrightarrow> wf_disk f' = wf_disk f @ d \<and> wf_buf f' = wf_buf f"
proof (induction f d rule: WriteUnbuffered.induct)
  case (1 f d)
  then show ?case
    by (subst (asm) (3) WriteUnbuffered.simps) (auto split: list.splits write_call.splits if_splits)
qed

lemma FlushBuffer_OK: "FlushBuffer f = (OK, f') \<Longrightarrow> wf_disk f' = wf_disk f @ wf_buf f \<and> wf_buf f' = []"
  using WriteUnbuffered_OK [of f "wf_buf f"] by (auto simp: FlushBuffer_def split: prod.splits)

lemma Posix_Append_OK: "Posix_Append f bs = (OK, f') \<Longrightarrow> wf_disk f' @ wf_buf f' = wf_disk f @ wf_buf f @ bs"
  by (auto simp: Posix_Append_def Let_def ok_def split: prod.splits if_splits dest!: FlushBuffer_OK WriteUnbuffered_OK)

lemma system_call_frame [simp]: "fs_files (snd (system_call fs)) = fs_files fs"
  by (simp add: system_call_def split: list.splits)

lemma system_call_files: "system_call fs = (c, fs') \<Longrightarrow> fs_files fs' = fs_files fs"
  using system_call_frame [of fs] by simp

lemma SyncFd_files: "SyncFd name fs = (s, fs') \<Longrightarrow> fs_files fs' = fs_files fs"
  by (auto simp: SyncFd_def split: prod.splits option.splits dest!: system_call_files)

lemma SyncDir_files: "SyncDirIfManifest name fs = (s, fs') \<Longrightarrow> fs_files fs' = fs_files fs"
  by (auto simp: SyncDirIfManifest_def split: prod.splits option.splits if_splits dest!: system_call_files SyncFd_files)

text \<open>Everything but the file of an operation stays as it is.\<close>

definition only :: "slice set \<Rightarrow> filesystem \<Rightarrow> filesystem \<Rightarrow> bool" where
  "only names fs fs' \<longleftrightarrow> (\<forall>x. x \<notin> names \<longrightarrow> fs_files fs' x = fs_files fs x)"

lemma only_trans: "only A fs fs' \<Longrightarrow> only B fs' fs'' \<Longrightarrow> only (A \<union> B) fs fs''"
  by (simp add: only_def)

lemma file_op_files:
  "file_op op name f fs = (s, f', fs') \<Longrightarrow> only {name} fs fs' \<and> fs_files fs' name = Some (wf_disk f')"
  by (auto simp: file_op_def only_def split: prod.splits)

lemma Env_Sync_files:
  assumes "Env_Sync name f fs = (s, f', fs')"
  shows "only {name} fs fs'" "ok s \<Longrightarrow> wf_disk f' = wf_disk f @ wf_buf f \<and> wf_buf f' = []"
  using assms
  by (auto simp: Env_Sync_def only_def file_op_def ok_def split: prod.splits if_splits dest!: SyncDir_files SyncFd_files FlushBuffer_OK)

lemma Env_Close_files:
  assumes "Env_Close name f fs = (s, f', fs')"
  shows "only {name} fs fs'" "ok s \<Longrightarrow> fs_files fs' name = Some (wf_disk f @ wf_buf f)"
  using assms
  by (auto simp: Env_Close_def only_def file_op_def ok_def split: prod.splits if_splits option.splits dest!: system_call_files FlushBuffer_OK)

lemma DeleteFile_files: "only {name} fs (snd (DeleteFile name fs))"
  by (auto simp: DeleteFile_def only_def split: prod.splits option.splits dest!: system_call_files)

lemma RenameFile_files:
  assumes "RenameFile src dst fs = (s, fs')"
  shows "\<not> ok s \<Longrightarrow> fs_files fs' = fs_files fs"
    "ok s \<Longrightarrow> \<exists>bs. fs_files fs src = Some bs \<and> fs_files fs' = (fs_files fs)(src := None, dst \<mapsto> bs)"
  using assms by (auto simp: RenameFile_def split: prod.splits option.splits dest!: system_call_files)

text \<open>A file that is written with a good status has the data that was given, whatever the system calls did.\<close>

lemma DoWriteStringToFile_files:
  assumes "DoWriteStringToFile data fname sync fs = (s, fs')"
  shows "only {fname} fs fs' \<and> (ok s \<longrightarrow> fs_files fs' fname = Some data)"
proof (cases "NewWritableFile fname fs")
  case (fields s0 fo fs0)
  have new: "only {fname} fs fs0" "fo \<noteq> None \<Longrightarrow> wf_disk (the fo) = [] \<and> wf_buf (the fo) = []" "fo = None \<Longrightarrow> \<not> ok s0"
    using fields by (auto simp: NewWritableFile_def only_def open_file_def split: prod.splits option.splits dest!: system_call_files)
  show ?thesis
  proof (cases fo)
    case None
    with assms fields new show ?thesis by (simp add: DoWriteStringToFile_def)
  next
    case (Some f0)
    obtain s1 f1 fs1 where a: "file_op (\<lambda>f. Posix_Append f data) fname f0 fs0 = (s1, f1, fs1)" by (metis prod_cases3)
    obtain s2 f2 fs2 where b: "(if ok s1 \<and> sync then Env_Sync fname f1 fs1 else (s1, f1, fs1)) = (s2, f2, fs2)" by (metis prod_cases3)
    obtain s3 f3 fs3 where c: "Env_Close fname f2 fs2 = (s3, f3, fs3)" by (metis prod_cases3)
    have s: "s = (if ok s2 then s3 else s2)" "fs' = (if ok s then fs3 else snd (DeleteFile fname fs3))"
      using assms fields Some a b c by (auto simp: DoWriteStringToFile_def split: if_splits)
    have a': "wf_disk f1 @ wf_buf f1 = data" if "ok s1"
      using a that Posix_Append_OK [of "f0\<lparr>wf_calls := fs_writes fs0\<rparr>" data f1] new(2) Some
      by (auto simp: file_op_def ok_def split: prod.splits)
    have b': "wf_disk f2 @ wf_buf f2 = data" if "ok s2"
      using b that a' Env_Sync_files(2) [of fname f1 fs1 s2 f2 fs2] by (auto split: if_splits)
    have "only {fname} fs1 fs2" using b Env_Sync_files(1) by (auto simp: only_def split: if_splits)
    then have "only {fname} fs fs3"
      using new(1) file_op_files [OF a] Env_Close_files(1) [OF c] by (auto simp: only_def)
    then have "only {fname} fs fs'" using s(2) DeleteFile_files [of fname fs3] by (auto simp: only_def split: if_splits)
    moreover have "fs_files fs' fname = Some data" if "ok s"
      using that s b' Env_Close_files(2) [OF c] by (auto split: if_splits)
    ultimately show ?thesis by blast
  qed
qed

subsection \<open>Switching to a new descriptor\<close>

lemma temp_not_current: "TempFileName db n = Some tmp \<Longrightarrow> tmp \<noteq> CurrentFileName db"
proof
  assume t: "TempFileName db n = Some tmp" "tmp = CurrentFileName db"
  then have "MakeFileName db n ''dbtmp'' = CurrentFileName db" by (simp add: TempFileName_def split: if_splits)
  then have "List.last (MakeFileName db n ''dbtmp'') = List.last (CurrentFileName db)" by simp
  then show False by (simp add: MakeFileName_def CurrentFileName_def bytes_of_def)
qed

lemma memcmp_same [simp]: "memcmp xs xs = 0"
  by (induction xs) simp_all

lemma SetCurrentFile_run:
  assumes tmp: "n > 0" "TempFileName db n = Some tmp"
  obtains s1 fs1 s2 fs2 where
    "WriteStringToFileSync (bytes_of ''MANIFEST-'' @ decimal6 (unat n) @ [10]) tmp fs = (s1, fs1)"
    "(if ok s1 then RenameFile tmp (CurrentFileName db) fs1 else (s1, fs1)) = (s2, fs2)"
    "SetCurrentFile db n fs = Some (s2, if ok s2 then fs2 else snd (DeleteFile tmp fs2))"
proof -
  let ?w = "WriteStringToFileSync (bytes_of ''MANIFEST-'' @ decimal6 (unat n) @ [10]) tmp fs"
  obtain s1 fs1 where w: "?w = (s1, fs1)" by (cases ?w)
  let ?r = "if ok s1 then RenameFile tmp (CurrentFileName db) fs1 else (s1, fs1)"
  obtain s2 fs2 where r: "?r = (s2, fs2)" by (cases ?r)
  let ?m = "db @ bytes_of ''/MANIFEST-'' @ decimal6 (unat n)"
  have c: "starts_with ?m (db @ bytes_of ''/'')" "remove_prefix (length db + 1) ?m = Some (bytes_of ''MANIFEST-'' @ decimal6 (unat n))"
    by (simp_all add: starts_with_def remove_prefix_def bytes_of_def)
  have "SetCurrentFile db n fs = Some (s2, if ok s2 then fs2 else snd (DeleteFile tmp fs2))"
    using c tmp w r by (simp add: SetCurrentFile_def DescriptorFileName_def Let_def)
  with w r show ?thesis by (rule that)
qed

lemma SetCurrentFile_files:
  assumes "n > 0" "TempFileName db n = Some tmp"
  shows "\<exists>s fs'. SetCurrentFile db n fs = Some (s, fs') \<and>
    fs_files fs' (CurrentFileName db) =
      (if ok s then Some (bytes_of ''MANIFEST-'' @ decimal6 (unat n) @ [10]) else fs_files fs (CurrentFileName db)) \<and>
    (ok s \<longrightarrow> fs_files fs' tmp = None) \<and>
    (\<forall>name. name \<noteq> CurrentFileName db \<and> name \<noteq> tmp \<longrightarrow> fs_files fs' name = fs_files fs name)"
proof -
  let ?cur = "CurrentFileName db"
  note cur = temp_not_current [OF assms(2)]
  obtain s1 fs1 s2 fs2 where run: "WriteStringToFileSync (bytes_of ''MANIFEST-'' @ decimal6 (unat n) @ [10]) tmp fs = (s1, fs1)"
    "(if ok s1 then RenameFile tmp ?cur fs1 else (s1, fs1)) = (s2, fs2)"
    "SetCurrentFile db n fs = Some (s2, if ok s2 then fs2 else snd (DeleteFile tmp fs2))"
    by (rule SetCurrentFile_run [OF assms, of fs])
  have w: "only {tmp} fs fs1" "ok s1 \<Longrightarrow> fs_files fs1 tmp = Some (bytes_of ''MANIFEST-'' @ decimal6 (unat n) @ [10])"
    using DoWriteStringToFile_files [OF run(1) [unfolded WriteStringToFileSync_def]] by simp_all
  show ?thesis
  proof (cases "ok s2")
    case True
    then have "ok s1" "RenameFile tmp ?cur fs1 = (s2, fs2)" using run(2) by (auto split: if_splits)
    with RenameFile_files(2) [OF this(2) True] w have
      "fs_files fs2 = (fs_files fs1)(tmp := None, ?cur \<mapsto> bytes_of ''MANIFEST-'' @ decimal6 (unat n) @ [10])" by auto
    then show ?thesis using run(3) True w(1) cur by (simp add: only_def)
  next
    case False
    then have "fs_files fs2 = fs_files fs1" using run(2) RenameFile_files(1) [of tmp ?cur fs1 s2 fs2] by (auto split: if_splits)
    then show ?thesis using run(3) False w(1) cur DeleteFile_files [of tmp fs2] by (simp add: only_def)
  qed
qed

text \<open>
  C38. The switch to a new descriptor is atomic. Whatever the system calls do, \<^verbatim>\<open>SetCurrentFile\<close> returns;
  with a good status the file \<^verbatim>\<open>CURRENT\<close> has the name of the descriptor and a newline, and the temporary file
  is gone; with any other status \<^verbatim>\<open>CURRENT\<close> is as it was. No other file changes.
\<close>

theorem SetCurrentFile_atomic:
  assumes "n > 0" "TempFileName db n = Some tmp"
  shows "\<exists>s fs'. SetCurrentFile db n fs = Some (s, fs') \<and>
    fs_files fs' (CurrentFileName db) =
      (if ok s then Some (bytes_of ''MANIFEST-'' @ decimal6 (unat n) @ [10]) else fs_files fs (CurrentFileName db)) \<and>
    (ok s \<longrightarrow> fs_files fs' tmp = None) \<and>
    (\<forall>name. name \<noteq> CurrentFileName db \<and> name \<noteq> tmp \<longrightarrow> fs_files fs' name = fs_files fs name)"
  using SetCurrentFile_files [OF assms] .

theorem SetCurrentFile_atomic_witness:
  "\<exists>s fs'. SetCurrentFile (bytes_of ''db'') 5 \<lparr>fs_files = (\<lambda>_. None), fs_strerror = (\<lambda>_. []), fs_calls = [None, Some EIO, Some EIO],
      fs_writes = [Writes 3], fs_reads = []\<rparr> = Some (s, fs') \<and>
    fs_files fs' (CurrentFileName (bytes_of ''db'')) = (if ok s then Some (bytes_of ''MANIFEST-'' @ decimal6 5 @ [10]) else None)"
  using SetCurrentFile_atomic [of 5 "bytes_of ''db''" "MakeFileName (bytes_of ''db'') 5 ''dbtmp''"
    "\<lparr>fs_files = (\<lambda>_. None), fs_strerror = (\<lambda>_. []), fs_calls = [None, Some EIO, Some EIO], fs_writes = [Writes 3], fs_reads = []\<rparr>"]
  by (auto simp: TempFileName_def)

subsection \<open>Reading a file back\<close>

lemma read_loop_healthy:
  "sf_healthy f \<Longrightarrow> \<exists>f'. read_file_loop f data = (OK, data @ sf_rest f, f')"
proof (induction f data rule: read_file_loop.induct)
  case (1 f data)
  from Posix_Read_healthy [OF "1.prems", of 8192] obtain f' where
    f': "Posix_Read f 8192 = (OK, take 8192 (sf_rest f), f')" "sf_healthy f'" "sf_rest f' = drop 8192 (sf_rest f)" by blast
  show ?case
  proof (cases "sf_rest f = []")
    case True
    with f' show ?thesis by (subst read_file_loop.simps) simp
  next
    case False
    with f' "1.IH" [OF f'(1) [symmetric] refl] show ?thesis by (subst read_file_loop.simps) fastforce
  qed
qed

lemma ReadFileToString_healthy:
  assumes "fs_files fs fname = Some bs" "fs_calls fs = []" "\<forall>e. Read_fails e \<in> set (fs_reads fs) \<longrightarrow> e = EINTR"
  shows "\<exists>fs'. ReadFileToString fname fs = (OK, bs, fs')"
proof -
  let ?f = "\<lparr>sf_name = chars_of fname, sf_strerror = fs_strerror fs, sf_rest = bs, sf_calls = fs_reads fs\<rparr>"
  obtain f' where "read_file_loop ?f [] = (OK, bs, f')" using read_loop_healthy [of ?f "[]"] assms(3) by (auto simp: sf_healthy_def)
  then show ?thesis using assms(1,2) by (simp add: ReadFileToString_def NewSequentialFile_def system_call_def)
qed

end
