(* ===== verification/Ldb_Version_Edit.thy ===== *)
theory Ldb_Version_Edit
  imports Ldb_Format Ldb_Filename Ldb_Block "HOL-Library.Product_Lexorder"
begin

text \<open>
  The records of the descriptor file (\<^verbatim>\<open>version_edit.h\<close>, \<^verbatim>\<open>version_edit.cc\<close>): the changes from one version
  of the database to the next, as bytes. The set of deleted files is the sorted list of its elements, which is the order in
  which the code walks it. An \<^verbatim>\<open>InternalKey\<close> is the string \<^verbatim>\<open>rep_\<close>; taking the encoding of an empty one
  violates an assertion.
\<close>

subsection \<open>Edits\<close>

definition kNumLevels :: int where
  "kNumLevels = 7"

definition InternalKey_Encode :: "slice \<Rightarrow> slice option" where
  "InternalKey_Encode rep = (if rep \<noteq> [] then Some rep else None)"

record FileMetaData =
  fm_refs :: int
  fm_allowed_seeks :: int
  fm_number :: "64 word"
  fm_file_size :: "64 word"
  fm_smallest :: slice
  fm_largest :: slice

text \<open>The constructor leaves the number of the file without a value; both users assign it.\<close>

definition make_FileMetaData :: "64 word \<Rightarrow> 64 word \<Rightarrow> slice \<Rightarrow> slice \<Rightarrow> FileMetaData" where
  "make_FileMetaData number file_size smallest largest =
     \<lparr>fm_refs = 0, fm_allowed_seeks = 2 ^ 30, fm_number = number, fm_file_size = file_size, fm_smallest = smallest, fm_largest = largest\<rparr>"

record VersionEdit =
  ve_comparator :: slice
  ve_log_number :: "64 word"
  ve_prev_log_number :: "64 word"
  ve_next_file_number :: "64 word"
  ve_last_sequence :: "64 word"
  ve_has_comparator :: bool
  ve_has_log_number :: bool
  ve_has_prev_log_number :: bool
  ve_has_next_file_number :: bool
  ve_has_last_sequence :: bool
  ve_compact_pointers :: "(int \<times> slice) list"
  ve_deleted_files :: "(int \<times> 64 word) list"
  ve_new_files :: "(int \<times> FileMetaData) list"

text \<open>The pointers are not cleared.\<close>

definition VersionEdit_Clear :: "VersionEdit \<Rightarrow> VersionEdit" where
  "VersionEdit_Clear e = e\<lparr>ve_comparator := [], ve_log_number := 0, ve_prev_log_number := 0, ve_last_sequence := 0,
     ve_next_file_number := 0, ve_has_comparator := False, ve_has_log_number := False, ve_has_prev_log_number := False,
     ve_has_next_file_number := False, ve_has_last_sequence := False, ve_deleted_files := [], ve_new_files := []\<rparr>"

definition make_VersionEdit :: VersionEdit where
  "make_VersionEdit = \<lparr>ve_comparator = [], ve_log_number = 0, ve_prev_log_number = 0, ve_next_file_number = 0, ve_last_sequence = 0,
     ve_has_comparator = False, ve_has_log_number = False, ve_has_prev_log_number = False, ve_has_next_file_number = False,
     ve_has_last_sequence = False, ve_compact_pointers = [], ve_deleted_files = [], ve_new_files = []\<rparr>"

definition SetComparatorName :: "slice \<Rightarrow> VersionEdit \<Rightarrow> VersionEdit" where
  "SetComparatorName name e = e\<lparr>ve_has_comparator := True, ve_comparator := name\<rparr>"

definition SetLogNumber :: "64 word \<Rightarrow> VersionEdit \<Rightarrow> VersionEdit" where
  "SetLogNumber num e = e\<lparr>ve_has_log_number := True, ve_log_number := num\<rparr>"

definition SetPrevLogNumber :: "64 word \<Rightarrow> VersionEdit \<Rightarrow> VersionEdit" where
  "SetPrevLogNumber num e = e\<lparr>ve_has_prev_log_number := True, ve_prev_log_number := num\<rparr>"

definition SetNextFile :: "64 word \<Rightarrow> VersionEdit \<Rightarrow> VersionEdit" where
  "SetNextFile num e = e\<lparr>ve_has_next_file_number := True, ve_next_file_number := num\<rparr>"

definition SetLastSequence :: "64 word \<Rightarrow> VersionEdit \<Rightarrow> VersionEdit" where
  "SetLastSequence seq e = e\<lparr>ve_has_last_sequence := True, ve_last_sequence := seq\<rparr>"

definition SetCompactPointer :: "int \<Rightarrow> slice \<Rightarrow> VersionEdit \<Rightarrow> VersionEdit" where
  "SetCompactPointer level key e = e\<lparr>ve_compact_pointers := ve_compact_pointers e @ [(level, key)]\<rparr>"

definition AddFile :: "int \<Rightarrow> 64 word \<Rightarrow> 64 word \<Rightarrow> slice \<Rightarrow> slice \<Rightarrow> VersionEdit \<Rightarrow> VersionEdit" where
  "AddFile level file file_size smallest largest e =
     e\<lparr>ve_new_files := ve_new_files e @ [(level, make_FileMetaData file file_size smallest largest)]\<rparr>"

definition VersionEdit_DeleteFile :: "int \<Rightarrow> 64 word \<Rightarrow> VersionEdit \<Rightarrow> VersionEdit" where
  "VersionEdit_DeleteFile level file e = e\<lparr>ve_deleted_files := insort_insert (level, file) (ve_deleted_files e)\<rparr>"

subsection \<open>Encoding\<close>

definition kComparator :: "32 word" where "kComparator = 1"
definition kLogNumber :: "32 word" where "kLogNumber = 2"
definition kNextFileNumber :: "32 word" where "kNextFileNumber = 3"
definition kLastSequence :: "32 word" where "kLastSequence = 4"
definition kCompactPointer :: "32 word" where "kCompactPointer = 5"
definition kDeletedFile :: "32 word" where "kDeletedFile = 6"
definition kNewFile :: "32 word" where "kNewFile = 7"
definition kPrevLogNumber :: "32 word" where "kPrevLogNumber = 9"

lemmas tags = kComparator_def kLogNumber_def kNextFileNumber_def kLastSequence_def kCompactPointer_def kDeletedFile_def
  kNewFile_def kPrevLogNumber_def

definition put_number :: "bool \<Rightarrow> 32 word \<Rightarrow> 64 word \<Rightarrow> byte list \<Rightarrow> byte list" where
  "put_number has tag num dst = (if has then PutVarint64 (PutVarint32 dst tag) num else dst)"

fun put_compact_pointers :: "(int \<times> slice) list \<Rightarrow> byte list \<Rightarrow> byte list option" where
  "put_compact_pointers [] dst = Some dst"
| "put_compact_pointers ((level, key) # ps) dst = do {
     k \<leftarrow> InternalKey_Encode key;
     put_compact_pointers ps (PutLengthPrefixedSlice (PutVarint32 (PutVarint32 dst kCompactPointer) (word_of_int level)) k)
   }"

fun put_deleted_files :: "(int \<times> 64 word) list \<Rightarrow> byte list \<Rightarrow> byte list" where
  "put_deleted_files [] dst = dst"
| "put_deleted_files ((level, number) # ds) dst =
     put_deleted_files ds (PutVarint64 (PutVarint32 (PutVarint32 dst kDeletedFile) (word_of_int level)) number)"

fun put_new_files :: "(int \<times> FileMetaData) list \<Rightarrow> byte list \<Rightarrow> byte list option" where
  "put_new_files [] dst = Some dst"
| "put_new_files ((level, f) # fs) dst = do {
     let dst = PutVarint32 (PutVarint32 dst kNewFile) (word_of_int level);
     let dst = PutVarint64 (PutVarint64 dst (fm_number f)) (fm_file_size f);
     smallest \<leftarrow> InternalKey_Encode (fm_smallest f);
     let dst = PutLengthPrefixedSlice dst smallest;
     largest \<leftarrow> InternalKey_Encode (fm_largest f);
     put_new_files fs (PutLengthPrefixedSlice dst largest)
   }"

definition VersionEdit_EncodeTo :: "VersionEdit \<Rightarrow> byte list \<Rightarrow> byte list option" where
  "VersionEdit_EncodeTo e dst = do {
     let dst = (if ve_has_comparator e then PutLengthPrefixedSlice (PutVarint32 dst kComparator) (ve_comparator e) else dst);
     let dst = put_number (ve_has_log_number e) kLogNumber (ve_log_number e) dst;
     let dst = put_number (ve_has_prev_log_number e) kPrevLogNumber (ve_prev_log_number e) dst;
     let dst = put_number (ve_has_next_file_number e) kNextFileNumber (ve_next_file_number e) dst;
     let dst = put_number (ve_has_last_sequence e) kLastSequence (ve_last_sequence e) dst;
     dst \<leftarrow> put_compact_pointers (ve_compact_pointers e) dst;
     put_new_files (ve_new_files e) (put_deleted_files (ve_deleted_files e) dst)
   }"

subsection \<open>Decoding\<close>

definition GetInternalKey :: "slice \<Rightarrow> (slice \<times> slice) option" where
  "GetInternalKey input = GetLengthPrefixedSlice input"

definition GetLevel :: "slice \<Rightarrow> (int \<times> slice) option" where
  "GetLevel input =
     (case GetVarint32 input of None \<Rightarrow> None
      | Some (v, input) \<Rightarrow> if v < word_of_int kNumLevels then Some (uint v, input) else None)"

definition get_or :: "string \<Rightarrow> ('a \<times> slice) option \<Rightarrow> ('a \<Rightarrow> VersionEdit) \<Rightarrow> string + VersionEdit \<times> slice" where
  "get_or msg r upd = (case r of None \<Rightarrow> Inl msg | Some (x, input) \<Rightarrow> Inr (upd x, input))"

text \<open>The body of the \<^verbatim>\<open>switch\<close>: the changed edit and the rest of the input, or the message.\<close>

definition decode_edit_field :: "32 word \<Rightarrow> VersionEdit \<Rightarrow> slice \<Rightarrow> string + VersionEdit \<times> slice" where
  "decode_edit_field tag e input =
     (if tag = kComparator then
        get_or ''comparator name'' (GetLengthPrefixedSlice input) (\<lambda>str. e\<lparr>ve_comparator := str, ve_has_comparator := True\<rparr>)
      else if tag = kLogNumber then
        get_or ''log number'' (GetVarint64 input) (\<lambda>n. e\<lparr>ve_log_number := n, ve_has_log_number := True\<rparr>)
      else if tag = kPrevLogNumber then
        get_or ''previous log number'' (GetVarint64 input) (\<lambda>n. e\<lparr>ve_prev_log_number := n, ve_has_prev_log_number := True\<rparr>)
      else if tag = kNextFileNumber then
        get_or ''next file number'' (GetVarint64 input) (\<lambda>n. e\<lparr>ve_next_file_number := n, ve_has_next_file_number := True\<rparr>)
      else if tag = kLastSequence then
        get_or ''last sequence number'' (GetVarint64 input) (\<lambda>n. e\<lparr>ve_last_sequence := n, ve_has_last_sequence := True\<rparr>)
      else if tag = kCompactPointer then
        get_or ''compaction pointer''
          (do { (level, input) \<leftarrow> GetLevel input; (key, input) \<leftarrow> GetInternalKey input; Some ((level, key), input) })
          (\<lambda>p. e\<lparr>ve_compact_pointers := ve_compact_pointers e @ [p]\<rparr>)
      else if tag = kDeletedFile then
        get_or ''deleted file''
          (do { (level, input) \<leftarrow> GetLevel input; (number, input) \<leftarrow> GetVarint64 input; Some ((level, number), input) })
          (\<lambda>p. e\<lparr>ve_deleted_files := insort_insert p (ve_deleted_files e)\<rparr>)
      else if tag = kNewFile then
        get_or ''new-file entry''
          (do { (level, input) \<leftarrow> GetLevel input; (number, input) \<leftarrow> GetVarint64 input; (file_size, input) \<leftarrow> GetVarint64 input;
                (smallest, input) \<leftarrow> GetInternalKey input; (largest, input) \<leftarrow> GetInternalKey input;
                Some ((level, make_FileMetaData number file_size smallest largest), input) })
          (\<lambda>p. e\<lparr>ve_new_files := ve_new_files e @ [p]\<rparr>)
      else Inl ''unknown tag'')"

lemma GetVarint32_shorter: "GetVarint32 input = Some (v, rest) \<Longrightarrow> length rest < length input"
  unfolding GetVarint32_def by (rule GetVarint32Ptr_shorter)

lemma GetVarint64_shorter:
  assumes "GetVarint64 input = Some (v, rest)"
  shows "length rest \<le> length input"
  using assms by (auto simp: GetVarint64_def GetVarint64Ptr_eq split: option.splits)

lemma prefixed_rest_shorter: "GetLengthPrefixedSlice input = Some (s, rest) \<Longrightarrow> length rest \<le> length input"
  by (auto simp: GetLengthPrefixedSlice_def remove_prefix_def split: option.splits if_splits dest!: GetVarint32_shorter)

lemma GetLevel_shorter: "GetLevel input = Some (v, rest) \<Longrightarrow> length rest \<le> length input"
  by (auto simp: GetLevel_def split: option.splits if_splits dest!: GetVarint32_shorter)

lemma decode_field_shorter: "decode_edit_field tag e input = Inr (e', rest) \<Longrightarrow> length rest \<le> length input"
  by (auto simp: decode_edit_field_def get_or_def GetInternalKey_def bind_eq_Some_conv split: if_splits option.splits
      dest!: GetVarint64_shorter prefixed_rest_shorter GetLevel_shorter)

function edit_loop :: "VersionEdit \<Rightarrow> slice \<Rightarrow> string option \<times> VersionEdit \<times> slice" where
  "edit_loop e input =
     (case GetVarint32 input of None \<Rightarrow> (None, e, input)
      | Some (tag, input) \<Rightarrow>
          (case decode_edit_field tag e input of Inl msg \<Rightarrow> (Some msg, e, input) | Inr (e, input) \<Rightarrow> edit_loop e input))"
  by pat_completeness auto
termination
  by (relation "measure (\<lambda>(e, input). length input)") (auto dest!: GetVarint32_shorter decode_field_shorter)

declare edit_loop.simps [simp del]

definition VersionEdit_DecodeFrom :: "slice \<Rightarrow> VersionEdit \<Rightarrow> Status \<times> VersionEdit" where
  "VersionEdit_DecodeFrom src e =
     (case edit_loop (VersionEdit_Clear e) src of (msg, e, input) \<Rightarrow>
        let msg = (if msg = None \<and> input \<noteq> [] then Some ''invalid tag'' else msg) in
        (case msg of None \<Rightarrow> OK | Some m \<Rightarrow> Corruption ''VersionEdit'' m, e))"

subsection \<open>Debug output\<close>

definition int_to_uint64 :: "int \<Rightarrow> 64 word" where
  "int_to_uint64 i = word_of_int i"

definition ParsedInternalKey_DebugString :: "ParsedInternalKey \<Rightarrow> byte list" where
  "ParsedInternalKey_DebugString k =
     bytes_of [CHR 0x27] @ EscapeString (user_key k) @ bytes_of [CHR 0x27] @ bytes_of '' @ '' @ decimal_bytes (unat (sequence k)) @
     bytes_of '' : '' @ decimal_bytes (type_code (key_type k))"

definition InternalKey_DebugString :: "slice \<Rightarrow> byte list" where
  "InternalKey_DebugString rep =
     (case ParseInternalKey rep of Some parsed \<Rightarrow> ParsedInternalKey_DebugString parsed
      | None \<Rightarrow> bytes_of ''(bad)'' @ EscapeString rep)"

definition debug_number :: "bool \<Rightarrow> string \<Rightarrow> 64 word \<Rightarrow> byte list \<Rightarrow> byte list" where
  "debug_number has label num r = (if has then AppendNumberTo (r @ bytes_of (CHR 0x0A # label)) num else r)"

definition VersionEdit_DebugString :: "VersionEdit \<Rightarrow> byte list" where
  "VersionEdit_DebugString e =
     (let r = bytes_of ''VersionEdit {'';
          r = (if ve_has_comparator e then r @ bytes_of (CHR 0x0A # ''  Comparator: '') @ ve_comparator e else r);
          r = debug_number (ve_has_log_number e) ''  LogNumber: '' (ve_log_number e) r;
          r = debug_number (ve_has_prev_log_number e) ''  PrevLogNumber: '' (ve_prev_log_number e) r;
          r = debug_number (ve_has_next_file_number e) ''  NextFile: '' (ve_next_file_number e) r;
          r = debug_number (ve_has_last_sequence e) ''  LastSeq: '' (ve_last_sequence e) r;
          r = fold (\<lambda>(level, key) r.
                AppendNumberTo (r @ bytes_of (CHR 0x0A # ''  CompactPointer: '')) (int_to_uint64 level) @ bytes_of '' '' @
                InternalKey_DebugString key) (ve_compact_pointers e) r;
          r = fold (\<lambda>(level, number) r.
                AppendNumberTo (AppendNumberTo (r @ bytes_of (CHR 0x0A # ''  DeleteFile: '')) (int_to_uint64 level) @ bytes_of '' '') number)
                (ve_deleted_files e) r;
          r = fold (\<lambda>(level, f) r.
                AppendNumberTo (AppendNumberTo (AppendNumberTo (r @ bytes_of (CHR 0x0A # ''  AddFile: '')) (int_to_uint64 level) @
                  bytes_of '' '') (fm_number f) @ bytes_of '' '') (fm_file_size f) @ bytes_of '' '' @
                InternalKey_DebugString (fm_smallest f) @ bytes_of '' .. '' @ InternalKey_DebugString (fm_largest f))
                (ve_new_files e) r
      in r @ bytes_of [CHR 0x0A, CHR ''}'', CHR 0x0A])"

subsection \<open>Edits are read back\<close>

lemma put_append:
  "put_number has tag num dst = dst @ put_number has tag num []"
  "put_deleted_files ds dst = dst @ put_deleted_files ds []"
proof -
  show "put_number has tag num dst = dst @ put_number has tag num []" by (simp add: put_number_def PutVarint64_def PutVarint32_def)
  show "put_deleted_files ds dst = dst @ put_deleted_files ds []"
  proof (induction ds arbitrary: dst)
    case (Cons d ds)
    obtain l n where d: "d = (l, n)" by (cases d)
    show ?case using Cons.IH [of "PutVarint64 (PutVarint32 (PutVarint32 dst kDeletedFile) (word_of_int l)) n"]
        Cons.IH [of "PutVarint64 (PutVarint32 (PutVarint32 [] kDeletedFile) (word_of_int l)) n"]
      by (simp add: d PutVarint64_def PutVarint32_def)
  qed simp
qed

text \<open>The parts of an edit that its encoding can represent.\<close>

definition key_ok :: "slice \<Rightarrow> bool" where
  "key_ok k \<longleftrightarrow> k \<noteq> [] \<and> length k < 2 ^ 32"

definition level_ok :: "int \<Rightarrow> bool" where
  "level_ok level \<longleftrightarrow> 0 \<le> level \<and> level < kNumLevels"

definition file_ok :: "FileMetaData \<Rightarrow> bool" where
  "file_ok f \<longleftrightarrow> key_ok (fm_smallest f) \<and> key_ok (fm_largest f) \<and> fm_refs f = 0 \<and> fm_allowed_seeks f = 2 ^ 30"

lemma GetLevel_Put: "level_ok l \<Longrightarrow> GetLevel (EncodeVarint32 (word_of_int l) @ rest) = Some (l, rest)"
proof -
  assume l: "level_ok l"
  have u: "uint (word_of_int l :: 32 word) = l" using l by (simp add: level_ok_def kNumLevels_def uint_word_of_int)
  then have "(word_of_int l :: 32 word) < word_of_int kNumLevels" using l by (simp add: word_less_alt level_ok_def kNumLevels_def)
  with u show ?thesis by (simp add: GetLevel_def GetVarint32_Encode)
qed

lemma prefixed: "PutLengthPrefixedSlice dst s = dst @ PutLengthPrefixedSlice [] s"
  by (simp add: PutLengthPrefixedSlice_def PutVarint32_def)

lemma decode_tag:
  "edit_loop e (EncodeVarint32 tag @ rest) =
     (case decode_edit_field tag e rest of Inl msg \<Rightarrow> (Some msg, e, rest) | Inr (e, rest) \<Rightarrow> edit_loop e rest)"
  by (subst edit_loop.simps) (simp add: GetVarint32_Encode)

lemma decode_pointers:
  assumes "\<forall>(l, k) \<in> set ps. level_ok l \<and> key_ok k"
  shows "\<exists>bs. (\<forall>dst. put_compact_pointers ps dst = Some (dst @ bs)) \<and>
    (\<forall>e rest. edit_loop e (bs @ rest) = edit_loop (e\<lparr>ve_compact_pointers := ve_compact_pointers e @ ps\<rparr>) rest)"
  using assms
proof (induction ps)
  case (Cons p ps)
  obtain l k where p: "p = (l, k)" by (cases p)
  with Cons.prems have ok: "level_ok l" "key_ok k" by auto
  from Cons obtain bs where bs: "\<And>dst. put_compact_pointers ps dst = Some (dst @ bs)"
    "\<And>e rest. edit_loop e (bs @ rest) = edit_loop (e\<lparr>ve_compact_pointers := ve_compact_pointers e @ ps\<rparr>) rest" by auto
  let ?b = "EncodeVarint32 kCompactPointer @ EncodeVarint32 (word_of_int l) @ PutLengthPrefixedSlice [] k"
  have "put_compact_pointers (p # ps) dst = Some (dst @ ?b @ bs)" for dst
    using ok(2) bs(1) prefixed [of "dst @ EncodeVarint32 kCompactPointer @ EncodeVarint32 (word_of_int l)" k]
    by (simp add: p InternalKey_Encode_def key_ok_def PutVarint32_def)
  moreover have "edit_loop e ((?b @ bs) @ rest) = edit_loop (e\<lparr>ve_compact_pointers := ve_compact_pointers e @ p # ps\<rparr>) rest" for e rest
    using ok bs(2) by (simp add: decode_tag decode_edit_field_def tags get_or_def GetLevel_Put GetInternalKey_def GetLengthPrefixedSlice_Put key_ok_def p)
  ultimately show ?case by blast
qed simp

lemma decode_deleted:
  assumes "\<forall>(l, n) \<in> set ds. level_ok l"
  shows "edit_loop e (put_deleted_files ds [] @ rest) = edit_loop (e\<lparr>ve_deleted_files := fold insort_insert ds (ve_deleted_files e)\<rparr>) rest"
  using assms
proof (induction ds arbitrary: e)
  case (Cons d ds)
  obtain l n where d: "d = (l, n)" by (cases d)
  with Cons.prems have l: "level_ok l" by auto
  have "put_deleted_files (d # ds) [] = EncodeVarint32 kDeletedFile @ EncodeVarint32 (word_of_int l) @ EncodeVarint64 n @ put_deleted_files ds []"
    using put_append(2) [of ds "EncodeVarint32 kDeletedFile @ EncodeVarint32 (word_of_int l) @ EncodeVarint64 n"]
    by (simp add: d PutVarint64_def PutVarint32_def)
  then show ?case
    using l Cons.IH Cons.prems by (simp add: decode_tag decode_edit_field_def tags get_or_def GetLevel_Put GetVarint64_Encode d)
qed simp

lemma decode_files:
  assumes "\<forall>(l, f) \<in> set fs. level_ok l \<and> file_ok f"
  shows "\<exists>bs. (\<forall>dst. put_new_files fs dst = Some (dst @ bs)) \<and>
    (\<forall>e rest. edit_loop e (bs @ rest) = edit_loop (e\<lparr>ve_new_files := ve_new_files e @ fs\<rparr>) rest)"
  using assms
proof (induction fs)
  case (Cons p fs)
  obtain l f where p: "p = (l, f)" by (cases p)
  with Cons.prems have ok: "level_ok l" "file_ok f" by auto
  from Cons obtain bs where bs: "\<And>dst. put_new_files fs dst = Some (dst @ bs)"
    "\<And>e rest. edit_loop e (bs @ rest) = edit_loop (e\<lparr>ve_new_files := ve_new_files e @ fs\<rparr>) rest" by auto
  have f: "make_FileMetaData (fm_number f) (fm_file_size f) (fm_smallest f) (fm_largest f) = f"
    using ok(2) by (simp add: make_FileMetaData_def file_ok_def)
  let ?b = "EncodeVarint32 kNewFile @ EncodeVarint32 (word_of_int l) @ EncodeVarint64 (fm_number f) @ EncodeVarint64 (fm_file_size f) @
    PutLengthPrefixedSlice [] (fm_smallest f) @ PutLengthPrefixedSlice [] (fm_largest f)"
  have "put_new_files (p # fs) dst = Some (dst @ ?b @ bs)" for dst
    using ok(2) bs(1) prefixed [of "_ @ _" "fm_smallest f"] prefixed [of "_ @ _" "fm_largest f"]
    by (simp add: p InternalKey_Encode_def key_ok_def file_ok_def PutVarint32_def PutVarint64_def Let_def)
  moreover have "edit_loop e ((?b @ bs) @ rest) = edit_loop (e\<lparr>ve_new_files := ve_new_files e @ p # fs\<rparr>) rest" for e rest
    using ok bs(2) by (simp add: decode_tag decode_edit_field_def tags get_or_def GetLevel_Put GetVarint64_Encode GetInternalKey_def GetLengthPrefixedSlice_Put
      key_ok_def file_ok_def p f)
  ultimately show ?case by blast
qed simp

lemma decode_numbers:
  "edit_loop e (put_number has kLogNumber n [] @ rest) =
    edit_loop (if has then e\<lparr>ve_log_number := n, ve_has_log_number := True\<rparr> else e) rest"
  "edit_loop e (put_number has kPrevLogNumber n [] @ rest) =
    edit_loop (if has then e\<lparr>ve_prev_log_number := n, ve_has_prev_log_number := True\<rparr> else e) rest"
  "edit_loop e (put_number has kNextFileNumber n [] @ rest) =
    edit_loop (if has then e\<lparr>ve_next_file_number := n, ve_has_next_file_number := True\<rparr> else e) rest"
  "edit_loop e (put_number has kLastSequence n [] @ rest) =
    edit_loop (if has then e\<lparr>ve_last_sequence := n, ve_has_last_sequence := True\<rparr> else e) rest"
  by (simp_all add: put_number_def PutVarint64_def PutVarint32_def decode_tag decode_edit_field_def get_or_def GetVarint64_Encode tags)

lemma decode_comparator:
  "length name < 2 ^ 32 \<Longrightarrow>
   edit_loop e ((if has then EncodeVarint32 kComparator @ PutLengthPrefixedSlice [] name else []) @ rest) =
    edit_loop (if has then e\<lparr>ve_comparator := name, ve_has_comparator := True\<rparr> else e) rest"
  by (simp add: decode_tag decode_edit_field_def get_or_def GetLengthPrefixedSlice_Put tags)

lemma fold_insort_insert:
  fixes ds :: "'a::linorder list"
  assumes "sorted (xs @ ds)" "distinct (xs @ ds)"
  shows "fold insort_insert ds xs = xs @ ds"
  using assms
proof (induction ds arbitrary: xs)
  case (Cons d ds)
  have "insort_insert d xs = xs @ [d]"
    using Cons.prems by (auto simp: insort_insert_key_def sorted_append intro!: sorted_insort_is_snoc)
  then show ?case using Cons.IH [of "xs @ [d]"] Cons.prems by simp
qed simp

subsection \<open>Edits that the code builds\<close>

inductive edit_built :: "VersionEdit \<Rightarrow> bool" where
  empty: "edit_built make_VersionEdit"
| comparator: "edit_built e \<Longrightarrow> length name < 2 ^ 32 \<Longrightarrow> edit_built (SetComparatorName name e)"
| log_number: "edit_built e \<Longrightarrow> edit_built (SetLogNumber n e)"
| prev_log_number: "edit_built e \<Longrightarrow> edit_built (SetPrevLogNumber n e)"
| next_file: "edit_built e \<Longrightarrow> edit_built (SetNextFile n e)"
| last_sequence: "edit_built e \<Longrightarrow> edit_built (SetLastSequence n e)"
| compact_pointer: "edit_built e \<Longrightarrow> level_ok l \<Longrightarrow> key_ok k \<Longrightarrow> edit_built (SetCompactPointer l k e)"
| add_file: "edit_built e \<Longrightarrow> level_ok l \<Longrightarrow> key_ok s \<Longrightarrow> key_ok k \<Longrightarrow> edit_built (AddFile l n len s k e)"
| delete_file: "edit_built e \<Longrightarrow> level_ok l \<Longrightarrow> edit_built (VersionEdit_DeleteFile l n e)"

definition edit_ok :: "VersionEdit \<Rightarrow> bool" where
  "edit_ok e \<longleftrightarrow> length (ve_comparator e) < 2 ^ 32 \<and> (\<not> ve_has_comparator e \<longrightarrow> ve_comparator e = []) \<and>
     (\<not> ve_has_log_number e \<longrightarrow> ve_log_number e = 0) \<and> (\<not> ve_has_prev_log_number e \<longrightarrow> ve_prev_log_number e = 0) \<and>
     (\<not> ve_has_next_file_number e \<longrightarrow> ve_next_file_number e = 0) \<and> (\<not> ve_has_last_sequence e \<longrightarrow> ve_last_sequence e = 0) \<and>
     (\<forall>(l, k) \<in> set (ve_compact_pointers e). level_ok l \<and> key_ok k) \<and>
     (\<forall>(l, n) \<in> set (ve_deleted_files e). level_ok l) \<and> sorted (ve_deleted_files e) \<and> distinct (ve_deleted_files e) \<and>
     (\<forall>(l, f) \<in> set (ve_new_files e). level_ok l \<and> file_ok f)"

lemma edit_built_ok: "edit_built e \<Longrightarrow> edit_ok e"
proof (induction rule: edit_built.induct)
  case (delete_file e l n)
  then show ?case
    by (auto simp: edit_ok_def VersionEdit_DeleteFile_def set_insort_insert sorted_insort_insert distinct_insort_insert)
next
  case (add_file e l s k n len)
  then show ?case by (auto simp: edit_ok_def AddFile_def make_FileMetaData_def file_ok_def)
qed (auto simp: edit_ok_def make_VersionEdit_def SetComparatorName_def SetLogNumber_def SetPrevLogNumber_def SetNextFile_def
    SetLastSequence_def SetCompactPointer_def)

lemma edit_roundtrip:
  assumes "edit_ok e"
  shows "\<exists>bs. VersionEdit_EncodeTo e [] = Some bs \<and>
    VersionEdit_DecodeFrom bs e0 = (OK, e\<lparr>ve_compact_pointers := ve_compact_pointers e0 @ ve_compact_pointers e\<rparr>)"
proof -
  note ok = assms [unfolded edit_ok_def]
  obtain ps where ps: "\<And>dst. put_compact_pointers (ve_compact_pointers e) dst = Some (dst @ ps)"
    "\<And>e' rest. edit_loop e' (ps @ rest) = edit_loop (e'\<lparr>ve_compact_pointers := ve_compact_pointers e' @ ve_compact_pointers e\<rparr>) rest"
    using decode_pointers [of "ve_compact_pointers e"] ok by blast
  obtain fs where fs: "\<And>dst. put_new_files (ve_new_files e) dst = Some (dst @ fs)"
    "\<And>e' rest. edit_loop e' (fs @ rest) = edit_loop (e'\<lparr>ve_new_files := ve_new_files e' @ ve_new_files e\<rparr>) rest"
    using decode_files [of "ve_new_files e"] ok by blast
  obtain ds where ds: "\<And>dst. put_deleted_files (ve_deleted_files e) dst = dst @ ds"
    "\<And>e' rest. edit_loop e' (ds @ rest) = edit_loop (e'\<lparr>ve_deleted_files := fold insort_insert (ve_deleted_files e) (ve_deleted_files e')\<rparr>) rest"
    using put_append(2) [of "ve_deleted_files e"] decode_deleted [of "ve_deleted_files e"] ok by blast
  let ?c = "if ve_has_comparator e then EncodeVarint32 kComparator @ PutLengthPrefixedSlice [] (ve_comparator e) else []"
  let ?n = "\<lambda>has tag num. put_number has tag num []"
  let ?bs = "?c @ ?n (ve_has_log_number e) kLogNumber (ve_log_number e) @ ?n (ve_has_prev_log_number e) kPrevLogNumber (ve_prev_log_number e) @
    ?n (ve_has_next_file_number e) kNextFileNumber (ve_next_file_number e) @ ?n (ve_has_last_sequence e) kLastSequence (ve_last_sequence e) @
    ps @ ds @ fs @ []"
  have "VersionEdit_EncodeTo e [] = Some ?bs"
    unfolding VersionEdit_EncodeTo_def Let_def
    using prefixed [of "EncodeVarint32 kComparator" "ve_comparator e"]
    by (simp add: ps(1) fs(1) ds(1) PutVarint32_def PutVarint64_def put_number_def)
  moreover have "edit_loop (VersionEdit_Clear e0) ?bs =
    (None, e\<lparr>ve_compact_pointers := ve_compact_pointers e0 @ ve_compact_pointers e\<rparr>, [])"
  proof -
    have dl: "fold insort_insert (ve_deleted_files e) [] = ve_deleted_files e" using fold_insort_insert [of "[]" "ve_deleted_files e"] ok by simp
    have len: "length (ve_comparator e) < 2 ^ 32" using ok by blast
    have end_: "edit_loop e' [] = (None, e', [])" for e'
      by (subst edit_loop.simps) (simp add: GetVarint32_def GetVarint32Ptr_def GetVarint32PtrFallback_def)
    show ?thesis
      unfolding decode_comparator [OF len] decode_numbers ps(2) ds(2) fs(2) end_
      using ok dl by (simp add: VersionEdit_Clear_def)
  qed
  ultimately show ?thesis by (auto simp: VersionEdit_DecodeFrom_def)
qed

text \<open>
  C39. An edit survives the descriptor. Every edit that is built by the setters, with levels of the database and keys that
  are not empty, has an encoding; decoding it succeeds on any edit and gives the same edit. The one part of
  the target that is kept are its compaction pointers, which stay in front of the new ones.
\<close>

theorem version_edit_roundtrip:
  assumes "edit_built e"
  shows "\<exists>bs. VersionEdit_EncodeTo e [] = Some bs \<and>
    VersionEdit_DecodeFrom bs e0 = (OK, e\<lparr>ve_compact_pointers := ve_compact_pointers e0 @ ve_compact_pointers e\<rparr>)"
  using edit_roundtrip [OF edit_built_ok [OF assms]] .

theorem version_edit_roundtrip_witness:
  "\<exists>bs. VersionEdit_EncodeTo (AddFile 1 5 100 [97, 0, 0, 0, 0, 0, 0, 0, 1] [98, 0, 0, 0, 0, 0, 0, 0, 1] (VersionEdit_DeleteFile 0 3
      (SetLogNumber 9 make_VersionEdit))) [] = Some bs \<and>
    snd (VersionEdit_DecodeFrom bs make_VersionEdit) = AddFile 1 5 100 [97, 0, 0, 0, 0, 0, 0, 0, 1] [98, 0, 0, 0, 0, 0, 0, 0, 1]
      (VersionEdit_DeleteFile 0 3 (SetLogNumber 9 make_VersionEdit))"
proof -
  have "edit_built (AddFile 1 5 100 [97, 0, 0, 0, 0, 0, 0, 0, 1] [98, 0, 0, 0, 0, 0, 0, 0, 1] (VersionEdit_DeleteFile 0 3
      (SetLogNumber 9 make_VersionEdit)))"
    by (intro edit_built.intros) (simp_all add: level_ok_def kNumLevels_def key_ok_def)
  from version_edit_roundtrip [OF this, of make_VersionEdit] show ?thesis
    by (auto simp: AddFile_def VersionEdit_DeleteFile_def SetLogNumber_def make_VersionEdit_def)
qed

end
