(* ===== verification/Ldb_Version.thy ===== *)
theory Ldb_Version
  imports Ldb_Version_Edit Ldb_Posix_Env Ldb_Memtable Ldb_Table
begin

text \<open>
  The versions of a database (\<^verbatim>\<open>version_set.cc\<close>, first part): lists of table files per level, the search for a file, for
  the files that overlap a range of keys and for the newest entry of a key.

  A \<^verbatim>\<open>FileMetaData*\<close> is a number, the address of the object in the memory \<open>h\<close>. The keys of a file are valid internal keys, as
  the assertions of \<^verbatim>\<open>InternalKey\<close> demand; a level has less than \<open>2\<^sup>3\<^sup>1\<close> files, so that the 32-bit indices do not wrap around.
  The user comparator and the table cache are arguments. Floating-point numbers, which only rank the levels, are an argument too:
  a type with the operations that the code applies to them.
\<close>

subsection \<open>Files and limits\<close>

type_synonym fptr = nat
type_synonym file_mem = "nat \<Rightarrow> FileMetaData"

record DbOptions = Options +
  opt_max_file_size :: "64 word"
  opt_reuse_logs :: bool

definition TargetFileSize :: "DbOptions \<Rightarrow> 64 word" where
  "TargetFileSize options = opt_max_file_size options"

definition MaxGrandParentOverlapBytes :: "DbOptions \<Rightarrow> int" where
  "MaxGrandParentOverlapBytes options = sint (10 * TargetFileSize options)"

definition ExpandedCompactionByteSizeLimit :: "DbOptions \<Rightarrow> int" where
  "ExpandedCompactionByteSizeLimit options = sint (25 * TargetFileSize options)"

definition MaxFileSizeForLevel :: "DbOptions \<Rightarrow> nat \<Rightarrow> 64 word" where
  "MaxFileSizeForLevel options level = TargetFileSize options"

record 'd double_ops =
  d_int :: "int \<Rightarrow> 'd"
  d_uint64 :: "64 word \<Rightarrow> 'd"
  d_times :: "'d \<Rightarrow> 'd \<Rightarrow> 'd"
  d_divide :: "'d \<Rightarrow> 'd \<Rightarrow> 'd"
  d_less :: "'d \<Rightarrow> 'd \<Rightarrow> bool"
  d_less_eq :: "'d \<Rightarrow> 'd \<Rightarrow> bool"

definition MaxBytesForLevel :: "'d double_ops \<Rightarrow> nat \<Rightarrow> 'd" where
  "MaxBytesForLevel D level =
     ((\<lambda>result. d_times D result (d_int D 10)) ^^ (level - 1)) (d_times D (d_int D 10) (d_int D 1048576))"

text \<open>The sum is an \<^verbatim>\<open>int64_t\<close>, to which a \<^verbatim>\<open>uint64_t\<close> is added.\<close>

definition TotalFileSize :: "file_mem \<Rightarrow> fptr list \<Rightarrow> int" where
  "TotalFileSize h files = fold (\<lambda>f sum. sint ((word_of_int sum :: 64 word) + fm_file_size (h f))) files 0"

definition file_start :: "file_mem \<Rightarrow> fptr \<Rightarrow> slice" where
  "file_start h f = ExtractUserKey (fm_smallest (h f))"

definition file_limit :: "file_mem \<Rightarrow> fptr \<Rightarrow> slice" where
  "file_limit h f = ExtractUserKey (fm_largest (h f))"

subsection \<open>Searching a level\<close>

function find_file_loop :: "(slice \<Rightarrow> slice \<Rightarrow> int) \<Rightarrow> file_mem \<Rightarrow> fptr list \<Rightarrow> slice \<Rightarrow> nat \<Rightarrow> nat \<Rightarrow> nat" where
  "find_file_loop ucmp h files key left right =
     (if left < right then
        let mid = (left + right) div 2 in
        if InternalKey_Compare ucmp (fm_largest (h (files ! mid))) key < 0 then find_file_loop ucmp h files key (mid + 1) right
        else find_file_loop ucmp h files key left mid
      else right)"
  by pat_completeness auto
termination
  by (relation "measure (\<lambda>(ucmp, h, files, key, left, right). right - left)") auto

declare find_file_loop.simps [simp del]

definition FindFile :: "(slice \<Rightarrow> slice \<Rightarrow> int) \<Rightarrow> file_mem \<Rightarrow> fptr list \<Rightarrow> slice \<Rightarrow> nat" where
  "FindFile ucmp h files key = find_file_loop ucmp h files key 0 (length files)"

definition AfterFile :: "(slice \<Rightarrow> slice \<Rightarrow> int) \<Rightarrow> file_mem \<Rightarrow> slice option \<Rightarrow> fptr \<Rightarrow> bool" where
  "AfterFile ucmp h ukey f = (case ukey of None \<Rightarrow> False | Some k \<Rightarrow> ucmp k (file_limit h f) > 0)"

definition BeforeFile :: "(slice \<Rightarrow> slice \<Rightarrow> int) \<Rightarrow> file_mem \<Rightarrow> slice option \<Rightarrow> fptr \<Rightarrow> bool" where
  "BeforeFile ucmp h ukey f = (case ukey of None \<Rightarrow> False | Some k \<Rightarrow> ucmp k (file_start h f) < 0)"

text \<open>\<^verbatim>\<open>InternalKey(user_key, sequence, type)\<close>\<close>

definition make_InternalKey :: "slice \<Rightarrow> 64 word \<Rightarrow> ValueType \<Rightarrow> slice" where
  "make_InternalKey ukey s t = AppendInternalKey [] (ParsedInternalKey ukey s t)"

fun scan_overlap :: "(slice \<Rightarrow> slice \<Rightarrow> int) \<Rightarrow> file_mem \<Rightarrow> slice option \<Rightarrow> slice option \<Rightarrow> fptr list \<Rightarrow> bool" where
  "scan_overlap ucmp h smallest_user_key largest_user_key [] = False"
| "scan_overlap ucmp h smallest_user_key largest_user_key (f # files) =
     (if AfterFile ucmp h smallest_user_key f \<or> BeforeFile ucmp h largest_user_key f
      then scan_overlap ucmp h smallest_user_key largest_user_key files
      else True)"

definition SomeFileOverlapsRange ::
  "(slice \<Rightarrow> slice \<Rightarrow> int) \<Rightarrow> file_mem \<Rightarrow> bool \<Rightarrow> fptr list \<Rightarrow> slice option \<Rightarrow> slice option \<Rightarrow> bool" where
  "SomeFileOverlapsRange ucmp h disjoint_sorted_files files smallest_user_key largest_user_key =
     (if \<not> disjoint_sorted_files then scan_overlap ucmp h smallest_user_key largest_user_key files
      else
        let index = (case smallest_user_key of None \<Rightarrow> 0
                     | Some k \<Rightarrow> FindFile ucmp h files (make_InternalKey k kMaxSequenceNumber kValueTypeForSeek)) in
        if index \<ge> length files then False else \<not> BeforeFile ucmp h largest_user_key (files ! index))"

subsection \<open>The iterator over the files of a level\<close>

text \<open>The list and the index; an index beyond the list is not valid.\<close>

record LevelFileNumIterator =
  lf_flist :: "fptr list"
  lf_index :: nat

definition make_LevelFileNumIterator :: "fptr list \<Rightarrow> LevelFileNumIterator" where
  "make_LevelFileNumIterator flist = \<lparr>lf_flist = flist, lf_index = length flist\<rparr>"

definition LevelFile_Valid :: "LevelFileNumIterator \<Rightarrow> bool" where
  "LevelFile_Valid it \<longleftrightarrow> lf_index it < length (lf_flist it)"

definition LevelFile_Seek :: "(slice \<Rightarrow> slice \<Rightarrow> int) \<Rightarrow> file_mem \<Rightarrow> slice \<Rightarrow> LevelFileNumIterator \<Rightarrow> LevelFileNumIterator" where
  "LevelFile_Seek ucmp h target it = it\<lparr>lf_index := FindFile ucmp h (lf_flist it) target\<rparr>"

definition LevelFile_SeekToFirst :: "LevelFileNumIterator \<Rightarrow> LevelFileNumIterator" where
  "LevelFile_SeekToFirst it = it\<lparr>lf_index := 0\<rparr>"

definition LevelFile_SeekToLast :: "LevelFileNumIterator \<Rightarrow> LevelFileNumIterator" where
  "LevelFile_SeekToLast it = it\<lparr>lf_index := (if lf_flist it = [] then 0 else length (lf_flist it) - 1)\<rparr>"

definition LevelFile_Next :: "LevelFileNumIterator \<Rightarrow> LevelFileNumIterator option" where
  "LevelFile_Next it = (if LevelFile_Valid it then Some (it\<lparr>lf_index := lf_index it + 1\<rparr>) else None)"

definition LevelFile_Prev :: "LevelFileNumIterator \<Rightarrow> LevelFileNumIterator option" where
  "LevelFile_Prev it =
     (if LevelFile_Valid it
      then Some (it\<lparr>lf_index := (if lf_index it = 0 then length (lf_flist it) else lf_index it - 1)\<rparr>)
      else None)"

definition LevelFile_key :: "file_mem \<Rightarrow> LevelFileNumIterator \<Rightarrow> slice option" where
  "LevelFile_key h it = (if LevelFile_Valid it then InternalKey_Encode (fm_largest (h (lf_flist it ! lf_index it))) else None)"

definition LevelFile_value :: "file_mem \<Rightarrow> LevelFileNumIterator \<Rightarrow> slice option" where
  "LevelFile_value h it =
     (if LevelFile_Valid it then
        let f = h (lf_flist it ! lf_index it) in Some (EncodeFixed64 (fm_number f) @ EncodeFixed64 (fm_file_size f))
      else None)"

subsection \<open>Versions\<close>

record 'd Version =
  v_refs :: int
  v_files :: "fptr list list"
  v_file_to_compact :: "fptr option"
  v_file_to_compact_level :: int
  v_compaction_score :: 'd
  v_compaction_level :: int

definition make_Version :: "'d double_ops \<Rightarrow> 'd Version" where
  "make_Version D =
     \<lparr>v_refs = 0, v_files = replicate (nat kNumLevels) [], v_file_to_compact = None, v_file_to_compact_level = - 1,
      v_compaction_score = d_int D (- 1), v_compaction_level = - 1\<rparr>"

datatype SaverState = kNotFound' | kFound | kDeleted | kCorrupt

text \<open>What \<^verbatim>\<open>SaveValue\<close> leaves in the saver and in the value, from the state \<^verbatim>\<open>kNotFound\<close>.\<close>

definition SaveValue :: "(slice \<Rightarrow> slice \<Rightarrow> int) \<Rightarrow> slice \<Rightarrow> slice \<Rightarrow> slice \<Rightarrow> SaverState \<times> slice option" where
  "SaveValue ucmp ukey ikey v =
     (case ParseInternalKey ikey of None \<Rightarrow> (kCorrupt, None)
      | Some parsed_key \<Rightarrow>
          if ucmp (user_key parsed_key) ukey = 0
          then (if key_type parsed_key = kTypeValue then (kFound, Some v) else (kDeleted, None))
          else (kNotFound', None))"

text \<open>\<^verbatim>\<open>std::sort\<close> with \<^verbatim>\<open>NewestFirst\<close>: decreasing file numbers.\<close>

definition NewestFirst :: "file_mem \<Rightarrow> fptr \<Rightarrow> fptr \<Rightarrow> bool" where
  "NewestFirst h a b \<longleftrightarrow> fm_number (h a) > fm_number (h b)"

definition sort_newest :: "file_mem \<Rightarrow> fptr list \<Rightarrow> fptr list" where
  "sort_newest h files = sort_key (\<lambda>f. - int (unat (fm_number (h f)))) files"

text \<open>The files of one level in which a key may be found, in the order in which they are searched.\<close>

definition level0_files :: "(slice \<Rightarrow> slice \<Rightarrow> int) \<Rightarrow> file_mem \<Rightarrow> slice \<Rightarrow> fptr list \<Rightarrow> fptr list" where
  "level0_files ucmp h ukey files = sort_newest h (filter (\<lambda>f. ucmp ukey (file_start h f) \<ge> 0 \<and> ucmp ukey (file_limit h f) \<le> 0) files)"

definition level_file :: "(slice \<Rightarrow> slice \<Rightarrow> int) \<Rightarrow> file_mem \<Rightarrow> slice \<Rightarrow> slice \<Rightarrow> fptr list \<Rightarrow> fptr list" where
  "level_file ucmp h ukey ikey files =
     (let index = FindFile ucmp h files ikey in
      if index \<ge> length files then []
      else if ucmp ukey (file_start h (files ! index)) < 0 then [] else [files ! index])"

definition files_to_search :: "(slice \<Rightarrow> slice \<Rightarrow> int) \<Rightarrow> file_mem \<Rightarrow> slice \<Rightarrow> slice \<Rightarrow> nat \<Rightarrow> fptr list \<Rightarrow> fptr list" where
  "files_to_search ucmp h ukey ikey level files =
     (if files = [] then [] else if level = 0 then level0_files ucmp h ukey files else level_file ucmp h ukey ikey files)"

fun for_each_file :: "('a \<Rightarrow> nat \<Rightarrow> fptr \<Rightarrow> bool \<times> 'a) \<Rightarrow> nat \<Rightarrow> fptr list \<Rightarrow> 'a \<Rightarrow> bool \<times> 'a" where
  "for_each_file func level [] arg = (True, arg)"
| "for_each_file func level (f # fs) arg =
     (case func arg level f of (True, arg) \<Rightarrow> for_each_file func level fs arg | (False, arg) \<Rightarrow> (False, arg))"

fun for_each_level ::
  "('a \<Rightarrow> nat \<Rightarrow> fptr \<Rightarrow> bool \<times> 'a) \<Rightarrow> (slice \<Rightarrow> slice \<Rightarrow> int) \<Rightarrow> file_mem \<Rightarrow> slice \<Rightarrow> slice \<Rightarrow> nat \<Rightarrow> fptr list list \<Rightarrow> 'a \<Rightarrow> 'a" where
  "for_each_level func ucmp h ukey ikey level [] arg = arg"
| "for_each_level func ucmp h ukey ikey level (files # levels) arg =
     (case for_each_file func level (files_to_search ucmp h ukey ikey level files) arg of
        (True, arg) \<Rightarrow> for_each_level func ucmp h ukey ikey (level + 1) levels arg
      | (False, arg) \<Rightarrow> arg)"

definition ForEachOverlapping ::
  "(slice \<Rightarrow> slice \<Rightarrow> int) \<Rightarrow> file_mem \<Rightarrow> 'd Version \<Rightarrow> slice \<Rightarrow> slice \<Rightarrow> 'a \<Rightarrow> ('a \<Rightarrow> nat \<Rightarrow> fptr \<Rightarrow> bool \<times> 'a) \<Rightarrow> 'a" where
  "ForEachOverlapping ucmp h v ukey ikey arg func = for_each_level func ucmp h ukey ikey 0 (v_files v) arg"

subsection \<open>Lookup in a version\<close>

record GetStats =
  seek_file :: "fptr option"
  seek_file_level :: int

text \<open>
  The lookup in a table is \<^verbatim>\<open>TableCache::Get\<close>, an argument: the status and what the handler is called with. A state of the search
  is the statistics, the file read last with its level, and the cache.
\<close>

type_synonym 'c table_get = "'c \<Rightarrow> 64 word \<Rightarrow> 64 word \<Rightarrow> slice \<Rightarrow> ((Status \<times> (slice \<times> slice) option) \<times> 'c) option"
type_synonym 'c get_state = "GetStats \<times> (fptr \<times> nat) option \<times> 'c"

definition search_file ::
  "'c table_get \<Rightarrow> (slice \<Rightarrow> slice \<Rightarrow> int) \<Rightarrow> file_mem \<Rightarrow> slice \<Rightarrow> slice \<Rightarrow> nat \<Rightarrow> fptr \<Rightarrow> 'c get_state \<Rightarrow>
   ((Status \<times> slice option) option \<times> 'c get_state) option" where
  "search_file get ucmp h ukey ikey level f st =
     (case st of (stats, last_read, c) \<Rightarrow> do {
        let stats = (case last_read of Some (g, l) \<Rightarrow>
                       if seek_file stats = None then \<lparr>seek_file = Some g, seek_file_level = int l\<rparr> else stats
                     | None \<Rightarrow> stats);
        let last_read = Some (f, level);
        ((s, found), c) \<leftarrow> get c (fm_number (h f)) (fm_file_size (h f)) ikey;
        let saver = (case found of None \<Rightarrow> (kNotFound', None) | Some (k, v) \<Rightarrow> SaveValue ucmp ukey k v);
        Some (if \<not> ok s then Some (s, snd saver)
              else (case fst saver of
                      kNotFound' \<Rightarrow> None
                    | kFound \<Rightarrow> Some (s, snd saver)
                    | kDeleted \<Rightarrow> Some (NotFound [] [], None)
                    | kCorrupt \<Rightarrow> Some (Corruption ''corrupted key for '' (chars_of ukey), None)),
              stats, last_read, c)
      })"

fun search_level ::
  "'c table_get \<Rightarrow> (slice \<Rightarrow> slice \<Rightarrow> int) \<Rightarrow> file_mem \<Rightarrow> slice \<Rightarrow> slice \<Rightarrow> nat \<Rightarrow> fptr list \<Rightarrow> 'c get_state \<Rightarrow>
   ((Status \<times> slice option) option \<times> 'c get_state) option" where
  "search_level get ucmp h ukey ikey level [] st = Some (None, st)"
| "search_level get ucmp h ukey ikey level (f # fs) st = do {
     (r, st) \<leftarrow> search_file get ucmp h ukey ikey level f st;
     case r of None \<Rightarrow> search_level get ucmp h ukey ikey level fs st | Some res \<Rightarrow> Some (Some res, st)
   }"

fun search_levels ::
  "'c table_get \<Rightarrow> (slice \<Rightarrow> slice \<Rightarrow> int) \<Rightarrow> file_mem \<Rightarrow> slice \<Rightarrow> slice \<Rightarrow> nat \<Rightarrow> fptr list list \<Rightarrow> 'c get_state \<Rightarrow>
   ((Status \<times> slice option) \<times> 'c get_state) option" where
  "search_levels get ucmp h ukey ikey level [] st = Some ((NotFound [] [], None), st)"
| "search_levels get ucmp h ukey ikey level (files # levels) st = do {
     (r, st) \<leftarrow> search_level get ucmp h ukey ikey level (files_to_search ucmp h ukey ikey level files) st;
     case r of None \<Rightarrow> search_levels get ucmp h ukey ikey (level + 1) levels st | Some res \<Rightarrow> Some (res, st)
   }"

definition Version_Get ::
  "'c table_get \<Rightarrow> (slice \<Rightarrow> slice \<Rightarrow> int) \<Rightarrow> file_mem \<Rightarrow> 'd Version \<Rightarrow> LookupKey \<Rightarrow> 'c \<Rightarrow> ((Status \<times> slice option) \<times> GetStats \<times> 'c) option" where
  "Version_Get get ucmp h v k c = do {
     (r, stats, _, c) \<leftarrow> search_levels get ucmp h (lookup_user_key k) (internal_key k) 0 (v_files v)
       (\<lparr>seek_file = None, seek_file_level = - 1\<rparr>, None, c);
     Some (r, stats, c)
   }"

definition UpdateStats :: "GetStats \<Rightarrow> file_mem \<Rightarrow> 'd Version \<Rightarrow> bool \<times> file_mem \<times> 'd Version" where
  "UpdateStats stats h v =
     (case seek_file stats of None \<Rightarrow> (False, h, v)
      | Some f \<Rightarrow>
          let h = h(f := (h f)\<lparr>fm_allowed_seeks := fm_allowed_seeks (h f) - 1\<rparr>) in
          if fm_allowed_seeks (h f) \<le> 0 \<and> v_file_to_compact v = None
          then (True, h, v\<lparr>v_file_to_compact := Some f, v_file_to_compact_level := seek_file_level stats\<rparr>)
          else (False, h, v))"

text \<open>The number of matches and the statistics, which hold the first of them and have no value before it.\<close>

definition sample_Match :: "nat \<times> GetStats \<Rightarrow> nat \<Rightarrow> fptr \<Rightarrow> bool \<times> nat \<times> GetStats" where
  "sample_Match state level f =
     (case state of (matches, stats) \<Rightarrow>
        let matches = matches + 1;
            stats = (if matches = 1 then \<lparr>seek_file = Some f, seek_file_level = int level\<rparr> else stats)
        in (matches < 2, matches, stats))"

definition RecordReadSample ::
  "(slice \<Rightarrow> slice \<Rightarrow> int) \<Rightarrow> slice \<Rightarrow> file_mem \<Rightarrow> 'd Version \<Rightarrow> bool \<times> file_mem \<times> 'd Version" where
  "RecordReadSample ucmp ikey h v =
     (case ParseInternalKey ikey of None \<Rightarrow> (False, h, v)
      | Some parsed \<Rightarrow>
          (case ForEachOverlapping ucmp h v (user_key parsed) ikey (0, \<lparr>seek_file = None, seek_file_level = 0\<rparr>) sample_Match of
             (matches, stats) \<Rightarrow> if matches \<ge> 2 then UpdateStats stats h v else (False, h, v)))"

subsection \<open>Overlapping files\<close>

definition OverlapInLevel :: "(slice \<Rightarrow> slice \<Rightarrow> int) \<Rightarrow> file_mem \<Rightarrow> 'd Version \<Rightarrow> nat \<Rightarrow> slice option \<Rightarrow> slice option \<Rightarrow> bool" where
  "OverlapInLevel ucmp h v level smallest_user_key largest_user_key =
     SomeFileOverlapsRange ucmp h (level > 0) (v_files v ! level) smallest_user_key largest_user_key"

text \<open>A bound that is \<^verbatim>\<open>nullptr\<close> is \<open>None\<close>; the search of level 0 starts again when a file widens the range.\<close>

definition key_below :: "(slice \<Rightarrow> slice \<Rightarrow> int) \<Rightarrow> slice \<Rightarrow> slice option \<Rightarrow> bool" where
  "key_below ucmp k user_begin = (case user_begin of None \<Rightarrow> False | Some b \<Rightarrow> ucmp k b < 0)"

definition key_above :: "(slice \<Rightarrow> slice \<Rightarrow> int) \<Rightarrow> slice \<Rightarrow> slice option \<Rightarrow> bool" where
  "key_above ucmp k user_end = (case user_end of None \<Rightarrow> False | Some e \<Rightarrow> ucmp k e > 0)"

partial_function (option) overlap_loop ::
  "(slice \<Rightarrow> slice \<Rightarrow> int) \<Rightarrow> file_mem \<Rightarrow> nat \<Rightarrow> fptr list \<Rightarrow> slice option \<Rightarrow> slice option \<Rightarrow> nat \<Rightarrow> fptr list \<Rightarrow> fptr list option" where
  "overlap_loop ucmp h level files user_begin user_end i inputs =
     (if i < length files then
        if key_below ucmp (file_limit h (files ! i)) user_begin \<or> key_above ucmp (file_start h (files ! i)) user_end
        then overlap_loop ucmp h level files user_begin user_end (i + 1) inputs
        else if level = 0 \<and> key_below ucmp (file_start h (files ! i)) user_begin
        then overlap_loop ucmp h level files (Some (file_start h (files ! i))) user_end 0 []
        else if level = 0 \<and> key_above ucmp (file_limit h (files ! i)) user_end
        then overlap_loop ucmp h level files user_begin (Some (file_limit h (files ! i))) 0 []
        else overlap_loop ucmp h level files user_begin user_end (i + 1) (inputs @ [files ! i])
      else Some inputs)"

definition GetOverlappingInputs ::
  "(slice \<Rightarrow> slice \<Rightarrow> int) \<Rightarrow> file_mem \<Rightarrow> 'd Version \<Rightarrow> nat \<Rightarrow> slice option \<Rightarrow> slice option \<Rightarrow> fptr list option" where
  "GetOverlappingInputs ucmp h v level begin_key end_key =
     (if int level < kNumLevels then
        overlap_loop ucmp h level (v_files v ! level) (map_option ExtractUserKey begin_key) (map_option ExtractUserKey end_key) 0 []
      else None)"

definition kMaxMemCompactLevel :: nat where
  "kMaxMemCompactLevel = 2"

function pick_level ::
  "DbOptions \<Rightarrow> (slice \<Rightarrow> slice \<Rightarrow> int) \<Rightarrow> file_mem \<Rightarrow> 'd Version \<Rightarrow> slice \<Rightarrow> slice \<Rightarrow> nat \<Rightarrow> nat option" where
  "pick_level options ucmp h v smallest_user_key largest_user_key level =
     (if level < kMaxMemCompactLevel then
        if OverlapInLevel ucmp h v (level + 1) (Some smallest_user_key) (Some largest_user_key) then Some level
        else do {
          too_many \<leftarrow>
            (if int (level + 2) < kNumLevels then do {
               overlaps \<leftarrow> GetOverlappingInputs ucmp h v (level + 2)
                 (Some (make_InternalKey smallest_user_key kMaxSequenceNumber kValueTypeForSeek))
                 (Some (make_InternalKey largest_user_key 0 kTypeDeletion));
               Some (TotalFileSize h overlaps > MaxGrandParentOverlapBytes options)
             } else Some False);
          if too_many then Some level
          else pick_level options ucmp h v smallest_user_key largest_user_key (level + 1)
        }
      else Some level)"
  by pat_completeness auto
termination
  by (relation "measure (\<lambda>(options, ucmp, h, v, s, l, level). kMaxMemCompactLevel - level)") auto

declare pick_level.simps [simp del]

definition PickLevelForMemTableOutput ::
  "DbOptions \<Rightarrow> (slice \<Rightarrow> slice \<Rightarrow> int) \<Rightarrow> file_mem \<Rightarrow> 'd Version \<Rightarrow> slice \<Rightarrow> slice \<Rightarrow> nat option" where
  "PickLevelForMemTableOutput options ucmp h v smallest_user_key largest_user_key =
     (if OverlapInLevel ucmp h v 0 (Some smallest_user_key) (Some largest_user_key) then Some 0
      else pick_level options ucmp h v smallest_user_key largest_user_key 0)"

definition debug_file :: "file_mem \<Rightarrow> fptr \<Rightarrow> byte list \<Rightarrow> byte list" where
  "debug_file h f r =
     AppendNumberTo (AppendNumberTo (r @ bytes_of '' '') (fm_number (h f)) @ bytes_of '':'') (fm_file_size (h f)) @
     bytes_of ''['' @ InternalKey_DebugString (fm_smallest (h f)) @ bytes_of '' .. '' @ InternalKey_DebugString (fm_largest (h f)) @
     bytes_of ('']'' @ [CHR 0x0A])"

definition Version_DebugString :: "file_mem \<Rightarrow> 'd Version \<Rightarrow> byte list" where
  "Version_DebugString h v =
     fold (\<lambda>(level, files) r.
       fold (debug_file h) files
         (AppendNumberTo (r @ bytes_of ''--- level '') (word_of_nat level) @ bytes_of ('' ---'' @ [CHR 0x0A])))
       (zip [0..<nat kNumLevels] (v_files v)) []"

end
