(* ===== verification/Ldb_Version_Spec.thy ===== *)
theory Ldb_Version_Spec
  imports Ldb_Version Ldb_Table_Spec
begin

text \<open>
  What the searches of a version give: the file that may hold a key, the files that overlap a range of user keys, and, over any
  table cache that finds the entries of the tables, the newest visible entry of a key.
\<close>

subsection \<open>Files in order\<close>

abbreviation icmp :: "slice \<Rightarrow> slice \<Rightarrow> int" where
  "icmp \<equiv> InternalKey_Compare slice_compare"

lemma icmp_less: "icmp a b < 0 \<longleftrightarrow>
    ExtractUserKey a < ExtractUserKey b \<or> ExtractUserKey a = ExtractUserKey b \<and> ExtractTag b < ExtractTag a"
  by (auto simp: bytewise.internal_compare_iff(1) slice_compare_eq)

lemma icmp_greater: "icmp a b > 0 \<longleftrightarrow> icmp b a < 0"
  by (auto simp: bytewise.internal_compare_iff slice_compare_eq)

lemma icmp_trans: "icmp a b < 0 \<Longrightarrow> icmp b c < 0 \<Longrightarrow> icmp a c < 0"
  by (auto simp: icmp_less)

lemma icmp_le_trans: "\<not> icmp b a < 0 \<Longrightarrow> icmp b c < 0 \<Longrightarrow> icmp a c < 0" "icmp a b < 0 \<Longrightarrow> \<not> icmp c b < 0 \<Longrightarrow> icmp a c < 0"
  by (auto simp: icmp_less)

lemma ucmp_sign [simp]: "slice_compare a b < 0 \<longleftrightarrow> a < b" "slice_compare a b > 0 \<longleftrightarrow> b < a" "slice_compare a b \<ge> 0 \<longleftrightarrow> b \<le> a"
  "slice_compare a b \<le> 0 \<longleftrightarrow> a \<le> b" "slice_compare a b = 0 \<longleftrightarrow> a = b"
  by (auto simp: slice_compare_eq)

text \<open>A key on disk: its tag is not above the largest sequence number with the larger of the two types.\<close>

definition key_wf :: "slice \<Rightarrow> bool" where
  "key_wf k \<longleftrightarrow> valid_key k \<and> ExtractTag k \<le> PackSequenceAndType kMaxSequenceNumber kValueTypeForSeek"

definition file_wf :: "file_mem \<Rightarrow> fptr \<Rightarrow> bool" where
  "file_wf h f \<longleftrightarrow> key_wf (fm_smallest (h f)) \<and> key_wf (fm_largest (h f)) \<and> \<not> icmp (fm_largest (h f)) (fm_smallest (h f)) < 0"

definition before_file :: "file_mem \<Rightarrow> fptr \<Rightarrow> fptr \<Rightarrow> bool" where
  "before_file h f g \<longleftrightarrow> icmp (fm_largest (h f)) (fm_smallest (h g)) < 0"

definition level_sorted :: "file_mem \<Rightarrow> fptr list \<Rightarrow> bool" where
  "level_sorted h files \<longleftrightarrow> (\<forall>f \<in> set files. file_wf h f) \<and> sorted_wrt (before_file h) files"

lemma file_range: "file_wf h f \<Longrightarrow> file_start h f \<le> file_limit h f"
  by (auto simp: file_wf_def file_start_def file_limit_def icmp_less)

lemma level_sorted_nth:
  assumes "level_sorted h files" "i < j" "j < length files"
  shows "icmp (fm_largest (h (files ! i))) (fm_largest (h (files ! j))) < 0" "icmp (fm_smallest (h (files ! i))) (fm_smallest (h (files ! j))) < 0"
    "file_start h (files ! i) \<le> file_start h (files ! j)" "file_limit h (files ! i) \<le> file_start h (files ! j)"
    "file_limit h (files ! i) \<le> file_limit h (files ! j)"
proof -
  from assms have b: "icmp (fm_largest (h (files ! i))) (fm_smallest (h (files ! j))) < 0"
    by (auto simp: level_sorted_def before_file_def sorted_wrt_iff_nth_less)
  from assms have w: "file_wf h (files ! i)" "file_wf h (files ! j)" by (auto simp: level_sorted_def)
  show 1: "icmp (fm_largest (h (files ! i))) (fm_largest (h (files ! j))) < 0"
    using icmp_le_trans(2) [OF b] w(2) by (simp add: file_wf_def)
  show 2: "icmp (fm_smallest (h (files ! i))) (fm_smallest (h (files ! j))) < 0"
    using icmp_le_trans(1) [OF _ b] w(1) by (simp add: file_wf_def)
  show "file_start h (files ! i) \<le> file_start h (files ! j)" using 2 by (auto simp: icmp_less file_start_def)
  show "file_limit h (files ! i) \<le> file_start h (files ! j)" using b by (auto simp: icmp_less file_start_def file_limit_def)
  show "file_limit h (files ! i) \<le> file_limit h (files ! j)" using 1 by (auto simp: icmp_less file_limit_def)
qed

subsection \<open>Binary search\<close>

lemma find_file_loop_correct:
  assumes "level_sorted h files" "left \<le> right" "right \<le> length files"
    "\<forall>i < left. icmp (fm_largest (h (files ! i))) key < 0" "\<forall>i. right \<le> i \<and> i < length files \<longrightarrow> \<not> icmp (fm_largest (h (files ! i))) key < 0"
  defines "r \<equiv> find_file_loop slice_compare h files key left right"
  shows "r \<le> length files \<and> (\<forall>i < r. icmp (fm_largest (h (files ! i))) key < 0) \<and>
    (\<forall>i. r \<le> i \<and> i < length files \<longrightarrow> \<not> icmp (fm_largest (h (files ! i))) key < 0)"
  using assms(1-5) unfolding r_def
proof (induction slice_compare h files key left right rule: find_file_loop.induct)
  case (1 h files key left right)
  note step = find_file_loop.simps [of slice_compare h files key left right]
  show ?case
  proof (cases "left < right")
    case True
    let ?m = "(left + right) div 2"
    have m: "left \<le> ?m" "?m < right" "?m < length files" using True "1.prems"(3) by auto
    have lower: "icmp (fm_largest (h (files ! i))) key < 0" if "icmp (fm_largest (h (files ! ?m))) key < 0" "i < ?m + 1" for i
    proof (cases "i = ?m")
      case False
      then show ?thesis using level_sorted_nth(1) [OF "1.prems"(1), of i ?m] that m icmp_trans by (metis less_antisym Suc_eq_plus1)
    qed (use that in simp)
    have upper: "\<not> icmp (fm_largest (h (files ! i))) key < 0" if "\<not> icmp (fm_largest (h (files ! ?m))) key < 0" "?m \<le> i" "i < length files" for i
    proof (cases "i = ?m")
      case False
      then show ?thesis using level_sorted_nth(1) [OF "1.prems"(1), of ?m i] that icmp_trans by (metis le_neq_implies_less)
    qed (use that in simp)
    show ?thesis
    proof (cases "icmp (fm_largest (h (files ! ?m))) key < 0")
      case less: True
      have "find_file_loop slice_compare h files key left right = find_file_loop slice_compare h files key (?m + 1) right"
        unfolding step using True less by (simp add: Let_def)
      then show ?thesis using 1(1) [OF True refl less "1.prems"(1)] m "1.prems"(3,5) lower [OF less] by simp
    next
      case not: False
      have "find_file_loop slice_compare h files key left right = find_file_loop slice_compare h files key left ?m"
        unfolding step using True not by (simp add: Let_def)
      then show ?thesis using 1(2) [OF True refl not "1.prems"(1)] m "1.prems"(4) upper [OF not] by simp
    qed
  next
    case False
    with "1.prems" step show ?thesis by simp
  qed
qed

lemma FindFile_correct:
  assumes "level_sorted h files"
  shows "FindFile slice_compare h files key \<le> length files"
    "i < FindFile slice_compare h files key \<Longrightarrow> icmp (fm_largest (h (files ! i))) key < 0"
    "FindFile slice_compare h files key \<le> i \<Longrightarrow> i < length files \<Longrightarrow> \<not> icmp (fm_largest (h (files ! i))) key < 0"
  using find_file_loop_correct [OF assms, of 0 "length files" key] by (auto simp: FindFile_def)

subsection \<open>Overlap with a range\<close>

text \<open>A file overlaps the range of user keys between two bounds, where a bound may be missing.\<close>

definition overlaps :: "file_mem \<Rightarrow> slice option \<Rightarrow> slice option \<Rightarrow> fptr \<Rightarrow> bool" where
  "overlaps h lo hi f \<longleftrightarrow> (\<forall>k. lo = Some k \<longrightarrow> k \<le> file_limit h f) \<and> (\<forall>k. hi = Some k \<longrightarrow> file_start h f \<le> k)"

definition files_overlap :: "file_mem \<Rightarrow> fptr \<Rightarrow> fptr \<Rightarrow> bool" where
  "files_overlap h f g \<longleftrightarrow> file_start h f \<le> file_limit h g \<and> file_start h g \<le> file_limit h f"

lemma overlaps_iff: "overlaps h lo hi f \<longleftrightarrow> \<not> AfterFile slice_compare h lo f \<and> \<not> BeforeFile slice_compare h hi f"
  by (auto simp: overlaps_def AfterFile_def BeforeFile_def not_less split: option.splits)

lemma scan_overlap_iff: "scan_overlap slice_compare h lo hi files \<longleftrightarrow> (\<exists>f \<in> set files. overlaps h lo hi f)"
  by (induction files) (auto simp: overlaps_iff)

lemma make_InternalKey_eq: "make_InternalKey u s t = u @ EncodeFixed64 (PackSequenceAndType s t)"
  by (simp add: make_InternalKey_def AppendInternalKey_def PutFixed64_def)

lemma make_InternalKey_parts [simp]: "ExtractUserKey (make_InternalKey u s t) = u" "ExtractTag (make_InternalKey u s t) = PackSequenceAndType s t"
  "valid_key (make_InternalKey u s t)"
  by (simp_all add: make_InternalKey_eq)

text \<open>The earliest key of a user key is not after the largest key of a file exactly if the user key is not.\<close>

lemma seek_below_file:
  assumes "file_wf h f"
  shows "icmp (fm_largest (h f)) (make_InternalKey k kMaxSequenceNumber kValueTypeForSeek) < 0 \<longleftrightarrow> file_limit h f < k"
  using assms by (auto simp: icmp_less make_InternalKey_eq file_limit_def file_wf_def key_wf_def not_less)

lemma binary_overlap_iff:
  fixes lo hi :: "slice option"
  assumes "level_sorted h files"
  defines "i \<equiv> (case lo of None \<Rightarrow> 0 | Some k \<Rightarrow> FindFile slice_compare h files (make_InternalKey k kMaxSequenceNumber kValueTypeForSeek))"
  shows "(i < length files \<and> \<not> BeforeFile slice_compare h hi (files ! i)) \<longleftrightarrow> (\<exists>f \<in> set files. overlaps h lo hi f)"
proof -
  have wf: "file_wf h (files ! j)" if "j < length files" for j using assms(1) that by (auto simp: level_sorted_def)
  have lower: "\<not> AfterFile slice_compare h lo (files ! j)" if "i \<le> j" "j < length files" for j
    using FindFile_correct(3) [OF assms(1) _ that(2)] that seek_below_file [OF wf [OF that(2)]]
    by (auto simp: AfterFile_def i_def split: option.splits)
  have upper: "i \<le> j" if "j < length files" "overlaps h lo hi (files ! j)" for j
    using FindFile_correct(2) [OF assms(1), of j] that seek_below_file [OF wf [OF that(1)]]
    by (auto simp: overlaps_iff AfterFile_def i_def not_less split: option.splits) (meson linorder_not_less)
  show ?thesis
  proof
    assume "i < length files \<and> \<not> BeforeFile slice_compare h hi (files ! i)"
    then show "\<exists>f \<in> set files. overlaps h lo hi f" using lower [of i] by (auto simp: overlaps_iff)
  next
    assume "\<exists>f \<in> set files. overlaps h lo hi f"
    then obtain j where j: "j < length files" "overlaps h lo hi (files ! j)" by (auto simp: in_set_conv_nth)
    have "file_start h (files ! i) \<le> file_start h (files ! j)"
      using level_sorted_nth(3) [OF assms(1) _ j(1), of i] upper [OF j] by (cases "i = j") auto
    then show "i < length files \<and> \<not> BeforeFile slice_compare h hi (files ! i)"
      using upper [OF j] j by (auto simp: overlaps_def BeforeFile_def split: option.splits)
  qed
qed

lemma SomeFileOverlapsRange_iff:
  assumes "disjoint \<Longrightarrow> level_sorted h files"
  shows "SomeFileOverlapsRange slice_compare h disjoint files lo hi \<longleftrightarrow> (\<exists>f \<in> set files. overlaps h lo hi f)"
proof (cases disjoint)
  case True
  show ?thesis unfolding binary_overlap_iff [OF assms [OF True], of lo hi, symmetric]
    using True by (simp add: SomeFileOverlapsRange_def Let_def)
qed (simp add: SomeFileOverlapsRange_def scan_overlap_iff)

subsection \<open>The inputs that overlap a range\<close>

text \<open>The files that overlap a range, and with them all that are connected to it through overlapping files.\<close>

inductive_set touched :: "file_mem \<Rightarrow> fptr list \<Rightarrow> slice option \<Rightarrow> slice option \<Rightarrow> fptr set"
  for h files lo hi where
  in_range: "f \<in> set files \<Longrightarrow> overlaps h lo hi f \<Longrightarrow> f \<in> touched h files lo hi"
| neighbour: "f \<in> touched h files lo hi \<Longrightarrow> g \<in> set files \<Longrightarrow> files_overlap h f g \<Longrightarrow> g \<in> touched h files lo hi"

text \<open>A range with both its ends on the inner side of a file contains the file.\<close>

definition inside :: "file_mem \<Rightarrow> slice option \<Rightarrow> slice option \<Rightarrow> fptr \<Rightarrow> bool" where
  "inside h lo hi f \<longleftrightarrow> (\<forall>k. lo = Some k \<longrightarrow> k \<le> file_start h f) \<and> (\<forall>k. hi = Some k \<longrightarrow> file_limit h f \<le> k)"

lemma key_tests:
  "key_below slice_compare k b \<longleftrightarrow> (\<exists>x. b = Some x \<and> k < x)" "key_above slice_compare k b \<longleftrightarrow> (\<exists>x. b = Some x \<and> x < k)"
  by (auto simp: key_below_def key_above_def split: option.splits)

lemma overlap_tests:
  "overlaps h b e f \<longleftrightarrow> \<not> key_below slice_compare (file_limit h f) b \<and> \<not> key_above slice_compare (file_start h f) e"
  "inside h b e f \<longleftrightarrow> \<not> key_below slice_compare (file_start h f) b \<and> \<not> key_above slice_compare (file_limit h f) e"
  by (auto simp: key_tests overlaps_def inside_def not_less)

lemma overlap_loop_upper:
  assumes "0 < level" "i \<le> length files"
  shows "overlap_loop slice_compare h level files b e i inputs = Some (inputs @ filter (overlaps h b e) (drop i files))"
  using assms(2)
proof (induction "length files - i" arbitrary: i inputs)
  case 0
  then show ?case by (subst overlap_loop.simps) simp
next
  case (Suc n)
  then have i: "i < length files" by simp
  have d: "drop i files = files ! i # drop (i + 1) files" using i by (simp add: Cons_nth_drop_Suc)
  from Suc.hyps(1) [of "i + 1"] Suc.hyps(2) i
  have IH: "overlap_loop slice_compare h level files b e (i + 1) inputs' = Some (inputs' @ filter (overlaps h b e) (drop (i + 1) files))" for inputs'
    by auto
  show ?case by (subst overlap_loop.simps) (use i assms(1) in \<open>auto simp: IH [simplified] d overlap_tests(1)\<close>)
qed

text \<open>Files that stick out of the range; each restart makes one of the two numbers smaller.\<close>

definition sticking_out :: "file_mem \<Rightarrow> fptr list \<Rightarrow> slice option \<Rightarrow> slice option \<Rightarrow> nat" where
  "sticking_out h files b e =
     card {f \<in> set files. key_below slice_compare (file_start h f) b} + card {f \<in> set files. key_above slice_compare (file_limit h f) e}"

lemma sticking_out_less:
  assumes "f \<in> set files"
  shows "key_below slice_compare (file_start h f) b \<Longrightarrow> sticking_out h files (Some (file_start h f)) e < sticking_out h files b e"
    "key_above slice_compare (file_limit h f) e \<Longrightarrow> sticking_out h files b (Some (file_limit h f)) < sticking_out h files b e"
proof -
  assume "key_below slice_compare (file_start h f) b"
  with assms have "{g \<in> set files. key_below slice_compare (file_start h g) (Some (file_start h f))} \<subset> {g \<in> set files. key_below slice_compare (file_start h g) b}"
    by (auto simp: key_tests)
  from psubset_card_mono [OF _ this] show "sticking_out h files (Some (file_start h f)) e < sticking_out h files b e"
    by (simp add: sticking_out_def)
next
  assume "key_above slice_compare (file_limit h f) e"
  with assms have "{g \<in> set files. key_above slice_compare (file_limit h g) (Some (file_limit h f))} \<subset> {g \<in> set files. key_above slice_compare (file_limit h g) e}"
    by (auto simp: key_tests)
  from psubset_card_mono [OF _ this] show "sticking_out h files b (Some (file_limit h f)) < sticking_out h files b e"
    by (simp add: sticking_out_def)
qed

text \<open>A range that is widened by a file it overlaps meets only files that overlap the old range or the file.\<close>

lemma widened:
  assumes "overlaps h b e f" "file_start h g \<le> file_limit h g" "file_start h f \<le> file_limit h f"
  shows "overlaps h (Some (file_start h f)) e g \<Longrightarrow> overlaps h b e g \<or> files_overlap h f g"
    "overlaps h b (Some (file_limit h f)) g \<Longrightarrow> overlaps h b e g \<or> files_overlap h f g"
  using assms by (fastforce simp: overlaps_def files_overlap_def)+

lemma overlap_loop_0:
  assumes "\<forall>f \<in> set files. file_wf h f" "i \<le> length files" "inputs = filter (overlaps h b e) (take i files)" "\<forall>f \<in> set inputs. inside h b e f"
    "\<forall>f \<in> set files. overlaps h b e f \<longrightarrow> f \<in> T" "\<forall>f \<in> T. \<forall>g \<in> set files. files_overlap h f g \<longrightarrow> g \<in> T"
  shows "\<exists>b' e'. overlap_loop slice_compare h 0 files b e i inputs = Some (filter (overlaps h b' e') files) \<and>
    (\<forall>f \<in> set files. overlaps h b' e' f \<longrightarrow> inside h b' e' f \<and> f \<in> T) \<and> (\<forall>f. overlaps h b e f \<longrightarrow> overlaps h b' e' f)"
  using assms(2-5)
proof (induction "(sticking_out h files b e, length files - i)" arbitrary: b e i inputs rule: less_induct [where 'a = "nat \<times> nat"])
  case less
  note step = overlap_loop.simps [of slice_compare h 0 files b e i inputs]
  show ?case
  proof (cases "i < length files")
    case False
    with less.prems step show ?thesis by (intro exI [of _ b] exI [of _ e]) auto
  next
    case True
    let ?f = "files ! i"
    have f: "?f \<in> set files" "take (i + 1) files = take i files @ [?f]" using True by (auto simp: take_Suc_conv_app_nth)
    have range: "file_start h g \<le> file_limit h g" if "g \<in> set files" for g using assms(1) that file_range by blast
    consider (skip) "\<not> overlaps h b e ?f" | (below) "overlaps h b e ?f" "key_below slice_compare (file_start h ?f) b"
      | (above) "overlaps h b e ?f" "\<not> key_below slice_compare (file_start h ?f) b" "key_above slice_compare (file_limit h ?f) e"
      | (add) "overlaps h b e ?f" "inside h b e ?f"
      by (auto simp: overlap_tests)
    then show ?thesis
    proof cases
      case skip
      then have s: "overlap_loop slice_compare h 0 files b e i inputs = overlap_loop slice_compare h 0 files b e (i + 1) inputs"
        using step True by (auto simp: overlap_tests(1))
      show ?thesis unfolding s by (rule less.hyps) (use True less.prems skip f in auto)
    next
      case below
      then have s: "overlap_loop slice_compare h 0 files b e i inputs = overlap_loop slice_compare h 0 files (Some (file_start h ?f)) e 0 []"
        using step True by (auto simp: overlap_tests(1))
      have new: "\<forall>g \<in> set files. overlaps h (Some (file_start h ?f)) e g \<longrightarrow> g \<in> T"
        using widened(1) [OF below(1) range range [OF f(1)]] f(1) below(1) less.prems(4) assms(6) by blast
      have "\<exists>b' e'. overlap_loop slice_compare h 0 files (Some (file_start h ?f)) e 0 [] = Some (filter (overlaps h b' e') files) \<and>
          (\<forall>f \<in> set files. overlaps h b' e' f \<longrightarrow> inside h b' e' f \<and> f \<in> T) \<and> (\<forall>f. overlaps h (Some (file_start h ?f)) e f \<longrightarrow> overlaps h b' e' f)"
        by (rule less.hyps) (use sticking_out_less(1) [OF f(1) below(2)] new in auto)
      moreover have "overlaps h (Some (file_start h ?f)) e g" if "overlaps h b e g" for g
        using that below by (auto simp: overlaps_def key_tests)
      ultimately show ?thesis unfolding s by blast
    next
      case above
      then have s: "overlap_loop slice_compare h 0 files b e i inputs = overlap_loop slice_compare h 0 files b (Some (file_limit h ?f)) 0 []"
        using step True by (auto simp: overlap_tests(1))
      have new: "\<forall>g \<in> set files. overlaps h b (Some (file_limit h ?f)) g \<longrightarrow> g \<in> T"
        using widened(2) [OF above(1) range range [OF f(1)]] f(1) above(1) less.prems(4) assms(6) by blast
      have "\<exists>b' e'. overlap_loop slice_compare h 0 files b (Some (file_limit h ?f)) 0 [] = Some (filter (overlaps h b' e') files) \<and>
          (\<forall>f \<in> set files. overlaps h b' e' f \<longrightarrow> inside h b' e' f \<and> f \<in> T) \<and> (\<forall>f. overlaps h b (Some (file_limit h ?f)) f \<longrightarrow> overlaps h b' e' f)"
        by (rule less.hyps) (use sticking_out_less(2) [OF f(1) above(3)] new in auto)
      moreover have "overlaps h b (Some (file_limit h ?f)) g" if "overlaps h b e g" for g
        using that above by (auto simp: overlaps_def key_tests)
      ultimately show ?thesis unfolding s by blast
    next
      case add
      then have s: "overlap_loop slice_compare h 0 files b e i inputs = overlap_loop slice_compare h 0 files b e (i + 1) (inputs @ [?f])"
        using step True by (auto simp: overlap_tests)
      show ?thesis unfolding s by (rule less.hyps) (use True less.prems add f in auto)
    qed
  qed
qed

definition version_wf :: "file_mem \<Rightarrow> 'd Version \<Rightarrow> bool" where
  "version_wf h v \<longleftrightarrow> length (v_files v) = 7 \<and> (\<forall>files \<in> set (v_files v). \<forall>f \<in> set files. file_wf h f) \<and>
     (\<forall>level. 0 < level \<and> level < 7 \<longrightarrow> level_sorted h (v_files v ! level))"

lemma version_wf_level: "version_wf h v \<Longrightarrow> level < 7 \<Longrightarrow> f \<in> set (v_files v ! level) \<Longrightarrow> file_wf h f"
  unfolding version_wf_def by (metis nth_mem)

lemma overlap_loop_touched:
  assumes "\<forall>f \<in> set files. file_wf h f"
  shows "overlap_loop slice_compare h 0 files b e 0 [] = Some (filter (\<lambda>f. f \<in> touched h files b e) files)"
proof -
  have "\<exists>b' e'. overlap_loop slice_compare h 0 files b e 0 [] = Some (filter (overlaps h b' e') files) \<and>
      (\<forall>f \<in> set files. overlaps h b' e' f \<longrightarrow> inside h b' e' f \<and> f \<in> touched h files b e) \<and> (\<forall>f. overlaps h b e f \<longrightarrow> overlaps h b' e' f)"
    by (rule overlap_loop_0 [OF assms]) (auto intro: touched.intros)
  then obtain b' e' where r: "overlap_loop slice_compare h 0 files b e 0 [] = Some (filter (overlaps h b' e') files)"
    "\<And>f. f \<in> set files \<Longrightarrow> overlaps h b' e' f \<Longrightarrow> inside h b' e' f \<and> f \<in> touched h files b e"
    "\<And>f. overlaps h b e f \<Longrightarrow> overlaps h b' e' f" by blast
  have "f \<in> set files \<and> overlaps h b' e' f" if "f \<in> touched h files b e" for f
    using that
  proof induction
    case (neighbour f g)
    with r(2) [of f] show ?case by (fastforce simp: inside_def overlaps_def files_overlap_def)
  qed (use r(3) in auto)
  with r(2) have "filter (overlaps h b' e') files = filter (\<lambda>f. f \<in> touched h files b e) files" by (auto intro: filter_cong)
  with r(1) show ?thesis by simp
qed

lemma GetOverlappingInputs_exact:
  assumes "version_wf h v" "level < 7"
  defines "b \<equiv> \<lambda>k. map_option ExtractUserKey k"
  shows "GetOverlappingInputs slice_compare h v level begin_key end_key =
    Some (filter (\<lambda>f. if level = 0 then f \<in> touched h (v_files v ! level) (b begin_key) (b end_key) else overlaps h (b begin_key) (b end_key) f)
      (v_files v ! level))"
proof (cases "level = 0")
  case True
  have "\<forall>f \<in> set (v_files v ! 0). file_wf h f" using version_wf_level [OF assms(1), of 0] by simp
  from overlap_loop_touched [OF this] True show ?thesis by (simp add: GetOverlappingInputs_def kNumLevels_def b_def)
next
  case False
  with assms(2) overlap_loop_upper [of level 0 "v_files v ! level" h _ _ "[]"] show ?thesis
    by (simp add: GetOverlappingInputs_def kNumLevels_def b_def)
qed

subsection \<open>The newest entry of several tables\<close>

abbreviation entry_less :: "mem_entry \<Rightarrow> mem_entry \<Rightarrow> bool" where
  "entry_less a b \<equiv> icmp (internal_of a) (internal_of b) < 0"

text \<open>The entries of a table file: in order, between the smallest and the largest key of the file, which are keys of entries.\<close>

definition file_holds :: "file_mem \<Rightarrow> fptr \<Rightarrow> mem_entry list \<Rightarrow> bool" where
  "file_holds h f es \<longleftrightarrow> es \<noteq> [] \<and> (\<forall>e \<in> set es. me_seq e \<le> kMaxSequenceNumber) \<and> sorted_wrt entry_less es \<and> inj_on entry_id (set es) \<and>
     fm_smallest (h f) = internal_of (hd es) \<and> fm_largest (h f) = internal_of (last es)"

definition table_of :: "mem_entry list \<Rightarrow> (slice \<times> slice) list" where
  "table_of es = map (\<lambda>e. (internal_of e, me_value e)) es"

lemma newest_unique:
  assumes "e \<in> set es" "visible k s e" "\<And>e'. e' \<in> set es \<Longrightarrow> visible k s e' \<Longrightarrow> e' = e \<or> me_seq e' < me_seq e"
  shows "newest k s es = Some e"
proof -
  obtain e' where e': "newest k s es = Some e'" using assms(1,2) newest_None [of k s es] by (cases "newest k s es") auto
  with newest_SomeD [OF e'] assms have "e' = e" by (metis leD)
  with e' show ?thesis by simp
qed

lemma lookup_key_parts:
  "ExtractUserKey (internal_key (make_LookupKey k s)) = k" "ExtractTag (internal_key (make_LookupKey k s)) = PackSequenceAndType s kValueTypeForSeek"
  "valid_key (internal_key (make_LookupKey k s))" "lookup_user_key (make_LookupKey k s) = k"
  by (simp_all add: internal_key_def make_LookupKey_def Let_def lookup_user_key_def)

lemma at_least_lookup:
  assumes "me_seq e \<le> kMaxSequenceNumber" "s \<le> kMaxSequenceNumber"
  shows "\<not> icmp (internal_of e) (internal_key (make_LookupKey k s)) < 0 \<longleftrightarrow> k < me_key e \<or> visible k s e"
  using pack_le [OF assms(2,1), of "me_type e"] by (auto simp: icmp_less lookup_key_parts visible_def not_less)

lemma newer_tag:
  assumes "PackSequenceAndType s' t' < PackSequenceAndType s t" "s \<le> kMaxSequenceNumber" "s' \<le> kMaxSequenceNumber"
  shows "s' \<le> s"
  using assms(1) unat_pack [OF assms(2), of t] unat_pack [OF assms(3), of t'] type_code_less [of t] type_code_less [of t']
  by (simp add: word_less_nat_alt word_le_nat_alt)

lemma entry_less_same_key:
  assumes "entry_less a b" "me_key a = me_key b" "me_seq a \<le> kMaxSequenceNumber" "me_seq b \<le> kMaxSequenceNumber" "me_seq a \<noteq> me_seq b"
  shows "me_seq b < me_seq a"
  using assms newer_tag [of "me_seq b" "me_type b" "me_seq a" "me_type a"] by (auto simp: icmp_less)

text \<open>The first entry that is not before the lookup key is the newest visible one, if it has the key at all.\<close>

lemma newest_first:
  fixes k :: slice
  assumes "\<forall>e \<in> set es. me_seq e \<le> kMaxSequenceNumber" "sorted_wrt entry_less es" "inj_on entry_id (set es)" "s \<le> kMaxSequenceNumber"
  defines "ik \<equiv> internal_key (make_LookupKey k s)"
  shows "newest k s es = (case find (\<lambda>e. \<not> icmp (internal_of e) ik < 0) es of None \<Rightarrow> None | Some e \<Rightarrow> if me_key e = k then Some e else None)"
  using assms(1-3)
proof (induction es)
  case (Cons e es)
  note al = at_least_lookup [OF _ assms(4), of e k, folded ik_def]
  have seq: "me_seq e \<le> kMaxSequenceNumber" using Cons.prems(1) by simp
  show ?case
  proof (cases "icmp (internal_of e) ik < 0")
    case True
    with al [OF seq] Cons show ?thesis by (auto simp: inj_on_def split: option.splits)
  next
    case False
    have after: "entry_less e e'" "me_seq e' \<le> kMaxSequenceNumber" "entry_id e' \<noteq> entry_id e" if "e' \<in> set es" for e'
      using Cons.prems that by (auto simp: inj_on_def icmp_less)
    show ?thesis
    proof (cases "me_key e = k")
      case True
      with False al [OF seq] have "visible k s e" by auto
      moreover have "e' = e \<or> me_seq e' < me_seq e" if "e' \<in> set (e # es)" "visible k s e'" for e'
      proof (cases "e' = e")
        case False
        with that have in_es: "e' \<in> set es" by simp
        have "me_key e' = me_key e" using that(2) True by (simp add: visible_def)
        with after(3) [OF in_es] entry_less_same_key [OF after(1) [OF in_es] _ seq after(2) [OF in_es]] show ?thesis by auto
      qed simp
      ultimately have "newest k s (e # es) = Some e" by (intro newest_unique) auto
      with False True show ?thesis by simp
    next
      case other: False
      with False al [OF seq] have "k < me_key e" by (auto simp: visible_def)
      then have "\<not> visible k s e'" if "e' \<in> set (e # es)" for e'
        using that after(1) other by (fastforce simp: visible_def icmp_less)
      then have "newest k s (e # es) = None" unfolding newest_None by blast
      with False other show ?thesis by simp
    qed
  qed
qed simp

lemma first_at_least_find:
  "first_at_least icmp k (table_of es) = map_option (\<lambda>e. (internal_of e, me_value e)) (find (\<lambda>e. \<not> icmp (internal_of e) k < 0) es)"
  by (induction es) (auto simp: first_at_least_def lower_bound_def table_of_def)

subsection \<open>The tables underneath\<close>

text \<open>
  What a version asks of the table cache: the lookup of an internal key in the table with a number and a size gives nothing or the
  first entry that is not before the key, and gives that entry if it has the user key. The caller has a budget of lookups.
\<close>

locale table_source =
  fixes get :: "'c table_get"
    and stored :: "64 word \<Rightarrow> 64 word \<Rightarrow> (slice \<times> slice) list option"
    and ready :: "nat \<Rightarrow> 'c \<Rightarrow> bool"
  assumes ready_less: "ready (Suc n) c \<Longrightarrow> ready n c"
    and table_get: "ready (Suc n) c \<Longrightarrow> stored number sz = Some es \<Longrightarrow> valid_key k \<Longrightarrow>
      \<exists>x c'. get c number sz k = Some ((OK, x), c') \<and> ready n c' \<and> (x = None \<or> x = first_at_least icmp k es) \<and>
        (\<forall>e. first_at_least icmp k es = Some e \<and> same_user_key (fst e) k \<longrightarrow> x = Some e)"

definition reply :: "mem_entry \<Rightarrow> Status \<times> slice option" where
  "reply e = (case me_type e of kTypeValue \<Rightarrow> (OK, Some (me_value e)) | kTypeDeletion \<Rightarrow> (NotFound [] [], None))"

fun first_newest :: "slice \<Rightarrow> 64 word \<Rightarrow> (fptr \<Rightarrow> mem_entry list) \<Rightarrow> fptr list \<Rightarrow> mem_entry option" where
  "first_newest k s ents [] = None"
| "first_newest k s ents (f # fs) = (case newest k s (ents f) of None \<Rightarrow> first_newest k s ents fs | Some e \<Rightarrow> Some e)"

lemma SaveValue_entry:
  assumes "me_seq e \<le> kMaxSequenceNumber"
  shows "SaveValue slice_compare k (internal_of e) v =
    (if me_key e = k then (if me_type e = kTypeValue then (kFound, Some v) else (kDeleted, None)) else (kNotFound', None))"
proof -
  let ?p = "ParsedInternalKey (me_key e) (me_seq e) (me_type e)"
  have "internal_of e = AppendInternalKey [] ?p" by (simp add: internal_of_def AppendInternalKey_def PutFixed64_def)
  with ParseInternalKey_Append [of ?p] assms have "ParseInternalKey (internal_of e) = Some ?p" by simp
  then show ?thesis by (simp add: SaveValue_def)
qed

context table_source
begin

lemma search_file_newest:
  assumes "ready (Suc n) c" "file_holds h f es" "stored (fm_number (h f)) (fm_file_size (h f)) = Some (table_of es)" "s \<le> kMaxSequenceNumber"
  shows "\<exists>st' c'. search_file get slice_compare h k (internal_key (make_LookupKey k s)) level f (stats, last_read, c) =
    Some (map_option reply (newest k s es), st', Some (f, level), c') \<and> ready n c'"
proof -
  let ?ik = "internal_key (make_LookupKey k s)"
  from table_get [OF assms(1,3) lookup_key_parts(3)] obtain x c' where
    x: "get c (fm_number (h f)) (fm_file_size (h f)) ?ik = Some ((OK, x), c')" "ready n c'"
    "x = None \<or> x = first_at_least icmp ?ik (table_of es)"
    "\<And>e. first_at_least icmp ?ik (table_of es) = Some e \<Longrightarrow> same_user_key (fst e) ?ik \<Longrightarrow> x = Some e" by blast
  let ?saver = "case x of None \<Rightarrow> (kNotFound', None) | Some (k', v) \<Rightarrow> SaveValue slice_compare k k' v"
  have es: "\<forall>e \<in> set es. me_seq e \<le> kMaxSequenceNumber" using assms(2) by (simp add: file_holds_def)
  have first: "newest k s es = (case find (\<lambda>e. \<not> icmp (internal_of e) ?ik < 0) es of None \<Rightarrow> None | Some e \<Rightarrow> if me_key e = k then Some e else None)"
    using newest_first [OF _ _ _ assms(4), of es k] assms(2) by (simp add: file_holds_def)
  have "?saver = (case newest k s es of None \<Rightarrow> (kNotFound', None)
      | Some e \<Rightarrow> (if me_type e = kTypeValue then (kFound, Some (me_value e)) else (kDeleted, None)))"
  proof (cases "find (\<lambda>e. \<not> icmp (internal_of e) ?ik < 0) es")
    case None
    with x(3) first show ?thesis by (auto simp: first_at_least_find)
  next
    case (Some e)
    then have "e \<in> set es" by (auto simp: find_Some_iff in_set_conv_nth)
    with es have seq: "me_seq e \<le> kMaxSequenceNumber" by blast
    have f: "first_at_least icmp ?ik (table_of es) = Some (internal_of e, me_value e)" using Some by (simp add: first_at_least_find)
    have "x = Some (internal_of e, me_value e)" if "me_key e = k"
      using x(4) [OF f] that by (simp add: same_user_key_def lookup_key_parts)
    with x(3) f Some first show ?thesis by (auto simp: SaveValue_entry [OF seq])
  qed
  with x(1,2) show ?thesis
    by (auto simp: search_file_def Let_def reply_def split: option.splits ValueType.splits)
qed

end

text \<open>The entries of one file are newer than those of another for the same key.\<close>

definition newer :: "(fptr \<Rightarrow> mem_entry list) \<Rightarrow> fptr \<Rightarrow> fptr \<Rightarrow> bool" where
  "newer ents f g \<longleftrightarrow> (\<forall>e \<in> set (ents f). \<forall>e' \<in> set (ents g). me_key e = me_key e' \<longrightarrow> me_seq e' < me_seq e)"

abbreviation all_entries :: "(fptr \<Rightarrow> mem_entry list) \<Rightarrow> fptr list \<Rightarrow> mem_entry list" where
  "all_entries ents files \<equiv> concat (map ents files)"

definition level_newer :: "(fptr \<Rightarrow> mem_entry list) \<Rightarrow> fptr list \<Rightarrow> fptr list \<Rightarrow> bool" where
  "level_newer ents F G \<longleftrightarrow> (\<forall>f \<in> set F. \<forall>g \<in> set G. newer ents f g)"

lemma newest_append_None: "newest k s A = None \<Longrightarrow> newest k s (A @ B) = newest k s B"
  by (induction A) (auto split: option.splits if_splits)

lemma newest_append_Some:
  "newest k s A = Some e \<Longrightarrow> \<forall>e' \<in> set B. visible k s e' \<longrightarrow> me_seq e' < me_seq e \<Longrightarrow> newest k s (A @ B) = Some e"
proof (induction A arbitrary: e)
  case (Cons a A)
  show ?case
  proof (cases "newest k s A")
    case None
    with Cons.prems have e: "visible k s a" "e = a" by (auto split: if_splits)
    show ?thesis
    proof (cases "newest k s B")
      case (Some b)
      from newest_SomeD [OF this] Cons.prems(2) e have "me_seq b < me_seq a" by auto
      with Some e newest_append_None [OF None] show ?thesis by simp
    qed (use e newest_append_None [OF None] in simp)
  next
    case (Some x)
    show ?thesis
    proof (cases "visible k s a \<and> me_seq x < me_seq a")
      case True
      with Some Cons.prems(1) have e: "e = a" by simp
      obtain y where y: "newest k s (A @ B) = Some y" using newest_None [of k s "A @ B"] newest_SomeD [OF Some] by (cases "newest k s (A @ B)") auto
      have "me_seq y < me_seq a" using newest_SomeD [OF y] newest_SomeD [OF Some] Cons.prems(2) True e by fastforce
      with y True e show ?thesis by simp
    next
      case False
      with Some Cons.prems(1) have "e = x" by auto
      with Cons.IH [OF Some] Cons.prems(2) have "newest k s (A @ B) = Some x" by blast
      with False \<open>e = x\<close> show ?thesis by auto
    qed
  qed
qed simp

text \<open>Searching the chosen files of a level finds the newest entry of the level.\<close>

definition searched :: "file_mem \<Rightarrow> (fptr \<Rightarrow> mem_entry list) \<Rightarrow> slice \<Rightarrow> 64 word \<Rightarrow> nat \<Rightarrow> fptr list \<Rightarrow> bool" where
  "searched h ents k s level files \<longleftrightarrow>
     (let L = files_to_search slice_compare h k (internal_key (make_LookupKey k s)) level files in
      set L \<subseteq> set files \<and> length L \<le> length files \<and> first_newest k s ents L = newest k s (all_entries ents files))"

context table_source
begin

definition holds_file :: "file_mem \<Rightarrow> (fptr \<Rightarrow> mem_entry list) \<Rightarrow> fptr \<Rightarrow> bool" where
  "holds_file h ents f \<longleftrightarrow> file_holds h f (ents f) \<and> stored (fm_number (h f)) (fm_file_size (h f)) = Some (table_of (ents f))"

lemma ready_le: "ready n c \<Longrightarrow> m \<le> n \<Longrightarrow> ready m c"
  by (induction n) (auto simp: le_Suc_eq dest: ready_less)

lemma search_level_newest:
  assumes "ready (length fs + n) c" "\<forall>f \<in> set fs. holds_file h ents f" "s \<le> kMaxSequenceNumber"
  shows "\<exists>st' last_read' c'. search_level get slice_compare h k (internal_key (make_LookupKey k s)) level fs (stats, last_read, c) =
    Some (map_option reply (first_newest k s ents fs), st', last_read', c') \<and> ready n c'"
  using assms(1,2)
proof (induction fs arbitrary: stats last_read c)
  case (Cons f fs)
  from Cons.prems have p: "ready (Suc (length fs + n)) c" "file_holds h f (ents f)"
    "stored (fm_number (h f)) (fm_file_size (h f)) = Some (table_of (ents f))" by (auto simp: holds_file_def)
  from search_file_newest [OF p assms(3)] obtain st' c' where
    f: "search_file get slice_compare h k (internal_key (make_LookupKey k s)) level f (stats, last_read, c) =
      Some (map_option reply (newest k s (ents f)), st', Some (f, level), c')" "ready (length fs + n) c'" by blast
  show ?case
  proof (cases "newest k s (ents f)")
    case None
    from Cons.IH [OF f(2)] Cons.prems(2) None f(1) show ?thesis by auto
  next
    case (Some e)
    with f ready_le [OF f(2), of n] show ?thesis by auto
  qed
qed simp

lemma search_levels_newest:
  assumes "ready (n + length (concat levels)) c" "\<forall>f \<in> set (concat levels). holds_file h ents f" "s \<le> kMaxSequenceNumber"
    "\<forall>i < length levels. searched h ents k s (level + i) (levels ! i)" "sorted_wrt (level_newer ents) levels"
  shows "\<exists>st'. search_levels get slice_compare h k (internal_key (make_LookupKey k s)) level levels (stats, last_read, c) =
    Some (case newest k s (all_entries ents (concat levels)) of None \<Rightarrow> (NotFound [] [], None) | Some e \<Rightarrow> reply e, st') \<and> ready n (snd (snd st'))"
  using assms(1,2,4,5)
proof (induction levels arbitrary: level stats last_read c)
  case (Cons files levels)
  let ?ik = "internal_key (make_LookupKey k s)" and ?L = "files_to_search slice_compare h k (internal_key (make_LookupKey k s)) level files"
  from spec [OF Cons.prems(3), of 0]
  have L: "set ?L \<subseteq> set files" "length ?L \<le> length files" "first_newest k s ents ?L = newest k s (all_entries ents files)"
    by (auto simp: searched_def Let_def)
  have "ready (length ?L + (n + length (concat levels))) c" using ready_le [OF Cons.prems(1)] L(2) by simp
  from search_level_newest [OF this _ assms(3), of h ents k level stats last_read] L(1) Cons.prems(2)
  obtain st' last_read' c' where level: "search_level get slice_compare h k ?ik level ?L (stats, last_read, c) =
      Some (map_option reply (newest k s (all_entries ents files)), st', last_read', c')" "ready (n + length (concat levels)) c'"
    unfolding L(3) by fastforce
  show ?case
  proof (cases "newest k s (all_entries ents files)")
    case (Some e)
    from newest_SomeD [OF this] have e: "e \<in> set (all_entries ents files)" "me_key e = k" by (auto simp: visible_def)
    have "me_seq e' < me_seq e" if "e' \<in> set (all_entries ents (concat levels))" "visible k s e'" for e'
      using e that Cons.prems(4) by (fastforce simp: level_newer_def newer_def visible_def)
    then have "newest k s (all_entries ents (concat (files # levels))) = Some e" using newest_append_Some [OF Some] by simp
    with level ready_le [OF level(2), of n] Some show ?thesis by auto
  next
    case None
    have "\<forall>i < length levels. searched h ents k s (level + 1 + i) (levels ! i)" using Cons.prems(3) by (metis Suc_less_eq add_Suc_right add_Suc_shift length_Cons nth_Cons_Suc plus_1_eq_Suc add.commute)
    with Cons.IH [OF level(2), of "level + 1" st' last_read'] Cons.prems(2,4) level(1) None newest_append_None [OF None]
    show ?thesis by auto
  qed
qed simp

end

subsection \<open>The files that are searched\<close>

lemma sorted_hd_last:
  assumes "sorted_wrt entry_less es" "e \<in> set es"
  shows "\<not> entry_less e (hd es)" "\<not> entry_less (last es) e"
proof -
  have asym: "\<not> entry_less b a" if "entry_less a b \<or> a = b" for a b using that by (auto simp: icmp_less)
  show "\<not> entry_less e (hd es)" by (rule asym) (use assms in \<open>cases es; auto\<close>)
  have es: "es = butlast es @ [last es]" using assms(2) by (cases es) auto
  then have "sorted_wrt entry_less (butlast es @ [last es])" "e \<in> set (butlast es @ [last es])" using assms by simp_all
  then have "entry_less e (last es) \<or> e = last es" unfolding sorted_wrt_append by auto
  then show "\<not> entry_less (last es) e" by (rule asym)
qed

lemma file_holds_range:
  assumes "file_holds h f es" "e \<in> set es"
  shows "\<not> icmp (internal_of e) (fm_smallest (h f)) < 0" "\<not> icmp (fm_largest (h f)) (internal_of e) < 0"
    "file_start h f \<le> me_key e" "me_key e \<le> file_limit h f"
proof -
  show r: "\<not> icmp (internal_of e) (fm_smallest (h f)) < 0" "\<not> icmp (fm_largest (h f)) (internal_of e) < 0"
    using sorted_hd_last [of es e] assms by (simp_all add: file_holds_def)
  then show "file_start h f \<le> me_key e" "me_key e \<le> file_limit h f"
    by (auto simp: icmp_less file_start_def file_limit_def not_less)
qed

lemma internal_of_wf: "me_seq e \<le> kMaxSequenceNumber \<Longrightarrow> key_wf (internal_of e)"
  using pack_le [of kMaxSequenceNumber "me_seq e" "me_type e"] by (simp add: key_wf_def)

lemma file_holds_wf:
  assumes "file_holds h f es"
  shows "file_wf h f"
proof -
  have "hd es \<in> set es" "last es \<in> set es" using assms by (auto simp: file_holds_def)
  with assms internal_of_wf sorted_hd_last(1) [of es "last es"] show ?thesis by (auto simp: file_holds_def file_wf_def)
qed

lemma first_newest_None: "first_newest k s ents fs = None \<longleftrightarrow> (\<forall>f \<in> set fs. newest k s (ents f) = None)"
  by (induction fs) (auto split: option.splits)

lemma first_newest_Some:
  assumes "first_newest k s ents fs = Some e" "sorted_wrt (newer ents) fs" "\<forall>f \<in> set fs. inj_on entry_id (set (ents f))"
  shows "e \<in> set (all_entries ents fs) \<and> visible k s e \<and> (\<forall>e' \<in> set (all_entries ents fs). visible k s e' \<longrightarrow> e' = e \<or> me_seq e' < me_seq e)"
  using assms
proof (induction fs)
  case (Cons f fs)
  show ?case
  proof (cases "newest k s (ents f)")
    case None
    with Cons show ?thesis by (auto simp: newest_None)
  next
    case (Some x)
    with Cons.prems have x: "x = e" by simp
    from newest_SomeD [OF Some] have e: "e \<in> set (ents f)" "visible k s e" "\<And>e'. e' \<in> set (ents f) \<Longrightarrow> visible k s e' \<Longrightarrow> me_seq e' \<le> me_seq e"
      by (auto simp: x)
    have "e' = e \<or> me_seq e' < me_seq e" if "e' \<in> set (ents f)" "visible k s e'" for e'
    proof (cases "me_seq e' = me_seq e")
      case True
      with that e(1,2) Cons.prems(3) show ?thesis by (auto simp: inj_on_def visible_def)
    qed (use e(3) [OF that] in auto)
    moreover have "me_seq e' < me_seq e" if "e' \<in> set (all_entries ents fs)" "visible k s e'" for e'
      using that e(1,2) Cons.prems(2) by (fastforce simp: newer_def visible_def)
    ultimately show ?thesis using e(1,2) by auto
  qed
qed simp

lemma sort_newest_sorted: "sorted_wrt (\<lambda>f g. fm_number (h g) \<le> fm_number (h f)) (sort_newest h fs)"
proof -
  have "sorted (map (\<lambda>f. - int (unat (fm_number (h f)))) (sort_newest h fs))" by (simp add: sort_newest_def)
  then show ?thesis by (simp add: sorted_map word_le_def)
qed

lemma searched_level0:
  assumes "\<forall>f \<in> set files. file_holds h f (ents f)" "distinct files"
    "\<forall>f \<in> set files. \<forall>g \<in> set files. f \<noteq> g \<longrightarrow> fm_number (h f) \<noteq> fm_number (h g) \<and> (fm_number (h g) < fm_number (h f) \<longrightarrow> newer ents f g)"
  shows "searched h ents k s 0 files"
proof -
  define L where "L = level0_files slice_compare h k files"
  have sL: "set L = {f \<in> set files. file_start h f \<le> k \<and> k \<le> file_limit h f}" by (auto simp: L_def level0_files_def sort_newest_def)
  have "distinct L" using assms(2) by (simp add: L_def level0_files_def sort_newest_def)
  moreover have "sorted_wrt (\<lambda>f g. fm_number (h g) \<le> fm_number (h f)) L" unfolding L_def level0_files_def by (rule sort_newest_sorted)
  ultimately have le: "i < j \<Longrightarrow> j < length L \<Longrightarrow> L ! i \<noteq> L ! j \<and> fm_number (h (L ! j)) \<le> fm_number (h (L ! i))" for i j
    by (auto simp: sorted_wrt_iff_nth_less distinct_conv_nth)
  have "newer ents (L ! i) (L ! j)" if "i < j" "j < length L" for i j
  proof -
    have "L ! i \<in> set L" "L ! j \<in> set L" using that by simp_all
    with sL have "L ! i \<in> set files" "L ! j \<in> set files" by auto
    with le [OF that] assms(3) show ?thesis by (metis order_le_less)
  qed
  then have newer: "sorted_wrt (newer ents) L" by (simp add: sorted_wrt_iff_nth_less)
  have inj: "\<forall>f \<in> set L. inj_on entry_id (set (ents f))" using assms(1) sL by (auto simp: file_holds_def)
  have out: "f \<in> set L" if "f \<in> set files" "e \<in> set (ents f)" "visible k s e" for f e
    using file_holds_range(3,4) [of h f "ents f" e] assms(1) that sL by (auto simp: visible_def)
  have "first_newest k s ents L = newest k s (all_entries ents files)"
  proof (cases "first_newest k s ents L")
    case None
    with out have "newest k s (all_entries ents files) = None" by (auto simp: first_newest_None newest_None)
    with None show ?thesis by simp
  next
    case (Some e)
    from first_newest_Some [OF Some newer inj] sL out show ?thesis unfolding Some
      by (intro newest_unique [symmetric]) auto
  qed
  moreover have "length L \<le> length files" by (simp add: L_def level0_files_def sort_newest_def)
  ultimately show ?thesis using sL by (cases "files = []") (auto simp: searched_def files_to_search_def L_def [symmetric] Let_def)
qed

lemma searched_upper:
  assumes "\<forall>f \<in> set files. file_holds h f (ents f)" "sorted_wrt (before_file h) files" "s \<le> kMaxSequenceNumber" "0 < level"
    "inj_on entry_id (set (all_entries ents files))"
  shows "searched h ents k s level files"
proof -
  let ?ik = "internal_key (make_LookupKey k s)"
  define i where "i = FindFile slice_compare h files ?ik"
  have sorted: "level_sorted h files" using assms(1,2) file_holds_wf by (auto simp: level_sorted_def)
  have holds: "file_holds h (files ! j) (ents (files ! j))" if "j < length files" for j using assms(1) that by simp
  note find = FindFile_correct [OF sorted, where key = ?ik, folded i_def]
  have seq: "me_seq e \<le> kMaxSequenceNumber" if "e \<in> set (ents (files ! j))" "j < length files" for e j
    using holds [OF that(2)] that by (auto simp: file_holds_def)
  have vis: "i \<le> j" if "j < length files" "e \<in> set (ents (files ! j))" "visible k s e" for j e
  proof -
    have "\<not> icmp (internal_of e) ?ik < 0" using at_least_lookup [OF seq [OF that(2,1)] assms(3)] that(3) by blast
    with file_holds_range(2) [OF holds [OF that(1)] that(2)] icmp_le_trans(1) have "\<not> icmp (fm_largest (h (files ! j))) ?ik < 0" by blast
    with find(2) [of j] show ?thesis by (meson not_le)
  qed
  have visible_at: "\<exists>j. i \<le> j \<and> j < length files \<and> e \<in> set (ents (files ! j))" if "e \<in> set (all_entries ents files)" "visible k s e" for e
    using that vis by (fastforce simp: in_set_conv_nth)
  have none: "newest k s (all_entries ents files) = None" if "length files \<le> i \<or> k < file_start h (files ! i)"
  proof (rule ccontr)
    assume "newest k s (all_entries ents files) \<noteq> None"
    then obtain e where e: "e \<in> set (all_entries ents files)" "visible k s e" by (auto simp: newest_None)
    from visible_at [OF this] obtain j where j: "i \<le> j" "j < length files" "e \<in> set (ents (files ! j))" by blast
    have "file_start h (files ! i) \<le> file_start h (files ! j)" using level_sorted_nth(3) [OF sorted _ j(2), of i] j(1) by (cases "i = j") auto
    with that j file_holds_range(3) [OF holds [OF j(2)] j(3)] e(2) show False by (auto simp: visible_def)
  qed
  have found: "newest k s (ents (files ! i)) = newest k s (all_entries ents files)" if i: "i < length files"
  proof -
    let ?f = "files ! i"
    have later: "entry_less e e'" if "i < j" "j < length files" "e \<in> set (ents ?f)" "e' \<in> set (ents (files ! j))" for j e e'
    proof -
      have "before_file h ?f (files ! j)" using assms(2) that by (simp add: sorted_wrt_iff_nth_less)
      with file_holds_range(2) [OF holds [OF i] that(3)] file_holds_range(1) [OF holds [OF that(2)] that(4)] show ?thesis
        unfolding before_file_def using icmp_le_trans by blast
    qed
    have in_file: "e \<in> set (all_entries ents files)" if "e \<in> set (ents ?f)" for e using that i by auto
    show ?thesis
    proof (cases "newest k s (ents ?f)")
      case None
      have l: "last (ents ?f) \<in> set (ents ?f)" "fm_largest (h ?f) = internal_of (last (ents ?f))" using holds [OF i] by (auto simp: file_holds_def)
      have "\<not> visible k s (last (ents ?f))" using None l(1) by (auto simp: newest_None)
      with find(3) [OF order_refl i] l(2) at_least_lookup [OF seq [OF l(1) i] assms(3), of k] have k: "k < me_key (last (ents ?f))" by auto
      have "\<not> visible k s e" if "e \<in> set (all_entries ents files)" for e
      proof
        assume v: "visible k s e"
        from visible_at [OF that v] obtain j where j: "i \<le> j" "j < length files" "e \<in> set (ents (files ! j))" by blast
        have "j \<noteq> i" using None j(3) v by (auto simp: newest_None)
        with j(1) have "i < j" by simp
        from later [OF this j(2) l(1) j(3)] k v show False by (auto simp: icmp_less visible_def)
      qed
      then have "newest k s (all_entries ents files) = None" unfolding newest_None by blast
      with None show ?thesis by simp
    next
      case (Some e)
      note e = newest_SomeD [OF Some]
      have "e' = e \<or> me_seq e' < me_seq e" if e': "e' \<in> set (all_entries ents files)" "visible k s e'" for e'
      proof -
        from visible_at [OF e'] obtain j where j: "i \<le> j" "j < length files" "e' \<in> set (ents (files ! j))" by blast
        have key: "me_key e = me_key e'" using e e'(2) by (simp add: visible_def)
        have "me_seq e' \<le> me_seq e"
        proof (cases "i = j")
          case False
          with later [of j e e'] j e have "entry_less e e'" by simp
          with entry_less_same_key [OF this key seq [OF _ i] seq [OF j(3,2)]] e show ?thesis by fastforce
        qed (use e e'(2) j in auto)
        moreover have "e' = e" if "me_seq e' = me_seq e"
          using assms(5) e'(1) in_file [of e] e key that by (auto simp: inj_on_def)
        ultimately show ?thesis by fastforce
      qed
      with e in_file [of e] have "newest k s (all_entries ents files) = Some e" by (intro newest_unique) auto
      with Some show ?thesis by simp
    qed
  qed
  show ?thesis
    using none found find(1) assms(4)
    by (cases "files = []") (auto simp: searched_def files_to_search_def level_file_def i_def [symmetric] Let_def split: option.splits)
qed

text \<open>
  A version over table files: the files hold their entries, the levels above 0 are sorted, and entries are the newer for a key the
  lower their level and, in level 0, the larger the number of their file.
\<close>

definition version_holds :: "file_mem \<Rightarrow> (fptr \<Rightarrow> mem_entry list) \<Rightarrow> 'd Version \<Rightarrow> bool" where
  "version_holds h ents v \<longleftrightarrow> length (v_files v) = 7 \<and> (\<forall>f \<in> set (concat (v_files v)). file_holds h f (ents f)) \<and>
     inj_on entry_id (set (all_entries ents (concat (v_files v)))) \<and>
     (\<forall>files \<in> set (tl (v_files v)). sorted_wrt (before_file h) files) \<and> distinct (hd (v_files v)) \<and>
     (\<forall>f \<in> set (hd (v_files v)). \<forall>g \<in> set (hd (v_files v)). f \<noteq> g \<longrightarrow>
        fm_number (h f) \<noteq> fm_number (h g) \<and> (fm_number (h g) < fm_number (h f) \<longrightarrow> newer ents f g)) \<and>
     sorted_wrt (level_newer ents) (v_files v)"

lemma version_holds_wf: "version_holds h ents v \<Longrightarrow> version_wf h v"
  unfolding version_holds_def version_wf_def level_sorted_def
  by (cases "v_files v") (auto intro: file_holds_wf simp: nth_Cons' split: if_splits)

lemma version_holds_searched:
  assumes "version_holds h ents v" "s \<le> kMaxSequenceNumber" "i < 7"
  shows "searched h ents k s i (v_files v ! i)"
proof -
  from assms(1) have len: "length (v_files v) = 7" and holds: "\<forall>f \<in> set (concat (v_files v)). file_holds h f (ents f)"
    and inj: "inj_on entry_id (set (all_entries ents (concat (v_files v))))" by (auto simp: version_holds_def)
  have mem: "v_files v ! i \<in> set (v_files v)" using len assms(3) by simp
  with holds have f: "\<forall>f \<in> set (v_files v ! i). file_holds h f (ents f)" by auto
  show ?thesis
  proof (cases "i = 0")
    case True
    have "v_files v \<noteq> []" using len by auto
    then have "searched h ents k s 0 (v_files v ! 0)"
      using assms(1) f True by (intro searched_level0) (auto simp: version_holds_def hd_conv_nth)
    with True show ?thesis by simp
  next
    case False
    then have "v_files v ! i = tl (v_files v) ! (i - 1)" using len assms(3) by (simp add: nth_tl)
    moreover have "tl (v_files v) ! (i - 1) \<in> set (tl (v_files v))" using len assms(3) False by (intro nth_mem) simp
    ultimately have "sorted_wrt (before_file h) (v_files v ! i)" using assms(1) by (simp add: version_holds_def)
    moreover have "inj_on entry_id (set (all_entries ents (v_files v ! i)))" by (rule inj_on_subset [OF inj]) (use mem in auto)
    ultimately show ?thesis using f False assms(2) by (intro searched_upper) auto
  qed
qed

context table_source
begin

lemma Version_Get_newest:
  assumes "ready (n + length (concat (v_files v))) c" "version_holds h ents v"
    "\<forall>f \<in> set (concat (v_files v)). stored (fm_number (h f)) (fm_file_size (h f)) = Some (table_of (ents f))" "s \<le> kMaxSequenceNumber"
  shows "\<exists>stats c'. Version_Get get slice_compare h v (make_LookupKey k s) c =
    Some (case newest k s (all_entries ents (concat (v_files v))) of None \<Rightarrow> (NotFound [] [], None) | Some e \<Rightarrow> reply e, stats, c') \<and> ready n c'"
proof -
  have "\<forall>f \<in> set (concat (v_files v)). holds_file h ents f" using assms(2,3) by (auto simp: version_holds_def holds_file_def)
  moreover have "\<forall>i < length (v_files v). searched h ents k s (0 + i) (v_files v ! i)"
    using version_holds_searched [OF assms(2,4)] assms(2) by (simp add: version_holds_def)
  moreover have "sorted_wrt (level_newer ents) (v_files v)" using assms(2) by (simp add: version_holds_def)
  ultimately obtain st where
    "search_levels get slice_compare h k (internal_key (make_LookupKey k s)) 0 (v_files v) (\<lparr>seek_file = None, seek_file_level = - 1\<rparr>, None, c) =
      Some (case newest k s (all_entries ents (concat (v_files v))) of None \<Rightarrow> (NotFound [] [], None) | Some e \<Rightarrow> reply e, st)"
    "ready n (snd (snd st))" using search_levels_newest [OF assms(1) _ assms(4)] by blast
  then show ?thesis by (cases st) (auto simp: Version_Get_def lookup_key_parts)
qed

end

subsection \<open>Properties\<close>

text \<open>Files that cover the ranges of one-byte user keys from 1 to 3, from 3 to 6 and from 8 to 9.\<close>

definition ex_files :: file_mem where
  "ex_files f = make_FileMetaData (word_of_nat (f + 1)) 100 (make_InternalKey [[1, 3, 8] ! f] 5 kTypeValue) (make_InternalKey [[3, 6, 9] ! f] 4 kTypeValue)"

lemma ex_files_wf: "f < 3 \<Longrightarrow> file_wf ex_files f"
proof -
  have seq: "PackSequenceAndType s kTypeValue \<le> PackSequenceAndType kMaxSequenceNumber kValueTypeForSeek" if "s \<le> kMaxSequenceNumber" for s
    using pack_le [of kMaxSequenceNumber s kTypeValue] that by simp
  have tags: "PackSequenceAndType 4 kTypeValue < PackSequenceAndType 5 kTypeValue"
    by (simp add: PackSequenceAndType_def type_code_def)
  assume "f < 3"
  then consider "f = 0" | "f = 1" | "f = 2" by linarith
  then show ?thesis
    by cases (use seq [of 4] seq [of 5] tags in \<open>simp_all add: file_wf_def key_wf_def ex_files_def make_FileMetaData_def icmp_less kMaxSequenceNumber_def\<close>)
qed

lemma ex_files_range [simp]: "file_start ex_files f = [[1, 3, 8] ! f]" "file_limit ex_files f = [[3, 6, 9] ! f]"
  by (simp_all add: file_start_def file_limit_def ex_files_def make_FileMetaData_def)

text \<open>
  C22. The test whether some file of a level overlaps a range of user keys is exact, with any bound missing: both the search through
  all files of level 0 and the binary search in a level of sorted, disjoint files find an overlapping file if and only if there is one.
\<close>

theorem some_file_overlaps:
  assumes "disjoint \<Longrightarrow> level_sorted h files"
  shows "SomeFileOverlapsRange slice_compare h disjoint files lo hi \<longleftrightarrow>
    (\<exists>f \<in> set files. (\<forall>k. lo = Some k \<longrightarrow> k \<le> file_limit h f) \<and> (\<forall>k. hi = Some k \<longrightarrow> file_start h f \<le> k))"
  using SomeFileOverlapsRange_iff [of disjoint h files lo hi] assms by (simp add: overlaps_def)

theorem some_file_overlaps_witness:
  "level_sorted ex_files [0, 2] \<and> SomeFileOverlapsRange slice_compare ex_files True [0, 2] (Some [9]) None \<and>
   \<not> SomeFileOverlapsRange slice_compare ex_files True [0, 2] (Some [4]) (Some [7])"
proof -
  have s: "level_sorted ex_files [0, 2]"
    using ex_files_wf [of 0] ex_files_wf [of 2]
    by (simp add: level_sorted_def before_file_def ex_files_def make_FileMetaData_def icmp_less)
  then show ?thesis
    using some_file_overlaps [of True ex_files "[0, 2]" "Some [9]" None] some_file_overlaps [of True ex_files "[0, 2]" "Some [4]" "Some [7]"] by simp
qed

text \<open>
  C23. The inputs chosen for a range of keys: in a level above 0 the files that overlap the range; in level 0 the least set of files that
  contains them and with a file all files that overlap it, which the search reaches in spite of its restarts. It always ends,
  and the files keep the order they have in the level.
\<close>

theorem overlapping_inputs:
  assumes "version_wf h v" "level < 7"
  shows "GetOverlappingInputs slice_compare h v level begin_key end_key =
    Some (filter (\<lambda>f. if level = 0
        then f \<in> touched h (v_files v ! level) (map_option ExtractUserKey begin_key) (map_option ExtractUserKey end_key)
        else overlaps h (map_option ExtractUserKey begin_key) (map_option ExtractUserKey end_key) f)
      (v_files v ! level))"
  by (rule GetOverlappingInputs_exact [OF assms])

theorem overlapping_inputs_witness:
  "GetOverlappingInputs slice_compare ex_files
     \<lparr>v_refs = 1, v_files = [[1, 2, 0], [], [], [], [], [], []], v_file_to_compact = None, v_file_to_compact_level = - 1, v_compaction_score = (), v_compaction_level = 0\<rparr>
     0 (Some (make_InternalKey [2] 9 kTypeValue)) (Some (make_InternalKey [2] 1 kTypeValue)) = Some [1, 0]"
proof -
  let ?v = "\<lparr>v_refs = 1, v_files = [[1, 2, 0], [], [], [], [], [], []], v_file_to_compact = None, v_file_to_compact_level = - 1, v_compaction_score = (), v_compaction_level = 0\<rparr>"
  let ?T = "touched ex_files [1, 2, 0] (Some [2]) (Some [2])"
  have wf: "version_wf ex_files ?v"
    using ex_files_wf [of 0] ex_files_wf [of 1] ex_files_wf [of 2]
    by (auto simp: version_wf_def level_sorted_def less_Suc_eq numeral_eq_Suc)
  have zero: "0 \<in> ?T" by (rule touched.in_range) (simp_all add: overlaps_def)
  then have "1 \<in> ?T" by (rule touched.neighbour) (simp_all add: files_overlap_def)
  moreover have "f \<in> {0, 1}" if "f \<in> ?T" for f
    using that by induction (auto simp: overlaps_def files_overlap_def)
  then have "2 \<notin> ?T" by fastforce
  ultimately show ?thesis
    using zero overlapping_inputs [OF wf, of 0 "Some (make_InternalKey [2] 9 kTypeValue)" "Some (make_InternalKey [2] 1 kTypeValue)"]
    by auto
qed

end
