(* ===== verification/Ldb_Table_Cache.thy ===== *)
theory Ldb_Table_Cache
  imports Ldb_Cache_Spec Ldb_Version_Spec
begin

text \<open>
  The cache of open tables (\<^verbatim>\<open>table_cache.cc\<close>) over the sharded LRU cache, with the part of \<^verbatim>\<open>PosixEnv\<close> that opens random
  access files (\<^verbatim>\<open>env_posix.cc\<close>): a limited number of memory maps, then a limited number of permanent descriptors. What
  \<^verbatim>\<open>DeleteEntry\<close> does is done when the LRU cache calls it: the limiter of the deleted file gets its unit back.
\<close>

subsection \<open>Random access files by name\<close>

definition Limiter_Acquire :: "int \<Rightarrow> bool \<times> int" where
  "Limiter_Acquire acquires_allowed =
     (let old_acquires_allowed = acquires_allowed; acquires_allowed = acquires_allowed - 1 in
      if old_acquires_allowed > 0 then (True, acquires_allowed) else (False, acquires_allowed + 1))"

definition Limiter_Release :: "int \<Rightarrow> int" where
  "Limiter_Release acquires_allowed = acquires_allowed + 1"

text \<open>The file system, the two limiters, and what later calls of \<^verbatim>\<open>open\<close> and \<^verbatim>\<open>pread\<close> on a file give.\<close>

record random_env =
  re_fs :: filesystem
  re_mmap_limiter :: int
  re_fd_limiter :: int
  re_open :: "slice \<Rightarrow> nat \<Rightarrow> nat \<Rightarrow> errno option"
  re_pread :: "slice \<Rightarrow> nat \<Rightarrow> nat \<Rightarrow> pread_call"

datatype random_file = Random_file posix_random | Mmap_file posix_mmap

fun RandomAccessFile_Read :: "random_file \<Rightarrow> random_read" where
  "RandomAccessFile_Read (Random_file f) = PosixRandom_Read f"
| "RandomAccessFile_Read (Mmap_file f) = PosixMmap_Read f"

definition make_PosixRandomAccessFile :: "slice \<Rightarrow> byte list \<Rightarrow> random_env \<Rightarrow> random_file \<times> random_env" where
  "make_PosixRandomAccessFile filename bs env =
     (case Limiter_Acquire (re_fd_limiter env) of (permanent, lim) \<Rightarrow>
        let fs = (if permanent then re_fs env else snd (system_call (re_fs env))) in
        (Random_file \<lparr>rf_name = chars_of filename, rf_strerror = fs_strerror fs, rf_contents = bs, rf_permanent_fd = permanent,
           rf_open = re_open env filename, rf_pread = re_pread env filename\<rparr>,
         env\<lparr>re_fd_limiter := lim, re_fs := fs\<rparr>))"

text \<open>The destructors; \<^verbatim>\<open>munmap\<close> and \<^verbatim>\<open>close\<close> are calls whose result is not used.\<close>

fun destroy_random_file :: "random_file \<Rightarrow> random_env \<Rightarrow> random_env" where
  "destroy_random_file (Random_file f) env =
     (if rf_permanent_fd f
      then env\<lparr>re_fs := snd (system_call (re_fs env)), re_fd_limiter := Limiter_Release (re_fd_limiter env)\<rparr> else env)"
| "destroy_random_file (Mmap_file f) env =
     env\<lparr>re_fs := snd (system_call (re_fs env)), re_mmap_limiter := Limiter_Release (re_mmap_limiter env)\<rparr>"

text \<open>A map of length 0 is refused by the operating system.\<close>

definition NewRandomAccessFile :: "slice \<Rightarrow> random_env \<Rightarrow> Status \<times> random_file option \<times> random_env" where
  "NewRandomAccessFile filename env =
     (case system_call (re_fs env) of
        (Some e, fs) \<Rightarrow> (posix_error fs filename e, None, env\<lparr>re_fs := fs\<rparr>)
      | (None, fs) \<Rightarrow>
          (case fs_files fs filename of
             None \<Rightarrow> (posix_error fs filename ENOENT, None, env\<lparr>re_fs := fs\<rparr>)
           | Some bs \<Rightarrow>
               (case Limiter_Acquire (re_mmap_limiter env) of
                  (False, lim) \<Rightarrow>
                    (case make_PosixRandomAccessFile filename bs (env\<lparr>re_fs := fs, re_mmap_limiter := lim\<rparr>) of
                       (f, env) \<Rightarrow> (OK, Some f, env))
                | (True, lim) \<Rightarrow>
                    let (s, file_size, fs) = GetFileSize filename fs;
                        (s, result, fs) =
                          (if ok s then
                             (case system_call fs of (c, fs) \<Rightarrow>
                                if c = None \<and> file_size > 0
                                then (s, Some (Mmap_file \<lparr>mf_name = chars_of filename, mf_strerror = fs_strerror fs, mf_contents = take file_size bs\<rparr>), fs)
                                else (posix_error fs filename (case c of Some e \<Rightarrow> e | None \<Rightarrow> EINVAL), None, fs))
                           else (s, None, fs));
                        fs = snd (system_call fs);
                        lim = (if \<not> ok s then Limiter_Release lim else lim)
                    in (s, result, env\<lparr>re_fs := fs, re_mmap_limiter := lim\<rparr>))))"

subsection \<open>The table cache\<close>

record TableAndFile =
  tf_file :: random_file
  tf_table :: Table

record TableCache =
  tc_env :: random_env
  tc_cache :: "TableAndFile ShardedLRUCache"

definition DeleteEntry :: "TableAndFile \<Rightarrow> random_env \<Rightarrow> random_env" where
  "DeleteEntry tf env = destroy_random_file (tf_file tf) env"

definition make_TableCache :: "random_env \<Rightarrow> 64 word \<Rightarrow> TableCache option" where
  "make_TableCache env entries = map_option (\<lambda>c. \<lparr>tc_env = env, tc_cache = c\<rparr>) (make_ShardedLRUCache entries)"

text \<open>An operation of the LRU cache, with the calls of the deleter that it makes.\<close>

definition new_deletions :: "'v ShardedLRUCache \<Rightarrow> 'v ShardedLRUCache \<Rightarrow> 'v list" where
  "new_deletions c c' =
     concat (map (\<lambda>(s, s'). map snd (drop (length (lc_deleted s)) (lc_deleted s'))) (zip (sc_shards c) (sc_shards c')))"

definition on_cache ::
  "(TableAndFile ShardedLRUCache \<Rightarrow> ('a \<times> TableAndFile ShardedLRUCache) option) \<Rightarrow> TableCache \<Rightarrow> ('a \<times> TableCache) option" where
  "on_cache f tc = do {
     (r, c) \<leftarrow> f (tc_cache tc);
     Some (r, tc\<lparr>tc_cache := c, tc_env := fold DeleteEntry (new_deletions (tc_cache tc) c) (tc_env tc)\<rparr>)
   }"

definition UnrefEntry :: "nat \<times> nat \<Rightarrow> TableCache \<Rightarrow> TableCache option" where
  "UnrefEntry handle tc = map_option snd (on_cache (\<lambda>c. map_option (Pair ()) (Sharded_Release handle c)) tc)"

text \<open>The file is opened under its name, or else under the name with the old suffix.\<close>

definition open_table_file :: "slice \<Rightarrow> 64 word \<Rightarrow> random_env \<Rightarrow> (Status \<times> random_file option \<times> random_env) option" where
  "open_table_file dbname number env = do {
     fname \<leftarrow> TableFileName dbname number;
     (case NewRandomAccessFile fname env of (s, f, env) \<Rightarrow>
        if \<not> ok s then do {
          old_fname \<leftarrow> SSTTableFileName dbname number;
          (case NewRandomAccessFile old_fname env of (s', f, env) \<Rightarrow> Some (if ok s' then OK else s, f, env))
        }
        else Some (s, f, env))
   }"

definition FindTable ::
  "addr \<Rightarrow> slice \<Rightarrow> Options \<Rightarrow> 64 word \<Rightarrow> 64 word \<Rightarrow> TableCache \<Rightarrow> ((Status \<times> (nat \<times> nat) option) \<times> TableCache) option" where
  "FindTable a dbname options file_number file_size tc = do {
     let key = EncodeFixed64 file_number;
     (handle, tc) \<leftarrow> on_cache (Sharded_Lookup key) tc;
     case handle of Some e \<Rightarrow> Some ((OK, Some e), tc)
     | None \<Rightarrow> do {
         (s, file, env) \<leftarrow> open_table_file dbname file_number (tc_env tc);
         case (ok s, file) of
           (True, Some f) \<Rightarrow> do {
             t \<leftarrow> Table_Open (RandomAccessFile_Read f) a options (unat file_size);
             case t of
               Inl s \<Rightarrow> Some ((s, None), tc\<lparr>tc_env := destroy_random_file f env\<rparr>)
             | Inr table \<Rightarrow> do {
                 (e, tc) \<leftarrow> on_cache (Sharded_Insert key \<lparr>tf_file = f, tf_table = table\<rparr> 1) (tc\<lparr>tc_env := env\<rparr>);
                 Some ((s, Some e), tc)
               }
           }
         | _ \<Rightarrow> Some ((s, None), tc\<lparr>tc_env := env\<rparr>)
       }
   }"

definition TableCache_Get :: "addr \<Rightarrow> slice \<Rightarrow> Options \<Rightarrow> bool \<Rightarrow> TableCache table_get" where
  "TableCache_Get a dbname options verify tc file_number file_size k = do {
     ((s, handle), tc) \<leftarrow> FindTable a dbname options file_number file_size tc;
     if ok s then do {
       e \<leftarrow> handle;
       tf \<leftarrow> Sharded_Value e (tc_cache tc);
       r \<leftarrow> InternalGet (RandomAccessFile_Read (tf_file tf)) a verify k (tf_table tf);
       tc \<leftarrow> UnrefEntry e tc;
       Some (r, tc)
     }
     else Some ((s, None), tc)
   }"

definition TableCache_Evict :: "64 word \<Rightarrow> TableCache \<Rightarrow> TableCache option" where
  "TableCache_Evict file_number tc =
     map_option snd (on_cache (\<lambda>c. map_option (Pair ()) (Sharded_Erase (EncodeFixed64 file_number) c)) tc)"

end
