(* ===== verification/Ldb_Table_Cache_Spec.thy ===== *)
theory Ldb_Table_Cache_Spec
  imports Ldb_Table_Cache
begin

text \<open>
  The table cache finds the entries of the table files: it satisfies the interface that versions rely on, and a lookup in a
  version over it gives the newest visible entry of the key.
\<close>

subsection \<open>The sharded cache, operation by operation\<close>

definition sharded_inv :: "'v ShardedLRUCache \<Rightarrow> (nat \<Rightarrow> nat multiset) \<Rightarrow> (nat \<Rightarrow> (slice \<times> 'v) list) \<Rightarrow> bool" where
  "sharded_inv c held ins \<longleftrightarrow> length (sc_shards c) = kNumShards \<and>
     (\<forall>s < kNumShards. cache_inv (sc_shards c ! s) (held s) (ins s) {})"

lemma sharded_invD: "sharded_inv c held ins \<Longrightarrow> cache_inv (sc_shards c ! Shard hash) (held (Shard hash)) (ins (Shard hash)) {}"
  "sharded_inv c held ins \<Longrightarrow> Shard hash < length (sc_shards c)"
  using Shard_less by (auto simp: sharded_inv_def)

lemma sharded_inv_update:
  assumes "sharded_inv c held ins" "cache_inv shard h i {}"
  shows "sharded_inv (c\<lparr>sc_shards := (sc_shards c)[s := shard]\<rparr>) (held(s := h)) (ins(s := i))"
  using assms by (auto simp: sharded_inv_def nth_list_update)

lemma Sharded_Lookup_inv:
  fixes key :: slice
  assumes "sharded_inv c held ins" "\<forall>s. size (held s) + 2 < 2 ^ 32"
  defines "s \<equiv> Shard (HashSlice key)"
  shows "\<exists>r c'. Sharded_Lookup key c = Some (r, c') \<and>
    (case r of None \<Rightarrow> sharded_inv c' held ins
     | Some (s', e) \<Rightarrow> s' = s \<and> sharded_inv c' (held(s := add_mset e (held s))) ins \<and> e < length (ins s) \<and> fst (ins s ! e) = key)"
proof -
  let ?c = "sc_shards c ! s"
  note inv = sharded_invD(1) [OF assms(1), of "HashSlice key", folded s_def]
  from LRU_Lookup_inv [OF inv, of key "HashSlice key"] assms(2) obtain r c' where
    r: "LRU_Lookup key (HashSlice key) ?c = Some (r, c')" "cache_inv c' (case r of None \<Rightarrow> held s | Some e \<Rightarrow> add_mset e (held s)) (ins s) {}"
    "\<forall>e. r = Some e \<longrightarrow> e < length (ins s) \<and> fst (ins s ! e) = key" by blast
  from sharded_inv_update [OF assms(1) r(2), of s] r(1,3) show ?thesis
    by (cases r) (auto simp: Sharded_Lookup_def on_shard_def Let_def s_def [symmetric])
qed

lemma Sharded_Insert_inv:
  fixes key :: slice
  assumes "sharded_inv c held ins" "\<forall>s. length (ins s) < 2 ^ 31"
  defines "s \<equiv> Shard (HashSlice key)"
  shows "\<exists>c'. Sharded_Insert key val charge c = Some ((s, length (ins s)), c') \<and>
    sharded_inv c' (held(s := add_mset (length (ins s)) (held s))) (ins(s := ins s @ [(key, val)]))"
proof -
  note inv = sharded_invD(1) [OF assms(1), of "HashSlice key", folded s_def]
  from LRU_Insert_contents [OF inv, of key "HashSlice key" val charge] assms(2) obtain c' where
    c': "LRU_Insert key (HashSlice key) val charge (sc_shards c ! s) = Some (length (ins s), c')"
    "cache_inv c' (add_mset (length (ins s)) (held s)) (ins s @ [(key, val)]) {}" by blast
  from sharded_inv_update [OF assms(1) c'(2), of s] c'(1) show ?thesis
    by (auto simp: Sharded_Insert_def on_shard_def Let_def s_def [symmetric])
qed

lemma Sharded_Release_inv:
  assumes "sharded_inv c held ins" "e \<in># held s" "s < kNumShards"
  shows "\<exists>c'. Sharded_Release (s, e) c = Some c' \<and> sharded_inv c' (held(s := held s - {#e#})) ins"
proof -
  have "cache_inv (sc_shards c ! s) (held s) (ins s) {}" using assms(1,3) by (simp add: sharded_inv_def)
  from LRU_Release_inv [OF this assms(2)] obtain c' where
    c': "LRU_Release e (sc_shards c ! s) = Some c'" "cache_inv c' (held s - {#e#}) (ins s) {}" by blast
  from sharded_inv_update [OF assms(1) c'(2), of s] c'(1) show ?thesis by (auto simp: Sharded_Release_def on_shard_def)
qed

lemma Sharded_Value_inv:
  assumes "sharded_inv c held ins" "e \<in># held s" "s < kNumShards"
  shows "Sharded_Value (s, e) c = Some (snd (ins s ! e))"
  using sharded_value [of "sc_shards c ! s" "held s" "ins s" e] assms by (simp add: sharded_inv_def Sharded_Value_def)

subsection \<open>Opening table files\<close>

text \<open>The operating system makes no errors, and every table is on disk under its name.\<close>

definition os_ready :: "random_env \<Rightarrow> bool" where
  "os_ready env \<longleftrightarrow> fs_calls (re_fs env) = [] \<and> (\<forall>name off n. re_open env name off n = None \<and> (\<exists>m \<ge> n. re_pread env name off n = Preads m))"

definition tables_on_disk :: "Options \<Rightarrow> slice \<Rightarrow> (64 word \<Rightarrow> (slice \<times> slice) list option) \<Rightarrow> random_env \<Rightarrow> bool" where
  "tables_on_disk opt db tabs env \<longleftrightarrow> (\<forall>number es. tabs number = Some es \<longrightarrow> number > 0 \<and>
     fs_files (re_fs env) (MakeFileName db number ''ldb'') = Some (table_file opt es) \<and> table_entries opt valid_key es \<and>
     length (table_file opt es) < 2 ^ 32)"

definition same_env :: "random_env \<Rightarrow> random_env \<Rightarrow> bool" where
  "same_env env env' \<longleftrightarrow> fs_calls (re_fs env') = fs_calls (re_fs env) \<and> fs_files (re_fs env') = fs_files (re_fs env) \<and>
     re_open env' = re_open env \<and> re_pread env' = re_pread env"

lemma same_env_ready: "same_env env env' \<Longrightarrow> os_ready env \<Longrightarrow> os_ready env'"
  "same_env env env' \<Longrightarrow> tables_on_disk opt db tabs env \<Longrightarrow> tables_on_disk opt db tabs env'"
  by (simp_all add: same_env_def os_ready_def tables_on_disk_def)

lemma same_env_trans: "same_env a b \<Longrightarrow> same_env b c \<Longrightarrow> same_env a c"
  by (simp add: same_env_def)

lemma no_call: "fs_calls fs = [] \<Longrightarrow> system_call fs = (None, fs)"
  by (simp add: system_call_def)

lemma destroy_same: "os_ready env \<Longrightarrow> same_env env (destroy_random_file f env)"
  by (cases f) (auto simp: same_env_def os_ready_def no_call)

lemma deletions_same: "os_ready env \<Longrightarrow> same_env env (fold DeleteEntry tfs env)"
proof (induction tfs arbitrary: env)
  case (Cons tf tfs)
  have s: "same_env env (DeleteEntry tf env)" unfolding DeleteEntry_def by (rule destroy_same [OF Cons.prems])
  from Cons.IH [OF same_env_ready(1) [OF s Cons.prems]] s show ?case by (auto intro: same_env_trans)
qed (simp add: same_env_def)

lemma reads_fileI: "random_access_file Read data healthy \<Longrightarrow> healthy f \<Longrightarrow> data f = bs \<Longrightarrow> reads_file (Read f) bs"
  using random_access_file.read_inside [of Read data healthy f] by (auto simp: reads_file_def)

lemma NewRandomAccessFile_ready:
  assumes "os_ready env" "fs_files (re_fs env) name = Some bs" "0 < length bs" "length bs < 2 ^ 32"
  shows "\<exists>f env'. NewRandomAccessFile name env = (OK, Some f, env') \<and> reads_file (RandomAccessFile_Read f) bs \<and> same_env env env'"
proof -
  have calls: "fs_calls (re_fs env) = []" using assms(1) by (simp add: os_ready_def)
  show ?thesis
  proof (cases "re_mmap_limiter env > 0")
    case True
    let ?f = "\<lparr>mf_name = chars_of name, mf_strerror = fs_strerror (re_fs env), mf_contents = bs\<rparr>"
    have "NewRandomAccessFile name env = (OK, Some (Mmap_file ?f), env\<lparr>re_mmap_limiter := re_mmap_limiter env - 1\<rparr>)"
      using calls assms(2,3) True by (simp add: NewRandomAccessFile_def no_call Limiter_Acquire_def GetFileSize_def)
    moreover have "reads_file (PosixMmap_Read ?f) bs"
      by (rule reads_fileI [OF posix_mmap.random_access_file_axioms]) (use assms(4) in simp_all)
    ultimately show ?thesis by (auto simp: same_env_def)
  next
    case False
    let ?f = "\<lparr>rf_name = chars_of name, rf_strerror = fs_strerror (re_fs env), rf_contents = bs, rf_permanent_fd = re_fd_limiter env > 0,
      rf_open = re_open env name, rf_pread = re_pread env name\<rparr>"
    have "\<exists>env'. NewRandomAccessFile name env = (OK, Some (Random_file ?f), env') \<and> same_env env env'"
      using calls assms(2) False
      by (auto simp: NewRandomAccessFile_def no_call Limiter_Acquire_def make_PosixRandomAccessFile_def same_env_def Let_def)
    moreover have "reads_file (PosixRandom_Read ?f) bs"
      by (rule reads_fileI [OF posix_random.random_access_file_axioms]) (use assms(1,4) in \<open>simp_all add: rf_healthy_def os_ready_def\<close>)
    ultimately show ?thesis by fastforce
  qed
qed

subsection \<open>Lookups through the cache\<close>

definition tf_good :: "addr \<Rightarrow> Options \<Rightarrow> TableAndFile \<Rightarrow> (slice \<times> slice) list \<Rightarrow> bool" where
  "tf_good a opt tf es \<longleftrightarrow> reads_file (RandomAccessFile_Read (tf_file tf)) (table_file opt es) \<and>
     Table_Open (RandomAccessFile_Read (tf_file tf)) a opt (length (table_file opt es)) = Some (Inr (tf_table tf))"

text \<open>What has been inserted under the number of a table is the opened table.\<close>

definition insertions_good :: "addr \<Rightarrow> Options \<Rightarrow> (64 word \<Rightarrow> (slice \<times> slice) list option) \<Rightarrow> (nat \<Rightarrow> (slice \<times> TableAndFile) list) \<Rightarrow> bool" where
  "insertions_good a opt tabs ins \<longleftrightarrow>
     (\<forall>s key tf number es. (key, tf) \<in> set (ins s) \<longrightarrow> key = EncodeFixed64 number \<longrightarrow> tabs number = Some es \<longrightarrow> tf_good a opt tf es)"

text \<open>The state in which \<open>n\<close> more lookups can be made: no handle is in use, and the number of insertions stays below \<open>2\<^sup>3\<^sup>1\<close>.\<close>

definition table_cache_ready :: "addr \<Rightarrow> slice \<Rightarrow> Options \<Rightarrow> (64 word \<Rightarrow> (slice \<times> slice) list option) \<Rightarrow> nat \<Rightarrow> TableCache \<Rightarrow> bool" where
  "table_cache_ready a db opt tabs n tc \<longleftrightarrow> os_ready (tc_env tc) \<and> tables_on_disk opt db tabs (tc_env tc) \<and>
     (\<exists>ins. sharded_inv (tc_cache tc) (\<lambda>_. {#}) ins \<and> (\<forall>s. length (ins s) + n \<le> 2 ^ 31) \<and> insertions_good a opt tabs ins)"

definition stored_table :: "Options \<Rightarrow> (64 word \<Rightarrow> (slice \<times> slice) list option) \<Rightarrow> 64 word \<Rightarrow> 64 word \<Rightarrow> (slice \<times> slice) list option" where
  "stored_table opt tabs number sz =
     (case tabs number of None \<Rightarrow> None | Some es \<Rightarrow> if sz = word_of_nat (length (table_file opt es)) then Some es else None)"

lemma EncodeFixed64_inj: "EncodeFixed64 a = EncodeFixed64 b \<Longrightarrow> a = b"
  using Extract_append(2) [of "[]" a] Extract_append(2) [of "[]" b] by simp

lemma table_file_length: "48 \<le> length (table_file opt es)"
  by (simp add: table_file_def blocks_file_def)

lemma open_table_file_ready:
  assumes "os_ready env" "tables_on_disk opt db tabs env" "tabs number = Some es"
  shows "\<exists>f env'. open_table_file db number env = Some (OK, Some f, env') \<and> reads_file (RandomAccessFile_Read f) (table_file opt es) \<and> same_env env env'"
proof -
  from assms(2,3) have d: "number > 0" "fs_files (re_fs env) (MakeFileName db number ''ldb'') = Some (table_file opt es)"
    "length (table_file opt es) < 2 ^ 32" unfolding tables_on_disk_def by blast+
  from NewRandomAccessFile_ready [OF assms(1) d(2) _ d(3)] table_file_length [of opt es] obtain f env' where
    "NewRandomAccessFile (MakeFileName db number ''ldb'') env = (OK, Some f, env')"
    "reads_file (RandomAccessFile_Read f) (table_file opt es)" "same_env env env'" by fastforce
  with d(1) show ?thesis by (simp add: open_table_file_def TableFileName_def)
qed

lemma on_cache_same:
  assumes "f (tc_cache tc) = Some (r, c)" "os_ready (tc_env tc)"
  shows "\<exists>tc'. on_cache f tc = Some (r, tc') \<and> tc_cache tc' = c \<and> same_env (tc_env tc) (tc_env tc')"
  using assms deletions_same [OF assms(2)] by (simp add: on_cache_def)

lemma FindTable_ready:
  fixes r sz c paranoid bits
  defines "opt \<equiv> internal_options r sz c paranoid bits"
  assumes "table_cache_ready a db opt tabs (Suc n) tc" "tabs number = Some es"
  shows "\<exists>s e tc' ins tf. FindTable a db opt number (word_of_nat (length (table_file opt es))) tc = Some ((OK, Some (s, e)), tc') \<and>
    s < kNumShards \<and> sharded_inv (tc_cache tc') ((\<lambda>_. {#})(s := {#e#})) ins \<and> snd (ins s ! e) = tf \<and> tf_good a opt tf es \<and>
    (\<forall>s. length (ins s) + n \<le> 2 ^ 31) \<and> insertions_good a opt tabs ins \<and> same_env (tc_env tc) (tc_env tc')"
proof -
  let ?key = "EncodeFixed64 number" and ?len = "length (table_file opt es)" let ?s = "Shard (HashSlice ?key)"
  from assms(2) obtain ins where env: "os_ready (tc_env tc)" "tables_on_disk opt db tabs (tc_env tc)"
    and inv: "sharded_inv (tc_cache tc) (\<lambda>_. {#}) ins" and len: "\<And>s. length (ins s) + Suc n \<le> 2 ^ 31"
    and good: "insertions_good a opt tabs ins" by (auto simp: table_cache_ready_def)
  have es: "table_entries opt valid_key es" "?len < 2 ^ 32" using env(2) assms(3) unfolding tables_on_disk_def by blast+
  from Sharded_Lookup_inv [OF inv, of ?key] obtain ho c1 where
    l: "Sharded_Lookup ?key (tc_cache tc) = Some (ho, c1)"
    "case ho of None \<Rightarrow> sharded_inv c1 (\<lambda>_. {#}) ins
     | Some (s', e) \<Rightarrow> s' = ?s \<and> sharded_inv c1 ((\<lambda>_. {#})(?s := {#e#})) ins \<and> e < length (ins ?s) \<and> fst (ins ?s ! e) = ?key" by fastforce
  from on_cache_same [where f = "Sharded_Lookup ?key", OF l(1) env(1)] obtain tc1 where
    tc1: "on_cache (Sharded_Lookup ?key) tc = Some (ho, tc1)" "tc_cache tc1 = c1" "same_env (tc_env tc) (tc_env tc1)" by blast
  show ?thesis
  proof (cases ho)
    case (Some h)
    then obtain e where h: "h = (?s, e)" "sharded_inv c1 ((\<lambda>_. {#})(?s := {#e#})) ins" "e < length (ins ?s)" "fst (ins ?s ! e) = ?key"
      using l(2) by (cases h) auto
    have "ins ?s ! e \<in> set (ins ?s)" using h(3) by simp
    then have "tf_good a opt (snd (ins ?s ! e)) es" using good assms(3) h(4) unfolding insertions_good_def by (metis prod.collapse)
    moreover have "length (ins s) + n \<le> 2 ^ 31" for s using len [of s] by simp
    ultimately show ?thesis using Some h tc1 good Shard_less by (fastforce simp: FindTable_def)
  next
    case None
    note env1 = same_env_ready [OF tc1(3)] env
    from open_table_file_ready [OF env1(1) [OF env(1)] env1(2) [OF env(2)] assms(3)] obtain f env' where
      f: "open_table_file db number (tc_env tc1) = Some (OK, Some f, env')" "reads_file (RandomAccessFile_Read f) (table_file opt es)"
      "same_env (tc_env tc1) env'" by blast
    obtain t where t: "Table_Open (RandomAccessFile_Read f) a opt ?len = Some (Inr t)"
      using internal_table.InternalGet_table [of _ r sz c paranoid bits es ?key, folded opt_def, OF f(2) es(2,1)] by (metis Extract_append(3) append_Nil)
    let ?tf = "\<lparr>tf_file = f, tf_table = t\<rparr>"
    have tf: "tf_good a opt ?tf es" using f(2) t by (simp add: tf_good_def)
    have inv1: "sharded_inv (tc_cache tc1) (\<lambda>_. {#}) ins" using l(2) None tc1(2) by simp
    have "\<forall>s. length (ins s) < 2 ^ 31" using len by (metis add_Suc_right le_add1 less_eq_Suc_le order_trans add_Suc)
    from Sharded_Insert_inv [OF inv1 this, of ?key ?tf 1] obtain c2 where
      c2: "Sharded_Insert ?key ?tf 1 (tc_cache tc1) = Some ((?s, length (ins ?s)), c2)"
      "sharded_inv c2 ((\<lambda>_. {#})(?s := {#length (ins ?s)#})) (ins(?s := ins ?s @ [(?key, ?tf)]))" by auto
    have ready': "os_ready env'" using same_env_ready(1) [OF f(3)] env1(1) [OF env(1)] by blast
    from on_cache_same [of "Sharded_Insert ?key ?tf 1" "tc1\<lparr>tc_env := env'\<rparr>" _ c2] c2(1) ready' obtain tc2 where
      tc2: "on_cache (Sharded_Insert ?key ?tf 1) (tc1\<lparr>tc_env := env'\<rparr>) = Some ((?s, length (ins ?s)), tc2)" "tc_cache tc2 = c2"
      "same_env env' (tc_env tc2)" by auto
    have good2: "insertions_good a opt tabs (ins(?s := ins ?s @ [(?key, ?tf)]))"
      using good tf assms(3) unfolding insertions_good_def by (auto dest: EncodeFixed64_inj)
    have len2: "length ((ins(?s := ins ?s @ [(?key, ?tf)])) s) + n \<le> 2 ^ 31" for s using len [of s] by auto
    have sz: "unat (word_of_nat ?len :: 64 word) = ?len" using es(2) by (simp add: unat_length_64)
    have run: "FindTable a db opt number (word_of_nat ?len) tc = Some ((OK, Some (?s, length (ins ?s))), tc2)"
      using tc1(1) None f(1) t tc2(1) by (simp add: FindTable_def sz ok_def Let_def)
    show ?thesis
      by (intro exI [of _ ?s] exI [of _ "length (ins ?s)"] exI [of _ tc2] exI [of _ "ins(?s := ins ?s @ [(?key, ?tf)])"] exI [of _ ?tf] conjI)
        (use run c2(2) tc2(2,3) tf good2 len2 tc1(3) f(3) Shard_less in \<open>auto intro: same_env_trans\<close>)
  qed
qed

lemma TableCache_Get_ready:
  fixes r sz c paranoid bits
  defines "opt \<equiv> internal_options r sz c paranoid bits"
  assumes "table_cache_ready a db opt tabs (Suc n) tc" "stored_table opt tabs number file_size = Some es" "valid_key k"
  shows "\<exists>x tc'. TableCache_Get a db opt verify tc number file_size k = Some ((OK, x), tc') \<and> table_cache_ready a db opt tabs n tc' \<and>
    (x = None \<or> x = first_at_least icmp k es) \<and> (\<forall>e. first_at_least icmp k es = Some e \<and> same_user_key (fst e) k \<longrightarrow> x = Some e)"
proof -
  from assms(3) have t: "tabs number = Some es" "file_size = word_of_nat (length (table_file opt es))"
    by (auto simp: stored_table_def split: option.splits if_splits)
  from FindTable_ready [of a db r sz c paranoid bits, folded opt_def, OF assms(2) t(1)] obtain s e tc1 ins tf where
    f: "FindTable a db opt number file_size tc = Some ((OK, Some (s, e)), tc1)" "s < kNumShards"
    "sharded_inv (tc_cache tc1) ((\<lambda>_. {#})(s := {#e#})) ins" "snd (ins s ! e) = tf" "tf_good a opt tf es"
    "\<forall>s. length (ins s) + n \<le> 2 ^ 31" "insertions_good a opt tabs ins" "same_env (tc_env tc) (tc_env tc1)" unfolding t(2) by blast
  have env: "os_ready (tc_env tc)" "tables_on_disk opt db tabs (tc_env tc)" using assms(2) by (auto simp: table_cache_ready_def)
  note env1 = same_env_ready(1) [OF f(8) env(1)] same_env_ready(2) [OF f(8) env(2)]
  have es: "table_entries opt valid_key es" "length (table_file opt es) < 2 ^ 32" using env(2) t(1) unfolding tables_on_disk_def by blast+
  have v: "Sharded_Value (s, e) (tc_cache tc1) = Some tf" using Sharded_Value_inv [OF f(3) _ f(2)] f(4) by simp
  have cmp: "cmp_Compare (opt_comparator (internal_options r sz c paranoid bits)) = icmp" by (simp add: internal_options_def)
  have found: "internal_table.found_in r sz c paranoid bits es k = first_at_least icmp k es"
    by (simp add: internal_table.found_in_def first_at_least_def cmp)
  from f(5) internal_table.InternalGet_table [of _ r sz c paranoid bits es k, folded opt_def, OF _ es(2,1) assms(4), of "RandomAccessFile_Read (tf_file tf)" a a verify]
  obtain x where x: "InternalGet (RandomAccessFile_Read (tf_file tf)) a verify k (tf_table tf) = Some (OK, x)"
    "x = None \<or> x = first_at_least icmp k es" "\<forall>e. first_at_least icmp k es = Some e \<and> same_user_key (fst e) k \<longrightarrow> x = Some e"
    unfolding found [folded opt_def] tf_good_def by auto
  from Sharded_Release_inv [OF f(3) _ f(2), of e] obtain c2 where
    c2: "Sharded_Release (s, e) (tc_cache tc1) = Some c2" "sharded_inv c2 (\<lambda>_. {#}) ins" by (auto simp: fun_upd_idem)
  from on_cache_same [where f = "\<lambda>c. map_option (Pair ()) (Sharded_Release (s, e) c)", of tc1 "()" c2] c2(1) env1(1) obtain tc2 where
    tc2: "UnrefEntry (s, e) tc1 = Some tc2" "tc_cache tc2 = c2" "same_env (tc_env tc1) (tc_env tc2)" by (auto simp: UnrefEntry_def)
  have "table_cache_ready a db opt tabs n tc2"
    using same_env_ready(1) [OF tc2(3) env1(1)] same_env_ready(2) [OF tc2(3) env1(2)] c2(2) tc2(2) f(6,7) by (auto simp: table_cache_ready_def)
  moreover have "TableCache_Get a db opt verify tc number file_size k = Some ((OK, x), tc2)"
    using f(1) v x(1) tc2(1) by (simp add: TableCache_Get_def ok_def)
  ultimately show ?thesis using x(2,3) by blast
qed

interpretation tables: table_source "TableCache_Get a db (internal_options r sz c paranoid bits) verify"
  "stored_table (internal_options r sz c paranoid bits) tabs" "table_cache_ready a db (internal_options r sz c paranoid bits) tabs"
  for a db r sz c paranoid bits verify tabs
proof
  fix n tc
  assume "table_cache_ready a db (internal_options r sz c paranoid bits) tabs (Suc n) tc"
  moreover have "length (ins s) + n \<le> 2 ^ 31" if "length (ins s) + Suc n \<le> 2 ^ 31" for ins :: "nat \<Rightarrow> (slice \<times> TableAndFile) list" and s
    using that by linarith
  ultimately show "table_cache_ready a db (internal_options r sz c paranoid bits) tabs n tc"
    unfolding table_cache_ready_def by blast
qed (rule TableCache_Get_ready)

subsection \<open>Properties\<close>

text \<open>
  C21. A lookup in a version, through the table cache, over the table files on disk: from every state of the cache with room for
  as many lookups as the version has files, the key's newest entry that is visible at the sequence number decides. The lookup
  gives its value, or that the key is not found when the entry is a deletion or there is none; and the cache stays usable.
\<close>

theorem version_get:
  fixes v :: "'d Version"
  assumes "version_holds h ents v" "s \<le> kMaxSequenceNumber"
    "\<forall>f \<in> set (concat (v_files v)). tabs (fm_number (h f)) = Some (table_of (ents f)) \<and>
       fm_file_size (h f) = word_of_nat (length (table_file (internal_options r sz c paranoid bits) (table_of (ents f))))"
    "table_cache_ready a db (internal_options r sz c paranoid bits) tabs (n + length (concat (v_files v))) tc"
  shows "\<exists>stats tc'. Version_Get (TableCache_Get a db (internal_options r sz c paranoid bits) verify) slice_compare h v (make_LookupKey k s) tc =
      Some (case newest k s (all_entries ents (concat (v_files v))) of None \<Rightarrow> (NotFound [] [], None) | Some e \<Rightarrow> reply e, stats, tc') \<and>
    table_cache_ready a db (internal_options r sz c paranoid bits) tabs n tc'"
proof -
  have "\<forall>f \<in> set (concat (v_files v)). stored_table (internal_options r sz c paranoid bits) tabs (fm_number (h f)) (fm_file_size (h f)) = Some (table_of (ents f))"
    using assms(3) by (simp add: stored_table_def)
  from tables.Version_Get_newest [OF assms(4,1) this assms(2)] show ?thesis .
qed

lemma make_TableCache_ready:
  assumes "os_ready env" "tables_on_disk opt db tabs env"
  shows "\<exists>tc. make_TableCache env entries = Some tc \<and> table_cache_ready a db opt tabs (2 ^ 31) tc"
proof -
  obtain c :: "TableAndFile LRUCache" where c: "make_LRUCache (per_shard entries) = Some c" "cache_inv c {#} [] {}"
    using make_LRUCache_inv [of "per_shard entries", where 'v = TableAndFile] by blast
  then have "sharded_inv \<lparr>sc_shards = replicate kNumShards c, sc_last_id = 0\<rparr> (\<lambda>_. {#}) (\<lambda>_. [])" by (simp add: sharded_inv_def)
  moreover have "insertions_good a opt tabs (\<lambda>_. [])" by (simp add: insertions_good_def)
  ultimately show ?thesis using c(1) assms
    by (auto simp: make_TableCache_def make_ShardedLRUCache_def table_cache_ready_def intro!: exI [of _ "\<lambda>_. []"])
qed

text \<open>A database with one table of one entry.\<close>

definition ex_opt :: Options where
  "ex_opt = internal_options 15 4096 kNoCompression True None"

definition ex_entry :: mem_entry where
  "ex_entry = \<lparr>me_seq = 7, me_type = kTypeValue, me_key = [65], me_value = [1, 2]\<rparr>"

definition ex_file :: FileMetaData where
  "ex_file = make_FileMetaData 7 (word_of_nat (length (table_file ex_opt (table_of [ex_entry])))) (internal_of ex_entry) (internal_of ex_entry)"

definition ex_version :: "int Version" where
  "ex_version = \<lparr>v_refs = 1, v_files = [[0], [], [], [], [], [], []], v_file_to_compact = None, v_file_to_compact_level = - 1,
     v_compaction_score = 0, v_compaction_level = 0\<rparr>"

definition ex_env :: random_env where
  "ex_env = \<lparr>re_fs = \<lparr>fs_files = [MakeFileName (bytes_of ''db'') 7 ''ldb'' \<mapsto> table_file ex_opt (table_of [ex_entry])],
     fs_strerror = (\<lambda>_. []), fs_calls = [], fs_writes = [], fs_reads = []\<rparr>, re_mmap_limiter = 1000, re_fd_limiter = 50,
     re_open = (\<lambda>_ _ _. None), re_pread = (\<lambda>_ _ n. Preads n)\<rparr>"

lemma ex_table:
  "table_entries ex_opt valid_key (table_of [ex_entry])" "length (table_file ex_opt (table_of [ex_entry])) < 2 ^ 32"
proof -
  have key: "internal_of ex_entry = [65, 1, 7, 0, 0, 0, 0, 0, 0]"
    by (simp add: internal_of_def ex_entry_def PackSequenceAndType_def type_code_def EncodeFixed64_def nat_le_numeral)
  have v: "me_value ex_entry = [1, 2]" by (simp add: ex_entry_def)
  show "table_entries ex_opt valid_key (table_of [ex_entry])" by (simp add: table_of_def table_entries_def)
  show "length (table_file ex_opt (table_of [ex_entry])) < 2 ^ 32"
    unfolding table_of_def list.map key v ex_opt_def
    by (simp add: table_file_def blocks_file_def internal_options_def data_part_def data_block_def filter_part_def meta_block_def
        index_block_def index_entries_def index_key_def meta_entries_def length_block_bytes entries_upto_def
        entry_bytes_def entry_head_def entry_shared_def EncodeVarint32_def restart_count_def stored_handle_def data_handle_def
        handle_at_def InternalKey_FindShortSuccessor_def ExtractUserKey_def slice_compare_def EncodeVarint64.simps)
qed

lemma ex_version_holds: "version_holds (\<lambda>_. ex_file) (\<lambda>_. [ex_entry]) ex_version"
  by (simp add: version_holds_def ex_version_def file_holds_def ex_file_def make_FileMetaData_def level_newer_def)
    (simp add: ex_entry_def kMaxSequenceNumber_def)

theorem version_get_witness:
  "\<exists>tc stats tc'. make_TableCache ex_env 10 = Some tc \<and>
     Version_Get (TableCache_Get 0 (bytes_of ''db'') ex_opt True) slice_compare (\<lambda>_. ex_file) ex_version (make_LookupKey [65] 9) tc =
       Some ((OK, Some [1, 2]), stats, tc')"
proof -
  let ?tabs = "[7 \<mapsto> table_of [ex_entry]]" and ?db = "bytes_of ''db''"
  have "os_ready ex_env" "tables_on_disk ex_opt ?db ?tabs ex_env"
    using ex_table by (auto simp: os_ready_def tables_on_disk_def ex_env_def)
  from make_TableCache_ready [OF this, of 10 0] obtain tc where
    tc: "make_TableCache ex_env 10 = Some tc" "table_cache_ready 0 ?db ex_opt ?tabs (2 ^ 31) tc" by blast
  have ready: "table_cache_ready 0 ?db ex_opt ?tabs (2147483647 + length (concat (v_files ex_version))) tc"
    using tc(2) by (simp add: ex_version_def)
  have files: "\<forall>f \<in> set (concat (v_files ex_version)). ?tabs (fm_number ex_file) = Some (table_of [ex_entry]) \<and>
       fm_file_size ex_file = word_of_nat (length (table_file ex_opt (table_of [ex_entry])))"
    by (simp add: ex_file_def make_FileMetaData_def)
  have "(9 :: 64 word) \<le> kMaxSequenceNumber" by (simp add: kMaxSequenceNumber_def)
  from version_get [OF ex_version_holds this files [unfolded ex_opt_def] ready [unfolded ex_opt_def], where verify = True and k = "[65]"]
  obtain stats tc' where
    "Version_Get (TableCache_Get 0 ?db ex_opt True) slice_compare (\<lambda>_. ex_file) ex_version (make_LookupKey [65] 9) tc =
      Some (case newest [65] 9 (all_entries (\<lambda>_. [ex_entry]) (concat (v_files ex_version))) of None \<Rightarrow> (NotFound [] [], None) | Some e \<Rightarrow> reply e, stats, tc')"
    unfolding ex_opt_def by blast
  moreover have "newest [65] 9 (all_entries (\<lambda>_. [ex_entry]) (concat (v_files ex_version))) = Some ex_entry"
    by (simp add: ex_version_def visible_def) (simp add: ex_entry_def)
  moreover have "reply ex_entry = (OK, Some [1, 2])" by (simp add: reply_def ex_entry_def)
  ultimately show ?thesis using tc(1) by auto
qed

end
