(* ===== verification/Ldb_Version_Set.thy ===== *)
theory Ldb_Version_Set
  imports Ldb_Version Ldb_Log Ldb_Recovery
begin

text \<open>
  The set of versions of a database (\<^verbatim>\<open>version_set.cc\<close>, second part): versions and files with their reference counts, the builder
  that makes a version from another and edits, the descriptor file that the edits are written to, and the recovery from it.

  Versions and files are objects at addresses. A file that is deleted leaves \<open>vs_live\<close>, a version that is deleted leaves the map; an
  operation is \<open>None\<close> when it violates an assertion or counts references of an object that is not there. The circular list of
  versions is the list of its members from the successor of its head on. \<^verbatim>\<open>LogAndApply\<close> gives up its mutex while it writes; what other
  threads do meanwhile is not modelled.
\<close>

subsection \<open>The state\<close>

record 'd VersionSet =
  vs_next_file_number :: "64 word"
  vs_manifest_file_number :: "64 word"
  vs_last_sequence :: "64 word"
  vs_log_number :: "64 word"
  vs_prev_log_number :: "64 word"
  vs_descriptor :: "(slice \<times> posix_writable \<times> nat) option"
  vs_mem :: file_mem
  vs_live :: "fptr set"
  vs_versions :: "nat \<Rightarrow> 'd Version option"
  vs_list :: "nat list"
  vs_current :: "nat option"
  vs_fresh :: nat
  vs_compact_pointer :: "slice list"

text \<open>What does not change: the name of the database, the options, the user comparator with its name.\<close>

record VsConfig =
  cf_dbname :: slice
  cf_options :: DbOptions
  cf_Compare :: "slice \<Rightarrow> slice \<Rightarrow> int"
  cf_comparator_name :: slice

definition current_version :: "'d VersionSet \<Rightarrow> 'd Version option" where
  "current_version vs = Option.bind (vs_current vs) (vs_versions vs)"

subsection \<open>Reference counts\<close>

text \<open>\<^verbatim>\<open>f->refs--; if (f->refs <= 0) delete f;\<close>\<close>

definition drop_file_ref :: "fptr \<Rightarrow> 'd VersionSet \<Rightarrow> 'd VersionSet option" where
  "drop_file_ref f vs =
     (if f \<in> vs_live vs then
        let m = (vs_mem vs f)\<lparr>fm_refs := fm_refs (vs_mem vs f) - 1\<rparr>;
            vs = vs\<lparr>vs_mem := (vs_mem vs)(f := m)\<rparr>
        in Some (if fm_refs m \<le> 0 then vs\<lparr>vs_live := vs_live vs - {f}\<rparr> else vs)
      else None)"

fun drop_file_refs :: "fptr list \<Rightarrow> 'd VersionSet \<Rightarrow> 'd VersionSet option" where
  "drop_file_refs [] vs = Some vs"
| "drop_file_refs (f # fs) vs = Option.bind (drop_file_ref f vs) (drop_file_refs fs)"

fun version_drop_files :: "fptr list \<Rightarrow> 'd VersionSet \<Rightarrow> 'd VersionSet option" where
  "version_drop_files [] vs = Some vs"
| "version_drop_files (f # fs) vs =
     (if fm_refs (vs_mem vs f) > 0 then Option.bind (drop_file_ref f vs) (version_drop_files fs) else None)"

definition destroy_Version :: "nat \<Rightarrow> 'd VersionSet \<Rightarrow> 'd VersionSet option" where
  "destroy_Version p vs = do {
     v \<leftarrow> vs_versions vs p;
     if v_refs v = 0 then do {
       vs \<leftarrow> version_drop_files (concat (v_files v)) (vs\<lparr>vs_list := removeAll p (vs_list vs)\<rparr>);
       Some (vs\<lparr>vs_versions := (vs_versions vs)(p := None)\<rparr>)
     }
     else None
   }"

definition Version_Ref :: "nat \<Rightarrow> 'd VersionSet \<Rightarrow> 'd VersionSet option" where
  "Version_Ref p vs = do {
     v \<leftarrow> vs_versions vs p;
     Some (vs\<lparr>vs_versions := (vs_versions vs)(p \<mapsto> v\<lparr>v_refs := v_refs v + 1\<rparr>)\<rparr>)
   }"

definition Version_Unref :: "nat \<Rightarrow> 'd VersionSet \<Rightarrow> 'd VersionSet option" where
  "Version_Unref p vs = do {
     v \<leftarrow> vs_versions vs p;
     if v_refs v \<ge> 1 then
       let v = v\<lparr>v_refs := v_refs v - 1\<rparr>; vs = vs\<lparr>vs_versions := (vs_versions vs)(p \<mapsto> v)\<rparr> in
       if v_refs v = 0 then destroy_Version p vs else Some vs
     else None
   }"

definition new_Version :: "'d double_ops \<Rightarrow> 'd VersionSet \<Rightarrow> nat \<times> 'd VersionSet" where
  "new_Version D vs =
     (vs_fresh vs, vs\<lparr>vs_versions := (vs_versions vs)(vs_fresh vs \<mapsto> make_Version D), vs_fresh := vs_fresh vs + 1\<rparr>)"

definition AppendVersion :: "nat \<Rightarrow> 'd VersionSet \<Rightarrow> 'd VersionSet option" where
  "AppendVersion p vs = do {
     v \<leftarrow> vs_versions vs p;
     if v_refs v = 0 \<and> vs_current vs \<noteq> Some p then do {
       vs \<leftarrow> (case vs_current vs of None \<Rightarrow> Some vs | Some q \<Rightarrow> Version_Unref q vs);
       vs \<leftarrow> Version_Ref p (vs\<lparr>vs_current := Some p\<rparr>);
       Some (vs\<lparr>vs_list := vs_list vs @ [p]\<rparr>)
     }
     else None
   }"

definition make_VersionSet :: "'d double_ops \<Rightarrow> 'd VersionSet option" where
  "make_VersionSet D =
     (case new_Version D \<lparr>vs_next_file_number = 2, vs_manifest_file_number = 0, vs_last_sequence = 0, vs_log_number = 0, vs_prev_log_number = 0,
        vs_descriptor = None, vs_mem = (\<lambda>_. make_FileMetaData 0 0 [] []), vs_live = {}, vs_versions = (\<lambda>_. None), vs_list = [],
        vs_current = None, vs_fresh = 0, vs_compact_pointer = replicate (nat kNumLevels) []\<rparr> of (p, vs) \<Rightarrow> AppendVersion p vs)"

subsection \<open>File numbers\<close>

definition NewFileNumber :: "'d VersionSet \<Rightarrow> 64 word \<times> 'd VersionSet" where
  "NewFileNumber vs = (vs_next_file_number vs, vs\<lparr>vs_next_file_number := vs_next_file_number vs + 1\<rparr>)"

definition ReuseFileNumber :: "64 word \<Rightarrow> 'd VersionSet \<Rightarrow> 'd VersionSet" where
  "ReuseFileNumber file_number vs =
     (if vs_next_file_number vs = file_number + 1 then vs\<lparr>vs_next_file_number := file_number\<rparr> else vs)"

definition MarkFileNumberUsed :: "64 word \<Rightarrow> 'd VersionSet \<Rightarrow> 'd VersionSet" where
  "MarkFileNumberUsed number vs =
     (if vs_next_file_number vs \<le> number then vs\<lparr>vs_next_file_number := number + 1\<rparr> else vs)"

text \<open>\<^verbatim>\<open>SetLastSequence\<close> of the version set asserts that the number does not decrease.\<close>

definition VersionSet_SetLastSequence :: "64 word \<Rightarrow> 'd VersionSet \<Rightarrow> 'd VersionSet option" where
  "VersionSet_SetLastSequence s vs = (if s \<ge> vs_last_sequence vs then Some (vs\<lparr>vs_last_sequence := s\<rparr>) else None)"

subsection \<open>The builder\<close>

text \<open>The set of added files is the list of its elements in the order of \<^verbatim>\<open>BySmallestKey\<close>.\<close>

record LevelState =
  ls_deleted_files :: "64 word list"
  ls_added_files :: "fptr list"

record Builder =
  b_base :: nat
  b_levels :: "LevelState list"

definition BySmallestKey :: "(slice \<Rightarrow> slice \<Rightarrow> int) \<Rightarrow> file_mem \<Rightarrow> fptr \<Rightarrow> fptr \<Rightarrow> bool" where
  "BySmallestKey ucmp h f1 f2 =
     (let r = InternalKey_Compare ucmp (fm_smallest (h f1)) (fm_smallest (h f2)) in
      if r \<noteq> 0 then r < 0 else fm_number (h f1) < fm_number (h f2))"

text \<open>\<^verbatim>\<open>std::set::insert\<close>: nothing happens when there is an equivalent element.\<close>

fun std_set_insert :: "('a \<Rightarrow> 'a \<Rightarrow> bool) \<Rightarrow> 'a \<Rightarrow> 'a list \<Rightarrow> 'a list" where
  "std_set_insert lt x [] = [x]"
| "std_set_insert lt x (y # ys) =
     (if lt x y then x # y # ys else if lt y x then y # std_set_insert lt x ys else y # ys)"

definition make_Builder :: "nat \<Rightarrow> 'd VersionSet \<Rightarrow> (Builder \<times> 'd VersionSet) option" where
  "make_Builder base vs = do {
     vs \<leftarrow> Version_Ref base vs;
     Some (\<lparr>b_base = base, b_levels = replicate (nat kNumLevels) \<lparr>ls_deleted_files = [], ls_added_files = []\<rparr>\<rparr>, vs)
   }"

definition destroy_Builder :: "Builder \<Rightarrow> 'd VersionSet \<Rightarrow> 'd VersionSet option" where
  "destroy_Builder b vs = do {
     vs \<leftarrow> drop_file_refs (concat (map ls_added_files (b_levels b))) vs;
     Version_Unref (b_base b) vs
   }"

fun apply_pointers :: "(int \<times> slice) list \<Rightarrow> 'd VersionSet \<Rightarrow> 'd VersionSet option" where
  "apply_pointers [] vs = Some vs"
| "apply_pointers ((level, key) # ps) vs = do {
     k \<leftarrow> InternalKey_Encode key;
     if level_ok level then apply_pointers ps (vs\<lparr>vs_compact_pointer := (vs_compact_pointer vs)[nat level := k]\<rparr>) else None
   }"

fun apply_deletions :: "(int \<times> 64 word) list \<Rightarrow> Builder \<Rightarrow> Builder option" where
  "apply_deletions [] b = Some b"
| "apply_deletions ((level, number) # ds) b =
     (if level_ok level then
        let ls = b_levels b ! nat level in
        apply_deletions ds (b\<lparr>b_levels := (b_levels b)[nat level := ls\<lparr>ls_deleted_files := insort_insert number (ls_deleted_files ls)\<rparr>]\<rparr>)
      else None)"

text \<open>The quotient is cut to an \<^verbatim>\<open>int\<close>.\<close>

definition allowed_seeks_for :: "64 word \<Rightarrow> int" where
  "allowed_seeks_for file_size = (let n = sint (ucast (file_size div 16384) :: 32 word) in if n < 100 then 100 else n)"

definition apply_addition ::
  "(slice \<Rightarrow> slice \<Rightarrow> int) \<Rightarrow> int \<Rightarrow> FileMetaData \<Rightarrow> Builder \<times> 'd VersionSet \<Rightarrow> (Builder \<times> 'd VersionSet) option" where
  "apply_addition ucmp level m st =
     (case st of (b, vs) \<Rightarrow>
        if level_ok level then
          let f = vs_fresh vs;
              mem = (vs_mem vs)(f := m\<lparr>fm_refs := 1, fm_allowed_seeks := allowed_seeks_for (fm_file_size m)\<rparr>);
              ls = b_levels b ! nat level;
              ls = \<lparr>ls_deleted_files = remove1 (fm_number m) (ls_deleted_files ls),
                    ls_added_files = std_set_insert (BySmallestKey ucmp mem) f (ls_added_files ls)\<rparr>
          in Some (b\<lparr>b_levels := (b_levels b)[nat level := ls]\<rparr>,
                   vs\<lparr>vs_mem := mem, vs_live := insert f (vs_live vs), vs_fresh := vs_fresh vs + 1\<rparr>)
        else None)"

fun apply_additions ::
  "(slice \<Rightarrow> slice \<Rightarrow> int) \<Rightarrow> (int \<times> FileMetaData) list \<Rightarrow> Builder \<times> 'd VersionSet \<Rightarrow> (Builder \<times> 'd VersionSet) option" where
  "apply_additions ucmp [] st = Some st"
| "apply_additions ucmp ((level, m) # fs) st = Option.bind (apply_addition ucmp level m st) (apply_additions ucmp fs)"

definition Builder_Apply ::
  "(slice \<Rightarrow> slice \<Rightarrow> int) \<Rightarrow> VersionEdit \<Rightarrow> Builder \<times> 'd VersionSet \<Rightarrow> (Builder \<times> 'd VersionSet) option" where
  "Builder_Apply ucmp edit st =
     (case st of (b, vs) \<Rightarrow> do {
        vs \<leftarrow> apply_pointers (ve_compact_pointers edit) vs;
        b \<leftarrow> apply_deletions (ve_deleted_files edit) b;
        apply_additions ucmp (ve_new_files edit) (b, vs)
      })"

text \<open>The files of the new version at one level; the references to them are counted when the level is complete.\<close>

definition MaybeAddFile ::
  "(slice \<Rightarrow> slice \<Rightarrow> int) \<Rightarrow> file_mem \<Rightarrow> 64 word list \<Rightarrow> nat \<Rightarrow> fptr \<Rightarrow> fptr list \<Rightarrow> fptr list option" where
  "MaybeAddFile ucmp h deleted level f files =
     (if fm_number (h f) \<in> set deleted then Some files
      else if level > 0 \<and> files \<noteq> [] \<and> \<not> InternalKey_Compare ucmp (fm_largest (h (last files))) (fm_smallest (h f)) < 0 then None
      else Some (files @ [f]))"

fun add_files ::
  "(slice \<Rightarrow> slice \<Rightarrow> int) \<Rightarrow> file_mem \<Rightarrow> 64 word list \<Rightarrow> nat \<Rightarrow> fptr list \<Rightarrow> fptr list \<Rightarrow> fptr list option" where
  "add_files ucmp h deleted level [] files = Some files"
| "add_files ucmp h deleted level (f # fs) files = Option.bind (MaybeAddFile ucmp h deleted level f files) (add_files ucmp h deleted level fs)"

text \<open>\<^verbatim>\<open>std::upper_bound\<close>: the base files up to the first that the added file is before.\<close>

fun merge_files ::
  "(slice \<Rightarrow> slice \<Rightarrow> int) \<Rightarrow> file_mem \<Rightarrow> 64 word list \<Rightarrow> nat \<Rightarrow> fptr list \<Rightarrow> fptr list \<Rightarrow> fptr list \<Rightarrow> fptr list option" where
  "merge_files ucmp h deleted level base_files [] files = add_files ucmp h deleted level base_files files"
| "merge_files ucmp h deleted level base_files (a # added) files = do {
     files \<leftarrow> add_files ucmp h deleted level (takeWhile (\<lambda>b. \<not> BySmallestKey ucmp h a b) base_files) files;
     files \<leftarrow> MaybeAddFile ucmp h deleted level a files;
     merge_files ucmp h deleted level (dropWhile (\<lambda>b. \<not> BySmallestKey ucmp h a b) base_files) added files
   }"

text \<open>The check of the finished level, which aborts.\<close>

fun no_overlap :: "(slice \<Rightarrow> slice \<Rightarrow> int) \<Rightarrow> file_mem \<Rightarrow> fptr list \<Rightarrow> bool" where
  "no_overlap ucmp h (f # g # fs) \<longleftrightarrow> InternalKey_Compare ucmp (fm_largest (h f)) (fm_smallest (h g)) < 0 \<and> no_overlap ucmp h (g # fs)"
| "no_overlap ucmp h _ = True"

definition save_level ::
  "(slice \<Rightarrow> slice \<Rightarrow> int) \<Rightarrow> file_mem \<Rightarrow> LevelState \<Rightarrow> nat \<Rightarrow> fptr list \<Rightarrow> fptr list \<Rightarrow> fptr list option" where
  "save_level ucmp h ls level base_files files = do {
     files \<leftarrow> merge_files ucmp h (ls_deleted_files ls) level base_files (ls_added_files ls) files;
     if level > 0 \<and> \<not> no_overlap ucmp h files then None else Some files
   }"

definition add_file_ref :: "fptr \<Rightarrow> file_mem \<Rightarrow> file_mem" where
  "add_file_ref f h = h(f := (h f)\<lparr>fm_refs := fm_refs (h f) + 1\<rparr>)"

definition SaveTo :: "(slice \<Rightarrow> slice \<Rightarrow> int) \<Rightarrow> Builder \<Rightarrow> nat \<Rightarrow> 'd VersionSet \<Rightarrow> 'd VersionSet option" where
  "SaveTo ucmp b p vs = do {
     base \<leftarrow> vs_versions vs (b_base b);
     v \<leftarrow> vs_versions vs p;
     files \<leftarrow> those (map (\<lambda>level. save_level ucmp (vs_mem vs) (b_levels b ! level) level (v_files base ! level) (v_files v ! level))
       [0..<nat kNumLevels]);
     Some (vs\<lparr>vs_mem := fold add_file_ref (concat files) (vs_mem vs), vs_versions := (vs_versions vs)(p \<mapsto> v\<lparr>v_files := files\<rparr>)\<rparr>)
   }"

definition kL0_CompactionTrigger :: int where
  "kL0_CompactionTrigger = 4"

definition level_score :: "'d double_ops \<Rightarrow> file_mem \<Rightarrow> fptr list list \<Rightarrow> nat \<Rightarrow> 'd" where
  "level_score D h levels level =
     (if level = 0 then d_divide D (d_uint64 D (word_of_nat (length (levels ! level)))) (d_int D kL0_CompactionTrigger)
      else d_divide D (d_uint64 D (word_of_int (TotalFileSize h (levels ! level)))) (MaxBytesForLevel D level))"

definition best_compaction :: "'d double_ops \<Rightarrow> file_mem \<Rightarrow> fptr list list \<Rightarrow> int \<times> 'd" where
  "best_compaction D h levels =
     fold (\<lambda>level (best_level, best_score).
         let score = level_score D h levels level in
         if d_less D best_score score then (int level, score) else (best_level, best_score))
       [0..<nat kNumLevels - 1] (- 1, d_int D (- 1))"

definition Finalize :: "'d double_ops \<Rightarrow> nat \<Rightarrow> 'd VersionSet \<Rightarrow> 'd VersionSet option" where
  "Finalize D p vs = do {
     v \<leftarrow> vs_versions vs p;
     let (best_level, best_score) = best_compaction D (vs_mem vs) (v_files v);
     Some (vs\<lparr>vs_versions := (vs_versions vs)(p \<mapsto> v\<lparr>v_compaction_level := best_level, v_compaction_score := best_score\<rparr>)\<rparr>)
   }"

subsection \<open>The descriptor file\<close>

text \<open>The log writer on the open descriptor: what it appends changes the file of that name.\<close>

definition desc_append :: "slice \<Rightarrow> posix_writable \<times> filesystem \<Rightarrow> byte list \<Rightarrow> Status \<times> posix_writable \<times> filesystem" where
  "desc_append name st bs = (case st of (f, fs) \<Rightarrow> file_op (\<lambda>f. Posix_Append f bs) name f fs)"

definition desc_flush :: "slice \<Rightarrow> posix_writable \<times> filesystem \<Rightarrow> Status \<times> posix_writable \<times> filesystem" where
  "desc_flush name st = (case st of (f, fs) \<Rightarrow> file_op Posix_Flush name f fs)"

definition descriptor_AddRecord ::
  "addr \<Rightarrow> slice \<times> posix_writable \<times> nat \<Rightarrow> slice \<Rightarrow> filesystem \<Rightarrow> (Status \<times> (slice \<times> posix_writable \<times> nat) \<times> filesystem) option" where
  "descriptor_AddRecord a d data fs =
     (case d of (name, f, off) \<Rightarrow> do {
        (s, w) \<leftarrow> AddRecord (desc_append name) (desc_flush name) a \<lparr>lw_dest = (f, fs), lw_block_offset = off\<rparr> data;
        (case lw_dest w of (f, fs) \<Rightarrow> Some (s, (name, f, lw_block_offset w), fs))
      })"

definition snapshot_pointers :: "slice list \<Rightarrow> VersionEdit \<Rightarrow> VersionEdit" where
  "snapshot_pointers pointers edit =
     fold (\<lambda>(level, key) edit. if key \<noteq> [] then SetCompactPointer (int level) key edit else edit) (zip [0..<nat kNumLevels] pointers) edit"

definition snapshot_files :: "file_mem \<Rightarrow> fptr list list \<Rightarrow> VersionEdit \<Rightarrow> VersionEdit" where
  "snapshot_files h levels edit =
     fold (\<lambda>(level, files) edit.
         fold (\<lambda>f edit. AddFile (int level) (fm_number (h f)) (fm_file_size (h f)) (fm_smallest (h f)) (fm_largest (h f)) edit) files edit)
       (zip [0..<nat kNumLevels] levels) edit"

definition snapshot_edit :: "VsConfig \<Rightarrow> 'd Version \<Rightarrow> 'd VersionSet \<Rightarrow> VersionEdit" where
  "snapshot_edit cf current vs =
     snapshot_files (vs_mem vs) (v_files current)
       (snapshot_pointers (vs_compact_pointer vs) (SetComparatorName (cf_comparator_name cf) make_VersionEdit))"

definition WriteSnapshot ::
  "VsConfig \<Rightarrow> addr \<Rightarrow> slice \<times> posix_writable \<times> nat \<Rightarrow> 'd VersionSet \<Rightarrow> filesystem \<Rightarrow>
   (Status \<times> (slice \<times> posix_writable \<times> nat) \<times> filesystem) option" where
  "WriteSnapshot cf a log vs fs = do {
     current \<leftarrow> current_version vs;
     rec \<leftarrow> VersionEdit_EncodeTo (snapshot_edit cf current vs) [];
     descriptor_AddRecord a log rec fs
   }"

text \<open>The first part of \<^verbatim>\<open>LogAndApply\<close>: the numbers in the edit, and the new version.\<close>

definition complete_edit :: "VersionEdit \<Rightarrow> 'd VersionSet \<Rightarrow> VersionEdit option" where
  "complete_edit edit vs = do {
     edit \<leftarrow> (if ve_has_log_number edit then
                (if ve_log_number edit \<ge> vs_log_number vs \<and> ve_log_number edit < vs_next_file_number vs then Some edit else None)
              else Some (SetLogNumber (vs_log_number vs) edit));
     let edit = (if \<not> ve_has_prev_log_number edit then SetPrevLogNumber (vs_prev_log_number vs) edit else edit);
     Some (SetLastSequence (vs_last_sequence vs) (SetNextFile (vs_next_file_number vs) edit))
   }"

definition build_version ::
  "'d double_ops \<Rightarrow> (slice \<Rightarrow> slice \<Rightarrow> int) \<Rightarrow> VersionEdit \<Rightarrow> 'd VersionSet \<Rightarrow> (nat \<times> 'd VersionSet) option" where
  "build_version D ucmp edit vs = do {
     let (p, vs) = new_Version D vs;
     cur \<leftarrow> vs_current vs;
     (b, vs) \<leftarrow> make_Builder cur vs;
     (b, vs) \<leftarrow> Builder_Apply ucmp edit (b, vs);
     vs \<leftarrow> SaveTo ucmp b p vs;
     vs \<leftarrow> destroy_Builder b vs;
     vs \<leftarrow> Finalize D p vs;
     Some (p, vs)
   }"

text \<open>The descriptor is created when there is none; its name is kept in this case.\<close>

definition open_descriptor ::
  "VsConfig \<Rightarrow> addr \<Rightarrow> 'd VersionSet \<Rightarrow> filesystem \<Rightarrow> (Status \<times> slice option \<times> 'd VersionSet \<times> filesystem) option" where
  "open_descriptor cf a vs fs =
     (case vs_descriptor vs of Some _ \<Rightarrow> Some (OK, None, vs, fs)
      | None \<Rightarrow> do {
          new_manifest_file \<leftarrow> DescriptorFileName (cf_dbname cf) (vs_manifest_file_number vs);
          (case NewWritableFile new_manifest_file fs of
             (s, Some file, fs) \<Rightarrow> do {
               (s, d, fs) \<leftarrow> WriteSnapshot cf a (new_manifest_file, file, 0) vs fs;
               Some (s, Some new_manifest_file, vs\<lparr>vs_descriptor := Some d\<rparr>, fs)
             }
           | (s, None, fs) \<Rightarrow> Some (s, Some new_manifest_file, vs, fs))
        })"

definition write_descriptor ::
  "addr \<Rightarrow> VersionEdit \<Rightarrow> 'd VersionSet \<Rightarrow> filesystem \<Rightarrow> (Status \<times> 'd VersionSet \<times> filesystem) option" where
  "write_descriptor a edit vs fs = do {
     rec \<leftarrow> VersionEdit_EncodeTo edit [];
     d \<leftarrow> vs_descriptor vs;
     (s, d, fs) \<leftarrow> descriptor_AddRecord a d rec fs;
     (case (if ok s then (case d of (name, f, off) \<Rightarrow> (case Env_Sync name f fs of (s, f, fs) \<Rightarrow> (s, (name, f, off), fs))) else (s, d, fs)) of
        (s, d, fs) \<Rightarrow> Some (s, vs\<lparr>vs_descriptor := Some d\<rparr>, fs))
   }"

text \<open>After an error: the version is deleted, and a new descriptor with it.\<close>

definition discard_descriptor :: "slice option \<Rightarrow> 'd VersionSet \<Rightarrow> filesystem \<Rightarrow> 'd VersionSet \<times> filesystem" where
  "discard_descriptor new_manifest_file vs fs =
     (case new_manifest_file of None \<Rightarrow> (vs, fs)
      | Some name \<Rightarrow>
          let fs = (case vs_descriptor vs of None \<Rightarrow> fs | Some (n, f, _) \<Rightarrow> snd (snd (Env_Close n f fs))) in
          (vs\<lparr>vs_descriptor := None\<rparr>, snd (DeleteFile name fs)))"

definition LogAndApply ::
  "'d double_ops \<Rightarrow> VsConfig \<Rightarrow> addr \<Rightarrow> VersionEdit \<Rightarrow> 'd VersionSet \<Rightarrow> filesystem \<Rightarrow> (Status \<times> VersionEdit \<times> 'd VersionSet \<times> filesystem) option" where
  "LogAndApply D cf a edit vs fs = do {
     edit \<leftarrow> complete_edit edit vs;
     (p, vs) \<leftarrow> build_version D (cf_Compare cf) edit vs;
     (s, new_manifest_file, vs, fs) \<leftarrow> open_descriptor cf a vs fs;
     (s, vs, fs) \<leftarrow> (if ok s then write_descriptor a edit vs fs else Some (s, vs, fs));
     (s, fs) \<leftarrow> (if ok s \<and> new_manifest_file \<noteq> None then SetCurrentFile (cf_dbname cf) (vs_manifest_file_number vs) fs else Some (s, fs));
     if ok s then do {
       vs \<leftarrow> AppendVersion p vs;
       Some (s, edit, vs\<lparr>vs_log_number := ve_log_number edit, vs_prev_log_number := ve_prev_log_number edit\<rparr>, fs)
     }
     else do {
       vs \<leftarrow> destroy_Version p vs;
       (case discard_descriptor new_manifest_file vs fs of (vs, fs) \<Rightarrow> Some (s, edit, vs, fs))
     }
   }"

text \<open>The destructor: no version may be left. The descriptor file is closed.\<close>

definition destroy_VersionSet :: "'d VersionSet \<Rightarrow> filesystem \<Rightarrow> ('d VersionSet \<times> filesystem) option" where
  "destroy_VersionSet vs fs = do {
     p \<leftarrow> vs_current vs;
     vs \<leftarrow> Version_Unref p vs;
     if vs_list vs = [] then
       Some (vs\<lparr>vs_descriptor := None\<rparr>, case vs_descriptor vs of None \<Rightarrow> fs | Some (name, f, _) \<Rightarrow> snd (snd (Env_Close name f fs)))
     else None
   }"

subsection \<open>Recovery from the descriptor\<close>

text \<open>A number with the flag that says whether some edit had it is an option.\<close>

record 'd manifest_state =
  ms_status :: Status
  ms_builder :: Builder
  ms_vs :: "'d VersionSet"
  ms_log_number :: "64 word option"
  ms_prev_log_number :: "64 word option"
  ms_next_file :: "64 word option"
  ms_last_sequence :: "64 word option"

text \<open>The reporter keeps the first error.\<close>

definition report_drops :: "(nat \<times> Status) list \<Rightarrow> Status \<Rightarrow> Status" where
  "report_drops drops s = fold (\<lambda>(n, e) s. if ok s then e else s) drops s"

definition take_number :: "bool \<Rightarrow> 64 word \<Rightarrow> 64 word option \<Rightarrow> 64 word option" where
  "take_number has number old = (if has then Some number else old)"

definition recover_edit :: "VsConfig \<Rightarrow> slice \<Rightarrow> 'd manifest_state \<Rightarrow> 'd manifest_state option" where
  "recover_edit cf rec st = do {
     let (s, edit) = VersionEdit_DecodeFrom rec make_VersionEdit;
     let s = (if ok s \<and> ve_has_comparator edit \<and> ve_comparator edit \<noteq> cf_comparator_name cf
              then InvalidArgument (chars_of (ve_comparator edit) @ '' does not match existing comparator '') (chars_of (cf_comparator_name cf))
              else s);
     (b, vs) \<leftarrow> (if ok s then Builder_Apply (cf_Compare cf) edit (ms_builder st, ms_vs st) else Some (ms_builder st, ms_vs st));
     Some \<lparr>ms_status = s, ms_builder = b, ms_vs = vs,
       ms_log_number = take_number (ve_has_log_number edit) (ve_log_number edit) (ms_log_number st),
       ms_prev_log_number = take_number (ve_has_prev_log_number edit) (ve_prev_log_number edit) (ms_prev_log_number st),
       ms_next_file = take_number (ve_has_next_file_number edit) (ve_next_file_number edit) (ms_next_file st),
       ms_last_sequence = take_number (ve_has_last_sequence edit) (ve_last_sequence edit) (ms_last_sequence st)\<rparr>
   }"

fun recover_edits ::
  "nat \<Rightarrow> nat \<Rightarrow> VsConfig \<Rightarrow> addr \<Rightarrow> posix_sequential log_reader \<Rightarrow> 'd manifest_state \<Rightarrow>
   ('d manifest_state \<times> posix_sequential log_reader) option" where
  "recover_edits 0 fuel cf a r st = None"
| "recover_edits (Suc n) fuel cf a r st = do {
     (another, rec, r') \<leftarrow> ReadRecord fuel Posix_Read Posix_Skip a r;
     let st = st\<lparr>ms_status := report_drops (new_drops r r') (ms_status st)\<rparr>;
     if another \<and> ok (ms_status st) then Option.bind (recover_edit cf rec st) (recover_edits n fuel cf a r') else Some (st, r')
   }"

definition ReuseManifest ::
  "VsConfig \<Rightarrow> slice \<Rightarrow> slice \<Rightarrow> 'd VersionSet \<Rightarrow> filesystem \<Rightarrow> (bool \<times> 'd VersionSet \<times> filesystem) option" where
  "ReuseManifest cf dscname dscbase vs fs =
     (if \<not> opt_reuse_logs (cf_options cf) then Some (False, vs, fs)
      else case ParseFileName dscbase of
        Some (manifest_number, kDescriptorFile) \<Rightarrow>
          (case GetFileSize dscname fs of (s, manifest_size, fs) \<Rightarrow>
             if \<not> ok s \<or> manifest_size \<ge> unat (TargetFileSize (cf_options cf)) then Some (False, vs, fs)
             else if vs_descriptor vs \<noteq> None then None
             else (case NewAppendableFile dscname fs of
                     (_, None, fs) \<Rightarrow> Some (False, vs, fs)
                   | (_, Some file, fs) \<Rightarrow>
                       Some (True, vs\<lparr>vs_descriptor := Some (dscname, file, manifest_size mod kBlockSize), vs_manifest_file_number := manifest_number\<rparr>, fs)))
      | _ \<Rightarrow> Some (False, vs, fs))"

text \<open>The numbers that are missing, and the two log numbers, which are marked as used whether or not they are.\<close>

definition recovered_numbers :: "'d manifest_state \<Rightarrow> Status \<times> 64 word \<times> 64 word \<times> 64 word \<times> 64 word \<times> 'd VersionSet" where
  "recovered_numbers st =
     (let value = (\<lambda>n. case n of None \<Rightarrow> 0 | Some x \<Rightarrow> x);
          s = (if ms_next_file st = None then Corruption ''no meta-nextfile entry in descriptor'' []
               else if ms_log_number st = None then Corruption ''no meta-lognumber entry in descriptor'' []
               else if ms_last_sequence st = None then Corruption ''no last-sequence-number entry in descriptor'' []
               else ms_status st)
      in (s, value (ms_next_file st), value (ms_last_sequence st), value (ms_log_number st), value (ms_prev_log_number st),
          MarkFileNumberUsed (value (ms_log_number st)) (MarkFileNumberUsed (value (ms_prev_log_number st)) (ms_vs st))))"

definition install_recovered ::
  "'d double_ops \<Rightarrow> VsConfig \<Rightarrow> slice \<Rightarrow> slice \<Rightarrow> 'd manifest_state \<Rightarrow> filesystem \<Rightarrow> (Status \<times> bool \<times> 'd VersionSet \<times> filesystem) option" where
  "install_recovered D cf dscname current st fs =
     (case recovered_numbers st of (s, next_file, last_sequence, log_number, prev_log_number, vs) \<Rightarrow>
        if \<not> ok s then Some (s, False, vs, fs)
        else do {
          let (p, vs) = new_Version D vs;
          vs \<leftarrow> SaveTo (cf_Compare cf) (ms_builder st) p vs;
          vs \<leftarrow> Finalize D p vs;
          vs \<leftarrow> AppendVersion p vs;
          (reused, vs, fs) \<leftarrow> ReuseManifest cf dscname current
            (vs\<lparr>vs_manifest_file_number := next_file, vs_next_file_number := next_file + 1, vs_last_sequence := last_sequence,
               vs_log_number := log_number, vs_prev_log_number := prev_log_number\<rparr>) fs;
          Some (s, \<not> reused, vs, fs)
        })"

text \<open>The status, and whether the flag \<^verbatim>\<open>save_manifest\<close> is set. The builder is destroyed at the end of the function.\<close>

definition recover_from ::
  "nat \<Rightarrow> nat \<Rightarrow> 'd double_ops \<Rightarrow> VsConfig \<Rightarrow> addr \<Rightarrow> slice \<Rightarrow> slice \<Rightarrow> posix_sequential \<Rightarrow> 'd VersionSet \<Rightarrow> filesystem \<Rightarrow>
   (Status \<times> bool \<times> 'd VersionSet \<times> filesystem) option" where
  "recover_from rounds fuel D cf a dscname current file vs fs = do {
     cur \<leftarrow> vs_current vs;
     (b, vs) \<leftarrow> make_Builder cur vs;
     (st, r) \<leftarrow> recover_edits rounds fuel cf a (make_Reader file True True 0)
       \<lparr>ms_status = OK, ms_builder = b, ms_vs = vs, ms_log_number = None, ms_prev_log_number = None, ms_next_file = None, ms_last_sequence = None\<rparr>;
     let fs = snd (system_call (fs\<lparr>fs_reads := sf_calls (lr_file r)\<rparr>));
     (s, save_manifest, vs, fs) \<leftarrow>
       (if ok (ms_status st) then install_recovered D cf dscname current st fs else Some (ms_status st, False, ms_vs st, fs));
     vs \<leftarrow> destroy_Builder (ms_builder st) vs;
     Some (s, save_manifest, vs, fs)
   }"

fun IsNotFound :: "Status \<Rightarrow> bool" where
  "IsNotFound (Err kNotFound _) = True"
| "IsNotFound _ = False"

definition Recover ::
  "nat \<Rightarrow> nat \<Rightarrow> 'd double_ops \<Rightarrow> VsConfig \<Rightarrow> addr \<Rightarrow> 'd VersionSet \<Rightarrow> filesystem \<Rightarrow> (Status \<times> bool \<times> 'd VersionSet \<times> filesystem) option" where
  "Recover rounds fuel D cf a vs fs =
     (case ReadFileToString (CurrentFileName (cf_dbname cf)) fs of (s, current, fs) \<Rightarrow>
        if \<not> ok s then Some (s, False, vs, fs)
        else if current = [] \<or> last current \<noteq> 10 then Some (Corruption ''CURRENT file does not end with newline'' [], False, vs, fs)
        else
          let current = butlast current; dscname = cf_dbname cf @ bytes_of ''/'' @ current in
          (case NewSequentialFile dscname fs of
             (s, None, fs) \<Rightarrow>
               Some (if IsNotFound s then Corruption ''CURRENT points to a non-existent file'' (Status_ToString s) else s, False, vs, fs)
           | (s, Some file, fs) \<Rightarrow> recover_from rounds fuel D cf a dscname current file vs fs))"

subsection \<open>Summaries\<close>

definition NumLevelFiles :: "nat \<Rightarrow> 'd VersionSet \<Rightarrow> nat option" where
  "NumLevelFiles level vs = do {
     v \<leftarrow> current_version vs;
     if int level < kNumLevels then Some (length (v_files v ! level)) else None
   }"

definition NumLevelBytes :: "nat \<Rightarrow> 'd VersionSet \<Rightarrow> int option" where
  "NumLevelBytes level vs = do {
     v \<leftarrow> current_version vs;
     if int level < kNumLevels then Some (TotalFileSize (vs_mem vs) (v_files v ! level)) else None
   }"

text \<open>\<^verbatim>\<open>snprintf\<close> cuts the text at 99 characters.\<close>

definition LevelSummary :: "'d VersionSet \<Rightarrow> byte list option" where
  "LevelSummary vs = do {
     v \<leftarrow> current_version vs;
     Some (take 99 (bytes_of ''files[ '' @ concat (map (\<lambda>files. decimal_bytes (length files) @ bytes_of '' '') (v_files v)) @ bytes_of '']''))
   }"

definition AddLiveFiles :: "'d VersionSet \<Rightarrow> 64 word set \<Rightarrow> 64 word set" where
  "AddLiveFiles vs live =
     fold (\<lambda>p live. case vs_versions vs p of None \<Rightarrow> live
           | Some v \<Rightarrow> fold (\<lambda>f live. insert (fm_number (vs_mem vs f)) live) (concat (v_files v)) live) (vs_list vs) live"

definition NeedsCompaction :: "'d double_ops \<Rightarrow> 'd VersionSet \<Rightarrow> bool option" where
  "NeedsCompaction D vs = map_option (\<lambda>v. d_less_eq D (d_int D 1) (v_compaction_score v) \<or> v_file_to_compact v \<noteq> None) (current_version vs)"

end
