(* ===== verification/Ldb_Version_Refs.thy ===== *)
theory Ldb_Version_Refs
  imports Ldb_Version_Set "HOL-Library.Multiset"
begin

text \<open>
  The reference counts of versions and of files: a version exists as long as a client, the version set or a builder refers to it, and
  a file as long as a version lists it or a builder owns it; nothing is released twice, and no list has a deleted file.
\<close>

subsection \<open>The invariant\<close>

text \<open>How often the existing versions list a file.\<close>

definition version_files :: "(nat \<Rightarrow> 'd Version option) \<Rightarrow> nat \<Rightarrow> fptr multiset" where
  "version_files versions p = (case versions p of None \<Rightarrow> {#} | Some v \<Rightarrow> mset (concat (v_files v)))"

definition file_uses :: "(nat \<Rightarrow> 'd Version option) \<Rightarrow> fptr multiset" where
  "file_uses versions = (\<Sum>p \<in> dom versions. version_files versions p)"

text \<open>\<open>owned\<close> are the references that builders have.\<close>

definition heap_ok :: "'d VersionSet \<Rightarrow> fptr multiset \<Rightarrow> bool" where
  "heap_ok vs owned \<longleftrightarrow> finite (dom (vs_versions vs)) \<and> (\<forall>p \<in> dom (vs_versions vs). p < vs_fresh vs) \<and> (\<forall>f \<in> vs_live vs. f < vs_fresh vs) \<and>
     set_mset (file_uses (vs_versions vs) + owned) = vs_live vs \<and>
     (\<forall>f \<in> vs_live vs. fm_refs (vs_mem vs f) = int (count (file_uses (vs_versions vs) + owned) f))"

text \<open>\<open>held\<close> are the references to versions.\<close>

definition version_refs_ok :: "'d VersionSet \<Rightarrow> nat multiset \<Rightarrow> bool" where
  "version_refs_ok vs held \<longleftrightarrow> set_mset held \<subseteq> dom (vs_versions vs) \<and> (\<forall>p v. vs_versions vs p = Some v \<longrightarrow> v_refs v = int (count held p))"

text \<open>What an operation leaves: everything of a file but the count of references and the allowed seeks.\<close>

definition file_desc :: "file_mem \<Rightarrow> fptr \<Rightarrow> 64 word \<times> 64 word \<times> slice \<times> slice" where
  "file_desc h f = (fm_number (h f), fm_file_size (h f), fm_smallest (h f), fm_largest (h f))"

lemma file_uses_update:
  assumes "finite (dom versions)"
  shows "file_uses (versions(p := x)) + version_files versions p = file_uses versions + version_files (versions(p := x)) p"
proof -
  let ?D = "dom versions - {p}"
  have same: "(\<Sum>q \<in> ?D. version_files (versions(p := x)) q) = (\<Sum>q \<in> ?D. version_files versions q)"
    by (rule sum.cong) (auto simp: version_files_def)
  have old: "file_uses versions = (\<Sum>q \<in> ?D. version_files versions q) + version_files versions p"
  proof (cases "p \<in> dom versions")
    case True
    with assms show ?thesis by (simp add: file_uses_def sum.remove)
  next
    case False
    then have "version_files versions p = {#}" by (auto simp: version_files_def domIff)
    with False show ?thesis by (simp add: file_uses_def)
  qed
  have new: "file_uses (versions(p := x)) = (\<Sum>q \<in> ?D. version_files versions q) + version_files (versions(p := x)) p"
  proof (cases x)
    case None
    then have "dom (versions(p := x)) = ?D" by auto
    with None same show ?thesis by (simp add: file_uses_def version_files_def)
  next
    case (Some v)
    then have d: "dom (versions(p := x)) = insert p ?D" by auto
    have "sum (version_files (versions(p := x))) (insert p ?D) = version_files (versions(p := x)) p + sum (version_files (versions(p := x))) ?D"
      by (rule sum.insert) (use assms in auto)
    then show ?thesis unfolding file_uses_def d same by (simp only: add.commute)
  qed
  show ?thesis unfolding old new by simp
qed

lemma heap_okD:
  assumes "heap_ok vs owned"
  shows "finite (dom (vs_versions vs))" "p \<in> dom (vs_versions vs) \<Longrightarrow> p < vs_fresh vs" "f \<in> vs_live vs \<Longrightarrow> f < vs_fresh vs"
    "f \<in># file_uses (vs_versions vs) + owned \<longleftrightarrow> f \<in> vs_live vs"
    "f \<in> vs_live vs \<Longrightarrow> fm_refs (vs_mem vs f) = int (count (file_uses (vs_versions vs) + owned) f)"
  using assms unfolding heap_ok_def by blast+

lemma heap_okI:
  assumes "finite (dom (vs_versions vs))" "\<And>p. p \<in> dom (vs_versions vs) \<Longrightarrow> p < vs_fresh vs" "\<And>f. f \<in> vs_live vs \<Longrightarrow> f < vs_fresh vs"
    "\<And>f. f \<in># file_uses (vs_versions vs) + owned \<longleftrightarrow> f \<in> vs_live vs"
    "\<And>f. f \<in> vs_live vs \<Longrightarrow> fm_refs (vs_mem vs f) = int (count (file_uses (vs_versions vs) + owned) f)"
  shows "heap_ok vs owned"
  using assms unfolding heap_ok_def by blast

subsection \<open>Giving up references to files\<close>

text \<open>Only the counts and the set of live files change.\<close>

definition same_but_counts :: "'d VersionSet \<Rightarrow> 'd VersionSet \<Rightarrow> bool" where
  "same_but_counts vs vs' \<longleftrightarrow> vs' = vs\<lparr>vs_mem := vs_mem vs', vs_live := vs_live vs'\<rparr> \<and> file_desc (vs_mem vs') = file_desc (vs_mem vs)"

lemma same_but_counts_refl [simp]: "same_but_counts vs vs"
  by (simp add: same_but_counts_def)

lemma same_but_counts_trans: "same_but_counts a b \<Longrightarrow> same_but_counts b c \<Longrightarrow> same_but_counts a c"
  by (cases a; cases b; cases c) (auto simp: same_but_counts_def)

lemma same_but_countsD:
  "same_but_counts vs vs' \<Longrightarrow> vs_versions vs' = vs_versions vs \<and> vs_fresh vs' = vs_fresh vs \<and> vs_current vs' = vs_current vs \<and>
     vs_list vs' = vs_list vs \<and> file_desc (vs_mem vs') = file_desc (vs_mem vs)"
  unfolding same_but_counts_def by (cases vs; cases vs') simp

lemma drop_file_ref_ok:
  assumes "heap_ok vs (add_mset f owned)"
  shows "fm_refs (vs_mem vs f) > 0" "\<exists>vs'. drop_file_ref f vs = Some vs' \<and> heap_ok vs' owned \<and> same_but_counts vs vs'"
proof -
  let ?U = "file_uses (vs_versions vs)"
  note D = heap_okD [OF assms]
  have live: "f \<in> vs_live vs" using D(4) [of f] by simp
  have refs: "fm_refs (vs_mem vs f) = int (count (?U + owned) f) + 1" using D(5) [OF live] by simp
  then show "fm_refs (vs_mem vs f) > 0" by simp
  define h where "h = (vs_mem vs)(f := (vs_mem vs f)\<lparr>fm_refs := fm_refs (vs_mem vs f) - 1\<rparr>)"
  define vs' where "vs' = vs\<lparr>vs_mem := h, vs_live := (if f \<in># ?U + owned then vs_live vs else vs_live vs - {f})\<rparr>"
  have "drop_file_ref f vs = Some vs'"
    using live refs by (auto simp: drop_file_ref_def vs'_def h_def Let_def count_greater_zero_iff [symmetric] simp del: count_greater_zero_iff)
  moreover have "heap_ok vs' owned"
  proof (rule heap_okI)
    show "g \<in># file_uses (vs_versions vs') + owned \<longleftrightarrow> g \<in> vs_live vs'" for g
      using D(4) [of g] by (auto simp: vs'_def)
    show "fm_refs (vs_mem vs' g) = int (count (file_uses (vs_versions vs') + owned) g)" if "g \<in> vs_live vs'" for g
      using D(5) [of g] that refs by (auto simp: vs'_def h_def split: if_splits)
  qed (use D(1-3) in \<open>auto simp: vs'_def split: if_splits\<close>)
  moreover have "same_but_counts vs vs'" by (auto simp: same_but_counts_def vs'_def h_def file_desc_def fun_eq_iff)
  ultimately show "\<exists>vs'. drop_file_ref f vs = Some vs' \<and> heap_ok vs' owned \<and> same_but_counts vs vs'" by blast
qed

lemma drop_file_refs_ok:
  "heap_ok vs (mset fs + owned) \<Longrightarrow> \<exists>vs'. drop_file_refs fs vs = Some vs' \<and> heap_ok vs' owned \<and> same_but_counts vs vs'"
proof (induction fs arbitrary: vs)
  case (Cons f fs)
  from drop_file_ref_ok(2) [of vs f "mset fs + owned"] Cons.prems obtain vs1 where
    1: "drop_file_ref f vs = Some vs1" "heap_ok vs1 (mset fs + owned)" "same_but_counts vs vs1" by auto
  from Cons.IH [OF 1(2)] 1 show ?case by (auto intro: same_but_counts_trans)
qed simp

lemma version_drop_files_eq:
  "heap_ok vs (mset fs + owned) \<Longrightarrow> version_drop_files fs vs = drop_file_refs fs vs"
proof (induction fs arbitrary: vs)
  case (Cons f fs)
  from drop_file_ref_ok [of vs f "mset fs + owned"] Cons.prems obtain vs1 where
    "fm_refs (vs_mem vs f) > 0" "drop_file_ref f vs = Some vs1" "heap_ok vs1 (mset fs + owned)" by auto
  with Cons.IH show ?case by simp
qed simp

lemma drop_file_refs_versions:
  "drop_file_refs fs (vs\<lparr>vs_versions := X\<rparr>) = map_option (\<lambda>vs. vs\<lparr>vs_versions := X\<rparr>) (drop_file_refs fs vs)"
proof (induction fs arbitrary: vs)
  case (Cons f fs)
  have "drop_file_ref f (vs\<lparr>vs_versions := X\<rparr>) = map_option (\<lambda>vs. vs\<lparr>vs_versions := X\<rparr>) (drop_file_ref f vs)"
    by (simp add: drop_file_ref_def Let_def)
  with Cons show ?case by (cases "drop_file_ref f vs") simp_all
qed simp

lemma version_drop_files_versions:
  "version_drop_files fs (vs\<lparr>vs_versions := X\<rparr>) = map_option (\<lambda>vs. vs\<lparr>vs_versions := X\<rparr>) (version_drop_files fs vs)"
proof (induction fs arbitrary: vs)
  case (Cons f fs)
  have "drop_file_ref f (vs\<lparr>vs_versions := X\<rparr>) = map_option (\<lambda>vs. vs\<lparr>vs_versions := X\<rparr>) (drop_file_ref f vs)"
    by (simp add: drop_file_ref_def Let_def)
  with Cons show ?case by (cases "drop_file_ref f vs") simp_all
qed simp

subsection \<open>References to versions\<close>

text \<open>What operations on versions leave of the rest.\<close>

definition frame :: "'d VersionSet \<Rightarrow> 'd VersionSet \<Rightarrow> bool" where
  "frame vs vs' \<longleftrightarrow> vs_fresh vs' = vs_fresh vs \<and> file_desc (vs_mem vs') = file_desc (vs_mem vs) \<and>
     vs_next_file_number vs' = vs_next_file_number vs \<and> vs_manifest_file_number vs' = vs_manifest_file_number vs \<and>
     vs_last_sequence vs' = vs_last_sequence vs \<and> vs_log_number vs' = vs_log_number vs \<and> vs_prev_log_number vs' = vs_prev_log_number vs \<and>
     vs_descriptor vs' = vs_descriptor vs \<and> vs_compact_pointer vs' = vs_compact_pointer vs"

lemma frame_refl [simp]: "frame vs vs"
  by (simp add: frame_def)

lemma frame_trans: "frame a b \<Longrightarrow> frame b c \<Longrightarrow> frame a c"
  by (simp add: frame_def)

lemma same_but_counts_frame: "same_but_counts vs vs' \<Longrightarrow> frame vs vs'"
  unfolding same_but_counts_def frame_def by (cases vs; cases vs') simp

lemma heap_ok_version:
  assumes "heap_ok vs owned" "vs_versions vs p = Some v" "v_files v' = v_files v"
  shows "heap_ok (vs\<lparr>vs_versions := (vs_versions vs)(p \<mapsto> v')\<rparr>) owned"
proof -
  have "version_files ((vs_versions vs)(p \<mapsto> v')) p = version_files (vs_versions vs) p" using assms(2,3) by (simp add: version_files_def)
  with file_uses_update [OF heap_okD(1) [OF assms(1)], of p "Some v'"] have "file_uses ((vs_versions vs)(p \<mapsto> v')) = file_uses (vs_versions vs)" by simp
  with assms(1,2) show ?thesis by (auto simp: heap_ok_def)
qed

lemma Version_Ref_ok:
  assumes "heap_ok vs owned" "version_refs_ok vs held" "vs_versions vs p = Some v"
  defines "vs' \<equiv> vs\<lparr>vs_versions := (vs_versions vs)(p \<mapsto> v\<lparr>v_refs := v_refs v + 1\<rparr>)\<rparr>"
  shows "Version_Ref p vs = Some vs'" "heap_ok vs' owned" "version_refs_ok vs' (add_mset p held)" "frame vs vs'"
  using assms(1-3) heap_ok_version [OF assms(1,3), of "v\<lparr>v_refs := v_refs v + 1\<rparr>"]
  by (auto simp: Version_Ref_def vs'_def version_refs_ok_def frame_def)

lemma destroy_Version_ok:
  assumes "heap_ok vs owned" "version_refs_ok vs held" "vs_versions vs p = Some v" "p \<notin># held"
  shows "\<exists>vs'. destroy_Version p vs = Some vs' \<and> heap_ok vs' owned \<and> version_refs_ok vs' held \<and> frame vs vs' \<and>
    vs_versions vs' = (vs_versions vs)(p := None) \<and> vs_list vs' = removeAll p (vs_list vs) \<and> vs_current vs' = vs_current vs"
proof -
  let ?X = "(vs_versions vs)(p := None)" and ?files = "concat (v_files v)"
  define vs1 where "vs1 = vs\<lparr>vs_list := removeAll p (vs_list vs)\<rparr>"
  have uses: "file_uses ?X + mset ?files = file_uses (vs_versions vs)"
    using file_uses_update [OF heap_okD(1) [OF assms(1)], of p None] assms(3) by (simp add: version_files_def)
  have h: "heap_ok (vs1\<lparr>vs_versions := ?X\<rparr>) (mset ?files + owned)"
    using assms(1) unfolding heap_ok_def vs1_def by (simp add: uses [symmetric] ac_simps)
  from drop_file_refs_ok [OF h] version_drop_files_eq [OF h] obtain w where
    w: "version_drop_files ?files (vs1\<lparr>vs_versions := ?X\<rparr>) = Some w" "heap_ok w owned" "same_but_counts (vs1\<lparr>vs_versions := ?X\<rparr>) w" by auto
  from w(1) obtain w' where w': "version_drop_files ?files vs1 = Some w'" "w = w'\<lparr>vs_versions := ?X\<rparr>"
    by (auto simp: version_drop_files_versions)
  have "w' = w'\<lparr>vs_versions := vs_versions vs1\<rparr>" using version_drop_files_versions [where fs = ?files and vs = vs1 and X = "vs_versions vs1"] w'(1) by simp
  from arg_cong [OF this, of vs_versions] have "vs_versions w' = vs_versions vs" by (simp add: vs1_def)
  moreover have "v_refs v = 0" using assms(2-4) by (simp add: version_refs_ok_def not_in_iff)
  ultimately have "destroy_Version p vs = Some w"
    using assms(3) w' unfolding destroy_Version_def vs1_def [symmetric] by simp
  moreover have "version_refs_ok w held" using same_but_countsD [OF w(3)] assms(2,4) by (auto simp: version_refs_ok_def)
  moreover have "frame vs w" using same_but_counts_frame [OF w(3)] by (simp add: frame_def vs1_def)
  ultimately show ?thesis using w(2) same_but_countsD [OF w(3)] by (simp add: vs1_def)
qed

lemma Version_Unref_ok:
  assumes "heap_ok vs owned" "version_refs_ok vs (add_mset p held)"
  shows "\<exists>vs'. Version_Unref p vs = Some vs' \<and> heap_ok vs' owned \<and> version_refs_ok vs' held \<and> frame vs vs' \<and> vs_current vs' = vs_current vs \<and>
    (if p \<in># held then vs_list vs' = vs_list vs \<and> dom (vs_versions vs') = dom (vs_versions vs)
     else vs_list vs' = removeAll p (vs_list vs) \<and> dom (vs_versions vs') = dom (vs_versions vs) - {p}) \<and>
    (\<forall>q v. vs_versions vs' q = Some v \<longrightarrow> (\<exists>v0. vs_versions vs q = Some v0 \<and> v_files v = v_files v0))"
proof -
  from assms(2) obtain v where v: "vs_versions vs p = Some v" by (auto simp: version_refs_ok_def)
  let ?v = "v\<lparr>v_refs := v_refs v - 1\<rparr>"
  define vs1 where "vs1 = vs\<lparr>vs_versions := (vs_versions vs)(p \<mapsto> ?v)\<rparr>"
  have refs: "v_refs v = int (count held p) + 1" using assms(2) v by (simp add: version_refs_ok_def)
  have h1: "heap_ok vs1 owned" unfolding vs1_def by (rule heap_ok_version [OF assms(1) v]) simp
  have r1: "version_refs_ok vs1 held" using assms(2) v refs by (auto simp: version_refs_ok_def vs1_def split: if_splits)
  have keep: "\<exists>v0. vs_versions vs q = Some v0 \<and> v_files v1 = v_files v0" if "vs_versions vs1 q = Some v1" for q v1
    using that v by (auto simp: vs1_def split: if_splits)
  show ?thesis
  proof (cases "p \<in># held")
    case True
    then obtain n where "count held p = Suc n" by (metis count_eq_zero_iff not0_implies_Suc)
    then have "Version_Unref p vs = Some vs1" using v refs by (simp add: Version_Unref_def Let_def vs1_def)
    with h1 r1 keep True v show ?thesis by (auto simp: vs1_def frame_def)
  next
    case False
    then have run: "Version_Unref p vs = destroy_Version p vs1" using v refs by (simp add: Version_Unref_def Let_def vs1_def not_in_iff)
    have p1: "vs_versions vs1 p = Some ?v" by (simp add: vs1_def)
    from destroy_Version_ok [OF h1 r1 p1 False] obtain vs' where
      vs': "destroy_Version p vs1 = Some vs'" "heap_ok vs' owned" "version_refs_ok vs' held" "frame vs1 vs'"
      "vs_versions vs' = (vs_versions vs1)(p := None)" "vs_list vs' = removeAll p (vs_list vs1)" "vs_current vs' = vs_current vs1" by blast
    have "frame vs vs'" using vs'(4) by (simp add: frame_def vs1_def)
    moreover have "dom (vs_versions vs') = dom (vs_versions vs) - {p}" using vs'(5) by (auto simp: vs1_def split: if_splits)
    moreover have "\<forall>q v. vs_versions vs' q = Some v \<longrightarrow> (\<exists>v0. vs_versions vs q = Some v0 \<and> v_files v = v_files v0)"
      using vs'(5) keep by (auto split: if_splits)
    ultimately show ?thesis using vs' run False by (auto simp: vs1_def)
  qed
qed

text \<open>The state between the operations of the version set: the clients hold \<open>held\<close>, the set itself its current version.\<close>

definition vset_ok :: "'d VersionSet \<Rightarrow> nat multiset \<Rightarrow> fptr multiset \<Rightarrow> bool" where
  "vset_ok vs held owned \<longleftrightarrow> heap_ok vs owned \<and>
     (\<exists>cur. vs_current vs = Some cur \<and> version_refs_ok vs (add_mset cur held) \<and> dom (vs_versions vs) = set_mset (add_mset cur held)) \<and>
     distinct (vs_list vs) \<and> set (vs_list vs) = dom (vs_versions vs) \<and> length (vs_compact_pointer vs) = 7 \<and>
     (\<forall>v \<in> ran (vs_versions vs). length (v_files v) = 7)"

text \<open>A version that is not in the list yet, with the references of the others.\<close>

definition with_new_version :: "'d VersionSet \<Rightarrow> nat \<Rightarrow> nat multiset \<Rightarrow> fptr multiset \<Rightarrow> bool" where
  "with_new_version vs p held owned \<longleftrightarrow> heap_ok vs owned \<and> p \<in> dom (vs_versions vs) \<and> p \<notin> set (vs_list vs) \<and>
     (\<exists>cur. vs_current vs = Some cur \<and> version_refs_ok vs (add_mset cur held) \<and> dom (vs_versions vs) = insert p (set_mset (add_mset cur held)) \<and>
        p \<noteq> cur \<and> p \<notin># held) \<and>
     distinct (vs_list vs) \<and> insert p (set (vs_list vs)) = dom (vs_versions vs) \<and> length (vs_compact_pointer vs) = 7 \<and>
     (\<forall>v \<in> ran (vs_versions vs). length (v_files v) = 7)"

lemma AppendVersion_ok:
  assumes "with_new_version vs p held owned"
  shows "\<exists>vs'. AppendVersion p vs = Some vs' \<and> vset_ok vs' held owned \<and> vs_current vs' = Some p \<and> frame vs vs' \<and>
    map_option v_files (vs_versions vs' p) = map_option v_files (vs_versions vs p)"
proof -
  from assms obtain cur where h: "heap_ok vs owned" "p \<in> dom (vs_versions vs)" "p \<notin> set (vs_list vs)" "vs_current vs = Some cur"
    "version_refs_ok vs (add_mset cur held)" "dom (vs_versions vs) = insert p (set_mset (add_mset cur held))" "p \<noteq> cur" "p \<notin># held"
    "distinct (vs_list vs)" "insert p (set (vs_list vs)) = dom (vs_versions vs)" "length (vs_compact_pointer vs) = 7"
    "\<forall>v \<in> ran (vs_versions vs). length (v_files v) = 7" unfolding with_new_version_def by blast
  obtain v where v: "vs_versions vs p = Some v" "v_refs v = 0" using h(2,5,7,8) by (fastforce simp: version_refs_ok_def not_in_iff)
  from Version_Unref_ok [OF h(1,5)] obtain vs1 where
    1: "Version_Unref cur vs = Some vs1" "heap_ok vs1 owned" "version_refs_ok vs1 held" "frame vs vs1"
    "if cur \<in># held then vs_list vs1 = vs_list vs \<and> dom (vs_versions vs1) = dom (vs_versions vs)
     else vs_list vs1 = removeAll cur (vs_list vs) \<and> dom (vs_versions vs1) = dom (vs_versions vs) - {cur}"
    "\<forall>q v. vs_versions vs1 q = Some v \<longrightarrow> (\<exists>v0. vs_versions vs q = Some v0 \<and> v_files v = v_files v0)" by blast
  let ?vs1 = "vs1\<lparr>vs_current := Some p\<rparr>"
  have "p \<in> dom (vs_versions vs1)" using 1(5) h(2,7) by (auto split: if_splits)
  then obtain v1 where v1: "vs_versions ?vs1 p = Some v1" by auto
  have 2: "heap_ok ?vs1 owned" "version_refs_ok ?vs1 held" using 1(2,3) by (simp_all add: heap_ok_def version_refs_ok_def)
  define vs2 where "vs2 = ?vs1\<lparr>vs_versions := (vs_versions ?vs1)(p \<mapsto> v1\<lparr>v_refs := v_refs v1 + 1\<rparr>)\<rparr>"
  note 3 = Version_Ref_ok [OF 2 v1, folded vs2_def]
  let ?vs' = "vs2\<lparr>vs_list := vs_list vs2 @ [p]\<rparr>"
  have run: "AppendVersion p vs = Some ?vs'" using v h(4,7) 1(1) 3(1) by (simp add: AppendVersion_def)
  have dom2: "dom (vs_versions vs2) = dom (vs_versions vs1)" using v1 by (auto simp: vs2_def)
  have doms: "dom (vs_versions vs1) = set_mset (add_mset p held)" using 1(5) h(6,7,8) by (auto split: if_splits)
  have lists: "distinct (vs_list vs1)" "insert p (set (vs_list vs1)) = dom (vs_versions vs1)" "p \<notin> set (vs_list vs1)"
    using 1(5) h(3,9,10,7) by (auto simp: distinct_removeAll split: if_splits)
  have files: "\<forall>w \<in> ran (vs_versions vs2). length (v_files w) = 7"
  proof
    fix w assume "w \<in> ran (vs_versions vs2)"
    then obtain q where q: "vs_versions vs2 q = Some w" by (auto simp: ran_def)
    then obtain w1 where "vs_versions vs1 q = Some w1" "v_files w = v_files w1" using v1 by (auto simp: vs2_def split: if_splits)
    with 1(6) h(12) show "length (v_files w) = 7" by (fastforce simp: ran_def)
  qed
  have cp: "length (vs_compact_pointer vs1) = 7" using 1(4) h(11) by (simp add: frame_def)
  have fields: "vs_current vs2 = Some p" "vs_list vs2 = vs_list vs1" "vs_compact_pointer vs2 = vs_compact_pointer vs1" by (simp_all add: vs2_def)
  have "heap_ok ?vs' owned" "version_refs_ok ?vs' (add_mset p held)" using 3(2,3) by (simp_all add: heap_ok_def version_refs_ok_def)
  then have "vset_ok ?vs' held owned" unfolding vset_ok_def using dom2 doms lists files cp fields by simp
  moreover have "frame vs ?vs'" using frame_trans [OF 1(4)] 3(4) by (simp add: frame_def vs2_def)
  moreover have "v_files v1 = v_files v" using 1(6) v1 v(1) by fastforce
  ultimately show ?thesis using run v(1) by (simp add: vs2_def)
qed

end
