(* ===== verification/Ldb_Version_Build.thy ===== *)
theory Ldb_Version_Build
  imports Ldb_Version_Refs Ldb_Version_Spec
begin

text \<open>
  The builder implements the edits: the version that it saves has, level by level, the files of the base version without those that the
  edits delete and with those that they add, in order.
\<close>

subsection \<open>Descriptions of files\<close>

type_synonym fdesc = "64 word \<times> 64 word \<times> slice \<times> slice"

abbreviation d_number :: "fdesc \<Rightarrow> 64 word" where "d_number d \<equiv> fst d"
abbreviation d_smallest :: "fdesc \<Rightarrow> slice" where "d_smallest d \<equiv> fst (snd (snd d))"
abbreviation d_largest :: "fdesc \<Rightarrow> slice" where "d_largest d \<equiv> snd (snd (snd d))"

definition meta_desc :: "FileMetaData \<Rightarrow> fdesc" where
  "meta_desc m = (fm_number m, fm_file_size m, fm_smallest m, fm_largest m)"

lemma file_desc_meta: "file_desc h f = meta_desc (h f)"
  by (simp add: file_desc_def meta_desc_def)

lemma file_desc_parts [simp]: "d_number (file_desc h f) = fm_number (h f)" "d_smallest (file_desc h f) = fm_smallest (h f)"
  "d_largest (file_desc h f) = fm_largest (h f)"
  by (simp_all add: file_desc_def)

definition desc_ok :: "fdesc \<Rightarrow> bool" where
  "desc_ok d \<longleftrightarrow> key_wf (d_smallest d) \<and> key_wf (d_largest d) \<and> \<not> icmp (d_largest d) (d_smallest d) < 0"

text \<open>The order of the builder, and the order of disjoint files.\<close>

definition desc_less :: "fdesc \<Rightarrow> fdesc \<Rightarrow> bool" where
  "desc_less d e \<longleftrightarrow> (let r = icmp (d_smallest d) (d_smallest e) in if r \<noteq> 0 then r < 0 else d_number d < d_number e)"

definition desc_before :: "fdesc \<Rightarrow> fdesc \<Rightarrow> bool" where
  "desc_before d e \<longleftrightarrow> icmp (d_largest d) (d_smallest e) < 0"

lemma BySmallestKey_desc: "BySmallestKey slice_compare h f g \<longleftrightarrow> desc_less (file_desc h f) (file_desc h g)"
  by (simp add: BySmallestKey_def desc_less_def Let_def)

lemma icmp_zero: "valid_key a \<Longrightarrow> valid_key b \<Longrightarrow> icmp a b = 0 \<longleftrightarrow> a = b"
  using internal.compare_eq [of a b] by simp

lemma desc_less_iff:
  assumes "desc_ok d" "desc_ok e"
  shows "desc_less d e \<longleftrightarrow> icmp (d_smallest d) (d_smallest e) < 0 \<or> d_smallest d = d_smallest e \<and> d_number d < d_number e"
  using assms icmp_zero [of "d_smallest d" "d_smallest e"] by (auto simp: desc_less_def Let_def desc_ok_def key_wf_def icmp_less)

lemma icmp_cases: "valid_key a \<Longrightarrow> valid_key b \<Longrightarrow> icmp a b < 0 \<or> a = b \<or> icmp b a < 0"
  using internal.compare_cases [of a b] by blast

lemma desc_less_trans:
  assumes "desc_ok a" "desc_ok b" "desc_ok c" "desc_less a b" "desc_less b c"
  shows "desc_less a c"
  using assms icmp_trans [of "d_smallest a" "d_smallest b" "d_smallest c"] by (auto simp: desc_less_iff)

lemma desc_less_total:
  assumes "desc_ok a" "desc_ok b" "\<not> desc_less a b" "\<not> desc_less b a"
  shows "d_number a = d_number b" "d_smallest a = d_smallest b"
  using assms icmp_cases [of "d_smallest a" "d_smallest b"] by (auto simp: desc_less_iff desc_ok_def key_wf_def)

lemma desc_less_asym: "desc_ok a \<Longrightarrow> desc_ok b \<Longrightarrow> desc_less a b \<Longrightarrow> \<not> desc_less b a"
  by (auto simp: desc_less_iff icmp_less)

lemma desc_le_trans:
  assumes "desc_ok a" "desc_ok b" "desc_ok c" "\<not> desc_less b a" "\<not> desc_less c b"
  shows "\<not> desc_less c a"
proof
  assume ca: "desc_less c a"
  have "desc_less b a" if "desc_less b c" using desc_less_trans [OF assms(2,3,1) that ca] .
  with assms have "\<not> desc_less b c" by blast
  from desc_less_total [OF assms(2,3) this assms(5)] have "desc_less b a \<longleftrightarrow> desc_less c a"
    using assms(1-3) by (simp add: desc_less_iff)
  with ca assms(4) show False by blast
qed

lemma desc_before_less: "desc_ok a \<Longrightarrow> desc_ok b \<Longrightarrow> desc_before a b \<Longrightarrow> desc_less a b"
  using icmp_le_trans(1) by (auto simp: desc_less_iff desc_before_def desc_ok_def)

subsection \<open>Insertion into the set of added files\<close>

lemma std_set_insert_set: "set (std_set_insert lt x ys) \<subseteq> insert x (set ys)" "set ys \<subseteq> set (std_set_insert lt x ys)"
  by (induction ys) auto

lemma std_set_insert_mset: "std_set_insert lt x ys = ys \<or> mset (std_set_insert lt x ys) = add_mset x (mset ys)"
  by (induction ys) auto

lemma std_set_insert_hit:
  "x \<in> set (std_set_insert lt x ys) \<or> (\<exists>y \<in> set ys. \<not> lt x y \<and> \<not> lt y x)"
  by (induction ys) auto

lemma std_set_insert_sorted:
  assumes "sorted_wrt (\<lambda>f g. desc_less (file_desc h f) (file_desc h g)) ys" "\<forall>f \<in> insert x (set ys). desc_ok (file_desc h f)"
  shows "sorted_wrt (\<lambda>f g. desc_less (file_desc h f) (file_desc h g)) (std_set_insert (BySmallestKey slice_compare h) x ys)"
  using assms
proof (induction ys)
  case (Cons y ys)
  consider (front) "desc_less (file_desc h x) (file_desc h y)" | (later) "\<not> desc_less (file_desc h x) (file_desc h y)" "desc_less (file_desc h y) (file_desc h x)"
    | (same) "\<not> desc_less (file_desc h x) (file_desc h y)" "\<not> desc_less (file_desc h y) (file_desc h x)" by blast
  then show ?case
  proof cases
    case front
    then have "desc_less (file_desc h x) (file_desc h z)" if "z \<in> set (y # ys)" for z
      using that Cons.prems desc_less_trans [of "file_desc h x" "file_desc h y" "file_desc h z"] by auto
    with front Cons.prems show ?thesis by (simp add: BySmallestKey_desc)
  next
    case later
    with Cons show ?thesis using std_set_insert_set(1) [of "\<lambda>a b. desc_less (file_desc h a) (file_desc h b)" x ys] by (auto simp: BySmallestKey_desc)
  next
    case same
    with Cons.prems show ?thesis by (simp add: BySmallestKey_desc)
  qed
qed simp

subsection \<open>The builder and the abstract version\<close>

text \<open>What an edit does to the sets of files of the levels.\<close>

definition apply_edit :: "VersionEdit \<Rightarrow> (nat \<Rightarrow> fdesc set) \<Rightarrow> nat \<Rightarrow> fdesc set" where
  "apply_edit edit S level = {d \<in> S level. (int level, d_number d) \<notin> set (ve_deleted_files edit)} \<union>
     {meta_desc m | m. (int level, m) \<in> set (ve_new_files edit)}"

text \<open>What the builder would save.\<close>

definition build_set :: "file_mem \<Rightarrow> fptr list list \<Rightarrow> Builder \<Rightarrow> nat \<Rightarrow> fdesc set" where
  "build_set h base b level = file_desc h ` {f \<in> set (base ! level) \<union> set (ls_added_files (b_levels b ! level)).
     fm_number (h f) \<notin> set (ls_deleted_files (b_levels b ! level))}"

text \<open>A file number stands for one file: \<open>meta\<close> describes it.\<close>

definition file_good :: "(64 word \<Rightarrow> fdesc) \<Rightarrow> file_mem \<Rightarrow> nat \<Rightarrow> fptr \<Rightarrow> bool" where
  "file_good meta h fresh f \<longleftrightarrow> f < fresh \<and> file_desc h f = meta (fm_number (h f)) \<and> desc_ok (file_desc h f)"

lemma file_goodD: "file_good meta h fresh f \<Longrightarrow> f < fresh" "file_good meta h fresh f \<Longrightarrow> desc_ok (file_desc h f)"
  "file_good meta h fresh f \<Longrightarrow> file_desc h f = meta (fm_number (h f))"
  unfolding file_good_def by blast+

abbreviation file_less :: "file_mem \<Rightarrow> fptr \<Rightarrow> fptr \<Rightarrow> bool" where
  "file_less h f g \<equiv> desc_less (file_desc h f) (file_desc h g)"

definition level_state_ok :: "(64 word \<Rightarrow> fdesc) \<Rightarrow> file_mem \<Rightarrow> nat \<Rightarrow> fptr list \<Rightarrow> LevelState \<Rightarrow> bool" where
  "level_state_ok meta h fresh files ls \<longleftrightarrow> distinct (ls_deleted_files ls) \<and> sorted_wrt (file_less h) (ls_added_files ls) \<and>
     (\<forall>f \<in> set files \<union> set (ls_added_files ls). file_good meta h fresh f)"

definition builder_ok :: "(64 word \<Rightarrow> fdesc) \<Rightarrow> file_mem \<Rightarrow> nat \<Rightarrow> fptr list list \<Rightarrow> Builder \<Rightarrow> bool" where
  "builder_ok meta h fresh base b \<longleftrightarrow> length base = 7 \<and> length (b_levels b) = 7 \<and>
     (\<forall>level < 7. level_state_ok meta h fresh (base ! level) (b_levels b ! level))"

definition edit_files_ok :: "(64 word \<Rightarrow> fdesc) \<Rightarrow> VersionEdit \<Rightarrow> bool" where
  "edit_files_ok meta edit \<longleftrightarrow> (\<forall>(level, key) \<in> set (ve_compact_pointers edit). level_ok level \<and> key \<noteq> []) \<and>
     (\<forall>(level, n) \<in> set (ve_deleted_files edit). level_ok level) \<and>
     (\<forall>(level, m) \<in> set (ve_new_files edit). level_ok level \<and> meta_desc m = meta (fm_number m) \<and> desc_ok (meta_desc m))"

lemma distinct_insort_insert: "distinct xs \<Longrightarrow> distinct (insort_insert x xs)"
  by (simp add: insort_insert_key_def distinct_insort)

lemma set_insort_insert': "set (insort_insert x xs) = insert x (set xs)"
  by (rule set_insort_insert)

lemma level_ok_nat: "level_ok level \<Longrightarrow> nat level < 7 \<and> int (nat level) = level"
  by (auto simp: level_ok_def kNumLevels_def)

lemma apply_deletions_ok:
  assumes "builder_ok meta h fresh base b" "\<forall>(level, n) \<in> set ds. level_ok level"
  shows "\<exists>b'. apply_deletions ds b = Some b' \<and> builder_ok meta h fresh base b' \<and> b_base b' = b_base b \<and>
    map ls_added_files (b_levels b') = map ls_added_files (b_levels b) \<and>
    (\<forall>level < 7. build_set h base b' level = {d \<in> build_set h base b level. (int level, d_number d) \<notin> set ds})"
  using assms
proof (induction ds arbitrary: b)
  case (Cons d ds)
  obtain l n where d: "d = (l, n)" by (cases d)
  with Cons.prems have l: "nat l < 7" "int (nat l) = l" "level_ok l" using level_ok_nat by auto
  let ?ls = "b_levels b ! nat l"
  define b1 where "b1 = b\<lparr>b_levels := (b_levels b)[nat l := ?ls\<lparr>ls_deleted_files := insort_insert n (ls_deleted_files ?ls)\<rparr>]\<rparr>"
  have len: "length (b_levels b) = 7" using Cons.prems(1) by (simp add: builder_ok_def)
  have added: "map ls_added_files (b_levels b1) = map ls_added_files (b_levels b)"
    using l(1) len by (simp add: b1_def map_update list_update_same_conv)
  have "builder_ok meta h fresh base b1"
    using Cons.prems(1) l(1) len unfolding builder_ok_def b1_def by (auto simp: nth_list_update distinct_insort_insert level_state_ok_def)
  from Cons.IH [OF this] Cons.prems(2) obtain b' where
    b': "apply_deletions ds b1 = Some b'" "builder_ok meta h fresh base b'" "b_base b' = b_base b1"
    "map ls_added_files (b_levels b') = map ls_added_files (b_levels b1)"
    "\<forall>level < 7. build_set h base b' level = {d \<in> build_set h base b1 level. (int level, d_number d) \<notin> set ds}" by auto
  have "build_set h base b1 level = {d \<in> build_set h base b level. (int level, d_number d) \<noteq> (l, n)}" if "level < 7" for level
    using len that l by (auto simp: build_set_def b1_def nth_list_update set_insort_insert')
  with b' added d l(3) show ?case by (intro exI [of _ b']) (auto simp: b1_def Let_def)
qed simp

text \<open>A new file takes a fresh address, with one reference, which the builder owns.\<close>

lemma alloc_heap_ok:
  assumes "heap_ok vs owned" "fm_refs m = 1"
  shows "heap_ok (vs\<lparr>vs_mem := (vs_mem vs)(vs_fresh vs := m), vs_live := insert (vs_fresh vs) (vs_live vs), vs_fresh := vs_fresh vs + 1\<rparr>)
    (add_mset (vs_fresh vs) owned)"
proof -
  note D = heap_okD [OF assms(1)]
  have new: "vs_fresh vs \<notin> vs_live vs" using D(3) by blast
  then have zero: "count (file_uses (vs_versions vs) + owned) (vs_fresh vs) = 0" unfolding count_eq_zero_iff using D(4) by blast
  show ?thesis
    by (rule heap_okI) (use D new zero assms(2) in \<open>auto intro: less_SucI\<close>)
qed

lemma file_good_fresh: "file_good meta h n f \<Longrightarrow> file_good meta (h(n := m)) (n + 1) f"
  by (auto simp: file_good_def file_desc_def)

lemma sorted_fresh:
  "\<forall>f \<in> set fs. f < n \<Longrightarrow> sorted_wrt (file_less (h(n := m))) fs = sorted_wrt (file_less h) fs"
  by (induction fs) (auto simp: file_desc_def)

lemma level_state_fresh: "level_state_ok meta h n files ls \<Longrightarrow> level_state_ok meta (h(n := m)) (n + 1) files ls"
  using sorted_fresh [of "ls_added_files ls" n h m] file_good_fresh [of meta h n _ m] file_goodD(1) unfolding level_state_ok_def by (metis UnI2)

lemma added_level_ok:
  assumes "level_state_ok meta h n files ls" "file_good meta h n x"
  shows "level_state_ok meta h n files
    \<lparr>ls_deleted_files = remove1 k (ls_deleted_files ls), ls_added_files = std_set_insert (BySmallestKey slice_compare h) x (ls_added_files ls)\<rparr>"
  using assms std_set_insert_sorted [of h "ls_added_files ls" x] std_set_insert_set(1) [of "BySmallestKey slice_compare h" x "ls_added_files ls"]
  by (auto simp: level_state_ok_def distinct_remove1 dest: file_goodD(2))

lemma added_level_set:
  assumes "level_state_ok meta h n files ls" "file_good meta h n x"
  defines "added \<equiv> std_set_insert (BySmallestKey slice_compare h) x (ls_added_files ls)"
  shows "file_desc h ` {f \<in> set files \<union> set added. fm_number (h f) \<notin> set (remove1 (fm_number (h x)) (ls_deleted_files ls))} =
    insert (file_desc h x) (file_desc h ` {f \<in> set files \<union> set (ls_added_files ls). fm_number (h f) \<notin> set (ls_deleted_files ls)})" (is "?L = insert ?x ?R")
proof -
  have d: "set (remove1 (fm_number (h x)) (ls_deleted_files ls)) = set (ls_deleted_files ls) - {fm_number (h x)}"
    using assms(1) by (simp add: level_state_ok_def set_remove1_eq)
  have same: "file_desc h f = ?x" if "f \<in> set files \<union> set added" "fm_number (h f) = fm_number (h x)" for f
    using that assms std_set_insert_set(1) [of "BySmallestKey slice_compare h" x "ls_added_files ls"] file_goodD(3) unfolding level_state_ok_def
    by (metis UnE UnI1 UnI2 insertE subsetD)
  have "?x \<in> ?L"
  proof (cases "x \<in> set added")
    case False
    with std_set_insert_hit [of x "BySmallestKey slice_compare h" "ls_added_files ls"] obtain y where
      y: "y \<in> set (ls_added_files ls)" "\<not> file_less h x y" "\<not> file_less h y x" by (auto simp: added_def BySmallestKey_desc)
    have "fm_number (h x) = fm_number (h y)"
      using desc_less_total(1) [OF file_goodD(2) [OF assms(2)] _ y(2,3)] assms(1) y(1) file_goodD(2) by (fastforce simp: level_state_ok_def)
    moreover have "y \<in> set added" using y(1) std_set_insert_set(2) [of "ls_added_files ls" "BySmallestKey slice_compare h" x] by (auto simp: added_def)
    ultimately show ?thesis using same [of y] d by (auto simp: image_iff intro!: bexI [of _ y])
  qed (use d in auto)
  moreover have "?R \<subseteq> ?L" using std_set_insert_set(2) [of "ls_added_files ls" "BySmallestKey slice_compare h" x] d by (auto simp: added_def)
  moreover have "?L \<subseteq> insert ?x ?R"
    using same std_set_insert_set(1) [of "BySmallestKey slice_compare h" x "ls_added_files ls"] d by (auto simp: added_def)
  ultimately show ?thesis by blast
qed

lemma mset_concat_update: "i < length xs \<Longrightarrow> mset (concat (xs[i := y])) + mset (xs ! i) = mset (concat xs) + mset y"
proof (induction xs arbitrary: i)
  case (Cons x xs)
  then show ?case by (cases i) (auto simp: ac_simps)
qed simp

lemma apply_addition_ok:
  assumes "builder_ok meta (vs_mem vs) (vs_fresh vs) base b" "level_ok l" "meta_desc m = meta (fm_number m)" "desc_ok (meta_desc m)"
    "heap_ok vs (mset (concat (map ls_added_files (b_levels b))) + owned)"
  shows "\<exists>b' vs' leaked. apply_addition slice_compare l m (b, vs) = Some (b', vs') \<and> builder_ok meta (vs_mem vs') (vs_fresh vs') base b' \<and>
    b_base b' = b_base b \<and> heap_ok vs' (mset (concat (map ls_added_files (b_levels b'))) + (leaked + owned)) \<and>
    (\<forall>level < 7. build_set (vs_mem vs') base b' level =
       (if int level = l then insert (meta_desc m) (build_set (vs_mem vs) base b level) else build_set (vs_mem vs) base b level)) \<and>
    (\<forall>f < vs_fresh vs. file_desc (vs_mem vs') f = file_desc (vs_mem vs) f) \<and> vs_fresh vs \<le> vs_fresh vs' \<and>
    vs' = vs\<lparr>vs_mem := vs_mem vs', vs_live := vs_live vs', vs_fresh := vs_fresh vs'\<rparr>"
proof -
  let ?n = "vs_fresh vs" and ?ls = "b_levels b ! nat l"
  define x where "x = m\<lparr>fm_refs := 1, fm_allowed_seeks := allowed_seeks_for (fm_file_size m)\<rparr>"
  define h where "h = (vs_mem vs)(?n := x)"
  define ls where "ls = \<lparr>ls_deleted_files = remove1 (fm_number m) (ls_deleted_files ?ls), ls_added_files = std_set_insert (BySmallestKey slice_compare h) ?n (ls_added_files ?ls)\<rparr>"
  define b' where "b' = b\<lparr>b_levels := (b_levels b)[nat l := ls]\<rparr>"
  define vs' where "vs' = vs\<lparr>vs_mem := h, vs_live := insert ?n (vs_live vs), vs_fresh := ?n + 1\<rparr>"
  have l: "nat l < 7" "int (nat l) = l" using level_ok_nat [OF assms(2)] by auto
  have len: "length (b_levels b) = 7" "length base = 7" using assms(1) by (auto simp: builder_ok_def)
  have run: "apply_addition slice_compare l m (b, vs) = Some (b', vs')"
    using assms(2) by (simp add: apply_addition_def Let_def b'_def vs'_def ls_def h_def x_def)
  have nx: "fm_number (h ?n) = fm_number m" "file_desc h ?n = meta_desc m" by (simp_all add: h_def x_def file_desc_def meta_desc_def)
  have old: "level_state_ok meta h (?n + 1) (base ! level) (b_levels b ! level)" if "level < 7" for level
    using assms(1) that level_state_fresh unfolding h_def builder_ok_def by blast
  have good: "file_good meta h (?n + 1) ?n" using nx assms(3,4) by (simp add: file_good_def)
  have ok: "builder_ok meta h (?n + 1) base b'"
    unfolding builder_ok_def using old added_level_ok [OF old [OF l(1)] good, of "fm_number m", folded ls_def] len l(1)
    by (auto simp: b'_def nth_list_update)
  have bs: "build_set h base b level = build_set (vs_mem vs) base b level" if "level < 7" for level
  proof -
    have "f \<noteq> ?n" if "f \<in> set (base ! level) \<union> set (ls_added_files (b_levels b ! level))" for f
      using assms(1) that \<open>level < 7\<close> file_goodD(1) unfolding builder_ok_def level_state_ok_def by blast
    then show ?thesis unfolding build_set_def by (intro image_cong) (auto simp: h_def file_desc_def)
  qed
  have set: "build_set h base b' level = (if int level = l then insert (meta_desc m) (build_set (vs_mem vs) base b level) else build_set (vs_mem vs) base b level)"
    if "level < 7" for level
  proof (cases "int level = l")
    case True
    then have level: "level = nat l" by simp
    have "build_set h base b' (nat l) = insert (meta_desc m) (build_set h base b (nat l))"
      using added_level_set [OF old [OF l(1)] good] nx l(1) len by (simp add: build_set_def b'_def ls_def)
    with True level bs [OF that] show ?thesis by simp
  next
    case False
    with l(2) have "nat l \<noteq> level" by blast
    then have "build_set h base b' level = build_set h base b level" by (simp add: build_set_def b'_def)
    with False bs [OF that] show ?thesis by simp
  qed
  have refs: "fm_refs x = 1" by (simp add: x_def)
  have heap: "heap_ok vs' (add_mset ?n (mset (concat (map ls_added_files (b_levels b))) + owned))"
    using alloc_heap_ok [OF assms(5) refs] by (simp add: vs'_def h_def)
  have m1: "mset (concat (map ls_added_files (b_levels b'))) + mset (ls_added_files ?ls) = mset (concat (map ls_added_files (b_levels b))) + mset (ls_added_files ls)"
    using mset_concat_update [of "nat l" "map ls_added_files (b_levels b)" "ls_added_files ls"] l(1) len(1) by (simp add: b'_def map_update)
  obtain leaked where "heap_ok vs' (mset (concat (map ls_added_files (b_levels b'))) + (leaked + owned))"
  proof -
    from std_set_insert_mset [of "BySmallestKey slice_compare h" ?n "ls_added_files ?ls"]
    consider "ls_added_files ls = ls_added_files ?ls" | "mset (ls_added_files ls) = add_mset ?n (mset (ls_added_files ?ls))" by (auto simp: ls_def)
    then show thesis
    proof cases
      case 1
      with m1 heap that [of "{#?n#}"] show thesis by (simp add: ac_simps)
    next
      case 2
      with m1 have "mset (concat (map ls_added_files (b_levels b'))) = add_mset ?n (mset (concat (map ls_added_files (b_levels b))))" by simp
      with heap that [of "{#}"] show thesis by (simp add: ac_simps)
    qed
  qed
  moreover have "\<forall>f < ?n. file_desc h f = file_desc (vs_mem vs) f" by (simp add: h_def file_desc_def)
  ultimately show ?thesis using run ok set by (intro exI [of _ b'] exI [of _ vs'] exI [of _ leaked]) (auto simp: vs'_def b'_def)
qed

text \<open>What the builder changes in the version set.\<close>

definition grown :: "'d VersionSet \<Rightarrow> 'd VersionSet \<Rightarrow> bool" where
  "grown vs vs' \<longleftrightarrow>
     vs' = vs\<lparr>vs_mem := vs_mem vs', vs_live := vs_live vs', vs_fresh := vs_fresh vs', vs_compact_pointer := vs_compact_pointer vs'\<rparr> \<and>
     (\<forall>f < vs_fresh vs. file_desc (vs_mem vs') f = file_desc (vs_mem vs) f) \<and> vs_fresh vs \<le> vs_fresh vs'"

lemma grown_trans:
  assumes "grown a b" "grown b c"
  shows "grown a c"
proof -
  have "c = a\<lparr>vs_mem := vs_mem c, vs_live := vs_live c, vs_fresh := vs_fresh c, vs_compact_pointer := vs_compact_pointer c\<rparr>"
    using assms unfolding grown_def by (cases a; cases b; cases c) simp
  with assms show ?thesis unfolding grown_def by (metis less_le_trans order_trans)
qed

lemma grown_refl [simp]: "grown vs vs"
  by (simp add: grown_def)

lemma grownD:
  assumes "grown vs vs'"
  shows "vs_versions vs' = vs_versions vs" "vs_list vs' = vs_list vs" "vs_current vs' = vs_current vs" "vs_descriptor vs' = vs_descriptor vs"
    "vs_next_file_number vs' = vs_next_file_number vs" "vs_manifest_file_number vs' = vs_manifest_file_number vs"
    "vs_last_sequence vs' = vs_last_sequence vs" "vs_log_number vs' = vs_log_number vs" "vs_prev_log_number vs' = vs_prev_log_number vs"
    "f < vs_fresh vs \<Longrightarrow> file_desc (vs_mem vs') f = file_desc (vs_mem vs) f" "vs_fresh vs \<le> vs_fresh vs'"
  using assms unfolding grown_def by (cases vs; cases vs'; simp)+

definition set_pointers :: "(int \<times> slice) list \<Rightarrow> slice list \<Rightarrow> slice list" where
  "set_pointers ps pointers = fold (\<lambda>(level, key) pointers. pointers[nat level := key]) ps pointers"

lemma length_set_pointers [simp]: "length (set_pointers ps pointers) = length pointers"
  unfolding set_pointers_def by (induction ps arbitrary: pointers) auto

lemma apply_pointers_ok:
  "\<forall>(level, key) \<in> set ps. level_ok level \<and> key \<noteq> [] \<Longrightarrow>
   apply_pointers ps vs = Some (vs\<lparr>vs_compact_pointer := set_pointers ps (vs_compact_pointer vs)\<rparr>)"
  by (induction ps arbitrary: vs) (auto simp: InternalKey_Encode_def set_pointers_def)

text \<open>The builder after some edits, compared with the state at its start.\<close>

definition building :: "(64 word \<Rightarrow> fdesc) \<Rightarrow> 'd VersionSet \<Rightarrow> fptr multiset \<Rightarrow> fptr list list \<Rightarrow> nat \<Rightarrow> Builder \<times> 'd VersionSet \<Rightarrow> bool" where
  "building meta vs0 owned base p st \<longleftrightarrow> (case st of (b, vs) \<Rightarrow> builder_ok meta (vs_mem vs) (vs_fresh vs) base b \<and> b_base b = p \<and>
     (\<exists>leaked. heap_ok vs (mset (concat (map ls_added_files (b_levels b))) + (leaked + owned))) \<and> grown vs0 vs)"

lemma apply_additions_ok:
  assumes "building meta vs0 owned base p (b, vs)" "\<forall>(level, m) \<in> set fs. level_ok level \<and> meta_desc m = meta (fm_number m) \<and> desc_ok (meta_desc m)"
  shows "\<exists>b' vs'. apply_additions slice_compare fs (b, vs) = Some (b', vs') \<and> building meta vs0 owned base p (b', vs') \<and>
    vs_compact_pointer vs' = vs_compact_pointer vs \<and>
    (\<forall>level < 7. build_set (vs_mem vs') base b' level = build_set (vs_mem vs) base b level \<union> {meta_desc m | m. (int level, m) \<in> set fs})"
  using assms
proof (induction fs arbitrary: b vs)
  case (Cons f fs)
  obtain l m where f: "f = (l, m)" by (cases f)
  from Cons.prems obtain leaked where b: "builder_ok meta (vs_mem vs) (vs_fresh vs) base b" "b_base b = p" "grown vs0 vs"
    "heap_ok vs (mset (concat (map ls_added_files (b_levels b))) + (leaked + owned))" by (auto simp: building_def)
  have m: "level_ok l" "meta_desc m = meta (fm_number m)" "desc_ok (meta_desc m)" using Cons.prems(2) f by auto
  from apply_addition_ok [OF b(1) m b(4)] obtain b1 vs1 leaked1 where
    1: "apply_addition slice_compare l m (b, vs) = Some (b1, vs1)" "builder_ok meta (vs_mem vs1) (vs_fresh vs1) base b1" "b_base b1 = b_base b"
    "heap_ok vs1 (mset (concat (map ls_added_files (b_levels b1))) + (leaked1 + (leaked + owned)))"
    "\<forall>level < 7. build_set (vs_mem vs1) base b1 level =
       (if int level = l then insert (meta_desc m) (build_set (vs_mem vs) base b level) else build_set (vs_mem vs) base b level)"
    "\<forall>f < vs_fresh vs. file_desc (vs_mem vs1) f = file_desc (vs_mem vs) f" "vs_fresh vs \<le> vs_fresh vs1"
    "vs1 = vs\<lparr>vs_mem := vs_mem vs1, vs_live := vs_live vs1, vs_fresh := vs_fresh vs1\<rparr>" by blast
  have cp: "vs_compact_pointer vs1 = vs_compact_pointer vs" using arg_cong [OF 1(8), of vs_compact_pointer] by simp
  have "vs1 = vs\<lparr>vs_mem := vs_mem vs1, vs_live := vs_live vs1, vs_fresh := vs_fresh vs1, vs_compact_pointer := vs_compact_pointer vs1\<rparr>"
    using 1(8) cp by (cases vs; cases vs1) simp
  then have "grown vs vs1" using 1(6,7) by (simp add: grown_def)
  moreover have "heap_ok vs1 (mset (concat (map ls_added_files (b_levels b1))) + ((leaked1 + leaked) + owned))" using 1(4) by (simp add: add.assoc)
  ultimately have "building meta vs0 owned base p (b1, vs1)" using 1(2,3) b(2,3) grown_trans unfolding building_def by blast
  from Cons.IH [OF this] Cons.prems(2) f obtain b' vs' where
    2: "apply_additions slice_compare fs (b1, vs1) = Some (b', vs')" "building meta vs0 owned base p (b', vs')" "vs_compact_pointer vs' = vs_compact_pointer vs1"
    "\<forall>level < 7. build_set (vs_mem vs') base b' level = build_set (vs_mem vs1) base b1 level \<union> {meta_desc m | m. (int level, m) \<in> set fs}" by auto
  with 1(1,5) cp f show ?case by (intro exI [of _ b'] exI [of _ vs']) auto
qed simp

lemma Builder_Apply_ok:
  assumes "building meta vs0 owned base p (b, vs)" "edit_files_ok meta edit"
  shows "\<exists>b' vs'. Builder_Apply slice_compare edit (b, vs) = Some (b', vs') \<and> building meta vs0 owned base p (b', vs') \<and>
    vs_compact_pointer vs' = set_pointers (ve_compact_pointers edit) (vs_compact_pointer vs) \<and>
    (\<forall>level < 7. build_set (vs_mem vs') base b' level = apply_edit edit (build_set (vs_mem vs) base b) level)"
proof -
  define vs1 where "vs1 = vs\<lparr>vs_compact_pointer := set_pointers (ve_compact_pointers edit) (vs_compact_pointer vs)\<rparr>"
  have p: "apply_pointers (ve_compact_pointers edit) vs = Some vs1"
    unfolding vs1_def by (rule apply_pointers_ok) (use assms(2) in \<open>simp add: edit_files_ok_def\<close>)
  from assms(1) obtain leaked where b: "builder_ok meta (vs_mem vs) (vs_fresh vs) base b" "b_base b = p" "grown vs0 vs"
    "heap_ok vs (mset (concat (map ls_added_files (b_levels b))) + (leaked + owned))" by (auto simp: building_def)
  from apply_deletions_ok [OF b(1), of "ve_deleted_files edit"] assms(2) obtain b1 where
    1: "apply_deletions (ve_deleted_files edit) b = Some b1" "builder_ok meta (vs_mem vs) (vs_fresh vs) base b1" "b_base b1 = b_base b"
    "map ls_added_files (b_levels b1) = map ls_added_files (b_levels b)"
    "\<forall>level < 7. build_set (vs_mem vs) base b1 level = {d \<in> build_set (vs_mem vs) base b level. (int level, d_number d) \<notin> set (ve_deleted_files edit)}"
    by (auto simp: edit_files_ok_def)
  have "grown vs vs1" by (simp add: grown_def vs1_def)
  moreover have "heap_ok vs1 (mset (concat (map ls_added_files (b_levels b1))) + (leaked + owned))" using b(4) 1(4) by (simp add: heap_ok_def vs1_def)
  ultimately have "building meta vs0 owned base p (b1, vs1)" using 1(2,3) b(2,3) grown_trans unfolding building_def by (auto simp: vs1_def)
  from apply_additions_ok [OF this, of "ve_new_files edit"] assms(2) obtain b' vs' where
    2: "apply_additions slice_compare (ve_new_files edit) (b1, vs1) = Some (b', vs')" "building meta vs0 owned base p (b', vs')"
    "vs_compact_pointer vs' = vs_compact_pointer vs1"
    "\<forall>level < 7. build_set (vs_mem vs') base b' level = build_set (vs_mem vs1) base b1 level \<union> {meta_desc m | m. (int level, m) \<in> set (ve_new_files edit)}"
    by (auto simp: edit_files_ok_def)
  with p 1(1,5) show ?thesis by (intro exI [of _ b'] exI [of _ vs']) (auto simp: Builder_Apply_def vs1_def apply_edit_def)
qed

subsection \<open>Saving a level\<close>

fun merged :: "('a \<Rightarrow> 'a \<Rightarrow> bool) \<Rightarrow> 'a list \<Rightarrow> 'a list \<Rightarrow> 'a list" where
  "merged lt base [] = base"
| "merged lt base (a # added) = takeWhile (\<lambda>b. \<not> lt a b) base @ a # merged lt (dropWhile (\<lambda>b. \<not> lt a b) base) added"

lemma add_files_append:
  "add_files ucmp h deleted level (xs @ ys) files = Option.bind (add_files ucmp h deleted level xs files) (add_files ucmp h deleted level ys)"
proof (induction xs arbitrary: files)
  case (Cons x xs)
  then show ?case by (cases "MaybeAddFile ucmp h deleted level x files") simp_all
qed simp

lemma merge_files_eq:
  "merge_files ucmp h deleted level base added files = add_files ucmp h deleted level (merged (BySmallestKey ucmp h) base added) files"
proof (induction added arbitrary: base files)
  case (Cons a added)
  show ?case
  proof (cases "add_files ucmp h deleted level (takeWhile (\<lambda>b. \<not> BySmallestKey ucmp h a b) base) files")
    case (Some files')
    with Cons show ?thesis by (cases "MaybeAddFile ucmp h deleted level a files'") (simp_all add: add_files_append)
  qed (simp add: add_files_append)
qed simp

lemma add_files_ok:
  assumes "level = 0 \<or> sorted_wrt (before_file h) (files @ filter (\<lambda>f. fm_number (h f) \<notin> set deleted) fs)"
  shows "add_files slice_compare h deleted level fs files = Some (files @ filter (\<lambda>f. fm_number (h f) \<notin> set deleted) fs)"
  using assms
proof (induction fs arbitrary: files)
  case (Cons f fs)
  show ?case
  proof (cases "fm_number (h f) \<in> set deleted")
    case False
    have "\<not> (level > 0 \<and> files \<noteq> [] \<and> \<not> icmp (fm_largest (h (last files))) (fm_smallest (h f)) < 0)"
      using Cons.prems False by (auto simp: sorted_wrt_append before_file_def) (metis last_in_set)
    with False have "MaybeAddFile slice_compare h deleted level f files = Some (files @ [f])" by (auto simp: MaybeAddFile_def)
    with Cons.IH [of "files @ [f]"] Cons.prems False show ?thesis by simp
  qed (use Cons in \<open>simp add: MaybeAddFile_def\<close>)
qed simp

lemma mset_merged: "mset (merged lt base added) = mset base + mset added"
proof (induction added arbitrary: base)
  case (Cons a added)
  have "mset base = mset (takeWhile (\<lambda>b. \<not> lt a b) base) + mset (dropWhile (\<lambda>b. \<not> lt a b) base)"
    by (metis mset_append takeWhile_dropWhile_id)
  with Cons show ?case by simp
qed simp

lemma set_merged: "set (merged lt base added) = set base \<union> set added"
  using arg_cong [OF mset_merged [of lt base added], of set_mset] by simp

lemma merged_sorted:
  assumes "sorted_wrt (\<lambda>f g. \<not> lt g f) base" "sorted_wrt (\<lambda>f g. \<not> lt g f) added"
    "\<And>x y z. x \<in> set base \<union> set added \<Longrightarrow> y \<in> set base \<union> set added \<Longrightarrow> z \<in> set base \<union> set added \<Longrightarrow> \<not> lt y x \<Longrightarrow> \<not> lt z y \<Longrightarrow> \<not> lt z x"
    "\<And>x y. x \<in> set base \<union> set added \<Longrightarrow> y \<in> set base \<union> set added \<Longrightarrow> lt x y \<Longrightarrow> \<not> lt y x"
  shows "sorted_wrt (\<lambda>f g. \<not> lt g f) (merged lt base added)"
  using assms
proof (induction added arbitrary: base)
  case (Cons a added)
  let ?pre = "takeWhile (\<lambda>b. \<not> lt a b) base" and ?post = "dropWhile (\<lambda>b. \<not> lt a b) base"
  have base: "base = ?pre @ ?post" by simp
  have sub: "set ?pre \<subseteq> set base" "set ?post \<subseteq> set base" by (auto dest: set_takeWhileD set_dropWhileD)
  have sorted: "sorted_wrt (\<lambda>f g. \<not> lt g f) ?pre" "sorted_wrt (\<lambda>f g. \<not> lt g f) ?post" "\<forall>x \<in> set ?pre. \<forall>y \<in> set ?post. \<not> lt y x"
    using Cons.prems(1) base by (metis sorted_wrt_append)+
  have pre: "\<not> lt a x" if "x \<in> set ?pre" for x using that by (auto dest: set_takeWhileD)
  have post: "\<not> lt x a" if "x \<in> set ?post" for x
  proof -
    from that obtain r rs where r: "?post = r # rs" by (cases ?post) auto
    then have "lt a r" by (metis hd_dropWhile list.sel(1) list.distinct(1))
    moreover have "r \<in> set base" using r sub(2) by auto
    ultimately have "\<not> lt r a" using Cons.prems(4) by simp
    moreover have "\<not> lt x r \<or> x = r" using sorted(2) that r by auto
    ultimately show ?thesis using Cons.prems(3) [of a r x] \<open>r \<in> set base\<close> that sub(2) by auto
  qed
  have in_all: "z \<in> set base \<union> set (a # added)" if "z \<in> set ?post \<union> set added" for z using that sub(2) by auto
  have IH: "sorted_wrt (\<lambda>f g. \<not> lt g f) (merged lt ?post added)"
  proof (rule Cons.IH)
    show "\<not> lt z x" if "x \<in> set ?post \<union> set added" "y \<in> set ?post \<union> set added" "z \<in> set ?post \<union> set added" "\<not> lt y x" "\<not> lt z y" for x y z
      using Cons.prems(3) [OF in_all [OF that(1)] in_all [OF that(2)] in_all [OF that(3)] that(4,5)] .
    show "\<not> lt y x" if "x \<in> set ?post \<union> set added" "y \<in> set ?post \<union> set added" "lt x y" for x y
      using Cons.prems(4) [OF in_all [OF that(1)] in_all [OF that(2)] that(3)] .
  qed (use sorted(2) Cons.prems(2) in auto)
  have "\<not> lt x a" if "x \<in> set ?post \<union> set added" for x using that post Cons.prems(2) by auto
  moreover have "\<not> lt y x" if "x \<in> set ?pre" "y \<in> set ?post \<union> set added" for x y
  proof (cases "y \<in> set ?post")
    case False
    with that have "y \<in> set added" by blast
    moreover from this have "\<not> lt y a" using Cons.prems(2) by simp
    moreover have "x \<in> set base" using that(1) sub(1) by blast
    ultimately show ?thesis using pre [OF that(1)] Cons.prems(3) [of x a y] by simp
  qed (use that(1) sorted(3) in blast)
  ultimately show ?case using IH sorted(1) pre unfolding merged.simps sorted_wrt_append sorted_wrt.simps set_simps set_merged by blast
next
  case Nil
  from Nil.prems(1) show ?case by (simp only: merged.simps)
qed

lemma no_overlap_sorted: "sorted_wrt (before_file h) fs \<Longrightarrow> no_overlap slice_compare h fs"
  by (induction slice_compare h fs rule: no_overlap.induct) (auto simp: before_file_def)

definition disjoint_descs :: "fdesc set \<Rightarrow> bool" where
  "disjoint_descs S \<longleftrightarrow> (\<forall>d \<in> S. \<forall>e \<in> S. d \<noteq> e \<longrightarrow> desc_before d e \<or> desc_before e d)"

lemma sorted_wrt_pair:
  assumes "sorted_wrt P xs" "x \<in> set xs" "y \<in> set xs" "x \<noteq> y"
  shows "P x y \<or> P y x"
  using assms by (auto simp: in_set_conv_nth sorted_wrt_iff_nth_less) (metis linorder_neqE_nat)

lemma sorted_wrt_distinct:
  assumes "sorted_wrt P xs" "distinct xs" "\<And>x y. x \<in> set xs \<Longrightarrow> y \<in> set xs \<Longrightarrow> x \<noteq> y \<Longrightarrow> P x y \<Longrightarrow> Q x y"
  shows "sorted_wrt Q xs"
  using assms by (auto simp: sorted_wrt_iff_nth_less distinct_conv_nth)

lemma file_less_irrefl: "\<not> desc_less d d"
  by (auto simp: desc_less_def Let_def icmp_less)

lemma sorted_distinct: "sorted_wrt (file_less h) fs \<Longrightarrow> distinct fs"
  by (auto simp: sorted_wrt_iff_nth_less distinct_conv_nth file_less_irrefl) (metis file_less_irrefl linorder_neqE_nat)

text \<open>The files at a level of a version: in the order of the builder, and disjoint above level 0.\<close>

definition level_files_ok :: "file_mem \<Rightarrow> nat \<Rightarrow> fptr list \<Rightarrow> bool" where
  "level_files_ok h level files \<longleftrightarrow> sorted_wrt (file_less h) files \<and> (0 < level \<longrightarrow> sorted_wrt (before_file h) files)"

lemma save_level_ok:
  assumes "level_state_ok meta h n files ls" "sorted_wrt (file_less h) files"
    "\<forall>f \<in> set files. \<forall>g \<in> set (ls_added_files ls). fm_number (h f) = fm_number (h g) \<longrightarrow> fm_number (h f) \<in> set (ls_deleted_files ls)"
  defines "P \<equiv> \<lambda>f. fm_number (h f) \<notin> set (ls_deleted_files ls)"
  defines "S \<equiv> file_desc h ` {f \<in> set files \<union> set (ls_added_files ls). P f}"
  assumes "0 < level \<Longrightarrow> disjoint_descs S"
  shows "\<exists>R. save_level slice_compare h ls level files [] = Some R \<and> level_files_ok h level R \<and> file_desc h ` set R = S \<and>
    set R \<subseteq> set files \<union> set (ls_added_files ls)"
proof -
  let ?added = "ls_added_files ls" and ?lt = "BySmallestKey slice_compare h"
  define R where "R = filter P (merged ?lt files ?added)"
  have good: "desc_ok (file_desc h f)" if "f \<in> set files \<union> set ?added" for f
    using assms(1) that file_goodD(2) unfolding level_state_ok_def by blast
  have setR: "set R = {f \<in> set files \<union> set ?added. P f}" by (auto simp: R_def set_merged)
  have dist: "distinct files" "distinct ?added" using assms(1,2) sorted_distinct by (auto simp: level_state_ok_def)
  have "distinct R"
  proof -
    have "mset R = mset (filter P files @ filter P ?added)" by (simp add: R_def mset_filter mset_merged)
    moreover have "distinct (filter P files @ filter P ?added)" using dist assms(3) by (auto simp: P_def)
    ultimately show ?thesis by (metis mset_eq_imp_distinct_iff)
  qed
  moreover have comparable: "file_less h x y \<or> file_less h y x" if "x \<in> set R" "y \<in> set R" "x \<noteq> y" for x y
  proof (rule ccontr)
    assume c: "\<not> ?thesis"
    have xy: "x \<in> set files \<union> set ?added" "y \<in> set files \<union> set ?added" "P x" "P y" using that(1,2) setR by auto
    from desc_less_total(1) [OF good [OF xy(1)] good [OF xy(2)]] c have n: "fm_number (h x) = fm_number (h y)" by simp
    consider "x \<in> set files" "y \<in> set files" | "x \<in> set ?added" "y \<in> set ?added" | "x \<in> set files" "y \<in> set ?added" | "x \<in> set ?added" "y \<in> set files"
      using xy by blast
    then show False
    proof cases
      case 1
      then show False using sorted_wrt_pair [OF assms(2) _ _ that(3)] c by blast
    next
      case 2
      then show False using sorted_wrt_pair [of "file_less h" ?added, OF _ _ _ that(3)] assms(1) c by (simp add: level_state_ok_def)
    next
      case 3
      then show False using assms(3) n xy(3) by (simp add: P_def)
    next
      case 4
      then show False using assms(3) n xy(4) by (metis P_def)
    qed
  qed
  have le: "sorted_wrt (\<lambda>f g. \<not> ?lt g f) (merged ?lt files ?added)"
  proof (rule merged_sorted)
    have weak: "sorted_wrt (\<lambda>f g. \<not> ?lt g f) fs" if "sorted_wrt (file_less h) fs" "set fs \<subseteq> set files \<union> set ?added" for fs
      using that good desc_less_asym unfolding sorted_wrt_iff_nth_less BySmallestKey_desc by (meson less_trans nth_mem subsetD)
    show "sorted_wrt (\<lambda>f g. \<not> ?lt g f) files" "sorted_wrt (\<lambda>f g. \<not> ?lt g f) ?added"
      using weak assms(1,2) by (auto simp: level_state_ok_def)
    show "\<not> ?lt z x" if "x \<in> set files \<union> set ?added" "y \<in> set files \<union> set ?added" "z \<in> set files \<union> set ?added" "\<not> ?lt y x" "\<not> ?lt z y" for x y z
      using desc_le_trans [OF good [OF that(1)] good [OF that(2)] good [OF that(3)]] that(4,5) by (simp add: BySmallestKey_desc)
    show "\<not> ?lt y x" if "x \<in> set files \<union> set ?added" "y \<in> set files \<union> set ?added" "?lt x y" for x y
      using desc_less_asym [OF good [OF that(1)] good [OF that(2)]] that(3) by (simp add: BySmallestKey_desc)
  qed
  then have "sorted_wrt (\<lambda>f g. \<not> ?lt g f) R" unfolding R_def by (rule sorted_wrt_filter)
  then have less: "sorted_wrt (file_less h) R"
    by (rule sorted_wrt_distinct) (use \<open>distinct R\<close> comparable in \<open>auto simp: BySmallestKey_desc\<close>)
  have before: "sorted_wrt (before_file h) R" if level: "0 < level"
  proof (rule sorted_wrt_distinct [OF less \<open>distinct R\<close>])
    fix x y assume xy: "x \<in> set R" "y \<in> set R" "x \<noteq> y" "file_less h x y"
    have "file_desc h x \<noteq> file_desc h y" using xy(4) file_less_irrefl by metis
    moreover have "file_desc h x \<in> S" "file_desc h y \<in> S" using xy(1,2) setR by (auto simp: S_def)
    ultimately have "desc_before (file_desc h x) (file_desc h y) \<or> desc_before (file_desc h y) (file_desc h x)"
      using assms(6) [OF level] by (simp add: disjoint_descs_def)
    moreover have ok: "desc_ok (file_desc h x)" "desc_ok (file_desc h y)" using xy(1,2) setR good by auto
    ultimately show "before_file h x y"
      using desc_before_less [OF ok(2,1)] desc_less_asym [OF ok xy(4)] by (auto simp: desc_before_def before_file_def)
  qed
  have "merge_files slice_compare h (ls_deleted_files ls) level files ?added [] = Some R"
    unfolding merge_files_eq using add_files_ok [of level h "[]" "ls_deleted_files ls" "merged ?lt files ?added"] before
    by (auto simp: R_def P_def)
  then have "save_level slice_compare h ls level files [] = Some R" using no_overlap_sorted [OF before] by (auto simp: save_level_def)
  then show ?thesis using less before setR by (auto simp: level_files_ok_def S_def)
qed

subsection \<open>Saving a version\<close>

lemma those_map: "\<forall>x \<in> set xs. f x = Some (g x) \<Longrightarrow> those (map f xs) = Some (map g xs)"
  by (induction xs) auto

lemma fold_add_file_ref:
  "fm_refs (fold add_file_ref fs h f) = fm_refs (h f) + int (count (mset fs) f)" "file_desc (fold add_file_ref fs h) = file_desc h"
proof (induction fs arbitrary: h)
  case (Cons g fs)
  case 1
  show ?case using Cons.IH(1) [of "add_file_ref g h"] by (simp add: add_file_ref_def)
  case 2
  show ?case using Cons.IH(2) [of "add_file_ref g h"] by (auto simp: add_file_ref_def file_desc_def fun_eq_iff)
qed simp_all

lemma save_heap_ok:
  assumes "heap_ok vs owned" "vs_versions vs p = Some v" "concat (v_files v) = []" "set (concat R) \<subseteq> vs_live vs"
  shows "heap_ok (vs\<lparr>vs_mem := fold add_file_ref (concat R) (vs_mem vs), vs_versions := (vs_versions vs)(p \<mapsto> v\<lparr>v_files := R\<rparr>)\<rparr>) owned"
proof -
  note D = heap_okD [OF assms(1)]
  let ?X = "(vs_versions vs)(p \<mapsto> v\<lparr>v_files := R\<rparr>)"
  have uses: "file_uses ?X = file_uses (vs_versions vs) + mset (concat R)"
    using file_uses_update [OF D(1), of p "Some (v\<lparr>v_files := R\<rparr>)"] assms(2,3) by (simp add: version_files_def)
  show ?thesis
  proof (rule heap_okI)
    fix f
    show "f \<in># file_uses (vs_versions (vs\<lparr>vs_mem := fold add_file_ref (concat R) (vs_mem vs), vs_versions := ?X\<rparr>)) + owned \<longleftrightarrow>
        f \<in> vs_live (vs\<lparr>vs_mem := fold add_file_ref (concat R) (vs_mem vs), vs_versions := ?X\<rparr>)"
      using D(4) [of f] assms(4) uses by auto
  qed (use D assms(2) uses fold_add_file_ref(1) [of "concat R" "vs_mem vs"] in auto)
qed

text \<open>The files that a version has at its levels.\<close>

definition level_descs :: "file_mem \<Rightarrow> fptr list list \<Rightarrow> nat \<Rightarrow> fdesc set" where
  "level_descs h levels level = file_desc h ` set (levels ! level)"

definition levels_ok :: "(64 word \<Rightarrow> fdesc) \<Rightarrow> file_mem \<Rightarrow> nat \<Rightarrow> fptr list list \<Rightarrow> bool" where
  "levels_ok meta h fresh levels \<longleftrightarrow> length levels = 7 \<and>
     (\<forall>level < 7. level_files_ok h level (levels ! level) \<and> (\<forall>f \<in> set (levels ! level). file_good meta h fresh f))"

lemma SaveTo_ok:
  assumes "builder_ok meta (vs_mem vs) (vs_fresh vs) base b" "heap_ok vs (mset (concat (map ls_added_files (b_levels b))) + owned)"
    "vs_versions vs (b_base b) = Some bv" "v_files bv = base" "levels_ok meta (vs_mem vs) (vs_fresh vs) base"
    "vs_versions vs p = Some v" "v_files v = replicate 7 []"
    "\<forall>level < 7. \<forall>f \<in> set (base ! level). \<forall>g \<in> set (ls_added_files (b_levels b ! level)).
       fm_number (vs_mem vs f) = fm_number (vs_mem vs g) \<longrightarrow> fm_number (vs_mem vs f) \<in> set (ls_deleted_files (b_levels b ! level))"
    "\<forall>level. 0 < level \<and> level < 7 \<longrightarrow> disjoint_descs (build_set (vs_mem vs) base b level)"
  shows "\<exists>R h. SaveTo slice_compare b p vs = Some (vs\<lparr>vs_mem := h, vs_versions := (vs_versions vs)(p \<mapsto> v\<lparr>v_files := R\<rparr>)\<rparr>) \<and>
    file_desc h = file_desc (vs_mem vs) \<and>
    heap_ok (vs\<lparr>vs_mem := h, vs_versions := (vs_versions vs)(p \<mapsto> v\<lparr>v_files := R\<rparr>)\<rparr>) (mset (concat (map ls_added_files (b_levels b))) + owned) \<and>
    levels_ok meta h (vs_fresh vs) R \<and> (\<forall>level < 7. level_descs h R level = build_set (vs_mem vs) base b level)"
proof -
  let ?h = "vs_mem vs"
  have len: "length (b_levels b) = 7" "length base = 7" using assms(1) by (auto simp: builder_ok_def)
  have state: "level_state_ok meta ?h (vs_fresh vs) (base ! i) (b_levels b ! i)" if "i < 7" for i using assms(1) that by (simp add: builder_ok_def)
  have "\<exists>R. save_level slice_compare ?h (b_levels b ! i) i (base ! i) [] = Some R \<and> level_files_ok ?h i R \<and> file_desc ?h ` set R = build_set ?h base b i \<and>
      set R \<subseteq> set (base ! i) \<union> set (ls_added_files (b_levels b ! i))" if i: "i < 7" for i
    unfolding build_set_def
    by (rule save_level_ok [OF state [OF i]]) (use assms(5,8,9) i in \<open>auto simp: levels_ok_def level_files_ok_def build_set_def\<close>)
  then obtain R where R: "\<And>i. i < 7 \<Longrightarrow> save_level slice_compare ?h (b_levels b ! i) i (base ! i) [] = Some (R i)"
    "\<And>i. i < 7 \<Longrightarrow> level_files_ok ?h i (R i)" "\<And>i. i < 7 \<Longrightarrow> file_desc ?h ` set (R i) = build_set ?h base b i"
    "\<And>i. i < 7 \<Longrightarrow> set (R i) \<subseteq> set (base ! i) \<union> set (ls_added_files (b_levels b ! i))" by metis
  have k: "nat kNumLevels = 7" by (simp add: kNumLevels_def)
  define Rs where "Rs = map R [0..<7]"
  define h where "h = fold add_file_ref (concat Rs) ?h"
  have desc: "file_desc h = file_desc ?h" by (simp add: h_def fold_add_file_ref(2))
  have "those (map (\<lambda>level. save_level slice_compare ?h (b_levels b ! level) level (v_files bv ! level) (v_files v ! level)) [0..<nat kNumLevels]) = Some Rs"
    unfolding Rs_def k by (rule those_map) (use R(1) assms(4,7) in auto)
  then have run: "SaveTo slice_compare b p vs = Some (vs\<lparr>vs_mem := h, vs_versions := (vs_versions vs)(p \<mapsto> v\<lparr>v_files := Rs\<rparr>)\<rparr>)"
    using assms(3,6) by (simp add: SaveTo_def h_def)
  have live: "set (concat Rs) \<subseteq> vs_live vs"
  proof
    fix f assume "f \<in> set (concat Rs)"
    then obtain i where i: "i < 7" "f \<in> set (R i)" by (auto simp: Rs_def)
    from R(4) [OF i(1)] i(2) consider "f \<in> set (base ! i)" | "f \<in> set (ls_added_files (b_levels b ! i))" by blast
    then show "f \<in> vs_live vs"
    proof cases
      case 1
      then have "f \<in> set (concat (v_files bv))" using assms(4) i(1) len by auto
      then have "f \<in># version_files (vs_versions vs) (b_base b)" using assms(3) by (simp add: version_files_def)
      then have "f \<in># file_uses (vs_versions vs)"
        using heap_okD(1) [OF assms(2)] assms(3) unfolding file_uses_def by (auto simp: set_mset_sum intro!: bexI [of _ "b_base b"])
      then show ?thesis using heap_okD(4) [OF assms(2), of f] by simp
    next
      case 2
      then have "f \<in># mset (concat (map ls_added_files (b_levels b)))" using i(1) len by auto
      then show ?thesis using heap_okD(4) [OF assms(2), of f] by simp
    qed
  qed
  have heap: "heap_ok (vs\<lparr>vs_mem := h, vs_versions := (vs_versions vs)(p \<mapsto> v\<lparr>v_files := Rs\<rparr>)\<rparr>) (mset (concat (map ls_added_files (b_levels b))) + owned)"
    unfolding h_def by (rule save_heap_ok [OF assms(2,6) _ live]) (simp add: assms(7))
  have good: "file_good meta h (vs_fresh vs) f" if "f \<in> set (R i)" "i < 7" for f i
    using state [OF that(2)] R(4) [OF that(2)] that(1) fun_cong [OF desc, of f] unfolding level_state_ok_def file_good_def by (auto simp: file_desc_def)
  have "before_file h f g = before_file ?h f g" for f g
    using fun_cong [OF desc, of f] fun_cong [OF desc, of g] by (simp add: before_file_def file_desc_def)
  then have before: "before_file h = before_file ?h" by blast
  have "level_files_ok h i (R i)" if "i < 7" for i using R(2) [OF that] by (simp add: level_files_ok_def desc before)
  then have "levels_ok meta h (vs_fresh vs) Rs" using good by (simp add: levels_ok_def Rs_def)
  moreover have "\<forall>level < 7. level_descs h Rs level = build_set ?h base b level" using R(3) by (simp add: level_descs_def Rs_def desc)
  ultimately show ?thesis using run desc heap by blast
qed

subsection \<open>The new version\<close>

text \<open>The numbers of the added files are those of the edit.\<close>

definition added_from :: "(nat \<Rightarrow> 64 word set) \<Rightarrow> Builder \<times> 'd VersionSet \<Rightarrow> bool" where
  "added_from N st \<longleftrightarrow> (case st of (b, vs) \<Rightarrow> length (b_levels b) = 7 \<and>
     (\<forall>level < 7. \<forall>g \<in> set (ls_added_files (b_levels b ! level)). g < vs_fresh vs \<and> fm_number (vs_mem vs g) \<in> N level))"

lemma apply_additions_from:
  assumes "apply_additions ucmp fs st = Some st'" "added_from N st" "\<forall>(l, m) \<in> set fs. level_ok l \<longrightarrow> fm_number m \<in> N (nat l)"
  shows "added_from N st'"
  using assms
proof (induction fs arbitrary: st)
  case (Cons x fs)
  obtain l m b vs where x: "x = (l, m)" "st = (b, vs)" by (cases x; cases st)
  from Cons.prems(1) x obtain st1 where 1: "apply_addition ucmp l m (b, vs) = Some st1" "apply_additions ucmp fs st1 = Some st'"
    by (auto simp: bind_eq_Some_conv)
  from 1(1) have l: "level_ok l" by (auto simp: apply_addition_def split: if_splits)
  let ?h = "(vs_mem vs)(vs_fresh vs := m\<lparr>fm_refs := 1, fm_allowed_seeks := allowed_seeks_for (fm_file_size m)\<rparr>)"
  have "added_from N st1"
    using Cons.prems(2,3) 1(1) l level_ok_nat [OF l] std_set_insert_set(1) [of "BySmallestKey ucmp ?h" "vs_fresh vs" "ls_added_files (b_levels b ! nat l)"] x
    by (fastforce simp: added_from_def apply_addition_def Let_def nth_list_update split: if_splits)
  with Cons.IH [OF 1(2)] Cons.prems(3) show ?case by simp
qed simp

lemma apply_deletions_added:
  "apply_deletions ds b = Some b' \<Longrightarrow> length (b_levels b) = 7 \<Longrightarrow> map ls_added_files (b_levels b') = map ls_added_files (b_levels b)"
proof (induction ds arbitrary: b)
  case (Cons d ds)
  obtain l n where d: "d = (l, n)" by (cases d)
  with Cons.prems(1) have l: "level_ok l" by (auto split: if_splits)
  with Cons d level_ok_nat [OF l] show ?case by (simp add: Let_def map_update list_update_same_conv)
qed simp

lemma apply_pointers_mem: "apply_pointers ps vs = Some vs' \<Longrightarrow> vs_fresh vs' = vs_fresh vs \<and> vs_mem vs' = vs_mem vs"
  by (induction ps vs rule: apply_pointers.induct) (auto simp: bind_eq_Some_conv split: if_splits)

lemma Builder_Apply_from:
  assumes "Builder_Apply ucmp edit (b, vs) = Some st'" "added_from N (b, vs)" "\<forall>(l, m) \<in> set (ve_new_files edit). level_ok l \<longrightarrow> fm_number m \<in> N (nat l)"
  shows "added_from N st'"
proof -
  from assms(1) obtain vs1 b1 where 1: "apply_pointers (ve_compact_pointers edit) vs = Some vs1" "apply_deletions (ve_deleted_files edit) b = Some b1"
    "apply_additions ucmp (ve_new_files edit) (b1, vs1) = Some st'" by (auto simp: Builder_Apply_def bind_eq_Some_conv)
  note same = apply_pointers_mem [OF 1(1)]
  have added: "map ls_added_files (b_levels b1) = map ls_added_files (b_levels b)" using apply_deletions_added [OF 1(2)] assms(2) by (simp add: added_from_def)
  then have len: "length (b_levels b1) = length (b_levels b)" by (rule map_eq_imp_length_eq)
  have nth: "ls_added_files (b_levels b1 ! i) = ls_added_files (b_levels b ! i)" if "i < length (b_levels b)" for i
    using arg_cong [OF added, of "\<lambda>xs. xs ! i"] that len by simp
  have "added_from N (b1, vs1)" using assms(2) same nth len by (simp add: added_from_def)
  from apply_additions_from [OF 1(3) this assms(3)] show ?thesis .
qed

lemma file_good_mono: "file_good meta h n f \<Longrightarrow> n \<le> n' \<Longrightarrow> file_desc h' f = file_desc h f \<Longrightarrow> file_good meta h' n' f"
  unfolding file_good_def by (metis fst_conv file_desc_def less_le_trans)

lemma sorted_wrt_cong': "sorted_wrt P xs \<Longrightarrow> (\<And>x y. x \<in> set xs \<Longrightarrow> y \<in> set xs \<Longrightarrow> P x y \<Longrightarrow> Q x y) \<Longrightarrow> sorted_wrt Q xs"
  by (metis sorted_wrt_mono_rel)

lemma levels_ok_grown:
  assumes "levels_ok meta h n levels" "n \<le> n'" "\<And>f. f < n \<Longrightarrow> file_desc h' f = file_desc h f"
  shows "levels_ok meta h' n' levels" "level < 7 \<Longrightarrow> level_descs h' levels level = level_descs h levels level"
proof -
  have same: "file_desc h' f = file_desc h f" if "level < 7" "f \<in> set (levels ! level)" for f level
    using assms(1,3) that file_goodD(1) unfolding levels_ok_def by blast
  have "level_files_ok h' level (levels ! level)" if level: "level < 7" for level
  proof -
    have "before_file h' f g" if "f \<in> set (levels ! level)" "g \<in> set (levels ! level)" "before_file h f g" for f g
      using same [OF level that(1)] same [OF level that(2)] that(3) by (simp add: before_file_def file_desc_def)
    then show ?thesis
      using assms(1) level same [OF level] unfolding levels_ok_def level_files_ok_def
      by (metis (no_types, lifting) sorted_wrt_cong')
  qed
  then show "levels_ok meta h' n' levels"
    using assms(1) file_good_mono [OF _ assms(2) same] unfolding levels_ok_def by blast
  show "level_descs h' levels level = level_descs h levels level" if "level < 7"
    using same [OF that] by (auto simp: level_descs_def)
qed

lemma new_Version_ok:
  fixes D :: "'d double_ops"
  assumes "vset_ok vs held owned" "vs_current vs = Some cur"
  defines "vs1 \<equiv> snd (new_Version D vs)"
  shows "heap_ok vs1 owned" "version_refs_ok vs1 (add_mset cur held)" "dom (vs_versions vs1) = insert (vs_fresh vs) (set_mset (add_mset cur held))"
    "vs_fresh vs \<notin> set (vs_list vs)" "vs_fresh vs \<noteq> cur" "vs_fresh vs \<notin># held"
proof -
  have v: "heap_ok vs owned" "version_refs_ok vs (add_mset cur held)" "dom (vs_versions vs) = set_mset (add_mset cur held)" "set (vs_list vs) = dom (vs_versions vs)"
    using assms(1,2) by (auto simp: vset_ok_def)
  note D = heap_okD [OF v(1)]
  have new: "vs_fresh vs \<notin> dom (vs_versions vs)" using D(2) by blast
  then show "vs_fresh vs \<notin> set (vs_list vs)" "vs_fresh vs \<noteq> cur" "vs_fresh vs \<notin># held" using v(3,4) by auto
  then have zero: "count (add_mset cur held) (vs_fresh vs) = 0" by (simp add: not_in_iff)
  have "version_files (vs_versions vs) (vs_fresh vs) = {#}" using new by (auto simp: version_files_def domIff)
  moreover have "version_files ((vs_versions vs)(vs_fresh vs \<mapsto> make_Version D)) (vs_fresh vs) = {#}" by (simp add: version_files_def make_Version_def)
  ultimately have uses: "file_uses ((vs_versions vs)(vs_fresh vs \<mapsto> make_Version D)) = file_uses (vs_versions vs)"
    using file_uses_update [OF D(1), of "vs_fresh vs" "Some (make_Version D)"] by simp
  show "heap_ok vs1 owned"
    by (rule heap_okI) (use D uses in \<open>auto simp: vs1_def new_Version_def intro: less_SucI\<close>)
  show "version_refs_ok vs1 (add_mset cur held)"
    using v(2,3) zero by (auto simp: version_refs_ok_def vs1_def new_Version_def make_Version_def)
  show "dom (vs_versions vs1) = insert (vs_fresh vs) (set_mset (add_mset cur held))" using v(3) by (auto simp: vs1_def new_Version_def)
qed

lemma Finalize_ok:
  assumes "heap_ok vs owned" "version_refs_ok vs held" "vs_versions vs p = Some v"
  shows "\<exists>v'. Finalize D p vs = Some (vs\<lparr>vs_versions := (vs_versions vs)(p \<mapsto> v')\<rparr>) \<and> v_files v' = v_files v \<and>
    heap_ok (vs\<lparr>vs_versions := (vs_versions vs)(p \<mapsto> v')\<rparr>) owned \<and> version_refs_ok (vs\<lparr>vs_versions := (vs_versions vs)(p \<mapsto> v')\<rparr>) held"
proof -
  obtain l s where best: "best_compaction D (vs_mem vs) (v_files v) = (l, s)" by fastforce
  let ?v = "v\<lparr>v_compaction_level := l, v_compaction_score := s\<rparr>"
  have "version_refs_ok (vs\<lparr>vs_versions := (vs_versions vs)(p \<mapsto> ?v)\<rparr>) held" using assms(2,3) by (auto simp: version_refs_ok_def)
  then show ?thesis using best heap_ok_version [OF assms(1,3), of ?v] assms(3) by (intro exI [of _ ?v]) (simp add: Finalize_def)
qed

lemma destroy_Builder_ok:
  assumes "heap_ok vs (mset (concat (map ls_added_files (b_levels b))) + owned)" "version_refs_ok vs (add_mset (b_base b) held)"
  shows "\<exists>vs'. destroy_Builder b vs = Some vs' \<and> heap_ok vs' owned \<and> version_refs_ok vs' held \<and> frame vs vs' \<and> vs_current vs' = vs_current vs \<and>
    (if b_base b \<in># held then vs_list vs' = vs_list vs \<and> dom (vs_versions vs') = dom (vs_versions vs)
     else vs_list vs' = removeAll (b_base b) (vs_list vs) \<and> dom (vs_versions vs') = dom (vs_versions vs) - {b_base b}) \<and>
    (\<forall>q v. vs_versions vs' q = Some v \<longrightarrow> (\<exists>v0. vs_versions vs q = Some v0 \<and> v_files v = v_files v0))"
proof -
  from drop_file_refs_ok [OF assms(1)] obtain vs1 where
    1: "drop_file_refs (concat (map ls_added_files (b_levels b))) vs = Some vs1" "heap_ok vs1 owned" "same_but_counts vs vs1" by blast
  note same = same_but_countsD [OF 1(3)]
  have "version_refs_ok vs1 (add_mset (b_base b) held)" using assms(2) same by (simp add: version_refs_ok_def)
  from Version_Unref_ok [OF 1(2) this] obtain vs' where
    2: "Version_Unref (b_base b) vs1 = Some vs'" "heap_ok vs' owned" "version_refs_ok vs' held" "frame vs1 vs'" "vs_current vs' = vs_current vs1"
    "if b_base b \<in># held then vs_list vs' = vs_list vs1 \<and> dom (vs_versions vs') = dom (vs_versions vs1)
     else vs_list vs' = removeAll (b_base b) (vs_list vs1) \<and> dom (vs_versions vs') = dom (vs_versions vs1) - {b_base b}"
    "\<forall>q v. vs_versions vs' q = Some v \<longrightarrow> (\<exists>v0. vs_versions vs1 q = Some v0 \<and> v_files v = v_files v0)" by blast
  have run: "destroy_Builder b vs = Some vs'" using 1(1) 2(1) by (simp add: destroy_Builder_def)
  have "frame vs vs'" using frame_trans [OF same_but_counts_frame [OF 1(3)] 2(4)] .
  with run 2(2,3,5,6,7) show ?thesis unfolding conjunct1 [OF same] conjunct1 [OF conjunct2 [OF conjunct2 [OF same]]]
    conjunct1 [OF conjunct2 [OF conjunct2 [OF conjunct2 [OF same]]]] by blast
qed

lemma make_Builder_ok:
  assumes "heap_ok vs owned" "version_refs_ok vs held" "vs_versions vs cur = Some v" "levels_ok meta (vs_mem vs) (vs_fresh vs) (v_files v)"
  defines "vs' \<equiv> vs\<lparr>vs_versions := (vs_versions vs)(cur \<mapsto> v\<lparr>v_refs := v_refs v + 1\<rparr>)\<rparr>"
  shows "\<exists>b. make_Builder cur vs = Some (b, vs') \<and> building meta vs' owned (v_files v) cur (b, vs') \<and> added_from N (b, vs') \<and>
    (\<forall>level < 7. build_set (vs_mem vs') (v_files v) b level = level_descs (vs_mem vs) (v_files v) level)"
    "heap_ok vs' owned" "version_refs_ok vs' (add_mset cur held)"
proof -
  note R = Version_Ref_ok [OF assms(1-3), folded vs'_def]
  show "heap_ok vs' owned" "version_refs_ok vs' (add_mset cur held)" by (rule R(2), rule R(3))
  have mem: "vs_mem vs' = vs_mem vs" "vs_fresh vs' = vs_fresh vs" by (simp_all add: vs'_def)
  define b where "b = \<lparr>b_base = cur, b_levels = replicate 7 \<lparr>ls_deleted_files = [], ls_added_files = []\<rparr>\<rparr>"
  have run: "make_Builder cur vs = Some (b, vs')" using R(1) by (simp add: make_Builder_def b_def kNumLevels_def)
  have "mset (concat (map ls_added_files (b_levels b))) + ({#} + owned) = owned" by (simp add: b_def)
  then have "heap_ok vs' (mset (concat (map ls_added_files (b_levels b))) + ({#} + owned))" using R(2) by (simp only:)
  moreover have "builder_ok meta (vs_mem vs') (vs_fresh vs') (v_files v) b"
    using assms(4) mem by (auto simp: builder_ok_def level_state_ok_def levels_ok_def b_def)
  ultimately have "building meta vs' owned (v_files v) cur (b, vs')" unfolding building_def by (auto simp: b_def intro: exI [of _ "{#}"])
  moreover have "added_from N (b, vs')" by (simp add: added_from_def b_def)
  moreover have "\<forall>level < 7. build_set (vs_mem vs') (v_files v) b level = level_descs (vs_mem vs) (v_files v) level"
    using mem by (simp add: build_set_def level_descs_def b_def)
  ultimately show "\<exists>b. make_Builder cur vs = Some (b, vs') \<and> building meta vs' owned (v_files v) cur (b, vs') \<and> added_from N (b, vs') \<and>
    (\<forall>level < 7. build_set (vs_mem vs') (v_files v) b level = level_descs (vs_mem vs) (v_files v) level)" using run by blast
qed

text \<open>The edits that an operation of the database makes: each number stands for one file, no file is added to a level that has it, and
  the files at the levels above 0 are disjoint afterwards.\<close>

definition edit_fits :: "(64 word \<Rightarrow> fdesc) \<Rightarrow> VersionEdit \<Rightarrow> (nat \<Rightarrow> fdesc set) \<Rightarrow> bool" where
  "edit_fits meta edit S \<longleftrightarrow> edit_files_ok meta edit \<and> (\<forall>(level, m) \<in> set (ve_new_files edit). fm_number m \<notin> d_number ` S (nat level)) \<and>
     (\<forall>level. 0 < level \<and> level < 7 \<longrightarrow> disjoint_descs (apply_edit edit S level))"

text \<open>The new version, finished.\<close>

definition version_built :: "(64 word \<Rightarrow> fdesc) \<Rightarrow> (nat \<Rightarrow> fdesc set) \<Rightarrow> nat \<Rightarrow> 'd VersionSet \<Rightarrow> bool" where
  "version_built meta S p vs \<longleftrightarrow> (\<exists>v. vs_versions vs p = Some v \<and> levels_ok meta (vs_mem vs) (vs_fresh vs) (v_files v) \<and>
     (\<forall>level < 7. level_descs (vs_mem vs) (v_files v) level = S level))"

lemma save_and_finish:
  assumes "building meta vs0 owned base cur (b, vs)" "version_refs_ok vs (add_mset cur held)" "cur \<in># held" "vs_versions vs cur = Some bv" "v_files bv = base"
    "levels_ok meta (vs_mem vs) (vs_fresh vs) base" "vs_versions vs p = Some v" "v_files v = replicate 7 []" "p \<noteq> cur"
    "added_from N (b, vs)" "\<forall>level < 7. \<forall>f \<in> set (base ! level). fm_number (vs_mem vs f) \<notin> N level"
    "\<forall>level < 7. build_set (vs_mem vs) base b level = S level" "\<forall>level. 0 < level \<and> level < 7 \<longrightarrow> disjoint_descs (S level)"
  shows "\<exists>vs1 vs2 vs3 leaked. SaveTo slice_compare b p vs = Some vs1 \<and> destroy_Builder b vs1 = Some vs2 \<and> Finalize D p vs2 = Some vs3 \<and>
    heap_ok vs3 (leaked + owned) \<and> version_refs_ok vs3 held \<and> vs_current vs3 = vs_current vs \<and> vs_list vs3 = vs_list vs \<and>
    dom (vs_versions vs3) = dom (vs_versions vs) \<and> frame vs vs3 \<and> version_built meta S p vs3 \<and>
    (\<forall>q w. q \<noteq> p \<and> vs_versions vs3 q = Some w \<longrightarrow> (\<exists>w0. vs_versions vs q = Some w0 \<and> v_files w = v_files w0))"
proof -
  let ?own = "mset (concat (map ls_added_files (b_levels b)))"
  from assms(1) obtain leaked where b: "builder_ok meta (vs_mem vs) (vs_fresh vs) base b" "b_base b = cur" "heap_ok vs (?own + (leaked + owned))"
    by (auto simp: building_def)
  have base: "vs_versions vs (b_base b) = Some bv" using b(2) assms(4) by simp
  have fresh: "\<forall>level < 7. \<forall>f \<in> set (base ! level). \<forall>g \<in> set (ls_added_files (b_levels b ! level)).
      fm_number (vs_mem vs f) = fm_number (vs_mem vs g) \<longrightarrow> fm_number (vs_mem vs f) \<in> set (ls_deleted_files (b_levels b ! level))"
    using assms(10,11) unfolding added_from_def by (metis (no_types, lifting) case_prodD)
  have disj: "\<forall>level. 0 < level \<and> level < 7 \<longrightarrow> disjoint_descs (build_set (vs_mem vs) base b level)" using assms(12,13) by simp
  from SaveTo_ok [OF b(1,3) base assms(5,6,7,8) fresh disj] obtain R h where
    1: "SaveTo slice_compare b p vs = Some (vs\<lparr>vs_mem := h, vs_versions := (vs_versions vs)(p \<mapsto> v\<lparr>v_files := R\<rparr>)\<rparr>)"
    "file_desc h = file_desc (vs_mem vs)"
    "heap_ok (vs\<lparr>vs_mem := h, vs_versions := (vs_versions vs)(p \<mapsto> v\<lparr>v_files := R\<rparr>)\<rparr>) (?own + (leaked + owned))"
    "levels_ok meta h (vs_fresh vs) R" "\<forall>level < 7. level_descs h R level = build_set (vs_mem vs) base b level" by blast
  define vs1 where "vs1 = vs\<lparr>vs_mem := h, vs_versions := (vs_versions vs)(p \<mapsto> v\<lparr>v_files := R\<rparr>)\<rparr>"
  have r1: "version_refs_ok vs1 (add_mset (b_base b) held)" using assms(2,7) b(2) by (auto simp: vs1_def version_refs_ok_def)
  from destroy_Builder_ok [OF 1(3) [folded vs1_def] r1] assms(3) b(2) obtain vs2 where
    2: "destroy_Builder b vs1 = Some vs2" "heap_ok vs2 (leaked + owned)" "version_refs_ok vs2 held" "frame vs1 vs2" "vs_current vs2 = vs_current vs1"
    "vs_list vs2 = vs_list vs1" "dom (vs_versions vs2) = dom (vs_versions vs1)"
    "\<forall>q v. vs_versions vs2 q = Some v \<longrightarrow> (\<exists>v0. vs_versions vs1 q = Some v0 \<and> v_files v = v_files v0)" by auto
  have "p \<in> dom (vs_versions vs2)" using 2(7) by (simp add: vs1_def)
  then obtain v2 where v2: "vs_versions vs2 p = Some v2" by blast
  with 2(8) have R: "v_files v2 = R" by (fastforce simp: vs1_def)
  from Finalize_ok [OF 2(2,3) v2] obtain v3 where
    3: "Finalize D p vs2 = Some (vs2\<lparr>vs_versions := (vs_versions vs2)(p \<mapsto> v3)\<rparr>)" "v_files v3 = v_files v2"
    "heap_ok (vs2\<lparr>vs_versions := (vs_versions vs2)(p \<mapsto> v3)\<rparr>) (leaked + owned)"
    "version_refs_ok (vs2\<lparr>vs_versions := (vs_versions vs2)(p \<mapsto> v3)\<rparr>) held" by blast
  define vs3 where "vs3 = vs2\<lparr>vs_versions := (vs_versions vs2)(p \<mapsto> v3)\<rparr>"
  have frame: "frame vs vs3" using 2(4) 1(2) by (simp add: frame_def vs1_def vs3_def)
  have desc: "file_desc (vs_mem vs3) = file_desc h" "vs_fresh vs3 = vs_fresh vs" using frame 1(2) by (simp_all add: frame_def)
  have "levels_ok meta (vs_mem vs3) (vs_fresh vs3) R" using levels_ok_grown(1) [OF 1(4)] desc by simp
  moreover have "\<forall>level < 7. level_descs (vs_mem vs3) R level = S level" using 1(5) assms(12) desc(1) by (simp add: level_descs_def)
  ultimately have "version_built meta S p vs3" using 3(2) R by (simp add: version_built_def vs3_def)
  moreover have "dom (vs_versions vs3) = dom (vs_versions vs)" using 2(7) v2 assms(7) by (auto simp: vs3_def vs1_def)
  moreover have "\<forall>q w. q \<noteq> p \<and> vs_versions vs3 q = Some w \<longrightarrow> (\<exists>w0. vs_versions vs q = Some w0 \<and> v_files w = v_files w0)"
  proof (intro allI impI)
    fix q w assume q: "q \<noteq> p \<and> vs_versions vs3 q = Some w"
    then have "vs_versions vs2 q = Some w" by (auto simp: vs3_def)
    with 2(8) obtain w0 where "vs_versions vs1 q = Some w0" "v_files w = v_files w0" by blast
    with q show "\<exists>w0. vs_versions vs q = Some w0 \<and> v_files w = v_files w0" by (simp add: vs1_def)
  qed
  moreover have "vs_current vs3 = vs_current vs" "vs_list vs3 = vs_list vs" using 2(5,6) by (simp_all add: vs3_def vs1_def)
  ultimately show ?thesis using 1(1) 2(1) 3(1,3,4) frame unfolding vs1_def [symmetric] vs3_def [symmetric] by blast
qed

lemma build_version_ok:
  assumes "vset_ok vs held owned" "vs_current vs = Some cur" "vs_versions vs cur = Some v" "levels_ok meta (vs_mem vs) (vs_fresh vs) (v_files v)"
    "edit_fits meta edit (level_descs (vs_mem vs) (v_files v))"
  shows "\<exists>p vs' leaked. build_version D slice_compare edit vs = Some (p, vs') \<and> with_new_version vs' p held (leaked + owned) \<and>
    version_built meta (apply_edit edit (level_descs (vs_mem vs) (v_files v))) p vs' \<and>
    version_built meta (level_descs (vs_mem vs) (v_files v)) cur vs' \<and>
    vs_compact_pointer vs' = set_pointers (ve_compact_pointers edit) (vs_compact_pointer vs) \<and> vs_descriptor vs' = vs_descriptor vs \<and>
    vs_next_file_number vs' = vs_next_file_number vs \<and> vs_manifest_file_number vs' = vs_manifest_file_number vs \<and>
    vs_last_sequence vs' = vs_last_sequence vs \<and> vs_log_number vs' = vs_log_number vs \<and> vs_prev_log_number vs' = vs_prev_log_number vs \<and>
    vs_current vs' = Some cur"
proof -
  let ?p = "vs_fresh vs" and ?base = "v_files v" and ?h = "vs_mem vs"
  let ?S = "level_descs ?h ?base"
  define N where "N = (\<lambda>level. {fm_number m | m l. (l, m) \<in> set (ve_new_files edit) \<and> nat l = level})"
  define vs1 where "vs1 = snd (new_Version D vs)"
  note new = new_Version_ok(1-3) [where D = D, OF assms(1,2), folded vs1_def] new_Version_ok(4-6) [OF assms(1,2)]
  have edit: "edit_files_ok meta edit" "\<forall>level. 0 < level \<and> level < 7 \<longrightarrow> disjoint_descs (apply_edit edit ?S level)"
    "\<forall>(level, m) \<in> set (ve_new_files edit). fm_number m \<notin> d_number ` ?S (nat level)" using assms(5) by (auto simp: edit_fits_def)
  have vs1: "vs_versions vs1 cur = Some v" "vs_mem vs1 = ?h" "vs_fresh vs1 = ?p + 1" "vs_versions vs1 ?p = Some (make_Version D)"
    "vs_current vs1 = Some cur" "vs_list vs1 = vs_list vs" "vs_compact_pointer vs1 = vs_compact_pointer vs" "new_Version D vs = (?p, vs1)"
    using assms(2,3) new(5) by (simp_all add: vs1_def new_Version_def)
  have lv1: "levels_ok meta (vs_mem vs1) (vs_fresh vs1) ?base" using levels_ok_grown(1) [OF assms(4)] vs1(2,3) by simp
  define vs2 where "vs2 = vs1\<lparr>vs_versions := (vs_versions vs1)(cur \<mapsto> v\<lparr>v_refs := v_refs v + 1\<rparr>)\<rparr>"
  note mb = make_Builder_ok [OF new(1,2) vs1(1) lv1, folded vs2_def]
  from mb(1) [of N] obtain b where b: "make_Builder cur vs1 = Some (b, vs2)" "building meta vs2 owned ?base cur (b, vs2)" "added_from N (b, vs2)"
    "\<forall>level < 7. build_set (vs_mem vs2) ?base b level = level_descs (vs_mem vs1) ?base level" by blast
  from Builder_Apply_ok [OF b(2) edit(1)] obtain b' vs3 where
    3: "Builder_Apply slice_compare edit (b, vs2) = Some (b', vs3)" "building meta vs2 owned ?base cur (b', vs3)"
    "vs_compact_pointer vs3 = set_pointers (ve_compact_pointers edit) (vs_compact_pointer vs2)"
    "\<forall>level < 7. build_set (vs_mem vs3) ?base b' level = apply_edit edit (build_set (vs_mem vs2) ?base b) level" by blast
  have from3: "added_from N (b', vs3)" by (rule Builder_Apply_from [OF 3(1) b(3)]) (auto simp: N_def)
  have grown: "grown vs2 vs3" using 3(2) by (simp add: building_def)
  note g = grownD [OF grown]
  have fresh2: "vs_fresh vs2 = ?p + 1" "vs_mem vs2 = ?h" using vs1(2,3) by (simp_all add: vs2_def)
  have same3: "file_desc (vs_mem vs3) f = file_desc ?h f" if "f < ?p" for f using g(10) [of f] fresh2 that by simp
  have lv3: "levels_ok meta (vs_mem vs3) (vs_fresh vs3) ?base" using levels_ok_grown(1) [OF assms(4) _ same3] g(11) fresh2(1) by simp
  have set3: "\<forall>level < 7. build_set (vs_mem vs3) ?base b' level = apply_edit edit ?S level"
    using 3(4) b(4) vs1(2) by (simp add: apply_edit_def)
  have old: "\<forall>level < 7. \<forall>f \<in> set (?base ! level). fm_number (vs_mem vs3 f) \<notin> N level"
  proof (intro allI impI ballI notI)
    fix level f assume f: "level < 7" "f \<in> set (?base ! level)" "fm_number (vs_mem vs3 f) \<in> N level"
    have "f < ?p" using assms(4) f(1,2) file_goodD(1) unfolding levels_ok_def by blast
    with same3 [of f] have "fm_number (vs_mem vs3 f) = fm_number (?h f)" by (simp add: file_desc_def)
    with f edit(3) show False by (force simp: N_def level_descs_def image_image)
  qed
  have refs3: "version_refs_ok vs3 (add_mset cur (add_mset cur held))" using mb(3) g(1) by (simp add: version_refs_ok_def)
  have ver3: "vs_versions vs3 cur = Some (v\<lparr>v_refs := v_refs v + 1\<rparr>)" "vs_versions vs3 ?p = Some (make_Version D)"
    using g(1) vs1(4) new(5) by (simp_all add: vs2_def)
  have empty: "v_files (make_Version D) = replicate 7 []" by (simp add: make_Version_def kNumLevels_def)
  from save_and_finish [OF 3(2) refs3 _ ver3(1) _ lv3 ver3(2) empty new(5) from3 old set3 edit(2), where D = D] obtain vs4 vs5 vs6 leaked where
    6: "SaveTo slice_compare b' ?p vs3 = Some vs4" "destroy_Builder b' vs4 = Some vs5" "Finalize D ?p vs5 = Some vs6" "heap_ok vs6 (leaked + owned)"
    "version_refs_ok vs6 (add_mset cur held)" "vs_current vs6 = vs_current vs3" "vs_list vs6 = vs_list vs3" "dom (vs_versions vs6) = dom (vs_versions vs3)"
    "frame vs3 vs6" "version_built meta (apply_edit edit ?S) ?p vs6"
    "\<forall>q w. q \<noteq> ?p \<and> vs_versions vs6 q = Some w \<longrightarrow> (\<exists>w0. vs_versions vs3 q = Some w0 \<and> v_files w = v_files w0)" by auto
  have run: "build_version D slice_compare edit vs = Some (?p, vs6)"
    using vs1(5,8) b(1) 3(1) 6(1-3) by (simp add: build_version_def)
  have "frame vs3 vs6" by (rule 6(9))
  then have fields: "vs_compact_pointer vs6 = set_pointers (ve_compact_pointers edit) (vs_compact_pointer vs)" "vs_descriptor vs6 = vs_descriptor vs"
    "vs_next_file_number vs6 = vs_next_file_number vs" "vs_manifest_file_number vs6 = vs_manifest_file_number vs"
    "vs_last_sequence vs6 = vs_last_sequence vs" "vs_log_number vs6 = vs_log_number vs" "vs_prev_log_number vs6 = vs_prev_log_number vs"
    "vs_current vs6 = Some cur" "vs_list vs6 = vs_list vs"
    using 3(3) g(2-9) 6(6,7) assms(2) by (simp_all add: frame_def vs2_def vs1_def new_Version_def)
  have dom6: "dom (vs_versions vs6) = insert ?p (set_mset (add_mset cur held))" using 6(8) g(1) new(3) vs1(1) by (auto simp: vs2_def)
  have "length (v_files w) = 7" if "vs_versions vs6 q = Some w" for q w
  proof (cases "q = ?p")
    case True
    with that 6(10) show ?thesis by (simp add: version_built_def levels_ok_def)
  next
    case False
    with 6(11) that obtain w0 where "vs_versions vs3 q = Some w0" "v_files w = v_files w0" by blast
    moreover from this(1) False obtain w1 where "vs_versions vs q = Some w1" "v_files w0 = v_files w1"
      using g(1) assms(3) by (auto simp: vs2_def vs1_def new_Version_def split: if_splits)
    ultimately show ?thesis using assms(1) unfolding vset_ok_def by (metis ranI)
  qed
  then have "\<forall>w \<in> ran (vs_versions vs6). length (v_files w) = 7" by (auto simp: ran_def)
  moreover have "distinct (vs_list vs)" "set (vs_list vs) = set_mset (add_mset cur held)" "length (vs_compact_pointer vs) = 7"
    using assms(1,2) by (auto simp: vset_ok_def)
  ultimately have "with_new_version vs6 ?p held (leaked + owned)"
    unfolding with_new_version_def using 6(4,5) dom6 fields(1,8,9) new(4-6) by simp
  moreover have "version_built meta ?S cur vs6"
  proof -
    have "cur \<in> dom (vs_versions vs6)" using dom6 by simp
    then obtain w w0 where w: "vs_versions vs6 cur = Some w" "vs_versions vs3 cur = Some w0" "v_files w = v_files w0" using 6(11) new(5) [symmetric] by blast
    then have files: "v_files w = ?base" using ver3(1) by auto
    have "levels_ok meta (vs_mem vs6) (vs_fresh vs6) ?base" using levels_ok_grown(1) [OF lv3] \<open>frame vs3 vs6\<close> by (simp add: frame_def)
    moreover have "\<forall>level < 7. level_descs (vs_mem vs6) ?base level = ?S level"
      using levels_ok_grown(2) [OF assms(4) le_refl same3] \<open>frame vs3 vs6\<close> by (simp add: frame_def level_descs_def)
    ultimately show ?thesis using w(1) files by (simp add: version_built_def)
  qed
  ultimately show ?thesis using run fields 6(10) by blast
qed

end
