(* ===== verification/Ldb_Manifest.thy ===== *)
theory Ldb_Manifest
  imports Ldb_Version_Build Ldb_Log_Spec
begin

text \<open>
  The descriptor file: \<^verbatim>\<open>LogAndApply\<close> installs a version and makes it durable, \<^verbatim>\<open>Recover\<close> finds it again.
\<close>

subsection \<open>Writing to the descriptor\<close>

lemma Emit_total:
  assumes "length ptr \<le> 0xFFFF" "off + kHeaderSize + length ptr \<le> kBlockSize"
  shows "\<exists>s f' off'. EmitPhysicalRecord app fl a f off t ptr = Some (s, f', off') \<and> off' \<le> kBlockSize"
  using assms by (auto simp: EmitPhysicalRecord_def Let_def split: prod.splits)

lemma add_fragments_total:
  "off \<le> kBlockSize \<Longrightarrow> \<exists>s f' off'. add_fragments app fl a f off b0 ptr = Some (s, f', off') \<and> off' \<le> kBlockSize"
proof (induction app fl a f off b0 ptr rule: add_fragments.induct)
  case (1 app fl a f off b0 ptr)
  obtain f1 where nb: "new_block app f off = (f1, next_offset off)" by (metis new_block_offset surj_pair)
  let ?o = "next_offset off"
  let ?k = "min (length ptr) (kBlockSize - ?o - kHeaderSize)"
  let ?t = "fragment_type b0 (length ptr = ?k)"
  have "?o + kHeaderSize + length (take ?k ptr) \<le> kBlockSize" using next_offset_le [OF "1.prems"] by auto
  moreover from this have "length (take ?k ptr) \<le> 0xFFFF" by (simp add: kBlockSize_def)
  ultimately obtain s f2 off2 where e: "EmitPhysicalRecord app fl a f1 ?o ?t (take ?k ptr) = Some (s, f2, off2)" "off2 \<le> kBlockSize"
    using Emit_total [of "take ?k ptr" ?o app fl a f1 ?t] by blast
  have step: "add_fragments app fl a f off b0 ptr =
      (if ok s \<and> length ptr > ?k then add_fragments app fl (a + ?k) f2 off2 False (drop ?k ptr) else Some (s, f2, off2))"
    using "1.prems" nb e(1) by (subst add_fragments.simps) (simp add: Let_def)
  show ?case
  proof (cases "ok s \<and> length ptr > ?k")
    case True
    from "1.prems" have off: "\<not> kBlockSize < off" by simp
    show ?thesis unfolding step if_P [OF True] by (rule "1.IH" [OF off nb [symmetric] refl refl e(1) refl refl True e(2)])
  qed (use step e(2) in auto)
qed

lemma descriptor_AddRecord_total:
  assumes "off \<le> kBlockSize"
  shows "\<exists>s f' off' fs'. descriptor_AddRecord a (name, f, off) data fs = Some (s, (name, f', off'), fs') \<and> off' \<le> kBlockSize"
  using add_fragments_total [OF assms, of "desc_append name" "desc_flush name" a "(f, fs)" True data]
  by (fastforce simp: descriptor_AddRecord_def AddRecord_def)

text \<open>The writer is inside a block.\<close>

definition descriptor_fits :: "'d VersionSet \<Rightarrow> bool" where
  "descriptor_fits vs \<longleftrightarrow> (\<forall>name f off. vs_descriptor vs = Some (name, f, off) \<longrightarrow> off \<le> kBlockSize)"

lemma descriptor_fits_Some [simp]: "vs_descriptor vs = Some (name, f, off) \<Longrightarrow> descriptor_fits vs \<longleftrightarrow> off \<le> kBlockSize"
  by (simp add: descriptor_fits_def)

lemma descriptor_fits_cong: "vs_descriptor vs' = vs_descriptor vs \<Longrightarrow> descriptor_fits vs' = descriptor_fits vs"
  by (simp add: descriptor_fits_def)

subsection \<open>The snapshot\<close>

lemma snapshot_pointers_parts:
  "snapshot_pointers ps e = e\<lparr>ve_compact_pointers := ve_compact_pointers e @
     map (\<lambda>(level, key). (int level, key)) (filter (\<lambda>(level, key). key \<noteq> []) (zip [0..<nat kNumLevels] ps))\<rparr>"
proof -
  have "fold (\<lambda>(level, key) edit. if key \<noteq> [] then SetCompactPointer (int level) key edit else edit) xs e =
      e\<lparr>ve_compact_pointers := ve_compact_pointers e @ map (\<lambda>(level, key). (int level, key)) (filter (\<lambda>(level, key). key \<noteq> []) xs)\<rparr>" for xs
    by (induction xs arbitrary: e) (auto simp: SetCompactPointer_def)
  then show ?thesis by (simp add: snapshot_pointers_def)
qed

definition snapshot_list :: "file_mem \<Rightarrow> fptr list list \<Rightarrow> (int \<times> FileMetaData) list" where
  "snapshot_list h levels = concat (map (\<lambda>(level, files). map (\<lambda>f. (int level,
     make_FileMetaData (fm_number (h f)) (fm_file_size (h f)) (fm_smallest (h f)) (fm_largest (h f)))) files) (zip [0..<nat kNumLevels] levels))"

lemma snapshot_files_parts: "snapshot_files h levels e = e\<lparr>ve_new_files := ve_new_files e @ snapshot_list h levels\<rparr>"
proof -
  have 1: "fold (\<lambda>f edit. AddFile l (fm_number (h f)) (fm_file_size (h f)) (fm_smallest (h f)) (fm_largest (h f)) edit) files e =
      e\<lparr>ve_new_files := ve_new_files e @ map (\<lambda>f. (l,
        make_FileMetaData (fm_number (h f)) (fm_file_size (h f)) (fm_smallest (h f)) (fm_largest (h f)))) files\<rparr>" for l files e
    by (induction files arbitrary: e) (auto simp: AddFile_def)
  have "fold (\<lambda>(level, files) edit.
         fold (\<lambda>f edit. AddFile (int level) (fm_number (h f)) (fm_file_size (h f)) (fm_smallest (h f)) (fm_largest (h f)) edit) files edit) xs e =
      e\<lparr>ve_new_files := ve_new_files e @ concat (map (\<lambda>(level, files). map (\<lambda>f. (int level,
        make_FileMetaData (fm_number (h f)) (fm_file_size (h f)) (fm_smallest (h f)) (fm_largest (h f)))) files) xs)\<rparr>" for xs
    by (induction xs arbitrary: e) (auto simp: 1)
  then show ?thesis by (simp add: snapshot_files_def snapshot_list_def)
qed

lemma snapshot_list_set:
  assumes "length levels = 7"
  shows "(l, m) \<in> set (snapshot_list h levels) \<longleftrightarrow> (\<exists>level < 7. l = int level \<and> (\<exists>f \<in> set (levels ! level).
    m = make_FileMetaData (fm_number (h f)) (fm_file_size (h f)) (fm_smallest (h f)) (fm_largest (h f))))"
proof -
  have z: "(i, fs) \<in> set (zip [0..<7] levels) \<longleftrightarrow> i < 7 \<and> fs = levels ! i" for i fs
    using assms by (auto simp: in_set_zip intro: exI [of _ i])
  show ?thesis unfolding snapshot_list_def using z by (auto simp: kNumLevels_def)
qed

text \<open>A snapshot is an edit that makes the version and the pointers from nothing.\<close>

lemma snapshot_edit_parts:
  "ve_new_files (snapshot_edit cf v vs) = snapshot_list (vs_mem vs) (v_files v)" "ve_deleted_files (snapshot_edit cf v vs) = []"
  "ve_compact_pointers (snapshot_edit cf v vs) =
     map (\<lambda>(level, key). (int level, key)) (filter (\<lambda>(level, key). key \<noteq> []) (zip [0..<nat kNumLevels] (vs_compact_pointer vs)))"
  "ve_has_comparator (snapshot_edit cf v vs)" "ve_comparator (snapshot_edit cf v vs) = cf_comparator_name cf"
  "\<not> ve_has_log_number (snapshot_edit cf v vs)" "\<not> ve_has_prev_log_number (snapshot_edit cf v vs)"
  "\<not> ve_has_next_file_number (snapshot_edit cf v vs)" "\<not> ve_has_last_sequence (snapshot_edit cf v vs)"
  "ve_log_number (snapshot_edit cf v vs) = 0" "ve_prev_log_number (snapshot_edit cf v vs) = 0"
  "ve_next_file_number (snapshot_edit cf v vs) = 0" "ve_last_sequence (snapshot_edit cf v vs) = 0"
  by (simp_all add: snapshot_edit_def snapshot_files_parts snapshot_pointers_parts SetComparatorName_def make_VersionEdit_def)

lemma apply_snapshot:
  assumes "length (v_files v) = 7" "level < 7"
  shows "apply_edit (snapshot_edit cf v vs) (\<lambda>_. {}) level = level_descs (vs_mem vs) (v_files v) level"
proof -
  let ?h = "vs_mem vs"
  let ?m = "\<lambda>f. make_FileMetaData (fm_number (?h f)) (fm_file_size (?h f)) (fm_smallest (?h f)) (fm_largest (?h f))"
  have "file_desc ?h f = meta_desc (?m f)" for f by (simp add: meta_desc_def make_FileMetaData_def file_desc_def)
  then have "level_descs ?h (v_files v) level = {meta_desc m | m. m \<in> ?m ` set (v_files v ! level)}" by (auto simp: level_descs_def)
  moreover have "(int level, m) \<in> set (snapshot_list ?h (v_files v)) \<longleftrightarrow> m \<in> ?m ` set (v_files v ! level)" for m
    unfolding snapshot_list_set [OF assms(1)] using assms(2) by auto
  ultimately show ?thesis by (simp add: apply_edit_def snapshot_edit_parts(1))
qed

lemma snapshot_files_ok:
  assumes "levels_ok meta (vs_mem vs) n (v_files v)" "length (vs_compact_pointer vs) = 7"
  shows "edit_files_ok meta (snapshot_edit cf v vs)"
proof -
  have len: "length (v_files v) = 7" using assms(1) by (simp add: levels_ok_def)
  have "level_ok l \<and> meta_desc m = meta (fm_number m) \<and> desc_ok (meta_desc m)" if "(l, m) \<in> set (snapshot_list (vs_mem vs) (v_files v))" for l m
  proof -
    from that obtain level f where f: "level < 7" "l = int level" "f \<in> set (v_files v ! level)"
      "m = make_FileMetaData (fm_number (vs_mem vs f)) (fm_file_size (vs_mem vs f)) (fm_smallest (vs_mem vs f)) (fm_largest (vs_mem vs f))"
      unfolding snapshot_list_set [OF len] by blast
    then have g: "file_good meta (vs_mem vs) n f" using assms(1) by (simp add: levels_ok_def)
    have "meta_desc m = file_desc (vs_mem vs) f" "fm_number m = fm_number (vs_mem vs f)"
      using f(4) by (simp_all add: meta_desc_def make_FileMetaData_def file_desc_def)
    then show ?thesis using file_goodD(2,3) [OF g] f(1,2) by (simp add: level_ok_def kNumLevels_def)
  qed
  moreover have "level_ok l \<and> k \<noteq> []" if "(l, k) \<in> set (ve_compact_pointers (snapshot_edit cf v vs))" for l k
    using that unfolding snapshot_edit_parts(3) by (auto simp: level_ok_def kNumLevels_def dest: set_zip_leftD)
  ultimately show ?thesis by (auto simp: edit_files_ok_def snapshot_edit_parts(1,2))
qed

text \<open>Edits and snapshots have encodings, which are decoded again.\<close>

definition meta_fits :: "(64 word \<Rightarrow> fdesc) \<Rightarrow> bool" where
  "meta_fits meta \<longleftrightarrow> (\<forall>n. length (d_smallest (meta n)) < 2 ^ 32 \<and> length (d_largest (meta n)) < 2 ^ 32)"

definition state_fits :: "VsConfig \<Rightarrow> 'd VersionSet \<Rightarrow> bool" where
  "state_fits cf vs \<longleftrightarrow> length (cf_comparator_name cf) < 2 ^ 32 \<and> (\<forall>k \<in> set (vs_compact_pointer vs). length k < 2 ^ 32)"

lemma snapshot_ok:
  assumes "levels_ok meta (vs_mem vs) n (v_files v)" "meta_fits meta" "state_fits cf vs" "length (vs_compact_pointer vs) = 7"
  shows "edit_ok (snapshot_edit cf v vs)"
proof -
  have len: "length (v_files v) = 7" using assms(1) by (simp add: levels_ok_def)
  have "level_ok l \<and> file_ok m" if "(l, m) \<in> set (snapshot_list (vs_mem vs) (v_files v))" for l m
  proof -
    from that obtain level f where f: "level < 7" "l = int level" "f \<in> set (v_files v ! level)"
      "m = make_FileMetaData (fm_number (vs_mem vs f)) (fm_file_size (vs_mem vs f)) (fm_smallest (vs_mem vs f)) (fm_largest (vs_mem vs f))"
      unfolding snapshot_list_set [OF len] by blast
    then have g: "file_good meta (vs_mem vs) n f" using assms(1) by (simp add: levels_ok_def)
    have "length (fm_smallest (vs_mem vs f)) < 2 ^ 32" "length (fm_largest (vs_mem vs f)) < 2 ^ 32"
      using assms(2) file_goodD(3) [OF g] unfolding meta_fits_def by (metis file_desc_parts(2,3))+
    moreover have "fm_smallest (vs_mem vs f) \<noteq> []" "fm_largest (vs_mem vs f) \<noteq> []"
      using file_goodD(2) [OF g] by (auto simp: desc_ok_def key_wf_def valid_key_def)
    ultimately show ?thesis using f(1,2,4) by (simp add: level_ok_def kNumLevels_def file_ok_def key_ok_def make_FileMetaData_def)
  qed
  moreover have "level_ok l \<and> key_ok k" if "(l, k) \<in> set (ve_compact_pointers (snapshot_edit cf v vs))" for l k
    using that assms(3) unfolding snapshot_edit_parts(3)
    by (auto simp: level_ok_def kNumLevels_def key_ok_def state_fits_def dest: set_zip_leftD set_zip_rightD)
  ultimately show ?thesis using assms(3) unfolding edit_ok_def by (auto simp: state_fits_def snapshot_edit_parts(1,2,4-13))
qed

subsection \<open>The completed edit\<close>

lemma complete_edit_eq:
  assumes "complete_edit edit vs = Some e"
  shows "e = edit\<lparr>ve_has_log_number := True, ve_log_number := (if ve_has_log_number edit then ve_log_number edit else vs_log_number vs),
    ve_has_prev_log_number := True, ve_prev_log_number := (if ve_has_prev_log_number edit then ve_prev_log_number edit else vs_prev_log_number vs),
    ve_has_next_file_number := True, ve_next_file_number := vs_next_file_number vs, ve_has_last_sequence := True, ve_last_sequence := vs_last_sequence vs\<rparr>"
  using assms
  by (cases edit)
    (simp add: complete_edit_def SetLogNumber_def SetPrevLogNumber_def SetNextFile_def SetLastSequence_def Let_def split: if_splits)

lemma complete_edit_parts:
  assumes "complete_edit edit vs = Some e"
  shows "ve_new_files e = ve_new_files edit" "ve_deleted_files e = ve_deleted_files edit" "ve_compact_pointers e = ve_compact_pointers edit"
    "edit_ok edit \<Longrightarrow> edit_ok e" "ve_has_log_number e" "ve_has_prev_log_number e" "ve_has_next_file_number e" "ve_has_last_sequence e"
    "ve_next_file_number e = vs_next_file_number vs" "ve_last_sequence e = vs_last_sequence vs"
    "ve_log_number e = (if ve_has_log_number edit then ve_log_number edit else vs_log_number vs)"
    "ve_prev_log_number e = (if ve_has_prev_log_number edit then ve_prev_log_number edit else vs_prev_log_number vs)"
    "ve_has_comparator e = ve_has_comparator edit" "ve_comparator e = ve_comparator edit"
  by (simp_all add: complete_edit_eq [OF assms] edit_ok_def)

lemma complete_edit_total:
  assumes "ve_has_log_number edit \<longrightarrow> ve_log_number edit \<ge> vs_log_number vs \<and> ve_log_number edit < vs_next_file_number vs"
  shows "\<exists>e. complete_edit edit vs = Some e"
  using assms by (auto simp: complete_edit_def Let_def)

subsection \<open>Fields that do not matter\<close>

lemma vset_ok_fields [simp]:
  "vset_ok (vs\<lparr>vs_descriptor := d\<rparr>) held owned = vset_ok vs held owned" "vset_ok (vs\<lparr>vs_log_number := n\<rparr>) held owned = vset_ok vs held owned"
  "vset_ok (vs\<lparr>vs_prev_log_number := n\<rparr>) held owned = vset_ok vs held owned" "vset_ok (vs\<lparr>vs_next_file_number := n\<rparr>) held owned = vset_ok vs held owned"
  "vset_ok (vs\<lparr>vs_manifest_file_number := n\<rparr>) held owned = vset_ok vs held owned" "vset_ok (vs\<lparr>vs_last_sequence := n\<rparr>) held owned = vset_ok vs held owned"
  by (simp_all add: vset_ok_def heap_ok_def version_refs_ok_def)

lemma with_new_version_fields [simp]: "with_new_version (vs\<lparr>vs_descriptor := d\<rparr>) p held owned = with_new_version vs p held owned"
  by (simp add: with_new_version_def heap_ok_def version_refs_ok_def)

lemma version_built_fields [simp]:
  "version_built meta S p (vs\<lparr>vs_descriptor := d\<rparr>) = version_built meta S p vs" "version_built meta S p (vs\<lparr>vs_log_number := n\<rparr>) = version_built meta S p vs"
  "version_built meta S p (vs\<lparr>vs_prev_log_number := n\<rparr>) = version_built meta S p vs"
  "version_built meta S p (vs\<lparr>vs_next_file_number := n\<rparr>) = version_built meta S p vs"
  "version_built meta S p (vs\<lparr>vs_manifest_file_number := n\<rparr>) = version_built meta S p vs"
  "version_built meta S p (vs\<lparr>vs_last_sequence := n\<rparr>) = version_built meta S p vs"
  by (simp_all add: version_built_def)

lemma version_built_frame:
  assumes "version_built meta S p vs" "frame vs vs'" "map_option v_files (vs_versions vs' p) = map_option v_files (vs_versions vs p)"
  shows "version_built meta S p vs'"
proof -
  from assms(1) obtain v where v: "vs_versions vs p = Some v" "levels_ok meta (vs_mem vs) (vs_fresh vs) (v_files v)"
    "\<forall>level < 7. level_descs (vs_mem vs) (v_files v) level = S level" unfolding version_built_def by blast
  from assms(3) v(1) obtain v' where v': "vs_versions vs' p = Some v'" "v_files v' = v_files v" by auto
  have f: "file_desc (vs_mem vs') = file_desc (vs_mem vs)" "vs_fresh vs' = vs_fresh vs" using assms(2) by (simp_all add: frame_def)
  have "levels_ok meta (vs_mem vs') (vs_fresh vs') (v_files v)" using levels_ok_grown(1) [OF v(2)] f by simp
  then show ?thesis using v(3) v' f(1) by (simp add: version_built_def level_descs_def)
qed

text \<open>A version that is not wanted goes away.\<close>

lemma drop_new_version:
  assumes "with_new_version vs p held owned" "vs_current vs = Some cur"
  shows "\<exists>vs'. destroy_Version p vs = Some vs' \<and> vset_ok vs' held owned \<and> frame vs vs' \<and> vs_current vs' = Some cur \<and>
    vs_versions vs' cur = vs_versions vs cur"
proof -
  from assms have h: "heap_ok vs owned" "p \<in> dom (vs_versions vs)" "p \<notin> set (vs_list vs)" "version_refs_ok vs (add_mset cur held)"
    "dom (vs_versions vs) = insert p (set_mset (add_mset cur held))" "p \<noteq> cur" "p \<notin># held" "distinct (vs_list vs)"
    "insert p (set (vs_list vs)) = dom (vs_versions vs)" "length (vs_compact_pointer vs) = 7" "\<forall>v \<in> ran (vs_versions vs). length (v_files v) = 7"
    unfolding with_new_version_def by auto
  obtain v where v: "vs_versions vs p = Some v" using h(2) by blast
  have "p \<notin># add_mset cur held" using h(6,7) by simp
  from destroy_Version_ok [OF h(1,4) v this] obtain vs' where
    1: "destroy_Version p vs = Some vs'" "heap_ok vs' owned" "version_refs_ok vs' (add_mset cur held)" "frame vs vs'"
    "vs_versions vs' = (vs_versions vs)(p := None)" "vs_list vs' = removeAll p (vs_list vs)" "vs_current vs' = vs_current vs" by blast
  have dom: "dom (vs_versions vs') = set_mset (add_mset cur held)" using 1(5) h(5-7) by auto
  have list: "vs_list vs' = vs_list vs" using 1(6) h(3) by (simp add: removeAll_id)
  have "set (vs_list vs) = set_mset (add_mset cur held)" using h(3,5,6,7,9) by auto
  moreover have "\<forall>v \<in> ran (vs_versions vs'). length (v_files v) = 7" using h(11) 1(5) by (auto simp: ran_def split: if_splits)
  moreover have "length (vs_compact_pointer vs') = 7" using 1(4) h(10) by (simp add: frame_def)
  ultimately have "vset_ok vs' held owned" unfolding vset_ok_def using 1(2,3,7) assms(2) dom list h(8) by simp
  then show ?thesis using 1(1,4,5,7) assms(2) h(6) by simp
qed

subsection \<open>LogAndApply returns\<close>

lemma open_descriptor_total:
  assumes "vs_current vs = Some cur" "version_built meta S cur vs" "meta_fits meta" "state_fits cf vs" "length (vs_compact_pointer vs) = 7"
    "0 < vs_manifest_file_number vs" "descriptor_fits vs"
  shows "\<exists>s nm d fs'. open_descriptor cf a vs fs = Some (s, nm, vs\<lparr>vs_descriptor := d\<rparr>, fs') \<and> descriptor_fits (vs\<lparr>vs_descriptor := d\<rparr>) \<and> (ok s \<longrightarrow> d \<noteq> None)"
proof (cases "vs_descriptor vs")
  case None
  let ?name = "cf_dbname cf @ bytes_of ''/MANIFEST-'' @ decimal6 (unat (vs_manifest_file_number vs))"
  have name: "DescriptorFileName (cf_dbname cf) (vs_manifest_file_number vs) = Some ?name" using assms(6) by (simp add: DescriptorFileName_def)
  obtain s1 fo fs1 where new: "NewWritableFile ?name fs = (s1, fo, fs1)" by (metis prod_cases3)
  show ?thesis
  proof (cases fo)
    case None
    have "\<not> ok s1" using new None by (auto simp: NewWritableFile_def split: prod.splits option.splits)
    then show ?thesis using \<open>vs_descriptor vs = None\<close> name new None by (intro exI [of _ s1] exI [of _ "Some ?name"] exI [of _ "None"] exI [of _ fs1]) (simp add: open_descriptor_def descriptor_fits_def)
  next
    case (Some f1)
    obtain v where v: "vs_versions vs cur = Some v" "levels_ok meta (vs_mem vs) (vs_fresh vs) (v_files v)" using assms(2) by (auto simp: version_built_def)
    from edit_roundtrip [OF snapshot_ok [OF v(2) assms(3,4,5)]] obtain rec where rec: "VersionEdit_EncodeTo (snapshot_edit cf v vs) [] = Some rec" by blast
    from descriptor_AddRecord_total [of 0 a ?name f1 rec fs1] obtain s2 f2 off2 fs2 where
      add: "descriptor_AddRecord a (?name, f1, 0) rec fs1 = Some (s2, (?name, f2, off2), fs2)" "off2 \<le> kBlockSize" by auto
    have "open_descriptor cf a vs fs = Some (s2, Some ?name, vs\<lparr>vs_descriptor := Some (?name, f2, off2)\<rparr>, fs2)"
      using None name new Some v(1) rec add(1) assms(1) by (simp add: open_descriptor_def WriteSnapshot_def current_version_def)
    moreover have "descriptor_fits (vs\<lparr>vs_descriptor := Some (?name, f2, off2)\<rparr>)" using add(2) by simp
    ultimately show ?thesis by blast
  qed
next
  case (Some d)
  have same: "vs\<lparr>vs_descriptor := Some d\<rparr> = vs" using Some by simp
  have "open_descriptor cf a vs fs = Some (OK, None, vs\<lparr>vs_descriptor := Some d\<rparr>, fs)" unfolding same using Some by (simp add: open_descriptor_def)
  moreover have "descriptor_fits (vs\<lparr>vs_descriptor := Some d\<rparr>)" unfolding same by (rule assms(7))
  ultimately show ?thesis by blast
qed

lemma write_descriptor_total:
  assumes "edit_ok e" "vs_descriptor vs \<noteq> None" "descriptor_fits vs"
  shows "\<exists>s d fs'. write_descriptor a e vs fs = Some (s, vs\<lparr>vs_descriptor := d\<rparr>, fs') \<and> descriptor_fits (vs\<lparr>vs_descriptor := d\<rparr>)"
proof -
  obtain name f off where d: "vs_descriptor vs = Some (name, f, off)" using assms(2) by auto
  then have off: "off \<le> kBlockSize" using assms(3) by simp
  from edit_roundtrip [OF assms(1)] obtain rec where rec: "VersionEdit_EncodeTo e [] = Some rec" by blast
  from descriptor_AddRecord_total [OF off, of a name f rec fs] obtain s1 f1 off1 fs1 where
    add: "descriptor_AddRecord a (name, f, off) rec fs = Some (s1, (name, f1, off1), fs1)" "off1 \<le> kBlockSize" by blast
  obtain s2 f2 fs2 where sync: "Env_Sync name f1 fs1 = (s2, f2, fs2)" by (metis prod_cases3)
  show ?thesis using rec add sync d by (auto simp: write_descriptor_def descriptor_fits_def)
qed

lemma apply_edit_cong: "S level = T level \<Longrightarrow> apply_edit edit S level = apply_edit edit T level"
  by (simp add: apply_edit_def)

lemma edit_fits_cong:
  assumes "\<forall>level < 7. S level = T level" "edit_fits meta edit S"
  shows "edit_fits meta edit T"
proof -
  have "fm_number m \<notin> d_number ` T (nat l)" if "(l, m) \<in> set (ve_new_files edit)" for l m
  proof -
    have "level_ok l" "fm_number m \<notin> d_number ` S (nat l)" using assms(2) that by (auto simp: edit_fits_def edit_files_ok_def)
    with level_ok_nat [of l] assms(1) show ?thesis by simp
  qed
  moreover have "disjoint_descs (apply_edit edit T level)" if "0 < level" "level < 7" for level
    using assms that apply_edit_cong [of S level T edit] unfolding edit_fits_def by metis
  ultimately show ?thesis using assms(2) by (auto simp: edit_fits_def)
qed

lemma version_built_cong: "\<forall>level < 7. S level = T level \<Longrightarrow> version_built meta S p vs = version_built meta T p vs"
  by (simp add: version_built_def)

lemma apply_edit_same: "ve_new_files e = ve_new_files edit \<Longrightarrow> ve_deleted_files e = ve_deleted_files edit \<Longrightarrow> apply_edit e = apply_edit edit"
  by (simp add: apply_edit_def fun_eq_iff)

text \<open>The state before the new version is written and installed.\<close>

lemma LogAndApply_built:
  assumes "vset_ok vs held owned" "vs_current vs = Some cur" "version_built meta S cur vs" "edit_fits meta edit S"
    "ve_has_log_number edit \<longrightarrow> ve_log_number edit \<ge> vs_log_number vs \<and> ve_log_number edit < vs_next_file_number vs"
  obtains e p vs1 leaked where "complete_edit edit vs = Some e" "build_version D slice_compare e vs = Some (p, vs1)"
    "with_new_version vs1 p held (leaked + owned)" "version_built meta (apply_edit edit S) p vs1" "version_built meta S cur vs1" "vs_current vs1 = Some cur"
    "vs_compact_pointer vs1 = set_pointers (ve_compact_pointers edit) (vs_compact_pointer vs)" "vs_descriptor vs1 = vs_descriptor vs"
    "vs_next_file_number vs1 = vs_next_file_number vs" "vs_manifest_file_number vs1 = vs_manifest_file_number vs"
    "vs_last_sequence vs1 = vs_last_sequence vs" "vs_log_number vs1 = vs_log_number vs" "vs_prev_log_number vs1 = vs_prev_log_number vs"
proof -
  from complete_edit_total [OF assms(5)] obtain e where e: "complete_edit edit vs = Some e" by blast
  note parts = complete_edit_parts [OF e]
  from assms(3) obtain v where v: "vs_versions vs cur = Some v" "levels_ok meta (vs_mem vs) (vs_fresh vs) (v_files v)"
    "\<forall>level < 7. level_descs (vs_mem vs) (v_files v) level = S level" unfolding version_built_def by blast
  have "edit_fits meta e S" using assms(4) parts(1-3) unfolding edit_fits_def edit_files_ok_def apply_edit_same [OF parts(1,2)] by simp
  then have "edit_fits meta e (level_descs (vs_mem vs) (v_files v))" using edit_fits_cong [of S "level_descs (vs_mem vs) (v_files v)"] v(3) by simp
  from build_version_ok [OF assms(1,2) v(1,2) this, of D] obtain p vs1 leaked where b: "build_version D slice_compare e vs = Some (p, vs1)"
    "with_new_version vs1 p held (leaked + owned)" "version_built meta (apply_edit e (level_descs (vs_mem vs) (v_files v))) p vs1"
    "version_built meta (level_descs (vs_mem vs) (v_files v)) cur vs1"
    "vs_compact_pointer vs1 = set_pointers (ve_compact_pointers e) (vs_compact_pointer vs)" "vs_descriptor vs1 = vs_descriptor vs"
    "vs_next_file_number vs1 = vs_next_file_number vs" "vs_manifest_file_number vs1 = vs_manifest_file_number vs"
    "vs_last_sequence vs1 = vs_last_sequence vs" "vs_log_number vs1 = vs_log_number vs" "vs_prev_log_number vs1 = vs_prev_log_number vs"
    "vs_current vs1 = Some cur" by blast
  have "\<forall>level < 7. apply_edit e (level_descs (vs_mem vs) (v_files v)) level = apply_edit edit S level"
    using v(3) unfolding apply_edit_same [OF parts(1,2)] by (simp add: apply_edit_def)
  with b(3) have "version_built meta (apply_edit edit S) p vs1" using version_built_cong by blast
  moreover have "version_built meta S cur vs1" using b(4) version_built_cong [OF v(3)] by blast
  ultimately show ?thesis using that [OF e b(1,2)] b(5-12) parts(3) by simp
qed

lemma LogAndApply_end:
  assumes "with_new_version vs p held owned" "version_built meta T p vs" "version_built meta S cur vs" "vs_current vs = Some cur"
  shows "\<exists>vs'. AppendVersion p vs = Some vs' \<and> vset_ok vs' held owned \<and> vs_current vs' = Some p \<and> version_built meta T p vs' \<and> frame vs vs'"
    "\<exists>vs'. destroy_Version p vs = Some vs' \<and> vset_ok vs' held owned \<and> vs_current vs' = Some cur \<and> version_built meta S cur vs' \<and> frame vs vs'"
proof -
  from AppendVersion_ok [OF assms(1)] obtain vs' where "AppendVersion p vs = Some vs'" "vset_ok vs' held owned" "vs_current vs' = Some p" "frame vs vs'"
    "map_option v_files (vs_versions vs' p) = map_option v_files (vs_versions vs p)" by blast
  with version_built_frame [OF assms(2)] show "\<exists>vs'. AppendVersion p vs = Some vs' \<and> vset_ok vs' held owned \<and> vs_current vs' = Some p \<and>
    version_built meta T p vs' \<and> frame vs vs'" by blast
  from drop_new_version [OF assms(1,4)] obtain vs' where "destroy_Version p vs = Some vs'" "vset_ok vs' held owned" "frame vs vs'"
    "vs_current vs' = Some cur" "vs_versions vs' cur = vs_versions vs cur" by blast
  moreover from this have "map_option v_files (vs_versions vs' cur) = map_option v_files (vs_versions vs cur)" by simp
  ultimately show "\<exists>vs'. destroy_Version p vs = Some vs' \<and> vset_ok vs' held owned \<and> vs_current vs' = Some cur \<and>
    version_built meta S cur vs' \<and> frame vs vs'" using version_built_frame [OF assms(3)] by blast
qed

lemma discard_descriptor_state: "\<exists>d fs'. discard_descriptor nm vs fs = (vs\<lparr>vs_descriptor := d\<rparr>, fs') \<and> (d = vs_descriptor vs \<or> d = None)"
proof (cases nm)
  case None
  have "vs = vs\<lparr>vs_descriptor := vs_descriptor vs\<rparr>" by simp
  with None show ?thesis unfolding discard_descriptor_def by (metis option.simps(4))
qed (auto simp: discard_descriptor_def Let_def)

lemma LogAndApply_run:
  assumes "complete_edit edit vs = Some e" "build_version D (cf_Compare cf) e vs = Some (p, vs1)" "open_descriptor cf a vs1 fs = Some (s1, nm, vs2, fs1)"
    "(if ok s1 then write_descriptor a e vs2 fs1 else Some (s1, vs2, fs1)) = Some (s2, vs3, fs2)"
    "(if ok s2 \<and> nm \<noteq> None then SetCurrentFile (cf_dbname cf) (vs_manifest_file_number vs3) fs2 else Some (s2, fs2)) = Some (s3, fs3)"
  shows "LogAndApply D cf a edit vs fs =
    (if ok s3 then map_option (\<lambda>vs. (s3, e, vs\<lparr>vs_log_number := ve_log_number e, vs_prev_log_number := ve_prev_log_number e\<rparr>, fs3)) (AppendVersion p vs3)
     else map_option (\<lambda>vs. (s3, e, discard_descriptor nm vs fs3)) (destroy_Version p vs3))"
  unfolding LogAndApply_def assms(1) bind.bind_lunit assms(2) prod.case assms(3) assms(4) assms(5)
  by (cases "AppendVersion p vs3"; cases "destroy_Version p vs3") simp_all

text \<open>Whatever the file system does: the edit is applied, or everything but the descriptor and the pointers is as before.\<close>

lemma LogAndApply_ok:
  assumes "vset_ok vs held owned" "vs_current vs = Some cur" "version_built meta S cur vs" "edit_fits meta edit S"
    "ve_has_log_number edit \<longrightarrow> ve_log_number edit \<ge> vs_log_number vs \<and> ve_log_number edit < vs_next_file_number vs"
    "edit_ok edit" "meta_fits meta" "length (vs_compact_pointer vs) = 7"
    "state_fits cf (vs\<lparr>vs_compact_pointer := set_pointers (ve_compact_pointers edit) (vs_compact_pointer vs)\<rparr>)" "cf_Compare cf = slice_compare"
    "0 < vs_manifest_file_number vs" "descriptor_fits vs"
  shows "\<exists>s e vs' fs' leaked. LogAndApply D cf a edit vs fs = Some (s, e, vs', fs') \<and> vset_ok vs' held (leaked + owned) \<and> descriptor_fits vs' \<and>
    (\<exists>p. vs_current vs' = Some p \<and> version_built meta (if ok s then apply_edit edit S else S) p vs')"
proof -
  obtain e p vs1 leaked where e: "complete_edit edit vs = Some e" and
    b: "build_version D slice_compare e vs = Some (p, vs1)" and w: "with_new_version vs1 p held (leaked + owned)" and
    built: "version_built meta (apply_edit edit S) p vs1" "version_built meta S cur vs1" and cur: "vs_current vs1 = Some cur" and
    cp: "vs_compact_pointer vs1 = set_pointers (ve_compact_pointers edit) (vs_compact_pointer vs)" and d: "vs_descriptor vs1 = vs_descriptor vs" and
    m: "vs_manifest_file_number vs1 = vs_manifest_file_number vs"
    by (rule LogAndApply_built [OF assms(1-5), where D = D], rule that)
  have fits: "state_fits cf vs1" "length (vs_compact_pointer vs1) = 7" using assms(8,9) cp by (simp_all add: state_fits_def)
  have m': "0 < vs_manifest_file_number vs1" "descriptor_fits vs1" using assms(11,12) m d by (simp_all add: descriptor_fits_def)
  from open_descriptor_total [OF cur built(2) assms(7) fits m', of a fs] obtain s1 nm d1 fs1 where
    o: "open_descriptor cf a vs1 fs = Some (s1, nm, vs1\<lparr>vs_descriptor := d1\<rparr>, fs1)"
    "descriptor_fits (vs1\<lparr>vs_descriptor := d1\<rparr>)" "ok s1 \<longrightarrow> d1 \<noteq> None" by blast
  obtain s2 d2 fs2 where wr: "(if ok s1 then write_descriptor a e (vs1\<lparr>vs_descriptor := d1\<rparr>) fs1 else Some (s1, vs1\<lparr>vs_descriptor := d1\<rparr>, fs1)) =
      Some (s2, vs1\<lparr>vs_descriptor := d2\<rparr>, fs2)" "descriptor_fits (vs1\<lparr>vs_descriptor := d2\<rparr>)"
  proof (cases "ok s1")
    case True
    with write_descriptor_total [OF complete_edit_parts(4) [OF e assms(6)], of "vs1\<lparr>vs_descriptor := d1\<rparr>" a fs1] o(2,3) that show ?thesis by auto
  qed (use that o(2) in auto)
  have "\<exists>tmp. TempFileName (cf_dbname cf) (vs_manifest_file_number vs1) = Some tmp" using m'(1) by (simp add: TempFileName_def)
  then obtain s3 fs3 where sc: "(if ok s2 \<and> nm \<noteq> None then SetCurrentFile (cf_dbname cf) (vs_manifest_file_number vs1) fs2 else Some (s2, fs2)) = Some (s3, fs3)"
    using SetCurrentFile_files [OF m'(1), of "cf_dbname cf" _ fs2] by (cases "ok s2 \<and> nm \<noteq> None") auto
  let ?vs2 = "vs1\<lparr>vs_descriptor := d2\<rparr>"
  have "with_new_version ?vs2 p held (leaked + owned)" "version_built meta (apply_edit edit S) p ?vs2" "version_built meta S cur ?vs2" "vs_current ?vs2 = Some cur"
    using w built cur by simp_all
  note ends = LogAndApply_end [OF this]
  have b': "build_version D (cf_Compare cf) e vs = Some (p, vs1)" using b assms(10) by simp
  have sc': "(if ok s2 \<and> nm \<noteq> None then SetCurrentFile (cf_dbname cf) (vs_manifest_file_number ?vs2) fs2 else Some (s2, fs2)) = Some (s3, fs3)"
    using sc by (cases "ok s2"; cases nm) simp_all
  note run = LogAndApply_run [OF e b' o(1) wr(1) sc']
  show ?thesis
  proof (cases "ok s3")
    case True
    from ends(1) obtain vs3 where 3: "AppendVersion p ?vs2 = Some vs3" "vset_ok vs3 held (leaked + owned)" "vs_current vs3 = Some p"
      "version_built meta (apply_edit edit S) p vs3" "frame ?vs2 vs3" by blast
    then have "LogAndApply D cf a edit vs fs = Some (s3, e, vs3\<lparr>vs_log_number := ve_log_number e, vs_prev_log_number := ve_prev_log_number e\<rparr>, fs3)"
      using run True by simp
    moreover have "vset_ok (vs3\<lparr>vs_log_number := ve_log_number e, vs_prev_log_number := ve_prev_log_number e\<rparr>) held (leaked + owned)"
      "vs_current (vs3\<lparr>vs_log_number := ve_log_number e, vs_prev_log_number := ve_prev_log_number e\<rparr>) = Some p"
      "version_built meta (apply_edit edit S) p (vs3\<lparr>vs_log_number := ve_log_number e, vs_prev_log_number := ve_prev_log_number e\<rparr>)"
      "descriptor_fits (vs3\<lparr>vs_log_number := ve_log_number e, vs_prev_log_number := ve_prev_log_number e\<rparr>)"
      using 3 wr(2) by (simp_all add: frame_def descriptor_fits_def)
    ultimately show ?thesis using True
      by (intro exI [of _ s3] exI [of _ e] exI [of _ "vs3\<lparr>vs_log_number := ve_log_number e, vs_prev_log_number := ve_prev_log_number e\<rparr>"] exI [of _ fs3]
        exI [of _ leaked] conjI exI [of _ p]) simp_all
  next
    case False
    from ends(2) obtain vs3 where 3: "destroy_Version p ?vs2 = Some vs3" "vset_ok vs3 held (leaked + owned)" "vs_current vs3 = Some cur"
      "version_built meta S cur vs3" "frame ?vs2 vs3" by blast
    obtain d3 fs4 where dd: "discard_descriptor nm vs3 fs3 = (vs3\<lparr>vs_descriptor := d3\<rparr>, fs4)" "d3 = vs_descriptor vs3 \<or> d3 = None" using discard_descriptor_state by blast
    then have "LogAndApply D cf a edit vs fs = Some (s3, e, vs3\<lparr>vs_descriptor := d3\<rparr>, fs4)"
      using run False 3(1) by simp
    moreover have "vset_ok (vs3\<lparr>vs_descriptor := d3\<rparr>) held (leaked + owned)" "vs_current (vs3\<lparr>vs_descriptor := d3\<rparr>) = Some cur"
      "version_built meta S cur (vs3\<lparr>vs_descriptor := d3\<rparr>)" using 3 by simp_all
    moreover have "descriptor_fits (vs3\<lparr>vs_descriptor := d3\<rparr>)" 
      using dd(2)
    proof
      assume "d3 = vs_descriptor vs3"
      then have "vs_descriptor (vs3\<lparr>vs_descriptor := d3\<rparr>) = vs_descriptor ?vs2" using 3(5) by (simp add: frame_def)
      from descriptor_fits_cong [OF this] wr(2) show ?thesis by blast
    qed (simp add: descriptor_fits_def)
    ultimately show ?thesis using False
      by (intro exI [of _ s3] exI [of _ e] exI [of _ "vs3\<lparr>vs_descriptor := d3\<rparr>"] exI [of _ fs4] exI [of _ leaked] conjI exI [of _ cur]) simp_all
  qed
qed

end
