(* ===== verification/Ldb_Version_Recovery.thy ===== *)
theory Ldb_Version_Recovery
  imports Ldb_Manifest
begin

text \<open>
  Recovery from a descriptor: the version that \<^verbatim>\<open>Recover\<close> installs is the one that the edits in the descriptor make, in their
  order, from an empty database.
\<close>

subsection \<open>The edits of a descriptor\<close>

definition enc :: "VersionEdit \<Rightarrow> byte list" where
  "enc e = the (VersionEdit_EncodeTo e [])"

definition replay :: "VersionEdit list \<Rightarrow> (nat \<Rightarrow> fdesc set) \<Rightarrow> nat \<Rightarrow> fdesc set" where
  "replay edits S = fold apply_edit edits S"

definition replay_pointers :: "VersionEdit list \<Rightarrow> slice list \<Rightarrow> slice list" where
  "replay_pointers edits ps = fold (\<lambda>e. set_pointers (ve_compact_pointers e)) edits ps"

definition latest :: "(VersionEdit \<Rightarrow> bool) \<Rightarrow> (VersionEdit \<Rightarrow> 64 word) \<Rightarrow> VersionEdit list \<Rightarrow> 64 word option \<Rightarrow> 64 word option" where
  "latest has num edits old = fold (\<lambda>e. take_number (has e) (num e)) edits old"

definition edit_recoverable :: "(64 word \<Rightarrow> fdesc) \<Rightarrow> VsConfig \<Rightarrow> VersionEdit \<Rightarrow> bool" where
  "edit_recoverable meta cf e \<longleftrightarrow> edit_ok e \<and> edit_files_ok meta e \<and> (ve_has_comparator e \<longrightarrow> ve_comparator e = cf_comparator_name cf)"

lemma enc_decode:
  assumes "edit_ok e"
  shows "VersionEdit_EncodeTo e [] = Some (enc e)" "VersionEdit_DecodeFrom (enc e) make_VersionEdit = (OK, e)"
  using edit_roundtrip [OF assms, of make_VersionEdit] by (auto simp: enc_def make_VersionEdit_def)

text \<open>The state while the descriptor is read.\<close>

definition recovering :: "(64 word \<Rightarrow> fdesc) \<Rightarrow> 'd VersionSet \<Rightarrow> fptr multiset \<Rightarrow> fptr list list \<Rightarrow> nat \<Rightarrow> 'd manifest_state \<Rightarrow> bool" where
  "recovering meta vs0 owned base p st \<longleftrightarrow> ms_status st = OK \<and> building meta vs0 owned base p (ms_builder st, ms_vs st)"

definition read_set :: "fptr list list \<Rightarrow> 'd manifest_state \<Rightarrow> nat \<Rightarrow> fdesc set" where
  "read_set base st = build_set (vs_mem (ms_vs st)) base (ms_builder st)"

definition replayed :: "VersionEdit list \<Rightarrow> fptr list list \<Rightarrow> 'd manifest_state \<Rightarrow> 'd manifest_state \<Rightarrow> bool" where
  "replayed edits base st st' \<longleftrightarrow> (\<forall>level < 7. read_set base st' level = replay edits (read_set base st) level) \<and>
     vs_compact_pointer (ms_vs st') = replay_pointers edits (vs_compact_pointer (ms_vs st)) \<and>
     ms_log_number st' = latest ve_has_log_number ve_log_number edits (ms_log_number st) \<and>
     ms_prev_log_number st' = latest ve_has_prev_log_number ve_prev_log_number edits (ms_prev_log_number st) \<and>
     ms_next_file st' = latest ve_has_next_file_number ve_next_file_number edits (ms_next_file st) \<and>
     ms_last_sequence st' = latest ve_has_last_sequence ve_last_sequence edits (ms_last_sequence st)"

lemma replay_cong: "S level = T level \<Longrightarrow> replay edits S level = replay edits T level"
  unfolding replay_def
proof (induction edits arbitrary: S T)
  case (Cons e edits)
  from Cons.IH [of "apply_edit e S" "apply_edit e T"] apply_edit_cong [of S level T e, OF Cons.prems] show ?case by simp
qed simp

lemma replayed_Nil [simp]: "replayed [] base st st"
  by (simp add: replayed_def replay_def replay_pointers_def latest_def)

lemma replayed_Cons:
  assumes "replayed [e] base st st1" "replayed edits base st1 st'"
  shows "replayed (e # edits) base st st'"
proof -
  have "replay edits (read_set base st1) level = replay (e # edits) (read_set base st) level" if "level < 7" for level
  proof -
    have "read_set base st1 level = apply_edit e (read_set base st) level" using assms(1) that by (simp add: replayed_def replay_def)
    with replay_cong [of "read_set base st1" level "apply_edit e (read_set base st)" edits] show ?thesis by (simp add: replay_def)
  qed
  with assms show ?thesis by (simp add: replayed_def replay_pointers_def latest_def)
qed

lemma recover_edit_ok:
  assumes "recovering meta vs0 owned base p st" "edit_recoverable meta cf e" "cf_Compare cf = slice_compare"
  shows "\<exists>st'. recover_edit cf (enc e) st = Some st' \<and> recovering meta vs0 owned base p st' \<and> replayed [e] base st st'"
proof -
  have e: "edit_ok e" "edit_files_ok meta e" "ve_has_comparator e \<longrightarrow> ve_comparator e = cf_comparator_name cf" using assms(2) by (auto simp: edit_recoverable_def)
  have st: "ms_status st = OK" "building meta vs0 owned base p (ms_builder st, ms_vs st)" using assms(1) by (auto simp: recovering_def)
  from Builder_Apply_ok [OF st(2) e(2)] obtain b' vs' where
    1: "Builder_Apply slice_compare e (ms_builder st, ms_vs st) = Some (b', vs')" "building meta vs0 owned base p (b', vs')"
    "vs_compact_pointer vs' = set_pointers (ve_compact_pointers e) (vs_compact_pointer (ms_vs st))"
    "\<forall>level < 7. build_set (vs_mem vs') base b' level = apply_edit e (build_set (vs_mem (ms_vs st)) base (ms_builder st)) level" by blast
  define st' where "st' = \<lparr>ms_status = OK, ms_builder = b', ms_vs = vs',
       ms_log_number = take_number (ve_has_log_number e) (ve_log_number e) (ms_log_number st),
       ms_prev_log_number = take_number (ve_has_prev_log_number e) (ve_prev_log_number e) (ms_prev_log_number st),
       ms_next_file = take_number (ve_has_next_file_number e) (ve_next_file_number e) (ms_next_file st),
       ms_last_sequence = take_number (ve_has_last_sequence e) (ve_last_sequence e) (ms_last_sequence st)\<rparr>"
  have "recover_edit cf (enc e) st = Some st'"
    using enc_decode(2) [OF e(1)] e(3) 1(1) assms(3) by (auto simp: recover_edit_def st'_def ok_def)
  moreover have "recovering meta vs0 owned base p st'" using 1(2) by (simp add: recovering_def st'_def)
  moreover have "replayed [e] base st st'" using 1(3,4)
    by (simp add: replayed_def st'_def read_set_def replay_def replay_pointers_def latest_def)
  ultimately show ?thesis by blast
qed

declare recover_edits.simps(2) [simp del]

lemma recover_edits_prefix:
  assumes "posix_in.reader_at n (take m (log_bytes off (map enc edits))) r" "aligned off n" "length (log_bytes off (map enc edits)) < fuel"
    "length edits < rounds" "recovering meta vs0 owned base p st" "\<forall>e \<in> set edits. edit_recoverable meta cf e" "cf_Compare cf = slice_compare"
  shows "\<exists>k st' r'. recover_edits rounds fuel cf a r st = Some (st', r') \<and> recovering meta vs0 owned base p st' \<and>
    replayed (take k edits) base st st' \<and> length (log_bytes off (map enc (take k edits))) \<le> m \<and>
    (k < length edits \<longrightarrow> m < length (log_bytes off (map enc (take (Suc k) edits))))"
  using assms(1-6)
proof (induction edits arbitrary: n m off r rounds st)
  case Nil
  then obtain j where j: "rounds = Suc j" by (cases rounds) auto
  have st: "st\<lparr>ms_status := report_drops [] (ms_status st)\<rparr> = st" by (simp add: report_drops_def)
  from Nil.prems(1-3) show ?case
    by (cases rule: posix_in.next_record [where skip = Posix_Skip and a = a])
      (use Nil.prems(5) st in \<open>auto simp: j recover_edits.simps(2) no_new_drops intro!: exI [of _ st]\<close>)
next
  case (Cons e edits)
  obtain j where j: "rounds = Suc j" "length edits < j" using Cons.prems(4) by (cases rounds) auto
  have st: "st\<lparr>ms_status := report_drops [] (ms_status st)\<rparr> = st" by (simp add: report_drops_def)
  from Cons.prems(1-3) show ?case
  proof (cases rule: posix_in.next_record [where skip = Posix_Skip and a = a])
    case (finished r')
    with j Cons.prems(5) st show ?thesis
      by (intro exI [of _ 0] exI [of _ st] exI [of _ r']) (auto simp: recover_edits.simps(2) no_new_drops split: prod.splits)
  next
    case (whole d ds bs' off' r1 n1)
    then have d: "d = enc e" "ds = map enc edits" by auto
    have e: "edit_recoverable meta cf e" "\<forall>e \<in> set edits. edit_recoverable meta cf e" using Cons.prems(6) by auto
    from recover_edit_ok [OF Cons.prems(5) e(1) assms(7)] obtain st1 where
      st1: "recover_edit cf (enc e) st = Some st1" "recovering meta vs0 owned base p st1" "replayed [e] base st st1" by blast
    have "ok (ms_status st)" using Cons.prems(5) by (simp add: recovering_def ok_def)
    with whole(4,7) d(1) st1(1) st have step: "recover_edits rounds fuel cf a r st = recover_edits j fuel cf a r1 st1"
      by (simp add: j(1) recover_edits.simps(2) no_new_drops report_drops_def)
    from Cons.IH [OF whole(5,6,8) [unfolded d(2)] j(2) st1(2) e(2)] obtain k st' r' where
      "recover_edits j fuel cf a r1 st1 = Some (st', r')" "recovering meta vs0 owned base p st'" "replayed (take k edits) base st1 st'"
      "length (log_bytes off' (map enc (take k edits))) \<le> m - length bs'"
      "k < length edits \<longrightarrow> m - length bs' < length (log_bytes off' (map enc (take (Suc k) edits)))" by blast
    with step replayed_Cons [OF st1(3)] whole(2,3) d(1) show ?thesis
      by (intro exI [of _ "Suc k"] exI [of _ st'] exI [of _ r']) auto
  qed
qed

subsection \<open>Installing the version\<close>

lemma destroy_Builder_vset:
  assumes "vset_ok vs (add_mset (b_base b) held) (mset (concat (map ls_added_files (b_levels b))) + owned)" "vs_current vs = Some p"
    "version_built meta S p vs"
  shows "\<exists>vs'. destroy_Builder b vs = Some vs' \<and> vset_ok vs' held owned \<and> vs_current vs' = Some p \<and> version_built meta S p vs' \<and> frame vs vs'"
proof -
  let ?q = "b_base b"
  have h: "heap_ok vs (mset (concat (map ls_added_files (b_levels b))) + owned)" "version_refs_ok vs (add_mset ?q (add_mset p held))"
    "dom (vs_versions vs) = set_mset (add_mset p (add_mset ?q held))" "distinct (vs_list vs)" "set (vs_list vs) = dom (vs_versions vs)"
    "length (vs_compact_pointer vs) = 7" "\<forall>v \<in> ran (vs_versions vs). length (v_files v) = 7"
    using assms(1,2) by (auto simp: vset_ok_def add_mset_commute)
  from destroy_Builder_ok [OF h(1,2)] obtain vs' where
    1: "destroy_Builder b vs = Some vs'" "heap_ok vs' owned" "version_refs_ok vs' (add_mset p held)" "frame vs vs'" "vs_current vs' = vs_current vs"
    "if ?q \<in># add_mset p held then vs_list vs' = vs_list vs \<and> dom (vs_versions vs') = dom (vs_versions vs)
     else vs_list vs' = removeAll ?q (vs_list vs) \<and> dom (vs_versions vs') = dom (vs_versions vs) - {?q}"
    "\<forall>q v. vs_versions vs' q = Some v \<longrightarrow> (\<exists>v0. vs_versions vs q = Some v0 \<and> v_files v = v_files v0)" by blast
  have dom: "dom (vs_versions vs') = set_mset (add_mset p held)" using 1(6) h(3) by (auto split: if_splits)
  have list: "distinct (vs_list vs')" "set (vs_list vs') = dom (vs_versions vs')" using 1(6) h(4,5) by (auto simp: distinct_removeAll split: if_splits)
  have "\<forall>v \<in> ran (vs_versions vs'). length (v_files v) = 7" using 1(7) h(7) by (fastforce simp: ran_def)
  moreover have "length (vs_compact_pointer vs') = 7" using 1(4) h(6) by (simp add: frame_def)
  ultimately have "vset_ok vs' held owned" unfolding vset_ok_def using 1(2,3,5) assms(2) dom list by simp
  moreover have "p \<in> dom (vs_versions vs')" using dom by simp
  then have "map_option v_files (vs_versions vs' p) = map_option v_files (vs_versions vs p)" using 1(7) by fastforce
  with assms(3) 1(4) have "version_built meta S p vs'" using version_built_frame by blast
  ultimately show ?thesis using 1(1,4,5) assms(2) by auto
qed

lemma ReuseManifest_total:
  assumes "vs_descriptor vs = None"
  shows "\<exists>reused d n fs'. ReuseManifest cf dscname dscbase vs fs = Some (reused, vs\<lparr>vs_descriptor := d, vs_manifest_file_number := n\<rparr>, fs') \<and>
    descriptor_fits (vs\<lparr>vs_descriptor := d\<rparr>) \<and> (\<not> opt_reuse_logs (cf_options cf) \<longrightarrow> n = vs_manifest_file_number vs)"
proof -
  have "vs = vs\<lparr>vs_descriptor := vs_descriptor vs, vs_manifest_file_number := vs_manifest_file_number vs\<rparr>" by simp
  moreover have "\<exists>reused vs' fs'. ReuseManifest cf dscname dscbase vs fs = Some (reused, vs', fs') \<and>
      (vs' = vs \<or> opt_reuse_logs (cf_options cf) \<and> (\<exists>name f size n. vs' = vs\<lparr>vs_descriptor := Some (name, f, size mod kBlockSize), vs_manifest_file_number := n\<rparr>))"
    using assms by (auto simp: ReuseManifest_def split: option.split prod.split FileType.split)
  moreover have "descriptor_fits (vs\<lparr>vs_descriptor := Some (name, f, size mod kBlockSize)\<rparr>)" for name f size
    by (simp add: kBlockSize_def less_imp_le)
  moreover have "descriptor_fits (vs\<lparr>vs_descriptor := vs_descriptor vs\<rparr>)" using assms by (simp add: descriptor_fits_def)
  ultimately show ?thesis by metis
qed

text \<open>The set of versions that \<^verbatim>\<open>Recover\<close> starts with, or any other with an empty current version and no descriptor.\<close>

definition starting :: "'d VersionSet \<Rightarrow> nat \<Rightarrow> bool" where
  "starting vs cur \<longleftrightarrow> vset_ok vs {#} {#} \<and> vs_current vs = Some cur \<and> map_option v_files (vs_versions vs cur) = Some (replicate 7 []) \<and>
     vs_descriptor vs = None \<and> vs_compact_pointer vs = replicate 7 []"

lemma make_VersionSet_ok: "\<exists>vs. make_VersionSet D = Some vs \<and> starting vs 0 \<and> vs_next_file_number vs = 2"
proof -
  have "heap_ok \<lparr>vs_next_file_number = 2, vs_manifest_file_number = 0, vs_last_sequence = 0, vs_log_number = 0, vs_prev_log_number = 0,
      vs_descriptor = None, vs_mem = (\<lambda>_. make_FileMetaData 0 0 [] []), vs_live = {}, vs_versions = [0 \<mapsto> (make_Version D)\<lparr>v_refs := 1\<rparr>], vs_list = [0],
      vs_current = Some 0, vs_fresh = 1, vs_compact_pointer = replicate 7 []\<rparr> {#}"
    by (rule heap_okI) (auto simp: file_uses_def version_files_def make_Version_def)
  then show ?thesis
    by (auto simp: make_VersionSet_def new_Version_def AppendVersion_def Version_Ref_def make_Version_def kNumLevels_def starting_def vset_ok_def version_refs_ok_def)
qed

text \<open>What the numbers of a descriptor become.\<close>

definition numbers_known :: "VersionEdit list \<Rightarrow> bool" where
  "numbers_known edits \<longleftrightarrow> latest ve_has_next_file_number ve_next_file_number edits None \<noteq> None \<and>
     latest ve_has_log_number ve_log_number edits None \<noteq> None \<and> latest ve_has_last_sequence ve_last_sequence edits None \<noteq> None"

definition numbers_are :: "VersionEdit list \<Rightarrow> 'd VersionSet \<Rightarrow> bool" where
  "numbers_are edits vs \<longleftrightarrow>
     (\<exists>n. latest ve_has_next_file_number ve_next_file_number edits None = Some n \<and> vs_next_file_number vs = n + 1) \<and>
     latest ve_has_log_number ve_log_number edits None = Some (vs_log_number vs) \<and>
     latest ve_has_last_sequence ve_last_sequence edits None = Some (vs_last_sequence vs) \<and>
     vs_prev_log_number vs = (case latest ve_has_prev_log_number ve_prev_log_number edits None of None \<Rightarrow> 0 | Some n \<Rightarrow> n)"

lemma MarkFileNumberUsed_state: "\<exists>n. MarkFileNumberUsed k vs = vs\<lparr>vs_next_file_number := n\<rparr>"
proof -
  have "vs = vs\<lparr>vs_next_file_number := vs_next_file_number vs\<rparr>" by simp
  then show ?thesis unfolding MarkFileNumberUsed_def by metis
qed

lemma heap_ok_number [simp]: "heap_ok (vs\<lparr>vs_next_file_number := n\<rparr>) owned = heap_ok vs owned"
  by (simp add: heap_ok_def)

lemma building_vset:
  assumes "building meta vs0 owned base cur (b, vs)" "vset_ok vs0 held owned" "length (vs_compact_pointer vs) = 7"
  shows "\<exists>leaked. vset_ok vs held (mset (concat (map ls_added_files (b_levels b))) + (leaked + owned))"
proof -
  from assms(1) obtain leaked where b: "heap_ok vs (mset (concat (map ls_added_files (b_levels b))) + (leaked + owned))" "grown vs0 vs"
    by (auto simp: building_def)
  note g = grownD [OF b(2)]
  have "vset_ok vs held (mset (concat (map ls_added_files (b_levels b))) + (leaked + owned))"
    using assms(2,3) b(1) g(1-3) unfolding vset_ok_def version_refs_ok_def by simp
  then show ?thesis by blast
qed

lemma builder_ok_fresh:
  assumes "builder_ok meta h n base b" "n \<le> n'"
  shows "builder_ok meta h n' base b"
  using assms(1) file_good_mono [OF _ assms(2), of meta h _ h] unfolding builder_ok_def level_state_ok_def by blast

lemma levels_ok_empty: "levels_ok meta h n (replicate 7 [])"
  by (simp add: levels_ok_def level_files_ok_def)

text \<open>The version is saved, finished and appended while the builder still has its references.\<close>

lemma install_version:
  assumes "vset_ok vs (add_mset cur held) (mset (concat (map ls_added_files (b_levels b))) + owned)" "vs_current vs = Some cur" "b_base b = cur"
    "builder_ok meta (vs_mem vs) (vs_fresh vs) (replicate 7 []) b" "map_option v_files (vs_versions vs cur) = Some (replicate 7 [])"
    "\<forall>level < 7. build_set (vs_mem vs) (replicate 7 []) b level = S level" "\<forall>level. 0 < level \<and> level < 7 \<longrightarrow> disjoint_descs (S level)"
  shows "\<exists>p vs1 vs2 vs3 vs4. new_Version D vs = (p, vs1) \<and> SaveTo slice_compare b p vs1 = Some vs2 \<and> Finalize D p vs2 = Some vs3 \<and>
    AppendVersion p vs3 = Some vs4 \<and> vset_ok vs4 (add_mset cur held) (mset (concat (map ls_added_files (b_levels b))) + owned) \<and>
    vs_current vs4 = Some p \<and> version_built meta S p vs4 \<and> vs_descriptor vs4 = vs_descriptor vs \<and> vs_compact_pointer vs4 = vs_compact_pointer vs"
proof -
  let ?own = "mset (concat (map ls_added_files (b_levels b))) + owned" and ?p = "vs_fresh vs"
  define vs1 where "vs1 = snd (new_Version D vs)"
  note new = new_Version_ok(1-3) [where D = D, OF assms(1,2), folded vs1_def] new_Version_ok(4-6) [OF assms(1,2)]
  have run1: "new_Version D vs = (?p, vs1)" by (simp add: vs1_def new_Version_def)
  have f1: "vs_mem vs1 = vs_mem vs" "vs_fresh vs1 = ?p + 1" "vs_current vs1 = Some cur" "vs_list vs1 = vs_list vs" "vs_descriptor vs1 = vs_descriptor vs"
    "vs_compact_pointer vs1 = vs_compact_pointer vs" "vs_versions vs1 ?p = Some (make_Version D)" "vs_versions vs1 cur = vs_versions vs cur"
    using assms(2) new(5) by (simp_all add: vs1_def new_Version_def)
  obtain bv where bv: "vs_versions vs1 (b_base b) = Some bv" "v_files bv = replicate 7 []" using assms(3,5) f1(8) by auto
  have ok1: "builder_ok meta (vs_mem vs1) (vs_fresh vs1) (replicate 7 []) b" using builder_ok_fresh [OF assms(4)] f1(1,2) by simp
  have empty: "v_files (make_Version D) = replicate 7 []" by (simp add: make_Version_def kNumLevels_def)
  have none: "\<forall>level < 7. \<forall>f \<in> set (replicate 7 [] ! level). \<forall>g \<in> set (ls_added_files (b_levels b ! level)).
      fm_number (vs_mem vs1 f) = fm_number (vs_mem vs1 g) \<longrightarrow> fm_number (vs_mem vs1 f) \<in> set (ls_deleted_files (b_levels b ! level))" by simp
  have disj: "\<forall>level. 0 < level \<and> level < 7 \<longrightarrow> disjoint_descs (build_set (vs_mem vs1) (replicate 7 []) b level)" using assms(6,7) f1(1) by simp
  from SaveTo_ok [OF ok1 new(1) bv levels_ok_empty f1(7) empty none disj] obtain R h where
    2: "SaveTo slice_compare b ?p vs1 = Some (vs1\<lparr>vs_mem := h, vs_versions := (vs_versions vs1)(?p \<mapsto> (make_Version D)\<lparr>v_files := R\<rparr>)\<rparr>)"
    "heap_ok (vs1\<lparr>vs_mem := h, vs_versions := (vs_versions vs1)(?p \<mapsto> (make_Version D)\<lparr>v_files := R\<rparr>)\<rparr>) ?own"
    "levels_ok meta h (vs_fresh vs1) R" "\<forall>level < 7. level_descs h R level = build_set (vs_mem vs1) (replicate 7 []) b level" by blast
  define vs2 where "vs2 = vs1\<lparr>vs_mem := h, vs_versions := (vs_versions vs1)(?p \<mapsto> (make_Version D)\<lparr>v_files := R\<rparr>)\<rparr>"
  have r2: "version_refs_ok vs2 (add_mset cur (add_mset cur held))" using new(2) f1(7) by (auto simp: vs2_def version_refs_ok_def)
  have v2: "vs_versions vs2 ?p = Some ((make_Version D)\<lparr>v_files := R\<rparr>)" by (simp add: vs2_def)
  from Finalize_ok [OF 2(2) [folded vs2_def] r2 v2, of D] obtain v3 where
    3: "Finalize D ?p vs2 = Some (vs2\<lparr>vs_versions := (vs_versions vs2)(?p \<mapsto> v3)\<rparr>)" "v_files v3 = R"
    "heap_ok (vs2\<lparr>vs_versions := (vs_versions vs2)(?p \<mapsto> v3)\<rparr>) ?own"
    "version_refs_ok (vs2\<lparr>vs_versions := (vs_versions vs2)(?p \<mapsto> v3)\<rparr>) (add_mset cur (add_mset cur held))" by auto
  define vs3 where "vs3 = vs2\<lparr>vs_versions := (vs_versions vs2)(?p \<mapsto> v3)\<rparr>"
  have dom3: "dom (vs_versions vs3) = insert ?p (set_mset (add_mset cur (add_mset cur held)))" using new(3) by (auto simp: vs3_def vs2_def)
  have files3: "\<forall>w \<in> ran (vs_versions vs3). length (v_files w) = 7"
    using assms(1) 3(2) 2(3) by (auto simp: vs3_def vs2_def vs1_def new_Version_def vset_ok_def ran_def levels_ok_def split: if_splits)
  have f3: "vs_current vs3 = Some cur" "vs_list vs3 = vs_list vs" "vs_compact_pointer vs3 = vs_compact_pointer vs" "vs_descriptor vs3 = vs_descriptor vs"
    "vs_mem vs3 = h" "vs_fresh vs3 = vs_fresh vs1" "vs_versions vs3 ?p = Some v3" using f1 by (simp_all add: vs3_def vs2_def)
  have "distinct (vs_list vs)" "set (vs_list vs) = set_mset (add_mset cur (add_mset cur held))" "length (vs_compact_pointer vs) = 7"
    using assms(1,2) by (auto simp: vset_ok_def)
  then have "with_new_version vs3 ?p (add_mset cur held) ?own"
    unfolding with_new_version_def using 3(3,4) [folded vs3_def] dom3 files3 f3(1-3) new(4-6) by simp
  from AppendVersion_ok [OF this] obtain vs4 where 4: "AppendVersion ?p vs3 = Some vs4" "vset_ok vs4 (add_mset cur held) ?own" "vs_current vs4 = Some ?p"
    "frame vs3 vs4" "map_option v_files (vs_versions vs4 ?p) = map_option v_files (vs_versions vs3 ?p)" by blast
  have "version_built meta S ?p vs3" unfolding version_built_def using f3(5-7) 3(2) 2(3,4) assms(6) f1(1) by simp
  from version_built_frame [OF this 4(4,5)] have "version_built meta S ?p vs4" .
  moreover have "vs_descriptor vs4 = vs_descriptor vs" "vs_compact_pointer vs4 = vs_compact_pointer vs" using 4(4) f3(3,4) by (simp_all add: frame_def)
  ultimately show ?thesis using run1 2(1) [folded vs2_def] 3(1) [folded vs3_def] 4(1-3) by blast
qed

subsection \<open>Recovery\<close>

text \<open>What recovery makes of the edits that it finds.\<close>

definition recovered_version :: "(64 word \<Rightarrow> fdesc) \<Rightarrow> VsConfig \<Rightarrow> VersionEdit list \<Rightarrow> 'd VersionSet \<Rightarrow> bool" where
  "recovered_version meta cf edits vs \<longleftrightarrow> (\<exists>leaked. vset_ok vs {#} leaked) \<and>
     (\<exists>p. vs_current vs = Some p \<and> version_built meta (replay edits (\<lambda>_. {})) p vs) \<and>
     vs_compact_pointer vs = replay_pointers edits (replicate 7 []) \<and> numbers_are edits vs \<and> descriptor_fits vs \<and>
     (\<not> opt_reuse_logs (cf_options cf) \<longrightarrow> vs_next_file_number vs = vs_manifest_file_number vs + 1)"

definition edits_recoverable :: "(64 word \<Rightarrow> fdesc) \<Rightarrow> VsConfig \<Rightarrow> VersionEdit list \<Rightarrow> bool" where
  "edits_recoverable meta cf edits \<longleftrightarrow> (\<forall>e \<in> set edits. edit_recoverable meta cf e) \<and>
     (\<forall>k level. 0 < level \<and> level < 7 \<longrightarrow> disjoint_descs (replay (take k edits) (\<lambda>_. {}) level))"

lemma length_replay_pointers [simp]: "length (replay_pointers edits ps) = length ps"
  unfolding replay_pointers_def by (induction edits arbitrary: ps) auto

lemma install_recovered_ok:
  assumes "vset_ok (ms_vs st) (add_mset cur {#}) (mset (concat (map ls_added_files (b_levels (ms_builder st)))) + owned)" "vs_current (ms_vs st) = Some cur"
    "b_base (ms_builder st) = cur" "builder_ok meta (vs_mem (ms_vs st)) (vs_fresh (ms_vs st)) (replicate 7 []) (ms_builder st)"
    "map_option v_files (vs_versions (ms_vs st) cur) = Some (replicate 7 [])" "vs_descriptor (ms_vs st) = None"
    "\<forall>level < 7. read_set (replicate 7 []) st level = replay edits (\<lambda>_. {}) level"
    "\<forall>level. 0 < level \<and> level < 7 \<longrightarrow> disjoint_descs (replay edits (\<lambda>_. {}) level)" "cf_Compare cf = slice_compare" "ms_status st = OK"
    "ms_log_number st = latest ve_has_log_number ve_log_number edits None" "ms_prev_log_number st = latest ve_has_prev_log_number ve_prev_log_number edits None"
    "ms_next_file st = latest ve_has_next_file_number ve_next_file_number edits None"
    "ms_last_sequence st = latest ve_has_last_sequence ve_last_sequence edits None" "numbers_known edits"
  shows "\<exists>save vs' fs'. install_recovered D cf dscname current st fs = Some (OK, save, vs', fs') \<and>
    vset_ok vs' (add_mset cur {#}) (mset (concat (map ls_added_files (b_levels (ms_builder st)))) + owned) \<and>
    (\<exists>p. vs_current vs' = Some p \<and> version_built meta (replay edits (\<lambda>_. {})) p vs') \<and> numbers_are edits vs' \<and>
    vs_compact_pointer vs' = vs_compact_pointer (ms_vs st) \<and> descriptor_fits vs' \<and>
    (\<not> opt_reuse_logs (cf_options cf) \<longrightarrow> vs_next_file_number vs' = vs_manifest_file_number vs' + 1)"
proof -
  let ?b = "ms_builder st" and ?own = "mset (concat (map ls_added_files (b_levels (ms_builder st)))) + owned"
  from assms(13,15) obtain nf where nf: "ms_next_file st = Some nf" by (auto simp: numbers_known_def)
  from assms(11,15) obtain ln where ln: "ms_log_number st = Some ln" by (auto simp: numbers_known_def)
  from assms(14,15) obtain ls where ls: "ms_last_sequence st = Some ls" by (auto simp: numbers_known_def)
  define pn where "pn = (case ms_prev_log_number st of None \<Rightarrow> 0 | Some n \<Rightarrow> n)"
  obtain n where mark: "MarkFileNumberUsed ln (MarkFileNumberUsed pn (ms_vs st)) = (ms_vs st)\<lparr>vs_next_file_number := n\<rparr>"
  proof -
    obtain n1 where "MarkFileNumberUsed pn (ms_vs st) = (ms_vs st)\<lparr>vs_next_file_number := n1\<rparr>" using MarkFileNumberUsed_state by blast
    moreover obtain n2 where "MarkFileNumberUsed ln ((ms_vs st)\<lparr>vs_next_file_number := n1\<rparr>) = ((ms_vs st)\<lparr>vs_next_file_number := n1\<rparr>)\<lparr>vs_next_file_number := n2\<rparr>"
      using MarkFileNumberUsed_state by blast
    ultimately show thesis using that by simp
  qed
  let ?vs = "(ms_vs st)\<lparr>vs_next_file_number := n\<rparr>"
  have num: "recovered_numbers st = (OK, nf, ls, ln, pn, ?vs)"
    using nf ln ls assms(10) mark unfolding recovered_numbers_def Let_def pn_def [symmetric] by simp
  have "vset_ok ?vs (add_mset cur {#}) ?own" "vs_current ?vs = Some cur" "builder_ok meta (vs_mem ?vs) (vs_fresh ?vs) (replicate 7 []) ?b"
    "map_option v_files (vs_versions ?vs cur) = Some (replicate 7 [])"
    "\<forall>level < 7. build_set (vs_mem ?vs) (replicate 7 []) ?b level = replay edits (\<lambda>_. {}) level"
    using assms(1,2,4,5,7) by (simp_all add: read_set_def)
  from install_version [OF this(1,2) assms(3) this(3,4,5) assms(8), of D] obtain p vs1 vs2 vs3 vs4 where
    4: "new_Version D ?vs = (p, vs1)" "SaveTo slice_compare ?b p vs1 = Some vs2" "Finalize D p vs2 = Some vs3" "AppendVersion p vs3 = Some vs4"
    "vset_ok vs4 (add_mset cur {#}) ?own" "vs_current vs4 = Some p" "version_built meta (replay edits (\<lambda>_. {})) p vs4" "vs_descriptor vs4 = vs_descriptor ?vs"
    "vs_compact_pointer vs4 = vs_compact_pointer ?vs" by blast
  let ?vs5 = "vs4\<lparr>vs_manifest_file_number := nf, vs_next_file_number := nf + 1, vs_last_sequence := ls, vs_log_number := ln, vs_prev_log_number := pn\<rparr>"
  have "vs_descriptor ?vs5 = None" using 4(8) assms(6) by simp
  from ReuseManifest_total [OF this, of cf dscname current fs] obtain reused d mn fs' where
    5: "ReuseManifest cf dscname current ?vs5 fs = Some (reused, ?vs5\<lparr>vs_descriptor := d, vs_manifest_file_number := mn\<rparr>, fs')"
    "descriptor_fits (?vs5\<lparr>vs_descriptor := d\<rparr>)" "\<not> opt_reuse_logs (cf_options cf) \<longrightarrow> mn = vs_manifest_file_number ?vs5" by blast
  let ?vs6 = "?vs5\<lparr>vs_descriptor := d, vs_manifest_file_number := mn\<rparr>"
  have "install_recovered D cf dscname current st fs = Some (OK, \<not> reused, ?vs6, fs')"
    using 4(1-4) 5(1) assms(9) by (simp add: install_recovered_def num)
  moreover have "vset_ok ?vs6 (add_mset cur {#}) ?own" "vs_current ?vs6 = Some p" "version_built meta (replay edits (\<lambda>_. {})) p ?vs6"
    "vs_compact_pointer ?vs6 = vs_compact_pointer (ms_vs st)" using 4(5-7,9) by simp_all
  moreover have "numbers_are edits ?vs6" using nf ln ls assms(11-14) by (simp add: numbers_are_def pn_def)
  moreover have "descriptor_fits ?vs6" using 5(2) by (simp add: descriptor_fits_def)
  moreover have "\<not> opt_reuse_logs (cf_options cf) \<longrightarrow> vs_next_file_number ?vs6 = vs_manifest_file_number ?vs6 + 1" using 5(3) by simp
  ultimately show ?thesis by blast
qed

lemma recover_from_ok:
  assumes "starting vs cur" "sf_healthy file" "sf_rest file = take m (log_bytes 0 (map enc edits))" "length (log_bytes 0 (map enc edits)) < fuel"
    "length edits < rounds" "edits_recoverable meta cf edits" "cf_Compare cf = slice_compare"
  shows "\<exists>k. length (log_bytes 0 (map enc (take k edits))) \<le> m \<and>
    (k < length edits \<longrightarrow> m < length (log_bytes 0 (map enc (take (Suc k) edits)))) \<and>
    (numbers_known (take k edits) \<longrightarrow> (\<exists>save vs' fs'. recover_from rounds fuel D cf a dscname current file vs fs = Some (OK, save, vs', fs') \<and>
       recovered_version meta cf (take k edits) vs'))"
proof -
  have s: "vset_ok vs {#} {#}" "vs_current vs = Some cur" "vs_descriptor vs = None" "vs_compact_pointer vs = replicate 7 []" using assms(1) by (simp_all add: starting_def)
  obtain v where v: "vs_versions vs cur = Some v" "v_files v = replicate 7 []" using assms(1) by (auto simp: starting_def)
  have h: "heap_ok vs {#}" "version_refs_ok vs (add_mset cur {#})" using s(1,2) by (auto simp: vset_ok_def)
  define vs1 where "vs1 = vs\<lparr>vs_versions := (vs_versions vs)(cur \<mapsto> v\<lparr>v_refs := v_refs v + 1\<rparr>)\<rparr>"
  have lv: "levels_ok meta (vs_mem vs) (vs_fresh vs) (v_files v)" using v(2) levels_ok_empty by simp
  note mb = make_Builder_ok [OF h v(1) lv, folded vs1_def]
  from mb(1) [of "\<lambda>_. {}"] obtain b where b: "make_Builder cur vs = Some (b, vs1)" "building meta vs1 {#} (replicate 7 []) cur (b, vs1)"
    "\<forall>level < 7. build_set (vs_mem vs1) (replicate 7 []) b level = level_descs (vs_mem vs) (replicate 7 []) level" unfolding v(2) by blast
  have ok1: "vset_ok vs1 (add_mset cur {#}) {#}"
    using s(1,2) mb(2,3) v by (auto simp: vset_ok_def vs1_def ran_def split: if_splits)
  let ?st = "\<lparr>ms_status = OK, ms_builder = b, ms_vs = vs1, ms_log_number = None, ms_prev_log_number = None, ms_next_file = None, ms_last_sequence = None\<rparr>"
  have "recovering meta vs1 {#} (replicate 7 []) cur ?st" using b(2) by (simp add: recovering_def)
  moreover have "\<forall>e \<in> set edits. edit_recoverable meta cf e" using assms(6) by (simp add: edits_recoverable_def)
  moreover have "posix_in.reader_at 0 (take m (log_bytes 0 (map enc edits))) (make_Reader file True True 0)"
    using make_Reader_at [OF assms(2), of True True] assms(3) by simp
  moreover have "aligned 0 0" by (simp add: aligned_def)
  ultimately obtain k st' r' where
    k: "recover_edits rounds fuel cf a (make_Reader file True True 0) ?st = Some (st', r')" "recovering meta vs1 {#} (replicate 7 []) cur st'"
    "replayed (take k edits) (replicate 7 []) ?st st'" "length (log_bytes 0 (map enc (take k edits))) \<le> m"
    "k < length edits \<longrightarrow> m < length (log_bytes 0 (map enc (take (Suc k) edits)))"
    using recover_edits_prefix [of 0 m 0 edits "make_Reader file True True 0" fuel rounds meta vs1 "{#}" "replicate 7 []" cur ?st cf a] assms(4,5,7) by blast
  have st': "ms_status st' = OK" "building meta vs1 {#} (replicate 7 []) cur (ms_builder st', ms_vs st')" using k(2) by (auto simp: recovering_def)
  have empty: "read_set (replicate 7 []) ?st level = {}" if "level < 7" for level using b(3) that by (simp add: read_set_def level_descs_def)
  have set': "\<forall>level < 7. read_set (replicate 7 []) st' level = replay (take k edits) (\<lambda>_. {}) level"
  proof (intro allI impI)
    fix level :: nat assume level: "level < 7"
    have "read_set (replicate 7 []) st' level = replay (take k edits) (read_set (replicate 7 []) ?st) level" using k(3) level by (simp add: replayed_def)
    also have "\<dots> = replay (take k edits) (\<lambda>_. {}) level" by (rule replay_cong) (rule empty [OF level])
    finally show "read_set (replicate 7 []) st' level = replay (take k edits) (\<lambda>_. {}) level" .
  qed
  have cp: "vs_compact_pointer (ms_vs st') = replay_pointers (take k edits) (replicate 7 [])" using k(3) s(4) by (simp add: replayed_def vs1_def)
  obtain leaked where own: "vset_ok (ms_vs st') (add_mset cur {#}) (mset (concat (map ls_added_files (b_levels (ms_builder st')))) + (leaked + {#}))"
    using building_vset [OF st'(2) ok1] cp by auto
  have g: "grown vs1 (ms_vs st')" "b_base (ms_builder st') = cur" "builder_ok meta (vs_mem (ms_vs st')) (vs_fresh (ms_vs st')) (replicate 7 []) (ms_builder st')"
    using st'(2) by (auto simp: building_def)
  have cur': "vs_current (ms_vs st') = Some cur" "map_option v_files (vs_versions (ms_vs st') cur) = Some (replicate 7 [])" "vs_descriptor (ms_vs st') = None"
    using grownD(1,3,4) [OF g(1)] s(2,3) v(2) by (simp_all add: vs1_def)
  have disj: "\<forall>level. 0 < level \<and> level < 7 \<longrightarrow> disjoint_descs (replay (take k edits) (\<lambda>_. {}) level)" using assms(6) by (simp add: edits_recoverable_def)
  have nums: "ms_log_number st' = latest ve_has_log_number ve_log_number (take k edits) None"
    "ms_prev_log_number st' = latest ve_has_prev_log_number ve_prev_log_number (take k edits) None"
    "ms_next_file st' = latest ve_has_next_file_number ve_next_file_number (take k edits) None"
    "ms_last_sequence st' = latest ve_has_last_sequence ve_last_sequence (take k edits) None" using k(3) by (simp_all add: replayed_def)
  have "\<exists>save vs' fs'. recover_from rounds fuel D cf a dscname current file vs fs = Some (OK, save, vs', fs') \<and> recovered_version meta cf (take k edits) vs'"
    if known: "numbers_known (take k edits)"
  proof -
    let ?fs = "snd (system_call (fs\<lparr>fs_reads := sf_calls (lr_file r')\<rparr>))"
    from install_recovered_ok [OF own cur'(1) g(2,3) cur'(2,3) set' disj assms(7) st'(1) nums known, of D dscname current ?fs] obtain save vs2 fs2 p where
      2: "install_recovered D cf dscname current st' ?fs = Some (OK, save, vs2, fs2)"
      "vset_ok vs2 (add_mset cur {#}) (mset (concat (map ls_added_files (b_levels (ms_builder st')))) + (leaked + {#}))"
      "vs_current vs2 = Some p" "version_built meta (replay (take k edits) (\<lambda>_. {})) p vs2" "numbers_are (take k edits) vs2"
      "vs_compact_pointer vs2 = vs_compact_pointer (ms_vs st')" "descriptor_fits vs2"
      "\<not> opt_reuse_logs (cf_options cf) \<longrightarrow> vs_next_file_number vs2 = vs_manifest_file_number vs2 + 1" by blast
    from destroy_Builder_vset [OF 2(2) [folded g(2)] 2(3,4)] obtain vs3 where
      3: "destroy_Builder (ms_builder st') vs2 = Some vs3" "vset_ok vs3 {#} (leaked + {#})" "vs_current vs3 = Some p"
      "version_built meta (replay (take k edits) (\<lambda>_. {})) p vs3" "frame vs2 vs3" by blast
    have "recover_from rounds fuel D cf a dscname current file vs fs = Some (OK, save, vs3, fs2)"
      using s(2) b(1) k(1) st'(1) 2(1) 3(1) by (simp add: recover_from_def ok_def)
    moreover have "numbers_are (take k edits) vs3" "vs_compact_pointer vs3 = replay_pointers (take k edits) (replicate 7 [])" "descriptor_fits vs3"
      "\<not> opt_reuse_logs (cf_options cf) \<longrightarrow> vs_next_file_number vs3 = vs_manifest_file_number vs3 + 1"
      using 3(5) 2(5-8) cp by (simp_all add: frame_def numbers_are_def descriptor_fits_def)
    ultimately show ?thesis using 3(2-4) unfolding recovered_version_def by blast
  qed
  with k(4,5) show ?thesis by blast
qed

text \<open>Files that can be read: reads may be interrupted, but nothing fails.\<close>

definition readable :: "filesystem \<Rightarrow> bool" where
  "readable fs \<longleftrightarrow> fs_calls fs = [] \<and> (\<forall>e. Read_fails e \<in> set (fs_reads fs) \<longrightarrow> e = EINTR)"

lemma Posix_Read_calls: "Posix_Read f n = (s, bs, f') \<Longrightarrow> set (sf_calls f') \<subseteq> set (sf_calls f)"
proof (induction f n arbitrary: s bs f' rule: Posix_Read.induct)
  case (1 f n)
  show ?case
  proof (cases "sf_calls f")
    case Nil
    with "1.prems" show ?thesis by (subst (asm) Posix_Read.simps) auto
  next
    case (Cons c calls)
    show ?thesis
    proof (cases c)
      case Reads
      with Cons "1.prems" show ?thesis by (subst (asm) Posix_Read.simps) auto
    next
      case (Read_fails e)
      with Cons "1.prems" "1.IH" [of c calls e] show ?thesis by (subst (asm) Posix_Read.simps) (force split: if_splits)
    qed
  qed
qed

lemma read_file_loop_calls: "read_file_loop f data = (s, d, f') \<Longrightarrow> set (sf_calls f') \<subseteq> set (sf_calls f)"
proof (induction f data arbitrary: s d f' rule: read_file_loop.induct)
  case (1 f data)
  obtain s1 bs f1 where r: "Posix_Read f 8192 = (s1, bs, f1)" by (metis prod_cases3)
  have c: "set (sf_calls f1) \<subseteq> set (sf_calls f)" by (rule Posix_Read_calls [OF r])
  show ?case
  proof (cases "s1 = OK \<and> bs \<noteq> []")
    case True
    with r "1.prems" have "read_file_loop f1 (data @ bs) = (s, d, f')" by (subst (asm) read_file_loop.simps) simp
    with "1.IH" [OF r [symmetric] refl] True c show ?thesis by (metis order_trans)
  next
    case False
    with r "1.prems" have "f' = f1" by (subst (asm) read_file_loop.simps) (auto split: if_splits)
    with c show ?thesis by simp
  qed
qed

lemma ReadFileToString_readable:
  assumes "fs_files fs fname = Some bs" "readable fs"
  shows "\<exists>fs'. ReadFileToString fname fs = (OK, bs, fs') \<and> readable fs' \<and> fs_files fs' = fs_files fs"
proof -
  let ?f = "\<lparr>sf_name = chars_of fname, sf_strerror = fs_strerror fs, sf_rest = bs, sf_calls = fs_reads fs\<rparr>"
  have calls: "fs_calls fs = []" "\<forall>e. Read_fails e \<in> set (fs_reads fs) \<longrightarrow> e = EINTR" using assms(2) by (simp_all add: readable_def)
  obtain f' where f': "read_file_loop ?f [] = (OK, bs, f')" using read_loop_healthy [of ?f "[]"] calls(2) by (auto simp: sf_healthy_def)
  with read_file_loop_calls [OF f'] calls assms(1) show ?thesis
    by (auto simp: ReadFileToString_def NewSequentialFile_def system_call_def readable_def)
qed

lemma Recover_ok:
  assumes "starting vs cur" "readable fs" "fs_files fs (CurrentFileName (cf_dbname cf)) = Some (base @ [10])"
    "fs_files fs (cf_dbname cf @ bytes_of ''/'' @ base) = Some (take m (log_bytes 0 (map enc edits)))" "length (log_bytes 0 (map enc edits)) < fuel"
    "length edits < rounds" "edits_recoverable meta cf edits" "cf_Compare cf = slice_compare"
  shows "\<exists>k. length (log_bytes 0 (map enc (take k edits))) \<le> m \<and>
    (k < length edits \<longrightarrow> m < length (log_bytes 0 (map enc (take (Suc k) edits)))) \<and>
    (numbers_known (take k edits) \<longrightarrow> (\<exists>save vs' fs'. Recover rounds fuel D cf a vs fs = Some (OK, save, vs', fs') \<and>
       recovered_version meta cf (take k edits) vs'))"
proof -
  let ?dsc = "cf_dbname cf @ bytes_of ''/'' @ base"
  obtain fs1 where 1: "ReadFileToString (CurrentFileName (cf_dbname cf)) fs = (OK, base @ [10], fs1)" "readable fs1" "fs_files fs1 = fs_files fs"
    using ReadFileToString_readable [OF assms(3,2)] by blast
  let ?file = "\<lparr>sf_name = chars_of ?dsc, sf_strerror = fs_strerror fs1, sf_rest = take m (log_bytes 0 (map enc edits)), sf_calls = fs_reads fs1\<rparr>"
  have 2: "NewSequentialFile ?dsc fs1 = (OK, Some ?file, fs1)"
    using 1(2,3) assms(4) by (simp add: NewSequentialFile_def system_call_def readable_def)
  have "sf_healthy ?file" using 1(2) by (simp add: sf_healthy_def readable_def)
  from recover_from_ok [OF assms(1) this _ assms(5-8), where m = m and D = D and a = a and dscname = ?dsc and current = base and fs = fs1]
  have "\<exists>k. length (log_bytes 0 (map enc (take k edits))) \<le> m \<and>
    (k < length edits \<longrightarrow> m < length (log_bytes 0 (map enc (take (Suc k) edits)))) \<and>
    (numbers_known (take k edits) \<longrightarrow> (\<exists>save vs' fs'. recover_from rounds fuel D cf a ?dsc base ?file vs fs1 = Some (OK, save, vs', fs') \<and>
       recovered_version meta cf (take k edits) vs'))" by simp
  moreover have "Recover rounds fuel D cf a vs fs = recover_from rounds fuel D cf a ?dsc base ?file vs fs1"
    using 1(1) 2 by (simp add: Recover_def ok_def Let_def)
  ultimately show ?thesis by simp
qed

end
