(* ===== verification/Ldb_Version_States.thy ===== *)
theory Ldb_Version_States
  imports Ldb_Version_Recovery
begin

text \<open>
  The states of a version set that its clients can reach: it is made or recovered, clients take and give back references to
  versions, take numbers, and apply edits, while the file system does what it likes.
\<close>

subsection \<open>Reachable states\<close>

text \<open>\<open>held\<close> are the references that clients have, \<open>S\<close> the files at the levels of the current version.\<close>

inductive vset_reachable ::
  "'d double_ops \<Rightarrow> VsConfig \<Rightarrow> (64 word \<Rightarrow> fdesc) \<Rightarrow> 'd VersionSet \<Rightarrow> nat multiset \<Rightarrow> (nat \<Rightarrow> fdesc set) \<Rightarrow> bool"
  for D cf meta where
  made: "make_VersionSet D = Some vs \<Longrightarrow> vset_reachable D cf meta vs {#} (\<lambda>_. {})"
| recovered: "make_VersionSet D = Some vs0 \<Longrightarrow> readable fs \<Longrightarrow>
    fs_files fs (CurrentFileName (cf_dbname cf)) = Some (base @ [10]) \<Longrightarrow>
    fs_files fs (cf_dbname cf @ bytes_of ''/'' @ base) = Some (log_bytes 0 (map enc edits)) \<Longrightarrow>
    edits_recoverable meta cf edits \<Longrightarrow> numbers_known edits \<Longrightarrow> length (log_bytes 0 (map enc edits)) < fuel \<Longrightarrow> length edits < rounds \<Longrightarrow>
    Recover rounds fuel D cf a vs0 fs = Some (s, save, vs, fs') \<Longrightarrow> vset_reachable D cf meta vs {#} (replay edits (\<lambda>_. {}))"
| ref_current: "vset_reachable D cf meta vs held S \<Longrightarrow> vs_current vs = Some p \<Longrightarrow> Version_Ref p vs = Some vs' \<Longrightarrow>
    vset_reachable D cf meta vs' (add_mset p held) S"
| ref_held: "vset_reachable D cf meta vs held S \<Longrightarrow> p \<in># held \<Longrightarrow> Version_Ref p vs = Some vs' \<Longrightarrow> vset_reachable D cf meta vs' (add_mset p held) S"
| unref: "vset_reachable D cf meta vs (add_mset p held) S \<Longrightarrow> Version_Unref p vs = Some vs' \<Longrightarrow> vset_reachable D cf meta vs' held S"
| new_number: "vset_reachable D cf meta vs held S \<Longrightarrow> NewFileNumber vs = (n, vs') \<Longrightarrow> vset_reachable D cf meta vs' held S"
| reuse_number: "vset_reachable D cf meta vs held S \<Longrightarrow> vset_reachable D cf meta (ReuseFileNumber n vs) held S"
| mark_number: "vset_reachable D cf meta vs held S \<Longrightarrow> vset_reachable D cf meta (MarkFileNumberUsed n vs) held S"
| last_sequence: "vset_reachable D cf meta vs held S \<Longrightarrow> VersionSet_SetLastSequence q vs = Some vs' \<Longrightarrow> vset_reachable D cf meta vs' held S"
| log_and_apply: "vset_reachable D cf meta vs held S \<Longrightarrow> edit_fits meta edit S \<Longrightarrow>
    ve_has_log_number edit \<longrightarrow> ve_log_number edit \<ge> vs_log_number vs \<and> ve_log_number edit < vs_next_file_number vs \<Longrightarrow>
    edit_ok edit \<Longrightarrow> state_fits cf (vs\<lparr>vs_compact_pointer := set_pointers (ve_compact_pointers edit) (vs_compact_pointer vs)\<rparr>) \<Longrightarrow>
    0 < vs_manifest_file_number vs \<Longrightarrow> LogAndApply D cf a edit vs fs = Some (s, e, vs', fs') \<Longrightarrow>
    vset_reachable D cf meta vs' held (if ok s then apply_edit edit S else S)"

definition vset_inv :: "(64 word \<Rightarrow> fdesc) \<Rightarrow> 'd VersionSet \<Rightarrow> nat multiset \<Rightarrow> (nat \<Rightarrow> fdesc set) \<Rightarrow> bool" where
  "vset_inv meta vs held S \<longleftrightarrow> (\<exists>leaked. vset_ok vs held leaked) \<and> (\<exists>p. vs_current vs = Some p \<and> version_built meta S p vs) \<and> descriptor_fits vs"

lemma vset_inv_number [simp]:
  "vset_inv meta (vs\<lparr>vs_next_file_number := n\<rparr>) held S = vset_inv meta vs held S" "vset_inv meta (vs\<lparr>vs_last_sequence := n\<rparr>) held S = vset_inv meta vs held S"
  by (simp_all add: vset_inv_def descriptor_fits_def)

lemma starting_built:
  assumes "starting vs cur"
  shows "vset_inv meta vs {#} (\<lambda>_. {})"
proof -
  from assms obtain v where v: "vs_versions vs cur = Some v" "v_files v = replicate 7 []" by (auto simp: starting_def)
  then have "version_built meta (\<lambda>_. {}) cur vs" using levels_ok_empty by (auto simp: version_built_def level_descs_def)
  then show ?thesis using assms by (auto simp: vset_inv_def starting_def descriptor_fits_def)
qed

lemma Version_Ref_inv:
  assumes "vset_inv meta vs held S" "vs_current vs = Some p \<or> p \<in># held" "Version_Ref p vs = Some vs'"
  shows "vset_inv meta vs' (add_mset p held) S"
proof -
  from assms(1) obtain leaked cur where i: "vset_ok vs held leaked" "vs_current vs = Some cur" "version_built meta S cur vs" "descriptor_fits vs"
    by (auto simp: vset_inv_def)
  then have h: "heap_ok vs leaked" "version_refs_ok vs (add_mset cur held)" "dom (vs_versions vs) = set_mset (add_mset cur held)" by (auto simp: vset_ok_def)
  from assms(3) obtain v where v: "vs_versions vs p = Some v" by (auto simp: Version_Ref_def bind_eq_Some_conv)
  note R = Version_Ref_ok [OF h(1,2) v]
  have vs': "vs' = vs\<lparr>vs_versions := (vs_versions vs)(p \<mapsto> v\<lparr>v_refs := v_refs v + 1\<rparr>)\<rparr>" using R(1) assms(3) by simp
  have in_dom: "p \<in># add_mset cur held" using assms(2) i(2) by auto
  have "vset_ok vs' (add_mset p held) leaked"
    using i(1,2) R(2,3) h(3) v in_dom unfolding vset_ok_def vs'
    by (auto simp: add_mset_commute ran_def split: if_splits)
  moreover have "version_built meta S cur vs'" by (rule version_built_frame [OF i(3)]) (use R(4) v in \<open>auto simp: vs'\<close>)
  ultimately show ?thesis using i(2,4) by (auto simp: vset_inv_def vs' descriptor_fits_def)
qed

lemma Version_Unref_inv:
  assumes "vset_inv meta vs (add_mset p held) S"
  shows "\<exists>vs'. Version_Unref p vs = Some vs' \<and> vset_inv meta vs' held S"
proof -
  from assms obtain leaked cur where i: "vset_ok vs (add_mset p held) leaked" "vs_current vs = Some cur" "version_built meta S cur vs" "descriptor_fits vs"
    by (auto simp: vset_inv_def)
  then have h: "heap_ok vs leaked" "version_refs_ok vs (add_mset p (add_mset cur held))" "dom (vs_versions vs) = set_mset (add_mset cur (add_mset p held))"
    "distinct (vs_list vs)" "set (vs_list vs) = dom (vs_versions vs)" "length (vs_compact_pointer vs) = 7" "\<forall>v \<in> ran (vs_versions vs). length (v_files v) = 7"
    by (auto simp: vset_ok_def add_mset_commute)
  from Version_Unref_ok [OF h(1,2)] obtain vs' where
    1: "Version_Unref p vs = Some vs'" "heap_ok vs' leaked" "version_refs_ok vs' (add_mset cur held)" "frame vs vs'" "vs_current vs' = vs_current vs"
    "if p \<in># add_mset cur held then vs_list vs' = vs_list vs \<and> dom (vs_versions vs') = dom (vs_versions vs)
     else vs_list vs' = removeAll p (vs_list vs) \<and> dom (vs_versions vs') = dom (vs_versions vs) - {p}"
    "\<forall>q v. vs_versions vs' q = Some v \<longrightarrow> (\<exists>v0. vs_versions vs q = Some v0 \<and> v_files v = v_files v0)" by blast
  have dom: "dom (vs_versions vs') = set_mset (add_mset cur held)" using 1(6) h(3) by (auto split: if_splits)
  have list: "distinct (vs_list vs')" "set (vs_list vs') = dom (vs_versions vs')" using 1(6) h(4,5) by (auto simp: distinct_removeAll split: if_splits)
  have "\<forall>v \<in> ran (vs_versions vs'). length (v_files v) = 7" using 1(7) h(7) by (fastforce simp: ran_def)
  then have "vset_ok vs' held leaked" unfolding vset_ok_def using 1(2,3,4,5) i(2) dom list h(6) by (simp add: frame_def)
  moreover have "cur \<in> dom (vs_versions vs')" using dom by simp
  then have "map_option v_files (vs_versions vs' cur) = map_option v_files (vs_versions vs cur)" using 1(7) by fastforce
  then have "version_built meta S cur vs'" using version_built_frame [OF i(3) 1(4)] by blast
  moreover have "descriptor_fits vs'" using i(4) 1(4) by (simp add: descriptor_fits_def frame_def)
  ultimately show ?thesis using 1(1,5) i(2) by (auto simp: vset_inv_def)
qed

text \<open>Without references of clients the set can be destroyed.\<close>

lemma destroy_VersionSet_inv:
  assumes "vset_inv meta vs {#} S"
  shows "\<exists>vs' fs'. destroy_VersionSet vs fs = Some (vs', fs') \<and> vs_versions vs' = (\<lambda>_. None)"
proof -
  from assms obtain leaked cur where i: "vset_ok vs {#} leaked" "vs_current vs = Some cur" by (auto simp: vset_inv_def)
  then have h: "heap_ok vs leaked" "version_refs_ok vs (add_mset cur {#})" "dom (vs_versions vs) = {cur}" "set (vs_list vs) = {cur}" by (auto simp: vset_ok_def)
  from Version_Unref_ok [OF h(1,2)] obtain vs' where
    1: "Version_Unref cur vs = Some vs'" "vs_list vs' = removeAll cur (vs_list vs)" "dom (vs_versions vs') = dom (vs_versions vs) - {cur}" by auto
  have "vs_list vs' = []" using 1(2) h(4) by (metis Diff_cancel set_empty set_removeAll)
  moreover have "vs_versions vs' = (\<lambda>_. None)" using 1(3) h(3) by (metis Diff_cancel dom_eq_empty_conv)
  ultimately show ?thesis using 1(1) i(2) by (simp add: destroy_VersionSet_def)
qed

lemma whole_log:
  assumes "length (log_bytes off (map enc edits)) = m" "k < length edits \<longrightarrow> m < length (log_bytes off (map enc (take (Suc k) edits)))"
  shows "take k edits = edits"
proof (rule take_all, rule ccontr)
  have le: "length (log_bytes off ds) \<le> length (log_bytes off (ds @ ds'))" for ds ds'
    by (induction ds arbitrary: off) (auto split: prod.splits)
  assume "\<not> length edits \<le> k"
  with assms have "length (log_bytes off (map enc edits)) < length (log_bytes off (map enc (take (Suc k) edits)))" by simp
  moreover have "map enc edits = map enc (take (Suc k) edits) @ map enc (drop (Suc k) edits)" by (simp flip: map_append)
  ultimately show False using le [of "map enc (take (Suc k) edits)" "map enc (drop (Suc k) edits)"] by simp
qed

lemma reachable_inv:
  assumes "vset_reachable D cf meta vs held S" "cf_Compare cf = slice_compare" "meta_fits meta"
  shows "vset_inv meta vs held S"
  using assms(1)
proof (induction rule: vset_reachable.induct)
  case (made vs)
  with make_VersionSet_ok [of D] starting_built show ?case by fastforce
next
  case (recovered vs0 fs base edits fuel rounds a s save vs fs')
  have st: "starting vs0 0" using make_VersionSet_ok [of D] recovered.hyps(1) by auto
  have bytes: "fs_files fs (cf_dbname cf @ bytes_of ''/'' @ base) = Some (take (length (log_bytes 0 (map enc edits))) (log_bytes 0 (map enc edits)))"
    using recovered.hyps(4) by simp
  from Recover_ok [OF st recovered.hyps(2,3) bytes recovered.hyps(7,8,5) assms(2), of D a] obtain k where
    k: "k < length edits \<longrightarrow> length (log_bytes 0 (map enc edits)) < length (log_bytes 0 (map enc (take (Suc k) edits)))"
    "numbers_known (take k edits) \<longrightarrow> (\<exists>save vs' fs'. Recover rounds fuel D cf a vs0 fs = Some (OK, save, vs', fs') \<and> recovered_version meta cf (take k edits) vs')"
    by blast
  from k(2) recovered.hyps(6,9) have "recovered_version meta cf edits vs" unfolding whole_log [OF refl k(1)] by auto
  then show ?case by (auto simp: recovered_version_def vset_inv_def)
next
  case (unref vs p held S vs')
  with Version_Unref_inv show ?case by fastforce
next
  case (log_and_apply vs held S edit a fs s e vs' fs')
  from log_and_apply.IH obtain leaked cur where i: "vset_ok vs held leaked" "vs_current vs = Some cur" "version_built meta S cur vs" "descriptor_fits vs"
    by (auto simp: vset_inv_def)
  have "length (vs_compact_pointer vs) = 7" using i(1) by (simp add: vset_ok_def)
  from LogAndApply_ok [OF i(1-3) log_and_apply.hyps(2,3,4) assms(3) this log_and_apply.hyps(5) assms(2) log_and_apply.hyps(6) i(4), of D a fs]
  show ?case using log_and_apply.hyps(7) by (auto simp: vset_inv_def)
qed (auto simp: NewFileNumber_def ReuseFileNumber_def MarkFileNumberUsed_def VersionSet_SetLastSequence_def split: if_splits intro: Version_Ref_inv)

subsection \<open>Properties\<close>


text \<open>
  C19. \<^verbatim>\<open>LogAndApply\<close> implements an edit: in every reachable state, for an edit that fits the current version, it returns, whatever the file system does. With a
  good status the current version has exactly the files that the edit makes of those it had; with any other
  status it has the files it had. In both cases the state is well formed.
\<close>

theorem log_and_apply_refines:
  assumes "vset_reachable D cf meta vs held S" "cf_Compare cf = slice_compare" "meta_fits meta" "edit_fits meta edit S" "edit_ok edit"
    "ve_has_log_number edit \<longrightarrow> ve_log_number edit \<ge> vs_log_number vs \<and> ve_log_number edit < vs_next_file_number vs"
    "state_fits cf (vs\<lparr>vs_compact_pointer := set_pointers (ve_compact_pointers edit) (vs_compact_pointer vs)\<rparr>)" "0 < vs_manifest_file_number vs"
  shows "\<exists>s e vs' fs'. LogAndApply D cf a edit vs fs = Some (s, e, vs', fs') \<and> vset_inv meta vs' held (if ok s then apply_edit edit S else S)"
proof -
  from reachable_inv [OF assms(1-3)] obtain leaked cur where
    i: "vset_ok vs held leaked" "vs_current vs = Some cur" "version_built meta S cur vs" "descriptor_fits vs" by (auto simp: vset_inv_def)
  have "length (vs_compact_pointer vs) = 7" using i(1) by (simp add: vset_ok_def)
  from LogAndApply_ok [OF i(1-3) assms(4,6,5,3) this assms(7,2,8) i(4), of D a fs] show ?thesis unfolding vset_inv_def by blast
qed

text \<open>
  C20. Recovery of the version set: from a descriptor that holds the encoded edits, or the part of it that a crash has left,
  a new version set becomes the one that the edits that are whole in that part make, one after the other, from an empty database: the files of
  every level, the pointers, the sequence number, the log numbers and the next file number. (As long as the numbers that are required are there.)
\<close>

theorem descriptor_recovered:
  assumes "make_VersionSet D = Some vs" "readable fs" "fs_files fs (CurrentFileName (cf_dbname cf)) = Some (base @ [10])"
    "fs_files fs (cf_dbname cf @ bytes_of ''/'' @ base) = Some (take m (log_bytes 0 (map enc edits)))" "length (log_bytes 0 (map enc edits)) < fuel"
    "length edits < rounds" "edits_recoverable meta cf edits" "cf_Compare cf = slice_compare"
  shows "\<exists>k. length (log_bytes 0 (map enc (take k edits))) \<le> m \<and>
    (k < length edits \<longrightarrow> m < length (log_bytes 0 (map enc (take (Suc k) edits)))) \<and>
    (numbers_known (take k edits) \<longrightarrow> (\<exists>save vs' fs'. Recover rounds fuel D cf a vs fs = Some (OK, save, vs', fs') \<and>
       recovered_version meta cf (take k edits) vs'))"
proof -
  have "starting vs 0" using make_VersionSet_ok [of D] assms(1) by auto
  from Recover_ok [OF this assms(2-8)] show ?thesis .
qed

subsection \<open>An example\<close>

definition ex_double :: "int double_ops" where
  "ex_double = \<lparr>d_int = id, d_uint64 = uint, d_times = (*), d_divide = (div), d_less = (<), d_less_eq = (\<le>)\<rparr>"

definition ex_cf :: VsConfig where
  "ex_cf = \<lparr>cf_dbname = bytes_of ''db'', cf_options = Options.extend (internal_options 15 4096 kNoCompression True None) (DbOptions.fields 2097152 False),
     cf_Compare = slice_compare, cf_comparator_name = bytes_of ''leveldb.BytewiseComparator''\<rparr>"

definition ex_meta :: "64 word \<Rightarrow> fdesc" where
  "ex_meta n = (n, 100, fm_smallest (ex_files 0), fm_largest (ex_files 0))"

definition ex_first :: VersionEdit where
  "ex_first = SetLastSequence 7 (SetNextFile 3 (SetLogNumber 1 make_VersionEdit))"

definition ex_edit :: VersionEdit where
  "ex_edit = AddFile 1 5 100 (fm_smallest (ex_files 0)) (fm_largest (ex_files 0)) make_VersionEdit"

definition ex_fs :: filesystem where
  "ex_fs = \<lparr>fs_files = [bytes_of ''db/CURRENT'' \<mapsto> bytes_of ''MANIFEST-000002'' @ [10], bytes_of ''db/MANIFEST-000002'' \<mapsto> log_bytes 0 (map enc [ex_first])],
     fs_strerror = (\<lambda>_. []), fs_calls = [], fs_writes = [], fs_reads = [Read_fails EINTR]\<rparr>"

lemma ex_keys: "desc_ok (ex_meta n)" "meta_fits ex_meta" "key_ok (fm_smallest (ex_files 0))" "key_ok (fm_largest (ex_files 0))"
  using ex_files_wf [of 0]
  by (simp_all add: desc_ok_def ex_meta_def file_wf_def meta_fits_def key_ok_def ex_files_def make_FileMetaData_def make_InternalKey_def
      AppendInternalKey_def PutFixed64_def)

lemma ex_edits: "edit_ok ex_edit" "edit_fits ex_meta ex_edit (\<lambda>_. {})" "edits_recoverable ex_meta ex_cf [ex_first]" "numbers_known [ex_first]"
proof -
  have "edit_built ex_edit" unfolding ex_edit_def by (intro edit_built.intros ex_keys) (simp add: level_ok_def kNumLevels_def)
  then show "edit_ok ex_edit" by (rule edit_built_ok)
  have "edit_built ex_first" unfolding ex_first_def by (intro edit_built.intros)
  then have "edit_ok ex_first" by (rule edit_built_ok)
  moreover have "replay (take k [ex_first]) (\<lambda>_. {}) level = {}" for k level
    by (cases k) (simp_all add: replay_def apply_edit_def ex_first_def SetLastSequence_def SetNextFile_def SetLogNumber_def make_VersionEdit_def)
  ultimately show "edits_recoverable ex_meta ex_cf [ex_first]"
    by (simp add: edits_recoverable_def edit_recoverable_def edit_files_ok_def disjoint_descs_def)
      (simp add: ex_first_def SetLastSequence_def SetNextFile_def SetLogNumber_def make_VersionEdit_def)
  show "numbers_known [ex_first]"
    by (simp add: numbers_known_def latest_def take_number_def ex_first_def SetLastSequence_def SetNextFile_def SetLogNumber_def)
  have desc: "meta_desc (make_FileMetaData 5 100 (fm_smallest (ex_files 0)) (fm_largest (ex_files 0))) = ex_meta 5"
    by (simp add: meta_desc_def make_FileMetaData_def ex_meta_def)
  have "apply_edit ex_edit (\<lambda>_. {}) level \<subseteq> {ex_meta 5}" for level
    using desc by (auto simp: apply_edit_def ex_edit_def AddFile_def make_VersionEdit_def)
  then have "disjoint_descs (apply_edit ex_edit (\<lambda>_. {}) level)" for level unfolding disjoint_descs_def by blast
  moreover have "edit_files_ok ex_meta ex_edit"
    using desc ex_keys(1) [of 5] by (simp add: edit_files_ok_def ex_edit_def AddFile_def make_VersionEdit_def level_ok_def kNumLevels_def)
      (simp add: make_FileMetaData_def)
  ultimately show "edit_fits ex_meta ex_edit (\<lambda>_. {})" by (simp add: edit_fits_def)
qed

lemma ex_cf_parts [simp]: "cf_Compare ex_cf = slice_compare" "\<not> opt_reuse_logs (cf_options ex_cf)" "cf_dbname ex_cf = bytes_of ''db''"
  by (simp_all add: ex_cf_def Options.extend_def DbOptions.fields_def)

lemma ex_fs_parts: "readable ex_fs" "fs_files ex_fs (CurrentFileName (cf_dbname ex_cf)) = Some (bytes_of ''MANIFEST-000002'' @ [10])"
  "fs_files ex_fs (cf_dbname ex_cf @ bytes_of ''/'' @ bytes_of ''MANIFEST-000002'') = Some (log_bytes 0 (map enc [ex_first]))"
  by (simp_all add: readable_def ex_fs_def CurrentFileName_def bytes_of_def)

text \<open>The example database, recovered.\<close>

lemma ex_recovered:
  obtains vs0 save vs fs' where "make_VersionSet ex_double = Some vs0"
    "Recover 2 (Suc (length (log_bytes 0 (map enc [ex_first])))) ex_double ex_cf 0 vs0 ex_fs = Some (OK, save, vs, fs')"
    "vset_reachable ex_double ex_cf ex_meta vs {#} (replay [ex_first] (\<lambda>_. {}))" "recovered_version ex_meta ex_cf [ex_first] vs"
proof -
  obtain vs0 where vs0: "make_VersionSet ex_double = Some vs0" "starting vs0 0" using make_VersionSet_ok [of ex_double] by blast
  let ?n = "length (log_bytes 0 (map enc [ex_first]))"
  have bytes: "fs_files ex_fs (cf_dbname ex_cf @ bytes_of ''/'' @ bytes_of ''MANIFEST-000002'') = Some (take ?n (log_bytes 0 (map enc [ex_first])))"
    using ex_fs_parts(3) by simp
  from Recover_ok [OF vs0(2) ex_fs_parts(1,2) bytes lessI _ ex_edits(3) ex_cf_parts(1), of 2 ex_double 0] obtain k where
    k: "k < length [ex_first] \<longrightarrow> ?n < length (log_bytes 0 (map enc (take (Suc k) [ex_first])))"
    "numbers_known (take k [ex_first]) \<longrightarrow> (\<exists>save vs' fs'. Recover 2 (Suc ?n) ex_double ex_cf 0 vs0 ex_fs = Some (OK, save, vs', fs') \<and>
      recovered_version ex_meta ex_cf (take k [ex_first]) vs')" by auto
  from k(2) ex_edits(4) obtain save vs fs' where
    r: "Recover 2 (Suc ?n) ex_double ex_cf 0 vs0 ex_fs = Some (OK, save, vs, fs')" "recovered_version ex_meta ex_cf [ex_first] vs"
    unfolding whole_log [OF refl k(1)] by blast
  have "vset_reachable ex_double ex_cf ex_meta vs {#} (replay [ex_first] (\<lambda>_. {}))"
    by (rule vset_reachable.recovered [OF vs0(1) ex_fs_parts ex_edits(3,4) lessI _ r(1)]) simp
  with that vs0(1) r show thesis by blast
qed

lemma ex_empty: "replay [ex_first] (\<lambda>_. {}) = (\<lambda>_. {})"
  by (simp add: replay_def apply_edit_def fun_eq_iff ex_first_def SetLastSequence_def SetNextFile_def SetLogNumber_def make_VersionEdit_def)

lemma ex_reachable:
  obtains vs where "vset_reachable ex_double ex_cf ex_meta vs {#} (\<lambda>_. {})" "vs_manifest_file_number vs = 3" "vs_compact_pointer vs = replicate 7 []"
proof -
  obtain vs0 save vs fs' where vs: "vset_reachable ex_double ex_cf ex_meta vs {#} (replay [ex_first] (\<lambda>_. {}))" "recovered_version ex_meta ex_cf [ex_first] vs"
    by (rule ex_recovered)
  have "vs_next_file_number vs = vs_manifest_file_number vs + 1" "numbers_are [ex_first] vs" "vs_compact_pointer vs = replicate 7 []"
    using vs(2) by (simp_all add: recovered_version_def replay_pointers_def set_pointers_def ex_first_def SetLastSequence_def SetNextFile_def SetLogNumber_def
      make_VersionEdit_def)
  moreover from this(2) have "vs_next_file_number vs = 3 + 1"
    by (simp add: numbers_are_def latest_def take_number_def ex_first_def SetLastSequence_def SetNextFile_def SetLogNumber_def)
  ultimately show thesis using that vs(1) ex_empty by simp
qed


theorem log_and_apply_refines_witness:
  "\<exists>vs s e vs' fs'. vset_reachable ex_double ex_cf ex_meta vs {#} (\<lambda>_. {}) \<and>
    LogAndApply ex_double ex_cf 0 ex_edit vs (ex_fs\<lparr>fs_calls := [None, Some EIO]\<rparr>) = Some (s, e, vs', fs') \<and>
    vset_inv ex_meta vs' {#} (if ok s then apply_edit ex_edit (\<lambda>_. {}) else (\<lambda>_. {}))"
proof -
  obtain vs where vs: "vset_reachable ex_double ex_cf ex_meta vs {#} (\<lambda>_. {})" "vs_manifest_file_number vs = 3" "vs_compact_pointer vs = replicate 7 []"
    by (rule ex_reachable)
  have "\<not> ve_has_log_number ex_edit" "ve_compact_pointers ex_edit = []" by (simp_all add: ex_edit_def AddFile_def make_VersionEdit_def)
  moreover have "state_fits ex_cf vs" using vs(3) by (simp add: state_fits_def ex_cf_def bytes_of_def)
  ultimately have "ve_has_log_number ex_edit \<longrightarrow> ve_log_number ex_edit \<ge> vs_log_number vs \<and> ve_log_number ex_edit < vs_next_file_number vs"
    "state_fits ex_cf (vs\<lparr>vs_compact_pointer := set_pointers (ve_compact_pointers ex_edit) (vs_compact_pointer vs)\<rparr>)" "0 < vs_manifest_file_number vs"
    using vs(2) by (simp_all add: set_pointers_def state_fits_def)
  from log_and_apply_refines [OF vs(1) ex_cf_parts(1) ex_keys(2) ex_edits(2,1) this, of 0 "ex_fs\<lparr>fs_calls := [None, Some EIO]\<rparr>"] vs(1)
  show ?thesis by blast
qed

theorem descriptor_recovered_witness:
  "\<exists>vs0. make_VersionSet ex_double = Some vs0 \<and> numbers_known [ex_first] \<and>
    (\<exists>save vs' fs'. Recover 2 (Suc (length (log_bytes 0 (map enc [ex_first])))) ex_double ex_cf 0 vs0 ex_fs = Some (OK, save, vs', fs') \<and>
      recovered_version ex_meta ex_cf [ex_first] vs')"
proof -
  obtain vs0 where vs0: "make_VersionSet ex_double = Some vs0" using make_VersionSet_ok [of ex_double] by blast
  let ?n = "length (log_bytes 0 (map enc [ex_first]))"
  have bytes: "fs_files ex_fs (cf_dbname ex_cf @ bytes_of ''/'' @ bytes_of ''MANIFEST-000002'') = Some (take ?n (log_bytes 0 (map enc [ex_first])))"
    using ex_fs_parts(3) by simp
  have rounds: "length [ex_first] < 2" by simp
  obtain k where k: "k < length [ex_first] \<longrightarrow> ?n < length (log_bytes 0 (map enc (take (Suc k) [ex_first])))"
    "numbers_known (take k [ex_first]) \<longrightarrow> (\<exists>save vs' fs'. Recover 2 (Suc ?n) ex_double ex_cf 0 vs0 ex_fs = Some (OK, save, vs', fs') \<and>
      recovered_version ex_meta ex_cf (take k [ex_first]) vs')"
    using descriptor_recovered [OF vs0 ex_fs_parts(1,2) bytes lessI rounds ex_edits(3) ex_cf_parts(1)] by blast
  from k(2) ex_edits(4) show ?thesis unfolding whole_log [OF refl k(1)] using vs0 by blast
qed

end
