(* ===== verification/Spec2Isabelle.thy ===== *)
theory Spec2Isabelle
  imports Pb_Encode_Properties Pb_Decode_Properties Cct_Descriptors Firebasecore_Descriptors Base64_Spec Ldb_Recovery Ldb_Table_Spec
    Ldb_Cache_Spec Ldb_Posix_Env Ldb_Version_Edit Ldb_Table_Cache_Spec Ldb_Version_States
begin

text \<open>
  A verification of the C and C++ code that the chat application under \<^verbatim>\<open>src/ChatApp\<close> links: the application itself is
  a few Swift view controllers over Firebase, and what stores and transports its messages is in the pods. The
  development models three of them, from the source, and proves what makes each correct.

  \<^bold>\<open>The parts of the program.\<close>
  \<^item> nanopb (\<^verbatim>\<open>Pods/nanopb\<close>): protocol buffers. \<^verbatim>\<open>pb_encode.c\<close> walks the descriptor of a message over a structure in
    memory and writes the wire format; \<^verbatim>\<open>pb_decode.c\<close> reads it back; \<^verbatim>\<open>pb_common.c\<close> iterates over descriptors.
    The generated descriptors of the log transport and of Firebase Core diagnostics are its clients.
  \<^item> SocketRocket's Base64 (\<^verbatim>\<open>fbase64.c\<close>), for the handshake of Firebase's web socket.
  \<^item> leveldb (\<^verbatim>\<open>Pods/leveldb-library\<close>), the store of Firebase's offline data. A write goes into a write batch, the
    batch into the log and then into the memtable, a skip list. Full memtables become tables: sorted blocks with an index,
    a filter and a footer. The versions of the set of tables are kept in a descriptor file,
    and open tables in a cache.

  \<^bold>\<open>Theories.\<close> \<^verbatim>\<open>Prelude\<close> has bytes, memory, C integers and shared lemmas.

  nanopb:
  \<^item> \<^verbatim>\<open>Pb_Types\<close>, \<^verbatim>\<open>C_Struct\<close>: \<^verbatim>\<open>pb.h\<close>. Type codes, descriptors, the layout of structures, the macros that build
    descriptors from members. \<^verbatim>\<open>Pb_Common\<close>: the field iterator. \<^verbatim>\<open>Pb_Wire\<close>: the wire format, as a specification.
  \<^item> \<^verbatim>\<open>Pb_Encode\<close>: every function of \<^verbatim>\<open>pb_encode.c\<close>, on a memory of bytes and an output stream; \<^verbatim>\<open>Pb_Encode_Spec\<close>
    the lemmas and \<^verbatim>\<open>Pb_Encode_Properties\<close> the properties: the bytes are those of the specification of a message,
    full buffers and messages that cannot be represented are rejected without a write outside the buffer.
  \<^item> \<^verbatim>\<open>Pb_Istream\<close>, \<^verbatim>\<open>Pb_Decode\<close>: every function of \<^verbatim>\<open>pb_decode.c\<close>; \<^verbatim>\<open>Pb_Istream_Spec\<close>, \<^verbatim>\<open>Pb_Decode_Safety\<close>,
    \<^verbatim>\<open>Pb_Decode_Properties\<close>: readers are exact on any input, what was encoded is read back, and decoding
    any input returns and writes only inside the structure. Application callbacks are parameters of the model.
  \<^item> \<^verbatim>\<open>Cct_Descriptors\<close>, \<^verbatim>\<open>Firebasecore_Descriptors\<close>: the generated structures and descriptor arrays.

  Base64: \<^verbatim>\<open>Base64\<close> has the two functions with the state machine of the decoder, \<^verbatim>\<open>Base64_Spec\<close> shows them exact.

  leveldb, bottom up:
  \<^item> \<^verbatim>\<open>Ldb_Slice\<close> (\<^verbatim>\<open>slice.h\<close>, \<^verbatim>\<open>comparator.cc\<close>; the locale of comparators), \<^verbatim>\<open>Ldb_Coding\<close> (\<^verbatim>\<open>coding.cc\<close>),
    \<^verbatim>\<open>Ldb_Format\<close> (\<^verbatim>\<open>dbformat.cc\<close>), \<^verbatim>\<open>Ldb_Crc\<close> and \<^verbatim>\<open>Ldb_Crc_Spec\<close> (\<^verbatim>\<open>crc32c.cc\<close>: the table-driven loop is the
    remainder of a polynomial), \<^verbatim>\<open>Ldb_Random\<close> (\<^verbatim>\<open>random.h\<close>), \<^verbatim>\<open>Ldb_Env\<close> (\<^verbatim>\<open>status.cc\<close> and the files of
    \<^verbatim>\<open>env_posix.cc\<close>; the locales of writable and sequential files).
  \<^item> \<^verbatim>\<open>Ldb_Log\<close>, \<^verbatim>\<open>Ldb_Log_Spec\<close> (\<^verbatim>\<open>log_writer.cc\<close>, \<^verbatim>\<open>log_reader.cc\<close>): what was written and flushed is read back from a
    file cut anywhere, without a report of corruption.
  \<^item> \<^verbatim>\<open>Ldb_Skiplist\<close>, \<^verbatim>\<open>Ldb_Skiplist_Spec\<close> (\<^verbatim>\<open>skiplist.h\<close>), \<^verbatim>\<open>Ldb_Memtable\<close> (\<^verbatim>\<open>memtable.cc\<close>), \<^verbatim>\<open>Ldb_Write_Batch\<close>
    (\<^verbatim>\<open>write_batch.cc\<close>): the list is a sorted set, the memtable answers with the newest visible entry, a batch is
    delivered as it was put in. \<^verbatim>\<open>Ldb_Recovery\<close> (\<^verbatim>\<open>db_impl.cc\<close>, \<^verbatim>\<open>RecoverLogFile\<close>) composes log, batches and memtable:
    after a crash exactly the batches that are whole in the file are there.
  \<^item> \<^verbatim>\<open>Ldb_Bloom\<close> (\<^verbatim>\<open>hash.cc\<close>, \<^verbatim>\<open>bloom.cc\<close>), \<^verbatim>\<open>Ldb_Filter_Block\<close> (\<^verbatim>\<open>filter_block.cc\<close>): no false negatives.
  \<^item> \<^verbatim>\<open>Ldb_Block\<close>, \<^verbatim>\<open>Ldb_Block_Spec\<close> (\<^verbatim>\<open>block_builder.cc\<close>, \<^verbatim>\<open>block.cc\<close>), \<^verbatim>\<open>Ldb_Table_Format\<close> (\<^verbatim>\<open>format.cc\<close> and the
    random access files), \<^verbatim>\<open>Ldb_Table\<close>, \<^verbatim>\<open>Ldb_Table_Spec\<close> (\<^verbatim>\<open>table_builder.cc\<close>, \<^verbatim>\<open>table.cc\<close>): the iterator of a block is a
    position in its entries, and a table that was built answers lookups with the first entry that is not before the key.
  \<^item> \<^verbatim>\<open>Ldb_Cache\<close>, \<^verbatim>\<open>Ldb_Cache_Spec\<close> (\<^verbatim>\<open>cache.cc\<close>): an invariant over all states that clients can reach, the
    operations as operations on a map, and that every value is deleted once.
  \<^item> \<^verbatim>\<open>Ldb_Filename\<close> (\<^verbatim>\<open>logging.cc\<close>, \<^verbatim>\<open>filename.cc\<close>), \<^verbatim>\<open>Ldb_Posix_Env\<close> (files by name in \<^verbatim>\<open>env_posix.cc\<close>, \<^verbatim>\<open>env.cc\<close>,
    \<^verbatim>\<open>SetCurrentFile\<close>), \<^verbatim>\<open>Ldb_Version_Edit\<close> (\<^verbatim>\<open>version_edit.cc\<close>): names and edits are read back, and the switch to a
    new descriptor is atomic.
  \<^item> \<^verbatim>\<open>Ldb_Version\<close>, \<^verbatim>\<open>Ldb_Version_Spec\<close> (\<^verbatim>\<open>version_set.cc\<close>: \<^verbatim>\<open>FindFile\<close>, \<^verbatim>\<open>SomeFileOverlapsRange\<close>, the iterator over the files of
    a level, the operations of \<^verbatim>\<open>Version\<close>): the binary search gives the file that may hold a key, the overlap
    test and \<^verbatim>\<open>GetOverlappingInputs\<close> are exact, and \<^verbatim>\<open>Version::Get\<close> over any table cache that satisfies the locale of table caches gives the
    newest visible entry of a key.
  \<^item> \<^verbatim>\<open>Ldb_Table_Cache\<close>, \<^verbatim>\<open>Ldb_Table_Cache_Spec\<close> (\<^verbatim>\<open>table_cache.cc\<close>, the limiters and random access files of
    \<^verbatim>\<open>env_posix.cc\<close>): the table cache over the sharded cache and the tables satisfies that locale.
  \<^item> \<^verbatim>\<open>Ldb_Version_Set\<close> (\<^verbatim>\<open>version_set.cc\<close>: \<^verbatim>\<open>VersionSet\<close> and its builder, \<^verbatim>\<open>LogAndApply\<close>, \<^verbatim>\<open>Recover\<close>), with one theory for each
    step of its proof: \<^verbatim>\<open>Ldb_Version_Refs\<close> the reference counts of versions and files, \<^verbatim>\<open>Ldb_Version_Build\<close> the builder as an
    operation on sets of files, \<^verbatim>\<open>Ldb_Manifest\<close> what \<^verbatim>\<open>LogAndApply\<close> installs whatever the file system does, \<^verbatim>\<open>Ldb_Version_Recovery\<close>
    that \<^verbatim>\<open>Recover\<close> gives the version of the edits in the descriptor, and \<^verbatim>\<open>Ldb_Version_States\<close> an invariant over all states that
    clients of the version set can reach.

  \<^bold>\<open>How the code is modelled.\<close> A structure is a \<open>record\<close> whose fields have a prefix for the class, an operation a function from the
  state to the state; fixed-width integers that can wrap around are words, sizes and offsets of objects in memory are natural numbers.
  A result type \<open>option\<close> stands for runs that violate an assertion or access memory out of bounds, so a theorem
  that an operation gives \<open>Some\<close> says that it does neither. Errors that the code reports are values: \<open>Status\<close> in leveldb, a flag and
  a message in nanopb. Linked structures of leveldb (the lists of the cache, the chains of its table) are lists of
  indices; nanopb works on addresses, as its correctness depends on the layout. The operating
  system is a list of outcomes in the state of a file: a write can be short, interrupted or fail at every call.

  \<^bold>\<open>Bounds.\<close> Loops are recursive functions with a termination proof; nanopb's recursion over nested messages has a fuel
  argument that the properties show to be enough for a descriptor of that depth; the eviction loops of the cache are partial
  functions, with a proof that they return. \<^verbatim>\<open>Recover\<close> takes the number of reads of a file and of records of a descriptor as
  arguments, and the properties show that more than the bytes and the edits of the descriptor are enough. Blocks and keys are
  below \<open>2\<^sup>32\<close> bytes, as the code's 32-bit offsets require; a shard of the cache has fewer than \<open>2\<^sup>31\<close> handles.

  \<^bold>\<open>Not modelled.\<close> The Objective-C pods (Firebase, GoogleUtilities, GTMSessionFetcher, promises) are client libraries of
  network services in another language; the Swift files are user interface. Of leveldb: the choice
  and the inputs of compactions (\<^verbatim>\<open>PickCompaction\<close> and what follows it in \<^verbatim>\<open>version_set.cc\<close>), \<^verbatim>\<open>DBImpl\<close> apart from the recovery of a log, the
  iterators over several tables (\<^verbatim>\<open>two_level_iterator.cc\<close>, \<^verbatim>\<open>merger.cc\<close>, \<^verbatim>\<open>db_iter.cc\<close> and the operations that make them:
  \<^verbatim>\<open>AddIterators\<close>, \<^verbatim>\<open>TableCache::NewIterator\<close>, \<^verbatim>\<open>ApproximateOffsetOf\<close>), and the branch of \<^verbatim>\<open>BlockReader\<close> that uses a cache of
  blocks. The \<^verbatim>\<open>double\<close> arithmetic that ranks levels in \<^verbatim>\<open>Finalize\<close> is a parameter, a record of the operations
  the code applies; no property depends on what it gives. \<^verbatim>\<open>LogAndApply\<close> releases its mutex while it writes, and what other threads do
  meanwhile is not modelled. Threads, locks, directories, time and loggers of
  \<^verbatim>\<open>env_posix.cc\<close>, the C binding \<^verbatim>\<open>c.cc\<close>, \<^verbatim>\<open>repair.cc\<close>, \<^verbatim>\<open>dumpfile.cc\<close> and the histograms are glue or output. Snappy is
  not part of the build, so the branches that use it are those of its absence.
\<close>

end
